(* ===== verification/Prelude.thy ===== *)
theory Prelude
  imports Main "HOL-Library.Word"
begin

text \<open>
  Shared vocabulary of the development: C values, the outcome of C code that may run into
  undefined behaviour, and the generic lemmas on lists, sums and loops that several
  components use.

  Conventions. A byte is a \<open>char\<close>; \<open>code c\<close> is its value as an \<open>unsigned char\<close>. A
  \<open>size_t\<close> or a buffer offset is a \<open>nat\<close> (wrap-around written out where the code can
  reach it), an \<open>int\<close> return code an \<open>int\<close>. Pointers to objects are identifiers in
  \<open>nat\<close>. An allocation may fail: the functions that allocate take the answer of the
  allocator as an argument.
\<close>

section \<open>Bytes\<close>

abbreviation code :: "char \<Rightarrow> nat" where
  "code c \<equiv> of_char c"

abbreviation NUL :: char where
  "NUL \<equiv> CHR 0x00"

abbreviation CR :: char where
  "CR \<equiv> CHR 0x0D"

abbreviation LF :: char where
  "LF \<equiv> CHR 0x0A"

abbreviation TAB :: char where
  "TAB \<equiv> CHR 0x09"

abbreviation SP :: char where
  "SP \<equiv> CHR 0x20"

abbreviation CRLF :: string where
  "CRLF \<equiv> [CR, LF]"

text \<open>\<open>SIZE_MAX\<close> is \<open>(size_t)-1\<close> on the 64-bit targets the code is built for.\<close>

abbreviation SIZE_MAX :: int where
  "SIZE_MAX \<equiv> 2 ^ 64 - 1"

text \<open>The test \<open>(signed char)c <= 0\<close>: the NUL byte and the bytes from 128 up.\<close>

definition schar_le0 :: "char \<Rightarrow> bool" where
  "schar_le0 c \<longleftrightarrow> code c = 0 \<or> 128 \<le> code c"

lemma code_inject [simp]: "(code c :: nat) = code d \<longleftrightarrow> c = d"
  using char_of_char [where ?'a = nat] by metis

text \<open>Equality with a literal byte as a test on the code, for one literal at a time.\<close>

lemma char_eq_code: "c = d \<longleftrightarrow> (code c :: nat) = code d"
  by simp

lemma code_NUL_iff [simp]: "(code c :: nat) = 0 \<longleftrightarrow> c = NUL"
  using code_inject [of c NUL] by (simp del: code_inject)

lemma all_chars_code: "(\<forall>c::char. P c) \<longleftrightarrow> (\<forall>n<256. P (char_of (n::nat)))"
  using char_of_char [where ?'a = nat] nat_of_char_less_256 by metis

section \<open>Outcomes of C code\<close>

text \<open>\<open>UB\<close>: the code reads or writes outside its objects; anything may happen.\<close>

datatype 'a outcome = UB | Ret 'a

text \<open>A computation that may not end (\<open>None\<close>), continued.\<close>

definition obind :: "'a outcome option \<Rightarrow> ('a \<Rightarrow> 'b outcome option) \<Rightarrow> 'b outcome option" where
  "obind m f = (case m of None \<Rightarrow> None | Some UB \<Rightarrow> Some UB | Some (Ret x) \<Rightarrow> f x)"

lemma obind_Ret [simp]: "obind (Some (Ret x)) f = f x"
  by (simp add: obind_def)

text \<open>A computation that always ends, continued.\<close>

definition andthen :: "'a outcome \<Rightarrow> ('a \<Rightarrow> 'b outcome) \<Rightarrow> 'b outcome" where
  "andthen m f = (case m of UB \<Rightarrow> UB | Ret x \<Rightarrow> f x)"

lemma andthen_Ret [simp]: "andthen (Ret x) f = f x" "andthen UB f = UB"
  by (simp_all add: andthen_def)

lemma andthen_eq_Ret: "andthen m f = Ret y \<longleftrightarrow> (\<exists>x. m = Ret x \<and> f x = Ret y)"
  by (cases m) simp_all

section \<open>Hints\<close>

named_theorems inv_defs \<open>unfolding rules of the component invariants\<close>
named_theorems op_defs \<open>unfolding rules of the component operations\<close>

section \<open>Lists\<close>

lemma nth_append_right [simp]: "(xs @ ys) ! (length xs + n) = ys ! n"
  by (simp add: nth_append)

lemma takeWhile_all_append: "\<forall>x\<in>set xs. P x \<Longrightarrow> takeWhile P (xs @ ys) = xs @ takeWhile P ys"
  by (simp add: takeWhile_append2)

lemma dropWhile_all_append: "\<forall>x\<in>set xs. P x \<Longrightarrow> dropWhile P (xs @ ys) = dropWhile P ys"
  by (simp add: dropWhile_append2)

lemma length_dropWhile_less:
  "dropWhile P xs = y # ys \<Longrightarrow> length ys < length xs"
  using dropWhile_eq_Cons_conv [of P xs y ys] length_takeWhile_le [of P xs]
  by (metis add.commute add_Suc_right le_add1 length_Cons length_append less_Suc_eq_le)

lemma sum_list_update_int:
  "i < length xs \<Longrightarrow> sum_list (xs[i := (v::int)]) = sum_list xs - xs ! i + v"
  by (induction xs arbitrary: i) (auto split: nat.splits)

lemma set_take_subset_nth: "i < n \<Longrightarrow> i < length xs \<Longrightarrow> xs ! i \<in> set (take n xs)"
  by (metis in_set_conv_nth length_take min_less_iff_conj nth_take)

end
