(* ===== verification/Rbtree.thy ===== *)
theory Rbtree
  imports Prelude
begin

text \<open>
  \<open>src/struct/rbtree.c\<close> and \<open>rbtree.h\<close>: the red-black trees of the kernel, at the level of their
  pointers. The fields of the nodes are functions of the address; following a null pointer is
  \<open>UB\<close>. The code has every routine for balancing twice, once with the roles of left and right
  exchanged; a flag says which copy is meant. The loops that walk up the tree are
  \<open>partial_function\<close>s, whose value is \<open>None\<close> when they do not end.
\<close>

datatype rb_color = RB_RED | RB_BLACK

record rb_tree =
  rb_parent :: "nat \<Rightarrow> nat option"
  rb_right :: "nat \<Rightarrow> nat option"
  rb_left :: "nat \<Rightarrow> nat option"
  rb_color :: "nat \<Rightarrow> rb_color"
  rb_node :: "nat option"

definition rb_child :: "bool \<Rightarrow> rb_tree \<Rightarrow> nat \<Rightarrow> nat option" where
  "rb_child lft h a = (if lft then rb_left h a else rb_right h a)"

definition rb_set_child :: "bool \<Rightarrow> nat \<Rightarrow> nat option \<Rightarrow> rb_tree \<Rightarrow> rb_tree" where
  "rb_set_child lft a x h =
     (if lft then h\<lparr>rb_left := (rb_left h)(a := x)\<rparr> else h\<lparr>rb_right := (rb_right h)(a := x)\<rparr>)"

definition rb_set_parent :: "nat \<Rightarrow> nat option \<Rightarrow> rb_tree \<Rightarrow> rb_tree" where
  "rb_set_parent a x h = h\<lparr>rb_parent := (rb_parent h)(a := x)\<rparr>"

definition rb_set_color :: "nat \<Rightarrow> rb_color \<Rightarrow> rb_tree \<Rightarrow> rb_tree" where
  "rb_set_color a c h = h\<lparr>rb_color := (rb_color h)(a := c)\<rparr>"

text \<open>\<open>if (x) x->rb_parent = p\<close> and \<open>if (x) x->rb_color = c\<close>.\<close>

definition rb_adopt :: "nat option \<Rightarrow> nat option \<Rightarrow> rb_tree \<Rightarrow> rb_tree" where
  "rb_adopt x p h = (case x of None \<Rightarrow> h | Some a \<Rightarrow> rb_set_parent a p h)"

definition rb_paint :: "nat option \<Rightarrow> rb_color \<Rightarrow> rb_tree \<Rightarrow> rb_tree" where
  "rb_paint x c h = (case x of None \<Rightarrow> h | Some a \<Rightarrow> rb_set_color a c h)"

text \<open>The pointer to \<open>old\<close>, in its parent or in the root, is set to \<open>x\<close>.\<close>

definition rb_relink :: "bool \<Rightarrow> nat option \<Rightarrow> nat \<Rightarrow> nat option \<Rightarrow> rb_tree \<Rightarrow> rb_tree" where
  "rb_relink lft p old x h =
     (case p of
        None \<Rightarrow> h\<lparr>rb_node := x\<rparr>
      | Some q \<Rightarrow> if rb_child lft h q = Some old then rb_set_child lft q x h else rb_set_child (\<not> lft) q x h)"

text \<open>\<open>__rb_rotate_left\<close> for \<open>lft\<close>, else \<open>__rb_rotate_right\<close>.\<close>

definition rb_rotate :: "bool \<Rightarrow> nat \<Rightarrow> rb_tree \<Rightarrow> rb_tree outcome" where
  "rb_rotate lft node h =
     (case rb_child (\<not> lft) h node of
        None \<Rightarrow> UB
      | Some r \<Rightarrow>
          let h1 = rb_set_child (\<not> lft) node (rb_child lft h r) h;
              h2 = rb_adopt (rb_child lft h1 r) (Some node) h1;
              h3 = rb_set_child lft r (Some node) h2;
              h4 = rb_set_parent r (rb_parent h3 node) h3;
              h5 = rb_relink lft (rb_parent h4 node) node (Some r) h4
          in Ret (rb_set_parent node (Some r) h5))"

section \<open>Insertion\<close>

definition rb_link_node :: "nat \<Rightarrow> nat option \<Rightarrow> bool \<Rightarrow> rb_tree \<Rightarrow> rb_tree" where
  "rb_link_node node par lft h =
     (let h1 = rb_set_child True node None (rb_set_child False node None
                 (rb_set_color node RB_RED (rb_set_parent node par h)))
      in case par of None \<Rightarrow> h1\<lparr>rb_node := Some node\<rparr> | Some p \<Rightarrow> rb_set_child lft p (Some node) h1)"

text \<open>One round of the loop of \<open>rb_insert_color\<close>: the node to go on with, if any.\<close>

definition insert_step :: "nat \<Rightarrow> rb_tree \<Rightarrow> (nat option \<times> rb_tree) outcome" where
  "insert_step node h =
     (case rb_parent h node of
        None \<Rightarrow> Ret (None, h)
      | Some par \<Rightarrow>
          if rb_color h par \<noteq> RB_RED then Ret (None, h)
          else
            (case rb_parent h par of
               None \<Rightarrow> UB
             | Some gpar \<Rightarrow>
                 let lft = (rb_left h gpar = Some par);
                     uncle = rb_child (\<not> lft) h gpar
                 in if (case uncle of None \<Rightarrow> False | Some u \<Rightarrow> rb_color h u = RB_RED)
                    then Ret (Some gpar, rb_set_color gpar RB_RED (rb_set_color par RB_BLACK (rb_paint uncle RB_BLACK h)))
                    else
                      (case (if rb_child (\<not> lft) h par = Some node
                             then (case rb_rotate lft par h of UB \<Rightarrow> UB | Ret h1 \<Rightarrow> Ret (node, par, h1))
                             else Ret (par, node, h)) of
                         UB \<Rightarrow> UB
                       | Ret (par1, node1, h1) \<Rightarrow>
                           (case rb_rotate (\<not> lft) gpar (rb_set_color gpar RB_RED (rb_set_color par1 RB_BLACK h1)) of
                              UB \<Rightarrow> UB | Ret h2 \<Rightarrow> Ret (Some node1, h2)))))"

partial_function (option) insert_loop :: "nat \<Rightarrow> rb_tree \<Rightarrow> rb_tree outcome option" where
  "insert_loop node h =
     (case insert_step node h of
        UB \<Rightarrow> Some UB
      | Ret (None, h1) \<Rightarrow> Some (Ret h1)
      | Ret (Some n, h1) \<Rightarrow> insert_loop n h1)"

declare insert_loop.simps [code]

definition rb_insert_color :: "nat \<Rightarrow> rb_tree \<Rightarrow> rb_tree outcome option" where
  "rb_insert_color node h =
     (case insert_loop node h of
        None \<Rightarrow> None
      | Some UB \<Rightarrow> Some UB
      | Some (Ret h1) \<Rightarrow>
          (case rb_node h1 of None \<Rightarrow> Some UB | Some r \<Rightarrow> Some (Ret (rb_set_color r RB_BLACK h1))))"

section \<open>Removal\<close>

text \<open>\<open>!x || x->rb_color == RB_BLACK\<close>\<close>

definition rb_black :: "rb_tree \<Rightarrow> nat option \<Rightarrow> bool" where
  "rb_black h x = (case x of None \<Rightarrow> True | Some a \<Rightarrow> rb_color h a = RB_BLACK)"

text \<open>
  One round of the loop of \<open>__rb_erase_color\<close>: first a red sibling is rotated away; then either
  the sibling becomes red and the round ends at the parent, or the rotations end the loop.
  The result: whether to go on, the new \<open>node\<close> and \<open>parent\<close>.
\<close>

definition erase_sibling :: "bool \<Rightarrow> nat \<Rightarrow> rb_tree \<Rightarrow> (nat \<times> rb_tree) outcome" where
  "erase_sibling lft par h =
     (case rb_child (\<not> lft) h par of
        None \<Rightarrow> UB
      | Some other \<Rightarrow>
          if rb_color h other = RB_RED then
            (case rb_rotate lft par (rb_set_color par RB_RED (rb_set_color other RB_BLACK h)) of
               UB \<Rightarrow> UB
             | Ret h1 \<Rightarrow> (case rb_child (\<not> lft) h1 par of None \<Rightarrow> UB | Some other1 \<Rightarrow> Ret (other1, h1)))
          else Ret (other, h))"

definition erase_inner :: "bool \<Rightarrow> nat \<Rightarrow> nat \<Rightarrow> rb_tree \<Rightarrow> (nat \<times> rb_tree) outcome" where
  "erase_inner lft par other h =
     (if rb_black h (rb_child (\<not> lft) h other) then
        (case rb_rotate (\<not> lft) other (rb_set_color other RB_RED (rb_paint (rb_child lft h other) RB_BLACK h)) of
           UB \<Rightarrow> UB
         | Ret h1 \<Rightarrow> (case rb_child (\<not> lft) h1 par of None \<Rightarrow> UB | Some other1 \<Rightarrow> Ret (other1, h1)))
      else Ret (other, h))"

definition erase_outer :: "bool \<Rightarrow> nat \<Rightarrow> nat \<Rightarrow> rb_tree \<Rightarrow> rb_tree outcome" where
  "erase_outer lft par other h =
     (let h1 = rb_set_color par RB_BLACK (rb_set_color other (rb_color h par) h)
      in rb_rotate lft par (rb_paint (rb_child (\<not> lft) h1 other) RB_BLACK h1))"

definition erase_step :: "nat option \<Rightarrow> nat option \<Rightarrow> rb_tree \<Rightarrow> (bool \<times> nat option \<times> nat option \<times> rb_tree) outcome" where
  "erase_step node par h =
     (if \<not> (rb_black h node \<and> node \<noteq> rb_node h) then Ret (False, node, par, h)
      else
        (case par of
           None \<Rightarrow> UB
         | Some p \<Rightarrow>
             let lft = (rb_left h p = node) in
             case erase_sibling lft p h of
               UB \<Rightarrow> UB
             | Ret (other, h1) \<Rightarrow>
                 if rb_black h1 (rb_left h1 other) \<and> rb_black h1 (rb_right h1 other)
                 then Ret (True, Some p, rb_parent h1 p, rb_set_color other RB_RED h1)
                 else
                   (case erase_inner lft p other h1 of
                      UB \<Rightarrow> UB
                    | Ret (other2, h2) \<Rightarrow>
                        (case erase_outer lft p other2 h2 of
                           UB \<Rightarrow> UB | Ret h3 \<Rightarrow> Ret (False, rb_node h3, Some p, h3)))))"

partial_function (option) rb_erase_color :: "nat option \<Rightarrow> nat option \<Rightarrow> rb_tree \<Rightarrow> rb_tree outcome option" where
  "rb_erase_color node par h =
     (case erase_step node par h of
        UB \<Rightarrow> Some UB
      | Ret (go, node1, par1, h1) \<Rightarrow>
          if go then rb_erase_color node1 par1 h1 else Some (Ret (rb_paint node1 RB_BLACK h1)))"

declare rb_erase_color.simps [code]

text \<open>The node leaves its place to its only child.\<close>

definition rb_splice :: "nat \<Rightarrow> nat option \<Rightarrow> rb_tree \<Rightarrow> rb_tree" where
  "rb_splice node child h = rb_relink True (rb_parent h node) node child (rb_adopt child (rb_parent h node) h)"

text \<open>The walk to the end of the tree on one side.\<close>

partial_function (option) rb_end :: "bool \<Rightarrow> nat \<Rightarrow> rb_tree \<Rightarrow> nat option" where
  "rb_end lft node h = (case rb_child lft h node of None \<Rightarrow> Some node | Some l \<Rightarrow> rb_end lft l h)"

declare rb_end.simps [code]

text \<open>\<open>node\<close> takes the place, the colour and the children of \<open>old\<close>, which has a left child.\<close>

definition erase_take_place :: "nat \<Rightarrow> nat \<Rightarrow> rb_tree \<Rightarrow> rb_tree outcome" where
  "erase_take_place node old h =
     (let h1 = rb_set_child True node (rb_left h old) (rb_set_child False node (rb_right h old)
                 (rb_set_color node (rb_color h old) (rb_set_parent node (rb_parent h old) h)));
          h2 = rb_relink True (rb_parent h1 old) old (Some node) h1
      in case rb_left h2 old of
           None \<Rightarrow> UB
         | Some l \<Rightarrow> Ret (rb_adopt (rb_right h2 old) (Some node) (rb_set_parent l (Some node) h2)))"

definition rb_erase :: "nat \<Rightarrow> rb_tree \<Rightarrow> rb_tree outcome option" where
  "rb_erase node h =
     (case (rb_left h node, rb_right h node) of
        (Some l, Some r) \<Rightarrow>
          (case rb_end True r h of
             None \<Rightarrow> None
           | Some succ \<Rightarrow>
               let child = rb_right h succ; color = rb_color h succ;
                   h1 = rb_splice succ child h;
                   par = (if rb_parent h1 succ = Some node then Some succ else rb_parent h succ)
               in case erase_take_place succ node h1 of
                    UB \<Rightarrow> Some UB
                  | Ret h2 \<Rightarrow> if color = RB_BLACK then rb_erase_color child par h2 else Some (Ret h2))
      | (None, child) \<Rightarrow>
          let h1 = rb_splice node child h in
          if rb_color h node = RB_BLACK then rb_erase_color child (rb_parent h node) h1 else Some (Ret h1)
      | (child, None) \<Rightarrow>
          let h1 = rb_splice node child h in
          if rb_color h node = RB_BLACK then rb_erase_color child (rb_parent h node) h1 else Some (Ret h1))"

section \<open>Walking and replacing\<close>

definition rb_first :: "rb_tree \<Rightarrow> nat option option" where
  "rb_first h = (case rb_node h of None \<Rightarrow> Some None | Some n \<Rightarrow> map_option Some (rb_end True n h))"

definition rb_last :: "rb_tree \<Rightarrow> nat option option" where
  "rb_last h = (case rb_node h of None \<Rightarrow> Some None | Some n \<Rightarrow> map_option Some (rb_end False n h))"

text \<open>The walk up while the node is the child of its parent on the side \<open>lft\<close>.\<close>

partial_function (option) rb_climb :: "bool \<Rightarrow> nat \<Rightarrow> rb_tree \<Rightarrow> nat option option" where
  "rb_climb lft node h =
     (case rb_parent h node of
        None \<Rightarrow> Some None
      | Some p \<Rightarrow> if rb_child lft h p = Some node then rb_climb lft p h else Some (Some p))"

declare rb_climb.simps [code]

text \<open>\<open>rb_next\<close> for \<open>fwd\<close>, else \<open>rb_prev\<close>.\<close>

definition rb_step :: "bool \<Rightarrow> nat \<Rightarrow> rb_tree \<Rightarrow> nat option option" where
  "rb_step fwd node h =
     (case rb_child (\<not> fwd) h node of
        Some n \<Rightarrow> map_option Some (rb_end fwd n h)
      | None \<Rightarrow> rb_climb (\<not> fwd) node h)"

definition rb_replace_node :: "nat \<Rightarrow> nat \<Rightarrow> rb_tree \<Rightarrow> rb_tree" where
  "rb_replace_node victim newnode h =
     (let h1 = rb_relink True (rb_parent h victim) victim (Some newnode) h;
          h2 = rb_adopt (rb_left h1 victim) (Some newnode) h1;
          h3 = rb_adopt (rb_right h2 victim) (Some newnode) h2
      in rb_set_child True newnode (rb_left h3 victim) (rb_set_child False newnode (rb_right h3 victim)
           (rb_set_color newnode (rb_color h3 victim) (rb_set_parent newnode (rb_parent h3 victim) h3))))"

end
