(* ===== verification/RbtreeHeap.thy ===== *)
theory RbtreeHeap
  imports Rbtree
begin

text \<open>
  Trees in the pointer structure. A position of a tree is a context, the path from the position to
  the root with the subtrees that hang off it, and the subtree at the position; \<open>at h K t\<close> says that
  the pointers hold them. The lemmas say how every pointer operation moves from one such pair to
  another, so that the balancing code can be followed on trees.
\<close>

section \<open>Trees and contexts\<close>

datatype ptree = Lf | Nd ptree nat rb_color ptree

type_synonym rb_ctx = "(bool \<times> nat \<times> rb_color \<times> ptree) list"

text \<open>A node with the child on the side \<open>lft\<close> first.\<close>

definition nd :: "bool \<Rightarrow> ptree \<Rightarrow> nat \<Rightarrow> rb_color \<Rightarrow> ptree \<Rightarrow> ptree" where
  "nd lft near a c far = (if lft then Nd near a c far else Nd far a c near)"

fun root_of :: "ptree \<Rightarrow> nat option" where
  "root_of Lf = None"
| "root_of (Nd l a c r) = Some a"

fun col :: "ptree \<Rightarrow> rb_color" where
  "col Lf = RB_BLACK"
| "col (Nd l a c r) = c"

fun paint :: "rb_color \<Rightarrow> ptree \<Rightarrow> ptree" where
  "paint c Lf = Lf"
| "paint c (Nd l a c' r) = Nd l a c r"

fun nodes :: "ptree \<Rightarrow> nat list" where
  "nodes Lf = []"
| "nodes (Nd l a c r) = nodes l @ a # nodes r"

definition ctx_parent :: "rb_ctx \<Rightarrow> nat option" where
  "ctx_parent K = (case K of [] \<Rightarrow> None | (lft, a, c, s) # _ \<Rightarrow> Some a)"

fun ctx_addrs :: "rb_ctx \<Rightarrow> nat set" where
  "ctx_addrs [] = {}"
| "ctx_addrs ((lft, a, c, s) # K) = insert a (set (nodes s) \<union> ctx_addrs K)"

fun plug :: "rb_ctx \<Rightarrow> ptree \<Rightarrow> ptree" where
  "plug [] t = t"
| "plug ((lft, a, c, s) # K) t = plug K (nd lft t a c s)"

fun before :: "rb_ctx \<Rightarrow> nat list" where
  "before [] = []"
| "before ((lft, a, c, s) # K) = before K @ (if lft then [] else nodes s @ [a])"

fun after :: "rb_ctx \<Rightarrow> nat list" where
  "after [] = []"
| "after ((lft, a, c, s) # K) = (if lft then a # nodes s else []) @ after K"

lemma nodes_plug: "nodes (plug K t) = before K @ nodes t @ after K"
  by (induction K t rule: plug.induct) (auto simp: nd_def)

lemma plug_append: "plug (K @ K') t = plug K' (plug K t)"
  by (induction K t rule: plug.induct) auto

lemma set_ctx: "set (before K) \<union> set (after K) = ctx_addrs K"
  by (induction K rule: before.induct) auto

lemma nd_simps [simp]:
  "root_of (nd lft n a c f) = Some a" "col (nd lft n a c f) = c" "set (nodes (nd lft n a c f)) = insert a (set (nodes n) \<union> set (nodes f))"
  "paint c' (nd lft n a c f) = nd lft n a c' f" "nd lft n a c f \<noteq> Lf"
  by (auto simp: nd_def)

lemma nd_eq [simp]: "nd lft n a c f = nd lft n' a' c' f' \<longleftrightarrow> n = n' \<and> a = a' \<and> c = c' \<and> f = f'"
  by (auto simp: nd_def)

lemma ctx_parent_simps [simp]: "ctx_parent [] = None" "ctx_parent ((lft, a, c, s) # K) = Some a"
  by (simp_all add: ctx_parent_def)

lemma nodes_paint [simp]: "nodes (paint c t) = nodes t" "root_of (paint c t) = root_of t"
  by (cases t; simp)+

lemma root_in [simp]: "root_of t = Some a \<Longrightarrow> a \<in> set (nodes t)"
  by (cases t) auto

text \<open>Every nonempty tree is a node seen from either side.\<close>

lemma nd_cases:
  assumes "t \<noteq> Lf"
  obtains n a c f where "t = nd lft n a c f"
  using assms by (cases t; cases lft) (auto simp: nd_def)

section \<open>Trees in the heap\<close>

fun tree_ok :: "rb_tree \<Rightarrow> nat option \<Rightarrow> ptree \<Rightarrow> bool" where
  "tree_ok h p Lf = True"
| "tree_ok h p (Nd l a c r) \<longleftrightarrow> rb_parent h a = p \<and> rb_color h a = c \<and> rb_left h a = root_of l \<and> rb_right h a = root_of r
     \<and> tree_ok h (Some a) l \<and> tree_ok h (Some a) r"

fun ctx_ok :: "rb_tree \<Rightarrow> nat option \<Rightarrow> rb_ctx \<Rightarrow> bool" where
  "ctx_ok h x [] \<longleftrightarrow> rb_node h = x"
| "ctx_ok h x ((lft, a, c, s) # K) \<longleftrightarrow> rb_child lft h a = x \<and> rb_child (\<not> lft) h a = root_of s \<and> rb_color h a = c
     \<and> rb_parent h a = ctx_parent K \<and> tree_ok h (Some a) s \<and> ctx_ok h (Some a) K"

definition at :: "rb_tree \<Rightarrow> rb_ctx \<Rightarrow> ptree \<Rightarrow> bool" where
  "at h K t \<longleftrightarrow> ctx_ok h (root_of t) K \<and> tree_ok h (ctx_parent K) t \<and> distinct (nodes (plug K t))"

text \<open>The whole tree.\<close>

definition holds_tree :: "rb_tree \<Rightarrow> ptree \<Rightarrow> bool" where
  "holds_tree h t \<longleftrightarrow> at h [] t"

lemma tree_ok_nd:
  "tree_ok h p (nd lft n a c f) \<longleftrightarrow> rb_parent h a = p \<and> rb_color h a = c \<and> rb_child lft h a = root_of n
     \<and> rb_child (\<not> lft) h a = root_of f \<and> tree_ok h (Some a) n \<and> tree_ok h (Some a) f"
  by (auto simp: nd_def rb_child_def)

lemma distinct_at:
  "distinct (nodes (plug K t)) \<longleftrightarrow> distinct (before K @ after K) \<and> distinct (nodes t) \<and> set (nodes t) \<inter> ctx_addrs K = {}"
  unfolding nodes_plug set_ctx [symmetric] by auto

text \<open>Going down and up.\<close>

lemma at_down: "at h K (nd lft n a c f) \<longleftrightarrow> at h ((lft, a, c, f) # K) n"
  by (auto simp: at_def tree_ok_nd)

lemma at_plug: "at h (K @ K') t \<longleftrightarrow> at h K' (plug K t)"
proof (induction K arbitrary: t)
  case (Cons x K)
  obtain lft a c s where "x = (lft, a, c, s)" by (cases x) auto
  then show ?case
    using Cons [of "nd lft t a c s"] at_down [of h "K @ K'" lft t a c s] by simp
qed simp

lemma holds_plug: "holds_tree h (plug K t) \<longleftrightarrow> at h K t"
  using at_plug [of h K "[]" t] by (simp add: holds_tree_def)

text \<open>What the pointers are at a position.\<close>

lemma at_root: "at h K t \<Longrightarrow> K = [] \<Longrightarrow> rb_node h = root_of t"
  by (simp add: at_def)

lemma at_nd:
  assumes "at h K (nd lft n a c f)"
  shows "rb_parent h a = ctx_parent K" "rb_color h a = c" "rb_child lft h a = root_of n" "rb_child (\<not> lft) h a = root_of f"
  using assms by (simp_all add: at_def tree_ok_nd)

lemma at_frame:
  assumes "at h ((lft, a, c, s) # K) t"
  shows "rb_child lft h a = root_of t" "rb_child (\<not> lft) h a = root_of s" "rb_color h a = c" "rb_parent h a = ctx_parent K"
    "root_of t \<noteq> root_of s \<or> root_of t = None"
proof -
  have "set (nodes t) \<inter> set (nodes s) = {}"
    using assms by (auto simp: at_def distinct_at nd_def split: if_splits)
  then show "root_of t \<noteq> root_of s \<or> root_of t = None" by (cases t; cases s) auto
qed (use assms in \<open>auto simp: at_def\<close>)

text \<open>The black test, the colour and the side of a position, as the code reads them.\<close>

lemma rb_black_tree: "tree_ok h p t \<Longrightarrow> rb_black h (root_of t) \<longleftrightarrow> col t = RB_BLACK"
  by (cases t) (auto simp: rb_black_def)

section \<open>Reading after writing\<close>

lemma rb_reads [simp]:
  "rb_child l (rb_set_child l' a x h) b = (if l = l' \<and> a = b then x else rb_child l h b)"
  "rb_child l (rb_set_parent a x h) b = rb_child l h b"
  "rb_child l (rb_set_color a k h) b = rb_child l h b"
  "rb_parent (rb_set_child l' a x h) b = rb_parent h b"
  "rb_parent (rb_set_parent a x h) b = (if a = b then x else rb_parent h b)"
  "rb_parent (rb_set_color a k h) b = rb_parent h b"
  "rb_color (rb_set_child l' a x h) b = rb_color h b"
  "rb_color (rb_set_parent a x h) b = rb_color h b"
  "rb_color (rb_set_color a k h) b = (if a = b then k else rb_color h b)"
  "rb_node (rb_set_child l' a x h) = rb_node h"
  "rb_node (rb_set_parent a x h) = rb_node h"
  "rb_node (rb_set_color a k h) = rb_node h"
  by (auto simp: rb_child_def rb_set_child_def rb_set_parent_def rb_set_color_def)

lemma rb_reads_opt [simp]:
  "rb_child l (rb_adopt x p h) b = rb_child l h b"
  "rb_parent (rb_adopt x p h) b = (if x = Some b then p else rb_parent h b)"
  "rb_color (rb_adopt x p h) b = rb_color h b"
  "rb_node (rb_adopt x p h) = rb_node h"
  "rb_child l (rb_paint x k h) b = rb_child l h b"
  "rb_parent (rb_paint x k h) b = rb_parent h b"
  "rb_color (rb_paint x k h) b = (if x = Some b then k else rb_color h b)"
  "rb_node (rb_paint x k h) = rb_node h"
  by (auto simp: rb_adopt_def rb_paint_def split: option.splits)

lemma rb_left_child: "rb_left h a = rb_child True h a" "rb_right h a = rb_child False h a"
  by (simp_all add: rb_child_def)

section \<open>Frames\<close>

definition same_on :: "nat set \<Rightarrow> rb_tree \<Rightarrow> rb_tree \<Rightarrow> bool" where
  "same_on A h h' \<longleftrightarrow> (\<forall>a\<in>A. rb_parent h' a = rb_parent h a \<and> rb_color h' a = rb_color h a
     \<and> (\<forall>lft. rb_child lft h' a = rb_child lft h a))"

lemma same_left_right: "same_on A h h' \<Longrightarrow> a \<in> A \<Longrightarrow> rb_left h' a = rb_left h a \<and> rb_right h' a = rb_right h a"
  unfolding same_on_def rb_child_def by (metis (full_types))

lemma tree_ok_same: "same_on (set (nodes t)) h h' \<Longrightarrow> tree_ok h' p t = tree_ok h p t"
proof (induction t arbitrary: p)
  case (Nd l a c r)
  have "same_on (set (nodes l)) h h'" "same_on (set (nodes r)) h h'"
    using Nd.prems by (auto simp: same_on_def)
  moreover have "rb_left h' a = rb_left h a \<and> rb_right h' a = rb_right h a"
    using same_left_right [OF Nd.prems, of a] by simp
  ultimately show ?case
    using Nd.IH Nd.prems by (simp add: same_on_def)
qed simp

lemma ctx_ok_same: "same_on (ctx_addrs K) h h' \<Longrightarrow> rb_node h' = rb_node h \<Longrightarrow> ctx_ok h' x K = ctx_ok h x K"
proof (induction K arbitrary: x)
  case (Cons y K)
  obtain lft a c s where y: "y = (lft, a, c, s)" by (cases y) auto
  have "same_on (set (nodes s)) h h'" "same_on (ctx_addrs K) h h'"
    using Cons.prems(1) y by (auto simp: same_on_def)
  then show ?case
    using Cons.IH Cons.prems y tree_ok_same [of s h h'] by (simp add: same_on_def)
qed simp

text \<open>The root of a tree gets another parent.\<close>

lemma tree_ok_adopt:
  assumes "tree_ok h p t" "distinct (nodes t)"
  shows "tree_ok (rb_adopt (root_of t) p' h) p' t"
proof (cases t)
  case (Nd l a c r)
  let ?h = "rb_set_parent a p' h"
  have "same_on (set (nodes l)) h ?h" "same_on (set (nodes r)) h ?h"
    using assms(2) Nd by (auto simp: same_on_def)
  then show ?thesis
    using assms(1) Nd tree_ok_same [of l h ?h] tree_ok_same [of r h ?h]
    by (simp add: rb_adopt_def rb_left_child)
qed (simp add: rb_adopt_def)

lemma tree_ok_paint:
  assumes "tree_ok h p t" "distinct (nodes t)"
  shows "tree_ok (rb_paint (root_of t) c' h) p (paint c' t)"
proof (cases t)
  case (Nd l a c r)
  let ?h = "rb_set_color a c' h"
  have "same_on (set (nodes l)) h ?h" "same_on (set (nodes r)) h ?h"
    using assms(2) Nd by (auto simp: same_on_def)
  then show ?thesis
    using assms(1) Nd tree_ok_same [of l h ?h] tree_ok_same [of r h ?h]
    by (simp add: rb_paint_def rb_left_child)
qed (simp add: rb_paint_def)

text \<open>The pointer into a position is redirected.\<close>

lemma ctx_ok_relink:
  assumes "ctx_ok h (Some old) K" "distinct (before K @ after K)" "old \<notin> ctx_addrs K"
  shows "ctx_ok (rb_relink lft (ctx_parent K) old x h) x K"
proof (cases K)
  case Nil
  then show ?thesis by (simp add: rb_relink_def)
next
  case (Cons y K')
  obtain lf a c s where y: "y = (lf, a, c, s)" by (cases y) auto
  have h: "rb_child lf h a = Some old" "rb_child (\<not> lf) h a = root_of s" "rb_color h a = c" "rb_parent h a = ctx_parent K'"
    "tree_ok h (Some a) s" "ctx_ok h (Some a) K'"
    using assms(1) Cons y by simp_all
  have "root_of s \<noteq> Some old" using assms(3) Cons y by (auto dest: root_in)
  then have e: "rb_relink lft (ctx_parent K) old x h = rb_set_child lf a x h"
    using h Cons y by (cases "lft = lf") (auto simp: rb_relink_def)
  have "a \<notin> set (nodes s)" "a \<notin> set (before K')" "a \<notin> set (after K')"
    using assms(2) Cons y by (auto split: if_splits)
  then have "a \<notin> set (nodes s)" "a \<notin> ctx_addrs K'" using set_ctx [of K'] by auto
  then have "same_on (set (nodes s)) h (rb_set_child lf a x h)" "same_on (ctx_addrs K') h (rb_set_child lf a x h)"
    by (auto simp: same_on_def)
  then show ?thesis
    unfolding e using h Cons y tree_ok_same [of s h "rb_set_child lf a x h"] ctx_ok_same [of K' h "rb_set_child lf a x h"]
    by auto
qed

lemma relink_same:
  assumes "ctx_ok h (Some old) K" "A \<inter> ctx_addrs K = {}"
  shows "same_on A h (rb_relink lft (ctx_parent K) old x h)"
proof (cases K)
  case (Cons y K')
  obtain lf a c s where y: "y = (lf, a, c, s)" by (cases y) auto
  then show ?thesis
    using assms Cons by (auto simp: same_on_def rb_relink_def)
qed (auto simp: same_on_def rb_relink_def rb_child_def)


lemma same_onD:
  "same_on A h h' \<Longrightarrow> a \<in> A \<Longrightarrow> rb_parent h' a = rb_parent h a"
  "same_on A h h' \<Longrightarrow> a \<in> A \<Longrightarrow> rb_color h' a = rb_color h a"
  "same_on A h h' \<Longrightarrow> a \<in> A \<Longrightarrow> rb_child lft h' a = rb_child lft h a"
  by (auto simp: same_on_def)

lemma same_on_trans: "same_on A h h' \<Longrightarrow> same_on A h' h'' \<Longrightarrow> same_on A h h''"
  by (auto simp: same_on_def)

lemma same_on_mono: "same_on A h h' \<Longrightarrow> B \<subseteq> A \<Longrightarrow> same_on B h h'"
  by (auto simp: same_on_def)

section \<open>Rotation\<close>

lemma at_rotate:
  assumes "at h K (nd lft A x c (nd lft B y d E))"
  shows "\<exists>h'. rb_rotate lft x h = Ret h' \<and> at h' K (nd lft (nd lft A x c B) y d E)"
proof -
  let ?T = "insert x (insert y (set (nodes A) \<union> set (nodes B) \<union> set (nodes E)))"
  have ctx: "ctx_ok h (Some x) K" and tr: "rb_parent h x = ctx_parent K" "rb_color h x = c" "rb_child lft h x = root_of A"
      "rb_child (\<not> lft) h x = Some y" "rb_color h y = d" "rb_child lft h y = root_of B"
      "rb_child (\<not> lft) h y = root_of E" "tree_ok h (Some x) A" "tree_ok h (Some y) B" "tree_ok h (Some y) E"
    using assms by (auto simp: at_def tree_ok_nd)
  have d: "distinct (before K @ after K)" "distinct (nodes (nd lft A x c (nd lft B y d E)))" "?T \<inter> ctx_addrs K = {}"
    using assms by (auto simp: at_def distinct_at)
  have dt: "x \<noteq> y" "x \<notin> set (nodes A)" "x \<notin> set (nodes B)" "x \<notin> set (nodes E)" "y \<notin> set (nodes A)"
      "y \<notin> set (nodes B)" "y \<notin> set (nodes E)" "set (nodes A) \<inter> set (nodes B) = {}" "set (nodes B) \<inter> set (nodes E) = {}"
      "distinct (nodes B)"
    using d(2) by (auto simp: nd_def split: if_splits)
  have rB: "root_of B \<noteq> Some x" "root_of B \<noteq> Some y" "\<forall>b. b \<notin> set (nodes B) \<longrightarrow> root_of B \<noteq> Some b"
    using dt(3,6) by (auto dest: root_in)
  define h1 where "h1 = rb_set_child (\<not> lft) x (root_of B) h"
  define h2 where "h2 = rb_adopt (root_of B) (Some x) h1"
  define h3 where "h3 = rb_set_child lft y (Some x) h2"
  define h4 where "h4 = rb_set_parent y (ctx_parent K) h3"
  define h5 where "h5 = rb_relink lft (ctx_parent K) x (Some y) h4"
  define h6 where "h6 = rb_set_parent x (Some y) h5"
  have e1: "rb_child lft h1 y = root_of B"
    using tr(6) dt(1) by (simp add: h1_def)
  have e2: "rb_parent h3 x = ctx_parent K" "rb_parent h4 x = ctx_parent K"
    using tr(1) rB(1) dt(1) by (auto simp: h4_def h3_def h2_def h1_def)
  have run: "rb_rotate lft x h = Ret h6"
    unfolding rb_rotate_def h6_def h5_def h4_def h3_def h2_def h1_def
    using tr(4,6) e1 e2 by (simp add: Let_def h1_def h2_def h3_def h4_def)
  have s4: "same_on (ctx_addrs K) h h4" "rb_node h4 = rb_node h"
    using d(3) rB(3) by (auto simp: same_on_def h4_def h3_def h2_def h1_def)
  have c4: "ctx_ok h4 (Some x) K" using ctx_ok_same [OF s4] ctx by simp
  have c5: "ctx_ok h5 (Some y) K"
    unfolding h5_def using d(3) by (intro ctx_ok_relink [OF c4 d(1)]) auto
  have s5: "same_on ?T h4 h5"
    unfolding h5_def using d(3) by (intro relink_same [OF c4]) auto
  have s6: "same_on (ctx_addrs K) h5 h6" "rb_node h6 = rb_node h5"
    using d(3) by (auto simp: same_on_def h6_def)
  have c6: "ctx_ok h6 (Some y) K" using ctx_ok_same [OF s6] c5 by simp
  have sA: "same_on (set (nodes A)) h h6" and sE: "same_on (set (nodes E)) h h6"
    using s5 dt rB(3) by (auto simp: same_on_def h6_def h4_def h3_def h2_def h1_def)
  have "same_on (set (nodes B)) h h1" using dt by (auto simp: same_on_def h1_def)
  then have "tree_ok h2 (Some x) B"
    using tree_ok_adopt [of h1 "Some y" B "Some x"] tree_ok_same [of B h h1] tr(9) dt(10) by (simp add: h2_def)
  moreover have "same_on (set (nodes B)) h2 h6"
    using s5 dt by (auto simp: same_on_def h6_def h4_def h3_def)
  ultimately have tB: "tree_ok h6 (Some x) B" using tree_ok_same by blast
  have x6: "rb_parent h6 x = Some y" "rb_color h6 x = c" "rb_child lft h6 x = root_of A" "rb_child (\<not> lft) h6 x = root_of B"
    and y6: "rb_parent h6 y = ctx_parent K" "rb_color h6 y = d" "rb_child lft h6 y = Some x" "rb_child (\<not> lft) h6 y = root_of E"
    using same_onD [OF s5, of x] same_onD [OF s5, of y] tr dt(1) rB
    by (auto simp: h6_def h4_def h3_def h2_def h1_def)
  have "tree_ok h6 (ctx_parent K) (nd lft (nd lft A x c B) y d E)"
    using x6 y6 tB tree_ok_same [OF sA] tree_ok_same [OF sE] tr by (simp add: tree_ok_nd)
  moreover have "distinct (nodes (nd lft (nd lft A x c B) y d E))" using d(2) by (auto simp: nd_def)
  ultimately have "at h6 K (nd lft (nd lft A x c B) y d E)"
    using c6 d by (auto simp: at_def distinct_at)
  then show ?thesis using run by blast
qed

section \<open>Colours\<close>

lemma at_paint:
  assumes "at h K t"
  shows "at (rb_paint (root_of t) k h) K (paint k t)"
proof -
  have d: "distinct (nodes t)" "set (nodes t) \<inter> ctx_addrs K = {}" using assms by (auto simp: at_def distinct_at)
  have "same_on (ctx_addrs K) h (rb_paint (root_of t) k h)"
    using d(2) by (auto simp: same_on_def dest: root_in)
  then show ?thesis
    using assms tree_ok_paint [of h "ctx_parent K" t k] d ctx_ok_same [of K h "rb_paint (root_of t) k h"]
    by (simp add: at_def distinct_at)
qed

lemma at_set_color:
  assumes "at h K (nd lft n a c f)"
  shows "at (rb_set_color a k h) K (nd lft n a k f)"
  using at_paint [OF assms, of k] by (simp add: rb_paint_def)

lemma at_set_color_parent:
  assumes "at h ((lft, a, c, s) # K) t"
  shows "at (rb_set_color a k h) ((lft, a, k, s) # K) t"
  using assms at_set_color unfolding at_down [symmetric] by blast

text \<open>From a child to its sibling.\<close>

lemma nd_swap: "nd (\<not> lft) f a c n = nd lft n a c f"
  by (simp add: nd_def)

lemma at_sibling: "at h ((lft, a, c, s) # K) t \<longleftrightarrow> at h ((\<not> lft, a, c, t) # K) s"
  unfolding at_down [symmetric] nd_swap ..

lemma at_paint_sibling:
  assumes "at h ((lft, a, c, s) # K) t"
  shows "at (rb_paint (root_of s) k h) ((lft, a, c, paint k s) # K) t"
  using at_paint [of h "(\<not> lft, a, c, t) # K" s k] assms unfolding at_sibling [of _ lft] by simp

end
