(* ===== verification/RbtreeInsert.thy ===== *)
theory RbtreeInsert
  imports RbtreeHeap
begin

text \<open>
  The balance of a red-black tree, for a subtree and for the context around it, and the
  correctness of \<open>rb_insert_color\<close>.
\<close>

section \<open>Balance\<close>

text \<open>No red node has a red child, and every path down has \<open>n\<close> black nodes.\<close>

fun bal :: "nat \<Rightarrow> ptree \<Rightarrow> bool" where
  "bal n Lf \<longleftrightarrow> n = 0"
| "bal n (Nd l a RB_RED r) \<longleftrightarrow> col l = RB_BLACK \<and> col r = RB_BLACK \<and> bal n l \<and> bal n r"
| "bal n (Nd l a RB_BLACK r) \<longleftrightarrow> (case n of 0 \<Rightarrow> False | Suc m \<Rightarrow> bal m l \<and> bal m r)"

text \<open>The context of a position of colour \<open>k\<close> below which there are \<open>n\<close> black nodes.\<close>

fun ctx_bal :: "nat \<Rightarrow> rb_color \<Rightarrow> rb_ctx \<Rightarrow> bool" where
  "ctx_bal n k [] \<longleftrightarrow> k = RB_BLACK"
| "ctx_bal n k ((lft, a, RB_RED, s) # K) \<longleftrightarrow> k = RB_BLACK \<and> col s = RB_BLACK \<and> bal n s \<and> ctx_bal n RB_RED K"
| "ctx_bal n k ((lft, a, RB_BLACK, s) # K) \<longleftrightarrow> bal n s \<and> ctx_bal (Suc n) RB_BLACK K"

definition is_rbt :: "ptree \<Rightarrow> bool" where
  "is_rbt t \<longleftrightarrow> col t = RB_BLACK \<and> (\<exists>n. bal n t)"

lemma bal_nd [simp]:
  "bal n (nd lft l a RB_RED r) \<longleftrightarrow> col l = RB_BLACK \<and> col r = RB_BLACK \<and> bal n l \<and> bal n r"
  "bal n (nd lft l a RB_BLACK r) \<longleftrightarrow> (\<exists>m. n = Suc m \<and> bal m l \<and> bal m r)"
  by (cases n; auto simp: nd_def)+

lemma col_cases: "k \<noteq> RB_RED \<longleftrightarrow> k = RB_BLACK" "k \<noteq> RB_BLACK \<longleftrightarrow> k = RB_RED"
  by (cases k; simp)+

lemma bal_plug: "bal n t \<Longrightarrow> ctx_bal n (col t) K \<Longrightarrow> is_rbt (plug K t)"
proof (induction K arbitrary: n t)
  case (Cons x K)
  obtain lft a c s where x: "x = (lft, a, c, s)" by (cases x) auto
  show ?case
    using Cons.prems x Cons.IH [of n "nd lft t a c s"] Cons.IH [of "Suc n" "nd lft t a c s"]
    by (cases c) auto
qed (auto simp: is_rbt_def)

lemma plug_bal: "is_rbt (plug K t) \<Longrightarrow> \<exists>n. bal n t \<and> ctx_bal n (col t) K"
proof (induction K arbitrary: t)
  case (Cons x K)
  obtain lft a c s where x: "x = (lft, a, c, s)" by (cases x) auto
  obtain n where n: "bal n (nd lft t a c s)" "ctx_bal n c K"
    using Cons.IH [of "nd lft t a c s"] Cons.prems x by auto
  then show ?case
    using x by (cases c) auto
qed (auto simp: is_rbt_def)

lemma ctx_bal_black: "ctx_bal n k K \<Longrightarrow> ctx_bal n RB_BLACK K"
  by (cases "(n, k, K)" rule: ctx_bal.cases) auto

lemma bal_paint: "bal n t \<Longrightarrow> t \<noteq> Lf \<Longrightarrow> \<exists>m. bal m (paint RB_BLACK t)"
  by (cases "(n, t)" rule: bal.cases) (auto split: nat.splits)

lemma bal_paint_red: "bal n t \<Longrightarrow> col t = RB_RED \<Longrightarrow> bal (Suc n) (paint RB_BLACK t)"
  by (cases "(n, t)" rule: bal.cases) auto

lemma col_paint [simp]: "col (paint RB_BLACK t) = RB_BLACK"
  by (cases t) auto

section \<open>One round\<close>

lemma at_side:
  assumes "at h ((s, a, c, u) # K) t" "root_of t = Some b"
  shows "rb_child l h a = Some b \<longleftrightarrow> l = s"
  using at_frame [OF assms(1)] assms(2) by (cases "l = s") auto

lemma at_left_side:
  assumes "at h ((s, a, c, u) # K) t" "root_of t = Some b"
  shows "rb_left h a = Some b \<longleftrightarrow> s"
  using at_side [OF assms, of True] by (simp add: rb_left_child)

lemma at_parent: "at h K t \<Longrightarrow> root_of t = Some x \<Longrightarrow> rb_parent h x = ctx_parent K"
  by (cases t) (auto simp: at_def)

lemma insert_step_end:
  assumes "at h K t" "root_of t = Some x" "K = [] \<or> K = (s, p, RB_BLACK, u) # K'"
  shows "insert_step x h = Ret (None, h)"
proof (cases "K = []")
  case True
  then show ?thesis using at_parent [OF assms(1,2)] by (simp add: insert_step_def)
next
  case False
  then have K: "K = (s, p, RB_BLACK, u) # K'" using assms(3) by simp
  have "rb_color h p = RB_BLACK" using at_frame(3) assms(1) K by blast
  then show ?thesis using at_parent [OF assms(1,2)] K by (simp add: insert_step_def)
qed

text \<open>The parent is red: what the round reads.\<close>

lemma insert_reads:
  assumes "at h ((s1, p, RB_RED, sib) # (s2, g, c, u) # K) t" "root_of t = Some x"
  shows "rb_parent h x = Some p" "rb_color h p = RB_RED" "rb_parent h p = Some g" "rb_left h g = Some p \<longleftrightarrow> s2"
    "rb_child (\<not> s2) h g = root_of u" "\<not> rb_black h (root_of u) \<longleftrightarrow> col u = RB_RED"
    "rb_child (\<not> s2) h p = Some x \<longleftrightarrow> s1 \<noteq> s2"
proof -
  have g: "at h ((s2, g, c, u) # K) (nd s1 t p RB_RED sib)" using assms(1) by (simp add: at_down)
  show "rb_parent h x = Some p" using at_parent [OF assms] by simp
  show "rb_color h p = RB_RED" "rb_parent h p = Some g" using at_frame [OF assms(1)] by simp_all
  show "rb_left h g = Some p \<longleftrightarrow> s2" using at_left_side [OF g] by simp
  show "rb_child (\<not> s2) h g = root_of u" using at_frame [OF g] by simp
  have "tree_ok h (Some g) u" using g by (simp add: at_def)
  then show "\<not> rb_black h (root_of u) \<longleftrightarrow> col u = RB_RED" using rb_black_tree by (simp add: col_cases)
  show "rb_child (\<not> s2) h p = Some x \<longleftrightarrow> s1 \<noteq> s2" using at_side [OF assms, of "\<not> s2"] by auto
qed

lemma red_test: "(case x of None \<Rightarrow> False | Some u \<Rightarrow> rb_color h u = RB_RED) \<longleftrightarrow> \<not> rb_black h x"
  by (cases x) (auto simp: rb_black_def col_cases)

lemma insert_step_red_uncle:
  assumes "at h ((s1, p, RB_RED, sib) # (s2, g, c, u) # K) t" "root_of t = Some x" "col u = RB_RED"
  shows "\<exists>h'. insert_step x h = Ret (Some g, h')
    \<and> at h' K (nd s2 (nd s1 t p RB_BLACK sib) g RB_RED (paint RB_BLACK u))"
proof -
  note r = insert_reads [OF assms(1,2)]
  define h1 where "h1 = rb_paint (root_of u) RB_BLACK h"
  have "at h ((s2, g, c, u) # K) (nd s1 t p RB_RED sib)" using assms(1) by (simp add: at_down)
  from at_paint_sibling [OF this, of RB_BLACK]
  have "at h1 ((s2, g, c, paint RB_BLACK u) # K) (nd s1 t p RB_RED sib)" by (simp add: h1_def)
  then have "at (rb_set_color p RB_BLACK h1) ((s2, g, c, paint RB_BLACK u) # K) (nd s1 t p RB_BLACK sib)"
    by (rule at_set_color)
  then have "at (rb_set_color g RB_RED (rb_set_color p RB_BLACK h1)) K (nd s2 (nd s1 t p RB_BLACK sib) g RB_RED (paint RB_BLACK u))"
    using at_set_color_parent at_down by blast
  moreover have "insert_step x h = Ret (Some g, rb_set_color g RB_RED (rb_set_color p RB_BLACK h1))"
    using r assms(3) by (simp add: insert_step_def red_test Let_def h1_def)
  ultimately show ?thesis by blast
qed

lemma insert_step_outer:
  assumes "at h ((s, p, RB_RED, sib) # (s, g, c, u) # K) t" "root_of t = Some x" "col u = RB_BLACK"
  shows "\<exists>h'. insert_step x h = Ret (Some x, h') \<and> at h' ((s, p, RB_BLACK, nd s sib g RB_RED u) # K) t"
proof -
  note r = insert_reads [OF assms(1,2)]
  define h1 where "h1 = rb_set_color g RB_RED (rb_set_color p RB_BLACK h)"
  have "at (rb_set_color p RB_BLACK h) ((s, p, RB_BLACK, sib) # (s, g, c, u) # K) t"
    using assms(1) by (rule at_set_color_parent)
  then have "at h1 K (nd s (nd s t p RB_BLACK sib) g RB_RED u)"
    unfolding at_down [symmetric] h1_def by (rule at_set_color)
  then have "at h1 K (nd (\<not> s) u g RB_RED (nd (\<not> s) sib p RB_BLACK t))"
    by (simp add: nd_swap)
  from at_rotate [OF this] obtain h2 where h2: "rb_rotate (\<not> s) g h1 = Ret h2"
      "at h2 K (nd (\<not> s) (nd (\<not> s) u g RB_RED sib) p RB_BLACK t)" by blast
  have "insert_step x h = Ret (Some x, h2)"
    using r assms(3) h2(1) by (simp add: insert_step_def red_test Let_def h1_def)
  moreover have "at h2 ((s, p, RB_BLACK, nd s sib g RB_RED u) # K) t"
    using h2(2) by (simp add: nd_swap at_down [symmetric])
  ultimately show ?thesis by blast
qed

lemma insert_step_inner:
  assumes "at h ((\<not> s, p, RB_RED, sib) # (s, g, c, u) # K) (nd s B x RB_RED C)" "col u = RB_BLACK"
  shows "\<exists>h'. insert_step x h = Ret (Some p, h')
    \<and> at h' ((s, x, RB_BLACK, nd s C g RB_RED u) # K) (nd s sib p RB_RED B)"
proof -
  note r = insert_reads [OF assms(1), of x]
  have "at h ((s, g, c, u) # K) (nd s sib p RB_RED (nd s B x RB_RED C))"
    using assms(1) unfolding at_down [symmetric] by (simp add: nd_swap)
  from at_rotate [OF this] obtain h1 where h1: "rb_rotate s p h = Ret h1"
      "at h1 ((s, g, c, u) # K) (nd s (nd s sib p RB_RED B) x RB_RED C)" by blast
  define h2 where "h2 = rb_set_color g RB_RED (rb_set_color x RB_BLACK h1)"
  have "at h2 K (nd s (nd s (nd s sib p RB_RED B) x RB_BLACK C) g RB_RED u)"
    using at_set_color_parent [OF at_set_color [OF h1(2)]] unfolding at_down h2_def by blast
  then have "at h2 K (nd (\<not> s) u g RB_RED (nd (\<not> s) C x RB_BLACK (nd s sib p RB_RED B)))"
    by (simp add: nd_swap)
  from at_rotate [OF this] obtain h3 where h3: "rb_rotate (\<not> s) g h2 = Ret h3"
      "at h3 K (nd (\<not> s) (nd (\<not> s) u g RB_RED C) x RB_BLACK (nd s sib p RB_RED B))" by blast
  have "insert_step x h = Ret (Some p, h3)"
    using r assms(2) h1(1) h3(1) by (simp add: insert_step_def red_test Let_def h2_def)
  moreover have "at h3 ((s, x, RB_BLACK, nd s C g RB_RED u) # K) (nd s sib p RB_RED B)"
    using h3(2) by (simp add: nd_swap at_down [symmetric])
  ultimately show ?thesis by blast
qed

section \<open>The loop\<close>

lemma insert_loop_stop: "insert_step x h = Ret (None, h1) \<Longrightarrow> insert_loop x h = Some (Ret h1)"
  by (subst insert_loop.simps) simp

lemma insert_loop_go: "insert_step x h = Ret (Some y, h1) \<Longrightarrow> insert_loop x h = insert_loop y h1"
  by (subst insert_loop.simps) simp

definition inserted :: "rb_tree outcome option \<Rightarrow> nat list \<Rightarrow> bool" where
  "inserted r xs \<longleftrightarrow> (\<exists>h t. r = Some (Ret h) \<and> holds_tree h t \<and> t \<noteq> Lf \<and> nodes t = xs \<and> is_rbt (paint RB_BLACK t))"

lemma insert_loop_black:
  assumes "at h ((s, p, RB_BLACK, u) # K) t" "bal n t" "t \<noteq> Lf" "ctx_bal n RB_BLACK ((s, p, RB_BLACK, u) # K)" "root_of t = Some x"
  shows "inserted (insert_loop x h) (nodes (plug ((s, p, RB_BLACK, u) # K) t))"
proof -
  let ?T = "plug ((s, p, RB_BLACK, u) # K) t"
  have "is_rbt ?T" using assms(2,4) by (intro bal_plug) auto
  moreover have "nodes ?T \<noteq> []" using nodes_plug [of "(s, p, RB_BLACK, u) # K" t] assms(3) by (cases t) auto
  then have "?T \<noteq> Lf" by (metis nodes.simps(1))
  moreover have "paint RB_BLACK ?T = ?T" using \<open>is_rbt ?T\<close> by (cases ?T) (auto simp: is_rbt_def)
  moreover have "insert_loop x h = Some (Ret h)"
    by (rule insert_loop_stop, rule insert_step_end [OF assms(1,5)]) simp
  ultimately show ?thesis
    using assms(1) unfolding inserted_def holds_plug [symmetric] by metis
qed

lemma insert_loop_correct:
  assumes "at h K t" "root_of t = Some x" "col t = RB_RED" "bal n t" "ctx_bal n RB_BLACK K"
  shows "inserted (insert_loop x h) (nodes (plug K t))"
  using assms
proof (induction "length K" arbitrary: h K t x n rule: less_induct)
  case less
  have tne: "t \<noteq> Lf" using less.prems(2) by auto
  consider "K = []" | s p u K' where "K = (s, p, RB_BLACK, u) # K'"
    | s1 p sib s2 g u K' where "K = (s1, p, RB_RED, sib) # (s2, g, RB_BLACK, u) # K'"
    using less.prems(5) by (cases "(n, RB_BLACK, K)" rule: ctx_bal.cases; cases "(n, RB_RED, tl K)" rule: ctx_bal.cases) auto
  then show ?case
  proof cases
    case 1
    have "insert_loop x h = Some (Ret h)"
      by (rule insert_loop_stop, rule insert_step_end [OF less.prems(1,2)]) (simp add: 1)
    moreover have "is_rbt (paint RB_BLACK t)"
      using bal_paint [OF less.prems(4) tne] tne by (cases t) (auto simp: is_rbt_def)
    ultimately show ?thesis
      using less.prems(1) 1 tne by (auto simp: inserted_def holds_tree_def)
  next
    case 2
    then show ?thesis using insert_loop_black less.prems tne by blast
  next
    case K: 3
    note at = less.prems(1) [unfolded K]
    have b: "bal n sib" "col sib = RB_BLACK" "bal n u" "ctx_bal (Suc n) RB_BLACK K'"
      using less.prems(5) K by auto
    show ?thesis
    proof (cases "col u = RB_RED")
      case True
      obtain h' where h': "insert_step x h = Ret (Some g, h')"
          "at h' K' (nd s2 (nd s1 t p RB_BLACK sib) g RB_RED (paint RB_BLACK u))"
        using insert_step_red_uncle [OF at less.prems(2) True] by blast
      have "inserted (insert_loop g h') (nodes (plug K' (nd s2 (nd s1 t p RB_BLACK sib) g RB_RED (paint RB_BLACK u))))"
        by (rule less.hyps [OF _ h'(2), of _ "Suc n"]) (use K b less.prems bal_paint_red True in auto)
      then show ?thesis
        using insert_loop_go [OF h'(1)] K by (cases s1; cases s2) (simp_all add: nodes_plug nd_def)
    next
      case False
      then have u: "col u = RB_BLACK" by (simp add: col_cases)
      show ?thesis
      proof (cases "s1 = s2")
        case True
        obtain h' where h': "insert_step x h = Ret (Some x, h')" "at h' ((s2, p, RB_BLACK, nd s2 sib g RB_RED u) # K') t"
          using insert_step_outer [OF _ less.prems(2) u] at True by blast
        have "inserted (insert_loop x h') (nodes (plug ((s2, p, RB_BLACK, nd s2 sib g RB_RED u) # K') t))"
          using b u less.prems(2,4) by (intro insert_loop_black [OF h'(2) _ tne, of n]) auto
        then show ?thesis
          using insert_loop_go [OF h'(1)] K True by (cases s2) (simp_all add: nodes_plug nd_def)
      next
        case False
        then have s1: "s1 = (\<not> s2)" by auto
        obtain B C where t: "t = nd s2 B x RB_RED C"
          using nd_cases [OF tne, of s2] less.prems(2,3) by (metis nd_simps(1,2) option.inject)
        obtain h' where h': "insert_step x h = Ret (Some p, h')"
            "at h' ((s2, x, RB_BLACK, nd s2 C g RB_RED u) # K') (nd s2 sib p RB_RED B)"
          using insert_step_inner [of h s2 p sib g RB_BLACK u K' B x C] at u s1 t by blast
        have "inserted (insert_loop p h') (nodes (plug ((s2, x, RB_BLACK, nd s2 C g RB_RED u) # K') (nd s2 sib p RB_RED B)))"
          using b u less.prems(4) t by (intro insert_loop_black [OF h'(2), of n]) auto
        then show ?thesis
          using insert_loop_go [OF h'(1)] K s1 t by (cases s2) (simp_all add: nodes_plug nd_def)
      qed
    qed
  qed
qed


section \<open>Linking and inserting\<close>

text \<open>A context whose hole is empty is where a node may be linked.\<close>

lemma at_link:
  assumes "at h K Lf" "z \<notin> ctx_addrs K" "K \<noteq> [] \<Longrightarrow> lft = fst (hd K)"
  shows "at (rb_link_node z (ctx_parent K) lft h) K (nd True Lf z RB_RED Lf)"
proof -
  define h1 where "h1 = rb_set_child True z None (rb_set_child False z None
      (rb_set_color z RB_RED (rb_set_parent z (ctx_parent K) h)))"
  have s1: "same_on (ctx_addrs K) h h1" "rb_node h1 = rb_node h"
    using assms(2) by (auto simp: same_on_def h1_def)
  have c1: "ctx_ok h1 None K" using ctx_ok_same [OF s1] assms(1) by (simp add: at_def)
  have d: "distinct (before K @ after K)" using assms(1) by (simp add: at_def distinct_at)
  show ?thesis
  proof (cases K)
    case Nil
    then show ?thesis
      by (simp add: at_def rb_link_node_def Let_def nd_def) (simp add: rb_left_child rb_set_child_def rb_set_parent_def rb_set_color_def rb_child_def)
  next
    case (Cons y K')
    obtain s a c u where y: "y = (s, a, c, u)" by (cases y) auto
    have e: "rb_link_node z (ctx_parent K) lft h = rb_set_child s a (Some z) h1"
      using Cons y assms(3) by (simp add: rb_link_node_def Let_def h1_def)
    have "a \<notin> set (nodes u)" "a \<notin> ctx_addrs K'"
      using d Cons y set_ctx [of K'] by (auto split: if_splits)
    then have s2: "same_on (set (nodes u)) h1 (rb_set_child s a (Some z) h1)"
        "same_on (ctx_addrs K') h1 (rb_set_child s a (Some z) h1)"
      by (auto simp: same_on_def)
    have "z \<noteq> a" using assms(2) Cons y by auto
    then have "tree_ok (rb_set_child s a (Some z) h1) (ctx_parent K) (nd True Lf z RB_RED Lf)"
      by (simp add: tree_ok_nd h1_def)
    moreover have "ctx_ok (rb_set_child s a (Some z) h1) (Some z) K"
      using c1 Cons y tree_ok_same [OF s2(1)] ctx_ok_same [OF s2(2)] by simp
    moreover have "distinct (nodes (plug K (nd True Lf z RB_RED Lf)))"
      using d assms(2) by (simp add: distinct_at) (simp add: nd_def)
    ultimately show ?thesis unfolding e by (simp add: at_def)
  qed
qed

text \<open>
  Linking a new node at an empty place of a balanced tree and recolouring gives a balanced tree
  with the node at that place.
\<close>

lemma rb_insert_correct:
  assumes "holds_tree h (plug K Lf)" "is_rbt (plug K Lf)" "z \<notin> set (nodes (plug K Lf))" "K \<noteq> [] \<Longrightarrow> lft = fst (hd K)"
  shows "\<exists>h' t. rb_insert_color z (rb_link_node z (ctx_parent K) lft h) = Some (Ret h')
    \<and> holds_tree h' t \<and> is_rbt t \<and> nodes t = before K @ z # after K"
proof -
  let ?t = "nd True Lf z RB_RED Lf"
  have "at h K Lf" using assms(1) by (simp add: holds_plug)
  moreover have "z \<notin> ctx_addrs K" using assms(3) set_ctx [of K] by (auto simp: nodes_plug)
  ultimately have a: "at (rb_link_node z (ctx_parent K) lft h) K ?t" using at_link assms(4) by blast
  obtain n where "n = 0" "ctx_bal n RB_BLACK K" using plug_bal [OF assms(2)] by auto
  then have "inserted (insert_loop z (rb_link_node z (ctx_parent K) lft h)) (nodes (plug K ?t))"
    by (intro insert_loop_correct [OF a]) auto
  then obtain h1 t where h1: "insert_loop z (rb_link_node z (ctx_parent K) lft h) = Some (Ret h1)" "holds_tree h1 t" "t \<noteq> Lf"
      "nodes t = nodes (plug K ?t)" "is_rbt (paint RB_BLACK t)"
    by (auto simp: inserted_def)
  obtain r where r: "root_of t = Some r" using h1(3) by (cases t) auto
  have "rb_node h1 = Some r" using h1(2) r by (simp add: holds_tree_def at_def)
  moreover have "holds_tree (rb_set_color r RB_BLACK h1) (paint RB_BLACK t)"
    using at_paint [of h1 "[]" t RB_BLACK] h1(2) r by (simp add: holds_tree_def rb_paint_def)
  ultimately show ?thesis
    using h1 by (auto simp: rb_insert_color_def nodes_plug nd_def)
qed

end
