(* ===== verification/RbtreeErase.thy ===== *)
theory RbtreeErase
  imports RbtreeInsert
begin

text \<open>
  The correctness of \<open>__rb_erase_color\<close> and \<open>rb_erase\<close>: the tree stays balanced and loses exactly
  the node that is removed.
\<close>

section \<open>What a round reads\<close>

lemma ctx_root:
  "ctx_ok h x K \<Longrightarrow> K \<noteq> [] \<Longrightarrow> \<exists>a\<in>ctx_addrs K. rb_node h = Some a"
proof (induction K arbitrary: x)
  case (Cons y K)
  obtain lft a c s where "y = (lft, a, c, s)" by (cases y) auto
  then show ?case using Cons by (cases "K = []") auto
qed simp

lemma at_not_root:
  assumes "at h K t" "K \<noteq> []"
  shows "root_of t \<noteq> rb_node h"
proof -
  obtain a where a: "a \<in> ctx_addrs K" "rb_node h = Some a"
    using ctx_root [of h "root_of t" K] assms by (auto simp: at_def)
  then have "a \<notin> set (nodes t)" using assms by (auto simp: at_def distinct_at)
  then show ?thesis using a(2) by (auto dest: root_in)
qed

lemma at_left_empty:
  assumes "at h ((lft, p, c, s) # K) t" "s \<noteq> Lf"
  shows "rb_left h p = root_of t \<longleftrightarrow> lft"
proof -
  have "root_of s \<noteq> None" using assms(2) by (cases s) auto
  then show ?thesis using at_frame [OF assms(1)] by (cases lft) (auto simp: rb_left_child)
qed

lemma at_black: "at h K t \<Longrightarrow> rb_black h (root_of t) \<longleftrightarrow> col t = RB_BLACK"
  using rb_black_tree by (auto simp: at_def)

lemma at_black_children:
  assumes "at h K (nd lft n a c f)"
  shows "rb_black h (rb_child lft h a) \<longleftrightarrow> col n = RB_BLACK" "rb_black h (rb_child (\<not> lft) h a) \<longleftrightarrow> col f = RB_BLACK"
proof -
  have "tree_ok h (Some a) n" "tree_ok h (Some a) f" using assms by (auto simp: at_def tree_ok_nd)
  then show "rb_black h (rb_child lft h a) \<longleftrightarrow> col n = RB_BLACK" "rb_black h (rb_child (\<not> lft) h a) \<longleftrightarrow> col f = RB_BLACK"
    using at_nd [OF assms] rb_black_tree by auto
qed

lemma at_black_both:
  assumes "at h K (nd lft n a c f)"
  shows "rb_black h (rb_left h a) \<and> rb_black h (rb_right h a) \<longleftrightarrow> col n = RB_BLACK \<and> col f = RB_BLACK"
  using at_black_children [OF assms] by (cases lft) (auto simp: rb_left_child)

section \<open>The parts of a round\<close>

text \<open>The sibling as a node seen from the side of the position.\<close>

lemma at_to_sibling: "at h ((lft, p, c, s) # K) t \<Longrightarrow> at h ((\<not> lft, p, c, t) # K) s"
  using at_sibling by blast

lemma nodes_nd_rotate: "nodes (nd lft (nd lft A x c B) y d E) = nodes (nd lft A x c' (nd lft B y d' E))"
  by (simp add: nd_def)

lemma erase_sibling_ok:
  assumes "at h ((lft, p, c, s) # K) t" "ctx_bal (Suc n) RB_BLACK ((lft, p, c, s) # K)"
  shows "\<exists>A other B h1 c1 K1. erase_sibling lft p h = Ret (other, h1)
    \<and> at h1 ((lft, p, c1, nd lft A other RB_BLACK B) # K1) t
    \<and> ctx_bal (Suc n) RB_BLACK ((lft, p, c1, nd lft A other RB_BLACK B) # K1)
    \<and> nodes (plug ((lft, p, c1, nd lft A other RB_BLACK B) # K1) t) = nodes (plug ((lft, p, c, s) # K) t)
    \<and> (c1 = RB_RED \<or> K1 = K)"
proof -
  have sb: "bal (Suc n) s" using assms(2) by (cases c) auto
  then have "s \<noteq> Lf" by auto
  then obtain A other d B where s: "s = nd lft A other d B" by (rule nd_cases)
  have ch: "rb_child (\<not> lft) h p = Some other" using at_frame(2) [OF assms(1)] s by simp
  have "rb_color h other = d"
    using at_nd(2) at_to_sibling [OF assms(1)] s by blast
  show ?thesis
  proof (cases d)
    case RB_BLACK
    then have "erase_sibling lft p h = Ret (other, h)"
      using ch \<open>rb_color h other = d\<close> by (simp add: erase_sibling_def)
    then show ?thesis using assms s RB_BLACK by blast
  next
    case RB_RED
    then have c: "c = RB_BLACK" "col A = RB_BLACK" "bal (Suc n) A" "bal (Suc n) B" "ctx_bal (Suc (Suc n)) RB_BLACK K"
      using assms(2) s sb by (cases c; auto)+
    define h1 where "h1 = rb_set_color p RB_RED (rb_set_color other RB_BLACK h)"
    have "at (rb_set_color other RB_BLACK h) ((\<not> lft, p, c, t) # K) (nd lft A other RB_BLACK B)"
      using at_to_sibling [OF assms(1)] unfolding s by (rule at_set_color)
    then have "at h1 ((\<not> lft, p, RB_RED, t) # K) (nd lft A other RB_BLACK B)"
      unfolding h1_def by (rule at_set_color_parent)
    then have "at h1 K (nd lft t p RB_RED (nd lft A other RB_BLACK B))"
      by (simp add: at_down [symmetric] nd_swap)
    from at_rotate [OF this] obtain h2 where h2: "rb_rotate lft p h1 = Ret h2"
        "at h2 K (nd lft (nd lft t p RB_RED A) other RB_BLACK B)" by blast
    have "A \<noteq> Lf" using c(3) by auto
    then obtain A1 o1 d1 A2 where A: "A = nd lft A1 o1 d1 A2" by (rule nd_cases)
    have "d1 = RB_BLACK" using c(2) A by simp
    then have a2: "at h2 ((lft, p, RB_RED, nd lft A1 o1 RB_BLACK A2) # (lft, other, RB_BLACK, B) # K) t"
      using h2(2) A by (simp add: at_down [symmetric])
    have "rb_child (\<not> lft) h2 p = Some o1" using at_frame(2) [OF a2] by simp
    then have "erase_sibling lft p h = Ret (o1, h2)"
      using ch \<open>rb_color h other = d\<close> RB_RED h2(1) by (simp add: erase_sibling_def h1_def)
    moreover have "ctx_bal (Suc n) RB_BLACK ((lft, p, RB_RED, nd lft A1 o1 RB_BLACK A2) # (lft, other, RB_BLACK, B) # K)"
      using c A \<open>d1 = RB_BLACK\<close> by auto
    moreover have "nodes (plug ((lft, p, RB_RED, nd lft A1 o1 RB_BLACK A2) # (lft, other, RB_BLACK, B) # K) t)
        = nodes (plug ((lft, p, c, s) # K) t)"
      using s A \<open>d1 = RB_BLACK\<close> nodes_nd_rotate [of lft t p RB_RED A other RB_BLACK B c d] by (simp add: nodes_plug)
    ultimately show ?thesis using a2 by blast
  qed
qed

lemma erase_inner_ok:
  assumes "at h ((lft, p, c, nd lft A other RB_BLACK B) # K) t" "bal n A" "bal n B" "\<not> (col A = RB_BLACK \<and> col B = RB_BLACK)"
  shows "\<exists>N other2 F h2. erase_inner lft p other h = Ret (other2, h2)
    \<and> at h2 ((lft, p, c, nd lft N other2 RB_BLACK F) # K) t \<and> bal n N \<and> bal n F \<and> col F = RB_RED
    \<and> nodes (plug ((lft, p, c, nd lft N other2 RB_BLACK F) # K) t) = nodes (plug ((lft, p, c, nd lft A other RB_BLACK B) # K) t)"
proof -
  note as = at_to_sibling [OF assms(1)]
  have rd: "rb_black h (rb_child (\<not> lft) h other) \<longleftrightarrow> col B = RB_BLACK" "rb_child lft h other = root_of A"
    using at_black_children(2) [OF as] at_nd(3) [OF as] by auto
  show ?thesis
  proof (cases "col B = RB_BLACK")
    case False
    then have "erase_inner lft p other h = Ret (other, h)" using rd by (simp add: erase_inner_def)
    then show ?thesis using assms False col_cases by blast
  next
    case True
    then have cA: "col A = RB_RED" using assms(4) col_cases by auto
    then obtain A1 a A2 where A: "A = nd lft A1 a RB_RED A2" using nd_cases [of A lft] by (metis col.simps(1) nd_simps(2) rb_color.distinct(1))
    define h1 where "h1 = rb_set_color other RB_RED (rb_paint (Some a) RB_BLACK h)"
    have "at h ((lft, other, RB_BLACK, B) # (\<not> lft, p, c, t) # K) A" using as by (simp add: at_down)
    from at_paint [OF this, of RB_BLACK]
    have "at (rb_paint (Some a) RB_BLACK h) ((\<not> lft, p, c, t) # K) (nd lft (nd lft A1 a RB_BLACK A2) other RB_BLACK B)"
      by (simp add: A at_down)
    then have "at h1 ((\<not> lft, p, c, t) # K) (nd lft (nd lft A1 a RB_BLACK A2) other RB_RED B)"
      unfolding h1_def by (rule at_set_color)
    then have "at h1 ((\<not> lft, p, c, t) # K) (nd (\<not> lft) B other RB_RED (nd (\<not> lft) A2 a RB_BLACK A1))"
      by (simp add: nd_swap)
    from at_rotate [OF this] obtain h2 where h2: "rb_rotate (\<not> lft) other h1 = Ret h2"
        "at h2 ((\<not> lft, p, c, t) # K) (nd (\<not> lft) (nd (\<not> lft) B other RB_RED A2) a RB_BLACK A1)" by blast
    then have a2: "at h2 ((lft, p, c, nd lft A1 a RB_BLACK (nd lft A2 other RB_RED B)) # K) t"
      by (simp add: nd_swap at_sibling [of _ lft])
    have "rb_child (\<not> lft) h2 p = Some a" using at_frame(2) [OF a2] by simp
    then have "erase_inner lft p other h = Ret (a, h2)"
      using rd True h2(1) A by (simp add: erase_inner_def h1_def)
    moreover have "nodes (plug ((lft, p, c, nd lft A1 a RB_BLACK (nd lft A2 other RB_RED B)) # K) t)
        = nodes (plug ((lft, p, c, nd lft A other RB_BLACK B) # K) t)"
      unfolding A by (cases lft) (simp_all add: nodes_plug nd_def)
    ultimately show ?thesis using a2 assms(2,3) A True by fastforce
  qed
qed

lemma erase_outer_ok:
  assumes "at h ((lft, p, c, nd lft N other RB_BLACK F) # K) t"
  shows "\<exists>h3. erase_outer lft p other h = Ret h3
    \<and> at h3 K (nd lft (nd lft t p RB_BLACK N) other c (paint RB_BLACK F))"
proof -
  note as = at_to_sibling [OF assms]
  define h1 where "h1 = rb_set_color p RB_BLACK (rb_set_color other c h)"
  have pc: "rb_color h p = c" using at_frame(3) [OF assms] .
  have "at (rb_set_color other c h) ((\<not> lft, p, c, t) # K) (nd lft N other c F)" using as by (rule at_set_color)
  then have a1: "at h1 ((\<not> lft, p, RB_BLACK, t) # K) (nd lft N other c F)" unfolding h1_def by (rule at_set_color_parent)
  have f: "rb_child (\<not> lft) h1 other = root_of F" using at_nd(4) [OF a1] .
  have "at (rb_paint (root_of F) RB_BLACK h1) ((\<not> lft, p, RB_BLACK, t) # K) (nd lft N other c (paint RB_BLACK F))"
    using at_paint_sibling a1 unfolding at_down by blast
  then have "at (rb_paint (root_of F) RB_BLACK h1) K (nd lft t p RB_BLACK (nd lft N other c (paint RB_BLACK F)))"
    by (simp add: at_down [symmetric] nd_swap)
  from at_rotate [OF this] show ?thesis
    using pc f by (simp add: erase_outer_def Let_def h1_def)
qed

section \<open>The loop\<close>

definition erased :: "rb_tree outcome option \<Rightarrow> nat list \<Rightarrow> bool" where
  "erased r xs \<longleftrightarrow> (\<exists>h t. r = Some (Ret h) \<and> holds_tree h t \<and> nodes t = xs \<and> is_rbt t)"

lemma erase_stop:
  assumes "at h K t" "bal n (paint RB_BLACK t)" "K \<noteq> [] \<Longrightarrow> ctx_bal n RB_BLACK K" "K = [] \<or> col t = RB_RED"
  shows "erased (rb_erase_color (root_of t) (ctx_parent K) h) (nodes (plug K t))"
proof -
  have "erase_step (root_of t) (ctx_parent K) h = Ret (False, root_of t, ctx_parent K, h)"
    using assms(4) at_root [OF assms(1)] at_black [OF assms(1)] by (auto simp: erase_step_def)
  then have "rb_erase_color (root_of t) (ctx_parent K) h = Some (Ret (rb_paint (root_of t) RB_BLACK h))"
    by (subst rb_erase_color.simps) simp
  moreover have "holds_tree (rb_paint (root_of t) RB_BLACK h) (plug K (paint RB_BLACK t))"
    using at_paint [OF assms(1)] by (simp add: holds_plug)
  moreover have "is_rbt (plug K (paint RB_BLACK t))"
    using assms(2,3) bal_plug [OF assms(2), of K] by (cases "K = []") (auto simp: is_rbt_def)
  ultimately show ?thesis by (auto simp: erased_def nodes_plug)
qed

lemma erase_last_rotation:
  assumes "erase_step (root_of t) (Some p) h = Ret (False, rb_node h3, Some p, h3)"
    "at h3 K T" "is_rbt (plug K T)"
  shows "erased (rb_erase_color (root_of t) (Some p) h) (nodes (plug K T))"
proof -
  have ht: "holds_tree h3 (plug K T)" using assms(2) by (simp add: holds_plug)
  have "paint RB_BLACK (plug K T) = plug K T" using assms(3) by (cases "plug K T") (auto simp: is_rbt_def)
  moreover have "rb_node h3 = root_of (plug K T)" using ht by (simp add: holds_tree_def at_def)
  ultimately have "holds_tree (rb_paint (rb_node h3) RB_BLACK h3) (plug K T)"
    using at_paint [of h3 "[]" "plug K T" RB_BLACK] ht by (simp add: holds_tree_def)
  moreover have "rb_erase_color (root_of t) (Some p) h = Some (Ret (rb_paint (rb_node h3) RB_BLACK h3))"
    using assms(1) by (subst rb_erase_color.simps) simp
  ultimately show ?thesis using assms(3) by (auto simp: erased_def)
qed

lemma rb_erase_color_correct:
  assumes "at h K t" "bal n t" "K \<noteq> [] \<Longrightarrow> ctx_bal (Suc n) RB_BLACK K"
  shows "erased (rb_erase_color (root_of t) (ctx_parent K) h) (nodes (plug K t))"
  using assms
proof (induction "length K" arbitrary: h K t n rule: less_induct)
  case less
  show ?case
  proof (cases "K = [] \<or> col t = RB_RED")
    case True
    show ?thesis
    proof (cases "col t = RB_RED")
      case True
      then show ?thesis using erase_stop [OF less.prems(1) bal_paint_red [OF less.prems(2)]] less.prems(3) by blast
    next
      case False
      then have K: "K = []" using True by blast
      then obtain m where "bal m (paint RB_BLACK t)" using bal_paint [OF less.prems(2)] less.prems(2) by (cases "t = Lf") auto
      then show ?thesis using erase_stop [OF less.prems(1)] K by blast
    qed
  next
    case False
    then obtain lft p c s K' where K: "K = (lft, p, c, s) # K'" by (cases K) auto
    have bt: "col t = RB_BLACK" using False col_cases by auto
    have cb: "ctx_bal (Suc n) RB_BLACK ((lft, p, c, s) # K')" using less.prems(3) K by simp
    note at = less.prems(1) [unfolded K]
    have "s \<noteq> Lf" using cb by (cases c) auto
    then have lf: "rb_left h p = root_of t \<longleftrightarrow> lft" using at_left_empty [OF at] by simp
    have go: "rb_black h (root_of t) \<and> root_of t \<noteq> rb_node h"
      using at_not_root [OF at] at_black [OF at] bt by simp
    obtain A other B h1 c1 K1 where s1: "erase_sibling lft p h = Ret (other, h1)"
        "at h1 ((lft, p, c1, nd lft A other RB_BLACK B) # K1) t"
        "ctx_bal (Suc n) RB_BLACK ((lft, p, c1, nd lft A other RB_BLACK B) # K1)"
        "nodes (plug ((lft, p, c1, nd lft A other RB_BLACK B) # K1) t) = nodes (plug K t)" "c1 = RB_RED \<or> K1 = K'"
      using erase_sibling_ok [OF at cb] K by blast
    have b: "bal n A" "bal n B" "c1 = RB_RED \<Longrightarrow> ctx_bal (Suc n) RB_RED K1" "c1 = RB_BLACK \<Longrightarrow> ctx_bal (Suc (Suc n)) RB_BLACK K1"
      using s1(3) by (cases c1; auto)+
    note as = at_to_sibling [OF s1(2)]
    note both = at_black_both [OF as]
    show ?thesis
    proof (cases "col A = RB_BLACK \<and> col B = RB_BLACK")
      case True
      let ?t = "nd lft t p c1 (nd lft A other RB_RED B)" and ?h = "rb_set_color other RB_RED h1"
      have "rb_parent h1 p = ctx_parent K1" using at_frame(4) [OF s1(2)] .
      then have st: "erase_step (root_of t) (Some p) h = Ret (True, Some p, ctx_parent K1, ?h)"
        using go lf s1(1) both True by (simp add: erase_step_def Let_def)
      have a2: "at ?h K1 ?t"
        using at_set_color [OF as, of RB_RED] by (simp add: at_down [symmetric] nd_swap)
      have "erased (rb_erase_color (root_of ?t) (ctx_parent K1) ?h) (nodes (plug K1 ?t))"
      proof (cases c1)
        case RB_RED
        then show ?thesis
          using erase_stop [OF a2, of "Suc n"] b less.prems(2) bt True ctx_bal_black by auto
      next
        case RB_BLACK
        then have "length K1 < length K" using s1(5) K by simp
        then show ?thesis
          by (rule less.hyps [OF _ a2, of "Suc n"]) (use RB_BLACK b less.prems(2) True in auto)
      qed
      moreover have "nodes (plug K1 ?t) = nodes (plug K t)" using s1(4) by (cases lft) (simp_all add: nodes_plug nd_def)
      ultimately show ?thesis using st K by (subst rb_erase_color.simps) simp
    next
      case False
      obtain N other2 F h2 where s2: "erase_inner lft p other h1 = Ret (other2, h2)"
          "at h2 ((lft, p, c1, nd lft N other2 RB_BLACK F) # K1) t" "bal n N" "bal n F" "col F = RB_RED"
          "nodes (plug ((lft, p, c1, nd lft N other2 RB_BLACK F) # K1) t) = nodes (plug K t)"
        using erase_inner_ok [OF s1(2) b(1,2) False] s1(4) by metis
      let ?T = "nd lft (nd lft t p RB_BLACK N) other2 c1 (paint RB_BLACK F)"
      obtain h3 where h3: "erase_outer lft p other2 h2 = Ret h3" "at h3 K1 ?T"
        using erase_outer_ok [OF s2(2)] by blast
      have "erase_step (root_of t) (Some p) h = Ret (False, rb_node h3, Some p, h3)"
        using go lf s1(1) both False s2(1) h3(1) by (simp add: erase_step_def Let_def)
      moreover have "is_rbt (plug K1 ?T)"
      proof (cases c1)
        case RB_RED
        then show ?thesis
          using b(3) s2 less.prems(2) bal_paint_red [OF s2(4,5)] by (intro bal_plug [of "Suc n"]) auto
      next
        case RB_BLACK
        then show ?thesis
          using b(4) s2 less.prems(2) bal_paint_red [OF s2(4,5)] by (intro bal_plug [of "Suc (Suc n)"]) auto
      qed
      moreover have "nodes (plug K1 ?T) = nodes (plug K t)" using s2(6) by (cases lft) (simp_all add: nodes_plug nd_def)
      ultimately show ?thesis using erase_last_rotation h3(2) K by fastforce
    qed
  qed
qed

end
