(* ===== verification/RbtreeRemove.thy ===== *)
theory RbtreeRemove
  imports RbtreeErase
begin

text \<open>
  The pointer surgery of \<open>rb_erase\<close>, and the walks to the ends of the tree and to the neighbours
  of a node.
\<close>

section \<open>The ends of a tree\<close>

lemma rb_end_ok:
  assumes "at h K t" "root_of t = Some a"
  shows "\<exists>Kr y d q. t = plug Kr (nd lft Lf y d q) \<and> rb_end lft a h = Some y \<and> (\<forall>f\<in>set Kr. fst f = lft)"
  using assms
proof (induction "size t" arbitrary: K t a rule: less_induct)
  case less
  have "t \<noteq> Lf" using less.prems(2) by auto
  then obtain n b d f where t: "t = nd lft n b d f" by (rule nd_cases)
  then have [simp]: "b = a" using less.prems(2) by simp
  have ch: "rb_child lft h a = root_of n" using at_nd(3) less.prems(1) t by fastforce
  show ?case
  proof (cases n)
    case Lf
    then show ?thesis
      using t ch by (intro exI [of _ "[]"] exI [of _ a]) (auto simp: rb_end.simps [of lft a h])
  next
    case (Nd l' a' c' r')
    have "at h ((lft, a, d, f) # K) n" using less.prems(1) t at_down by simp
    moreover have "size n < size t" using t by (simp add: nd_def)
    ultimately obtain Kr y d' q where "n = plug Kr (nd lft Lf y d' q)" "rb_end lft a' h = Some y" "\<forall>f\<in>set Kr. fst f = lft"
      using less.hyps [of n "(lft, a, d, f) # K" a'] Nd by auto
    moreover have "rb_end lft a h = rb_end lft a' h" using ch Nd by (simp add: rb_end.simps [of lft a h])
    moreover have "plug (Kr @ [(lft, a, d, f)]) u = nd lft (plug Kr u) a d f" for u
      by (induction Kr arbitrary: u) auto
    ultimately show ?thesis
      using t by (intro exI [of _ "Kr @ [(lft, a, d, f)]"]) auto
  qed
qed

lemma one_sided: "\<forall>f\<in>set K. fst f = lft \<Longrightarrow> if lft then before K = [] else after K = []"
  by (induction K rule: before.induct) auto

lemma rb_end_node:
  assumes "at h K t" "root_of t = Some a"
  shows "rb_end lft a h = Some (if lft then hd (nodes t) else last (nodes t))"
proof -
  obtain Kr y d q where r: "t = plug Kr (nd lft Lf y d q)" "rb_end lft a h = Some y" "\<forall>f\<in>set Kr. fst f = lft"
    using rb_end_ok [OF assms] by blast
  then show ?thesis
    using one_sided [OF r(3)] by (cases lft) (simp_all add: nodes_plug nd_def)
qed

section \<open>The neighbours of a node\<close>

fun climb_stop :: "bool \<Rightarrow> rb_ctx \<Rightarrow> nat option" where
  "climb_stop lft [] = None"
| "climb_stop lft ((s, a, c, t) # K) = (if s = lft then climb_stop lft K else Some a)"

lemma climb_stop_order: "climb_stop lft K
  = (if lft then (if before K = [] then None else Some (last (before K)))
     else (case after K of [] \<Rightarrow> None | y # _ \<Rightarrow> Some y))"
  by (induction lft K rule: climb_stop.induct) auto

lemma rb_climb_ok:
  assumes "at h K t" "root_of t = Some a"
  shows "rb_climb lft a h = Some (climb_stop lft K)"
  using assms
proof (induction K arbitrary: t a)
  case Nil
  then show ?case using at_parent [OF Nil] by (simp add: rb_climb.simps [of lft a h])
next
  case (Cons x K)
  obtain s p c u where x: "x = (s, p, c, u)" by (cases x) auto
  have "at h K (nd s t p c u)" using Cons.prems(1) x at_down by simp
  then have "rb_climb lft p h = Some (climb_stop lft K)" by (rule Cons.IH) simp
  then show ?case
    using at_parent [OF Cons.prems] at_side [OF Cons.prems(1) [unfolded x] Cons.prems(2), of lft] x
    by (subst rb_climb.simps) auto
qed

lemma rb_step_ok:
  assumes "at h K (nd (\<not> fwd) r z c l)"
  shows "rb_step fwd z h = Some (case root_of r of None \<Rightarrow> climb_stop (\<not> fwd) K
    | Some _ \<Rightarrow> Some (if fwd then hd (nodes r) else last (nodes r)))"
proof -
  have ch: "rb_child (\<not> fwd) h z = root_of r" using at_nd(3) [OF assms] .
  show ?thesis
  proof (cases "root_of r")
    case None
    then show ?thesis using ch rb_climb_ok [OF assms] by (simp add: rb_step_def)
  next
    case (Some a)
    then have "at h ((\<not> fwd, z, c, l) # K) r" using assms at_down by blast
    from rb_end_node [OF this Some, of fwd] show ?thesis
      using ch Some by (simp add: rb_step_def)
  qed
qed

text \<open>Every node of a tree is at some position.\<close>

lemma node_position:
  "z \<in> set (nodes t) \<Longrightarrow> \<exists>K l c r. plug K (Nd l z c r) = plug K0 t"
proof (induction t arbitrary: K0)
  case (Nd l a c r)
  show ?case
  proof (cases "z = a")
    case True
    then show ?thesis by blast
  next
    case False
    then consider "z \<in> set (nodes l)" | "z \<in> set (nodes r)" using Nd.prems by auto
    then show ?thesis
    proof cases
      case 1
      from Nd.IH(1) [OF this, of "(True, a, c, r) # K0"] show ?thesis by (simp add: nd_def)
    next
      case 2
      from Nd.IH(2) [OF this, of "(False, a, c, l) # K0"] show ?thesis by (simp add: nd_def)
    qed
  qed
qed simp

lemma tree_position:
  assumes "holds_tree h t" "z \<in> set (nodes t)"
  obtains K l c r where "at h K (Nd l z c r)" "t = plug K (Nd l z c r)"
  using node_position [OF assms(2), of "[]"] assms(1) holds_plug by auto

section \<open>Leaving the place to the only child\<close>

lemma at_splice:
  assumes "at h K (nd s Lf z c q)"
  shows "at (rb_splice z (root_of q) h) K q"
    "b \<notin> set (nodes q) \<Longrightarrow> rb_parent (rb_splice z (root_of q) h) b = rb_parent h b"
proof -
  have p: "rb_parent h z = ctx_parent K" using at_nd(1) [OF assms] .
  have ctx: "ctx_ok h (Some z) K" and tq: "tree_ok h (Some z) q" and d: "distinct (before K @ after K)" "distinct (nodes q)"
      "insert z (set (nodes q)) \<inter> ctx_addrs K = {}"
    using assms by (auto simp: at_def distinct_at tree_ok_nd) (auto simp: nd_def split: if_splits)
  define h1 where "h1 = rb_adopt (root_of q) (ctx_parent K) h"
  define h2 where "h2 = rb_relink True (ctx_parent K) z (root_of q) h1"
  have e: "rb_splice z (root_of q) h = h2" by (simp add: rb_splice_def p h1_def h2_def)
  have "same_on (ctx_addrs K) h h1" "rb_node h1 = rb_node h"
    using d(3) by (auto simp: same_on_def h1_def dest: root_in)
  then have c1: "ctx_ok h1 (Some z) K" using ctx_ok_same ctx by blast
  have "ctx_ok h2 (root_of q) K"
    unfolding h2_def using d(3) by (intro ctx_ok_relink [OF c1 d(1)]) auto
  moreover have "same_on (set (nodes q)) h1 h2"
    unfolding h2_def using d(3) by (intro relink_same [OF c1]) auto
  then have "tree_ok h2 (ctx_parent K) q"
    using tree_ok_adopt [OF tq d(2), of "ctx_parent K"] tree_ok_same by (auto simp: h1_def)
  ultimately show "at (rb_splice z (root_of q) h) K q"
    using d unfolding e by (auto simp: at_def distinct_at)
  show "rb_parent (rb_splice z (root_of q) h) b = rb_parent h b" if "b \<notin> set (nodes q)"
    using that unfolding e h2_def h1_def rb_relink_def by (auto split: option.splits dest: root_in)
qed

section \<open>Taking the place of another node\<close>

lemma at_take_place:
  assumes "at h K (Nd l z c r)" "y \<noteq> z" "y \<notin> set (nodes l)" "y \<notin> set (nodes r)" "y \<notin> ctx_addrs K" "l \<noteq> Lf"
  shows "\<exists>h'. erase_take_place y z h = Ret h' \<and> at h' K (Nd l y c r)"
proof -
  have at: "at h K (nd True l z c r)" using assms(1) by (simp add: nd_def)
  have z: "rb_parent h z = ctx_parent K" "rb_color h z = c" "rb_left h z = root_of l" "rb_right h z = root_of r"
    using at_nd [OF at] by (simp_all add: rb_child_def)
  have ctx: "ctx_ok h (Some z) K" and tr: "tree_ok h (Some z) l" "tree_ok h (Some z) r"
      and d: "distinct (before K @ after K)" "distinct (nodes l)" "distinct (nodes r)" "set (nodes l) \<inter> set (nodes r) = {}"
      "z \<notin> set (nodes l)" "z \<notin> set (nodes r)" "insert z (set (nodes l) \<union> set (nodes r)) \<inter> ctx_addrs K = {}"
    using assms(1) by (auto simp: at_def distinct_at)
  obtain rl where rl: "root_of l = Some rl" "rl \<in> set (nodes l)" using assms(6) by (cases l) auto
  define h1 where "h1 = rb_set_child True y (root_of l) (rb_set_child False y (root_of r)
      (rb_set_color y c (rb_set_parent y (ctx_parent K) h)))"
  define h2 where "h2 = rb_relink True (ctx_parent K) z (Some y) h1"
  define h3 where "h3 = rb_set_parent rl (Some y) h2"
  define h4 where "h4 = rb_adopt (root_of r) (Some y) h3"
  have s1: "same_on (ctx_addrs K) h h1" "rb_node h1 = rb_node h"
    using assms(5) by (auto simp: same_on_def h1_def)
  have c1: "ctx_ok h1 (Some z) K" using ctx_ok_same [OF s1] ctx by simp
  have c2: "ctx_ok h2 (Some y) K"
    unfolding h2_def using d(7) by (intro ctx_ok_relink [OF c1 d(1)]) auto
  have s2: "same_on (insert y (insert z (set (nodes l) \<union> set (nodes r)))) h1 h2"
    unfolding h2_def using d(7) assms(5) by (intro relink_same [OF c1]) auto
  have p1: "rb_parent h1 z = ctx_parent K" using z(1) assms(2) by (simp add: h1_def)
  have lr: "rb_left h2 z = root_of l" "rb_right h2 z = root_of r"
    using same_onD(3) [OF s2, of z] z assms(2) by (auto simp: rb_left_child h1_def)
  have run: "erase_take_place y z h = Ret h4"
    unfolding erase_take_place_def Let_def z h1_def [symmetric] p1 h2_def [symmetric] lr h4_def h3_def
    by (simp add: rl(1))
  have "same_on (ctx_addrs K) h2 h4" "rb_node h4 = rb_node h2"
    using d(7) rl(2) by (auto simp: same_on_def h4_def h3_def dest: root_in)
  then have c4: "ctx_ok h4 (Some y) K" using ctx_ok_same c2 by blast
  have sl: "same_on (set (nodes l)) h h2" and sr: "same_on (set (nodes r)) h h2"
    using s2 assms(3,4) by (auto simp: same_on_def h1_def)
  have "tree_ok h3 (Some y) l"
    using tree_ok_adopt [of h2 "Some z" l "Some y"] tree_ok_same [OF sl] tr(1) d(2) rl(1) by (simp add: h3_def rb_adopt_def)
  moreover have "same_on (set (nodes l)) h3 h4"
    using d(4) by (auto simp: same_on_def h4_def dest!: root_in)
  ultimately have tl: "tree_ok h4 (Some y) l" using tree_ok_same by blast
  have "same_on (set (nodes r)) h2 h3"
    using d(4) rl(2) by (auto simp: same_on_def h3_def)
  then have "tree_ok h3 (Some z) r" using tree_ok_same sr tr(2) by blast
  then have tr4: "tree_ok h4 (Some y) r" using tree_ok_adopt d(3) by (simp add: h4_def)
  have y: "rb_parent h4 y = ctx_parent K" "rb_color h4 y = c" "rb_child True h4 y = root_of l" "rb_child False h4 y = root_of r"
    using same_onD [OF s2, of y] assms(3,4) rl(2) by (auto simp: h4_def h3_def h1_def dest!: root_in)
  have "tree_ok h4 (ctx_parent K) (Nd l y c r)" using tl tr4 y by (simp add: rb_left_child)
  then have "at h4 K (Nd l y c r)"
    using c4 d assms(3-5) by (auto simp: at_def distinct_at)
  then show ?thesis using run by blast
qed

section \<open>Removal\<close>

lemma ctx_bal_rename: "ctx_bal n k (Kr @ (s, z, c, l) # K) \<longleftrightarrow> ctx_bal n k (Kr @ (s, y, c, l) # K)"
proof (induction Kr arbitrary: n k)
  case Nil
  then show ?case by (cases c) auto
next
  case (Cons x Kr)
  obtain s' a c' t where "x = (s', a, c', t)" by (cases x) auto
  then show ?case using Cons by (cases c') auto
qed

text \<open>After the position of a node of colour \<open>d\<close> went to its only child.\<close>

lemma erase_finish:
  assumes "at h K q" "is_rbt (plug K' (nd s Lf y d q))" "\<And>n. ctx_bal n d K' \<longleftrightarrow> ctx_bal n d K"
  shows "erased (if d = RB_BLACK then rb_erase_color (root_of q) (ctx_parent K) h else Some (Ret h)) (nodes (plug K q))"
proof -
  obtain n where n: "bal n (nd s Lf y d q)" "ctx_bal n d K" using plug_bal [OF assms(2)] assms(3) by auto
  show ?thesis
  proof (cases d)
    case RB_BLACK
    then obtain m where m: "n = Suc m" "bal m q" using n(1) by auto
    then show ?thesis using rb_erase_color_correct [OF assms(1) m(2)] n(2) RB_BLACK by simp
  next
    case RB_RED
    then have "is_rbt (plug K q)" using n ctx_bal_black by (intro bal_plug [of n]) auto
    then show ?thesis using RB_RED assms(1) holds_plug by (auto simp: erased_def)
  qed
qed

lemma rb_erase_one_child:
  assumes "at h K (nd s Lf z c q)" "is_rbt (plug K (nd s Lf z c q))"
  shows "erased (rb_erase z h) (before K @ nodes q @ after K)"
proof -
  have ch: "rb_child s h z = None" "rb_child (\<not> s) h z = root_of q" "rb_color h z = c" "rb_parent h z = ctx_parent K"
    using at_nd [OF assms(1)] by simp_all
  let ?h = "rb_splice z (root_of q) h"
  have "rb_erase z h = (if c = RB_BLACK then rb_erase_color (root_of q) (ctx_parent K) ?h else Some (Ret ?h))"
    using ch by (cases s; cases "root_of q") (auto simp: rb_erase_def rb_child_def Let_def)
  then show ?thesis
    using erase_finish [OF at_splice(1) [OF assms(1)] assms(2)] by (simp add: nodes_plug)
qed

lemma rb_erase_two_children:
  assumes "at h K (Nd l z c r)" "is_rbt (plug K (Nd l z c r))" "l \<noteq> Lf" "r \<noteq> Lf"
  shows "erased (rb_erase z h) (before K @ nodes l @ nodes r @ after K)"
proof -
  have at: "at h K (nd False r z c l)" using assms(1) by (simp add: nd_def)
  then have atr: "at h ((False, z, c, l) # K) r" by (simp add: at_down)
  obtain rl rr where rt: "root_of l = Some rl" "root_of r = Some rr" using assms(3,4) by (cases l; cases r) auto
  have zf: "rb_left h z = Some rl" "rb_right h z = Some rr"
    using at_nd [OF at] rt by (simp_all add: rb_child_def)
  obtain Kr y d q where e: "r = plug Kr (nd True Lf y d q)" "rb_end True rr h = Some y" "\<forall>f\<in>set Kr. fst f = True"
    using rb_end_ok [OF atr rt(2), of True] by blast
  have bf: "before Kr = []" using one_sided [OF e(3)] by simp
  let ?K = "Kr @ (False, z, c, l) # K" and ?K' = "Kr @ (False, y, c, l) # K"
  have aty: "at h ?K (nd True Lf y d q)" using atr e(1) by (simp add: at_plug)
  have nr: "nodes r = y # nodes q @ after Kr" using e(1) bf by (simp add: nodes_plug nd_def)
  have dst: "y \<noteq> z" "y \<notin> set (nodes l)" "y \<notin> set (nodes q @ after Kr)" "y \<notin> ctx_addrs K" "z \<notin> set (nodes r)"
    using assms(1) nr by (auto simp: at_def distinct_at)
  have yf: "rb_right h y = root_of q" "rb_color h y = d" "rb_parent h y = ctx_parent ?K"
    using at_nd [OF aty] by (simp_all add: rb_child_def)
  let ?h1 = "rb_splice y (root_of q) h"
  have at1: "at ?h1 ?K q" and p1: "rb_parent ?h1 y = ctx_parent ?K"
    using at_splice [OF aty] yf(3) dst(3) by auto
  have "at ?h1 K (Nd l z c (plug Kr q))"
    using at1 by (simp add: at_plug at_down [symmetric] nd_def)
  moreover have "y \<notin> set (nodes (plug Kr q))" using dst(3) bf by (simp add: nodes_plug)
  ultimately obtain h2 where h2: "erase_take_place y z ?h1 = Ret h2" "at h2 K (Nd l y c (plug Kr q))"
    using at_take_place dst assms(3) by blast
  have at2: "at h2 ?K' q" using h2(2) by (simp add: at_plug at_down [symmetric] nd_def)
  have par: "(if rb_parent ?h1 y = Some z then Some y else rb_parent h y) = ctx_parent ?K'"
  proof (cases Kr)
    case Nil
    then show ?thesis using p1 by simp
  next
    case (Cons x Kr')
    obtain s a k u where x: "x = (s, a, k, u)" by (cases x) auto
    then have "a \<in> set (nodes r)" using e(1) Cons nodes_plug [of Kr "nd True Lf y d q"] set_ctx [of Kr] by auto
    then have "a \<noteq> z" using dst(5) by auto
    then show ?thesis using p1 yf(3) Cons x by simp
  qed
  have run: "rb_erase z h = (if d = RB_BLACK then rb_erase_color (root_of q) (ctx_parent ?K') h2 else Some (Ret h2))"
    unfolding rb_erase_def using zf e(2) yf h2(1) par by (simp add: Let_def)
  have "is_rbt (plug ?K (nd True Lf y d q))"
    using assms(2) e(1) by (simp add: nd_def plug_append)
  then have "erased (rb_erase z h) (nodes (plug ?K' q))"
    unfolding run by (rule erase_finish [OF at2]) (rule ctx_bal_rename)
  moreover have "nodes (plug ?K' q) = before K @ nodes l @ nodes r @ after K"
    using nr bf by (simp add: plug_append nodes_plug nd_def)
  ultimately show ?thesis by simp
qed

lemma rb_erase_correct:
  assumes "holds_tree h t" "is_rbt t" "z \<in> set (nodes t)"
  shows "erased (rb_erase z h) (remove1 z (nodes t))"
proof -
  obtain K l c r where p: "at h K (Nd l z c r)" "t = plug K (Nd l z c r)"
    using tree_position [OF assms(1,3)] by blast
  have "z \<notin> set (before K)" "z \<notin> set (nodes l)" using p(1) set_ctx [of K] by (auto simp: at_def distinct_at)
  then have n: "remove1 z (nodes t) = before K @ nodes l @ nodes r @ after K"
    using p(2) by (simp add: nodes_plug remove1_append)
  consider "l = Lf" | "r = Lf" | "l \<noteq> Lf" "r \<noteq> Lf" by blast
  then show ?thesis
  proof cases
    case 1
    then show ?thesis using rb_erase_one_child [of h K True z c r] p assms(2) n by (simp add: nd_def)
  next
    case 2
    then show ?thesis using rb_erase_one_child [of h K False z c l] p assms(2) n by (simp add: nd_def)
  next
    case 3
    then show ?thesis using rb_erase_two_children p assms(2) n by simp
  qed
qed

end
