(* ===== verification/RbtreeProps.thy ===== *)
theory RbtreeProps
  imports RbtreeRemove
begin

text \<open>
  The properties of \<open>rbtree.c\<close>: insertion, removal, the walks and the depth of a tree, for
  the pointer structure as the code leaves it.
\<close>

section \<open>Replacement\<close>

lemma at_replace:
  assumes "at h K (Nd l z c r)" "y \<noteq> z" "y \<notin> set (nodes l)" "y \<notin> set (nodes r)" "y \<notin> ctx_addrs K"
  shows "at (rb_replace_node z y h) K (Nd l y c r)"
proof -
  have at: "at h K (nd True l z c r)" using assms(1) by (simp add: nd_def)
  have z: "rb_parent h z = ctx_parent K" "rb_color h z = c" "rb_left h z = root_of l" "rb_right h z = root_of r"
    using at_nd [OF at] by (simp_all add: rb_child_def)
  have ctx: "ctx_ok h (Some z) K" and tr: "tree_ok h (Some z) l" "tree_ok h (Some z) r"
      and d: "distinct (before K @ after K)" "distinct (nodes l)" "distinct (nodes r)" "set (nodes l) \<inter> set (nodes r) = {}"
      "z \<notin> set (nodes l)" "z \<notin> set (nodes r)" "insert z (set (nodes l) \<union> set (nodes r)) \<inter> ctx_addrs K = {}"
    using assms(1) by (auto simp: at_def distinct_at)
  have rt: "root_of l \<noteq> Some z" "root_of r \<noteq> Some z" "\<forall>b. b \<notin> set (nodes l) \<longrightarrow> root_of l \<noteq> Some b"
      "\<forall>b. b \<notin> set (nodes r) \<longrightarrow> root_of r \<noteq> Some b"
    using d(5,6) by (auto dest: root_in)
  define h1 where "h1 = rb_relink True (ctx_parent K) z (Some y) h"
  define h2 where "h2 = rb_adopt (root_of l) (Some y) h1"
  define h3 where "h3 = rb_adopt (root_of r) (Some y) h2"
  define h4 where "h4 = rb_set_child True y (root_of l) (rb_set_child False y (root_of r)
      (rb_set_color y c (rb_set_parent y (ctx_parent K) h3)))"
  have c1: "ctx_ok h1 (Some y) K"
    unfolding h1_def using d(7) by (intro ctx_ok_relink [OF ctx d(1)]) auto
  have s1: "same_on (insert y (insert z (set (nodes l) \<union> set (nodes r)))) h h1"
    unfolding h1_def using d(7) assms(5) by (intro relink_same [OF ctx]) auto
  have r1: "rb_left h1 z = root_of l" "rb_right h1 z = root_of r" "rb_color h1 z = c" "rb_parent h1 z = ctx_parent K"
    using same_onD [OF s1, of z] z by (simp_all add: rb_left_child)
  have e: "rb_replace_node z y h = h4"
    unfolding rb_replace_node_def Let_def z h1_def [symmetric] r1 h2_def [symmetric]
    using r1 rt by (simp add: h4_def h3_def h2_def rb_left_child)
  have "same_on (ctx_addrs K) h1 h4" "rb_node h4 = rb_node h1"
    using d(7) rt assms(5) by (auto simp: same_on_def h4_def h3_def h2_def)
  then have c4: "ctx_ok h4 (Some y) K" using ctx_ok_same c1 by blast
  have "same_on (set (nodes l)) h h1" "same_on (set (nodes r)) h h2"
    using s1 d(4) rt by (auto simp: same_on_def h2_def)
  then have "tree_ok h2 (Some y) l" "tree_ok h3 (Some y) r"
    using tree_ok_adopt tr d(2,3) tree_ok_same unfolding h2_def h3_def by blast+
  moreover have "same_on (set (nodes l)) h2 h4" "same_on (set (nodes r)) h3 h4"
    using d(4) rt assms(3,4) by (auto simp: same_on_def h4_def h3_def)
  ultimately have "tree_ok h4 (Some y) l" "tree_ok h4 (Some y) r" using tree_ok_same by blast+
  then have "tree_ok h4 (ctx_parent K) (Nd l y c r)" by (simp add: rb_left_child h4_def)
  then show ?thesis
    using c4 d assms(3-5) unfolding e by (auto simp: at_def distinct_at)
qed

section \<open>Depth\<close>

fun depth :: "ptree \<Rightarrow> nat" where
  "depth Lf = 0"
| "depth (Nd l a c r) = Suc (max (depth l) (depth r))"

lemma bal_depth: "bal n t \<Longrightarrow> depth t \<le> 2 * n + (if col t = RB_RED then 1 else 0)"
  by (induction n t rule: bal.induct) (auto split: nat.splits if_splits)

lemma bal_nodes: "bal n t \<Longrightarrow> 2 ^ n \<le> length (nodes t) + 1"
proof (induction n t rule: bal.induct)
  case (2 n l a r)
  then show ?case by auto
next
  case (3 n l a r)
  then show ?case by (cases n) fastforce+
qed simp

section \<open>The operations\<close>

text \<open>
  C16. A node that is linked at an empty place of a balanced tree: \<open>rb_insert_color\<close> returns, follows
  no null pointer, and leaves a balanced tree whose parent and child pointers agree and whose
  nodes are in the same order as before, with the new node at its place.
\<close>

theorem rb_insert_balances:
  assumes "holds_tree h (plug K Lf)" "is_rbt (plug K Lf)" "z \<notin> set (nodes (plug K Lf))" "K \<noteq> [] \<Longrightarrow> lft = fst (hd K)"
  shows "\<exists>h' t. rb_insert_color z (rb_link_node z (ctx_parent K) lft h) = Some (Ret h')
    \<and> holds_tree h' t \<and> is_rbt t \<and> nodes t = before K @ z # after K"
  using assms by (rule rb_insert_correct)

text \<open>The nodes 1 (black, the root) and 2 (red, its right child).\<close>

definition two_nodes :: rb_tree where
  "two_nodes = \<lparr>rb_parent = (\<lambda>a. if a = 2 then Some 1 else None), rb_right = (\<lambda>a. if a = 1 then Some 2 else None),
     rb_left = (\<lambda>a. None), rb_color = (\<lambda>a. if a = 1 then RB_BLACK else RB_RED), rb_node = Some 1\<rparr>"

definition two_tree :: ptree where
  "two_tree = Nd Lf 1 RB_BLACK (Nd Lf 2 RB_RED Lf)"

lemma two_tree_ok: "holds_tree two_nodes two_tree" "is_rbt two_tree"
proof -
  show "holds_tree two_nodes two_tree" by (simp add: two_nodes_def two_tree_def holds_tree_def at_def)
  have "bal (Suc 0) two_tree" by (simp add: two_tree_def)
  then have "\<exists>n. bal n two_tree" by (rule exI)
  then show "is_rbt two_tree" by (simp add: is_rbt_def) (simp add: two_tree_def)
qed

theorem rb_insert_balances_witness:
  "\<exists>h' t. rb_insert_color 3 (rb_link_node 3 (Some 2) False two_nodes) = Some (Ret h')
    \<and> holds_tree h' t \<and> is_rbt t \<and> nodes t = [1, 2, 3]"
proof -
  have "plug [(False, 2, RB_RED, Lf), (False, 1, RB_BLACK, Lf)] Lf = two_tree" by (simp add: nd_def two_tree_def)
  then show ?thesis
    using rb_insert_balances [of two_nodes "[(False, 2, RB_RED, Lf), (False, 1, RB_BLACK, Lf)]" 3 False] two_tree_ok
    by (simp add: two_tree_def)
qed

text \<open>
  C17. \<open>rb_erase\<close> of a node of a balanced tree returns, follows no null pointer, and leaves a balanced
  tree with the other nodes in their order.
\<close>

theorem rb_erase_balances:
  assumes "holds_tree h t" "is_rbt t" "z \<in> set (nodes t)"
  shows "\<exists>h' t'. rb_erase z h = Some (Ret h') \<and> holds_tree h' t' \<and> is_rbt t' \<and> nodes t' = remove1 z (nodes t)"
  using rb_erase_correct [OF assms] by (auto simp: erased_def)

theorem rb_erase_balances_witness:
  "\<exists>h' t'. rb_erase 1 two_nodes = Some (Ret h') \<and> holds_tree h' t' \<and> is_rbt t' \<and> nodes t' = [2]"
  using rb_erase_balances [OF two_tree_ok, of 1] by (simp add: two_tree_def)

lemma tree_split:
  assumes "holds_tree h t" "nodes t = xs @ z # ys"
  obtains K l c r where "at h K (Nd l z c r)" "t = plug K (Nd l z c r)" "xs = before K @ nodes l" "ys = nodes r @ after K"
proof -
  obtain K l c r where p: "at h K (Nd l z c r)" "t = plug K (Nd l z c r)"
  proof (rule tree_position [OF assms(1)])
    show "z \<in> set (nodes t)" using assms(2) by simp
  qed
  have d: "distinct (nodes t)" using assms(1) by (simp add: holds_tree_def at_def)
  have eq: "before K @ nodes l @ z # nodes r @ after K = xs @ z # ys"
    using assms(2) p(2) by (simp add: nodes_plug)
  have "z \<notin> set (before K @ nodes l)" using d p(2) by (auto simp: nodes_plug)
  moreover have "z \<notin> set xs" using d assms(2) by simp
  ultimately have "xs = before K @ nodes l" "ys = nodes r @ after K"
    using eq append_Cons_eq_iff [of z "before K @ nodes l" "nodes r @ after K" xs ys]
    by (metis append.assoc distinct_append d assms(2) distinct.simps(2))+
  then show ?thesis using that p by blast
qed

lemma rb_neighbours:
  assumes "holds_tree h t" "nodes t = xs @ z # ys"
  shows "rb_step True z h = Some (case ys of [] \<Rightarrow> None | y # _ \<Rightarrow> Some y)"
    "rb_step False z h = Some (if xs = [] then None else Some (last xs))"
proof -
  obtain K l c r where p: "at h K (Nd l z c r)" "t = plug K (Nd l z c r)" "xs = before K @ nodes l" "ys = nodes r @ after K"
    using tree_split [OF assms] .
  have fw: "at h K (nd (\<not> True) r z c l)" and bw: "at h K (nd (\<not> False) l z c r)"
    using p(1) by (simp_all add: nd_def)
  show "rb_step True z h = Some (case ys of [] \<Rightarrow> None | y # _ \<Rightarrow> Some y)"
  proof (cases r)
    case Lf
    then show ?thesis using rb_step_ok [OF fw] p(4) climb_stop_order [of False K] by simp
  next
    case (Nd r1 b k r2)
    then have "ys = hd (nodes r) # tl ys" using p(4) by (cases "nodes r1") auto
    then show ?thesis using rb_step_ok [OF fw] Nd by (metis list.simps(5) option.simps(5) root_of.simps(2))
  qed
  show "rb_step False z h = Some (if xs = [] then None else Some (last xs))"
    using rb_step_ok [OF bw] p(3) climb_stop_order [of True K] by (cases l) (auto simp: last_append)
qed

lemma rb_ends:
  assumes "holds_tree h t" "nodes t \<noteq> []"
  shows "rb_first h = Some (Some (hd (nodes t)))" "rb_last h = Some (Some (last (nodes t)))"
proof -
  obtain a where a: "root_of t = Some a" using assms(2) by (cases t) auto
  then have "rb_node h = Some a" using assms(1) by (simp add: holds_tree_def at_def)
  then show "rb_first h = Some (Some (hd (nodes t)))" "rb_last h = Some (Some (last (nodes t)))"
    using rb_end_node [OF assms(1) [unfolded holds_tree_def] a] by (simp_all add: rb_first_def rb_last_def)
qed

lemma rbt_depth:
  assumes "is_rbt t"
  shows "2 ^ depth t \<le> (length (nodes t) + 1) ^ 2"
proof -
  obtain n where n: "bal n t" "col t = RB_BLACK" using assms by (auto simp: is_rbt_def)
  have "(2::nat) ^ depth t \<le> 2 ^ (2 * n)" using bal_depth [OF n(1)] n(2) by (intro power_increasing) auto
  also have "\<dots> = (2 ^ n) ^ 2" by (simp add: power_mult [symmetric] mult.commute)
  also have "\<dots> \<le> (length (nodes t) + 1) ^ 2" by (rule power_mono [OF bal_nodes [OF n(1)]]) simp
  finally show ?thesis .
qed

text \<open>
  On the tree whose nodes in order are \<open>xs\<close>, \<open>z\<close>, \<open>ys\<close>, \<open>rb_next\<close> of \<open>z\<close> is the first node of \<open>ys\<close> and
  \<open>rb_prev\<close> the last one of \<open>xs\<close>, a null pointer at the ends; \<open>rb_first\<close> and \<open>rb_last\<close> are the ends; the
  walks return. The depth of the tree is at most twice the logarithm of its size, and a node may be
  replaced by another at its place.
\<close>

theorem rb_walks:
  assumes "holds_tree h t" "nodes t = xs @ z # ys"
  shows "rb_step True z h = Some (case ys of [] \<Rightarrow> None | y # _ \<Rightarrow> Some y)
    \<and> rb_step False z h = Some (if xs = [] then None else Some (last xs))
    \<and> rb_first h = Some (Some (hd (xs @ [z]))) \<and> rb_last h = Some (Some (last (z # ys)))
    \<and> (is_rbt t \<longrightarrow> 2 ^ depth t \<le> (length (nodes t) + 1) ^ 2)
    \<and> (y \<notin> set (nodes t) \<longrightarrow> (\<exists>t'. holds_tree (rb_replace_node z y h) t' \<and> nodes t' = xs @ y # ys))"
proof -
  obtain K l c r where p: "at h K (Nd l z c r)" "t = plug K (Nd l z c r)" "xs = before K @ nodes l" "ys = nodes r @ after K"
    using tree_split [OF assms] .
  have "\<exists>t'. holds_tree (rb_replace_node z y h) t' \<and> nodes t' = xs @ y # ys" if "y \<notin> set (nodes t)"
  proof -
    have "y \<noteq> z \<and> y \<notin> set (nodes l) \<and> y \<notin> set (nodes r) \<and> y \<notin> ctx_addrs K"
      using that p(2) set_ctx [of K] by (auto simp: nodes_plug)
    then have "holds_tree (rb_replace_node z y h) (plug K (Nd l y c r))"
      using at_replace [OF p(1)] holds_plug by blast
    then show ?thesis using p(3,4) by (intro exI [of _ "plug K (Nd l y c r)"]) (simp add: nodes_plug)
  qed
  moreover have "nodes t \<noteq> []" "hd (nodes t) = hd (xs @ [z])" "last (nodes t) = last (z # ys)"
    using assms(2) by (simp_all add: hd_append last_append)
  ultimately show ?thesis using rb_neighbours [OF assms] rb_ends [OF assms(1)] rbt_depth by auto
qed

theorem rb_walks_witness:
  "rb_step True 1 two_nodes = Some (Some 2) \<and> rb_step False 1 two_nodes = Some None \<and> rb_last two_nodes = Some (Some 2)
    \<and> (\<exists>t'. holds_tree (rb_replace_node 1 7 two_nodes) t' \<and> nodes t' = [7, 2])"
  using rb_walks [OF two_tree_ok(1), of "[]" 1 "[2]" 7] by (simp add: two_tree_def)

end
