(* ===== verification/LinkList.thy ===== *)
theory LinkList
  imports Prelude
begin

text \<open>
  \<open>src/struct/list.h\<close>: the circular doubly linked lists of the kernel and the singly linked lists
  with a tail pointer, at the level of their links, as refinements of lists of nodes. A list head
  is a node like the others.
\<close>

section \<open>Doubly linked lists\<close>

record list_links =
  ln_next :: "nat \<Rightarrow> nat"
  ln_prev :: "nat \<Rightarrow> nat"

definition set_next :: "nat \<Rightarrow> nat \<Rightarrow> list_links \<Rightarrow> list_links" where
  "set_next a x h = h\<lparr>ln_next := (ln_next h)(a := x)\<rparr>"

definition set_prev :: "nat \<Rightarrow> nat \<Rightarrow> list_links \<Rightarrow> list_links" where
  "set_prev a x h = h\<lparr>ln_prev := (ln_prev h)(a := x)\<rparr>"

definition init_list_head :: "nat \<Rightarrow> list_links \<Rightarrow> list_links" where
  "init_list_head l h = set_prev l l (set_next l l h)"

definition list_add_between :: "nat \<Rightarrow> nat \<Rightarrow> nat \<Rightarrow> list_links \<Rightarrow> list_links" where
  "list_add_between node prv nxt h = set_next prv node (set_prev node prv (set_next node nxt (set_prev nxt node h)))"

definition list_add :: "nat \<Rightarrow> nat \<Rightarrow> list_links \<Rightarrow> list_links" where
  "list_add node l h = list_add_between node l (ln_next h l) h"

definition list_add_tail :: "nat \<Rightarrow> nat \<Rightarrow> list_links \<Rightarrow> list_links" where
  "list_add_tail node l h = list_add_between node (ln_prev h l) l h"

definition list_del_between :: "nat \<Rightarrow> nat \<Rightarrow> list_links \<Rightarrow> list_links" where
  "list_del_between prv nxt h = set_next prv nxt (set_prev nxt prv h)"

definition list_del :: "nat \<Rightarrow> list_links \<Rightarrow> list_links" where
  "list_del entry h = list_del_between (ln_prev h entry) (ln_next h entry) h"

definition list_move :: "nat \<Rightarrow> nat \<Rightarrow> list_links \<Rightarrow> list_links" where
  "list_move entry l h = list_add entry l (list_del_between (ln_prev h entry) (ln_next h entry) h)"

definition list_move_tail :: "nat \<Rightarrow> nat \<Rightarrow> list_links \<Rightarrow> list_links" where
  "list_move_tail entry l h = list_add_tail entry l (list_del_between (ln_prev h entry) (ln_next h entry) h)"

definition list_empty :: "nat \<Rightarrow> list_links \<Rightarrow> bool" where
  "list_empty l h \<longleftrightarrow> ln_next h l = l"

definition list_splice_nonempty :: "nat \<Rightarrow> nat \<Rightarrow> list_links \<Rightarrow> list_links" where
  "list_splice_nonempty l k h =
     (let fst_l = ln_next h l; lst_l = ln_prev h l; pos = ln_next h k in
      set_prev pos lst_l (set_next lst_l pos (set_next k fst_l (set_prev fst_l k h))))"

definition list_splice :: "nat \<Rightarrow> nat \<Rightarrow> list_links \<Rightarrow> list_links" where
  "list_splice l k h = (if \<not> list_empty l h then list_splice_nonempty l k h else h)"

definition list_splice_init :: "nat \<Rightarrow> nat \<Rightarrow> list_links \<Rightarrow> list_links" where
  "list_splice_init l k h = (if \<not> list_empty l h then init_list_head l (list_splice_nonempty l k h) else h)"

text \<open>The nodes that \<open>list_for_each\<close> visits from \<open>pos\<close> on; it may not end.\<close>

partial_function (option) list_for_each :: "nat \<Rightarrow> nat \<Rightarrow> list_links \<Rightarrow> nat list option" where
  "list_for_each pos l h =
     (if pos = l then Some [] else Option.bind (list_for_each (ln_next h pos) l h) (\<lambda>xs. Some (pos # xs)))"

declare list_for_each.simps [code]

subsection \<open>Segments and rings\<close>

fun seg :: "list_links \<Rightarrow> nat \<Rightarrow> nat list \<Rightarrow> nat \<Rightarrow> bool" where
  "seg h a [] b \<longleftrightarrow> ln_next h a = b \<and> ln_prev h b = a"
| "seg h a (x # xs) b \<longleftrightarrow> ln_next h a = x \<and> ln_prev h x = a \<and> seg h x xs b"

definition ring_list_at :: "list_links \<Rightarrow> nat \<Rightarrow> nat list \<Rightarrow> bool" where
  "ring_list_at h l xs \<longleftrightarrow> seg h l xs l \<and> distinct (l # xs)"

lemma links_reads [simp]:
  "ln_next (set_next a x h) b = (if b = a then x else ln_next h b)" "ln_next (set_prev a x h) b = ln_next h b"
  "ln_prev (set_prev a x h) b = (if b = a then x else ln_prev h b)" "ln_prev (set_next a x h) b = ln_prev h b"
  by (auto simp: set_next_def set_prev_def)

lemma seg_append: "seg h a (xs @ y # ys) b \<longleftrightarrow> seg h a xs y \<and> seg h y ys b"
  by (induction xs arbitrary: a) auto

lemma seg_snoc: "seg h a (xs @ [y]) b \<longleftrightarrow> seg h a xs y \<and> ln_next h y = b \<and> ln_prev h b = y"
  by (simp add: seg_append)

lemma seg_ends: "seg h a xs b \<Longrightarrow> ln_next h a = hd (xs @ [b]) \<and> ln_prev h b = last (a # xs)"
  by (induction xs arbitrary: a) auto

text \<open>A segment depends on the next pointers of all but its end and the previous ones of all but its start.\<close>

lemma seg_cong:
  assumes "\<forall>x\<in>set (a # xs). ln_next h' x = ln_next h x" "\<forall>x\<in>set (xs @ [b]). ln_prev h' x = ln_prev h x"
  shows "seg h' a xs b = seg h a xs b"
  using assms by (induction xs arbitrary: a) auto

text \<open>Where a ring is not touched it stays.\<close>

lemma ring_cong:
  "\<forall>x\<in>set (l # xs). ln_next h' x = ln_next h x \<and> ln_prev h' x = ln_prev h x \<Longrightarrow> ring_list_at h' l xs = ring_list_at h l xs"
  unfolding ring_list_at_def by (subst seg_cong [of l xs h' h l]) auto

text \<open>A ring seen from one of its nodes.\<close>

lemma ring_split:
  "ring_list_at h l (xs @ y # ys) \<longleftrightarrow> seg h l xs y \<and> seg h y ys l \<and> distinct (l # xs @ y # ys)"
  by (simp add: ring_list_at_def seg_append)

text \<open>The two neighbours of a place in a ring.\<close>

lemma ring_add_between:
  assumes "ring_list_at h l (xs @ ys)" "z \<notin> set (l # xs @ ys)"
  shows "ring_list_at (list_add_between z (last (l # xs)) (hd (ys @ [l])) h) l (xs @ z # ys)"
proof -
  let ?p = "last (l # xs)" and ?n = "hd (ys @ [l])"
  let ?h = "list_add_between z ?p ?n h"
  have d: "distinct (l # xs @ z # ys)" using assms by (auto simp: ring_list_at_def)
  have left: "seg ?h l xs z"
  proof (cases xs rule: rev_cases)
    case Nil
    then show ?thesis using d by (auto simp: list_add_between_def)
  next
    case (snoc xs' q)
    have "seg h l xs' q" using assms(1) snoc by (auto simp: ring_list_at_def seg_append)
    moreover have "?n \<noteq> q" "?n \<notin> set xs'" using d snoc by (cases ys; auto)+
    ultimately have "seg ?h l xs' q" using d snoc by (subst seg_cong) (auto simp: list_add_between_def)
    then show ?thesis using d snoc by (auto simp: seg_snoc list_add_between_def)
  qed
  have right: "seg ?h z ys l"
  proof (cases ys)
    case Nil
    then show ?thesis using d by (auto simp: list_add_between_def)
  next
    case (Cons n ys')
    have "seg h n ys' l" using assms(1) Cons by (auto simp: ring_list_at_def seg_append)
    moreover have "?p \<noteq> n" "?p \<notin> set ys'" using d Cons by (cases xs rule: rev_cases; auto)+
    ultimately have "seg ?h n ys' l" using d Cons by (subst seg_cong) (auto simp: list_add_between_def)
    then show ?thesis using d Cons by (auto simp: list_add_between_def)
  qed
  show ?thesis using left right d by (auto simp: ring_split)
qed

lemma ring_del_between:
  assumes "ring_list_at h l (xs @ z # ys)"
  shows "ln_prev h z = last (l # xs)" "ln_next h z = hd (ys @ [l])"
    "ring_list_at (list_del_between (last (l # xs)) (hd (ys @ [l])) h) l (xs @ ys)"
proof -
  have s: "seg h l xs z" "seg h z ys l" and d: "distinct (l # xs @ z # ys)"
    using assms by (auto simp: ring_split)
  show "ln_prev h z = last (l # xs)" "ln_next h z = hd (ys @ [l])" using seg_ends s by blast+
  let ?p = "last (l # xs)" and ?n = "hd (ys @ [l])"
  let ?h = "list_del_between ?p ?n h"
  have left: "seg ?h l xs ?n"
  proof (cases xs rule: rev_cases)
    case (snoc xs' q)
    have "seg h l xs' q" using s(1) snoc by (auto simp: seg_snoc)
    moreover have "?n \<noteq> q" "?n \<notin> set xs'" using d snoc by (cases ys; auto)+
    ultimately have "seg ?h l xs' q" using d snoc by (subst seg_cong) (auto simp: list_del_between_def)
    then show ?thesis using d snoc by (auto simp: seg_snoc list_del_between_def)
  qed (simp add: list_del_between_def)
  show "ring_list_at ?h l (xs @ ys)"
  proof (cases ys)
    case Nil
    then show ?thesis using left d by (auto simp: ring_list_at_def)
  next
    case (Cons n ys')
    have "seg h n ys' l" using s(2) Cons by auto
    moreover have "?p \<noteq> n" "?p \<notin> set ys'" using d Cons by (cases xs rule: rev_cases; auto)+
    ultimately have "seg ?h n ys' l" using d Cons by (subst seg_cong) (auto simp: list_del_between_def)
    then show ?thesis using left d Cons by (auto simp: ring_list_at_def seg_append)
  qed
qed

lemma ring_ends: "ring_list_at h l xs \<Longrightarrow> ln_next h l = hd (xs @ [l]) \<and> ln_prev h l = last (l # xs)"
  using seg_ends by (auto simp: ring_list_at_def)

lemma ring_empty: "ring_list_at h l xs \<Longrightarrow> list_empty l h \<longleftrightarrow> xs = []"
  by (cases xs) (auto simp: list_empty_def ring_list_at_def)

subsection \<open>The operations\<close>

lemma list_add_ring:
  "ring_list_at h l xs \<Longrightarrow> z \<notin> set (l # xs) \<Longrightarrow> ring_list_at (list_add z l h) l (z # xs)"
  using ring_add_between [of h l "[]" xs z] ring_ends [of h l xs] by (simp add: list_add_def)

lemma list_add_tail_ring:
  "ring_list_at h l xs \<Longrightarrow> z \<notin> set (l # xs) \<Longrightarrow> ring_list_at (list_add_tail z l h) l (xs @ [z])"
  using ring_add_between [of h l xs "[]" z] ring_ends [of h l xs] by (simp add: list_add_tail_def)

lemma list_del_ring:
  "ring_list_at h l (xs @ z # ys) \<Longrightarrow> ring_list_at (list_del z h) l (xs @ ys)"
  using ring_del_between [of h l xs z ys] by (simp add: list_del_def)

text \<open>Which links an operation writes.\<close>

lemma list_add_between_frame:
  "x \<notin> {z, p, n} \<Longrightarrow> ln_next (list_add_between z p n h) x = ln_next h x \<and> ln_prev (list_add_between z p n h) x = ln_prev h x"
  by (simp add: list_add_between_def)

lemma list_del_between_frame:
  "x \<notin> {p, n} \<Longrightarrow> ln_next (list_del_between p n h) x = ln_next h x \<and> ln_prev (list_del_between p n h) x = ln_prev h x"
  by (simp add: list_del_between_def)

lemma in_ring_ends: "last (l # xs) \<in> set (l # xs)" "hd (ys @ [l]) \<in> set (l # ys)"
  by (cases xs rule: rev_cases; simp) (cases ys; simp)

text \<open>A node moves from one ring to another or to the other end of its own.\<close>

lemma list_del_other_ring:
  assumes "ring_list_at h l (xs @ z # ys)" "ring_list_at h k us" "set (l # xs @ z # ys) \<inter> set (k # us) = {}"
  shows "ring_list_at (list_del z h) k us"
proof -
  have e: "list_del z h = list_del_between (last (l # xs)) (hd (ys @ [l])) h"
    using ring_del_between(1,2) [OF assms(1)] by (simp add: list_del_def)
  have "last (l # xs) \<notin> set (k # us)" "hd (ys @ [l]) \<notin> set (k # us)"
    using assms(3) in_ring_ends(1) [of l xs] in_ring_ends(2) [of ys l] by auto
  then have "\<forall>x\<in>set (k # us). ln_next (list_del z h) x = ln_next h x \<and> ln_prev (list_del z h) x = ln_prev h x"
    unfolding e by (intro ballI list_del_between_frame) auto
  then show ?thesis using assms(2) by (rule ring_cong [THEN iffD2])
qed

lemma list_move_tail_ring:
  assumes "ring_list_at h l (xs @ z # ys)" "ring_list_at h k us" "set (l # xs @ z # ys) \<inter> set (k # us) = {}"
  shows "ring_list_at (list_move_tail z k h) l (xs @ ys)" "ring_list_at (list_move_tail z k h) k (us @ [z])"
proof -
  have e: "list_move_tail z k h = list_add_tail z k (list_del z h)" by (simp add: list_move_tail_def list_del_def)
  have r: "ring_list_at (list_del z h) l (xs @ ys)" "ring_list_at (list_del z h) k us"
    using list_del_ring [OF assms(1)] list_del_other_ring [OF assms] by blast+
  show "ring_list_at (list_move_tail z k h) k (us @ [z])"
    unfolding e using assms(3) by (intro list_add_tail_ring [OF r(2)]) auto
  have d: "z \<notin> set (l # xs @ ys)" using assms(1) by (auto simp: ring_list_at_def)
  have "last (k # us) \<notin> set (l # xs @ ys)" "k \<notin> set (l # xs @ ys)"
    using assms(3) in_ring_ends(1) [of k us] by auto
  then have "\<forall>x\<in>set (l # xs @ ys). ln_next (list_move_tail z k h) x = ln_next (list_del z h) x
      \<and> ln_prev (list_move_tail z k h) x = ln_prev (list_del z h) x"
    unfolding e list_add_tail_def conjunct2 [OF ring_ends [OF r(2)]] using d
    by (intro ballI list_add_between_frame) auto
  then show "ring_list_at (list_move_tail z k h) l (xs @ ys)" using r(1) by (rule ring_cong [THEN iffD2])
qed

lemma list_splice_init_ring:
  assumes "ring_list_at h l xs" "ring_list_at h k ys" "set (l # xs) \<inter> set (k # ys) = {}"
  shows "ring_list_at (list_splice_init l k h) l []" "ring_list_at (list_splice_init l k h) k (xs @ ys)"
proof -
  show "ring_list_at (list_splice_init l k h) l []"
    using assms(1) ring_empty [OF assms(1)]
    by (cases "xs = []") (auto simp: list_splice_init_def ring_list_at_def init_list_head_def)
  show "ring_list_at (list_splice_init l k h) k (xs @ ys)"
  proof (cases xs)
    case Nil
    then show ?thesis using assms(2) ring_empty [OF assms(1)] by (simp add: list_splice_init_def)
  next
    case (Cons f xs')
    let ?e = "last xs" and ?a = "hd (ys @ [k])"
    let ?h = "list_splice_init l k h"
    have en: "ln_next h l = f" "ln_prev h l = ?e" "ln_next h k = ?a"
      using ring_ends [OF assms(1)] ring_ends [OF assms(2)] Cons by auto
    have h: "?h = set_prev l l (set_next l l (set_prev ?a ?e (set_next ?e ?a (set_next k f (set_prev f k h)))))"
      using Cons ring_empty [OF assms(1)] en by (simp add: list_splice_init_def list_splice_nonempty_def Let_def init_list_head_def)
    have d: "distinct (l # xs)" "distinct (k # ys)" using assms by (auto simp: ring_list_at_def)
    have ee: "?e \<in> set xs" "?a \<in> set (k # ys)" using Cons in_ring_ends(2) [of ys k] by auto
    have sx: "seg h f xs' l" using assms(1) Cons by (simp add: ring_list_at_def)
    have "seg ?h f xs' ?a"
    proof (cases xs' rule: rev_cases)
      case Nil
      then show ?thesis using h Cons d assms(3) ee by auto
    next
      case (snoc xs2 q)
      have s2: "seg h f xs2 q" using sx snoc by (simp add: seg_snoc)
      have "seg ?h f xs2 q"
        using s2 h Cons snoc d assms(3) ee by (subst seg_cong [of _ _ ?h h]) auto
      then show ?thesis using h Cons snoc d assms(3) ee by (auto simp: seg_snoc)
    qed
    then have 1: "seg ?h k xs ?a" using h Cons d assms(3) ee by auto
    show ?thesis
    proof (cases ys)
      case Nil
      then show ?thesis using 1 d assms(3) by (auto simp: ring_list_at_def)
    next
      case (Cons a ys')
      have "seg h a ys' k" using assms(2) Cons by (simp add: ring_list_at_def)
      then have "seg ?h a ys' k"
        using h Cons \<open>xs = f # xs'\<close> d assms(3) ee by (subst seg_cong [of _ _ ?h h]) auto
      then show ?thesis using 1 Cons d assms(3) by (auto simp: ring_list_at_def seg_append)
    qed
  qed
qed

lemma list_for_each_seg:
  "seg h p xs l \<Longrightarrow> l \<notin> set xs \<Longrightarrow> list_for_each (ln_next h p) l h = Some xs"
proof (induction xs arbitrary: p)
  case Nil
  then show ?case by (simp add: list_for_each.simps [of l l h])
next
  case (Cons x xs)
  then show ?case by (simp add: list_for_each.simps [of x l h])
qed

section \<open>Singly linked lists\<close>

text \<open>The field \<open>first\<close> of a head is a node at the address of the head.\<close>

record slist_links =
  sn_next :: "nat \<Rightarrow> nat option"
  sh_last :: "nat \<Rightarrow> nat"

definition set_snext :: "nat \<Rightarrow> nat option \<Rightarrow> slist_links \<Rightarrow> slist_links" where
  "set_snext a x h = h\<lparr>sn_next := (sn_next h)(a := x)\<rparr>"

definition set_slast :: "nat \<Rightarrow> nat \<Rightarrow> slist_links \<Rightarrow> slist_links" where
  "set_slast l x h = h\<lparr>sh_last := (sh_last h)(l := x)\<rparr>"

definition init_slist_head :: "nat \<Rightarrow> slist_links \<Rightarrow> slist_links" where
  "init_slist_head l h = set_slast l l (set_snext l None h)"

definition slist_add_after :: "nat \<Rightarrow> nat \<Rightarrow> nat \<Rightarrow> slist_links \<Rightarrow> slist_links" where
  "slist_add_after node prv l h =
     (let h1 = set_snext prv (Some node) (set_snext node (sn_next h prv) h) in
      if sn_next h1 node = None then set_slast l node h1 else h1)"

definition slist_add_head :: "nat \<Rightarrow> nat \<Rightarrow> slist_links \<Rightarrow> slist_links" where
  "slist_add_head node l h = slist_add_after node l l h"

definition slist_add_tail :: "nat \<Rightarrow> nat \<Rightarrow> slist_links \<Rightarrow> slist_links" where
  "slist_add_tail node l h = (let h1 = set_snext node None h in set_slast l node (set_snext (sh_last h1 l) (Some node) h1))"

definition slist_del_after :: "nat \<Rightarrow> nat \<Rightarrow> slist_links \<Rightarrow> slist_links outcome" where
  "slist_del_after prv l h =
     (case sn_next h prv of
        None \<Rightarrow> UB
      | Some x \<Rightarrow>
          let h1 = set_snext prv (sn_next h x) h in
          Ret (if sn_next h1 prv = None then set_slast l prv h1 else h1))"

definition slist_del_head :: "nat \<Rightarrow> slist_links \<Rightarrow> slist_links outcome" where
  "slist_del_head l h = slist_del_after l l h"

definition slist_empty :: "nat \<Rightarrow> slist_links \<Rightarrow> bool" where
  "slist_empty l h \<longleftrightarrow> sn_next h l = None"

definition slist_splice_nonempty :: "nat \<Rightarrow> nat \<Rightarrow> nat \<Rightarrow> slist_links \<Rightarrow> slist_links" where
  "slist_splice_nonempty l pos k h =
     (let h1 = set_snext (sh_last h l) (sn_next h pos) h;
          h2 = set_snext pos (sn_next h1 l) h1
      in if sn_next h2 (sh_last h2 l) = None then set_slast k (sh_last h2 l) h2 else h2)"

definition slist_splice :: "nat \<Rightarrow> nat \<Rightarrow> nat \<Rightarrow> slist_links \<Rightarrow> slist_links" where
  "slist_splice l pos k h = (if \<not> slist_empty l h then slist_splice_nonempty l pos k h else h)"

definition slist_splice_init :: "nat \<Rightarrow> nat \<Rightarrow> nat \<Rightarrow> slist_links \<Rightarrow> slist_links" where
  "slist_splice_init l pos k h = (if \<not> slist_empty l h then init_slist_head l (slist_splice_nonempty l pos k h) else h)"

fun slist_chain :: "slist_links \<Rightarrow> nat \<Rightarrow> nat list \<Rightarrow> nat option \<Rightarrow> bool" where
  "slist_chain h a [] e \<longleftrightarrow> sn_next h a = e"
| "slist_chain h a (x # xs) e \<longleftrightarrow> sn_next h a = Some x \<and> slist_chain h x xs e"

definition slist_at :: "slist_links \<Rightarrow> nat \<Rightarrow> nat list \<Rightarrow> bool" where
  "slist_at h l xs \<longleftrightarrow> slist_chain h l xs None \<and> sh_last h l = last (l # xs) \<and> distinct (l # xs)"

lemma slinks_reads [simp]:
  "sn_next (set_snext a x h) b = (if b = a then x else sn_next h b)" "sn_next (set_slast l y h) b = sn_next h b"
  "sh_last (set_slast l y h) k = (if k = l then y else sh_last h k)" "sh_last (set_snext a x h) k = sh_last h k"
  by (auto simp: set_snext_def set_slast_def)

lemma chain_append: "slist_chain h a (xs @ y # ys) e \<longleftrightarrow> slist_chain h a xs (Some y) \<and> slist_chain h y ys e"
  by (induction xs arbitrary: a) auto

lemma slist_chain_cong: "\<forall>x\<in>set (a # xs). sn_next h' x = sn_next h x \<Longrightarrow> slist_chain h' a xs e = slist_chain h a xs e"
  by (induction xs arbitrary: a) auto

text \<open>The end of a slist_chain is redirected.\<close>

lemma chain_redirect:
  "slist_chain h a xs e \<Longrightarrow> distinct (a # xs) \<Longrightarrow> slist_chain (set_snext (last (a # xs)) e' h) a xs e'"
proof (induction xs arbitrary: a)
  case (Cons x xs)
  then show ?case by (cases xs) auto
qed simp

lemma chain_last: "slist_chain h a xs e \<Longrightarrow> sn_next h (last (a # xs)) = e"
  by (induction xs arbitrary: a) auto

lemma chain_split_last:
  assumes "slist_chain h a (xs @ ys) e" "p = last (a # xs)"
  shows "slist_chain h a xs (sn_next h p)" "slist_chain h p ys e"
  using assms by (induction xs arbitrary: a) auto

lemma chain_join: "slist_chain h a xs (sn_next h (last (a # xs))) \<Longrightarrow> slist_chain h (last (a # xs)) ys e \<Longrightarrow> slist_chain h a (xs @ ys) e"
  by (induction xs arbitrary: a) auto

lemma slist_add_after_at:
  assumes "slist_at h l (xs @ ys)" "z \<notin> set (l # xs @ ys)"
  shows "slist_at (slist_add_after z (last (l # xs)) l h) l (xs @ z # ys)"
proof -
  let ?p = "last (l # xs)"
  have c: "slist_chain h l xs (sn_next h ?p)" "slist_chain h ?p ys None" and d: "distinct (l # xs @ ys)"
    using assms(1) chain_split_last [of h l xs ys None ?p] by (auto simp: slist_at_def)
  have pin: "?p \<in> set (l # xs)" using in_ring_ends(1) .
  have nz: "z \<noteq> ?p" using assms(2) pin by auto
  define h1 where "h1 = set_snext ?p (Some z) (set_snext z (sn_next h ?p) h)"
  have "slist_chain (set_snext z (sn_next h ?p) h) l xs (sn_next h ?p)"
    using c(1) assms(2) by (subst slist_chain_cong [of _ _ _ h]) auto
  then have 1: "slist_chain h1 l xs (Some z)"
    unfolding h1_def using d by (intro chain_redirect) auto
  have 2: "slist_chain h1 z ys None"
  proof (cases ys)
    case Nil
    then show ?thesis using c(2) nz by (simp add: h1_def)
  next
    case (Cons y ys')
    then have "\<forall>x\<in>set (y # ys'). sn_next h1 x = sn_next h x"
      using assms(2) d pin by (auto simp: h1_def)
    then have "slist_chain h1 y ys' None" using c(2) Cons slist_chain_cong [of y ys' h1 h None] by simp
    then show ?thesis using c(2) Cons nz by (simp add: h1_def)
  qed
  have e: "sn_next h1 z = None \<longleftrightarrow> ys = []" using 2 by (cases ys) auto
  have "slist_chain (slist_add_after z ?p l h) l (xs @ z # ys) None"
    using 1 2 unfolding chain_append slist_add_after_def Let_def h1_def [symmetric]
    using slist_chain_cong [of _ _ "set_slast l z h1" h1] by auto
  moreover have "sh_last (slist_add_after z ?p l h) l = last (l # xs @ z # ys)"
    using e assms(1) unfolding slist_add_after_def Let_def h1_def [symmetric]
    by (auto simp: h1_def slist_at_def)
  ultimately show ?thesis using d assms(2) by (auto simp: slist_at_def)
qed

lemma slist_add_tail_at:
  assumes "slist_at h l xs" "z \<notin> set (l # xs)"
  shows "slist_at (slist_add_tail z l h) l (xs @ [z])"
proof -
  have c: "slist_chain h l xs None" "sh_last h l = last (l # xs)" and d: "distinct (l # xs)"
    using assms(1) by (auto simp: slist_at_def)
  have "slist_chain (set_snext z None h) l xs None" using c(1) assms(2) by (subst slist_chain_cong [of _ _ _ h]) auto
  then have "slist_chain (set_snext (last (l # xs)) (Some z) (set_snext z None h)) l xs (Some z)"
    using d by (rule chain_redirect)
  moreover have "z \<noteq> last (l # xs)" using assms(2) in_ring_ends(1) by metis
  ultimately have "slist_chain (slist_add_tail z l h) l (xs @ [z]) None"
    using c(2) slist_chain_cong [of l xs "slist_add_tail z l h" "set_snext (last (l # xs)) (Some z) (set_snext z None h)"]
    by (simp add: slist_add_tail_def Let_def chain_append)
  then show ?thesis using c d assms(2) by (auto simp: slist_at_def slist_add_tail_def Let_def)
qed

lemma slist_del_after_at:
  assumes "slist_at h l (xs @ z # ys)"
  shows "\<exists>h'. slist_del_after (last (l # xs)) l h = Ret h' \<and> slist_at h' l (xs @ ys)"
proof -
  let ?p = "last (l # xs)"
  have c: "slist_chain h l xs (Some z)" "slist_chain h z ys None" and d: "distinct (l # xs @ z # ys)"
    using assms by (auto simp: slist_at_def chain_append)
  have p: "sn_next h ?p = Some z" using chain_last [OF c(1)] .
  have pin: "?p \<in> set (l # xs)" using in_ring_ends(1) .
  define h1 where "h1 = set_snext ?p (sn_next h z) h"
  have 1: "slist_chain h1 l xs (sn_next h z)" unfolding h1_def using d by (intro chain_redirect [OF c(1)]) auto
  have e12: "slist_chain h1 l (xs @ ys) None \<and> (sn_next h z = None \<longleftrightarrow> ys = [])"
  proof (cases ys)
    case Nil
    then show ?thesis using 1 c(2) by simp
  next
    case (Cons y ys')
    have "slist_chain h1 y ys' None" using c(2) Cons d pin by (subst slist_chain_cong [of _ _ _ h]) (auto simp: h1_def)
    then show ?thesis using 1 c(2) Cons by (simp add: chain_append)
  qed
  note e = conjunct1 [OF e12] conjunct2 [OF e12]
  define h2 where "h2 = (if sn_next h1 ?p = None then set_slast l ?p h1 else h1)"
  have run: "slist_del_after ?p l h = Ret h2"
    by (simp only: slist_del_after_def p option.case Let_def h1_def [symmetric] h2_def)
  have "slist_chain h2 l (xs @ ys) None"
    using e(1) slist_chain_cong [of l "xs @ ys" h2 h1 None] by (simp add: h2_def)
  moreover have "sh_last h2 l = last (l # xs @ ys)"
  proof -
    have "sh_last h1 l = last (z # ys)" using assms by (simp add: slist_at_def h1_def)
    moreover have "sn_next h1 ?p = sn_next h z" by (simp add: h1_def)
    ultimately show ?thesis using e(2) by (cases "ys = []") (auto simp: h2_def)
  qed
  moreover have "distinct (l # xs @ ys)" using d by auto
  ultimately have "slist_at h2 l (xs @ ys)" by (simp add: slist_at_def)
  then show ?thesis using run by blast
qed

text \<open>A list is spliced behind a node of another, also behind its last one, and emptied.\<close>

lemma slist_splice_at:
  assumes "slist_at h l xs" "slist_at h k (ps @ qs)" "set (l # xs) \<inter> set (k # ps @ qs) = {}"
  shows "slist_at (slist_splice_init l (last (k # ps)) k h) k (ps @ xs @ qs)" "slist_at (slist_splice_init l (last (k # ps)) k h) l []"
proof -
  let ?p = "last (k # ps)"
  have x: "slist_chain h l xs None" "sh_last h l = last (l # xs)" "distinct (l # xs)"
    and k: "slist_chain h k (ps @ qs) None" "sh_last h k = last (k # ps @ qs)" "distinct (k # ps @ qs)"
    using assms(1,2) by (auto simp: slist_at_def)
  have c: "slist_chain h k ps (sn_next h ?p)" "slist_chain h ?p qs None" using chain_split_last [OF k(1) refl] by blast+
  have pin: "?p \<in> set (k # ps)" using in_ring_ends(1) .
  have "slist_at (slist_splice_init l ?p k h) k (ps @ xs @ qs) \<and> slist_at (slist_splice_init l ?p k h) l []"
  proof (cases xs)
    case Nil
    then have "slist_splice_init l ?p k h = h" using x(1) by (simp add: slist_splice_init_def slist_empty_def)
    then show ?thesis using assms(1,2) Nil by simp
  next
    case (Cons f fs)
    let ?e = "last xs"
    have f: "sn_next h l = Some f" "sh_last h l = ?e" "slist_chain h f fs None" "?e = last (f # fs)" "?e \<in> set xs" using x Cons by auto
    define h2 where "h2 = set_snext ?p (Some f) (set_snext ?e (sn_next h ?p) h)"
    define h3 where "h3 = (if sn_next h ?p = None then set_slast k ?e h2 else h2)"
    have le: "l \<noteq> ?e" "l \<noteq> ?p" "?e \<noteq> ?p" "k \<noteq> ?e" using f(5) x(3) pin assms(3) by auto
    have run: "slist_splice_init l ?p k h = init_slist_head l h3"
    proof -
      have n: "\<not> slist_empty l h" using f(1) by (simp add: slist_empty_def)
      have "slist_splice_nonempty l ?p k h = h3"
        using le f(1,2) unfolding slist_splice_nonempty_def Let_def h3_def h2_def by simp
      then show ?thesis using n by (simp add: slist_splice_init_def)
    qed
    let ?h = "init_slist_head l h3"
    have n3: "sn_next ?h a = (if a = l then None else sn_next h2 a)" for a by (simp add: init_slist_head_def h3_def)
    have ps: "slist_chain h2 k ps (Some f)"
    proof -
      have "slist_chain (set_snext ?e (sn_next h ?p) h) k ps (sn_next h ?p)"
        using c(1) f(5) assms(3) by (subst slist_chain_cong [of _ _ _ h]) auto
      then show ?thesis unfolding h2_def using k(3) by (intro chain_redirect) auto
    qed
    have xs: "slist_chain h2 f fs (sn_next h ?p)"
    proof -
      have "slist_chain (set_snext (last (f # fs)) (sn_next h ?p) h) f fs (sn_next h ?p)"
        using f(3) x(3) Cons by (intro chain_redirect) auto
      moreover have "\<forall>y\<in>set (f # fs). sn_next h2 y = sn_next (set_snext (last (f # fs)) (sn_next h ?p) h) y"
        using Cons pin assms(3) f(4) by (auto simp: h2_def)
      ultimately show ?thesis by (subst slist_chain_cong) auto
    qed
    have e2: "sn_next h2 ?e = sn_next h ?p" using le by (simp add: h2_def)
    have qs: "slist_chain h2 ?e qs None"
    proof (cases qs)
      case Nil
      then show ?thesis using c(2) e2 by simp
    next
      case (Cons q qs')
      have "\<forall>y\<in>set (q # qs'). sn_next h2 y = sn_next h y"
        using Cons pin k(3) f(5) assms(3) by (auto simp: h2_def)
      then have "slist_chain h2 q qs' None" using c(2) Cons slist_chain_cong [of q qs' h2 h None] by simp
      then show ?thesis using c(2) Cons e2 by simp
    qed
    have "slist_chain h2 f (fs @ qs) None"
      using chain_join [of h2 f fs qs None] xs qs e2 f(4) by simp
    then have "slist_chain h2 k (ps @ xs @ qs) None" using ps Cons by (simp add: chain_append)
    then have ch: "slist_chain ?h k (ps @ xs @ qs) None"
      using assms(3) n3 x(3) by (subst slist_chain_cong [of _ _ _ h2]) auto
    have "sn_next h ?p = None \<longleftrightarrow> qs = []" using c(2) by (cases qs) auto
    then have "sh_last ?h k = last (k # ps @ xs @ qs)"
      using assms(3) k(2) Cons by (auto simp: init_slist_head_def h3_def h2_def)
    moreover have "distinct (k # ps @ xs @ qs)" using x(3) k(3) assms(3) by auto
    ultimately show ?thesis unfolding run using ch by (simp add: slist_at_def init_slist_head_def)
  qed
  then show "slist_at (slist_splice_init l ?p k h) k (ps @ xs @ qs)" "slist_at (slist_splice_init l ?p k h) l []" by blast+
qed

section \<open>Refinement\<close>

text \<open>The rings.\<close>

lemma ring_ops:
  assumes "ring_list_at h l ls" "ring_list_at h k us" "set (l # ls) \<inter> set (k # us) = {}" "w \<notin> set (l # ls @ k # us)"
  shows "ring_list_at (init_list_head e h) e [] \<and> (list_empty l h \<longleftrightarrow> ls = [])
    \<and> ring_list_at (list_add w l h) l (w # ls) \<and> ring_list_at (list_add w l h) k us
    \<and> ring_list_at (list_add_tail w l h) l (ls @ [w]) \<and> ring_list_at (list_add_tail w l h) k us
    \<and> (\<forall>xs z ys. ls = xs @ z # ys \<longrightarrow>
         ring_list_at (list_del z h) l (xs @ ys) \<and> ring_list_at (list_del z h) k us
         \<and> ring_list_at (list_move_tail z k h) l (xs @ ys) \<and> ring_list_at (list_move_tail z k h) k (us @ [z]))
    \<and> ring_list_at (list_splice_init l k h) l [] \<and> ring_list_at (list_splice_init l k h) k (ls @ us)
    \<and> list_for_each (ln_next h l) l h = Some ls"
proof -
  have w: "w \<notin> set (l # ls)" "w \<notin> set (k # us)" using assms(4) by auto
  have 1: "ring_list_at (init_list_head e h) e []" by (simp add: ring_list_at_def init_list_head_def)
  have 2: "list_for_each (ln_next h l) l h = Some ls"
    using assms(1) unfolding ring_list_at_def by (intro list_for_each_seg) auto
  note e = ring_ends [OF assms(1)]
  have n: "ln_next h l \<in> set (l # ls)" "ln_prev h l \<in> set (l # ls)" "l \<in> set (l # ls)"
    using e in_ring_ends(1) [of l ls] in_ring_ends(2) [of ls l] by simp_all
  have fr: "ln_next (list_add_between w a b h) x = ln_next h x \<and> ln_prev (list_add_between w a b h) x = ln_prev h x"
    if "x \<in> set (k # us)" "a \<in> set (l # ls)" "b \<in> set (l # ls)" for x a b
  proof (rule list_add_between_frame)
    have "x \<notin> set (l # ls)" "x \<noteq> w" using that(1) assms(3) w(2) by auto
    then show "x \<notin> {w, a, b}" using that(2,3) by auto
  qed
  have 3: "ring_list_at (list_add w l h) k us" "ring_list_at (list_add_tail w l h) k us"
    unfolding list_add_def list_add_tail_def
    by (rule ring_cong [THEN iffD2, OF _ assms(2)], intro ballI fr n, assumption)+
  have 4: "\<forall>xs z ys. ls = xs @ z # ys \<longrightarrow>
         ring_list_at (list_del z h) l (xs @ ys) \<and> ring_list_at (list_del z h) k us
         \<and> ring_list_at (list_move_tail z k h) l (xs @ ys) \<and> ring_list_at (list_move_tail z k h) k (us @ [z])"
  proof (intro allI impI)
    fix xs z ys assume "ls = xs @ z # ys"
    note a = assms(1-3) [unfolded this]
    show "ring_list_at (list_del z h) l (xs @ ys) \<and> ring_list_at (list_del z h) k us
         \<and> ring_list_at (list_move_tail z k h) l (xs @ ys) \<and> ring_list_at (list_move_tail z k h) k (us @ [z])"
      by (intro conjI list_del_ring [OF a(1)] list_del_other_ring [OF a] list_move_tail_ring [OF a])
  qed
  show ?thesis
    by (intro conjI 1 2 3 4 ring_empty [OF assms(1)] list_add_ring [OF assms(1) w(1)] list_add_tail_ring [OF assms(1) w(1)]
      list_splice_init_ring [OF assms(1-3)])
qed

text \<open>The lists with a tail pointer.\<close>

lemma slist_ops:
  assumes "slist_at h l xs" "slist_at h k us" "set (l # xs) \<inter> set (k # us) = {}" "n \<notin> set (l # xs)"
  shows "slist_at (init_slist_head e h) e [] \<and> (slist_empty l h \<longleftrightarrow> xs = [])
    \<and> slist_at (slist_add_head n l h) l (n # xs) \<and> slist_at (slist_add_tail n l h) l (xs @ [n])
    \<and> (\<forall>ps qs. xs = ps @ qs \<longrightarrow> slist_at (slist_add_after n (last (l # ps)) l h) l (ps @ n # qs))
    \<and> (\<forall>ps v qs. xs = ps @ v # qs \<longrightarrow> (\<exists>h'. slist_del_after (last (l # ps)) l h = Ret h' \<and> slist_at h' l (ps @ qs)))
    \<and> (case xs of [] \<Rightarrow> slist_del_head l h = UB | v # qs \<Rightarrow> \<exists>h'. slist_del_head l h = Ret h' \<and> slist_at h' l qs)
    \<and> (\<forall>ps qs. us = ps @ qs \<longrightarrow> slist_at (slist_splice_init l (last (k # ps)) k h) k (ps @ xs @ qs)
         \<and> slist_at (slist_splice_init l (last (k # ps)) k h) l [])"
proof -
  have 1: "slist_at (init_slist_head e h) e []" by (simp add: slist_at_def init_slist_head_def)
  have 2: "slist_empty l h \<longleftrightarrow> xs = []" using assms(1) by (cases xs) (auto simp: slist_at_def slist_empty_def)
  have 3: "slist_at (slist_add_head n l h) l (n # xs)"
    using slist_add_after_at [of h l "[]" xs n] assms(1,4) by (simp add: slist_add_head_def)
  have 4: "\<forall>ps qs. xs = ps @ qs \<longrightarrow> slist_at (slist_add_after n (last (l # ps)) l h) l (ps @ n # qs)"
    using slist_add_after_at [of h l _ _ n] assms(1,4) by (intro allI impI) simp
  have 5: "\<forall>ps v qs. xs = ps @ v # qs \<longrightarrow> (\<exists>h'. slist_del_after (last (l # ps)) l h = Ret h' \<and> slist_at h' l (ps @ qs))"
    using slist_del_after_at [of h l] assms(1) by (intro allI impI) simp
  have 7: "\<forall>ps qs. us = ps @ qs \<longrightarrow> slist_at (slist_splice_init l (last (k # ps)) k h) k (ps @ xs @ qs)
         \<and> slist_at (slist_splice_init l (last (k # ps)) k h) l []"
  proof (intro allI impI)
    fix ps qs assume "us = ps @ qs"
    note a = assms(2,3) [unfolded this]
    show "slist_at (slist_splice_init l (last (k # ps)) k h) k (ps @ xs @ qs) \<and> slist_at (slist_splice_init l (last (k # ps)) k h) l []"
      by (intro conjI slist_splice_at [OF assms(1) a])
  qed
  have 6: "case xs of [] \<Rightarrow> slist_del_head l h = UB | v # qs \<Rightarrow> \<exists>h'. slist_del_head l h = Ret h' \<and> slist_at h' l qs"
  proof (cases xs)
    case Nil
    then show ?thesis using assms(1) by (simp add: slist_at_def slist_del_head_def slist_del_after_def)
  next
    case (Cons v qs)
    then show ?thesis using 5 [rule_format, of "[]" v qs] by (simp add: slist_del_head_def)
  qed
  show ?thesis by (intro conjI 1 2 3 4 5 6 7 slist_add_tail_at [OF assms(1,4)])
qed

text \<open>
  C30. The operations of \<open>list.h\<close> are the operations on the list of the nodes, which may be empty. On a
  ring of links, a new node is put in front or at the end, a node is taken out wherever it stands, or
  moved to the end of another list, a list is spliced in front of another and emptied, a traversal
  visits the nodes in order and ends, and another ring stays as it is. On a list with a tail pointer,
  a new node is put in front, at the end, or behind any node, the last one included, the node behind
  another is taken out, and a list is spliced behind a node of another and emptied.
\<close>

theorem list_ops_refine:
  assumes "ring_list_at h l ls" "ring_list_at h k us" "set (l # ls) \<inter> set (k # us) = {}" "w \<notin> set (l # ls @ k # us)"
    "slist_at g a as" "slist_at g b bs" "set (a # as) \<inter> set (b # bs) = {}" "n \<notin> set (a # as)"
  shows "ring_list_at (init_list_head e h) e [] \<and> (list_empty l h \<longleftrightarrow> ls = [])
    \<and> ring_list_at (list_add w l h) l (w # ls) \<and> ring_list_at (list_add w l h) k us
    \<and> ring_list_at (list_add_tail w l h) l (ls @ [w]) \<and> ring_list_at (list_add_tail w l h) k us
    \<and> (\<forall>xs z ys. ls = xs @ z # ys \<longrightarrow>
         ring_list_at (list_del z h) l (xs @ ys) \<and> ring_list_at (list_del z h) k us
         \<and> ring_list_at (list_move_tail z k h) l (xs @ ys) \<and> ring_list_at (list_move_tail z k h) k (us @ [z]))
    \<and> ring_list_at (list_splice_init l k h) l [] \<and> ring_list_at (list_splice_init l k h) k (ls @ us)
    \<and> list_for_each (ln_next h l) l h = Some ls
    \<and> slist_at (init_slist_head e g) e [] \<and> (slist_empty a g \<longleftrightarrow> as = [])
    \<and> slist_at (slist_add_head n a g) a (n # as) \<and> slist_at (slist_add_tail n a g) a (as @ [n])
    \<and> (\<forall>ps qs. as = ps @ qs \<longrightarrow> slist_at (slist_add_after n (last (a # ps)) a g) a (ps @ n # qs))
    \<and> (\<forall>ps v qs. as = ps @ v # qs \<longrightarrow> (\<exists>g'. slist_del_after (last (a # ps)) a g = Ret g' \<and> slist_at g' a (ps @ qs)))
    \<and> (case as of [] \<Rightarrow> slist_del_head a g = UB | v # qs \<Rightarrow> \<exists>g'. slist_del_head a g = Ret g' \<and> slist_at g' a qs)
    \<and> (\<forall>ps qs. bs = ps @ qs \<longrightarrow> slist_at (slist_splice_init a (last (b # ps)) b g) b (ps @ as @ qs)
         \<and> slist_at (slist_splice_init a (last (b # ps)) b g) a [])"
  using ring_ops [OF assms(1-4), of e] slist_ops [OF assms(5-8), of e] by (elim conjE) (intro conjI; assumption)

text \<open>The list of the nodes 1 and 2 at the head 0, and the empty list at the head 5.\<close>

definition small_ring :: list_links where
  "small_ring = \<lparr>ln_next = (\<lambda>a. if a = 0 then 1 else if a = 1 then 2 else if a = 2 then 0 else a),
     ln_prev = (\<lambda>a. if a = 0 then 2 else if a = 1 then 0 else if a = 2 then 1 else a)\<rparr>"

text \<open>The list of the node 1 at the head 0, and the empty list at the head 5.\<close>

definition small_slist :: slist_links where
  "small_slist = \<lparr>sn_next = (\<lambda>a. if a = 0 then Some 1 else None), sh_last = (\<lambda>a. if a = 0 then 1 else a)\<rparr>"

theorem list_ops_refine_witness:
  "ring_list_at (list_splice_init 5 0 small_ring) 0 [1, 2] \<and> ring_list_at (list_add 9 5 small_ring) 5 [9]
    \<and> slist_at (slist_splice_init 5 1 0 small_slist) 0 [1] \<and> slist_del_head 5 small_slist = UB"
proof -
  have r: "ring_list_at small_ring 5 []" "ring_list_at small_ring 0 [1, 2]"
    by (simp_all add: ring_list_at_def small_ring_def)
  have s: "slist_at small_slist 5 []" "slist_at small_slist 0 [1]" by (simp_all add: slist_at_def small_slist_def)
  have i: "9 \<notin> set (5 # [] @ 0 # [1, 2 :: nat])" "set (5 # []) \<inter> set (0 # [1, 2 :: nat]) = {}"
    "set [5] \<inter> set [0, 1 :: nat] = {}" "7 \<notin> set [5 :: nat]" by simp_all
  note b = list_ops_refine [OF r i(2,1) s i(3,4), of 0]
  have "[1 :: nat] = [1] @ [] \<longrightarrow> slist_at (slist_splice_init 5 (last (0 # [1])) 0 small_slist) 0 ([1] @ [] @ [])
      \<and> slist_at (slist_splice_init 5 (last (0 # [1])) 0 small_slist) 5 []"
    using b by (elim conjE) (drule spec, drule spec, assumption)
  then show ?thesis using b by simp
qed

end
