(* ===== verification/Poller.thy ===== *)
theory Poller
  imports Rbtree
begin

text \<open>
  \<open>src/poller/poller.c\<close>: the nodes of a poller, its deadlines and the operations of its interface.
  Nodes are objects of a store. The deadlines are kept as the code does: the nodes that come in the
  order of their deadlines in a list, the others in a red-black tree with pointers to its ends, and
  the nodes without a deadline in a list of their own. Lists are lists of nodes, the tree is the
  pointer structure of \<open>Rbtree\<close>.

  The system is a parameter: the time, the nodes that \<open>malloc\<close> returns and the answers of
  \<open>epoll_ctl\<close> are arguments. What the kernel registers, the deadline of the timer and the callbacks are
  recorded in the state. An operation that follows a null pointer or leaves the table of nodes is
  \<open>UB\<close>; one that walks in the tree without end is \<open>None\<close>.
\<close>

section \<open>State\<close>

record timespec =
  tv_sec :: int
  tv_nsec :: int

datatype poller_op =
  PD_OP_READ | PD_OP_WRITE | PD_OP_LISTEN | PD_OP_CONNECT | PD_OP_SSL_ACCEPT | PD_OP_SSL_CONNECT
| PD_OP_SSL_SHUTDOWN | PD_OP_EVENT | PD_OP_NOTIFY | PD_OP_TIMER

datatype poll_event = IN_ET | OUT_ET | IN_LT

datatype poll_state = PR_ST_SUCCESS | PR_ST_FINISHED | PR_ST_ERROR | PR_ST_DELETED | PR_ST_MODIFIED | PR_ST_STOPPED

datatype poll_errno = P_EBADF | P_EMFILE | P_EINVAL | P_ENOENT | P_ENOMEM | P_ETIMEDOUT | P_ERRNO int

record poller_node =
  pn_state :: poll_state
  pn_error :: "poll_errno option"
  pn_fd :: int
  pn_op :: poller_op
  pn_in_rbtree :: bool
  pn_removed :: bool
  pn_event :: poll_event
  pn_timeout :: timespec
  pn_res :: bool

record poller =
  pl_max_open_files :: nat
  pl_stopped :: bool
  pl_pipe_rd :: int
  pl_pipe_wr :: int
  pl_timeo_tree :: rb_tree
  pl_tree_first :: "nat option"
  pl_tree_last :: "nat option"
  pl_timeo_list :: "nat list"
  pl_no_timeo_list :: "nat list"
  pl_nodes :: "int \<Rightarrow> nat option"
  pl_node :: "nat \<Rightarrow> poller_node"
  pl_timerfd :: "timespec option"
  pl_epoll :: "int \<Rightarrow> nat option"
  pl_pipe :: "nat option list"
  pl_calls :: "(nat \<times> poll_state \<times> poll_errno option) list"

definition set_node :: "nat \<Rightarrow> (poller_node \<Rightarrow> poller_node) \<Rightarrow> poller \<Rightarrow> poller" where
  "set_node n f st = st\<lparr>pl_node := (pl_node st)(n := f (pl_node st n))\<rparr>"

definition set_state :: "nat \<Rightarrow> poll_state \<Rightarrow> poll_errno option \<Rightarrow> poller \<Rightarrow> poller" where
  "set_state n s e st = set_node n (\<lambda>nd. nd\<lparr>pn_state := s, pn_error := e\<rparr>) st"

text \<open>The callback gets the node with its state and error.\<close>

definition callback :: "nat \<Rightarrow> poller \<Rightarrow> poller" where
  "callback n st = st\<lparr>pl_calls := pl_calls st @ [(n, pn_state (pl_node st n), pn_error (pl_node st n))]\<rparr>"

section \<open>Deadlines\<close>

definition timespec_cmp :: "timespec \<Rightarrow> timespec \<Rightarrow> int" where
  "timespec_cmp x y = (let ret = tv_sec x - tv_sec y in if ret = 0 then tv_nsec x - tv_nsec y else ret)"

definition timeout_cmp :: "poller \<Rightarrow> nat \<Rightarrow> nat \<Rightarrow> int" where
  "timeout_cmp st m n = timespec_cmp (pn_timeout (pl_node st m)) (pn_timeout (pl_node st n))"

definition add_millis :: "int \<Rightarrow> timespec \<Rightarrow> timespec" where
  "add_millis timeout now =
     (let s = tv_sec now + timeout div 1000; ns = tv_nsec now + timeout mod 1000 * 1000000
      in if 1000000000 \<le> ns then \<lparr>tv_sec = s + 1, tv_nsec = ns - 1000000000\<rparr> else \<lparr>tv_sec = s, tv_nsec = ns\<rparr>)"

definition add_timespec :: "timespec \<Rightarrow> timespec \<Rightarrow> timespec" where
  "add_timespec v now =
     (let s = tv_sec now + tv_sec v; ns = tv_nsec now + tv_nsec v
      in if 1000000000 \<le> ns then \<lparr>tv_sec = s + 1, tv_nsec = ns - 1000000000\<rparr> else \<lparr>tv_sec = s, tv_nsec = ns\<rparr>)"

text \<open>The descent of \<open>__poller_tree_insert\<close>: the parent of the empty place, and its side.\<close>

partial_function (option) tree_descend :: "nat \<Rightarrow> nat \<Rightarrow> poller \<Rightarrow> (nat \<times> bool) option" where
  "tree_descend node cur st =
     (case rb_child (timeout_cmp st node cur < 0) (pl_timeo_tree st) cur of
        None \<Rightarrow> Some (cur, timeout_cmp st node cur < 0)
      | Some nxt \<Rightarrow> tree_descend node nxt st)"

declare tree_descend.simps [code]

definition tree_link :: "nat \<Rightarrow> nat option \<Rightarrow> bool \<Rightarrow> poller \<Rightarrow> poller outcome option" where
  "tree_link node par lft st =
     obind (rb_insert_color node (rb_link_node node par lft (pl_timeo_tree st)))
       (\<lambda>h. Some (Ret ((set_node node (\<lambda>nd. nd\<lparr>pn_in_rbtree := True\<rparr>) st)\<lparr>pl_timeo_tree := h\<rparr>)))"

definition tree_insert :: "nat \<Rightarrow> poller \<Rightarrow> poller outcome option" where
  "tree_insert node st =
     (case rb_node (pl_timeo_tree st) of
        None \<Rightarrow> tree_link node None True (st\<lparr>pl_tree_first := Some node, pl_tree_last := Some node\<rparr>)
      | Some root \<Rightarrow>
          (case pl_tree_last st of
             None \<Rightarrow> Some UB
           | Some lst \<Rightarrow>
               if 0 \<le> timeout_cmp st node lst
               then tree_link node (Some lst) False (st\<lparr>pl_tree_last := Some node\<rparr>)
               else
                 (case tree_descend node root st of
                    None \<Rightarrow> None
                  | Some (par, lft) \<Rightarrow>
                      tree_link node (Some par) lft
                        (if lft \<and> pl_tree_first st = Some par then st\<lparr>pl_tree_first := Some node\<rparr> else st))))"

definition tree_erase :: "nat \<Rightarrow> poller \<Rightarrow> poller outcome option" where
  "tree_erase node st =
     obind (if pl_tree_first st = Some node then map_option Ret (rb_step True node (pl_timeo_tree st))
            else Some (Ret (pl_tree_first st)))
       (\<lambda>fst_n. obind (if pl_tree_last st = Some node then map_option Ret (rb_step False node (pl_timeo_tree st))
               else Some (Ret (pl_tree_last st)))
         (\<lambda>lst_n. obind (rb_erase node (pl_timeo_tree st))
           (\<lambda>h. Some (Ret ((set_node node (\<lambda>nd. nd\<lparr>pn_in_rbtree := False\<rparr>) st)
                  \<lparr>pl_timeo_tree := h, pl_tree_first := fst_n, pl_tree_last := lst_n\<rparr>)))))"

text \<open>The node leaves the structure that holds it.\<close>

definition unlink_node :: "nat \<Rightarrow> poller \<Rightarrow> poller outcome option" where
  "unlink_node node st =
     (if pn_in_rbtree (pl_node st node) then tree_erase node st
      else Some (Ret (st\<lparr>pl_timeo_list := remove1 node (pl_timeo_list st),
                         pl_no_timeo_list := remove1 node (pl_no_timeo_list st)\<rparr>)))"

definition set_timerfd :: "timespec \<Rightarrow> poller \<Rightarrow> poller" where
  "set_timerfd t st = st\<lparr>pl_timerfd := (if tv_sec t = 0 \<and> tv_nsec t = 0 then None else Some t)\<rparr>"

definition insert_node :: "nat \<Rightarrow> poller \<Rightarrow> poller outcome option" where
  "insert_node node st =
     (if pl_timeo_list st = [] then
        let st1 = st\<lparr>pl_timeo_list := [node]\<rparr> in
        Some (Ret (if (case pl_tree_first st of None \<Rightarrow> True | Some e \<Rightarrow> timeout_cmp st node e < 0)
                   then set_timerfd (pn_timeout (pl_node st node)) st1 else st1))
      else if 0 \<le> timeout_cmp st node (last (pl_timeo_list st))
      then Some (Ret (st\<lparr>pl_timeo_list := pl_timeo_list st @ [node]\<rparr>))
      else
        obind (tree_insert node st)
          (\<lambda>st1. Some (Ret (if pl_tree_first st1 = Some node \<and> timeout_cmp st1 node (hd (pl_timeo_list st1)) < 0
                            then set_timerfd (pn_timeout (pl_node st1 node)) st1 else st1))))"

definition set_timer :: "poller \<Rightarrow> poller" where
  "set_timer st =
     (let node = (case pl_timeo_list st of [] \<Rightarrow> None | n # _ \<Rightarrow> Some n);
          best = (case pl_tree_first st of
                    None \<Rightarrow> node
                  | Some f \<Rightarrow> if (case node of None \<Rightarrow> True | Some n \<Rightarrow> timeout_cmp st f n < 0) then Some f else node)
      in set_timerfd (case best of None \<Rightarrow> \<lparr>tv_sec = 0, tv_nsec = 0\<rparr> | Some n \<Rightarrow> pn_timeout (pl_node st n)) st)"

section \<open>The interface\<close>

text \<open>The events of an operation and whether it needs a result node; \<open>msg\<close>: the data has a message.\<close>

definition data_get_event :: "poller_op \<Rightarrow> bool \<Rightarrow> (poll_event \<times> bool) option" where
  "data_get_event op msg =
     (case op of
        PD_OP_READ \<Rightarrow> Some (IN_ET, msg)
      | PD_OP_WRITE \<Rightarrow> Some (OUT_ET, False)
      | PD_OP_LISTEN \<Rightarrow> Some (IN_LT, True)
      | PD_OP_CONNECT \<Rightarrow> Some (OUT_ET, False)
      | PD_OP_SSL_ACCEPT \<Rightarrow> Some (IN_ET, False)
      | PD_OP_SSL_CONNECT \<Rightarrow> Some (OUT_ET, False)
      | PD_OP_SSL_SHUTDOWN \<Rightarrow> Some (OUT_ET, False)
      | PD_OP_EVENT \<Rightarrow> Some (IN_ET, True)
      | PD_OP_NOTIFY \<Rightarrow> Some (IN_ET, True)
      | PD_OP_TIMER \<Rightarrow> None)"

definition bad_fd :: "int \<Rightarrow> poller \<Rightarrow> poll_errno option" where
  "bad_fd fd st = (if int (pl_max_open_files st) \<le> fd mod 2 ^ 64 then Some (if fd < 0 then P_EBADF else P_EMFILE) else None)"

text \<open>The result of an operation: the return value, \<open>errno\<close> when it is set, the state.\<close>

type_synonym poller_result = "(int \<times> poll_errno option \<times> poller) outcome option"

definition enter_node :: "nat \<Rightarrow> int \<Rightarrow> poller \<Rightarrow> poller outcome option" where
  "enter_node n timeout st =
     (if 0 \<le> timeout then insert_node n st else Some (Ret (st\<lparr>pl_no_timeo_list := pl_no_timeo_list st @ [n]\<rparr>)))"

text \<open>The fields that \<open>poller_add\<close> sets in the memory that it got.\<close>

definition new_node :: "int \<Rightarrow> poller_op \<Rightarrow> poll_event \<Rightarrow> bool \<Rightarrow> int \<Rightarrow> timespec \<Rightarrow> poller_node \<Rightarrow> poller_node" where
  "new_node fd op event res timeout now nd =
     nd\<lparr>pn_fd := fd, pn_op := op, pn_in_rbtree := False, pn_removed := False, pn_event := event, pn_res := res,
        pn_timeout := (if 0 \<le> timeout then add_millis timeout now else pn_timeout nd)\<rparr>"

definition poller_add ::
  "int \<Rightarrow> poller_op \<Rightarrow> bool \<Rightarrow> int \<Rightarrow> timespec \<Rightarrow> bool \<Rightarrow> nat option \<Rightarrow> bool \<Rightarrow> poller \<Rightarrow> poller_result" where
  "poller_add fd op msg timeout now ares node ctl st =
     (case bad_fd fd st of
        Some e \<Rightarrow> Some (Ret (-1, Some e, st))
      | None \<Rightarrow>
          (case data_get_event op msg of
             None \<Rightarrow> Some (Ret (-1, Some P_EINVAL, st))
           | Some (event, need_res) \<Rightarrow>
               if need_res \<and> \<not> ares then Some (Ret (-1, Some P_ENOMEM, st))
               else
                 (case node of
                    None \<Rightarrow> Some (Ret (-1, Some P_ENOMEM, st))
                  | Some n \<Rightarrow>
                      if pl_nodes st fd = None \<and> ctl then
                        let st1 = (set_node n (new_node fd op event need_res timeout now) st)
                                    \<lparr>pl_epoll := (pl_epoll st)(fd := Some n)\<rparr>
                        in obind (enter_node n timeout st1)
                             (\<lambda>st2. Some (Ret (0, None, st2\<lparr>pl_nodes := (pl_nodes st2)(fd := Some n)\<rparr>)))
                      else Some (Ret (-1, None, st)))))"

text \<open>What \<open>poller_del\<close> and \<open>poller_mod\<close> do with the old node.\<close>

definition retire_node :: "nat \<Rightarrow> poll_state \<Rightarrow> poller \<Rightarrow> poller" where
  "retire_node n s st =
     (let st1 = set_state n s None st in
      if pl_stopped st then callback n st1
      else (set_node n (\<lambda>nd. nd\<lparr>pn_removed := True\<rparr>) st1)\<lparr>pl_pipe := pl_pipe st1 @ [Some n]\<rparr>)"

definition poller_del :: "int \<Rightarrow> poller \<Rightarrow> poller_result" where
  "poller_del fd st =
     (case bad_fd fd st of
        Some e \<Rightarrow> Some (Ret (-1, Some e, st))
      | None \<Rightarrow>
          (case pl_nodes st fd of
             None \<Rightarrow> Some (Ret (-1, Some P_ENOENT, st))
           | Some n \<Rightarrow>
               obind (unlink_node n (st\<lparr>pl_nodes := (pl_nodes st)(fd := None)\<rparr>))
                 (\<lambda>st1. Some (Ret (0, None, retire_node n PR_ST_DELETED (st1\<lparr>pl_epoll := (pl_epoll st1)(fd := None)\<rparr>))))))"

definition poller_mod ::
  "int \<Rightarrow> poller_op \<Rightarrow> bool \<Rightarrow> int \<Rightarrow> timespec \<Rightarrow> bool \<Rightarrow> nat option \<Rightarrow> bool \<Rightarrow> poller \<Rightarrow> poller_result" where
  "poller_mod fd op msg timeout now ares node ctl st =
     (case bad_fd fd st of
        Some e \<Rightarrow> Some (Ret (-1, Some e, st))
      | None \<Rightarrow>
          (case data_get_event op msg of
             None \<Rightarrow> Some (Ret (-1, Some P_EINVAL, st))
           | Some (event, need_res) \<Rightarrow>
               if need_res \<and> \<not> ares then Some (Ret (-1, Some P_ENOMEM, st))
               else
                 (case node of
                    None \<Rightarrow> Some (Ret (-1, Some P_ENOMEM, st))
                  | Some n \<Rightarrow>
                      (case pl_nodes st fd of
                         None \<Rightarrow> Some (Ret (-1, Some P_ENOENT, st))
                       | Some old \<Rightarrow>
                           if ctl then
                             let st1 = (set_node n (new_node fd op event need_res timeout now) st)
                                         \<lparr>pl_epoll := (pl_epoll st)(fd := Some n)\<rparr>
                             in obind (unlink_node old st1)
                                  (\<lambda>st2. obind (enter_node n timeout (retire_node old PR_ST_MODIFIED st2))
                                    (\<lambda>st3. Some (Ret (0, None, st3\<lparr>pl_nodes := (pl_nodes st3)(fd := Some n)\<rparr>))))
                           else Some (Ret (-1, None, st))))))"

definition poller_set_timeout :: "int \<Rightarrow> int \<Rightarrow> timespec \<Rightarrow> poller \<Rightarrow> poller_result" where
  "poller_set_timeout fd timeout now st =
     (case bad_fd fd st of
        Some e \<Rightarrow> Some (Ret (-1, Some e, st))
      | None \<Rightarrow>
          (case pl_nodes st fd of
             None \<Rightarrow> Some (Ret (-1, Some P_ENOENT, st))
           | Some n \<Rightarrow>
               obind (unlink_node n st)
                 (\<lambda>st1. obind (enter_node n timeout
                     (if 0 \<le> timeout then set_node n (\<lambda>nd. nd\<lparr>pn_timeout := add_millis timeout now\<rparr>) st1 else st1))
                   (\<lambda>st2. Some (Ret (0, None, st2))))))"

definition poller_add_timer :: "timespec \<Rightarrow> timespec \<Rightarrow> nat option \<Rightarrow> poller \<Rightarrow> poller_result" where
  "poller_add_timer v now node st =
     (case node of
        None \<Rightarrow> Some (Ret (-1, Some P_ENOMEM, st))
      | Some n \<Rightarrow>
          obind (insert_node n (set_node n (\<lambda>nd.
              nd\<lparr>pn_fd := -1, pn_op := PD_OP_TIMER, pn_in_rbtree := False, pn_removed := False,
                 pn_res := False, pn_timeout := add_timespec v now\<rparr>) st))
            (\<lambda>st1. Some (Ret (0, None, st1))))"

section \<open>The thread of the poller\<close>

text \<open>\<open>__poller_remove_node\<close>: true when another thread has removed the node.\<close>

definition remove_node :: "nat \<Rightarrow> poller \<Rightarrow> (bool \<times> poller) outcome option" where
  "remove_node n st =
     (if pn_removed (pl_node st n) then Some (Ret (True, st))
      else
        let fd = pn_fd (pl_node st n) in
        obind (unlink_node n (st\<lparr>pl_nodes := (pl_nodes st)(fd := None)\<rparr>))
          (\<lambda>st1. Some (Ret (False, st1\<lparr>pl_epoll := (pl_epoll st1)(fd := None)\<rparr>))))"

text \<open>How every handler ends that does not keep its node.\<close>

definition finish_node :: "nat \<Rightarrow> poll_state \<Rightarrow> poll_errno option \<Rightarrow> poller \<Rightarrow> poller outcome option" where
  "finish_node n s e st =
     obind (remove_node n st) (\<lambda>(removed, st1). Some (Ret (if removed then st1 else callback n (set_state n s e st1))))"

text \<open>\<open>__poller_handle_pipe\<close> for the \<open>k\<close> pointers that one \<open>read\<close> returns.\<close>

fun pipe_callbacks :: "nat option list \<Rightarrow> bool \<Rightarrow> poller \<Rightarrow> bool \<times> poller" where
  "pipe_callbacks [] stop st = (stop, st)"
| "pipe_callbacks (Some n # ps) stop st = pipe_callbacks ps stop (callback n st)"
| "pipe_callbacks (None # ps) stop st = pipe_callbacks ps True st"

definition handle_pipe :: "nat \<Rightarrow> poller \<Rightarrow> bool \<times> poller" where
  "handle_pipe k st = pipe_callbacks (take k (pl_pipe st)) False (st\<lparr>pl_pipe := drop k (pl_pipe st)\<rparr>)"

text \<open>An expired node leaves the table and the kernel.\<close>

definition forget_fd :: "nat \<Rightarrow> poller \<Rightarrow> poller" where
  "forget_fd n st =
     (let fd = pn_fd (pl_node st n) in
      if 0 \<le> fd then st\<lparr>pl_nodes := (pl_nodes st)(fd := None), pl_epoll := (pl_epoll st)(fd := None)\<rparr> else st)"

fun expire_list :: "timespec \<Rightarrow> nat list \<Rightarrow> poller \<Rightarrow> nat list \<times> poller" where
  "expire_list time [] st = ([], st)"
| "expire_list time (n # ns) st =
     (if timespec_cmp (pn_timeout (pl_node st n)) time \<le> 0 then
        (case expire_list time ns ((forget_fd n st)\<lparr>pl_timeo_list := ns\<rparr>) of (xs, st1) \<Rightarrow> (n # xs, st1))
      else ([], st))"

definition expire_tree_step :: "timespec \<Rightarrow> poller \<Rightarrow> (nat option \<times> poller) outcome option" where
  "expire_tree_step time st =
     (case pl_tree_first st of
        None \<Rightarrow> Some (Ret (None, st))
      | Some n \<Rightarrow>
          if timespec_cmp (pn_timeout (pl_node st n)) time < 0 then
            obind (map_option Ret (rb_step True n (pl_timeo_tree st)))
              (\<lambda>nxt. obind (rb_erase n (pl_timeo_tree st))
                (\<lambda>h. Some (Ret (Some n, (forget_fd n st)\<lparr>pl_timeo_tree := h, pl_tree_first := nxt,
                      pl_tree_last := (if nxt = None then None else pl_tree_last st)\<rparr>))))
          else Some (Ret (None, st)))"

partial_function (option) expire_tree :: "timespec \<Rightarrow> nat list \<Rightarrow> poller \<Rightarrow> (nat list \<times> poller) outcome option" where
  "expire_tree time acc st =
     (case expire_tree_step time st of
        None \<Rightarrow> None
      | Some UB \<Rightarrow> Some UB
      | Some (Ret (None, st1)) \<Rightarrow> Some (Ret (acc, st1))
      | Some (Ret (Some n, st1)) \<Rightarrow> expire_tree time (acc @ [n]) st1)"

declare expire_tree.simps [code]

definition handle_timeout :: "timespec \<Rightarrow> poller \<Rightarrow> poller outcome option" where
  "handle_timeout time st =
     (case expire_list time (pl_timeo_list st) st of
        (xs, st1) \<Rightarrow>
          obind (expire_tree time xs st1)
            (\<lambda>(ys, st2). Some (Ret (foldl (\<lambda>st n. callback n (set_state n PR_ST_ERROR (Some P_ETIMEDOUT) st)) st2 ys))))"

section \<open>Creating, starting and stopping\<close>

definition poller_init :: "nat \<Rightarrow> (nat \<Rightarrow> poller_node) \<Rightarrow> poller" where
  "poller_init max_files junk =
     \<lparr>pl_max_open_files = max_files, pl_stopped = True, pl_pipe_rd = -1, pl_pipe_wr = -1,
      pl_timeo_tree = \<lparr>rb_parent = (\<lambda>_. None), rb_right = (\<lambda>_. None), rb_left = (\<lambda>_. None), rb_color = (\<lambda>_. RB_BLACK), rb_node = None\<rparr>,
      pl_tree_first = None, pl_tree_last = None, pl_timeo_list = [], pl_no_timeo_list = [], pl_nodes = (\<lambda>_. None),
      pl_node = junk, pl_timerfd = None, pl_epoll = (\<lambda>_. None), pl_pipe = [], pl_calls = []\<rparr>"

text \<open>The descriptors of the pipe and the answer of \<open>pthread_create\<close> are given.\<close>

definition poller_start :: "(int \<times> int) option \<Rightarrow> bool \<Rightarrow> poller \<Rightarrow> int \<times> poller" where
  "poller_start pipefd thread st =
     (case pipefd of
        None \<Rightarrow> (- (if pl_stopped st then 1 else 0), st)
      | Some (rd, wr) \<Rightarrow>
          let st1 = st\<lparr>pl_pipe_rd := rd, pl_pipe_wr := wr\<rparr>;
              st2 = (if thread then st1\<lparr>pl_stopped := False\<rparr> else st1)
          in (- (if pl_stopped st2 then 1 else 0), st2))"

text \<open>The tree is emptied from its root into the front of the list.\<close>

definition drain_step :: "poller \<Rightarrow> (bool \<times> poller) outcome option" where
  "drain_step st =
     (case rb_node (pl_timeo_tree st) of
        None \<Rightarrow> Some (Ret (False, st))
      | Some n \<Rightarrow>
          obind (rb_erase n (pl_timeo_tree st))
            (\<lambda>h. Some (Ret (True, st\<lparr>pl_timeo_tree := h, pl_timeo_list := n # pl_timeo_list st\<rparr>))))"

partial_function (option) drain_tree :: "poller \<Rightarrow> poller outcome option" where
  "drain_tree st =
     (case drain_step st of
        None \<Rightarrow> None
      | Some UB \<Rightarrow> Some UB
      | Some (Ret (go, st1)) \<Rightarrow> if go then drain_tree st1 else Some (Ret st1))"

declare drain_tree.simps [code]

fun stop_list :: "nat list \<Rightarrow> poller \<Rightarrow> poller" where
  "stop_list [] st = st\<lparr>pl_timeo_list := []\<rparr>"
| "stop_list (n # ns) st = stop_list ns (callback n (set_state n PR_ST_STOPPED None (forget_fd n (st\<lparr>pl_timeo_list := ns\<rparr>))))"

text \<open>\<open>poller_stop\<close> asks the thread to end by a null pointer in the pipe, and goes on when it has ended.\<close>

definition stop_request :: "poller \<Rightarrow> poller" where
  "stop_request st = st\<lparr>pl_pipe := pl_pipe st @ [None]\<rparr>"

definition poller_stop :: "poller \<Rightarrow> poller outcome option" where
  "poller_stop st =
     (if bad_fd (pl_pipe_rd st) st \<noteq> None \<or> bad_fd (pl_pipe_wr st) st \<noteq> None then Some UB
      else
        let st1 = st\<lparr>pl_stopped := True, pl_nodes := (pl_nodes st)(pl_pipe_rd st := None, pl_pipe_wr st := None)\<rparr>;
            st2 = snd (handle_pipe (length (pl_pipe st1)) st1)
        in obind (drain_tree (st2\<lparr>pl_tree_first := None, pl_tree_last := None\<rparr>))
             (\<lambda>st3. let xs = pl_no_timeo_list st3 @ pl_timeo_list st3
                    in Some (Ret (stop_list xs (st3\<lparr>pl_timeo_list := xs, pl_no_timeo_list := []\<rparr>)))))"

end
