(* ===== verification/PollerTree.thy ===== *)
theory PollerTree
  imports Poller RbtreeProps
begin

text \<open>
  The deadlines of the poller: the tree of \<open>poller.c\<close> with the pointers to its ends is a list of nodes
  sorted by deadline, under insertion, removal and expiry; the timer is never set later than the
  earliest deadline.
\<close>

section \<open>The order of deadlines\<close>

lemma timespec_cmp_order:
  "timespec_cmp x x = 0" "timespec_cmp x y \<le> 0 \<longleftrightarrow> \<not> 0 < timespec_cmp x y"
  "0 < timespec_cmp x y \<longleftrightarrow> timespec_cmp y x < 0"
  "timespec_cmp x y \<le> 0 \<Longrightarrow> timespec_cmp y z \<le> 0 \<Longrightarrow> timespec_cmp x z \<le> 0"
  by (auto simp: timespec_cmp_def Let_def split: if_splits)

lemma timespec_cmp_strict: "timespec_cmp x y < 0 \<Longrightarrow> timespec_cmp y z \<le> 0 \<Longrightarrow> timespec_cmp x z < 0"
  "timespec_cmp x y \<le> 0 \<Longrightarrow> timespec_cmp y z < 0 \<Longrightarrow> timespec_cmp x z < 0"
  "0 \<le> timespec_cmp x y \<longleftrightarrow> timespec_cmp y x \<le> 0"
  by (auto simp: timespec_cmp_def Let_def split: if_splits)

definition by_deadline :: "poller \<Rightarrow> nat list \<Rightarrow> bool" where
  "by_deadline st xs \<longleftrightarrow> sorted_wrt (\<lambda>m n. timeout_cmp st m n \<le> 0) xs"

definition fst_of :: "nat list \<Rightarrow> nat option" where
  "fst_of xs = (case xs of [] \<Rightarrow> None | x # _ \<Rightarrow> Some x)"

definition lst_of :: "nat list \<Rightarrow> nat option" where
  "lst_of xs = (if xs = [] then None else Some (last xs))"

text \<open>The tree holds the nodes \<open>xs\<close> in this order.\<close>

definition tree_nodes :: "poller \<Rightarrow> nat list \<Rightarrow> bool" where
  "tree_nodes st xs \<longleftrightarrow> (\<exists>t. holds_tree (pl_timeo_tree st) t \<and> is_rbt t \<and> nodes t = xs)"

definition deadline_tree :: "poller \<Rightarrow> nat list \<Rightarrow> bool" where
  "deadline_tree st xs \<longleftrightarrow> tree_nodes st xs \<and> pl_tree_first st = fst_of xs \<and> pl_tree_last st = lst_of xs \<and> by_deadline st xs"

lemma tree_nodes_distinct: "tree_nodes st xs \<Longrightarrow> distinct xs"
  by (auto simp: tree_nodes_def holds_tree_def at_def)

lemma deadline_tree_distinct: "deadline_tree st xs \<Longrightarrow> distinct xs"
  by (auto simp: deadline_tree_def intro: tree_nodes_distinct)

lemma fst_of_simps [simp]: "fst_of [] = None" "fst_of (x # xs) = Some x" "lst_of [] = None" "lst_of [x] = Some x"
  "lst_of (xs @ [x]) = Some x"
  by (simp_all add: fst_of_def lst_of_def)

text \<open>Only the deadlines of the nodes matter for the order.\<close>

lemma by_deadline_cong:
  "\<forall>n\<in>set xs. pn_timeout (pl_node st' n) = pn_timeout (pl_node st n) \<Longrightarrow> by_deadline st' xs = by_deadline st xs"
  unfolding by_deadline_def timeout_cmp_def by (induction xs) auto

section \<open>Insertion\<close>

text \<open>The descent ends at the empty place after the nodes whose deadline is not later.\<close>

lemma tree_descend_ok:
  assumes "at (pl_timeo_tree st) K t" "root_of t = Some cur"
    "\<forall>m\<in>set (before K). timeout_cmp st m node \<le> 0" "\<forall>m\<in>set (after K). timeout_cmp st node m < 0"
    "by_deadline st (nodes t)"
  shows "\<exists>K' par lft. tree_descend node cur st = Some (par, lft) \<and> plug K' Lf = plug K t \<and> ctx_parent K' = Some par
    \<and> fst (hd K') = lft \<and> K' \<noteq> [] \<and> (\<forall>m\<in>set (before K'). timeout_cmp st m node \<le> 0)
    \<and> (\<forall>m\<in>set (after K'). timeout_cmp st node m < 0)"
  using assms
proof (induction "size t" arbitrary: K t cur rule: less_induct)
  case less
  obtain l c r where t: "t = Nd l cur c r" using less.prems(2) by (cases t) auto
  define lft where "lft = (timeout_cmp st node cur < 0)"
  let ?u = "if lft then l else r"
  let ?K = "(lft, cur, c, if lft then r else l) # K"
  have nd: "t = nd lft ?u cur c (if lft then r else l)" using t by (simp add: nd_def)
  have ch: "rb_child lft (pl_timeo_tree st) cur = root_of ?u" using at_nd(3) less.prems(1) nd by metis
  have at: "at (pl_timeo_tree st) ?K ?u" using less.prems(1) nd at_down by metis
  have pl: "plug ?K ?u = plug K t" using nd by simp
  have srt: "by_deadline st (nodes ?u)" "\<forall>m\<in>set (nodes l). timeout_cmp st m cur \<le> 0"
      "\<forall>m\<in>set (nodes r). timeout_cmp st cur m \<le> 0"
    using less.prems(5) t by (auto simp: by_deadline_def sorted_wrt_append)
  have c: "lft \<Longrightarrow> timeout_cmp st node cur < 0" "\<not> lft \<Longrightarrow> timeout_cmp st cur node \<le> 0"
    using timespec_cmp_strict(3) by (auto simp: lft_def timeout_cmp_def not_less)
  have bf: "\<forall>m\<in>set (before ?K). timeout_cmp st m node \<le> 0"
  proof (cases lft)
    case False
    then have "\<forall>m\<in>set (nodes l). timeout_cmp st m node \<le> 0"
      using c(2) srt(2) timespec_cmp_order(4) unfolding timeout_cmp_def by blast
    then show ?thesis using less.prems(3) c(2) False by auto
  qed (use less.prems(3) in simp)
  have af: "\<forall>m\<in>set (after ?K). timeout_cmp st node m < 0"
  proof (cases lft)
    case True
    then have "\<forall>m\<in>set (nodes r). timeout_cmp st node m < 0"
      using c(1) srt(3) timespec_cmp_strict(1) unfolding timeout_cmp_def by blast
    then show ?thesis using less.prems(4) c(1) True by auto
  qed (use less.prems(4) in simp)
  show ?case
  proof (cases ?u)
    case Lf
    then have "tree_descend node cur st = Some (cur, lft)"
      using ch by (simp add: tree_descend.simps [of node cur st] lft_def [symmetric])
    then show ?thesis
      using pl Lf bf af by (intro exI [of _ ?K] exI [of _ cur] exI [of _ lft]) auto
  next
    case (Nd l' cur' c' r')
    then have "tree_descend node cur st = tree_descend node cur' st"
      using ch by (simp add: tree_descend.simps [of node cur st] lft_def [symmetric])
    moreover have "size ?u < size t" using t by auto
    ultimately show ?thesis
      using less.hyps [OF _ at _ bf af srt(1), of cur'] Nd pl by simp
  qed
qed

text \<open>Linking a node at an empty place of the tree of deadlines.\<close>

definition same_but_tree :: "nat \<Rightarrow> poller \<Rightarrow> poller \<Rightarrow> bool" where
  "same_but_tree n st st' \<longleftrightarrow> (\<exists>b h f l. st' = (set_node n (\<lambda>nd. nd\<lparr>pn_in_rbtree := b\<rparr>) st)
     \<lparr>pl_timeo_tree := h, pl_tree_first := f, pl_tree_last := l\<rparr>)"

lemma tree_link_ok:
  assumes "holds_tree (pl_timeo_tree st) (plug K Lf)" "is_rbt (plug K Lf)" "n \<notin> set (nodes (plug K Lf))"
    "K \<noteq> [] \<Longrightarrow> lft = fst (hd K)"
  shows "\<exists>st'. tree_link n (ctx_parent K) lft st = Some (Ret st') \<and> tree_nodes st' (before K @ n # after K)
    \<and> (\<exists>h. st' = (set_node n (\<lambda>nd. nd\<lparr>pn_in_rbtree := True\<rparr>) st)\<lparr>pl_timeo_tree := h\<rparr>)"
  using rb_insert_correct [OF assms] by (auto simp: tree_link_def tree_nodes_def)

text \<open>The list that the tree is when a node is inserted.\<close>

definition insert_deadline :: "poller \<Rightarrow> nat \<Rightarrow> nat list \<Rightarrow> nat list" where
  "insert_deadline st n xs = takeWhile (\<lambda>m. timeout_cmp st m n \<le> 0) xs @ n # dropWhile (\<lambda>m. timeout_cmp st m n \<le> 0) xs"

lemma insert_deadline_split:
  assumes "\<forall>m\<in>set xs. timeout_cmp st m n \<le> 0" "\<forall>m\<in>set ys. timeout_cmp st n m < 0"
  shows "insert_deadline st n (xs @ ys) = xs @ n # ys"
proof -
  have "\<forall>m\<in>set ys. \<not> timeout_cmp st m n \<le> 0"
    using assms(2) timespec_cmp_strict(3) by (auto simp: timeout_cmp_def not_le) (metis not_le timespec_cmp_order(3))
  then show ?thesis using assms(1) by (cases ys) (auto simp: insert_deadline_def takeWhile_append dropWhile_append)
qed

lemma insert_deadline_sorted:
  assumes "by_deadline st xs"
  shows "by_deadline st (insert_deadline st n xs)" "set (insert_deadline st n xs) = insert n (set xs)"
proof -
  let ?P = "\<lambda>m. timeout_cmp st m n \<le> 0"
  have tr: "timeout_cmp st x y \<le> 0 \<Longrightarrow> timeout_cmp st y z \<le> 0 \<Longrightarrow> timeout_cmp st x z \<le> 0" for x y z
    using timespec_cmp_order(4) by (auto simp: timeout_cmp_def)
  have tot: "\<not> timeout_cmp st x y \<le> 0 \<Longrightarrow> timeout_cmp st y x \<le> 0" for x y
    unfolding timeout_cmp_def using timespec_cmp_strict(3) [of "pn_timeout (pl_node st x)" "pn_timeout (pl_node st y)"] by linarith
  have "by_deadline st (takeWhile ?P xs @ dropWhile ?P xs)" using assms by simp
  then have s: "by_deadline st (takeWhile ?P xs)" "by_deadline st (dropWhile ?P xs)"
      "\<forall>x\<in>set (takeWhile ?P xs). \<forall>y\<in>set (dropWhile ?P xs). timeout_cmp st x y \<le> 0"
    unfolding by_deadline_def sorted_wrt_append by blast+
  have t: "\<forall>x\<in>set (takeWhile ?P xs). timeout_cmp st x n \<le> 0" using set_takeWhileD by fast
  have d: "\<forall>y\<in>set (dropWhile ?P xs). timeout_cmp st n y \<le> 0"
  proof (cases "dropWhile ?P xs")
    case (Cons y ys)
    then have "\<not> timeout_cmp st y n \<le> 0" using hd_dropWhile [of ?P xs] by auto
    then have "timeout_cmp st n y \<le> 0" by (rule tot)
    moreover have "\<forall>z\<in>set ys. timeout_cmp st y z \<le> 0" using s(2) Cons by (simp add: by_deadline_def)
    ultimately show ?thesis using Cons tr by auto
  next
    case Nil
    show ?thesis unfolding Nil by simp
  qed
  show "by_deadline st (insert_deadline st n xs)"
    unfolding insert_deadline_def by_deadline_def sorted_wrt_append sorted_wrt.simps
  proof (intro conjI ballI)
    fix x y assume "x \<in> set (takeWhile ?P xs)" "y \<in> set (n # dropWhile ?P xs)"
    then show "timeout_cmp st x y \<le> 0" using s(3) t unfolding set_ConsD by (metis set_ConsD)
  qed (use s d in \<open>simp_all only: by_deadline_def\<close>)
  show "set (insert_deadline st n xs) = insert n (set xs)"
  proof -
    have "set (takeWhile ?P xs @ dropWhile ?P xs) = set xs" by simp
    then show ?thesis unfolding insert_deadline_def set_append list.set by blast
  qed
qed


lemma fst_of_insert: "fst_of (xs @ n # ys) = (if xs = [] then Some n else fst_of (xs @ ys))"
  by (cases xs) auto

lemma lst_of_insert: "lst_of (xs @ n # ys) = (if ys = [] then Some n else lst_of (xs @ ys))"
  by (auto simp: lst_of_def)

text \<open>The nodes before an empty place, and after it, decide where the new node goes.\<close>

definition inserted_tree :: "nat \<Rightarrow> poller \<Rightarrow> nat list \<Rightarrow> poller outcome option \<Rightarrow> bool" where
  "inserted_tree n st xs r \<longleftrightarrow> (\<exists>st'. r = Some (Ret st') \<and> deadline_tree st' (insert_deadline st n xs)
    \<and> (\<exists>h f l. st' = (set_node n (\<lambda>nd. nd\<lparr>pn_in_rbtree := True\<rparr>) st)
         \<lparr>pl_timeo_tree := h, pl_tree_first := f, pl_tree_last := l\<rparr>))"

lemma tree_link_deadline:
  assumes "holds_tree (pl_timeo_tree st) (plug K Lf)" "is_rbt (plug K Lf)" "n \<notin> set (nodes (plug K Lf))"
    "K \<noteq> [] \<Longrightarrow> lft = fst (hd K)" "by_deadline st (nodes (plug K Lf))"
    "\<forall>m\<in>set (before K). timeout_cmp st m n \<le> 0" "\<forall>m\<in>set (after K). timeout_cmp st n m < 0"
    "f = fst_of (before K @ n # after K)" "l = lst_of (before K @ n # after K)"
  shows "inserted_tree n st (nodes (plug K Lf)) (tree_link n (ctx_parent K) lft (st\<lparr>pl_tree_first := f, pl_tree_last := l\<rparr>))"
proof -
  let ?st = "st\<lparr>pl_tree_first := f, pl_tree_last := l\<rparr>" and ?xs = "nodes (plug K Lf)"
  have ins: "insert_deadline st n ?xs = before K @ n # after K"
    using insert_deadline_split [OF assms(6,7)] by (simp add: nodes_plug)
  obtain st' h where st': "tree_link n (ctx_parent K) lft ?st = Some (Ret st')" "tree_nodes st' (before K @ n # after K)"
      "st' = (set_node n (\<lambda>nd. nd\<lparr>pn_in_rbtree := True\<rparr>) ?st)\<lparr>pl_timeo_tree := h\<rparr>"
    using tree_link_ok [of ?st K n lft] assms(1-4) by auto
  have "by_deadline st' (insert_deadline st n ?xs)"
    using insert_deadline_sorted(1) [OF assms(5), of n] by_deadline_cong [of "insert_deadline st n ?xs" st' st] st'(3)
    by (simp add: set_node_def)
  then have "deadline_tree st' (insert_deadline st n ?xs)"
    using st' ins assms(8,9) by (simp add: deadline_tree_def set_node_def)
  moreover have "st' = (set_node n (\<lambda>nd. nd\<lparr>pn_in_rbtree := True\<rparr>) st)\<lparr>pl_timeo_tree := h, pl_tree_first := f, pl_tree_last := l\<rparr>"
    using st'(3) by (simp add: set_node_def)
  ultimately show ?thesis using st'(1) unfolding inserted_tree_def by blast
qed

text \<open>The first node changes when the place is the left child of the first node.\<close>

lemma descend_first:
  assumes "ctx_parent K = Some par" "K \<noteq> []" "distinct (before K @ after K)"
  shows "(if fst (hd K) \<and> fst_of (before K @ after K) = Some par then Some n else fst_of (before K @ after K))
    = fst_of (before K @ n # after K)"
proof -
  obtain s c u K' where K: "K = (s, par, c, u) # K'" using assms(1,2) by (cases K) auto
  show ?thesis
  proof (cases "before K = []")
    case True
    then have s by (auto simp: K split: if_splits)
    then show ?thesis using True K by simp
  next
    case False
    have "\<not> (s \<and> fst_of (before K @ after K) = Some par)"
    proof
      assume a: "s \<and> fst_of (before K @ after K) = Some par"
      then have "par \<in> set (after K)" "par \<in> set (before K)" using K False by (cases "before K"; auto)+
      then show False using assms(3) by auto
    qed
    moreover have "fst (hd K) = s" using K by simp
    ultimately show ?thesis unfolding fst_of_insert using False by auto
  qed
qed

text \<open>The empty place after the last node.\<close>

lemma last_place:
  assumes "holds_tree h t" "nodes t \<noteq> []"
  shows "\<exists>K. plug K Lf = t \<and> before K = nodes t \<and> after K = [] \<and> ctx_parent K = Some (last (nodes t)) \<and> fst (hd K) = False"
proof -
  have "nodes t = butlast (nodes t) @ last (nodes t) # []" using assms(2) by simp
  then obtain K l c r where p: "at h K (Nd l (last (nodes t)) c r)" "t = plug K (Nd l (last (nodes t)) c r)"
      "[] = nodes r @ after K" by (rule tree_split [OF assms(1)])
  then have r: "r = Lf" "after K = []" by (cases r; auto)+
  have "plug ((False, last (nodes t), c, l) # K) Lf = t" using p(2) r by (simp add: nd_def)
  moreover have "before ((False, last (nodes t), c, l) # K) = nodes t" using calculation r nodes_plug [of "(False, last (nodes t), c, l) # K" Lf] by simp
  ultimately show ?thesis using r by (intro exI [of _ "(False, last (nodes t), c, l) # K"]) auto
qed

lemma sorted_before_last:
  assumes "by_deadline st xs" "m \<in> set xs"
  shows "timeout_cmp st m (last xs) \<le> 0"
proof (cases xs rule: rev_cases)
  case (snoc ys y)
  then show ?thesis
    using assms timespec_cmp_order(1) by (auto simp: by_deadline_def sorted_wrt_append timeout_cmp_def)
qed (use assms in simp)

lemma tree_insert_ok:
  assumes "deadline_tree st xs" "n \<notin> set xs"
  shows "inserted_tree n st xs (tree_insert n st)"
proof -
  obtain t where t: "holds_tree (pl_timeo_tree st) t" "is_rbt t" "nodes t = xs"
    using assms(1) by (auto simp: deadline_tree_def tree_nodes_def)
  have fl: "pl_tree_first st = fst_of xs" "pl_tree_last st = lst_of xs" "by_deadline st xs"
    using assms(1) by (auto simp: deadline_tree_def)
  have rt: "rb_node (pl_timeo_tree st) = root_of t" using t(1) by (simp add: holds_tree_def at_def)
  show ?thesis
  proof (cases "xs = []")
    case True
    then have "t = Lf" using t(3) by (cases t) auto
    have "inserted_tree n st (nodes (plug [] Lf)) (tree_link n (ctx_parent []) True (st\<lparr>pl_tree_first := Some n, pl_tree_last := Some n\<rparr>))"
      using t \<open>t = Lf\<close> by (intro tree_link_deadline) (auto simp: by_deadline_def)
    moreover have "rb_node (pl_timeo_tree st) = None" using rt \<open>t = Lf\<close> by simp
    ultimately show ?thesis using True by (simp add: tree_insert_def)
  next
    case False
    then obtain a where a: "root_of t = Some a" using t(3) by (cases t) auto
    have lst: "pl_tree_last st = Some (last xs)" using fl(2) False by (simp add: lst_of_def)
    show ?thesis
    proof (cases "0 \<le> timeout_cmp st n (last xs)")
      case True
      obtain K where K: "plug K Lf = t" "before K = xs" "after K = []" "ctx_parent K = Some (last xs)" "fst (hd K) = False"
        using last_place [OF t(1)] t(3) False by auto
      have "\<forall>m\<in>set xs. timeout_cmp st m n \<le> 0"
      proof
        fix m assume "m \<in> set xs"
        then have "timeout_cmp st m (last xs) \<le> 0" by (rule sorted_before_last [OF fl(3)])
        moreover have "timeout_cmp st (last xs) n \<le> 0" using True timespec_cmp_strict(3) by (simp add: timeout_cmp_def)
        ultimately show "timeout_cmp st m n \<le> 0" unfolding timeout_cmp_def by (rule timespec_cmp_order(4))
      qed
      then have "inserted_tree n st xs (tree_link n (Some (last xs)) False (st\<lparr>pl_tree_first := fst_of (xs @ [n]), pl_tree_last := Some n\<rparr>))"
        using tree_link_deadline [of st K n False "fst_of (xs @ [n])" "Some n"] K t assms(2) fl(3) by simp
      moreover have "st\<lparr>pl_tree_first := fst_of (xs @ [n]), pl_tree_last := Some n\<rparr> = st\<lparr>pl_tree_last := Some n\<rparr>"
        using fl(1) False by (simp add: fst_of_insert)
      ultimately show ?thesis using True lst a rt by (simp add: tree_insert_def)
    next
      case c: False
      obtain K par lft where K: "tree_descend n a st = Some (par, lft)" "plug K Lf = t" "ctx_parent K = Some par"
          "fst (hd K) = lft" "K \<noteq> []" "\<forall>m\<in>set (before K). timeout_cmp st m n \<le> 0" "\<forall>m\<in>set (after K). timeout_cmp st n m < 0"
        using tree_descend_ok [OF t(1) [unfolded holds_tree_def] a, of n] fl(3) t(3) by auto
      have xs: "xs = before K @ after K" using K(2) t(3) nodes_plug [of K Lf] by auto
      have aft: "after K \<noteq> []"
      proof
        assume "after K = []"
        then have "timeout_cmp st (last xs) n \<le> 0" using K(6) xs False by simp
        then show False using c timespec_cmp_strict(3) by (simp add: timeout_cmp_def)
      qed
      have first: "(if lft \<and> pl_tree_first st = Some par then Some n else pl_tree_first st) = fst_of (before K @ n # after K)"
        using descend_first [OF K(3,5), of n] deadline_tree_distinct [OF assms(1)] unfolding fl(1) K(4) xs by blast
      have "inserted_tree n st xs (tree_link n (ctx_parent K) lft
          (st\<lparr>pl_tree_first := fst_of (before K @ n # after K), pl_tree_last := lst_of (before K @ n # after K)\<rparr>))"
        using tree_link_deadline [of st K n lft] K t assms(2) fl(3) by simp
      moreover have "st\<lparr>pl_tree_first := fst_of (before K @ n # after K), pl_tree_last := lst_of (before K @ n # after K)\<rparr>
          = (if lft \<and> pl_tree_first st = Some par then st\<lparr>pl_tree_first := Some n\<rparr> else st)"
        using first fl(2) aft xs by (auto simp: lst_of_insert split: if_splits)
      ultimately show ?thesis using c lst a rt K(1,3) by (simp add: tree_insert_def)
    qed
  qed
qed

section \<open>Removal\<close>

lemma tree_erase_ok:
  assumes "deadline_tree st (xs @ n # ys)"
  shows "\<exists>st'. tree_erase n st = Some (Ret st') \<and> deadline_tree st' (xs @ ys)
    \<and> (\<exists>h f l. st' = (set_node n (\<lambda>nd. nd\<lparr>pn_in_rbtree := False\<rparr>) st)
         \<lparr>pl_timeo_tree := h, pl_tree_first := f, pl_tree_last := l\<rparr>)"
proof -
  obtain t where t: "holds_tree (pl_timeo_tree st) t" "is_rbt t" "nodes t = xs @ n # ys"
    using assms by (auto simp: deadline_tree_def tree_nodes_def)
  have fl: "pl_tree_first st = fst_of (xs @ n # ys)" "pl_tree_last st = lst_of (xs @ n # ys)" "by_deadline st (xs @ n # ys)"
    using assms by (auto simp: deadline_tree_def)
  have d: "distinct (xs @ n # ys)" using deadline_tree_distinct [OF assms] .
  obtain h t' where h: "rb_erase n (pl_timeo_tree st) = Some (Ret h)" "holds_tree h t'" "is_rbt t'" "nodes t' = xs @ ys"
    using rb_erase_correct [OF t(1,2), of n] t(3) d by (auto simp: erased_def remove1_append)
  have st: "rb_step True n (pl_timeo_tree st) = Some (fst_of ys)" "rb_step False n (pl_timeo_tree st) = Some (lst_of xs)"
    using rb_neighbours [OF t(1,3)] by (simp_all add: fst_of_def lst_of_def)
  have f: "(if pl_tree_first st = Some n then map_option Ret (rb_step True n (pl_timeo_tree st)) else Some (Ret (pl_tree_first st)))
      = Some (Ret (fst_of (xs @ ys)))"
    using fl(1) st(1) d by (cases xs) auto
  have l: "(if pl_tree_last st = Some n then map_option Ret (rb_step False n (pl_timeo_tree st)) else Some (Ret (pl_tree_last st)))
      = Some (Ret (lst_of (xs @ ys)))"
    using fl(2) st(2) d by (cases ys rule: rev_cases) (auto simp: lst_of_def)
  let ?st = "(set_node n (\<lambda>nd. nd\<lparr>pn_in_rbtree := False\<rparr>) st)\<lparr>pl_timeo_tree := h, pl_tree_first := fst_of (xs @ ys), pl_tree_last := lst_of (xs @ ys)\<rparr>"
  have "tree_erase n st = Some (Ret ?st)" unfolding tree_erase_def f l h(1) by simp
  moreover have "by_deadline ?st (xs @ ys)"
    using fl(3) by_deadline_cong [of "xs @ ys" ?st st] by (simp add: set_node_def) (auto simp: by_deadline_def sorted_wrt_append)
  then have "deadline_tree ?st (xs @ ys)" using h by (auto simp: deadline_tree_def tree_nodes_def set_node_def)
  ultimately show ?thesis by blast
qed

end
