(* ===== verification/PollerInv.thy ===== *)
theory PollerInv
  imports PollerTree "HOL-Library.Multiset"
begin

text \<open>
  The invariant of a poller in two halves: \<open>links\<close>, the structures that hold the nodes and the timer,
  and \<open>owners\<close>, which says of every node who is responsible for it: the structures, the pipe or the
  user, who got it by a callback. Every operation keeps both.
\<close>

section \<open>The two halves\<close>

definition linked :: "poller \<Rightarrow> nat list \<Rightarrow> nat list" where
  "linked st xs = pl_timeo_list st @ pl_no_timeo_list st @ xs"

definition links :: "poller \<Rightarrow> nat list \<Rightarrow> bool" where
  "links st xs \<longleftrightarrow> deadline_tree st xs \<and> by_deadline st (pl_timeo_list st) \<and> distinct (linked st xs)
     \<and> (\<forall>n\<in>set xs. pn_in_rbtree (pl_node st n))
     \<and> (\<forall>n\<in>set (pl_timeo_list st @ pl_no_timeo_list st). \<not> pn_in_rbtree (pl_node st n))"

text \<open>The timer is set, and not after any deadline.\<close>

definition armed :: "poller \<Rightarrow> nat list \<Rightarrow> bool" where
  "armed st xs \<longleftrightarrow> (\<forall>n\<in>set (pl_timeo_list st @ xs). 0 < tv_sec (pn_timeout (pl_node st n))
     \<and> (\<exists>t. pl_timerfd st = Some t \<and> timespec_cmp t (pn_timeout (pl_node st n)) \<le> 0))"

definition piped :: "poller \<Rightarrow> nat list" where
  "piped st = List.map_filter id (pl_pipe st)"

definition delivered :: "poller \<Rightarrow> nat list" where
  "delivered st = map fst (pl_calls st)"

definition owners :: "poller \<Rightarrow> nat set \<Rightarrow> bool" where
  "owners st A \<longleftrightarrow> distinct (piped st @ delivered st) \<and> A \<inter> (set (piped st) \<union> set (delivered st)) = {}
     \<and> (\<forall>n\<in>A. \<not> pn_removed (pl_node st n)) \<and> (\<forall>n\<in>set (piped st). pn_removed (pl_node st n))
     \<and> (\<forall>fd n. pl_nodes st fd = Some n \<longleftrightarrow> n \<in> A \<and> pn_fd (pl_node st n) = fd \<and> 0 \<le> fd)
     \<and> pl_epoll st = pl_nodes st"

definition poller_inv :: "poller \<Rightarrow> nat set \<Rightarrow> bool" where
  "poller_inv st A \<longleftrightarrow> (\<exists>xs. links st xs \<and> armed st xs \<and> A = set (linked st xs)) \<and> owners st A"

text \<open>What an operation on the structures does not touch.\<close>

definition frame :: "nat \<Rightarrow> poller \<Rightarrow> poller \<Rightarrow> bool" where
  "frame n st st' \<longleftrightarrow> pl_max_open_files st' = pl_max_open_files st \<and> pl_stopped st' = pl_stopped st
     \<and> pl_pipe_rd st' = pl_pipe_rd st \<and> pl_pipe_wr st' = pl_pipe_wr st \<and> pl_nodes st' = pl_nodes st
     \<and> pl_epoll st' = pl_epoll st \<and> pl_pipe st' = pl_pipe st \<and> pl_calls st' = pl_calls st
     \<and> (\<forall>m. \<exists>b. pl_node st' m = (pl_node st m)\<lparr>pn_in_rbtree := b\<rparr>)
     \<and> (\<forall>m. m \<noteq> n \<longrightarrow> pl_node st' m = pl_node st m)"

lemma frame_node:
  assumes "frame n st st'"
  shows "pn_fd (pl_node st' m) = pn_fd (pl_node st m)" "pn_removed (pl_node st' m) = pn_removed (pl_node st m)"
    "pn_timeout (pl_node st' m) = pn_timeout (pl_node st m)" "pn_state (pl_node st' m) = pn_state (pl_node st m)"
    "pn_error (pl_node st' m) = pn_error (pl_node st m)"
proof -
  obtain b where "pl_node st' m = (pl_node st m)\<lparr>pn_in_rbtree := b\<rparr>" using assms unfolding frame_def by blast
  then show "pn_fd (pl_node st' m) = pn_fd (pl_node st m)" "pn_removed (pl_node st' m) = pn_removed (pl_node st m)"
    "pn_timeout (pl_node st' m) = pn_timeout (pl_node st m)" "pn_state (pl_node st' m) = pn_state (pl_node st m)"
    "pn_error (pl_node st' m) = pn_error (pl_node st m)"
    by simp_all
qed

lemma frame_rest:
  assumes "frame n st st'"
  shows "pl_nodes st' = pl_nodes st" "pl_epoll st' = pl_epoll st" "pl_pipe st' = pl_pipe st" "pl_calls st' = pl_calls st"
    "pl_stopped st' = pl_stopped st" "pl_max_open_files st' = pl_max_open_files st" "piped st' = piped st" "delivered st' = delivered st"
    "pl_pipe_rd st' = pl_pipe_rd st" "pl_pipe_wr st' = pl_pipe_wr st"
  using assms by (simp_all add: frame_def piped_def delivered_def)

lemma owners_frame: "frame n st st' \<Longrightarrow> owners st' A = owners st A"
  by (simp add: owners_def frame_node frame_rest)

lemma same_node [simp]: "\<exists>b. r = r\<lparr>pn_in_rbtree := b\<rparr>"
  by (rule exI [of _ "pn_in_rbtree r"]) simp

lemma set_node_reads [simp]:
  "pl_max_open_files (set_node n f st) = pl_max_open_files st" "pl_stopped (set_node n f st) = pl_stopped st"
  "pl_timeo_tree (set_node n f st) = pl_timeo_tree st" "pl_tree_first (set_node n f st) = pl_tree_first st"
  "pl_tree_last (set_node n f st) = pl_tree_last st" "pl_timeo_list (set_node n f st) = pl_timeo_list st"
  "pl_no_timeo_list (set_node n f st) = pl_no_timeo_list st" "pl_nodes (set_node n f st) = pl_nodes st"
  "pl_timerfd (set_node n f st) = pl_timerfd st" "pl_epoll (set_node n f st) = pl_epoll st"
  "pl_pipe (set_node n f st) = pl_pipe st" "pl_calls (set_node n f st) = pl_calls st"
  "pl_pipe_rd (set_node n f st) = pl_pipe_rd st" "pl_pipe_wr (set_node n f st) = pl_pipe_wr st"
  "pl_node (set_node n f st) m = (if m = n then f (pl_node st n) else pl_node st m)"
  by (simp_all add: set_node_def)

text \<open>The structures depend on these fields only.\<close>

lemma links_cong:
  assumes "pl_timeo_tree st' = pl_timeo_tree st" "pl_tree_first st' = pl_tree_first st" "pl_tree_last st' = pl_tree_last st"
    "pl_timeo_list st' = pl_timeo_list st" "pl_no_timeo_list st' = pl_no_timeo_list st"
    "\<forall>m\<in>set (linked st xs). pn_timeout (pl_node st' m) = pn_timeout (pl_node st m) \<and> pn_in_rbtree (pl_node st' m) = pn_in_rbtree (pl_node st m)"
  shows "links st' xs = links st xs"
proof -
  have "by_deadline st' xs = by_deadline st xs" "by_deadline st' (pl_timeo_list st) = by_deadline st (pl_timeo_list st)"
    using assms(6) by (auto simp: linked_def intro!: by_deadline_cong)
  then show ?thesis
    using assms by (auto simp: links_def deadline_tree_def tree_nodes_def linked_def)
qed

lemma armed_cong:
  assumes "pl_timeo_list st' = pl_timeo_list st" "pl_timerfd st' = pl_timerfd st"
    "\<forall>m\<in>set (linked st xs). pn_timeout (pl_node st' m) = pn_timeout (pl_node st m)"
  shows "armed st' xs = armed st xs"
proof -
  have "\<forall>m\<in>set (pl_timeo_list st @ xs). pn_timeout (pl_node st' m) = pn_timeout (pl_node st m)"
    using assms(3) by (auto simp: linked_def)
  then show ?thesis unfolding armed_def assms(1,2) by (intro ball_cong refl) simp
qed

section \<open>A node leaves the structures\<close>

lemma by_deadline_remove: "by_deadline st xs \<Longrightarrow> by_deadline st (remove1 n xs)"
proof (induction xs)
  case (Cons x xs)
  then show ?case using notin_set_remove1 [of _ xs n] by (auto simp: by_deadline_def dest: notin_set_remove1)
qed (simp add: by_deadline_def)

lemma unlink_ok:
  assumes "links st xs" "n \<in> set (linked st xs)"
  shows "\<exists>st'. unlink_node n st = Some (Ret st') \<and> links st' (remove1 n xs)
    \<and> set (linked st' (remove1 n xs)) = set (linked st xs) - {n} \<and> frame n st st' \<and> \<not> pn_in_rbtree (pl_node st' n)
    \<and> (armed st xs \<longrightarrow> armed st' (remove1 n xs))"
proof (cases "pn_in_rbtree (pl_node st n)")
  case True
  have d: "distinct (linked st xs)" using assms(1) by (simp add: links_def)
  have n: "n \<in> set xs" "n \<notin> set (pl_timeo_list st)" "n \<notin> set (pl_no_timeo_list st)"
    using assms True by (auto simp: links_def linked_def)
  then obtain as bs where xs: "xs = as @ n # bs" by (meson split_list)
  have r: "remove1 n xs = as @ bs" using d xs by (auto simp: linked_def remove1_append)
  have "deadline_tree st (as @ n # bs)" using assms(1) xs by (simp add: links_def)
  from tree_erase_ok [OF this] obtain st' h f l where st': "tree_erase n st = Some (Ret st')" "deadline_tree st' (as @ bs)"
      "st' = (set_node n (\<lambda>nd. nd\<lparr>pn_in_rbtree := False\<rparr>) st)\<lparr>pl_timeo_tree := h, pl_tree_first := f, pl_tree_last := l\<rparr>"
    by blast
  have fr: "frame n st st'" using st'(3) by (auto simp: frame_def)
  have "by_deadline st' (pl_timeo_list st)"
    using assms(1) by_deadline_cong [of "pl_timeo_list st" st' st] frame_node(3) [OF fr] by (simp add: links_def)
  then have "links st' (as @ bs)"
    using st'(2,3) assms(1) n d xs by (auto simp: links_def linked_def)
  moreover have "set (linked st' (as @ bs)) = set (linked st xs) - {n}" using st'(3) n d xs by (auto simp: linked_def)
  moreover have "armed st xs \<longrightarrow> armed st' (as @ bs)" using st'(3) xs by (auto simp: armed_def)
  ultimately show ?thesis using st'(1,3) True fr r by (auto simp: unlink_node_def)
next
  case False
  let ?st = "st\<lparr>pl_timeo_list := remove1 n (pl_timeo_list st), pl_no_timeo_list := remove1 n (pl_no_timeo_list st)\<rparr>"
  have d: "distinct (linked st xs)" using assms(1) by (simp add: links_def)
  have n: "n \<notin> set xs" using assms(1) False by (auto simp: links_def)
  then have r: "remove1 n xs = xs" by (rule remove1_idem)
  have "deadline_tree ?st xs" using assms(1) by_deadline_cong [of xs ?st st] by (auto simp: links_def deadline_tree_def tree_nodes_def)
  moreover have "by_deadline ?st (remove1 n (pl_timeo_list st))"
    using assms(1) by_deadline_remove by_deadline_cong [of "remove1 n (pl_timeo_list st)" ?st st] by (simp add: links_def)
  moreover have "distinct (linked ?st xs)" using d by (auto simp: linked_def distinct_remove1 dest: notin_set_remove1)
  moreover have sub: "set (remove1 n (pl_timeo_list st)) \<subseteq> set (pl_timeo_list st)"
      "set (remove1 n (pl_no_timeo_list st)) \<subseteq> set (pl_no_timeo_list st)" by (rule set_remove1_subset)+
  ultimately have "links ?st xs" using assms(1) by (auto simp: links_def)
  moreover have "set (linked ?st xs) = set (linked st xs) - {n}" using d n by (auto simp: linked_def)
  moreover have "frame n st ?st" by (simp add: frame_def)
  moreover have "armed st xs \<longrightarrow> armed ?st xs" using sub by (auto simp: armed_def)
  ultimately show ?thesis using False r by (auto simp: unlink_node_def)
qed

section \<open>A node enters the structures\<close>

lemma set_timerfd_reads [simp]:
  "pl_timeo_tree (set_timerfd t st) = pl_timeo_tree st" "pl_tree_first (set_timerfd t st) = pl_tree_first st"
  "pl_tree_last (set_timerfd t st) = pl_tree_last st" "pl_timeo_list (set_timerfd t st) = pl_timeo_list st"
  "pl_no_timeo_list (set_timerfd t st) = pl_no_timeo_list st" "pl_node (set_timerfd t st) = pl_node st"
  "0 < tv_sec t \<Longrightarrow> pl_timerfd (set_timerfd t st) = Some t"
  by (simp_all add: set_timerfd_def)

lemma frame_set_timerfd: "frame n st st' \<Longrightarrow> frame n st (set_timerfd t st')"
  by (simp add: frame_def set_timerfd_def)

lemma links_set_timerfd: "links st xs \<Longrightarrow> links (set_timerfd t st) xs"
  by (subst links_cong [of _ st]) auto

lemma cmp_trans: "timeout_cmp st a b \<le> 0 \<Longrightarrow> timeout_cmp st b c \<le> 0 \<Longrightarrow> timeout_cmp st a c \<le> 0"
  unfolding timeout_cmp_def by (rule timespec_cmp_order(4))

lemma cmp_refl [simp]: "timeout_cmp st a a = 0"
  by (simp add: timeout_cmp_def timespec_cmp_order(1))

lemma cmp_flip: "0 \<le> timeout_cmp st a b \<longleftrightarrow> timeout_cmp st b a \<le> 0"
  unfolding timeout_cmp_def by (rule timespec_cmp_strict(3))

lemma by_deadline_first: "by_deadline st (x # ys) \<Longrightarrow> m \<in> set (x # ys) \<Longrightarrow> timeout_cmp st x m \<le> 0"
  by (auto simp: by_deadline_def)

text \<open>The timer is moved to the new node, or a node that is not later was there already.\<close>

lemma armed_new:
  assumes "0 < tv_sec (pn_timeout (pl_node st n))" "\<forall>m\<in>set (pl_timeo_list st @ xs). timeout_cmp st n m \<le> 0"
    "\<forall>m\<in>set (pl_timeo_list st @ xs). 0 < tv_sec (pn_timeout (pl_node st m))"
  shows "armed (set_timerfd (pn_timeout (pl_node st n)) st) xs"
  using assms by (auto simp: armed_def timeout_cmp_def)

lemma armed_old:
  assumes "armed st0 xs0" "pl_timerfd st = pl_timerfd st0" "\<forall>m. pn_timeout (pl_node st m) = pn_timeout (pl_node st0 m)"
    "set (pl_timeo_list st @ xs) = insert n (set (pl_timeo_list st0 @ xs0))" "0 < tv_sec (pn_timeout (pl_node st n))"
    "k \<in> set (pl_timeo_list st0 @ xs0)" "timeout_cmp st0 k n \<le> 0"
  shows "armed st xs"
  unfolding armed_def
proof
  fix m assume m: "m \<in> set (pl_timeo_list st @ xs)"
  obtain t where t: "pl_timerfd st = Some t" "timespec_cmp t (pn_timeout (pl_node st0 k)) \<le> 0"
    using assms(1,2,6) unfolding armed_def by metis
  show "0 < tv_sec (pn_timeout (pl_node st m)) \<and> (\<exists>t. pl_timerfd st = Some t \<and> timespec_cmp t (pn_timeout (pl_node st m)) \<le> 0)"
  proof (cases "m = n")
    case True
    then show ?thesis
      using t assms(3,5,7) timespec_cmp_order(4) [OF t(2)] by (auto simp: timeout_cmp_def)
  next
    case False
    then have "m \<in> set (pl_timeo_list st0 @ xs0)" using m assms(4) by auto
    then show ?thesis using assms(1-3) unfolding armed_def by metis
  qed
qed

definition entered :: "nat \<Rightarrow> poller \<Rightarrow> nat list \<Rightarrow> poller outcome option \<Rightarrow> bool" where
  "entered n st xs r \<longleftrightarrow> (\<exists>st' xs'. r = Some (Ret st') \<and> links st' xs' \<and> armed st' xs'
     \<and> set (linked st' xs') = insert n (set (linked st xs)) \<and> frame n st st')"

lemma insert_list_ok:
  assumes "links st xs" "n \<notin> set (linked st xs)" "\<not> pn_in_rbtree (pl_node st n)"
    "\<forall>m\<in>set (pl_timeo_list st). timeout_cmp st m n \<le> 0"
  shows "links (st\<lparr>pl_timeo_list := pl_timeo_list st @ [n]\<rparr>) xs"
proof -
  let ?st = "st\<lparr>pl_timeo_list := pl_timeo_list st @ [n]\<rparr>"
  have "by_deadline ?st xs = by_deadline st xs" by (rule by_deadline_cong) simp
  then have "deadline_tree ?st xs" using assms(1) by (auto simp: links_def deadline_tree_def tree_nodes_def)
  moreover have "by_deadline ?st (pl_timeo_list st @ [n]) = by_deadline st (pl_timeo_list st @ [n])" by (rule by_deadline_cong) simp
  then have "by_deadline ?st (pl_timeo_list st @ [n])"
    using assms(1,4) by (auto simp: links_def by_deadline_def sorted_wrt_append)
  ultimately show ?thesis using assms(1-3) by (auto simp: links_def linked_def)
qed

lemma links_first:
  assumes "links st xs" "m \<in> set xs"
  shows "\<exists>f. pl_tree_first st = Some f \<and> f \<in> set xs \<and> timeout_cmp st f m \<le> 0"
proof (cases xs)
  case (Cons f ys)
  then show ?thesis using assms by_deadline_first [of st f ys m] by (auto simp: links_def deadline_tree_def)
qed (use assms in simp)

lemma insert_empty_ok:
  assumes "links st xs" "armed st xs" "n \<notin> set (linked st xs)" "\<not> pn_in_rbtree (pl_node st n)"
    "0 < tv_sec (pn_timeout (pl_node st n))" "pl_timeo_list st = []"
  shows "entered n st xs (insert_node n st)"
proof -
  let ?st = "st\<lparr>pl_timeo_list := [n]\<rparr>"
  let ?c = "case pl_tree_first st of None \<Rightarrow> True | Some e \<Rightarrow> timeout_cmp st n e < 0"
  have l: "links ?st xs" using insert_list_ok [OF assms(1,3,4)] assms(6) by simp
  have fr: "frame n st ?st" by (simp add: frame_def)
  have s: "set (linked ?st xs) = insert n (set (linked st xs))" using assms(6) by (simp add: linked_def)
  show ?thesis
  proof (cases ?c)
    case True
    have "\<forall>m\<in>set xs. timeout_cmp st n m \<le> 0"
    proof
      fix m assume "m \<in> set xs"
      then obtain f where f: "pl_tree_first st = Some f" "timeout_cmp st f m \<le> 0" using links_first [OF assms(1)] by blast
      then have "timeout_cmp st n f \<le> 0" using True by simp
      then show "timeout_cmp st n m \<le> 0" using cmp_trans f(2) by blast
    qed
    moreover have "\<forall>m\<in>set xs. 0 < tv_sec (pn_timeout (pl_node st m))" using assms(2) by (simp add: armed_def)
    ultimately have "armed (set_timerfd (pn_timeout (pl_node st n)) ?st) xs"
      using armed_new [of ?st n xs] assms(5) by (simp add: timeout_cmp_def timespec_cmp_order(1))
    then show ?thesis
      unfolding entered_def insert_node_def
      using assms(6) True l fr s links_set_timerfd [OF l] frame_set_timerfd [OF fr]
      by (intro exI [of _ "set_timerfd (pn_timeout (pl_node st n)) ?st"] exI [of _ xs]) (simp add: linked_def)
  next
    case False
    then obtain f where f: "pl_tree_first st = Some f" "0 \<le> timeout_cmp st n f" by (auto split: option.splits)
    then have "f \<in> set xs" using assms(1) by (cases xs) (auto simp: links_def deadline_tree_def)
    then have "armed ?st xs"
      using armed_old [OF assms(2), of ?st xs n f] assms(5,6) f(2) by (simp add: cmp_flip)
    then show ?thesis
      unfolding entered_def insert_node_def using assms(6) False l fr s
      by (intro exI [of _ ?st] exI [of _ xs]) (simp add: Let_def)
  qed
qed

lemma insert_append_ok:
  assumes "links st xs" "armed st xs" "n \<notin> set (linked st xs)" "\<not> pn_in_rbtree (pl_node st n)"
    "0 < tv_sec (pn_timeout (pl_node st n))" "pl_timeo_list st \<noteq> []" "0 \<le> timeout_cmp st n (last (pl_timeo_list st))"
  shows "entered n st xs (insert_node n st)"
proof -
  let ?st = "st\<lparr>pl_timeo_list := pl_timeo_list st @ [n]\<rparr>"
  have "by_deadline st (pl_timeo_list st)" using assms(1) by (simp add: links_def)
  then have le: "timeout_cmp st m n \<le> 0" if "m \<in> set (pl_timeo_list st)" for m
    using sorted_before_last [of st "pl_timeo_list st" m] that assms(7) cmp_trans unfolding cmp_flip by blast
  then have l: "links ?st xs" using insert_list_ok [OF assms(1,3,4)] by blast
  have "armed ?st xs"
    using armed_old [OF assms(2), of ?st xs n "last (pl_timeo_list st)"] assms(5-7) by (auto simp: cmp_flip)
  then show ?thesis
    unfolding entered_def insert_node_def using assms(6,7) l
    by (intro exI [of _ ?st] exI [of _ xs]) (auto simp: linked_def frame_def)
qed

lemma insert_tree_ok:
  assumes "links st xs" "armed st xs" "n \<notin> set (linked st xs)" "0 < tv_sec (pn_timeout (pl_node st n))"
    "pl_timeo_list st \<noteq> []" "\<not> 0 \<le> timeout_cmp st n (last (pl_timeo_list st))"
  shows "entered n st xs (insert_node n st)"
proof -
  let ?ys = "insert_deadline st n xs"
  have dt: "deadline_tree st xs" "n \<notin> set xs" "by_deadline st xs" using assms(1,3) by (auto simp: links_def linked_def deadline_tree_def)
  obtain st1 h f l where st1: "tree_insert n st = Some (Ret st1)" "deadline_tree st1 ?ys"
      "st1 = (set_node n (\<lambda>nd. nd\<lparr>pn_in_rbtree := True\<rparr>) st)\<lparr>pl_timeo_tree := h, pl_tree_first := f, pl_tree_last := l\<rparr>"
    using tree_insert_ok [OF dt(1,2)] unfolding inserted_tree_def by blast
  have ys: "set ?ys = insert n (set xs)" "by_deadline st ?ys" using insert_deadline_sorted [OF dt(3)] by blast+
  have fr: "frame n st st1" using st1(3) by (auto simp: frame_def)
  have cmp: "timeout_cmp st1 a b = timeout_cmp st a b" for a b by (simp add: timeout_cmp_def frame_node(3) [OF fr])
  have li: "pl_timeo_list st1 = pl_timeo_list st" "pl_no_timeo_list st1 = pl_no_timeo_list st" "pl_timerfd st1 = pl_timerfd st"
    using st1(3) by simp_all
  have "by_deadline st1 (pl_timeo_list st)"
    using assms(1) by_deadline_cong [of "pl_timeo_list st" st1 st] frame_node(3) [OF fr] by (simp add: links_def)
  moreover have "distinct (linked st1 ?ys)"
    using assms(1,3) deadline_tree_distinct [OF st1(2)] li ys(1) by (auto simp: links_def linked_def)
  ultimately have lk: "links st1 ?ys"
    using st1(2,3) assms(1,3) li ys(1) by (auto simp: links_def linked_def)
  have s: "set (linked st1 ?ys) = insert n (set (linked st xs))" using li ys(1) by (auto simp: linked_def)
  obtain e es where e: "pl_timeo_list st = e # es" using assms(5) by (cases "pl_timeo_list st") auto
  show ?thesis
  proof (cases "pl_tree_first st1 = Some n \<and> timeout_cmp st1 n (hd (pl_timeo_list st1)) < 0")
    case True
    have "\<forall>m\<in>set (pl_timeo_list st1 @ ?ys). timeout_cmp st1 n m \<le> 0"
    proof
      fix m assume "m \<in> set (pl_timeo_list st1 @ ?ys)"
      then consider "m \<in> set (pl_timeo_list st1)" | "m \<in> set ?ys" by auto
      then show "timeout_cmp st1 n m \<le> 0"
      proof cases
        case 1
        have "by_deadline st1 (e # es)" using lk e li by (simp add: links_def)
        then have "timeout_cmp st1 e m \<le> 0" using by_deadline_first 1 e li by simp
        moreover have "timeout_cmp st1 n e \<le> 0" using True e li by simp
        ultimately show ?thesis using cmp_trans by blast
      next
        case 2
        then obtain f where "pl_tree_first st1 = Some f" "timeout_cmp st1 f m \<le> 0" using links_first [OF lk] by blast
        then show ?thesis using True by simp
      qed
    qed
    moreover have "\<forall>m\<in>set (pl_timeo_list st1 @ ?ys). 0 < tv_sec (pn_timeout (pl_node st1 m))"
      using assms(2,4) li ys(1) frame_node(3) [OF fr] by (auto simp: armed_def)
    ultimately have "armed (set_timerfd (pn_timeout (pl_node st1 n)) st1) ?ys"
      using assms(4) frame_node(3) [OF fr] by (intro armed_new) auto
    moreover have "insert_node n st = Some (Ret (set_timerfd (pn_timeout (pl_node st1 n)) st1))"
      using assms(5,6) st1(1) True by (simp add: insert_node_def)
    ultimately show ?thesis
      unfolding entered_def using links_set_timerfd [OF lk] s frame_set_timerfd [OF fr] by (auto simp: linked_def)
  next
    case False
    have run: "insert_node n st = Some (Ret st1)" using assms(5,6) st1(1) False by (auto simp: insert_node_def)
    have mem: "set (pl_timeo_list st1 @ ?ys) = insert n (set (pl_timeo_list st @ xs))" using li ys(1) by auto
    have "\<exists>k\<in>set (pl_timeo_list st @ xs). timeout_cmp st k n \<le> 0"
    proof (cases "pl_tree_first st1 = Some n")
      case True
      then have "0 \<le> timeout_cmp st1 n e" using False e li by auto
      then show ?thesis using e cmp by (auto simp: cmp_flip)
    next
      case False
      obtain f where f: "pl_tree_first st1 = Some f" "f \<in> set ?ys" "timeout_cmp st1 f n \<le> 0"
        using links_first [OF lk, of n] ys(1) by auto
      then show ?thesis using False ys(1) cmp by auto
    qed
    then obtain k where "k \<in> set (pl_timeo_list st @ xs)" "timeout_cmp st k n \<le> 0" by blast
    then have "armed st1 ?ys"
      using armed_old [OF assms(2) li(3) _ mem] assms(4) frame_node(3) [OF fr] by simp
    then show ?thesis unfolding entered_def using run lk s fr by blast
  qed
qed

lemma enter_ok:
  assumes "links st xs" "armed st xs" "n \<notin> set (linked st xs)" "\<not> pn_in_rbtree (pl_node st n)"
    "0 \<le> timeout \<Longrightarrow> 0 < tv_sec (pn_timeout (pl_node st n))"
  shows "entered n st xs (enter_node n timeout st)"
proof (cases "0 \<le> timeout")
  case True
  then show ?thesis
    using insert_empty_ok [OF assms(1-4)] insert_append_ok [OF assms(1-4)] insert_tree_ok [OF assms(1-3)] assms(5)
    by (simp add: enter_node_def) blast
next
  case False
  let ?st = "st\<lparr>pl_no_timeo_list := pl_no_timeo_list st @ [n]\<rparr>"
  have "by_deadline ?st xs = by_deadline st xs" "by_deadline ?st (pl_timeo_list st) = by_deadline st (pl_timeo_list st)"
    by (rule by_deadline_cong; simp)+
  then have "links ?st xs" using assms(1,3,4) by (auto simp: links_def linked_def deadline_tree_def tree_nodes_def)
  moreover have "armed ?st xs" using assms(2) by (simp add: armed_def)
  ultimately show ?thesis
    using False unfolding entered_def enter_node_def by (intro exI [of _ ?st] exI [of _ xs]) (auto simp: linked_def frame_def)
qed

end
