(* ===== verification/PollerOps.thy ===== *)
theory PollerOps
  imports PollerInv
begin

text \<open>
  Every operation of the interface and every step of the poller's thread keeps the invariant, follows
  no null pointer and returns.
\<close>

section \<open>Changes of owner\<close>

definition unknown :: "poller \<Rightarrow> nat set \<Rightarrow> nat \<Rightarrow> bool" where
  "unknown st A n \<longleftrightarrow> n \<notin> A \<and> n \<notin> set (piped st) \<and> n \<notin> set (delivered st)"

lemma owners_fd: "owners st A \<Longrightarrow> n \<in> A \<Longrightarrow> 0 \<le> pn_fd (pl_node st n) \<Longrightarrow> pl_nodes st (pn_fd (pl_node st n)) = Some n"
  by (simp add: owners_def)

lemma ownersI:
  assumes "distinct (piped st @ delivered st)" "A \<inter> (set (piped st) \<union> set (delivered st)) = {}"
    "\<And>n. n \<in> A \<Longrightarrow> \<not> pn_removed (pl_node st n)" "\<And>n. n \<in> set (piped st) \<Longrightarrow> pn_removed (pl_node st n)"
    "\<And>fd n. pl_nodes st fd = Some n \<longleftrightarrow> n \<in> A \<and> pn_fd (pl_node st n) = fd \<and> 0 \<le> fd" "pl_epoll st = pl_nodes st"
  shows "owners st A"
  using assms unfolding owners_def by blast

lemma ownersD:
  assumes "owners st A"
  shows "distinct (piped st @ delivered st)" "A \<inter> (set (piped st) \<union> set (delivered st)) = {}"
    "n \<in> A \<Longrightarrow> \<not> pn_removed (pl_node st n)" "n \<in> set (piped st) \<Longrightarrow> pn_removed (pl_node st n)"
    "pl_nodes st fd = Some n \<longleftrightarrow> n \<in> A \<and> pn_fd (pl_node st n) = fd \<and> 0 \<le> fd" "pl_epoll st = pl_nodes st"
  using assms unfolding owners_def by blast+

lemma owners_enter:
  assumes "owners st A" "unknown st A n" "pl_pipe st' = pl_pipe st" "pl_calls st' = pl_calls st"
    "\<forall>m. m \<noteq> n \<longrightarrow> pn_fd (pl_node st' m) = pn_fd (pl_node st m) \<and> pn_removed (pl_node st' m) = pn_removed (pl_node st m)"
    "\<not> pn_removed (pl_node st' n)" "pl_epoll st' = pl_nodes st'"
    "\<And>f m. pl_nodes st' f = Some m \<longleftrightarrow> m \<in> insert n A \<and> pn_fd (pl_node st' m) = f \<and> 0 \<le> f"
  shows "owners st' (insert n A)"
proof (rule ownersI)
  have pd: "piped st' = piped st" "delivered st' = delivered st" using assms(3,4) by (simp_all add: piped_def delivered_def)
  note o = ownersD [OF assms(1)]
  show "distinct (piped st' @ delivered st')" using o(1) pd by simp
  show "insert n A \<inter> (set (piped st') \<union> set (delivered st')) = {}" using o(2) assms(2) pd by (simp add: unknown_def)
  show "\<not> pn_removed (pl_node st' m)" if "m \<in> insert n A" for m using that assms(5,6) o(3) by (cases "m = n") auto
  show "pn_removed (pl_node st' m)" if "m \<in> set (piped st')" for m
    using that assms(2,5) o(4) pd by (cases "m = n") (auto simp: unknown_def)
  show "pl_nodes st' f = Some m \<longleftrightarrow> m \<in> insert n A \<and> pn_fd (pl_node st' m) = f \<and> 0 \<le> f" for f m by (rule assms(8))
  show "pl_epoll st' = pl_nodes st'" by (rule assms(7))
qed

lemma owners_insert:
  assumes "owners st A" "unknown st A n" "pl_nodes st fd = None" "0 \<le> fd"
    "pl_pipe st' = pl_pipe st" "pl_calls st' = pl_calls st" "pl_nodes st' = (pl_nodes st)(fd := Some n)" "pl_epoll st' = pl_nodes st'"
    "\<forall>m. m \<noteq> n \<longrightarrow> pn_fd (pl_node st' m) = pn_fd (pl_node st m) \<and> pn_removed (pl_node st' m) = pn_removed (pl_node st m)"
    "pn_fd (pl_node st' n) = fd" "\<not> pn_removed (pl_node st' n)"
  shows "owners st' (insert n A)"
proof (rule owners_enter [OF assms(1,2,5,6,9,11,8)])
  show "pl_nodes st' f = Some m \<longleftrightarrow> m \<in> insert n A \<and> pn_fd (pl_node st' m) = f \<and> 0 \<le> f" for f m
    using assms(2-4,7,9,10) ownersD(5) [OF assms(1), of f m] by (cases "m = n") (auto simp: unknown_def)
qed

lemma owners_timer:
  assumes "owners st A" "unknown st A n" "pl_pipe st' = pl_pipe st" "pl_calls st' = pl_calls st" "pl_nodes st' = pl_nodes st"
    "pl_epoll st' = pl_epoll st"
    "\<forall>m. m \<noteq> n \<longrightarrow> pn_fd (pl_node st' m) = pn_fd (pl_node st m) \<and> pn_removed (pl_node st' m) = pn_removed (pl_node st m)"
    "pn_fd (pl_node st' n) < 0" "\<not> pn_removed (pl_node st' n)"
  shows "owners st' (insert n A)"
proof (rule owners_enter [OF assms(1-4,7,9)])
  show "pl_epoll st' = pl_nodes st'" using ownersD(6) [OF assms(1)] assms(5,6) by simp
  show "pl_nodes st' f = Some m \<longleftrightarrow> m \<in> insert n A \<and> pn_fd (pl_node st' m) = f \<and> 0 \<le> f" for f m
    using assms(2,5,7,8) ownersD(5) [OF assms(1), of f m] by (cases "m = n") (auto simp: unknown_def)
qed

text \<open>A node that leaves the table belongs to the operation.\<close>

lemma owners_forget:
  assumes "owners st A" "n \<in> A" "pl_pipe st' = pl_pipe st" "pl_calls st' = pl_calls st"
    "pl_nodes st' = (if 0 \<le> pn_fd (pl_node st n) then (pl_nodes st)(pn_fd (pl_node st n) := None) else pl_nodes st)"
    "pl_epoll st' = pl_nodes st'"
    "\<forall>m. pn_fd (pl_node st' m) = pn_fd (pl_node st m) \<and> pn_removed (pl_node st' m) = pn_removed (pl_node st m)"
  shows "owners st' (A - {n})" "unknown st' (A - {n}) n"
proof -
  have pd: "piped st' = piped st" "delivered st' = delivered st" using assms(3,4) by (simp_all add: piped_def delivered_def)
  note o = ownersD [OF assms(1)]
  have mine: "0 \<le> pn_fd (pl_node st n) \<Longrightarrow> pl_nodes st (pn_fd (pl_node st n)) = Some n" by (rule owners_fd [OF assms(1,2)])
  show "owners st' (A - {n})"
  proof (rule ownersI)
    show "distinct (piped st' @ delivered st')" using o(1) pd by simp
    show "(A - {n}) \<inter> (set (piped st') \<union> set (delivered st')) = {}" using o(2) pd by auto
    show "\<not> pn_removed (pl_node st' m)" if "m \<in> A - {n}" for m using that assms(7) o(3) by auto
    show "pn_removed (pl_node st' m)" if "m \<in> set (piped st')" for m using that assms(7) o(4) pd by auto
    show "pl_nodes st' f = Some m \<longleftrightarrow> m \<in> A - {n} \<and> pn_fd (pl_node st' m) = f \<and> 0 \<le> f" for f m
    proof (cases "0 \<le> pn_fd (pl_node st n) \<and> f = pn_fd (pl_node st n)")
      case True
      then have "pl_nodes st f = Some n" using mine by simp
      then show ?thesis using True assms(5,7) o(5) [of f m] by auto
    next
      case False
      then have "pl_nodes st' f = pl_nodes st f" using assms(5) by auto
      then show ?thesis using False assms(7) o(5) [of f m] by auto
    qed
    show "pl_epoll st' = pl_nodes st'" by (rule assms(6))
  qed
  show "unknown st' (A - {n}) n" using o(2) assms(2) pd by (auto simp: unknown_def)
qed

lemma owners_pipe:
  assumes "owners st A" "unknown st A n"
    "pl_pipe st' = pl_pipe st @ [Some n]" "pl_calls st' = pl_calls st" "pl_nodes st' = pl_nodes st" "pl_epoll st' = pl_epoll st"
    "\<forall>m. pn_fd (pl_node st' m) = pn_fd (pl_node st m) \<and> (m \<noteq> n \<longrightarrow> pn_removed (pl_node st' m) = pn_removed (pl_node st m))"
    "pn_removed (pl_node st' n)"
  shows "owners st' A" "piped st' = piped st @ [n]" "delivered st' = delivered st"
proof -
  show pd: "piped st' = piped st @ [n]" "delivered st' = delivered st"
    using assms(3,4) by (simp_all add: piped_def delivered_def List.map_filter_def)
  show "owners st' A"
    using assms(1,2,5-8) pd unfolding owners_def unknown_def by auto
qed

lemma owners_deliver:
  assumes "owners st A" "unknown st A n"
    "pl_pipe st' = pl_pipe st" "pl_calls st' = pl_calls st @ [(n, x)]" "pl_nodes st' = pl_nodes st" "pl_epoll st' = pl_epoll st"
    "\<forall>m. pn_fd (pl_node st' m) = pn_fd (pl_node st m) \<and> pn_removed (pl_node st' m) = pn_removed (pl_node st m)"
  shows "owners st' A" "piped st' = piped st" "delivered st' = delivered st @ [n]"
proof -
  show pd: "piped st' = piped st" "delivered st' = delivered st @ [n]"
    using assms(3,4) by (simp_all add: piped_def delivered_def)
  show "owners st' A" using assms(1,2,5-7) pd unfolding owners_def unknown_def by auto
qed

section \<open>Retiring a node\<close>

text \<open>The node goes to the pipe, or to the user when the poller is stopped.\<close>

definition passed :: "nat \<Rightarrow> poller \<Rightarrow> poller \<Rightarrow> bool" where
  "passed n st st' \<longleftrightarrow>
     (if pl_stopped st then piped st' = piped st \<and> delivered st' = delivered st @ [n]
      else piped st' = piped st @ [n] \<and> delivered st' = delivered st)"

text \<open>What every operation keeps: the thread, its pipe and the descriptors of the other nodes.\<close>

definition kept :: "nat set \<Rightarrow> poller \<Rightarrow> poller \<Rightarrow> bool" where
  "kept N st st' \<longleftrightarrow> pl_stopped st' = pl_stopped st \<and> pl_max_open_files st' = pl_max_open_files st
     \<and> pl_pipe_rd st' = pl_pipe_rd st \<and> pl_pipe_wr st' = pl_pipe_wr st
     \<and> (\<forall>m. m \<notin> N \<longrightarrow> pn_fd (pl_node st' m) = pn_fd (pl_node st m))"

lemma kept_refl [simp]: "kept N st st"
  by (simp add: kept_def)

lemma kept_trans: "kept N st st1 \<Longrightarrow> kept N st1 st2 \<Longrightarrow> kept N st st2"
  by (simp add: kept_def)

lemma kept_mono: "kept N st st' \<Longrightarrow> N \<subseteq> M \<Longrightarrow> kept M st st'"
  unfolding kept_def by blast

lemma kept_frame: "frame n st st' \<Longrightarrow> kept N st st'"
  by (simp add: kept_def frame_node frame_rest)

lemma callback_reads [simp]:
  "pl_timeo_tree (callback n st) = pl_timeo_tree st" "pl_tree_first (callback n st) = pl_tree_first st"
  "pl_tree_last (callback n st) = pl_tree_last st" "pl_timeo_list (callback n st) = pl_timeo_list st"
  "pl_no_timeo_list (callback n st) = pl_no_timeo_list st" "pl_nodes (callback n st) = pl_nodes st"
  "pl_timerfd (callback n st) = pl_timerfd st" "pl_epoll (callback n st) = pl_epoll st" "pl_pipe (callback n st) = pl_pipe st"
  "pl_node (callback n st) = pl_node st" "pl_max_open_files (callback n st) = pl_max_open_files st"
  "pl_stopped (callback n st) = pl_stopped st" "pl_pipe_rd (callback n st) = pl_pipe_rd st" "pl_pipe_wr (callback n st) = pl_pipe_wr st"
  by (simp_all add: callback_def)

lemma retire_ok:
  assumes "owners st A" "unknown st A n"
  shows "owners (retire_node n s st) A" "passed n st (retire_node n s st)"
proof -
  consider "pl_stopped st" | "\<not> pl_stopped st" by blast
  then have "owners (retire_node n s st) A \<and> passed n st (retire_node n s st)"
  proof cases
    case 1
    let ?st = "callback n (set_state n s None st)"
    have e: "retire_node n s st = ?st" using 1 by (simp add: retire_node_def)
    show ?thesis
      unfolding e passed_def using 1 owners_deliver [OF assms, of ?st "(s, None)"]
      by (simp add: set_state_def) (simp add: callback_def set_node_def)
  next
    case 2
    let ?st = "(set_node n (\<lambda>nd. nd\<lparr>pn_removed := True\<rparr>) (set_state n s None st))\<lparr>pl_pipe := pl_pipe st @ [Some n]\<rparr>"
    have e: "retire_node n s st = ?st" using 2 by (simp add: retire_node_def set_state_def)
    show ?thesis
      unfolding e passed_def using 2 owners_pipe [OF assms, of ?st] by (simp add: set_state_def)
  qed
  then show "owners (retire_node n s st) A" "passed n st (retire_node n s st)" by blast+
qed

lemma retire_reads [simp]:
  "pl_timeo_tree (retire_node n s st) = pl_timeo_tree st" "pl_tree_first (retire_node n s st) = pl_tree_first st"
  "pl_tree_last (retire_node n s st) = pl_tree_last st" "pl_timeo_list (retire_node n s st) = pl_timeo_list st"
  "pl_no_timeo_list (retire_node n s st) = pl_no_timeo_list st" "pl_nodes (retire_node n s st) = pl_nodes st"
  "pl_timerfd (retire_node n s st) = pl_timerfd st" "pl_epoll (retire_node n s st) = pl_epoll st"
  "pn_timeout (pl_node (retire_node n s st) m) = pn_timeout (pl_node st m)"
  "pn_in_rbtree (pl_node (retire_node n s st) m) = pn_in_rbtree (pl_node st m)"
  "pn_fd (pl_node (retire_node n s st) m) = pn_fd (pl_node st m)"
  "m \<noteq> n \<Longrightarrow> pl_node (retire_node n s st) m = pl_node st m"
  "pl_max_open_files (retire_node n s st) = pl_max_open_files st" "pl_stopped (retire_node n s st) = pl_stopped st"
  "pl_pipe_rd (retire_node n s st) = pl_pipe_rd st" "pl_pipe_wr (retire_node n s st) = pl_pipe_wr st"
  by (auto simp: retire_node_def Let_def set_state_def)

section \<open>The interface\<close>

definition valid :: "poller \<Rightarrow> nat set \<Rightarrow> bool" where
  "valid st A \<longleftrightarrow> poller_inv st A \<and> pl_max_open_files st \<le> 2 ^ 63"

lemma good_fd:
  assumes "bad_fd fd st = None" "pl_max_open_files st \<le> 2 ^ 63" "- (2 ^ 31) \<le> fd" "fd < 2 ^ 31"
  shows "0 \<le> fd"
proof (rule ccontr)
  assume "\<not> 0 \<le> fd"
  then have "(fd + 2 ^ 64) mod 2 ^ 64 = fd + 2 ^ 64" using assms(3) by (intro mod_pos_pos_trivial) auto
  then have "fd mod 2 ^ 64 = fd + 2 ^ 64" by simp
  moreover have "fd mod 2 ^ 64 < int (pl_max_open_files st)" using assms(1) by (simp add: bad_fd_def split: if_splits)
  ultimately show False using assms(2,3) by simp
qed

definition is_int :: "int \<Rightarrow> bool" where
  "is_int x \<longleftrightarrow> - (2 ^ 31) \<le> x \<and> x < 2 ^ 31"

definition clock_ok :: "timespec \<Rightarrow> bool" where
  "clock_ok t \<longleftrightarrow> 0 < tv_sec t \<and> 0 \<le> tv_nsec t"

lemma add_millis_pos: "clock_ok now \<Longrightarrow> 0 \<le> timeout \<Longrightarrow> 0 < tv_sec (add_millis timeout now)"
  by (auto simp: clock_ok_def add_millis_def Let_def intro: add_pos_nonneg)

lemma validE:
  assumes "valid st A"
  obtains xs where "links st xs" "armed st xs" "A = set (linked st xs)" "owners st A" "pl_max_open_files st \<le> 2 ^ 63"
  using assms by (auto simp: valid_def poller_inv_def)

lemma validI:
  "links st xs \<Longrightarrow> armed st xs \<Longrightarrow> A = set (linked st xs) \<Longrightarrow> owners st A \<Longrightarrow> pl_max_open_files st \<le> 2 ^ 63 \<Longrightarrow> valid st A"
  by (auto simp: valid_def poller_inv_def)

text \<open>A node of the table gets unlinked.\<close>

lemma entered_E:
  assumes "entered n st xs r"
  obtains st' xs' where "r = Some (Ret st')" "links st' xs'" "armed st' xs'" "set (linked st' xs') = insert n (set (linked st xs))"
    "frame n st st'"
  using assms unfolding entered_def by blast

lemma poller_add_ok:
  assumes "valid st A" "is_int fd" "clock_ok now" "\<And>n. node = Some n \<Longrightarrow> unknown st A n"
  shows "\<exists>ret e st'. poller_add fd op msg timeout now ares node ctl st = Some (Ret (ret, e, st'))
    \<and> (ret = -1 \<and> st' = st \<or> ret = 0 \<and> (\<exists>n. node = Some n \<and> valid st' (insert n A)
         \<and> piped st' = piped st \<and> delivered st' = delivered st \<and> kept {n} st st'
         \<and> pl_nodes st fd = None \<and> pl_nodes st' = (pl_nodes st)(fd := Some n)))"
proof -
  obtain xs where v: "links st xs" "armed st xs" "A = set (linked st xs)" "owners st A" "pl_max_open_files st \<le> 2 ^ 63"
    using assms(1) by (rule validE)
  show ?thesis
  proof (cases "\<exists>n event need. bad_fd fd st = None \<and> data_get_event op msg = Some (event, need) \<and> (need \<longrightarrow> ares)
      \<and> node = Some n \<and> pl_nodes st fd = None \<and> ctl")
    case False
    then show ?thesis by (auto simp: poller_add_def split: option.splits)
  next
    case True
    then obtain n event need where c: "bad_fd fd st = None" "data_get_event op msg = Some (event, need)" "need \<longrightarrow> ares"
        "node = Some n" "pl_nodes st fd = None" ctl by blast
    have fd: "0 \<le> fd" using good_fd [OF c(1) v(5)] assms(2) by (simp add: is_int_def)
    have u: "unknown st A n" using assms(4) c(4) by blast
    then have nl: "n \<notin> set (linked st xs)" using v(3) by (simp add: unknown_def)
    let ?st1 = "(set_node n (new_node fd op event need timeout now) st)\<lparr>pl_epoll := (pl_epoll st)(fd := Some n)\<rparr>"
    have same: "\<forall>m\<in>set (linked st xs). pl_node ?st1 m = pl_node st m" using nl by auto
    have l1: "links ?st1 xs" using v(1) same by (subst links_cong [of _ st]) auto
    have a1: "armed ?st1 xs" using v(2) same by (subst armed_cong [of _ st]) auto
    have "entered n ?st1 xs (enter_node n timeout ?st1)"
      using nl add_millis_pos [OF assms(3)] by (intro enter_ok l1 a1) (auto simp: linked_def new_node_def)
    then obtain st2 xs2 where st2: "enter_node n timeout ?st1 = Some (Ret st2)" "links st2 xs2" "armed st2 xs2"
        "set (linked st2 xs2) = insert n (set (linked ?st1 xs))" "frame n ?st1 st2" by (rule entered_E)
    let ?st3 = "st2\<lparr>pl_nodes := (pl_nodes st2)(fd := Some n)\<rparr>"
    have run: "poller_add fd op msg timeout now ares node ctl st = Some (Ret (0, None, ?st3))"
      using c st2(1) by (simp add: poller_add_def Let_def)
    have "owners ?st3 (insert n A)"
      using v(4) u c(5) fd
      by (rule owners_insert) (use frame_rest [OF st2(5)] frame_node [OF st2(5)] v(4) in \<open>auto simp: new_node_def owners_def\<close>)
    moreover have "links ?st3 xs2" using st2(2) by (subst links_cong [of _ st2]) auto
    moreover have "armed ?st3 xs2" using st2(3) by (simp add: armed_def)
    moreover have "insert n A = set (linked ?st3 xs2)" using st2(4) v(3) by (simp add: linked_def)
    moreover have "pl_max_open_files ?st3 \<le> 2 ^ 63" using frame_rest [OF st2(5)] v(5) by simp
    ultimately have "valid ?st3 (insert n A)" by (intro validI)
    moreover have "piped ?st3 = piped st" "delivered ?st3 = delivered st"
      using frame_rest [OF st2(5)] by (simp_all add: piped_def delivered_def)
    moreover have "kept {n} st ?st3"
      using frame_rest [OF st2(5)] frame_node(1) [OF st2(5)] by (simp add: kept_def)
    moreover have "pl_nodes ?st3 = (pl_nodes st)(fd := Some n)" using frame_rest [OF st2(5)] by simp
    ultimately show ?thesis using run c(4,5) by blast
  qed
qed

end
