(* ===== verification/PollerSteps.thy ===== *)
theory PollerSteps
  imports PollerOps
begin

text \<open>
  The operations that take nodes out of the poller: removal, modification, a new timeout, the end of
  a handler, the pipe and the expiry of deadlines. Each keeps the invariant and says where its nodes go.
\<close>

section \<open>Removing and retiring\<close>

lemma is_registered:
  assumes "owners st A" "pl_nodes st fd = Some n"
  shows "n \<in> A" "pn_fd (pl_node st n) = fd" "0 \<le> fd"
  using ownersD(5) [OF assms(1), of fd n] assms(2) by auto

text \<open>A registered node leaves its structure, the table and the kernel.\<close>

lemma take_out_ok:
  assumes "valid st A" "pl_nodes st fd = Some n"
  shows "\<exists>st1. unlink_node n (st\<lparr>pl_nodes := (pl_nodes st)(fd := None)\<rparr>) = Some (Ret st1)
    \<and> valid (st1\<lparr>pl_epoll := (pl_epoll st1)(fd := None)\<rparr>) (A - {n})
    \<and> unknown (st1\<lparr>pl_epoll := (pl_epoll st1)(fd := None)\<rparr>) (A - {n}) n
    \<and> pl_epoll st1 = pl_epoll st \<and> piped st1 = piped st \<and> delivered st1 = delivered st \<and> kept {} st st1 \<and> pl_calls st1 = pl_calls st
    \<and> (\<forall>m. pn_removed (pl_node st1 m) = pn_removed (pl_node st m))"
proof -
  obtain xs where v: "links st xs" "armed st xs" "A = set (linked st xs)" "owners st A" "pl_max_open_files st \<le> 2 ^ 63"
    using assms(1) by (rule validE)
  note r = is_registered [OF v(4) assms(2)]
  let ?st = "st\<lparr>pl_nodes := (pl_nodes st)(fd := None)\<rparr>"
  have "links ?st xs" using v(1) by (subst links_cong [of _ st]) auto
  moreover have "n \<in> set (linked ?st xs)" using r(1) v(3) by (simp add: linked_def)
  ultimately obtain st1 where st1: "unlink_node n ?st = Some (Ret st1)" "links st1 (remove1 n xs)"
      "set (linked st1 (remove1 n xs)) = set (linked ?st xs) - {n}" "frame n ?st st1"
      "armed ?st xs \<longrightarrow> armed st1 (remove1 n xs)"
    using unlink_ok by blast
  note f = frame_rest [OF st1(4)] frame_node [OF st1(4)]
  let ?st2 = "st1\<lparr>pl_epoll := (pl_epoll st1)(fd := None)\<rparr>"
  have "owners ?st2 (A - {n})" "unknown ?st2 (A - {n}) n"
    using owners_forget [OF v(4) r(1), of ?st2] f r ownersD(6) [OF v(4)] by auto
  moreover have "links ?st2 (remove1 n xs)" using st1(2) by (subst links_cong [of _ st1]) auto
  moreover have "armed ?st2 (remove1 n xs)" using st1(5) v(2) by (simp add: armed_def)
  moreover have "A - {n} = set (linked ?st2 (remove1 n xs))" using st1(3) v(3) by (simp add: linked_def)
  moreover have "pl_max_open_files ?st2 \<le> 2 ^ 63" using f v(5) by simp
  ultimately have "valid ?st2 (A - {n})" "unknown ?st2 (A - {n}) n" by (auto intro: validI)
  moreover have "pl_epoll st1 = pl_epoll st" "piped st1 = piped st" "delivered st1 = delivered st"
    using f by (simp_all add: piped_def delivered_def)
  moreover have "kept {} st st1" "pl_calls st1 = pl_calls st" "\<forall>m. pn_removed (pl_node st1 m) = pn_removed (pl_node st m)" using f by (simp_all add: kept_def)
  ultimately show ?thesis using st1(1) by blast
qed

lemma retire_valid:
  assumes "valid st A" "unknown st A n"
  shows "valid (retire_node n s st) A" "passed n st (retire_node n s st)"
proof -
  obtain xs where v: "links st xs" "armed st xs" "A = set (linked st xs)" "owners st A" "pl_max_open_files st \<le> 2 ^ 63"
    using assms(1) by (rule validE)
  have "links (retire_node n s st) xs" using v(1) by (subst links_cong [of _ st]) auto
  moreover have "armed (retire_node n s st) xs" using v(2) by (subst armed_cong [of _ st]) auto
  moreover have "A = set (linked (retire_node n s st) xs)" using v(3) by (simp add: linked_def)
  ultimately show "valid (retire_node n s st) A" using retire_ok(1) [OF v(4) assms(2)] v(5) by (intro validI) auto
  show "passed n st (retire_node n s st)" by (rule retire_ok(2) [OF v(4) assms(2)])
qed

lemma poller_del_ok:
  assumes "valid st A"
  shows "\<exists>ret e st'. poller_del fd st = Some (Ret (ret, e, st'))
    \<and> (ret = -1 \<and> e \<noteq> None \<and> st' = st \<or> ret = 0 \<and> (\<exists>n. pl_nodes st fd = Some n \<and> n \<in> A \<and> valid st' (A - {n}) \<and> passed n st st' \<and> kept {} st st'))"
proof (cases "bad_fd fd st = None \<and> pl_nodes st fd \<noteq> None")
  case False
  then show ?thesis by (auto simp: poller_del_def split: option.splits)
next
  case True
  then obtain n where n: "bad_fd fd st = None" "pl_nodes st fd = Some n" by auto
  have "n \<in> A" using assms is_registered(1) [OF _ n(2)] by (auto elim: validE)
  obtain st1 where st1: "unlink_node n (st\<lparr>pl_nodes := (pl_nodes st)(fd := None)\<rparr>) = Some (Ret st1)"
      "valid (st1\<lparr>pl_epoll := (pl_epoll st1)(fd := None)\<rparr>) (A - {n})"
      "unknown (st1\<lparr>pl_epoll := (pl_epoll st1)(fd := None)\<rparr>) (A - {n}) n" "piped st1 = piped st" "delivered st1 = delivered st" "kept {} st st1"
    using take_out_ok [OF assms n(2)] by blast
  note r = retire_valid [OF st1(2,3), of PR_ST_DELETED]
  let ?st' = "retire_node n PR_ST_DELETED (st1\<lparr>pl_epoll := (pl_epoll st1)(fd := None)\<rparr>)"
  have "passed n st ?st'" using r(2) st1(4-6) by (simp add: passed_def kept_def) (simp add: piped_def delivered_def)
  moreover have "kept {} st ?st'" using st1(6) by (simp add: kept_def)
  moreover have "poller_del fd st = Some (Ret (0, None, ?st'))" using n st1(1) by (simp add: poller_del_def)
  ultimately show ?thesis using n(2) r(1) \<open>n \<in> A\<close> by blast
qed

section \<open>Modifying\<close>

lemma owners_replace:
  assumes "owners st A" "pl_nodes st fd = Some old" "unknown st A n" "passed old st st'"
    "pl_nodes st' = (pl_nodes st)(fd := Some n)" "pl_epoll st' = pl_nodes st'"
    "\<forall>m. m \<noteq> n \<longrightarrow> pn_fd (pl_node st' m) = pn_fd (pl_node st m)"
    "\<forall>m. m \<noteq> n \<longrightarrow> m \<noteq> old \<longrightarrow> pn_removed (pl_node st' m) = pn_removed (pl_node st m)"
    "pn_fd (pl_node st' n) = fd" "\<not> pn_removed (pl_node st' n)" "old \<in> set (piped st') \<longrightarrow> pn_removed (pl_node st' old)"
  shows "owners st' (insert n (A - {old}))"
proof (rule ownersI)
  note o = ownersD [OF assms(1)] and r = is_registered [OF assms(1,2)]
  have ne: "old \<noteq> n" using r(1) assms(3) by (auto simp: unknown_def)
  have s: "set (piped st') \<union> set (delivered st') = insert old (set (piped st) \<union> set (delivered st))"
    using assms(4) by (auto simp: passed_def split: if_splits)
  show "distinct (piped st' @ delivered st')" using o(1,2) r(1) assms(4) by (auto simp: passed_def split: if_splits)
  show "insert n (A - {old}) \<inter> (set (piped st') \<union> set (delivered st')) = {}" using s o(2) assms(3) ne by (auto simp: unknown_def)
  show "\<not> pn_removed (pl_node st' m)" if "m \<in> insert n (A - {old})" for m using that assms(8,10) o(3) by (cases "m = n") auto
  show "pn_removed (pl_node st' m)" if "m \<in> set (piped st')" for m
  proof (cases "m = old")
    case False
    then have "m \<in> set (piped st)" "m \<noteq> n" using that assms(3,4) by (auto simp: passed_def unknown_def split: if_splits)
    then show ?thesis using False assms(8) o(4) by simp
  qed (use assms(11) that in blast)
  show "pl_nodes st' f = Some m \<longleftrightarrow> m \<in> insert n (A - {old}) \<and> pn_fd (pl_node st' m) = f \<and> 0 \<le> f" for f m
    using assms(2,3,5,7,9) o(5) [of f m] o(5) [of f old] r ne by (cases "m = n"; cases "f = fd") (auto simp: unknown_def)
  show "pl_epoll st' = pl_nodes st'" by (rule assms(6))
qed

lemma retire_more [simp]:
  "m \<noteq> n \<Longrightarrow> pn_removed (pl_node (retire_node n s st) m) = pn_removed (pl_node st m)"
  by (auto simp: retire_node_def Let_def set_state_def)

lemma retire_passed: "passed n st (retire_node n s st)" "\<not> pl_stopped st \<Longrightarrow> pn_removed (pl_node (retire_node n s st) n)"
  "pl_stopped st \<Longrightarrow> piped (retire_node n s st) = piped st"
  by (auto simp: retire_node_def Let_def set_state_def passed_def piped_def delivered_def callback_def List.map_filter_def)

lemma poller_mod_ok:
  assumes "valid st A" "is_int fd" "clock_ok now" "\<And>n. node = Some n \<Longrightarrow> unknown st A n"
  shows "\<exists>ret e st'. poller_mod fd op msg timeout now ares node ctl st = Some (Ret (ret, e, st'))
    \<and> (ret = -1 \<and> st' = st \<or> ret = 0 \<and> (\<exists>n old. node = Some n \<and> pl_nodes st fd = Some old \<and> old \<in> A
         \<and> valid st' (insert n (A - {old})) \<and> passed old st st' \<and> kept {n} st st'
         \<and> pl_nodes st' = (pl_nodes st)(fd := Some n)))"
proof -
  obtain xs where v: "links st xs" "armed st xs" "A = set (linked st xs)" "owners st A" "pl_max_open_files st \<le> 2 ^ 63"
    using assms(1) by (rule validE)
  show ?thesis
  proof (cases "\<exists>n old event need. bad_fd fd st = None \<and> data_get_event op msg = Some (event, need) \<and> (need \<longrightarrow> ares)
      \<and> node = Some n \<and> pl_nodes st fd = Some old \<and> ctl")
    case False
    then show ?thesis by (auto simp: poller_mod_def split: option.splits)
  next
    case True
    then obtain n old event need where c: "bad_fd fd st = None" "data_get_event op msg = Some (event, need)" "need \<longrightarrow> ares"
        "node = Some n" "pl_nodes st fd = Some old" ctl by blast
    note r = is_registered [OF v(4) c(5)]
    have u: "unknown st A n" using assms(4) c(4) by blast
    then have nl: "n \<notin> set (linked st xs)" and ne: "old \<noteq> n" using v(3) r(1) by (auto simp: unknown_def)
    let ?st1 = "(set_node n (new_node fd op event need timeout now) st)\<lparr>pl_epoll := (pl_epoll st)(fd := Some n)\<rparr>"
    have same: "\<forall>m\<in>set (linked st xs). pl_node ?st1 m = pl_node st m" using nl by auto
    have l1: "links ?st1 xs" using v(1) same by (subst links_cong [of _ st]) auto
    have a1: "armed ?st1 xs" using v(2) same by (subst armed_cong [of _ st]) auto
    have "old \<in> set (linked ?st1 xs)" using r(1) v(3) by (simp add: linked_def)
    then obtain st2 where st2: "unlink_node old ?st1 = Some (Ret st2)" "links st2 (remove1 old xs)"
        "set (linked st2 (remove1 old xs)) = set (linked ?st1 xs) - {old}" "frame old ?st1 st2"
        "armed st2 (remove1 old xs)"
      using unlink_ok [OF l1] a1 by blast
    note f2 = frame_rest [OF st2(4)] frame_node [OF st2(4)]
    let ?st3 = "retire_node old PR_ST_MODIFIED st2"
    have l3: "links ?st3 (remove1 old xs)" using st2(2) by (subst links_cong [of _ st2]) auto
    have a3: "armed ?st3 (remove1 old xs)" using st2(5) by (subst armed_cong [of _ st2]) auto
    have s3: "set (linked ?st3 (remove1 old xs)) = A - {old}" using st2(3) v(3) by (simp add: linked_def)
    have n3: "pl_node ?st3 n = new_node fd op event need timeout now (pl_node st n)"
      using st2(4) ne by (auto simp: frame_def)
    have "entered n ?st3 (remove1 old xs) (enter_node n timeout ?st3)"
    proof (rule enter_ok [OF l3 a3])
      show "n \<notin> set (linked ?st3 (remove1 old xs))" using s3 u by (simp add: unknown_def)
      show "\<not> pn_in_rbtree (pl_node ?st3 n)" using n3 by (simp add: new_node_def)
      show "0 < tv_sec (pn_timeout (pl_node ?st3 n))" if "0 \<le> timeout"
        using n3 add_millis_pos [OF assms(3) that] that by (simp add: new_node_def)
    qed
    then obtain st4 xs4 where st4: "enter_node n timeout ?st3 = Some (Ret st4)" "links st4 xs4" "armed st4 xs4"
        "set (linked st4 xs4) = insert n (set (linked ?st3 (remove1 old xs)))" "frame n ?st3 st4" by (rule entered_E)
    note f4 = frame_rest [OF st4(5)] frame_node [OF st4(5)]
    let ?st5 = "st4\<lparr>pl_nodes := (pl_nodes st4)(fd := Some n)\<rparr>"
    have run: "poller_mod fd op msg timeout now ares node ctl st = Some (Ret (0, None, ?st5))"
      using c st2(1) st4(1) by (simp add: poller_mod_def Let_def)
    have pa: "passed old st ?st5"
    proof -
      have "piped ?st5 = piped ?st3" "delivered ?st5 = delivered ?st3" "piped st2 = piped st" "delivered st2 = delivered st"
        "pl_stopped st2 = pl_stopped st"
        using f2(3-5) f4(3,4) by (simp_all add: piped_def delivered_def)
      then show ?thesis using retire_passed(1) [of old st2 PR_ST_MODIFIED] unfolding passed_def by simp
    qed
    have ke: "kept {n} st ?st5" "pl_nodes ?st5 = (pl_nodes st)(fd := Some n)" using f2 f4 by (simp_all add: kept_def)
    have rm: "old \<in> set (piped ?st5) \<longrightarrow> pn_removed (pl_node ?st5 old)"
    proof
      assume o: "old \<in> set (piped ?st5)"
      have "\<not> pl_stopped st2"
      proof
        assume "pl_stopped st2"
        then have "piped ?st5 = piped st" using retire_passed(3) [of st2 old PR_ST_MODIFIED] f2 f4 by (simp add: piped_def)
        then show False using o ownersD(2) [OF v(4)] r(1) by auto
      qed
      then show "pn_removed (pl_node ?st5 old)" using retire_passed(2) f4 by simp
    qed
    have "owners ?st5 (insert n (A - {old}))"
      by (rule owners_replace [OF v(4) c(5) u pa])
        (use f2 f4 n3 rm ownersD(6) [OF v(4)] in \<open>auto simp: new_node_def\<close>)
    moreover have "links ?st5 xs4" using st4(2) by (subst links_cong [of _ st4]) auto
    moreover have "armed ?st5 xs4" using st4(3) by (simp add: armed_def)
    moreover have "insert n (A - {old}) = set (linked ?st5 xs4)" using st4(4) s3 by (simp add: linked_def)
    moreover have "pl_max_open_files ?st5 \<le> 2 ^ 63" using f2 f4 v(5) by simp
    ultimately have "valid ?st5 (insert n (A - {old}))" by (intro validI)
    then show ?thesis using run c(4,5) r(1) pa ke by blast
  qed
qed

end
