(* ===== verification/PollerThread.thy ===== *)
theory PollerThread
  imports PollerSteps
begin

text \<open>
  New timeouts and timers, and what the thread of the poller does: the end of a handler, the pipe, the
  expiry of deadlines, and stopping.
\<close>

section \<open>Timeouts and timers\<close>

lemma poller_set_timeout_ok:
  assumes "valid st A" "clock_ok now"
  shows "\<exists>ret e st'. poller_set_timeout fd timeout now st = Some (Ret (ret, e, st'))
    \<and> valid st' A \<and> piped st' = piped st \<and> delivered st' = delivered st \<and> kept {} st st'
    \<and> (ret = -1 \<and> e \<noteq> None \<and> st' = st \<or> ret = 0 \<and> e = None \<and> pl_nodes st fd \<noteq> None)"
proof (cases "bad_fd fd st = None \<and> pl_nodes st fd \<noteq> None")
  case False
  then show ?thesis using assms(1) by (auto simp: poller_set_timeout_def split: option.splits)
next
  case True
  then obtain n where n: "bad_fd fd st = None" "pl_nodes st fd = Some n" by auto
  obtain xs where v: "links st xs" "armed st xs" "A = set (linked st xs)" "owners st A" "pl_max_open_files st \<le> 2 ^ 63"
    using assms(1) by (rule validE)
  note r = is_registered [OF v(4) n(2)]
  obtain st1 where st1: "unlink_node n st = Some (Ret st1)" "links st1 (remove1 n xs)" "set (linked st1 (remove1 n xs)) = A - {n}"
      "frame n st st1" "\<not> pn_in_rbtree (pl_node st1 n)" "armed st1 (remove1 n xs)"
    using unlink_ok [OF v(1)] r(1) v(2,3) by blast
  obtain st2 where st2: "st2 = (if 0 \<le> timeout then set_node n (\<lambda>nd. nd\<lparr>pn_timeout := add_millis timeout now\<rparr>) st1 else st1)" by blast
  have r2: "pl_timeo_tree st2 = pl_timeo_tree st1" "pl_tree_first st2 = pl_tree_first st1" "pl_tree_last st2 = pl_tree_last st1"
      "pl_timeo_list st2 = pl_timeo_list st1" "pl_no_timeo_list st2 = pl_no_timeo_list st1" "pl_timerfd st2 = pl_timerfd st1"
      "pl_nodes st2 = pl_nodes st1" "pl_epoll st2 = pl_epoll st1" "pl_pipe st2 = pl_pipe st1" "pl_calls st2 = pl_calls st1"
      "\<And>m. m \<noteq> n \<Longrightarrow> pl_node st2 m = pl_node st1 m" "\<And>m. pn_fd (pl_node st2 m) = pn_fd (pl_node st1 m)"
      "\<And>m. pn_removed (pl_node st2 m) = pn_removed (pl_node st1 m)" "\<And>m. pn_in_rbtree (pl_node st2 m) = pn_in_rbtree (pl_node st1 m)"
      "kept {} st1 st2"
    by (auto simp: st2 kept_def)
  have nl: "n \<notin> set (linked st1 (remove1 n xs))" using st1(3) by simp
  have same: "\<forall>m\<in>set (linked st1 (remove1 n xs)). pl_node st2 m = pl_node st1 m" using nl r2(11) by metis
  have l2: "links st2 (remove1 n xs)" using st1(2) same by (subst links_cong [of _ st1]) (simp_all add: r2)
  have a2: "armed st2 (remove1 n xs)" using st1(6) same by (subst armed_cong [of _ st1]) (simp_all add: r2)
  have s2: "set (linked st2 (remove1 n xs)) = A - {n}" using st1(3) by (simp add: linked_def r2)
  have "entered n st2 (remove1 n xs) (enter_node n timeout st2)"
    using s2 st1(5) add_millis_pos [OF assms(2)] by (intro enter_ok [OF l2 a2]) (simp_all add: r2 st2)
  then obtain st3 xs3 where st3: "enter_node n timeout st2 = Some (Ret st3)" "links st3 xs3" "armed st3 xs3"
      "set (linked st3 xs3) = insert n (A - {n})" "frame n st2 st3"
    unfolding s2 [symmetric] by (rule entered_E)
  note f1 = frame_rest [OF st1(4)] frame_node(1,2) [OF st1(4)] and f3 = frame_rest [OF st3(5)] frame_node(1,2) [OF st3(5)]
  have pd: "piped st3 = piped st" "delivered st3 = delivered st" "pl_nodes st3 = pl_nodes st" "pl_epoll st3 = pl_epoll st"
      "\<And>m. pn_fd (pl_node st3 m) = pn_fd (pl_node st m)" "\<And>m. pn_removed (pl_node st3 m) = pn_removed (pl_node st m)"
    by (simp_all only: f3(1-4,11,12) f1(1-4,11,12) r2 piped_def delivered_def)
  have k: "kept {} st st3"
    by (rule kept_trans [OF kept_trans, OF kept_frame [OF st1(4)] r2(15) kept_frame [OF st3(5)]])
  have "owners st3 A" using v(4) unfolding owners_def pd .
  moreover have "A = set (linked st3 xs3)" using st3(4) r(1) by auto
  moreover have "pl_max_open_files st3 \<le> 2 ^ 63" using k v(5) by (simp add: kept_def)
  ultimately have "valid st3 A" using st3(2,3) by (intro validI)
  moreover have "poller_set_timeout fd timeout now st = Some (Ret (0, None, st3))"
    using n st1(1) st3(1) by (simp add: poller_set_timeout_def st2)
  ultimately show ?thesis using pd(1,2) k n(2) by blast
qed

lemma poller_add_timer_ok:
  assumes "valid st A" "clock_ok now" "0 \<le> tv_sec v" "\<And>n. node = Some n \<Longrightarrow> unknown st A n"
  shows "\<exists>ret e st'. poller_add_timer v now node st = Some (Ret (ret, e, st'))
    \<and> (ret = -1 \<and> st' = st \<or> ret = 0 \<and> (\<exists>n. node = Some n \<and> valid st' (insert n A)
         \<and> piped st' = piped st \<and> delivered st' = delivered st \<and> kept {n} st st' \<and> pl_nodes st' = pl_nodes st))"
proof (cases node)
  case None
  then show ?thesis by (simp add: poller_add_timer_def)
next
  case (Some n)
  obtain xs where v: "links st xs" "armed st xs" "A = set (linked st xs)" "owners st A" "pl_max_open_files st \<le> 2 ^ 63"
    using assms(1) by (rule validE)
  have u: "unknown st A n" using assms(4) Some by blast
  let ?f = "\<lambda>nd. nd\<lparr>pn_fd := -1, pn_op := PD_OP_TIMER, pn_in_rbtree := False, pn_removed := False,
                 pn_res := False, pn_timeout := add_timespec v now\<rparr>"
  let ?st1 = "set_node n ?f st"
  have nl: "n \<notin> set (linked st xs)" using u v(3) by (simp add: unknown_def)
  then have same: "\<forall>m\<in>set (linked st xs). pl_node ?st1 m = pl_node st m" by auto
  have l1: "links ?st1 xs" using v(1) same by (subst links_cong [of _ st]) auto
  have a1: "armed ?st1 xs" using v(2) same by (subst armed_cong [of _ st]) auto
  have "0 < tv_sec (add_timespec v now)" using assms(2,3) by (simp add: add_timespec_def clock_ok_def Let_def)
  then have "entered n ?st1 xs (enter_node n 0 ?st1)" using nl by (intro enter_ok [OF l1 a1]) (auto simp: linked_def)
  then obtain st2 xs2 where st2: "insert_node n ?st1 = Some (Ret st2)" "links st2 xs2" "armed st2 xs2"
      "set (linked st2 xs2) = insert n (set (linked ?st1 xs))" "frame n ?st1 st2"
    by (rule entered_E) (simp add: enter_node_def)
  note f = frame_rest [OF st2(5)] frame_node(1,2) [OF st2(5)]
  have "owners st2 (insert n A)" using v(4) u by (rule owners_timer) (use f in simp_all)
  moreover have "insert n A = set (linked st2 xs2)" using st2(4) v(3) by (simp add: linked_def)
  moreover have "pl_max_open_files st2 \<le> 2 ^ 63" using f v(5) by simp
  ultimately have "valid st2 (insert n A)" using st2(2,3) by (intro validI)
  moreover have "kept {n} st st2" "pl_nodes st2 = pl_nodes st" using f by (simp_all add: kept_def)
  moreover have "piped st2 = piped st" "delivered st2 = delivered st" using f by (simp_all add: piped_def delivered_def)
  moreover have "poller_add_timer v now node st = Some (Ret (0, None, st2))" using Some st2(1) by (simp add: poller_add_timer_def)
  ultimately show ?thesis using Some by blast
qed

section \<open>Handlers and the pipe\<close>

lemma valid_callback:
  assumes "valid st A" "unknown st A n"
  shows "valid (callback n (set_state n s e st)) A" "kept {} st (callback n (set_state n s e st))"
    "piped (callback n (set_state n s e st)) = piped st" "delivered (callback n (set_state n s e st)) = delivered st @ [n]"
    "pl_calls (callback n (set_state n s e st)) = pl_calls st @ [(n, s, e)]"
proof -
  let ?st = "callback n (set_state n s e st)"
  obtain xs where v: "links st xs" "armed st xs" "A = set (linked st xs)" "owners st A" "pl_max_open_files st \<le> 2 ^ 63"
    using assms(1) by (rule validE)
  show c: "pl_calls ?st = pl_calls st @ [(n, s, e)]" by (simp add: callback_def set_state_def)
  have o: "owners ?st A" "piped ?st = piped st" "delivered ?st = delivered st @ [n]"
    using owners_deliver [OF v(4) assms(2), of ?st "(s, e)"] c by (simp_all add: set_state_def)
  then show "piped ?st = piped st" "delivered ?st = delivered st @ [n]" by blast+
  have "links ?st xs" using v(1) by (subst links_cong [of _ st]) (auto simp: set_state_def)
  moreover have "armed ?st xs" using v(2) by (subst armed_cong [of _ st]) (auto simp: set_state_def)
  moreover have "A = set (linked ?st xs)" using v(3) by (simp add: linked_def set_state_def)
  ultimately show "valid ?st A" using o(1) v(5) by (intro validI) (auto simp: set_state_def)
  show "kept {} st ?st" by (simp add: kept_def set_state_def)
qed

text \<open>A handler ends with its node registered or already in the pipe.\<close>

lemma finish_node_ok:
  assumes "valid st A" "pl_nodes st (pn_fd (pl_node st n)) = Some n \<or> n \<in> set (piped st)"
  shows "\<exists>st'. finish_node n s e st = Some (Ret st') \<and> kept {} st st' \<and> piped st' = piped st \<and> valid st' (A - {n})
    \<and> (if n \<in> set (piped st) then st' = st else n \<in> A \<and> pl_calls st' = pl_calls st @ [(n, s, e)])"
proof -
  have o: "owners st A" using assms(1) by (auto elim: validE)
  show ?thesis
  proof (cases "n \<in> set (piped st)")
    case True
    then have "pn_removed (pl_node st n)" "n \<notin> A" using ownersD(2,4) [OF o] by auto
    then show ?thesis using True assms(1) by (simp add: finish_node_def remove_node_def)
  next
    case False
    then have reg: "pl_nodes st (pn_fd (pl_node st n)) = Some n" using assms(2) by blast
    then have n: "n \<in> A" by (rule is_registered(1) [OF o])
    then have nr: "\<not> pn_removed (pl_node st n)" by (rule ownersD(3) [OF o])
    obtain st1 where st1: "unlink_node n (st\<lparr>pl_nodes := (pl_nodes st)(pn_fd (pl_node st n) := None)\<rparr>) = Some (Ret st1)"
        "valid (st1\<lparr>pl_epoll := (pl_epoll st1)(pn_fd (pl_node st n) := None)\<rparr>) (A - {n})"
        "unknown (st1\<lparr>pl_epoll := (pl_epoll st1)(pn_fd (pl_node st n) := None)\<rparr>) (A - {n}) n"
        "piped st1 = piped st" "delivered st1 = delivered st" "kept {} st st1" "pl_calls st1 = pl_calls st"
      using take_out_ok [OF assms(1) reg] by blast
    let ?st2 = "st1\<lparr>pl_epoll := (pl_epoll st1)(pn_fd (pl_node st n) := None)\<rparr>"
    note c = valid_callback [OF st1(2,3), of s e]
    have "kept {} st ?st2" using st1(6) by (simp add: kept_def)
    then have "kept {} st (callback n (set_state n s e ?st2))" by (rule kept_trans) (rule c(2))
    moreover have "piped ?st2 = piped st" using st1(4) by (simp add: piped_def)
    moreover have "finish_node n s e st = Some (Ret (callback n (set_state n s e ?st2)))"
      using nr st1(1) by (simp add: finish_node_def remove_node_def Let_def)
    moreover have "pl_calls ?st2 = pl_calls st"
      using st1(7) by simp
    ultimately show ?thesis using c n False by auto
  qed
qed

end
