(* ===== verification/PollerExpiry.thy ===== *)
theory PollerExpiry
  imports PollerThread
begin

text \<open>
  The rest of the thread's work: the pipe hands its nodes to the user, the expired nodes get an error,
  the timer is set to the earliest deadline, and stopping hands out what is left.
\<close>

section \<open>The pipe and the timer\<close>

lemma pipe_callbacks_eq:
  "pipe_callbacks ps stop st = (stop \<or> None \<in> set ps,
     st\<lparr>pl_calls := pl_calls st @ map (\<lambda>n. (n, pn_state (pl_node st n), pn_error (pl_node st n))) (List.map_filter id ps)\<rparr>)"
  by (induction ps stop st rule: pipe_callbacks.induct) (auto simp: callback_def List.map_filter_def)

lemma map_fst_calls [simp]: "map fst (map (\<lambda>n. (n, f n)) ns) = ns"
  by (induction ns) auto

lemma handle_pipe_ok:
  assumes "valid st A"
  shows "valid (snd (handle_pipe k st)) A" "kept {} st (snd (handle_pipe k st))"
    "fst (handle_pipe k st) \<longleftrightarrow> None \<in> set (take k (pl_pipe st))"
    "delivered (snd (handle_pipe k st)) @ piped (snd (handle_pipe k st)) = delivered st @ piped st"
    "set (piped (snd (handle_pipe k st))) \<subseteq> set (piped st)"
    "pl_pipe (snd (handle_pipe k st)) = drop k (pl_pipe st)" "pl_nodes (snd (handle_pipe k st)) = pl_nodes st"
proof -
  let ?st = "snd (handle_pipe k st)"
  let ?d = "List.map_filter id (take k (pl_pipe st))"
  have s: "?st = st\<lparr>pl_pipe := drop k (pl_pipe st), pl_calls := pl_calls st
      @ map (\<lambda>n. (n, pn_state (pl_node st n), pn_error (pl_node st n))) ?d\<rparr>"
    by (simp add: handle_pipe_def pipe_callbacks_eq)
  have split: "piped st = ?d @ List.map_filter id (drop k (pl_pipe st))"
    using append_take_drop_id [of k "pl_pipe st"] unfolding piped_def List.map_filter_def
    by (metis filter_append map_append)
  have p: "piped ?st = List.map_filter id (drop k (pl_pipe st))" "delivered ?st = delivered st @ ?d"
    by (simp_all add: s piped_def delivered_def comp_def)
  show "delivered ?st @ piped ?st = delivered st @ piped st" using p split by simp
  show "set (piped ?st) \<subseteq> set (piped st)" using p split by auto
  obtain xs where v: "links st xs" "armed st xs" "A = set (linked st xs)" "owners st A" "pl_max_open_files st \<le> 2 ^ 63"
    using assms by (rule validE)
  have r: "pl_node ?st = pl_node st" "pl_nodes ?st = pl_nodes st" "pl_epoll ?st = pl_epoll st" by (simp_all add: s)
  note o = ownersD [OF v(4)]
  have "owners ?st A"
  proof (rule ownersI)
    show "distinct (piped ?st @ delivered ?st)" using o(1) p split by auto
    show "A \<inter> (set (piped ?st) \<union> set (delivered ?st)) = {}" using o(2) p split by auto
    show "pn_removed (pl_node ?st n)" if "n \<in> set (piped ?st)" for n using that o(4) [of n] r p split by auto
  qed (use o r in auto)
  moreover have "links ?st xs" using v(1) by (subst links_cong [of _ st]) (simp_all add: s)
  moreover have "armed ?st xs" using v(2) by (subst armed_cong [of _ st]) (simp_all add: s)
  moreover have "A = set (linked ?st xs)" using v(3) by (simp add: linked_def s)
  ultimately show "valid ?st A" using v(5) by (intro validI) (auto simp: s)
  show "kept {} st ?st" by (simp add: kept_def s)
  show "fst (handle_pipe k st) \<longleftrightarrow> None \<in> set (take k (pl_pipe st))" by (simp add: handle_pipe_def pipe_callbacks_eq)
  show "pl_pipe ?st = drop k (pl_pipe st)" "pl_nodes ?st = pl_nodes st" by (simp_all add: s)
qed

text \<open>The timer is set to the earliest deadline, or disarmed when there is none.\<close>

definition earliest :: "poller \<Rightarrow> nat list \<Rightarrow> nat \<Rightarrow> bool" where
  "earliest st ns n \<longleftrightarrow> n \<in> set ns \<and> (\<forall>m\<in>set ns. timeout_cmp st n m \<le> 0)"

lemma set_timer_ok:
  assumes "links st xs" "armed st xs"
  shows "set_timer st = st\<lparr>pl_timerfd := pl_timerfd (set_timer st)\<rparr>" "armed (set_timer st) xs"
    "case pl_timerfd (set_timer st) of
       None \<Rightarrow> pl_timeo_list st @ xs = []
     | Some t \<Rightarrow> \<exists>n. earliest st (pl_timeo_list st @ xs) n \<and> t = pn_timeout (pl_node st n)"
proof -
  show e: "set_timer st = st\<lparr>pl_timerfd := pl_timerfd (set_timer st)\<rparr>"
    by (simp add: set_timer_def set_timerfd_def Let_def)
  have pos: "0 < tv_sec (pn_timeout (pl_node st n))" if "n \<in> set (pl_timeo_list st @ xs)" for n
    using assms(2) that unfolding armed_def by blast
  have first: "pl_tree_first st = fst_of xs" using assms(1) by (simp add: links_def deadline_tree_def)
  have srt: "by_deadline st (pl_timeo_list st)" "by_deadline st xs" using assms(1) by (auto simp: links_def deadline_tree_def)
  have best: "\<exists>n. earliest st (pl_timeo_list st @ xs) n \<and> set_timer st = set_timerfd (pn_timeout (pl_node st n)) st"
    if ne: "pl_timeo_list st @ xs \<noteq> []"
  proof -
    consider a as where "pl_timeo_list st = a # as" "xs = []" | b bs where "pl_timeo_list st = []" "xs = b # bs"
      | a as b bs where "pl_timeo_list st = a # as" "xs = b # bs"
      using ne by (cases "pl_timeo_list st"; cases xs) auto
    then show ?thesis
    proof cases
      case 1
      then have "earliest st (pl_timeo_list st @ xs) a" using srt(1) by (auto simp: earliest_def by_deadline_def)
      moreover have "set_timer st = set_timerfd (pn_timeout (pl_node st a)) st" using 1 first by (simp add: set_timer_def)
      ultimately show ?thesis by blast
    next
      case 2
      then have "earliest st (pl_timeo_list st @ xs) b" using srt(2) by (auto simp: earliest_def by_deadline_def)
      moreover have "set_timer st = set_timerfd (pn_timeout (pl_node st b)) st" using 2 first by (simp add: set_timer_def)
      ultimately show ?thesis by blast
    next
      case 3
      have le: "\<forall>m\<in>set (a # as). timeout_cmp st a m \<le> 0" "\<forall>m\<in>set (b # bs). timeout_cmp st b m \<le> 0"
        using srt 3 by_deadline_first by metis+
      show ?thesis
      proof (cases "timeout_cmp st b a < 0")
        case True
        then have "\<forall>m\<in>set (a # as). timeout_cmp st b m \<le> 0" using le(1) cmp_trans by (meson less_imp_le)
        then have "earliest st (pl_timeo_list st @ xs) b" using le(2) 3 by (auto simp: earliest_def)
        moreover have "set_timer st = set_timerfd (pn_timeout (pl_node st b)) st" using 3 first True by (simp add: set_timer_def)
        ultimately show ?thesis by blast
      next
        case False
        then have "timeout_cmp st a b \<le> 0" unfolding not_less cmp_flip .
        then have "\<forall>m\<in>set (b # bs). timeout_cmp st a m \<le> 0" using le(2) cmp_trans by blast
        then have "earliest st (pl_timeo_list st @ xs) a" using le(1) 3 by (auto simp: earliest_def)
        moreover have "set_timer st = set_timerfd (pn_timeout (pl_node st a)) st" using 3 first False by (simp add: set_timer_def)
        ultimately show ?thesis by blast
      qed
    qed
  qed
  show c: "case pl_timerfd (set_timer st) of None \<Rightarrow> pl_timeo_list st @ xs = []
     | Some t \<Rightarrow> \<exists>n. earliest st (pl_timeo_list st @ xs) n \<and> t = pn_timeout (pl_node st n)"
  proof (cases "pl_timeo_list st @ xs = []")
    case True
    then have "pl_timerfd (set_timer st) = None" using first by (simp add: set_timer_def set_timerfd_def)
    then show ?thesis using True by simp
  next
    case False
    then obtain n where n: "earliest st (pl_timeo_list st @ xs) n" "set_timer st = set_timerfd (pn_timeout (pl_node st n)) st"
      using best by blast
    have "0 < tv_sec (pn_timeout (pl_node st n))" using pos n(1) by (simp add: earliest_def)
    then have "pl_timerfd (set_timer st) = Some (pn_timeout (pl_node st n))" using n(2) by simp
    then show ?thesis using n(1) by auto
  qed
  have rd: "pl_timeo_list (set_timer st) = pl_timeo_list st" "pl_node (set_timer st) = pl_node st"
    by (subst e, simp)+
  show "armed (set_timer st) xs"
  proof (cases "pl_timerfd (set_timer st)")
    case None
    then show ?thesis using c rd by (simp add: armed_def)
  next
    case (Some t)
    then obtain n where "earliest st (pl_timeo_list st @ xs) n" "t = pn_timeout (pl_node st n)" using c by auto
    then show ?thesis using Some rd pos by (auto simp: armed_def earliest_def timeout_cmp_def)
  qed
qed

lemma set_timer_valid:
  assumes "valid st A"
  shows "valid (set_timer st) A" "kept {} st (set_timer st)" "piped (set_timer st) = piped st"
    "delivered (set_timer st) = delivered st" "pl_nodes (set_timer st) = pl_nodes st"
proof -
  obtain xs where v: "links st xs" "armed st xs" "A = set (linked st xs)" "owners st A" "pl_max_open_files st \<le> 2 ^ 63"
    using assms by (rule validE)
  note e = set_timer_ok(1) [OF v(1,2)]
  have rd: "pl_timeo_tree (set_timer st) = pl_timeo_tree st" "pl_tree_first (set_timer st) = pl_tree_first st"
    "pl_tree_last (set_timer st) = pl_tree_last st" "pl_timeo_list (set_timer st) = pl_timeo_list st"
    "pl_no_timeo_list (set_timer st) = pl_no_timeo_list st" "pl_nodes (set_timer st) = pl_nodes st"
    "pl_epoll (set_timer st) = pl_epoll st" "pl_pipe (set_timer st) = pl_pipe st" "pl_calls (set_timer st) = pl_calls st"
    "pl_node (set_timer st) = pl_node st" "pl_max_open_files (set_timer st) = pl_max_open_files st"
    "pl_stopped (set_timer st) = pl_stopped st" "pl_pipe_rd (set_timer st) = pl_pipe_rd st" "pl_pipe_wr (set_timer st) = pl_pipe_wr st"
    by (subst e, simp)+
  show "kept {} st (set_timer st)" "piped (set_timer st) = piped st" "delivered (set_timer st) = delivered st"
    "pl_nodes (set_timer st) = pl_nodes st"
    by (simp_all add: kept_def piped_def delivered_def rd)
  have "owners (set_timer st) A" using v(4) by (simp add: owners_def rd piped_def delivered_def)
  moreover have "links (set_timer st) xs" using v(1) by (subst links_cong [of _ st]) (simp_all add: rd)
  moreover have "A = set (linked (set_timer st) xs)" using v(3) by (simp add: linked_def rd)
  ultimately show "valid (set_timer st) A" using set_timer_ok(2) [OF v(1,2)] v(5) by (intro validI) (auto simp: rd)
qed

section \<open>Expiry\<close>

definition valid_with :: "poller \<Rightarrow> nat set \<Rightarrow> nat list \<Rightarrow> bool" where
  "valid_with st A xs \<longleftrightarrow> links st xs \<and> armed st xs \<and> A = set (linked st xs) \<and> owners st A \<and> pl_max_open_files st \<le> 2 ^ 63"

lemma valid_withE: "valid st A \<Longrightarrow> (\<And>xs. valid_with st A xs \<Longrightarrow> P) \<Longrightarrow> P"
  by (metis validE valid_with_def)

lemma valid_withI: "valid_with st A xs \<Longrightarrow> valid st A"
  unfolding valid_with_def by (blast intro: validI)

text \<open>The nodes \<open>es\<close> have left the poller and are in the hands of the thread.\<close>

definition handed :: "poller \<Rightarrow> nat set \<Rightarrow> nat list \<Rightarrow> poller \<Rightarrow> nat list \<Rightarrow> bool" where
  "handed st A es st' xs' \<longleftrightarrow> valid_with st' (A - set es) xs' \<and> pl_node st' = pl_node st \<and> pl_pipe st' = pl_pipe st
     \<and> pl_calls st' = pl_calls st \<and> set es \<subseteq> A \<and> distinct es \<and> kept {} st st'"

lemma handed_refl: "valid_with st A xs \<Longrightarrow> handed st A [] st xs"
  by (simp add: handed_def)

lemma handed_trans:
  assumes "handed st A es st1 xs1" "handed st1 (A - set es) fs st2 xs2"
  shows "handed st A (es @ fs) st2 xs2"
proof -
  have "A - set (es @ fs) = A - set es - set fs" by auto
  then show ?thesis using assms kept_trans [of "{}" st st1 st2] unfolding handed_def by auto
qed

lemma handed_unknown:
  assumes "owners st A" "handed st A es st' xs'" "n \<in> set es"
  shows "unknown st' (A - set es) n"
  using assms ownersD(2) [OF assms(1)] by (auto simp: handed_def unknown_def piped_def delivered_def)

lemma handedI:
  assumes "owners st A" "n \<in> A" "pl_nodes st' = pl_nodes (forget_fd n st)" "pl_epoll st' = pl_epoll (forget_fd n st)"
    "pl_pipe st' = pl_pipe st" "pl_calls st' = pl_calls st" "pl_node st' = pl_node st" "kept {} st st'"
    "pl_max_open_files st \<le> 2 ^ 63" "links st' xs'" "armed st' xs'" "set (linked st' xs') = A - {n}"
  shows "handed st A [n] st' xs'"
proof -
  have "owners st' (A - {n})"
    by (rule owners_forget [OF assms(1,2,5,6)])
      (use assms(3,4,7) ownersD(6) [OF assms(1)] in \<open>auto simp: forget_fd_def Let_def\<close>)
  then show ?thesis using assms by (simp add: handed_def valid_with_def kept_def)
qed

lemma kept_forget: "kept {} st ((forget_fd n st)\<lparr>pl_timeo_list := ns\<rparr>)"
  by (simp add: kept_def forget_fd_def Let_def)

lemma expire_list_step:
  assumes "valid_with st A xs" "pl_timeo_list st = n # ns"
  shows "handed st A [n] ((forget_fd n st)\<lparr>pl_timeo_list := ns\<rparr>) xs"
proof -
  have v: "links st xs" "armed st xs" "A = set (linked st xs)" "owners st A" "pl_max_open_files st \<le> 2 ^ 63"
    using assms(1) by (auto simp: valid_with_def)
  let ?st = "(forget_fd n st)\<lparr>pl_timeo_list := ns\<rparr>"
  have r: "pl_timeo_tree ?st = pl_timeo_tree st" "pl_tree_first ?st = pl_tree_first st" "pl_tree_last ?st = pl_tree_last st"
      "pl_no_timeo_list ?st = pl_no_timeo_list st" "pl_node ?st = pl_node st" "pl_pipe ?st = pl_pipe st" "pl_calls ?st = pl_calls st"
      "pl_timerfd ?st = pl_timerfd st" "pl_timeo_list ?st = ns"
    by (simp_all add: forget_fd_def Let_def)
  have d: "distinct (n # ns @ pl_no_timeo_list st @ xs)" using v(1) assms(2) by (simp add: links_def linked_def)
  have "by_deadline ?st xs = by_deadline st xs" "by_deadline ?st ns = by_deadline st ns" by (rule by_deadline_cong, simp add: r)+
  then have "links ?st xs"
    using v(1) assms(2) d r by (simp add: links_def linked_def deadline_tree_def tree_nodes_def) (simp add: by_deadline_def)
  moreover have "armed ?st xs" using v(2) assms(2) r by (simp add: armed_def)
  moreover have "set (linked ?st xs) = A - {n}" using v(3) assms(2) d r by (auto simp: linked_def)
  moreover have "n \<in> A" using v(3) assms(2) by (simp add: linked_def)
  ultimately show ?thesis using v(4,5) r kept_forget by (intro handedI) auto
qed

definition late :: "timespec \<Rightarrow> poller \<Rightarrow> nat \<Rightarrow> bool" where
  "late time st n \<longleftrightarrow> timespec_cmp (pn_timeout (pl_node st n)) time \<le> 0"

definition overdue :: "timespec \<Rightarrow> poller \<Rightarrow> nat \<Rightarrow> bool" where
  "overdue time st n \<longleftrightarrow> timespec_cmp (pn_timeout (pl_node st n)) time < 0"

lemma expire_list_ok:
  assumes "valid_with st A xs" "pl_timeo_list st = ns"
  shows "\<exists>st'. expire_list time ns st = (takeWhile (late time st) ns, st') \<and> handed st A (takeWhile (late time st) ns) st' xs"
  using assms
proof (induction ns arbitrary: st A)
  case Nil
  then show ?case using handed_refl by auto
next
  case (Cons n ns)
  show ?case
  proof (cases "late time st n")
    case True
    let ?st = "(forget_fd n st)\<lparr>pl_timeo_list := ns\<rparr>"
    have h: "handed st A [n] ?st xs" by (rule expire_list_step [OF Cons.prems])
    then have w: "valid_with ?st (A - {n}) xs" "pl_node ?st = pl_node st" by (simp_all add: handed_def)
    then have p: "late time ?st = late time st" by (simp add: late_def fun_eq_iff)
    obtain st' where st': "expire_list time ns ?st = (takeWhile (late time st) ns, st')"
        "handed ?st (A - {n}) (takeWhile (late time st) ns) st' xs"
      using Cons.IH [OF w(1)] unfolding p by auto
    have "handed st A ([n] @ takeWhile (late time st) ns) st' xs" using handed_trans [OF h] st'(2) by simp
    moreover have "expire_list time (n # ns) st = (n # takeWhile (late time st) ns, st')"
      using True st'(1) unfolding late_def by simp
    ultimately show ?thesis using True by simp
  next
    case False
    then show ?thesis using handed_refl [OF Cons.prems(1)] by (simp add: late_def)
  qed
qed

lemma expire_tree_step_ok:
  assumes "valid_with st A (n # ys)" "overdue time st n"
  shows "\<exists>st'. expire_tree_step time st = Some (Ret (Some n, st')) \<and> handed st A [n] st' ys"
proof -
  have v: "links st (n # ys)" "armed st (n # ys)" "A = set (linked st (n # ys))" "owners st A" "pl_max_open_files st \<le> 2 ^ 63"
    using assms(1) by (auto simp: valid_with_def)
  then have dt: "tree_nodes st (n # ys)" "pl_tree_first st = Some n" "pl_tree_last st = lst_of (n # ys)" "by_deadline st (n # ys)"
    by (auto simp: links_def deadline_tree_def)
  obtain t where t: "holds_tree (pl_timeo_tree st) t" "is_rbt t" "nodes t = n # ys" using dt(1) by (auto simp: tree_nodes_def)
  obtain h t' where h: "rb_erase n (pl_timeo_tree st) = Some (Ret h)" "holds_tree h t'" "is_rbt t'" "nodes t' = ys"
    using rb_erase_correct [OF t(1,2), of n] t(3) by (auto simp: erased_def)
  have nx: "rb_step True n (pl_timeo_tree st) = Some (fst_of ys)"
    using rb_neighbours(1) [OF t(1), of "[]" n ys] t(3) by (simp add: fst_of_def)
  let ?st = "(forget_fd n st)\<lparr>pl_timeo_tree := h, pl_tree_first := fst_of ys,
      pl_tree_last := (if fst_of ys = None then None else pl_tree_last st)\<rparr>"
  have r: "pl_timeo_tree ?st = h" "pl_tree_first ?st = fst_of ys" "pl_tree_last ?st = lst_of ys" "pl_timeo_list ?st = pl_timeo_list st"
      "pl_no_timeo_list ?st = pl_no_timeo_list st" "pl_node ?st = pl_node st" "pl_pipe ?st = pl_pipe st" "pl_calls ?st = pl_calls st"
      "pl_timerfd ?st = pl_timerfd st" "kept {} st ?st"
    using dt(3) by (auto simp: forget_fd_def Let_def kept_def lst_of_def fst_of_def split: list.splits)
  have d: "distinct (pl_timeo_list st @ pl_no_timeo_list st @ n # ys)" using v(1) by (simp add: links_def linked_def)
  have "by_deadline ?st ys = by_deadline st ys" "by_deadline ?st (pl_timeo_list st) = by_deadline st (pl_timeo_list st)"
    by (rule by_deadline_cong, simp add: r)+
  then have "deadline_tree ?st ys" using h dt(4) r unfolding deadline_tree_def tree_nodes_def by (auto simp: by_deadline_def)
  then have "links ?st ys"
    using v(1) d r \<open>by_deadline ?st (pl_timeo_list st) = by_deadline st (pl_timeo_list st)\<close> by (simp add: links_def linked_def)
  moreover have "armed ?st ys" using v(2) r by (simp add: armed_def)
  moreover have "set (linked ?st ys) = A - {n}" using v(3) d r by (auto simp: linked_def)
  moreover have "n \<in> A" using v(3) by (simp add: linked_def)
  moreover have "pl_nodes ?st = pl_nodes (forget_fd n st)" "pl_epoll ?st = pl_epoll (forget_fd n st)" by simp_all
  ultimately have "handed st A [n] ?st ys" using v(4,5) r by (intro handedI)
  moreover have "expire_tree_step time st = Some (Ret (Some n, ?st))"
    using dt(2) assms(2) h(1) nx by (simp add: expire_tree_step_def overdue_def)
  ultimately show ?thesis by blast
qed

lemma expire_tree_ok:
  assumes "valid_with st A ys"
  shows "\<exists>st'. expire_tree time acc st = Some (Ret (acc @ takeWhile (overdue time st) ys, st'))
    \<and> handed st A (takeWhile (overdue time st) ys) st' (dropWhile (overdue time st) ys)"
  using assms
proof (induction ys arbitrary: st A acc)
  case Nil
  then have "pl_tree_first st = None" by (simp add: valid_with_def links_def deadline_tree_def)
  then show ?case using handed_refl [OF Nil] by (simp add: expire_tree.simps [of time acc st] expire_tree_step_def)
next
  case (Cons n ys)
  have f: "pl_tree_first st = Some n" using Cons.prems by (simp add: valid_with_def links_def deadline_tree_def)
  show ?case
  proof (cases "overdue time st n")
    case True
    obtain st1 where st1: "expire_tree_step time st = Some (Ret (Some n, st1))" "handed st A [n] st1 ys"
      using expire_tree_step_ok [OF Cons.prems True] by blast
    then have w: "valid_with st1 (A - {n}) ys" "pl_node st1 = pl_node st" by (simp_all add: handed_def)
    then have p: "overdue time st1 = overdue time st" by (simp add: overdue_def fun_eq_iff)
    obtain st' where st': "expire_tree time (acc @ [n]) st1 = Some (Ret ((acc @ [n]) @ takeWhile (overdue time st) ys, st'))"
        "handed st1 (A - {n}) (takeWhile (overdue time st) ys) st' (dropWhile (overdue time st) ys)"
      using Cons.IH [OF w(1)] unfolding p by blast
    have "handed st A ([n] @ takeWhile (overdue time st) ys) st' (dropWhile (overdue time st) ys)"
      using handed_trans [OF st1(2)] st'(2) by simp
    then show ?thesis using True st1(1) st'(1) by (simp add: expire_tree.simps [of time acc st])
  next
    case False
    then show ?thesis
      using handed_refl [OF Cons.prems] f by (simp add: expire_tree.simps [of time acc st] expire_tree_step_def overdue_def)
  qed
qed

lemma callbacks_ok:
  assumes "valid st A" "distinct es" "\<forall>n\<in>set es. unknown st A n"
  shows "valid (foldl (\<lambda>st n. callback n (set_state n s e st)) st es) A
    \<and> pl_calls (foldl (\<lambda>st n. callback n (set_state n s e st)) st es) = pl_calls st @ map (\<lambda>n. (n, s, e)) es
    \<and> piped (foldl (\<lambda>st n. callback n (set_state n s e st)) st es) = piped st
    \<and> kept {} st (foldl (\<lambda>st n. callback n (set_state n s e st)) st es)"
  using assms
proof (induction es arbitrary: st)
  case (Cons n es)
  let ?st = "callback n (set_state n s e st)"
  have "unknown st A n" using Cons.prems(3) by simp
  note c = valid_callback [OF Cons.prems(1) this, of s e]
  have "\<forall>m\<in>set es. unknown ?st A m" using Cons.prems(2,3) c(3,4) by (auto simp: unknown_def)
  then show ?case using Cons.IH [OF c(1)] Cons.prems(2) c kept_trans [OF c(2)] by simp
qed simp

lemma handle_timeout_ok:
  fixes time :: timespec
  assumes "valid_with st A xs"
  defines "es \<equiv> takeWhile (late time st) (pl_timeo_list st) @ takeWhile (overdue time st) xs"
  shows "\<exists>st'. handle_timeout time st = Some (Ret st') \<and> valid st' (A - set es) \<and> distinct es \<and> set es \<subseteq> A
    \<and> pl_calls st' = pl_calls st @ map (\<lambda>n. (n, PR_ST_ERROR, Some P_ETIMEDOUT)) es \<and> piped st' = piped st \<and> kept {} st st'"
proof -
  obtain st1 where st1: "expire_list time (pl_timeo_list st) st = (takeWhile (late time st) (pl_timeo_list st), st1)"
      "handed st A (takeWhile (late time st) (pl_timeo_list st)) st1 xs"
    using expire_list_ok [OF assms(1) refl] by blast
  then have w: "valid_with st1 (A - set (takeWhile (late time st) (pl_timeo_list st))) xs" "pl_node st1 = pl_node st"
    by (simp_all add: handed_def)
  then have p: "overdue time st1 = overdue time st" by (simp add: overdue_def fun_eq_iff)
  obtain st2 where st2: "expire_tree time (takeWhile (late time st) (pl_timeo_list st)) st1 = Some (Ret (es, st2))"
      "handed st1 (A - set (takeWhile (late time st) (pl_timeo_list st))) (takeWhile (overdue time st) xs) st2 (dropWhile (overdue time st) xs)"
    using expire_tree_ok [OF w(1), of time "takeWhile (late time st) (pl_timeo_list st)"] unfolding p es_def by blast
  have h: "handed st A es st2 (dropWhile (overdue time st) xs)" unfolding es_def by (rule handed_trans [OF st1(2) st2(2)])
  have o: "owners st A" using assms(1) unfolding valid_with_def by blast
  have v2: "valid st2 (A - set es)" "distinct es" "set es \<subseteq> A" "pl_calls st2 = pl_calls st" "pl_pipe st2 = pl_pipe st" "kept {} st st2"
    using h by (auto simp: handed_def intro: valid_withI)
  have un: "\<forall>n\<in>set es. unknown st2 (A - set es) n" using handed_unknown [OF o h] by blast
  let ?st = "foldl (\<lambda>st n. callback n (set_state n PR_ST_ERROR (Some P_ETIMEDOUT) st)) st2 es"
  note c = callbacks_ok [OF v2(1,2) un, of PR_ST_ERROR "Some P_ETIMEDOUT"]
  have "handle_timeout time st = Some (Ret ?st)" using st1(1) st2(1) by (simp add: handle_timeout_def)
  moreover have "kept {} st ?st" using kept_trans [OF v2(6)] c by blast
  moreover have "piped ?st = piped st" using c v2(5) by (simp add: piped_def)
  ultimately show ?thesis using c v2 by auto
qed

text \<open>The nodes taken are exactly the expired ones.\<close>

lemma takeWhile_expired:
  assumes "by_deadline st ns"
  shows "takeWhile (late time st) ns = filter (late time st) ns" "takeWhile (overdue time st) ns = filter (overdue time st) ns"
proof -
  have "sorted_wrt (\<lambda>m n. late time st n \<longrightarrow> late time st m) ns" "sorted_wrt (\<lambda>m n. overdue time st n \<longrightarrow> overdue time st m) ns"
    using assms timespec_cmp_order(4) timespec_cmp_strict(2)
    by (auto simp: by_deadline_def late_def overdue_def timeout_cmp_def elim!: sorted_wrt_mono_rel [rotated])
  then show "takeWhile (late time st) ns = filter (late time st) ns" "takeWhile (overdue time st) ns = filter (overdue time st) ns"
    by (induction ns) (auto simp: filter_empty_conv)
qed

end
