(* ===== verification/PollerStop.thy ===== *)
theory PollerStop
  imports PollerExpiry
begin

text \<open>Stopping the poller: every node that is left is handed to the user, each once.\<close>

lemma drain_tree_ok:
  assumes "tree_nodes st xs"
  shows "\<exists>h ys. drain_tree st = Some (Ret (st\<lparr>pl_timeo_tree := h, pl_timeo_list := ys @ pl_timeo_list st\<rparr>))
    \<and> set ys = set xs \<and> distinct ys \<and> tree_nodes (st\<lparr>pl_timeo_tree := h\<rparr>) []"
  using assms
proof (induction "length xs" arbitrary: xs st rule: less_induct)
  case less
  obtain t where t: "holds_tree (pl_timeo_tree st) t" "is_rbt t" "nodes t = xs" using less.prems by (auto simp: tree_nodes_def)
  have rt: "rb_node (pl_timeo_tree st) = root_of t" using t(1) by (simp add: holds_tree_def at_def)
  show ?case
  proof (cases t)
    case Lf
    then have "drain_tree st = Some (Ret st)" using rt by (simp add: drain_tree.simps [of st] drain_step_def)
    then show ?thesis
      using t Lf less.prems by (intro exI [of _ "pl_timeo_tree st"] exI [of _ "[]"]) simp
  next
    case (Nd l n c r)
    have n: "n \<in> set xs" "rb_node (pl_timeo_tree st) = Some n" using Nd t(3) rt by auto
    obtain h t' where h: "rb_erase n (pl_timeo_tree st) = Some (Ret h)" "holds_tree h t'" "is_rbt t'" "nodes t' = remove1 n xs"
      using rb_erase_correct [OF t(1,2), of n] t(3) n(1) by (auto simp: erased_def)
    let ?st = "st\<lparr>pl_timeo_tree := h, pl_timeo_list := n # pl_timeo_list st\<rparr>"
    have "length (remove1 n xs) < length xs" using n(1) length_pos_if_in_set [OF n(1)] by (simp add: length_remove1)
    moreover have "tree_nodes ?st (remove1 n xs)" using h by (auto simp: tree_nodes_def)
    ultimately obtain h' ys where ys: "drain_tree ?st = Some (Ret (?st\<lparr>pl_timeo_tree := h', pl_timeo_list := ys @ pl_timeo_list ?st\<rparr>))"
        "set ys = set (remove1 n xs)" "distinct ys" "tree_nodes (?st\<lparr>pl_timeo_tree := h'\<rparr>) []"
      using less.hyps by blast
    have d: "distinct xs" using tree_nodes_distinct [OF less.prems] .
    have "drain_tree st = Some (Ret (st\<lparr>pl_timeo_tree := h', pl_timeo_list := (ys @ [n]) @ pl_timeo_list st\<rparr>))"
      using n(2) h(1) ys(1) by (simp add: drain_tree.simps [of st] drain_step_def)
    moreover have "set (ys @ [n]) = set xs" "distinct (ys @ [n])" using ys(2,3) d n(1) by auto
    moreover have "tree_nodes (st\<lparr>pl_timeo_tree := h'\<rparr>) []" using ys(4) by (simp add: tree_nodes_def)
    ultimately show ?thesis by blast
  qed
qed

lemma stop_list_step:
  assumes "owners st (set (n # ns))" "distinct (n # ns)"
  defines "st' \<equiv> callback n (set_state n PR_ST_STOPPED None (forget_fd n (st\<lparr>pl_timeo_list := ns\<rparr>)))"
  shows "owners st' (set ns) \<and> pl_calls st' = pl_calls st @ [(n, PR_ST_STOPPED, None)] \<and> pl_pipe st' = pl_pipe st
    \<and> pl_no_timeo_list st' = pl_no_timeo_list st \<and> pl_timeo_tree st' = pl_timeo_tree st \<and> pl_tree_first st' = pl_tree_first st
    \<and> pl_tree_last st' = pl_tree_last st \<and> kept {} st st'"
proof -
  let ?st1 = "forget_fd n (st\<lparr>pl_timeo_list := ns\<rparr>)"
  have r1: "pl_pipe ?st1 = pl_pipe st" "pl_calls ?st1 = pl_calls st" "pl_node ?st1 = pl_node st"
      "pl_no_timeo_list ?st1 = pl_no_timeo_list st" "pl_timeo_tree ?st1 = pl_timeo_tree st" "pl_tree_first ?st1 = pl_tree_first st"
      "pl_tree_last ?st1 = pl_tree_last st" "kept {} st ?st1"
    by (simp_all add: forget_fd_def Let_def kept_def)
  have m: "set ns = set (n # ns) - {n}" using assms(2) by auto
  have o1: "owners ?st1 (set ns)" "unknown ?st1 (set ns) n"
    unfolding m using owners_forget [OF assms(1), of n ?st1] r1 ownersD(6) [OF assms(1)] by (auto simp: forget_fd_def Let_def)
  have c: "pl_calls st' = pl_calls st @ [(n, PR_ST_STOPPED, None)]" unfolding st'_def using r1 by (simp add: callback_def set_state_def)
  have "owners st' (set ns)"
    by (rule owners_deliver(1) [OF o1, of _ "(PR_ST_STOPPED, None)"]) (use c r1 in \<open>simp_all add: st'_def set_state_def\<close>)
  then show ?thesis using c r1 unfolding st'_def by (simp add: set_state_def kept_def)
qed

lemma stop_list_ok:
  assumes "owners st (set ns)" "distinct ns"
  shows "owners (stop_list ns st) {} \<and> pl_calls (stop_list ns st) = pl_calls st @ map (\<lambda>n. (n, PR_ST_STOPPED, None)) ns
    \<and> pl_pipe (stop_list ns st) = pl_pipe st \<and> pl_timeo_list (stop_list ns st) = []
    \<and> pl_no_timeo_list (stop_list ns st) = pl_no_timeo_list st \<and> pl_timeo_tree (stop_list ns st) = pl_timeo_tree st
    \<and> pl_tree_first (stop_list ns st) = pl_tree_first st \<and> pl_tree_last (stop_list ns st) = pl_tree_last st
    \<and> kept {} st (stop_list ns st)"
  using assms
proof (induction ns arbitrary: st)
  case Nil
  then show ?case by (simp add: owners_def piped_def delivered_def kept_def)
next
  case (Cons n ns)
  obtain st1 where st1: "st1 = callback n (set_state n PR_ST_STOPPED None (forget_fd n (st\<lparr>pl_timeo_list := ns\<rparr>)))" by blast
  note s = stop_list_step [OF Cons.prems, folded st1]
  have "owners st1 (set ns)" "distinct ns" using s Cons.prems(2) by auto
  note i = Cons.IH [OF this]
  have "kept {} st (stop_list ns st1)" using s i kept_trans by blast
  moreover have "stop_list (n # ns) st = stop_list ns st1" by (simp add: st1)
  ultimately show ?case using i s by simp
qed

lemma poller_stop_ok:
  assumes "valid st A" "pl_nodes st (pl_pipe_rd st) = None" "pl_nodes st (pl_pipe_wr st) = None"
    "bad_fd (pl_pipe_rd st) st = None" "bad_fd (pl_pipe_wr st) st = None"
  shows "\<exists>st' es. poller_stop st = Some (Ret st') \<and> valid st' {} \<and> pl_stopped st' \<and> pl_pipe st' = []
    \<and> distinct es \<and> set es = A \<and> delivered st' = delivered st @ piped st @ es
    \<and> (\<forall>m. pn_fd (pl_node st' m) = pn_fd (pl_node st m)) \<and> pl_max_open_files st' = pl_max_open_files st
    \<and> pl_pipe_rd st' = pl_pipe_rd st \<and> pl_pipe_wr st' = pl_pipe_wr st"
proof -
  let ?st1 = "st\<lparr>pl_stopped := True, pl_nodes := (pl_nodes st)(pl_pipe_rd st := None, pl_pipe_wr st := None)\<rparr>"
  have nodes1: "(pl_nodes st)(pl_pipe_rd st := None, pl_pipe_wr st := None) = pl_nodes st" using assms(2,3) by auto
  have "valid ?st1 A"
  proof -
    obtain xs where v: "links st xs" "armed st xs" "A = set (linked st xs)" "owners st A" "pl_max_open_files st \<le> 2 ^ 63"
      using assms(1) by (rule validE)
    have "owners ?st1 A" using v(4) nodes1 by (simp add: owners_def piped_def delivered_def)
    moreover have "links ?st1 xs" using v(1) by (subst links_cong [of _ st]) simp_all
    moreover have "armed ?st1 xs" using v(2) by (simp add: armed_def)
    ultimately show ?thesis using v(3,5) by (intro validI) (auto simp: linked_def)
  qed
  note p = handle_pipe_ok [OF this, of "length (pl_pipe ?st1)"]
  let ?st2 = "snd (handle_pipe (length (pl_pipe ?st1)) ?st1)"
  have pp: "pl_pipe ?st2 = []" using p(6) by simp
  have d2: "delivered ?st2 = delivered st @ piped st"
    using p(4) pp by (simp add: piped_def List.map_filter_def) (simp add: delivered_def)
  obtain xs where v: "links ?st2 xs" "A = set (linked ?st2 xs)" "owners ?st2 A" "pl_max_open_files ?st2 \<le> 2 ^ 63"
    using p(1) by (rule validE)
  let ?st3 = "?st2\<lparr>pl_tree_first := None, pl_tree_last := None\<rparr>"
  have "tree_nodes ?st3 xs" using v(1) by (auto simp: links_def deadline_tree_def tree_nodes_def)
  then obtain h ys where h: "drain_tree ?st3 = Some (Ret (?st3\<lparr>pl_timeo_tree := h, pl_timeo_list := ys @ pl_timeo_list ?st3\<rparr>))"
      "set ys = set xs" "distinct ys" "tree_nodes (?st3\<lparr>pl_timeo_tree := h\<rparr>) []"
    using drain_tree_ok by blast
  let ?es = "pl_no_timeo_list ?st2 @ ys @ pl_timeo_list ?st2"
  let ?st4 = "?st3\<lparr>pl_timeo_tree := h, pl_timeo_list := ?es, pl_no_timeo_list := []\<rparr>"
  have es: "set ?es = A" "distinct ?es" using v(1,2) h(2,3) by (auto simp: links_def linked_def)
  have "owners ?st4 (set ?es)" unfolding es(1) using v(3) by (simp add: owners_def piped_def delivered_def)
  note s = stop_list_ok [OF this es(2)]
  let ?st' = "stop_list ?es ?st4"
  have "poller_stop st = Some (Ret ?st')" using assms(4,5) h(1) by (simp add: poller_stop_def Let_def)
  moreover have "links ?st' []"
    using s h(4) by (simp add: links_def deadline_tree_def linked_def by_deadline_def tree_nodes_def)
  then have "valid ?st' {}"
    using s v(4) by (intro validI [of _ "[]"]) (auto simp: armed_def linked_def kept_def)
  moreover have "delivered ?st' = delivered st @ piped st @ ?es" using s d2 by (simp add: delivered_def comp_def)
  moreover have "pl_pipe ?st' = []" using s pp by simp
  moreover have "kept {} ?st1 ?st'" using p(2) s by (simp add: kept_def)
  ultimately show ?thesis using es by (intro exI [of _ ?st'] exI [of _ ?es]) (simp add: kept_def)
qed

end
