(* ===== verification/PollerProps.thy ===== *)
theory PollerProps
  imports PollerStop
begin

text \<open>
  The poller as a system: the threads that use its interface and its own thread, interleaved at the
  regions under its mutex. \<open>poller_run st added evs\<close>: the state \<open>st\<close> is reached, the nodes \<open>added\<close> were
  registered so far, and the thread has yet to handle the events \<open>evs\<close> that \<open>epoll_wait\<close> returned.
\<close>

section \<open>Runs\<close>

text \<open>What the environment promises: a new node is new, a descriptor is an \<open>int\<close> and not one of the pipe.\<close>

definition fresh :: "nat option \<Rightarrow> nat set \<Rightarrow> bool" where
  "fresh node added \<longleftrightarrow> (case node of None \<Rightarrow> True | Some n \<Rightarrow> n \<notin> added)"

definition user_fd :: "int \<Rightarrow> poller \<Rightarrow> bool" where
  "user_fd fd st \<longleftrightarrow> is_int fd \<and> fd \<noteq> pl_pipe_rd st \<and> fd \<noteq> pl_pipe_wr st"

definition joined :: "int \<Rightarrow> nat option \<Rightarrow> nat set \<Rightarrow> nat set" where
  "joined ret node added = (if ret = 0 then insert (the node) added else added)"

inductive poller_run :: "poller \<Rightarrow> nat set \<Rightarrow> nat list \<Rightarrow> bool" where
  run_create: "m \<le> 2 ^ 63 \<Longrightarrow> poller_run (poller_init m junk) {} []"
| run_start: "poller_run st added [] \<Longrightarrow> pl_stopped st \<Longrightarrow>
    (case pipefd of None \<Rightarrow> True | Some (rd, wr) \<Rightarrow> pl_nodes st rd = None \<and> pl_nodes st wr = None) \<Longrightarrow>
    poller_run (snd (poller_start pipefd thread st)) added []"
| run_add: "poller_run st added evs \<Longrightarrow> user_fd fd st \<Longrightarrow> clock_ok now \<Longrightarrow> fresh node added \<Longrightarrow>
    poller_add fd op msg timeout now ares node ctl st = Some (Ret (ret, e, st')) \<Longrightarrow>
    poller_run st' (joined ret node added) evs"
| run_mod: "poller_run st added evs \<Longrightarrow> user_fd fd st \<Longrightarrow> clock_ok now \<Longrightarrow> fresh node added \<Longrightarrow>
    poller_mod fd op msg timeout now ares node ctl st = Some (Ret (ret, e, st')) \<Longrightarrow>
    poller_run st' (joined ret node added) evs"
| run_del: "poller_run st added evs \<Longrightarrow> poller_del fd st = Some (Ret (ret, e, st')) \<Longrightarrow> poller_run st' added evs"
| run_set_timeout: "poller_run st added evs \<Longrightarrow> clock_ok now \<Longrightarrow>
    poller_set_timeout fd timeout now st = Some (Ret (ret, e, st')) \<Longrightarrow> poller_run st' added evs"
| run_add_timer: "poller_run st added evs \<Longrightarrow> clock_ok now \<Longrightarrow> 0 \<le> tv_sec v \<Longrightarrow> fresh node added \<Longrightarrow>
    poller_add_timer v now node st = Some (Ret (ret, e, st')) \<Longrightarrow> poller_run st' (joined ret node added) evs"
| run_timer: "poller_run st added [] \<Longrightarrow> poller_run (set_timer st) added []"
| run_wait: "poller_run st added [] \<Longrightarrow> \<not> pl_stopped st \<Longrightarrow> distinct evs \<Longrightarrow> \<forall>n\<in>set evs. \<exists>fd. pl_epoll st fd = Some n \<Longrightarrow>
    poller_run st added evs"
| run_keep: "poller_run st added (n # evs) \<Longrightarrow> poller_run st added evs"
| run_finish: "poller_run st added (n # evs) \<Longrightarrow> finish_node n s e st = Some (Ret st') \<Longrightarrow> poller_run st' added evs"
| run_pipe: "poller_run st added [] \<Longrightarrow> poller_run (snd (handle_pipe k st)) added []"
| run_timeout: "poller_run st added [] \<Longrightarrow> handle_timeout time st = Some (Ret st') \<Longrightarrow> poller_run st' added []"
| run_request: "poller_run st added evs \<Longrightarrow> \<not> pl_stopped st \<Longrightarrow> poller_run (stop_request st) added evs"
| run_stop: "poller_run st added [] \<Longrightarrow> \<not> pl_stopped st \<Longrightarrow> bad_fd (pl_pipe_rd st) st = None \<Longrightarrow>
    bad_fd (pl_pipe_wr st) st = None \<Longrightarrow> poller_stop st = Some (Ret st') \<Longrightarrow> poller_run st' added []"

section \<open>The invariant\<close>

text \<open>A node whose event is to be handled is registered, or waits in the pipe.\<close>

definition awaiting :: "poller \<Rightarrow> nat set \<Rightarrow> nat list \<Rightarrow> bool" where
  "awaiting st A evs \<longleftrightarrow> distinct evs \<and> (evs \<noteq> [] \<longrightarrow> \<not> pl_stopped st)
     \<and> (\<forall>n\<in>set evs. n \<in> A \<and> 0 \<le> pn_fd (pl_node st n) \<or> n \<in> set (piped st))"

definition run_inv :: "poller \<Rightarrow> nat set \<Rightarrow> nat list \<Rightarrow> nat set \<Rightarrow> bool" where
  "run_inv st added evs A \<longleftrightarrow> valid st A \<and> added = A \<union> set (piped st) \<union> set (delivered st) \<and> awaiting st A evs
     \<and> (pl_stopped st \<longrightarrow> piped st = []) \<and> pl_nodes st (pl_pipe_rd st) = None \<and> pl_nodes st (pl_pipe_wr st) = None"

lemma fresh_unknown: "run_inv st added evs A \<Longrightarrow> fresh node added \<Longrightarrow> node = Some n \<Longrightarrow> unknown st A n"
  by (auto simp: run_inv_def fresh_def unknown_def)

text \<open>The descriptors of the pipe stay out of the table.\<close>

lemma pipe_fds:
  assumes "valid st A" "valid st' A'" "kept N st st'" "A' \<subseteq> A - N" "pl_nodes st fd = None"
  shows "pl_nodes st' fd = None"
proof (rule ccontr)
  have o: "owners st A" "owners st' A'" using assms(1,2) by (auto elim: validE)
  assume "\<not> ?thesis"
  then obtain n where n: "pl_nodes st' fd = Some n" by auto
  note r = is_registered [OF o(2) n]
  then have "n \<in> A" "pn_fd (pl_node st n) = fd" using assms(3,4) by (auto simp: kept_def)
  then have "pl_nodes st fd = Some n" using owners_fd [OF o(1)] r(3) by blast
  then show False using assms(5) by simp
qed

lemma run_invI:
  assumes "run_inv st added evs A" "valid st' A'" "kept N st st'" "\<forall>n\<in>N. n \<notin> A \<and> n \<notin> set (piped st)"
    "pl_nodes st' (pl_pipe_rd st) = None \<and> pl_nodes st' (pl_pipe_wr st) = None"
    "added' = A' \<union> set (piped st') \<union> set (delivered st')" "pl_stopped st \<longrightarrow> piped st' = []"
    "set evs' \<subseteq> set evs" "distinct evs'" "\<forall>n\<in>set evs'. n \<in> A \<longrightarrow> n \<in> A' \<or> n \<in> set (piped st')"
    "\<forall>n\<in>set evs'. n \<in> set (piped st) \<longrightarrow> n \<in> set (piped st')"
  shows "run_inv st' added' evs' A'"
proof -
  have i: "valid st A" "awaiting st A evs" "pl_nodes st (pl_pipe_rd st) = None" "pl_nodes st (pl_pipe_wr st) = None"
    using assms(1) by (auto simp: run_inv_def)
  have k: "pl_stopped st' = pl_stopped st" "pl_pipe_rd st' = pl_pipe_rd st" "pl_pipe_wr st' = pl_pipe_wr st"
      "\<And>m. m \<notin> N \<Longrightarrow> pn_fd (pl_node st' m) = pn_fd (pl_node st m)"
    using assms(3) by (auto simp: kept_def)
  have nn: "n \<in> A \<Longrightarrow> n \<notin> N" for n using assms(4) by blast
  have "awaiting st' A' evs'"
    unfolding awaiting_def
  proof (intro conjI ballI)
    show "distinct evs'" by (rule assms(9))
    show "evs' \<noteq> [] \<longrightarrow> \<not> pl_stopped st'" using i(2) assms(8) k(1) by (auto simp: awaiting_def)
    fix n assume n: "n \<in> set evs'"
    then consider "n \<in> A" "0 \<le> pn_fd (pl_node st n)" | "n \<in> set (piped st)"
      using i(2) assms(8) by (auto simp: awaiting_def)
    then show "n \<in> A' \<and> 0 \<le> pn_fd (pl_node st' n) \<or> n \<in> set (piped st')"
    proof cases
      case 1
      then show ?thesis using assms(10) n k(4) [OF nn] by auto
    next
      case 2
      then show ?thesis using assms(11) n by blast
    qed
  qed
  then show ?thesis using assms(2,5-7) k by (simp add: run_inv_def)
qed


lemma run_invD:
  assumes "run_inv st added evs A"
  shows "valid st A" "owners st A" "added = A \<union> set (piped st) \<union> set (delivered st)" "awaiting st A evs" "distinct evs"
    "pl_stopped st \<Longrightarrow> piped st = []"
  using assms by (auto simp: run_inv_def awaiting_def elim: validE)

lemma inv_create: "m \<le> 2 ^ 63 \<Longrightarrow> run_inv (poller_init m junk) {} [] {}"
proof -
  assume m: "m \<le> 2 ^ 63"
  let ?st = "poller_init m junk"
  have "tree_nodes ?st []"
    unfolding tree_nodes_def by (intro exI [of _ Lf]) (auto simp: poller_init_def holds_tree_def at_def is_rbt_def)
  then have "links ?st []" by (simp add: links_def deadline_tree_def linked_def by_deadline_def poller_init_def)
  moreover have "armed ?st []" by (simp add: armed_def poller_init_def)
  moreover have "owners ?st {}" by (simp add: owners_def piped_def delivered_def poller_init_def List.map_filter_def)
  ultimately have "valid ?st {}" using m by (intro validI) (auto simp: linked_def poller_init_def)
  then show ?thesis by (simp add: run_inv_def awaiting_def piped_def delivered_def poller_init_def List.map_filter_def)
qed

lemma inv_joined:
  assumes "run_inv st added evs A" "fresh node added"
    "ret = -1 \<and> st' = st \<or> ret = 0 \<and> (\<exists>n. node = Some n \<and> valid st' (insert n A) \<and> piped st' = piped st
       \<and> delivered st' = delivered st \<and> kept {n} st st' \<and> pl_nodes st' (pl_pipe_rd st) = None \<and> pl_nodes st' (pl_pipe_wr st) = None)"
  shows "\<exists>A'. run_inv st' (joined ret node added) evs A'"
  using assms(3)
proof (elim disjE conjE exE)
  fix n assume n: "ret = 0" "node = Some n" "valid st' (insert n A)" "piped st' = piped st" "delivered st' = delivered st"
    "kept {n} st st'" "pl_nodes st' (pl_pipe_rd st) = None" "pl_nodes st' (pl_pipe_wr st) = None"
  note i = run_invD [OF assms(1)]
  have "unknown st A n" using fresh_unknown [OF assms(1,2) n(2)] .
  then have "run_inv st' (insert n added) evs (insert n A)"
    using i n by (intro run_invI [OF assms(1) n(3,6)]) (auto simp: unknown_def)
  then show ?thesis using n(1,2) by (auto simp: joined_def)
qed (use assms(1) in \<open>auto simp: joined_def\<close>)

text \<open>Nodes only leave: for the pipe, the user, or not at all.\<close>

lemma inv_leave:
  assumes "run_inv st added evs A" "valid st' A'" "kept {} st st'" "A' \<subseteq> A"
    "A' \<union> set (piped st') \<union> set (delivered st') = A \<union> set (piped st) \<union> set (delivered st)"
    "pl_stopped st \<longrightarrow> piped st' = []" "set evs' \<subseteq> set evs" "distinct evs'"
    "\<forall>n\<in>set evs'. n \<in> A \<longrightarrow> n \<in> A' \<or> n \<in> set (piped st')" "\<forall>n\<in>set evs'. n \<in> set (piped st) \<longrightarrow> n \<in> set (piped st')"
  shows "run_inv st' added evs' A'"
proof -
  have "pl_nodes st (pl_pipe_rd st) = None" "pl_nodes st (pl_pipe_wr st) = None" using assms(1) by (simp_all add: run_inv_def)
  then have "pl_nodes st' (pl_pipe_rd st) = None" "pl_nodes st' (pl_pipe_wr st) = None"
    using pipe_fds [OF run_invD(1) [OF assms(1)] assms(2,3)] assms(4) by auto
  then show ?thesis
    using assms(4-10) run_invD(3) [OF assms(1)] by (intro run_invI [OF assms(1-3)]) auto
qed

lemma inv_mod:
  assumes "run_inv st added evs A" "user_fd fd st" "fresh node added"
    "ret = -1 \<and> st' = st \<or> ret = 0 \<and> (\<exists>n old. node = Some n \<and> pl_nodes st fd = Some old \<and> old \<in> A
         \<and> valid st' (insert n (A - {old})) \<and> passed old st st' \<and> kept {n} st st' \<and> pl_nodes st' = (pl_nodes st)(fd := Some n))"
  shows "\<exists>A'. run_inv st' (joined ret node added) evs A'"
  using assms(4)
proof (elim disjE conjE exE)
  fix n old assume n: "ret = 0" "node = Some n" "pl_nodes st fd = Some old" "old \<in> A" "valid st' (insert n (A - {old}))"
    "passed old st st'" "kept {n} st st'" "pl_nodes st' = (pl_nodes st)(fd := Some n)"
  note i = run_invD [OF assms(1)]
  have u: "unknown st A n" using fresh_unknown [OF assms(1,3) n(2)] .
  have p: "pl_nodes st (pl_pipe_rd st) = None" "pl_nodes st (pl_pipe_wr st) = None" using assms(1) by (simp_all add: run_inv_def)
  have "run_inv st' (insert n added) evs (insert n (A - {old}))"
  proof (rule run_invI [OF assms(1) n(5,7)])
    show "pl_nodes st' (pl_pipe_rd st) = None \<and> pl_nodes st' (pl_pipe_wr st) = None" using p assms(2) n(8) by (auto simp: user_fd_def)
    show "insert n added = insert n (A - {old}) \<union> set (piped st') \<union> set (delivered st')"
      using i(3) n(4,6) by (auto simp: passed_def split: if_splits)
    show "pl_stopped st \<longrightarrow> piped st' = []" using i(6) n(6) by (auto simp: passed_def)
    show "\<forall>m\<in>set evs. m \<in> A \<longrightarrow> m \<in> insert n (A - {old}) \<or> m \<in> set (piped st')"
      using i(4) n(6) by (cases "evs = []") (auto simp: passed_def awaiting_def)
    show "\<forall>m\<in>set evs. m \<in> set (piped st) \<longrightarrow> m \<in> set (piped st')" using n(6) by (auto simp: passed_def split: if_splits)
  qed (use u i(5) in \<open>auto simp: unknown_def\<close>)
  then show ?thesis using n(1,2) by (auto simp: joined_def)
qed (use assms(1) in \<open>auto simp: joined_def\<close>)

lemma inv_del:
  assumes "run_inv st added evs A"
    "ret = -1 \<and> e \<noteq> None \<and> st' = st \<or> ret = 0 \<and> (\<exists>n. pl_nodes st fd = Some n \<and> n \<in> A \<and> valid st' (A - {n}) \<and> passed n st st' \<and> kept {} st st')"
  shows "\<exists>A'. run_inv st' added evs A'"
  using assms(2)
proof (elim disjE conjE exE)
  fix n assume n: "n \<in> A" "valid st' (A - {n})" "passed n st st'" "kept {} st st'"
  note i = run_invD [OF assms(1)]
  have "run_inv st' added evs (A - {n})"
  proof (rule inv_leave [OF assms(1) n(2,4)])
    show "A - {n} \<union> set (piped st') \<union> set (delivered st') = A \<union> set (piped st) \<union> set (delivered st)"
      using n(1,3) by (auto simp: passed_def split: if_splits)
    show "pl_stopped st \<longrightarrow> piped st' = []" using i(6) n(3) by (auto simp: passed_def)
    show "\<forall>m\<in>set evs. m \<in> A \<longrightarrow> m \<in> A - {n} \<or> m \<in> set (piped st')"
      using i(4) n(3) by (cases "evs = []") (auto simp: passed_def awaiting_def)
    show "\<forall>m\<in>set evs. m \<in> set (piped st) \<longrightarrow> m \<in> set (piped st')" using n(3) by (auto simp: passed_def split: if_splits)
  qed (use i(5) in auto)
  then show ?thesis by blast
qed (use assms(1) in auto)

lemma inv_wait:
  assumes "run_inv st added [] A" "\<not> pl_stopped st" "distinct evs" "\<forall>n\<in>set evs. \<exists>fd. pl_epoll st fd = Some n"
  shows "run_inv st added evs A"
proof -
  note i = run_invD [OF assms(1)]
  have "n \<in> A \<and> 0 \<le> pn_fd (pl_node st n)" if "n \<in> set evs" for n
    using assms(4) that is_registered [OF i(2)] ownersD(6) [OF i(2)] by metis
  then show ?thesis using assms by (auto simp: run_inv_def awaiting_def)
qed

lemma inv_finish:
  assumes "run_inv st added (n # evs) A"
  shows "\<exists>st'. finish_node n s e st = Some (Ret st')" "finish_node n s e st = Some (Ret st') \<Longrightarrow> \<exists>A'. run_inv st' added evs A'"
    "n \<notin> set (delivered st)"
proof -
  note i = run_invD [OF assms(1)]
  have n: "n \<in> A \<and> 0 \<le> pn_fd (pl_node st n) \<or> n \<in> set (piped st)" using i(4) by (simp add: awaiting_def)
  have "pl_nodes st (pn_fd (pl_node st n)) = Some n \<or> n \<in> set (piped st)" using n owners_fd [OF i(2)] by blast
  from finish_node_ok [OF i(1) this, of s e] obtain st1 where st1: "finish_node n s e st = Some (Ret st1)" "kept {} st st1"
      "piped st1 = piped st" "valid st1 (A - {n})"
      "if n \<in> set (piped st) then st1 = st else n \<in> A \<and> pl_calls st1 = pl_calls st @ [(n, s, e)]" by blast
  show "\<exists>st'. finish_node n s e st = Some (Ret st')" using st1(1) by blast
  show "n \<notin> set (delivered st)" using n ownersD(1,2) [OF i(2)] by auto
  have "run_inv st1 added evs (A - {n})"
  proof (rule inv_leave [OF assms st1(4,2)])
    show "A - {n} \<union> set (piped st1) \<union> set (delivered st1) = A \<union> set (piped st) \<union> set (delivered st)"
      using st1(3,5) by (auto simp: delivered_def split: if_splits)
    show "pl_stopped st \<longrightarrow> piped st1 = []" using i(6) st1(3) by simp
  qed (use i(5) st1(3) in auto)
  then show "\<exists>A'. run_inv st' added evs A'" if "finish_node n s e st = Some (Ret st')" using that st1(1) by auto
qed

lemma inv_pipe:
  assumes "run_inv st added [] A"
  shows "run_inv (snd (handle_pipe k st)) added [] A"
proof -
  note i = run_invD [OF assms]
  note p = handle_pipe_ok [OF i(1), of k]
  show ?thesis
  proof (rule inv_leave [OF assms p(1,2)])
    have "set (delivered (snd (handle_pipe k st))) \<union> set (piped (snd (handle_pipe k st))) = set (delivered st) \<union> set (piped st)"
      using arg_cong [OF p(4), of set] by simp
    then show "A \<union> set (piped (snd (handle_pipe k st))) \<union> set (delivered (snd (handle_pipe k st))) = A \<union> set (piped st) \<union> set (delivered st)"
      by auto
    show "pl_stopped st \<longrightarrow> piped (snd (handle_pipe k st)) = []" using i(6) p(5) by auto
  qed auto
qed

lemma inv_timer:
  assumes "run_inv st added [] A"
  shows "run_inv (set_timer st) added [] A"
proof -
  note i = run_invD [OF assms]
  show ?thesis using i(6) set_timer_valid [OF i(1)] by (intro inv_leave [OF assms]) auto
qed

lemma inv_timeout:
  assumes "run_inv st added [] A" "handle_timeout time st = Some (Ret st')"
  shows "\<exists>A'. run_inv st' added [] A'"
proof -
  note i = run_invD [OF assms(1)]
  obtain xs where w: "valid_with st A xs" using i(1) by (rule valid_withE)
  define es where "es = takeWhile (late time st) (pl_timeo_list st) @ takeWhile (overdue time st) xs"
  have es: "valid st' (A - set es)" "set es \<subseteq> A" "pl_calls st' = pl_calls st @ map (\<lambda>n. (n, PR_ST_ERROR, Some P_ETIMEDOUT)) es"
      "piped st' = piped st" "kept {} st st'"
    using handle_timeout_ok [OF w, of time, folded es_def] assms(2) by auto
  have "delivered st' = delivered st @ es" using es(3) by (simp add: delivered_def comp_def)
  then have "run_inv st' added [] (A - set es)" using i(6) es by (intro inv_leave [OF assms(1) es(1,5)]) auto
  then show ?thesis by blast
qed

lemma inv_same:
  assumes "run_inv st added evs A" "valid st' A" "piped st' = piped st" "delivered st' = delivered st"
    "pl_node st' = pl_node st" "pl_stopped st' = pl_stopped st \<or> evs = []" "pl_stopped st' \<longrightarrow> piped st = []"
    "pl_nodes st' (pl_pipe_rd st') = None" "pl_nodes st' (pl_pipe_wr st') = None"
  shows "run_inv st' added evs A"
  using assms by (auto simp: run_inv_def awaiting_def)

lemma valid_same:
  assumes "valid st A"
  shows "valid (st\<lparr>pl_pipe_rd := rd, pl_pipe_wr := wr, pl_stopped := s\<rparr>) A" "valid (stop_request st) A"
    "piped (stop_request st) = piped st" "delivered (stop_request st) = delivered st"
proof -
  obtain xs where v: "links st xs" "armed st xs" "A = set (linked st xs)" "owners st A" "pl_max_open_files st \<le> 2 ^ 63"
    using assms by (rule validE)
  let ?st = "st\<lparr>pl_pipe_rd := rd, pl_pipe_wr := wr, pl_stopped := s\<rparr>"
  have "links ?st xs" using v(1) by (subst links_cong [of _ st]) simp_all
  moreover have "armed ?st xs" "owners ?st A" "A = set (linked ?st xs)" using v(2-4)
    by (simp_all add: armed_def owners_def linked_def piped_def delivered_def)
  ultimately show "valid ?st A" using v(5) by (intro validI) auto
  let ?st = "stop_request st"
  show p: "piped ?st = piped st" "delivered ?st = delivered st" by (simp_all add: stop_request_def piped_def delivered_def List.map_filter_def)
  have "links ?st xs" using v(1) by (subst links_cong [of _ st]) (simp_all add: stop_request_def)
  moreover have "owners ?st A" using v(4) p by (simp add: owners_def) (simp add: stop_request_def)
  moreover have "armed ?st xs" "A = set (linked ?st xs)" using v(2,3) by (simp_all add: armed_def linked_def stop_request_def)
  ultimately show "valid ?st A" using v(5) by (intro validI) (auto simp: stop_request_def)
qed

lemma inv_start:
  assumes "run_inv st added [] A" "pl_stopped st"
    "case pipefd of None \<Rightarrow> True | Some (rd, wr) \<Rightarrow> pl_nodes st rd = None \<and> pl_nodes st wr = None"
  shows "run_inv (snd (poller_start pipefd thread st)) added [] A"
proof (cases pipefd)
  case None
  then show ?thesis using assms(1) by (simp add: poller_start_def)
next
  case (Some p)
  obtain rd wr where p: "p = (rd, wr)" by (cases p)
  note i = run_invD [OF assms(1)]
  have "snd (poller_start pipefd thread st) = st\<lparr>pl_pipe_rd := rd, pl_pipe_wr := wr, pl_stopped := \<not> thread\<rparr>"
    using Some p assms(2) by (simp add: poller_start_def Let_def)
  then show ?thesis
    using valid_same(1) [OF i(1)] i(6) assms(2,3) Some p
    by (intro inv_same [OF assms(1)]) (auto simp: piped_def delivered_def)
qed

lemma inv_request:
  assumes "run_inv st added evs A" "\<not> pl_stopped st"
  shows "run_inv (stop_request st) added evs A"
proof -
  note i = run_invD [OF assms(1)]
  show ?thesis
    by (rule inv_same [OF assms(1)]) (use valid_same(2-4) [OF i(1)] assms in \<open>auto simp: stop_request_def run_inv_def\<close>)
qed

lemma inv_stop:
  assumes "run_inv st added [] A" "bad_fd (pl_pipe_rd st) st = None" "bad_fd (pl_pipe_wr st) st = None"
  shows "\<exists>st'. poller_stop st = Some (Ret st') \<and> run_inv st' added [] {} \<and> pl_stopped st' \<and> piped st' = []"
proof -
  note i = run_invD [OF assms(1)]
  have p: "pl_nodes st (pl_pipe_rd st) = None" "pl_nodes st (pl_pipe_wr st) = None" using assms(1) by (simp_all add: run_inv_def)
  obtain st' es where st': "poller_stop st = Some (Ret st')" "valid st' {}" "pl_stopped st'" "pl_pipe st' = []" "set es = A"
      "delivered st' = delivered st @ piped st @ es"
    using poller_stop_ok [OF i(1) p assms(2,3)] by blast
  have "pl_nodes st' fd = None" for fd
  proof (rule ccontr)
    assume "\<not> ?thesis"
    then obtain n where "pl_nodes st' fd = Some n" by auto
    moreover have "owners st' {}" using st'(2) by (auto elim: validE)
    ultimately show False using is_registered(1) by fastforce
  qed
  then have "run_inv st' added [] {}" using st' i(3) by (auto simp: run_inv_def awaiting_def piped_def List.map_filter_def)
  then show ?thesis using st' by (auto simp: piped_def List.map_filter_def)
qed

section \<open>Reachable states\<close>

lemma run_inv_reachable: "poller_run st added evs \<Longrightarrow> \<exists>A. run_inv st added evs A"
proof (induction rule: poller_run.induct)
  case (run_create m junk)
  then show ?case using inv_create by blast
next
  case (run_start st added pipefd thread)
  then show ?case using inv_start by blast
next
  case (run_add st added evs fd now node op msg timeout ares ctl ret e st')
  then obtain A where A: "run_inv st added evs A" by blast
  have fd: "is_int fd" "fd \<noteq> pl_pipe_rd st" "fd \<noteq> pl_pipe_wr st" using run_add.hyps by (auto simp: user_fd_def)
  have "pl_nodes st (pl_pipe_rd st) = None" "pl_nodes st (pl_pipe_wr st) = None" using A by (simp_all add: run_inv_def)
  then show ?case
    using poller_add_ok [OF run_invD(1) [OF A] fd(1), of now node op msg timeout ares ctl] fresh_unknown [OF A] run_add.hyps fd
    by (intro inv_joined [OF A]) auto
next
  case (run_mod st added evs fd now node op msg timeout ares ctl ret e st')
  then obtain A where A: "run_inv st added evs A" by blast
  have fd: "is_int fd" using run_mod.hyps by (auto simp: user_fd_def)
  show ?case
    using poller_mod_ok [OF run_invD(1) [OF A] fd, of now node op msg timeout ares ctl] fresh_unknown [OF A] run_mod.hyps
    by (intro inv_mod [OF A]) auto
next
  case (run_del st added evs fd ret e st')
  then obtain A where A: "run_inv st added evs A" by blast
  show ?case using poller_del_ok [OF run_invD(1) [OF A], of fd] run_del.hyps by (intro inv_del [OF A]) auto
next
  case (run_set_timeout st added evs now fd timeout ret e st')
  then obtain A where A: "run_inv st added evs A" by blast
  note i = run_invD [OF A]
  have "valid st' A" "piped st' = piped st" "delivered st' = delivered st" "kept {} st st'"
    using poller_set_timeout_ok [OF i(1), of now fd timeout] run_set_timeout.hyps by auto
  then have "run_inv st' added evs A" using i(5,6) by (intro inv_leave [OF A]) auto
  then show ?case by blast
next
  case (run_add_timer st added evs now v node ret e st')
  then obtain A where A: "run_inv st added evs A" by blast
  have "pl_nodes st (pl_pipe_rd st) = None" "pl_nodes st (pl_pipe_wr st) = None" using A by (simp_all add: run_inv_def)
  then show ?case
    using poller_add_timer_ok [OF run_invD(1) [OF A], of now v node] fresh_unknown [OF A] run_add_timer.hyps
    by (intro inv_joined [OF A]) auto
next
  case (run_wait st added evs)
  then show ?case using inv_wait by blast
next
  case (run_keep st added n evs)
  then show ?case by (auto simp: run_inv_def awaiting_def)
next
  case (run_finish st added n evs s e st')
  then show ?case using inv_finish(2) by blast
next
  case (run_timeout st added time st')
  then show ?case using inv_timeout by blast
next
  case (run_stop st added st')
  then show ?case using inv_stop by fastforce
qed (use inv_timer inv_pipe inv_request in blast)+

end
