(* ===== verification/PollerReach.thy ===== *)
theory PollerReach
  imports PollerProps
begin

text \<open>What holds in every reachable state of the poller.\<close>

section \<open>A run\<close>

text \<open>A poller for 1024 files with its pipe, on which descriptor 5 was added with a timeout of a second.\<close>

definition now_0 :: timespec where
  "now_0 = \<lparr>tv_sec = 100, tv_nsec = 0\<rparr>"

definition blank :: poller_node where
  "blank = \<lparr>pn_state = PR_ST_SUCCESS, pn_error = None, pn_fd = 0, pn_op = PD_OP_READ, pn_in_rbtree = False,
     pn_removed = False, pn_event = IN_ET, pn_timeout = now_0, pn_res = False\<rparr>"

definition started :: poller where
  "started = snd (poller_start (Some (8, 9)) True (poller_init 1024 (\<lambda>_. blank)))"

definition with_read :: poller where
  "with_read = (case poller_add 5 PD_OP_READ False 1000 now_0 False (Some 7) True started of Some (Ret (_, _, st)) \<Rightarrow> st | _ \<Rightarrow> started)"

lemma started_run: "poller_run started {} []"
proof -
  have "poller_run (poller_init 1024 (\<lambda>_. blank)) {} []" by (rule run_create) simp
  then show ?thesis unfolding started_def by (rule run_start) (simp_all add: poller_init_def)
qed

lemma with_read_eq: "poller_add 5 PD_OP_READ False 1000 now_0 False (Some 7) True started = Some (Ret (0, None, with_read))"
  by (simp add: with_read_def started_def poller_add_def poller_start_def poller_init_def bad_fd_def data_get_event_def Let_def
      enter_node_def insert_node_def)

lemma with_read_run: "poller_run with_read {7} []"
proof -
  have "poller_run with_read (joined 0 (Some 7) {}) []"
    by (rule run_add [OF started_run _ _ _ with_read_eq])
      (auto simp: user_fd_def is_int_def started_def poller_start_def poller_init_def clock_ok_def now_0_def fresh_def)
  then show ?thesis by (simp add: joined_def)
qed

lemma with_read_reads: "pl_stopped with_read = False" "pl_pipe_rd with_read = 8" "pl_pipe_wr with_read = 9"
    "pl_max_open_files with_read = 1024" "pl_timeo_list with_read = [7]" "pl_calls with_read = []" "pl_pipe with_read = []"
    "pl_epoll with_read 5 = Some 7" "pn_timeout (pl_node with_read 7) = \<lparr>tv_sec = 101, tv_nsec = 0\<rparr>"
    "pl_timerfd with_read = Some \<lparr>tv_sec = 101, tv_nsec = 0\<rparr>" "pl_nodes with_read 5 = Some 7"
  by (simp_all add: with_read_def started_def poller_add_def poller_start_def poller_init_def bad_fd_def data_get_event_def Let_def
      enter_node_def insert_node_def new_node_def add_millis_def now_0_def set_timerfd_def)

lemma with_event_run: "poller_run with_read {7} [7]"
  by (rule run_wait [OF with_read_run]) (use with_read_reads in auto)

section \<open>The properties\<close>

text \<open>
  C6. In every reachable state every node that was added is in exactly one place: registered, in the
  pipe, or handed to the user, once; the registered nodes are the ones linked in exactly one of the two
  lists and the tree, the tree is a balanced search tree of deadlines with pointers to its ends, the
  table and the kernel know exactly the registered descriptors; a node whose event has been
  returned but not handled has not been handed to the user, so no handler meets a freed node.
\<close>

theorem poller_reachable_inv:
  assumes "poller_run st added evs"
  shows "\<exists>A. poller_inv st A \<and> added = A \<union> set (piped st) \<union> set (delivered st) \<and> distinct evs
    \<and> (\<forall>n\<in>set evs. n \<in> A \<and> pl_nodes st (pn_fd (pl_node st n)) = Some n \<or> n \<in> set (piped st) \<and> pn_removed (pl_node st n))"
proof -
  obtain A where A: "run_inv st added evs A" using run_inv_reachable [OF assms] by blast
  note i = run_invD [OF A]
  have "n \<in> A \<and> pl_nodes st (pn_fd (pl_node st n)) = Some n \<or> n \<in> set (piped st) \<and> pn_removed (pl_node st n)" if "n \<in> set evs" for n
    using i(4) that owners_fd [OF i(2), of n] ownersD(4) [OF i(2), of n] unfolding awaiting_def by blast
  then show ?thesis using i(1,3,5) unfolding valid_def by blast
qed

theorem poller_reachable_inv_witness:
  "\<exists>A. poller_inv with_read A \<and> {7} = A \<union> set (piped with_read) \<union> set (delivered with_read)"
  using poller_reachable_inv [OF with_event_run] by blast

text \<open>
  C24. In every reachable state every operation of the interface and every step of the thread returns,
  follows no null pointer and stays in the table, whatever the descriptors, timeouts and failures
  of \<open>malloc\<close> and \<open>epoll_ctl\<close> are; and a failing operation changes nothing.
\<close>

theorem poller_operations_return:
  assumes "poller_run st added evs" "user_fd fd st" "clock_ok now" "fresh node added" "0 \<le> tv_sec v"
  shows "(\<exists>ret e st'. poller_add fd op msg timeout now ares node ctl st = Some (Ret (ret, e, st')) \<and> (ret = -1 \<and> st' = st \<or> ret = 0))
    \<and> (\<exists>ret e st'. poller_mod fd op msg timeout now ares node ctl st = Some (Ret (ret, e, st')) \<and> (ret = -1 \<and> st' = st \<or> ret = 0))
    \<and> (\<exists>ret e st'. poller_del fd st = Some (Ret (ret, e, st')) \<and> (ret = -1 \<and> e \<noteq> None \<and> st' = st \<or> ret = 0))
    \<and> (\<exists>ret e st'. poller_set_timeout fd timeout now st = Some (Ret (ret, e, st')) \<and> (ret = -1 \<and> e \<noteq> None \<and> st' = st \<or> ret = 0))
    \<and> (\<exists>ret e st'. poller_add_timer v now node st = Some (Ret (ret, e, st')) \<and> (ret = -1 \<and> st' = st \<or> ret = 0))
    \<and> (\<forall>n s err. n \<in> set evs \<longrightarrow> (\<exists>st'. finish_node n s err st = Some (Ret st')))
    \<and> (\<exists>st'. handle_timeout time st = Some (Ret st'))"
proof -
  obtain A where A: "run_inv st added evs A" using run_inv_reachable [OF assms(1)] by blast
  note i = run_invD [OF A] and fr = fresh_unknown [OF A assms(4)]
  have fd: "is_int fd" using assms(2) by (simp add: user_fd_def)
  obtain xs where w: "valid_with st A xs" using i(1) by (rule valid_withE)
  have "\<exists>st'. finish_node n s err st = Some (Ret st')" if "n \<in> set evs" for n s err
  proof -
    have "pl_nodes st (pn_fd (pl_node st n)) = Some n \<or> n \<in> set (piped st)"
      using i(4) that owners_fd [OF i(2), of n] unfolding awaiting_def by blast
    then show ?thesis using finish_node_ok [OF i(1)] by blast
  qed
  moreover have "\<exists>st'. handle_timeout time st = Some (Ret st')" using handle_timeout_ok [OF w, of time] by blast
  ultimately show ?thesis
    using poller_add_ok [OF i(1) fd assms(3), of node op msg timeout ares ctl]
      poller_mod_ok [OF i(1) fd assms(3), of node op msg timeout ares ctl] poller_del_ok [OF i(1), of fd]
      poller_set_timeout_ok [OF i(1) assms(3), of fd timeout] poller_add_timer_ok [OF i(1) assms(3,5), of node] fr
    by blast
qed

theorem poller_operations_return_witness:
  "(\<exists>ret e st'. poller_del 5 with_read = Some (Ret (ret, e, st')) \<and> (ret = -1 \<and> e \<noteq> None \<and> st' = with_read \<or> ret = 0))
    \<and> (\<exists>st'. finish_node 7 PR_ST_FINISHED None with_read = Some (Ret st'))"
proof -
  have "user_fd 5 with_read" "clock_ok now_0" "fresh (Some 3) {7}" "0 \<le> tv_sec now_0"
    by (simp_all add: user_fd_def is_int_def with_read_reads clock_ok_def now_0_def fresh_def)
  from poller_operations_return [OF with_event_run this] show ?thesis by simp
qed

text \<open>
  C26. When the thread handles the deadlines at a time, exactly the nodes whose deadline is over get
  the error \<open>ETIMEDOUT\<close>, each once, and they leave the table and the kernel: first those of the list, in
  the order of their deadlines, then those of the tree, in the order of theirs, so the order is not
  that of all deadlines.
\<close>

theorem poller_timeout_exact:
  assumes "poller_run st added evs"
  shows "\<exists>xs st'. deadline_tree st xs \<and> handle_timeout time st = Some (Ret st')
    \<and> pl_calls st' = pl_calls st @ map (\<lambda>n. (n, PR_ST_ERROR, Some P_ETIMEDOUT))
        (filter (\<lambda>n. timespec_cmp (pn_timeout (pl_node st n)) time \<le> 0) (pl_timeo_list st)
         @ filter (\<lambda>n. timespec_cmp (pn_timeout (pl_node st n)) time < 0) xs)
    \<and> sorted_wrt (\<lambda>m n. timespec_cmp (pn_timeout (pl_node st m)) (pn_timeout (pl_node st n)) \<le> 0) (pl_timeo_list st)
    \<and> sorted_wrt (\<lambda>m n. timespec_cmp (pn_timeout (pl_node st m)) (pn_timeout (pl_node st n)) \<le> 0) xs
    \<and> distinct (pl_timeo_list st @ xs) \<and> distinct (delivered st')
    \<and> (\<forall>fd n. n \<in> set (delivered st') \<longrightarrow> pl_nodes st' fd \<noteq> Some n \<and> pl_epoll st' fd \<noteq> Some n)"
proof -
  obtain A where A: "run_inv st added evs A" using run_inv_reachable [OF assms] by blast
  note i = run_invD [OF A]
  obtain xs where w: "valid_with st A xs" using i(1) by (rule valid_withE)
  define es where "es = takeWhile (late time st) (pl_timeo_list st) @ takeWhile (overdue time st) xs"
  obtain st' where st': "handle_timeout time st = Some (Ret st')" "valid st' (A - set es)"
      "pl_calls st' = pl_calls st @ map (\<lambda>n. (n, PR_ST_ERROR, Some P_ETIMEDOUT)) es"
    using handle_timeout_ok [OF w, of time, folded es_def] by blast
  have l: "deadline_tree st xs" "by_deadline st xs" "by_deadline st (pl_timeo_list st)"
    using w by (auto simp: valid_with_def links_def deadline_tree_def)
  have es: "es = filter (\<lambda>n. timespec_cmp (pn_timeout (pl_node st n)) time \<le> 0) (pl_timeo_list st)
      @ filter (\<lambda>n. timespec_cmp (pn_timeout (pl_node st n)) time < 0) xs"
    unfolding es_def takeWhile_expired(1) [OF l(3)] takeWhile_expired(2) [OF l(2)] late_def overdue_def ..
  have o: "owners st' (A - set es)" using st'(2) by (auto elim: validE)
  have "pl_nodes st' fd \<noteq> Some n \<and> pl_epoll st' fd \<noteq> Some n" if "n \<in> set (delivered st')" for fd n
    using that ownersD(2,6) [OF o] is_registered(1) [OF o, of fd n] by auto
  moreover have "distinct (pl_timeo_list st @ xs)" using w by (auto simp: valid_with_def links_def linked_def)
  moreover have "distinct (delivered st')" using o by (simp add: owners_def)
  moreover note l(2,3) [unfolded by_deadline_def timeout_cmp_def]
  ultimately show ?thesis using l(1) st'(1,3) unfolding es by blast
qed

theorem poller_timeout_exact_witness:
  "\<exists>st'. handle_timeout \<lparr>tv_sec = 101, tv_nsec = 0\<rparr> with_read = Some (Ret st') \<and> pl_nodes st' 5 \<noteq> Some 7"
proof -
  obtain xs st' where st': "handle_timeout \<lparr>tv_sec = 101, tv_nsec = 0\<rparr> with_read = Some (Ret st')"
    "pl_calls st' = [(7, PR_ST_ERROR, Some P_ETIMEDOUT)] @ map (\<lambda>n. (n, PR_ST_ERROR, Some P_ETIMEDOUT))
       (filter (\<lambda>n. timespec_cmp (pn_timeout (pl_node with_read n)) \<lparr>tv_sec = 101, tv_nsec = 0\<rparr> < 0) xs)"
    "\<forall>fd n. n \<in> set (delivered st') \<longrightarrow> pl_nodes st' fd \<noteq> Some n \<and> pl_epoll st' fd \<noteq> Some n"
    using poller_timeout_exact [OF with_event_run, of "\<lparr>tv_sec = 101, tv_nsec = 0\<rparr>"]
    by (auto simp: with_read_reads timespec_cmp_def)
  then have "7 \<in> set (delivered st')" by (simp add: delivered_def)
  then show ?thesis using st' by blast
qed

text \<open>
  C25. \<open>poller_stop\<close> hands every node that was ever added to the user, each exactly once over the
  whole run, and leaves nothing in the table, the pipe and the kernel.
\<close>

theorem poller_stop_delivers_all:
  assumes "poller_run st added []" "bad_fd (pl_pipe_rd st) st = None" "bad_fd (pl_pipe_wr st) st = None"
  shows "\<exists>st'. poller_stop st = Some (Ret st') \<and> set (delivered st') = added \<and> distinct (delivered st') \<and> piped st' = []
    \<and> (\<forall>fd. pl_nodes st' fd = None \<and> pl_epoll st' fd = None)"
proof -
  obtain A where A: "run_inv st added [] A" using run_inv_reachable [OF assms(1)] by blast
  obtain st' where st': "poller_stop st = Some (Ret st')" "run_inv st' added [] {}" "piped st' = []"
    using inv_stop [OF A assms(2,3)] by blast
  note i = run_invD [OF st'(2)]
  have "pl_nodes st' fd = None \<and> pl_epoll st' fd = None" for fd
    using is_registered(1) [OF i(2), of fd] ownersD(6) [OF i(2)] by (cases "pl_nodes st' fd") auto
  then show ?thesis using st'(1,3) i(3) ownersD(1) [OF i(2)] by auto
qed

theorem poller_stop_delivers_all_witness:
  "\<exists>st'. poller_stop with_read = Some (Ret st') \<and> set (delivered st') = {7} \<and> distinct (delivered st')"
  using poller_stop_delivers_all [OF with_read_run] by (auto simp: with_read_reads bad_fd_def)

text \<open>
  The timer is never set later than a deadline, and before the thread waits it is set to the
  earliest deadline, or disarmed when there is none.
\<close>

theorem poller_timer_earliest:
  assumes "poller_run st added evs"
  shows "\<exists>xs. deadline_tree st xs
    \<and> (\<forall>n\<in>set (pl_timeo_list st @ xs). \<exists>t. pl_timerfd st = Some t \<and> timespec_cmp t (pn_timeout (pl_node st n)) \<le> 0)
    \<and> (case pl_timerfd (set_timer st) of
         None \<Rightarrow> pl_timeo_list st @ xs = []
       | Some t \<Rightarrow> \<exists>n\<in>set (pl_timeo_list st @ xs). t = pn_timeout (pl_node st n)
           \<and> (\<forall>m\<in>set (pl_timeo_list st @ xs). timespec_cmp t (pn_timeout (pl_node st m)) \<le> 0))"
proof -
  obtain A where A: "run_inv st added evs A" using run_inv_reachable [OF assms] by blast
  obtain xs where v: "links st xs" "armed st xs" using run_invD(1) [OF A] by (auto elim: validE)
  have "case pl_timerfd (set_timer st) of
         None \<Rightarrow> pl_timeo_list st @ xs = []
       | Some t \<Rightarrow> \<exists>n\<in>set (pl_timeo_list st @ xs). t = pn_timeout (pl_node st n)
           \<and> (\<forall>m\<in>set (pl_timeo_list st @ xs). timespec_cmp t (pn_timeout (pl_node st m)) \<le> 0)"
    using set_timer_ok(3) [OF v] unfolding earliest_def timeout_cmp_def by (auto split: option.splits)
  moreover have "deadline_tree st xs" using v(1) by (simp add: links_def)
  ultimately show ?thesis using v(2) unfolding armed_def by blast
qed

theorem poller_timer_earliest_witness:
  "\<exists>t. pl_timerfd with_read = Some t \<and> timespec_cmp t (pn_timeout (pl_node with_read 7)) \<le> 0"
  using poller_timer_earliest [OF with_read_run] by (auto simp: with_read_reads)

end
