(* ===== verification/PollerIO.thy ===== *)
theory PollerIO
  imports Poller
begin

text \<open>
  The handlers of \<open>src/poller/poller.c\<close>: what the thread does with a node whose descriptor is ready. The
  answers of the system calls and of the callbacks are arguments, one for each call in their order; a
  handler that would need another answer is \<open>None\<close>. A handler gives the results that it hands to
  the user by further nodes, and a verdict on its own node.
\<close>

section \<open>Verdicts\<close>

datatype verdict = Keep | End poll_state "poll_errno option"

definition end_by :: "verdict \<Rightarrow> nat \<Rightarrow> poller \<Rightarrow> poller outcome option" where
  "end_by v n st = (case v of Keep \<Rightarrow> Some (Ret st) | End s e \<Rightarrow> finish_node n s e st)"

text \<open>\<open>__poller_handle_ssl_error\<close>: whether the result is not negative; \<open>ctl\<close>: the answer of \<open>epoll_ctl\<close>.\<close>

datatype ssl_error = WANT_READ | WANT_WRITE | SSL_SYSCALL | SSL_OTHER

definition handle_ssl_error :: "ssl_error \<Rightarrow> bool \<Rightarrow> nat \<Rightarrow> poller \<Rightarrow> bool \<times> poller" where
  "handle_ssl_error err ctl n st =
     (case (case err of WANT_READ \<Rightarrow> Some IN_ET | WANT_WRITE \<Rightarrow> Some OUT_ET | _ \<Rightarrow> None) of
        None \<Rightarrow> (False, st)
      | Some event \<Rightarrow>
          if event = pn_event (pl_node st n) then (True, st)
          else if pn_removed (pl_node st n) then (True, st)
          else if ctl then (True, set_node n (\<lambda>nd. nd\<lparr>pn_event := event\<rparr>) st)
          else (False, st))"

section \<open>Connecting and handshakes\<close>

text \<open>\<open>__poller_handle_connect\<close>: \<open>err\<close> is the socket error, or \<open>errno\<close> when it cannot be read.\<close>

definition handle_connect :: "int \<Rightarrow> verdict" where
  "handle_connect err = (if err = 0 then End PR_ST_FINISHED None else End PR_ST_ERROR (Some (P_ERRNO err)))"

text \<open>The three SSL handlers: \<open>ret\<close> is the result of \<open>SSL_accept\<close>, \<open>SSL_connect\<close> or \<open>SSL_shutdown\<close>.\<close>

definition handle_ssl_call :: "int \<Rightarrow> ssl_error \<Rightarrow> bool \<Rightarrow> poll_errno \<Rightarrow> nat \<Rightarrow> poller \<Rightarrow> verdict \<times> poller" where
  "handle_ssl_call ret err ctl e n st =
     (if ret \<le> 0 then
        (case handle_ssl_error err ctl n st of
           (True, st1) \<Rightarrow> (Keep, st1)
         | (False, st1) \<Rightarrow> (End PR_ST_ERROR (Some e), st1))
      else (End PR_ST_FINISHED None, st))"

section \<open>Writing\<close>

record iovec =
  iov_base :: nat
  iov_len :: nat

text \<open>The answers of \<open>writev\<close> or \<open>SSL_write\<close>: bytes written, or a failure that keeps or ends the node.\<close>

datatype write_answer = WROTE nat | W_AGAIN | W_FAIL poll_errno

fun iov_advance :: "nat \<Rightarrow> iovec list \<Rightarrow> iovec list" where
  "iov_advance nleft [] = []"
| "iov_advance nleft (v # vs) =
     (if iov_len v \<le> nleft then iov_advance (nleft - iov_len v) vs
      else v\<lparr>iov_base := iov_base v + nleft, iov_len := iov_len v - nleft\<rparr> # vs)"

lemma iov_advance_length [termination_simp]: "length (iov_advance k vs) \<le> length vs"
  by (induction k vs rule: iov_advance.induct) auto

text \<open>The loop: the bytes written, the vectors that are left, and the error when it failed.\<close>

function write_loop :: "bool \<Rightarrow> write_answer list \<Rightarrow> nat \<Rightarrow> iovec list \<Rightarrow> (nat \<times> iovec list \<times> poll_errno option) option" where
  "write_loop ssl as count [] = Some (count, [], None)"
| "write_loop ssl as count (v # vs) =
     (if ssl \<and> iov_len v = 0 then write_loop ssl as count (iov_advance 0 (v # vs))
      else
        (case as of
           [] \<Rightarrow> None
         | WROTE k # as1 \<Rightarrow> write_loop ssl as1 (count + k) (iov_advance k (v # vs))
         | W_AGAIN # _ \<Rightarrow> Some (count, v # vs, None)
         | W_FAIL e # _ \<Rightarrow> Some (count, v # vs, Some e)))"
  by pat_completeness auto

termination
proof (relation "measure (\<lambda>(ssl, as, count, vs). length as + length vs)", goal_cases)
  case (2 ssl as count v vs)
  then show ?case using iov_advance_length [of 0 vs] by simp
next
  case (3 ssl as count v vs a as1 k)
  then show ?case using iov_advance_length [of k "v # vs"] by simp
qed simp

text \<open>\<open>__poller_handle_write\<close>: \<open>partial\<close> is the callback \<open>partial_written\<close>, \<open>e\<close> is \<open>errno\<close> when it refuses.\<close>

definition handle_write ::
  "bool \<Rightarrow> write_answer list \<Rightarrow> (nat \<Rightarrow> int) \<Rightarrow> poll_errno \<Rightarrow> iovec list \<Rightarrow> (verdict \<times> nat \<times> iovec list) option" where
  "handle_write ssl as partial e iov =
     (case write_loop ssl as 0 iov of
        None \<Rightarrow> None
      | Some (count, iov1, err) \<Rightarrow>
          Some (if iov1 \<noteq> [] \<and> err = None \<and> (count = 0 \<or> 0 \<le> partial count) then Keep
                else if iov1 = [] then End PR_ST_FINISHED None
                else End PR_ST_ERROR (case err of None \<Rightarrow> Some e | Some _ \<Rightarrow> err), count, iov1))"

section \<open>Reading\<close>

text \<open>
  \<open>__poller_append_message\<close>: \<open>app\<close> is the function \<open>append\<close> of the message with its return value and
  the number of bytes that it used; \<open>new\<close> are the messages that \<open>create_message\<close> gives, \<open>None\<close> for
  a failed allocation. The result: return value, bytes used, the message in progress, the complete one.
\<close>

type_synonym ('m, 'b) appender = "'m \<Rightarrow> 'b list \<Rightarrow> int \<times> nat \<times> 'm"

definition append_message ::
  "('m, 'b) appender \<Rightarrow> 'b list \<Rightarrow> 'm option list \<Rightarrow> 'm option \<Rightarrow> int \<times> nat \<times> 'm option list \<times> 'm option \<times> 'm list" where
  "append_message app bs new cur =
     (case (case cur of
              Some m \<Rightarrow> (Some m, new)
            | None \<Rightarrow> (case new of [] \<Rightarrow> (None, []) | m # new1 \<Rightarrow> (m, new1))) of
        (None, new1) \<Rightarrow> (-1, length bs, new1, None, [])
      | (Some m, new1) \<Rightarrow>
          (case app m bs of
             (ret, n, m1) \<Rightarrow> if 0 < ret then (ret, n, new1, None, [m1]) else (ret, n, new1, Some m1, [])))"

text \<open>The loop over the bytes of one \<open>read\<close>; the last component says whether all went well.\<close>

partial_function (option) feed_bytes ::
  "('m, 'b) appender \<Rightarrow> 'm list \<Rightarrow> 'b list \<Rightarrow> 'm option list \<Rightarrow> 'm option \<Rightarrow> ('m list \<times> 'm option list \<times> 'm option \<times> bool) option" where
  "feed_bytes app acc bs new cur =
     (case append_message app bs new cur of
        (ret, n, new1, cur1, out) \<Rightarrow>
          if ret < 0 \<or> length bs < n then Some (acc @ out, new1, cur1, False)
          else if n = length bs then Some (acc @ out, new1, cur1, True)
          else feed_bytes app (acc @ out) (drop n bs) new1 cur1)"

declare feed_bytes.simps [code]

text \<open>The answers of \<open>read\<close> or \<open>SSL_read\<close>.\<close>

datatype 'b read_answer = DATA "'b list" | R_EOF | R_AGAIN | R_FAIL poll_errno

fun handle_read ::
  "('m, 'b) appender \<Rightarrow> poll_errno \<Rightarrow> 'b read_answer list \<Rightarrow> 'm list \<Rightarrow> 'm option list \<Rightarrow> 'm option
    \<Rightarrow> (verdict \<times> 'm list \<times> 'm option list \<times> 'm option) option" where
  "handle_read app e [] acc new cur = None"
| "handle_read app e (R_AGAIN # as) acc new cur = Some (Keep, acc, new, cur)"
| "handle_read app e (R_EOF # as) acc new cur = Some (End PR_ST_FINISHED None, acc, new, cur)"
| "handle_read app e (R_FAIL err # as) acc new cur = Some (End PR_ST_ERROR (Some err), acc, new, cur)"
| "handle_read app e (DATA bs # as) acc new cur =
     (case feed_bytes app acc bs new cur of
        None \<Rightarrow> None
      | Some (acc1, new1, cur1, True) \<Rightarrow> handle_read app e as acc1 new1 cur1
      | Some (acc1, new1, cur1, False) \<Rightarrow> Some (End PR_ST_ERROR (Some e), acc1, new1, cur1))"

section \<open>Listening\<close>

text \<open>The answers of \<open>accept\<close>; for a connection, what the callback made of it and whether the next node was got.\<close>

datatype 'c accept_answer = ACCEPTED "'c option" bool | A_AGAIN | A_ABORTED | A_FAIL

fun handle_listen :: "poll_errno \<Rightarrow> 'c accept_answer list \<Rightarrow> 'c list \<Rightarrow> (verdict \<times> 'c list) option" where
  "handle_listen e [] out = None"
| "handle_listen e (A_AGAIN # as) out = Some (Keep, out)"
| "handle_listen e (A_ABORTED # as) out = handle_listen e as out"
| "handle_listen e (A_FAIL # as) out = Some (End PR_ST_ERROR (Some e), out)"
| "handle_listen e (ACCEPTED None res # as) out = Some (End PR_ST_ERROR (Some e), out)"
| "handle_listen e (ACCEPTED (Some c) res # as) out =
     (if res then handle_listen e as (out @ [c]) else Some (End PR_ST_ERROR (Some e), out @ [c]))"

section \<open>Events and notifications\<close>

text \<open>The reads of an event descriptor: the sum, which wraps, and whether they ended by \<open>EAGAIN\<close>.\<close>

datatype event_answer = VALUE nat | E_AGAIN | E_SHORT | E_FAIL

fun event_reads :: "event_answer list \<Rightarrow> nat \<Rightarrow> (nat \<times> bool) option" where
  "event_reads [] cnt = None"
| "event_reads (VALUE v # as) cnt = event_reads as ((cnt + v) mod 2 ^ 64)"
| "event_reads (E_AGAIN # as) cnt = Some (cnt, True)"
| "event_reads (E_SHORT # as) cnt = Some (cnt, False)"
| "event_reads (E_FAIL # as) cnt = Some (cnt, False)"

text \<open>The calls of the callback: its result and whether the next node was got. The count that is left over.\<close>

fun event_calls :: "('c option \<times> bool) list \<Rightarrow> nat \<Rightarrow> 'c list \<Rightarrow> (bool \<times> nat \<times> 'c list) option" where
  "event_calls cs 0 out = Some (True, 0, out)"
| "event_calls [] (Suc cnt) out = None"
| "event_calls ((None, res) # cs) (Suc cnt) out = Some (False, cnt, out)"
| "event_calls ((Some c, res) # cs) (Suc cnt) out =
     (if res then event_calls cs cnt (out @ [c]) else Some (False, cnt, out @ [c]))"

text \<open>\<open>__poller_handle_event\<close>; the third component is what is written back to the descriptor.\<close>

definition handle_event :: "poll_errno \<Rightarrow> event_answer list \<Rightarrow> ('c option \<times> bool) list \<Rightarrow> (verdict \<times> 'c list \<times> nat option) option" where
  "handle_event e as cs =
     (case event_reads as 0 of
        None \<Rightarrow> None
      | Some (cnt, False) \<Rightarrow> Some (End PR_ST_ERROR (Some e), [], if cnt \<noteq> 0 then Some cnt else None)
      | Some (cnt, True) \<Rightarrow>
          (case event_calls cs cnt [] of
             None \<Rightarrow> None
           | Some (True, _, out) \<Rightarrow> Some (Keep, out, None)
           | Some (False, cnt1, out) \<Rightarrow> Some (End PR_ST_ERROR (Some e), out, if cnt1 \<noteq> 0 then Some cnt1 else None)))"

text \<open>\<open>__poller_handle_notify\<close>: a pointer was read, with the result of the callback on it.\<close>

datatype 'c notify_answer = POINTER "'c option" bool | N_AGAIN | N_EOF | N_SHORT | N_FAIL

fun handle_notify :: "poll_errno \<Rightarrow> 'c notify_answer list \<Rightarrow> 'c list \<Rightarrow> (verdict \<times> 'c list) option" where
  "handle_notify e [] out = None"
| "handle_notify e (N_AGAIN # as) out = Some (Keep, out)"
| "handle_notify e (N_EOF # as) out = Some (End PR_ST_FINISHED None, out)"
| "handle_notify e (N_SHORT # as) out = Some (End PR_ST_ERROR (Some P_EINVAL), out)"
| "handle_notify e (N_FAIL # as) out = Some (End PR_ST_ERROR (Some e), out)"
| "handle_notify e (POINTER None res # as) out = Some (End PR_ST_ERROR (Some e), out)"
| "handle_notify e (POINTER (Some c) res # as) out =
     (if res then handle_notify e as (out @ [c]) else Some (End PR_ST_ERROR (Some e), out @ [c]))"

end
