(* ===== verification/PollerIOProps.thy ===== *)
theory PollerIOProps
  imports PollerIO
begin

text \<open>The handlers lose nothing: bytes are written in order, messages and connections are handed over in order.\<close>

section \<open>Writing\<close>

text \<open>The addresses that a vector array has still to write.\<close>

definition iov_bytes :: "iovec list \<Rightarrow> nat list" where
  "iov_bytes vs = concat (map (\<lambda>v. [iov_base v ..< iov_base v + iov_len v]) vs)"

lemma iov_bytes_simps [simp]: "iov_bytes [] = []" "iov_bytes (v # vs) = [iov_base v ..< iov_base v + iov_len v] @ iov_bytes vs"
  by (simp_all add: iov_bytes_def)

lemma iov_advance_bytes: "iov_bytes (iov_advance k vs) = drop k (iov_bytes vs)"
  by (induction k vs rule: iov_advance.induct) auto

text \<open>
  What the system promises: \<open>writev\<close> gets at most 1024 vectors and \<open>SSL_write\<close> the first one, and writes
  at most what it got; it writes nothing only when it got nothing.
\<close>

definition offered :: "bool \<Rightarrow> iovec list \<Rightarrow> nat list" where
  "offered ssl vs = iov_bytes (take (if ssl then 1 else 1024) vs)"

function answers_ok :: "bool \<Rightarrow> write_answer list \<Rightarrow> iovec list \<Rightarrow> bool" where
  "answers_ok ssl as [] = True"
| "answers_ok ssl as (v # vs) =
     (if ssl \<and> iov_len v = 0 then answers_ok ssl as (iov_advance 0 (v # vs))
      else
        (case as of
           WROTE k # as1 \<Rightarrow> k \<le> length (offered ssl (v # vs)) \<and> (k = 0 \<longrightarrow> offered ssl (v # vs) = [])
             \<and> answers_ok ssl as1 (iov_advance k (v # vs))
         | _ \<Rightarrow> True))"
  by pat_completeness auto

termination
proof (relation "measure (\<lambda>(ssl, as, vs). length as + length vs)", goal_cases)
  case (2 ssl as v vs)
  then show ?case using iov_advance_length [of 0 vs] by simp
next
  case (3 ssl as v vs a as1 k)
  then show ?case using iov_advance_length [of k "v # vs"] by simp
qed simp

lemma offered_prefix: "length (offered ssl vs) \<le> length (iov_bytes vs)"
proof -
  have "iov_bytes vs = offered ssl vs @ iov_bytes (drop (if ssl then 1 else 1024) vs)"
    unfolding offered_def iov_bytes_def by (metis append_take_drop_id concat_append map_append)
  then show ?thesis by simp
qed

text \<open>A call makes progress: bytes or empty vectors go away.\<close>

lemma empty_advance: "iov_len v = 0 \<Longrightarrow> length (iov_advance 0 (v # vs)) < length (v # vs)"
  using iov_advance_length [of 0 vs] by simp

lemma advance_progress:
  assumes "k \<le> length (offered ssl (v # vs))" "k = 0 \<longrightarrow> offered ssl (v # vs) = []"
  shows "length (iov_bytes (iov_advance k (v # vs))) + length (iov_advance k (v # vs)) < length (iov_bytes (v # vs)) + length (v # vs)"
proof (cases "k = 0")
  case True
  then have "iov_len v = 0" using assms(2) by (auto simp: offered_def split: if_splits)
  then show ?thesis using True empty_advance [of v vs] iov_advance_bytes [of k "v # vs"] by simp
next
  case False
  have "k \<le> length (iov_bytes (v # vs))" using assms(1) offered_prefix [of ssl "v # vs"] by linarith
  then have "length (iov_bytes (iov_advance k (v # vs))) < length (iov_bytes (v # vs))"
    using False unfolding iov_advance_bytes length_drop by linarith
  then show ?thesis using iov_advance_length [of k "v # vs"] by linarith
qed

lemma write_loop_ok:
  assumes "answers_ok ssl as vs" "length (iov_bytes vs) + length vs \<le> length as"
  shows "\<exists>k vs' e. write_loop ssl as count vs = Some (count + k, vs', e) \<and> k \<le> length (iov_bytes vs)
    \<and> iov_bytes vs' = drop k (iov_bytes vs) \<and> (vs' = [] \<longrightarrow> e = None \<and> k = length (iov_bytes vs))"
  using assms
proof (induction ssl as count vs rule: write_loop.induct)
  case (2 ssl as count v vs)
  show ?case
  proof (cases "ssl \<and> iov_len v = 0")
    case True
    have "length (iov_bytes (iov_advance 0 (v # vs))) + length (iov_advance 0 (v # vs)) \<le> length as"
      using 2(4) True empty_advance [of v vs] unfolding iov_advance_bytes by simp
    moreover have "answers_ok ssl as (iov_advance 0 (v # vs))" using 2(3) True by (simp del: iov_advance.simps)
    ultimately show ?thesis using 2(1) [OF True] True iov_advance_bytes [of 0 "v # vs"] by (simp del: iov_advance.simps iov_bytes_simps)
  next
    case False
    show ?thesis
    proof (cases as)
      case Nil
      then show ?thesis using 2(4) by simp
    next
      case (Cons a as1)
      show ?thesis
      proof (cases a)
        case (WROTE k)
        have k: "k \<le> length (offered ssl (v # vs))" "k = 0 \<longrightarrow> offered ssl (v # vs) = []" "answers_ok ssl as1 (iov_advance k (v # vs))"
          using 2(3) False Cons WROTE by (simp_all del: iov_advance.simps)
        have le: "k \<le> length (iov_bytes (v # vs))" using k(1) offered_prefix [of ssl "v # vs"] by linarith
        have "length (iov_bytes (iov_advance k (v # vs))) + length (iov_advance k (v # vs)) \<le> length as1"
          using advance_progress [OF k(1,2)] 2(4) Cons by (simp del: iov_advance.simps iov_bytes_simps)
        from 2(2) [OF False Cons WROTE k(3) this] obtain j vs' e where
            j: "write_loop ssl as1 (count + k) (iov_advance k (v # vs)) = Some (count + k + j, vs', e)"
            "j \<le> length (iov_bytes (iov_advance k (v # vs)))" "iov_bytes vs' = drop j (iov_bytes (iov_advance k (v # vs)))"
            "vs' = [] \<longrightarrow> e = None \<and> j = length (iov_bytes (iov_advance k (v # vs)))" by blast
        have "write_loop ssl as count (v # vs) = write_loop ssl as1 (count + k) (iov_advance k (v # vs))"
          unfolding Cons WROTE by (subst write_loop.simps, subst if_not_P [OF False]) simp
        then have "write_loop ssl as count (v # vs) = Some (count + (k + j), vs', e)"
          using j(1) by (simp add: add.assoc)
        moreover have "k + j \<le> length (iov_bytes (v # vs))" using j(2) le unfolding iov_advance_bytes length_drop by linarith
        moreover have "iov_bytes vs' = drop (k + j) (iov_bytes (v # vs))"
          using j(3) unfolding iov_advance_bytes drop_drop by (simp only: add.commute)
        moreover have "vs' = [] \<longrightarrow> e = None \<and> k + j = length (iov_bytes (v # vs))"
          using j(4) le unfolding iov_advance_bytes length_drop by linarith
        ultimately show ?thesis by blast
      qed (use False Cons in \<open>auto intro: exI [of _ 0]\<close>)
    qed
  qed
qed simp

text \<open>
  C32. When \<open>writev\<close> or \<open>SSL_write\<close> keeps its promise, the handler of a writable descriptor returns; the
  bytes that were written are a prefix of those to write, in order and each once, what is left is
  the rest, and the node ends with \<open>PR_ST_FINISHED\<close> exactly when no vector is left, in which case every
  byte was written. It stays only after progress that the callback accepted or after none.
\<close>

theorem handle_write_conserves:
  assumes "answers_ok ssl as iov" "length (iov_bytes iov) + length iov \<le> length as"
  shows "\<exists>v count iov'. handle_write ssl as partial e iov = Some (v, count, iov')
    \<and> count \<le> length (iov_bytes iov) \<and> iov_bytes iov = take count (iov_bytes iov) @ iov_bytes iov'
    \<and> (v = End PR_ST_FINISHED None \<longleftrightarrow> iov' = []) \<and> (iov' = [] \<longrightarrow> count = length (iov_bytes iov))
    \<and> (v = Keep \<longrightarrow> count = 0 \<or> 0 \<le> partial count)"
proof -
  obtain k iov' err where w: "write_loop ssl as 0 iov = Some (0 + k, iov', err)" "k \<le> length (iov_bytes iov)"
      "iov_bytes iov' = drop k (iov_bytes iov)" "iov' = [] \<longrightarrow> err = None \<and> k = length (iov_bytes iov)"
    using write_loop_ok [OF assms, of 0] by blast
  then show ?thesis by (auto simp: handle_write_def)
qed

theorem handle_write_conserves_witness:
  "\<exists>v count iov'. handle_write False [WROTE 3, W_AGAIN, W_AGAIN, W_AGAIN, W_AGAIN, W_AGAIN, W_AGAIN] (\<lambda>_. 0) P_EINVAL
      [\<lparr>iov_base = 100, iov_len = 2\<rparr>, \<lparr>iov_base = 200, iov_len = 3\<rparr>] = Some (v, count, iov')
    \<and> [100, 101, 200, 201, 202] = take count [100, 101, 200, 201, 202] @ iov_bytes iov'"
proof -
  have "answers_ok False [WROTE 3, W_AGAIN, W_AGAIN, W_AGAIN, W_AGAIN, W_AGAIN, W_AGAIN] [\<lparr>iov_base = 100, iov_len = 2\<rparr>, \<lparr>iov_base = 200, iov_len = 3\<rparr>]"
    by (simp add: offered_def)
  from handle_write_conserves [OF this, of "\<lambda>_. 0" P_EINVAL] show ?thesis by (simp add: upt_rec) blast
qed

section \<open>Accepting, events and notifications\<close>

lemma event_calls_count:
  "event_calls cs cnt out = Some (go, cnt', out') \<Longrightarrow>
     length out' + cnt' + (if go then 0 else 1) - length out \<in> {cnt, Suc cnt} \<and> length out \<le> length out' \<and> (go \<longrightarrow> cnt' = 0 \<and> length out' = length out + cnt)"
  by (induction cs cnt out rule: event_calls.induct) (auto split: if_splits)

end
