(* ===== verification/CString.thy ===== *)
theory CString
  imports Prelude
begin

text \<open>
  The functions of the C library on characters and strings that the code relies on, in the
  C locale: \<open>isspace\<close>, \<open>isalnum\<close>, \<open>isxdigit\<close>, \<open>tolower\<close>, \<open>strncasecmp\<close>, \<open>strcmp\<close>,
  \<open>strchr\<close>, \<open>atoi\<close> and \<open>strtol\<close>. A string argument is the list of its bytes; the
  functions that stop at a terminator stop at the first NUL byte of the list or at its end.
\<close>

section \<open>Character classes\<close>

definition isdigit :: "char \<Rightarrow> bool" where
  "isdigit c \<longleftrightarrow> 48 \<le> code c \<and> code c \<le> 57"

definition isupper :: "char \<Rightarrow> bool" where
  "isupper c \<longleftrightarrow> 65 \<le> code c \<and> code c \<le> 90"

definition islower :: "char \<Rightarrow> bool" where
  "islower c \<longleftrightarrow> 97 \<le> code c \<and> code c \<le> 122"

definition isalnum :: "char \<Rightarrow> bool" where
  "isalnum c \<longleftrightarrow> isdigit c \<or> isupper c \<or> islower c"

definition isspace :: "char \<Rightarrow> bool" where
  "isspace c \<longleftrightarrow> code c = 32 \<or> (9 \<le> code c \<and> code c \<le> 13)"

definition isxdigit :: "char \<Rightarrow> bool" where
  "isxdigit c \<longleftrightarrow> isdigit c \<or> (65 \<le> code c \<and> code c \<le> 70) \<or> (97 \<le> code c \<and> code c \<le> 102)"

definition tolower :: "char \<Rightarrow> char" where
  "tolower c = (if isupper c then char_of (code c + 32) else c)"

lemma code_tolower: "code (tolower c) = (if isupper c then code c + 32 else code c)"
  by (auto simp: tolower_def isupper_def)

lemma tolower_idem [simp]: "tolower (tolower c) = tolower c"
  by (auto simp: tolower_def isupper_def)

lemma tolower_NUL_iff [simp]: "tolower c = NUL \<longleftrightarrow> c = NUL"
proof -
  have "code (tolower c) = 0 \<longleftrightarrow> code c = 0"
    unfolding code_tolower isupper_def by auto
  then show ?thesis by simp
qed

lemma tolower_NUL [simp]: "tolower NUL = NUL"
  by simp

section \<open>Terminated strings\<close>

text \<open>\<open>cat s i\<close> reads \<open>s[i]\<close> of a C string: the terminator stands after the last byte.\<close>

definition cat :: "string \<Rightarrow> nat \<Rightarrow> char" where
  "cat s i = (if i < length s then s ! i else NUL)"

definition c_str :: "string \<Rightarrow> string" where
  "c_str s = takeWhile (\<lambda>c. c \<noteq> NUL) s"

definition strlen :: "string \<Rightarrow> nat" where
  "strlen s = length (c_str s)"

lemma cat_Nil [simp]: "cat [] i = NUL"
  by (simp add: cat_def)

lemma cat_Cons_0 [simp]: "cat (c # cs) 0 = c"
  by (simp add: cat_def)

lemma cat_Cons_Suc [simp]: "cat (c # cs) (Suc i) = cat cs i"
  by (simp add: cat_def)

lemma cat_not_NUL_less: "cat s i \<noteq> NUL \<Longrightarrow> i < length s"
  by (auto simp: cat_def split: if_splits)

lemma cat_drop [simp]: "cat (drop n s) i = cat s (n + i)"
  by (auto simp: cat_def add.commute)

lemma cat_append: "cat (xs @ ys) i = (if i < length xs then xs ! i else cat ys (i - length xs))"
  by (auto simp: cat_def nth_append)

lemma cat_append_left: "i < length xs \<Longrightarrow> cat (xs @ ys) i = xs ! i"
  by (simp add: cat_append)

lemma cat_append_right [simp]: "cat (xs @ ys) (length xs + i) = cat ys i"
  by (simp add: cat_append)

lemma cat_append_length [simp]: "cat (xs @ ys) (length xs) = cat ys 0"
  by (simp add: cat_append)

lemma c_str_noNUL: "NUL \<notin> set s \<Longrightarrow> c_str s = s"
  by (auto simp: c_str_def takeWhile_eq_all_conv)

lemma strlen_noNUL: "NUL \<notin> set s \<Longrightarrow> strlen s = length s"
  by (simp add: strlen_def c_str_noNUL)

lemma NUL_notin_c_str [simp]: "NUL \<notin> set (c_str s)"
  by (auto simp: c_str_def dest: set_takeWhileD)

lemma c_str_append_NUL [simp]: "c_str (s @ NUL # t) = c_str s"
  by (induction s) (auto simp: c_str_def)

definition strcmp_eq :: "string \<Rightarrow> string \<Rightarrow> bool" where
  "strcmp_eq s t \<longleftrightarrow> c_str s = c_str t"

text \<open>
  \<open>strncasecmp(a, b, n) == 0\<close>: at most \<open>n\<close> bytes are compared, ignoring case, and the
  comparison ends early at a common terminator.
\<close>

fun strncasecmp_eq :: "string \<Rightarrow> string \<Rightarrow> nat \<Rightarrow> bool" where
  "strncasecmp_eq a b 0 = True"
| "strncasecmp_eq a b (Suc n) =
     (tolower (cat a 0) = tolower (cat b 0) \<and>
      (cat a 0 = NUL \<or> strncasecmp_eq (tl a) (tl b) n))"

fun strncmp_eq :: "string \<Rightarrow> string \<Rightarrow> nat \<Rightarrow> bool" where
  "strncmp_eq a b 0 = True"
| "strncmp_eq a b (Suc n) =
     (cat a 0 = cat b 0 \<and> (cat a 0 = NUL \<or> strncmp_eq (tl a) (tl b) n))"

definition strcasecmp_eq :: "string \<Rightarrow> string \<Rightarrow> bool" where
  "strcasecmp_eq a b \<longleftrightarrow> map tolower (c_str a) = map tolower (c_str b)"

lemma strncasecmp_eq_refl [simp]: "strncasecmp_eq a a n"
  by (induction n arbitrary: a) auto

lemma strncasecmp_eq_sym: "strncasecmp_eq a b n \<Longrightarrow> strncasecmp_eq b a n"
  by (induction n arbitrary: a b) (auto, metis tolower_NUL_iff)

lemma strncasecmp_eq_iff_lower:
  assumes "length a = n" "length b = n" "NUL \<notin> set a" "NUL \<notin> set b"
  shows "strncasecmp_eq a b n \<longleftrightarrow> map tolower a = map tolower b"
  using assms
proof (induction n arbitrary: a b)
  case 0
  then show ?case by simp
next
  case (Suc n)
  then obtain x a' y b' where "a = x # a'" "b = y # b'"
    by (metis length_Suc_conv)
  with Suc show ?case by auto
qed

section \<open>Numbers\<close>

definition digit_val :: "char \<Rightarrow> nat" where
  "digit_val c = code c - 48"

definition dec_val :: "nat \<Rightarrow> string \<Rightarrow> nat" where
  "dec_val acc s = foldl (\<lambda>n c. 10 * n + digit_val c) acc s"

lemma dec_val_Nil [simp]: "dec_val acc [] = acc"
  by (simp add: dec_val_def)

lemma dec_val_Cons [simp]: "dec_val acc (c # cs) = dec_val (10 * acc + digit_val c) cs"
  by (simp add: dec_val_def)

lemma dec_val_bound:
  "\<forall>c\<in>set s. isdigit c \<Longrightarrow> dec_val acc s < (acc + 1) * 10 ^ length s"
proof (induction s arbitrary: acc)
  case Nil
  then show ?case by simp
next
  case (Cons c s)
  have d: "digit_val c \<le> 9"
    using Cons.prems by (auto simp: digit_val_def isdigit_def)
  have "dec_val (10 * acc + digit_val c) s < (10 * acc + digit_val c + 1) * 10 ^ length s"
    using Cons by simp
  also have "\<dots> \<le> (10 * acc + 10) * 10 ^ length s"
    using d by (intro mult_right_mono) auto
  finally show ?case by (simp add: algebra_simps)
qed

text \<open>
  \<open>atoi\<close>/\<open>atol\<close>: white space, an optional sign, then the longest run of decimal digits.
  The result is exact while it fits the type; larger values are out of the function's
  contract in C and are given here as they stand.
\<close>

definition atoi :: "string \<Rightarrow> int" where
  "atoi s =
     (let t = dropWhile isspace (c_str s) in
      case t of [] \<Rightarrow> 0
      | c # r \<Rightarrow>
          if c = CHR ''-'' then - int (dec_val 0 (takeWhile isdigit r))
          else if c = CHR ''+'' then int (dec_val 0 (takeWhile isdigit r))
          else int (dec_val 0 (takeWhile isdigit t)))"

definition xdigit_val :: "char \<Rightarrow> nat" where
  "xdigit_val c = (if isdigit c then code c - 48 else code (tolower c) - 87)"

definition hex_val :: "nat \<Rightarrow> string \<Rightarrow> nat" where
  "hex_val acc s = foldl (\<lambda>n c. 16 * n + xdigit_val c) acc s"

lemma hex_val_Nil [simp]: "hex_val acc [] = acc"
  by (simp add: hex_val_def)

lemma hex_val_Cons [simp]: "hex_val acc (c # cs) = hex_val (16 * acc + xdigit_val c) cs"
  by (simp add: hex_val_def)

definition LONG_MAX :: int where
  "LONG_MAX = 2 ^ 63 - 1"

definition LONG_MIN :: int where
  "LONG_MIN = - (2 ^ 63)"

text \<open>
  \<open>strtol(s, &end, 16)\<close>: the value and the number of bytes before \<open>end\<close>. White space, an
  optional sign, an optional \<open>0x\<close> prefix that must be followed by a digit, then the
  longest run of hexadecimal digits; without any digit the subject sequence is empty and
  \<open>end\<close> is the start. Out-of-range values saturate.
\<close>

definition hex_body :: "string \<Rightarrow> nat \<times> nat" where
  "hex_body t =
     (if cat t 0 = CHR ''0'' \<and> tolower (cat t 1) = CHR ''x'' \<and> isxdigit (cat t 2)
      then let d = takeWhile isxdigit (drop 2 t) in (hex_val 0 d, 2 + length d)
      else let d = takeWhile isxdigit t in (hex_val 0 d, length d))"

definition strtol16 :: "string \<Rightarrow> int \<times> nat" where
  "strtol16 s0 =
     (let s = c_str s0;
          ws = length (takeWhile isspace s);
          t = drop ws s;
          neg = (cat t 0 = CHR ''-'');
          sg = (if neg \<or> cat t 0 = CHR ''+'' then 1 else 0);
          (v, n) = hex_body (drop sg t)
      in if n = 0 then (0, 0)
         else if neg then (max LONG_MIN (- int v), ws + sg + n)
         else (min LONG_MAX (int v), ws + sg + n))"

lemma strtol16_consumed: "snd (strtol16 s) \<le> length (c_str s)"
proof -
  define c where "c = c_str s"
  define ws where "ws = length (takeWhile isspace c)"
  have ws: "ws \<le> length c"
    by (simp add: ws_def length_takeWhile_le)
  have body: "snd (hex_body t) \<le> length t" for t
  proof (cases "cat t 0 = CHR ''0'' \<and> tolower (cat t 1) = CHR ''x'' \<and> isxdigit (cat t 2)")
    case True
    then have "isxdigit (cat t 2)" by simp
    moreover have "\<not> isxdigit NUL"
      by (simp add: isxdigit_def isdigit_def)
    ultimately have "2 < length t"
      by (auto simp: cat_def split: if_splits)
    moreover have "length (takeWhile isxdigit (drop 2 t)) \<le> length (drop 2 t)"
      by (rule length_takeWhile_le)
    ultimately show ?thesis
      using True by (simp add: hex_body_def Let_def)
  next
    case False
    then show ?thesis
      by (auto simp: hex_body_def Let_def length_takeWhile_le)
  qed
  have sg: "cat t 0 = CHR ''-'' \<or> cat t 0 = CHR ''+'' \<Longrightarrow> 1 \<le> length t" for t
    by (cases t) auto
  show ?thesis
    using ws body [of "drop ws c"] body [of "drop 1 (drop ws c)"] sg [of "drop ws c"]
    by (auto simp: strtol16_def Let_def c_def [symmetric] ws_def [symmetric]
        split: prod.splits if_splits)
qed

section \<open>Printed numbers\<close>

fun dec_str :: "nat \<Rightarrow> string" where
  "dec_str n = (if n < 10 then [char_of (48 + n)] else dec_str (n div 10) @ [char_of (48 + n mod 10)])"

declare dec_str.simps [simp del]

lemma digit_char:
  "n < 10 \<Longrightarrow> isdigit (char_of (48 + n)) \<and> digit_val (char_of (48 + n)) = n"
  by (simp add: isdigit_def digit_val_def)

lemma dec_val_append: "dec_val acc (s @ t) = dec_val (dec_val acc s) t"
  by (simp add: dec_val_def)

lemma dec_str_digits: "list_all isdigit (dec_str n) \<and> dec_str n \<noteq> [] \<and> dec_val 0 (dec_str n) = n"
proof (induction n rule: dec_str.induct)
  case (1 n)
  show ?case
  proof (cases "n < 10")
    case True
    then show ?thesis
      using digit_char [of n] by (simp add: dec_str.simps [of n])
  next
    case False
    then show ?thesis
      using 1 digit_char [of "n mod 10"] by (simp add: dec_str.simps [of n] dec_val_append)
  qed
qed

lemma dec_str_length: "n < 10 ^ k \<Longrightarrow> 0 < k \<Longrightarrow> length (dec_str n) \<le> k"
proof (induction n arbitrary: k rule: dec_str.induct)
  case (1 n)
  show ?case
  proof (cases "n < 10")
    case True
    then show ?thesis using 1(3) by (simp add: dec_str.simps [of n])
  next
    case False
    obtain m where "k = Suc m"
      using 1(3) by (cases k) auto
    moreover have "0 < m"
      using 1(2) False calculation by (cases m) auto
    ultimately have m: "k = Suc m" "0 < m" by auto
    then have "n div 10 < 10 ^ m"
      using 1(2) by (simp add: less_mult_imp_div_less mult.commute)
    then show ?thesis
      using 1(1) [OF False _ m(2)] False m(1) by (simp add: dec_str.simps [of n])
  qed
qed

lemma atoi_dec_str: "atoi (dec_str n) = int n"
proof -
  note d = dec_str_digits [of n]
  have "NUL \<notin> set (dec_str n)"
    using d by (auto simp: list_all_iff isdigit_def)
  moreover obtain c r where cr: "dec_str n = c # r"
    using d by (cases "dec_str n") auto
  moreover have "isdigit c" and tw: "takeWhile isdigit r = r"
    using d cr by (auto simp: list_all_iff takeWhile_eq_all_conv)
  moreover have "\<not> isspace c" "c \<noteq> CHR ''-''" "c \<noteq> CHR ''+''"
    using \<open>isdigit c\<close> by (auto simp: isdigit_def isspace_def)
  ultimately show ?thesis
    using d by (simp add: atoi_def c_str_noNUL tw)
qed

end
