(* ===== verification/HttpParser.thy ===== *)
theory HttpParser
  imports CString
begin

text \<open>
  \<open>src/protocol/http_parser.c\<close> and \<open>http_parser.h\<close>: the incremental HTTP/1 parser. One
  definition per C function: the header list with its buffers, the three header states, the
  chunk states, the growing message buffer and the cursor over the header list.

  Offsets into the message are \<open>nat\<close>; the \<open>size_t\<close> fields that the code compares with
  \<open>(size_t)-1\<close> or with a limit are \<open>int\<close>, and subtractions and sums of them wrap modulo
  \<open>2 ^ 64\<close>. \<open>hp_msgbuf\<close> holds the \<open>msgsize\<close> bytes that are in use, \<open>hp_bufsize\<close> is the size
  of the allocation; a write outside an allocation is \<open>UB\<close>. The header list of \<open>list.h\<close> is
  the list of its lines.
\<close>

section \<open>Limits and types\<close>

abbreviation (input) HTTP_HEADER_NAME_MAX :: int where "HTTP_HEADER_NAME_MAX \<equiv> 64"
abbreviation (input) HTTP_START_LINE_MAX :: int where "HTTP_START_LINE_MAX \<equiv> 8192"
abbreviation (input) HTTP_HEADER_VALUE_MAX :: int where "HTTP_HEADER_VALUE_MAX \<equiv> 8192"
abbreviation (input) HTTP_CHUNK_LINE_MAX :: int where "HTTP_CHUNK_LINE_MAX \<equiv> 1024"
abbreviation (input) HTTP_TRAILER_LINE_MAX :: int where "HTTP_TRAILER_LINE_MAX \<equiv> 8192"
abbreviation (input) HTTP_MSGBUF_INIT_SIZE :: int where "HTTP_MSGBUF_INIT_SIZE \<equiv> 2048"
abbreviation (input) CHUNK_SIZE_MAX :: int where "CHUNK_SIZE_MAX \<equiv> 2 ^ 31 - 1024 - 4"

datatype hps = HPS_START_LINE | HPS_HEADER_NAME | HPS_HEADER_VALUE | HPS_HEADER_COMPLETE

datatype cps = CPS_CHUNK_DATA | CPS_TRAILER_PART | CPS_CHUNK_COMPLETE

record header_line =
  hl_name_len :: nat
  hl_value_len :: nat
  hl_buf :: string

record http_parser =
  hp_header_state :: hps
  hp_chunk_state :: cps
  hp_header_offset :: nat
  hp_chunk_offset :: nat
  hp_content_length :: int
  hp_transfer_length :: int
  hp_version :: "string option"
  hp_method :: "string option"
  hp_uri :: "string option"
  hp_code :: "string option"
  hp_phrase :: "string option"
  hp_header_list :: "header_line list"
  hp_namebuf :: string
  hp_msgbuf :: string
  hp_msgsize :: nat
  hp_bufsize :: int
  hp_has_connection :: bool
  hp_has_content_length :: bool
  hp_has_keep_alive :: bool
  hp_expect_continue :: bool
  hp_keep_alive :: bool
  hp_chunked :: bool
  hp_complete :: bool
  hp_is_resp :: bool

text \<open>
  \<open>http_parser_init\<close> leaves \<open>namebuf\<close> and the chunk fields as they were; the rest of the old
  object is overwritten.
\<close>

definition http_parser_init :: "bool \<Rightarrow> http_parser \<Rightarrow> http_parser" where
  "http_parser_init is_resp old =
     \<lparr>hp_header_state = HPS_START_LINE, hp_chunk_state = hp_chunk_state old,
      hp_header_offset = 0, hp_chunk_offset = hp_chunk_offset old,
      hp_content_length = (if is_resp then SIZE_MAX else 0), hp_transfer_length = SIZE_MAX,
      hp_version = None, hp_method = None, hp_uri = None, hp_code = None, hp_phrase = None,
      hp_header_list = [], hp_namebuf = hp_namebuf old, hp_msgbuf = [], hp_msgsize = 0,
      hp_bufsize = 0, hp_has_connection = False, hp_has_content_length = False,
      hp_has_keep_alive = False, hp_expect_continue = False, hp_keep_alive = True,
      hp_chunked = False, hp_complete = False, hp_is_resp = is_resp\<rparr>"

section \<open>The header list\<close>

definition header_text :: "string \<Rightarrow> string \<Rightarrow> string" where
  "header_text name value = name @ '': '' @ value @ CRLF"

definition new_line :: "string \<Rightarrow> string \<Rightarrow> header_line" where
  "new_line name value =
     \<lparr>hl_name_len = length name, hl_value_len = length value, hl_buf = header_text name value\<rparr>"

definition add_message_header :: "bool \<Rightarrow> string \<Rightarrow> string \<Rightarrow> http_parser \<Rightarrow> int \<times> http_parser" where
  "add_message_header al name value p =
     (if al then (0, p\<lparr>hp_header_list := hp_header_list p @ [new_line name value]\<rparr>) else (-1, p))"

definition memcpy_at :: "string \<Rightarrow> nat \<Rightarrow> string \<Rightarrow> string outcome" where
  "memcpy_at buf off data =
     (if off + length data \<le> length buf
      then Ret (take off buf @ data @ drop (off + length data) buf) else UB)"

definition line_matches :: "string \<Rightarrow> header_line \<Rightarrow> bool" where
  "line_matches name l \<longleftrightarrow> hl_name_len l = length name \<and> strncasecmp_eq (hl_buf l) name (length name)"

text \<open>
  The first line of the same name gets the new value: in place when it is not longer than
  the old one, otherwise in a new buffer, whose value part is written by the same
  \<open>memcpy\<close>. \<open>None\<close> is a failed allocation.
\<close>

definition replace_value :: "bool \<Rightarrow> string \<Rightarrow> string \<Rightarrow> header_line \<Rightarrow> header_line option outcome" where
  "replace_value al name value l =
     (if hl_value_len l < length value \<and> \<not> al then Ret None
      else
        (case memcpy_at
           (if hl_value_len l < length value
            then name @ '': '' @ replicate (length value + 2) NUL else hl_buf l)
           (length name + 2) (value @ CRLF)
         of UB \<Rightarrow> UB
          | Ret buf \<Rightarrow> Ret (Some (l\<lparr>hl_buf := buf, hl_value_len := length value\<rparr>))))"

text \<open>The result of the search: \<open>None\<close> when no line has the name.\<close>

fun set_line :: "bool \<Rightarrow> string \<Rightarrow> string \<Rightarrow> header_line list \<Rightarrow> (int \<times> header_line list) option outcome" where
  "set_line al name value [] = Ret None"
| "set_line al name value (l # ls) =
     (if line_matches name l then
        (case replace_value al name value l of
           UB \<Rightarrow> UB
         | Ret None \<Rightarrow> Ret (Some (-1, l # ls))
         | Ret (Some l') \<Rightarrow> Ret (Some (0, l' # ls)))
      else
        (case set_line al name value ls of
           UB \<Rightarrow> UB
         | Ret None \<Rightarrow> Ret None
         | Ret (Some (r, ls')) \<Rightarrow> Ret (Some (r, l # ls'))))"

definition set_message_header ::
  "bool \<Rightarrow> string \<Rightarrow> string \<Rightarrow> http_parser \<Rightarrow> (int \<times> http_parser) outcome" where
  "set_message_header al name value p =
     (case set_line al name value (hp_header_list p) of
        UB \<Rightarrow> UB
      | Ret (Some (r, ls)) \<Rightarrow> Ret (r, p\<lparr>hp_header_list := ls\<rparr>)
      | Ret None \<Rightarrow> Ret (add_message_header al name value p))"

text \<open>
  \<open>__check_message_header\<close>. A value of length 0 is read at its terminator, so it is not a
  digit.
\<close>

definition check_message_header :: "string \<Rightarrow> string \<Rightarrow> http_parser \<Rightarrow> http_parser" where
  "check_message_header name value p =
     (if length name = 6 then
        (if strncasecmp_eq name ''Expect'' 6
            \<and> length value = 12 \<and> strncasecmp_eq value ''100-continue'' 12
         then p\<lparr>hp_expect_continue := True\<rparr> else p)
      else if length name = 10 then
        (if strncasecmp_eq name ''Connection'' 10 then
           (let q = p\<lparr>hp_has_connection := True\<rparr> in
            if length value = 10 \<and> strncasecmp_eq value ''Keep-Alive'' 10
            then q\<lparr>hp_keep_alive := True\<rparr>
            else if length value = 5 \<and> strncasecmp_eq value ''close'' 5
            then q\<lparr>hp_keep_alive := False\<rparr> else q)
         else if strncasecmp_eq name ''Keep-Alive'' 10 then p\<lparr>hp_has_keep_alive := True\<rparr> else p)
      else if length name = 14 then
        (if strncasecmp_eq name ''Content-Length'' 14 then
           (let q = p\<lparr>hp_has_content_length := True\<rparr> in
            if isdigit (cat value 0) \<and> length value \<le> 15
            then q\<lparr>hp_content_length := atoi value\<rparr> else q)
         else p)
      else if length name = 17 then
        (if strncasecmp_eq name ''Transfer-Encoding'' 17 then
           p\<lparr>hp_chunked := (length value \<noteq> 8 \<or> \<not> strncasecmp_eq value ''identity'' 8)\<rparr>
         else p)
      else p)"

definition http_parser_add_header ::
  "bool \<Rightarrow> string \<Rightarrow> string \<Rightarrow> http_parser \<Rightarrow> int \<times> http_parser" where
  "http_parser_add_header al name value p =
     (case add_message_header al name value p of
        (r, q) \<Rightarrow> if 0 \<le> r then (0, check_message_header name value q) else (-1, q))"

definition http_parser_set_header ::
  "bool \<Rightarrow> string \<Rightarrow> string \<Rightarrow> http_parser \<Rightarrow> (int \<times> http_parser) outcome" where
  "http_parser_set_header al name value p =
     (case set_message_header al name value p of
        UB \<Rightarrow> UB
      | Ret (r, q) \<Rightarrow> Ret (if 0 \<le> r then (0, check_message_header name value q) else (-1, q)))"

section \<open>The start line\<close>

definition old_version :: "string \<Rightarrow> bool" where
  "old_version version \<longleftrightarrow> strcmp_eq version ''HTTP/1.0'' \<or> strncmp_eq version ''HTTP/0'' 6"

text \<open>
  \<open>al\<close> tells whether the three \<open>strdup\<close>s all succeed; when one fails the others are undone
  and only the assignments before them stay.
\<close>

definition match_request_line ::
  "bool \<Rightarrow> string \<Rightarrow> string \<Rightarrow> string \<Rightarrow> http_parser \<Rightarrow> int \<times> http_parser" where
  "match_request_line al method uri version p =
     (let q = (if old_version version then p\<lparr>hp_keep_alive := False\<rparr> else p) in
      if al then (0, q\<lparr>hp_method := Some (c_str method), hp_uri := Some (c_str uri),
                       hp_version := Some (c_str version)\<rparr>)
      else (-1, q))"

definition match_status_line ::
  "bool \<Rightarrow> string \<Rightarrow> string \<Rightarrow> string \<Rightarrow> http_parser \<Rightarrow> int \<times> http_parser" where
  "match_status_line al version status phrase p =
     (let q = (if old_version version then p\<lparr>hp_keep_alive := False\<rparr> else p);
          q = (if cat status 0 = CHR ''1'' \<or> strcmp_eq status ''204'' \<or> strcmp_eq status ''304''
               then q\<lparr>hp_transfer_length := 0\<rparr> else q) in
      if al then (0, q\<lparr>hp_version := Some (c_str version), hp_code := Some (c_str status),
                       hp_phrase := Some (c_str phrase)\<rparr>)
      else (-1, q))"

text \<open>
  The loop that the start line, the chunk line and the trailer line share: copy bytes up to
  a carriage return and look at the byte after it. \<open>bad\<close> is the test that rejects a byte,
  \<open>mx\<close> the size of the line buffer.
\<close>

datatype scan = Line nat | More | Bad

function line_scan :: "(char \<Rightarrow> bool) \<Rightarrow> int \<Rightarrow> string \<Rightarrow> nat \<Rightarrow> scan" where
  "line_scan bad mx ptr i =
     (if i < length ptr \<and> int i < mx then
        if ptr ! i = CR then
          if i = length ptr - 1 then More
          else if ptr ! (i + 1) \<noteq> LF then Bad else Line i
        else if bad (ptr ! i) then Bad
        else line_scan bad mx ptr (i + 1)
      else if int i = mx then Bad else More)"
  by pat_completeness auto
termination
  by (relation "measure (\<lambda>(bad, mx, ptr, i). length ptr - i)") auto

declare line_scan.simps [simp del]

text \<open>\<open>strchr(s, ' ')\<close>: the string before the first space and the one after it.\<close>

definition split_space :: "string \<Rightarrow> (string \<times> string) option" where
  "split_space s =
     (case dropWhile (\<lambda>c. c \<noteq> SP) s of [] \<Rightarrow> None
      | _ # r \<Rightarrow> Some (takeWhile (\<lambda>c. c \<noteq> SP) s, r))"

definition start_line_ref :: "bool \<Rightarrow> string \<Rightarrow> http_parser \<Rightarrow> int \<times> http_parser" where
  "start_line_ref al ptr p =
     (if 2 \<le> length ptr \<and> ptr ! 0 = CR \<and> ptr ! 1 = LF
      then (1, p\<lparr>hp_header_offset := hp_header_offset p + 2\<rparr>)
      else
        (case line_scan (\<lambda>c. c = NUL) HTTP_START_LINE_MAX ptr 0 of
           More \<Rightarrow> (0, p)
         | Bad \<Rightarrow> (-2, p)
         | Line i \<Rightarrow>
             (case split_space (take i ptr) of
                None \<Rightarrow> (-2, p)
              | Some (p1, r) \<Rightarrow>
                  (case split_space r of
                     None \<Rightarrow> (-2, p)
                   | Some (p2, p3) \<Rightarrow>
                       (case (if hp_is_resp p then match_status_line al p1 p2 p3 p
                              else match_request_line al p1 p2 p3 p)
                        of (ret, q) \<Rightarrow>
                          if ret < 0 then (-1, q)
                          else (1, q\<lparr>hp_header_offset := hp_header_offset q + i + 2,
                                     hp_header_state := HPS_HEADER_NAME\<rparr>))))))"

section \<open>Header names and values\<close>

text \<open>The copy into \<open>namebuf\<close>: \<open>Line i\<close> when the colon stands at \<open>i\<close>.\<close>

function name_scan :: "string \<Rightarrow> nat \<Rightarrow> string \<Rightarrow> scan \<times> string" where
  "name_scan ptr i namebuf =
     (if i < length ptr \<and> int i < HTTP_HEADER_NAME_MAX then
        if ptr ! i = CHR '':'' then (Line i, namebuf[i := NUL])
        else if schar_le0 (ptr ! i) then (Bad, namebuf)
        else name_scan ptr (i + 1) (namebuf[i := ptr ! i])
      else (if int i = HTTP_HEADER_NAME_MAX then Bad else More, namebuf))"
  by pat_completeness auto
termination
  by (relation "measure (\<lambda>(ptr, i, namebuf). length ptr - i)") auto

declare name_scan.simps [simp del]

definition header_name_ref :: "string \<Rightarrow> http_parser \<Rightarrow> int \<times> http_parser" where
  "header_name_ref ptr p =
     (if 2 \<le> length ptr \<and> ptr ! 0 = CR \<and> ptr ! 1 = LF
      then (1, p\<lparr>hp_header_offset := hp_header_offset p + 2, hp_header_state := HPS_HEADER_COMPLETE\<rparr>)
      else
        (case name_scan ptr 0 (hp_namebuf p) of
           (Line i, nb) \<Rightarrow> (1, p\<lparr>hp_namebuf := nb, hp_header_offset := hp_header_offset p + i + 1,
                                 hp_header_state := HPS_HEADER_VALUE\<rparr>)
         | (More, nb) \<Rightarrow> (0, p\<lparr>hp_namebuf := nb\<rparr>)
         | (Bad, nb) \<Rightarrow> (-2, p\<lparr>hp_namebuf := nb\<rparr>)))"

definition is_blank :: "char \<Rightarrow> bool" where
  "is_blank c \<longleftrightarrow> c = SP \<or> c = TAB"

text \<open>
  \<open>header_value\<close> holds the bytes before index \<open>i\<close>. One line of the value, up to and with its
  carriage return: the value so far and the bytes after the carriage return.
\<close>

datatype hv_line = HvLine string string | HvLineMore | HvLineBad

fun value_line :: "string \<Rightarrow> string \<Rightarrow> hv_line" where
  "value_line hv [] = HvLineMore"
| "value_line hv (c # ptr) =
     (if int (length hv) = HTTP_HEADER_VALUE_MAX then HvLineBad
      else if ptr = [] then HvLineMore
      else if c = CR then HvLine hv ptr
      else if schar_le0 c then HvLineBad
      else value_line (hv @ [c]) ptr)"

definition rstrip :: "string \<Rightarrow> string" where
  "rstrip hv = rev (dropWhile is_blank (rev hv))"

datatype hv_result = HvDone string string | HvMore | HvBad

lemma value_line_shorter: "value_line hv ptr = HvLine hv' r \<Longrightarrow> length r < length ptr"
  by (induction hv ptr rule: value_line.induct) (auto split: if_splits)

text \<open>The whole value, with its continuation lines joined by one space.\<close>

function value_scan :: "string \<Rightarrow> string \<Rightarrow> hv_result" where
  "value_scan hv ptr =
     (case value_line hv (dropWhile is_blank ptr) of
        HvLineMore \<Rightarrow> HvMore
      | HvLineBad \<Rightarrow> HvBad
      | HvLine hv' [] \<Rightarrow> HvMore
      | HvLine hv' (c # r) \<Rightarrow>
          if c \<noteq> LF then HvBad
          else (case r of [] \<Rightarrow> HvMore
                | d # r' \<Rightarrow>
                    if is_blank d then value_scan (rstrip hv' @ [SP]) r'
                    else HvDone (rstrip hv') r))"
  by pat_completeness auto
termination
proof (relation "measure (\<lambda>(hv, ptr). length ptr)", goal_cases)
  case (2 hv ptr hv' y c r d r')
  then have "length y < length (dropWhile is_blank ptr)"
    by (metis value_line_shorter)
  also have "\<dots> \<le> length ptr"
    by (rule length_dropWhile_le)
  finally show ?case using 2 by simp
qed auto

declare value_scan.simps [simp del]

definition header_value_ref :: "bool \<Rightarrow> string \<Rightarrow> http_parser \<Rightarrow> int \<times> http_parser" where
  "header_value_ref al ptr p =
     (case value_scan [] ptr of
        HvMore \<Rightarrow> (0, p)
      | HvBad \<Rightarrow> (-2, p)
      | HvDone v rest \<Rightarrow>
          (case http_parser_add_header al (c_str (hp_namebuf p)) v p of
             (r, q) \<Rightarrow>
               if r < 0 then (-1, q)
               else (1, q\<lparr>hp_header_offset := hp_header_offset q + (length ptr - length rest),
                          hp_header_state := HPS_HEADER_NAME\<rparr>)))"

text \<open>
  The three step functions move the offset forward, and not beyond the message, when they
  return 1.
\<close>

lemma line_scan_Line:
  "line_scan bad mx ptr i = Line j \<Longrightarrow> i \<le> j \<and> Suc j < length ptr \<and> int j < mx"
proof (induction bad mx ptr i rule: line_scan.induct)
  case (1 bad mx ptr i)
  then show ?case
    unfolding line_scan.simps [of bad mx ptr i] by (auto split: if_splits)
qed

lemma name_scan_Line:
  "name_scan ptr i nb = (Line j, nb') \<Longrightarrow> i \<le> j \<and> j < length ptr \<and> int j < HTTP_HEADER_NAME_MAX"
proof (induction ptr i nb rule: name_scan.induct)
  case (1 ptr i nb)
  then show ?case
    unfolding name_scan.simps [of ptr i nb] by (auto split: if_splits)
qed

lemma value_scan_Done:
  "value_scan hv ptr = HvDone v r \<Longrightarrow> r \<noteq> [] \<and> length r < length ptr"
proof (induction hv ptr rule: value_scan.induct)
  case (1 hv ptr)
  have "length (dropWhile is_blank ptr) \<le> length ptr"
    by (rule length_dropWhile_le)
  then show ?case
    using 1 value_line_shorter [of hv "dropWhile is_blank ptr"]
    unfolding value_scan.simps [of hv ptr]
    by (auto split: hv_line.splits list.splits if_splits) fastforce+
qed

lemma check_message_header_keeps [simp]:
  "hp_header_offset (check_message_header n v p) = hp_header_offset p"
  "hp_header_state (check_message_header n v p) = hp_header_state p"
  "hp_header_list (check_message_header n v p) = hp_header_list p"
  "hp_namebuf (check_message_header n v p) = hp_namebuf p"
  by (simp_all add: check_message_header_def Let_def)

lemma parse_start_line_advance:
  "start_line_ref al ptr p = (r, q) \<Longrightarrow> 0 < r \<Longrightarrow>
     hp_header_offset p < hp_header_offset q \<and> hp_header_offset q \<le> hp_header_offset p + length ptr"
  by (auto simp: start_line_ref_def match_status_line_def match_request_line_def Let_def
      dest!: line_scan_Line split: if_splits scan.splits option.splits prod.splits)

lemma parse_header_name_advance:
  "header_name_ref ptr p = (r, q) \<Longrightarrow> 0 < r \<Longrightarrow>
     hp_header_offset p < hp_header_offset q \<and> hp_header_offset q \<le> hp_header_offset p + length ptr"
  by (auto simp: header_name_ref_def dest!: name_scan_Line split: if_splits scan.splits prod.splits)

lemma parse_header_value_advance:
  "header_value_ref al ptr p = (r, q) \<Longrightarrow> 0 < r \<Longrightarrow>
     hp_header_offset p < hp_header_offset q \<and> hp_header_offset q \<le> hp_header_offset p + length ptr"
  by (auto simp: header_value_ref_def http_parser_add_header_def add_message_header_def
      dest!: value_scan_Done split: if_splits hv_result.splits prod.splits)

section \<open>The header loop\<close>

text \<open>
  One round of \<open>__parse_message_header\<close>: \<open>Inl\<close> is the next round, \<open>Inr\<close> the return.
  \<open>al n\<close> answers the allocations made for the part of the message at offset \<open>n\<close>.
\<close>

definition header_round_ref :: "(nat \<Rightarrow> bool) \<Rightarrow> string \<Rightarrow> http_parser \<Rightarrow> http_parser + (int \<times> http_parser)" where
  "header_round_ref al msg p =
     (let ptr = drop (hp_header_offset p) msg; a = al (hp_header_offset p) in
      if hp_header_state p = HPS_START_LINE then
        (case start_line_ref a ptr p of (r, q) \<Rightarrow> if 0 < r then Inl q else Inr (r, q))
      else if hp_header_state p = HPS_HEADER_VALUE then
        (case header_value_ref a ptr p of (r, q) \<Rightarrow> if 0 < r then Inl q else Inr (r, q))
      else
        (case header_name_ref ptr p of (r, q) \<Rightarrow>
           if hp_header_state q = HPS_HEADER_COMPLETE then Inr (1, q)
           else if 0 < r then Inl q else Inr (r, q)))"

lemma header_round_advance:
  "header_round_ref al msg p = Inl q \<Longrightarrow>
     hp_header_offset p < hp_header_offset q \<and> hp_header_offset q \<le> hp_header_offset p + (length msg - hp_header_offset p)"
  by (auto simp: header_round_ref_def Let_def split: if_splits prod.splits
      dest: parse_start_line_advance parse_header_name_advance parse_header_value_advance)

function message_header_ref :: "(nat \<Rightarrow> bool) \<Rightarrow> string \<Rightarrow> http_parser \<Rightarrow> int \<times> http_parser" where
  "message_header_ref al msg p =
     (case header_round_ref al msg p of Inl q \<Rightarrow> message_header_ref al msg q | Inr r \<Rightarrow> r)"
  by pat_completeness auto
termination
  by (relation "measure (\<lambda>(al, msg, p). length msg - hp_header_offset p)")
    (auto dest: header_round_advance)

declare message_header_ref.simps [simp del]

section \<open>Chunks\<close>

definition chunk_data_ref :: "string \<Rightarrow> http_parser \<Rightarrow> int \<times> http_parser" where
  "chunk_data_ref ptr p =
     (case line_scan (\<lambda>_. False) HTTP_CHUNK_LINE_MAX ptr 0 of
        More \<Rightarrow> (0, p)
      | Bad \<Rightarrow> (-2, p)
      | Line i \<Rightarrow>
          (case strtol16 (take i ptr) of
             (chunk_size, consumed) \<Rightarrow>
               if consumed = 0 then (-2, p)
               else if chunk_size = 0
               then (1, p\<lparr>hp_chunk_state := CPS_TRAILER_PART,
                          hp_chunk_offset := hp_chunk_offset p + (i + 2)\<rparr>)
               else if chunk_size mod 2 ^ 64 < CHUNK_SIZE_MAX
               then (if int (length ptr) < chunk_size + int i + 4 then (0, p)
                     else (1, p\<lparr>hp_chunk_offset := hp_chunk_offset p + nat (chunk_size + int i + 4)\<rparr>))
               else (-2, p)))"

definition parse_trailer_part :: "string \<Rightarrow> http_parser \<Rightarrow> int \<times> http_parser" where
  "parse_trailer_part ptr p =
     (case line_scan (\<lambda>_. False) HTTP_TRAILER_LINE_MAX ptr 0 of
        More \<Rightarrow> (0, p)
      | Bad \<Rightarrow> (-2, p)
      | Line i \<Rightarrow>
          (1, p\<lparr>hp_chunk_offset := hp_chunk_offset p + i + 2,
               hp_chunk_state := (if i = 0 then CPS_CHUNK_COMPLETE else hp_chunk_state p)\<rparr>))"

definition chunk_round_ref :: "string \<Rightarrow> http_parser \<Rightarrow> http_parser + (int \<times> http_parser)" where
  "chunk_round_ref msg p =
     (let ptr = drop (hp_chunk_offset p) msg in
      if hp_chunk_state p = CPS_CHUNK_DATA then
        (case chunk_data_ref ptr p of (r, q) \<Rightarrow> if 0 < r then Inl q else Inr (r, q))
      else
        (case parse_trailer_part ptr p of (r, q) \<Rightarrow>
           if hp_chunk_state q = CPS_CHUNK_COMPLETE then Inr (1, q)
           else if 0 < r then Inl q else Inr (r, q)))"

lemma strtol16_range: "LONG_MIN \<le> fst (strtol16 s) \<and> fst (strtol16 s) \<le> LONG_MAX"
  by (auto simp: strtol16_def Let_def LONG_MIN_def LONG_MAX_def split: prod.splits)

lemma chunk_size_nonneg:
  "strtol16 s = (n, k) \<Longrightarrow> n mod 2 ^ 64 < CHUNK_SIZE_MAX \<Longrightarrow> 0 \<le> n"
proof (rule ccontr)
  assume s: "strtol16 s = (n, k)" and m: "n mod 2 ^ 64 < CHUNK_SIZE_MAX" and "\<not> 0 \<le> n"
  have "- (2 ^ 63) \<le> n"
    using strtol16_range [of s] s by (simp add: LONG_MIN_def)
  have "n mod 2 ^ 64 = (n + 2 ^ 64) mod 2 ^ 64"
    by simp
  also have "\<dots> = n + 2 ^ 64"
    using \<open>- (2 ^ 63) \<le> n\<close> \<open>\<not> 0 \<le> n\<close> by (intro mod_pos_pos_trivial) simp_all
  finally show False
    using m \<open>- (2 ^ 63) \<le> n\<close> by simp
qed

lemma parse_chunk_data_advance:
  "chunk_data_ref ptr p = (r, q) \<Longrightarrow> 0 < r \<Longrightarrow>
     hp_chunk_offset p < hp_chunk_offset q \<and> hp_chunk_offset q \<le> hp_chunk_offset p + length ptr"
  by (auto simp: chunk_data_ref_def dest!: line_scan_Line chunk_size_nonneg
      split: if_splits scan.splits prod.splits)

lemma parse_trailer_part_advance:
  "parse_trailer_part ptr p = (r, q) \<Longrightarrow> 0 < r \<Longrightarrow>
     hp_chunk_offset p < hp_chunk_offset q \<and> hp_chunk_offset q \<le> hp_chunk_offset p + length ptr"
  by (auto simp: parse_trailer_part_def dest!: line_scan_Line split: if_splits scan.splits)

lemma chunk_round_advance:
  "chunk_round_ref msg p = Inl q \<Longrightarrow>
     hp_chunk_offset p < hp_chunk_offset q \<and> hp_chunk_offset q \<le> hp_chunk_offset p + (length msg - hp_chunk_offset p)"
  by (auto simp: chunk_round_ref_def Let_def split: if_splits prod.splits
      dest: parse_chunk_data_advance parse_trailer_part_advance)

function chunk_ref :: "string \<Rightarrow> http_parser \<Rightarrow> int \<times> http_parser" where
  "chunk_ref msg p =
     (case chunk_round_ref msg p of Inl q \<Rightarrow> chunk_ref msg q | Inr r \<Rightarrow> r)"
  by pat_completeness auto
termination
  by (relation "measure (\<lambda>(msg, p). length msg - hp_chunk_offset p)") (auto dest: chunk_round_advance)

declare chunk_ref.simps [simp del]

section \<open>The line buffers of the code\<close>

text \<open>
  The functions above say what a line is, with the bytes of the message alone. The C functions copy
  the bytes into buffers of a fixed size on the way: \<open>start_line\<close>, \<open>header_value\<close> and \<open>chunk_line\<close> on the
  stack and \<open>namebuf\<close> in the parser. Here a buffer is the list of the bytes written so far, a write at
  or after its declared size is \<open>UB\<close>, and so is reading after the end of the message. The lemmas \<open>*_ref\<close>
  show that neither happens and that the code computes what the functions above say.
\<close>

definition put :: "int \<Rightarrow> nat \<Rightarrow> 'a \<Rightarrow> 'a outcome" where
  "put sz i x = (if int i < sz then Ret x else UB)"

text \<open>The loop of the start line and of the chunk line; \<open>buf\<close> holds the bytes before the index.\<close>

function line_copy :: "int \<Rightarrow> (char \<Rightarrow> bool) \<Rightarrow> int \<Rightarrow> string \<Rightarrow> string \<Rightarrow> (scan \<times> string) outcome" where
  "line_copy sz bad mx ptr buf =
     (let i = length buf in
      if i < length ptr \<and> int i < mx then
        andthen (put sz i (buf @ [ptr ! i])) (\<lambda>buf'.
          if ptr ! i = CR then
            Ret (if i = length ptr - 1 then More else if ptr ! (i + 1) \<noteq> LF then Bad else Line i, buf)
          else if bad (ptr ! i) then Ret (Bad, buf')
          else line_copy sz bad mx ptr (buf @ [ptr ! i]))
      else Ret (if int i = mx then Bad else More, buf))"
  by pat_completeness auto
termination
  by (relation "measure (\<lambda>(sz, bad, mx, ptr, buf). length ptr - length buf)") auto

declare line_copy.simps [simp del]

definition parse_start_line :: "bool \<Rightarrow> string \<Rightarrow> http_parser \<Rightarrow> (int \<times> http_parser) outcome" where
  "parse_start_line al ptr p =
     (if 2 \<le> length ptr \<and> ptr ! 0 = CR \<and> ptr ! 1 = LF
      then Ret (1, p\<lparr>hp_header_offset := hp_header_offset p + 2\<rparr>)
      else
        andthen (line_copy HTTP_START_LINE_MAX (\<lambda>c. c = NUL) HTTP_START_LINE_MAX ptr []) (\<lambda>(s, start_line).
          case s of
            More \<Rightarrow> Ret (0, p)
          | Bad \<Rightarrow> Ret (-2, p)
          | Line i \<Rightarrow>
              (case split_space start_line of
                 None \<Rightarrow> Ret (-2, p)
               | Some (p1, r) \<Rightarrow>
                   (case split_space r of
                      None \<Rightarrow> Ret (-2, p)
                    | Some (p2, p3) \<Rightarrow>
                        (case (if hp_is_resp p then match_status_line al p1 p2 p3 p
                               else match_request_line al p1 p2 p3 p)
                         of (ret, q) \<Rightarrow>
                           if ret < 0 then Ret (-1, q)
                           else Ret (1, q\<lparr>hp_header_offset := hp_header_offset q + i + 2,
                                          hp_header_state := HPS_HEADER_NAME\<rparr>))))))"

text \<open>\<open>namebuf\<close> is an array of \<open>HTTP_HEADER_NAME_MAX\<close> bytes.\<close>

function name_copy :: "string \<Rightarrow> nat \<Rightarrow> string \<Rightarrow> (scan \<times> string) outcome" where
  "name_copy ptr i namebuf =
     (if i < length ptr \<and> int i < HTTP_HEADER_NAME_MAX then
        if ptr ! i = CHR '':'' then andthen (put HTTP_HEADER_NAME_MAX i (namebuf[i := NUL])) (\<lambda>nb. Ret (Line i, nb))
        else if schar_le0 (ptr ! i) then Ret (Bad, namebuf)
        else andthen (put HTTP_HEADER_NAME_MAX i (namebuf[i := ptr ! i])) (\<lambda>nb.
               name_copy ptr (i + 1) (namebuf[i := ptr ! i]))
      else Ret (if int i = HTTP_HEADER_NAME_MAX then Bad else More, namebuf))"
  by pat_completeness auto
termination
  by (relation "measure (\<lambda>(ptr, i, namebuf). length ptr - i)") auto

declare name_copy.simps [simp del]

definition parse_header_name :: "string \<Rightarrow> http_parser \<Rightarrow> (int \<times> http_parser) outcome" where
  "parse_header_name ptr p =
     (if 2 \<le> length ptr \<and> ptr ! 0 = CR \<and> ptr ! 1 = LF
      then Ret (1, p\<lparr>hp_header_offset := hp_header_offset p + 2, hp_header_state := HPS_HEADER_COMPLETE\<rparr>)
      else
        andthen (name_copy ptr 0 (hp_namebuf p)) (\<lambda>(s, nb). Ret
          (case s of
             Line i \<Rightarrow> (1, p\<lparr>hp_namebuf := nb, hp_header_offset := hp_header_offset p + i + 1,
                           hp_header_state := HPS_HEADER_VALUE\<rparr>)
           | More \<Rightarrow> (0, p\<lparr>hp_namebuf := nb\<rparr>)
           | Bad \<Rightarrow> (-2, p\<lparr>hp_namebuf := nb\<rparr>))))"

text \<open>One line of a value into \<open>header_value\<close>, whose first bytes are \<open>hv\<close>; the message is not at its end.\<close>

fun value_copy :: "string \<Rightarrow> string \<Rightarrow> hv_line outcome" where
  "value_copy hv [] = UB"
| "value_copy hv (c # ptr) =
     (if int (length hv) = HTTP_HEADER_VALUE_MAX then Ret HvLineBad
      else andthen (put HTTP_HEADER_VALUE_MAX (length hv) (hv @ [c])) (\<lambda>hv'.
        if ptr = [] then Ret HvLineMore
        else if c = CR then Ret (HvLine hv ptr)
        else if schar_le0 c then Ret HvLineBad
        else value_copy (hv @ [c]) ptr))"

lemma value_copy_shorter: "value_copy hv ptr = Ret (HvLine hv' r) \<Longrightarrow> length r < length ptr"
  by (induction hv ptr rule: value_copy.induct) (auto simp: put_def andthen_def split: if_splits)

function value_copies :: "string \<Rightarrow> string \<Rightarrow> hv_result outcome" where
  "value_copies hv ptr =
     (if dropWhile is_blank ptr = [] then Ret HvMore
      else
        case value_copy hv (dropWhile is_blank ptr) of
          UB \<Rightarrow> UB
        | Ret HvLineMore \<Rightarrow> Ret HvMore
        | Ret HvLineBad \<Rightarrow> Ret HvBad
        | Ret (HvLine hv' []) \<Rightarrow> UB
        | Ret (HvLine hv' (c # r)) \<Rightarrow>
            if c \<noteq> LF then Ret HvBad
            else
              (case r of
                 [] \<Rightarrow> Ret HvMore
               | d # r' \<Rightarrow>
                   if is_blank d
                   then andthen (put HTTP_HEADER_VALUE_MAX (length (rstrip hv')) (rstrip hv' @ [SP])) (\<lambda>hv2.
                          value_copies (rstrip hv' @ [SP]) r')
                   else andthen (put HTTP_HEADER_VALUE_MAX (length (rstrip hv')) (rstrip hv')) (\<lambda>v. Ret (HvDone v r))))"
  by pat_completeness auto
termination
proof (relation "measure (\<lambda>(hv, ptr). length ptr)", goal_cases)
  case (2 hv ptr x hv' y c r d r')
  then have "length y < length (dropWhile is_blank ptr)"
    by (metis value_copy_shorter)
  also have "\<dots> \<le> length ptr"
    by (rule length_dropWhile_le)
  finally show ?case using 2 by simp
qed auto

declare value_copies.simps [simp del]

definition parse_header_value :: "bool \<Rightarrow> string \<Rightarrow> http_parser \<Rightarrow> (int \<times> http_parser) outcome" where
  "parse_header_value al ptr p =
     andthen (value_copies [] ptr) (\<lambda>v. Ret
       (case v of
          HvMore \<Rightarrow> (0, p)
        | HvBad \<Rightarrow> (-2, p)
        | HvDone v rest \<Rightarrow>
            (case http_parser_add_header al (c_str (hp_namebuf p)) v p of
               (r, q) \<Rightarrow>
                 if r < 0 then (-1, q)
                 else (1, q\<lparr>hp_header_offset := hp_header_offset q + (length ptr - length rest),
                            hp_header_state := HPS_HEADER_NAME\<rparr>))))"

text \<open>The copies are what the functions above say, and stay in their buffers.\<close>

lemma line_copy_ref:
  assumes "mx \<le> sz" "i \<le> length ptr"
  shows "\<exists>b. line_copy sz bad mx ptr (take i ptr) = Ret (line_scan bad mx ptr i, b)
    \<and> (\<forall>j. line_scan bad mx ptr i = Line j \<longrightarrow> b = take j ptr)"
  using assms
proof (induction bad mx ptr i rule: line_scan.induct)
  case (1 bad mx ptr i)
  have l: "length (take i ptr) = i" using 1(3) by simp
  note c = line_copy.simps [of sz bad mx ptr "take i ptr", unfolded l Let_def] and r = line_scan.simps [of bad mx ptr i]
  show ?case
  proof (cases "i < length ptr \<and> int i < mx")
    case False
    show ?thesis unfolding c r if_not_P [OF False] by auto
  next
    case True
    then have w: "put sz i x = Ret x" for x :: string using 1(2) by (simp add: put_def)
    have t: "take i ptr @ [ptr ! i] = take (i + 1) ptr" using True by (simp add: take_Suc_conv_app_nth)
    show ?thesis
    proof (cases "ptr ! i = CR \<or> bad (ptr ! i)")
      case False
      have "ptr ! i \<noteq> CR" "\<not> bad (ptr ! i)" using False by simp_all
      then show ?thesis
        using 1(1) [OF True] 1(2) True unfolding c r if_P [OF True] by (simp add: w t andthen_def)
    next
      case b: True
      then show ?thesis unfolding c r if_P [OF True] by (auto simp: w andthen_def)
    qed
  qed
qed

lemma parse_start_line_ref: "parse_start_line al ptr p = Ret (start_line_ref al ptr p)"
proof -
  obtain b where b: "line_copy HTTP_START_LINE_MAX (\<lambda>c. c = NUL) HTTP_START_LINE_MAX ptr []
      = Ret (line_scan (\<lambda>c. c = NUL) HTTP_START_LINE_MAX ptr 0, b)"
    "\<And>j. line_scan (\<lambda>c. c = NUL) HTTP_START_LINE_MAX ptr 0 = Line j \<Longrightarrow> b = take j ptr"
    using line_copy_ref [of HTTP_START_LINE_MAX HTTP_START_LINE_MAX 0 ptr "\<lambda>c. c = NUL"] by auto
  show ?thesis
    unfolding parse_start_line_def start_line_ref_def b(1)
    using b(2) by (auto simp: andthen_def split: scan.split option.split prod.split)
qed

lemma name_copy_ref: "name_copy ptr i nb = Ret (name_scan ptr i nb)"
proof (induction ptr i nb rule: name_scan.induct)
  case (1 ptr i nb)
  then show ?case
    unfolding name_copy.simps [of ptr i nb] name_scan.simps [of ptr i nb] by (simp add: put_def andthen_def)
qed

lemma parse_header_name_ref: "parse_header_name ptr p = Ret (header_name_ref ptr p)"
  by (auto simp: parse_header_name_def header_name_ref_def name_copy_ref andthen_def split: prod.split scan.split)

lemma value_copy_ref:
  "ptr \<noteq> [] \<Longrightarrow> int (length hv) \<le> HTTP_HEADER_VALUE_MAX \<Longrightarrow> value_copy hv ptr = Ret (value_line hv ptr)
    \<and> (\<forall>hv' r. value_line hv ptr = HvLine hv' r \<longrightarrow> int (length hv') < HTTP_HEADER_VALUE_MAX \<and> r \<noteq> [])"
  by (induction hv ptr rule: value_line.induct) (auto simp: put_def andthen_def)

lemma rstrip_length: "length (rstrip hv) \<le> length hv"
  using length_dropWhile_le [of is_blank "rev hv"] by (simp add: rstrip_def)

lemma value_copies_ref:
  "int (length hv) \<le> HTTP_HEADER_VALUE_MAX \<Longrightarrow> value_copies hv ptr = Ret (value_scan hv ptr)"
proof (induction hv ptr rule: value_scan.induct)
  case (1 hv ptr)
  let ?t = "dropWhile is_blank ptr"
  note c = value_copies.simps [of hv ptr] and r = value_scan.simps [of hv ptr]
  show ?case
  proof (cases "?t = []")
    case True
    show ?thesis unfolding c r True by simp
  next
    case False
    note v = value_copy_ref [OF False 1(2)]
    show ?thesis
    proof (cases "value_line hv ?t")
      case (HvLine hv' r0)
      obtain c0 r1 where r0: "r0 = c0 # r1" using v HvLine by (cases r0) auto
      have l: "int (length hv') < HTTP_HEADER_VALUE_MAX" using v HvLine by blast
      then have w: "put HTTP_HEADER_VALUE_MAX (length (rstrip hv')) x = Ret x" for x :: string
        using rstrip_length [of hv'] by (simp add: put_def)
      have l2: "int (length (rstrip hv' @ [SP])) \<le> HTTP_HEADER_VALUE_MAX" using rstrip_length [of hv'] l by simp
      have vc: "value_copy hv ?t = Ret (HvLine hv' (c0 # r1))" using v HvLine r0 by simp
      show ?thesis
      proof (cases "c0 = LF \<and> r1 \<noteq> []")
        case True
        then obtain d r2 where r1: "r1 = d # r2" by (cases r1) auto
        show ?thesis
          using 1(1) [of hv' r0 c0 r1 d r2] l2 True HvLine r0 r1 unfolding c r vc if_not_P [OF False] by (simp add: w andthen_def)
      next
        case f: False
        then show ?thesis using HvLine r0 unfolding c r vc if_not_P [OF False] by (auto split: list.split)
      qed
    qed (use v False in \<open>simp_all add: c r\<close>)
  qed
qed

lemma parse_header_value_ref: "parse_header_value al ptr p = Ret (header_value_ref al ptr p)"
  by (auto simp: parse_header_value_def header_value_ref_def value_copies_ref andthen_def split: hv_result.split prod.split)

definition header_round :: "(nat \<Rightarrow> bool) \<Rightarrow> string \<Rightarrow> http_parser \<Rightarrow> (http_parser + (int \<times> http_parser)) outcome" where
  "header_round al msg p =
     (let ptr = drop (hp_header_offset p) msg; a = al (hp_header_offset p) in
      if hp_header_state p = HPS_START_LINE then
        andthen (parse_start_line a ptr p) (\<lambda>(r, q). Ret (if 0 < r then Inl q else Inr (r, q)))
      else if hp_header_state p = HPS_HEADER_VALUE then
        andthen (parse_header_value a ptr p) (\<lambda>(r, q). Ret (if 0 < r then Inl q else Inr (r, q)))
      else
        andthen (parse_header_name ptr p) (\<lambda>(r, q). Ret
          (if hp_header_state q = HPS_HEADER_COMPLETE then Inr (1, q)
           else if 0 < r then Inl q else Inr (r, q))))"

lemma header_round_ref_eq: "header_round al msg p = Ret (header_round_ref al msg p)"
  by (simp add: header_round_def header_round_ref_def parse_start_line_ref parse_header_value_ref parse_header_name_ref
      andthen_def Let_def split: prod.split)

function parse_message_header :: "(nat \<Rightarrow> bool) \<Rightarrow> string \<Rightarrow> http_parser \<Rightarrow> (int \<times> http_parser) outcome" where
  "parse_message_header al msg p =
     (case header_round al msg p of UB \<Rightarrow> UB | Ret (Inl q) \<Rightarrow> parse_message_header al msg q | Ret (Inr r) \<Rightarrow> Ret r)"
  by pat_completeness auto
termination
  by (relation "measure (\<lambda>(al, msg, p). length msg - hp_header_offset p)")
    (auto simp: header_round_ref_eq dest: header_round_advance)

declare parse_message_header.simps [simp del]

lemma parse_message_header_ref: "parse_message_header al msg p = Ret (message_header_ref al msg p)"
proof (induction al msg p rule: message_header_ref.induct)
  case (1 al msg p)
  then show ?case
    unfolding parse_message_header.simps [of al msg p] message_header_ref.simps [of al msg p]
    by (simp add: header_round_ref_eq split: sum.split)
qed

section \<open>The buffers of chunks\<close>

definition parse_chunk_data :: "string \<Rightarrow> http_parser \<Rightarrow> (int \<times> http_parser) outcome" where
  "parse_chunk_data ptr p =
     andthen (line_copy HTTP_CHUNK_LINE_MAX (\<lambda>_. False) HTTP_CHUNK_LINE_MAX ptr []) (\<lambda>(s, chunk_line). Ret
       (case s of
          More \<Rightarrow> (0, p)
        | Bad \<Rightarrow> (-2, p)
        | Line i \<Rightarrow>
            (case strtol16 chunk_line of
               (chunk_size, consumed) \<Rightarrow>
                 if consumed = 0 then (-2, p)
                 else if chunk_size = 0
                 then (1, p\<lparr>hp_chunk_state := CPS_TRAILER_PART,
                            hp_chunk_offset := hp_chunk_offset p + (i + 2)\<rparr>)
                 else if chunk_size mod 2 ^ 64 < CHUNK_SIZE_MAX
                 then (if int (length ptr) < chunk_size + int i + 4 then (0, p)
                       else (1, p\<lparr>hp_chunk_offset := hp_chunk_offset p + nat (chunk_size + int i + 4)\<rparr>))
                 else (-2, p))))"

lemma parse_chunk_data_ref: "parse_chunk_data ptr p = Ret (chunk_data_ref ptr p)"
proof -
  obtain b where b: "line_copy HTTP_CHUNK_LINE_MAX (\<lambda>_. False) HTTP_CHUNK_LINE_MAX ptr []
      = Ret (line_scan (\<lambda>_. False) HTTP_CHUNK_LINE_MAX ptr 0, b)"
    "\<And>j. line_scan (\<lambda>_. False) HTTP_CHUNK_LINE_MAX ptr 0 = Line j \<Longrightarrow> b = take j ptr"
    using line_copy_ref [of HTTP_CHUNK_LINE_MAX HTTP_CHUNK_LINE_MAX 0 ptr "\<lambda>_. False"] by auto
  show ?thesis
    unfolding parse_chunk_data_def chunk_data_ref_def b(1)
    using b(2) by (auto simp: andthen_def split: scan.split)
qed

definition chunk_round :: "string \<Rightarrow> http_parser \<Rightarrow> (http_parser + (int \<times> http_parser)) outcome" where
  "chunk_round msg p =
     (let ptr = drop (hp_chunk_offset p) msg in
      if hp_chunk_state p = CPS_CHUNK_DATA then
        andthen (parse_chunk_data ptr p) (\<lambda>(r, q). Ret (if 0 < r then Inl q else Inr (r, q)))
      else
        (case parse_trailer_part ptr p of (r, q) \<Rightarrow> Ret
           (if hp_chunk_state q = CPS_CHUNK_COMPLETE then Inr (1, q)
            else if 0 < r then Inl q else Inr (r, q))))"

lemma chunk_round_ref_eq: "chunk_round msg p = Ret (chunk_round_ref msg p)"
  by (simp add: chunk_round_def chunk_round_ref_def parse_chunk_data_ref andthen_def Let_def split: prod.split)

function parse_chunk :: "string \<Rightarrow> http_parser \<Rightarrow> (int \<times> http_parser) outcome" where
  "parse_chunk msg p =
     (case chunk_round msg p of UB \<Rightarrow> UB | Ret (Inl q) \<Rightarrow> parse_chunk msg q | Ret (Inr r) \<Rightarrow> Ret r)"
  by pat_completeness auto
termination
  by (relation "measure (\<lambda>(msg, p). length msg - hp_chunk_offset p)")
    (auto simp: chunk_round_ref_eq dest: chunk_round_advance)

declare parse_chunk.simps [simp del]

lemma parse_chunk_ref: "parse_chunk msg p = Ret (chunk_ref msg p)"
proof (induction msg p rule: chunk_ref.induct)
  case (1 msg p)
  then show ?case
    unfolding parse_chunk.simps [of msg p] chunk_ref.simps [of msg p]
    by (simp add: chunk_round_ref_eq split: sum.split)
qed

section \<open>Appending bytes\<close>

text \<open>
  The doubling of the buffer. Sizes of objects in memory are below \<open>2 ^ 63\<close>, so the
  doubling does not wrap (\<open>grow_bounds\<close> below); a size that is not positive would not grow,
  and the code never has one here.
\<close>

function grow :: "int \<Rightarrow> int \<Rightarrow> int" where
  "grow new_size need = (if new_size < need \<and> 0 < new_size then grow (2 * new_size) need else new_size)"
  by pat_completeness auto
termination
  by (relation "measure (\<lambda>(new_size, need). nat (need - new_size))") auto

declare grow.simps [simp del]

text \<open>\<open>http_parser_append_message\<close> up to the header: the buffer after \<open>memcpy\<close>.\<close>

definition append_bytes :: "(int \<Rightarrow> bool) \<Rightarrow> string \<Rightarrow> http_parser \<Rightarrow> http_parser option outcome" where
  "append_bytes ral buf p =
     (let need = int (hp_msgsize p) + int (length buf) + 1;
          new_size = grow (max HTTP_MSGBUF_INIT_SIZE (2 * hp_bufsize p)) need in
      if hp_bufsize p < need \<and> \<not> ral new_size then Ret None
      else
        let q = (if hp_bufsize p < need then p\<lparr>hp_bufsize := new_size\<rparr> else p) in
        if int (hp_msgsize q) + int (length buf) \<le> hp_bufsize q
        then Ret (Some (q\<lparr>hp_msgbuf := take (hp_msgsize q) (hp_msgbuf q) @ buf,
                          hp_msgsize := hp_msgsize q + length buf\<rparr>))
        else UB)"

text \<open>
  The part after the header is complete: the end of the message by its length or by its
  last chunk. \<open>n\<close> is the number of bytes given, and the result tells how many were used.
\<close>

definition finish_message :: "int \<Rightarrow> nat \<Rightarrow> http_parser \<Rightarrow> int \<times> int \<times> http_parser" where
  "finish_message n tot p =
     (1, (n - (int (hp_msgsize p) - int tot)) mod 2 ^ 64,
      p\<lparr>hp_msgbuf := take tot (hp_msgbuf p), hp_msgsize := tot, hp_complete := True\<rparr>)"

definition body_ref :: "int \<Rightarrow> http_parser \<Rightarrow> int \<times> int \<times> http_parser" where
  "body_ref n p =
     (if hp_transfer_length p \<noteq> SIZE_MAX then
        (let tot = (int (hp_header_offset p) + hp_transfer_length p) mod 2 ^ 64 in
         if tot \<le> int (hp_msgsize p) then finish_message n (nat tot) p else (0, n, p))
      else if \<not> hp_chunked p then (0, n, p)
      else if hp_chunk_state p \<noteq> CPS_CHUNK_COMPLETE then
        (case chunk_ref (hp_msgbuf p) p of
           (r, q) \<Rightarrow> if r \<le> 0 then (r, n, q) else finish_message n (hp_chunk_offset q) q)
      else finish_message n (hp_chunk_offset p) p)"

definition append_body :: "int \<Rightarrow> http_parser \<Rightarrow> (int \<times> int \<times> http_parser) outcome" where
  "append_body n p =
     (if hp_transfer_length p \<noteq> SIZE_MAX then
        (let tot = (int (hp_header_offset p) + hp_transfer_length p) mod 2 ^ 64 in
         Ret (if tot \<le> int (hp_msgsize p) then finish_message n (nat tot) p else (0, n, p)))
      else if \<not> hp_chunked p then Ret (0, n, p)
      else if hp_chunk_state p \<noteq> CPS_CHUNK_COMPLETE then
        andthen (parse_chunk (hp_msgbuf p) p) (\<lambda>(r, q).
          Ret (if r \<le> 0 then (r, n, q) else finish_message n (hp_chunk_offset q) q))
      else Ret (finish_message n (hp_chunk_offset p) p))"

lemma append_body_ref: "append_body n p = Ret (body_ref n p)"
  by (simp add: append_body_def body_ref_def parse_chunk_ref andthen_def Let_def split: prod.split)

definition header_done :: "http_parser \<Rightarrow> http_parser" where
  "header_done p =
     (if hp_chunked p then p\<lparr>hp_chunk_offset := hp_header_offset p, hp_chunk_state := CPS_CHUNK_DATA\<rparr>
      else if hp_transfer_length p = SIZE_MAX then p\<lparr>hp_transfer_length := hp_content_length p\<rparr>
      else p)"

text \<open>The return code, \<open>*n\<close> and the parser after \<open>http_parser_append_message\<close>.\<close>

definition http_parser_append_message ::
  "(int \<Rightarrow> bool) \<Rightarrow> (nat \<Rightarrow> bool) \<Rightarrow> string \<Rightarrow> http_parser \<Rightarrow> (int \<times> int \<times> http_parser) outcome" where
  "http_parser_append_message ral al buf p =
     (if hp_complete p then Ret (1, 0, p)
      else
        (case append_bytes ral buf p of
           UB \<Rightarrow> UB
         | Ret None \<Rightarrow> Ret (-1, int (length buf), p)
         | Ret (Some q) \<Rightarrow>
             if hp_header_state q \<noteq> HPS_HEADER_COMPLETE then
               andthen (parse_message_header al (hp_msgbuf q) q) (\<lambda>(r, q').
                 if r \<le> 0 then Ret (r, int (length buf), q')
                 else append_body (int (length buf)) (header_done q'))
             else append_body (int (length buf)) q))"

lemma append_message_ref:
  "http_parser_append_message ral al buf p =
     (if hp_complete p then Ret (1, 0, p)
      else
        (case append_bytes ral buf p of
           UB \<Rightarrow> UB
         | Ret None \<Rightarrow> Ret (-1, int (length buf), p)
         | Ret (Some q) \<Rightarrow>
             if hp_header_state q \<noteq> HPS_HEADER_COMPLETE then
               (case message_header_ref al (hp_msgbuf q) q of
                  (r, q') \<Rightarrow>
                    if r \<le> 0 then Ret (r, int (length buf), q')
                    else Ret (body_ref (int (length buf)) (header_done q')))
             else Ret (body_ref (int (length buf)) q)))"
  by (simp add: http_parser_append_message_def parse_message_header_ref append_body_ref andthen_def split: outcome.split option.split prod.split)

definition http_parser_header_complete :: "http_parser \<Rightarrow> bool" where
  "http_parser_header_complete p \<longleftrightarrow> hp_header_state p = HPS_HEADER_COMPLETE"

text \<open>
  \<open>http_parser_get_body\<close>: \<open>None\<close> is the return value 1. The terminator is written at
  \<open>msgbuf[msgsize]\<close>, inside the allocation or \<open>UB\<close>.
\<close>

definition http_parser_get_body :: "http_parser \<Rightarrow> string option outcome" where
  "http_parser_get_body p =
     (if hp_complete p \<and> hp_header_state p = HPS_HEADER_COMPLETE then
        (if int (hp_msgsize p) < hp_bufsize p
         then Ret (Some (drop (hp_header_offset p) (hp_msgbuf p))) else UB)
      else Ret None)"

definition http_parser_close_message :: "http_parser \<Rightarrow> http_parser" where
  "http_parser_close_message p = p\<lparr>hp_complete := True\<rparr>"

section \<open>Setters and the header cursor\<close>

definition http_parser_set_method :: "bool \<Rightarrow> string \<Rightarrow> http_parser \<Rightarrow> int \<times> http_parser" where
  "http_parser_set_method al v p = (if al then (0, p\<lparr>hp_method := Some (c_str v)\<rparr>) else (-1, p))"

definition http_parser_set_uri :: "bool \<Rightarrow> string \<Rightarrow> http_parser \<Rightarrow> int \<times> http_parser" where
  "http_parser_set_uri al v p = (if al then (0, p\<lparr>hp_uri := Some (c_str v)\<rparr>) else (-1, p))"

definition http_parser_set_version :: "bool \<Rightarrow> string \<Rightarrow> http_parser \<Rightarrow> int \<times> http_parser" where
  "http_parser_set_version al v p = (if al then (0, p\<lparr>hp_version := Some (c_str v)\<rparr>) else (-1, p))"

definition http_parser_set_code :: "bool \<Rightarrow> string \<Rightarrow> http_parser \<Rightarrow> int \<times> http_parser" where
  "http_parser_set_code al v p = (if al then (0, p\<lparr>hp_code := Some (c_str v)\<rparr>) else (-1, p))"

definition http_parser_set_phrase :: "bool \<Rightarrow> string \<Rightarrow> http_parser \<Rightarrow> int \<times> http_parser" where
  "http_parser_set_phrase al v p = (if al then (0, p\<lparr>hp_phrase := Some (c_str v)\<rparr>) else (-1, p))"

text \<open>
  A cursor is the number of lines it has passed: 0 is the list head. \<open>line_name\<close> and
  \<open>line_value\<close> are the bytes the cursor hands out.
\<close>

type_synonym header_cursor = nat

definition line_name :: "header_line \<Rightarrow> string" where
  "line_name l = take (hl_name_len l) (hl_buf l)"

definition line_value :: "header_line \<Rightarrow> string" where
  "line_value l = take (hl_value_len l) (drop (hl_name_len l + 2) (hl_buf l))"

definition http_header_cursor_next ::
  "header_line list \<Rightarrow> header_cursor \<Rightarrow> (string \<times> string) option \<times> header_cursor" where
  "http_header_cursor_next ls cur =
     (if cur < length ls
      then (Some (line_name (ls ! cur), line_value (ls ! cur)), cur + 1) else (None, cur))"

function http_header_cursor_find ::
  "string \<Rightarrow> header_line list \<Rightarrow> header_cursor \<Rightarrow> string option \<times> header_cursor" where
  "http_header_cursor_find name ls cur =
     (if cur < length ls then
        (if hl_name_len (ls ! cur) = length name
            \<and> strncasecmp_eq (hl_buf (ls ! cur)) name (length name)
         then (Some (line_value (ls ! cur)), cur + 1)
         else http_header_cursor_find name ls (cur + 1))
      else (None, cur))"
  by pat_completeness auto
termination
  by (relation "measure (\<lambda>(name, ls, cur). length ls - cur)") auto

declare http_header_cursor_find.simps [simp del]

end
