(* ===== verification/HttpSafety.thy ===== *)
theory HttpSafety
  imports HttpParser
begin

text \<open>
  Safety of the HTTP parser: the invariant of \<open>http_parser_t\<close> and its preservation by every
  operation of \<open>http_parser.c\<close>, which keeps all writes inside their buffers.
\<close>

section \<open>The invariant\<close>

definition line_ok :: "header_line \<Rightarrow> bool" where
  "line_ok l \<longleftrightarrow> hl_name_len l + hl_value_len l + 4 \<le> length (hl_buf l)"

definition len_ok :: "int \<Rightarrow> bool" where
  "len_ok n \<longleftrightarrow> n = SIZE_MAX \<or> 0 \<le> n \<and> n < 10 ^ 15"

text \<open>What holds from the first byte on.\<close>

definition hp_base :: "http_parser \<Rightarrow> bool" where
  "hp_base p \<longleftrightarrow>
     length (hp_msgbuf p) = hp_msgsize p \<and> hp_header_offset p \<le> hp_msgsize p
     \<and> (int (hp_msgsize p) < hp_bufsize p \<or> hp_msgsize p = 0 \<and> hp_bufsize p = 0)
     \<and> length (hp_namebuf p) = 64 \<and> (hp_header_state p = HPS_HEADER_VALUE \<longrightarrow> NUL \<in> set (hp_namebuf p))
     \<and> list_all line_ok (hp_header_list p) \<and> len_ok (hp_content_length p) \<and> len_ok (hp_transfer_length p)"

text \<open>Once the header of a chunked message is complete, the chunks start behind it.\<close>

definition hp_inv :: "http_parser \<Rightarrow> bool" where
  "hp_inv p \<longleftrightarrow> hp_base p \<and>
     (hp_header_state p = HPS_HEADER_COMPLETE \<and> hp_chunked p \<and> hp_transfer_length p = SIZE_MAX \<longrightarrow>
        hp_header_offset p \<le> hp_chunk_offset p \<and> hp_chunk_offset p \<le> hp_msgsize p)
     \<and> (hp_header_state p = HPS_HEADER_COMPLETE \<longrightarrow> int (hp_msgsize p) < hp_bufsize p)"

text \<open>The fields that the header states do not touch.\<close>

definition same_buffer :: "http_parser \<Rightarrow> http_parser \<Rightarrow> bool" where
  "same_buffer p q \<longleftrightarrow> hp_msgbuf q = hp_msgbuf p \<and> hp_msgsize q = hp_msgsize p
     \<and> hp_bufsize q = hp_bufsize p \<and> hp_complete q = hp_complete p \<and> hp_is_resp q = hp_is_resp p"

lemma same_buffer_trans: "same_buffer p q \<Longrightarrow> same_buffer q r \<Longrightarrow> same_buffer p r"
  by (simp add: same_buffer_def)

lemma same_buffer_refl [simp]: "same_buffer p p"
  by (simp add: same_buffer_def)

text \<open>Updates that the predicates do not see.\<close>

lemma hp_base_upd [simp]:
  "hp_base (p\<lparr>hp_expect_continue := x_expect_continue\<rparr>) = hp_base p"
  "hp_base (p\<lparr>hp_has_connection := x_has_connection\<rparr>) = hp_base p"
  "hp_base (p\<lparr>hp_keep_alive := x_keep_alive\<rparr>) = hp_base p"
  "hp_base (p\<lparr>hp_has_keep_alive := x_has_keep_alive\<rparr>) = hp_base p"
  "hp_base (p\<lparr>hp_has_content_length := x_has_content_length\<rparr>) = hp_base p"
  "hp_base (p\<lparr>hp_chunked := x_chunked\<rparr>) = hp_base p"
  "hp_base (p\<lparr>hp_version := x_version\<rparr>) = hp_base p"
  "hp_base (p\<lparr>hp_method := x_method\<rparr>) = hp_base p"
  "hp_base (p\<lparr>hp_uri := x_uri\<rparr>) = hp_base p"
  "hp_base (p\<lparr>hp_code := x_code\<rparr>) = hp_base p"
  "hp_base (p\<lparr>hp_phrase := x_phrase\<rparr>) = hp_base p"
  "hp_base (p\<lparr>hp_chunk_state := x_chunk_state\<rparr>) = hp_base p"
  "hp_base (p\<lparr>hp_chunk_offset := x_chunk_offset\<rparr>) = hp_base p"
  by (simp_all add: hp_base_def)

lemma same_buffer_upd [simp]:
  "same_buffer p (q\<lparr>hp_expect_continue := x_expect_continue\<rparr>) = same_buffer p q"
  "same_buffer p (q\<lparr>hp_has_connection := x_has_connection\<rparr>) = same_buffer p q"
  "same_buffer p (q\<lparr>hp_keep_alive := x_keep_alive\<rparr>) = same_buffer p q"
  "same_buffer p (q\<lparr>hp_has_keep_alive := x_has_keep_alive\<rparr>) = same_buffer p q"
  "same_buffer p (q\<lparr>hp_has_content_length := x_has_content_length\<rparr>) = same_buffer p q"
  "same_buffer p (q\<lparr>hp_chunked := x_chunked\<rparr>) = same_buffer p q"
  "same_buffer p (q\<lparr>hp_version := x_version\<rparr>) = same_buffer p q"
  "same_buffer p (q\<lparr>hp_method := x_method\<rparr>) = same_buffer p q"
  "same_buffer p (q\<lparr>hp_uri := x_uri\<rparr>) = same_buffer p q"
  "same_buffer p (q\<lparr>hp_code := x_code\<rparr>) = same_buffer p q"
  "same_buffer p (q\<lparr>hp_phrase := x_phrase\<rparr>) = same_buffer p q"
  "same_buffer p (q\<lparr>hp_chunk_state := x_chunk_state\<rparr>) = same_buffer p q"
  "same_buffer p (q\<lparr>hp_chunk_offset := x_chunk_offset\<rparr>) = same_buffer p q"
  "same_buffer p (q\<lparr>hp_header_list := x_header_list\<rparr>) = same_buffer p q"
  "same_buffer p (q\<lparr>hp_header_offset := x_header_offset\<rparr>) = same_buffer p q"
  "same_buffer p (q\<lparr>hp_header_state := x_header_state\<rparr>) = same_buffer p q"
  "same_buffer p (q\<lparr>hp_namebuf := x_namebuf\<rparr>) = same_buffer p q"
  "same_buffer p (q\<lparr>hp_content_length := x_content_length\<rparr>) = same_buffer p q"
  "same_buffer p (q\<lparr>hp_transfer_length := x_transfer_length\<rparr>) = same_buffer p q"
  by (simp_all add: same_buffer_def)

lemma hp_base_set_len:
  "hp_base p \<Longrightarrow> len_ok n \<Longrightarrow> hp_base (p\<lparr>hp_content_length := n\<rparr>)"
  "hp_base p \<Longrightarrow> len_ok n \<Longrightarrow> hp_base (p\<lparr>hp_transfer_length := n\<rparr>)"
  by (simp_all add: hp_base_def)

lemma hp_base_set_offset:
  "hp_base p \<Longrightarrow> n \<le> hp_msgsize p \<Longrightarrow> hp_base (p\<lparr>hp_header_offset := n\<rparr>)"
  by (simp add: hp_base_def)

lemma hp_base_set_state:
  "hp_base p \<Longrightarrow> s \<noteq> HPS_HEADER_VALUE \<Longrightarrow> hp_base (p\<lparr>hp_header_state := s\<rparr>)"
  by (simp add: hp_base_def)

lemma hp_base_set_namebuf:
  "hp_base p \<Longrightarrow> length nb = 64 \<Longrightarrow> hp_header_state p = HPS_HEADER_VALUE \<longrightarrow> NUL \<in> set nb \<Longrightarrow>
   hp_base (p\<lparr>hp_namebuf := nb\<rparr>)"
  by (simp add: hp_base_def)

lemma hp_base_set_name:
  "hp_base p \<Longrightarrow> n \<le> hp_msgsize p \<Longrightarrow> length nb = 64 \<Longrightarrow> NUL \<in> set nb \<Longrightarrow>
   hp_base (p\<lparr>hp_namebuf := nb, hp_header_offset := n, hp_header_state := s\<rparr>)"
  by (simp add: hp_base_def)

lemma hp_base_add_line:
  "hp_base p \<Longrightarrow> line_ok l \<Longrightarrow> hp_base (p\<lparr>hp_header_list := hp_header_list p @ [l]\<rparr>)"
  by (simp add: hp_base_def)

lemma hp_baseD:
  assumes "hp_base p"
  shows "length (hp_msgbuf p) = hp_msgsize p" "hp_header_offset p \<le> hp_msgsize p" "length (hp_namebuf p) = 64"
  using assms by (simp_all add: hp_base_def)

lemma ptr_room:
  assumes "hp_base p" "length ptr = hp_msgsize p - hp_header_offset p" "n \<le> length ptr"
  shows "hp_header_offset p + n \<le> hp_msgsize p"
  using hp_baseD(2) [OF assms(1)] assms(2,3) by linarith

section \<open>Header lines\<close>

lemma atoi_digits:
  assumes "isdigit (cat v 0)" "length v \<le> 15"
  shows "len_ok (atoi v)"
proof -
  obtain c r where v: "v = c # r" "isdigit c"
    using assms(1) by (cases v) (auto simp: isdigit_def)
  have ns: "\<not> isspace c" "c \<noteq> NUL" "c \<noteq> CHR ''-''" "c \<noteq> CHR ''+''"
    using v(2) by (auto simp: isdigit_def isspace_def)
  define t where "t = takeWhile isdigit (c_str v)"
  have "c_str v = c # c_str r"
    using ns by (simp add: v c_str_def)
  then have a: "atoi v = int (dec_val 0 t)"
    using ns by (simp add: atoi_def t_def)
  have "length t \<le> length v"
    unfolding t_def c_str_def by (meson length_takeWhile_le order_trans)
  moreover have "dec_val 0 t < (0 + 1) * 10 ^ length t"
    by (rule dec_val_bound) (auto simp: t_def dest: set_takeWhileD)
  moreover have "(10::nat) ^ length t \<le> 10 ^ 15" if "length t \<le> 15"
    using that by (intro power_increasing) auto
  ultimately have "dec_val 0 t < 10 ^ 15"
    using assms(2) by simp
  then show ?thesis
    unfolding a len_ok_def by (intro disjI2) simp
qed

lemma check_message_header_base: "hp_base p \<Longrightarrow> hp_base (check_message_header n v p)"
  by (simp add: check_message_header_def Let_def hp_base_set_len atoi_digits)

lemma check_message_header_buffer [simp]:
  "same_buffer p (check_message_header n v q) \<longleftrightarrow> same_buffer p q"
  by (simp add: check_message_header_def Let_def)

lemma new_line_ok: "line_ok (new_line n v)"
  by (simp add: line_ok_def new_line_def header_text_def)

lemma add_header_safe:
  assumes "http_parser_add_header al n v p = (r, q)" "hp_base p"
  shows "hp_base q \<and> same_buffer p q \<and> hp_header_state q = hp_header_state p
    \<and> hp_header_offset q = hp_header_offset p \<and> hp_namebuf q = hp_namebuf p \<and> (r = 0 \<or> r = -1)"
  using assms
  by (auto simp: http_parser_add_header_def add_message_header_def hp_base_add_line new_line_ok
      check_message_header_base split: if_splits)

section \<open>The header states\<close>

lemma name_scan_length: "name_scan ptr i nb = (s, nb') \<Longrightarrow> length nb' = length nb"
proof (induction ptr i nb rule: name_scan.induct)
  case (1 ptr i nb)
  then show ?case
    unfolding name_scan.simps [of ptr i nb] by (auto split: if_splits)
qed

lemma name_scan_NUL: "name_scan ptr i nb = (Line j, nb') \<Longrightarrow> length nb = 64 \<Longrightarrow> NUL \<in> set nb'"
proof (induction ptr i nb rule: name_scan.induct)
  case (1 ptr i nb)
  then show ?case
    unfolding name_scan.simps [of ptr i nb] by (auto simp: set_update_memI split: if_splits)
qed

lemma match_request_safe:
  assumes "match_request_line al a b c p = (r, q)" "hp_base p"
  shows "hp_base q \<and> same_buffer p q \<and> hp_header_offset q = hp_header_offset p
    \<and> hp_header_state q = hp_header_state p \<and> (r = 0 \<or> r = -1)"
  using assms by (auto simp: match_request_line_def Let_def split: if_splits)

lemma match_status_safe:
  assumes "match_status_line al a b c p = (r, q)" "hp_base p"
  shows "hp_base q \<and> same_buffer p q \<and> hp_header_offset q = hp_header_offset p
    \<and> hp_header_state q = hp_header_state p \<and> (r = 0 \<or> r = -1)"
  using assms by (auto simp: match_status_line_def Let_def hp_base_set_len len_ok_def split: if_splits)

lemma start_line_safe:
  assumes "start_line_ref al ptr p = (r, q)" "hp_base p" "hp_header_state p = HPS_START_LINE"
    "length ptr = hp_msgsize p - hp_header_offset p"
  shows "hp_base q \<and> same_buffer p q \<and> hp_header_state q \<noteq> HPS_HEADER_COMPLETE \<and> r \<in> {-2, -1, 0, 1}"
proof (cases "2 \<le> length ptr \<and> ptr ! 0 = CR \<and> ptr ! 1 = LF")
  case True
  then show ?thesis
    using assms(1-3) ptr_room [OF assms(2,4), of 2]
    by (auto simp: start_line_ref_def hp_base_set_offset)
next
  case nl: False
  show ?thesis
  proof (cases "line_scan (\<lambda>c. c = NUL) HTTP_START_LINE_MAX ptr 0")
    case (Line i)
    have room: "Suc (Suc (hp_header_offset p + i)) \<le> hp_msgsize p"
      using line_scan_Line [OF Line] ptr_room [OF assms(2,4), of "i + 2"] by simp
    show ?thesis
    proof (cases "split_space (take i ptr)")
      case None
      then show ?thesis
        using assms(1-3) nl Line by (auto simp: start_line_ref_def)
    next
      case (Some a)
      obtain p1 t where a: "a = (p1, t)" by fastforce
      show ?thesis
      proof (cases "split_space t")
        case None
        then show ?thesis
          using assms(1-3) nl Line Some a by (auto simp: start_line_ref_def)
      next
        case (Some b)
        obtain p2 p3 where b: "b = (p2, p3)" by fastforce
        obtain r' q' where m: "(if hp_is_resp p then match_status_line al p1 p2 p3 p
            else match_request_line al p1 p2 p3 p) = (r', q')" by fastforce
        have safe: "hp_base q' \<and> same_buffer p q' \<and> hp_header_offset q' = hp_header_offset p
            \<and> hp_header_state q' = hp_header_state p \<and> (r' = 0 \<or> r' = -1)"
          using m match_request_safe [OF _ assms(2)] match_status_safe [OF _ assms(2)]
          by (cases "hp_is_resp p") auto
        have "(r, q) = (if r' < 0 then (-1, q')
            else (1, q'\<lparr>hp_header_offset := hp_header_offset q' + i + 2, hp_header_state := HPS_HEADER_NAME\<rparr>))"
          using assms(1) \<open>split_space (take i ptr) = Some a\<close> Some
          unfolding start_line_ref_def if_not_P [OF nl] Line a b by (simp add: m)
        then show ?thesis
          using safe room assms(3)
          by (auto simp: hp_base_set_offset hp_base_set_state same_buffer_def split: if_splits)
      qed
    qed
  qed (use assms(1-3) nl in \<open>auto simp: start_line_ref_def\<close>)
qed

lemma header_name_safe:
  assumes "header_name_ref ptr p = (r, q)" "hp_base p"
    "hp_header_state p = HPS_HEADER_NAME" "length ptr = hp_msgsize p - hp_header_offset p"
  shows "hp_base q \<and> same_buffer p q \<and> r \<in> {-2, 0, 1} \<and> (hp_header_state q = HPS_HEADER_COMPLETE \<longleftrightarrow> r = 1 \<and> hp_header_state q \<noteq> HPS_HEADER_VALUE)"
proof -
  have off: "hp_header_offset p + n \<le> hp_msgsize p" if "n \<le> length ptr" for n
    using ptr_room [OF assms(2,4)] that by simp
  obtain s nb where ns: "name_scan ptr 0 (hp_namebuf p) = (s, nb)" by fastforce
  have nb: "length nb = 64"
    using name_scan_length [OF ns] assms(2) by (simp add: hp_base_def)
  have line: "Suc (hp_header_offset p + i) \<le> hp_msgsize p \<and> NUL \<in> set nb" if "s = Line i" for i
    using ns name_scan_Line [of ptr 0 "hp_namebuf p" i nb] off [of "Suc i"]
      name_scan_NUL [of ptr 0 "hp_namebuf p" i nb] assms(2) that
    by (auto simp: hp_baseD)
  show ?thesis
    using assms(1-3) nb off [of 2] line off
    by (cases s) (auto simp: header_name_ref_def ns hp_base_set_offset hp_base_set_state
        hp_base_set_namebuf hp_base_set_name split: if_splits)
qed

lemma header_value_safe:
  assumes "header_value_ref al ptr p = (r, q)" "hp_base p"
    "hp_header_state p = HPS_HEADER_VALUE" "length ptr = hp_msgsize p - hp_header_offset p"
  shows "hp_base q \<and> same_buffer p q \<and> hp_header_state q \<noteq> HPS_HEADER_COMPLETE \<and> r \<in> {-2, -1, 0, 1}"
proof (cases "value_scan [] ptr")
  case (HvDone v rest)
  obtain r' q' where ah: "http_parser_add_header al (c_str (hp_namebuf p)) v p = (r', q')"
    by fastforce
  note safe = add_header_safe [OF ah assms(2)]
  have "hp_header_offset q' + (length ptr - length rest) \<le> hp_msgsize q'"
    using safe ptr_room [OF assms(2,4), of "length ptr - length rest"] by (simp add: same_buffer_def)
  then show ?thesis
    using assms(1,3) HvDone ah safe
    by (auto simp: header_value_ref_def hp_base_set_offset hp_base_set_state split: if_splits)
qed (use assms in \<open>auto simp: header_value_ref_def\<close>)

lemma header_round_safe:
  assumes "hp_base p" "hp_header_state p \<noteq> HPS_HEADER_COMPLETE" "msg = hp_msgbuf p"
  shows "case header_round_ref al msg p of
      Inl q \<Rightarrow> hp_base q \<and> same_buffer p q \<and> hp_header_state q \<noteq> HPS_HEADER_COMPLETE
    | Inr (r, q) \<Rightarrow> hp_base q \<and> same_buffer p q \<and> r \<in> {-2, -1, 0, 1}
        \<and> (hp_header_state q = HPS_HEADER_COMPLETE \<longleftrightarrow> r = 1)"
proof -
  have len: "length (drop (hp_header_offset p) msg) = hp_msgsize p - hp_header_offset p"
    using assms by (simp add: hp_base_def)
  show ?thesis
  proof (cases "hp_header_state p")
    case HPS_START_LINE
    obtain r q where s: "start_line_ref (al (hp_header_offset p)) (drop (hp_header_offset p) msg) p = (r, q)"
      by fastforce
    with start_line_safe [OF s assms(1) HPS_START_LINE len] HPS_START_LINE show ?thesis
      by (auto simp: header_round_ref_def)
  next
    case HPS_HEADER_NAME
    obtain r q where s: "header_name_ref (drop (hp_header_offset p) msg) p = (r, q)"
      by fastforce
    with header_name_safe [OF s assms(1) HPS_HEADER_NAME len] HPS_HEADER_NAME show ?thesis
      by (auto simp: header_round_ref_def)
  next
    case HPS_HEADER_VALUE
    obtain r q where s: "header_value_ref (al (hp_header_offset p)) (drop (hp_header_offset p) msg) p = (r, q)"
      by fastforce
    with header_value_safe [OF s assms(1) HPS_HEADER_VALUE len] HPS_HEADER_VALUE show ?thesis
      by (auto simp: header_round_ref_def)
  qed (use assms in simp)
qed

lemma parse_message_header_safe:
  assumes "message_header_ref al msg p = (r, q)" "hp_base p"
    "hp_header_state p \<noteq> HPS_HEADER_COMPLETE" "msg = hp_msgbuf p"
  shows "hp_base q \<and> same_buffer p q \<and> r \<in> {-2, -1, 0, 1} \<and> (hp_header_state q = HPS_HEADER_COMPLETE \<longleftrightarrow> r = 1)"
  using assms
proof (induction al msg p rule: message_header_ref.induct)
  case (1 al msg p)
  note safe = header_round_safe [OF 1(3-5), of al]
  show ?case
  proof (cases "header_round_ref al msg p")
    case (Inl p')
    with safe have p': "hp_base p'" "same_buffer p p'" "hp_header_state p' \<noteq> HPS_HEADER_COMPLETE"
      by auto
    have "msg = hp_msgbuf p'"
      using p'(2) 1(5) by (simp add: same_buffer_def)
    moreover have "message_header_ref al msg p' = (r, q)"
      using 1(2) Inl by (subst (asm) message_header_ref.simps) simp
    ultimately show ?thesis
      using 1(1) [OF Inl] p' same_buffer_trans by blast
  next
    case (Inr b)
    then have "b = (r, q)"
      using 1(2) by (subst (asm) message_header_ref.simps) simp
    with Inr safe show ?thesis by simp
  qed
qed

section \<open>Chunks\<close>

text \<open>The chunk loop only moves the chunk state and the chunk offset.\<close>

definition chunk_moved :: "http_parser \<Rightarrow> http_parser \<Rightarrow> bool" where
  "chunk_moved p q \<longleftrightarrow> (\<exists>s n. q = p\<lparr>hp_chunk_state := s, hp_chunk_offset := n\<rparr>)"

lemma chunk_moved_refl [simp]: "chunk_moved p p"
proof -
  have "p = p\<lparr>hp_chunk_state := hp_chunk_state p, hp_chunk_offset := hp_chunk_offset p\<rparr>" by simp
  then show ?thesis unfolding chunk_moved_def by blast
qed

lemma chunk_moved_upd [simp]:
  "chunk_moved p (p\<lparr>hp_chunk_offset := n\<rparr>)" "chunk_moved p (p\<lparr>hp_chunk_state := s, hp_chunk_offset := n\<rparr>)"
  "chunk_moved p (p\<lparr>hp_chunk_offset := n, hp_chunk_state := s\<rparr>)"
proof -
  have "p\<lparr>hp_chunk_offset := n\<rparr> = p\<lparr>hp_chunk_state := hp_chunk_state p, hp_chunk_offset := n\<rparr>"
    "p\<lparr>hp_chunk_offset := n, hp_chunk_state := s\<rparr> = p\<lparr>hp_chunk_state := s, hp_chunk_offset := n\<rparr>" by simp_all
  then show "chunk_moved p (p\<lparr>hp_chunk_offset := n\<rparr>)" "chunk_moved p (p\<lparr>hp_chunk_state := s, hp_chunk_offset := n\<rparr>)"
    "chunk_moved p (p\<lparr>hp_chunk_offset := n, hp_chunk_state := s\<rparr>)"
    unfolding chunk_moved_def by blast+
qed

lemma chunk_moved_trans: "chunk_moved p q \<Longrightarrow> chunk_moved q r \<Longrightarrow> chunk_moved p r"
proof -
  assume "chunk_moved p q" "chunk_moved q r"
  then obtain s n s' n' where "q = p\<lparr>hp_chunk_state := s, hp_chunk_offset := n\<rparr>"
    "r = q\<lparr>hp_chunk_state := s', hp_chunk_offset := n'\<rparr>"
    unfolding chunk_moved_def by blast
  then have "r = p\<lparr>hp_chunk_state := s', hp_chunk_offset := n'\<rparr>" by simp
  then show ?thesis by simp
qed

lemma chunk_data_safe:
  assumes "chunk_data_ref ptr p = (r, q)" "hp_chunk_state p = CPS_CHUNK_DATA"
  shows "chunk_moved p q \<and> r \<in> {-2, 0, 1} \<and> hp_chunk_state q \<noteq> CPS_CHUNK_COMPLETE
    \<and> (r \<le> 0 \<longrightarrow> q = p)"
  using assms
  by (auto simp: chunk_data_ref_def split: scan.splits prod.splits if_splits)

lemma trailer_part_safe:
  assumes "parse_trailer_part ptr p = (r, q)" "hp_chunk_state p \<noteq> CPS_CHUNK_COMPLETE"
  shows "chunk_moved p q \<and> r \<in> {-2, 0, 1} \<and> (hp_chunk_state q = CPS_CHUNK_COMPLETE \<longrightarrow> r = 1)
    \<and> (r \<le> 0 \<longrightarrow> q = p)"
  using assms
  by (auto simp: parse_trailer_part_def split: scan.splits if_splits)

lemma chunk_round_safe:
  assumes "hp_chunk_state p \<noteq> CPS_CHUNK_COMPLETE" "hp_chunk_offset p \<le> length msg"
  shows "case chunk_round_ref msg p of
      Inl q \<Rightarrow> chunk_moved p q \<and> hp_chunk_state q \<noteq> CPS_CHUNK_COMPLETE
        \<and> hp_chunk_offset p \<le> hp_chunk_offset q \<and> hp_chunk_offset q \<le> length msg
    | Inr (r, q) \<Rightarrow> chunk_moved p q \<and> r \<in> {-2, 0, 1} \<and> (hp_chunk_state q = CPS_CHUNK_COMPLETE \<longleftrightarrow> r = 1)
        \<and> hp_chunk_offset p \<le> hp_chunk_offset q \<and> hp_chunk_offset q \<le> length msg"
proof -
  define ptr where "ptr = drop (hp_chunk_offset p) msg"
  have len: "hp_chunk_offset p + length ptr = length msg"
    using assms(2) by (simp add: ptr_def)
  show ?thesis
  proof (cases "hp_chunk_state p = CPS_CHUNK_DATA")
    case True
    obtain r q where s: "chunk_data_ref ptr p = (r, q)" by fastforce
    note f = chunk_data_safe [OF s True] parse_chunk_data_advance [OF s]
    show ?thesis
      using f len assms(2) by (auto simp: chunk_round_ref_def ptr_def [symmetric] s True)
  next
    case False
    obtain r q where s: "parse_trailer_part ptr p = (r, q)" by fastforce
    note f = trailer_part_safe [OF s assms(1)] parse_trailer_part_advance [OF s]
    show ?thesis
      using f len assms(2) by (auto simp: chunk_round_ref_def ptr_def [symmetric] s False)
  qed
qed

lemma parse_chunk_safe:
  assumes "chunk_ref msg p = (r, q)" "hp_chunk_state p \<noteq> CPS_CHUNK_COMPLETE" "hp_chunk_offset p \<le> length msg"
  shows "chunk_moved p q \<and> r \<in> {-2, 0, 1} \<and> (hp_chunk_state q = CPS_CHUNK_COMPLETE \<longleftrightarrow> r = 1)
    \<and> hp_chunk_offset p \<le> hp_chunk_offset q \<and> hp_chunk_offset q \<le> length msg"
  using assms
proof (induction msg p rule: chunk_ref.induct)
  case (1 msg p)
  note safe = chunk_round_safe [OF 1(3,4)]
  show ?case
  proof (cases "chunk_round_ref msg p")
    case (Inl p')
    with safe have p': "chunk_moved p p'" "hp_chunk_state p' \<noteq> CPS_CHUNK_COMPLETE"
      "hp_chunk_offset p \<le> hp_chunk_offset p'" "hp_chunk_offset p' \<le> length msg"
      by auto
    have "chunk_ref msg p' = (r, q)"
      using 1(2) Inl by (subst (asm) chunk_ref.simps) simp
    then show ?thesis
      using 1(1) [OF Inl] p' chunk_moved_trans by (meson order_trans)
  next
    case (Inr b)
    then have "b = (r, q)"
      using 1(2) by (subst (asm) chunk_ref.simps) simp
    with Inr safe show ?thesis by simp
  qed
qed

section \<open>Appending bytes\<close>

lemma grow_bounds:
  "0 < s \<Longrightarrow> need \<le> grow s need \<and> s \<le> grow s need \<and> (s < need \<longrightarrow> grow s need < 2 * need)"
proof (induction s need rule: grow.induct)
  case (1 s need)
  show ?case
  proof (cases "s < need")
    case True
    then have "grow s need = grow (2 * s) need"
      using 1(2) by (subst grow.simps) simp
    moreover have "grow (2 * s) need = 2 * s" if "\<not> 2 * s < need"
      using that by (subst grow.simps) simp
    ultimately show ?thesis
      using 1 True by (cases "2 * s < need") auto
  next
    case False
    then show ?thesis by (subst (1 2 3) grow.simps) simp
  qed
qed

lemma append_bytes_safe:
  assumes "hp_base p"
  shows "\<exists>w. append_bytes ral buf p = Ret w \<and> (case w of None \<Rightarrow> True | Some q \<Rightarrow>
     hp_base q \<and> hp_msgsize q = hp_msgsize p + length buf \<and> hp_msgbuf q = hp_msgbuf p @ buf
     \<and> int (hp_msgsize q) < hp_bufsize q
     \<and> q = p\<lparr>hp_bufsize := hp_bufsize q, hp_msgbuf := hp_msgbuf q, hp_msgsize := hp_msgsize q\<rparr>)"
proof -
  define need where "need = int (hp_msgsize p) + int (length buf) + 1"
  define b where "b = (if hp_bufsize p < need then grow (max HTTP_MSGBUF_INIT_SIZE (2 * hp_bufsize p)) need
    else hp_bufsize p)"
  have "need \<le> b"
    using grow_bounds [of "max HTTP_MSGBUF_INIT_SIZE (2 * hp_bufsize p)" need] by (auto simp: b_def)
  then have fits: "int (hp_msgsize p) + int (length buf) < b"
    by (simp add: need_def)
  define q where "q = p\<lparr>hp_bufsize := b, hp_msgbuf := hp_msgbuf p @ buf, hp_msgsize := hp_msgsize p + length buf\<rparr>"
  have len: "length (hp_msgbuf p) = hp_msgsize p"
    using assms by (rule hp_baseD)
  have "append_bytes ral buf p = Ret None \<or> append_bytes ral buf p = Ret (Some q)"
    using fits unfolding append_bytes_def need_def [symmetric] Let_def
    by (auto simp: b_def q_def len split: if_splits)
  moreover have "hp_base q"
    using assms fits by (auto simp: hp_base_def q_def)
  ultimately show ?thesis
    using fits by (auto simp: q_def)
qed

lemma finish_inv:
  assumes "hp_base p" "hp_header_offset p \<le> m" "m \<le> hp_msgsize p" "int (hp_msgsize p) < hp_bufsize p"
    "hp_chunked p \<and> hp_transfer_length p = SIZE_MAX \<longrightarrow> hp_header_offset p \<le> hp_chunk_offset p \<and> hp_chunk_offset p \<le> m"
  shows "hp_inv (p\<lparr>hp_msgbuf := take m (hp_msgbuf p), hp_msgsize := m, hp_complete := True\<rparr>)"
  using assms by (auto simp: hp_inv_def hp_base_def)

lemma total_no_wrap:
  assumes b: "hp_base p" and sz: "int (hp_msgsize p) < 2 ^ 62" and tl: "hp_transfer_length p \<noteq> SIZE_MAX"
  shows "(int (hp_header_offset p) + hp_transfer_length p) mod 2 ^ 64
      = int (hp_header_offset p) + hp_transfer_length p \<and> 0 \<le> hp_transfer_length p"
proof -
  have "0 \<le> hp_transfer_length p" "hp_transfer_length p < 10 ^ 15"
    using b tl by (auto simp: hp_base_def len_ok_def)
  moreover have "int (hp_header_offset p) < 2 ^ 62"
    using sz hp_baseD(2) [OF b] by linarith
  ultimately show ?thesis
    by (intro conjI mod_pos_pos_trivial) simp_all
qed

lemma chunk_moved_base: "chunk_moved p q \<Longrightarrow> hp_base q = hp_base p"
  by (auto simp: chunk_moved_def)

lemma chunk_moved_fields:
  assumes "chunk_moved p q"
  shows "hp_header_state q = hp_header_state p" "hp_header_offset q = hp_header_offset p"
    "hp_chunked q = hp_chunked p" "hp_transfer_length q = hp_transfer_length p"
    "hp_complete q = hp_complete p" "hp_msgsize q = hp_msgsize p" "hp_bufsize q = hp_bufsize p"
    "hp_msgbuf q = hp_msgbuf p"
  using assms by (auto simp: chunk_moved_def)

lemma append_body_safe:
  assumes b: "hp_base p" and st: "hp_header_state p = HPS_HEADER_COMPLETE"
    and ch: "hp_chunked p \<and> hp_transfer_length p = SIZE_MAX \<longrightarrow>
      hp_header_offset p \<le> hp_chunk_offset p \<and> hp_chunk_offset p \<le> hp_msgsize p"
    and sz: "int (hp_msgsize p) < hp_bufsize p" "int (hp_msgsize p) < 2 ^ 62" and nc: "\<not> hp_complete p"
  shows "\<exists>r n' q. body_ref n p = (r, n', q) \<and> hp_inv q \<and> r \<in> {-2, 0, 1} \<and> (r = 1 \<longleftrightarrow> hp_complete q)"
proof (cases "hp_transfer_length p = SIZE_MAX \<and> hp_chunked p \<and> hp_chunk_state p \<noteq> CPS_CHUNK_COMPLETE")
  case True
  obtain r q where q: "chunk_ref (hp_msgbuf p) p = (r, q)" by fastforce
  note c = parse_chunk_safe [OF q]
  have off: "hp_chunk_offset p \<le> length (hp_msgbuf p)"
    using ch True hp_baseD(1) [OF b] by simp
  note c = parse_chunk_safe [OF q _ off]
  have mv: "chunk_moved p q" "hp_chunk_offset p \<le> hp_chunk_offset q" "hp_chunk_offset q \<le> hp_msgsize p" "r \<in> {-2, 0, 1}"
    using c True hp_baseD(1) [OF b] by auto
  note fields = chunk_moved_fields [OF mv(1)]
  have "hp_base q" using b chunk_moved_base [OF mv(1)] by simp
  then have "hp_inv (q\<lparr>hp_msgbuf := take (hp_chunk_offset q) (hp_msgbuf q), hp_msgsize := hp_chunk_offset q, hp_complete := True\<rparr>)"
    using mv fields ch True sz by (intro finish_inv) auto
  moreover have "hp_inv q"
    using \<open>hp_base q\<close> fields mv ch True sz by (auto simp: hp_inv_def)
  ultimately show ?thesis
    using True q mv(4) fields nc by (auto simp: body_ref_def finish_message_def)
next
  case False
  have inv: "hp_inv p"
    using b ch sz by (auto simp: hp_inv_def)
  show ?thesis
  proof (cases "hp_transfer_length p = SIZE_MAX")
    case True
    then show ?thesis
      using False inv nc ch b sz finish_inv [of p "hp_chunk_offset p"]
      by (auto simp: body_ref_def finish_message_def)
  next
    case tl: False
    define m where "m = int (hp_header_offset p) + hp_transfer_length p"
    note w = total_no_wrap [OF b sz(2) tl]
    have "hp_inv (p\<lparr>hp_msgbuf := take (nat m) (hp_msgbuf p), hp_msgsize := nat m, hp_complete := True\<rparr>)"
      if "m \<le> int (hp_msgsize p)"
      using that b w sz tl by (intro finish_inv) (auto simp: m_def)
    then show ?thesis
      using tl inv nc w unfolding m_def [symmetric]
      by (auto simp: body_ref_def finish_message_def Let_def m_def [symmetric])
  qed
qed

lemma header_done_safe:
  assumes "hp_base p" "hp_header_state p = HPS_HEADER_COMPLETE"
  shows "hp_base (header_done p) \<and> same_buffer p (header_done p)
    \<and> hp_header_state (header_done p) = HPS_HEADER_COMPLETE
    \<and> (hp_chunked (header_done p) \<longrightarrow> hp_chunk_offset (header_done p) = hp_header_offset (header_done p))"
  using assms by (auto simp: header_done_def hp_base_set_len) (simp add: hp_base_def)

lemma append_message_ok:
  assumes "hp_inv p" "int (hp_msgsize p) + int (length buf) < 2 ^ 62"
  shows "\<exists>r n q. http_parser_append_message ral al buf p = Ret (r, n, q) \<and> hp_inv q
    \<and> r \<in> {-2, -1, 0, 1} \<and> (r = 1 \<longleftrightarrow> hp_complete q)"
proof (cases "hp_complete p")
  case True
  then show ?thesis using assms(1) by (simp add: append_message_ref)
next
  case nc: False
  have b: "hp_base p" using assms(1) by (simp add: hp_inv_def)
  obtain w where w: "append_bytes ral buf p = Ret w" "case w of None \<Rightarrow> True | Some q \<Rightarrow>
     hp_base q \<and> hp_msgsize q = hp_msgsize p + length buf \<and> hp_msgbuf q = hp_msgbuf p @ buf
     \<and> int (hp_msgsize q) < hp_bufsize q
     \<and> q = p\<lparr>hp_bufsize := hp_bufsize q, hp_msgbuf := hp_msgbuf q, hp_msgsize := hp_msgsize q\<rparr>"
    using append_bytes_safe [OF b] by blast
  show ?thesis
  proof (cases w)
    case None
    then show ?thesis using w nc assms(1) by (simp add: append_message_ref)
  next
    case (Some q)
    with w have q: "hp_base q" "hp_msgsize q = hp_msgsize p + length buf" "int (hp_msgsize q) < hp_bufsize q"
      and qp: "q = p\<lparr>hp_bufsize := hp_bufsize q, hp_msgbuf := hp_msgbuf q, hp_msgsize := hp_msgsize q\<rparr>"
      by auto
    have eq: "hp_header_state q = hp_header_state p" "hp_complete q = hp_complete p" "hp_chunked q = hp_chunked p"
      "hp_transfer_length q = hp_transfer_length p" "hp_chunk_offset q = hp_chunk_offset p"
      "hp_header_offset q = hp_header_offset p"
      by (subst qp, simp)+
    show ?thesis
    proof (cases "hp_header_state q = HPS_HEADER_COMPLETE")
      case True
      have "hp_chunked q \<and> hp_transfer_length q = SIZE_MAX \<longrightarrow>
          hp_header_offset q \<le> hp_chunk_offset q \<and> hp_chunk_offset q \<le> hp_msgsize q"
        using assms(1) True eq q(2) by (auto simp: hp_inv_def)
      from append_body_safe [OF q(1) True this q(3), of "int (length buf)"] show ?thesis
        using assms(2) q(2) eq nc w(1) Some True by (auto simp: append_message_ref)
    next
      case False
      obtain r t where t: "message_header_ref al (hp_msgbuf q) q = (r, t)" by fastforce
      note h = parse_message_header_safe [OF t q(1) False refl]
      have tq: "hp_msgsize t = hp_msgsize q" "hp_bufsize t = hp_bufsize q" "hp_complete t = hp_complete q"
        using h by (auto simp: same_buffer_def)
      show ?thesis
      proof (cases "r \<le> 0")
        case True
        then have "hp_inv t" using h tq q(3) by (auto simp: hp_inv_def)
        then show ?thesis
          using True h t nc w(1) Some False tq eq by (auto simp: append_message_ref)
      next
        case pos: False
        then have st: "hp_header_state t = HPS_HEADER_COMPLETE" using h by auto
        define d where "d = header_done t"
        have "hp_base d \<and> same_buffer t d \<and> hp_header_state d = HPS_HEADER_COMPLETE
            \<and> (hp_chunked d \<longrightarrow> hp_chunk_offset d = hp_header_offset d)"
          unfolding d_def using h st by (intro header_done_safe) auto
        then have d: "hp_base d" "hp_header_state d = HPS_HEADER_COMPLETE" "hp_msgsize d = hp_msgsize q"
          "hp_bufsize d = hp_bufsize q" "\<not> hp_complete d"
          "hp_chunked d \<and> hp_transfer_length d = SIZE_MAX \<longrightarrow>
            hp_header_offset d \<le> hp_chunk_offset d \<and> hp_chunk_offset d \<le> hp_msgsize d"
          using tq eq nc hp_baseD(2) [of d] by (auto simp: same_buffer_def)
        have "int (hp_msgsize d) < 2 ^ 62" using assms(2) d(3) q(2) by simp
        from append_body_safe [OF d(1,2,6) _ this d(5), of "int (length buf)"] show ?thesis
          using d(3,4) q(3) pos t nc w(1) Some False unfolding d_def
          by (auto simp: append_message_ref)
      qed
    qed
  qed
qed

text \<open>
  C1. \<open>http_parser_append_message\<close> is safe on every parser that satisfies the invariant: no write
  leaves \<open>msgbuf\<close>, \<open>namebuf\<close> or the arrays \<open>start_line\<close>, \<open>header_value\<close> and \<open>chunk_line\<close> on the stack,
  which are definitions in which such a write is \<open>UB\<close>; the invariant holds again, the return code is
  one of -2, -1, 0 and 1, and it is 1 exactly when the message is complete.
\<close>

theorem append_message_safe:
  assumes "hp_inv p" "int (hp_msgsize p) + int (length buf) < 2 ^ 62"
  shows "\<exists>r n q. http_parser_append_message ral al buf p = Ret (r, n, q) \<and> hp_inv q
    \<and> r \<in> {-2, -1, 0, 1} \<and> (r = 1 \<longleftrightarrow> hp_complete q)"
  using assms by (rule append_message_ok)

section \<open>Setting a header\<close>

lemma strncasecmp_eq_append [simp]: "strncasecmp_eq (a @ t) a (length a)"
  by (induction a) auto

lemma strncasecmp_eq_take:
  "n \<le> length a \<Longrightarrow> strncasecmp_eq (take n a @ t) b n = strncasecmp_eq a b n"
proof (induction n arbitrary: a b)
  case (Suc n)
  then obtain x a' where "a = x # a'" by (cases a) auto
  with Suc show ?case by simp
qed simp

lemma replace_value_correct:
  assumes "line_ok l" "line_matches name l"
  shows "replace_value al name value l = Ret None \<and> \<not> al \<or>
    (\<exists>l'. replace_value al name value l = Ret (Some l') \<and> line_ok l' \<and> line_matches name l' \<and> line_value l' = value)"
proof (cases "hl_value_len l < length value")
  case True
  then show ?thesis
    using assms(2)
    by (auto simp: replace_value_def memcpy_at_def line_ok_def line_matches_def line_value_def)
next
  case False
  then have "length name + 2 + (length value + 2) \<le> length (hl_buf l)" "hl_name_len l = length name"
    using assms by (auto simp: line_ok_def line_matches_def)
  moreover have "take (length name + 2) (hl_buf l) @ t = take (length name) (hl_buf l) @ take 2 (drop (length name) (hl_buf l)) @ t" for t
    by (simp only: take_add append_assoc)
  ultimately show ?thesis
    using assms(2) False strncasecmp_eq_take [of "length name" "hl_buf l"]
    by (auto simp: replace_value_def memcpy_at_def line_ok_def line_matches_def line_value_def simp del: take_Suc)
qed

lemma set_line_correct:
  assumes "list_all line_ok ls"
  shows "case set_line al name value ls of
      UB \<Rightarrow> False
    | Ret None \<Rightarrow> list_all (\<lambda>l. \<not> line_matches name l) ls
    | Ret (Some (r, ls')) \<Rightarrow> list_all line_ok ls' \<and> (r = -1 \<and> \<not> al \<and> ls' = ls \<or> r = 0
        \<and> map_option line_value (List.find (line_matches name) ls') = Some value
        \<and> filter (\<lambda>l. \<not> line_matches name l) ls' = filter (\<lambda>l. \<not> line_matches name l) ls
        \<and> length ls' = length ls)"
  using assms
proof (induction ls)
  case Nil
  then show ?case by simp
next
  case (Cons l ls)
  show ?case
  proof (cases "line_matches name l")
    case True
    with Cons.prems replace_value_correct [of l name al "value"] show ?thesis by auto
  next
    case False
    then show ?thesis
      using Cons by (auto split: outcome.splits option.splits)
  qed
qed

lemma cursor_find_eq:
  "http_header_cursor_find name ls cur =
     (let r = drop cur ls; k = length (takeWhile (\<lambda>l. \<not> line_matches name l) r) in
      case List.find (line_matches name) r of
        Some l \<Rightarrow> (Some (line_value l), cur + k + 1)
      | None \<Rightarrow> (None, max cur (length ls)))"
proof (induction name ls cur rule: http_header_cursor_find.induct)
  case (1 name ls cur)
  show ?case
  proof (cases "cur < length ls")
    case True
    then have d: "drop cur ls = ls ! cur # drop (Suc cur) ls"
      by (rule Cons_nth_drop_Suc [symmetric])
    show ?thesis
    proof (cases "line_matches name (ls ! cur)")
      case m: True
      then show ?thesis
        using True d by (simp add: http_header_cursor_find.simps [of name ls cur] line_matches_def Let_def)
    next
      case m: False
      have "http_header_cursor_find name ls cur = http_header_cursor_find name ls (cur + 1)"
        using m True by (subst http_header_cursor_find.simps) (auto simp: line_matches_def)
      then show ?thesis
        using 1 [OF True] m True d by (auto simp: line_matches_def Let_def split: option.splits)
    qed
  next
    case False
    then show ?thesis
      by (simp add: http_header_cursor_find.simps [of name ls cur])
  qed
qed

lemma set_header_result:
  assumes "list_all line_ok (hp_header_list p)"
  shows "\<exists>r q. http_parser_set_header al name value p = Ret (r, q) \<and> list_all line_ok (hp_header_list q)
    \<and> (r = -1 \<and> \<not> al \<and> hp_header_list q = hp_header_list p \<or>
       r = 0 \<and> fst (http_header_cursor_find name (hp_header_list q) 0) = Some value
       \<and> filter (\<lambda>l. \<not> line_matches name l) (hp_header_list q) = filter (\<lambda>l. \<not> line_matches name l) (hp_header_list p))"
proof -
  have new: "line_matches name (new_line name value)" "line_value (new_line name value) = value"
    by (simp_all add: line_matches_def new_line_def header_text_def line_value_def)
  have app: "List.find P xs = None \<Longrightarrow> P x \<Longrightarrow> List.find P (xs @ [x]) = Some x" for P and x :: header_line and xs
    by (induction xs) (auto split: if_splits)
  have none: "list_all (\<lambda>l. \<not> line_matches name l) xs \<Longrightarrow> List.find (line_matches name) xs = None" for xs
    by (induction xs) auto
  show ?thesis
    using set_line_correct [OF assms, of name al "value"] assms new
    by (auto simp: http_parser_set_header_def set_message_header_def add_message_header_def new_line_ok
        cursor_find_eq Let_def app none split: outcome.splits option.splits)
qed

text \<open>
  \<open>http_parser_set_header\<close> on header lines whose buffers are large enough: the buffers
  stay large enough and nothing is written outside them; if it returns 0, a cursor search from
  the start finds exactly the new value and the lines of other names are as before; if it
  returns -1, an allocation failed and the list is as before.
\<close>

theorem set_header_correct:
  assumes "list_all line_ok (hp_header_list p)"
  shows "\<exists>r q. http_parser_set_header al name value p = Ret (r, q) \<and> list_all line_ok (hp_header_list q)
    \<and> (r = -1 \<and> \<not> al \<and> hp_header_list q = hp_header_list p \<or>
       r = 0 \<and> fst (http_header_cursor_find name (hp_header_list q) 0) = Some value
       \<and> filter (\<lambda>l. \<not> line_matches name l) (hp_header_list q) = filter (\<lambda>l. \<not> line_matches name l) (hp_header_list p))"
  using assms by (rule set_header_result)

text \<open>An object with a zeroed name buffer, as the constructors allocate it.\<close>

definition parser0 :: http_parser where
  "parser0 =
     \<lparr>hp_header_state = HPS_START_LINE, hp_chunk_state = CPS_CHUNK_DATA, hp_header_offset = 0,
      hp_chunk_offset = 0, hp_content_length = 0, hp_transfer_length = 0, hp_version = None,
      hp_method = None, hp_uri = None, hp_code = None, hp_phrase = None, hp_header_list = [],
      hp_namebuf = replicate 64 NUL, hp_msgbuf = [], hp_msgsize = 0, hp_bufsize = 0,
      hp_has_connection = False, hp_has_content_length = False, hp_has_keep_alive = False,
      hp_expect_continue = False, hp_keep_alive = False, hp_chunked = False, hp_complete = False,
      hp_is_resp = False\<rparr>"

theorem set_header_correct_witness:
  "\<exists>r q. http_parser_set_header True ''host'' ''longer.example'' (http_parser_init False parser0
         \<lparr>hp_header_list := [new_line ''Accept'' ''*/*'', new_line ''Host'' ''short'']\<rparr>) = Ret (r, q)
     \<and> fst (http_header_cursor_find ''host'' (hp_header_list q) 0) = Some ''longer.example''"
proof -
  let ?p = "http_parser_init False parser0
         \<lparr>hp_header_list := [new_line ''Accept'' ''*/*'', new_line ''Host'' ''short'']\<rparr>"
  have "list_all line_ok (hp_header_list ?p)"
    by (simp add: line_ok_def new_line_def header_text_def)
  from set_header_correct [OF this, of True "''host''" "''longer.example''"] show ?thesis by auto
qed

theorem append_message_safe_witness:
  "\<exists>r n q. http_parser_append_message (\<lambda>_. True) (\<lambda>_. True) ''GET / HTTP/1.1''
       (http_parser_init False parser0) = Ret (r, n, q)
     \<and> hp_inv q \<and> r \<in> {-2, -1, 0, 1} \<and> (r = 1 \<longleftrightarrow> hp_complete q)"
proof -
  have "hp_inv (http_parser_init False parser0)"
    by (simp add: hp_inv_def hp_base_def http_parser_init_def parser0_def len_ok_def)
  then show ?thesis
    by (rule append_message_safe) (simp add: http_parser_init_def)
qed

end
