(* ===== verification/HttpStream.thy ===== *)
theory HttpStream
  imports HttpSafety
begin

text \<open>
  How \<open>http_parser_append_message\<close> depends on the way a message is cut into pieces, and how
  many bytes of the last piece it uses.
\<close>

section \<open>Scanning a longer buffer\<close>

lemma line_scan_append:
  "line_scan bad mx ptr i = Line j \<Longrightarrow> line_scan bad mx (ptr @ b) i = Line j"
proof (induction bad mx ptr i rule: line_scan.induct)
  case (1 bad mx ptr i)
  then have i: "i < length ptr"
    by (meson le_less_trans lessI line_scan_Line less_trans)
  then have n: "(ptr @ b) ! i = ptr ! i" "i < length (ptr @ b)"
    by (simp_all add: nth_append)
  show ?case
  proof (cases "ptr ! i = CR")
    case True
    then have "Suc i < length ptr"
      using 1(2) i line_scan_Line [OF 1(2)] by (subst (asm) line_scan.simps) (auto split: if_splits)
    then show ?thesis
      using 1(2) i n True unfolding line_scan.simps [of bad mx ptr i] line_scan.simps [of bad mx "ptr @ b" i]
      by (auto simp: nth_append split: if_splits)
  next
    case False
    then show ?thesis
      using 1 i n unfolding line_scan.simps [of bad mx ptr i] line_scan.simps [of bad mx "ptr @ b" i]
      by (auto split: if_splits)
  qed
qed

lemma line_scan_More:
  "line_scan bad mx ptr i = More \<Longrightarrow> line_scan bad mx (ptr @ b) i = Line j \<Longrightarrow> length ptr \<le> j + 1"
proof (induction bad mx ptr i rule: line_scan.induct)
  case (1 bad mx ptr i)
  show ?case
  proof (cases "i < length ptr \<and> int i < mx")
    case True
    then have n: "(ptr @ b) ! i = ptr ! i" "i < length (ptr @ b)"
      by (simp_all add: nth_append)
    show ?thesis
    proof (cases "ptr ! i = CR")
      case cr: True
      then have "i = length ptr - 1"
        using 1(2) True by (subst (asm) line_scan.simps) (auto split: if_splits)
      moreover have "i \<le> j"
        using 1(3) line_scan_Line by blast
      ultimately show ?thesis using True by linarith
    next
      case ncr: False
      then show ?thesis
        using 1 True n unfolding line_scan.simps [of bad mx ptr i] line_scan.simps [of bad mx "ptr @ b" i]
        by (auto split: if_splits)
    qed
  next
    case False
    then have "length ptr \<le> i"
      using 1(2,3) line_scan_Line [OF 1(3)] by (subst (asm) line_scan.simps) (auto split: if_splits)
    then show ?thesis
      using line_scan_Line [OF 1(3)] by linarith
  qed
qed

lemma name_scan_append:
  "name_scan ptr i nb = (Line j, nb') \<Longrightarrow> name_scan (ptr @ b) i nb = (Line j, nb')"
proof (induction ptr i nb rule: name_scan.induct)
  case (1 ptr i nb)
  then have i: "i < length ptr"
    using name_scan_Line by fastforce
  then have "(ptr @ b) ! i = ptr ! i" "i < length (ptr @ b)"
    by (simp_all add: nth_append)
  then show ?case
    using 1 i unfolding name_scan.simps [of ptr i nb] name_scan.simps [of "ptr @ b" i nb]
    by (auto split: if_splits)
qed

lemma name_scan_More_Line:
  "name_scan ptr i nb = (More, nb') \<Longrightarrow> name_scan (ptr @ b) i nb'' = (Line j, nb3) \<Longrightarrow> length ptr \<le> j"
proof (induction ptr i nb arbitrary: nb'' rule: name_scan.induct)
  case (1 ptr i nb)
  show ?case
  proof (cases "i < length ptr")
    case True
    then have "(ptr @ b) ! i = ptr ! i" "i < length (ptr @ b)"
      by (simp_all add: nth_append)
    then show ?thesis
      using 1 True unfolding name_scan.simps [of ptr i nb] name_scan.simps [of "ptr @ b" i nb'']
      by (auto split: if_splits)
  next
    case False
    then show ?thesis
      using name_scan_Line [OF 1(3)] by linarith
  qed
qed

lemma name_scan_keeps: "name_scan ptr i nb = (s, nb') \<Longrightarrow> j < i \<Longrightarrow> nb' ! j = nb ! j"
proof (induction ptr i nb rule: name_scan.induct)
  case (1 ptr i nb)
  then show ?case
    unfolding name_scan.simps [of ptr i nb] by (auto split: if_splits)
qed

text \<open>What a scan that ran out of bytes wrote is what the next scan writes again.\<close>

lemma name_scan_resume:
  "name_scan ptr i nb = (More, nb') \<Longrightarrow> name_scan (ptr @ b) i nb' = name_scan (ptr @ b) i nb"
proof (induction ptr i nb rule: name_scan.induct)
  case (1 ptr i nb)
  show ?case
  proof (cases "i < length ptr \<and> int i < HTTP_HEADER_NAME_MAX")
    case True
    then have n: "(ptr @ b) ! i = ptr ! i" "i < length (ptr @ b)"
      by (simp_all add: nth_append)
    have c: "ptr ! i \<noteq> CHR '':''" "\<not> schar_le0 (ptr ! i)"
      and s: "name_scan ptr (i + 1) (nb[i := ptr ! i]) = (More, nb')"
      using 1(2) True by (subst (asm) name_scan.simps; auto split: if_splits)+
    have "nb'[i := ptr ! i] = nb'"
      using name_scan_keeps [OF s, of i] name_scan_length [OF s]
      by (cases "i < length nb") (auto simp: list_update_beyond intro: list_update_same_conv [THEN iffD2])
    then show ?thesis
      using 1(1) [OF True c s] True n c
      unfolding name_scan.simps [of "ptr @ b" i nb] name_scan.simps [of "ptr @ b" i nb'] by simp
  next
    case False
    then have "nb' = nb"
      using 1(2) by (subst (asm) name_scan.simps) (auto split: if_splits)
    then show ?thesis by simp
  qed
qed

lemma value_line_append:
  "value_line hv ptr = HvLine hv' r \<Longrightarrow> value_line hv (ptr @ b) = HvLine hv' (r @ b)"
  by (induction hv ptr rule: value_line.induct) (auto split: if_splits)

lemma value_line_rest: "value_line hv ptr = HvLine hv' r \<Longrightarrow> r \<noteq> []"
  by (induction hv ptr rule: value_line.induct) (auto split: if_splits)

lemma value_line_More:
  "value_line hv ptr = HvLineMore \<Longrightarrow> value_line hv (ptr @ b) = HvLine hv' r \<Longrightarrow> length r \<le> length b"
proof (induction hv ptr rule: value_line.induct)
  case (1 hv)
  then show ?case using value_line_shorter by fastforce
next
  case (2 hv c ptr)
  show ?case
  proof (cases "ptr = []")
    case True
    then show ?thesis
      using 2(3) value_line_shorter [OF 2(3)] by simp
  next
    case False
    then show ?thesis
      using 2 by (auto split: if_splits)
  qed
qed

lemma dropWhile_append_ne: "dropWhile P xs \<noteq> [] \<Longrightarrow> dropWhile P (xs @ ys) = dropWhile P xs @ ys"
  by (induction xs) auto

lemma dropWhile_append_Nil: "dropWhile P xs = [] \<Longrightarrow> dropWhile P (xs @ ys) = dropWhile P ys"
  by (induction xs) (auto split: if_splits)

lemma value_scan_append:
  "value_scan hv ptr = HvDone v r \<Longrightarrow> value_scan hv (ptr @ b) = HvDone v (r @ b)"
proof (induction hv ptr rule: value_scan.induct)
  case (1 hv ptr)
  obtain hv' r' where l: "value_line hv (dropWhile is_blank ptr) = HvLine hv' r'"
    using 1(2) by (subst (asm) value_scan.simps) (auto split: hv_line.splits)
  then have "dropWhile is_blank ptr \<noteq> []" by (metis hv_line.distinct(1) value_line.simps(1))
  then have l': "value_line hv (dropWhile is_blank (ptr @ b)) = HvLine hv' (r' @ b)"
    using value_line_append [OF l] by (simp add: dropWhile_append_ne)
  obtain c r'' where r': "r' = c # r''"
    using value_line_rest [OF l] by (cases r') auto
  have c: "c = LF"
    using 1(2) l r' by (subst (asm) value_scan.simps) (auto split: if_splits)
  then obtain d s where s: "r'' = d # s"
    using 1(2) l r' by (subst (asm) value_scan.simps) (auto split: list.splits)
  show ?case
  proof (cases "is_blank d")
    case True
    then have "value_scan (rstrip hv' @ [SP]) s = HvDone v r"
      using 1(2) l r' c s by (subst (asm) value_scan.simps) simp
    then have "value_scan (rstrip hv' @ [SP]) (s @ b) = HvDone v (r @ b)"
      using 1(1) l r' c s True by simp
    then show ?thesis
      using l' r' c s True by (subst value_scan.simps) simp
  next
    case False
    then have "v = rstrip hv' \<and> r = d # s"
      using 1(2) l r' c s by (subst (asm) value_scan.simps) simp
    then show ?thesis
      using False l' r' c s unfolding value_scan.simps [of hv "ptr @ b"] by simp
  qed
qed

lemma value_scan_rest: "value_scan hv ptr = HvDone v r \<Longrightarrow> length r < length ptr"
  using value_scan_Done by blast

lemma value_scan_More:
  "value_scan hv ptr = HvMore \<Longrightarrow> value_scan hv (ptr @ b) = HvDone v r \<Longrightarrow> length r \<le> length b"
proof (induction hv ptr rule: value_scan.induct)
  case (1 hv ptr)
  obtain hv' r' where l': "value_line hv (dropWhile is_blank (ptr @ b)) = HvLine hv' r'"
    using 1(3) by (subst (asm) value_scan.simps) (auto split: hv_line.splits)
  have rest: "length r \<le> length r'"
    using 1(3) l' by (subst (asm) value_scan.simps)
      (auto split: list.splits if_splits dest!: value_scan_rest)
  show ?case
  proof (cases "value_line hv (dropWhile is_blank ptr)")
    case HvLineMore
    show ?thesis
    proof (cases "dropWhile is_blank ptr = []")
      case True
      then have "length r' \<le> length (dropWhile is_blank b)"
        using l' value_line_shorter by (fastforce simp: dropWhile_append_Nil)
      then show ?thesis
        using rest length_dropWhile_le [of is_blank b] by linarith
    next
      case False
      then show ?thesis
        using l' value_line_More [OF HvLineMore, of b] rest by (fastforce simp: dropWhile_append_ne)
    qed
  next
    case HvLineBad
    then show ?thesis using 1(2) by (subst (asm) value_scan.simps) simp
  next
    case (HvLine hv0 r0)
    then have "dropWhile is_blank ptr \<noteq> []" by (metis hv_line.distinct(1) value_line.simps(1))
    then have eq: "hv' = hv0" "r' = r0 @ b"
      using l' value_line_append [OF HvLine, of b] by (auto simp: dropWhile_append_ne)
    obtain c r1 where r0: "r0 = c # r1"
      using value_line_rest [OF HvLine] by (cases r0) auto
    have c: "c = LF"
      using 1(2) HvLine r0 by (subst (asm) value_scan.simps) (auto split: if_splits)
    show ?thesis
    proof (cases r1)
      case Nil
      then show ?thesis
        using 1(3) l' eq r0 c by (subst (asm) value_scan.simps)
          (auto split: list.splits if_splits dest!: value_scan_rest)
    next
      case (Cons d s)
      then have d: "is_blank d" and m: "value_scan (rstrip hv0 @ [SP]) s = HvMore"
        using 1(2) HvLine r0 c by (subst (asm) value_scan.simps; auto split: if_splits)+
      have "value_scan (rstrip hv0 @ [SP]) (s @ b) = HvDone v r"
        using 1(3) l' eq r0 c Cons d by (subst (asm) value_scan.simps) simp
      with m show ?thesis
        using 1(1) HvLine r0 c Cons d by simp
    qed
  qed
qed

section \<open>Rounds on a longer message\<close>

definition starts_crlf :: "string \<Rightarrow> bool" where
  "starts_crlf ptr \<longleftrightarrow> 2 \<le> length ptr \<and> ptr ! 0 = CR \<and> ptr ! 1 = LF"

lemma starts_crlf_append: "2 \<le> length ptr \<Longrightarrow> starts_crlf (ptr @ b) = starts_crlf ptr"
  by (auto simp: starts_crlf_def nth_append)

lemma parse_start_line_crlf:
  "starts_crlf ptr \<Longrightarrow> start_line_ref al ptr p = (1, p\<lparr>hp_header_offset := hp_header_offset p + 2\<rparr>)"
  by (simp add: start_line_ref_def starts_crlf_def)

lemma parse_header_name_crlf:
  "starts_crlf ptr \<Longrightarrow> header_name_ref ptr p =
     (1, p\<lparr>hp_header_offset := hp_header_offset p + 2, hp_header_state := HPS_HEADER_COMPLETE\<rparr>)"
  by (simp add: header_name_ref_def starts_crlf_def)

lemma parse_header_name_scan:
  "\<not> starts_crlf ptr \<Longrightarrow> header_name_ref ptr p =
     (case name_scan ptr 0 (hp_namebuf p) of
        (Line i, nb) \<Rightarrow> (1, p\<lparr>hp_namebuf := nb, hp_header_offset := hp_header_offset p + i + 1,
                              hp_header_state := HPS_HEADER_VALUE\<rparr>)
      | (More, nb) \<Rightarrow> (0, p\<lparr>hp_namebuf := nb\<rparr>)
      | (Bad, nb) \<Rightarrow> (-2, p\<lparr>hp_namebuf := nb\<rparr>))"
  unfolding header_name_ref_def starts_crlf_def by (simp only: if_False)

text \<open>What the start line does when its carriage return stands at \<open>i\<close>.\<close>

definition start_line_at :: "bool \<Rightarrow> string \<Rightarrow> nat \<Rightarrow> http_parser \<Rightarrow> int \<times> http_parser" where
  "start_line_at al line i p =
     (case split_space line of
        None \<Rightarrow> (-2, p)
      | Some (p1, r) \<Rightarrow>
          (case split_space r of
             None \<Rightarrow> (-2, p)
           | Some (p2, p3) \<Rightarrow>
               (case (if hp_is_resp p then match_status_line al p1 p2 p3 p
                      else match_request_line al p1 p2 p3 p)
                of (ret, q) \<Rightarrow>
                  if ret < 0 then (-1, q)
                  else (1, q\<lparr>hp_header_offset := hp_header_offset q + i + 2,
                             hp_header_state := HPS_HEADER_NAME\<rparr>))))"

lemma parse_start_line_scan:
  "\<not> starts_crlf ptr \<Longrightarrow> start_line_ref al ptr p =
     (case line_scan (\<lambda>c. c = NUL) HTTP_START_LINE_MAX ptr 0 of
        More \<Rightarrow> (0, p) | Bad \<Rightarrow> (-2, p) | Line i \<Rightarrow> start_line_at al (take i ptr) i p)"
  unfolding start_line_ref_def starts_crlf_def start_line_at_def by (simp only: if_False)

lemma start_line_at_ret: "fst (start_line_at al line i p) \<noteq> 0"
  by (simp add: start_line_at_def split: option.split prod.split)

lemma start_line_at_offset:
  "start_line_at al line i p = (r, q) \<Longrightarrow> 0 < r \<Longrightarrow> hp_header_offset q = hp_header_offset p + i + 2"
  by (simp add: start_line_at_def match_status_line_def match_request_line_def Let_def
      split: option.splits prod.splits if_splits) auto

lemma start_line_append:
  assumes "start_line_ref al ptr p = (r, q)" "0 < r"
  shows "start_line_ref al (ptr @ b) p = (r, q)"
proof (cases "starts_crlf ptr")
  case True
  then have "starts_crlf (ptr @ b)" by (auto simp: starts_crlf_def nth_append)
  then show ?thesis
    using assms True by (simp add: parse_start_line_crlf)
next
  case False
  then obtain i where i: "line_scan (\<lambda>c. c = NUL) HTTP_START_LINE_MAX ptr 0 = Line i"
    using assms by (auto simp: parse_start_line_scan split: scan.splits)
  then have "\<not> starts_crlf (ptr @ b)" "take i (ptr @ b) = take i ptr"
    using False line_scan_Line [OF i] by (auto simp: starts_crlf_append)
  then show ?thesis
    using assms False i line_scan_append [OF i] by (simp add: parse_start_line_scan del: take_append)
qed

lemma start_line_more:
  assumes "start_line_ref al ptr p = (0, p')" "start_line_ref al (ptr @ b) p = (r, q)" "0 < r"
  shows "p' = p \<and> hp_header_offset p + length ptr \<le> hp_header_offset q"
proof -
  have n: "\<not> starts_crlf ptr"
    using assms(1) by (auto simp: parse_start_line_crlf)
  have m: "line_scan (\<lambda>c. c = NUL) HTTP_START_LINE_MAX ptr 0 = More" "p' = p"
    using assms(1) n start_line_at_ret by (auto simp: parse_start_line_scan split: scan.splits) (metis fst_conv)+
  show ?thesis
  proof (cases "starts_crlf (ptr @ b)")
    case True
    then have "length ptr < 2" using n starts_crlf_append by force
    then show ?thesis using True assms(2) m by (simp add: parse_start_line_crlf) auto
  next
    case False
    then obtain i where i: "line_scan (\<lambda>c. c = NUL) HTTP_START_LINE_MAX (ptr @ b) 0 = Line i"
      "start_line_at al (take i (ptr @ b)) i p = (r, q)"
      using assms(2,3) by (auto simp: parse_start_line_scan split: scan.splits)
    then show ?thesis
      using line_scan_More [OF m(1) i(1)] start_line_at_offset [OF i(2) assms(3)] m(2) by simp
  qed
qed

lemma header_name_append:
  assumes "header_name_ref ptr p = (r, q)" "0 < r"
  shows "header_name_ref (ptr @ b) p = (r, q)"
proof (cases "starts_crlf ptr")
  case True
  then have "starts_crlf (ptr @ b)" by (auto simp: starts_crlf_def nth_append)
  then show ?thesis
    using assms True by (simp add: parse_header_name_crlf)
next
  case False
  then obtain i nb where i: "name_scan ptr 0 (hp_namebuf p) = (Line i, nb)"
    using assms by (auto simp: header_name_ref_def starts_crlf_def split: if_splits prod.splits scan.splits)
  have "\<not> starts_crlf (ptr @ b)"
  proof (cases "2 \<le> length ptr")
    case True
    then show ?thesis using False by (simp add: starts_crlf_append)
  next
    case len: False
    then have "length ptr = 1" "i = 0" using name_scan_Line [OF i] by auto
    then have "ptr ! 0 = CHR '':''"
      using i by (subst (asm) name_scan.simps) (auto split: if_splits dest!: name_scan_Line)
    then show ?thesis using \<open>length ptr = 1\<close> by (auto simp: starts_crlf_def nth_append)
  qed
  then show ?thesis
    using assms(1) False name_scan_append [OF i, of b] by (simp add: parse_header_name_scan i)
qed

lemma header_name_more:
  assumes "header_name_ref ptr p = (0, p')" "hp_header_state p = HPS_HEADER_NAME"
  shows "\<exists>nb. p' = p\<lparr>hp_namebuf := nb\<rparr> \<and> length nb = length (hp_namebuf p)
    \<and> (if starts_crlf (ptr @ b) then
         header_name_ref (ptr @ b) p' = (1, (snd (header_name_ref (ptr @ b) p))\<lparr>hp_namebuf := nb\<rparr>)
       else header_name_ref (ptr @ b) p' = header_name_ref (ptr @ b) p)
    \<and> (\<forall>r q. header_name_ref (ptr @ b) p = (r, q) \<longrightarrow> 0 < r \<longrightarrow> hp_header_offset p + length ptr \<le> hp_header_offset q)"
proof -
  have n: "\<not> starts_crlf ptr"
    using assms(1) by (auto simp: parse_header_name_crlf)
  then obtain nb where nb: "name_scan ptr 0 (hp_namebuf p) = (More, nb)" "p' = p\<lparr>hp_namebuf := nb\<rparr>"
    using assms(1) by (auto simp: header_name_ref_def starts_crlf_def split: if_splits prod.splits scan.splits)
  note res = name_scan_resume [OF nb(1), of b] name_scan_length [OF nb(1)]
  show ?thesis
  proof (cases "starts_crlf (ptr @ b)")
    case True
    then have "length ptr < 2" using n starts_crlf_append by force
    then show ?thesis
      using True nb res by (intro exI [of _ nb]) (auto simp: parse_header_name_crlf)
  next
    case False
    have "hp_header_offset p + length ptr \<le> hp_header_offset q"
      if q: "header_name_ref (ptr @ b) p = (r, q)" "0 < r" for r q
    proof -
      obtain i nb' where "name_scan (ptr @ b) 0 (hp_namebuf p) = (Line i, nb')" "hp_header_offset q = hp_header_offset p + i + 1"
        using q False by (auto simp: parse_header_name_scan split: prod.splits scan.splits)
      then show ?thesis using name_scan_More_Line [OF nb(1)] by fastforce
    qed
    moreover have "header_name_ref (ptr @ b) p' = header_name_ref (ptr @ b) p"
      unfolding parse_header_name_scan [OF False] nb(2)
      by (simp add: res(1) split: prod.split scan.split)
    ultimately show ?thesis
      using False nb(2) res(2) by auto
  qed
qed

lemma header_value_append:
  assumes "header_value_ref al ptr p = (r, q)" "0 < r"
  shows "header_value_ref al (ptr @ b) p = (r, q)"
proof -
  obtain v rest where v: "value_scan [] ptr = HvDone v rest"
    using assms by (auto simp: header_value_ref_def split: hv_result.splits)
  obtain r1 q1 where "http_parser_add_header al (c_str (hp_namebuf p)) v p = (r1, q1)" by fastforce
  then show ?thesis
    using assms(1) v value_scan_append [OF v, of b]
    by (auto simp: header_value_ref_def split: if_splits)
qed

lemma header_value_more:
  assumes "header_value_ref al ptr p = (0, p')"
  shows "p' = p \<and> (\<forall>r q. header_value_ref al (ptr @ b) p = (r, q) \<longrightarrow> 0 < r \<longrightarrow>
    hp_header_offset p + length ptr \<le> hp_header_offset q)"
proof -
  have m: "value_scan [] ptr = HvMore" "p' = p"
    using assms by (auto simp: header_value_ref_def split: hv_result.splits prod.splits if_splits)
  have "hp_header_offset p + length ptr \<le> hp_header_offset q"
    if q: "header_value_ref al (ptr @ b) p = (r, q)" "0 < r" for r q
  proof -
    obtain v rest where v: "value_scan [] (ptr @ b) = HvDone v rest"
      using q by (auto simp: header_value_ref_def split: hv_result.splits)
    have "hp_header_offset q = hp_header_offset p + (length (ptr @ b) - length rest)"
      using q v by (auto simp: header_value_ref_def http_parser_add_header_def add_message_header_def
          split: prod.splits if_splits)
    then show ?thesis using value_scan_More [OF m(1) v] by simp
  qed
  then show ?thesis using m(2) by blast
qed

lemma header_name_state:
  "header_name_ref ptr p = (r, q) \<Longrightarrow>
     if starts_crlf ptr then hp_header_state q = HPS_HEADER_COMPLETE
     else 0 < r \<and> hp_header_state q = HPS_HEADER_VALUE \<or> r \<le> 0 \<and> hp_header_state q = hp_header_state p"
  by (cases "starts_crlf ptr")
    (auto simp: parse_header_name_crlf parse_header_name_scan split: prod.splits scan.splits)

lemma start_line_state:
  "start_line_ref al ptr p = (r, q) \<Longrightarrow> hp_header_state q \<in> {hp_header_state p, HPS_HEADER_NAME}"
  by (cases "starts_crlf ptr")
    (auto simp: parse_start_line_crlf parse_start_line_scan start_line_at_def match_status_line_def
      match_request_line_def Let_def split: prod.splits scan.splits option.splits if_splits)

lemma header_value_state:
  "header_value_ref al ptr p = (r, q) \<Longrightarrow> hp_header_state q \<in> {hp_header_state p, HPS_HEADER_NAME}"
  by (auto simp: header_value_ref_def http_parser_add_header_def add_message_header_def
      split: hv_result.splits prod.splits if_splits)

lemma header_round_state:
  assumes "header_round_ref al msg p = Inl q" "hp_header_state p \<noteq> HPS_HEADER_COMPLETE"
  shows "hp_header_state q \<noteq> HPS_HEADER_COMPLETE"
  using assms
  by (cases "hp_header_state p")
    (auto simp: header_round_ref_def Let_def split: prod.splits if_splits
      dest!: start_line_state header_value_state)

lemma header_round_append:
  assumes "header_round_ref al msg p = Inl q" "hp_header_state p \<noteq> HPS_HEADER_COMPLETE" "hp_header_offset p \<le> length msg"
  shows "header_round_ref al (msg @ b) p = Inl q"
proof -
  have d: "drop (hp_header_offset p) (msg @ b) = drop (hp_header_offset p) msg @ b"
    using assms(3) by simp
  show ?thesis
    using assms(1,2) unfolding header_round_ref_def d
    by (cases "hp_header_state p")
      (auto simp: Let_def split: prod.splits if_splits
        dest: start_line_append [where b = b] header_name_append [where b = b] header_value_append [where b = b])
qed

text \<open>Equality up to the name buffer, which is dead once the header is complete.\<close>

definition eq_msg :: "http_parser \<Rightarrow> http_parser \<Rightarrow> bool" where
  "eq_msg p q \<longleftrightarrow> q = p \<or> hp_header_state p = HPS_HEADER_COMPLETE \<and> (\<exists>nb. q = p\<lparr>hp_namebuf := nb\<rparr>)"

lemma eq_msg_refl [simp]: "eq_msg p p"
  by (simp add: eq_msg_def)

lemma header_round_stuck:
  assumes "header_round_ref al msg p = Inr (0, p')" "hp_header_state p \<noteq> HPS_HEADER_COMPLETE"
    and "hp_header_offset p \<le> length msg"
  shows "case header_round_ref al (msg @ b) p of
      Inl q \<Rightarrow> header_round_ref al (msg @ b) p' = Inl q \<and> length msg \<le> hp_header_offset q
    | Inr (r, q) \<Rightarrow> (\<exists>q'. header_round_ref al (msg @ b) p' = Inr (r, q') \<and> eq_msg q q')
        \<and> (0 < r \<longrightarrow> length msg \<le> hp_header_offset q)"
    "\<exists>nb. p' = p\<lparr>hp_namebuf := nb\<rparr>"
proof -
  define ptr where "ptr = drop (hp_header_offset p) msg"
  have d: "drop (hp_header_offset p) (msg @ b) = ptr @ b" and len: "hp_header_offset p + length ptr = length msg"
    using assms(3) by (simp_all add: ptr_def)
  have "(case header_round_ref al (msg @ b) p of
      Inl q \<Rightarrow> header_round_ref al (msg @ b) p' = Inl q \<and> length msg \<le> hp_header_offset q
    | Inr (r, q) \<Rightarrow> (\<exists>q'. header_round_ref al (msg @ b) p' = Inr (r, q') \<and> eq_msg q q')
        \<and> (0 < r \<longrightarrow> length msg \<le> hp_header_offset q)) \<and> (\<exists>nb. p' = p\<lparr>hp_namebuf := nb\<rparr>)"
  proof (cases "hp_header_state p")
    case HPS_START_LINE
    have z: "start_line_ref (al (hp_header_offset p)) ptr p = (0, p')"
      using assms(1) HPS_START_LINE by (auto simp: header_round_ref_def ptr_def Let_def split: prod.splits if_splits)
    obtain r q where q: "start_line_ref (al (hp_header_offset p)) (ptr @ b) p = (r, q)" by fastforce
    have pp: "p' = p"
      using z start_line_at_ret
      by (cases "starts_crlf ptr") (auto simp: parse_start_line_crlf parse_start_line_scan split: scan.splits, metis fst_conv)
    have "0 < r \<Longrightarrow> length msg \<le> hp_header_offset q"
      using start_line_more [OF z q] len by simp
    moreover have "p = p\<lparr>hp_namebuf := hp_namebuf p\<rparr>" by simp
    ultimately show ?thesis
      using HPS_START_LINE q unfolding header_round_ref_def pp d
      by (auto simp: Let_def intro: exI [of _ "hp_namebuf p"])
  next
    case HPS_HEADER_VALUE
    have z: "header_value_ref (al (hp_header_offset p)) ptr p = (0, p')"
      using assms(1) HPS_HEADER_VALUE by (auto simp: header_round_ref_def ptr_def Let_def split: prod.splits if_splits)
    obtain r q where q: "header_value_ref (al (hp_header_offset p)) (ptr @ b) p = (r, q)" by fastforce
    have pp: "p' = p"
      using header_value_more [OF z] by blast
    have "p = p\<lparr>hp_namebuf := hp_namebuf p\<rparr>" by simp
    then show ?thesis
      using header_value_more [OF z, of b] q len HPS_HEADER_VALUE unfolding header_round_ref_def pp d
      by (auto simp: Let_def intro: exI [of _ "hp_namebuf p"])
  next
    case HPS_HEADER_NAME
    have z: "header_name_ref ptr p = (0, p')"
      using assms(1,2) HPS_HEADER_NAME by (auto simp: header_round_ref_def ptr_def Let_def split: prod.splits if_splits)
    obtain r q where q: "header_name_ref (ptr @ b) p = (r, q)" by fastforce
    obtain nb where "p' = p\<lparr>hp_namebuf := nb\<rparr>"
      "if starts_crlf (ptr @ b)
       then header_name_ref (ptr @ b) p' = (1, (snd (header_name_ref (ptr @ b) p))\<lparr>hp_namebuf := nb\<rparr>)
       else header_name_ref (ptr @ b) p' = header_name_ref (ptr @ b) p"
      "\<forall>r q. header_name_ref (ptr @ b) p = (r, q) \<longrightarrow> 0 < r \<longrightarrow> hp_header_offset p + length ptr \<le> hp_header_offset q"
      using header_name_more [OF z HPS_HEADER_NAME, of b] by blast
    note nb = this(1) this(2) [unfolded q snd_conv] this(3) [rule_format, OF q, unfolded len]
    have p': "hp_header_offset p' = hp_header_offset p" "hp_header_state p' = HPS_HEADER_NAME"
      using nb(1) HPS_HEADER_NAME by auto
    note st = header_name_state [OF q]
    have cr: "starts_crlf (ptr @ b) \<Longrightarrow> r = 1"
      using q by (simp add: parse_header_name_crlf)
    have round: "header_round_ref al (msg @ b) p2 = (if hp_header_state q2 = HPS_HEADER_COMPLETE then Inr (1, q2)
        else if 0 < r2 then Inl q2 else Inr (r2, q2))"
      if "header_name_ref (ptr @ b) p2 = (r2, q2)" "hp_header_offset p2 = hp_header_offset p"
        "hp_header_state p2 = HPS_HEADER_NAME" for p2 r2 q2
      unfolding header_round_ref_def that(2) d by (simp add: Let_def that)
    note r1 = round [OF q refl HPS_HEADER_NAME]
    have ex: "\<exists>nb. p' = p\<lparr>hp_namebuf := nb\<rparr>" using nb(1) by blast
    show ?thesis
    proof (cases "starts_crlf (ptr @ b)")
      case True
      then have "header_name_ref (ptr @ b) p' = (1, q\<lparr>hp_namebuf := nb\<rparr>)" and sq: "hp_header_state q = HPS_HEADER_COMPLETE"
        using nb(2) st by auto
      from round [OF this(1) p'] r1 sq cr [OF True] nb(3) ex show ?thesis
        by (auto simp: eq_msg_def)
    next
      case False
      then have "header_name_ref (ptr @ b) p' = (r, q)"
        using nb(2) q by simp
      from round [OF this p'] r1 nb(3) ex st False HPS_HEADER_NAME show ?thesis
        by (auto split: if_splits)
    qed
  qed (use assms in simp)
  then show "case header_round_ref al (msg @ b) p of
      Inl q \<Rightarrow> header_round_ref al (msg @ b) p' = Inl q \<and> length msg \<le> hp_header_offset q
    | Inr (r, q) \<Rightarrow> (\<exists>q'. header_round_ref al (msg @ b) p' = Inr (r, q') \<and> eq_msg q q')
        \<and> (0 < r \<longrightarrow> length msg \<le> hp_header_offset q)"
    "\<exists>nb. p' = p\<lparr>hp_namebuf := nb\<rparr>" by blast+
qed

section \<open>The header loop on a longer message\<close>

lemma parse_message_header_step:
  "header_round_ref al msg p = Inl q \<Longrightarrow> message_header_ref al msg p = message_header_ref al msg q"
  "header_round_ref al msg p = Inr c \<Longrightarrow> message_header_ref al msg p = c"
  by (simp_all add: message_header_ref.simps [of al msg p])

lemma parse_message_header_offset:
  assumes "message_header_ref al msg p = (r, q)" "0 < r" "hp_header_state p \<noteq> HPS_HEADER_COMPLETE"
  shows "hp_header_offset p \<le> hp_header_offset q"
  using assms
proof (induction al msg p rule: message_header_ref.induct)
  case (1 al msg p)
  show ?case
  proof (cases "header_round_ref al msg p")
    case (Inl p')
    then have "message_header_ref al msg p' = (r, q)"
      using 1(2) by (subst (asm) message_header_ref.simps) simp
    then show ?thesis
      using 1(1) [OF Inl] 1(3) header_round_advance [OF Inl] header_round_state [OF Inl 1(4)] by force
  next
    case (Inr c)
    then have c: "c = (r, q)"
      using 1(2) by (subst (asm) message_header_ref.simps) simp
    obtain r' q' where n: "header_name_ref (drop (hp_header_offset p) msg) p = (r', q')" by fastforce
    have "hp_header_state p = HPS_HEADER_NAME"
      using Inr c 1(3,4) by (cases "hp_header_state p") (auto simp: header_round_ref_def Let_def split: prod.splits if_splits)
    then show ?thesis
      using Inr c n header_name_state [OF n] 1(3)
      by (cases "starts_crlf (drop (hp_header_offset p) msg)")
        (auto simp: header_round_ref_def Let_def parse_header_name_crlf split: if_splits)
  qed
qed

lemma parse_message_header_more:
  assumes "message_header_ref al msg p = (0, p1)" "hp_header_state p \<noteq> HPS_HEADER_COMPLETE"
    "hp_header_offset p \<le> length msg" "message_header_ref al (msg @ b) p = (r, q)"
  shows "\<exists>q'. message_header_ref al (msg @ b) p1 = (r, q') \<and> eq_msg q q' \<and> (0 < r \<longrightarrow> length msg \<le> hp_header_offset q)"
  using assms
proof (induction al msg p rule: message_header_ref.induct)
  case (1 al msg p)
  show ?case
  proof (cases "header_round_ref al msg p")
    case (Inl p')
    have a: "header_round_ref al (msg @ b) p = Inl p'"
      by (rule header_round_append [OF Inl 1(3,4)])
    have "message_header_ref al msg p' = (0, p1)" "message_header_ref al (msg @ b) p' = (r, q)"
      using 1(2,5) parse_message_header_step(1) [OF Inl] parse_message_header_step(1) [OF a] by simp_all
    then show ?thesis
      using 1(1) [OF Inl] header_round_state [OF Inl 1(3)] header_round_advance [OF Inl] 1(4) by simp
  next
    case (Inr c)
    then have c: "header_round_ref al msg p = Inr (0, p1)"
      using 1(2) by (subst (asm) message_header_ref.simps) simp
    note stuck = header_round_stuck(1) [OF c 1(3,4), of b]
    show ?thesis
    proof (cases "header_round_ref al (msg @ b) p")
      case (Inl p')
      then have p': "header_round_ref al (msg @ b) p1 = Inl p'" "length msg \<le> hp_header_offset p'"
        using stuck by auto
      have l: "message_header_ref al (msg @ b) p' = (r, q)"
        using 1(5) Inl by (subst (asm) message_header_ref.simps) simp
      then have "message_header_ref al (msg @ b) p1 = (r, q)"
        using p'(1) by (subst message_header_ref.simps) simp
      moreover have "0 < r \<Longrightarrow> hp_header_offset p' \<le> hp_header_offset q"
        using parse_message_header_offset [OF l] header_round_state [OF Inl 1(3)] by simp
      ultimately show ?thesis
        using p'(2) by auto
    next
      case (Inr d)
      then have "d = (r, q)"
        using 1(5) by (subst (asm) message_header_ref.simps) simp
      with Inr stuck obtain q' where "header_round_ref al (msg @ b) p1 = Inr (r, q')" "eq_msg q q'"
        "0 < r \<longrightarrow> length msg \<le> hp_header_offset q" by auto
      then show ?thesis
        by (subst message_header_ref.simps) simp
    qed
  qed
qed

lemma parse_message_header_append:
  assumes "message_header_ref al msg p = (r, q)" "0 < r" "hp_header_state p \<noteq> HPS_HEADER_COMPLETE"
    "hp_header_offset p \<le> length msg"
  shows "message_header_ref al (msg @ b) p = (r, q)"
  using assms
proof (induction al msg p rule: message_header_ref.induct)
  case (1 al msg p)
  show ?case
  proof (cases "header_round_ref al msg p")
    case (Inl p')
    have "header_round_ref al (msg @ b) p = Inl p'"
      by (rule header_round_append [OF Inl 1(4,5)])
    then show ?thesis
      using 1(1) [OF Inl] 1(2,3,5) parse_message_header_step(1) [OF Inl] header_round_state [OF Inl 1(4)]
        header_round_advance [OF Inl] parse_message_header_step(1) by force
  next
    case (Inr c)
    then have c: "c = (r, q)"
      using 1(2) parse_message_header_step(2) [OF Inr] by simp
    have nm: "hp_header_state p = HPS_HEADER_NAME"
      using Inr c 1(3,4) by (cases "hp_header_state p") (auto simp: header_round_ref_def Let_def split: prod.splits if_splits)
    obtain r' q' where n: "header_name_ref (drop (hp_header_offset p) msg) p = (r', q')" by fastforce
    have "0 < r' \<and> hp_header_state q' = HPS_HEADER_COMPLETE \<and> r = 1 \<and> q = q'"
      using Inr c n header_name_state [OF n] 1(3) nm
      by (cases "starts_crlf (drop (hp_header_offset p) msg)")
        (auto simp: header_round_ref_def Let_def parse_header_name_crlf split: if_splits)
    moreover have d: "drop (hp_header_offset p) (msg @ b) = drop (hp_header_offset p) msg @ b"
      using 1(5) by simp
    ultimately have "header_round_ref al (msg @ b) p = Inr (r, q)"
      using header_name_append [OF n, of b] nm unfolding header_round_ref_def d by (simp add: Let_def)
    then show ?thesis by (rule parse_message_header_step(2))
  qed
qed

section \<open>The message buffer is not read by the header states\<close>

definition set_buf :: "int \<Rightarrow> string \<Rightarrow> nat \<Rightarrow> http_parser \<Rightarrow> http_parser" where
  "set_buf b m n p = p\<lparr>hp_bufsize := b, hp_msgbuf := m, hp_msgsize := n\<rparr>"

lemma set_buf_fields [simp]:
  "hp_header_state (set_buf b m n p) = hp_header_state p" "hp_header_offset (set_buf b m n p) = hp_header_offset p"
  "hp_chunk_state (set_buf b m n p) = hp_chunk_state p" "hp_chunk_offset (set_buf b m n p) = hp_chunk_offset p"
  "hp_namebuf (set_buf b m n p) = hp_namebuf p" "hp_is_resp (set_buf b m n p) = hp_is_resp p"
  "hp_transfer_length (set_buf b m n p) = hp_transfer_length p" "hp_chunked (set_buf b m n p) = hp_chunked p"
  "hp_content_length (set_buf b m n p) = hp_content_length p" "hp_complete (set_buf b m n p) = hp_complete p"
  "hp_msgbuf (set_buf b m n p) = m" "hp_msgsize (set_buf b m n p) = n" "hp_bufsize (set_buf b m n p) = b"
  "set_buf b m n (set_buf b' m' n' p) = set_buf b m n p"
  by (simp_all add: set_buf_def)

lemma set_buf_upd:
  "set_buf b m n (p\<lparr>hp_expect_continue := x_expect_continue\<rparr>) = (set_buf b m n p)\<lparr>hp_expect_continue := x_expect_continue\<rparr>"
  "set_buf b m n (p\<lparr>hp_has_connection := x_has_connection\<rparr>) = (set_buf b m n p)\<lparr>hp_has_connection := x_has_connection\<rparr>"
  "set_buf b m n (p\<lparr>hp_keep_alive := x_keep_alive\<rparr>) = (set_buf b m n p)\<lparr>hp_keep_alive := x_keep_alive\<rparr>"
  "set_buf b m n (p\<lparr>hp_has_keep_alive := x_has_keep_alive\<rparr>) = (set_buf b m n p)\<lparr>hp_has_keep_alive := x_has_keep_alive\<rparr>"
  "set_buf b m n (p\<lparr>hp_has_content_length := x_has_content_length\<rparr>) = (set_buf b m n p)\<lparr>hp_has_content_length := x_has_content_length\<rparr>"
  "set_buf b m n (p\<lparr>hp_chunked := x_chunked\<rparr>) = (set_buf b m n p)\<lparr>hp_chunked := x_chunked\<rparr>"
  "set_buf b m n (p\<lparr>hp_content_length := x_content_length\<rparr>) = (set_buf b m n p)\<lparr>hp_content_length := x_content_length\<rparr>"
  "set_buf b m n (p\<lparr>hp_transfer_length := x_transfer_length\<rparr>) = (set_buf b m n p)\<lparr>hp_transfer_length := x_transfer_length\<rparr>"
  by (simp_all add: set_buf_def)

lemma set_buf_check: "check_message_header nm v (set_buf b m n p) = set_buf b m n (check_message_header nm v p)"
  unfolding check_message_header_def Let_def if_distrib [of "set_buf b m n"] set_buf_upd by (rule refl)

lemma set_buf_add_header:
  "http_parser_add_header al nm v (set_buf b m n p) = apsnd (set_buf b m n) (http_parser_add_header al nm v p)"
proof -
  have "(set_buf b m n p)\<lparr>hp_header_list := l\<rparr> = set_buf b m n (p\<lparr>hp_header_list := l\<rparr>)" for l
    by (simp add: set_buf_def)
  moreover have "hp_header_list (set_buf b m n p) = hp_header_list p" by (simp add: set_buf_def)
  ultimately show ?thesis
    by (simp add: http_parser_add_header_def add_message_header_def set_buf_check)
qed

lemma set_buf_header_value:
  "header_value_ref al ptr (set_buf b m n p) = apsnd (set_buf b m n) (header_value_ref al ptr p)"
proof -
  have "(set_buf b m n q)\<lparr>hp_header_offset := k, hp_header_state := st\<rparr>
      = set_buf b m n (q\<lparr>hp_header_offset := k, hp_header_state := st\<rparr>)" for q k st
    by (simp add: set_buf_def)
  then show ?thesis
    by (simp add: header_value_ref_def set_buf_add_header split: hv_result.split prod.split)
qed

lemma set_buf_header_name:
  "header_name_ref ptr (set_buf b m n p) = apsnd (set_buf b m n) (header_name_ref ptr p)"
  by (cases "starts_crlf ptr")
    (simp_all add: parse_header_name_crlf parse_header_name_scan set_buf_def split: scan.split prod.split)

lemma set_buf_start_line:
  "start_line_ref al ptr (set_buf b m n p) = apsnd (set_buf b m n) (start_line_ref al ptr p)"
proof (cases "starts_crlf ptr")
  case True
  then show ?thesis by (simp add: parse_start_line_crlf set_buf_def)
next
  case False
  have rq: "match_request_line al x y z (set_buf b m n p) = apsnd (set_buf b m n) (match_request_line al x y z p)" for x y z
    by (simp add: match_request_line_def set_buf_def Let_def)
  have st: "match_status_line al x y z (set_buf b m n p) = apsnd (set_buf b m n) (match_status_line al x y z p)" for x y z
    by (simp add: match_status_line_def set_buf_def Let_def)
  have up: "(set_buf b m n q)\<lparr>hp_header_offset := k, hp_header_state := st\<rparr>
      = set_buf b m n (q\<lparr>hp_header_offset := k, hp_header_state := st\<rparr>)" for q k st
    by (simp add: set_buf_def)
  have "start_line_at al line i (set_buf b m n p) = apsnd (set_buf b m n) (start_line_at al line i p)" for line i
    by (simp add: start_line_at_def rq st up split: option.split prod.split if_split)
  then show ?thesis
    using False by (simp add: parse_start_line_scan split: scan.split)
qed

lemma set_buf_header_round:
  "header_round_ref al msg (set_buf b m n p)
     = map_sum (set_buf b m n) (apsnd (set_buf b m n)) (header_round_ref al msg p)"
  by (simp add: header_round_ref_def Let_def set_buf_start_line set_buf_header_name set_buf_header_value
      split: prod.split)

lemma set_buf_message_header:
  "message_header_ref al msg (set_buf b m n p) = apsnd (set_buf b m n) (message_header_ref al msg p)"
proof (induction al msg p rule: message_header_ref.induct)
  case (1 al msg p)
  show ?case
  proof (cases "header_round_ref al msg p")
    case (Inl q)
    then have "header_round_ref al msg (set_buf b m n p) = Inl (set_buf b m n q)"
      by (simp add: set_buf_header_round)
    then show ?thesis
      using 1 [OF Inl] parse_message_header_step(1) [OF Inl] parse_message_header_step(1) by simp
  next
    case (Inr c)
    then have "header_round_ref al msg (set_buf b m n p) = Inr (apsnd (set_buf b m n) c)"
      by (simp add: set_buf_header_round)
    then show ?thesis
      using parse_message_header_step(2) [OF Inr] parse_message_header_step(2) by simp
  qed
qed

section \<open>Chunks on a longer message\<close>

lemma chunk_data_append:
  assumes "chunk_data_ref ptr p = (r, q)" "0 < r"
  shows "chunk_data_ref (ptr @ b) p = (r, q)"
proof -
  obtain i where i: "line_scan (\<lambda>_. False) HTTP_CHUNK_LINE_MAX ptr 0 = Line i"
    using assms by (auto simp: chunk_data_ref_def split: scan.splits)
  have "take i (ptr @ b) = take i ptr"
    using line_scan_Line [OF i] by simp
  then show ?thesis
    using assms i line_scan_append [OF i, of b]
    by (auto simp: chunk_data_ref_def split: prod.splits if_splits simp del: take_append)
qed

lemma chunk_data_more:
  assumes "chunk_data_ref ptr p = (0, p')" "chunk_data_ref (ptr @ b) p = (r, q)" "0 < r"
  shows "hp_chunk_offset p + length ptr \<le> hp_chunk_offset q"
proof -
  obtain j where j: "line_scan (\<lambda>_. False) HTTP_CHUNK_LINE_MAX (ptr @ b) 0 = Line j"
    using assms by (auto simp: chunk_data_ref_def split: scan.splits)
  have ge: "hp_chunk_offset p + j + 2 \<le> hp_chunk_offset q"
    using assms(2,3) j chunk_size_nonneg by (fastforce simp: chunk_data_ref_def split: prod.splits if_splits)
  show ?thesis
  proof (cases "line_scan (\<lambda>_. False) HTTP_CHUNK_LINE_MAX ptr 0")
    case (Line i)
    then have "j = i" "take j (ptr @ b) = take i ptr"
      using line_scan_append [OF Line, of b] j line_scan_Line [OF Line] by auto
    then show ?thesis
      using assms Line j
      by (auto simp: chunk_data_ref_def split: prod.splits if_splits simp del: take_append)
  next
    case More
    then show ?thesis using line_scan_More [OF More j] ge by linarith
  qed (use assms in \<open>auto simp: chunk_data_ref_def\<close>)
qed

lemma trailer_part_append:
  assumes "parse_trailer_part ptr p = (r, q)" "0 < r"
  shows "parse_trailer_part (ptr @ b) p = (r, q)"
proof -
  obtain i where i: "line_scan (\<lambda>_. False) HTTP_TRAILER_LINE_MAX ptr 0 = Line i"
    using assms by (auto simp: parse_trailer_part_def split: scan.splits)
  then show ?thesis
    using assms line_scan_append [OF i, of b] by (simp add: parse_trailer_part_def)
qed

lemma trailer_part_more:
  assumes "parse_trailer_part ptr p = (0, p')" "parse_trailer_part (ptr @ b) p = (r, q)" "0 < r"
  shows "hp_chunk_offset p + length ptr \<le> hp_chunk_offset q"
proof -
  obtain j where j: "line_scan (\<lambda>_. False) HTTP_TRAILER_LINE_MAX (ptr @ b) 0 = Line j"
      "hp_chunk_offset q = hp_chunk_offset p + j + 2"
    using assms(2,3) by (auto simp: parse_trailer_part_def split: scan.splits)
  moreover have "line_scan (\<lambda>_. False) HTTP_TRAILER_LINE_MAX ptr 0 = More"
    using assms(1) by (auto simp: parse_trailer_part_def split: scan.splits)
  ultimately show ?thesis using line_scan_More by fastforce
qed

lemma trailer_part_state:
  assumes "parse_trailer_part ptr p = (r, q)" "hp_chunk_state p \<noteq> CPS_CHUNK_COMPLETE"
  shows "hp_chunk_state q = CPS_CHUNK_COMPLETE \<longrightarrow> 0 < r"
  using assms by (auto simp: parse_trailer_part_def split: scan.splits)

lemma chunk_round_append:
  assumes "chunk_round_ref msg p = Inl q \<or> chunk_round_ref msg p = Inr (1, q)"
    "hp_chunk_state p \<noteq> CPS_CHUNK_COMPLETE" "hp_chunk_offset p \<le> length msg"
  shows "chunk_round_ref (msg @ b) p = chunk_round_ref msg p"
proof -
  have d: "drop (hp_chunk_offset p) (msg @ b) = drop (hp_chunk_offset p) msg @ b"
    using assms(3) by simp
  show ?thesis
  proof (cases "hp_chunk_state p = CPS_CHUNK_DATA")
    case True
    obtain r q' where c: "chunk_data_ref (drop (hp_chunk_offset p) msg) p = (r, q')" by fastforce
    have "0 < r" using assms(1) True c chunk_data_safe [OF c True] by (auto simp: chunk_round_ref_def Let_def split: if_splits)
    then show ?thesis
      using chunk_data_append [OF c, of b] c True unfolding chunk_round_ref_def d by simp
  next
    case False
    obtain r q' where c: "parse_trailer_part (drop (hp_chunk_offset p) msg) p = (r, q')" by fastforce
    have "0 < r" using assms(1,2) False c trailer_part_state [OF c]
      by (auto simp: chunk_round_ref_def Let_def split: if_splits)
    then show ?thesis
      using trailer_part_append [OF c, of b] c False unfolding chunk_round_ref_def d by simp
  qed
qed

lemma chunk_round_stuck:
  assumes "chunk_round_ref msg p = Inr (0, p')" "hp_chunk_state p \<noteq> CPS_CHUNK_COMPLETE" "hp_chunk_offset p \<le> length msg"
  shows "p' = p \<and> (case chunk_round_ref (msg @ b) p of
      Inl q \<Rightarrow> length msg \<le> hp_chunk_offset q | Inr (r, q) \<Rightarrow> 0 < r \<longrightarrow> length msg \<le> hp_chunk_offset q)"
proof -
  define ptr where "ptr = drop (hp_chunk_offset p) msg"
  have d: "drop (hp_chunk_offset p) (msg @ b) = ptr @ b" and len: "hp_chunk_offset p + length ptr = length msg"
    using assms(3) by (simp_all add: ptr_def)
  show ?thesis
  proof (cases "hp_chunk_state p = CPS_CHUNK_DATA")
    case True
    obtain r q where c: "chunk_data_ref ptr p = (r, q)" by fastforce
    have z: "r = 0" "q = p'" "p' = p"
      using assms(1) True c chunk_data_safe [OF c True] by (auto simp: chunk_round_ref_def Let_def ptr_def split: if_splits)
    obtain r' q' where c': "chunk_data_ref (ptr @ b) p = (r', q')" by fastforce
    show ?thesis
      using z c True c' chunk_data_more [OF c [unfolded z(1)] c'] len unfolding chunk_round_ref_def d by (auto simp: Let_def)
  next
    case False
    obtain r q where c: "parse_trailer_part ptr p = (r, q)" by fastforce
    have z: "r = 0" "q = p'" "p' = p"
      using assms(1,2) False c trailer_part_safe [OF c assms(2)] by (auto simp: chunk_round_ref_def Let_def ptr_def split: if_splits)
    obtain r' q' where c': "parse_trailer_part (ptr @ b) p = (r', q')" by fastforce
    show ?thesis
      using z c False c' trailer_part_more [OF c [unfolded z(1)] c'] trailer_part_state [OF c' assms(2)] len
      unfolding chunk_round_ref_def d by (auto simp: Let_def)
  qed
qed

lemma parse_chunk_step:
  "chunk_round_ref msg p = Inl q \<Longrightarrow> chunk_ref msg p = chunk_ref msg q"
  "chunk_round_ref msg p = Inr c \<Longrightarrow> chunk_ref msg p = c"
  by (simp_all add: chunk_ref.simps [of msg p])

lemma parse_chunk_more:
  assumes "chunk_ref msg p = (0, p1)" "hp_chunk_state p \<noteq> CPS_CHUNK_COMPLETE"
    "hp_chunk_offset p \<le> length msg" "chunk_ref (msg @ b) p = (r, q)"
  shows "chunk_ref (msg @ b) p1 = (r, q) \<and> (0 < r \<longrightarrow> length msg \<le> hp_chunk_offset q)"
  using assms
proof (induction msg p rule: chunk_ref.induct)
  case (1 msg p)
  note safe = chunk_round_safe [OF 1(3,4)]
  show ?case
  proof (cases "chunk_round_ref msg p")
    case (Inl p')
    have a: "chunk_round_ref (msg @ b) p = Inl p'"
      using chunk_round_append [of msg p p' b] 1(3,4) Inl by simp
    show ?thesis
      using 1(1) [OF Inl] 1(2,5) safe Inl parse_chunk_step(1) [OF Inl] parse_chunk_step(1) [OF a] by simp
  next
    case (Inr c)
    then have c: "chunk_round_ref msg p = Inr (0, p1)"
      using 1(2) parse_chunk_step(2) [OF Inr] by simp
    note stuck = chunk_round_stuck [OF c 1(3,4), of b]
    have lb: "hp_chunk_offset p \<le> length (msg @ b)" using 1(4) by simp
    show ?thesis
    proof (cases "chunk_round_ref (msg @ b) p")
      case (Inl p')
      then have p': "length msg \<le> hp_chunk_offset p'" "hp_chunk_state p' \<noteq> CPS_CHUNK_COMPLETE"
        "hp_chunk_offset p' \<le> length (msg @ b)"
        using stuck chunk_round_safe [OF 1(3) lb] by auto
      have "chunk_ref (msg @ b) p' = (r, q)"
        using 1(5) parse_chunk_step(1) [OF Inl] by simp
      from parse_chunk_safe [OF this p'(2,3)] show ?thesis
        using p'(1) stuck 1(5) by simp
    next
      case (Inr d)
      then show ?thesis
        using stuck 1(5) parse_chunk_step(2) [OF Inr] by auto
    qed
  qed
qed

text \<open>The chunk states do not read the buffer fields or the name buffer either.\<close>

definition set_aux :: "int \<Rightarrow> string \<Rightarrow> nat \<Rightarrow> string \<Rightarrow> http_parser \<Rightarrow> http_parser" where
  "set_aux b m n nb p = set_buf b m n (p\<lparr>hp_namebuf := nb\<rparr>)"

lemma set_aux_chunk_round:
  "chunk_round_ref msg (set_aux b m n nb p)
     = map_sum (set_aux b m n nb) (apsnd (set_aux b m n nb)) (chunk_round_ref msg p)"
proof -
  have "chunk_data_ref ptr (set_aux b m n nb p) = apsnd (set_aux b m n nb) (chunk_data_ref ptr p)" for ptr
    by (simp add: chunk_data_ref_def set_aux_def set_buf_def split: scan.split prod.split)
  moreover have "parse_trailer_part ptr (set_aux b m n nb p) = apsnd (set_aux b m n nb) (parse_trailer_part ptr p)" for ptr
    by (simp add: parse_trailer_part_def set_aux_def set_buf_def split: scan.split)
  ultimately show ?thesis
    by (simp add: chunk_round_ref_def Let_def split: prod.split) (simp add: set_aux_def)
qed

lemma set_aux_chunk:
  "chunk_ref msg (set_aux b m n nb p) = apsnd (set_aux b m n nb) (chunk_ref msg p)"
proof (induction msg p rule: chunk_ref.induct)
  case (1 msg p)
  show ?case
  proof (cases "chunk_round_ref msg p")
    case (Inl q)
    then have "chunk_round_ref msg (set_aux b m n nb p) = Inl (set_aux b m n nb q)"
      by (simp add: set_aux_chunk_round)
    then show ?thesis
      using 1 [OF Inl] parse_chunk_step(1) [OF Inl] parse_chunk_step(1) by simp
  next
    case (Inr c)
    then have "chunk_round_ref msg (set_aux b m n nb p) = Inr (apsnd (set_aux b m n nb) c)"
      by (simp add: set_aux_chunk_round)
    then show ?thesis
      using parse_chunk_step(2) [OF Inr] parse_chunk_step(2) by simp
  qed
qed

section \<open>Growing the buffer in two steps\<close>

definition new_bufsize :: "int \<Rightarrow> nat \<Rightarrow> nat \<Rightarrow> int" where
  "new_bufsize b s k =
     (let need = int s + int k + 1
      in if b < need then grow (max HTTP_MSGBUF_INIT_SIZE (2 * b)) need else b)"

lemma grow_grow:
  "0 < s \<Longrightarrow> n1 \<le> n2 \<Longrightarrow>
     grow s n2 = (if grow s n1 < n2 then grow (2 * grow s n1) n2 else grow s n1)"
proof (induction s n1 rule: grow.induct)
  case (1 s n1)
  show ?case
  proof (cases "s < n1")
    case True
    then have "grow s n1 = grow (2 * s) n1" "grow s n2 = grow (2 * s) n2"
      using 1(2,3) by (subst grow.simps, simp)+
    then show ?thesis using 1 True by simp
  next
    case False
    then have "grow s n1 = s" by (subst grow.simps) simp
    moreover have "grow s n2 = (if s < n2 then grow (2 * s) n2 else s)"
      using 1(2) by (subst grow.simps) simp
    ultimately show ?thesis by simp
  qed
qed

lemma new_bufsize_twice:
  "new_bufsize (new_bufsize b s j) (s + j) k = new_bufsize b s (j + k)"
proof -
  define n1 where "n1 = int s + int j + 1"
  define n2 where "n2 = int (s + j) + int k + 1"
  have le: "n1 \<le> n2" and n2: "n2 = int s + int (j + k) + 1" by (simp_all add: n1_def n2_def)
  define m where "m = max HTTP_MSGBUF_INIT_SIZE (2 * b)"
  have m: "0 < m" by (simp add: m_def)
  show ?thesis
  proof (cases "b < n1")
    case True
    have "HTTP_MSGBUF_INIT_SIZE \<le> grow m n1"
      using grow_bounds [OF m, of n1] by (simp add: m_def)
    then have "max HTTP_MSGBUF_INIT_SIZE (2 * grow m n1) = 2 * grow m n1" by simp
    then show ?thesis
      using True le grow_grow [OF m le]
      unfolding new_bufsize_def Let_def n1_def [symmetric] n2_def [symmetric] n2 [symmetric] m_def [symmetric] by simp
  next
    case False
    then show ?thesis
      unfolding new_bufsize_def Let_def n1_def [symmetric] n2_def [symmetric] n2 [symmetric] by simp
  qed
qed

lemma append_bytes_eq:
  assumes "hp_base p"
  shows "append_bytes (\<lambda>_. True) a p = Ret (Some (set_buf (new_bufsize (hp_bufsize p) (hp_msgsize p) (length a))
      (hp_msgbuf p @ a) (hp_msgsize p + length a) p))"
proof -
  define need where "need = int (hp_msgsize p) + int (length a) + 1"
  have "need \<le> new_bufsize (hp_bufsize p) (hp_msgsize p) (length a)"
    using grow_bounds [of "max HTTP_MSGBUF_INIT_SIZE (2 * hp_bufsize p)" need]
    by (auto simp: new_bufsize_def Let_def need_def [symmetric])
  then show ?thesis
    using hp_baseD(1) [OF assms]
    by (auto simp: append_bytes_def Let_def new_bufsize_def need_def set_buf_def)
qed

section \<open>The end of the message\<close>

definition body_ok :: "http_parser \<Rightarrow> bool" where
  "body_ok p \<longleftrightarrow> hp_base p \<and> hp_header_state p = HPS_HEADER_COMPLETE
     \<and> (hp_chunked p \<and> hp_transfer_length p = SIZE_MAX \<longrightarrow>
          hp_header_offset p \<le> hp_chunk_offset p \<and> hp_chunk_offset p \<le> hp_msgsize p)
     \<and> int (hp_msgsize p) < hp_bufsize p \<and> int (hp_msgsize p) < 2 ^ 62 \<and> \<not> hp_complete p"

lemma body_ok_safe:
  assumes "body_ok p"
  shows "\<exists>r n' q. body_ref n p = (r, n', q) \<and> hp_inv q \<and> r \<in> {-2, 0, 1} \<and> (r = 1 \<longleftrightarrow> hp_complete q)"
  using assms append_body_safe [of p n] by (simp add: body_ok_def)

text \<open>The three ways of \<open>body_ref\<close>: by length, without a length, and by chunks.\<close>

lemma append_body_length:
  assumes "body_ok p" "hp_transfer_length p \<noteq> SIZE_MAX"
  shows "body_ref n p =
    (let tot = int (hp_header_offset p) + hp_transfer_length p in
     if tot \<le> int (hp_msgsize p) then finish_message n (nat tot) p else (0, n, p))"
proof -
  have "(int (hp_header_offset p) + hp_transfer_length p) mod 2 ^ 64 = int (hp_header_offset p) + hp_transfer_length p"
    using assms total_no_wrap by (simp add: body_ok_def)
  then show ?thesis
    using assms(2) by (simp add: body_ref_def Let_def)
qed

lemma append_body_open:
  assumes "hp_transfer_length p = SIZE_MAX" "\<not> hp_chunked p"
  shows "body_ref n p = (0, n, p)"
  using assms by (simp add: body_ref_def)

lemma append_body_chunk:
  assumes "hp_transfer_length p = SIZE_MAX" "hp_chunked p" "chunk_ref (hp_msgbuf p) p = (r, q)"
  shows "body_ref n p =
    (if hp_chunk_state p = CPS_CHUNK_COMPLETE then finish_message n (hp_chunk_offset p) p
     else if r \<le> 0 then (r, n, q) else finish_message n (hp_chunk_offset q) q)"
  using assms by (simp add: body_ref_def)

lemma body_ok_chunk:
  assumes "body_ok p" "hp_transfer_length p = SIZE_MAX" "hp_chunked p" "hp_chunk_state p \<noteq> CPS_CHUNK_COMPLETE"
    "chunk_ref (hp_msgbuf p) p = (r, q)"
  shows "chunk_moved p q" "r \<in> {-2, 0, 1}" "hp_chunk_state q = CPS_CHUNK_COMPLETE \<longleftrightarrow> r = 1"
    "hp_chunk_offset p \<le> hp_chunk_offset q" "hp_chunk_offset q \<le> length (hp_msgbuf p)"
proof -
  have "hp_chunk_offset p \<le> length (hp_msgbuf p)"
    using assms(1-3) hp_baseD(1) [of p] by (simp add: body_ok_def)
  from parse_chunk_safe [OF assms(5,4) this]
  show "chunk_moved p q" "r \<in> {-2, 0, 1}" "hp_chunk_state q = CPS_CHUNK_COMPLETE \<longleftrightarrow> r = 1"
    "hp_chunk_offset p \<le> hp_chunk_offset q" "hp_chunk_offset q \<le> length (hp_msgbuf p)" by auto
qed

lemma finish_message_shift:
  "finish_message n tot p = (r, m, q) \<Longrightarrow>
     r = 1 \<and> hp_msgsize q = tot \<and> m = (n - (int (hp_msgsize p) - int tot)) mod 2 ^ 64
     \<and> finish_message n' tot p = (1, (n' - (int (hp_msgsize p) - int tot)) mod 2 ^ 64, q)
     \<and> hp_header_offset q = hp_header_offset p"
  by (auto simp: finish_message_def)

definition used :: "int \<Rightarrow> int \<Rightarrow> http_parser \<Rightarrow> http_parser \<Rightarrow> int" where
  "used r k p q = (if r = 1 then (k - (int (hp_msgsize p) - int (hp_msgsize q))) mod 2 ^ 64 else k)"

lemma append_body_shift:
  assumes "body_ok p" "body_ref k p = (r, n, q)"
  shows "body_ref k' p = (r, used r k' p q, q) \<and> n = used r k p q \<and> hp_header_offset q = hp_header_offset p
    \<and> hp_msgsize q \<le> hp_msgsize p"
proof -
  have len: "length (hp_msgbuf p) = hp_msgsize p"
    using assms(1) hp_baseD(1) by (simp add: body_ok_def)
  have r: "r \<in> {-2, 0, 1}"
    using body_ok_safe [OF assms(1), of k] assms(2) by auto
  consider "hp_transfer_length p \<noteq> SIZE_MAX" | "hp_transfer_length p = SIZE_MAX" "\<not> hp_chunked p"
    | "hp_transfer_length p = SIZE_MAX" "hp_chunked p" by blast
  then show ?thesis
  proof cases
    case 1
    define t where "t = nat (int (hp_header_offset p) + hp_transfer_length p)"
    define C where "C \<longleftrightarrow> int (hp_header_offset p) + hp_transfer_length p \<le> int (hp_msgsize p)"
    have "body_ref x p = (if C then finish_message x t p else (0, x, p))" for x
      by (simp add: append_body_length [OF assms(1) 1] Let_def t_def C_def)
    moreover have "C \<Longrightarrow> t \<le> hp_msgsize p"
      by (simp add: C_def t_def)
    ultimately show ?thesis
      using assms(2) finish_message_shift [of k t p r n q k'] by (cases C) (auto simp: used_def)
  next
    case 2
    then show ?thesis
      using assms by (auto simp: append_body_open used_def)
  next
    case 3
    obtain r' q' where c: "chunk_ref (hp_msgbuf p) p = (r', q')" by fastforce
    show ?thesis
    proof (cases "hp_chunk_state p = CPS_CHUNK_COMPLETE")
      case True
      then show ?thesis
        using assms(2) finish_message_shift [of k "hp_chunk_offset p" p r n q k'] append_body_chunk [OF 3 c]
          assms(1) 3 by (auto simp: used_def body_ok_def)
    next
      case False
      note mv = body_ok_chunk [OF assms(1) 3 False c]
      note f = chunk_moved_fields [OF mv(1)]
      show ?thesis
        using assms(2) False mv(2,5) f len finish_message_shift [of k "hp_chunk_offset q'" q' r n q k']
          append_body_chunk [OF 3 c]
        by (auto simp: used_def split: if_splits)
    qed
  qed
qed

lemma set_aux_moved:
  "chunk_moved p q \<Longrightarrow> set_aux b m n (hp_namebuf p) q = set_buf b m n q"
  "chunk_moved p q \<Longrightarrow> set_aux (hp_bufsize p) (hp_msgbuf p) (hp_msgsize p) nb q = q\<lparr>hp_namebuf := nb\<rparr>"
  by (auto simp: set_aux_def set_buf_def chunk_moved_def)

lemma set_buf_chunk:
  assumes "chunk_ref msg p = (r, q)" "hp_chunk_state p \<noteq> CPS_CHUNK_COMPLETE" "hp_chunk_offset p \<le> length msg"
  shows "chunk_ref msg (set_buf b m n p) = (r, set_buf b m n q)"
proof -
  have mv: "chunk_moved p q"
    using parse_chunk_safe [OF assms] by blast
  have "chunk_ref msg (set_aux b m n (hp_namebuf p) p) = (r, set_aux b m n (hp_namebuf p) q)"
    by (simp add: set_aux_chunk assms(1))
  then show ?thesis
    by (simp add: set_aux_moved(1) [OF mv] set_aux_moved(1) [OF chunk_moved_refl])
qed

lemma append_body_namebuf:
  assumes "body_ok p" "body_ref k p = (r, n, q)"
  shows "body_ref k (p\<lparr>hp_namebuf := nb\<rparr>) = (r, n, q\<lparr>hp_namebuf := nb\<rparr>)"
proof (cases "hp_transfer_length p = SIZE_MAX \<and> hp_chunked p \<and> hp_chunk_state p \<noteq> CPS_CHUNK_COMPLETE")
  case True
  obtain r' q' where c: "chunk_ref (hp_msgbuf p) p = (r', q')" by fastforce
  have mv: "chunk_moved p q'"
    using body_ok_chunk(1) [OF assms(1) _ _ _ c] True by simp
  have sa: "p\<lparr>hp_namebuf := nb\<rparr> = set_aux (hp_bufsize p) (hp_msgbuf p) (hp_msgsize p) nb p"
    by (simp add: set_aux_def set_buf_def)
  have "chunk_ref (hp_msgbuf p) (p\<lparr>hp_namebuf := nb\<rparr>) = (r', q'\<lparr>hp_namebuf := nb\<rparr>)"
    by (subst sa) (simp add: set_aux_chunk c set_aux_moved(2) [OF mv])
  then show ?thesis
    using assms(2) True c by (auto simp: body_ref_def finish_message_def split: if_splits)
next
  case False
  have fin: "finish_message k t (p\<lparr>hp_namebuf := nb\<rparr>) = apsnd (apsnd (\<lambda>q. q\<lparr>hp_namebuf := nb\<rparr>)) (finish_message k t p)" for t
    by (simp add: finish_message_def)
  consider "hp_transfer_length p \<noteq> SIZE_MAX" | "hp_transfer_length p = SIZE_MAX" "\<not> hp_chunked p"
    | "hp_transfer_length p = SIZE_MAX" "hp_chunked p" "hp_chunk_state p = CPS_CHUNK_COMPLETE"
    using False by blast
  then have "body_ref k (p\<lparr>hp_namebuf := nb\<rparr>) = apsnd (apsnd (\<lambda>q. q\<lparr>hp_namebuf := nb\<rparr>)) (body_ref k p)"
    by cases (simp_all add: body_ref_def fin Let_def)
  then show ?thesis
    by (simp add: assms(2))
qed

text \<open>Resuming the body after more bytes.\<close>

lemma append_body_resume:
  assumes ok: "body_ok p" and z: "body_ref k p = (0, n, p1)"
    and P: "P = set_buf c (hp_msgbuf p @ b) (hp_msgsize p + length b) p" "body_ok P"
  shows "body_ref x (set_buf c (hp_msgbuf p @ b) (hp_msgsize p + length b) p1) = body_ref x P"
    "body_ref x P = (1, m, q) \<Longrightarrow> hp_msgsize p \<le> hp_msgsize q"
proof -
  have len: "length (hp_msgbuf p) = hp_msgsize p"
    using ok hp_baseD(1) by (simp add: body_ok_def)
  consider "hp_transfer_length p \<noteq> SIZE_MAX" | "hp_transfer_length p = SIZE_MAX" "\<not> hp_chunked p"
    | "hp_transfer_length p = SIZE_MAX" "hp_chunked p" by blast
  then have "body_ref x (set_buf c (hp_msgbuf p @ b) (hp_msgsize p + length b) p1) = body_ref x P
    \<and> (body_ref x P = (1, m, q) \<longrightarrow> hp_msgsize p \<le> hp_msgsize q)"
  proof cases
    case 1
    then have gt: "int (hp_msgsize p) < int (hp_header_offset p) + hp_transfer_length p" and p1: "p1 = p"
      using z append_body_length [OF ok 1] by (auto simp: Let_def finish_message_def split: if_splits)
    have "hp_msgsize p \<le> hp_msgsize q" if "body_ref x P = (1, m, q)"
      using that append_body_length [OF P(2)] 1 gt P(1)
      by (auto simp: Let_def finish_message_def split: if_splits)
    then show ?thesis using p1 P(1) by blast
  next
    case 2
    then show ?thesis
      using z append_body_open [OF 2] append_body_open [of P] P(1) by auto
  next
    case 3
    obtain r' q' where c: "chunk_ref (hp_msgbuf p) p = (r', q')" by fastforce
    have st: "hp_chunk_state p \<noteq> CPS_CHUNK_COMPLETE" and rq: "r' = 0" "q' = p1"
      using z append_body_chunk [OF 3 c] by (auto simp: finish_message_def split: if_splits)
    note mv = body_ok_chunk [OF ok 3 st c]
    note f = chunk_moved_fields [OF mv(1)]
    have off: "hp_chunk_offset p \<le> length (hp_msgbuf p)" "hp_chunk_offset p \<le> length (hp_msgbuf p @ b)"
      "hp_chunk_offset p1 \<le> length (hp_msgbuf p @ b)" "hp_chunk_state p1 \<noteq> CPS_CHUNK_COMPLETE"
      using mv rq by auto
    obtain r2 q2 where c2: "chunk_ref (hp_msgbuf p @ b) p = (r2, q2)" by fastforce
    note more = parse_chunk_more [OF c [unfolded rq] st off(1) c2]
    let ?S = "set_buf c (hp_msgbuf p @ b) (hp_msgsize p + length b)"
    have cp: "chunk_ref (hp_msgbuf p @ b) P = (r2, ?S q2)"
      unfolding P(1) by (rule set_buf_chunk [OF c2 st off(2)])
    have cp1: "chunk_ref (hp_msgbuf p @ b) (?S p1) = (r2, ?S q2)"
      by (rule set_buf_chunk [OF _ off(4,3)]) (use more in simp)
    have "body_ref y P = (if r2 \<le> 0 then (r2, y, ?S q2) else finish_message y (hp_chunk_offset q2) (?S q2))" for y
      using append_body_chunk [of P r2 "?S q2"] 3 st cp P(1) by simp
    moreover have "body_ref y (?S p1) = (if r2 \<le> 0 then (r2, y, ?S q2) else finish_message y (hp_chunk_offset q2) (?S q2))" for y
      using append_body_chunk [of "?S p1" r2 "?S q2"] 3 off(4) cp1 f rq by simp
    ultimately show ?thesis
      using more len by (auto simp: finish_message_def)
  qed
  then show "body_ref x (set_buf c (hp_msgbuf p @ b) (hp_msgsize p + length b) p1) = body_ref x P"
    "body_ref x P = (1, m, q) \<Longrightarrow> hp_msgsize p \<le> hp_msgsize q" by blast+
qed

section \<open>Cutting a message\<close>

lemma set_buf_header_done: "header_done (set_buf b m n p) = set_buf b m n (header_done p)"
  by (simp add: header_done_def set_buf_def)

lemma header_done_namebuf: "header_done (p\<lparr>hp_namebuf := nb\<rparr>) = (header_done p)\<lparr>hp_namebuf := nb\<rparr>"
  by (simp add: header_done_def)

text \<open>The parser after the bytes are copied, and the two ways it goes on.\<close>

definition with_bytes :: "string \<Rightarrow> http_parser \<Rightarrow> http_parser" where
  "with_bytes a p = set_buf (new_bufsize (hp_bufsize p) (hp_msgsize p) (length a)) (hp_msgbuf p @ a) (hp_msgsize p + length a) p"

definition append_rest :: "(nat \<Rightarrow> bool) \<Rightarrow> int \<Rightarrow> http_parser \<Rightarrow> int \<times> int \<times> http_parser" where
  "append_rest al k q =
     (if hp_header_state q \<noteq> HPS_HEADER_COMPLETE then
        (case message_header_ref al (hp_msgbuf q) q of
           (r, t) \<Rightarrow> if r \<le> 0 then (r, k, t) else body_ref k (header_done t))
      else body_ref k q)"

lemma append_message_eq:
  assumes "hp_base p" "\<not> hp_complete p"
  shows "http_parser_append_message (\<lambda>_. True) al a p = Ret (append_rest al (int (length a)) (with_bytes a p))"
  using assms append_bytes_eq [OF assms(1)]
  by (simp add: append_message_ref append_rest_def with_bytes_def split: prod.split)

lemma with_bytes_base:
  assumes "hp_base p"
  shows "hp_base (with_bytes a p) \<and> int (hp_msgsize (with_bytes a p)) < hp_bufsize (with_bytes a p)"
proof -
  obtain w where "append_bytes (\<lambda>_. True) a p = Ret w" "case w of None \<Rightarrow> True | Some q \<Rightarrow>
     hp_base q \<and> hp_msgsize q = hp_msgsize p + length a \<and> hp_msgbuf q = hp_msgbuf p @ a
     \<and> int (hp_msgsize q) < hp_bufsize q
     \<and> q = p\<lparr>hp_bufsize := hp_bufsize q, hp_msgbuf := hp_msgbuf q, hp_msgsize := hp_msgsize q\<rparr>"
    using append_bytes_safe [OF assms] by blast
  then show ?thesis
    using append_bytes_eq [OF assms, of a] by (auto simp: with_bytes_def split: option.splits)
qed

lemma header_done_ok:
  assumes "message_header_ref al (hp_msgbuf q) q = (r, t)" "0 < r" "hp_base q"
    "hp_header_state q \<noteq> HPS_HEADER_COMPLETE" "int (hp_msgsize q) < hp_bufsize q" "int (hp_msgsize q) < 2 ^ 62"
    "\<not> hp_complete q"
  shows "body_ok (header_done t) \<and> hp_header_offset (header_done t) = hp_header_offset t
    \<and> hp_msgbuf (header_done t) = hp_msgbuf q \<and> hp_msgsize (header_done t) = hp_msgsize q"
proof -
  note h = parse_message_header_safe [OF assms(1,3,4) refl]
  have t: "hp_base t" "hp_header_state t = HPS_HEADER_COMPLETE" "same_buffer q t"
    using h assms(2) by auto
  note d = header_done_safe [OF t(1,2)]
  have "same_buffer q (header_done t)"
    using d t(3) same_buffer_trans by blast
  moreover have "hp_header_offset (header_done t) = hp_header_offset t"
    by (simp add: header_done_def)
  ultimately show ?thesis
    using d assms(5,6,7) hp_baseD(2) [of "header_done t"] by (auto simp: body_ok_def same_buffer_def)
qed

text \<open>When the first piece completed the header: the same parser goes on to the body.\<close>

lemma append_rest_body:
  assumes "hp_base p" "\<not> hp_complete p" "int (hp_msgsize p) + int (length a) + int (length b) < 2 ^ 62"
    and d: "body_ok d" "hp_msgbuf d = hp_msgbuf p @ a" "hp_msgsize d = hp_msgsize p + length a"
    and z: "body_ref (int (length a)) d = (0, n, p1)"
    and P: "P = set_buf c (hp_msgbuf d @ b) (hp_msgsize d + length b) d" "body_ok P"
    and r: "body_ref (int (length b)) (set_buf c (hp_msgbuf d @ b) (hp_msgsize d + length b) p1) = (r, m, q)"
  shows "body_ref (int (length a) + int (length b)) P = (r, int (length a) + m, q) \<and> 0 \<le> m \<and> m \<le> int (length b)"
proof -
  have rP: "body_ref (int (length b)) P = (r, m, q)"
    using append_body_resume(1) [OF d(1) z P] r by simp
  note sh = append_body_shift [OF P(2) rP, of "int (length a) + int (length b)"]
  show ?thesis
  proof (cases "r = 1")
    case True
    have ge: "hp_msgsize d \<le> hp_msgsize q"
      using append_body_resume(2) [OF d(1) z P] rP True by blast
    have le: "hp_msgsize q \<le> hp_msgsize d + length b" and P': "hp_msgsize P = hp_msgsize d + length b"
      using sh P(1) by simp_all
    have m: "m = int (length b) - (int (hp_msgsize P) - int (hp_msgsize q))"
      using sh True ge le P' assms(3) unfolding used_def
      by (simp only: simp_thms if_True) (rule mod_pos_pos_trivial; simp)
    have "used r (int (length a) + int (length b)) P q
        = int (length a) + int (length b) - (int (hp_msgsize P) - int (hp_msgsize q))"
      using True ge le P' assms(3) unfolding used_def
      by (simp only: simp_thms if_True) (rule mod_pos_pos_trivial; simp)
    then show ?thesis
      using sh m ge le P' by simp
  next
    case False
    then show ?thesis using sh by (simp add: used_def)
  qed
qed

lemma append_body_moved:
  assumes "body_ok p" "body_ref k p = (r, n, q)"
  shows "hp_header_state q = HPS_HEADER_COMPLETE \<and> (r = 0 \<longrightarrow> chunk_moved p q)"
proof -
  have st: "hp_header_state p = HPS_HEADER_COMPLETE" using assms(1) by (simp add: body_ok_def)
  have fin: "finish_message k t p' = (r, n, q) \<Longrightarrow> r = 1 \<and> hp_header_state q = hp_header_state p'" for t p'
    by (auto simp: finish_message_def)
  have fin0 [simp]: "finish_message k t p' \<noteq> (0, n, q)" for t p'
    by (simp add: finish_message_def)
  consider "hp_transfer_length p \<noteq> SIZE_MAX" | "hp_transfer_length p = SIZE_MAX" "\<not> hp_chunked p"
    | "hp_transfer_length p = SIZE_MAX" "hp_chunked p" by blast
  then show ?thesis
  proof cases
    case 1
    then show ?thesis
      using assms(2) st
      by (auto simp: append_body_length [OF assms(1)] Let_def dest: fin split: if_splits)
  next
    case 2
    then show ?thesis using assms(2) st by (auto simp: append_body_open)
  next
    case 3
    obtain r' q' where c: "chunk_ref (hp_msgbuf p) p = (r', q')" by fastforce
    show ?thesis
    proof (cases "hp_chunk_state p = CPS_CHUNK_COMPLETE")
      case True
      then show ?thesis using assms(2) st append_body_chunk [OF 3 c] by (auto dest: fin)
    next
      case False
      note mv = body_ok_chunk [OF assms(1) 3 False c]
      show ?thesis
        using assms(2) st mv(1) False append_body_chunk [OF 3 c] chunk_moved_fields [OF mv(1)]
        by (auto dest: fin split: if_splits)
    qed
  qed
qed

lemma eq_msg_set_buf: "eq_msg p q \<Longrightarrow> eq_msg (set_buf b m n p) (set_buf b m n q)"
proof -
  have "set_buf b m n (p\<lparr>hp_namebuf := nb\<rparr>) = (set_buf b m n p)\<lparr>hp_namebuf := nb\<rparr>" for nb
    by (simp add: set_buf_def)
  then show "eq_msg p q \<Longrightarrow> ?thesis"
    unfolding eq_msg_def by (metis set_buf_fields(1))
qed

lemma with_bytes_again:
  assumes "hp_msgbuf q = hp_msgbuf p @ a" "hp_msgsize q = hp_msgsize p + length a"
    "hp_bufsize q = new_bufsize (hp_bufsize p) (hp_msgsize p) (length a)"
  shows "with_bytes b q = set_buf (hp_bufsize (with_bytes (a @ b) p)) (hp_msgbuf (with_bytes (a @ b) p))
      (hp_msgsize (with_bytes (a @ b) p)) q"
  using assms by (simp add: with_bytes_def new_bufsize_twice add.assoc)

lemma with_bytes_split:
  "with_bytes (a @ b) p = set_buf (hp_bufsize (with_bytes (a @ b) p)) (hp_msgbuf (with_bytes a p) @ b)
     (hp_msgsize (with_bytes a p) + length b) (with_bytes a p)"
  by (simp add: with_bytes_def add.assoc)

lemma with_bytes_fields [simp]:
  "hp_header_state (with_bytes a p) = hp_header_state p" "hp_header_offset (with_bytes a p) = hp_header_offset p"
  "hp_complete (with_bytes a p) = hp_complete p" "hp_msgbuf (with_bytes a p) = hp_msgbuf p @ a"
  "hp_msgsize (with_bytes a p) = hp_msgsize p + length a" "hp_chunked (with_bytes a p) = hp_chunked p"
  "hp_transfer_length (with_bytes a p) = hp_transfer_length p" "hp_chunk_offset (with_bytes a p) = hp_chunk_offset p"
  "hp_bufsize (with_bytes a p) = new_bufsize (hp_bufsize p) (hp_msgsize p) (length a)"
  by (simp_all add: with_bytes_def)

lemma with_bytes_ok:
  assumes "hp_inv p" "\<not> hp_complete p" "int (hp_msgsize p) + int (length a) < 2 ^ 62" "hp_header_state p = HPS_HEADER_COMPLETE"
  shows "body_ok (with_bytes a p)"
  using assms with_bytes_base [of p a] by (auto simp: body_ok_def hp_inv_def)

text \<open>Two calls against one, after the copy of the bytes.\<close>

lemma append_rest_split:
  assumes inv: "hp_inv p" "\<not> hp_complete p" and sz: "int (hp_msgsize p) + int (length a) + int (length b) < 2 ^ 62"
    and z: "append_rest al (int (length a)) (with_bytes a p) = (0, n, p1)"
  shows "\<exists>r m q q'. append_rest al (int (length b)) (with_bytes b p1) = (r, m, q)
    \<and> append_rest al (int (length a) + int (length b)) (with_bytes (a @ b) p) = (r, int (length a) + m, q')
    \<and> eq_msg q' q \<and> 0 \<le> m \<and> m \<le> int (length b)"
proof -
  define W where "W = with_bytes a p"
  define V where "V = with_bytes (a @ b) p"
  define S where "S = set_buf (hp_bufsize V) (hp_msgbuf W @ b) (hp_msgsize W + length b)"
  have b: "hp_base p" using inv(1) by (simp add: hp_inv_def)
  have W: "hp_base W" "int (hp_msgsize W) < hp_bufsize W"
    using with_bytes_base [OF b, of a] unfolding W_def by blast+
  have V: "hp_base V" "int (hp_msgsize V) < hp_bufsize V"
    using with_bytes_base [OF b, of "a @ b"] unfolding V_def by blast+
  have VW: "V = S W"
    unfolding V_def S_def W_def by (rule with_bytes_split)
  have Vf: "hp_msgbuf V = hp_msgbuf W @ b" "hp_msgsize V = hp_msgsize W + length b"
    by (simp_all add: V_def W_def)
  have again: "with_bytes b q = S q" if "same_buffer W q" for q
    using with_bytes_again [of q p a b] that by (simp add: same_buffer_def W_def V_def S_def add.assoc)
  show ?thesis
  proof (cases "hp_header_state p = HPS_HEADER_COMPLETE")
    case True
    have ok: "body_ok W" "body_ok V"
      using with_bytes_ok [OF inv _ True] sz by (simp_all add: W_def V_def)
    have z': "body_ref (int (length a)) W = (0, n, p1)"
      using z True by (simp add: append_rest_def W_def)
    have mv: "chunk_moved W p1" using append_body_moved [OF ok(1) z'] by simp
    note f = chunk_moved_fields [OF mv]
    have st: "hp_header_state (S p1) = HPS_HEADER_COMPLETE" "hp_header_state V = HPS_HEADER_COMPLETE"
      using f True by (simp_all add: S_def W_def V_def)
    have wb: "with_bytes b p1 = S p1"
      using mv by (intro again) (auto simp: same_buffer_def chunk_moved_def)
    obtain r m q where r: "body_ref (int (length b)) (S p1) = (r, m, q)"
      by (metis prod_cases3)
    have "body_ref (int (length a) + int (length b)) V = (r, int (length a) + m, q) \<and> 0 \<le> m \<and> m \<le> int (length b)"
      by (rule append_rest_body [OF b inv(2) sz ok(1) _ _ z' VW [unfolded S_def] ok(2)])
        (use r in \<open>simp_all add: W_def S_def\<close>)
    then show ?thesis
      using r wb st by (auto simp: append_rest_def V_def [symmetric])
  next
    case False
    have WV: "hp_header_state W \<noteq> HPS_HEADER_COMPLETE" "hp_header_state V \<noteq> HPS_HEADER_COMPLETE"
      "hp_header_offset W \<le> length (hp_msgbuf W)" "\<not> hp_complete W" "\<not> hp_complete V"
      "int (hp_msgsize W) < 2 ^ 62" "int (hp_msgsize V) < 2 ^ 62"
      using False hp_baseD(1,2) [OF b] inv(2) sz by (simp_all add: W_def V_def)
    obtain r1 t where t: "message_header_ref al (hp_msgbuf W) W = (r1, t)" by fastforce
    note safe = parse_message_header_safe [OF t W(1) WV(1) refl]
    show ?thesis
    proof (cases "r1 \<le> 0")
      case True
      have p1: "r1 = 0" "p1 = t"
        using z True t WV(1) by (auto simp: append_rest_def W_def [symmetric])
      obtain r T where T: "message_header_ref al (hp_msgbuf W @ b) W = (r, T)" by fastforce
      obtain T' where T': "message_header_ref al (hp_msgbuf W @ b) p1 = (r, T')" "eq_msg T T'"
        "0 < r \<longrightarrow> length (hp_msgbuf W) \<le> hp_header_offset T"
        using parse_message_header_more [OF t [unfolded p1(1)] WV(1,3) T] p1(2) by auto
      have hV: "message_header_ref al (hp_msgbuf V) V = (r, S T)"
        unfolding Vf(1) by (subst VW) (simp add: S_def set_buf_message_header T)
      have wb: "with_bytes b p1 = S p1"
        using safe p1(2) by (intro again) simp
      have hp1: "message_header_ref al (hp_msgbuf (S p1)) (S p1) = (r, S T')"
        by (simp add: S_def set_buf_message_header T'(1))
      have st1: "hp_header_state (S p1) \<noteq> HPS_HEADER_COMPLETE"
        using safe p1 by (simp add: S_def)
      show ?thesis
      proof (cases "r \<le> 0")
        case True
        then show ?thesis
          using wb hp1 st1 hV WV(2) eq_msg_set_buf [OF T'(2)]
          by (auto simp: append_rest_def V_def [symmetric] S_def)
      next
        case pos: False
        define D where "D = header_done (S T)"
        have D: "body_ok D" "hp_header_offset D = hp_header_offset T" "hp_msgsize D = hp_msgsize V"
          using header_done_ok [OF hV _ V(1) WV(2) V(2) WV(7,5)] pos by (simp_all add: D_def S_def)
        obtain r2 m q where q: "body_ref (int (length b)) D = (r2, m, q)" by (metis prod_cases3)
        note sh = append_body_shift [OF D(1) q, of "int (length a) + int (length b)"]
        note mv = append_body_moved [OF D(1) q]
        have "\<exists>q'. body_ref (int (length b)) (header_done (S T')) = (r2, m, q') \<and> eq_msg q q'"
        proof (cases "T' = T")
          case True
          then show ?thesis using q by (auto simp: D_def)
        next
          case ne: False
          then obtain nb where "T' = T\<lparr>hp_namebuf := nb\<rparr>" using T'(2) by (auto simp: eq_msg_def)
          then have "S T' = (S T)\<lparr>hp_namebuf := nb\<rparr>"
            by (simp add: S_def set_buf_def)
          then have "header_done (S T') = D\<lparr>hp_namebuf := nb\<rparr>"
            by (simp add: D_def header_done_namebuf)
          then show ?thesis
            using append_body_namebuf [OF D(1) q, of nb] mv by (auto simp: eq_msg_def)
        qed
        then obtain q' where q': "body_ref (int (length b)) (header_done (S T')) = (r2, m, q')" "eq_msg q q'" by blast
        have bounds: "body_ref (int (length a) + int (length b)) D = (r2, int (length a) + m, q) \<and> 0 \<le> m \<and> m \<le> int (length b)"
        proof (cases "r2 = 1")
          case True
          have "hp_inv q" using body_ok_safe [OF D(1), of "int (length b)"] q by auto
          then have "hp_header_offset q \<le> hp_msgsize q"
            using hp_baseD(2) [of q] by (simp add: hp_inv_def)
          then have ge: "hp_msgsize W \<le> hp_msgsize q"
            using sh T'(3) pos D(2) hp_baseD(1) [OF W(1)] by simp
          have le: "hp_msgsize q \<le> hp_msgsize W + length b" and Dm: "hp_msgsize D = hp_msgsize W + length b"
            using sh D(3) Vf(2) by simp_all
          have m: "m = int (length b) - (int (hp_msgsize D) - int (hp_msgsize q))"
            using sh True ge le Dm sz unfolding used_def
            by (simp only: simp_thms if_True) (rule mod_pos_pos_trivial; simp add: W_def)
          have "used r2 (int (length a) + int (length b)) D q
              = int (length a) + int (length b) - (int (hp_msgsize D) - int (hp_msgsize q))"
            using True ge le Dm sz unfolding used_def
            by (simp only: simp_thms if_True) (rule mod_pos_pos_trivial; simp add: W_def)
          then show ?thesis
            using sh m ge le Dm by simp
        next
          case False
          then show ?thesis using sh by (simp add: used_def)
        qed
        have "append_rest al (int (length b)) (with_bytes b p1) = (r2, m, q')"
          using wb hp1 st1 pos q'(1) by (simp add: append_rest_def)
        moreover have "append_rest al (int (length a) + int (length b)) V = (r2, int (length a) + m, q)"
          using hV WV(2) pos bounds by (simp add: append_rest_def D_def)
        ultimately show ?thesis
          using q'(2) bounds unfolding V_def by blast
      qed
    next
      case False
      define d where "d = header_done t"
      have d: "body_ok d" "hp_msgbuf d = hp_msgbuf W" "hp_msgsize d = hp_msgsize W"
        using header_done_ok [OF t _ W(1) WV(1) W(2) WV(6,4)] False by (simp_all add: d_def)
      have z': "body_ref (int (length a)) d = (0, n, p1)"
        using z t WV(1) False by (simp add: append_rest_def W_def [symmetric] d_def)
      have hV: "message_header_ref al (hp_msgbuf V) V = (r1, S t)"
        using parse_message_header_append [OF t _ WV(1,3), of b] False
        unfolding Vf(1) by (subst VW) (simp add: S_def set_buf_message_header)
      have P: "header_done (S t) = S d"
        by (simp add: S_def set_buf_header_done d_def)
      have okP: "body_ok (S d)"
        using header_done_ok [OF hV _ V(1) WV(2) V(2) WV(7,5)] False by (simp add: P)
      have mv: "chunk_moved d p1" using append_body_moved [OF d(1) z'] by simp
      note f = chunk_moved_fields [OF mv]
      have st: "hp_header_state (S p1) = HPS_HEADER_COMPLETE"
        using f d(1) by (simp add: S_def body_ok_def)
      have "same_buffer W d"
        using safe header_done_safe [of t] False same_buffer_trans by (auto simp: d_def)
      then have wb: "with_bytes b p1 = S p1"
        using mv by (intro again) (auto simp: same_buffer_def chunk_moved_def)
      obtain r m q where r: "body_ref (int (length b)) (S p1) = (r, m, q)"
        by (metis prod_cases3)
      have "body_ref (int (length a) + int (length b)) (S d) = (r, int (length a) + m, q) \<and> 0 \<le> m \<and> m \<le> int (length b)"
        by (rule append_rest_body [OF b inv(2) sz d(1) _ _ z' _ okP]) (use r d in \<open>simp_all add: W_def S_def\<close>)
      then show ?thesis
        using r wb st hV WV(2) False P by (auto simp: append_rest_def V_def [symmetric])
    qed
  qed
qed

lemma append_resumes:
  assumes "hp_inv p" "int (hp_msgsize p) + int (length a) + int (length b) < 2 ^ 62"
    and "http_parser_append_message (\<lambda>_. True) al a p = Ret (0, n, p1)"
  shows "\<exists>r m q q'. http_parser_append_message (\<lambda>_. True) al b p1 = Ret (r, m, q)
    \<and> http_parser_append_message (\<lambda>_. True) al (a @ b) p = Ret (r, int (length a) + m, q')
    \<and> eq_msg q' q \<and> 0 \<le> m \<and> m \<le> int (length b)"
proof -
  have nc: "\<not> hp_complete p"
    using assms(3) by (auto simp: append_message_ref)
  have b: "hp_base p" using assms(1) by (simp add: hp_inv_def)
  have "hp_inv p1 \<and> \<not> hp_complete p1"
    using append_message_ok [OF assms(1), of a "\<lambda>_. True" al] assms(2,3) by auto
  moreover have "append_rest al (int (length a)) (with_bytes a p) = (0, n, p1)"
    using assms(3) append_message_eq [OF b nc] by simp
  ultimately show ?thesis
    using append_rest_split [OF assms(1) nc assms(2)] append_message_eq [OF b nc, of al "a @ b"]
      append_message_eq [of p1 al b] by (auto simp: hp_inv_def)
qed

text \<open>
  C2. A message may be cut anywhere: if appending \<open>a\<close> returns 0, then appending \<open>b\<close> to the
  result gives the return code and the parser that appending \<open>a @ b\<close> at once gives (up to
  \<open>namebuf\<close>, which nothing reads once the header is complete), the bytes used add up, and the
  number of bytes used of \<open>b\<close> is at most its length.
\<close>

theorem append_split:
  assumes "hp_inv p" "int (hp_msgsize p) + int (length a) + int (length b) < 2 ^ 62"
    and "http_parser_append_message (\<lambda>_. True) al a p = Ret (0, n, p1)"
  shows "\<exists>r m q q'. http_parser_append_message (\<lambda>_. True) al b p1 = Ret (r, m, q)
    \<and> http_parser_append_message (\<lambda>_. True) al (a @ b) p = Ret (r, int (length a) + m, q')
    \<and> eq_msg q' q \<and> 0 \<le> m \<and> m \<le> int (length b)"
  using assms by (rule append_resumes)

theorem append_split_witness:
  "\<exists>p1 r m q q'. http_parser_append_message (\<lambda>_. True) (\<lambda>_. True) (''GET / HTTP/1.1'' @ [CR])
       (http_parser_init False parser0) = Ret (0, 15, p1)
    \<and> http_parser_append_message (\<lambda>_. True) (\<lambda>_. True) ([LF] @ CRLF @ ''GET'') p1 = Ret (r, m, q)
    \<and> http_parser_append_message (\<lambda>_. True) (\<lambda>_. True) ((''GET / HTTP/1.1'' @ [CR]) @ [LF] @ CRLF @ ''GET'')
         (http_parser_init False parser0) = Ret (r, 15 + m, q')
    \<and> eq_msg q' q \<and> 0 \<le> m \<and> m \<le> 6"
proof -
  have "case http_parser_append_message (\<lambda>_. True) (\<lambda>_. True) (''GET / HTTP/1.1'' @ [CR])
      (http_parser_init False parser0) of UB \<Rightarrow> False | Ret x \<Rightarrow> fst x = 0 \<and> fst (snd x) = 15"
    by code_simp
  then obtain p1 where p1: "http_parser_append_message (\<lambda>_. True) (\<lambda>_. True) (''GET / HTTP/1.1'' @ [CR])
      (http_parser_init False parser0) = Ret (0, 15, p1)"
    by (auto split: outcome.splits)
  have "hp_inv (http_parser_init False parser0)"
    by (simp add: hp_inv_def hp_base_def http_parser_init_def parser0_def len_ok_def)
  from append_split [OF this _ p1, of "[LF] @ CRLF @ ''GET''"] p1 show ?thesis
    by (auto simp: http_parser_init_def)
qed

end
