(* ===== verification/HttpPrefix.thy ===== *)
theory HttpPrefix
  imports HttpStream
begin

text \<open>
  Bytes behind a complete message do not change it: when appending \<open>a\<close> completes the message, appending
  \<open>a @ b\<close> completes the same message, after the same bytes, in a buffer that may be larger.
\<close>

lemma parse_chunk_append:
  assumes "chunk_ref msg p = (1, q)" "hp_chunk_state p \<noteq> CPS_CHUNK_COMPLETE" "hp_chunk_offset p \<le> length msg"
  shows "chunk_ref (msg @ b) p = (1, q)"
  using assms
proof (induction msg p rule: chunk_ref.induct)
  case (1 msg p)
  note safe = chunk_round_safe [OF 1(3,4)]
  show ?case
  proof (cases "chunk_round_ref msg p")
    case (Inl p')
    then have "chunk_round_ref (msg @ b) p = Inl p'" using chunk_round_append [of msg p p' b] 1(3,4) by simp
    then show ?thesis
      using 1(1) [OF Inl] 1(2) safe Inl parse_chunk_step(1) [OF Inl] parse_chunk_step(1) by simp
  next
    case (Inr c)
    then have c: "chunk_round_ref msg p = Inr (1, q)" using 1(2) parse_chunk_step(2) [OF Inr] by simp
    then have "chunk_round_ref (msg @ b) p = Inr (1, q)" using chunk_round_append [of msg p q b] 1(3,4) by simp
    then show ?thesis by (rule parse_chunk_step(2))
  qed
qed

lemma finish_extend:
  assumes "tot \<le> length (hp_msgbuf p)" "length (hp_msgbuf p) = hp_msgsize p" "finish_message k tot p = (1, n, q)"
  shows "finish_message (k + int (length b)) tot (set_buf c (hp_msgbuf p @ b) (hp_msgsize p + length b) p) = (1, n, q\<lparr>hp_bufsize := c\<rparr>)"
  using assms by (auto simp: finish_message_def set_buf_def algebra_simps)

lemma body_extend:
  assumes ok: "body_ok p" and r: "body_ref k p = (1, n, q)"
  shows "body_ref (k + int (length b)) (set_buf c (hp_msgbuf p @ b) (hp_msgsize p + length b) p) = (1, n, q\<lparr>hp_bufsize := c\<rparr>)"
proof -
  let ?P = "set_buf c (hp_msgbuf p @ b) (hp_msgsize p + length b) p"
  have len: "length (hp_msgbuf p) = hp_msgsize p" using ok hp_baseD(1) by (simp add: body_ok_def)
  consider "hp_transfer_length p \<noteq> SIZE_MAX" | "hp_transfer_length p = SIZE_MAX" "\<not> hp_chunked p"
    | "hp_transfer_length p = SIZE_MAX" "hp_chunked p" "hp_chunk_state p = CPS_CHUNK_COMPLETE"
    | "hp_transfer_length p = SIZE_MAX" "hp_chunked p" "hp_chunk_state p \<noteq> CPS_CHUNK_COMPLETE" by blast
  then show ?thesis
  proof cases
    case 1
    define tot where "tot = (int (hp_header_offset p) + hp_transfer_length p) mod 2 ^ 64"
    have t: "tot \<le> int (hp_msgsize p)" "finish_message k (nat tot) p = (1, n, q)"
      using r 1 unfolding body_ref_def Let_def tot_def [symmetric] by (auto split: if_splits)
    have "body_ref (k + int (length b)) ?P = finish_message (k + int (length b)) (nat tot) ?P"
      using t(1) 1 unfolding body_ref_def Let_def by (simp add: tot_def)
    then show ?thesis using finish_extend [OF _ len t(2)] t(1) len by simp
  next
    case 2
    then show ?thesis using r by (simp add: body_ref_def)
  next
    case 3
    have "hp_chunk_offset p \<le> length (hp_msgbuf p)" using ok 3 len by (simp add: body_ok_def)
    moreover have "finish_message k (hp_chunk_offset p) p = (1, n, q)" using r 3 by (simp add: body_ref_def)
    ultimately show ?thesis using finish_extend [OF _ len] 3 by (simp add: body_ref_def)
  next
    case 4
    obtain r' q' where c: "chunk_ref (hp_msgbuf p) p = (r', q')" by fastforce
    note f = body_ok_chunk [OF ok 4 c]
    have r': "r' = 1" "finish_message k (hp_chunk_offset q') q' = (1, n, q)"
      using r 4 c f(2) by (auto simp: body_ref_def split: if_splits)
    have mv: "hp_msgbuf q' = hp_msgbuf p" "hp_msgsize q' = hp_msgsize p" using f(1) by (auto simp: chunk_moved_def)
    have co: "hp_chunk_offset p \<le> length (hp_msgbuf p)" using ok 4 len by (simp add: body_ok_def)
    have "chunk_ref (hp_msgbuf p @ b) ?P = (1, set_buf c (hp_msgbuf p @ b) (hp_msgsize p + length b) q')"
      using set_buf_chunk [OF parse_chunk_append [OF _ 4(3) co]] c r'(1) 4(3) co by simp
    then have "body_ref (k + int (length b)) ?P
        = finish_message (k + int (length b)) (hp_chunk_offset q') (set_buf c (hp_msgbuf p @ b) (hp_msgsize p + length b) q')"
      using 4 by (simp add: body_ref_def)
    then show ?thesis using finish_extend [OF _ _ r'(2), of b c] f(5) mv len by simp
  qed
qed

lemma append_completes:
  assumes "hp_inv p" "int (hp_msgsize p) + int (length a) + int (length b) < 2 ^ 62"
    "http_parser_append_message (\<lambda>_. True) al a p = Ret (1, n, q)" "\<not> hp_complete p"
  shows "\<exists>c. http_parser_append_message (\<lambda>_. True) al (a @ b) p = Ret (1, n, q\<lparr>hp_bufsize := c\<rparr>)"
proof -
  define W where "W = with_bytes a p"
  define c where "c = hp_bufsize (with_bytes (a @ b) p)"
  have b: "hp_base p" using assms(1) by (simp add: hp_inv_def)
  have VW: "with_bytes (a @ b) p = set_buf c (hp_msgbuf W @ b) (hp_msgsize W + length b) W"
    unfolding c_def W_def by (rule with_bytes_split)
  have r: "append_rest al (int (length a)) W = (1, n, q)" using assms(3) append_message_eq [OF b assms(4)] by (simp add: W_def)
  have W: "hp_base W" "int (hp_msgsize W) < hp_bufsize W" "int (hp_msgsize W) < 2 ^ 62" "\<not> hp_complete W"
    using with_bytes_base [OF b, of a] assms(2,4) by (simp_all add: W_def)
  have "append_rest al (int (length (a @ b))) (with_bytes (a @ b) p) = (1, n, q\<lparr>hp_bufsize := c\<rparr>)"
  proof (cases "hp_header_state p = HPS_HEADER_COMPLETE")
    case True
    then have hs: "hp_header_state W = HPS_HEADER_COMPLETE" by (simp add: W_def)
    have ok: "body_ok W" using with_bytes_ok [OF assms(1,4) _ True] assms(2) by (simp add: W_def)
    have "body_ref (int (length a)) W = (1, n, q)" using r hs by (simp add: append_rest_def)
    then show ?thesis using body_extend [OF ok, of "int (length a)" n q b c] hs VW by (simp add: append_rest_def)
  next
    case False
    then have hs: "hp_header_state W \<noteq> HPS_HEADER_COMPLETE" by (simp add: W_def)
    obtain r1 t where t: "message_header_ref al (hp_msgbuf W) W = (r1, t)" by fastforce
    have pos: "0 < r1" using r t hs by (auto simp: append_rest_def split: if_splits)
    then have bd: "body_ref (int (length a)) (header_done t) = (1, n, q)" using r t hs by (simp add: append_rest_def)
    have off: "hp_header_offset W \<le> length (hp_msgbuf W)" using hp_baseD(1,2) [OF W(1)] by simp
    have "message_header_ref al (hp_msgbuf W @ b) W = (r1, t)" by (rule parse_message_header_append [OF t pos hs off])
    then have pV: "message_header_ref al (hp_msgbuf (with_bytes (a @ b) p)) (with_bytes (a @ b) p)
        = (r1, set_buf c (hp_msgbuf W @ b) (hp_msgsize W + length b) t)"
      by (subst (2) VW) (simp add: set_buf_message_header, simp add: W_def)
    have D: "body_ok (header_done t)" "hp_msgbuf (header_done t) = hp_msgbuf W" "hp_msgsize (header_done t) = hp_msgsize W"
      using header_done_ok [OF t pos W(1) hs W(2,3,4)] by simp_all
    show ?thesis
      using body_extend [OF D(1) bd, of b c] pV pos hs D(2,3) VW by (simp add: append_rest_def set_buf_header_done)
  qed
  then show ?thesis using append_message_eq [OF b assms(4), of al "a @ b"] by auto
qed

end
