(* ===== verification/PollerRead.thy ===== *)
theory PollerRead
  imports PollerIO
begin

text \<open>
  The read handler over a stream. The contract \<open>message_stream\<close> is what the handler needs of the function
  \<open>append\<close> of a message: a message may be cut, and the bytes behind a complete one do not matter. Under it
  the handler delivers the same messages however the system cuts the stream into reads.
\<close>

locale message_stream =
  fixes app :: "('m, 'b) appender" and good :: "'m \<Rightarrow> nat \<Rightarrow> bool" and same :: "'m \<Rightarrow> 'm \<Rightarrow> bool"
  assumes same_refl: "same m m"
    and same_trans: "same m1 m2 \<Longrightarrow> same m2 m3 \<Longrightarrow> same m1 m3"
    and good_mono: "good m k \<Longrightarrow> j \<le> k \<Longrightarrow> good m j"
    and app_more: "good m (length a + k) \<Longrightarrow> app m a = (0, n, m1) \<Longrightarrow> n = length a \<and> good m1 k"
    and app_split: "good m (length a + length b) \<Longrightarrow> app m a = (0, n, m1) \<Longrightarrow> app m1 b = (r, j, q) \<Longrightarrow>
      \<exists>q'. app m (a @ b) = (r, length a + j, q') \<and> same q' q"
    and app_done: "good m (length a + length b) \<Longrightarrow> app m a = (r, n, q) \<Longrightarrow> 0 < r \<Longrightarrow>
      n \<le> length a \<and> (\<exists>q'. app m (a @ b) = (r, n, q') \<and> same q' q)"
begin

definition goods :: "'m option list \<Rightarrow> 'm option \<Rightarrow> nat \<Rightarrow> bool" where
  "goods new cur k \<longleftrightarrow> (\<forall>m. Some m \<in> set new \<longrightarrow> good m k) \<and> (\<forall>m. cur = Some m \<longrightarrow> good m k)"

lemma goods_mono: "goods new cur k \<Longrightarrow> j \<le> k \<Longrightarrow> goods new cur j"
  using good_mono by (auto simp: goods_def)

text \<open>A successful append works on a message that was in progress or is new.\<close>

lemma append_messageE:
  assumes "append_message app bs new cur = (ret, n, new1, cur1, out)" "0 \<le> ret" "goods new cur k"
  obtains m m1 where "app m bs = (ret, n, m1)" "good m k" "goods new1 None k"
    "cur1 = (if 0 < ret then None else Some m1)" "out = (if 0 < ret then [m1] else [])"
    "\<And>bs'. append_message app bs' new cur =
       (case app m bs' of (r, j, m2) \<Rightarrow> if 0 < r then (r, j, new1, None, [m2]) else (r, j, new1, Some m2, []))"
proof (cases cur)
  case (Some m)
  obtain r j m1 where "app m bs = (r, j, m1)" by (cases "app m bs")
  then show ?thesis
    using that [of m m1] assms Some by (auto simp: append_message_def goods_def split: if_splits prod.splits)
next
  case None
  show ?thesis
  proof (cases new)
    case Nil
    then show ?thesis using assms None by (simp add: append_message_def)
  next
    case (Cons x xs)
    show ?thesis
    proof (cases x)
      case None
      then show ?thesis using assms Cons \<open>cur = None\<close> by (simp add: append_message_def)
    next
      case (Some m)
      obtain r j m1 where "app m bs = (r, j, m1)" by (cases "app m bs")
      then show ?thesis
        using that [of m m1] assms Some Cons \<open>cur = None\<close>
        by (auto simp: append_message_def goods_def split: if_splits prod.splits)
    qed
  qed
qed

text \<open>What was delivered before does not matter.\<close>

lemma feed_acc:
  assumes "feed_bytes app acc bs new cur = Some (acc1, rest)"
  shows "\<exists>out. acc1 = acc @ out \<and> (\<forall>acc'. feed_bytes app acc' bs new cur = Some (acc' @ out, rest))"
proof -
  let ?P = "\<lambda>app acc bs new cur y. \<exists>out. fst y = acc @ out \<and> (\<forall>acc'. feed_bytes app acc' bs new cur = Some (acc' @ out, snd y))"
  have "?P app acc bs new cur (acc1, rest)"
  proof (rule feed_bytes.raw_induct [where P = ?P, OF _ assms])
    fix f app acc bs new cur y
    assume ih: "\<And>app acc bs new cur y. f app acc bs new cur = Some y \<Longrightarrow> ?P app acc bs new cur y"
      and run: "(case append_message app bs new cur of
        (ret, n, new1, cur1, out) \<Rightarrow>
          if ret < 0 \<or> length bs < n then Some (acc @ out, new1, cur1, False)
          else if n = length bs then Some (acc @ out, new1, cur1, True)
          else f app (acc @ out) (drop n bs) new1 cur1) = Some y"
    obtain ret n new1 cur1 out where a: "append_message app bs new cur = (ret, n, new1, cur1, out)" by (metis prod_cases5)
    consider "ret < 0 \<or> length bs < n" | "\<not> (ret < 0 \<or> length bs < n)" "n = length bs" | "\<not> (ret < 0 \<or> length bs < n)" "n \<noteq> length bs" by blast
    then show "?P app acc bs new cur y"
    proof cases
      case 3
      then have "f app (acc @ out) (drop n bs) new1 cur1 = Some y" using a run by simp
      from ih [OF this] 3 a show ?thesis by (auto simp: feed_bytes.simps [of app _ bs new cur])
    qed (use a run in \<open>auto simp: feed_bytes.simps [of app _ bs new cur]\<close>)
  qed
  then show ?thesis by simp
qed

text \<open>Feeding \<open>a\<close> and then \<open>b\<close> is feeding \<open>a @ b\<close>.\<close>

definition resumes :: "'m list \<Rightarrow> 'b list \<Rightarrow> 'm option list \<Rightarrow> 'm option \<Rightarrow> 'm list \<Rightarrow> 'm option list \<Rightarrow> 'm option \<Rightarrow> bool" where
  "resumes acc a new cur acc1 new1 cur1 \<longleftrightarrow>
     (\<forall>k. goods new cur (length a + k) \<longrightarrow> goods new1 cur1 k)
     \<and> (\<forall>b acc2 new2 cur2. b \<noteq> [] \<longrightarrow> goods new cur (length a + length b) \<longrightarrow>
          feed_bytes app acc1 b new1 cur1 = Some (acc2, new2, cur2, True) \<longrightarrow>
          (\<exists>acc2' cur2'. feed_bytes app acc (a @ b) new cur = Some (acc2', new2, cur2', True)
             \<and> list_all2 same acc2' acc2 \<and> rel_option same cur2' cur2))"

lemma same_list: "list_all2 same xs xs"
  by (rule list_all2_refl) (rule same_refl)

lemma same_option: "rel_option same c c"
  by (cases c) (auto intro: same_refl)

lemma same_snoc: "same q' q \<Longrightarrow> list_all2 same ((acc @ [q']) @ xs) ((acc @ [q]) @ xs)"
  using same_list by (simp add: list_all2_appendI)

text \<open>The first piece ends within a message.\<close>

lemma resume_within:
  assumes "append_message app a new cur = (0, length a, new1, cur1, out)"
  shows "resumes acc a new cur (acc @ out) new1 cur1"
  unfolding resumes_def
proof (intro conjI allI impI)
  fix k assume g: "goods new cur (length a + k)"
  obtain m m1 where m: "app m a = (0, length a, m1)" "good m (length a + k)" "goods new1 None (length a + k)" "cur1 = Some m1"
    by (rule append_messageE [OF assms _ g]) simp_all
  then show "goods new1 cur1 k" using app_more goods_mono [of new1 None "length a + k" k] by (auto simp: goods_def)
next
  fix b acc2 new2 cur2
  assume b: "b \<noteq> []" and g: "goods new cur (length a + length b)" and f: "feed_bytes app (acc @ out) b new1 cur1 = Some (acc2, new2, cur2, True)"
  obtain m m1 where m: "app m a = (0, length a, m1)" "good m (length a + length b)" "cur1 = Some m1" "out = []"
    "\<And>bs'. append_message app bs' new cur = (case app m bs' of (r, j, m2) \<Rightarrow> if 0 < r then (r, j, new1, None, [m2]) else (r, j, new1, Some m2, []))"
    by (rule append_messageE [OF assms _ g]) simp_all
  have gm: "good m1 (length b)" using app_more [OF m(2,1)] by blast
  obtain r j q where q: "app m1 b = (r, j, q)" by (metis prod_cases3)
  obtain q' where q': "app m (a @ b) = (r, length a + j, q')" "same q' q" using app_split [OF m(2,1) q] by blast
  have ab: "append_message app b new1 (Some m1) = (if 0 < r then (r, j, new1, None, [q]) else (r, j, new1, Some q, []))"
    using q by (simp add: append_message_def)
  have aab: "append_message app (a @ b) new cur = (if 0 < r then (r, length a + j, new1, None, [q']) else (r, length a + j, new1, Some q', []))"
    using q'(1) m(5) by simp
  have ok: "0 \<le> r" "j \<le> length b"
    using f ab m(3,4) by (auto simp: feed_bytes.simps [of app _ b] split: if_splits)
  show "\<exists>acc2' cur2'. feed_bytes app acc (a @ b) new cur = Some (acc2', new2, cur2', True) \<and> list_all2 same acc2' acc2 \<and> rel_option same cur2' cur2"
  proof (cases "j = length b")
    case True
    show ?thesis
    proof (cases "0 < r")
      case pos: True
      have "acc2 = acc @ [q]" "new2 = new1" "cur2 = None"
        using f ab ok True pos m(3,4) by (auto simp: feed_bytes.simps [of app _ b])
      moreover have "feed_bytes app acc (a @ b) new cur = Some (acc @ [q'], new1, None, True)"
        using aab ok True pos by (simp add: feed_bytes.simps [of app _ "a @ b"])
      ultimately show ?thesis using same_snoc [OF q'(2), of acc "[]"] by simp
    next
      case False
      have "acc2 = acc" "new2 = new1" "cur2 = Some q"
        using f ab ok True False m(3,4) by (auto simp: feed_bytes.simps [of app _ b])
      moreover have "feed_bytes app acc (a @ b) new cur = Some (acc, new1, Some q', True)"
        using aab ok True False by (simp add: feed_bytes.simps [of app _ "a @ b"])
      ultimately show ?thesis using same_list q'(2) by simp
    qed
  next
    case False
    have pos: "0 < r"
    proof (rule ccontr)
      assume "\<not> 0 < r"
      then have "r = 0" using ok by simp
      then show False using app_more [of m1 b 0 j q] gm q False by simp
    qed
    have "feed_bytes app (acc @ [q]) (drop j b) new1 None = Some (acc2, new2, cur2, True)"
      using f ab ok False pos m(3,4) by (simp add: feed_bytes.simps [of app _ b])
    from feed_acc [OF this] obtain o2 where o2: "acc2 = (acc @ [q]) @ o2"
        "feed_bytes app (acc @ [q']) (drop j b) new1 None = Some ((acc @ [q']) @ o2, new2, cur2, True)" by blast
    have "feed_bytes app acc (a @ b) new cur = feed_bytes app (acc @ [q']) (drop j b) new1 None"
      using aab ok False pos by (simp add: feed_bytes.simps [of app _ "a @ b"])
    then show ?thesis using o2 same_snoc [OF q'(2)] same_option by auto
  qed
qed

text \<open>The first piece completes a message.\<close>

lemma resume_behind:
  assumes "append_message app a new cur = (ret, n, new1, None, [q])" "0 < ret" "n \<le> length a"
    "n < length a \<Longrightarrow> resumes (acc @ [q]) (drop n a) new1 None acc1 new2 cur2"
    "n = length a \<Longrightarrow> acc1 = acc @ [q] \<and> new2 = new1 \<and> cur2 = None"
  shows "resumes acc a new cur acc1 new2 cur2"
  unfolding resumes_def
proof (intro conjI allI impI)
  fix k assume g: "goods new cur (length a + k)"
  have g1: "goods new1 None (length a + k)" using append_messageE [OF assms(1) _ g] assms(2) by (metis less_imp_le)
  show "goods new2 cur2 k"
  proof (cases "n = length a")
    case True
    then show ?thesis using assms(5) goods_mono [OF g1] by simp
  next
    case False
    have "goods new1 None (length (drop n a) + k)" using goods_mono [OF g1] by simp
    then show ?thesis using assms(3,4) False unfolding resumes_def by auto
  qed
next
  fix b acc2 new3 cur3
  assume b: "b \<noteq> []" and g: "goods new cur (length a + length b)" and f: "feed_bytes app acc1 b new2 cur2 = Some (acc2, new3, cur3, True)"
  obtain m m1 where m: "app m a = (ret, n, m1)" "good m (length a + length b)" "goods new1 None (length a + length b)" "q = m1"
    "\<And>bs'. append_message app bs' new cur = (case app m bs' of (r, j, m2) \<Rightarrow> if 0 < r then (r, j, new1, None, [m2]) else (r, j, new1, Some m2, []))"
    by (rule append_messageE [OF assms(1) _ g]) (use assms(2) in simp_all)
  obtain q' where q': "app m (a @ b) = (ret, n, q')" "same q' q" using app_done [OF m(2,1) assms(2)] m(4) by blast
  have aab: "append_message app (a @ b) new cur = (ret, n, new1, None, [q'])" using m(5) q'(1) assms(2) by simp
  have e: "feed_bytes app acc (a @ b) new cur = feed_bytes app (acc @ [q']) (drop n a @ b) new1 None"
  proof -
    have "n < length (a @ b)" using assms(3) b by (cases b) auto
    then show ?thesis using aab assms(2,3) by (simp add: feed_bytes.simps [of app _ "a @ b"])
  qed
  have "\<exists>acc2' cur2'. feed_bytes app (acc @ [q]) (drop n a @ b) new1 None = Some (acc2', new3, cur2', True)
      \<and> list_all2 same acc2' acc2 \<and> rel_option same cur2' cur3"
  proof (cases "n = length a")
    case True
    then show ?thesis using assms(5) f same_list same_option by auto
  next
    case False
    have "goods new1 None (length (drop n a) + length b)" using goods_mono [OF m(3)] by simp
    then show ?thesis using assms(3,4) False b f unfolding resumes_def by auto
  qed
  then obtain acc2' cur2' where r: "feed_bytes app (acc @ [q]) (drop n a @ b) new1 None = Some (acc2', new3, cur2', True)"
      "list_all2 same acc2' acc2" "rel_option same cur2' cur3" by blast
  from feed_acc [OF r(1)] obtain o2 where o2: "acc2' = (acc @ [q]) @ o2"
      "feed_bytes app (acc @ [q']) (drop n a @ b) new1 None = Some ((acc @ [q']) @ o2, new3, cur2', True)" by blast
  have "list_all2 same ((acc @ [q']) @ o2) acc2"
    by (rule list_all2_trans [OF _ same_snoc [OF q'(2)] r(2) [unfolded o2(1)]]) (rule same_trans)
  with trans [OF e o2(2)] r(3) show "\<exists>acc2' cur2'. feed_bytes app acc (a @ b) new cur = Some (acc2', new3, cur2', True)
      \<and> list_all2 same acc2' acc2 \<and> rel_option same cur2' cur3"
    by blast
qed

lemma feed_resumes:
  assumes "feed_bytes app acc a new cur = Some (acc1, new1, cur1, True)"
  shows "\<exists>k. goods new cur (length a + k) \<Longrightarrow> resumes acc a new cur acc1 new1 cur1"
proof -
  let ?P = "\<lambda>app' acc a new cur y. app' = app \<longrightarrow> snd (snd (snd y)) \<longrightarrow> (\<exists>k. goods new cur (length a + k)) \<longrightarrow>
    resumes acc a new cur (fst y) (fst (snd y)) (fst (snd (snd y)))"
  have "?P app acc a new cur (acc1, new1, cur1, True)"
  proof (rule feed_bytes.raw_induct [where P = ?P, OF _ assms], intro impI)
    fix f app' acc a new cur y
    assume ih: "\<And>app' acc a new cur y. f app' acc a new cur = Some y \<Longrightarrow> ?P app' acc a new cur y"
      and run: "(case append_message app' a new cur of
        (ret, n, new1, cur1, out) \<Rightarrow>
          if ret < 0 \<or> length a < n then Some (acc @ out, new1, cur1, False)
          else if n = length a then Some (acc @ out, new1, cur1, True)
          else f app' (acc @ out) (drop n a) new1 cur1) = Some y"
      and app: "app' = app" and ok: "snd (snd (snd y))" and good: "\<exists>k. goods new cur (length a + k)"
    obtain ret n new1 cur1 out where a: "append_message app a new cur = (ret, n, new1, cur1, out)" by (metis prod_cases5)
    have le: "0 \<le> ret" "n \<le> length a" using run a app ok by (auto split: if_splits)
    obtain k where g: "goods new cur (length a + k)" using good by blast
    obtain m m1 where m: "app m a = (ret, n, m1)" "good m (length a + k)" "goods new1 None (length a + k)"
        "cur1 = (if 0 < ret then None else Some m1)" "out = (if 0 < ret then [m1] else [])"
      by (rule append_messageE [OF a le(1) g]) blast
    show "resumes acc a new cur (fst y) (fst (snd y)) (fst (snd (snd y)))"
    proof (cases "0 < ret")
      case True
      then have c: "cur1 = None" "out = [m1]" using m(4,5) by simp_all
      show ?thesis
      proof (rule resume_behind [OF a [unfolded c] True le(2)])
        assume n: "n < length a"
        then have "f app' (acc @ [m1]) (drop n a) new1 None = Some y" using run a app le c by simp
        moreover have "goods new1 None (length (drop n a) + k)" using goods_mono [OF m(3)] by simp
        ultimately show "resumes (acc @ [m1]) (drop n a) new1 None (fst y) (fst (snd y)) (fst (snd (snd y)))"
          using ih app ok by blast
      next
        assume "n = length a"
        then show "fst y = acc @ [m1] \<and> fst (snd y) = new1 \<and> fst (snd (snd y)) = None" using run a app le c by auto
      qed
    next
      case False
      then have z: "ret = 0" using le(1) by simp
      then have n: "n = length a" using app_more m(1,2) by blast
      have "y = (acc @ out, new1, cur1, True)" using run a app n z by simp
      then show ?thesis using resume_within [OF a [unfolded z n]] by simp
    qed
  qed
  then show "\<exists>k. goods new cur (length a + k) \<Longrightarrow> resumes acc a new cur acc1 new1 cur1" by simp
qed

text \<open>The messages that come out do not depend on the cuts.\<close>

lemma read_cut:
  assumes "handle_read app e (map DATA cs @ [R_AGAIN]) acc new cur = Some (Keep, out, new1, cur1)"
    "cs \<noteq> []" "\<forall>c\<in>set cs. c \<noteq> []" "goods new cur (length (concat cs))"
  shows "\<exists>out' cur1'. handle_read app e [DATA (concat cs), R_AGAIN] acc new cur = Some (Keep, out', new1, cur1')
    \<and> list_all2 same out' out \<and> rel_option same cur1' cur1"
  using assms
proof (induction cs arbitrary: acc new cur)
  case (Cons c cs)
  obtain acc1 new' cur' where f: "feed_bytes app acc c new cur = Some (acc1, new', cur', True)"
      "handle_read app e (map DATA cs @ [R_AGAIN]) acc1 new' cur' = Some (Keep, out, new1, cur1)"
    using Cons.prems(1) by (auto split: option.splits bool.splits)
  show ?case
  proof (cases "cs = []")
    case True
    then show ?thesis using f same_list same_option by auto
  next
    case False
    have g: "goods new cur (length c + length (concat cs))" using Cons.prems(4) by simp
    have r: "resumes acc c new cur acc1 new' cur'" using feed_resumes [OF f(1)] g by blast
    then have g': "goods new' cur' (length (concat cs))" using g unfolding resumes_def by blast
    obtain out' cur1' where h: "handle_read app e [DATA (concat cs), R_AGAIN] acc1 new' cur' = Some (Keep, out', new1, cur1')"
        "list_all2 same out' out" "rel_option same cur1' cur1"
      using Cons.IH [OF f(2) False _ g'] Cons.prems(3) by auto
    have fb: "feed_bytes app acc1 (concat cs) new' cur' = Some (out', new1, cur1', True)"
      using h(1) by (auto split: option.splits bool.splits)
    have "concat cs \<noteq> []" using False Cons.prems(3) by (cases cs) auto
    then obtain out'' cur'' where h2: "feed_bytes app acc (c @ concat cs) new cur = Some (out'', new1, cur'', True)"
        "list_all2 same out'' out'" "rel_option same cur'' cur1'"
      using r g fb unfolding resumes_def by blast
    have "list_all2 same out'' out" by (rule list_all2_trans [OF _ h2(2) h(2)]) (rule same_trans)
    moreover have "rel_option same cur'' cur1"
      using h2(3) h(3) same_trans by (cases cur''; cases cur1'; cases cur1) auto
    ultimately show ?thesis using h2(1) by simp
  qed
qed simp

end

end
