(* ===== verification/PollerHttp.thy ===== *)
theory PollerHttp
  imports PollerRead HttpPrefix
begin

text \<open>
  The read handler of the poller with the HTTP parser as the message: the requests or responses that a
  connection delivers depend on the bytes only, not on the reads that they came in.
\<close>

definition http_append :: "(http_parser, char) appender" where
  "http_append p bs =
     (case http_parser_append_message (\<lambda>_. True) (\<lambda>_. True) bs p of UB \<Rightarrow> (-1, length bs, p) | Ret (r, n, q) \<Rightarrow> (r, nat n, q))"

text \<open>A parser in the middle of a message, which has room for \<open>k\<close> more bytes.\<close>

definition in_progress :: "http_parser \<Rightarrow> nat \<Rightarrow> bool" where
  "in_progress p k \<longleftrightarrow> hp_inv p \<and> int (hp_msgsize p) + int k < 2 ^ 62
     \<and> (\<exists>n q. http_parser_append_message (\<lambda>_. True) (\<lambda>_. True) [] p = Ret (0, n, q))"

text \<open>The same message, in a buffer of another size and with other bytes in the name buffer.\<close>

definition same_http :: "http_parser \<Rightarrow> http_parser \<Rightarrow> bool" where
  "same_http p q \<longleftrightarrow> (\<exists>c nb. q = p\<lparr>hp_bufsize := c, hp_namebuf := nb\<rparr>)"

lemma same_http_eq_msg: "eq_msg p q \<Longrightarrow> same_http p q"
  unfolding eq_msg_def same_http_def
proof (elim disjE conjE exE)
  assume "q = p"
  then show "\<exists>c nb. q = p\<lparr>hp_bufsize := c, hp_namebuf := nb\<rparr>"
    by (intro exI [of _ "hp_bufsize p"] exI [of _ "hp_namebuf p"]) simp
next
  fix nb assume "q = p\<lparr>hp_namebuf := nb\<rparr>"
  then show "\<exists>c nb. q = p\<lparr>hp_bufsize := c, hp_namebuf := nb\<rparr>"
    by (intro exI [of _ "hp_bufsize p"] exI [of _ nb]) simp
qed

lemma same_http_bufsize: "same_http (p\<lparr>hp_bufsize := c\<rparr>) p"
  unfolding same_http_def by (intro exI [of _ "hp_bufsize p"] exI [of _ "hp_namebuf p"]) simp

lemma in_progress_incomplete: "in_progress p k \<Longrightarrow> \<not> hp_complete p"
  by (auto simp: in_progress_def append_message_ref)

text \<open>What an append gives on a message in progress.\<close>

lemma append_in_progress:
  assumes "in_progress p (length a + k)"
  obtains r n q where "http_parser_append_message (\<lambda>_. True) (\<lambda>_. True) a p = Ret (r, n, q)" "0 \<le> n" "n \<le> int (length a)"
    "http_append p a = (r, nat n, q)" "r \<in> {-2, -1, 0, 1}" "hp_inv q"
proof -
  obtain n0 q0 where z: "http_parser_append_message (\<lambda>_. True) (\<lambda>_. True) [] p = Ret (0, n0, q0)"
    using assms by (auto simp: in_progress_def)
  have inv: "hp_inv p" "int (hp_msgsize p) + int (length []) + int (length a) < 2 ^ 62" "int (hp_msgsize p) + int (length a) < 2 ^ 62"
    using assms by (auto simp: in_progress_def)
  obtain r m q' where a: "http_parser_append_message (\<lambda>_. True) (\<lambda>_. True) a p = Ret (r, m, q')" "0 \<le> m" "m \<le> int (length a)"
    using append_resumes [OF inv(1,2) z] by auto
  have "hp_inv q'" "r \<in> {-2, -1, 0, 1}"
    using append_message_ok [OF inv(1,3), of "\<lambda>_. True" "\<lambda>_. True"] a(1) by auto
  then show ?thesis using that a by (simp add: http_append_def)
qed

text \<open>An append that wants more has taken everything, and the message stays in progress.\<close>

lemma append_zero_size:
  assumes "hp_base p" "\<not> hp_complete p" "hp_inv p" "int (hp_msgsize p) + int (length a) < 2 ^ 62"
    "http_parser_append_message (\<lambda>_. True) al a p = Ret (0, n, q)"
  shows "n = int (length a) \<and> hp_msgsize q = hp_msgsize p + length a"
proof -
  let ?W = "with_bytes a p"
  have r: "append_rest al (int (length a)) ?W = (0, n, q)" using assms(5) append_message_eq [OF assms(1,2)] by simp
  have W: "hp_base ?W" "int (hp_msgsize ?W) < hp_bufsize ?W" "int (hp_msgsize ?W) < 2 ^ 62" "\<not> hp_complete ?W"
    using with_bytes_base [OF assms(1), of a] assms(2,4) by simp_all
  have body: "n = k \<and> hp_msgsize q = hp_msgsize d" if "body_ok d" "body_ref k d = (0, n, q)" for d k
  proof -
    have "chunk_moved d q" using append_body_moved [OF that] by blast
    moreover have "n = k" using append_body_shift [OF that] by (simp add: used_def)
    ultimately show ?thesis by (auto simp: chunk_moved_def)
  qed
  show ?thesis
  proof (cases "hp_header_state p = HPS_HEADER_COMPLETE")
    case True
    then have "body_ref (int (length a)) ?W = (0, n, q)" using r by (simp add: append_rest_def)
    then show ?thesis using body with_bytes_ok [OF assms(3,2,4) True] by auto
  next
    case False
    obtain r1 t where t: "message_header_ref al (hp_msgbuf ?W) ?W = (r1, t)" by fastforce
    show ?thesis
    proof (cases "r1 \<le> 0")
      case True
      then have "n = int (length a)" "q = t" using r t False by (auto simp: append_rest_def)
      then show ?thesis
        using parse_message_header_safe [OF t W(1) _ refl] False by (auto simp: same_buffer_def)
    next
      case pos: False
      then have "body_ref (int (length a)) (header_done t) = (0, n, q)" using r t False by (simp add: append_rest_def)
      then show ?thesis using body header_done_ok [OF t _ W(1) _ W(2,3,4)] pos False by auto
    qed
  qed
qed

lemma http_more:
  assumes "in_progress p (length a + k)" "http_append p a = (0, n, q)"
  shows "n = length a \<and> in_progress q k"
proof -
  obtain m where m: "http_parser_append_message (\<lambda>_. True) (\<lambda>_. True) a p = Ret (0, m, q)" "0 \<le> m" "n = nat m" "hp_inv q"
    using append_in_progress [OF assms(1)] assms(2) by (metis prod.inject)
  have p: "hp_inv p" "hp_base p" "int (hp_msgsize p) + int (length a) < 2 ^ 62"
    using assms(1) by (auto simp: in_progress_def hp_inv_def)
  have s: "m = int (length a)" "hp_msgsize q = hp_msgsize p + length a"
    using append_zero_size [OF p(2) in_progress_incomplete [OF assms(1)] p(1,3) m(1)] by blast+
  obtain r j u u' where "http_parser_append_message (\<lambda>_. True) (\<lambda>_. True) [] q = Ret (r, j, u)"
      "http_parser_append_message (\<lambda>_. True) (\<lambda>_. True) (a @ []) p = Ret (r, int (length a) + j, u')"
    using append_resumes [OF p(1) _ m(1), of "[]"] p(3) by auto
  then have "http_parser_append_message (\<lambda>_. True) (\<lambda>_. True) [] q = Ret (0, j, u)" using m(1) by simp
  then show ?thesis using m s assms(1) by (auto simp: in_progress_def)
qed

interpretation http: message_stream http_append in_progress same_http
proof
  show "same_http m m" for m using same_http_eq_msg [OF eq_msg_refl] .
  show "same_http m1 m3" if s: "same_http m1 m2" "same_http m2 m3" for m1 m2 m3
  proof -
    obtain c nb c' nb' where "m2 = m1\<lparr>hp_bufsize := c, hp_namebuf := nb\<rparr>" "m3 = m2\<lparr>hp_bufsize := c', hp_namebuf := nb'\<rparr>"
      using s unfolding same_http_def by blast
    then show ?thesis unfolding same_http_def by (intro exI [of _ c'] exI [of _ nb']) simp
  qed
  show "in_progress m j" if "in_progress m k" "j \<le> k" for m k j using that by (auto simp: in_progress_def)
  show "n = length a \<and> in_progress m1 k" if "in_progress m (length a + k)" "http_append m a = (0, n, m1)" for m a k n m1
    using http_more that by blast
  show "\<exists>q'. http_append m (a @ b) = (r, length a + j, q') \<and> same_http q' q"
    if g: "in_progress m (length a + length b)" and a: "http_append m a = (0, n, m1)" and b: "http_append m1 b = (r, j, q)" for m a b n m1 r j q
  proof -
    obtain m0 where m0: "http_parser_append_message (\<lambda>_. True) (\<lambda>_. True) a m = Ret (0, m0, m1)"
      using append_in_progress [OF g] a by (metis prod.inject)
    have "hp_inv m" "int (hp_msgsize m) + int (length a) + int (length b) < 2 ^ 62" using g by (auto simp: in_progress_def)
    from append_resumes [OF this m0] obtain r' m' u u' where
        u: "http_parser_append_message (\<lambda>_. True) (\<lambda>_. True) b m1 = Ret (r', m', u)"
          "http_parser_append_message (\<lambda>_. True) (\<lambda>_. True) (a @ b) m = Ret (r', int (length a) + m', u')" "eq_msg u' u" "0 \<le> m'" by blast
    have "r' = r" "nat m' = j" "u = q" using b u(1) by (auto simp: http_append_def)
    then show ?thesis using u same_http_eq_msg by (auto simp: http_append_def nat_add_distrib)
  qed
  show "n \<le> length a \<and> (\<exists>q'. http_append m (a @ b) = (r, n, q') \<and> same_http q' q)"
    if g: "in_progress m (length a + length b)" and a: "http_append m a = (r, n, q)" and r: "0 < r" for m a b r n q
  proof -
    obtain m' where m': "http_parser_append_message (\<lambda>_. True) (\<lambda>_. True) a m = Ret (r, m', q)" "0 \<le> m'" "m' \<le> int (length a)"
        "n = nat m'" "r \<in> {-2, -1, 0, 1}"
      using append_in_progress [OF g] a by (metis prod.inject)
    then have one: "r = 1" using r by auto
    have "hp_inv m" "int (hp_msgsize m) + int (length a) + int (length b) < 2 ^ 62" using g by (auto simp: in_progress_def)
    then obtain c where "http_parser_append_message (\<lambda>_. True) (\<lambda>_. True) (a @ b) m = Ret (1, m', q\<lparr>hp_bufsize := c\<rparr>)"
      using append_completes [of m a b "\<lambda>_. True" m' q] m'(1) one in_progress_incomplete [OF g] by blast
    then show ?thesis using m' one same_http_bufsize by (auto simp: http_append_def)
  qed
qed

section \<open>Messages from a connection\<close>

lemma fresh_parser: "in_progress (http_parser_init resp parser0) k" if "int k < 2 ^ 62"
proof -
  have "case http_parser_append_message (\<lambda>_. True) (\<lambda>_. True) [] (http_parser_init True parser0) of UB \<Rightarrow> False | Ret x \<Rightarrow> fst x = 0"
    "case http_parser_append_message (\<lambda>_. True) (\<lambda>_. True) [] (http_parser_init False parser0) of UB \<Rightarrow> False | Ret x \<Rightarrow> fst x = 0"
    by code_simp+
  then have "\<exists>n q. http_parser_append_message (\<lambda>_. True) (\<lambda>_. True) [] (http_parser_init resp parser0) = Ret (0, n, q)"
    by (cases resp) (auto split: outcome.splits)
  moreover have "hp_inv (http_parser_init resp parser0)"
    by (simp add: hp_inv_def hp_base_def http_parser_init_def parser0_def len_ok_def)
  ultimately show ?thesis using that by (simp add: in_progress_def http_parser_init_def)
qed

text \<open>
  C31. The messages that the read handler delivers do not depend on the reads: when it takes the bytes in
  the pieces \<open>cs\<close> without an error, it takes them in one piece too, and delivers the same messages in the
  same order and keeps the same message in progress, up to the size of the buffer.
\<close>

theorem http_read_cut:
  assumes "handle_read http_append e (map DATA cs @ [R_AGAIN]) [] (replicate k (Some (http_parser_init resp parser0))) None
      = Some (Keep, out, new, cur)"
    "cs \<noteq> []" "\<forall>c\<in>set cs. c \<noteq> []" "int (length (concat cs)) < 2 ^ 62"
  shows "\<exists>out' cur'. handle_read http_append e [DATA (concat cs), R_AGAIN] [] (replicate k (Some (http_parser_init resp parser0))) None
      = Some (Keep, out', new, cur') \<and> list_all2 same_http out' out \<and> rel_option same_http cur' cur"
proof -
  have "http.goods (replicate k (Some (http_parser_init resp parser0))) None (length (concat cs))"
    using fresh_parser [OF assms(4)] by (auto simp: http.goods_def)
  from http.read_cut [OF assms(1-3) this] show ?thesis .
qed

text \<open>Two requests in three reads, cut within a line and behind the first request.\<close>

definition pieces :: "string list" where
  "pieces = [''GET / HT'', ''TP/1.1'' @ CRLF @ CRLF @ ''GET /b '', ''HTTP/1.1'' @ CRLF @ CRLF]"

theorem http_read_cut_witness:
  "\<exists>out new cur out' cur'.
     handle_read http_append P_EINVAL (map DATA pieces @ [R_AGAIN]) [] (replicate 2 (Some (http_parser_init False parser0))) None
       = Some (Keep, out, new, cur) \<and> length out = 2
     \<and> handle_read http_append P_EINVAL [DATA (concat pieces), R_AGAIN] [] (replicate 2 (Some (http_parser_init False parser0))) None
       = Some (Keep, out', new, cur') \<and> list_all2 same_http out' out"
proof -
  have "case handle_read http_append P_EINVAL (map DATA pieces @ [R_AGAIN]) [] (replicate 2 (Some (http_parser_init False parser0))) None of
      None \<Rightarrow> False | Some (v, out, _, _) \<Rightarrow> v = Keep \<and> length out = 2"
    by code_simp
  then obtain out new cur where r: "handle_read http_append P_EINVAL (map DATA pieces @ [R_AGAIN]) []
      (replicate 2 (Some (http_parser_init False parser0))) None = Some (Keep, out, new, cur)" "length out = 2"
    by (auto split: option.splits)
  have "pieces \<noteq> []" "\<forall>c\<in>set pieces. c \<noteq> []" "int (length (concat pieces)) < 2 ^ 62"
    by (simp_all add: pieces_def)
  from http_read_cut [OF r(1) this] r show ?thesis by blast
qed

end
