(* ===== verification/PollerLoop.thy ===== *)
theory PollerLoop
  imports PollerReach PollerIO
begin

text \<open>
  One round of \<open>__poller_thread_routine\<close>: the timer, the events with the verdicts of their handlers, the
  pipe, and the deadlines. In a reachable state a round returns, and it is a run of steps.
\<close>

fun handle_events :: "(nat \<times> verdict) list \<Rightarrow> poller \<Rightarrow> poller outcome option" where
  "handle_events [] st = Some (Ret st)"
| "handle_events ((n, v) # evs) st = obind (end_by v n st) (handle_events evs)"

text \<open>\<open>pipe\<close>: the number of pointers that are read when the pipe has an event. True: the thread ends.\<close>

definition thread_round ::
  "(nat \<times> verdict) list \<Rightarrow> nat option \<Rightarrow> timespec \<Rightarrow> poller \<Rightarrow> (bool \<times> poller) outcome option" where
  "thread_round evs pipe time st =
     obind (handle_events evs (set_timer st))
       (\<lambda>st1. case (case pipe of None \<Rightarrow> (False, st1) | Some k \<Rightarrow> handle_pipe k st1) of
                (True, st2) \<Rightarrow> Some (Ret (True, st2))
              | (False, st2) \<Rightarrow> obind (handle_timeout time st2) (\<lambda>st3. Some (Ret (False, st3))))"

lemma events_run:
  assumes "poller_run st added (map fst evs)"
  shows "\<exists>st'. handle_events evs st = Some (Ret st') \<and> poller_run st' added []"
  using assms
proof (induction evs arbitrary: st)
  case (Cons ev evs)
  obtain n v where ev: "ev = (n, v)" by (cases ev)
  then have r: "poller_run st added (n # map fst evs)" using Cons.prems by simp
  have "\<exists>st1. end_by v n st = Some (Ret st1) \<and> poller_run st1 added (map fst evs)"
  proof (cases v)
    case Keep
    then show ?thesis using run_keep [OF r] by (simp add: end_by_def)
  next
    case (End s e)
    obtain A where A: "run_inv st added (n # map fst evs) A" using run_inv_reachable [OF r] by blast
    obtain st1 where "finish_node n s e st = Some (Ret st1)" using inv_finish(1) [OF A] by blast
    then show ?thesis using run_finish [OF r] End by (auto simp: end_by_def)
  qed
  then show ?case using Cons.IH ev by auto
qed simp

lemma thread_round_run:
  assumes "poller_run st added []" "\<not> pl_stopped st" "distinct (map fst evs)" "\<forall>n\<in>set (map fst evs). \<exists>fd. pl_epoll st fd = Some n"
  shows "\<exists>stop st'. thread_round evs pipe time st = Some (Ret (stop, st')) \<and> poller_run st' added []"
proof -
  have t: "poller_run (set_timer st) added []" by (rule run_timer [OF assms(1)])
  have e: "pl_epoll (set_timer st) = pl_epoll st" "pl_stopped (set_timer st) = pl_stopped st"
    by (auto simp: set_timer_def set_timerfd_def Let_def)
  have "poller_run (set_timer st) added (map fst evs)" by (rule run_wait [OF t]) (use assms(2-4) e in auto)
  then obtain st1 where st1: "handle_events evs (set_timer st) = Some (Ret st1)" "poller_run st1 added []"
    using events_run by blast
  define r where "r = (case pipe of None \<Rightarrow> (False, st1) | Some k \<Rightarrow> handle_pipe k st1)"
  have r: "poller_run (snd r) added []" using st1(2) run_pipe by (simp add: r_def split: option.splits)
  obtain A where A: "run_inv (snd r) added [] A" using run_inv_reachable [OF r] by blast
  obtain xs where "valid_with (snd r) A xs" using run_invD(1) [OF A] by (rule valid_withE)
  then obtain st3 where st3: "handle_timeout time (snd r) = Some (Ret st3)" using handle_timeout_ok by blast
  have "thread_round evs pipe time st = (case r of (True, st2) \<Rightarrow> Some (Ret (True, st2))
      | (False, st2) \<Rightarrow> obind (handle_timeout time st2) (\<lambda>st3. Some (Ret (False, st3))))"
    using st1(1) by (simp add: thread_round_def r_def)
  then show ?thesis using r st3 run_timeout [OF r st3] by (cases r; cases "fst r") auto
qed

end
