(* ===== verification/Mpoller.thy ===== *)
theory Mpoller
  imports PollerReach
begin

text \<open>
  \<open>src/poller/mpoller.c\<close> and \<open>mpoller.h\<close>: an array of pollers over one table of nodes. A descriptor belongs to
  the poller of its remainder, timers go round. In the code the pollers share the array \<open>nodes_buf\<close>; here
  every poller has a table of its own, and the tables are shown to be disjoint, so that one array holds them all.
\<close>

section \<open>Operations\<close>

definition mpoller_index :: "nat \<Rightarrow> int \<Rightarrow> nat" where
  "mpoller_index n fd = nat (fd mod 2 ^ 32) mod n"

text \<open>The flags say which calls of \<open>__poller_create\<close> succeed; the second component is what was destroyed.\<close>

fun mpoller_create_loop :: "bool list \<Rightarrow> nat \<Rightarrow> poller \<Rightarrow> poller list \<Rightarrow> poller list option \<times> poller list" where
  "mpoller_create_loop oks 0 new ps = (Some ps, [])"
| "mpoller_create_loop [] (Suc n) new ps = (None, rev ps)"
| "mpoller_create_loop (ok # oks) (Suc n) new ps =
     (if ok then mpoller_create_loop oks n new (ps @ [new]) else (None, rev ps))"

definition mpoller_create :: "bool \<Rightarrow> bool \<Rightarrow> bool list \<Rightarrow> nat \<Rightarrow> nat \<Rightarrow> (nat \<Rightarrow> poller_node) \<Rightarrow> poller list option \<times> poller list" where
  "mpoller_create al al_nodes oks max_files nthreads junk =
     (if al \<and> al_nodes then mpoller_create_loop oks (if nthreads = 0 then 1 else nthreads) (poller_init max_files junk) [] else (None, []))"

text \<open>The operations on a descriptor; an index out of the array is \<open>UB\<close>.\<close>

definition on_poller :: "nat \<Rightarrow> (poller \<Rightarrow> poller_result) \<Rightarrow> poller list \<Rightarrow> (int \<times> poll_errno option \<times> poller list) outcome option" where
  "on_poller i f ps =
     (if i < length ps
      then obind (f (ps ! i)) (\<lambda>(ret, e, st). Some (Ret (ret, e, ps[i := st])))
      else Some UB)"

definition mpoller_add where
  "mpoller_add fd op msg timeout now ares node ctl ps =
     on_poller (mpoller_index (length ps) fd) (poller_add fd op msg timeout now ares node ctl) ps"

definition mpoller_mod where
  "mpoller_mod fd op msg timeout now ares node ctl ps =
     on_poller (mpoller_index (length ps) fd) (poller_mod fd op msg timeout now ares node ctl) ps"

definition mpoller_del where
  "mpoller_del fd ps = on_poller (mpoller_index (length ps) fd) (poller_del fd) ps"

definition mpoller_set_timeout where
  "mpoller_set_timeout fd timeout now ps = on_poller (mpoller_index (length ps) fd) (poller_set_timeout fd timeout now) ps"

text \<open>\<open>cnt\<close> is the static counter, which wraps.\<close>

definition mpoller_add_timer where
  "mpoller_add_timer v now node cnt ps =
     (map_option (\<lambda>r. (r, (cnt + 1) mod 2 ^ 32 :: nat)) (on_poller (cnt mod length ps) (poller_add_timer v now node) ps))"

text \<open>Starting stops the pollers that were started when one fails.\<close>

fun start_loop :: "((int \<times> int) option \<times> bool) list \<Rightarrow> nat \<Rightarrow> poller list \<Rightarrow> nat option \<times> poller list" where
  "start_loop [] i ps = (None, ps)"
| "start_loop ((fds, th) # as) i ps =
     (if i < length ps then
        (case poller_start fds th (ps ! i) of
           (ret, st) \<Rightarrow> if ret < 0 then (Some i, ps[i := st]) else start_loop as (Suc i) (ps[i := st]))
      else (None, ps))"

fun stop_down :: "nat \<Rightarrow> poller list \<Rightarrow> poller list outcome option" where
  "stop_down 0 ps = Some (Ret ps)"
| "stop_down (Suc i) ps = obind (poller_stop (ps ! i)) (\<lambda>st. stop_down i (ps[i := st]))"

definition mpoller_start :: "((int \<times> int) option \<times> bool) list \<Rightarrow> poller list \<Rightarrow> (int \<times> poller list) outcome option" where
  "mpoller_start as ps =
     (case start_loop as 0 ps of
        (None, ps1) \<Rightarrow> Some (Ret (0, ps1))
      | (Some i, ps1) \<Rightarrow> obind (stop_down i ps1) (\<lambda>ps2. Some (Ret (-1, ps2))))"

fun stop_up :: "nat \<Rightarrow> nat \<Rightarrow> poller list \<Rightarrow> poller list outcome option" where
  "stop_up 0 i ps = Some (Ret ps)"
| "stop_up (Suc k) i ps = obind (poller_stop (ps ! i)) (\<lambda>st. stop_up k (Suc i) (ps[i := st]))"

definition mpoller_stop :: "poller list \<Rightarrow> poller list outcome option" where
  "mpoller_stop ps = stop_up (length ps) 0 ps"

section \<open>Every descriptor has one poller\<close>

text \<open>\<open>addeds\<close> are the nodes that each poller got so far.\<close>

definition sharded :: "poller list \<Rightarrow> nat set list \<Rightarrow> bool" where
  "sharded ps addeds \<longleftrightarrow> ps \<noteq> [] \<and> length addeds = length ps \<and> (\<forall>i<length ps. \<exists>evs. poller_run (ps ! i) (addeds ! i) evs)
     \<and> (\<forall>i<length ps. \<forall>fd n. pl_nodes (ps ! i) fd = Some n \<longrightarrow> mpoller_index (length ps) fd = i)"

definition new_to_all :: "nat option \<Rightarrow> nat set list \<Rightarrow> bool" where
  "new_to_all node addeds \<longleftrightarrow> (\<forall>added\<in>set addeds. fresh node added)"

lemma index_less: "ps \<noteq> [] \<Longrightarrow> mpoller_index (length ps) fd < length ps"
  by (simp add: mpoller_index_def)

lemma sharded_update:
  assumes "sharded ps addeds" "i < length ps" "poller_run st added evs"
    "\<And>fd n. pl_nodes st fd = Some n \<Longrightarrow> pl_nodes (ps ! i) fd \<noteq> None \<or> mpoller_index (length ps) fd = i"
  shows "sharded (ps[i := st]) (addeds[i := added])"
  unfolding sharded_def length_list_update
proof (intro conjI allI impI)
  show "ps[i := st] \<noteq> []" "length addeds = length ps" using assms(1) by (auto simp: sharded_def)
next
  fix j assume "j < length ps"
  then show "\<exists>evs. poller_run (ps[i := st] ! j) (addeds[i := added] ! j) evs"
    using assms(1,3) by (cases "j = i") (auto simp: sharded_def)
next
  fix j fd n assume j: "j < length ps" "pl_nodes (ps[i := st] ! j) fd = Some n"
  show "mpoller_index (length ps) fd = j"
  proof (cases "j = i")
    case True
    then have "pl_nodes (ps ! i) fd \<noteq> None \<or> mpoller_index (length ps) fd = i" using assms(4) j by auto
    then show ?thesis using assms(1,2) True unfolding sharded_def by (metis option.exhaust)
  next
    case False
    then show ?thesis using assms(1) j by (simp add: sharded_def)
  qed
qed

lemma sharded_create:
  assumes "0 < k" "m \<le> 2 ^ 63"
  shows "sharded (replicate k (poller_init m junk)) (replicate k {})"
proof -
  have "poller_run (poller_init m junk) {} []" using assms(2) by (rule run_create)
  moreover have "pl_nodes (poller_init m junk) fd = None" for fd by (simp add: poller_init_def)
  ultimately show ?thesis using assms(1) by (auto simp: sharded_def)
qed

lemma shrunk_nodes:
  assumes "run_inv st added evs A" "valid st' A'" "kept {} st st'" "A' \<subseteq> A" "pl_nodes st' f = Some n"
  shows "pl_nodes st f \<noteq> None"
  using pipe_fds [OF run_invD(1) [OF assms(1)] assms(2,3)] assms(4,5) by force

text \<open>The poller of a descriptor, and what it is to work on it.\<close>

lemma shard_run:
  assumes "sharded ps addeds"
  obtains added evs A where "poller_run (ps ! mpoller_index (length ps) fd) added evs" "added \<in> set addeds"
    "run_inv (ps ! mpoller_index (length ps) fd) added evs A" "mpoller_index (length ps) fd < length ps"
proof -
  have i: "mpoller_index (length ps) fd < length ps" using assms index_less by (auto simp: sharded_def)
  then obtain evs where r: "poller_run (ps ! mpoller_index (length ps) fd) (addeds ! mpoller_index (length ps) fd) evs"
    using assms by (auto simp: sharded_def)
  have "addeds ! mpoller_index (length ps) fd \<in> set addeds" using i assms by (simp add: sharded_def)
  then show ?thesis using run_inv_reachable [OF r] r i that by blast
qed

text \<open>
  Over all operations on descriptors, the pollers stay reachable states, and a descriptor is only ever
  in the table of the poller of its remainder: a call for it reaches the poller that holds it, no index
  leaves the array, the calls return, and the tables of two pollers are disjoint, so that they fit into one array.
\<close>

theorem mpoller_shards:
  assumes "sharded ps addeds" "user_fd fd (ps ! mpoller_index (length ps) fd)" "clock_ok now" "new_to_all node addeds"
  shows "(\<exists>ret e ps'. mpoller_add fd op msg timeout now ares node ctl ps = Some (Ret (ret, e, ps')) \<and> (\<exists>addeds'. sharded ps' addeds')
      \<and> (ret = 0 \<longrightarrow> pl_nodes (ps' ! mpoller_index (length ps') fd) fd = node))
    \<and> (\<exists>ret e ps'. mpoller_mod fd op msg timeout now ares node ctl ps = Some (Ret (ret, e, ps')) \<and> (\<exists>addeds'. sharded ps' addeds')
      \<and> (ret = 0 \<longrightarrow> pl_nodes (ps' ! mpoller_index (length ps') fd) fd = node))
    \<and> (\<exists>ret e ps'. mpoller_del fd ps = Some (Ret (ret, e, ps')) \<and> (\<exists>addeds'. sharded ps' addeds'))
    \<and> (\<exists>ret e ps'. mpoller_set_timeout fd timeout now ps = Some (Ret (ret, e, ps')) \<and> (\<exists>addeds'. sharded ps' addeds'))
    \<and> (\<forall>i<length ps. \<forall>j<length ps. \<forall>f. i \<noteq> j \<longrightarrow> pl_nodes (ps ! i) f = None \<or> pl_nodes (ps ! j) f = None)"
proof -
  let ?i = "mpoller_index (length ps) fd"
  obtain added evs A where r: "poller_run (ps ! ?i) added evs" "run_inv (ps ! ?i) added evs A" "?i < length ps" "added \<in> set addeds"
    using shard_run [OF assms(1)] by blast
  have fr: "fresh node added" using assms(4) r(4) by (auto simp: new_to_all_def)
  note i = run_invD [OF r(2)] and un = fresh_unknown [OF r(2) fr]
  have fd: "is_int fd" using assms(2) by (simp add: user_fd_def)
  obtain ret e st where a: "poller_add fd op msg timeout now ares node ctl (ps ! ?i) = Some (Ret (ret, e, st))"
      "ret = -1 \<and> st = ps ! ?i \<or> ret = 0 \<and> (\<exists>n. node = Some n \<and> pl_nodes st = (pl_nodes (ps ! ?i))(fd := Some n))"
    using poller_add_ok [OF i(1) fd assms(3), of node op msg timeout ares ctl] un by blast
  have "\<exists>addeds'. sharded (ps[?i := st]) addeds'"
    by (rule exI, rule sharded_update [OF assms(1) r(3) run_add [OF r(1) assms(2,3) fr a(1)]]) (use a(2) in \<open>auto split: if_splits\<close>)
  then have add: "\<exists>ret e ps'. mpoller_add fd op msg timeout now ares node ctl ps = Some (Ret (ret, e, ps')) \<and> (\<exists>addeds'. sharded ps' addeds')
      \<and> (ret = 0 \<longrightarrow> pl_nodes (ps' ! mpoller_index (length ps') fd) fd = node)"
    using a r(3) by (intro exI [of _ ret] exI [of _ e] exI [of _ "ps[?i := st]"]) (auto simp: mpoller_add_def on_poller_def)
  obtain ret2 e2 st2 where m: "poller_mod fd op msg timeout now ares node ctl (ps ! ?i) = Some (Ret (ret2, e2, st2))"
      "ret2 = -1 \<and> st2 = ps ! ?i \<or> ret2 = 0 \<and> (\<exists>n. node = Some n \<and> pl_nodes st2 = (pl_nodes (ps ! ?i))(fd := Some n))"
    using poller_mod_ok [OF i(1) fd assms(3), of node op msg timeout ares ctl] un by blast
  have "\<exists>addeds'. sharded (ps[?i := st2]) addeds'"
    by (rule exI, rule sharded_update [OF assms(1) r(3) run_mod [OF r(1) assms(2,3) fr m(1)]]) (use m(2) in \<open>auto split: if_splits\<close>)
  then have mdf: "\<exists>ret e ps'. mpoller_mod fd op msg timeout now ares node ctl ps = Some (Ret (ret, e, ps')) \<and> (\<exists>addeds'. sharded ps' addeds')
      \<and> (ret = 0 \<longrightarrow> pl_nodes (ps' ! mpoller_index (length ps') fd) fd = node)"
    using m r(3) by (intro exI [of _ ret2] exI [of _ e2] exI [of _ "ps[?i := st2]"]) (auto simp: mpoller_mod_def on_poller_def)
  obtain ret3 e3 st3 A3 where d: "poller_del fd (ps ! ?i) = Some (Ret (ret3, e3, st3))" "valid st3 A3" "A3 \<subseteq> A" "kept {} (ps ! ?i) st3"
    using poller_del_ok [OF i(1), of fd] i(1) kept_refl by blast
  have "\<exists>addeds'. sharded (ps[?i := st3]) addeds'"
    by (rule exI, rule sharded_update [OF assms(1) r(3) run_del [OF r(1) d(1)]]) (use shrunk_nodes [OF r(2) d(2,4,3)] in blast)
  then have del: "\<exists>ret e ps'. mpoller_del fd ps = Some (Ret (ret, e, ps')) \<and> (\<exists>addeds'. sharded ps' addeds')"
    using d(1) r(3) by (auto simp: mpoller_del_def on_poller_def)
  obtain ret4 e4 st4 where t: "poller_set_timeout fd timeout now (ps ! ?i) = Some (Ret (ret4, e4, st4))" "valid st4 A" "kept {} (ps ! ?i) st4"
    using poller_set_timeout_ok [OF i(1) assms(3), of fd timeout] by blast
  have "\<exists>addeds'. sharded (ps[?i := st4]) addeds'"
    by (rule exI, rule sharded_update [OF assms(1) r(3) run_set_timeout [OF r(1) assms(3) t(1)]])
      (use shrunk_nodes [OF r(2) t(2,3) subset_refl] in blast)
  then have tmo: "\<exists>ret e ps'. mpoller_set_timeout fd timeout now ps = Some (Ret (ret, e, ps')) \<and> (\<exists>addeds'. sharded ps' addeds')"
    using t(1) r(3) by (auto simp: mpoller_set_timeout_def on_poller_def)
  have "\<forall>i<length ps. \<forall>j<length ps. \<forall>f. i \<noteq> j \<longrightarrow> pl_nodes (ps ! i) f = None \<or> pl_nodes (ps ! j) f = None"
    using assms(1) unfolding sharded_def by (metis option.exhaust)
  then show ?thesis using add mdf del tmo by blast
qed

theorem mpoller_shards_witness:
  "\<exists>ret e ps'. mpoller_add 5 PD_OP_READ False 1000 now_0 False (Some 9) True [started, started] = Some (Ret (ret, e, ps'))
    \<and> (ret = 0 \<longrightarrow> pl_nodes (ps' ! mpoller_index (length ps') 5) 5 = Some 9)"
proof -
  have i: "mpoller_index (length [started, started]) 5 = 1" by (simp add: mpoller_index_def numeral_2_eq_2 [symmetric])
  have "pl_nodes started fd = None" "user_fd 5 started" for fd
    by (simp_all add: user_fd_def is_int_def started_def poller_start_def poller_init_def)
  then have "sharded [started, started] [{}, {}]" "user_fd 5 ([started, started] ! mpoller_index (length [started, started]) 5)"
    using started_run unfolding i by (auto simp: sharded_def less_Suc_eq)
  moreover have "clock_ok now_0" "new_to_all (Some 9) [{}, {}]" by (simp_all add: clock_ok_def now_0_def new_to_all_def fresh_def)
  ultimately show ?thesis using mpoller_shards [of "[started, started]" "[{}, {}]" 5 now_0 "Some 9" PD_OP_READ False 1000 False True] by blast
qed

end
