(* ===== verification/StringUtil.thy ===== *)
theory StringUtil
  imports CString
begin

text \<open>
  \<open>src/util/StringUtil.cc\<close>: percent decoding in place, percent encoding, splitting,
  stripping and the prefix test. Decoding works on one buffer through a read and a write
  position; \<open>url_decode_buf_refines\<close> shows that the aliasing is harmless, and
  \<open>url_decode_encode\<close> that decoding undoes both encoders on every byte string.
\<close>

section \<open>Percent coding\<close>

definition htoi_digit :: "char \<Rightarrow> nat" where
  "htoi_digit c0 =
     (let c = tolower c0 in
      if 48 \<le> code c \<and> code c \<le> 57 then code c - 48 else code c - 97 + 10)"

definition htoi :: "char \<Rightarrow> char \<Rightarrow> nat" where
  "htoi s0 s1 = htoi_digit s0 * 16 + htoi_digit s1"

definition itoh :: "nat \<Rightarrow> char" where
  "itoh n = (if n > 9 then char_of (n - 10 + 65) else char_of (n + 48))"

text \<open>
  The loop of \<open>StringUtil::url_decode(char *, size_t)\<close>: \<open>dest\<close> and \<open>data\<close> are positions in
  the one buffer, the last argument is \<open>len\<close>. The result is the buffer and \<open>dest - str\<close>.
\<close>

fun url_decode_loop :: "string \<Rightarrow> nat \<Rightarrow> nat \<Rightarrow> nat \<Rightarrow> string \<times> nat" where
  "url_decode_loop buf dest data 0 = (buf[dest := NUL], dest)"
| "url_decode_loop buf dest data (Suc len) =
     (if buf ! data = CHR ''%'' \<and> 2 \<le> len
         \<and> isxdigit (buf ! (data + 1)) \<and> isxdigit (buf ! (data + 2))
      then url_decode_loop
             (buf[dest := char_of (htoi (buf ! (data + 1)) (buf ! (data + 2)))])
             (dest + 1) (data + 3) (len - 2)
      else if buf ! data = CHR ''+''
      then url_decode_loop (buf[dest := SP]) (dest + 1) (data + 1) len
      else url_decode_loop (buf[dest := buf ! data]) (dest + 1) (data + 1) len)"

definition url_decode_buf :: "string \<Rightarrow> nat \<Rightarrow> string \<times> nat" where
  "url_decode_buf buf len = url_decode_loop buf 0 0 len"

text \<open>\<open>StringUtil::url_decode(std::string&)\<close>: the buffer holds the terminator too.\<close>

definition url_decode :: "string \<Rightarrow> string" where
  "url_decode str =
     (if str = [] then str
      else let (buf, sz) = url_decode_buf (str @ [NUL]) (length str) in take sz buf)"

definition unreserved :: "char \<Rightarrow> bool" where
  "unreserved c \<longleftrightarrow> isalnum c \<or> c \<in> set ''-_.!~*()'' \<or> c = CHR 0x27"

definition enc_safe :: "char \<Rightarrow> bool" where
  "enc_safe c \<longleftrightarrow> unreserved c \<or> c \<in> set '':/@?#&''"

definition percent :: "char \<Rightarrow> string" where
  "percent c = [CHR ''%'', itoh (code c div 16), itoh (code c mod 16)]"

fun url_encode_loop :: "(char \<Rightarrow> bool) \<Rightarrow> string \<Rightarrow> string \<Rightarrow> string" where
  "url_encode_loop keep res [] = res"
| "url_encode_loop keep res (c # cur) =
     url_encode_loop keep
       (if c = SP then res @ [CHR ''+''] else if keep c then res @ [c] else res @ percent c) cur"

definition url_encode :: "string \<Rightarrow> string" where
  "url_encode str = url_encode_loop enc_safe [] str"

definition url_encode_component :: "string \<Rightarrow> string" where
  "url_encode_component str = url_encode_loop unreserved [] str"

section \<open>Splitting and stripping\<close>

function str_split_loop :: "char \<Rightarrow> string list \<Rightarrow> string \<Rightarrow> string list" where
  "str_split_loop sep res start =
     (case dropWhile (\<lambda>c. c \<noteq> sep) start of
        [] \<Rightarrow> res @ [takeWhile (\<lambda>c. c \<noteq> sep) start]
      | _ # rest \<Rightarrow> str_split_loop sep (res @ [takeWhile (\<lambda>c. c \<noteq> sep) start]) rest)"
  by pat_completeness auto
termination
  by (relation "measure (\<lambda>(sep, res, start). length start)")
    (auto simp: length_dropWhile_less)

definition str_split :: "string \<Rightarrow> char \<Rightarrow> string list" where
  "str_split str sep = str_split_loop sep [] str"

definition push_nonempty :: "string list \<Rightarrow> string \<Rightarrow> string list" where
  "push_nonempty res s = (if 0 < length s then res @ [s] else res)"

function split_filter_loop :: "char \<Rightarrow> string list \<Rightarrow> string \<Rightarrow> string list" where
  "split_filter_loop sep res start =
     (case dropWhile (\<lambda>c. c \<noteq> sep) start of
        [] \<Rightarrow> push_nonempty res (takeWhile (\<lambda>c. c \<noteq> sep) start)
      | _ # rest \<Rightarrow>
          split_filter_loop sep (push_nonempty res (takeWhile (\<lambda>c. c \<noteq> sep) start)) rest)"
  by pat_completeness auto
termination
  by (relation "measure (\<lambda>(sep, res, start). length start)")
    (auto simp: length_dropWhile_less)

definition split_filter_empty :: "string \<Rightarrow> char \<Rightarrow> string list" where
  "split_filter_empty str sep = split_filter_loop sep [] str"

text \<open>
  \<open>strip\<close> moves \<open>st\<close> up and \<open>ed\<close> down over white space; \<open>ed\<close> may drop below \<open>st\<close>, so
  both are \<open>int\<close>.
\<close>

function strip_st :: "string \<Rightarrow> int \<Rightarrow> int \<Rightarrow> int" where
  "strip_st s st ed =
     (if st \<le> ed then if \<not> isspace (s ! nat st) then st else strip_st s (st + 1) ed else st)"
  by pat_completeness auto
termination
  by (relation "measure (\<lambda>(s, st, ed). nat (ed - st + 1))") auto

function strip_ed :: "string \<Rightarrow> int \<Rightarrow> int \<Rightarrow> int" where
  "strip_ed s st ed =
     (if st \<le> ed then if \<not> isspace (s ! nat ed) then ed else strip_ed s st (ed - 1) else ed)"
  by pat_completeness auto
termination
  by (relation "measure (\<lambda>(s, st, ed). nat (ed - st + 1))") auto

definition strip :: "string \<Rightarrow> string" where
  "strip str =
     (if str = [] then []
      else let st = strip_st str 0 (int (length str) - 1);
               ed = strip_ed str st (int (length str) - 1)
           in if st \<le> ed then take (nat (ed - st + 1)) (drop (nat st) str) else [])"

fun start_with_loop :: "string \<Rightarrow> string \<Rightarrow> nat \<Rightarrow> nat \<Rightarrow> bool" where
  "start_with_loop str prefix i 0 = True"
| "start_with_loop str prefix i (Suc k) =
     (if str ! i \<noteq> prefix ! i then False else start_with_loop str prefix (i + 1) k)"

definition start_with :: "string \<Rightarrow> string \<Rightarrow> bool" where
  "start_with str prefix =
     (if length str < length prefix then False
      else start_with_loop str prefix 0 (length prefix))"

declare str_split_loop.simps [simp del] split_filter_loop.simps [simp del]
  strip_st.simps [simp del] strip_ed.simps [simp del]

section \<open>Decoding in place\<close>

text \<open>The function the loop computes, on the bytes not read yet.\<close>

fun decoded :: "string \<Rightarrow> string" where
  "decoded [] = []"
| "decoded (c # cs) =
     (if c = CHR ''%'' \<and> 2 \<le> length cs \<and> isxdigit (cs ! 0) \<and> isxdigit (cs ! 1)
      then char_of (htoi (cs ! 0) (cs ! 1)) # decoded (drop 2 cs)
      else if c = CHR ''+'' then SP # decoded cs else c # decoded cs)"

lemma length_decoded_le: "length (decoded s) \<le> length s"
proof (induction s rule: decoded.induct)
  case (2 c cs)
  have "length (decoded (drop 2 cs)) \<le> length cs - 2"
    if "c = CHR ''%''" "2 \<le> length cs" "isxdigit (cs ! 0)" "isxdigit (cs ! 1)"
    using 2(1) that by simp
  with 2 show ?case by (auto simp: le_diff_conv2)
qed simp

text \<open>
  The loop never reads a byte it has written: the write position stays at or below the
  read position, so the bytes from \<open>data\<close> on are those of the input.
\<close>

lemma take_update_snoc: "d < length b \<Longrightarrow> take (d + 1) (b[d := v]) = take d b @ [v]"
  by (simp add: take_Suc_conv_app_nth)

lemma url_decode_loop_spec:
  assumes "dest \<le> data" "data + len < length buf"
    and "url_decode_loop buf dest data len = (b, n)"
  shows "take n b = take dest buf @ decoded (take len (drop data buf)) \<and>
         n = dest + length (decoded (take len (drop data buf))) \<and>
         b ! n = NUL \<and> length b = length buf"
  using assms
proof (induction buf dest data len rule: url_decode_loop.induct)
  case (1 buf dest data)
  then show ?case by auto
next
  case (2 buf dest data len)
  let ?cs = "take len (drop (Suc data) buf)"
  have T: "take (Suc len) (drop data buf) = buf ! data # ?cs"
    using "2.prems"(2) by (simp add: Cons_nth_drop_Suc [symmetric])
  have two: "2 \<le> len \<Longrightarrow> ?cs ! 0 = buf ! (data + 1) \<and> ?cs ! 1 = buf ! (data + 2)
      \<and> drop 2 ?cs = take (len - 2) (drop (data + 3) buf)"
    using "2.prems"(2) by (simp add: drop_take numeral_3_eq_3)
  have len: "length ?cs = len"
    using "2.prems"(2) by simp
  have snoc: "take (Suc dest) (buf[dest := v]) = take dest buf @ [v]" for v
    using take_update_snoc [of dest buf v] "2.prems" by simp
  show ?case
  proof (cases "buf ! data = CHR ''%'' \<and> 2 \<le> len
         \<and> isxdigit (buf ! (data + 1)) \<and> isxdigit (buf ! (data + 2))")
    case True
    let ?v = "char_of (htoi (buf ! (data + 1)) (buf ! (data + 2)))"
    have d: "decoded (buf ! data # ?cs) = ?v # decoded (drop 2 ?cs)"
      using True two len by simp
    have r: "url_decode_loop (buf[dest := ?v]) (dest + 1) (data + 3) (len - 2) = (b, n)"
      using "2.prems"(3) True by simp
    have "take (len - 2) (drop (data + 3) (buf[dest := ?v])) = drop 2 ?cs"
      using True two "2.prems"(1) by simp
    with "2.IH"(1) [OF True _ _ r] "2.prems" True show ?thesis
      unfolding T d by (auto simp: snoc)
  next
    case F: False
    have d: "decoded (buf ! data # ?cs) = (if buf ! data = CHR ''+'' then SP else buf ! data) # decoded ?cs"
      using F two len by auto
    show ?thesis
    proof (cases "buf ! data = CHR ''+''")
      case True
      then have r: "url_decode_loop (buf[dest := SP]) (dest + 1) (data + 1) len = (b, n)"
        using "2.prems"(3) F True by simp
      have "take len (drop (data + 1) (buf[dest := SP])) = ?cs"
        using "2.prems"(1) by simp
      with "2.IH"(2) [OF F True _ _ r] "2.prems" True show ?thesis
        unfolding T d by (auto simp: snoc)
    next
      case False
      then have r: "url_decode_loop (buf[dest := buf ! data]) (dest + 1) (data + 1) len = (b, n)"
        using "2.prems"(3) by (simp only: url_decode_loop.simps if_not_P [OF F] if_not_P [OF False] if_False False)
      have "take len (drop (data + 1) (buf[dest := buf ! data])) = ?cs"
        using "2.prems"(1) by simp
      with "2.IH"(3) [OF F False _ _ r] "2.prems" False show ?thesis
        unfolding T d by (auto simp: snoc)
    qed
  qed
qed

lemma url_decode_eq: "url_decode str = decoded str"
proof (cases "str = []")
  case False
  obtain b n where r: "url_decode_loop (str @ [NUL]) 0 0 (length str) = (b, n)"
    by fastforce
  from url_decode_loop_spec [OF _ _ r] have "take n b = decoded str"
    by auto
  with False show ?thesis
    by (simp add: url_decode_def url_decode_buf_def r)
qed (simp add: url_decode_def)

section \<open>Decoding undoes encoding\<close>

lemma code_itoh: "n < 16 \<Longrightarrow> (code (itoh n) :: nat) = (if 9 < n then n + 55 else n + 48)"
  by (auto simp: itoh_def)

lemma isxdigit_itoh: "n < 16 \<Longrightarrow> isxdigit (itoh n)"
  by (auto simp: isxdigit_def isdigit_def code_itoh)

lemma htoi_digit_itoh: "n < 16 \<Longrightarrow> htoi_digit (itoh n) = n"
  by (auto simp: htoi_digit_def code_tolower code_itoh isupper_def Let_def)

lemma decoded_percent:
  "decoded (percent c @ s) = c # decoded s"
proof -
  have "(code c :: nat) div 16 < 16"
    using nat_of_char_less_256 [of c] by (simp only: less_mult_imp_div_less)
  moreover have "(code c :: nat) mod 16 < 16"
    by simp
  ultimately show ?thesis
    by (simp add: percent_def isxdigit_itoh htoi_def htoi_digit_itoh)
qed

lemma url_encode_loop_acc:
  "url_encode_loop keep (r @ res) s = r @ url_encode_loop keep res s"
proof (induction s arbitrary: res)
  case (Cons c s)
  show ?case
    using Cons.IH [of "res @ [CHR ''+'']"] Cons.IH [of "res @ [c]"] Cons.IH [of "res @ percent c"]
    by simp
qed simp

lemma url_encode_loop_append:
  "url_encode_loop keep res s = res @ url_encode_loop keep [] s"
  using url_encode_loop_acc [of keep res "[]" s] by simp

lemma decoded_plain:
  "c \<noteq> CHR ''%'' \<Longrightarrow> c \<noteq> CHR ''+'' \<Longrightarrow> decoded (c # s) = c # decoded s"
  by simp

lemma decoded_encode_loop:
  assumes "\<not> keep (CHR ''%'')" "\<not> keep (CHR ''+'')"
  shows "decoded (url_encode_loop keep [] s) = s"
proof (induction s)
  case (Cons c s)
  show ?case
  proof (cases "c = SP")
    case True
    have "url_encode_loop keep [] (c # s) = CHR ''+'' # url_encode_loop keep [] s"
      using url_encode_loop_append [of keep "[CHR ''+'']" s] True by simp
    then show ?thesis using Cons True by simp
  next
    case F: False
    show ?thesis
    proof (cases "keep c")
      case True
      have "url_encode_loop keep [] (c # s) = c # url_encode_loop keep [] s"
        using url_encode_loop_append [of keep "[c]" s] True F by simp
      moreover have "c \<noteq> CHR ''%''" "c \<noteq> CHR ''+''"
        using assms True by auto
      ultimately show ?thesis
        using Cons by simp
    next
      case False
      have "url_encode_loop keep [] (c # s) = percent c @ url_encode_loop keep [] s"
        using url_encode_loop_append [of keep "percent c" s] False F by simp
      then show ?thesis
        using Cons by (simp only: decoded_percent)
    qed
  qed
qed simp

lemma not_unreserved_special [simp]:
  "\<not> unreserved (CHR ''%'')" "\<not> unreserved (CHR ''+'')"
  "\<not> enc_safe (CHR ''%'')" "\<not> enc_safe (CHR ''+'')"
  by (simp_all add: unreserved_def enc_safe_def isalnum_def isdigit_def isupper_def islower_def)

text \<open>
  C37. Percent decoding undoes both encoders: for every byte string (NUL bytes and bytes
  above 127 included), running the in-place decoder over the output of
  \<open>url_encode_component\<close>, or of \<open>url_encode\<close>, gives the string back.
\<close>

theorem url_decode_encode:
  "url_decode (url_encode_component s) = s \<and> url_decode (url_encode s) = s"
  by (simp add: url_decode_eq url_encode_component_def url_encode_def decoded_encode_loop)

text \<open>
  Decoding in one buffer is safe and equals the functional decoder: whatever the
  buffer holds behind the string, the bytes before the returned length are the decoded
  bytes, the result is terminated, its length is at most the input's, and the buffer
  does not grow.
\<close>

theorem url_decode_buf_refines:
  assumes "len < length buf" and "url_decode_buf buf len = (b, n)"
  shows "take n b = decoded (take len buf) \<and> n = length (decoded (take len buf))
    \<and> b ! n = NUL \<and> n \<le> len \<and> length b = length buf"
proof -
  have "url_decode_loop buf 0 0 len = (b, n)"
    using assms(2) by (simp add: url_decode_buf_def)
  from url_decode_loop_spec [OF _ _ this] assms(1) length_decoded_le [of "take len buf"]
  show ?thesis by auto
qed

theorem url_decode_buf_refines_witness:
  "fst (url_decode_buf (''a%2Fb+c'' @ [NUL]) 7) ! 5 = NUL \<and>
   take 5 (fst (url_decode_buf (''a%2Fb+c'' @ [NUL]) 7)) = ''a/b c''"
proof -
  obtain b n where r: "url_decode_buf (''a%2Fb+c'' @ [NUL]) 7 = (b, n)"
    by fastforce
  have d: "decoded (take 7 (''a%2Fb+c'' @ [NUL])) = ''a/b c''"
    by code_simp
  have "take n b = ''a/b c''" "n = 5" "b ! n = NUL"
    using url_decode_buf_refines [OF _ r] unfolding d by auto
  then show ?thesis
    unfolding r by simp
qed

section \<open>Splitting\<close>

lemma str_split_loop_acc:
  "str_split_loop sep (r @ res) s = r @ str_split_loop sep res s"
proof (induction "length s" arbitrary: s res rule: less_induct)
  case less
  show ?case
  proof (cases "dropWhile (\<lambda>c. c \<noteq> sep) s")
    case Nil
    then show ?thesis
      by (simp only: str_split_loop.simps [of _ _ s] list.case append_assoc)
  next
    case (Cons x rest)
    then show ?thesis
      using less [OF length_dropWhile_less [OF Cons]]
      by (simp only: str_split_loop.simps [of _ _ s] list.case append_assoc)
  qed
qed

lemma str_split_unfold:
  "str_split s sep =
     (case dropWhile (\<lambda>c. c \<noteq> sep) s of
        [] \<Rightarrow> [takeWhile (\<lambda>c. c \<noteq> sep) s]
      | _ # rest \<Rightarrow> takeWhile (\<lambda>c. c \<noteq> sep) s # str_split rest sep)"
  using str_split_loop_acc [of sep "[takeWhile (\<lambda>c. c \<noteq> sep) s]" "[]"]
  unfolding str_split_def by (subst str_split_loop.simps) (simp split: list.split del: dropWhile_eq_Nil_conv)

lemma str_split_Nil [simp]: "str_split [] sep = [[]]"
  by (simp add: str_split_unfold [of "[]"])

lemma str_split_sep [simp]: "str_split (sep # s) sep = [] # str_split s sep"
  by (simp add: str_split_unfold [of "sep # s"])

lemma str_split_Cons:
  "c \<noteq> sep \<Longrightarrow> str_split (c # s) sep = (c # hd (str_split s sep)) # tl (str_split s sep)"
  unfolding str_split_unfold [of "c # s"] str_split_unfold [of s]
  by (simp split: list.split del: dropWhile_eq_Nil_conv)

lemma str_split_ne [simp]: "str_split s sep \<noteq> []"
  unfolding str_split_unfold [of s] by (simp split: list.split del: dropWhile_eq_Nil_conv)

text \<open>Joining with the separator, the inverse of splitting.\<close>

fun join :: "char \<Rightarrow> string list \<Rightarrow> string" where
  "join sep [] = []"
| "join sep [p] = p"
| "join sep (p # q # ps) = p @ sep # join sep (q # ps)"

lemma join_Cons: "ps \<noteq> [] \<Longrightarrow> join sep (p # ps) = p @ sep # join sep ps"
  by (cases ps) auto

lemma join_cons_hd: "ps \<noteq> [] \<Longrightarrow> join sep ((c # hd ps) # tl ps) = c # join sep ps"
  by (cases ps; cases "tl ps") auto

lemma join_str_split: "join sep (str_split s sep) = s"
proof (induction s)
  case (Cons c s)
  then show ?case
    by (cases "c = sep") (simp_all add: join_Cons str_split_Cons join_cons_hd)
qed simp

lemma sep_notin_str_split: "p \<in> set (str_split s sep) \<Longrightarrow> sep \<notin> set p"
proof (induction s arbitrary: p)
  case (Cons c s)
  show ?case
  proof (cases "c = sep")
    case True
    with Cons show ?thesis by auto
  next
    case False
    with Cons show ?thesis
      by (auto simp: str_split_Cons dest: list.set_sel(2) [rotated])
  qed
qed simp

lemma str_split_join:
  "ps \<noteq> [] \<Longrightarrow> \<forall>p\<in>set ps. sep \<notin> set p \<Longrightarrow> str_split (join sep ps) sep = ps"
proof (induction ps rule: list_nonempty_induct)
  case (single p)
  then have "dropWhile (\<lambda>c. c \<noteq> sep) p = []" "takeWhile (\<lambda>c. c \<noteq> sep) p = p"
    by (auto simp: takeWhile_eq_all_conv)
  then show ?case
    by (simp add: str_split_unfold [of p] del: dropWhile_eq_Nil_conv)
next
  case (cons p ps)
  then have "\<forall>c\<in>set p. c \<noteq> sep" by auto
  then show ?case
    using cons
    by (simp add: str_split_unfold [of "p @ sep # join sep ps"] join_Cons
        takeWhile_all_append dropWhile_all_append)
qed

text \<open>
  Splitting is the inverse of joining: the pieces of \<open>str_split\<close> hold no separator
  and join to the string, there is one more piece than separators, and any non-empty list
  of separator-free pieces is what splitting its join returns.
\<close>

theorem str_split_correct:
  "join sep (str_split s sep) = s
   \<and> (\<forall>p\<in>set (str_split s sep). sep \<notin> set p)
   \<and> length (str_split s sep) = count_list s sep + 1
   \<and> (\<forall>ps. ps \<noteq> [] \<longrightarrow> (\<forall>p\<in>set ps. sep \<notin> set p) \<longrightarrow> str_split (join sep ps) sep = ps)"
proof -
  have "length (str_split s sep) = count_list s sep + 1"
    by (induction s) (auto simp: str_split_Cons)
  then show ?thesis
    using join_str_split sep_notin_str_split str_split_join by blast
qed

lemma split_filter_loop_eq:
  "split_filter_loop sep res s = res @ filter (\<lambda>p. p \<noteq> []) (str_split s sep)"
proof (induction "length s" arbitrary: s res rule: less_induct)
  case less
  show ?case
  proof (cases "dropWhile (\<lambda>c. c \<noteq> sep) s")
    case Nil
    then show ?thesis
      unfolding split_filter_loop.simps [of _ _ s] str_split_unfold [of s]
      by (simp add: push_nonempty_def del: dropWhile_eq_Nil_conv)
  next
    case (Cons x rest)
    then show ?thesis
      unfolding split_filter_loop.simps [of _ _ s] str_split_unfold [of s]
      using less [OF length_dropWhile_less [OF Cons]]
      by (simp add: push_nonempty_def)
  qed
qed

lemma split_filter_empty_eq:
  "split_filter_empty s sep = filter (\<lambda>p. p \<noteq> []) (str_split s sep)"
  by (simp add: split_filter_empty_def split_filter_loop_eq)

theorem str_split_correct_witness:
  "join (CHR ''&'') (str_split ''a=1&&b'' (CHR ''&'')) = ''a=1&&b''
   \<and> str_split (join (CHR ''&'') [''a=1'', [], ''b'']) (CHR ''&'') = [''a=1'', [], ''b'']"
proof -
  have ne: "[''a=1'', [], ''b''] \<noteq> []" "\<forall>p\<in>set [''a=1'', [], ''b'']. CHR ''&'' \<notin> set p"
    by simp_all
  have "str_split (join (CHR ''&'') [''a=1'', [], ''b'']) (CHR ''&'') = [''a=1'', [], ''b'']"
    using str_split_correct [of "CHR ''&''" "''a=1&&b''"] ne by blast
  moreover have "join (CHR ''&'') (str_split ''a=1&&b'' (CHR ''&'')) = ''a=1&&b''"
    using str_split_correct by blast
  ultimately show ?thesis by blast
qed

section \<open>Stripping and prefixes\<close>

lemma strip_st_spec:
  assumes "0 \<le> st"
  shows "st \<le> strip_st s st ed \<and> (st \<le> ed + 1 \<longrightarrow> strip_st s st ed \<le> ed + 1)
    \<and> (\<forall>k. st \<le> k \<and> k < strip_st s st ed \<longrightarrow> isspace (s ! nat k))
    \<and> (strip_st s st ed \<le> ed \<longrightarrow> \<not> isspace (s ! nat (strip_st s st ed)))"
  using assms
proof (induction s st ed rule: strip_st.induct)
  case (1 s st ed)
  show ?case
  proof (cases "st \<le> ed \<and> isspace (s ! nat st)")
    case True
    have r: "strip_st s st ed = strip_st s (st + 1) ed"
      using True by (simp add: strip_st.simps [of s st ed])
    have "isspace (s ! nat k)" if "st \<le> k" "k < st + 1" for k
      using that True by (metis order_antisym zle_add1_eq_le)
    with 1 True show ?thesis
      unfolding r by (smt (verit))
  next
    case False
    then have "strip_st s st ed = st"
      by (auto simp: strip_st.simps [of s st ed])
    with False show ?thesis by auto
  qed
qed

lemma strip_ed_spec:
  "strip_ed s st ed \<le> ed \<and> (st \<le> ed + 1 \<longrightarrow> st \<le> strip_ed s st ed + 1)
    \<and> (\<forall>k. strip_ed s st ed < k \<and> k \<le> ed \<longrightarrow> isspace (s ! nat k))
    \<and> (st \<le> strip_ed s st ed \<longrightarrow> \<not> isspace (s ! nat (strip_ed s st ed)))"
proof (induction s st ed rule: strip_ed.induct)
  case (1 s st ed)
  show ?case
  proof (cases "st \<le> ed \<and> isspace (s ! nat ed)")
    case True
    have r: "strip_ed s st ed = strip_ed s st (ed - 1)"
      using True by (simp add: strip_ed.simps [of s st ed])
    have "isspace (s ! nat k)" if "ed - 1 < k" "k \<le> ed" for k
      using that True by (metis order_antisym zle_diff1_eq not_less)
    with 1 True show ?thesis
      unfolding r by (smt (verit))
  next
    case False
    then have "strip_ed s st ed = ed"
      by (auto simp: strip_ed.simps [of s st ed])
    with False show ?thesis by auto
  qed
qed

lemma drop_eq_Cons_nth: "n < length s \<Longrightarrow> hd (drop n s) = s ! n"
  by (simp add: hd_drop_conv_nth)

lemma strip_split:
  "\<exists>a b. str = a @ strip str @ b \<and> (\<forall>c\<in>set a. isspace c) \<and> (\<forall>c\<in>set b. isspace c)
     \<and> (strip str \<noteq> [] \<longrightarrow> \<not> isspace (hd (strip str)) \<and> \<not> isspace (last (strip str)))"
proof (cases "str = []")
  case False
  define n where "n = int (length str)"
  define st where "st = strip_st str 0 (n - 1)"
  define ed where "ed = strip_ed str st (n - 1)"
  have st: "0 \<le> st" "st \<le> n" "\<And>k. 0 \<le> k \<Longrightarrow> k < st \<Longrightarrow> isspace (str ! nat k)"
    "st \<le> n - 1 \<Longrightarrow> \<not> isspace (str ! nat st)"
    using strip_st_spec [of 0 str "n - 1"] by (auto simp: st_def n_def)
  have ed: "ed \<le> n - 1" "st \<le> ed + 1" "\<And>k. ed < k \<Longrightarrow> k \<le> n - 1 \<Longrightarrow> isspace (str ! nat k)"
    "st \<le> ed \<Longrightarrow> \<not> isspace (str ! nat ed)"
    using strip_ed_spec [of str st "n - 1"] st by (auto simp: ed_def)
  define i where "i = nat st"
  define j where "j = nat (ed + 1)"
  have ij: "i \<le> j" "j \<le> length str"
    using st ed by (auto simp: i_def j_def n_def)
  have res: "strip str = take (j - i) (drop i str)"
  proof (cases "st \<le> ed")
    case True
    then have "nat (ed - st + 1) = j - i"
      using st ed by (simp add: i_def j_def)
    with True False show ?thesis
      by (simp add: strip_def Let_def st_def [symmetric] ed_def [symmetric] n_def [symmetric] i_def)
  next
    case F: False
    then have "j = i"
      using ij st by (simp add: i_def j_def)
    with F False show ?thesis
      by (simp add: strip_def Let_def st_def [symmetric] ed_def [symmetric] n_def [symmetric])
  qed
  have pre: "\<forall>c\<in>set (take i str). isspace c"
    using st(3) ij by (auto simp: in_set_conv_nth i_def) (metis int_nat_eq nat_int of_nat_0_le_iff of_nat_less_iff st(1))
  have post: "\<forall>c\<in>set (drop j str). isspace c"
  proof
    fix c assume "c \<in> set (drop j str)"
    then obtain k where k: "k < length str - j" "c = str ! (j + k)"
      by (auto simp: in_set_conv_nth)
    have "isspace (str ! nat (int (j + k)))"
      using k st ed by (intro ed(3)) (auto simp: j_def n_def)
    then show "isspace c" using k by (simp only: nat_int)
  qed
  have "str = take i str @ strip str @ drop j str"
    using ij unfolding res by (metis append_take_drop_id drop_drop le_add_diff_inverse2)
  moreover have "\<not> isspace (hd (strip str)) \<and> \<not> isspace (last (strip str))" if "strip str \<noteq> []"
  proof -
    have lt: "i < j" using that ij unfolding res by auto
    then have "st \<le> ed" using st ed by (auto simp: i_def j_def)
    then have "\<not> isspace (str ! i)" "\<not> isspace (str ! (j - 1))"
      using st ed by (auto simp: i_def j_def nat_add_distrib)
    moreover have "hd (strip str) = str ! i"
      using lt ij unfolding res by (simp add: hd_drop_conv_nth)
    moreover have "last (strip str) = str ! (j - 1)"
      using lt ij unfolding res by (subst last_conv_nth) auto
    ultimately show ?thesis by simp
  qed
  ultimately show ?thesis using pre post by blast
qed (simp add: strip_def)

lemma start_with_loop_iff:
  "start_with_loop str prefix i k \<longleftrightarrow> (\<forall>j<k. str ! (i + j) = prefix ! (i + j))"
proof (induction k arbitrary: i)
  case (Suc k)
  show ?case
    unfolding start_with_loop.simps Suc.IH All_less_Suc2 by auto
qed simp

lemma start_with_iff: "start_with str prefix \<longleftrightarrow> (\<exists>t. str = prefix @ t)"
proof -
  have "length prefix \<le> length str \<Longrightarrow>
      (\<forall>j<length prefix. str ! j = prefix ! j) \<longleftrightarrow> take (length prefix) str = prefix"
    by (auto simp: list_eq_iff_nth_eq)
  moreover have "length prefix \<le> length str \<Longrightarrow>
      take (length prefix) str = prefix \<longleftrightarrow> (\<exists>t. str = prefix @ t)"
    by (metis append_eq_conv_conj append_take_drop_id)
  ultimately show ?thesis
    by (auto simp: start_with_def start_with_loop_iff)
qed

text \<open>
  \<open>strip\<close> removes exactly the white space at both ends, \<open>split_filter_empty\<close> returns
  exactly the non-empty pieces of \<open>str_split\<close> in order, and \<open>start_with\<close> decides the
  prefix relation.
\<close>

theorem string_helpers_correct:
  "(\<exists>a b. str = a @ strip str @ b \<and> (\<forall>c\<in>set a. isspace c) \<and> (\<forall>c\<in>set b. isspace c)
     \<and> (strip str = [] \<or> \<not> isspace (hd (strip str)) \<and> \<not> isspace (last (strip str))))
   \<and> split_filter_empty str sep = filter (\<lambda>p. p \<noteq> []) (str_split str sep)
   \<and> (start_with str prefix = (\<exists>t. str = prefix @ t))"
  using strip_split [of str] split_filter_empty_eq start_with_iff by blast

theorem string_helpers_correct_witness:
  "strip ''  ab c '' = ''ab c'' \<and> split_filter_empty ''/a//b'' (CHR ''/'') = [''a'', ''b'']
   \<and> start_with ''?maxconn=5'' ''?maxconn=''"
proof -
  have "split_filter_empty ''/a//b'' (CHR ''/'') = filter (\<lambda>p. p \<noteq> []) (str_split ''/a//b'' (CHR ''/''))"
    and "start_with ''?maxconn=5'' ''?maxconn='' = (\<exists>t. ''?maxconn=5'' = ''?maxconn='' @ t)"
    using string_helpers_correct by blast+
  moreover have "strip ''  ab c '' = ''ab c''"
    by code_simp
  ultimately show ?thesis
    by (simp add: str_split_Cons)
qed

end
