(* ===== verification/URIParser.thy ===== *)
theory URIParser
  imports StringUtil
begin

text \<open>
  \<open>src/common/URIParser.cc\<close> and \<open>URIParser.h\<close>: the character tables, the parser with its
  start and end index arrays, \<open>ParsedURI::copy\<close> and the query and path splitters.
  \<open>URIParser::parse\<close> is modelled phase by phase, as the code runs: the scheme scan, the
  authority loop over \<open>authority_map\<close>, the path loop, the validity check and the copies
  into the result, where the 64-bit wrap of the host length is kept. The result is \<open>UB\<close>
  where the copy of the host leaves its object.
\<close>

section \<open>Constants and tables\<close>

abbreviation (input) URI_SCHEME :: nat where "URI_SCHEME \<equiv> 0"
abbreviation (input) URI_USERINFO :: nat where "URI_USERINFO \<equiv> 1"
abbreviation (input) URI_HOST :: nat where "URI_HOST \<equiv> 2"
abbreviation (input) URI_PORT :: nat where "URI_PORT \<equiv> 3"
abbreviation (input) URI_QUERY :: nat where "URI_QUERY \<equiv> 4"
abbreviation (input) URI_FRAGMENT :: nat where "URI_FRAGMENT \<equiv> 5"
abbreviation (input) URI_PATH :: nat where "URI_PATH \<equiv> 6"
abbreviation (input) URI_PART_ELEMENTS :: nat where "URI_PART_ELEMENTS \<equiv> 7"

definition valid_scheme :: "nat list" where
  "valid_scheme = concat [
     [0, 0, 0, 0, 0, 0, 0, 0, 0, 0, 0, 0, 0, 0, 0, 0],
     [0, 0, 0, 0, 0, 0, 0, 0, 0, 0, 0, 0, 0, 0, 0, 0],
     [0, 0, 0, 0, 0, 0, 0, 0, 0, 0, 0, 1, 0, 1, 1, 0],
     [1, 1, 1, 1, 1, 1, 1, 1, 1, 1, 0, 0, 0, 0, 0, 0],
     [0, 1, 1, 1, 1, 1, 1, 1, 1, 1, 1, 1, 1, 1, 1, 1],
     [1, 1, 1, 1, 1, 1, 1, 1, 1, 1, 1, 0, 0, 0, 0, 0],
     [0, 1, 1, 1, 1, 1, 1, 1, 1, 1, 1, 1, 1, 1, 1, 1],
     [1, 1, 1, 1, 1, 1, 1, 1, 1, 1, 1, 0, 0, 0, 0, 0],
     [0, 0, 0, 0, 0, 0, 0, 0, 0, 0, 0, 0, 0, 0, 0, 0],
     [0, 0, 0, 0, 0, 0, 0, 0, 0, 0, 0, 0, 0, 0, 0, 0],
     [0, 0, 0, 0, 0, 0, 0, 0, 0, 0, 0, 0, 0, 0, 0, 0],
     [0, 0, 0, 0, 0, 0, 0, 0, 0, 0, 0, 0, 0, 0, 0, 0],
     [0, 0, 0, 0, 0, 0, 0, 0, 0, 0, 0, 0, 0, 0, 0, 0],
     [0, 0, 0, 0, 0, 0, 0, 0, 0, 0, 0, 0, 0, 0, 0, 0],
     [0, 0, 0, 0, 0, 0, 0, 0, 0, 0, 0, 0, 0, 0, 0, 0],
     [0, 0, 0, 0, 0, 0, 0, 0, 0, 0, 0, 0, 0, 0, 0, 0]]"

definition valid_userinfo :: "nat list" where
  "valid_userinfo = concat [
     [0, 0, 0, 0, 0, 0, 0, 0, 0, 0, 0, 0, 0, 0, 0, 0],
     [0, 0, 0, 0, 0, 0, 0, 0, 0, 0, 0, 0, 0, 0, 0, 0],
     [0, 1, 0, 0, 1, 1, 1, 1, 1, 1, 1, 1, 1, 1, 1, 0],
     [1, 1, 1, 1, 1, 1, 1, 1, 1, 1, 1, 1, 0, 1, 0, 0],
     [0, 1, 1, 1, 1, 1, 1, 1, 1, 1, 1, 1, 1, 1, 1, 1],
     [1, 1, 1, 1, 1, 1, 1, 1, 1, 1, 1, 0, 0, 0, 0, 1],
     [0, 1, 1, 1, 1, 1, 1, 1, 1, 1, 1, 1, 1, 1, 1, 1],
     [1, 1, 1, 1, 1, 1, 1, 1, 1, 1, 1, 0, 0, 0, 1, 0],
     [0, 0, 0, 0, 0, 0, 0, 0, 0, 0, 0, 0, 0, 0, 0, 0],
     [0, 0, 0, 0, 0, 0, 0, 0, 0, 0, 0, 0, 0, 0, 0, 0],
     [0, 0, 0, 0, 0, 0, 0, 0, 0, 0, 0, 0, 0, 0, 0, 0],
     [0, 0, 0, 0, 0, 0, 0, 0, 0, 0, 0, 0, 0, 0, 0, 0],
     [0, 0, 0, 0, 0, 0, 0, 0, 0, 0, 0, 0, 0, 0, 0, 0],
     [0, 0, 0, 0, 0, 0, 0, 0, 0, 0, 0, 0, 0, 0, 0, 0],
     [0, 0, 0, 0, 0, 0, 0, 0, 0, 0, 0, 0, 0, 0, 0, 0],
     [0, 0, 0, 0, 0, 0, 0, 0, 0, 0, 0, 0, 0, 0, 0, 0]]"

definition valid_host :: "nat list" where
  "valid_host = concat [
     [0, 0, 0, 0, 0, 0, 0, 0, 0, 0, 0, 0, 0, 0, 0, 0],
     [0, 0, 0, 0, 0, 0, 0, 0, 0, 0, 0, 0, 0, 0, 0, 0],
     [0, 1, 0, 0, 1, 1, 1, 1, 1, 1, 1, 1, 1, 1, 1, 0],
     [1, 1, 1, 1, 1, 1, 1, 1, 1, 1, 1, 1, 0, 1, 0, 0],
     [0, 1, 1, 1, 1, 1, 1, 1, 1, 1, 1, 1, 1, 1, 1, 1],
     [1, 1, 1, 1, 1, 1, 1, 1, 1, 1, 1, 1, 0, 1, 0, 1],
     [0, 1, 1, 1, 1, 1, 1, 1, 1, 1, 1, 1, 1, 1, 1, 1],
     [1, 1, 1, 1, 1, 1, 1, 1, 1, 1, 1, 0, 0, 0, 1, 0],
     [0, 0, 0, 0, 0, 0, 0, 0, 0, 0, 0, 0, 0, 0, 0, 0],
     [0, 0, 0, 0, 0, 0, 0, 0, 0, 0, 0, 0, 0, 0, 0, 0],
     [0, 0, 0, 0, 0, 0, 0, 0, 0, 0, 0, 0, 0, 0, 0, 0],
     [0, 0, 0, 0, 0, 0, 0, 0, 0, 0, 0, 0, 0, 0, 0, 0],
     [0, 0, 0, 0, 0, 0, 0, 0, 0, 0, 0, 0, 0, 0, 0, 0],
     [0, 0, 0, 0, 0, 0, 0, 0, 0, 0, 0, 0, 0, 0, 0, 0],
     [0, 0, 0, 0, 0, 0, 0, 0, 0, 0, 0, 0, 0, 0, 0, 0],
     [0, 0, 0, 0, 0, 0, 0, 0, 0, 0, 0, 0, 0, 0, 0, 0]]"

definition valid_port :: "nat list" where
  "valid_port = concat [
     [0, 0, 0, 0, 0, 0, 0, 0, 0, 0, 0, 0, 0, 0, 0, 0],
     [0, 0, 0, 0, 0, 0, 0, 0, 0, 0, 0, 0, 0, 0, 0, 0],
     [0, 0, 0, 0, 0, 0, 0, 0, 0, 0, 0, 0, 0, 0, 0, 0],
     [1, 1, 1, 1, 1, 1, 1, 1, 1, 1, 0, 0, 0, 0, 0, 0],
     [0, 0, 0, 0, 0, 0, 0, 0, 0, 0, 0, 0, 0, 0, 0, 0],
     [0, 0, 0, 0, 0, 0, 0, 0, 0, 0, 0, 0, 0, 0, 0, 0],
     [0, 0, 0, 0, 0, 0, 0, 0, 0, 0, 0, 0, 0, 0, 0, 0],
     [0, 0, 0, 0, 0, 0, 0, 0, 0, 0, 0, 0, 0, 0, 0, 0],
     [0, 0, 0, 0, 0, 0, 0, 0, 0, 0, 0, 0, 0, 0, 0, 0],
     [0, 0, 0, 0, 0, 0, 0, 0, 0, 0, 0, 0, 0, 0, 0, 0],
     [0, 0, 0, 0, 0, 0, 0, 0, 0, 0, 0, 0, 0, 0, 0, 0],
     [0, 0, 0, 0, 0, 0, 0, 0, 0, 0, 0, 0, 0, 0, 0, 0],
     [0, 0, 0, 0, 0, 0, 0, 0, 0, 0, 0, 0, 0, 0, 0, 0],
     [0, 0, 0, 0, 0, 0, 0, 0, 0, 0, 0, 0, 0, 0, 0, 0],
     [0, 0, 0, 0, 0, 0, 0, 0, 0, 0, 0, 0, 0, 0, 0, 0],
     [0, 0, 0, 0, 0, 0, 0, 0, 0, 0, 0, 0, 0, 0, 0, 0]]"

definition authority_map :: "nat list" where
  "authority_map = concat [
     [URI_PART_ELEMENTS, 0, 0, 0, 0, 0, 0, 0, 0, 0, 0, 0, 0, 0, 0, 0],
     [0, 0, 0, 0, 0, 0, 0, 0, 0, 0, 0, 0, 0, 0, 0, 0],
     [0, 0, 0, URI_FRAGMENT, 0, 0, 0, 0, 0, 0, 0, 0, 0, 0, 0, URI_PATH],
     [0, 0, 0, 0, 0, 0, 0, 0, 0, 0, URI_HOST, 0, 0, 0, 0, URI_QUERY],
     [URI_USERINFO, 0, 0, 0, 0, 0, 0, 0, 0, 0, 0, 0, 0, 0, 0, 0],
     [0, 0, 0, 0, 0, 0, 0, 0, 0, 0, 0, 0, 0, 0, 0, 0],
     [0, 0, 0, 0, 0, 0, 0, 0, 0, 0, 0, 0, 0, 0, 0, 0],
     [0, 0, 0, 0, 0, 0, 0, 0, 0, 0, 0, 0, 0, 0, 0, 0],
     [0, 0, 0, 0, 0, 0, 0, 0, 0, 0, 0, 0, 0, 0, 0, 0],
     [0, 0, 0, 0, 0, 0, 0, 0, 0, 0, 0, 0, 0, 0, 0, 0],
     [0, 0, 0, 0, 0, 0, 0, 0, 0, 0, 0, 0, 0, 0, 0, 0],
     [0, 0, 0, 0, 0, 0, 0, 0, 0, 0, 0, 0, 0, 0, 0, 0],
     [0, 0, 0, 0, 0, 0, 0, 0, 0, 0, 0, 0, 0, 0, 0, 0],
     [0, 0, 0, 0, 0, 0, 0, 0, 0, 0, 0, 0, 0, 0, 0, 0],
     [0, 0, 0, 0, 0, 0, 0, 0, 0, 0, 0, 0, 0, 0, 0, 0],
     [0, 0, 0, 0, 0, 0, 0, 0, 0, 0, 0, 0, 0, 0, 0, 0]]"

definition valid_char :: "nat \<Rightarrow> nat list" where
  "valid_char i = [valid_scheme, valid_userinfo, valid_host, valid_port] ! i"

definition valid_at :: "nat \<Rightarrow> char \<Rightarrow> bool" where
  "valid_at i c \<longleftrightarrow> valid_char i ! code c \<noteq> 0"

definition authority_of :: "char \<Rightarrow> nat" where
  "authority_of c = authority_map ! code c"

section \<open>The parsed URI\<close>

datatype uri_state = URI_STATE_INIT | URI_STATE_SUCCESS | URI_STATE_INVALID | URI_STATE_ERROR

record parsed_uri =
  u_scheme :: "string option"
  u_userinfo :: "string option"
  u_host :: "string option"
  u_port :: "string option"
  u_path :: "string option"
  u_query :: "string option"
  u_fragment :: "string option"
  u_state :: uri_state
  u_error :: nat

abbreviation (input) ENOMEM :: nat where "ENOMEM \<equiv> 12"

definition uri_init :: parsed_uri where
  "uri_init = \<lparr>u_scheme = None, u_userinfo = None, u_host = None, u_port = None, u_path = None,
     u_query = None, u_fragment = None, u_state = URI_STATE_INIT, u_error = 0\<rparr>"

text \<open>\<open>ParsedURI(ParsedURI&&)\<close>: the new object and the source, reset by \<open>init\<close>.\<close>

definition uri_move :: "parsed_uri \<Rightarrow> parsed_uri \<times> parsed_uri" where
  "uri_move uri = (uri, uri_init)"

text \<open>
  \<open>strdup\<close> of a part that may be NULL: \<open>al k\<close> tells whether the allocation for the part
  number \<open>k\<close> succeeds. \<open>None\<close> is the \<open>break\<close> out of the copying block.
\<close>

definition dup_part :: "(nat \<Rightarrow> bool) \<Rightarrow> nat \<Rightarrow> string option \<Rightarrow> string option option" where
  "dup_part al k p = (case p of None \<Rightarrow> Some None
     | Some s \<Rightarrow> if al k then Some (Some (c_str s)) else None)"

definition uri_copy :: "(nat \<Rightarrow> bool) \<Rightarrow> parsed_uri \<Rightarrow> parsed_uri" where
  "uri_copy al uri =
     (if u_state uri = URI_STATE_SUCCESS then
        (case (dup_part al 0 (u_scheme uri), dup_part al 1 (u_userinfo uri), dup_part al 2 (u_host uri),
               dup_part al 3 (u_port uri), dup_part al 4 (u_path uri), dup_part al 5 (u_query uri),
               dup_part al 6 (u_fragment uri))
         of (Some a, Some b, Some c, Some d, Some e, Some f, Some g) \<Rightarrow>
              \<lparr>u_scheme = a, u_userinfo = b, u_host = c, u_port = d, u_path = e, u_query = f, u_fragment = g,
               u_state = u_state uri, u_error = u_error uri\<rparr>
          | _ \<Rightarrow> uri_init\<lparr>u_state := URI_STATE_ERROR, u_error := ENOMEM\<rparr>)
      else uri_init\<lparr>u_state := u_state uri, u_error := u_error uri\<rparr>)"

section \<open>The index arrays\<close>

record uri_idx =
  start_idx :: "nat list"
  end_idx :: "nat list"
  pre_state :: nat
  pos :: nat
  in_ipv6 :: bool
  skip_path :: bool

definition set_start :: "nat \<Rightarrow> nat \<Rightarrow> uri_idx \<Rightarrow> uri_idx" where
  "set_start k v x = x\<lparr>start_idx := (start_idx x)[k := v]\<rparr>"

definition set_end :: "nat \<Rightarrow> nat \<Rightarrow> uri_idx \<Rightarrow> uri_idx" where
  "set_end k v x = x\<lparr>end_idx := (end_idx x)[k := v]\<rparr>"

text \<open>The first loop: up to the first colon. The result is \<open>end_idx[URI_SCHEME]\<close> and \<open>i\<close>.\<close>

function scan_scheme :: "string \<Rightarrow> nat \<Rightarrow> nat \<times> nat" where
  "scan_scheme str i =
     (if cat str i = NUL then (0, i)
      else if cat str i = CHR '':'' then (i, i + 1)
      else scan_scheme str (i + 1))"
  by pat_completeness auto
termination
  by (relation "measure (\<lambda>(str, i). length str - i)") (auto dest: cat_not_NUL_less)

definition uri_begin :: "string \<Rightarrow> nat \<Rightarrow> nat \<Rightarrow> uri_idx" where
  "uri_begin str e i =
     (let x = \<lparr>start_idx = replicate 7 0, end_idx = (replicate 7 0)[URI_SCHEME := e],
               pre_state = URI_SCHEME, pos = i, in_ipv6 = False, skip_path = False\<rparr>
      in if cat str i = CHR ''/'' \<and> cat str (i + 1) = CHR ''/''
         then let y = x\<lparr>pre_state := URI_HOST, pos := i + 2\<rparr>;
                  z = (if cat str (i + 2) = CHR ''['' then y\<lparr>in_ipv6 := True\<rparr>
                       else set_start URI_USERINFO (i + 2) y)
              in set_start URI_HOST (i + 2) z
         else set_start URI_PATH i (x\<lparr>pre_state := URI_PATH\<rparr>))"

text \<open>
  One round of the authority loop. \<open>Inl\<close> is \<open>continue\<close> (the caller increments \<open>i\<close>),
  \<open>Inr\<close> is \<open>break\<close>.
\<close>

definition authority_step :: "string \<Rightarrow> uri_idx \<Rightarrow> uri_idx + uri_idx" where
  "authority_step str x =
     (let i = pos x; a = authority_of (cat str i) in
      if a = 0 then Inl x
      else if a = URI_USERINFO then
        (let y = (if cat str (i + 1) = CHR ''['' then x\<lparr>in_ipv6 := True\<rparr> else x)
         in Inl ((set_start URI_HOST (i + 1) (set_end URI_USERINFO i y))\<lparr>pre_state := URI_HOST\<rparr>))
      else if a = URI_HOST then
        (let y = (if cat str (i - 1) = CHR '']'' then x\<lparr>in_ipv6 := False\<rparr> else x)
         in if \<not> in_ipv6 y
            then Inl ((set_start URI_PORT (i + 1) (set_end URI_HOST i y))\<lparr>pre_state := URI_PORT\<rparr>)
            else Inl y)
      else if a = URI_QUERY then
        Inl ((set_start URI_QUERY (i + 1) (set_end (pre_state x) i x))
               \<lparr>pre_state := URI_QUERY, skip_path := True\<rparr>)
      else if a = URI_FRAGMENT then
        Inr ((set_end URI_FRAGMENT (i + strlen (drop i str))
               (set_start URI_FRAGMENT (i + 1) (set_end (pre_state x) i x)))
               \<lparr>pre_state := URI_PART_ELEMENTS, skip_path := True\<rparr>)
      else if a = URI_PATH then
        (if skip_path x then Inl x else Inr (set_start URI_PATH i x))
      else Inr (x\<lparr>skip_path := True\<rparr>))"

text \<open>The tables as predicates on the byte.\<close>

lemma authority_map_eq:
  "authority_map = map (\<lambda>n. if n = 0 then URI_PART_ELEMENTS else if n = 35 then URI_FRAGMENT
     else if n = 47 then URI_PATH else if n = 58 then URI_HOST else if n = 63 then URI_QUERY
     else if n = 64 then URI_USERINFO else 0) [0..<256]"
  by code_simp

lemma authority_of_eq:
  "authority_of c = (if c = NUL then URI_PART_ELEMENTS else if c = CHR ''#'' then URI_FRAGMENT
     else if c = CHR ''/'' then URI_PATH else if c = CHR '':'' then URI_HOST
     else if c = CHR ''?'' then URI_QUERY else if c = CHR ''@'' then URI_USERINFO else 0)"
  unfolding authority_of_def authority_map_eq
    char_eq_code [of c NUL] char_eq_code [of c "CHR ''#''"] char_eq_code [of c "CHR ''/''"]
    char_eq_code [of c "CHR '':''"] char_eq_code [of c "CHR ''?''"] char_eq_code [of c "CHR ''@''"]
  by (simp del: code_inject code_NUL_iff)

lemma authority_7_iff: "authority_of c = URI_PART_ELEMENTS \<longleftrightarrow> c = NUL"
  by (simp add: authority_of_eq)

lemma authority_of_less: "authority_of c \<le> URI_PART_ELEMENTS"
  by (simp add: authority_of_eq)

lemma pos_set_idx [simp]: "pos (set_start k v x) = pos x" "pos (set_end k v x) = pos x"
  by (simp_all add: set_start_def set_end_def)

lemma authority_step_Inl:
  assumes "authority_step str x = Inl y"
  shows "pos y = pos x \<and> pos x < length str"
proof -
  have "authority_of (cat str (pos x)) \<noteq> URI_PART_ELEMENTS"
  proof
    assume "authority_of (cat str (pos x)) = URI_PART_ELEMENTS"
    with assms show False by (simp add: authority_step_def)
  qed
  then have "pos x < length str"
    unfolding authority_7_iff by (rule cat_not_NUL_less)
  moreover have "pos y = pos x"
    using assms unfolding authority_step_def Let_def
    by (simp split: if_split_asm) auto
  ultimately show ?thesis by simp
qed

text \<open>
  The authority loop stops at the latest at the terminator, whose table entry is
  \<open>URI_PART_ELEMENTS\<close>.
\<close>

function authority_loop :: "string \<Rightarrow> uri_idx \<Rightarrow> uri_idx" where
  "authority_loop str x =
     (case authority_step str x of
        Inl y \<Rightarrow> authority_loop str (y\<lparr>pos := pos y + 1\<rparr>)
      | Inr y \<Rightarrow> y)"
  by pat_completeness auto
termination
  by (relation "measure (\<lambda>(str, x). length str - pos x)") (auto dest: authority_step_Inl)

declare authority_loop.simps [simp del]

text \<open>The inner \<open>while (str[i + 1])\<close> of the path loop.\<close>

function skip_query :: "string \<Rightarrow> nat \<Rightarrow> nat" where
  "skip_query str i =
     (if cat str (i + 1) = NUL then i
      else if cat str (i + 1) = CHR ''#'' then i + 1
      else skip_query str (i + 1))"
  by pat_completeness auto
termination
  by (relation "measure (\<lambda>(str, i). length str - i)") (auto dest: cat_not_NUL_less)

declare scan_scheme.simps [simp del] skip_query.simps [simp del]

lemma skip_query_ge: "i \<le> skip_query str i"
proof (induction str i rule: skip_query.induct)
  case (1 str i)
  then show ?case
    unfolding skip_query.simps [of str i] by (auto dest: Suc_leD)
qed

function path_loop :: "string \<Rightarrow> uri_idx \<Rightarrow> uri_idx" where
  "path_loop str x =
     (if cat str (pos x) = NUL then x
      else
        let y = (if cat str (pos x) = CHR ''?''
                 then (set_start URI_QUERY (pos x + 1) (set_end URI_PATH (pos x) x))
                        \<lparr>pre_state := URI_QUERY, pos := skip_query str (pos x)\<rparr>
                 else x)
        in if cat str (pos y) = CHR ''#''
           then (set_start URI_FRAGMENT (pos y + 1) (set_end (pre_state y) (pos y) y))
                  \<lparr>pre_state := URI_FRAGMENT\<rparr>
           else path_loop str (y\<lparr>pos := pos y + 1\<rparr>))"
  by pat_completeness auto
termination
proof (relation "measure (\<lambda>(str, x). length str - pos x)", goal_cases)
  case (2 str x y)
  then show ?case
    using skip_query_ge [of "pos x" str] by (auto dest!: cat_not_NUL_less)
qed auto

declare path_loop.simps [simp del]

definition uri_path_phase :: "string \<Rightarrow> uri_idx \<Rightarrow> uri_idx" where
  "uri_path_phase str x =
     (if skip_path x then x
      else let y = path_loop str (x\<lparr>pre_state := URI_PATH\<rparr>)
           in set_end (pre_state y) (pos y + strlen (drop (pos y) str)) y)"

text \<open>The validity check of the parts before \<open>URI_QUERY\<close>.\<close>

definition uri_valid :: "string \<Rightarrow> uri_idx \<Rightarrow> bool" where
  "uri_valid str x \<longleftrightarrow>
     (\<forall>i\<in>set [0..<URI_QUERY]. \<forall>j\<in>set [start_idx x ! i..<end_idx x ! i]. valid_at i (cat str j))"

text \<open>
  One part of the result: \<open>Ret (Some p)\<close> the part, \<open>Ret None\<close> a failed \<open>realloc\<close>. For a
  host that begins with a bracket the length is reduced by 2 in \<open>size_t\<close>. \<open>memcpy\<close> must stay
  inside the string with its terminator, and else is \<open>UB\<close>.
\<close>

definition uri_part :: "(nat \<Rightarrow> bool) \<Rightarrow> string \<Rightarrow> uri_idx \<Rightarrow> nat \<Rightarrow> string option option outcome" where
  "uri_part al str x i =
     (let s = start_idx x ! i; e = end_idx x ! i in
      if s < e then
        if \<not> al i then Ret None
        else if i = URI_HOST \<and> cat str s = CHR ''['' then
          (let len = (int e - int s - 2) mod 2 ^ 64 in
           if int s + 1 + len \<le> int (length str) + 1 \<and> len \<le> int e - int s
           then Ret (Some (Some (take (nat len) (drop (s + 1) str)))) else UB)
        else if e \<le> length str + 1 then Ret (Some (Some (take (e - s) (drop s str)))) else UB
      else Ret (Some None))"

definition uri_set_part :: "nat \<Rightarrow> string option \<Rightarrow> parsed_uri \<Rightarrow> parsed_uri" where
  "uri_set_part i v u =
     (if i = URI_SCHEME then u\<lparr>u_scheme := v\<rparr> else if i = URI_USERINFO then u\<lparr>u_userinfo := v\<rparr>
      else if i = URI_HOST then u\<lparr>u_host := v\<rparr> else if i = URI_PORT then u\<lparr>u_port := v\<rparr>
      else if i = URI_QUERY then u\<lparr>u_query := v\<rparr> else if i = URI_FRAGMENT then u\<lparr>u_fragment := v\<rparr>
      else u\<lparr>u_path := v\<rparr>)"

fun uri_fill :: "(nat \<Rightarrow> bool) \<Rightarrow> string \<Rightarrow> uri_idx \<Rightarrow> nat list \<Rightarrow> parsed_uri \<Rightarrow> (int \<times> parsed_uri) outcome" where
  "uri_fill al str x [] u = Ret (0, u\<lparr>u_state := URI_STATE_SUCCESS\<rparr>)"
| "uri_fill al str x (i # is) u =
     (case uri_part al str x i of
        UB \<Rightarrow> UB
      | Ret None \<Rightarrow> Ret (-1, (uri_set_part i None u)\<lparr>u_state := URI_STATE_ERROR, u_error := ENOMEM\<rparr>)
      | Ret (Some v) \<Rightarrow> uri_fill al str x is (uri_set_part i v u))"

definition uri_authority_phase :: "string \<Rightarrow> uri_idx \<Rightarrow> uri_idx" where
  "uri_authority_phase str x =
     (let y = (if start_idx x ! URI_PATH = 0 then authority_loop str x else x)
      in if pre_state y \<noteq> URI_PART_ELEMENTS then set_end (pre_state y) (pos y) y else y)"

text \<open>\<open>URIParser::parse(const char *, ParsedURI&)\<close>.\<close>

definition uri_indexes :: "string \<Rightarrow> nat \<Rightarrow> nat \<Rightarrow> uri_idx" where
  "uri_indexes str e i = uri_path_phase str (uri_authority_phase str (uri_begin str e i))"

definition uri_parse :: "(nat \<Rightarrow> bool) \<Rightarrow> string \<Rightarrow> parsed_uri \<Rightarrow> (int \<times> parsed_uri) outcome" where
  "uri_parse al str0 uri0 =
     (let str = c_str str0;
          uri = uri0\<lparr>u_state := URI_STATE_INVALID\<rparr>;
          (e, i) = scan_scheme str 0
      in if e = 0 then Ret (-1, uri)
         else let y = uri_indexes str e i
              in if \<not> uri_valid str y then Ret (-1, uri)
                 else uri_fill al str y [0..<URI_PART_ELEMENTS] uri)"

section \<open>Queries and paths\<close>

text \<open>
  \<open>std::map\<close> results: a finite map from keys to values. An element of the query that is
  empty or has an empty key is skipped; what follows a second equals sign is dropped.
\<close>

definition kv_of :: "string \<Rightarrow> (string \<times> string) option" where
  "kv_of ele =
     (if ele = [] then None
      else let kv = str_split ele (CHR ''='') in
        if kv ! 0 = [] then None
        else if length kv = 1 then Some (kv ! 0, [])
        else Some (kv ! 0, kv ! 1))"

fun split_query_strict_loop :: "string list \<Rightarrow> (string \<rightharpoonup> string list) \<Rightarrow> (string \<rightharpoonup> string list)" where
  "split_query_strict_loop [] res = res"
| "split_query_strict_loop (ele # arr) res =
     (case kv_of ele of
        None \<Rightarrow> split_query_strict_loop arr res
      | Some (k, v) \<Rightarrow>
          split_query_strict_loop arr
            (res(k \<mapsto> (case res k of None \<Rightarrow> [] | Some vs \<Rightarrow> vs) @ [v])))"

definition split_query_strict :: "string \<Rightarrow> (string \<rightharpoonup> string list)" where
  "split_query_strict q =
     (if q = [] then Map.empty
      else split_query_strict_loop (str_split q (CHR ''&'')) Map.empty)"

fun split_query_loop :: "string list \<Rightarrow> (string \<rightharpoonup> string) \<Rightarrow> (string \<rightharpoonup> string)" where
  "split_query_loop [] res = res"
| "split_query_loop (ele # arr) res =
     (case kv_of ele of
        None \<Rightarrow> split_query_loop arr res
      | Some (k, v) \<Rightarrow>
          split_query_loop arr (if res k \<noteq> None then res else res(k \<mapsto> v)))"

definition split_query :: "string \<Rightarrow> (string \<rightharpoonup> string)" where
  "split_query q =
     (if q = [] then Map.empty
      else split_query_loop (str_split q (CHR ''&'')) Map.empty)"

definition split_path :: "string \<Rightarrow> string list" where
  "split_path p = split_filter_empty p (CHR ''/'')"


section \<open>Tables as predicates\<close>

lemma valid_scheme_eq:
  "valid_scheme = map (\<lambda>n. if 48 \<le> n \<and> n \<le> 57 \<or> 65 \<le> n \<and> n \<le> 90 \<or> 97 \<le> n \<and> n \<le> 122
     \<or> n = 43 \<or> n = 45 \<or> n = 46 then 1 else 0) [0..<256]"
  by code_simp

lemma valid_port_eq: "valid_port = map (\<lambda>n. if 48 \<le> n \<and> n \<le> 57 then 1 else 0) [0..<256]"
  by code_simp

lemma valid_userinfo_none:
  "valid_userinfo ! 0 = 0 \<and> valid_userinfo ! 35 = 0 \<and> valid_userinfo ! 47 = 0
   \<and> valid_userinfo ! 63 = 0 \<and> valid_userinfo ! 64 = 0 \<and> valid_userinfo ! 91 = 0
   \<and> valid_userinfo ! 93 = 0"
  by code_simp

lemma valid_host_none:
  "valid_host ! 0 = 0 \<and> valid_host ! 35 = 0 \<and> valid_host ! 47 = 0
   \<and> valid_host ! 63 = 0 \<and> valid_host ! 64 = 0"
  by code_simp

lemma valid_at_scheme:
  "valid_at URI_SCHEME c \<longleftrightarrow> isalnum c \<or> code c = 43 \<or> code c = 45 \<or> code c = (46::nat)"
  by (auto simp: valid_at_def valid_char_def valid_scheme_eq isalnum_def isdigit_def
      isupper_def islower_def)

lemma valid_at_port: "valid_at URI_PORT c \<longleftrightarrow> isdigit c"
  by (simp add: valid_at_def valid_char_def valid_port_eq isdigit_def)

lemma valid_at_userinfo_not:
  "valid_at URI_USERINFO c \<Longrightarrow> c \<notin> {NUL, CHR ''#'', CHR ''/'', CHR ''?'', CHR ''@'', CHR ''['', CHR '']''}"
  using valid_userinfo_none by (auto simp: valid_at_def valid_char_def)

lemma valid_at_host_not:
  "valid_at URI_HOST c \<Longrightarrow> c \<notin> {NUL, CHR ''#'', CHR ''/'', CHR ''?'', CHR ''@''}"
  using valid_host_none by (auto simp: valid_at_def valid_char_def)

lemma authority_0_userinfo:
  "valid_at URI_USERINFO c \<Longrightarrow> c \<noteq> CHR '':'' \<Longrightarrow> authority_of c = 0"
  using valid_at_userinfo_not [of c] by (simp add: authority_of_eq)

lemma authority_0_host:
  "valid_at URI_HOST c \<Longrightarrow> c \<noteq> CHR '':'' \<Longrightarrow> authority_of c = 0"
  using valid_at_host_not [of c] by (simp add: authority_of_eq)

lemma authority_0_digit: "isdigit c \<Longrightarrow> authority_of c = 0"
  by (auto simp: authority_of_eq isdigit_def)

section \<open>Steps of the loops on a known suffix\<close>

text \<open>
  Each lemma consumes a known piece of the string at the current position: \<open>drop i str\<close>
  begins with it.
\<close>

lemma cat_drop_append:
  "drop i str = w @ r \<Longrightarrow> k < length w \<Longrightarrow> cat str (i + k) = w ! k"
  by (metis cat_append_left cat_drop)

lemma cat_drop_Cons: "drop i str = c # r \<Longrightarrow> cat str i = c"
  using cat_drop_append [of i str "[c]" r 0] by simp

lemma cat_drop_Nil: "drop i str = [] \<Longrightarrow> cat str i = NUL"
  by (simp add: cat_def)

lemma drop_append_next: "drop i str = w @ r \<Longrightarrow> drop (i + length w) str = r"
  by (metis add.commute append_eq_conv_conj drop_drop)

lemma drop_Cons_next: "drop i str = c # r \<Longrightarrow> drop (Suc i) str = r"
  using drop_append_next [of i str "[c]" r] by simp

lemma scan_scheme_skip:
  "drop i str = w @ CHR '':'' # r \<Longrightarrow> \<forall>c\<in>set w. c \<noteq> NUL \<and> c \<noteq> CHR '':'' \<Longrightarrow>
     scan_scheme str i = (i + length w, i + length w + 1)"
proof (induction w arbitrary: i)
  case Nil
  then show ?case
    by (simp add: scan_scheme.simps [of str i] cat_drop_Cons)
next
  case (Cons c w)
  then show ?case
    using drop_Cons_next [of i str c "w @ CHR '':'' # r"]
    by (simp add: scan_scheme.simps [of str i] cat_drop_Cons [of i str c])
qed

lemma authority_loop_plain:
  "drop (pos x) str = w @ r \<Longrightarrow> \<forall>c\<in>set w. authority_of c = 0 \<Longrightarrow>
     authority_loop str x = authority_loop str (x\<lparr>pos := pos x + length w\<rparr>)"
proof (induction w arbitrary: x)
  case (Cons c w)
  have c: "cat str (pos x) = c" "drop (Suc (pos x)) str = w @ r"
    using Cons.prems by (auto intro: cat_drop_Cons drop_Cons_next)
  then have "authority_step str x = Inl x"
    using Cons.prems by (simp add: authority_step_def)
  then have "authority_loop str x = authority_loop str (x\<lparr>pos := Suc (pos x)\<rparr>)"
    by (simp add: authority_loop.simps [of str x])
  also have "\<dots> = authority_loop str (x\<lparr>pos := pos x + length (c # w)\<rparr>)"
    using Cons.IH [of "x\<lparr>pos := Suc (pos x)\<rparr>"] c Cons.prems(2) by simp
  finally show ?case .
qed simp

text \<open>
  The user information may hold colons: each one provisionally ends a host and starts a
  port. What it leaves behind is overwritten or never read; only the entries
  \<open>start_idx[URI_PORT]\<close>, \<open>end_idx[URI_HOST]\<close> and \<open>pre_state\<close> are touched.
\<close>

definition same_but_port :: "uri_idx \<Rightarrow> nat \<Rightarrow> uri_idx \<Rightarrow> bool" where
  "same_but_port x n y \<longleftrightarrow>
     (\<exists>a b c. y = x\<lparr>start_idx := (start_idx x)[URI_PORT := a], end_idx := (end_idx x)[URI_HOST := b],
        pre_state := c, pos := n\<rparr>)"

lemma authority_loop_Inl:
  "authority_step str x = Inl y \<Longrightarrow> authority_loop str x = authority_loop str (y\<lparr>pos := pos y + 1\<rparr>)"
  by (simp add: authority_loop.simps [of str x])

lemma authority_step_colon:
  "cat str (pos x) = CHR '':'' \<Longrightarrow> \<not> in_ipv6 x \<Longrightarrow>
     authority_step str x = Inl (x\<lparr>start_idx := (start_idx x)[URI_PORT := pos x + 1],
       end_idx := (end_idx x)[URI_HOST := pos x], pre_state := URI_PORT\<rparr>)"
  by (cases x) (simp add: authority_step_def authority_of_eq set_start_def set_end_def Let_def)

lemma authority_loop_userinfo:
  "drop (pos x) str = w @ r \<Longrightarrow> \<forall>c\<in>set w. authority_of c = 0 \<or> c = CHR '':'' \<Longrightarrow> \<not> in_ipv6 x \<Longrightarrow>
   \<exists>y. authority_loop str x = authority_loop str y \<and> same_but_port x (pos x + length w) y"
proof (induction w arbitrary: x)
  case Nil
  have "same_but_port x (pos x + length ([] :: string)) x"
    unfolding same_but_port_def
    by (rule exI [of _ "start_idx x ! URI_PORT"], rule exI [of _ "end_idx x ! URI_HOST"],
        rule exI [of _ "pre_state x"]) simp
  then show ?case by blast
next
  case (Cons c w)
  have c: "cat str (pos x) = c" "drop (Suc (pos x)) str = w @ r"
    using Cons.prems by (auto intro: cat_drop_Cons drop_Cons_next)
  define x1 where "x1 = (if c = CHR '':'' then x\<lparr>start_idx := (start_idx x)[URI_PORT := pos x + 1],
       end_idx := (end_idx x)[URI_HOST := pos x], pre_state := URI_PORT\<rparr> else x)"
  have "authority_step str x = Inl x1"
    using Cons.prems c authority_step_colon [of str x] by (auto simp: x1_def authority_step_def)
  then have v6: "\<not> in_ipv6 x1" and l: "authority_loop str x = authority_loop str (x1\<lparr>pos := Suc (pos x)\<rparr>)"
    using Cons.prems(3) by (auto simp: authority_loop.simps [of str x] x1_def)
  obtain y where y: "authority_loop str (x1\<lparr>pos := Suc (pos x)\<rparr>) = authority_loop str y"
    "same_but_port (x1\<lparr>pos := Suc (pos x)\<rparr>) (Suc (pos x) + length w) y"
    using Cons.IH [of "x1\<lparr>pos := Suc (pos x)\<rparr>"] Cons.prems(2,3) c(2) v6 by auto
  have "same_but_port x (pos x + length (c # w)) y"
    using y(2) by (cases "c = CHR '':''") (auto simp: same_but_port_def x1_def)
  with l y(1) show ?case by auto
qed

lemma authority_loop_at:
  assumes "cat str (pos x) = CHR ''@''"
  shows "authority_loop str x = authority_loop str
     (x\<lparr>start_idx := (start_idx x)[URI_HOST := pos x + 1], end_idx := (end_idx x)[URI_USERINFO := pos x],
        pre_state := URI_HOST, in_ipv6 := (in_ipv6 x \<or> cat str (pos x + 1) = CHR ''[''), pos := pos x + 1\<rparr>)"
proof -
  have "authority_step str x = Inl (x\<lparr>start_idx := (start_idx x)[URI_HOST := pos x + 1],
      end_idx := (end_idx x)[URI_USERINFO := pos x], pre_state := URI_HOST,
      in_ipv6 := (in_ipv6 x \<or> cat str (pos x + 1) = CHR ''['')\<rparr>)"
    using assms
    by (cases x) (auto simp: authority_step_def authority_of_eq set_start_def set_end_def Let_def)
  from authority_loop_Inl [OF this] show ?thesis by simp
qed

lemma authority_loop_colon:
  assumes "cat str (pos x) = CHR '':''"
  shows "authority_loop str x =
     (if in_ipv6 x \<and> cat str (pos x - 1) \<noteq> CHR '']'' then authority_loop str (x\<lparr>pos := pos x + 1\<rparr>)
      else authority_loop str (x\<lparr>start_idx := (start_idx x)[URI_PORT := pos x + 1],
        end_idx := (end_idx x)[URI_HOST := pos x], pre_state := URI_PORT, in_ipv6 := False,
        pos := pos x + 1\<rparr>))"
proof -
  have "authority_step str x = Inl
     (if in_ipv6 x \<and> cat str (pos x - 1) \<noteq> CHR '']'' then x
      else x\<lparr>start_idx := (start_idx x)[URI_PORT := pos x + 1],
        end_idx := (end_idx x)[URI_HOST := pos x], pre_state := URI_PORT, in_ipv6 := False\<rparr>)"
    using assms
    by (cases x) (auto simp: authority_step_def authority_of_eq set_start_def set_end_def Let_def)
  from authority_loop_Inl [OF this] show ?thesis by simp
qed

lemma authority_loop_path:
  assumes "cat str (pos x) = CHR ''/''" "\<not> skip_path x"
  shows "authority_loop str x = x\<lparr>start_idx := (start_idx x)[URI_PATH := pos x]\<rparr>"
  using assms
  by (simp add: authority_loop.simps [of str x] authority_step_def authority_of_eq
      set_start_def Let_def)

lemma authority_loop_end:
  assumes "cat str (pos x) = NUL"
  shows "authority_loop str x = x\<lparr>skip_path := True\<rparr>"
  using assms
  by (simp add: authority_loop.simps [of str x] authority_step_def authority_of_eq Let_def)

text \<open>Inside brackets the colons of an IPv6 address are passed over.\<close>

lemma authority_loop_ipv6:
  "drop (pos x) str = w @ r \<Longrightarrow> \<forall>c\<in>set w. (authority_of c = 0 \<or> c = CHR '':'') \<and> c \<noteq> CHR '']'' \<Longrightarrow>
   in_ipv6 x \<Longrightarrow> cat str (pos x - 1) \<noteq> CHR '']'' \<Longrightarrow>
     authority_loop str x = authority_loop str (x\<lparr>pos := pos x + length w\<rparr>)"
proof (induction w arbitrary: x)
  case (Cons c w)
  have c: "cat str (pos x) = c" "drop (Suc (pos x)) str = w @ r"
    using Cons.prems by (auto intro: cat_drop_Cons drop_Cons_next)
  have "authority_loop str x = authority_loop str (x\<lparr>pos := Suc (pos x)\<rparr>)"
  proof (cases "c = CHR '':''")
    case True
    with c Cons.prems show ?thesis by (simp add: authority_loop_colon)
  next
    case False
    with c Cons.prems show ?thesis
      using authority_loop_plain [of x str "[c]" "w @ r"] by simp
  qed
  also have "\<dots> = authority_loop str (x\<lparr>pos := pos x + length (c # w)\<rparr>)"
    using Cons.IH [of "x\<lparr>pos := Suc (pos x)\<rparr>"] c Cons.prems by simp
  finally show ?case .
qed simp

section \<open>The path loop\<close>

lemma path_loop_plain:
  "drop (pos x) str = w @ r \<Longrightarrow> \<forall>c\<in>set w. c \<noteq> NUL \<and> c \<noteq> CHR ''?'' \<and> c \<noteq> CHR ''#'' \<Longrightarrow>
     path_loop str x = path_loop str (x\<lparr>pos := pos x + length w\<rparr>)"
proof (induction w arbitrary: x)
  case (Cons c w)
  have c: "cat str (pos x) = c" "drop (Suc (pos x)) str = w @ r"
    using Cons.prems by (auto intro: cat_drop_Cons drop_Cons_next)
  have "path_loop str x = path_loop str (x\<lparr>pos := Suc (pos x)\<rparr>)"
    using c Cons.prems by (simp add: path_loop.simps [of str x])
  also have "\<dots> = path_loop str (x\<lparr>pos := pos x + length (c # w)\<rparr>)"
    using Cons.IH [of "x\<lparr>pos := Suc (pos x)\<rparr>"] c Cons.prems(2) by simp
  finally show ?case .
qed simp

lemma skip_query_spec:
  "drop (Suc i) str = w @ r \<Longrightarrow> \<forall>c\<in>set w. c \<noteq> NUL \<and> c \<noteq> CHR ''#'' \<Longrightarrow>
   r = [] \<or> (\<exists>f. r = CHR ''#'' # f) \<Longrightarrow>
     skip_query str i = (if r = [] then i + length w else i + length w + 1)"
proof (induction w arbitrary: i)
  case Nil
  then show ?case
    by (auto simp: skip_query.simps [of str i] cat_drop_Nil cat_drop_Cons)
next
  case (Cons c w)
  have c: "cat str (Suc i) = c" "drop (Suc (Suc i)) str = w @ r"
    using Cons.prems by (auto intro: cat_drop_Cons drop_Cons_next)
  with Cons show ?case
    by (simp add: skip_query.simps [of str i])
qed

text \<open>The tail of a URI from the path on: a path, then a query and a fragment, each optional.\<close>

definition tail_str :: "string \<Rightarrow> string option \<Rightarrow> string option \<Rightarrow> string" where
  "tail_str p q f = p @ (case q of None \<Rightarrow> [] | Some s \<Rightarrow> CHR ''?'' # s)
     @ (case f of None \<Rightarrow> [] | Some s \<Rightarrow> CHR ''#'' # s)"

lemma path_loop_end: "cat str (pos x) = NUL \<Longrightarrow> path_loop str x = x"
  by (simp add: path_loop.simps [of str x])

lemma path_loop_hash:
  "cat str (pos x) = CHR ''#'' \<Longrightarrow>
   path_loop str x = x\<lparr>start_idx := (start_idx x)[URI_FRAGMENT := pos x + 1],
     end_idx := (end_idx x)[pre_state x := pos x], pre_state := URI_FRAGMENT\<rparr>"
  by (cases x) (auto simp: path_loop.simps set_start_def set_end_def Let_def)

lemma path_loop_query:
  assumes d: "drop (pos x) str = CHR ''?'' # s @ r" and n: "\<forall>c\<in>set s. c \<noteq> NUL \<and> c \<noteq> CHR ''#''"
    and r: "r = [] \<or> (\<exists>t. r = CHR ''#'' # t)"
  shows "path_loop str x =
    (let y = x\<lparr>start_idx := (start_idx x)[URI_QUERY := pos x + 1],
               end_idx := (end_idx x)[URI_PATH := pos x], pre_state := URI_QUERY,
               pos := pos x + length s + 1\<rparr>
     in if r = [] then y
        else y\<lparr>start_idx := (start_idx y)[URI_FRAGMENT := pos y + 1],
               end_idx := (end_idx y)[URI_QUERY := pos y], pre_state := URI_FRAGMENT\<rparr>)"
proof -
  define i where "i = pos x"
  have c: "cat str i = CHR ''?''" "drop (Suc i) str = s @ r"
    using d by (auto simp: i_def intro: cat_drop_Cons drop_Cons_next)
  have sk: "skip_query str i = (if r = [] then i + length s else i + length s + 1)"
    using skip_query_spec [OF c(2) n r] .
  have dr: "drop (i + length s + 1) str = r"
    using drop_append_next [OF c(2)] by simp
  define x1 where "x1 = x\<lparr>start_idx := (start_idx x)[URI_QUERY := i + 1],
      end_idx := (end_idx x)[URI_PATH := i], pre_state := URI_QUERY, pos := skip_query str i\<rparr>"
  have step: "path_loop str x =
      (if cat str (pos x1) = CHR ''#''
       then x1\<lparr>start_idx := (start_idx x1)[URI_FRAGMENT := pos x1 + 1],
               end_idx := (end_idx x1)[URI_QUERY := pos x1], pre_state := URI_FRAGMENT\<rparr>
       else path_loop str (x1\<lparr>pos := pos x1 + 1\<rparr>))"
    using c(1) unfolding path_loop.simps [of str x]
    by (cases x) (simp add: set_start_def set_end_def i_def x1_def)
  show ?thesis
  proof (cases "r = []")
    case True
    have "cat str (i + length s) \<noteq> CHR ''#''"
    proof (cases "s = []")
      case False
      then have "cat str (Suc i + (length s - 1)) = s ! (length s - 1)"
        using c(2) by (intro cat_drop_append) auto
      then show ?thesis
        using n False by (metis Suc_diff_1 add_Suc_shift length_greater_0_conv nth_mem
            diff_less less_numeral_extra(1))
    qed (use c in simp)
    moreover have "path_loop str (x1\<lparr>pos := i + length s + 1\<rparr>) = x1\<lparr>pos := i + length s + 1\<rparr>"
      using dr True by (intro path_loop_end) (simp add: cat_drop_Nil)
    ultimately show ?thesis
      using step True sk by (simp add: x1_def i_def)
  next
    case False
    then have "cat str (i + length s + 1) = CHR ''#''"
      using r dr by (auto intro: cat_drop_Cons)
    then show ?thesis
      using step False sk by (simp add: x1_def i_def)
  qed
qed

text \<open>A part of the result as the string between its two indexes.\<close>

definition span :: "string \<Rightarrow> uri_idx \<Rightarrow> nat \<Rightarrow> string option" where
  "span str x k =
     (if start_idx x ! k < end_idx x ! k
      then Some (take (end_idx x ! k - start_idx x ! k) (drop (start_idx x ! k) str)) else None)"

definition nonempty :: "string option \<Rightarrow> string option" where
  "nonempty q = (case q of None \<Rightarrow> None | Some s \<Rightarrow> if s = [] then None else Some s)"

definition idx_lengths :: "uri_idx \<Rightarrow> bool" where
  "idx_lengths x \<longleftrightarrow> length (start_idx x) = 7 \<and> length (end_idx x) = 7"

lemma strlen_drop: "NUL \<notin> set str \<Longrightarrow> strlen (drop i str) = length str - i"
  by (subst strlen_noNUL) (auto dest: in_set_dropD)

lemma drop_len: "drop i str = t \<Longrightarrow> i \<le> length str \<Longrightarrow> length str = i + length t"
  by auto

lemma uri_path_phase_tail:
  assumes d: "drop (pos x) str = tail_str p q f" and n: "NUL \<notin> set str" and k: "\<not> skip_path x"
    and p: "CHR ''?'' \<notin> set p" "CHR ''#'' \<notin> set p"
    and q: "\<forall>s. q = Some s \<longrightarrow> CHR ''#'' \<notin> set s"
    and x: "idx_lengths x" "pos x \<le> length str" "start_idx x ! URI_PATH = pos x"
      "\<forall>i\<in>{URI_QUERY, URI_FRAGMENT}. start_idx x ! i = 0 \<and> end_idx x ! i = 0"
  shows "(\<forall>i<4. start_idx (uri_path_phase str x) ! i = start_idx x ! i
        \<and> end_idx (uri_path_phase str x) ! i = end_idx x ! i)
    \<and> span str (uri_path_phase str x) URI_PATH = nonempty (Some p)
    \<and> span str (uri_path_phase str x) URI_QUERY = nonempty q
    \<and> span str (uri_path_phase str x) URI_FRAGMENT = nonempty f"
proof -
  define i where "i = pos x"
  have pn: "\<forall>c\<in>set p. c \<noteq> NUL \<and> c \<noteq> CHR ''?'' \<and> c \<noteq> CHR ''#''"
  proof -
    have "set p \<subseteq> set str"
      using d by (metis set_drop_subset set_append Un_subset_iff tail_str_def)
    with n p show ?thesis by auto
  qed
  define x1 where "x1 = x\<lparr>pre_state := URI_PATH\<rparr>"
  define Q where "Q = (case q of None \<Rightarrow> [] | Some s \<Rightarrow> CHR ''?'' # s)"
  define F where "F = (case f of None \<Rightarrow> [] | Some s \<Rightarrow> CHR ''#'' # s)"
  have d: "drop i str = p @ Q @ F"
    using d by (simp add: i_def tail_str_def Q_def F_def)
  have len: "length str = i + length p + length Q + length F"
    using drop_len [OF d] x(2) by (simp add: i_def)
  have dp: "drop (i + length p) str = Q @ F"
    using drop_append_next [OF d] .
  have dq: "drop (i + length p + length Q) str = F"
    using drop_append_next [OF dp] by simp
  have tp: "take (length p) (drop i str) = p"
    unfolding d by simp
  have l: "length (start_idx x) = 7" "length (end_idx x) = 7"
    using x(1) by (auto simp: idx_lengths_def)
  have "path_loop str x1 = path_loop str (x1\<lparr>pos := i + length p\<rparr>)"
    using path_loop_plain [of x1 str p "Q @ F"] d pn by (simp add: x1_def i_def)
  then have ph: "uri_path_phase str x =
      (let y = path_loop str (x1\<lparr>pos := i + length p\<rparr>)
       in set_end (pre_state y) (pos y + (length str - pos y)) y)"
    using k n by (simp add: uri_path_phase_def x1_def [symmetric] Let_def strlen_drop)
  show ?thesis
  proof (cases q)
    case None
    then have Q: "Q = []" by (simp add: Q_def)
    show ?thesis
    proof (cases f)
      case f: None
      then have "path_loop str (x1\<lparr>pos := i + length p\<rparr>) = x1\<lparr>pos := i + length p\<rparr>"
        using dp Q by (intro path_loop_end) (simp add: F_def cat_drop_Nil)
      then show ?thesis
        using x l len Q f None tp unfolding ph
        by (auto simp: span_def nonempty_def x1_def set_end_def F_def i_def nth_list_update
            numeral_eq_Suc less_Suc_eq)
    next
      case f: (Some t)
      then have c: "cat str (i + length p) = CHR ''#''"
        using dp Q by (auto simp: F_def intro: cat_drop_Cons)
      have "drop (Suc (i + length p)) str = t"
        using dp Q f by (auto simp: F_def intro: drop_Cons_next)
      then show ?thesis
        using x l len Q f None tp path_loop_hash [of str "x1\<lparr>pos := i + length p\<rparr>"] c unfolding ph
        by (auto simp: span_def nonempty_def x1_def set_end_def F_def i_def nth_list_update
            numeral_eq_Suc less_Suc_eq)
    qed
  next
    case (Some s)
    then have Q: "Q = CHR ''?'' # s" by (simp add: Q_def)
    have "set s \<subseteq> set str"
      using dp Q by (metis set_drop_subset set_append Un_subset_iff set_subset_Cons subset_trans)
    then have s: "\<forall>c\<in>set s. c \<noteq> NUL \<and> c \<noteq> CHR ''#''"
      using n q Some by auto
    have ds: "drop (Suc (i + length p)) str = s @ F"
      using dp Q by (auto intro: drop_Cons_next)
    then have ts: "take (length s) (drop (Suc (i + length p)) str) = s"
      by simp
    have F: "F = [] \<or> (\<exists>t. F = CHR ''#'' # t)"
      by (auto simp: F_def split: option.split)
    have y: "path_loop str (x1\<lparr>pos := i + length p\<rparr>) =
        (let y = x1\<lparr>start_idx := (start_idx x)[URI_QUERY := i + length p + 1],
               end_idx := (end_idx x)[URI_PATH := i + length p], pre_state := URI_QUERY,
               pos := i + length p + length s + 1\<rparr>
         in if F = [] then y
            else y\<lparr>start_idx := (start_idx y)[URI_FRAGMENT := pos y + 1],
               end_idx := (end_idx y)[URI_QUERY := pos y], pre_state := URI_FRAGMENT\<rparr>)"
      using path_loop_query [of "x1\<lparr>pos := i + length p\<rparr>" str s F] dp Q s F by (simp add: x1_def)
    show ?thesis
    proof (cases f)
      case f: None
      show ?thesis
        using x l len Q f Some tp ts unfolding ph y
        by (auto simp: span_def nonempty_def x1_def set_end_def F_def i_def nth_list_update
            numeral_eq_Suc less_Suc_eq)
    next
      case f: (Some t)
      have dt: "drop (Suc (Suc (i + length p + length s))) str = t"
        using dq Q f by (auto simp: F_def intro: drop_Cons_next)
      define R where "R = uri_path_phase str x"
      have st: "start_idx R = (start_idx x)[4 := Suc (i + length p), 5 := Suc (Suc (i + length p + length s))]"
        and en: "end_idx R = (end_idx x)[6 := i + length p, 4 := Suc (i + length p + length s), 5 := length str]"
        using len Q f unfolding R_def ph y by (simp_all add: set_end_def x1_def F_def)
      have "start_idx R ! k = start_idx x ! k \<and> end_idx R ! k = end_idx x ! k" if "k < 4" for k
        using that by (simp add: st en)
      moreover have "span str R URI_PATH = nonempty (Some p)"
        using l x(3) tp by (simp add: span_def st en nonempty_def i_def)
      moreover have "span str R URI_QUERY = nonempty q"
        using l ts Some by (simp add: span_def st en nonempty_def)
      moreover have "span str R URI_FRAGMENT = nonempty f"
        using l dt f len Q by (auto simp: span_def st en nonempty_def F_def)
      ultimately show ?thesis unfolding R_def by simp
    qed
  qed
qed

section \<open>The authority\<close>

definition host_str :: "bool \<Rightarrow> string \<Rightarrow> string" where
  "host_str v6 h = (if v6 then CHR ''['' # h @ [CHR '']''] else h)"

definition opt_str :: "(string \<Rightarrow> string) \<Rightarrow> string option \<Rightarrow> string" where
  "opt_str g p = (case p of None \<Rightarrow> [] | Some s \<Rightarrow> g s)"

definition uri_print :: "string \<Rightarrow> string option \<Rightarrow> bool \<Rightarrow> string \<Rightarrow> string option \<Rightarrow> string
    \<Rightarrow> string option \<Rightarrow> string option \<Rightarrow> string" where
  "uri_print sc ui v6 h po p q f =
     sc @ ''://'' @ opt_str (\<lambda>u. u @ ''@'') ui @ host_str v6 h @ opt_str (\<lambda>d. CHR '':'' # d) po
     @ tail_str p q f"

definition wf_host :: "bool \<Rightarrow> string \<Rightarrow> bool" where
  "wf_host v6 h \<longleftrightarrow> list_all (valid_at URI_HOST) h \<and>
     (if v6 then CHR '']'' \<notin> set h else CHR '':'' \<notin> set h \<and> CHR ''['' \<notin> set h)"

definition wf_tail :: "string \<Rightarrow> string option \<Rightarrow> string option \<Rightarrow> bool" where
  "wf_tail p q f \<longleftrightarrow> CHR ''?'' \<notin> set p \<and> CHR ''#'' \<notin> set p \<and> NUL \<notin> set (tail_str p q f)
     \<and> CHR ''#'' \<notin> set (opt_str id q) \<and> (if p = [] then q = None \<and> f = None else hd p = CHR ''/'')"

definition wf_uri :: "string \<Rightarrow> string option \<Rightarrow> bool \<Rightarrow> string \<Rightarrow> string option \<Rightarrow> string
    \<Rightarrow> string option \<Rightarrow> string option \<Rightarrow> bool" where
  "wf_uri sc ui v6 h po p q f \<longleftrightarrow>
     sc \<noteq> [] \<and> list_all (valid_at URI_SCHEME) sc
     \<and> list_all (valid_at URI_USERINFO) (opt_str id ui) \<and> wf_host v6 h
     \<and> list_all isdigit (opt_str id po) \<and> wf_tail p q f"

definition auth_idx :: "nat \<Rightarrow> nat \<Rightarrow> nat \<Rightarrow> nat \<Rightarrow> nat \<Rightarrow> nat \<Rightarrow> nat \<Rightarrow> nat \<Rightarrow> bool \<Rightarrow> uri_idx" where
  "auth_idx n0 u e hs a b pre i v6 =
     \<lparr>start_idx = [0, u, hs, a, 0, 0, 0], end_idx = [n0, e, b, 0, 0, 0, 0], pre_state = pre,
      pos = i, in_ipv6 = v6, skip_path = False\<rparr>"

text \<open>The user information, if any, up to the first byte of the host.\<close>

lemma authority_front:
  assumes d: "drop i0 str = opt_str (\<lambda>u. u @ ''@'') ui @ host_str v6 h @ r"
    and u: "list_all (valid_at URI_USERINFO) (opt_str id ui)" and h: "wf_host v6 h"
    and r: "cat r 0 \<noteq> CHR ''[''"
    and sl: "cat str (n0 + 1) = CHR ''/''" "cat str (n0 + 2) = CHR ''/''" and i0: "i0 = n0 + 3"
  shows "\<exists>us e a b. authority_loop str (uri_begin str n0 (n0 + 1)) =
      authority_loop str (auth_idx n0 us e (i0 + length (opt_str (\<lambda>u. u @ ''@'') ui)) a b URI_HOST
        (i0 + length (opt_str (\<lambda>u. u @ ''@'') ui)) v6)
    \<and> (if us < e then Some (take (e - us) (drop us str)) else None) = nonempty ui
    \<and> e \<le> i0 + length (opt_str (\<lambda>u. u @ ''@'') ui)"
proof -
  have hd_h: "cat (host_str v6 h @ r) 0 = CHR ''['' \<longleftrightarrow> v6"
    using h r by (cases h) (auto simp: host_str_def wf_host_def)
  show ?thesis
  proof (cases ui)
    case None
    have "cat str i0 = CHR ''['' \<longleftrightarrow> v6"
      using hd_h d None by (simp add: opt_str_def) (metis add_0_right cat_drop)
    then have "uri_begin str n0 (n0 + 1) = auth_idx n0 (if v6 then 0 else i0) 0 i0 0 0 URI_HOST i0 v6"
      using sl i0 by (simp add: uri_begin_def auth_idx_def set_start_def numeral_eq_Suc Let_def)
    then show ?thesis
      using None by (intro exI [of _ "if v6 then 0 else i0"] exI [of _ 0])
        (auto simp: nonempty_def opt_str_def)
  next
    case (Some u)
    then have d: "drop i0 str = u @ CHR ''@'' # host_str v6 h @ r"
      using d by (simp add: opt_str_def)
    have uv: "\<forall>c\<in>set u. authority_of c = 0 \<or> c = CHR '':''" "\<forall>c\<in>set u. c \<noteq> CHR ''[''"
      using u Some valid_at_userinfo_not authority_0_userinfo
      by (auto simp: opt_str_def list_all_iff)
    have "cat str i0 \<noteq> CHR ''[''"
      using d uv(2) by (cases u) (auto dest: cat_drop_Cons)
    then have b: "uri_begin str n0 (n0 + 1) = auth_idx n0 i0 0 i0 0 0 URI_HOST i0 False"
      using sl i0 by (simp add: uri_begin_def auth_idx_def set_start_def numeral_eq_Suc Let_def)
    obtain y where y: "authority_loop str (uri_begin str n0 (n0 + 1)) = authority_loop str y"
      "same_but_port (auth_idx n0 i0 0 i0 0 0 URI_HOST i0 False) (i0 + length u) y"
      using authority_loop_userinfo [of "auth_idx n0 i0 0 i0 0 0 URI_HOST i0 False" str u] d uv(1)
      unfolding b by (auto simp: auth_idx_def)
    then obtain a b' c where y': "y = auth_idx n0 i0 0 i0 a b' c (i0 + length u) False"
      by (auto simp: same_but_port_def auth_idx_def numeral_eq_Suc)
    have du: "drop (i0 + length u) str = CHR ''@'' # host_str v6 h @ r"
      using drop_append_next [OF d] .
    have at: "cat str (i0 + length u) = CHR ''@''"
      using du by (rule cat_drop_Cons)
    have "cat str (i0 + length u + 1) = CHR ''['' \<longleftrightarrow> v6"
      using hd_h drop_Cons_next [OF du] by (metis Suc_eq_plus1 add_0_right cat_drop)
    then have "authority_loop str y =
        authority_loop str (auth_idx n0 i0 (i0 + length u) (i0 + length u + 1) a b' URI_HOST
          (i0 + length u + 1) v6)"
      using authority_loop_at [of str y] at unfolding y'
      by (simp add: auth_idx_def numeral_eq_Suc)
    moreover have "(if i0 < i0 + length u then Some (take (i0 + length u - i0) (drop i0 str)) else None)
        = nonempty ui"
      using d Some by (simp add: nonempty_def)
    ultimately show ?thesis
      using y(1) Some
      by (intro exI [of _ i0] exI [of _ "i0 + length u"] exI [of _ a] exI [of _ b'])
        (simp add: opt_str_def)
  qed
qed

text \<open>The host: it is passed over, whether it is a name or a bracketed address.\<close>

lemma authority_host:
  assumes d: "drop i str = host_str v6 h @ r" and h: "wf_host v6 h"
  shows "authority_loop str (auth_idx n0 us e hs a b URI_HOST i v6) =
    authority_loop str (auth_idx n0 us e hs a b URI_HOST (i + length (host_str v6 h)) v6)"
proof (cases v6)
  case False
  then have "\<forall>c\<in>set h. authority_of c = 0"
    using h authority_0_host by (auto simp: wf_host_def list_all_iff)
  then show ?thesis
    using authority_loop_plain [of "auth_idx n0 us e hs a b URI_HOST i v6" str h r] d False
    by (simp add: auth_idx_def host_str_def)
next
  case True
  let ?x = "auth_idx n0 us e hs a b URI_HOST"
  have d0: "drop i str = [CHR ''[''] @ (h @ CHR '']'' # r)"
    using d True by (simp add: host_str_def)
  have d1: "drop (Suc i) str = h @ CHR '']'' # r"
    using drop_append_next [OF d0] by simp
  have d2: "drop (Suc i + length h) str = [CHR '']''] @ r"
    using drop_append_next [OF d1] by simp
  have c: "cat str i = CHR ''[''"
    using d0 by (simp add: cat_drop_Cons)
  have "\<forall>c\<in>set h. (authority_of c = 0 \<or> c = CHR '':'') \<and> c \<noteq> CHR '']''"
    using h True authority_0_host by (auto simp: wf_host_def list_all_iff)
  then have "authority_loop str (?x (Suc i) v6) = authority_loop str (?x (Suc i + length h) v6)"
    using authority_loop_ipv6 [of "?x (Suc i) v6" str h "CHR '']'' # r"] d1 True c
    by (simp add: auth_idx_def)
  moreover have "authority_loop str (?x i v6) = authority_loop str (?x (Suc i) v6)"
    using authority_loop_plain [of "?x i v6" str "[CHR '']'']" "h @ CHR '']'' # r"] d0
      authority_loop_plain [of "?x i v6" str "[CHR ''['']" "h @ CHR '']'' # r"]
    by (simp add: auth_idx_def authority_of_eq)
  moreover have "authority_loop str (?x (Suc i + length h) v6)
      = authority_loop str (?x (Suc (Suc i + length h)) v6)"
    using authority_loop_plain [of "?x (Suc i + length h) v6" str "[CHR '']'']" r] d2
    by (simp add: auth_idx_def authority_of_eq)
  ultimately show ?thesis
    using True by (simp add: host_str_def)
qed

text \<open>The port, if any.\<close>

lemma authority_port:
  assumes d: "drop i str = opt_str (\<lambda>d. CHR '':'' # d) po @ r" and p: "list_all isdigit (opt_str id po)"
    and v6: "v6 \<Longrightarrow> cat str (i - 1) = CHR '']''"
  shows "authority_loop str (auth_idx n0 us e hs a b URI_HOST i v6) =
    (case po of None \<Rightarrow> authority_loop str (auth_idx n0 us e hs a b URI_HOST i v6)
     | Some ds \<Rightarrow> authority_loop str
         (auth_idx n0 us e hs (i + 1) i URI_PORT (i + 1 + length ds) False))"
proof (cases po)
  case (Some ds)
  have d0: "drop i str = CHR '':'' # ds @ r"
    using d Some by (simp add: opt_str_def)
  have d1: "drop (Suc i) str = ds @ r"
    using drop_Cons_next [OF d0] .
  have "authority_loop str (auth_idx n0 us e hs a b URI_HOST i v6)
     = authority_loop str (auth_idx n0 us e hs (i + 1) i URI_PORT (i + 1) False)"
    using authority_loop_colon [of str "auth_idx n0 us e hs a b URI_HOST i v6"]
      cat_drop_Cons [OF d0] v6 by (auto simp: auth_idx_def numeral_eq_Suc)
  moreover have "\<forall>c\<in>set ds. authority_of c = 0"
    using p Some authority_0_digit by (simp add: opt_str_def list_all_iff)
  ultimately show ?thesis
    using authority_loop_plain [of "auth_idx n0 us e hs (i + 1) i URI_PORT (i + 1) False" str ds r]
      d1 Some by (simp add: auth_idx_def)
qed simp

text \<open>
  The three lemmas in sequence: the spans of the parts before the path, and a state from
  which the path phase can go on.
\<close>

definition front_spans :: "string \<Rightarrow> uri_idx \<Rightarrow> string \<Rightarrow> string option \<Rightarrow> bool \<Rightarrow> string \<Rightarrow> string option \<Rightarrow> bool" where
  "front_spans str y sc ui v6 h po \<longleftrightarrow>
     span str y URI_SCHEME = Some sc \<and> span str y URI_USERINFO = nonempty ui
     \<and> span str y URI_HOST = nonempty (Some (host_str v6 h)) \<and> span str y URI_PORT = nonempty po"

lemma authority_phase_print:
  assumes w: "wf_uri sc ui v6 h po p q f"
  defines "str \<equiv> uri_print sc ui v6 h po p q f"
  shows "\<exists>y. uri_authority_phase str (uri_begin str (length sc) (length sc + 1)) = y
    \<and> front_spans str y sc ui v6 h po \<and> idx_lengths y \<and> pos y \<le> length str
    \<and> drop (pos y) str = tail_str p q f
    \<and> start_idx y ! 4 = 0 \<and> start_idx y ! 5 = 0 \<and> end_idx y ! 4 = 0 \<and> end_idx y ! 5 = 0 \<and> end_idx y ! 6 = 0
    \<and> (if p = [] then skip_path y \<and> start_idx y ! 6 = 0 else \<not> skip_path y \<and> start_idx y ! 6 = pos y)
    \<and> (\<forall>k<4. end_idx y ! k \<le> length str) \<and> (cat str (start_idx y ! URI_HOST) = CHR ''['' \<longleftrightarrow> v6)"
proof -
  define n0 where "n0 = length sc"
  define U where "U = opt_str (\<lambda>u. u @ ''@'') ui"
  define H where "H = host_str v6 h"
  define P where "P = opt_str (\<lambda>d. CHR '':'' # d) po"
  define T where "T = tail_str p q f"
  define i1 where "i1 = n0 + 3 + length U"
  define i2 where "i2 = i1 + length H"
  define i3 where "i3 = i2 + length P"
  have str: "str = sc @ ''://'' @ U @ H @ P @ T"
    by (simp add: str_def uri_print_def U_def H_def P_def T_def)
  have ws: "list_all (valid_at URI_USERINFO) (opt_str id ui)" "wf_host v6 h"
    "list_all isdigit (opt_str id po)" "wf_tail p q f"
    using w by (auto simp: wf_uri_def)
  have T: "(T = [] \<and> p = []) \<or> (\<exists>t. T = CHR ''/'' # t \<and> p \<noteq> [])"
    using ws(4) by (cases p) (auto simp: T_def tail_str_def wf_tail_def)
  have d0: "drop (n0 + 3) str = U @ H @ P @ T"
    by (simp add: str n0_def)
  have d1: "drop i1 str = H @ P @ T"
    using drop_append_next [OF d0] by (simp add: i1_def)
  have d2: "drop i2 str = P @ T"
    using drop_append_next [OF d1] by (simp add: i2_def)
  have d3: "drop i3 str = T"
    using drop_append_next [OF d2] by (simp add: i3_def)
  have sl: "cat str (n0 + 1) = CHR ''/''" "cat str (n0 + 2) = CHR ''/''"
    by (simp_all add: str n0_def cat_append numeral_eq_Suc)
  have PT: "cat (P @ T) 0 \<noteq> CHR ''[''"
    using T by (auto simp: P_def opt_str_def split: option.split)
  obtain us e a b where front: "authority_loop str (uri_begin str n0 (n0 + 1)) =
      authority_loop str (auth_idx n0 us e i1 a b URI_HOST i1 v6)"
    and us: "(if us < e then Some (take (e - us) (drop us str)) else None) = nonempty ui"
    and e: "e \<le> i1"
    using authority_front [OF d0 [unfolded U_def H_def] ws(1,2) PT sl refl]
    unfolding U_def [symmetric] i1_def [symmetric] by auto
  have v6: "v6 \<Longrightarrow> cat str (i2 - 1) = CHR '']''"
  proof -
    assume v6
    have "cat str (i1 + Suc (length h)) = host_str v6 h ! Suc (length h)"
      by (rule cat_drop_append [OF d1 [unfolded H_def]]) (simp add: host_str_def \<open>v6\<close>)
    then show "cat str (i2 - 1) = CHR '']''"
      by (simp add: i2_def H_def host_str_def \<open>v6\<close> nth_append)
  qed
  define x where "x = (case po of None \<Rightarrow> auth_idx n0 us e i1 a b URI_HOST i3 v6
     | Some ds \<Rightarrow> auth_idx n0 us e i1 (i2 + 1) i2 URI_PORT i3 False)"
  have hst: "authority_loop str (auth_idx n0 us e i1 a b URI_HOST i1 v6) =
      authority_loop str (auth_idx n0 us e i1 a b URI_HOST i2 v6)"
    unfolding i2_def H_def by (rule authority_host [OF d1 [unfolded H_def] ws(2)])
  have prt: "authority_loop str (auth_idx n0 us e i1 a b URI_HOST i2 v6) = authority_loop str x"
  proof (cases po)
    case None
    then show ?thesis by (simp add: x_def i3_def P_def opt_str_def)
  next
    case (Some ds)
    have "authority_loop str (auth_idx n0 us e i1 a b URI_HOST i2 v6) =
        authority_loop str (auth_idx n0 us e i1 (i2 + 1) i2 URI_PORT (i2 + 1 + length ds) False)"
      by (subst authority_port [OF d2 [unfolded P_def] ws(3) v6]) (simp_all add: Some)
    then show ?thesis using Some by (simp add: x_def i3_def P_def opt_str_def)
  qed
  have loop: "authority_loop str (uri_begin str n0 (n0 + 1)) = authority_loop str x"
    unfolding front hst prt ..
  have px: "pos x = i3" "\<not> skip_path x"
    by (auto simp: x_def auth_idx_def split: option.split)
  have "authority_loop str x = (if p = [] then x\<lparr>skip_path := True\<rparr>
      else x\<lparr>start_idx := (start_idx x)[URI_PATH := i3]\<rparr>)"
    using T d3 px authority_loop_end [of str x] authority_loop_path [of str x]
    by (auto simp: cat_drop_Nil cat_drop_Cons)
  with loop have l: "authority_loop str (uri_begin str n0 (n0 + 1)) = (if p = [] then x\<lparr>skip_path := True\<rparr>
      else x\<lparr>start_idx := (start_idx x)[URI_PATH := i3]\<rparr>)" by simp
  have st: "start_idx (uri_begin str n0 (n0 + 1)) ! URI_PATH = 0"
    using sl by (simp add: uri_begin_def Let_def set_start_def)
  define y where "y = uri_authority_phase str (uri_begin str n0 (n0 + 1))"
  have y: "y = (let z = (if p = [] then x\<lparr>skip_path := True\<rparr>
      else x\<lparr>start_idx := (start_idx x)[URI_PATH := i3]\<rparr>) in set_end (pre_state z) i3 z)"
    using st l px by (auto simp: y_def uri_authority_phase_def Let_def x_def auth_idx_def split: option.split)
  have si: "start_idx y = [0, us, i1, (case po of None \<Rightarrow> a | Some _ \<Rightarrow> i2 + 1), 0, 0, if p = [] then 0 else i3]"
    by (auto simp: y x_def auth_idx_def set_end_def Let_def numeral_eq_Suc split: option.split)
  have ei: "end_idx y = [n0, e, i2, (case po of None \<Rightarrow> 0 | Some _ \<Rightarrow> i3), 0, 0, 0]"
    by (auto simp: y x_def auth_idx_def set_end_def Let_def numeral_eq_Suc i3_def P_def opt_str_def
        split: option.split)
  have py: "pos y = i3" "skip_path y = (p = [])"
    using px by (auto simp: y set_end_def Let_def)
  have "i3 \<le> length str"
    by (simp add: i3_def i2_def i1_def str n0_def)
  moreover have "front_spans str y sc ui v6 h po"
  proof -
    have "n0 > 0" "take n0 str = sc"
      using w by (auto simp: n0_def wf_uri_def str)
    moreover have "take (i2 - i1) (drop i1 str) = H" "i2 = i1 + length H"
      using d1 by (simp_all add: i2_def)
    moreover have "drop (Suc i2) str = ds @ T" if "po = Some ds" for ds
      using d2 that by (auto simp: P_def opt_str_def intro: drop_Cons_next)
    moreover have "span str y URI_USERINFO = nonempty ui"
      using us by (simp add: span_def si ei split: if_splits)
    ultimately show ?thesis
      by (auto simp: front_spans_def span_def si ei nonempty_def [of "Some _"] nonempty_def [of po]
          H_def [symmetric] i3_def P_def opt_str_def split: option.split)
  qed
  moreover have "\<forall>k<4. end_idx y ! k \<le> length str"
  proof -
    have "n0 \<le> i1" "i1 \<le> i2" "i2 \<le> i3" "i3 \<le> length str"
      using \<open>i3 \<le> length str\<close> by (auto simp: i1_def i2_def i3_def)
    then show ?thesis
      using e by (auto simp: ei All_less_Suc numeral_eq_Suc split: option.split)
  qed
  moreover have "cat str (start_idx y ! URI_HOST) = CHR ''['' \<longleftrightarrow> v6"
  proof -
    have "cat str i1 = cat (H @ P @ T) 0"
      using d1 by (metis add_0_right cat_drop)
    moreover have "cat (H @ P @ T) 0 = CHR ''['' \<longleftrightarrow> v6"
      using ws(2) PT by (cases h) (auto simp: H_def host_str_def wf_host_def)
    ultimately show ?thesis by (simp add: si)
  qed
  ultimately show ?thesis
    using si ei py d3 unfolding y_def n0_def
    by (auto simp: idx_lengths_def T_def)
qed

section \<open>Checking and copying by spans\<close>

lemma span_SomeD:
  "span str x k = Some t \<Longrightarrow> end_idx x ! k \<le> length str \<Longrightarrow>
   start_idx x ! k < end_idx x ! k \<and> end_idx x ! k - start_idx x ! k = length t
   \<and> t = take (length t) (drop (start_idx x ! k) str)"
  by (auto simp: span_def split: if_splits)

lemma span_valid:
  assumes "case span str x k of None \<Rightarrow> True | Some t \<Rightarrow> list_all (valid_at k) t"
    and "end_idx x ! k \<le> length str"
  shows "\<forall>j\<in>set [start_idx x ! k..<end_idx x ! k]. valid_at k (cat str j)"
proof
  fix j assume j: "j \<in> set [start_idx x ! k..<end_idx x ! k]"
  then obtain t where t: "span str x k = Some t"
    by (auto simp: span_def)
  note T = span_SomeD [OF t assms(2)]
  define m where "m = j - start_idx x ! k"
  have m: "j = start_idx x ! k + m" "m < length t" "j < length str"
    using j T assms(2) by (auto simp: m_def)
  have "t ! m = take (length t) (drop (start_idx x ! k) str) ! m"
    using T by simp
  also have "\<dots> = cat str j"
    using m by (simp add: cat_def)
  finally have "cat str j = t ! m" ..
  with m(2) show "valid_at k (cat str j)"
    using assms(1) t by (simp add: list_all_length)
qed

text \<open>
  The indexes stay inside the string, an invariant of the two loops.
\<close>

definition idx_ok :: "string \<Rightarrow> uri_idx \<Rightarrow> bool" where
  "idx_ok str x \<longleftrightarrow> (\<forall>e\<in>set (end_idx x). e \<le> length str) \<and> pos x \<le> length str
     \<and> length (end_idx x) = 7"

lemma idx_okD: "idx_ok str x \<Longrightarrow> k < 7 \<Longrightarrow> end_idx x ! k \<le> length str"
  by (simp add: idx_ok_def)

lemma idx_ok_simps [simp]:
  "idx_ok str (set_start k v x) = idx_ok str x" "idx_ok str (x\<lparr>pre_state := s\<rparr>) = idx_ok str x"
  "idx_ok str (x\<lparr>in_ipv6 := b\<rparr>) = idx_ok str x" "idx_ok str (x\<lparr>skip_path := b\<rparr>) = idx_ok str x"
  by (simp_all add: idx_ok_def set_start_def)

lemma idx_ok_pos: "idx_ok str x \<Longrightarrow> n \<le> length str \<Longrightarrow> idx_ok str (x\<lparr>pos := n\<rparr>)"
  by (simp add: idx_ok_def)

lemma idx_ok_end:
  assumes "idx_ok str x" "v \<le> length str"
  shows "idx_ok str (set_end k v x)"
  using assms set_update_subset_insert [of "end_idx x" k v]
  by (auto simp: idx_ok_def set_end_def)

lemma strlen_drop_le: "i \<le> length str \<Longrightarrow> i + strlen (drop i str) \<le> length str"
  using length_takeWhile_le [of "\<lambda>c. c \<noteq> NUL" "drop i str"] by (simp add: strlen_def c_str_def)

lemma scan_scheme_le: "scan_scheme str i = (e, j) \<Longrightarrow> e \<noteq> 0 \<Longrightarrow> e < length str \<and> j \<le> length str \<and> j \<noteq> 0"
proof (induction str i rule: scan_scheme.induct)
  case (1 str i)
  then show ?case
    unfolding scan_scheme.simps [of str i] using cat_not_NUL_less [of str i] by (auto split: if_splits)
qed

lemma uri_begin_ok:
  assumes "e \<le> length str" "i \<le> length str"
  shows "idx_ok str (uri_begin str e i)"
proof -
  have "i + 2 \<le> length str" if "cat str i = CHR ''/''" "cat str (i + 1) = CHR ''/''"
    using cat_not_NUL_less [of str "i + 1"] that by simp
  then show ?thesis
    using assms unfolding uri_begin_def Let_def
    by (auto simp: idx_ok_def set_start_def set_update_subset_insert nth_list_update dest: set_update_subset_insert [THEN subsetD])
qed

lemma authority_step_ok:
  assumes "idx_ok str x" "authority_step str x = Inl y \<or> authority_step str x = Inr y"
  shows "idx_ok str y"
proof -
  have p: "pos x \<le> length str" using assms(1) by (simp add: idx_ok_def)
  have s: "pos x + strlen (drop (pos x) str) \<le> length str"
    by (rule strlen_drop_le [OF p])
  have "authority_of (cat str (pos x)) \<in> {0, URI_USERINFO, URI_HOST, URI_QUERY, URI_FRAGMENT, URI_PATH, URI_PART_ELEMENTS}"
    by (simp add: authority_of_eq)
  then consider "authority_of (cat str (pos x)) = 0" | "authority_of (cat str (pos x)) = URI_USERINFO" | "authority_of (cat str (pos x)) = URI_HOST"
    | "authority_of (cat str (pos x)) = URI_QUERY" | "authority_of (cat str (pos x)) = URI_FRAGMENT" | "authority_of (cat str (pos x)) = URI_PATH"
    | "authority_of (cat str (pos x)) = URI_PART_ELEMENTS"
    by (elim insertE emptyE)
  then show ?thesis
  proof cases
    case 1
    then show ?thesis using assms by (auto simp: authority_step_def)
  next
    case 2
    have "idx_ok str (set_end URI_USERINFO (pos x) x)" "idx_ok str (set_end URI_USERINFO (pos x) (x\<lparr>in_ipv6 := True\<rparr>))"
      using assms(1) p by (simp_all add: idx_ok_end)
    then show ?thesis using assms(2) 2 by (auto simp: authority_step_def Let_def)
  next
    case 3
    have "idx_ok str (set_end URI_HOST (pos x) x)" "idx_ok str (set_end URI_HOST (pos x) (x\<lparr>in_ipv6 := False\<rparr>))"
      using assms(1) p by (simp_all add: idx_ok_end)
    then show ?thesis using assms 3 by (auto simp: authority_step_def Let_def split: if_splits)
  next
    case 4
    have "idx_ok str (set_end (pre_state x) (pos x) x)" using assms(1) p by (simp add: idx_ok_end)
    then show ?thesis using assms(2) 4 by (auto simp: authority_step_def Let_def)
  next
    case 5
    have "idx_ok str (set_end (pre_state x) (pos x) x)" using assms(1) p by (simp add: idx_ok_end)
    then have "idx_ok str (set_end URI_FRAGMENT (pos x + strlen (drop (pos x) str)) (set_start URI_FRAGMENT (pos x + 1) (set_end (pre_state x) (pos x) x)))"
      using s by (simp add: idx_ok_end)
    then show ?thesis using assms(2) 5 by (auto simp: authority_step_def Let_def)
  next
    case 6
    then show ?thesis using assms by (auto simp: authority_step_def Let_def split: if_splits)
  next
    case 7
    then show ?thesis using assms by (auto simp: authority_step_def Let_def split: if_splits)
  qed
qed

lemma authority_loop_ok:
  "idx_ok str x \<Longrightarrow> idx_ok str (authority_loop str x)"
proof (induction str x rule: authority_loop.induct)
  case (1 str x)
  show ?case
  proof (cases "authority_step str x")
    case (Inl y)
    have "pos y + 1 \<le> length str" using authority_step_Inl [OF Inl] by simp
    then have "idx_ok str (y\<lparr>pos := pos y + 1\<rparr>)" using authority_step_ok [OF 1(2), of y] Inl idx_ok_pos by blast
    then show ?thesis using 1(1) [OF Inl] Inl by (simp add: authority_loop.simps [of str x])
  next
    case (Inr y)
    then have "authority_loop str x = y" by (simp add: authority_loop.simps [of str x])
    then show ?thesis using authority_step_ok [OF 1(2), of y] Inr by blast
  qed
qed

lemma uri_authority_ok:
  assumes "idx_ok str x"
  shows "idx_ok str (uri_authority_phase str x)"
proof -
  define y where "y = (if start_idx x ! URI_PATH = 0 then authority_loop str x else x)"
  have y: "idx_ok str y" using authority_loop_ok [OF assms] assms by (simp add: y_def)
  have "idx_ok str (set_end (pre_state y) (pos y) y)"
    using y by (intro idx_ok_end) (simp_all add: idx_ok_def)
  then show ?thesis using y by (simp add: uri_authority_phase_def Let_def flip: y_def)
qed

lemma skip_query_le: "i < length str \<Longrightarrow> skip_query str i < length str"
proof (induction str i rule: skip_query.induct)
  case (1 str i)
  then show ?case
    unfolding skip_query.simps [of str i] using cat_not_NUL_less [of str "i + 1"] by auto
qed

lemma path_loop_ok:
  "idx_ok str x \<Longrightarrow> idx_ok str (path_loop str x)"
proof (induction str x rule: path_loop.induct)
  case (1 str x)
  show ?case
  proof (cases "cat str (pos x) = NUL")
    case True
    then show ?thesis using 1(2) by (simp add: path_loop.simps [of str x])
  next
    case False
    define y where "y = (if cat str (pos x) = CHR ''?''
                 then (set_start URI_QUERY (pos x + 1) (set_end URI_PATH (pos x) x))
                        \<lparr>pre_state := URI_QUERY, pos := skip_query str (pos x)\<rparr>
                 else x)"
    have p: "pos x < length str" by (rule cat_not_NUL_less [OF False])
    have q: "idx_ok str (set_end URI_PATH (pos x) x)" using 1(2) p by (intro idx_ok_end) simp_all
    have y: "idx_ok str y" "pos y < length str"
      using 1(2) p skip_query_le [OF p] idx_ok_pos [of str "(set_start URI_QUERY (pos x + 1) (set_end URI_PATH (pos x) x))\<lparr>pre_state := URI_QUERY\<rparr>" "skip_query str (pos x)"] q
      by (auto simp: y_def)
    have e: "path_loop str x = (if cat str (pos y) = CHR ''#''
           then (set_start URI_FRAGMENT (pos y + 1) (set_end (pre_state y) (pos y) y))\<lparr>pre_state := URI_FRAGMENT\<rparr>
           else path_loop str (y\<lparr>pos := pos y + 1\<rparr>))"
      using False unfolding path_loop.simps [of str x] y_def [symmetric] by (simp add: Let_def)
    show ?thesis
    proof (cases "cat str (pos y) = CHR ''#''")
      case True
      then show ?thesis using y idx_ok_end [OF y(1), of "pos y" "pre_state y"] by (simp add: e)
    next
      case f: False
      have "idx_ok str (y\<lparr>pos := pos y + 1\<rparr>)" using y by (simp add: idx_ok_pos)
      then show ?thesis using 1(1) [OF False y_def f] f by (simp add: e)
    qed
  qed
qed

lemma uri_path_ok:
  assumes "idx_ok str x"
  shows "idx_ok str (uri_path_phase str x)"
proof (cases "skip_path x")
  case False
  define y where "y = path_loop str (x\<lparr>pre_state := URI_PATH\<rparr>)"
  have y: "idx_ok str y" using path_loop_ok [of str "x\<lparr>pre_state := URI_PATH\<rparr>"] assms by (simp add: y_def)
  then have "pos y + strlen (drop (pos y) str) \<le> length str"
    by (intro strlen_drop_le) (simp add: idx_ok_def)
  then show ?thesis using False y idx_ok_end [OF y] by (simp add: uri_path_phase_def Let_def flip: y_def)
qed (use assms in \<open>simp add: uri_path_phase_def\<close>)

lemma uri_indexes_ok:
  assumes "scan_scheme str 0 = (e, i)" "e \<noteq> 0"
  shows "idx_ok str (uri_indexes str e i)"
proof -
  have "e \<le> length str" "i \<le> length str" using scan_scheme_le [OF assms] by simp_all
  then have "idx_ok str (uri_begin str e i)" by (rule uri_begin_ok)
  then show ?thesis unfolding uri_indexes_def by (intro uri_path_ok uri_authority_ok)
qed

text \<open>
  Where a host that begins with a bracket ends: the colon right after the bracket is passed over, since
  the address has begun and not ended.
\<close>

definition host_end :: "char \<Rightarrow> bool" where
  "host_end c \<longleftrightarrow> c \<in> {NUL, CHR ''/'', CHR ''?'', CHR ''#''}"

definition host_ok :: "string \<Rightarrow> uri_idx \<Rightarrow> bool" where
  "host_ok str x \<longleftrightarrow> (cat str (start_idx x ! URI_HOST) = CHR ''['' \<and> end_idx x ! URI_HOST = start_idx x ! URI_HOST + 1
     \<longrightarrow> host_end (cat str (end_idx x ! URI_HOST)))"

definition v6_ok :: "string \<Rightarrow> uri_idx \<Rightarrow> bool" where
  "v6_ok str x \<longleftrightarrow> length (start_idx x) = 7 \<and> length (end_idx x) = 7 \<and> start_idx x ! URI_HOST \<le> pos x \<and> end_idx x ! URI_HOST \<le> pos x
     \<and> host_ok str x \<and> (cat str (start_idx x ! URI_HOST) = CHR ''['' \<and> pos x \<le> start_idx x ! URI_HOST + 1 \<longrightarrow> in_ipv6 x)"

lemma host_ok_end:
  "host_ok str x \<Longrightarrow> length (end_idx x) = 7 \<Longrightarrow> host_end (cat str v) \<Longrightarrow> host_ok str (set_end k v x)"
  by (cases "k = URI_HOST") (auto simp: host_ok_def set_end_def)

lemma host_ok_simps [simp]:
  "host_ok str (x\<lparr>pre_state := s\<rparr>) = host_ok str x" "host_ok str (x\<lparr>in_ipv6 := b\<rparr>) = host_ok str x"
  "host_ok str (x\<lparr>skip_path := b\<rparr>) = host_ok str x" "host_ok str (x\<lparr>pos := n\<rparr>) = host_ok str x"
  "k \<noteq> URI_HOST \<Longrightarrow> host_ok str (set_start k v x) = host_ok str x"
  "k \<noteq> URI_HOST \<Longrightarrow> host_ok str (set_end k v x) = host_ok str x"
  by (simp_all add: host_ok_def set_start_def set_end_def)

lemma authority_step_colon6:
  assumes "v6_ok str x" "cat str (pos x) = CHR '':''" "authority_step str x = Inl y"
  shows "v6_ok str (y\<lparr>pos := pos y + 1\<rparr>)"
proof -
  have a: "authority_of (cat str (pos x)) = URI_HOST" using assms(2) by (simp add: authority_of_eq)
  define in6 where "in6 = (in_ipv6 x \<and> cat str (pos x - 1) \<noteq> CHR '']'')"
  have y: "y = (if in6 then x\<lparr>in_ipv6 := True\<rparr>
      else (set_start URI_PORT (pos x + 1) (set_end URI_HOST (pos x) (x\<lparr>in_ipv6 := False\<rparr>)))\<lparr>pre_state := URI_PORT\<rparr>)"
    using assms(3) a by (cases x) (auto simp: authority_step_def in6_def Let_def split: if_splits)
  have n: "pos x \<noteq> start_idx x ! URI_HOST" if "cat str (start_idx x ! URI_HOST) = CHR ''[''" using assms(2) that by auto
  have b: "in6" if "cat str (start_idx x ! URI_HOST) = CHR ''[''" "pos x = start_idx x ! URI_HOST + 1"
    using assms(1) that by (simp add: v6_ok_def in6_def)
  show ?thesis
    using assms(1) n b unfolding y by (cases "in6") (auto simp: v6_ok_def host_ok_def set_start_def set_end_def)
qed

lemma authority_step_host:
  assumes "v6_ok str x"
  shows "(authority_step str x = Inl y \<longrightarrow> v6_ok str (y\<lparr>pos := pos y + 1\<rparr>))
    \<and> (authority_step str x = Inr y \<longrightarrow> host_ok str y \<and> length (end_idx y) = 7
        \<and> (pre_state y = URI_PART_ELEMENTS \<or> host_end (cat str (pos y))))"
proof -
  note v = assms [unfolded v6_ok_def]
  have "authority_of (cat str (pos x)) \<in> {0, URI_USERINFO, URI_HOST, URI_QUERY, URI_FRAGMENT, URI_PATH, URI_PART_ELEMENTS}"
    by (simp add: authority_of_eq)
  then consider "authority_of (cat str (pos x)) = 0" | "authority_of (cat str (pos x)) = URI_USERINFO" | "authority_of (cat str (pos x)) = URI_HOST"
    | "authority_of (cat str (pos x)) = URI_QUERY" | "authority_of (cat str (pos x)) = URI_FRAGMENT" | "authority_of (cat str (pos x)) = URI_PATH"
    | "authority_of (cat str (pos x)) = URI_PART_ELEMENTS"
    by (elim insertE emptyE)
  then show ?thesis
  proof cases
    case 1
    then show ?thesis using v by (auto simp: authority_step_def v6_ok_def)
  next
    case 2
    then show ?thesis using v by (auto simp: authority_step_def v6_ok_def host_ok_def set_start_def set_end_def Let_def)
  next
    case 3
    then have "cat str (pos x) = CHR '':''" by (simp add: authority_of_eq split: if_splits)
    then show ?thesis using authority_step_colon6 [OF assms] 3 by (auto simp: authority_step_def Let_def split: if_splits)
  next
    case 4
    then have "host_end (cat str (pos x))" by (simp add: authority_of_eq host_end_def split: if_splits)
    then have x1: "host_ok str (set_end (pre_state x) (pos x) x)" using v host_ok_end by blast
    have "end_idx (set_end (pre_state x) (pos x) x) ! URI_HOST \<le> pos x"
      using v by (cases "pre_state x = URI_HOST") (simp_all add: set_end_def)
    then have "v6_ok str (((set_start URI_QUERY (pos x + 1) (set_end (pre_state x) (pos x) x))\<lparr>pre_state := URI_QUERY, skip_path := True\<rparr>)\<lparr>pos := pos x + 1\<rparr>)"
      using v x1 unfolding v6_ok_def by (simp add: set_start_def set_end_def host_ok_def)
    then show ?thesis using 4 by (auto simp: authority_step_def Let_def)
  next
    case 5
    then have "host_end (cat str (pos x))" by (simp add: authority_of_eq host_end_def split: if_splits)
    then have "host_ok str (set_end (pre_state x) (pos x) x)" using v host_ok_end by blast
    then show ?thesis using v 5 by (auto simp: authority_step_def Let_def) (simp_all add: set_start_def set_end_def)
  next
    case 6
    then have "host_end (cat str (pos x))" by (simp add: authority_of_eq host_end_def split: if_splits)
    then show ?thesis using v 6 by (auto simp: authority_step_def v6_ok_def Let_def) (simp_all add: set_start_def)
  next
    case 7
    then have "host_end (cat str (pos x))" by (simp add: authority_of_eq host_end_def split: if_splits)
    then show ?thesis using v 7 by (auto simp: authority_step_def)
  qed
qed

lemma authority_loop_host:
  "v6_ok str x \<Longrightarrow> host_ok str (authority_loop str x) \<and> length (end_idx (authority_loop str x)) = 7
     \<and> (pre_state (authority_loop str x) = URI_PART_ELEMENTS \<or> host_end (cat str (pos (authority_loop str x))))"
proof (induction str x rule: authority_loop.induct)
  case (1 str x)
  show ?case
  proof (cases "authority_step str x")
    case (Inl y)
    then show ?thesis using 1(1) [OF Inl] authority_step_host [OF 1(2), of y] by (simp add: authority_loop.simps [of str x])
  next
    case (Inr y)
    then show ?thesis using authority_step_host [OF 1(2), of y] by (simp add: authority_loop.simps [of str x])
  qed
qed

lemma path_loop_host: "host_ok str x \<Longrightarrow> pre_state x \<noteq> URI_HOST \<Longrightarrow> host_ok str (path_loop str x) \<and> pre_state (path_loop str x) \<noteq> URI_HOST"
proof (induction str x rule: path_loop.induct)
  case (1 str x)
  then show ?case by (subst (1 2) path_loop.simps) (simp add: Let_def)
qed

lemma uri_begin_host:
  assumes "i \<noteq> 0"
  shows "v6_ok str (uri_begin str e i) \<and> start_idx (uri_begin str e i) ! URI_PATH = 0
    \<or> host_ok str (uri_begin str e i) \<and> pre_state (uri_begin str e i) = URI_PATH \<and> start_idx (uri_begin str e i) ! URI_PATH \<noteq> 0"
proof (cases "cat str i = CHR ''/'' \<and> cat str (i + 1) = CHR ''/''")
  case True
  have "v6_ok str (uri_begin str e i) \<and> start_idx (uri_begin str e i) ! URI_PATH = 0"
    unfolding uri_begin_def Let_def if_P [OF True]
    by (cases "cat str (i + 2) = CHR ''[''") (simp_all add: v6_ok_def host_ok_def set_start_def)
  then show ?thesis by simp
next
  case False
  show ?thesis unfolding uri_begin_def Let_def if_not_P [OF False] using assms by (simp add: host_ok_def set_start_def)
qed

lemma uri_indexes_host:
  assumes "i \<noteq> 0"
  shows "host_ok str (uri_indexes str e i)"
proof -
  define x where "x = uri_begin str e i"
  define y where "y = (if start_idx x ! URI_PATH = 0 then authority_loop str x else x)"
  have y: "host_ok str y" "pre_state y = URI_HOST \<Longrightarrow> length (end_idx y) = 7 \<and> host_end (cat str (pos y))"
  proof -
    consider (auth) "v6_ok str x" "start_idx x ! URI_PATH = 0" | (path) "host_ok str x" "pre_state x = URI_PATH" "start_idx x ! URI_PATH \<noteq> 0"
      using uri_begin_host [OF assms, of str e] unfolding x_def by auto
    then have "host_ok str y \<and> (pre_state y = URI_HOST \<longrightarrow> length (end_idx y) = 7 \<and> host_end (cat str (pos y)))"
    proof cases
      case auth
      then show ?thesis using authority_loop_host [OF auth(1)] by (auto simp: y_def)
    next
      case path
      then show ?thesis by (simp add: y_def)
    qed
    then show "host_ok str y" "pre_state y = URI_HOST \<Longrightarrow> length (end_idx y) = 7 \<and> host_end (cat str (pos y))" by simp_all
  qed
  have "host_ok str (set_end (pre_state y) (pos y) y)"
    using y host_ok_end [of str y "pos y" "pre_state y"] by (cases "pre_state y = URI_HOST") simp_all
  then have a: "host_ok str (uri_authority_phase str x)" using y(1) by (simp add: uri_authority_phase_def Let_def flip: y_def)
  show ?thesis
    using path_loop_host [of str "(uri_authority_phase str x)\<lparr>pre_state := URI_PATH\<rparr>"] a
    by (simp add: uri_indexes_def uri_path_phase_def Let_def flip: x_def)
qed

lemma uri_part_span:
  assumes "al k" "k \<noteq> URI_HOST \<or> cat str (start_idx x ! k) \<noteq> CHR ''[''" "end_idx x ! k \<le> length str"
  shows "uri_part al str x k = Ret (Some (span str x k))"
  using assms by (auto simp: uri_part_def span_def Let_def)

lemma uri_part_bracket:
  assumes "al URI_HOST" "span str x URI_HOST = Some (CHR ''['' # h @ [c])"
    and "end_idx x ! URI_HOST \<le> length str" "length str < 2 ^ 31"
  shows "uri_part al str x URI_HOST = Ret (Some (Some h))"
proof -
  note S = span_SomeD [OF assms(2,3)]
  let ?s = "start_idx x ! URI_HOST"
  have d: "take (length h + 2) (drop ?s str) = CHR ''['' # h @ [c]"
    using S by simp
  then have c: "cat str ?s = CHR ''[''"
    using cat_drop_append [of ?s str "CHR ''['' # h @ [c]" "drop (length h + 2) (drop ?s str)" 0]
    by (metis append_take_drop_id add_0_right length_Cons nth_Cons_0 zero_less_Suc)
  have "take (length h) (drop (Suc ?s) str) = h"
  proof -
    have "take (length h) (drop (Suc ?s) str) = take (length h) (drop 1 (take (length h + 2) (drop ?s str)))"
      by (simp add: drop_take)
    then show ?thesis unfolding d by simp
  qed
  moreover have "(int (end_idx x ! URI_HOST) - int ?s - 2) mod 2 ^ 64 = int (length h)"
  proof -
    have "int (end_idx x ! URI_HOST) - int ?s - 2 = int (length h)"
      using S by auto
    moreover have "int (length h) < 2 ^ 64"
      using S assms(3,4) by auto
    ultimately show ?thesis by (simp only: mod_pos_pos_trivial of_nat_0_le_iff)
  qed
  ultimately show ?thesis
    using S assms(1,3) c by (auto simp: uri_part_def Let_def)
qed

section \<open>Properties\<close>

lemma uri_fill_all:
  assumes "\<forall>i<7. uri_part al str y i = Ret (Some (P i))"
  shows "uri_fill al str y [0..<7] u =
    Ret (0, u\<lparr>u_scheme := P 0, u_userinfo := P 1, u_host := P 2, u_port := P 3,
      u_path := P 6, u_query := P 4, u_fragment := P 5, u_state := URI_STATE_SUCCESS\<rparr>)"
proof -
  have "[0..<7] = [0, 1, 2, 3, 4, 5, 6::nat]"
    by (simp add: upt_rec)
  then show ?thesis
    using assms by (simp add: uri_set_part_def)
qed

lemma NUL_notin_uri_print: "wf_uri sc ui v6 h po p q f \<Longrightarrow> NUL \<notin> set (uri_print sc ui v6 h po p q f)"
proof -
  assume w: "wf_uri sc ui v6 h po p q f"
  have "\<not> valid_at URI_SCHEME NUL" "\<not> valid_at URI_USERINFO NUL" "\<not> valid_at URI_HOST NUL" "\<not> isdigit NUL"
    using valid_at_userinfo_not [of NUL] valid_at_host_not [of NUL]
    by (auto simp: valid_at_scheme isalnum_def isdigit_def isupper_def islower_def)
  with w show ?thesis
    by (auto simp: wf_uri_def uri_print_def wf_host_def wf_tail_def list_all_iff opt_str_def
        host_str_def split: option.splits if_splits)
qed

lemma valid_at_scheme_not: "valid_at URI_SCHEME c \<Longrightarrow> c \<noteq> NUL \<and> c \<noteq> CHR '':''"
  by (auto simp: valid_at_scheme isalnum_def isdigit_def isupper_def islower_def)

text \<open>
  C23. Parsing a printed URI returns its parts: for a scheme, an optional user information,
  a host that is a name or a bracketed address, an optional port, a path, an optional query
  and an optional fragment that only use the characters the tables allow, \<open>URIParser::parse\<close>
  succeeds on their concatenation and stores exactly the parts (an empty part as NULL, a
  bracketed host without its brackets).
\<close>

theorem uri_parse_print:
  assumes w: "wf_uri sc ui v6 h po p q f"
    and len: "length (uri_print sc ui v6 h po p q f) < 2 ^ 31"
    and al: "\<forall>k. al k"
  shows "uri_parse al (uri_print sc ui v6 h po p q f) u =
    Ret (0, u\<lparr>u_scheme := Some sc, u_userinfo := nonempty ui,
      u_host := (if v6 then Some h else nonempty (Some h)), u_port := nonempty po,
      u_path := nonempty (Some p), u_query := nonempty q, u_fragment := nonempty f,
      u_state := URI_STATE_SUCCESS\<rparr>)"
proof -
  define str where "str = uri_print sc ui v6 h po p q f"
  have n: "NUL \<notin> set str"
    using NUL_notin_uri_print [OF w] by (simp add: str_def)
  have "scan_scheme str 0 = (0 + length sc, 0 + length sc + 1)"
  proof (rule scan_scheme_skip)
    show "drop 0 str = sc @ CHR '':'' # (''//'' @ opt_str (\<lambda>u. u @ ''@'') ui @ host_str v6 h
        @ opt_str (\<lambda>d. CHR '':'' # d) po @ tail_str p q f)"
      by (simp add: str_def uri_print_def)
    show "\<forall>c\<in>set sc. c \<noteq> NUL \<and> c \<noteq> CHR '':''"
      using w valid_at_scheme_not by (auto simp: wf_uri_def list_all_iff)
  qed
  then have scan: "scan_scheme str 0 = (length sc, length sc + 1)" by simp
  define y where "y = uri_authority_phase str (uri_begin str (length sc) (length sc + 1))"
  have y: "front_spans str y sc ui v6 h po" "idx_lengths y" "pos y \<le> length str"
    "drop (pos y) str = tail_str p q f" "start_idx y ! 4 = 0" "start_idx y ! 5 = 0"
    "end_idx y ! 4 = 0" "end_idx y ! 5 = 0" "end_idx y ! 6 = 0"
    "if p = [] then skip_path y \<and> start_idx y ! 6 = 0 else \<not> skip_path y \<and> start_idx y ! 6 = pos y"
    "\<forall>k<4. end_idx y ! k \<le> length str" "cat str (start_idx y ! URI_HOST) = CHR ''['' \<longleftrightarrow> v6"
    using authority_phase_print [OF w] unfolding str_def [symmetric] y_def by blast+
  define R where "R = uri_path_phase str y"
  have wt: "wf_tail p q f" using w by (simp add: wf_uri_def)
  have R: "(\<forall>i<4. start_idx R ! i = start_idx y ! i \<and> end_idx R ! i = end_idx y ! i)
    \<and> span str R 6 = nonempty (Some p) \<and> span str R 4 = nonempty q \<and> span str R 5 = nonempty f"
  proof (cases "p = []")
    case True
    then show ?thesis
      using y wt by (auto simp: R_def uri_path_phase_def span_def nonempty_def wf_tail_def)
  next
    case False
    then show ?thesis
      unfolding R_def using y wt n
      by (intro uri_path_phase_tail) (auto simp: wf_tail_def opt_str_def)
  qed
  have sp: "span str R k = span str y k" if "k < 4" for k
    using R that by (simp add: span_def)
  have spans: "span str R 0 = Some sc" "span str R 1 = nonempty ui"
    "span str R 2 = nonempty (Some (host_str v6 h))" "span str R 3 = nonempty po"
    using y(1) sp by (auto simp: front_spans_def)
  have valid: "uri_valid str R"
  proof -
    have "\<forall>c\<in>{CHR ''['', CHR '']''}. valid_at URI_HOST c"
      unfolding valid_at_def valid_char_def by code_simp
    then have "case span str R k of None \<Rightarrow> True | Some t \<Rightarrow> list_all (valid_at k) t" if "k < 4" for k
      using that w spans valid_at_port
      by (auto simp: All_less_Suc numeral_eq_Suc less_Suc_eq nonempty_def wf_uri_def opt_str_def
          wf_host_def host_str_def list_all_iff split: option.splits if_splits)
    then have "\<forall>j\<in>set [start_idx R ! k..<end_idx R ! k]. valid_at k (cat str j)" if "k < 4" for k
      using that y(11) R by (intro span_valid) auto
    then show ?thesis
      unfolding uri_valid_def by (metis atLeastLessThan_iff set_upt)
  qed
  define P where "P k = (if k = URI_HOST \<and> v6 then Some h else span str R k)" for k
  have ends: "end_idx R ! k \<le> length str" if "k < 7" for k
    using uri_indexes_ok [OF scan] w idx_okD that by (auto simp: uri_indexes_def R_def y_def wf_uri_def)
  have "uri_part al str R k = Ret (Some (P k))" if "k < 7" for k
  proof (cases "k = URI_HOST \<and> v6")
    case True
    then show ?thesis
      using uri_part_bracket [of al str R h "CHR '']''"] al spans y(11) R len [folded str_def]
      by (simp add: P_def host_str_def nonempty_def)
  next
    case False
    then show ?thesis
      using al y(12) R ends [OF that] unfolding P_def by (subst uri_part_span) auto
  qed
  then have "uri_fill al str R [0..<7] (u\<lparr>u_state := URI_STATE_INVALID\<rparr>) = Ret (0,
      u\<lparr>u_state := URI_STATE_INVALID, u_scheme := P 0, u_userinfo := P 1, u_host := P 2, u_port := P 3,
      u_path := P 6, u_query := P 4, u_fragment := P 5, u_state := URI_STATE_SUCCESS\<rparr>)"
    by (intro uri_fill_all) simp
  moreover have "uri_indexes str (length sc) (Suc (length sc)) = R"
    by (simp add: uri_indexes_def R_def y_def)
  moreover have "P 0 = Some sc" "P 1 = nonempty ui" "P 2 = (if v6 then Some h else nonempty (Some h))"
    "P 3 = nonempty po" "P 6 = nonempty (Some p)" "P 4 = nonempty q" "P 5 = nonempty f"
    using w spans R by (auto simp: P_def wf_uri_def wf_host_def host_str_def nonempty_def)
  moreover have "sc \<noteq> []"
    using w by (simp add: wf_uri_def)
  ultimately show ?thesis
    using scan valid n by (simp add: uri_parse_def Let_def c_str_noNUL str_def [symmetric])
qed

theorem uri_parse_print_witness:
  "uri_parse (\<lambda>_. True) ''http://me:pw@[::1]:8080/a/b?x=1#top'' uri_init =
    Ret (0, uri_init\<lparr>u_scheme := Some ''http'', u_userinfo := Some ''me:pw'', u_host := Some ''::1'',
      u_port := Some ''8080'', u_path := Some ''/a/b'', u_query := Some ''x=1'',
      u_fragment := Some ''top'', u_state := URI_STATE_SUCCESS\<rparr>)"
proof -
  have w: "wf_uri ''http'' (Some ''me:pw'') True ''::1'' (Some ''8080'') ''/a/b'' (Some ''x=1'') (Some ''top'')"
    by code_simp
  have e: "uri_print ''http'' (Some ''me:pw'') True ''::1'' (Some ''8080'') ''/a/b'' (Some ''x=1'') (Some ''top'')
      = ''http://me:pw@[::1]:8080/a/b?x=1#top''"
    by code_simp
  have l: "length (uri_print ''http'' (Some ''me:pw'') True ''::1'' (Some ''8080'') ''/a/b''
      (Some ''x=1'') (Some ''top'')) < 2 ^ 31"
    unfolding e by simp
  have a: "\<forall>k::nat. (\<lambda>_. True) k" by simp
  show ?thesis
    using uri_parse_print [OF w l a, of uri_init] unfolding e by (simp add: nonempty_def)
qed

lemma uri_fill_ok_parts:
  "uri_fill al str x ks u = Ret (0, v) \<Longrightarrow> u_state v = URI_STATE_SUCCESS"
proof (induction ks arbitrary: u)
  case Nil
  then show ?case by auto
next
  case (Cons k ks)
  then show ?case by (auto split: outcome.splits option.splits)
qed

text \<open>Parts that are not touched by the remaining copies keep their value.\<close>

lemma uri_fill_result:
  "uri_fill al str x [0..<7] u = Ret (0, v) \<Longrightarrow>
     uri_part al str x 0 = Ret (Some (u_scheme v)) \<and> uri_part al str x 1 = Ret (Some (u_userinfo v))
   \<and> uri_part al str x 2 = Ret (Some (u_host v)) \<and> uri_part al str x 3 = Ret (Some (u_port v))"
proof -
  have "[0..<7] = [0, 1, 2, 3, 4, 5, 6::nat]"
    by (simp add: upt_rec)
  then show "uri_fill al str x [0..<7] u = Ret (0, v) \<Longrightarrow> ?thesis"
    by (simp add: uri_set_part_def split: outcome.splits option.splits) auto
qed

lemma uri_part_chars:
  assumes v: "\<forall>j\<in>set [start_idx x ! k..<end_idx x ! k]. valid_at k (cat str j)"
    and p: "uri_part al str x k = Ret (Some (Some t))"
  shows "list_all (valid_at k) t"
proof -
  have sub: "list_all (valid_at k) (take m (drop i str))"
    if "start_idx x ! k \<le> i" "i + m \<le> end_idx x ! k" for i m
  proof (unfold list_all_length, intro allI impI)
    fix j assume j: "j < length (take m (drop i str))"
    then have "valid_at k (cat str (i + j))"
      using v that by auto
    moreover have "i + j < length str"
      using j by (auto simp: less_diff_conv add.commute)
    then have "take m (drop i str) ! j = cat str (i + j)"
      using j by (simp add: cat_def)
    ultimately show "valid_at k (take m (drop i str) ! j)"
      by simp
  qed
  show ?thesis
  proof (cases "end_idx x ! k - start_idx x ! k \<ge> 2")
    case True
    define d where "d = (int (end_idx x ! k) - int (start_idx x ! k) - 2) mod 2 ^ 64"
    have "d \<le> int (end_idx x ! k) - int (start_idx x ! k) - 2"
      unfolding d_def using True by (intro zmod_le_nonneg_dividend) linarith
    then have "start_idx x ! k + 1 + nat d \<le> end_idx x ! k"
      using True by linarith
    then have "list_all (valid_at k) (take (nat d) (drop (Suc (start_idx x ! k)) str))"
      by (intro sub) auto
    then show ?thesis
      using p by (auto simp: uri_part_def Let_def d_def split: if_splits intro!: sub)
  next
    case False
    then have "end_idx x ! k \<le> start_idx x ! k \<or> end_idx x ! k = start_idx x ! k + 1"
      by linarith
    then show ?thesis
      using p by (auto simp: uri_part_def Let_def split: if_splits intro!: sub)
  qed
qed

text \<open>
  What the parser accepts: when \<open>URIParser::parse\<close> returns 0 the state is
  \<open>URI_STATE_SUCCESS\<close>, every character of the scheme, the user information, the host and the
  port is one its table allows, so the port is decimal digits, and it can only do so if the
  string holds a colon.
\<close>

theorem uri_parse_accepts:
  assumes "uri_parse al str u = Ret (0, v)"
  shows "u_state v = URI_STATE_SUCCESS
    \<and> list_all (valid_at URI_SCHEME) (opt_str id (u_scheme v))
    \<and> list_all (valid_at URI_USERINFO) (opt_str id (u_userinfo v))
    \<and> list_all (valid_at URI_HOST) (opt_str id (u_host v))
    \<and> list_all isdigit (opt_str id (u_port v)) \<and> CHR '':'' \<in> set str"
proof -
  obtain e i where sc: "scan_scheme (c_str str) 0 = (e, i)" by fastforce
  define y where "y = uri_indexes (c_str str) e i"
  have e: "e \<noteq> 0" and valid: "uri_valid (c_str str) y"
    and fill: "uri_fill al (c_str str) y [0..<7] (u\<lparr>u_state := URI_STATE_INVALID\<rparr>) = Ret (0, v)"
    using assms by (auto simp: uri_parse_def sc y_def Let_def split: if_splits)
  have chars: "list_all (valid_at k) (opt_str id w)"
    if "k < 4" "uri_part al (c_str str) y k = Ret (Some w)" for k w
  proof (cases w)
    case (Some t)
    moreover have "\<forall>j\<in>set [start_idx y ! k..<end_idx y ! k]. valid_at k (cat (c_str str) j)"
      using valid that(1) by (auto simp: uri_valid_def)
    ultimately show ?thesis
      using uri_part_chars that(2) by (auto simp: opt_str_def)
  qed (simp add: opt_str_def)
  have "CHR '':'' \<in> set (c_str str)"
  proof (rule ccontr)
    assume "CHR '':'' \<notin> set (c_str str)"
    then have "cat (c_str str) k \<noteq> CHR '':''" for k
      by (auto simp: cat_def dest: nth_mem)
    then have "fst (scan_scheme (c_str str) k) = 0" for k
      by (induction "c_str str" k rule: scan_scheme.induct) (auto simp: scan_scheme.simps)
    with sc e show False by (metis fst_conv)
  qed
  then have "CHR '':'' \<in> set str"
    by (auto simp: c_str_def dest: set_takeWhileD)
  moreover have "valid_at URI_PORT = isdigit"
    using valid_at_port by blast
  moreover note uri_fill_result [OF fill]
  ultimately show ?thesis
    using uri_fill_ok_parts [OF fill] chars [of 0] chars [of 1] chars [of 2] chars [of 3] by simp
qed

theorem uri_parse_accepts_witness:
  "\<exists>v. uri_parse (\<lambda>_. True) ''http://h:80/'' uri_init = Ret (0, v) \<and> list_all isdigit (opt_str id (u_port v))"
proof -
  have "case uri_parse (\<lambda>_. True) ''http://h:80/'' uri_init of UB \<Rightarrow> False | Ret r \<Rightarrow> fst r = 0"
    by code_simp
  then obtain v where v: "uri_parse (\<lambda>_. True) ''http://h:80/'' uri_init = Ret (0, v)"
    by (auto split: outcome.splits)
  then show ?thesis
    using uri_parse_accepts [OF v] by blast
qed

end
