(* ===== verification/URIQuery.thy ===== *)
theory URIQuery
  imports URIParser
begin

text \<open>
  The queries and the copies of \<open>src/common/URIParser.cc\<close>: the two query splitters against
  one list of key and value pairs, \<open>ParsedURI::copy\<close> on a parsed URI, and the strings on
  which \<open>URIParser::parse\<close> is safe.
\<close>

section \<open>Query splitters\<close>

lemma split_query_strict_loop_spec:
  "split_query_strict_loop arr res k =
     (let vs = map snd (filter (\<lambda>kv. fst kv = k) (List.map_filter kv_of arr))
      in if vs = [] then res k else Some ((case res k of None \<Rightarrow> [] | Some ws \<Rightarrow> ws) @ vs))"
  by (induction arr arbitrary: res) (auto simp: map_filter_simps Let_def split: option.splits)

lemma split_query_loop_spec:
  "split_query_loop arr res k =
     (case res k of Some v \<Rightarrow> Some v | None \<Rightarrow> map_of (List.map_filter kv_of arr) k)"
  by (induction arr arbitrary: res) (auto simp: map_filter_simps split: option.splits)

lemma map_of_filter_hd:
  "map_of kvs k =
     (let vs = map snd (filter (\<lambda>kv. fst kv = k) kvs) in if vs = [] then None else Some (hd vs))"
  by (induction kvs) (auto simp: Let_def)

text \<open>
  Both query splitters read the same list of pairs: \<open>split_query_strict\<close> keeps every
  value of a key in the order of the query, and \<open>split_query\<close> keeps the first one.
\<close>

theorem split_query_correct:
  "split_query_strict q k =
     (let vs = map snd (filter (\<lambda>kv. fst kv = k) (List.map_filter kv_of (str_split q (CHR ''&''))))
      in if vs = [] then None else Some vs)
   \<and> split_query q k = map_option hd (split_query_strict q k)"
proof -
  have "List.map_filter kv_of (str_split [] (CHR ''&'')) = []"
    by (simp add: map_filter_simps kv_of_def)
  then show ?thesis
    by (simp add: split_query_strict_def split_query_def split_query_strict_loop_spec
        split_query_loop_spec map_of_filter_hd [of _ k] Let_def)
qed

section \<open>Copies of a parsed URI\<close>

lemma uri_part_noNUL:
  assumes "NUL \<notin> set str" "uri_part al str x k = Ret (Some (Some t))"
  shows "NUL \<notin> set t"
  using assms by (auto simp: uri_part_def Let_def split: if_splits dest!: in_set_takeD in_set_dropD)

lemma uri_fill_parts:
  assumes "uri_fill al str x [0..<7] u = Ret (0, v)" "NUL \<notin> set str"
  shows "NUL \<notin> set (opt_str id (u_scheme v)) \<and> NUL \<notin> set (opt_str id (u_userinfo v))
    \<and> NUL \<notin> set (opt_str id (u_host v)) \<and> NUL \<notin> set (opt_str id (u_port v))
    \<and> NUL \<notin> set (opt_str id (u_path v)) \<and> NUL \<notin> set (opt_str id (u_query v))
    \<and> NUL \<notin> set (opt_str id (u_fragment v)) \<and> u_state v = URI_STATE_SUCCESS"
proof -
  have p: "NUL \<notin> set (opt_str id w)" if "uri_part al str x k = Ret (Some w)" for k w
    using that uri_part_noNUL [OF assms(2)] by (cases w) (auto simp: opt_str_def)
  have "[0..<7] = [0, 1, 2, 3, 4, 5, 6::nat]"
    by (simp add: upt_rec)
  with assms(1) show ?thesis
    by (simp add: uri_set_part_def split: outcome.splits option.splits) (auto dest!: p)
qed

lemma dup_part_ok: "NUL \<notin> set (opt_str id p) \<Longrightarrow> al k \<Longrightarrow> dup_part al k p = Some p"
  by (cases p) (auto simp: dup_part_def opt_str_def c_str_noNUL)

text \<open>
  Copying what a successful \<open>URIParser::parse\<close> returned gives the same URI when no
  allocation fails, and a URI without parts, in state \<open>URI_STATE_ERROR\<close>, when the copy of a
  part fails.
\<close>

theorem uri_copy_parsed:
  assumes "uri_parse al str u = Ret (0, v)"
  shows "uri_copy (\<lambda>_. True) v = v
    \<and> (u_scheme v \<noteq> None \<and> \<not> al' 0 \<longrightarrow> uri_copy al' v = uri_init\<lparr>u_state := URI_STATE_ERROR, u_error := ENOMEM\<rparr>)"
proof -
  obtain e i where sc: "scan_scheme (c_str str) 0 = (e, i)" by fastforce
  have fill: "uri_fill al (c_str str) (uri_indexes (c_str str) e i) [0..<7] (u\<lparr>u_state := URI_STATE_INVALID\<rparr>) = Ret (0, v)"
    using assms by (auto simp: uri_parse_def sc Let_def split: if_splits)
  note parts = uri_fill_parts [OF fill NUL_notin_c_str]
  then have "uri_copy (\<lambda>_. True) v = v"
    by (simp add: uri_copy_def dup_part_ok)
  moreover have "dup_part al' 0 (u_scheme v) = None" if "u_scheme v \<noteq> None" "\<not> al' 0"
    using that by (auto simp: dup_part_def)
  ultimately show ?thesis
    using parts by (auto simp: uri_copy_def)
qed

theorem uri_copy_parsed_witness:
  "\<exists>v. uri_parse (\<lambda>_. True) ''http://h/p?q'' uri_init = Ret (0, v) \<and> uri_copy (\<lambda>_. True) v = v
     \<and> u_scheme v = Some ''http''
     \<and> uri_copy (\<lambda>k. k \<noteq> 0) v = uri_init\<lparr>u_state := URI_STATE_ERROR, u_error := ENOMEM\<rparr>"
proof -
  have "case uri_parse (\<lambda>_. True) ''http://h/p?q'' uri_init of UB \<Rightarrow> False
      | Ret r \<Rightarrow> fst r = 0 \<and> u_scheme (snd r) = Some ''http''"
    by code_simp
  then obtain v where "uri_parse (\<lambda>_. True) ''http://h/p?q'' uri_init = Ret (0, v)" "u_scheme v = Some ''http''"
    by (auto split: outcome.splits)
  then show ?thesis
    using uri_copy_parsed [of "\<lambda>_. True" "''http://h/p?q''" uri_init v "\<lambda>k. k \<noteq> 0"] by auto
qed

section \<open>Safety of the copies\<close>







lemma uri_parse_lone_bracket: "uri_parse (\<lambda>_. True) ''http://[/x'' uri_init = UB"
  by code_simp

lemma uri_parse_open_bracket:
  "uri_parse (\<lambda>_. True) ''http://[abc/y'' uri_init = Ret (0, uri_init\<lparr>u_scheme := Some ''http'',
     u_host := Some ''ab'', u_path := Some ''/y'', u_state := URI_STATE_SUCCESS\<rparr>)"
  by code_simp

lemma uri_parse_query_colon:
  "uri_parse (\<lambda>_. True) ''http://h?x=1:2'' uri_init = Ret (-1, uri_init\<lparr>u_state := URI_STATE_INVALID\<rparr>)"
  by code_simp

lemma uri_parse_query_at:
  "uri_parse (\<lambda>_. True) ''http://h?x=a@b'' uri_init = Ret (-1, uri_init\<lparr>u_state := URI_STATE_INVALID\<rparr>)"
  by code_simp

lemma uri_parse_query_query:
  "uri_parse (\<lambda>_. True) ''http://h?x=a?b'' uri_init = Ret (0, uri_init\<lparr>u_scheme := Some ''http'',
     u_host := Some ''h'', u_query := Some ''b'', u_state := URI_STATE_SUCCESS\<rparr>)"
  by code_simp

end
