(* ===== verification/HttpRoundTrip.thy ===== *)
theory HttpRoundTrip
  imports HttpStream
begin

text \<open>
  Round trips of the HTTP parser: a request written as a start line, header lines and a body
  with its length is parsed back, with the bytes after it left over.
\<close>

section \<open>Scanning printed lines\<close>

lemma line_scan_found:
  assumes "\<forall>c\<in>set pre. c \<noteq> CR \<and> \<not> bad c" "int (length pre) < mx" "i \<le> length pre"
  shows "line_scan bad mx (pre @ CRLF @ rest) i = Line (length pre)"
  using assms(3)
proof (induction "length pre - i" arbitrary: i)
  case 0
  then have "i = length pre" by simp
  then show ?case
    using assms(2) by (subst line_scan.simps) (simp add: nth_append)
next
  case (Suc n)
  then have "i < length pre" by simp
  moreover have "pre ! i \<in> set pre" using \<open>i < length pre\<close> by simp
  moreover have "line_scan bad mx (pre @ CRLF @ rest) (i + 1) = Line (length pre)"
    using Suc by (intro Suc(1)) auto
  ultimately show ?case
    using assms(1,2) by (subst line_scan.simps) (auto simp: nth_append)
qed

lemma name_scan_found:
  assumes "\<forall>c\<in>set pre. c \<noteq> CHR '':'' \<and> \<not> schar_le0 c" "length pre < 64" "length nb = 64"
  shows "\<exists>nb'. name_scan (pre @ CHR '':'' # rest) 0 nb = (Line (length pre), nb') \<and> length nb' = 64 \<and> c_str nb' = pre"
proof -
  have "name_scan (pre @ CHR '':'' # rest) i nb = (Line (length pre), take i nb @ drop i pre @ NUL # drop (Suc (length pre)) nb)"
    if "i \<le> length pre" "length nb = 64" for i nb
    using that
  proof (induction "length pre - i" arbitrary: i nb)
    case 0
    then have i: "i = length pre" by simp
    have "take i nb @ NUL # drop (Suc i) nb = nb[i := NUL]"
      using i 0(3) assms(2) by (simp add: upd_conv_take_nth_drop)
    then show ?case
      using i assms(2) by (subst name_scan.simps) (simp add: nth_append)
  next
    case (Suc n)
    then have i: "i < length pre" by simp
    then have c: "pre ! i \<noteq> CHR '':''" "\<not> schar_le0 (pre ! i)" using assms(1) by auto
    have l: "i < length nb" using i assms(2) Suc(4) by simp
    have "name_scan (pre @ CHR '':'' # rest) (i + 1) (nb[i := pre ! i])
        = (Line (length pre), take (i + 1) (nb[i := pre ! i]) @ drop (i + 1) pre @ NUL # drop (Suc (length pre)) (nb[i := pre ! i]))"
      using Suc by (intro Suc(1)) auto
    moreover have "take (i + 1) (nb[i := pre ! i]) = take i nb @ [pre ! i]"
      using l by (simp add: take_Suc_conv_app_nth)
    moreover have "drop (Suc (length pre)) (nb[i := pre ! i]) = drop (Suc (length pre)) nb"
      using i by simp
    moreover have "drop i pre = pre ! i # drop (i + 1) pre"
      using i by (simp add: Cons_nth_drop_Suc)
    ultimately show ?case
      using i c assms(2) by (subst name_scan.simps) (simp add: nth_append)
  qed
  from this [of 0 nb] assms(3) have s: "name_scan (pre @ CHR '':'' # rest) 0 nb
      = (Line (length pre), pre @ NUL # drop (Suc (length pre)) nb)" by simp
  have "NUL \<notin> set pre"
    using assms(1) by (auto simp: schar_le0_def)
  then have "c_str (pre @ NUL # drop (Suc (length pre)) nb) = pre"
    by (simp add: c_str_noNUL)
  then show ?thesis
    using s assms(2,3) by simp
qed

lemma value_line_found:
  assumes "\<forall>c\<in>set v. c \<noteq> CR \<and> \<not> schar_le0 c" "int (length hv) + int (length v) < HTTP_HEADER_VALUE_MAX" "r \<noteq> []"
  shows "value_line hv (v @ CR # r) = HvLine (hv @ v) r"
  using assms
proof (induction v arbitrary: hv)
  case Nil
  then show ?case by simp
next
  case (Cons c v)
  have "value_line (hv @ [c]) (v @ CR # r) = HvLine ((hv @ [c]) @ v) r"
    using Cons.prems by (intro Cons.IH) auto
  then show ?case using Cons.prems by simp
qed

definition wf_value :: "string \<Rightarrow> bool" where
  "wf_value v \<longleftrightarrow> list_all (\<lambda>c. c \<noteq> CR \<and> \<not> schar_le0 c) v \<and> length v < 8192
     \<and> (v = [] \<or> \<not> is_blank (hd v) \<and> \<not> is_blank (last v))"

definition wf_name :: "string \<Rightarrow> bool" where
  "wf_name n \<longleftrightarrow> list_all (\<lambda>c. c \<noteq> CR \<and> c \<noteq> CHR '':'' \<and> \<not> schar_le0 c) n \<and> length n < 64
     \<and> (n = [] \<or> \<not> is_blank (hd n))"

lemma value_scan_found:
  assumes "wf_value v" "c \<noteq> SP" "c \<noteq> TAB"
  shows "value_scan [] (SP # v @ CRLF @ c # r) = HvDone v (c # r)"
proof -
  have "dropWhile is_blank (SP # v @ CRLF @ c # r) = v @ CRLF @ c # r"
    using assms(1) by (cases v) (auto simp: is_blank_def wf_value_def)
  moreover have "value_line [] (v @ CR # LF # c # r) = HvLine ([] @ v) (LF # c # r)"
    using assms(1) by (intro value_line_found) (auto simp: wf_value_def list_all_iff)
  moreover have "rstrip v = v"
    using assms(1) by (cases v rule: rev_cases) (auto simp: rstrip_def wf_value_def)
  ultimately show ?thesis
    using assms(2,3) by (subst value_scan.simps) (simp add: is_blank_def)
qed

section \<open>A whole request\<close>

definition print_headers :: "(string \<times> string) list \<Rightarrow> string" where
  "print_headers hs = concat (map (\<lambda>(n, v). header_text n v) hs)"

definition print_head :: "string \<Rightarrow> string \<Rightarrow> string \<Rightarrow> (string \<times> string) list \<Rightarrow> string" where
  "print_head m u v hs = m @ [SP] @ u @ [SP] @ v @ CRLF @ print_headers hs @ CRLF"

text \<open>The effect of the header lines on the parser, without the scanning.\<close>

definition add_line :: "string \<times> string \<Rightarrow> http_parser \<Rightarrow> http_parser" where
  "add_line = (\<lambda>(n, v) q. check_message_header n v (q\<lparr>hp_header_list := hp_header_list q @ [new_line n v]\<rparr>))"

definition wf_header :: "string \<times> string \<Rightarrow> bool" where
  "wf_header = (\<lambda>(n, v). wf_name n \<and> wf_value v)"

lemma add_header_line: "http_parser_add_header True n v p = (0, add_line (n, v) p)"
  by (simp add: http_parser_add_header_def add_message_header_def add_line_def)

text \<open>The position of the parser, apart from what it has read.\<close>

definition set_pos :: "string \<Rightarrow> nat \<Rightarrow> hps \<Rightarrow> http_parser \<Rightarrow> http_parser" where
  "set_pos nb off st p = p\<lparr>hp_namebuf := nb, hp_header_offset := off, hp_header_state := st\<rparr>"

lemma set_pos_fields [simp]:
  "hp_header_state (set_pos nb off st p) = st" "hp_header_offset (set_pos nb off st p) = off"
  "hp_namebuf (set_pos nb off st p) = nb" "hp_header_list (set_pos nb off st p) = hp_header_list p"
  "set_pos nb off st (set_pos nb' off' st' p) = set_pos nb off st p"
  "(set_pos nb off st p)\<lparr>hp_header_offset := n\<rparr> = set_pos nb n st p"
  "(set_pos nb off st p)\<lparr>hp_header_state := st2\<rparr> = set_pos nb off st2 p"
  "(set_pos nb off st p)\<lparr>hp_namebuf := nb2\<rparr> = set_pos nb2 off st p"
  by (simp_all add: set_pos_def)

lemma set_pos_upd:
  "set_pos nb off st (p\<lparr>hp_header_list := x_header_list\<rparr>) = (set_pos nb off st p)\<lparr>hp_header_list := x_header_list\<rparr>"
  "set_pos nb off st (p\<lparr>hp_expect_continue := x_expect_continue\<rparr>) = (set_pos nb off st p)\<lparr>hp_expect_continue := x_expect_continue\<rparr>"
  "set_pos nb off st (p\<lparr>hp_has_connection := x_has_connection\<rparr>) = (set_pos nb off st p)\<lparr>hp_has_connection := x_has_connection\<rparr>"
  "set_pos nb off st (p\<lparr>hp_keep_alive := x_keep_alive\<rparr>) = (set_pos nb off st p)\<lparr>hp_keep_alive := x_keep_alive\<rparr>"
  "set_pos nb off st (p\<lparr>hp_has_keep_alive := x_has_keep_alive\<rparr>) = (set_pos nb off st p)\<lparr>hp_has_keep_alive := x_has_keep_alive\<rparr>"
  "set_pos nb off st (p\<lparr>hp_has_content_length := x_has_content_length\<rparr>) = (set_pos nb off st p)\<lparr>hp_has_content_length := x_has_content_length\<rparr>"
  "set_pos nb off st (p\<lparr>hp_chunked := x_chunked\<rparr>) = (set_pos nb off st p)\<lparr>hp_chunked := x_chunked\<rparr>"
  "set_pos nb off st (p\<lparr>hp_content_length := x_content_length\<rparr>) = (set_pos nb off st p)\<lparr>hp_content_length := x_content_length\<rparr>"
  "set_pos nb off st (p\<lparr>hp_transfer_length := x_transfer_length\<rparr>) = (set_pos nb off st p)\<lparr>hp_transfer_length := x_transfer_length\<rparr>"
  by (simp_all add: set_pos_def)

lemma set_pos_check: "check_message_header n v (set_pos nb off st p) = set_pos nb off st (check_message_header n v p)"
  unfolding check_message_header_def Let_def if_distrib [of "set_pos nb off st"] set_pos_upd by (rule refl)

lemma set_pos_add_line: "add_line h (set_pos nb off st p) = set_pos nb off st (add_line h p)"
  by (cases h) (simp add: add_line_def set_pos_upd [symmetric] set_pos_check)

lemma drop_pre: "drop (length pre) (pre @ t) = t"
  by simp

lemma round_header_name:
  assumes "wf_name n" "length nb = 64"
  shows "\<exists>nb'. length nb' = 64 \<and> c_str nb' = n
    \<and> header_round_ref al (pre @ n @ CHR '':'' # t) (set_pos nb (length pre) HPS_HEADER_NAME p)
        = Inl (set_pos nb' (length pre + length n + 1) HPS_HEADER_VALUE p)"
proof -
  obtain nb' where nb': "name_scan (n @ CHR '':'' # t) 0 nb = (Line (length n), nb')" "length nb' = 64" "c_str nb' = n"
    using name_scan_found [of n nb t] assms by (auto simp: wf_name_def list_all_iff)
  have "(n @ CHR '':'' # t) ! 0 \<noteq> CR"
    using assms(1) by (cases n) (auto simp: wf_name_def)
  then have "header_name_ref (n @ CHR '':'' # t) (set_pos nb (length pre) HPS_HEADER_NAME p)
      = (1, set_pos nb' (length pre + length n + 1) HPS_HEADER_VALUE p)"
    using nb'(1) by (simp add: header_name_ref_def)
  then show ?thesis
    using nb' by (intro exI [of _ nb']) (simp add: header_round_ref_def drop_pre)
qed

lemma round_header_value:
  assumes "wf_value v" "c \<noteq> SP" "c \<noteq> TAB" "c_str nb = n"
  shows "header_round_ref (\<lambda>_. True) (pre @ SP # v @ CRLF @ c # r) (set_pos nb (length pre) HPS_HEADER_VALUE p)
    = Inl (set_pos nb (length pre + length v + 3) HPS_HEADER_NAME (add_line (n, v) p))"
proof -
  have "header_value_ref True (SP # v @ CRLF @ c # r) (set_pos nb (length pre) HPS_HEADER_VALUE p)
      = (1, set_pos nb (length pre + length v + 3) HPS_HEADER_NAME (add_line (n, v) p))"
    using value_scan_found [OF assms(1-3), of r]
    by (simp add: header_value_ref_def assms(4) add_header_line set_pos_add_line ac_simps)
  then show ?thesis
    by (simp add: header_round_ref_def drop_pre)
qed

lemma print_headers_Cons: "print_headers ((n, v) # hs) = n @ CHR '':'' # SP # v @ CRLF @ print_headers hs"
  by (simp add: print_headers_def header_text_def)

lemma print_headers_head:
  assumes "list_all wf_header hs"
  shows "\<exists>c r. print_headers hs @ CRLF @ rest = c # r \<and> c \<noteq> SP \<and> c \<noteq> TAB"
proof (cases hs)
  case Nil
  then show ?thesis by (simp add: print_headers_def)
next
  case (Cons h hs')
  obtain n v where h: "h = (n, v)" by fastforce
  have "wf_name n" using assms Cons h by (simp add: wf_header_def)
  then show ?thesis
    unfolding Cons h print_headers_Cons by (cases n) (auto simp: wf_name_def is_blank_def)
qed

lemma parse_headers:
  assumes "list_all wf_header hs" "length nb = 64"
  shows "\<exists>nb'. length nb' = 64 \<and>
    message_header_ref (\<lambda>_. True) (pre @ print_headers hs @ CRLF @ rest) (set_pos nb (length pre) HPS_HEADER_NAME p)
      = (1, set_pos nb' (length pre + length (print_headers hs) + 2) HPS_HEADER_COMPLETE (fold add_line hs p))"
  using assms
proof (induction hs arbitrary: pre nb p)
  case Nil
  have "header_round_ref (\<lambda>_. True) (pre @ CRLF @ rest) (set_pos nb (length pre) HPS_HEADER_NAME p)
      = Inr (1, set_pos nb (length pre + 2) HPS_HEADER_COMPLETE p)"
    by (simp add: header_round_ref_def drop_pre header_name_ref_def)
  then show ?case
    using Nil.prems(2) parse_message_header_step(2) by (auto simp: print_headers_def)
next
  case (Cons h hs)
  obtain n v where h: "h = (n, v)" by fastforce
  have w: "wf_name n" "wf_value v" "list_all wf_header hs"
    using Cons.prems(1) h by (auto simp: wf_header_def)
  obtain c r where t: "print_headers hs @ CRLF @ rest = c # r" "c \<noteq> SP" "c \<noteq> TAB"
    using print_headers_head [OF w(3)] by blast
  define msg where "msg = pre @ print_headers (h # hs) @ CRLF @ rest"
  have m1: "msg = pre @ n @ CHR '':'' # (SP # v @ CRLF @ c # r)"
    and m2: "msg = (pre @ n @ '':'') @ SP # v @ CRLF @ c # r"
    and m3: "msg = (pre @ header_text n v) @ print_headers hs @ CRLF @ rest"
    by (simp_all add: msg_def h print_headers_Cons t(1) [symmetric] header_text_def)
  obtain nb1 where nb1: "length nb1 = 64" "c_str nb1 = n"
    "header_round_ref (\<lambda>_. True) msg (set_pos nb (length pre) HPS_HEADER_NAME p)
        = Inl (set_pos nb1 (length (pre @ n @ '':'')) HPS_HEADER_VALUE p)"
    unfolding m1 using round_header_name [OF w(1) Cons.prems(2)] by fastforce
  have r2: "header_round_ref (\<lambda>_. True) msg (set_pos nb1 (length (pre @ n @ '':'')) HPS_HEADER_VALUE p)
      = Inl (set_pos nb1 (length (pre @ header_text n v)) HPS_HEADER_NAME (add_line (n, v) p))"
    unfolding m2 using round_header_value [OF w(2) t(2,3) nb1(2), of "pre @ n @ '':''" r p]
    by (simp add: header_text_def eval_nat_numeral ac_simps)
  show ?case
    using Cons.IH [OF w(3) nb1(1), of "pre @ header_text n v" "add_line (n, v) p"]
      parse_message_header_step(1) [OF nb1(3)] parse_message_header_step(1) [OF r2]
    unfolding m3 [symmetric] msg_def [symmetric]
    by (simp add: h print_headers_Cons header_text_def eval_nat_numeral ac_simps)
qed

section \<open>The start line\<close>

definition wf_request :: "string \<Rightarrow> string \<Rightarrow> string \<Rightarrow> bool" where
  "wf_request m u v \<longleftrightarrow>
     list_all (\<lambda>c. c \<noteq> CR \<and> c \<noteq> NUL \<and> c \<noteq> SP) m \<and> list_all (\<lambda>c. c \<noteq> CR \<and> c \<noteq> NUL \<and> c \<noteq> SP) u
     \<and> list_all (\<lambda>c. c \<noteq> CR \<and> c \<noteq> NUL) v \<and> length m + length u + length v + 2 < 8192"

definition with_request :: "string \<Rightarrow> string \<Rightarrow> string \<Rightarrow> http_parser \<Rightarrow> http_parser" where
  "with_request m u v p =
     (if old_version v then p\<lparr>hp_keep_alive := False\<rparr> else p)
       \<lparr>hp_method := Some m, hp_uri := Some u, hp_version := Some v\<rparr>"

lemma split_space_found: "SP \<notin> set a \<Longrightarrow> split_space (a @ SP # b) = Some (a, b)"
proof -
  assume a: "SP \<notin> set a"
  have "dropWhile (\<lambda>c. c \<noteq> SP) (a @ SP # b) = SP # b"
    by (subst dropWhile_append2) (use a in auto)
  moreover have "takeWhile (\<lambda>c. c \<noteq> SP) (a @ SP # b) = a"
    by (subst takeWhile_append2) (use a in auto)
  ultimately show ?thesis by (simp add: split_space_def)
qed

lemma round_start_line:
  assumes "wf_request m u v" "\<not> hp_is_resp p" "length (hp_namebuf p) = 64"
  shows "header_round_ref (\<lambda>_. True) ((m @ [SP] @ u @ [SP] @ v) @ CRLF @ rest)
      (p\<lparr>hp_header_state := HPS_START_LINE, hp_header_offset := 0\<rparr>)
    = Inl (set_pos (hp_namebuf p) (length m + length u + length v + 4) HPS_HEADER_NAME (with_request m u v p))"
proof -
  let ?l = "m @ [SP] @ u @ [SP] @ v"
  let ?p = "p\<lparr>hp_header_state := HPS_START_LINE, hp_header_offset := 0\<rparr>"
  have l: "line_scan (\<lambda>c. c = NUL) HTTP_START_LINE_MAX (?l @ CRLF @ rest) 0 = Line (length ?l)"
  proof (rule line_scan_found)
    show "\<forall>c\<in>set ?l. c \<noteq> CR \<and> c \<noteq> NUL"
      using assms(1) by (simp add: wf_request_def list_all_iff ball_Un)
    show "int (length ?l) < HTTP_START_LINE_MAX"
      using assms(1) by (simp add: wf_request_def)
  qed simp
  have nc: "(?l @ CRLF @ rest) ! 0 \<noteq> CR"
    using assms(1) by (cases m) (auto simp: wf_request_def)
  have s: "split_space ?l = Some (m, u @ SP # v)" "split_space (u @ SP # v) = Some (u, v)"
  proof -
    have "SP \<notin> set m" "SP \<notin> set u"
      using assms(1) unfolding wf_request_def list_all_iff by blast+
    then show "split_space ?l = Some (m, u @ SP # v)" "split_space (u @ SP # v) = Some (u, v)"
      using split_space_found [of m "u @ SP # v"] split_space_found [of u v] by simp_all
  qed
  have c: "c_str m = m" "c_str u = u" "c_str v = v"
  proof -
    have "NUL \<notin> set m" "NUL \<notin> set u" "NUL \<notin> set v"
      using assms(1) unfolding wf_request_def list_all_iff by blast+
    then show "c_str m = m" "c_str u = u" "c_str v = v"
      by (simp_all add: c_str_noNUL)
  qed
  have t: "take (length ?l) (?l @ CRLF @ rest) = ?l"
    by (metis append_eq_conv_conj)
  have "start_line_ref True (?l @ CRLF @ rest) ?p
      = (1, set_pos (hp_namebuf p) (length ?l + 2) HPS_HEADER_NAME (with_request m u v p))"
    unfolding start_line_ref_def using nc l s assms(2) t
    by (simp del: append_assoc add: match_request_line_def c Let_def set_pos_def with_request_def)
  then show ?thesis
    by (simp add: header_round_ref_def eval_nat_numeral ac_simps)
qed

lemma parse_request_head:
  assumes "wf_request m u v" "list_all wf_header hs" "\<not> hp_is_resp p" "length (hp_namebuf p) = 64"
    "hp_header_state p = HPS_START_LINE" "hp_header_offset p = 0"
  shows "\<exists>nb. length nb = 64 \<and> message_header_ref (\<lambda>_. True) (print_head m u v hs @ rest) p
    = (1, set_pos nb (length (print_head m u v hs)) HPS_HEADER_COMPLETE (fold add_line hs (with_request m u v p)))"
proof -
  let ?pre = "(m @ [SP] @ u @ [SP] @ v) @ CRLF"
  have m: "print_head m u v hs @ rest = (m @ [SP] @ u @ [SP] @ v) @ CRLF @ (print_headers hs @ CRLF @ rest)"
    "print_head m u v hs @ rest = ?pre @ print_headers hs @ CRLF @ rest"
    by (simp_all add: print_head_def)
  have "p\<lparr>hp_header_state := HPS_START_LINE, hp_header_offset := 0\<rparr> = p"
    using assms(5,6) by simp
  then have r: "header_round_ref (\<lambda>_. True) (print_head m u v hs @ rest) p
      = Inl (set_pos (hp_namebuf p) (length ?pre) HPS_HEADER_NAME (with_request m u v p))"
    unfolding m(1) using round_start_line [OF assms(1,3,4), of "print_headers hs @ CRLF @ rest"]
    by (simp add: eval_nat_numeral ac_simps)
  obtain nb where "length nb = 64" "message_header_ref (\<lambda>_. True) (print_head m u v hs @ rest)
      (set_pos (hp_namebuf p) (length ?pre) HPS_HEADER_NAME (with_request m u v p))
      = (1, set_pos nb (length ?pre + length (print_headers hs) + 2) HPS_HEADER_COMPLETE (fold add_line hs (with_request m u v p)))"
    using parse_headers [OF assms(2,4), of ?pre rest "with_request m u v p"] unfolding m(2) by blast
  then show ?thesis
    using parse_message_header_step(1) [OF r] by (intro exI [of _ nb]) (simp add: print_head_def ac_simps)
qed

section \<open>The request and its body\<close>

definition not_encoding :: "string \<Rightarrow> bool" where
  "not_encoding n \<longleftrightarrow> \<not> (length n = 17 \<and> strncasecmp_eq n ''Transfer-Encoding'' 17)"

lemma add_line_fields [simp]:
  "hp_transfer_length (add_line h p) = hp_transfer_length p" "hp_msgbuf (add_line h p) = hp_msgbuf p"
  "hp_msgsize (add_line h p) = hp_msgsize p" "hp_bufsize (add_line h p) = hp_bufsize p"
  "hp_method (add_line h p) = hp_method p" "hp_uri (add_line h p) = hp_uri p"
  "hp_version (add_line h p) = hp_version p" "hp_complete (add_line h p) = hp_complete p"
  "hp_header_list (add_line h p) = hp_header_list p @ [new_line (fst h) (snd h)]"
  by (cases h, simp add: add_line_def check_message_header_def Let_def)+

lemma add_line_chunked: "not_encoding (fst h) \<Longrightarrow> hp_chunked (add_line h p) = hp_chunked p"
  by (cases h) (simp add: add_line_def check_message_header_def Let_def not_encoding_def)

lemma fold_add_line [simp]:
  "hp_transfer_length (fold add_line hs p) = hp_transfer_length p"
  "hp_msgbuf (fold add_line hs p) = hp_msgbuf p" "hp_msgsize (fold add_line hs p) = hp_msgsize p"
  "hp_bufsize (fold add_line hs p) = hp_bufsize p" "hp_method (fold add_line hs p) = hp_method p"
  "hp_uri (fold add_line hs p) = hp_uri p" "hp_version (fold add_line hs p) = hp_version p"
  "hp_complete (fold add_line hs p) = hp_complete p"
  "hp_header_list (fold add_line hs p) = hp_header_list p @ map (\<lambda>h. new_line (fst h) (snd h)) hs"
  by (induction hs arbitrary: p; simp)+

lemma fold_add_line_chunked:
  "list_all (\<lambda>h. not_encoding (fst h)) hs \<Longrightarrow> hp_chunked (fold add_line hs p) = hp_chunked p"
  by (induction hs arbitrary: p) (auto simp: add_line_chunked)

lemma content_length_line:
  assumes "n < 10 ^ 15"
  shows "hp_content_length (add_line (''Content-Length'', dec_str n) p) = int n"
proof -
  have "length (dec_str n) \<le> 15"
    using dec_str_length [of n 15] assms by simp
  moreover have "isdigit (cat (dec_str n) 0)"
    using dec_str_digits [of n] by (cases "dec_str n") auto
  ultimately show ?thesis
    by (simp add: add_line_def check_message_header_def Let_def atoi_dec_str)
qed

definition content_length_header :: "string \<Rightarrow> string \<times> string" where
  "content_length_header body = (''Content-Length'', dec_str (length body))"

lemma wf_content_length: "length body < 10 ^ 15 \<Longrightarrow> wf_header (content_length_header body)"
proof -
  assume "length body < 10 ^ 15"
  then have l: "length (dec_str (length body)) \<le> 15"
    using dec_str_length [of "length body" 15] by simp
  have d: "isdigit c \<Longrightarrow> c \<noteq> CR \<and> \<not> schar_le0 c \<and> \<not> is_blank c" for c
    by (auto simp: isdigit_def schar_le0_def is_blank_def)
  have "wf_value (dec_str (length body))"
    using dec_str_digits [of "length body"] l d
    by (auto simp: wf_value_def list_all_iff)
  moreover have "wf_name ''Content-Length''"
    by (simp add: wf_name_def schar_le0_def is_blank_def)
  ultimately show ?thesis by (simp add: wf_header_def content_length_header_def)
qed

lemma with_request_fields [simp]:
  "hp_transfer_length (with_request m u v p) = hp_transfer_length p" "hp_msgbuf (with_request m u v p) = hp_msgbuf p"
  "hp_msgsize (with_request m u v p) = hp_msgsize p" "hp_bufsize (with_request m u v p) = hp_bufsize p"
  "hp_method (with_request m u v p) = Some m" "hp_uri (with_request m u v p) = Some u"
  "hp_version (with_request m u v p) = Some v" "hp_complete (with_request m u v p) = hp_complete p"
  "hp_header_list (with_request m u v p) = hp_header_list p" "hp_chunked (with_request m u v p) = hp_chunked p"
  by (simp_all add: with_request_def)

lemma init_inv:
  assumes "length (hp_namebuf p) = 64"
  shows "hp_inv (http_parser_init is_resp p)"
  using assms by (simp add: hp_inv_def hp_base_def http_parser_init_def len_ok_def)

lemma request_parsed_back:
  fixes extra :: string
  assumes "wf_request m u v" "list_all wf_header hs" "list_all (\<lambda>h. not_encoding (fst h)) hs"
    and "length body < 10 ^ 15" "length (hp_namebuf old) = 64"
    and "buf = print_head m u v (hs @ [content_length_header body]) @ body @ extra" "int (length buf) < 2 ^ 62"
  shows "\<exists>q. http_parser_append_message (\<lambda>_. True) (\<lambda>_. True) buf (http_parser_init False old)
      = Ret (1, int (length buf) - int (length extra), q)
    \<and> hp_method q = Some m \<and> hp_uri q = Some u \<and> hp_version q = Some v
    \<and> map (\<lambda>l. (line_name l, line_value l)) (hp_header_list q) = hs @ [content_length_header body]
    \<and> http_parser_get_body q = Ret (Some body)"
proof -
  define hs' where "hs' = hs @ [content_length_header body]"
  define p where "p = http_parser_init False old"
  define W where "W = with_bytes buf p"
  define h where "h = print_head m u v hs'"
  have buf: "buf = h @ body @ extra"
    using assms(6) by (simp add: h_def hs'_def)
  have W: "hp_msgbuf W = buf" "hp_msgsize W = length buf" "hp_header_state W = HPS_START_LINE"
    "hp_header_offset W = 0" "hp_is_resp W = False" "length (hp_namebuf W) = 64"
    "hp_transfer_length W = SIZE_MAX" "hp_chunked W = False" "hp_header_list W = []" "hp_complete W = False"
    using assms(5) by (simp_all add: W_def with_bytes_def set_buf_def p_def http_parser_init_def)
  have inv: "hp_base p" "\<not> hp_complete p"
    using init_inv [OF assms(5), of False] by (simp_all add: p_def hp_inv_def) (simp add: http_parser_init_def)
  have Wb: "int (length buf) < hp_bufsize W"
    using with_bytes_base [OF inv(1), of buf] W(2) by (simp add: W_def)
  have hs': "list_all wf_header hs'"
    using assms(2) wf_content_length [OF assms(4)] by (simp add: hs'_def)
  obtain nb where nb: "message_header_ref (\<lambda>_. True) buf W
      = (1, set_pos nb (length h) HPS_HEADER_COMPLETE (fold add_line hs' (with_request m u v W)))"
    using parse_request_head [OF assms(1) hs' _ W(6,3,4), of "body @ extra"] W(5) by (auto simp: buf h_def)
  define T where "T = set_pos nb (length h) HPS_HEADER_COMPLETE (fold add_line hs' (with_request m u v W))"
  have T: "hp_transfer_length T = SIZE_MAX" "hp_chunked T = False" "hp_header_offset T = length h"
    "hp_header_state T = HPS_HEADER_COMPLETE" "hp_msgbuf T = buf" "hp_msgsize T = length buf" "hp_bufsize T = hp_bufsize W"
    "hp_method T = Some m" "hp_uri T = Some u" "hp_version T = Some v"
    "hp_header_list T = map (\<lambda>h. new_line (fst h) (snd h)) hs'"
    using W assms(3) fold_add_line_chunked [of hs "with_request m u v W"] add_line_chunked [of "content_length_header body"]
    by (simp_all add: T_def set_pos_def hs'_def not_encoding_def content_length_header_def)
  have cl: "hp_content_length T = int (length body)"
    using content_length_line [OF assms(4)] by (simp add: T_def set_pos_def hs'_def content_length_header_def)
  define D where "D = T\<lparr>hp_transfer_length := int (length body)\<rparr>"
  define Q where "Q = D\<lparr>hp_msgbuf := take (length h + length body) buf, hp_msgsize := length h + length body, hp_complete := True\<rparr>"
  have "header_done T = D"
    using T cl by (simp add: header_done_def D_def)
  moreover have "(int (length h) + int (length body)) mod 2 ^ 64 = int (length h) + int (length body)"
    using assms(7) buf by (intro mod_pos_pos_trivial) simp_all
  moreover have "(int (length buf) - (int (length buf) - (int (length h) + int (length body)))) mod 2 ^ 64
      = int (length buf) - int (length extra)"
    using calculation(2) buf by simp
  moreover have "nat (int (length h) + int (length body)) = length h + length body"
    by simp
  moreover have "int (length body) \<noteq> SIZE_MAX"
    using assms(4) by simp
  ultimately have b: "body_ref (int (length buf)) (header_done T) = (1, int (length buf) - int (length extra), Q)"
    using T buf by (simp add: body_ref_def D_def Q_def finish_message_def Let_def)
  have "http_parser_append_message (\<lambda>_. True) (\<lambda>_. True) buf p = Ret (1, int (length buf) - int (length extra), Q)"
  proof -
    have "append_rest (\<lambda>_. True) (int (length buf)) W = (1, int (length buf) - int (length extra), Q)"
      using W b nb unfolding T_def [symmetric] by (simp add: append_rest_def)
    then show ?thesis
      using append_message_eq [OF inv, of "\<lambda>_. True" buf] unfolding W_def by (simp only:)
  qed
  moreover have "http_parser_get_body Q = Ret (Some body)"
    using T Wb buf by (simp add: http_parser_get_body_def Q_def D_def)
  moreover have "map (\<lambda>l. (line_name l, line_value l)) (hp_header_list Q) = hs'"
    using T(11) by (simp add: Q_def D_def new_line_def line_name_def line_value_def header_text_def comp_def)
  ultimately show ?thesis
    using T by (auto simp: p_def Q_def D_def hs'_def)
qed

text \<open>
  C9. A request that is written with its method, URI and version, well-formed header lines and
  the length of its body is parsed back: \<open>http_parser_append_message\<close> on a fresh parser
  returns 1, uses exactly the bytes of the request and leaves the bytes after it, the parser
  holds the start line and the header lines in order, and \<open>http_parser_get_body\<close> returns
  the body.
\<close>

theorem request_roundtrip:
  fixes extra :: string
  assumes "wf_request m u v" "list_all wf_header hs" "list_all (\<lambda>h. not_encoding (fst h)) hs"
    and "length body < 10 ^ 15" "length (hp_namebuf old) = 64"
    and "buf = print_head m u v (hs @ [content_length_header body]) @ body @ extra" "int (length buf) < 2 ^ 62"
  shows "\<exists>q. http_parser_append_message (\<lambda>_. True) (\<lambda>_. True) buf (http_parser_init False old)
      = Ret (1, int (length buf) - int (length extra), q)
    \<and> hp_method q = Some m \<and> hp_uri q = Some u \<and> hp_version q = Some v
    \<and> map (\<lambda>l. (line_name l, line_value l)) (hp_header_list q) = hs @ [content_length_header body]
    \<and> http_parser_get_body q = Ret (Some body)"
  using assms by (rule request_parsed_back)

theorem request_roundtrip_witness:
  "\<exists>buf q. buf = print_head ''POST'' ''/a?b'' ''HTTP/1.1'' ([(''Host'', ''h'')] @ [content_length_header ''hello''])
        @ ''hello'' @ ''GET''
    \<and> http_parser_append_message (\<lambda>_. True) (\<lambda>_. True) buf (http_parser_init False parser0)
      = Ret (1, int (length buf) - 3, q)
    \<and> hp_method q = Some ''POST'' \<and> hp_uri q = Some ''/a?b''
    \<and> http_parser_get_body q = Ret (Some ''hello'')"
proof -
  define buf where "buf = print_head ''POST'' ''/a?b'' ''HTTP/1.1'' ([(''Host'', ''h'')] @ [content_length_header ''hello''])
      @ ''hello'' @ ''GET''"
  have d: "dec_str (Suc (Suc (Suc (Suc (Suc 0))))) = ''5''"
    by code_simp
  have "wf_request ''POST'' ''/a?b'' ''HTTP/1.1''" "list_all wf_header [(''Host'', ''h'')]"
    "list_all (\<lambda>h. not_encoding (fst h)) [(''Host'', ''h'')]" "length ''hello'' < 10 ^ 15"
    "length (hp_namebuf parser0) = 64" "int (length buf) < 2 ^ 62"
    by (simp_all add: wf_request_def wf_header_def wf_name_def wf_value_def schar_le0_def is_blank_def
        not_encoding_def parser0_def buf_def print_head_def print_headers_def header_text_def
        content_length_header_def d)
  from request_roundtrip [OF this(1-5) buf_def this(6)] show ?thesis
    unfolding buf_def by auto
qed

end
