(* ===== verification/HttpMessage.thy ===== *)
theory HttpMessage
  imports HttpRoundTrip
begin

text \<open>
  \<open>src/protocol/HttpMessage.cc\<close> and \<open>HttpMessage.h\<close>, with the size limit of
  \<open>ProtocolMessage.h\<close>: the output body and its blocks, the encoding into I/O vectors, and
  the receiving side with its size limit, the \<open>100-continue\<close> handshake of a request and the
  skipping of a \<open>100\<close> response.

  A block is the list of its bytes: the bytes that a \<open>nocopy\<close> block points to are those it
  has when the message is encoded. \<open>feedback\<close> is the callback into the connection; it is an
  argument, and the texts passed to it are collected in the result.
\<close>

section \<open>The message\<close>

record http_message =
  hm_parser :: http_parser
  hm_cur_size :: int
  hm_size_limit :: int
  hm_output_body :: "string list"
  hm_output_body_size :: int

datatype http_errno = EBADMSG | EMSGSIZE | EOVERFLOW | EAGAIN | E_NOMEM

definition http_message_init :: "bool \<Rightarrow> http_parser \<Rightarrow> http_message" where
  "http_message_init is_resp raw =
     \<lparr>hm_parser = http_parser_init is_resp raw, hm_cur_size = 0, hm_size_limit = SIZE_MAX,
      hm_output_body = [], hm_output_body_size = 0\<rparr>"

text \<open>
  The move constructor: the new object, and what is left of the old one, whose parser is
  NULL and must not be used.
\<close>

definition http_message_move :: "http_message \<Rightarrow> http_message \<times> http_message" where
  "http_message_move msg =
     (msg, msg\<lparr>hm_size_limit := SIZE_MAX, hm_output_body := [], hm_output_body_size := 0, hm_cur_size := 0\<rparr>)"

definition set_size_limit :: "int \<Rightarrow> http_message \<Rightarrow> http_message" where
  "set_size_limit limit m = m\<lparr>hm_size_limit := limit\<rparr>"

section \<open>The output body\<close>

definition append_output_body :: "bool \<Rightarrow> string \<Rightarrow> http_message \<Rightarrow> bool \<times> http_message" where
  "append_output_body al buf m =
     (if al then (True, m\<lparr>hm_output_body := hm_output_body m @ [buf],
                         hm_output_body_size := (hm_output_body_size m + int (length buf)) mod 2 ^ 64\<rparr>)
      else (False, m))"

definition append_output_body_nocopy :: "bool \<Rightarrow> string \<Rightarrow> http_message \<Rightarrow> bool \<times> http_message" where
  "append_output_body_nocopy al buf m =
     (if al then (True, m\<lparr>hm_output_body := hm_output_body m @ [buf],
                         hm_output_body_size := (hm_output_body_size m + int (length buf)) mod 2 ^ 64\<rparr>)
      else (False, m))"

definition clear_output_body :: "http_message \<Rightarrow> http_message" where
  "clear_output_body m = m\<lparr>hm_output_body := [], hm_output_body_size := 0\<rparr>"

text \<open>
  \<open>combine_from(pos, size)\<close>: the blocks from position \<open>pos\<close> become one block of \<open>sz\<close>
  bytes. \<open>UB\<close> when the copied bytes do not fill the block exactly, \<open>Ret None\<close> when
  \<open>malloc\<close> fails.
\<close>

definition combine_from :: "bool \<Rightarrow> nat \<Rightarrow> int \<Rightarrow> string list \<Rightarrow> string list option outcome" where
  "combine_from al pos sz blocks =
     (if \<not> al then Ret None
      else if int (length (concat (drop pos blocks))) = sz
      then Ret (Some (take pos blocks @ [concat (drop pos blocks)])) else UB)"

section \<open>Encoding\<close>

text \<open>The strings of the start line, or \<open>None\<close> (\<open>EBADMSG\<close>) when one is missing.\<close>

definition start_line_of :: "http_parser \<Rightarrow> (string \<times> string \<times> string) option" where
  "start_line_of p =
     (case hp_method p of
        Some m \<Rightarrow>
          (case (hp_uri p, hp_version p) of (Some u, Some v) \<Rightarrow> Some (m, u, v) | _ \<Rightarrow> None)
      | None \<Rightarrow>
          (case (hp_version p, hp_code p, hp_phrase p) of
             (Some v, Some c, Some ph) \<Rightarrow> Some (v, c, ph) | _ \<Rightarrow> None))"

text \<open>The vector of a header line: the buffer up to and with its CRLF.\<close>

definition line_vector :: "header_line \<Rightarrow> string" where
  "line_vector l = take (hl_name_len l + 2 + hl_value_len l + 2) (hl_buf l)"

text \<open>
  The loop over the blocks from index \<open>pos\<close>: \<open>vecs\<close> are the vectors written so far, \<open>sz\<close>
  the bytes of the blocks not yet written. The result is \<open>None\<close> when combining fails.
\<close>

function encode_blocks ::
  "bool \<Rightarrow> int \<Rightarrow> nat \<Rightarrow> int \<Rightarrow> string list \<Rightarrow> string list \<Rightarrow> (string list \<times> string list) option outcome" where
  "encode_blocks al mx pos sz blocks vecs =
     (if pos < length blocks then
        (if int (length vecs) + 1 = mx \<and> pos + 1 \<noteq> length blocks then
           (case combine_from al pos sz blocks of
              UB \<Rightarrow> UB
            | Ret None \<Rightarrow> Ret None
            | Ret (Some bs) \<Rightarrow> Ret (Some (bs, vecs @ [bs ! pos])))
         else if int (length vecs) < mx
         then encode_blocks al mx (pos + 1) (sz - int (length (blocks ! pos))) blocks (vecs @ [blocks ! pos])
         else UB)
      else Ret (Some (blocks, vecs)))"
  by pat_completeness auto
termination
  by (relation "measure (\<lambda>(al, mx, pos, sz, blocks, vecs). length blocks - pos)") auto

declare encode_blocks.simps [simp del]

text \<open>
  \<open>HttpMessage::encode\<close>: the return value with \<open>errno\<close>, the vectors and the message. The
  first six vectors are written without a test, so an array of fewer is \<open>UB\<close>.
\<close>

definition http_encode ::
  "bool \<Rightarrow> int \<Rightarrow> http_message \<Rightarrow> (int \<times> http_errno option \<times> string list \<times> http_message) outcome" where
  "http_encode al mx m =
     (case start_line_of (hm_parser m) of
        None \<Rightarrow> Ret (-1, Some EBADMSG, [], m)
      | Some (a, b, c) \<Rightarrow>
          if mx < 6 then UB
          else
            let vecs = [c_str a, [SP], c_str b, [SP], c_str c, CRLF]
                  @ map line_vector (take (nat (mx - 6)) (hp_header_list (hm_parser m)))
            in if mx \<le> int (length vecs) + 1 then Ret (-1, Some EOVERFLOW, vecs, m)
               else
                 (case encode_blocks al mx 0 (hm_output_body_size m) (hm_output_body m) (vecs @ [CRLF]) of
                    UB \<Rightarrow> UB
                  | Ret None \<Rightarrow> Ret (-1, Some E_NOMEM, vecs, m)
                  | Ret (Some (bs, vs)) \<Rightarrow> Ret (int (length vs), None, vs, m\<lparr>hm_output_body := bs\<rparr>)))"

section \<open>Receiving\<close>

text \<open>The result of an append: return value, \<open>errno\<close> when set, \<open>*size\<close>, message, feedback texts.\<close>

type_synonym append_result = "int \<times> http_errno option \<times> int \<times> http_message \<times> string list"

definition http_message_append ::
  "(int \<Rightarrow> bool) \<Rightarrow> (nat \<Rightarrow> bool) \<Rightarrow> string \<Rightarrow> http_message \<Rightarrow> (int \<times> http_errno option \<times> int \<times> http_message) outcome" where
  "http_message_append ral al buf m =
     (case http_parser_append_message ral al buf (hm_parser m) of
        UB \<Rightarrow> UB
      | Ret (r, n, p) \<Rightarrow>
          if 0 \<le> r then
            (let m' = m\<lparr>hm_parser := p, hm_cur_size := (hm_cur_size m + n) mod 2 ^ 64\<rparr> in
             if hm_size_limit m < hm_cur_size m' then Ret (-1, Some EMSGSIZE, n, m')
             else Ret (r, None, n, m'))
          else if r = -2 then Ret (-1, Some EBADMSG, n, m\<lparr>hm_parser := p\<rparr>)
          else Ret (r, Some E_NOMEM, n, m\<lparr>hm_parser := p\<rparr>))"

definition HTTP_100_RESP :: string where
  "HTTP_100_RESP = ''HTTP/1.1 100 Continue'' @ CRLF @ CRLF"

definition error_resp :: "string \<Rightarrow> string" where
  "error_resp status = status @ CRLF @ ''Content-Length: 0'' @ CRLF @ ''Connection: close'' @ CRLF @ CRLF"

definition HTTP_400_RESP :: string where
  "HTTP_400_RESP = error_resp ''HTTP/1.1 400 Bad Request''"

definition HTTP_413_RESP :: string where
  "HTTP_413_RESP = error_resp ''HTTP/1.1 413 Request Entity Too Large''"

definition HTTP_417_RESP :: string where
  "HTTP_417_RESP = error_resp ''HTTP/1.1 417 Expectation Failed''"

text \<open>\<open>fb\<close> is the number of bytes that \<open>feedback\<close> says it sent, negative for an error.\<close>

definition handle_expect_continue ::
  "(string \<Rightarrow> int) \<Rightarrow> http_message \<Rightarrow> int \<times> http_errno option \<times> string list" where
  "handle_expect_continue fb m =
     (let trans_len = hp_transfer_length (hm_parser m) in
      if trans_len \<noteq> SIZE_MAX
         \<and> hm_size_limit m < (int (hp_header_offset (hm_parser m)) + trans_len) mod 2 ^ 64
      then (-1, Some EMSGSIZE, [HTTP_417_RESP])
      else
        (let ret = fb HTTP_100_RESP in
         if ret \<noteq> int (length HTTP_100_RESP)
         then (-1, if 0 \<le> ret then Some EAGAIN else None, [HTTP_100_RESP])
         else (0, None, [HTTP_100_RESP])))"

definition http_request_append ::
  "(string \<Rightarrow> int) \<Rightarrow> (int \<Rightarrow> bool) \<Rightarrow> (nat \<Rightarrow> bool) \<Rightarrow> string \<Rightarrow> http_message \<Rightarrow> append_result outcome" where
  "http_request_append fb ral al buf m =
     (case http_message_append ral al buf m of
        UB \<Rightarrow> UB
      | Ret (r, e, n, m') \<Rightarrow>
          if r = 0 then
            (if hp_expect_continue (hm_parser m') \<and> http_parser_header_complete (hm_parser m') then
               (let m2 = m'\<lparr>hm_parser := (hm_parser m')\<lparr>hp_expect_continue := False\<rparr>\<rparr> in
                case handle_expect_continue fb m2 of (r', e', out) \<Rightarrow> Ret (r', e', n, m2, out))
             else Ret (r, e, n, m', []))
          else if r < 0 then
            Ret (r, e, n, m',
                 if e = Some EBADMSG then [HTTP_400_RESP]
                 else if e = Some EMSGSIZE then [HTTP_413_RESP] else [])
          else Ret (r, e, n, m', []))"

text \<open>
  \<open>HttpResponse::append\<close>: a complete \<open>100\<close> response is dropped and parsing starts again. The
  status code of a complete message is compared without a test for NULL.
\<close>

definition http_response_append ::
  "(int \<Rightarrow> bool) \<Rightarrow> (nat \<Rightarrow> bool) \<Rightarrow> string \<Rightarrow> http_message \<Rightarrow> (int \<times> http_errno option \<times> int \<times> http_message) outcome" where
  "http_response_append ral al buf m =
     (case http_message_append ral al buf m of
        UB \<Rightarrow> UB
      | Ret (r, e, n, m') \<Rightarrow>
          if 0 < r then
            (case hp_code (hm_parser m') of
               None \<Rightarrow> UB
             | Some c \<Rightarrow>
                 if strcmp_eq c ''100''
                 then Ret (0, e, n, m'\<lparr>hm_parser := http_parser_init True (hm_parser m')\<rparr>)
                 else Ret (r, e, n, m'))
          else Ret (r, e, n, m'))"

definition parse_zero_body :: "http_message \<Rightarrow> http_message" where
  "parse_zero_body m = m\<lparr>hm_parser := (hm_parser m)\<lparr>hp_transfer_length := 0\<rparr>\<rparr>"

definition end_parsing :: "http_message \<Rightarrow> http_message" where
  "end_parsing m = m\<lparr>hm_parser := http_parser_close_message (hm_parser m)\<rparr>"

text \<open>The header operations with C strings: the lengths are those of the strings.\<close>

definition add_header_pair :: "bool \<Rightarrow> string \<Rightarrow> string \<Rightarrow> http_message \<Rightarrow> bool \<times> http_message" where
  "add_header_pair al name v m =
     (case http_parser_add_header al (c_str name) (c_str v) (hm_parser m) of
        (r, p) \<Rightarrow> (r = 0, m\<lparr>hm_parser := p\<rparr>))"

definition set_header_pair :: "bool \<Rightarrow> string \<Rightarrow> string \<Rightarrow> http_message \<Rightarrow> (bool \<times> http_message) outcome" where
  "set_header_pair al name v m =
     (case http_parser_set_header al (c_str name) (c_str v) (hm_parser m) of
        UB \<Rightarrow> UB
      | Ret (r, p) \<Rightarrow> Ret (r = 0, m\<lparr>hm_parser := p\<rparr>))"

section \<open>The invariant of a message\<close>

text \<open>A line whose buffer holds the name, a colon and a space, the value and a CRLF.\<close>

definition line_wf :: "header_line \<Rightarrow> bool" where
  "line_wf l \<longleftrightarrow> line_ok l \<and> line_vector l = header_text (line_name l) (line_value l)"

definition msg_wf :: "http_message \<Rightarrow> bool" where
  "msg_wf m \<longleftrightarrow> list_all line_wf (hp_header_list (hm_parser m))
     \<and> hm_output_body_size m = int (length (concat (hm_output_body m))) mod 2 ^ 64"

lemma new_line_wf: "line_wf (new_line n v)"
  by (simp add: line_wf_def line_ok_def line_vector_def line_name_def line_value_def new_line_def header_text_def)

lemma replace_value_wf:
  assumes "line_wf l" "line_matches name l" "replace_value al name v l = Ret (Some l')"
  shows "line_wf l'"
proof (cases "hl_value_len l < length v")
  case True
  then show ?thesis
    using assms(2,3)
    by (auto simp: replace_value_def memcpy_at_def line_matches_def line_wf_def line_ok_def line_vector_def
        line_name_def line_value_def header_text_def split: if_splits)
next
  case False
  define n where "n = length name"
  have n: "hl_name_len l = n" and room: "n + hl_value_len l + 4 \<le> length (hl_buf l)"
    using assms(1,2) by (auto simp: line_matches_def line_wf_def line_ok_def n_def)
  have "line_vector l = take n (hl_buf l) @ '': '' @ line_value l @ CRLF"
    using assms(1) by (simp add: line_wf_def header_text_def line_name_def n)
  then have "take (n + 2) (line_vector l) = take n (hl_buf l) @ '': ''"
    using room by simp
  moreover have "take (n + 2) (line_vector l) = take (n + 2) (hl_buf l)"
    by (simp add: line_vector_def n)
  ultimately have pre: "take (n + 2) (hl_buf l) = take n (hl_buf l) @ '': ''"
    by (simp only:)
  have l': "l' = l\<lparr>hl_buf := take (n + 2) (hl_buf l) @ (v @ CRLF) @ drop (n + 2 + length (v @ CRLF)) (hl_buf l),
      hl_value_len := length v\<rparr>"
    using assms(3) False room by (auto simp: replace_value_def memcpy_at_def n_def split: if_splits)
  have "hl_buf l' = take (n + 2) (hl_buf l) @ (v @ CRLF) @ drop (n + 2 + length (v @ CRLF)) (hl_buf l)"
    by (simp add: l')
  note buf = this [unfolded pre append_assoc]
  have "hl_name_len l' = n" "hl_value_len l' = length v"
    using n by (simp_all add: l')
  with buf show ?thesis
    using room False
    by (auto simp: line_wf_def line_ok_def line_vector_def line_name_def line_value_def header_text_def
        eval_nat_numeral)
qed

lemma set_line_wf:
  "list_all line_wf ls \<Longrightarrow> set_line al name v ls = Ret (Some (r, ls')) \<Longrightarrow> list_all line_wf ls'"
  by (induction ls arbitrary: ls')
    (auto split: if_splits outcome.splits option.splits dest: replace_value_wf)

lemma line_wf_ok: "list_all line_wf ls \<Longrightarrow> list_all line_ok ls"
  by (auto simp: list_all_iff line_wf_def)

text \<open>
  The operations that build an outgoing message keep its invariant: every header line
  holds its name, separator, value and CRLF, and the recorded body size is the size of the
  blocks.
\<close>

theorem message_ops_wf:
  assumes "msg_wf m"
  shows "msg_wf (snd (add_header_pair al n v m)) \<and> msg_wf (snd (append_output_body al b m))
    \<and> msg_wf (snd (append_output_body_nocopy al b m)) \<and> msg_wf (clear_output_body m)
    \<and> (\<exists>r m'. set_header_pair al n v m = Ret (r, m') \<and> msg_wf m')"
proof -
  have lines: "list_all line_wf (hp_header_list (hm_parser m))"
    using assms by (simp add: msg_wf_def)
  have "list_all line_wf (hp_header_list q)"
    if "http_parser_set_header al (c_str n) (c_str v) (hm_parser m) = Ret (r, q)" for r q
    using that lines
    by (auto simp: http_parser_set_header_def set_message_header_def add_message_header_def new_line_wf
        dest: set_line_wf split: outcome.splits option.splits if_splits prod.splits)
  then have "\<exists>r m'. set_header_pair al n v m = Ret (r, m') \<and> msg_wf m'"
    using set_header_result [OF line_wf_ok [OF lines], of al "c_str n" "c_str v"] assms
    by (auto simp: set_header_pair_def msg_wf_def)
  moreover have "msg_wf (snd (add_header_pair al n v m))"
    using assms by (simp add: add_header_pair_def http_parser_add_header_def add_message_header_def msg_wf_def new_line_wf)
  ultimately show ?thesis
    using assms by (simp add: msg_wf_def append_output_body_def append_output_body_nocopy_def clear_output_body_def mod_simps)
qed

section \<open>The encoder\<close>

lemma encode_blocks_correct:
  assumes "pos \<le> length blocks" "sz = int (length (concat (drop pos blocks)))"
    "pos < length blocks \<Longrightarrow> int (length vecs) < mx" "int (length vecs) \<le> mx"
  shows "\<exists>w. encode_blocks al mx pos sz blocks vecs = Ret w \<and> (case w of None \<Rightarrow> \<not> al
    | Some (bs, vs) \<Rightarrow> concat vs = concat vecs @ concat (drop pos blocks) \<and> int (length vs) \<le> mx
        \<and> concat bs = concat blocks)"
  using assms
proof (induction al mx pos sz blocks vecs rule: encode_blocks.induct)
  case (1 al mx pos sz blocks vecs)
  show ?case
  proof (cases "pos < length blocks")
    case True
    then have d: "drop pos blocks = blocks ! pos # drop (Suc pos) blocks"
      by (simp add: Cons_nth_drop_Suc)
    show ?thesis
    proof (cases "int (length vecs) + 1 = mx \<and> pos + 1 \<noteq> length blocks")
      case c: True
      have "concat blocks = concat (take pos blocks) @ concat (drop pos blocks)"
        by (metis append_take_drop_id concat_append)
      then show ?thesis
        using True c 1(3)
        by (subst encode_blocks.simps) (auto simp: combine_from_def nth_append)
    next
      case nc: False
      have l: "int (length vecs) < mx" using 1(4) True by simp
      have "\<exists>w. encode_blocks al mx (pos + 1) (sz - int (length (blocks ! pos))) blocks (vecs @ [blocks ! pos]) = Ret w
        \<and> (case w of None \<Rightarrow> \<not> al | Some (bs, vs) \<Rightarrow>
            concat vs = concat (vecs @ [blocks ! pos]) @ concat (drop (pos + 1) blocks) \<and> int (length vs) \<le> mx
            \<and> concat bs = concat blocks)"
        using 1(3) True nc l d by (intro 1(1)) auto
      then show ?thesis
        using True nc l d by (subst encode_blocks.simps) (auto split: option.splits)
    qed
  next
    case False
    then show ?thesis
      using 1(2,5) by (subst encode_blocks.simps) auto
  qed
qed

lemma concat_line_vectors:
  "list_all line_wf ls \<Longrightarrow>
     concat (map line_vector ls) = print_headers (map (\<lambda>l. (line_name l, line_value l)) ls)"
  by (induction ls) (auto simp: line_wf_def print_headers_def)

lemma encode_output:
  assumes "msg_wf m" "start_line_of (hm_parser m) = Some (a, b, c)" "6 \<le> mx"
    and "length (concat (hm_output_body m)) < 2 ^ 63"
  shows "if int (length (hp_header_list (hm_parser m))) + 7 < mx then
      \<exists>vs m'. http_encode True mx m = Ret (int (length vs), None, vs, m') \<and> int (length vs) \<le> mx
        \<and> concat vs = c_str a @ [SP] @ c_str b @ [SP] @ c_str c @ CRLF
            @ print_headers (map (\<lambda>l. (line_name l, line_value l)) (hp_header_list (hm_parser m))) @ CRLF
            @ concat (hm_output_body m)
        \<and> concat (hm_output_body m') = concat (hm_output_body m)
    else \<exists>vs. http_encode True mx m = Ret (-1, Some EOVERFLOW, vs, m)"
proof (cases "int (length (hp_header_list (hm_parser m))) + 7 < mx")
  case True
  define ls where "ls = hp_header_list (hm_parser m)"
  define vecs where "vecs = [c_str a, [SP], c_str b, [SP], c_str c, CRLF] @ map line_vector ls"
  have t: "take (nat (mx - 6)) ls = ls"
    using True by (simp add: ls_def)
  have "\<exists>w. encode_blocks True mx 0 (hm_output_body_size m) (hm_output_body m) (vecs @ [CRLF]) = Ret w
    \<and> (case w of None \<Rightarrow> \<not> True | Some (bs, vs) \<Rightarrow>
        concat vs = concat (vecs @ [CRLF]) @ concat (drop 0 (hm_output_body m)) \<and> int (length vs) \<le> mx
        \<and> concat bs = concat (hm_output_body m))"
    using True assms(1,4) by (intro encode_blocks_correct) (auto simp: msg_wf_def vecs_def ls_def)
  moreover have "concat (map line_vector ls) = print_headers (map (\<lambda>l. (line_name l, line_value l)) ls)"
    using assms(1) by (intro concat_line_vectors) (simp add: msg_wf_def ls_def)
  moreover have "\<not> mx \<le> int (length vecs) + 1"
    using True by (simp add: vecs_def ls_def)
  ultimately show ?thesis
    using True assms(2,3) t
    by (auto simp: http_encode_def Let_def ls_def [symmetric] vecs_def split: option.splits)
next
  case False
  then show ?thesis
    using assms(2,3) by (auto simp: http_encode_def Let_def min_def)
qed

text \<open>
  C29. The encoder fills at most \<open>max\<close> vectors, and their concatenation is the message: start
  line, header lines, an empty line and the output body; when the header lines leave no room
  the result is -1 with \<open>EOVERFLOW\<close>.
\<close>


theorem http_encode_correct:
  assumes "msg_wf m" "start_line_of (hm_parser m) = Some (a, b, c)" "6 \<le> mx"
    and "length (concat (hm_output_body m)) < 2 ^ 63"
  shows "if int (length (hp_header_list (hm_parser m))) + 7 < mx then
      \<exists>vs m'. http_encode True mx m = Ret (int (length vs), None, vs, m') \<and> int (length vs) \<le> mx
        \<and> concat vs = c_str a @ [SP] @ c_str b @ [SP] @ c_str c @ CRLF
            @ print_headers (map (\<lambda>l. (line_name l, line_value l)) (hp_header_list (hm_parser m))) @ CRLF
            @ concat (hm_output_body m)
        \<and> concat (hm_output_body m') = concat (hm_output_body m)
    else \<exists>vs. http_encode True mx m = Ret (-1, Some EOVERFLOW, vs, m)"
  using assms by (rule encode_output)

definition sample_request :: http_message where
  "sample_request =
     (http_message_init False parser0)
       \<lparr>hm_parser := (http_parser_init False parser0)
          \<lparr>hp_method := Some ''POST'', hp_uri := Some ''/x'', hp_version := Some ''HTTP/1.1'',
            hp_header_list := [new_line ''Content-Length'' ''5'']\<rparr>,
        hm_output_body := [''hello''], hm_output_body_size := 5\<rparr>"

lemma sample_request_fields:
  "hp_header_list (hm_parser sample_request) = [new_line ''Content-Length'' ''5'']"
  "start_line_of (hm_parser sample_request) = Some (''POST'', ''/x'', ''HTTP/1.1'')"
  "hm_output_body sample_request = [''hello'']" "hm_output_body_size sample_request = 5"
  by (simp_all add: sample_request_def start_line_of_def)

lemma sample_request_wf: "msg_wf sample_request"
  by (simp add: msg_wf_def sample_request_fields new_line_wf)

theorem message_ops_wf_witness:
  "\<exists>r m'. set_header_pair True ''Content-Length'' ''10'' sample_request = Ret (r, m') \<and> msg_wf m'"
  using message_ops_wf [OF sample_request_wf, of True "''Content-Length''" "''10''" "[]"] by simp

theorem http_encode_correct_witness:
  "\<exists>vs m'. http_encode True 9 sample_request = Ret (int (length vs), None, vs, m') \<and> int (length vs) \<le> 9
     \<and> concat vs = ''POST /x HTTP/1.1'' @ CRLF @ ''Content-Length: 5'' @ CRLF @ CRLF @ ''hello''"
proof -
  have "length (concat (hm_output_body sample_request)) < 2 ^ 63"
    by (simp add: sample_request_fields)
  from http_encode_correct [OF sample_request_wf sample_request_fields(2) _ this, of 9] show ?thesis
    by (auto simp: sample_request_fields c_str_noNUL print_headers_def header_text_def new_line_def
        line_name_def line_value_def)
qed

section \<open>Sending and receiving\<close>

text \<open>
  What \<open>encode\<close> writes, \<open>append\<close> reads: a request whose last header line is the length of
  its output body is encoded into vectors whose bytes, received by a fresh parser, give the
  same method, URI, version, header lines and body.
\<close>

theorem encode_append_roundtrip:
  assumes "msg_wf m" "hp_method (hm_parser m) = Some a" "hp_uri (hm_parser m) = Some b"
    "hp_version (hm_parser m) = Some c" "wf_request a b c"
    and hs: "map (\<lambda>l. (line_name l, line_value l)) (hp_header_list (hm_parser m))
      = hs @ [content_length_header (concat (hm_output_body m))]"
    and "list_all wf_header hs" "list_all (\<lambda>h. not_encoding (fst h)) hs"
    and "length (concat (hm_output_body m)) < 10 ^ 15" "length (hp_namebuf old) = 64"
    and "int (length (hp_header_list (hm_parser m))) + 7 < mx"
    and "int (length (print_head a b c (hs @ [content_length_header (concat (hm_output_body m))]))) < 2 ^ 61"
  shows "\<exists>vs m' q. http_encode True mx m = Ret (int (length vs), None, vs, m')
    \<and> http_parser_append_message (\<lambda>_. True) (\<lambda>_. True) (concat vs) (http_parser_init False old)
        = Ret (1, int (length (concat vs)), q)
    \<and> hp_method q = Some a \<and> hp_uri q = Some b \<and> hp_version q = Some c
    \<and> map (\<lambda>l. (line_name l, line_value l)) (hp_header_list q)
        = map (\<lambda>l. (line_name l, line_value l)) (hp_header_list (hm_parser m))
    \<and> http_parser_get_body q = Ret (Some (concat (hm_output_body m)))"
proof -
  define body where "body = concat (hm_output_body m)"
  have sl: "start_line_of (hm_parser m) = Some (a, b, c)"
    using assms(2-4) by (simp add: start_line_of_def)
  have "NUL \<notin> set a" "NUL \<notin> set b" "NUL \<notin> set c"
    using assms(5) unfolding wf_request_def list_all_iff by blast+
  then have cs: "c_str a = a" "c_str b = b" "c_str c = c"
    by (simp_all add: c_str_noNUL)
  have lt: "length body < 2 ^ 63" "6 \<le> mx"
    using assms(9,11) by (simp_all add: body_def)
  obtain vs m' where vs: "http_encode True mx m = Ret (int (length vs), None, vs, m')"
    "concat vs = print_head a b c (hs @ [content_length_header body]) @ body @ []"
    using encode_output [OF assms(1) sl lt(2) lt(1) [unfolded body_def]] assms(11) hs
    by (auto simp: cs print_head_def body_def)
  have "int (length (concat vs)) < 2 ^ 62"
    using assms(9,12) unfolding vs(2) body_def by simp
  from request_parsed_back [OF assms(5,7,8) assms(9) [folded body_def] assms(10) vs(2) this]
  show ?thesis
    using vs(1) hs by (auto simp: body_def)
qed

theorem encode_append_roundtrip_witness:
  "\<exists>vs m' q. http_encode True 9 sample_request = Ret (int (length vs), None, vs, m')
    \<and> http_parser_append_message (\<lambda>_. True) (\<lambda>_. True) (concat vs) (http_parser_init False parser0)
        = Ret (1, int (length (concat vs)), q)
    \<and> hp_uri q = Some ''/x'' \<and> http_parser_get_body q = Ret (Some ''hello'')"
proof -
  have d: "dec_str (Suc (Suc (Suc (Suc (Suc 0))))) = ''5''"
    by code_simp
  have p: "hp_method (hm_parser sample_request) = Some ''POST''" "hp_uri (hm_parser sample_request) = Some ''/x''"
    "hp_version (hm_parser sample_request) = Some ''HTTP/1.1''"
    by (simp_all add: sample_request_def)
  have "wf_request ''POST'' ''/x'' ''HTTP/1.1''"
    "map (\<lambda>l. (line_name l, line_value l)) (hp_header_list (hm_parser sample_request))
      = [] @ [content_length_header (concat (hm_output_body sample_request))]"
    "list_all wf_header []" "list_all (\<lambda>h. not_encoding (fst h)) []"
    "length (concat (hm_output_body sample_request)) < 10 ^ 15" "length (hp_namebuf parser0) = 64"
    "int (length (hp_header_list (hm_parser sample_request))) + 7 < 9"
    "int (length (print_head ''POST'' ''/x'' ''HTTP/1.1'' ([] @ [content_length_header (concat (hm_output_body sample_request))]))) < 2 ^ 61"
    by (simp_all add: wf_request_def sample_request_fields new_line_def line_name_def line_value_def header_text_def
        content_length_header_def d parser0_def print_head_def print_headers_def)
  from encode_append_roundtrip [OF sample_request_wf p this] show ?thesis
    by (auto simp: sample_request_fields)
qed

section \<open>The 100-continue handshake\<close>

lemma parse_chunk_expect:
  "chunk_ref msg p = (r, q) \<Longrightarrow> hp_expect_continue q = hp_expect_continue p
     \<and> hp_header_state q = hp_header_state p"
proof (induction msg p rule: chunk_ref.induct)
  case (1 msg p)
  have d: "chunk_data_ref ptr p = (r', q') \<Longrightarrow> hp_expect_continue q' = hp_expect_continue p \<and> hp_header_state q' = hp_header_state p"
    "parse_trailer_part ptr p = (r', q') \<Longrightarrow> hp_expect_continue q' = hp_expect_continue p \<and> hp_header_state q' = hp_header_state p"
    for ptr r' q'
    by (auto simp: chunk_data_ref_def parse_trailer_part_def split: scan.splits prod.splits if_splits)
  show ?case
  proof (cases "chunk_round_ref msg p")
    case (Inl p')
    then have "hp_expect_continue p' = hp_expect_continue p \<and> hp_header_state p' = hp_header_state p"
      by (auto simp: chunk_round_ref_def Let_def split: if_splits prod.splits dest: d)
    then show ?thesis
      using 1(1) [OF Inl] 1(2) parse_chunk_step(1) [OF Inl] by simp
  next
    case (Inr c)
    then have "chunk_round_ref msg p = Inr (r, q)"
      using 1(2) parse_chunk_step(2) [OF Inr] by simp
    then show ?thesis
      by (auto simp: chunk_round_ref_def Let_def split: if_splits prod.splits dest: d)
  qed
qed

lemma append_body_expect:
  "body_ref n p = (r, k, q) \<Longrightarrow> hp_expect_continue q = hp_expect_continue p \<and> hp_header_state q = hp_header_state p"
  by (auto simp: body_ref_def finish_message_def Let_def split: if_splits prod.splits dest: parse_chunk_expect)

text \<open>A parser whose header is complete does not look at header lines again.\<close>

lemma append_message_expect:
  assumes "http_parser_append_message ral al buf p = Ret (r, n, q)" "hp_header_state p = HPS_HEADER_COMPLETE"
  shows "hp_expect_continue q = hp_expect_continue p \<and> hp_header_state q = HPS_HEADER_COMPLETE"
  using assms
  by (auto simp: append_message_ref append_bytes_def Let_def split: if_splits outcome.splits option.splits
      dest: append_body_expect)

lemma message_append_expect:
  assumes "http_message_append ral al buf m = Ret (r, e, n, m')" "hp_header_state (hm_parser m) = HPS_HEADER_COMPLETE"
  shows "hp_expect_continue (hm_parser m') = hp_expect_continue (hm_parser m)"
  using assms
  by (auto simp: http_message_append_def Let_def split: if_splits outcome.splits prod.splits dest: append_message_expect)

text \<open>
  \<open>100 Continue\<close> is sent at most once per request: when an append feeds it back, the header
  is complete and the expectation is cleared, and no later append of the same message feeds it
  back again.
\<close>

theorem continue_sent_once:
  assumes "http_request_append fb ral al buf m = Ret (r, e, n, m', out)" "HTTP_100_RESP \<in> set out"
    and "http_request_append fb' ral' al' buf' m' = Ret (r2, e2, n2, m2, out2)"
  shows "\<not> hp_expect_continue (hm_parser m') \<and> http_parser_header_complete (hm_parser m')
    \<and> HTTP_100_RESP \<notin> set out2"
proof -
  have ne: "HTTP_100_RESP \<noteq> HTTP_400_RESP" "HTTP_100_RESP \<noteq> HTTP_413_RESP"
    by (simp_all add: HTTP_100_RESP_def HTTP_400_RESP_def HTTP_413_RESP_def error_resp_def)
  have c: "\<not> hp_expect_continue (hm_parser m')" "http_parser_header_complete (hm_parser m')"
    using assms(1,2) ne
    by (auto simp: http_request_append_def http_parser_header_complete_def Let_def
        split: outcome.splits if_splits prod.splits)
  obtain r3 e3 n3 m3 where m3: "http_message_append ral' al' buf' m' = Ret (r3, e3, n3, m3)"
    using assms(3) by (auto simp: http_request_append_def split: outcome.splits)
  have "\<not> hp_expect_continue (hm_parser m3)"
    using message_append_expect [OF m3] c by (simp add: http_parser_header_complete_def)
  then have "HTTP_100_RESP \<notin> set out2"
    using assms(3) m3 ne by (auto simp: http_request_append_def split: if_splits)
  then show ?thesis using c by blast
qed

definition expect_text :: string where
  "expect_text = ''PUT / HTTP/1.1'' @ CRLF @ ''Expect: 100-continue'' @ CRLF @ ''Content-Length: 2'' @ CRLF @ CRLF"

theorem continue_sent_once_witness:
  "\<exists>m' m2 n2 out2.
     http_request_append (\<lambda>t. int (length t)) (\<lambda>_. True) (\<lambda>_. True) expect_text (http_message_init False parser0)
       = Ret (0, None, 59, m', [HTTP_100_RESP])
     \<and> http_request_append (\<lambda>t. int (length t)) (\<lambda>_. True) (\<lambda>_. True) ''ok'' m' = Ret (1, None, n2, m2, out2)
     \<and> HTTP_100_RESP \<notin> set out2"
proof -
  let ?a = "http_request_append (\<lambda>t. int (length t)) (\<lambda>_. True) (\<lambda>_. True)"
  have "case ?a expect_text (http_message_init False parser0) of UB \<Rightarrow> False
      | Ret (r, e, n, m', out) \<Rightarrow> r = 0 \<and> e = None \<and> n = 59 \<and> out = [HTTP_100_RESP]
          \<and> (case ?a ''ok'' m' of UB \<Rightarrow> False | Ret (r2, e2, n2, m2, out2) \<Rightarrow> r2 = 1 \<and> e2 = None)"
    by code_simp
  then obtain m' n2 m2 out2 where a: "?a expect_text (http_message_init False parser0) = Ret (0, None, 59, m', [HTTP_100_RESP])"
    "?a ''ok'' m' = Ret (1, None, n2, m2, out2)"
    by (auto split: outcome.splits)
  from continue_sent_once [OF a(1) _ a(2)] a show ?thesis by auto
qed

end
