(* ===== verification/HttpUtil.thy ===== *)
theory HttpUtil
  imports HttpMessage
begin

text \<open>
  \<open>src/util/HttpUtil.cc\<close> and \<open>HttpUtil.h\<close>: the status table, the header map, the cursor over
  the chunks of a chunked body and its decoder.

  The body that \<open>http_parser_get_body\<close> hands out ends with a terminator that is not counted
  in its length. A read or a pointer outside the body and its terminator is \<open>UB\<close>.
\<close>

section \<open>Status codes\<close>

definition status_phrases_1to3 :: "(int \<times> string) list" where
  "status_phrases_1to3 = [
     (100, ''Continue''),
     (101, ''Switching Protocols''),
     (102, ''Processing''),
     (200, ''OK''),
     (201, ''Created''),
     (202, ''Accepted''),
     (203, ''Non-Authoritative Information''),
     (204, ''No Content''),
     (205, ''Reset Content''),
     (206, ''Partial Content''),
     (207, ''Multi-Status''),
     (208, ''Already Reported''),
     (226, ''IM Used''),
     (300, ''Multiple Choices''),
     (301, ''Moved Permanently''),
     (302, ''Found''),
     (303, ''See Other''),
     (304, ''Not Modified''),
     (305, ''Use Proxy''),
     (306, ''Switch Proxy''),
     (307, ''Temporary Redirect''),
     (308, ''Permanent Redirect'')]"

definition status_phrases_4 :: "(int \<times> string) list" where
  "status_phrases_4 = [
     (400, ''Bad Request''),
     (401, ''Unauthorized''),
     (402, ''Payment Required''),
     (403, ''Forbidden''),
     (404, ''Not Found''),
     (405, ''Method Not Allowed''),
     (406, ''Not Acceptable''),
     (407, ''Proxy Authentication Required''),
     (408, ''Request Timeout''),
     (409, ''Conflict''),
     (410, ''Gone''),
     (411, ''Length Required''),
     (412, ''Precondition Failed''),
     (413, ''Request Entity Too Large''),
     (414, ''Request-URI Too Long''),
     (415, ''Unsupported Media Type''),
     (416, ''Requested Range Not Satisfiable''),
     (417, ''Expectation Failed''),
     (418, ''I'' @ CHR 0x27 # ''m a teapot''),
     (420, ''Enhance Your Caim''),
     (421, ''Misdirected Request''),
     (422, ''Unprocessable Entity''),
     (423, ''Locked''),
     (424, ''Failed Dependency''),
     (425, ''Too Early''),
     (426, ''Upgrade Required''),
     (428, ''Precondition Required''),
     (429, ''Too Many Requests''),
     (431, ''Request Header Fields Too Large''),
     (444, ''No Response''),
     (450, ''Blocked by Windows Parental Controls''),
     (451, ''Unavailable For Legal Reasons''),
     (494, ''Request Header Too Large'')]"

definition status_phrases_5 :: "(int \<times> string) list" where
  "status_phrases_5 = [
     (500, ''Internal Server Error''),
     (501, ''Not Implemented''),
     (502, ''Bad Gateway''),
     (503, ''Service Unavailable''),
     (504, ''Gateway Timeout''),
     (505, ''HTTP Version Not Supported''),
     (506, ''Variant Also Negotiates''),
     (507, ''Insufficient Storage''),
     (508, ''Loop Detected''),
     (510, ''Not Extended''),
     (511, ''Network Authentication Required'')]"

definition http_status_codes :: "int list" where
  "http_status_codes =
    [100, 101, 102, 200, 201, 202, 203, 204, 205, 206, 207, 208, 226, 300, 301,
     302, 303, 304, 305, 307, 308, 400, 401, 402, 403, 404, 405, 406, 407, 408,
     409, 410, 411, 412, 413, 414, 415, 416, 417, 418, 420, 421, 422, 423, 424,
     425, 426, 428, 429, 431, 444, 450, 451, 494, 500, 501, 502, 503, 504, 505,
     506, 507, 508, 510, 511]"

text \<open>The \<open>switch\<close> of \<open>set_response_status\<close>.\<close>

definition status_reason :: "int \<Rightarrow> string" where
  "status_reason status_code =
     (case map_of (status_phrases_1to3 @ status_phrases_4 @ status_phrases_5) status_code of
        None \<Rightarrow> ''Unknown'' | Some s \<Rightarrow> s)"

text \<open>\<open>sprintf(buf, "%d", n)\<close>.\<close>

definition int_str :: "int \<Rightarrow> string" where
  "int_str n = (if n < 0 then CHR ''-'' # dec_str (nat (- n)) else dec_str (nat n))"

text \<open>The two setters may fail to allocate; their results are ignored.\<close>

definition set_response_status :: "bool \<Rightarrow> bool \<Rightarrow> http_message \<Rightarrow> int \<Rightarrow> http_message" where
  "set_response_status al1 al2 resp status_code =
     resp\<lparr>hm_parser :=
       snd (http_parser_set_phrase al2 (status_reason status_code)
         (snd (http_parser_set_code al1 (int_str status_code) (hm_parser resp))))\<rparr>"

section \<open>The header map\<close>

type_synonym header_map = "string \<rightharpoonup> string list"

definition lower :: "string \<Rightarrow> string" where
  "lower key = map tolower key"

text \<open>\<open>header_map_[key].emplace_back(value)\<close>.\<close>

definition map_push :: "string \<Rightarrow> string \<Rightarrow> header_map \<Rightarrow> header_map" where
  "map_push key v m = m(key \<mapsto> (case m key of None \<Rightarrow> [] | Some vs \<Rightarrow> vs) @ [v])"

function header_map_loop :: "header_line list \<Rightarrow> header_cursor \<Rightarrow> header_map \<Rightarrow> header_map" where
  "header_map_loop ls cur m =
     (case http_header_cursor_next ls cur of
        (None, _) \<Rightarrow> m
      | (Some (n, v), cur') \<Rightarrow> header_map_loop ls cur' (map_push (lower n) v m))"
  by pat_completeness auto
termination
  by (relation "measure (\<lambda>(ls, cur, m). length ls - cur)")
    (auto simp: http_header_cursor_next_def split: if_splits)

declare header_map_loop.simps [simp del]

definition header_map_init :: "http_message \<Rightarrow> header_map" where
  "header_map_init msg = header_map_loop (hp_header_list (hm_parser msg)) 0 Map.empty"

definition key_exists :: "header_map \<Rightarrow> string \<Rightarrow> bool" where
  "key_exists m key \<longleftrightarrow> m (lower key) \<noteq> None"

definition header_map_get :: "header_map \<Rightarrow> string \<Rightarrow> string" where
  "header_map_get m key =
     (case m (lower key) of None \<Rightarrow> [] | Some [] \<Rightarrow> [] | Some (v # _) \<Rightarrow> v)"

definition header_map_get2 :: "header_map \<Rightarrow> string \<Rightarrow> string option" where
  "header_map_get2 m key =
     (case m (lower key) of None \<Rightarrow> None | Some [] \<Rightarrow> None | Some (v # _) \<Rightarrow> Some v)"

text \<open>\<open>header_map_[key]\<close> of a missing key inserts an empty vector.\<close>

definition get_strict :: "header_map \<Rightarrow> string \<Rightarrow> string list \<times> header_map" where
  "get_strict m key =
     (case m (lower key) of None \<Rightarrow> ([], m(lower key \<mapsto> [])) | Some vs \<Rightarrow> (vs, m))"

definition get_strict2 :: "header_map \<Rightarrow> string \<Rightarrow> string list option" where
  "get_strict2 m key =
     (case m (lower key) of None \<Rightarrow> None | Some [] \<Rightarrow> None | Some vs \<Rightarrow> Some vs)"

section \<open>The chunk cursor\<close>

record chunk_cursor =
  cc_body :: "string option"
  cc_pos :: nat
  cc_chunked :: bool
  cc_end :: bool

definition chunk_cursor_init :: "http_message \<Rightarrow> chunk_cursor outcome" where
  "chunk_cursor_init msg =
     (case http_parser_get_body (hm_parser msg) of
        UB \<Rightarrow> UB
      | Ret (Some body) \<Rightarrow> Ret \<lparr>cc_body = Some body, cc_pos = 0, cc_chunked = hp_chunked (hm_parser msg), cc_end = False\<rparr>
      | Ret None \<Rightarrow> Ret \<lparr>cc_body = None, cc_pos = 0, cc_chunked = False, cc_end = True\<rparr>)"

text \<open>
  \<open>strchr(end, CR)\<close> stops at the first terminator; without a carriage return before it the
  result is NULL and the code goes on with that pointer.
\<close>

definition chunk_next_at :: "string \<Rightarrow> nat \<Rightarrow> (nat \<times> nat \<times> nat) option outcome" where
  "chunk_next_at body pos =
     (case strtol16 (drop pos body) of
        (n, consumed) \<Rightarrow>
          let sz = n mod 2 ^ 64 in
          if sz = 0 then Ret None
          else
            let s = c_str (drop (pos + consumed) body);
                k = length (takeWhile (\<lambda>c. c \<noteq> CR) s);
                start = pos + consumed + k + 2
            in if k < length s \<and> int start + sz + 2 \<le> int (length body)
               then Ret (Some (start, nat sz, start + nat sz + 2)) else UB)"

definition chunk_cursor_next :: "chunk_cursor \<Rightarrow> (string option \<times> chunk_cursor) outcome" where
  "chunk_cursor_next cur =
     (if cc_end cur then Ret (None, cur)
      else
        (case cc_body cur of
           None \<Rightarrow> UB
         | Some body \<Rightarrow>
             if \<not> cc_chunked cur then Ret (Some body, cur\<lparr>cc_end := True\<rparr>)
             else
               (case chunk_next_at body (cc_pos cur) of
                  UB \<Rightarrow> UB
                | Ret None \<Rightarrow> Ret (None, cur\<lparr>cc_end := True\<rparr>)
                | Ret (Some (start, sz, pos')) \<Rightarrow> Ret (Some (take sz (drop start body)), cur\<lparr>cc_pos := pos'\<rparr>))))"

definition chunk_cursor_rewind :: "chunk_cursor \<Rightarrow> chunk_cursor" where
  "chunk_cursor_rewind cur =
     (if cc_body cur = None then cur else cur\<lparr>cc_pos := 0, cc_end := False\<rparr>)"

lemma chunk_next_at_advance:
  "chunk_next_at body pos = Ret (Some (start, sz, pos')) \<Longrightarrow> pos < pos' \<and> pos' \<le> length body"
  by (auto simp: chunk_next_at_def Let_def split: prod.splits if_splits)

text \<open>The loop of \<open>decode_chunked_body\<close>; a message that is not chunked yields its body once.\<close>

definition cursor_left :: "chunk_cursor \<Rightarrow> nat" where
  "cursor_left cur =
     (if cc_end cur then 0
      else case cc_body cur of None \<Rightarrow> 0 | Some body \<Rightarrow> Suc (length body - cc_pos cur))"

lemma chunk_cursor_next_left:
  "chunk_cursor_next cur = Ret (Some c, cur') \<Longrightarrow> cursor_left cur' < cursor_left cur"
  by (auto simp: chunk_cursor_next_def cursor_left_def split: if_splits option.splits outcome.splits
      dest!: chunk_next_at_advance)

function decode_loop :: "chunk_cursor \<Rightarrow> string \<Rightarrow> string outcome" where
  "decode_loop cur res =
     (case chunk_cursor_next cur of
        UB \<Rightarrow> UB
      | Ret (None, _) \<Rightarrow> Ret res
      | Ret (Some c, cur') \<Rightarrow> decode_loop cur' (res @ c))"
  by pat_completeness auto
termination
  by (relation "measure (\<lambda>(cur, res). cursor_left cur)") (auto dest: chunk_cursor_next_left)

declare decode_loop.simps [simp del]

definition decode_chunked_body :: "http_message \<Rightarrow> string outcome" where
  "decode_chunked_body msg =
     (case chunk_cursor_init msg of
        UB \<Rightarrow> UB
      | Ret cur \<Rightarrow> (case cc_body cur of None \<Rightarrow> Ret [] | Some _ \<Rightarrow> decode_loop cur []))"

section \<open>The status table\<close>

lemma atoi_int_str: "atoi (int_str n) = n"
proof (cases "n < 0")
  case True
  note d = dec_str_digits [of "nat (- n)"]
  have tw: "takeWhile isdigit (dec_str (nat (- n))) = dec_str (nat (- n))"
    using d by (simp add: list_all_iff takeWhile_eq_all_conv)
  have "NUL \<notin> set (CHR ''-'' # dec_str (nat (- n)))"
    using d by (auto simp: list_all_iff isdigit_def)
  then show ?thesis
    using True d by (simp add: atoi_def int_str_def c_str_noNUL isspace_def tw)
next
  case False
  then show ?thesis by (simp add: int_str_def atoi_dec_str)
qed

lemma c_str_int_str: "c_str (int_str n) = int_str n"
proof -
  have "NUL \<notin> set (dec_str k)" for k
    using dec_str_digits [of k] by (auto simp: list_all_iff isdigit_def)
  then show ?thesis
    by (intro c_str_noNUL) (auto simp: int_str_def)
qed

lemma status_codes_listed:
  "list_all (\<lambda>c. c \<in> set (map fst (status_phrases_1to3 @ status_phrases_4 @ status_phrases_5))) http_status_codes"
  by (simp add: http_status_codes_def status_phrases_1to3_def status_phrases_4_def status_phrases_5_def)

lemma status_phrases_ok:
  "list_all (\<lambda>(c, s). NUL \<notin> set s \<and> s \<noteq> ''Unknown'' \<and> s \<noteq> '''')
     (status_phrases_1to3 @ status_phrases_4 @ status_phrases_5)"
  by (simp add: status_phrases_1to3_def status_phrases_4_def status_phrases_5_def)

lemma status_table:
  assumes "c \<in> set http_status_codes"
  shows "c_str (status_reason c) = status_reason c \<and> status_reason c \<noteq> ''Unknown'' \<and> status_reason c \<noteq> ''''"
proof -
  let ?t = "status_phrases_1to3 @ status_phrases_4 @ status_phrases_5"
  have "c \<in> set (map fst ?t)"
    using assms status_codes_listed by (simp only: list_all_iff)
  then obtain s where s: "map_of ?t c = Some s"
    by (metis list.set_map map_of_eq_None_iff not_None_eq)
  then have "(c, s) \<in> set ?t"
    by (rule map_of_SomeD)
  then have "NUL \<notin> set s \<and> s \<noteq> ''Unknown'' \<and> s \<noteq> ''''"
    using status_phrases_ok by (fastforce simp only: list_all_iff)
  then show ?thesis
    using s by (simp add: status_reason_def c_str_noNUL)
qed

text \<open>
  Every code of the enumeration in \<open>HttpUtil.h\<close> has a reason phrase of its own: the
  response gets the decimal digits of the code, which \<open>atoi\<close> reads back, and a phrase that
  is neither empty nor \<open>Unknown\<close>.
\<close>

theorem set_response_status_correct:
  assumes "c \<in> set http_status_codes"
  shows "\<exists>ph. ph \<noteq> '''' \<and> ph \<noteq> ''Unknown''
    \<and> set_response_status True True resp c
      = resp\<lparr>hm_parser := (hm_parser resp)\<lparr>hp_code := Some (int_str c), hp_phrase := Some ph\<rparr>\<rparr>
    \<and> atoi (int_str c) = c"
  using status_table [OF assms]
  by (intro exI [of _ "status_reason c"])
    (simp add: set_response_status_def http_parser_set_phrase_def http_parser_set_code_def c_str_int_str atoi_int_str)

theorem set_response_status_witness:
  "\<exists>ph. ph \<noteq> '''' \<and> ph \<noteq> ''Unknown''
    \<and> set_response_status True True (http_message_init True parser0) 404
      = (http_message_init True parser0)\<lparr>hm_parser :=
          (hm_parser (http_message_init True parser0))\<lparr>hp_code := Some (int_str 404), hp_phrase := Some ph\<rparr>\<rparr>"
  using set_response_status_correct [of 404 "http_message_init True parser0"] by (auto simp: http_status_codes_def)

section \<open>The header map and the cursor\<close>

definition lines_named :: "string \<Rightarrow> header_line list \<Rightarrow> header_line list" where
  "lines_named key ls = filter (\<lambda>l. lower (line_name l) = key) ls"

definition name_ok :: "header_line \<Rightarrow> bool" where
  "name_ok l \<longleftrightarrow> line_ok l \<and> NUL \<notin> set (line_name l)"

lemma header_map_loop_get:
  "header_map_loop ls cur m key =
     (case map line_value (lines_named key (drop cur ls)) of
        [] \<Rightarrow> m key
      | v # vs \<Rightarrow> Some ((case m key of None \<Rightarrow> [] | Some us \<Rightarrow> us) @ v # vs))"
proof (induction ls cur m rule: header_map_loop.induct)
  case (1 ls cur m)
  show ?case
  proof (cases "cur < length ls")
    case True
    then have d: "drop cur ls = ls ! cur # drop (Suc cur) ls"
      by (rule Cons_nth_drop_Suc [symmetric])
    have n: "http_header_cursor_next ls cur = (Some (line_name (ls ! cur), line_value (ls ! cur)), cur + 1)"
      using True by (simp add: http_header_cursor_next_def)
    have step: "header_map_loop ls cur m
        = header_map_loop ls (cur + 1) (map_push (lower (line_name (ls ! cur))) (line_value (ls ! cur)) m)"
      by (subst header_map_loop.simps) (simp add: n)
    show ?thesis
      unfolding step 1 [OF n [symmetric] refl refl] d
      by (auto simp: lines_named_def map_push_def split: list.splits option.splits)
  next
    case False
    then show ?thesis
      by (subst header_map_loop.simps) (simp add: http_header_cursor_next_def lines_named_def)
  qed
qed

lemma line_matches_lower:
  assumes "name_ok l" "NUL \<notin> set name"
  shows "line_matches name l \<longleftrightarrow> lower (line_name l) = lower name"
proof -
  have len: "length (line_name l) = hl_name_len l"
    using assms(1) by (simp add: name_ok_def line_ok_def line_name_def)
  show ?thesis
  proof (cases "hl_name_len l = length name")
    case True
    have "strncasecmp_eq (hl_buf l) name (length name) = strncasecmp_eq (line_name l) name (length name)"
      using strncasecmp_eq_take [of "length name" "hl_buf l" "[]" name] True assms(1)
      by (simp add: line_name_def name_ok_def line_ok_def)
    then show ?thesis
      using strncasecmp_eq_iff_lower [of "line_name l" "length name" name] True assms len
      by (simp add: line_matches_def lower_def name_ok_def)
  next
    case False
    then show ?thesis
      using len by (auto simp: line_matches_def lower_def dest: map_eq_imp_length_eq)
  qed
qed

lemma find_lines_named:
  assumes "list_all name_ok ls" "NUL \<notin> set name"
  shows "map_option line_value (List.find (line_matches name) ls)
    = (case map line_value (lines_named (lower name) ls) of [] \<Rightarrow> None | v # _ \<Rightarrow> Some v)"
  using assms by (induction ls) (auto simp: lines_named_def line_matches_lower)

text \<open>
  The header map agrees with the header cursor: for names without a NUL byte,
  \<open>HttpHeaderMap::get\<close> returns what \<open>http_header_cursor_find\<close> finds from the start of the
  list, and \<open>get_strict\<close> the values of all lines of that name, compared without case, in the
  order of the message.
\<close>

theorem header_map_cursor:
  assumes "list_all name_ok (hp_header_list (hm_parser msg))" "NUL \<notin> set name"
  shows "header_map_get2 (header_map_init msg) name = fst (http_header_cursor_find name (hp_header_list (hm_parser msg)) 0)
    \<and> fst (get_strict (header_map_init msg) name) = map line_value (lines_named (lower name) (hp_header_list (hm_parser msg)))
    \<and> (key_exists (header_map_init msg) name \<longleftrightarrow> header_map_get2 (header_map_init msg) name \<noteq> None)"
proof -
  let ?ls = "hp_header_list (hm_parser msg)"
  have m: "header_map_init msg (lower name) =
      (case map line_value (lines_named (lower name) ?ls) of [] \<Rightarrow> None | v # vs \<Rightarrow> Some (v # vs))"
    by (simp add: header_map_init_def header_map_loop_get split: list.split)
  have f: "fst (http_header_cursor_find name ?ls 0) = map_option line_value (List.find (line_matches name) ?ls)"
    by (simp add: cursor_find_eq Let_def split: option.split)
  have g: "fst (get_strict (header_map_init msg) name) = map line_value (lines_named (lower name) ?ls)"
    by (simp add: get_strict_def m split: list.split)
  have "header_map_get2 (header_map_init msg) name = fst (http_header_cursor_find name ?ls 0)"
    by (simp add: f find_lines_named [OF assms] header_map_get2_def m split: list.split)
  moreover have "key_exists (header_map_init msg) name \<longleftrightarrow> header_map_get2 (header_map_init msg) name \<noteq> None"
    by (simp add: key_exists_def header_map_get2_def m split: list.split)
  ultimately show ?thesis using g by blast
qed

theorem header_map_cursor_witness:
  "\<exists>msg. get_strict2 (header_map_init msg) ''HOST'' = Some [''a'', ''b'']
    \<and> header_map_get2 (header_map_init msg) ''HOST'' = fst (http_header_cursor_find ''HOST'' (hp_header_list (hm_parser msg)) 0)"
proof -
  define msg where "msg = (http_message_init False parser0)\<lparr>hm_parser := (http_parser_init False parser0)
     \<lparr>hp_header_list := [new_line ''Host'' ''a'', new_line ''X'' ''c'', new_line ''host'' ''b'']\<rparr>\<rparr>"
  have "list_all name_ok (hp_header_list (hm_parser msg))" "NUL \<notin> set ''HOST''"
    by (simp_all add: msg_def name_ok_def line_ok_def new_line_def header_text_def line_name_def)
  from header_map_cursor [OF this]
  have "header_map_get2 (header_map_init msg) ''HOST'' = fst (http_header_cursor_find ''HOST'' (hp_header_list (hm_parser msg)) 0)"
    by blast
  moreover have "get_strict2 (header_map_init msg) ''HOST'' = Some [''a'', ''b'']"
    unfolding msg_def by code_simp
  ultimately show ?thesis by blast
qed

text \<open>
  \<open>get_strict\<close> of the map is not a pure query: asked for a missing key it inserts the key
  with no values, so \<open>key_exists\<close> answers true afterwards, while \<open>get\<close> still finds nothing.
\<close>

theorem get_strict_inserts:
  assumes "\<not> key_exists m key"
  shows "fst (get_strict m key) = [] \<and> key_exists (snd (get_strict m key)) key
    \<and> header_map_get2 (snd (get_strict m key)) key = None
    \<and> (\<forall>k. lower k \<noteq> lower key \<longrightarrow> key_exists (snd (get_strict m key)) k = key_exists m k)"
  using assms by (auto simp: get_strict_def key_exists_def header_map_get2_def split: option.splits)

theorem get_strict_inserts_witness:
  "\<not> key_exists (header_map_init (http_message_init False parser0)) ''Host''
   \<and> key_exists (snd (get_strict (header_map_init (http_message_init False parser0)) ''Host'')) ''host''"
proof -
  have n: "\<not> key_exists (header_map_init (http_message_init False parser0)) ''Host''"
    by code_simp
  moreover have "lower ''host'' = lower ''Host''" by code_simp
  ultimately show ?thesis
    using get_strict_inserts [OF n] by (simp add: key_exists_def)
qed

section \<open>Chunked bodies\<close>

text \<open>A chunk is its size line, hexadecimal digits, and its data.\<close>

definition wf_chunk :: "string \<times> string \<Rightarrow> bool" where
  "wf_chunk = (\<lambda>(h, d). list_all isxdigit h \<and> h \<noteq> [] \<and> length h < 1024 \<and> hex_val 0 h = length d
     \<and> d \<noteq> [] \<and> int (length d) < CHUNK_SIZE_MAX)"

definition chunk_text :: "string \<times> string \<Rightarrow> string" where
  "chunk_text = (\<lambda>(h, d). h @ CRLF @ d @ CRLF)"

definition wf_trailer :: "string \<Rightarrow> bool" where
  "wf_trailer t \<longleftrightarrow> t \<noteq> [] \<and> CR \<notin> set t \<and> length t < 8192"

definition trailer_text :: "string list \<Rightarrow> string" where
  "trailer_text ts = concat (map (\<lambda>t. t @ CRLF) ts) @ CRLF"

definition chunked_text :: "(string \<times> string) list \<Rightarrow> string list \<Rightarrow> string" where
  "chunked_text cs ts = concat (map chunk_text cs) @ ''0'' @ CRLF @ trailer_text ts"

lemma isxdigit_not: "isxdigit c \<Longrightarrow> c \<noteq> CR \<and> c \<noteq> NUL \<and> c \<noteq> CHR ''-'' \<and> c \<noteq> CHR ''+'' \<and> \<not> isspace c \<and> tolower c \<noteq> CHR ''x''"
proof -
  assume x: "isxdigit c"
  then have "code (tolower c) \<noteq> code (CHR ''x'')"
    unfolding code_tolower by (auto simp: isxdigit_def isdigit_def isupper_def)
  with x show ?thesis
    by (auto simp: isxdigit_def isdigit_def isspace_def)
qed

text \<open>The size of a chunk line, with whatever follows its carriage return.\<close>

lemma strtol16_digits:
  assumes "list_all isxdigit h" "h \<noteq> []" "int (hex_val 0 h) \<le> LONG_MAX"
  shows "strtol16 h = (int (hex_val 0 h), length h) \<and> strtol16 (h @ CR # t) = (int (hex_val 0 h), length h)"
proof -
  obtain x r where h: "h = x # r" using assms(2) by (cases h) auto
  have x: "isxdigit x" and r: "list_all isxdigit r" using assms(1) h by auto
  have all: "\<forall>c\<in>set h. isxdigit c" using assms(1) by (simp add: list_all_iff)
  have nul: "NUL \<notin> set h" using all isxdigit_not by blast
  have nx: "\<not> tolower (cat (h @ s) 1) = CHR ''x''" if "s = [] \<or> hd s = CR" for s
  proof (cases r)
    case Nil
    have "tolower CR \<noteq> CHR ''x''" "tolower NUL \<noteq> CHR ''x''" by (simp_all add: tolower_def isupper_def)
    then show ?thesis using that h Nil by (cases s) auto
  next
    case (Cons y r')
    then show ?thesis using h r isxdigit_not [of y] by (simp add: cat_def)
  qed
  have hb: "hex_body (h @ s) = (hex_val 0 h, length h)" if "s = [] \<or> hd s = CR" for s
  proof -
    have "\<not> isxdigit CR" by (simp add: isxdigit_def isdigit_def)
    then have "takeWhile isxdigit (h @ s) = h"
      using all that by (cases s) (auto simp: takeWhile_append takeWhile_eq_all_conv)
    then show ?thesis using nx [OF that] by (simp add: hex_body_def)
  qed
  have st: "strtol16 u = (int (hex_val 0 h), length h)" if "c_str u = h @ s" "s = [] \<or> hd s = CR" for u s
  proof -
    have "takeWhile isspace (h @ s) = []" using h isxdigit_not [OF x] by simp
    moreover have "cat (h @ s) 0 \<noteq> CHR ''-''" "cat (h @ s) 0 \<noteq> CHR ''+''" using h isxdigit_not [OF x] by auto
    ultimately show ?thesis
      using that hb [OF that(2)] assms(2,3) by (simp add: strtol16_def)
  qed
  have "c_str (h @ CR # t) = h @ CR # c_str t"
    using nul by (simp add: c_str_def takeWhile_append2 takeWhile_append)
  then show ?thesis
    using st [of h "[]"] st [of "h @ CR # t" "CR # c_str t"] nul by (simp add: c_str_noNUL)
qed

lemma wf_chunk_size:
  assumes "wf_chunk (h, d)"
  shows "strtol16 h = (int (length d), length h) \<and> strtol16 (h @ CR # t) = (int (length d), length h)"
  using assms strtol16_digits [of h t] by (simp add: wf_chunk_def LONG_MAX_def)

subsection \<open>The parser over the chunks\<close>

lemma parse_chunk_data_found:
  assumes "wf_chunk (h, d)"
  shows "chunk_data_ref (chunk_text (h, d) @ rest) p
    = (1, p\<lparr>hp_chunk_offset := hp_chunk_offset p + length (chunk_text (h, d))\<rparr>)"
proof -
  have "\<forall>c\<in>set h. c \<noteq> CR \<and> \<not> False"
    using assms isxdigit_not by (auto simp: wf_chunk_def list_all_iff)
  then have "line_scan (\<lambda>_. False) HTTP_CHUNK_LINE_MAX (h @ CRLF @ d @ CRLF @ rest) 0 = Line (length h)"
    using assms by (intro line_scan_found) (auto simp: wf_chunk_def)
  then have scan: "line_scan (\<lambda>_. False) HTTP_CHUNK_LINE_MAX (chunk_text (h, d) @ rest) 0 = Line (length h)"
    by (simp add: chunk_text_def)
  have sz: "strtol16 (take (length h) (chunk_text (h, d) @ rest)) = (int (length d), length h)"
    using wf_chunk_size [OF assms] by (simp add: chunk_text_def)
  have w: "h \<noteq> []" "d \<noteq> []" "int (length d) < CHUNK_SIZE_MAX"
    using assms by (auto simp: wf_chunk_def)
  have md: "int (length d) mod 2 ^ 64 = int (length d)"
    using w(3) by (intro mod_pos_pos_trivial) auto
  have len: "nat (int (length d) + int (length h) + 4) = length (chunk_text (h, d))"
    "\<not> int (length (chunk_text (h, d) @ rest)) < int (length d) + int (length h) + 4"
    by (simp_all add: chunk_text_def)
  show ?thesis
    unfolding chunk_data_ref_def scan scan.case sz prod.case md len(1) if_not_P [OF len(2)]
    using w by simp
qed

lemma parse_chunk_data_last:
  "chunk_data_ref (CHR ''0'' # CR # LF # rest) p
    = (1, p\<lparr>hp_chunk_state := CPS_TRAILER_PART, hp_chunk_offset := hp_chunk_offset p + 3\<rparr>)"
proof -
  have "line_scan (\<lambda>_. False) HTTP_CHUNK_LINE_MAX (''0'' @ CRLF @ rest) 0 = Line (length ''0'')"
    by (intro line_scan_found) auto
  moreover have "strtol16 ''0'' = (0, 1)" by code_simp
  ultimately show ?thesis by (simp add: chunk_data_ref_def)
qed

lemma parse_chunks:
  assumes "list_all wf_chunk cs" "hp_chunk_state p = CPS_CHUNK_DATA"
    "drop (hp_chunk_offset p) msg = concat (map chunk_text cs) @ rest" "hp_chunk_offset p \<le> length msg"
  shows "chunk_ref msg p = chunk_ref msg (p\<lparr>hp_chunk_offset := hp_chunk_offset p + length (concat (map chunk_text cs))\<rparr>)"
  using assms
proof (induction cs arbitrary: p)
  case Nil
  then show ?case by simp
next
  case (Cons c cs)
  obtain h d where c: "c = (h, d)" by (cases c)
  have w: "wf_chunk (h, d)" and ws: "list_all wf_chunk cs" using Cons.prems(1) c by auto
  let ?q = "p\<lparr>hp_chunk_offset := hp_chunk_offset p + length (chunk_text c)\<rparr>"
  have d: "drop (hp_chunk_offset p) msg = chunk_text (h, d) @ concat (map chunk_text cs) @ rest"
    using Cons.prems(3) c by simp
  have "chunk_round_ref msg p = Inl ?q"
    using parse_chunk_data_found [OF w, of "concat (map chunk_text cs) @ rest" p] Cons.prems(2)
    unfolding chunk_round_ref_def d by (simp add: c)
  moreover have "drop (hp_chunk_offset ?q) msg = concat (map chunk_text cs) @ rest"
    using arg_cong [OF d, of "drop (length (chunk_text c))"] by (simp add: c add.commute)
  moreover have "hp_chunk_offset ?q \<le> length msg"
    using arg_cong [OF d, of length] Cons.prems(4) by (simp add: c)
  ultimately show ?case
    using Cons.IH [OF ws, of ?q] Cons.prems(2) parse_chunk_step(1) [of msg p ?q] by (simp add: ac_simps)
qed

lemma parse_trailers:
  assumes "list_all wf_trailer ts" "hp_chunk_state p = CPS_TRAILER_PART"
    "drop (hp_chunk_offset p) msg = trailer_text ts @ rest" "hp_chunk_offset p \<le> length msg"
  shows "chunk_ref msg p = (1, p\<lparr>hp_chunk_offset := hp_chunk_offset p + length (trailer_text ts),
    hp_chunk_state := CPS_CHUNK_COMPLETE\<rparr>)"
  using assms
proof (induction ts arbitrary: p)
  case Nil
  have "line_scan (\<lambda>_. False) HTTP_TRAILER_LINE_MAX ([] @ CRLF @ rest) 0 = Line (length ([] :: string))"
    by (intro line_scan_found) auto
  moreover have d: "drop (hp_chunk_offset p) msg = CR # LF # rest"
    using Nil.prems(3) by (simp add: trailer_text_def)
  ultimately have "chunk_round_ref msg p = Inr (1, p\<lparr>hp_chunk_offset := hp_chunk_offset p + 2, hp_chunk_state := CPS_CHUNK_COMPLETE\<rparr>)"
    using Nil.prems(2) unfolding chunk_round_ref_def d by (simp add: parse_trailer_part_def Let_def)
  then show ?case
    by (simp add: parse_chunk_step(2) trailer_text_def)
next
  case (Cons t ts)
  have w: "wf_trailer t" and ws: "list_all wf_trailer ts" using Cons.prems(1) by auto
  let ?q = "p\<lparr>hp_chunk_offset := hp_chunk_offset p + (length t + 2)\<rparr>"
  have d: "drop (hp_chunk_offset p) msg = t @ CRLF @ trailer_text ts @ rest"
    using Cons.prems(3) by (simp add: trailer_text_def)
  have "line_scan (\<lambda>_. False) HTTP_TRAILER_LINE_MAX (t @ CRLF @ trailer_text ts @ rest) 0 = Line (length t)"
    using w by (intro line_scan_found) (auto simp: wf_trailer_def)
  then have "chunk_round_ref msg p = Inl ?q"
    using Cons.prems(2) w unfolding chunk_round_ref_def d by (simp add: parse_trailer_part_def Let_def wf_trailer_def)
  moreover have "drop (hp_chunk_offset ?q) msg = trailer_text ts @ rest"
    using arg_cong [OF d, of "drop (length t + 2)"] by (simp add: ac_simps)
  moreover have "hp_chunk_offset ?q \<le> length msg"
    using arg_cong [OF d, of length] Cons.prems(4) by simp
  ultimately show ?case
    using Cons.IH [OF ws, of ?q] Cons.prems(2) parse_chunk_step(1) [of msg p ?q] by (simp add: ac_simps trailer_text_def)
qed

lemma parse_chunked_text:
  assumes "list_all wf_chunk cs" "list_all wf_trailer ts" "hp_chunk_state p = CPS_CHUNK_DATA"
    "drop (hp_chunk_offset p) msg = chunked_text cs ts @ rest" "hp_chunk_offset p \<le> length msg"
  shows "chunk_ref msg p = (1, p\<lparr>hp_chunk_offset := hp_chunk_offset p + length (chunked_text cs ts),
    hp_chunk_state := CPS_CHUNK_COMPLETE\<rparr>)"
proof -
  let ?n = "length (concat (map chunk_text cs))"
  let ?q = "p\<lparr>hp_chunk_offset := hp_chunk_offset p + ?n\<rparr>"
  let ?q' = "p\<lparr>hp_chunk_offset := hp_chunk_offset p + ?n + 3, hp_chunk_state := CPS_TRAILER_PART\<rparr>"
  have d: "drop (hp_chunk_offset p) msg = concat (map chunk_text cs) @ (CHR ''0'' # CR # LF # trailer_text ts @ rest)"
    using assms(4) by (simp add: chunked_text_def)
  have d1: "drop (hp_chunk_offset ?q) msg = CHR ''0'' # CR # LF # trailer_text ts @ rest"
    using arg_cong [OF d, of "drop ?n"] by (simp add: ac_simps)
  have d2: "drop (hp_chunk_offset ?q') msg = trailer_text ts @ rest"
    using arg_cong [OF d, of "drop (?n + 3)"] by (simp add: ac_simps)
  have l: "hp_chunk_offset ?q' \<le> length msg"
    using arg_cong [OF d, of length] assms(5) by simp
  have "chunk_round_ref msg ?q = Inl ?q'"
    unfolding chunk_round_ref_def d1 using assms(3) by (simp add: parse_chunk_data_last)
  then have "chunk_ref msg ?q = chunk_ref msg ?q'"
    by (rule parse_chunk_step(1))
  then show ?thesis
    using parse_chunks [OF assms(1,3) d assms(5)] parse_trailers [OF assms(2) _ d2 l]
    by (simp add: chunked_text_def ac_simps)
qed

subsection \<open>The cursor over the chunks\<close>

lemma chunk_next_found:
  assumes "wf_chunk (h, d)" "drop pos body = chunk_text (h, d) @ rest" "pos \<le> length body"
  shows "chunk_next_at body pos = Ret (Some (pos + length h + 2, length d, pos + length (chunk_text (h, d))))"
proof -
  have hd: "drop pos body = h @ CR # LF # d @ CR # LF # rest"
    using assms(2) by (simp add: chunk_text_def)
  have len: "pos + (length h + (length d + (4 + length rest))) = length body"
    using arg_cong [OF hd, of length] assms(3) by simp
  have k: "drop (pos + length h) body = CR # LF # d @ CR # LF # rest"
    using arg_cong [OF hd, of "drop (length h)"] by (simp add: ac_simps)
  have nz: "d \<noteq> []" and s: "int (length d) < 2 ^ 64"
    using assms(1) by (auto simp: wf_chunk_def)
  have "strtol16 (drop pos body) = (int (length d), length h)"
    using wf_chunk_size [OF assms(1)] hd by simp
  moreover have "int (length d) mod 2 ^ 64 = int (length d)"
    using s by simp
  moreover have "c_str (CR # t) = CR # c_str t" for t
    by (simp add: c_str_def)
  ultimately show ?thesis
    using nz len k by (simp add: chunk_next_at_def Let_def chunk_text_def ac_simps)
qed

lemma decode_loop_chunks:
  assumes "list_all wf_chunk cs" "drop pos body = concat (map chunk_text cs) @ CHR ''0'' # CR # rest" "pos \<le> length body"
  shows "decode_loop \<lparr>cc_body = Some body, cc_pos = pos, cc_chunked = True, cc_end = False\<rparr> res
    = Ret (res @ concat (map snd cs))"
  using assms
proof (induction cs arbitrary: pos res)
  case Nil
  have "strtol16 (CHR ''0'' # CR # rest) = (0, 1)"
    using strtol16_digits [of "''0''" rest] by (simp add: isxdigit_def isdigit_def xdigit_val_def LONG_MAX_def)
  then have "chunk_next_at body pos = Ret None"
    using Nil(2) by (simp add: chunk_next_at_def)
  then show ?case
    by (subst decode_loop.simps) (simp add: chunk_cursor_next_def)
next
  case (Cons c cs)
  obtain h d where c: "c = (h, d)" by (cases c)
  have w: "wf_chunk (h, d)" and ws: "list_all wf_chunk cs" using Cons.prems(1) c by auto
  have dr: "drop pos body = chunk_text (h, d) @ concat (map chunk_text cs) @ CHR ''0'' # CR # rest"
    using Cons.prems(2) c by simp
  have next_drop: "drop (pos + length (chunk_text (h, d))) body = concat (map chunk_text cs) @ CHR ''0'' # CR # rest"
    using arg_cong [OF dr, of "drop (length (chunk_text (h, d)))"] by (simp add: add.commute)
  have le: "pos + length (chunk_text (h, d)) \<le> length body"
    using arg_cong [OF dr, of length] Cons.prems(3) by simp
  have "take (length d) (drop (pos + length h + 2) body) = d"
    using arg_cong [OF dr, of "drop (length h + 2)"] by (simp add: chunk_text_def ac_simps)
  then show ?case
    using Cons.IH [OF ws next_drop le, of "res @ d"] chunk_next_found [OF w dr Cons.prems(3)]
    by (subst decode_loop.simps) (simp add: chunk_cursor_next_def c)
qed

definition chunked_header :: "string \<times> string" where
  "chunked_header = (''Transfer-Encoding'', ''chunked'')"

lemma chunked_header_wf: "wf_header chunked_header" "hp_chunked (add_line chunked_header p)"
  by (simp_all add: chunked_header_def wf_header_def wf_name_def wf_value_def schar_le0_def is_blank_def
      add_line_def check_message_header_def)

text \<open>
  C22. A request written with a chunked body, any number of chunks with hexadecimal size lines
  and any trailer lines, is parsed back: \<open>http_parser_append_message\<close> on a fresh parser
  returns 1 and uses exactly the bytes of the request, \<open>http_parser_get_body\<close> returns the
  body as it was sent and \<open>HttpUtil::decode_chunked_body\<close> the data of the chunks in order.
\<close>

theorem chunked_roundtrip:
  fixes extra :: string
  assumes "wf_request m u v" "list_all wf_header hs" "list_all wf_chunk cs" "list_all wf_trailer ts"
    and "length (hp_namebuf old) = 64"
    and "buf = print_head m u v (hs @ [chunked_header]) @ chunked_text cs ts @ extra" "int (length buf) < 2 ^ 62"
  shows "\<exists>q. http_parser_append_message (\<lambda>_. True) (\<lambda>_. True) buf (http_parser_init False old)
      = Ret (1, int (length buf) - int (length extra), q)
    \<and> http_parser_get_body q = Ret (Some (chunked_text cs ts))
    \<and> (\<forall>msg. hm_parser msg = q \<longrightarrow> decode_chunked_body msg = Ret (concat (map snd cs)))"
proof -
  define hs' where "hs' = hs @ [chunked_header]"
  define p where "p = http_parser_init False old"
  define W where "W = with_bytes buf p"
  define h where "h = print_head m u v hs'"
  define body where "body = chunked_text cs ts"
  have buf: "buf = h @ body @ extra"
    using assms(6) by (simp add: h_def hs'_def body_def)
  have W: "hp_msgbuf W = buf" "hp_msgsize W = length buf" "hp_header_state W = HPS_START_LINE"
    "hp_header_offset W = 0" "hp_is_resp W = False" "length (hp_namebuf W) = 64"
    "hp_transfer_length W = SIZE_MAX" "hp_complete W = False"
    using assms(5) by (simp_all add: W_def with_bytes_def set_buf_def p_def http_parser_init_def)
  have inv: "hp_base p" "\<not> hp_complete p"
    using init_inv [OF assms(5), of False] by (simp_all add: p_def hp_inv_def) (simp add: http_parser_init_def)
  have Wb: "int (length buf) < hp_bufsize W"
    using with_bytes_base [OF inv(1), of buf] W(2) by (simp add: W_def)
  have hs': "list_all wf_header hs'"
    using assms(2) chunked_header_wf(1) by (simp add: hs'_def)
  obtain nb where nb: "message_header_ref (\<lambda>_. True) buf W
      = (1, set_pos nb (length h) HPS_HEADER_COMPLETE (fold add_line hs' (with_request m u v W)))"
    using parse_request_head [OF assms(1) hs' _ W(6,3,4), of "body @ extra"] W(5) by (auto simp: buf h_def)
  define T where "T = set_pos nb (length h) HPS_HEADER_COMPLETE (fold add_line hs' (with_request m u v W))"
  have T: "hp_transfer_length T = SIZE_MAX" "hp_chunked T" "hp_header_offset T = length h"
    "hp_header_state T = HPS_HEADER_COMPLETE" "hp_msgbuf T = buf" "hp_msgsize T = length buf" "hp_bufsize T = hp_bufsize W"
    using W chunked_header_wf(2) by (simp_all add: T_def set_pos_def hs'_def)
  define D where "D = header_done T"
  have D: "D = T\<lparr>hp_chunk_offset := length h, hp_chunk_state := CPS_CHUNK_DATA\<rparr>"
    using T by (simp add: D_def header_done_def)
  define E where "E = D\<lparr>hp_chunk_offset := length h + length body, hp_chunk_state := CPS_CHUNK_COMPLETE\<rparr>"
  define Q where "Q = E\<lparr>hp_msgbuf := h @ body, hp_msgsize := length h + length body, hp_complete := True\<rparr>"
  have "drop (hp_chunk_offset D) buf = chunked_text cs ts @ extra"
    by (simp add: D buf body_def)
  then have pc: "chunk_ref buf D = (1, E)"
    using parse_chunked_text [OF assms(3,4), of D buf extra] by (simp add: D E_def body_def buf)
  have used: "(int (length buf) - (int (length buf) - int (length h + length body))) mod 2 ^ 64
      = int (length buf) - int (length extra)"
    using assms(7) buf by simp
  have b: "body_ref (int (length buf)) D = (1, int (length buf) - int (length extra), Q)"
    using T pc used by (simp add: body_ref_def D finish_message_def Q_def E_def) (simp add: buf)
  have "append_rest (\<lambda>_. True) (int (length buf)) W = (1, int (length buf) - int (length extra), Q)"
    using W b nb unfolding T_def [symmetric] by (simp add: append_rest_def D_def)
  then have "http_parser_append_message (\<lambda>_. True) (\<lambda>_. True) buf p = Ret (1, int (length buf) - int (length extra), Q)"
    using append_message_eq [OF inv, of "\<lambda>_. True" buf] unfolding W_def by (simp only:)
  moreover have g: "http_parser_get_body Q = Ret (Some body)" "hp_chunked Q"
    using T Wb buf by (simp_all add: http_parser_get_body_def Q_def E_def D)
  moreover have "decode_chunked_body msg = Ret (concat (map snd cs))" if "hm_parser msg = Q" for msg
    using decode_loop_chunks [OF assms(3), of 0 body "LF # trailer_text ts" "[]"] g that
    by (simp add: decode_chunked_body_def chunk_cursor_init_def body_def chunked_text_def)
  ultimately show ?thesis
    by (auto simp: p_def body_def)
qed

theorem chunked_roundtrip_witness:
  "\<exists>buf q. buf = print_head ''POST'' ''/'' ''HTTP/1.1'' ([] @ [chunked_header])
        @ chunked_text [(''5'', ''hello''), (''03'', ''abc'')] [''X: y''] @ ''GET''
    \<and> http_parser_append_message (\<lambda>_. True) (\<lambda>_. True) buf (http_parser_init False parser0)
      = Ret (1, int (length buf) - 3, q)
    \<and> decode_chunked_body ((http_message_init False parser0)\<lparr>hm_parser := q\<rparr>) = Ret ''helloabc''"
proof -
  define buf where "buf = print_head ''POST'' ''/'' ''HTTP/1.1'' ([] @ [chunked_header])
        @ chunked_text [(''5'', ''hello''), (''03'', ''abc'')] [''X: y''] @ ''GET''"
  have "wf_request ''POST'' ''/'' ''HTTP/1.1''" "list_all wf_header []"
    "list_all wf_chunk [(''5'', ''hello''), (''03'', ''abc'')]" "list_all wf_trailer [''X: y'']"
    "length (hp_namebuf parser0) = 64" "int (length buf) < 2 ^ 62"
    by (simp_all add: wf_request_def wf_chunk_def wf_trailer_def isxdigit_def isdigit_def xdigit_val_def parser0_def
        buf_def print_head_def print_headers_def header_text_def chunked_header_def chunked_text_def chunk_text_def
        trailer_text_def)
  from chunked_roundtrip [OF this(1-5) buf_def this(6)] show ?thesis
    unfolding buf_def by auto
qed

text \<open>
  A difference between the two: the parser takes the size line of a chunk up to its carriage return, NUL bytes included,
  while the cursor looks for that carriage return with \<open>strchr\<close>: a message with a NUL byte
  after the size is accepted as complete, and decoding its body dereferences a null pointer.
\<close>

lemma chunk_line_NUL:
  "\<exists>n q. http_parser_append_message (\<lambda>_. True) (\<lambda>_. True)
      (''PUT / HTTP/1.1'' @ CRLF @ ''Transfer-Encoding: chunked'' @ CRLF @ CRLF
        @ ''2'' @ [NUL] @ CRLF @ ''ok'' @ CRLF @ ''0'' @ CRLF @ CRLF)
      (http_parser_init False parser0) = Ret (1, n, q)
    \<and> hp_complete q \<and> decode_chunked_body ((http_message_init False parser0)\<lparr>hm_parser := q\<rparr>) = UB"
proof -
  have "case http_parser_append_message (\<lambda>_. True) (\<lambda>_. True)
      (''PUT / HTTP/1.1'' @ CRLF @ ''Transfer-Encoding: chunked'' @ CRLF @ CRLF
        @ ''2'' @ [NUL] @ CRLF @ ''ok'' @ CRLF @ ''0'' @ CRLF @ CRLF)
      (http_parser_init False parser0) of UB \<Rightarrow> False
    | Ret (r, n, q) \<Rightarrow> r = 1 \<and> hp_complete q
        \<and> (case decode_chunked_body ((http_message_init False parser0)\<lparr>hm_parser := q\<rparr>) of UB \<Rightarrow> True | Ret _ \<Rightarrow> False)"
    by code_simp
  moreover have "(case o1 of UB \<Rightarrow> True | Ret _ \<Rightarrow> False) \<longleftrightarrow> o1 = UB" for o1 :: "string outcome"
    by (cases o1) simp_all
  ultimately show ?thesis
    by (simp only:) (auto split: outcome.splits simp del: append.simps)
qed

end
