(* ===== verification/Communicator.thy ===== *)
theory Communicator
  imports PollerIO
begin

text \<open>
  \<open>src/net/Communicator.cc\<close> and \<open>Communicator.h\<close>: connections, sessions, targets and services, the
  time limits of a session, and how a message is sent. \<open>CommHandlers\<close> has the operations on them.

  Entries of connections, sessions, targets and services are objects named by numbers; an entry or
  a target of a service that was deleted is \<open>None\<close>, and to use it is \<open>UB\<close>. What the poller knows of
  the socket of an entry is part of the entry: the node \<open>ce_node\<close>, which stays marked as removed from
  \<open>mpoller_del\<close> until the poller's thread has answered, and \<open>ce_results\<close>, the results on their way
  to the handler threads, that may be handled in any order. The answers of the user's virtual
  functions and of the system are arguments. A call of the user's \<open>handle\<close> and the like is an event
  of the log; what the code does after \<open>handle\<close> returned is a step of its own that waits in
  \<open>ce_after\<close>, so that anything may happen in between. A region under the mutexes is one step.
\<close>

section \<open>Objects\<close>

datatype comm_errno = CE_INVAL | CE_PERM | CE_NOENT | CE_BADMSG | CE_CONNRESET | CE_OVERFLOW | CE_SYS int

datatype conn_state =
  CONN_STATE_CONNECTING | CONN_STATE_CONNECTED | CONN_STATE_RECEIVING | CONN_STATE_SUCCESS
| CONN_STATE_IDLE | CONN_STATE_KEEPALIVE | CONN_STATE_CLOSING | CONN_STATE_ERROR

datatype session_state = CS_STATE_SUCCESS | CS_STATE_ERROR | CS_STATE_STOPPED | CS_STATE_TOREPLY

text \<open>
  A result of the poller; the node of a socket; and what a thread has to do after \<open>handle\<close>: to
  give up its reference, or to release the entry in any case.
\<close>

record conn_result =
  cr_op :: poller_op
  cr_state :: poll_state
  cr_error :: "comm_errno option"

record conn_node =
  cn_op :: poller_op
  cn_removed :: bool
  cn_message :: bool
  cn_timeout :: int

datatype after_handle = AfterDecref | AfterRelease

record comm_conn =
  ce_seq :: int
  ce_sockfd :: int
  ce_state :: conn_state
  ce_error :: "comm_errno option"
  ce_ref :: int
  ce_write_iov :: "iovec list option"
  ce_session :: nat
  ce_target :: nat
  ce_service :: "nat option"
  ce_node :: "conn_node option"
  ce_results :: "conn_result list"
  ce_after :: "after_handle list"

record comm_session =
  se_target :: nat
  se_conn :: "nat option"
  se_out :: bool
  se_in :: "nat option"
  se_seq :: int
  se_begin_time :: timespec
  se_timeout :: int
  se_passive :: int

record conn_target =
  ta_addr :: string
  ta_connect_timeout :: int
  ta_response_timeout :: int
  ta_idle_list :: "nat list"
  ta_sockfd :: int
  ta_ref :: int
  ta_service :: nat

text \<open>A result of a listening socket: its state with the target that \<open>accept\<close> made.\<close>

record listen_result =
  lr_state :: poll_state
  lr_error :: "comm_errno option"
  lr_target :: "nat option"

record comm_service =
  sv_bind_addr :: string
  sv_listen_timeout :: int
  sv_response_timeout :: int
  sv_listen_fd :: int
  sv_ref :: int
  sv_alive_list :: "nat list"
  sv_node :: "bool option"
  sv_results :: "listen_result list"

datatype comm_event =
  EvHandle nat session_state "comm_errno option"
| EvRelease nat bool
| EvClose nat
| EvDeleteTarget nat
| EvUnbound nat
| EvStop nat "comm_errno option"

record comm =
  cm_conn :: "nat \<Rightarrow> comm_conn option"
  cm_session :: "nat \<Rightarrow> comm_session"
  cm_target :: "nat \<Rightarrow> conn_target option"
  cm_service :: "nat \<Rightarrow> comm_service"
  cm_stop_flag :: bool
  cm_log :: "comm_event list"

text \<open>What the user's session answers, and what the system answers, during one operation.\<close>

record user_answers =
  ua_message_out :: bool
  ua_encode :: "iovec list option"
  ua_message_in :: bool
  ua_send_timeout :: int
  ua_receive_timeout :: int
  ua_keep_alive_timeout :: int
  ua_first_timeout :: int

record sys_answers =
  sa_writes :: "write_answer list"
  sa_malloc :: bool
  sa_add :: bool
  sa_mod :: bool
  sa_now :: timespec
  sa_errno :: comm_errno

definition set_conn :: "nat \<Rightarrow> comm_conn \<Rightarrow> comm \<Rightarrow> comm" where
  "set_conn n c m = m\<lparr>cm_conn := (cm_conn m)(n \<mapsto> c)\<rparr>"

definition set_session :: "nat \<Rightarrow> comm_session \<Rightarrow> comm \<Rightarrow> comm" where
  "set_session i s m = m\<lparr>cm_session := (cm_session m)(i := s)\<rparr>"

definition set_target :: "nat \<Rightarrow> conn_target \<Rightarrow> comm \<Rightarrow> comm" where
  "set_target t r m = m\<lparr>cm_target := (cm_target m)(t \<mapsto> r)\<rparr>"

definition set_service :: "nat \<Rightarrow> comm_service \<Rightarrow> comm \<Rightarrow> comm" where
  "set_service v r m = m\<lparr>cm_service := (cm_service m)(v := r)\<rparr>"

definition emit :: "comm_event \<Rightarrow> comm \<Rightarrow> comm" where
  "emit e m = m\<lparr>cm_log := cm_log m @ [e]\<rparr>"

definition with_conn :: "nat \<Rightarrow> comm \<Rightarrow> (comm_conn \<Rightarrow> 'a outcome) \<Rightarrow> 'a outcome" where
  "with_conn n m f = (case cm_conn m n of None \<Rightarrow> UB | Some c \<Rightarrow> f c)"

definition with_target :: "nat \<Rightarrow> comm \<Rightarrow> (conn_target \<Rightarrow> 'a outcome) \<Rightarrow> 'a outcome" where
  "with_target t m f = (case cm_target m t of None \<Rightarrow> UB | Some r \<Rightarrow> f r)"

section \<open>Starting targets and services\<close>

text \<open>\<open>alloc\<close> is the success of \<open>malloc\<close>, \<open>mutex\<close> the result of \<open>pthread_mutex_init\<close>.\<close>

definition comm_target_init ::
  "bool \<Rightarrow> int \<Rightarrow> string \<Rightarrow> int \<Rightarrow> int \<Rightarrow> conn_target \<Rightarrow> comm_errno option \<times> conn_target" where
  "comm_target_init alloc mutex addr connect_timeout response_timeout t =
     (if \<not> alloc then (Some (CE_SYS 12), t)
      else if mutex \<noteq> 0 then (Some (CE_SYS mutex), t)
      else (None, t\<lparr>ta_addr := addr, ta_connect_timeout := connect_timeout,
              ta_response_timeout := response_timeout, ta_idle_list := []\<rparr>))"

definition comm_service_init ::
  "bool \<Rightarrow> int \<Rightarrow> string \<Rightarrow> int \<Rightarrow> int \<Rightarrow> comm_service \<Rightarrow> comm_errno option \<times> comm_service" where
  "comm_service_init alloc mutex addr listen_timeout response_timeout v =
     (if \<not> alloc then (Some (CE_SYS 12), v)
      else if mutex \<noteq> 0 then (Some (CE_SYS mutex), v)
      else (None, v\<lparr>sv_bind_addr := addr, sv_listen_timeout := listen_timeout,
              sv_response_timeout := response_timeout, sv_alive_list := []\<rparr>))"

section \<open>Time limits\<close>

text \<open>Conversions of C: to \<open>unsigned int\<close>, to \<open>int\<close>, and division that rounds to zero.\<close>

definition to_uint :: "int \<Rightarrow> int" where
  "to_uint v = v mod 2 ^ 32"

definition to_int :: "int \<Rightarrow> int" where
  "to_int v = (v + 2 ^ 31) mod 2 ^ 32 - 2 ^ 31"

definition c_div :: "int \<Rightarrow> int \<Rightarrow> int" where
  "c_div a b = (if a < 0 then - ((- a) div b) else a div b)"

definition first_timeout :: "int \<Rightarrow> timespec \<Rightarrow> comm_session \<Rightarrow> int \<times> comm_session" where
  "first_timeout response_timeout now s =
     (if response_timeout < 0 \<or> to_uint (se_timeout s) \<le> to_uint response_timeout
      then (se_timeout s, s\<lparr>se_timeout := 0, se_begin_time := (se_begin_time s)\<lparr>tv_nsec := 0\<rparr>\<rparr>)
      else (response_timeout, s\<lparr>se_begin_time := now\<rparr>))"

definition next_timeout :: "int \<Rightarrow> timespec \<Rightarrow> comm_session \<Rightarrow> int \<times> comm_session" where
  "next_timeout response_timeout cur_time s =
     (if 0 < se_timeout s then
        let time_used = to_int (1000 * (tv_sec cur_time - tv_sec (se_begin_time s))
              + c_div (tv_nsec cur_time - tv_nsec (se_begin_time s)) 1000000);
            time_left = se_timeout s - time_used
        in if time_left \<le> response_timeout
           then (if time_left < 0 then 0 else time_left, s\<lparr>se_timeout := 0\<rparr>)
           else (response_timeout, s)
      else (response_timeout, s))"

definition first_timeout_send :: "user_answers \<Rightarrow> int \<Rightarrow> timespec \<Rightarrow> comm_session \<Rightarrow> int \<times> comm_session" where
  "first_timeout_send u rt now s = first_timeout rt now (s\<lparr>se_timeout := ua_send_timeout u\<rparr>)"

definition first_timeout_recv :: "user_answers \<Rightarrow> int \<Rightarrow> timespec \<Rightarrow> comm_session \<Rightarrow> int \<times> comm_session" where
  "first_timeout_recv u rt now s = first_timeout rt now (s\<lparr>se_timeout := ua_receive_timeout u\<rparr>)"

text \<open>\<open>CommMessageIn::renew\<close>, and the same lines of several handlers.\<close>

definition renew :: "comm_session \<Rightarrow> comm_session" where
  "renew s = s\<lparr>se_timeout := -1, se_begin_time := (se_begin_time s)\<lparr>tv_nsec := -1\<rparr>\<rparr>"

text \<open>The time limit for the first byte of a reply.\<close>

definition reply_timeout :: "user_answers \<Rightarrow> int \<Rightarrow> timespec \<Rightarrow> comm_session \<Rightarrow> int \<times> comm_session" where
  "reply_timeout u rt now s =
     (if ua_first_timeout u = 0 then first_timeout_recv u rt now s else (ua_first_timeout u, renew s))"

section \<open>The poller's side of a socket\<close>

definition node_add :: "bool \<Rightarrow> poller_op \<Rightarrow> int \<Rightarrow> comm_conn \<Rightarrow> bool \<times> comm_conn" where
  "node_add ok op timeout c =
     (if ce_node c = None \<and> ok
      then (True, c\<lparr>ce_node := Some \<lparr>cn_op = op, cn_removed = False, cn_message = False, cn_timeout = timeout\<rparr>\<rparr>)
      else (False, c))"

definition node_del :: "comm_conn \<Rightarrow> comm_conn" where
  "node_del c = (case ce_node c of None \<Rightarrow> c | Some nd \<Rightarrow> c\<lparr>ce_node := Some (nd\<lparr>cn_removed := True\<rparr>)\<rparr>)"

text \<open>The poller still has the socket.\<close>

definition node_live :: "comm_conn \<Rightarrow> bool" where
  "node_live c \<longleftrightarrow> (case ce_node c of None \<Rightarrow> False | Some nd \<Rightarrow> \<not> cn_removed nd)"

definition node_mod :: "bool \<Rightarrow> poller_op \<Rightarrow> int \<Rightarrow> comm_conn \<Rightarrow> comm_errno option \<times> comm_conn" where
  "node_mod ok op timeout c =
     (case ce_node c of
        None \<Rightarrow> (Some CE_NOENT, c)
      | Some nd \<Rightarrow>
          if cn_removed nd then (Some CE_NOENT, c)
          else if \<not> ok then (Some (CE_SYS 12), c)
          else (None, c\<lparr>ce_node := Some \<lparr>cn_op = op, cn_removed = False, cn_message = False, cn_timeout = timeout\<rparr>,
                  ce_results := ce_results c @ [\<lparr>cr_op = cn_op nd, cr_state = PR_ST_MODIFIED, cr_error = None\<rparr>]\<rparr>))"

definition node_set_timeout :: "int \<Rightarrow> comm_conn \<Rightarrow> comm_conn" where
  "node_set_timeout timeout c =
     (if node_live c then c\<lparr>ce_node := map_option (\<lambda>nd. nd\<lparr>cn_timeout := timeout\<rparr>) (ce_node c)\<rparr> else c)"

section \<open>Sending\<close>

text \<open>
  The loop of \<open>send_message_sync\<close> with the answers of \<open>writev\<close>, after which the socket is full: what
  is left to send, and an error.
\<close>

definition sync_writes :: "write_answer list \<Rightarrow> iovec list \<Rightarrow> iovec list \<times> poll_errno option" where
  "sync_writes as vs =
     (case write_loop False (as @ [W_AGAIN]) 0 vs of
        Some (_, vs1, err) \<Rightarrow> (vs1, err)
      | None \<Rightarrow> (vs, None))"

text \<open>The end of \<open>send_message_sync\<close>, when all was sent: for a service, and for a client.\<close>

definition sent_by_service :: "user_answers \<Rightarrow> nat \<Rightarrow> nat \<Rightarrow> comm_conn \<Rightarrow> comm \<Rightarrow> comm" where
  "sent_by_service u v n c m =
     (let c1 = c\<lparr>ce_ref := ce_ref c + 1\<rparr>;
          timeout = ua_keep_alive_timeout u;
          c2 = node_set_timeout timeout c1
      in if timeout = 0 then set_conn n ((node_del c1)\<lparr>ce_state := CONN_STATE_CLOSING\<rparr>) m
         else if 0 \<le> sv_listen_fd (cm_service m v)
         then set_service v ((cm_service m v)\<lparr>sv_alive_list := sv_alive_list (cm_service m v) @ [n]\<rparr>)
                (set_conn n (c2\<lparr>ce_state := CONN_STATE_KEEPALIVE\<rparr>) m)
         else set_conn n ((node_del c2)\<lparr>ce_state := CONN_STATE_CLOSING\<rparr>) m)"

definition sent_by_client :: "user_answers \<Rightarrow> sys_answers \<Rightarrow> int \<Rightarrow> nat \<Rightarrow> comm_conn \<Rightarrow> comm \<Rightarrow> comm" where
  "sent_by_client u y rt n c m =
     (if ce_state c = CONN_STATE_IDLE then
        let (timeout, s) = reply_timeout u rt (sa_now y) (cm_session m (ce_session c))
        in set_session (ce_session c) s
             (set_conn n ((node_set_timeout timeout c)\<lparr>ce_state := CONN_STATE_RECEIVING\<rparr>) m)
      else set_conn n (c\<lparr>ce_state := CONN_STATE_RECEIVING\<rparr>) m)"

text \<open>\<open>send_message_async\<close>: the answer is 1, or an error.\<close>

definition send_async ::
  "user_answers \<Rightarrow> sys_answers \<Rightarrow> int \<Rightarrow> iovec list \<Rightarrow> nat \<Rightarrow> comm_conn \<Rightarrow> comm \<Rightarrow> comm_errno option \<times> comm" where
  "send_async u y rt vs n c m =
     (if \<not> sa_malloc y then (Some (CE_SYS 12), m)
      else
        let (timeout, s) = first_timeout_send u rt (sa_now y) (cm_session m (ce_session c));
            m1 = set_session (ce_session c) s m
        in if ce_state c = CONN_STATE_IDLE then
             (case node_mod (sa_mod y) PD_OP_WRITE timeout c of
                (None, c1) \<Rightarrow> (None, set_conn n (c1\<lparr>ce_write_iov := Some vs\<rparr>) m1)
              | (Some err, c1) \<Rightarrow>
                  if err = CE_NOENT then (None, set_conn n (c1\<lparr>ce_state := CONN_STATE_RECEIVING\<rparr>) m1)
                  else (Some err, set_conn n c1 m1))
           else
             (case node_add (sa_add y) PD_OP_WRITE timeout c of
                (True, c1) \<Rightarrow> (None, set_conn n (if cm_stop_flag m then node_del (c1\<lparr>ce_write_iov := Some vs\<rparr>)
                                               else c1\<lparr>ce_write_iov := Some vs\<rparr>) m1)
              | (False, c1) \<Rightarrow> (Some (sa_errno y), set_conn n c1 m1)))"

text \<open>\<open>send_message\<close>: all was sent, the poller sends the rest, or an error.\<close>

datatype send_result = SentAll | SentLater | SendFailed comm_errno

definition send_message ::
  "user_answers \<Rightarrow> sys_answers \<Rightarrow> int \<Rightarrow> nat \<Rightarrow> comm_conn \<Rightarrow> comm \<Rightarrow> send_result \<times> comm" where
  "send_message u y rt n c m =
     (case ua_encode u of
        None \<Rightarrow> (SendFailed (sa_errno y), m)
      | Some vs \<Rightarrow>
          if 8192 < length vs then (SendFailed CE_OVERFLOW, m)
          else
            (case sync_writes (sa_writes y) vs of
               (_, Some err) \<Rightarrow> (SendFailed (sa_errno y), m)
             | (rest, None) \<Rightarrow>
                 if rest = [] then
                   (SentAll, case ce_service c of
                               Some v \<Rightarrow> sent_by_service u v n c m
                             | None \<Rightarrow> sent_by_client u y rt n c m)
                 else
                   (case send_async u y rt rest n c m of
                      (None, m1) \<Rightarrow> (SentLater, m1)
                    | (Some err, m1) \<Rightarrow> (SendFailed err, m1))))"

end
