(* ===== verification/HttpTask.thy ===== *)
theory HttpTask
  imports HttpUtil URIParser Communicator
begin

text \<open>
  \<open>src/factory/HttpTaskImpl.cc\<close>: the HTTP tasks of clients and servers, on the client task of
  \<open>WFTaskFactory.h\<close> and the network task of \<open>WFTask.h\<close>: what is added to a message before it is sent,
  how long a connection is kept, redirects and retries. \<open>al\<close> gives the success of the allocations by
  number. The functions of the user are arguments: \<open>prepare\<close> and the fixed ports of schemes.
\<close>

section \<open>The task\<close>

datatype wft_state =
  WFT_STATE_UNDEFINED | WFT_STATE_SUCCESS | WFT_STATE_TOREPLY | WFT_STATE_NOREPLY | WFT_STATE_SYS_ERROR
| WFT_STATE_SSL_ERROR | WFT_STATE_DNS_ERROR | WFT_STATE_TASK_ERROR | WFT_STATE_ABORTED

datatype timeout_reason = TOR_NOT_TIMEOUT | TOR_WAIT_TIMEOUT | TOR_CONNECT_TIMEOUT | TOR_TRANSMIT_TIMEOUT

text \<open>Numbers of errors: \<open>errno\<close> of the system and \<open>WFTaskError.h\<close>.\<close>

abbreviation (input) ETIMEDOUT :: int where "ETIMEDOUT \<equiv> 110"
abbreviation (input) ECONNRESET :: int where "ECONNRESET \<equiv> 104"
abbreviation (input) WFT_ERR_URI_PARSE_FAILED :: int where "WFT_ERR_URI_PARSE_FAILED \<equiv> 1001"
abbreviation (input) WFT_ERR_URI_SCHEME_INVALID :: int where "WFT_ERR_URI_SCHEME_INVALID \<equiv> 1002"
abbreviation (input) WFT_ERR_URI_PORT_INVALID :: int where "WFT_ERR_URI_PORT_INVALID \<equiv> 1003"
abbreviation (input) WFT_ERR_HTTP_BAD_REDIRECT_HEADER :: int where "WFT_ERR_HTTP_BAD_REDIRECT_HEADER \<equiv> 2001"
abbreviation (input) HTTP_KEEPALIVE_DEFAULT :: int where "HTTP_KEEPALIVE_DEFAULT \<equiv> 60 * 1000"
abbreviation (input) HTTP_KEEPALIVE_MAX :: int where "HTTP_KEEPALIVE_MAX \<equiv> 300 * 1000"

record http_task =
  ht_state :: wft_state
  ht_error :: int
  ht_timeout_reason :: timeout_reason
  ht_keep_alive_timeo :: int
  ht_req :: http_message
  ht_resp :: http_message
  ht_target :: bool
  ht_uri :: parsed_uri
  ht_redirect :: bool
  ht_retry_max :: int
  ht_retry_times :: int
  ht_route :: bool
  ht_router_task :: bool
  ht_redirect_max :: int
  ht_redirect_count :: int

section \<open>Accessors of the messages\<close>

definition is_chunked :: "http_message \<Rightarrow> bool" where
  "is_chunked m = hp_chunked (hm_parser m)"

definition is_keep_alive :: "http_message \<Rightarrow> bool" where
  "is_keep_alive m = hp_keep_alive (hm_parser m)"

definition has_connection_header :: "http_message \<Rightarrow> bool" where
  "has_connection_header m = hp_has_connection (hm_parser m)"

definition has_content_length_header :: "http_message \<Rightarrow> bool" where
  "has_content_length_header m = hp_has_content_length (hm_parser m)"

definition has_keep_alive_header :: "http_message \<Rightarrow> bool" where
  "has_keep_alive_header m = hp_has_keep_alive (hm_parser m)"

definition set_method :: "bool \<Rightarrow> string \<Rightarrow> http_message \<Rightarrow> http_message" where
  "set_method al v m = m\<lparr>hm_parser := snd (http_parser_set_method al v (hm_parser m))\<rparr>"

definition set_request_uri :: "bool \<Rightarrow> string \<Rightarrow> http_message \<Rightarrow> http_message" where
  "set_request_uri al v m = m\<lparr>hm_parser := snd (http_parser_set_uri al v (hm_parser m))\<rparr>"

definition set_http_version :: "bool \<Rightarrow> string \<Rightarrow> http_message \<Rightarrow> http_message" where
  "set_http_version al v m = m\<lparr>hm_parser := snd (http_parser_set_version al v (hm_parser m))\<rparr>"

definition find_header :: "string \<Rightarrow> http_message \<Rightarrow> string option" where
  "find_header name m = fst (http_header_cursor_find name (hp_header_list (hm_parser m)) 0)"

section \<open>How long a connection is kept\<close>

text \<open>A product of \<open>int\<close>s; its overflow is undefined.\<close>

definition c_mul :: "int \<Rightarrow> int \<Rightarrow> int outcome" where
  "c_mul a b = (if - (2 ^ 31) \<le> a * b \<and> a * b < 2 ^ 31 then Ret (a * b) else UB)"

text \<open>One parameter \<open>key=value\<close> of a header \<open>Keep-Alive\<close>; without a value it is 0.\<close>

definition alive_param :: "string \<Rightarrow> string \<times> string" where
  "alive_param kv =
     (let arr = str_split kv (CHR ''='');
          arr2 = (if length arr < 2 then arr @ [''0''] else arr)
      in (strip (arr2 ! 0), strip (arr2 ! 1)))"

fun client_alive_loop :: "string list \<Rightarrow> int \<Rightarrow> int outcome" where
  "client_alive_loop [] timeo = Ret timeo"
| "client_alive_loop (kv # params) timeo =
     (let (key, v) = alive_param kv in
      if strcasecmp_eq key ''timeout'' then c_mul 1000 (atoi v) else client_alive_loop params timeo)"

text \<open>The loop of a server: \<open>ft\<close> and \<open>fm\<close> are the bits of \<open>flag\<close>, \<open>sq\<close> the number of the request.\<close>

fun server_alive_loop :: "int \<Rightarrow> string list \<Rightarrow> bool \<Rightarrow> bool \<Rightarrow> int \<Rightarrow> int outcome" where
  "server_alive_loop sq [] ft fm timeo = Ret timeo"
| "server_alive_loop sq (kv # params) ft fm timeo =
     (let (key, v) = alive_param kv in
      if \<not> ft \<and> strcasecmp_eq key ''timeout'' then
        andthen (c_mul 1000 (atoi v)) (\<lambda>t.
          if fm then Ret t else server_alive_loop sq params True fm t)
      else if \<not> fm \<and> strcasecmp_eq key ''max'' then
        (if atoi v \<le> sq then Ret 0
         else if ft then Ret timeo
         else server_alive_loop sq params ft True timeo)
      else server_alive_loop sq params ft fm timeo)"

definition clamp_alive :: "int \<Rightarrow> int" where
  "clamp_alive timeo = (if HTTP_KEEPALIVE_MAX < to_uint timeo then HTTP_KEEPALIVE_MAX else timeo)"

section \<open>Requests of clients\<close>

definition body_size_str :: "http_message \<Rightarrow> string" where
  "body_size_str m = dec_str (nat (hm_output_body_size m))"

definition client_content_length :: "bool \<Rightarrow> http_message \<Rightarrow> http_message outcome" where
  "client_content_length al req =
     (if \<not> is_chunked req \<and> \<not> has_content_length_header req then
        andthen (if hm_output_body_size req \<noteq> 0 then Ret True
                else case hp_method (hm_parser req) of
                  None \<Rightarrow> UB
                | Some meth \<Rightarrow> Ret (strcmp_eq meth ''POST'' \<or> strcmp_eq meth ''PUT'')) (\<lambda>len.
         Ret (if len then snd (add_header_pair al ''Content-Length'' (body_size_str req) req) else req))
      else Ret req)"

definition client_message_out ::
  "(nat \<Rightarrow> bool) \<Rightarrow> (http_task \<Rightarrow> http_task) \<Rightarrow> http_task \<Rightarrow> http_task outcome" where
  "client_message_out al prepare t =
     andthen (client_content_length (al 0) (ht_req t)) (\<lambda>req.
       let (alive, req1) =
             (if has_connection_header req then (is_keep_alive req, req)
              else (ht_keep_alive_timeo t \<noteq> 0,
                    snd (add_header_pair (al 1) ''Connection''
                      (if ht_keep_alive_timeo t \<noteq> 0 then ''Keep-Alive'' else ''close'') req)))
       in andthen
            (if \<not> alive then Ret 0
             else if has_keep_alive_header req1 then
               andthen (case find_header ''Keep-Alive'' req1 of
                          None \<Rightarrow> Ret (ht_keep_alive_timeo t)
                        | Some v \<Rightarrow> client_alive_loop (str_split v (CHR '','')) (ht_keep_alive_timeo t)) (\<lambda>timeo.
                 Ret (clamp_alive timeo))
             else Ret (ht_keep_alive_timeo t)) (\<lambda>timeo.
              Ret (prepare (t\<lparr>ht_req := req1, ht_keep_alive_timeo := timeo\<rparr>))))"

definition client_message_in :: "http_task \<Rightarrow> http_task outcome" where
  "client_message_in t =
     (case hp_method (hm_parser (ht_req t)) of
        None \<Rightarrow> UB
      | Some meth \<Rightarrow> Ret (if strcmp_eq meth ''HEAD'' then t\<lparr>ht_resp := parse_zero_body (ht_resp t)\<rparr> else t))"

definition client_keep_alive_timeout :: "http_task \<Rightarrow> int" where
  "client_keep_alive_timeout t = (if is_keep_alive (ht_resp t) then ht_keep_alive_timeo t else 0)"

section \<open>The request of a URI\<close>

definition set_empty_request :: "(nat \<Rightarrow> bool) \<Rightarrow> http_task \<Rightarrow> http_task outcome" where
  "set_empty_request al t =
     andthen (set_header_pair (al 1) ''Host'' [] (set_request_uri (al 0) ''/'' (ht_req t))) (\<lambda>(ok, req).
       Ret (t\<lparr>ht_req := req\<rparr>))"

text \<open>The text of the request line and of the header \<open>Host\<close>.\<close>

definition part_str :: "string option \<Rightarrow> string" where
  "part_str p = (case p of None \<Rightarrow> [] | Some s \<Rightarrow> s)"

definition uri_target :: "parsed_uri \<Rightarrow> string" where
  "uri_target u =
     (if part_str (u_path u) \<noteq> [] then part_str (u_path u) else ''/'')
     @ (if part_str (u_query u) \<noteq> [] then CHR ''?'' # part_str (u_query u) else [])"

definition host_text :: "parsed_uri \<Rightarrow> string" where
  "host_text u = part_str (u_host u)
     @ (if part_str (u_port u) \<noteq> [] \<and> atoi (part_str (u_port u)) \<noteq> 80 then CHR '':'' # part_str (u_port u) else [])"

definition init_success :: "(nat \<Rightarrow> bool) \<Rightarrow> http_task \<Rightarrow> (bool \<times> http_task) outcome" where
  "init_success al t =
     (let u = ht_uri t in
      if u_scheme u \<noteq> None \<and> \<not> strcasecmp_eq (part_str (u_scheme u)) ''http'' then
        andthen (set_empty_request al (t\<lparr>ht_state := WFT_STATE_TASK_ERROR, ht_error := WFT_ERR_URI_SCHEME_INVALID\<rparr>)) (\<lambda>t1.
          Ret (False, t1))
      else
        andthen (set_header_pair (al 1) ''Host'' (host_text u) (set_request_uri (al 0) (uri_target u) (ht_req t))) (\<lambda>(ok, req).
          Ret (True, t\<lparr>ht_req := req\<rparr>)))"

text \<open>\<open>get_default_port\<close>: the fixed table, then the user's.\<close>

definition static_scheme_port :: "string \<rightharpoonup> string" where
  "static_scheme_port = [''http'' \<mapsto> ''80'', ''Http'' \<mapsto> ''80'', ''HTTP'' \<mapsto> ''80'']"

definition get_default_port :: "(string \<rightharpoonup> string) \<Rightarrow> string \<Rightarrow> string option" where
  "get_default_port user scheme =
     (case static_scheme_port scheme of Some p \<Rightarrow> Some p | None \<Rightarrow> user scheme)"

definition register_scheme_port :: "string \<Rightarrow> nat \<Rightarrow> (string \<rightharpoonup> string) \<Rightarrow> (string \<rightharpoonup> string)" where
  "register_scheme_port scheme port user = user(scheme \<mapsto> dec_str port)"

text \<open>\<open>dup\<close> is the success of \<open>strdup\<close>, \<open>e\<close> its \<open>errno\<close>.\<close>

definition set_port :: "(string \<rightharpoonup> string) \<Rightarrow> bool \<Rightarrow> int \<Rightarrow> http_task \<Rightarrow> bool \<times> http_task" where
  "set_port user dup e t =
     (case u_port (ht_uri t) of
        Some p \<Rightarrow>
          if atoi p \<le> 0 \<or> 65535 < atoi p
          then (False, t\<lparr>ht_state := WFT_STATE_TASK_ERROR, ht_error := WFT_ERR_URI_PORT_INVALID\<rparr>) else (True, t)
      | None \<Rightarrow>
          (case (case u_scheme (ht_uri t) of None \<Rightarrow> None | Some s \<Rightarrow> get_default_port user s) of
             Some p \<Rightarrow>
               if dup then (True, t\<lparr>ht_uri := (ht_uri t)\<lparr>u_port := Some p\<rparr>\<rparr>)
               else (False, t\<lparr>ht_state := WFT_STATE_SYS_ERROR, ht_error := e\<rparr>)
           | None \<Rightarrow> (False, t\<lparr>ht_state := WFT_STATE_TASK_ERROR, ht_error := WFT_ERR_URI_SCHEME_INVALID\<rparr>)))"

definition clear_prev_state :: "http_task \<Rightarrow> http_task" where
  "clear_prev_state t = t\<lparr>ht_route := False, ht_retry_times := 0, ht_state := WFT_STATE_UNDEFINED, ht_error := 0,
     ht_timeout_reason := TOR_NOT_TIMEOUT\<rparr>"

definition init_with_uri :: "(nat \<Rightarrow> bool) \<Rightarrow> (string \<rightharpoonup> string) \<Rightarrow> bool \<Rightarrow> int \<Rightarrow> http_task \<Rightarrow> http_task outcome" where
  "init_with_uri al user dup e t0 =
     (let t = (if ht_redirect t0 then clear_prev_state t0 else t0) in
      case u_state (ht_uri t) of
        URI_STATE_SUCCESS \<Rightarrow>
          (case set_port user dup e t of
             (True, t1) \<Rightarrow> andthen (init_success al t1) (\<lambda>(ok, t2). if ok then Ret t2 else set_empty_request al t2)
           | (False, t1) \<Rightarrow> set_empty_request al t1)
      | URI_STATE_ERROR \<Rightarrow> set_empty_request al (t\<lparr>ht_state := WFT_STATE_SYS_ERROR, ht_error := int (u_error (ht_uri t))\<rparr>)
      | _ \<Rightarrow> set_empty_request al (t\<lparr>ht_state := WFT_STATE_TASK_ERROR, ht_error := WFT_ERR_URI_PARSE_FAILED\<rparr>))"

section \<open>Redirects\<close>

text \<open>
  The URL of a redirect: a location that starts with a slash is completed from the parts of the old
  URI; a part that is needed and \<open>NULL\<close> is \<open>UB\<close>.
\<close>

definition redirect_target :: "parsed_uri \<Rightarrow> string \<Rightarrow> string outcome" where
  "redirect_target u url =
     (if cat url 0 \<noteq> CHR ''/'' then Ret url
      else
        andthen (if cat url 1 = CHR ''/'' then Ret url
                 else case u_host u of
                   None \<Rightarrow> UB
                 | Some h \<Rightarrow> Ret (''//'' @ h @ (case u_port u of None \<Rightarrow> url | Some p \<Rightarrow> CHR '':'' # p @ url))) (\<lambda>url1.
          case u_scheme u of None \<Rightarrow> UB | Some s \<Rightarrow> Ret (s @ CHR '':'' # url1)))"

definition redirect_url :: "(nat \<Rightarrow> bool) \<Rightarrow> http_task \<Rightarrow> (bool \<times> http_task) outcome" where
  "redirect_url al t =
     (if ht_redirect_count t < ht_redirect_max t then
        let t1 = t\<lparr>ht_redirect_count := ht_redirect_count t + 1\<rparr>
        in (case find_header ''Location'' (ht_resp t) of
              Some (c # url) \<Rightarrow>
                andthen (redirect_target (ht_uri t) (c # url)) (\<lambda>full.
                  andthen (uri_parse al full (ht_uri t)) (\<lambda>(r, u). Ret (True, t1\<lparr>ht_uri := u\<rparr>)))
            | _ \<Rightarrow> Ret (False, t1\<lparr>ht_state := WFT_STATE_TASK_ERROR, ht_error := WFT_ERR_HTTP_BAD_REDIRECT_HEADER\<rparr>))
      else Ret (False, t))"

definition need_redirect :: "(nat \<Rightarrow> bool) \<Rightarrow> bool \<Rightarrow> http_task \<Rightarrow> (bool \<times> http_task) outcome" where
  "need_redirect al alm t =
     (case (hp_code (hm_parser (ht_resp t)), hp_method (hm_parser (ht_req t))) of
        (Some cd, Some meth) \<Rightarrow>
          if atoi cd \<in> {301, 302, 303} then
            andthen (redirect_url al t) (\<lambda>(ok, t1).
              Ret (ok, if ok \<and> \<not> strcasecmp_eq meth ''GET'' \<and> \<not> strcasecmp_eq meth ''HEAD''
                       then t1\<lparr>ht_req := set_method alm ''GET'' (ht_req t1)\<rparr> else t1))
          else if atoi cd \<in> {307, 308} then redirect_url al t
          else Ret (False, t)
      | _ \<Rightarrow> Ret (False, t))"

definition check_response :: "http_task \<Rightarrow> http_task" where
  "check_response t =
     (let resp = end_parsing (ht_resp t); t1 = t\<lparr>ht_resp := resp\<rparr>
      in if ht_state t = WFT_STATE_SYS_ERROR \<and> ht_error t = ECONNRESET
            \<and> http_parser_header_complete (hm_parser resp) \<and> \<not> is_keep_alive resp \<and> \<not> is_chunked resp
            \<and> \<not> has_content_length_header resp
         then t1\<lparr>ht_state := WFT_STATE_SUCCESS, ht_error := 0\<rparr> else t1)"

text \<open>\<open>set_redirect\<close> with the task's own URI.\<close>

definition set_redirect :: "(nat \<Rightarrow> bool) \<Rightarrow> (string \<rightharpoonup> string) \<Rightarrow> bool \<Rightarrow> int \<Rightarrow> http_task \<Rightarrow> http_task outcome" where
  "set_redirect al user dup e t = init_with_uri al user dup e (t\<lparr>ht_redirect := True\<rparr>)"

definition disable_retry :: "http_task \<Rightarrow> http_task" where
  "disable_retry t = t\<lparr>ht_retry_times := ht_retry_max t\<rparr>"

text \<open>What the system answers while a task is finished: the allocations, and \<open>strdup\<close> of a port.\<close>

record task_answers =
  an_parse :: "nat \<Rightarrow> bool"
  an_method :: bool
  an_request :: "nat \<Rightarrow> bool"
  an_dup :: bool
  an_errno :: int

definition finish_once :: "task_answers \<Rightarrow> (string \<rightharpoonup> string) \<Rightarrow> http_task \<Rightarrow> http_task outcome" where
  "finish_once a user t0 =
     (let t = (if ht_state t0 \<noteq> WFT_STATE_SUCCESS then check_response t0 else t0) in
      if ht_state t = WFT_STATE_SUCCESS then
        andthen (need_redirect (an_parse a) (an_method a) t) (\<lambda>(redir, t1).
          if redir then set_redirect (an_request a) user (an_dup a) (an_errno a) t1
          else Ret (if ht_state t1 \<noteq> WFT_STATE_SUCCESS then disable_retry t1 else t1))
      else Ret t)"

definition create_http_task ::
  "task_answers \<Rightarrow> (string \<rightharpoonup> string) \<Rightarrow> string \<Rightarrow> int \<Rightarrow> int \<Rightarrow> http_parser \<Rightarrow> http_parser \<Rightarrow> http_task outcome" where
  "create_http_task a user url redirect_max retry_max raw1 raw2 =
     (let req = set_http_version (an_request a 3) ''HTTP/1.1'' (set_method (an_request a 2) ''GET'' (http_message_init False raw1))
      in andthen (uri_parse (an_parse a) url uri_init) (\<lambda>(r, u).
           andthen (init_with_uri (an_request a) user (an_dup a) (an_errno a)
             \<lparr>ht_state = WFT_STATE_UNDEFINED, ht_error = 0, ht_timeout_reason = TOR_NOT_TIMEOUT, ht_keep_alive_timeo = 0, ht_req = req,
              ht_resp = http_message_init True raw2, ht_target = False, ht_uri = u, ht_redirect = False, ht_retry_max = retry_max,
              ht_retry_times = 0, ht_route = False, ht_router_task = False, ht_redirect_max = redirect_max, ht_redirect_count = 0\<rparr>) (\<lambda>t.
             Ret (t\<lparr>ht_keep_alive_timeo := HTTP_KEEPALIVE_DEFAULT\<rparr>))))"

section \<open>Running a client task\<close>

text \<open>
  \<open>WFComplexClientTask\<close>. What names without a declaration in the sources stand for is an argument:
  the answer of the routing task (\<open>None\<close> when it found a route), and whether there is a policy.
  The answer of the network is whether the scheduler refused the request, and else the state, the error
  and the response that the session leaves.
\<close>

record net_answer =
  na_route :: "(wft_state \<times> int) option"
  na_refused :: "int option"
  na_state :: wft_state
  na_error :: int
  na_out :: bool
  na_resp :: http_message
  na_target :: bool
  na_raw :: http_parser

datatype dispatch_to = ToNetwork | ToDone

definition client_dispatch :: "http_task \<Rightarrow> dispatch_to \<times> http_task" where
  "client_dispatch t =
     (case ht_state t of
        WFT_STATE_UNDEFINED \<Rightarrow> if ht_route t then (ToNetwork, t) else (ToDone, t\<lparr>ht_router_task := True\<rparr>)
      | WFT_STATE_SUCCESS \<Rightarrow> (ToNetwork, t)
      | _ \<Rightarrow> (ToDone, t))"

definition clear_resp :: "http_parser \<Rightarrow> http_task \<Rightarrow> http_task" where
  "clear_resp raw t = t\<lparr>ht_resp := (http_message_init True raw)\<lparr>hm_size_limit := hm_size_limit (ht_resp t)\<rparr>\<rparr>"

text \<open>
  \<open>switch_callback\<close>: the task goes on, or it is deleted. The calls of the user's callback are listed.
\<close>

definition switch_callback ::
  "(http_task \<Rightarrow> http_task) \<Rightarrow> http_parser \<Rightarrow> http_task \<Rightarrow> http_task option \<times> (wft_state \<times> int) list" where
  "switch_callback cb raw t =
     (let t1 = (if ht_state t = WFT_STATE_SYS_ERROR \<and> ht_error t < 0
                then t\<lparr>ht_state := WFT_STATE_SSL_ERROR, ht_error := - ht_error t\<rparr> else t);
          (t2, calls) = (if ht_redirect t then (t, []) else (cb t1, [(ht_state t1, ht_error t1)]))
      in (if ht_redirect t2 then Some ((clear_resp raw (t2\<lparr>ht_redirect := False\<rparr>))\<lparr>ht_target := False\<rparr>) else None, calls))"

definition retry_step :: "bool \<Rightarrow> http_task \<Rightarrow> http_task" where
  "retry_step policy t =
     (if ht_state t = WFT_STATE_SYS_ERROR \<and> ht_retry_times t < ht_retry_max t
      then t\<lparr>ht_redirect := True, ht_route := (if policy then False else ht_route t), ht_state := WFT_STATE_UNDEFINED,
             ht_error := 0, ht_timeout_reason := TOR_NOT_TIMEOUT, ht_retry_times := ht_retry_times t + 1\<rparr>
      else t)"

text \<open>
  \<open>done\<close>: the routing task comes next, or the task is finished and switches its callback, through a
  timer when it has no target.
\<close>

datatype done_result = Routing http_task | Switched "http_task option" "(wft_state \<times> int) list" bool

definition client_done ::
  "task_answers \<Rightarrow> (string \<rightharpoonup> string) \<Rightarrow> bool \<Rightarrow> (http_task \<Rightarrow> http_task) \<Rightarrow> http_parser \<Rightarrow> http_task \<Rightarrow> done_result outcome" where
  "client_done a user policy cb raw t =
     (if ht_router_task t then Ret (Routing (t\<lparr>ht_router_task := False\<rparr>))
      else andthen (finish_once a user t) (\<lambda>t1.
        let t2 = retry_step policy t1; (next, calls) = switch_callback cb raw t2
        in Ret (Switched next calls (\<not> ht_target t2))))"

text \<open>
  \<open>CommRequest::handle\<close>: why a session timed out, from whether it has a target and a message to send;
  \<open>CommRequest::dispatch\<close>: a request that the scheduler refuses is handled at once, with its \<open>errno\<close>.
\<close>

definition comm_request_handle :: "wft_state \<Rightarrow> int \<Rightarrow> bool \<Rightarrow> http_task \<Rightarrow> http_task" where
  "comm_request_handle st e out t =
     t\<lparr>ht_state := st, ht_error := e,
       ht_timeout_reason := (if e \<noteq> ETIMEDOUT then TOR_NOT_TIMEOUT
                             else if \<not> ht_target t then TOR_WAIT_TIMEOUT
                             else if \<not> out then TOR_CONNECT_TIMEOUT
                             else TOR_TRANSMIT_TIMEOUT)\<rparr>"

definition comm_request_dispatch :: "net_answer \<Rightarrow> http_task \<Rightarrow> http_task" where
  "comm_request_dispatch n t =
     (let t1 = t\<lparr>ht_target := na_target n\<rparr>
      in case na_refused n of
           Some e \<Rightarrow> comm_request_handle WFT_STATE_SYS_ERROR e (na_out n) t1
         | None \<Rightarrow> comm_request_handle (na_state n) (na_error n) (na_out n) (t1\<lparr>ht_resp := na_resp n\<rparr>))"

text \<open>From one \<open>dispatch\<close> of the task to the next, or to its end.\<close>

definition task_round ::
  "(string \<rightharpoonup> string) \<Rightarrow> bool \<Rightarrow> (http_task \<Rightarrow> http_task) \<Rightarrow> task_answers \<times> net_answer \<Rightarrow> http_task
     \<Rightarrow> (http_task option \<times> (wft_state \<times> int) list) outcome" where
  "task_round user policy cb an t =
     (case an of (a, n) \<Rightarrow>
       (case client_dispatch t of (w, t1) \<Rightarrow>
         andthen (client_done a user policy cb (na_raw n) (if w = ToNetwork then comm_request_dispatch n t1 else t1)) (\<lambda>d.
           case d of
             Routing t2 \<Rightarrow>
               Ret (Some (case na_route n of
                            None \<Rightarrow> t2\<lparr>ht_route := True\<rparr>
                          | Some (st, e) \<Rightarrow> t2\<lparr>ht_state := st, ht_error := e\<rparr>), [])
           | Switched next calls timer \<Rightarrow> Ret (next, calls))))"

text \<open>A run for a list of answers: the task that is still under way, and the calls of the callback.\<close>

fun run_task ::
  "(string \<rightharpoonup> string) \<Rightarrow> bool \<Rightarrow> (http_task \<Rightarrow> http_task) \<Rightarrow> (task_answers \<times> net_answer) list \<Rightarrow> http_task
     \<Rightarrow> (http_task option \<times> (wft_state \<times> int) list) outcome" where
  "run_task user policy cb [] t = Ret (Some t, [])"
| "run_task user policy cb (an # ans) t =
     andthen (task_round user policy cb an t) (\<lambda>(next, calls).
       case next of
         None \<Rightarrow> Ret (None, calls)
       | Some t1 \<Rightarrow> andthen (run_task user policy cb ans t1) (\<lambda>(t2, calls2). Ret (t2, calls @ calls2)))"

section \<open>Tasks of servers\<close>

record http_server_task =
  hs_req :: http_message
  hs_resp :: http_message
  hs_keep_alive_timeo :: int
  hs_seq :: int
  hs_req_is_alive :: bool
  hs_has_keep_alive :: bool
  hs_keep_alive :: string

definition server_handle :: "bool \<Rightarrow> http_server_task \<Rightarrow> http_server_task" where
  "server_handle toreply t =
     (if \<not> toreply then t
      else
        let alive = is_keep_alive (hs_req t); t1 = t\<lparr>hs_req_is_alive := alive\<rparr>
        in if alive \<and> has_keep_alive_header (hs_req t) then
             (case find_header ''Keep-Alive'' (hs_req t) of
                None \<Rightarrow> t1\<lparr>hs_has_keep_alive := False\<rparr>
              | Some v \<Rightarrow> t1\<lparr>hs_has_keep_alive := True, hs_keep_alive := v\<rparr>)
           else t1)"

definition server_status :: "(nat \<Rightarrow> bool) \<Rightarrow> http_message \<Rightarrow> http_message" where
  "server_status al resp =
     (let resp1 = (if hp_version (hm_parser resp) = None then set_http_version (al 0) ''HTTP/1.1'' resp else resp)
      in if hp_code (hm_parser resp1) = None \<or> hp_phrase (hm_parser resp1) = None
         then set_response_status (al 1) (al 2) resp1
                (case hp_code (hm_parser resp1) of None \<Rightarrow> 200 | Some cd \<Rightarrow> atoi cd)
         else resp1)"

definition server_content_length :: "bool \<Rightarrow> http_message \<Rightarrow> http_message" where
  "server_content_length al resp =
     (if \<not> is_chunked resp \<and> \<not> has_content_length_header resp
      then snd (add_header_pair al ''Content-Length'' (body_size_str resp) resp) else resp)"

definition server_alive :: "http_server_task \<Rightarrow> http_message \<Rightarrow> int outcome" where
  "server_alive t resp =
     (if \<not> (if has_connection_header resp then is_keep_alive resp else hs_req_is_alive t) then Ret 0
      else
        andthen (if hs_has_keep_alive t
                 then server_alive_loop (hs_seq t) (str_split (hs_keep_alive t) (CHR '','')) False False (hs_keep_alive_timeo t)
                 else Ret (hs_keep_alive_timeo t)) (\<lambda>timeo. Ret (clamp_alive timeo)))"

definition server_message_out :: "(nat \<Rightarrow> bool) \<Rightarrow> http_server_task \<Rightarrow> http_server_task outcome" where
  "server_message_out al t =
     (let resp = server_content_length (al 3) (server_status al (hs_resp t))
      in andthen (server_alive t resp) (\<lambda>timeo.
           Ret (t\<lparr>hs_keep_alive_timeo := timeo,
                  hs_resp := (if has_connection_header resp then resp
                              else snd (add_header_pair (al 4) ''Connection'' (if timeo = 0 then ''close'' else ''Keep-Alive'') resp))\<rparr>)))"

end
