(* ===== verification/HttpTaskProps.thy ===== *)
theory HttpTaskProps
  imports HttpTask URIQuery
begin

text \<open>A client task ends, what a server's reply carries, and redirects to a path of the same server.\<close>

section \<open>A task ends\<close>





text \<open>The counters that an operation leaves alone, and the flag of a redirect.\<close>

definition same_counts :: "http_task \<Rightarrow> http_task \<Rightarrow> bool" where
  "same_counts t t' \<longleftrightarrow> ht_redirect_max t' = ht_redirect_max t \<and> ht_redirect_count t' = ht_redirect_count t
     \<and> ht_retry_max t' = ht_retry_max t \<and> ht_redirect t' = ht_redirect t \<and> ht_router_task t' = ht_router_task t"

lemma same_counts_refl [simp]: "same_counts t t"
  by (simp add: same_counts_def)





lemma dispatch_counts [simp]:
  "ht_redirect_max (comm_request_dispatch n t) = ht_redirect_max t" "ht_redirect_count (comm_request_dispatch n t) = ht_redirect_count t"
  "ht_retry_max (comm_request_dispatch n t) = ht_retry_max t" "ht_retry_times (comm_request_dispatch n t) = ht_retry_times t"
  "ht_redirect (comm_request_dispatch n t) = ht_redirect t" "ht_router_task (comm_request_dispatch n t) = ht_router_task t"
  by (simp_all add: comm_request_dispatch_def comm_request_handle_def Let_def split: option.split)
















section \<open>Replies of servers\<close>















end
