(* ===== verification/ArrayHeap.thy ===== *)
theory ArrayHeap
  imports Prelude "HOL-Library.Multiset"
begin

text \<open>
  Binary heaps in an array, as the groups of \<open>src/net/CommScheduler.cc\<close> keep them: the order
  of a heap with an exception at one position, and the steps of sifting up and down, proved
  for any comparison function that meets the contract of the locale.
\<close>

section \<open>Heaps in an array\<close>

text \<open>
  The contract of the comparison function that orders a heap: on valid keys it is a total
  preorder, given as a number whose sign counts.
\<close>

definition parent_of :: "nat \<Rightarrow> nat" where
  "parent_of i = (i - 1) div 2"

lemma parent_less [simp]: "0 < i \<Longrightarrow> parent_of i < i"
  by (simp add: parent_of_def)

lemma parent_le [simp]: "parent_of i \<le> i"
  by (simp add: parent_of_def)

lemma parent_neq [simp]: "0 < i \<Longrightarrow> parent_of i \<noteq> i" "0 < i \<Longrightarrow> i \<noteq> parent_of i"
  using parent_less [of i] by (metis less_irrefl)+

lemma parent_less_trans [simp]: "0 < i \<Longrightarrow> i < n \<Longrightarrow> parent_of i < n"
  using parent_less [of i] by (rule less_trans)

lemma parent_iff: "0 < j \<Longrightarrow> parent_of j = i \<longleftrightarrow> j = 2 * i + 1 \<or> j = 2 * i + 2"
  by (auto simp: parent_of_def)

definition heap_ordered :: "('a \<Rightarrow> 'a \<Rightarrow> int) \<Rightarrow> 'a list \<Rightarrow> bool" where
  "heap_ordered cmp xs \<longleftrightarrow> (\<forall>j. 0 < j \<and> j < length xs \<longrightarrow> cmp (xs ! parent_of j) (xs ! j) \<le> 0)"

text \<open>
  The order holds but for the position \<open>i\<close>: with \<open>up\<close> it also holds between \<open>i\<close> and its parent,
  with \<open>down\<close> between \<open>i\<close> and its children. The children are in order with the parent of \<open>i\<close>.
\<close>

definition heap_except :: "('a \<Rightarrow> 'a \<Rightarrow> int) \<Rightarrow> bool \<Rightarrow> bool \<Rightarrow> 'a list \<Rightarrow> nat \<Rightarrow> bool" where
  "heap_except cmp up down xs i \<longleftrightarrow>
     (\<forall>j. 0 < j \<and> j < length xs \<and> (j = i \<longrightarrow> up) \<and> (parent_of j = i \<longrightarrow> down) \<longrightarrow> cmp (xs ! parent_of j) (xs ! j) \<le> 0)
     \<and> (\<forall>j. 0 < i \<and> 0 < j \<and> j < length xs \<and> parent_of j = i \<longrightarrow> cmp (xs ! parent_of i) (xs ! j) \<le> 0)"

definition swap_at :: "'a list \<Rightarrow> nat \<Rightarrow> nat \<Rightarrow> 'a list" where
  "swap_at xs i j = xs[i := xs ! j, j := xs ! i]"

lemma length_swap_at [simp]: "length (swap_at xs i j) = length xs"
  by (simp add: swap_at_def)

lemma nth_swap_at:
  "i < length xs \<Longrightarrow> j < length xs \<Longrightarrow> swap_at xs i j ! k = (if k = j then xs ! i else if k = i then xs ! j else xs ! k)"
  by (simp add: swap_at_def nth_list_update)

lemma mset_swap_at: "i < length xs \<Longrightarrow> j < length xs \<Longrightarrow> mset (swap_at xs i j) = mset xs"
  unfolding swap_at_def by (cases "i = j") (simp_all add: mset_swap)



lemma list_all_swap_at [simp]:
  "i < length xs \<Longrightarrow> j < length xs \<Longrightarrow> list_all P (swap_at xs i j) = list_all P xs"
  using mset_eq_setD [OF mset_swap_at, of i xs j] by (simp add: list_all_iff)

lemma map_swap_at: "i < length xs \<Longrightarrow> j < length xs \<Longrightarrow> map f (swap_at xs i j) = swap_at (map f xs) i j"
  by (simp add: swap_at_def map_update)

lemma heap_exceptD:
  assumes "heap_except cmp up down xs i"
  shows "0 < j \<Longrightarrow> j < length xs \<Longrightarrow> (j = i \<Longrightarrow> up) \<Longrightarrow> (parent_of j = i \<Longrightarrow> down) \<Longrightarrow> cmp (xs ! parent_of j) (xs ! j) \<le> 0"
    "0 < i \<Longrightarrow> 0 < j \<Longrightarrow> j < length xs \<Longrightarrow> parent_of j = i \<Longrightarrow> cmp (xs ! parent_of i) (xs ! j) \<le> 0"
  using assms unfolding heap_except_def by blast+

lemma heap_except_mono: "heap_except cmp up down xs i \<Longrightarrow> (up' \<Longrightarrow> up) \<Longrightarrow> (down' \<Longrightarrow> down) \<Longrightarrow> heap_except cmp up' down' xs i"
  unfolding heap_except_def by blast

lemma heap_except_all: "heap_except cmp True True xs i \<Longrightarrow> heap_ordered cmp xs"
  unfolding heap_except_def heap_ordered_def by blast

locale comparison =
  fixes valid :: "'a \<Rightarrow> bool"
    and cmp :: "'a \<Rightarrow> 'a \<Rightarrow> int"
  assumes cmp_swap: "valid a \<Longrightarrow> valid b \<Longrightarrow> cmp a b \<le> 0 \<longleftrightarrow> 0 \<le> cmp b a"
    and cmp_trans: "valid a \<Longrightarrow> valid b \<Longrightarrow> valid c \<Longrightarrow> cmp a b \<le> 0 \<Longrightarrow> cmp b c \<le> 0 \<Longrightarrow> cmp a c \<le> 0"
begin

lemma cmp_total: "valid a \<Longrightarrow> valid b \<Longrightarrow> cmp a b \<le> 0 \<or> cmp b a \<le> 0"
  using cmp_swap [of a b] by auto

lemma not_less: "valid a \<Longrightarrow> valid b \<Longrightarrow> \<not> cmp a b < 0 \<longleftrightarrow> cmp b a \<le> 0"
  using cmp_swap [of b a] by auto

lemma heap_ordered_except:
  assumes "heap_ordered cmp xs" "list_all valid xs" "i < length xs"
  shows "heap_except cmp True True xs i"
  unfolding heap_except_def
proof (intro conjI allI impI)
  fix j assume "0 < i \<and> 0 < j \<and> j < length xs \<and> parent_of j = i"
  then have "cmp (xs ! parent_of i) (xs ! i) \<le> 0" "cmp (xs ! i) (xs ! j) \<le> 0"
    using assms(1,3) unfolding heap_ordered_def by blast+
  moreover have "parent_of i < length xs" using assms(3) by (meson le_less_trans parent_le)
  ultimately show "cmp (xs ! parent_of i) (xs ! j) \<le> 0"
    using cmp_trans assms(2,3) \<open>0 < i \<and> 0 < j \<and> j < length xs \<and> parent_of j = i\<close>
    by (meson list_all_length)
qed (use assms(1) in \<open>auto simp: heap_ordered_def\<close>)

lemma sift_up_step:
  assumes "heap_except cmp False down xs i" "list_all valid xs" "0 < i" "i < length xs"
    and "cmp (xs ! i) (xs ! parent_of i) \<le> 0"
  shows "heap_except cmp False True (swap_at xs i (parent_of i)) (parent_of i)"
proof -
  let ?p = "parent_of i"
  have p: "?p < i" "?p < length xs" using assms(3,4) by simp_all
  have v: "k < length xs \<Longrightarrow> valid (xs ! k)" for k
    using assms(2) by (simp add: list_all_length)
  note n = nth_swap_at [OF assms(4) p(2)]
  have kid: "cmp (xs ! i) (xs ! j) \<le> 0" if "0 < j" "j < length xs" "parent_of j = ?p" "j \<noteq> i" for j
  proof -
    have "cmp (xs ! ?p) (xs ! j) \<le> 0"
      using heap_exceptD(1) [OF assms(1), of j] that p by auto
    then show ?thesis
      using cmp_trans [OF v v v assms(5)] assms(4) p that(2) by blast
  qed
  have one: "cmp (swap_at xs i ?p ! parent_of j) (swap_at xs i ?p ! j) \<le> 0"
    if j: "0 < j" "j < length xs" "j \<noteq> ?p" for j
  proof -
    consider "j = i" | "j \<noteq> i" "parent_of j = i" | "j \<noteq> i" "parent_of j = ?p" | "j \<noteq> i" "parent_of j \<noteq> i" "parent_of j \<noteq> ?p"
      by blast
    then show ?thesis
    proof cases
      case 1
      then show ?thesis using assms(5) p by (simp add: n)
    next
      case 2
      then have "cmp (xs ! ?p) (xs ! j) \<le> 0"
        using heap_exceptD(2) [OF assms(1,3), of j] j by blast
      then show ?thesis using 2 j p by (simp add: n)
    next
      case 3
      then show ?thesis using kid [OF j(1,2)] j by (simp add: n)
    next
      case 4
      then show ?thesis using heap_exceptD(1) [OF assms(1), of j] j by (simp add: n)
    qed
  qed
  have two: "cmp (swap_at xs i ?p ! parent_of ?p) (swap_at xs i ?p ! j) \<le> 0"
    if j: "0 < ?p" "0 < j" "j < length xs" "parent_of j = ?p" for j
  proof -
    have q: "parent_of ?p < ?p" using j(1) by simp
    have gp: "cmp (xs ! parent_of ?p) (xs ! ?p) \<le> 0"
      using heap_exceptD(1) [OF assms(1), of ?p] p q j(1) by auto
    have "j \<noteq> ?p" using j by auto
    show ?thesis
    proof (cases "j = i")
      case True
      then show ?thesis using gp q p by (auto simp: n)
    next
      case False
      then have "cmp (xs ! ?p) (xs ! j) \<le> 0"
        using heap_exceptD(1) [OF assms(1), of j] j p by auto
      then have "cmp (xs ! parent_of ?p) (xs ! j) \<le> 0"
        using cmp_trans [OF v v v gp] q p j(3) by (meson less_trans)
      then show ?thesis using False \<open>j \<noteq> ?p\<close> q p by (auto simp: n)
    qed
  qed
  show ?thesis
    unfolding heap_except_def using one two by auto
qed

lemma sift_up_stop:
  assumes "heap_except cmp False down xs i" "list_all valid xs" "i < length xs"
    and "0 < i \<Longrightarrow> \<not> cmp (xs ! i) (xs ! parent_of i) < 0"
  shows "heap_except cmp True down xs i"
proof -
  have "cmp (xs ! parent_of i) (xs ! i) \<le> 0" if "0 < i"
    using assms(2-4) that not_less [of "xs ! i" "xs ! parent_of i"] by (auto simp: list_all_length)
  then show ?thesis
    using heap_exceptD [OF assms(1)] unfolding heap_except_def by metis
qed

lemma sift_down_step:
  assumes "heap_except cmp True False xs i" "list_all valid xs" "parent_of c = i" "0 < c" "c < length xs"
    and "cmp (xs ! c) (xs ! i) \<le> 0"
    and "\<And>j. 0 < j \<Longrightarrow> j < length xs \<Longrightarrow> parent_of j = i \<Longrightarrow> cmp (xs ! c) (xs ! j) \<le> 0"
  shows "heap_except cmp True False (swap_at xs i c) c"
proof -
  have i: "i < c" "i < length xs" using assms(3-5) parent_less [of c] by auto
  have v: "k < length xs \<Longrightarrow> valid (xs ! k)" for k
    using assms(2) by (simp add: list_all_length)
  note n = nth_swap_at [OF i(2) assms(5)]
  have one: "cmp (swap_at xs i c ! parent_of j) (swap_at xs i c ! j) \<le> 0"
    if j: "0 < j" "j < length xs" "parent_of j \<noteq> c" for j
  proof -
    have pj: "parent_of j < j" using j(1) by simp
    consider "j = c" | "j \<noteq> c" "parent_of j = i" | "j = i" | "j \<noteq> c" "j \<noteq> i" "parent_of j \<noteq> i"
      by blast
    then show ?thesis
    proof cases
      case 1
      then show ?thesis using assms(3,6) i by (simp add: n)
    next
      case 2
      then show ?thesis using assms(7) [OF j(1,2)] i pj by (auto simp: n)
    next
      case 3
      then have "cmp (xs ! parent_of i) (xs ! c) \<le> 0"
        using heap_exceptD(2) [OF assms(1), of c] assms(3-5) j(1) by blast
      then show ?thesis using 3 i j pj by (auto simp: n)
    next
      case 4
      then show ?thesis using heap_exceptD(1) [OF assms(1), of j] j by (simp add: n)
    qed
  qed
  have two: "cmp (swap_at xs i c ! parent_of c) (swap_at xs i c ! j) \<le> 0"
    if j: "0 < j" "j < length xs" "parent_of j = c" for j
  proof -
    have "cmp (xs ! c) (xs ! j) \<le> 0"
      using heap_exceptD(1) [OF assms(1), of j] j assms(3) i by auto
    moreover have "c < j" using j parent_less [of j] by auto
    ultimately show ?thesis using assms(3) i by (auto simp: n)
  qed
  show ?thesis
    unfolding heap_except_def using one two by auto
qed

lemma sift_down_stop:
  assumes "heap_except cmp True False xs i"
    and "\<And>j. 0 < j \<Longrightarrow> j < length xs \<Longrightarrow> parent_of j = i \<Longrightarrow> cmp (xs ! i) (xs ! j) \<le> 0"
  shows "heap_ordered cmp xs"
  unfolding heap_ordered_def
proof (intro allI impI)
  fix j assume j: "0 < j \<and> j < length xs"
  show "cmp (xs ! parent_of j) (xs ! j) \<le> 0"
    using assms(2) [of j] heap_exceptD(1) [OF assms(1), of j] j by (cases "parent_of j = i") auto
qed

lemma heap_root_least:
  assumes "heap_ordered cmp xs" "list_all valid xs" "j < length xs"
  shows "cmp (xs ! 0) (xs ! j) \<le> 0"
  using assms(3)
proof (induction j rule: less_induct)
  case (less j)
  have v: "k < length xs \<Longrightarrow> valid (xs ! k)" for k
    using assms(2) by (simp add: list_all_length)
  show ?case
  proof (cases "j = 0")
    case True
    then show ?thesis
      using cmp_total [OF v v] less.prems by blast
  next
    case False
    have p: "parent_of j < j" using False by simp
    then have "cmp (xs ! 0) (xs ! parent_of j) \<le> 0"
      using less by simp
    moreover have "cmp (xs ! parent_of j) (xs ! j) \<le> 0"
      using assms(1) False less.prems unfolding heap_ordered_def by blast
    moreover have "0 < length xs" using less.prems by (rule le_less_trans [OF le0])
    ultimately show ?thesis
      using cmp_trans [of "xs ! 0" "xs ! parent_of j" "xs ! j"] v [of 0] v [of j] v [of "parent_of j"] less.prems p by simp
  qed
qed

text \<open>One key of an ordered heap is replaced.\<close>

lemma heap_change:
  assumes "heap_ordered cmp xs" "list_all valid xs" "i < length xs"
  shows "heap_except cmp False False (xs[i := x]) i"
    "valid x \<Longrightarrow> cmp (xs ! i) x \<le> 0 \<Longrightarrow> heap_except cmp True False (xs[i := x]) i"
    "valid x \<Longrightarrow> cmp x (xs ! i) \<le> 0 \<Longrightarrow> heap_except cmp False True (xs[i := x]) i"
proof -
  have v: "k < length xs \<Longrightarrow> valid (xs ! k)" for k
    using assms(2) by (simp add: list_all_length)
  have e: "heap_except cmp True True xs i"
    by (rule heap_ordered_except [OF assms])

  have two: "cmp (xs[i := x] ! parent_of i) (xs[i := x] ! j) \<le> 0"
    if "0 < i" "0 < j" "j < length xs" "parent_of j = i" for j
    using heap_exceptD(2) [OF e, of j] that parent_neq(2) [of i] parent_neq(2) [of j] by (simp add: nth_list_update)
  have one: "cmp (xs[i := x] ! parent_of j) (xs[i := x] ! j) \<le> 0"
    if "0 < j" "j < length xs" "j \<noteq> i" "parent_of j \<noteq> i" for j
    using heap_exceptD(1) [OF e, of j] that by simp
  show "heap_except cmp False False (xs[i := x]) i"
    unfolding heap_except_def using one two by auto
  show "heap_except cmp True False (xs[i := x]) i" if x: "valid x" "cmp (xs ! i) x \<le> 0"
  proof -
    have "cmp (xs[i := x] ! parent_of i) (xs[i := x] ! i) \<le> 0" if "0 < i"
    proof -
      have "cmp (xs ! parent_of i) (xs ! i) \<le> 0"
        using heap_exceptD(1) [OF e, of i] that assms(3) by blast
      then have "cmp (xs ! parent_of i) x \<le> 0"
        using cmp_trans [OF v v x(1) _ x(2), of "parent_of i"] assms(3) that by simp
      then show ?thesis using that assms(3) by (simp add: nth_list_update)
    qed
    then show ?thesis
      unfolding heap_except_def length_list_update
    proof (intro conjI allI impI, goal_cases)
      case (1 j)
      then show ?case using one [of j] by (cases "j = i") auto
    next
      case (2 j)
      then show ?case using two [of j] by blast
    qed
  qed
  show "heap_except cmp False True (xs[i := x]) i" if x: "valid x" "cmp x (xs ! i) \<le> 0"
  proof -
    have kid: "cmp (xs[i := x] ! parent_of j) (xs[i := x] ! j) \<le> 0" if j: "0 < j" "j < length xs" "parent_of j = i" for j
    proof -
      have "cmp (xs ! i) (xs ! j) \<le> 0"
        using heap_exceptD(1) [OF e, of j] j by auto
      then have "cmp x (xs ! j) \<le> 0"
        using cmp_trans [OF x(1) v v x(2)] assms(3) j by simp
      then show ?thesis using parent_neq(1) [OF j(1)] j assms(3) by (simp add: nth_list_update)
    qed
    show ?thesis
      unfolding heap_except_def length_list_update
    proof (intro conjI allI impI, goal_cases)
      case (1 j)
      then show ?case using one [of j] kid [of j] by blast
    next
      case (2 j)
      then show ?case using two [of j] by blast
    qed
  qed
qed

end

lemma heap_append:
  assumes "heap_ordered cmp xs"
  shows "heap_except cmp False True (xs @ [x]) (length xs)"
proof -
  have n: "j = 0 \<or> parent_of j \<noteq> length xs" if "j < Suc (length xs)" for j
    using parent_less [of j] that by linarith
  show ?thesis
    unfolding heap_except_def
  proof (intro conjI allI impI, goal_cases)
    case (1 j)
    then have "j < length xs" "0 < j" by auto
    then show ?case using assms unfolding heap_ordered_def by (simp add: nth_append)
  next
    case (2 j)
    then show ?case using n [of j] by auto
  qed
qed

lemma heap_butlast: "heap_ordered cmp (xs @ [x]) \<Longrightarrow> heap_ordered cmp xs"
proof -
  assume h: "heap_ordered cmp (xs @ [x])"
  show "heap_ordered cmp xs"
    unfolding heap_ordered_def
  proof (intro allI impI)
    fix j assume j: "0 < j \<and> j < length xs"
    then have "cmp ((xs @ [x]) ! parent_of j) ((xs @ [x]) ! j) \<le> 0"
      using h unfolding heap_ordered_def by simp
    then show "cmp (xs ! parent_of j) (xs ! j) \<le> 0"
      using j by (simp add: nth_append)
  qed
qed

end
