(* ===== verification/CommSched.thy ===== *)
theory CommSched
  imports ArrayHeap
begin

text \<open>
  \<open>src/net/CommScheduler.cc\<close> and \<open>CommScheduler.h\<close>: targets with a limit of connections,
  groups of targets that keep them in a heap ordered by load, and the acquiring and releasing
  of connections.

  Targets and groups are objects of a store, named by numbers. \<open>size_t\<close> is \<open>nat\<close> below
  \<open>2 ^ 64\<close> with the wrap written out. A region under the mutexes is one step: \<open>acquire\<close> ends
  with \<open>Waiting\<close> where the code waits on a condition variable, and \<open>wake\<close> is the rest of the
  loop after the wait returned. The signals that a step sends are collected in its result. An
  access to the heap outside its elements is \<open>UB\<close>.
\<close>

section \<open>Targets and groups\<close>

record sched_target =
  ct_max_load :: nat
  ct_cur_load :: nat
  ct_group :: "nat option"
  ct_index :: nat
  ct_wait_cnt :: nat

text \<open>\<open>cg_heap\<close> holds the \<open>heap_size\<close> slots in use of the \<open>heap_buf_size\<close> allocated.\<close>

record sched_group =
  cg_max_load :: nat
  cg_cur_load :: nat
  cg_heap :: "nat list"
  cg_buf_size :: nat
  cg_wait_cnt :: nat

type_synonym targets = "nat \<Rightarrow> sched_target"

record sched =
  sc_targets :: targets
  sc_groups :: "nat \<Rightarrow> sched_group"

datatype sched_errno = SE_INVAL | SE_EXIST | SE_BUSY | SE_NOENT | SE_AGAIN | SE_TIMEDOUT | SE_NOMEM

datatype signal = SigTarget nat | SigGroup nat

datatype acquired = Acquired nat | NotAcquired "sched_errno option" | Waiting

definition size_add :: "nat \<Rightarrow> nat \<Rightarrow> nat" where
  "size_add a b = nat ((int a + int b) mod 2 ^ 64)"

definition size_sub :: "nat \<Rightarrow> nat \<Rightarrow> nat" where
  "size_sub a b = nat ((int a - int b) mod 2 ^ 64)"

lemma size_add_exact: "a + b < 2 ^ 64 \<Longrightarrow> size_add a b = a + b"
proof -
  assume "a + b < 2 ^ 64"
  then have "int a + int b < 2 ^ 64"
    by (metis of_nat_add of_nat_less_iff of_nat_numeral of_nat_power)
  then show ?thesis by (simp add: size_add_def)
qed

lemma size_sub_exact: "x + b = a \<Longrightarrow> x < 2 ^ 64 \<Longrightarrow> size_sub a b = x"
proof -
  assume "x + b = a" "x < 2 ^ 64"
  then have "int a - int b = int x" "int x < 2 ^ 64"
    by (auto simp: of_nat_less_iff [of x "2 ^ 64", symmetric, where ?'a = int] simp del: of_nat_less_iff)
  then show ?thesis by (simp add: size_sub_def)
qed

text \<open>
  \<open>__get_abstime\<close>: the deadline from the time \<open>now\<close> in seconds and nanoseconds, or NULL.
\<close>

definition get_abstime :: "int \<Rightarrow> int \<times> int \<Rightarrow> (int \<times> int) option" where
  "get_abstime timeout now =
     (if timeout < 0 then None
      else
        let sec = fst now + timeout div 1000;
            nsec = snd now + timeout mod 1000 * 1000000
        in if 1000000000 \<le> nsec then Some (sec + 1, nsec - 1000000000) else Some (sec, nsec))"

text \<open>\<open>CommSchedTarget::init\<close>; \<open>ok\<close> is the success of the initialisers it calls.\<close>

definition target_init :: "bool \<Rightarrow> nat \<Rightarrow> sched_target \<Rightarrow> sched_errno option \<times> sched_target" where
  "target_init ok max_connections target =
     (if max_connections = 0 then (Some SE_INVAL, target)
      else if ok then
        (None, target\<lparr>ct_max_load := max_connections, ct_cur_load := 0, ct_wait_cnt := 0, ct_group := None\<rparr>)
      else (Some SE_NOMEM, target))"

definition group_init :: "bool \<Rightarrow> sched_group \<Rightarrow> sched_errno option \<times> sched_group" where
  "group_init ok g =
     (if ok then (None, \<lparr>cg_max_load = 0, cg_cur_load = 0, cg_heap = [], cg_buf_size = 4, cg_wait_cnt = 0\<rparr>)
      else (Some SE_NOMEM, g))"

section \<open>The heap\<close>

definition target_cmp :: "sched_target \<Rightarrow> sched_target \<Rightarrow> int" where
  "target_cmp target1 target2 =
     (let load1 = int (ct_cur_load target1) * int (ct_max_load target2) mod 2 ^ 64;
          load2 = int (ct_cur_load target2) * int (ct_max_load target1) mod 2 ^ 64
      in if load1 < load2 then -1 else if load2 < load1 then 1 else 0)"

definition set_index :: "nat \<Rightarrow> nat \<Rightarrow> targets \<Rightarrow> targets" where
  "set_index t i T = T(t := (T t)\<lparr>ct_index := i\<rparr>)"

text \<open>
  The loop of \<open>heap_adjust\<close>: \<open>i\<close> is the hole that the target \<open>t\<close> moves up with. A target is
  compared by its loads, which the loop does not change.
\<close>

function adjust_loop :: "int \<Rightarrow> nat \<Rightarrow> nat \<Rightarrow> targets \<Rightarrow> nat list \<Rightarrow> targets \<times> nat list" where
  "adjust_loop swap t i T h =
     (if 0 < i \<and> target_cmp (T t) (T (h ! parent_of i)) < swap
      then adjust_loop swap t (parent_of i) (set_index (h ! parent_of i) i T) (h[i := h ! parent_of i])
      else (set_index t i T, h[i := t]))"
  by pat_completeness auto
termination
  by (relation "measure (\<lambda>(swap, t, i, T, h). i)") auto

declare adjust_loop.simps [simp del]

definition heap_adjust :: "nat \<Rightarrow> int \<Rightarrow> targets \<Rightarrow> nat list \<Rightarrow> (targets \<times> nat list) outcome" where
  "heap_adjust index swap_on_equal T h =
     (if index < length h
      then Ret (adjust_loop (if swap_on_equal \<noteq> 0 then 1 else 0) (h ! index) index T h) else UB)"

text \<open>
  The loop of \<open>heapify\<close>: \<open>i\<close> is the left child of the hole \<open>hole\<close>, \<open>last\<close> the last index.
\<close>

function heapify_loop :: "nat \<Rightarrow> nat \<Rightarrow> targets \<Rightarrow> nat list \<Rightarrow> targets \<times> nat list" where
  "heapify_loop t hole T h =
     (let i = 2 * hole + 1; last = int (length h) - 1 in
      if int i < last then
        (if target_cmp (T (h ! i)) (T t) < 0 then
           (if target_cmp (T (h ! (i + 1))) (T (h ! i)) < 0
            then heapify_loop t (i + 1) (set_index (h ! (i + 1)) hole T) (h[hole := h ! (i + 1)])
            else heapify_loop t i (set_index (h ! i) hole T) (h[hole := h ! i]))
         else
           (if target_cmp (T (h ! (i + 1))) (T t) < 0
            then heapify_loop t (i + 1) (set_index (h ! (i + 1)) hole T) (h[hole := h ! (i + 1)])
            else (set_index t hole T, h[hole := t])))
      else if int i = last \<and> target_cmp (T (h ! i)) (T t) < 0
      then (set_index t i (set_index (h ! i) hole T), h[hole := h ! i, i := t])
      else (set_index t hole T, h[hole := t]))"
  by pat_completeness auto
termination
  by (relation "measure (\<lambda>(t, hole, T, h). length h - hole)") auto

declare heapify_loop.simps [simp del]

definition heapify :: "nat \<Rightarrow> targets \<Rightarrow> nat list \<Rightarrow> (targets \<times> nat list) outcome" where
  "heapify hole T h = (if hole < length h then Ret (heapify_loop (h ! hole) hole T h) else UB)"

text \<open>
  \<open>heap_insert\<close>: the new buffer size, targets and heap, or \<open>None\<close> when \<open>realloc\<close> fails. The
  doubled size is an \<open>int\<close>.
\<close>

definition heap_insert :: "bool \<Rightarrow> nat \<Rightarrow> nat \<Rightarrow> targets \<Rightarrow> nat list \<Rightarrow> (nat \<times> targets \<times> nat list) option outcome" where
  "heap_insert al target bufsz T h =
     (if length h = bufsz \<and> 2 ^ 31 \<le> 2 * int bufsz then UB
      else if length h = bufsz \<and> \<not> al then Ret None
      else
        let sz = (if length h = bufsz then 2 * bufsz else bufsz) in
        if length h < sz then
          (case heap_adjust (length h) 0 (set_index target (length h) T) (h @ [target]) of
             UB \<Rightarrow> UB
           | Ret (T', h') \<Rightarrow> Ret (Some (sz, T', h')))
        else UB)"

definition heap_remove :: "nat \<Rightarrow> targets \<Rightarrow> nat list \<Rightarrow> (targets \<times> nat list) outcome" where
  "heap_remove index T h =
     (if h = [] \<or> length h \<le> index then UB
      else
        let n = length h - 1 in
        if index \<noteq> n then
          let target = h ! n in
          (case heap_adjust index 0 (set_index target index T) ((butlast h)[index := target]) of
             UB \<Rightarrow> UB
           | Ret (T', h') \<Rightarrow> heapify (ct_index (T' target)) T' h')
        else Ret (T, butlast h))"

section \<open>Groups\<close>

definition upd_target :: "nat \<Rightarrow> (sched_target \<Rightarrow> sched_target) \<Rightarrow> targets \<Rightarrow> targets" where
  "upd_target t f T = T(t := f (T t))"

definition upd_group :: "nat \<Rightarrow> (sched_group \<Rightarrow> sched_group) \<Rightarrow> sched \<Rightarrow> sched" where
  "upd_group g f s = s\<lparr>sc_groups := (sc_groups s)(g := f (sc_groups s g))\<rparr>"

type_synonym group_result = "sched_errno option \<times> signal list \<times> sched"

definition group_add :: "bool \<Rightarrow> nat \<Rightarrow> nat \<Rightarrow> sched \<Rightarrow> group_result outcome" where
  "group_add al g t s =
     (let T = sc_targets s; G = sc_groups s g; target = T t in
      if ct_group target = None \<and> ct_wait_cnt target = 0 then
        (case heap_insert al t (cg_buf_size G) T (cg_heap G) of
           UB \<Rightarrow> UB
         | Ret None \<Rightarrow> Ret (Some SE_NOMEM, [], s)
         | Ret (Some (sz, T', h')) \<Rightarrow>
             let G' = G\<lparr>cg_heap := h', cg_buf_size := sz,
                        cg_max_load := size_add (cg_max_load G) (ct_max_load target),
                        cg_cur_load := size_add (cg_cur_load G) (ct_cur_load target)\<rparr>
             in Ret (None, (if 0 < cg_wait_cnt G' \<and> cg_cur_load G' < cg_max_load G' then [SigGroup g] else []),
                  \<lparr>sc_targets = upd_target t (\<lambda>r. r\<lparr>ct_group := Some g\<rparr>) T',
                   sc_groups = (sc_groups s)(g := G')\<rparr>))
      else if ct_group target = Some g then Ret (Some SE_EXIST, [], s)
      else if ct_group target \<noteq> None then Ret (Some SE_INVAL, [], s)
      else Ret (Some SE_BUSY, [], s))"

definition group_remove :: "nat \<Rightarrow> nat \<Rightarrow> sched \<Rightarrow> group_result outcome" where
  "group_remove g t s =
     (let T = sc_targets s; G = sc_groups s g; target = T t in
      if ct_group target = Some g \<and> ct_wait_cnt target = 0 then
        (case heap_remove (ct_index target) T (cg_heap G) of
           UB \<Rightarrow> UB
         | Ret (T', h') \<Rightarrow>
             Ret (None, [],
               \<lparr>sc_targets = upd_target t (\<lambda>r. r\<lparr>ct_group := None\<rparr>) T',
                sc_groups = (sc_groups s)(g := G\<lparr>cg_heap := h',
                  cg_max_load := size_sub (cg_max_load G) (ct_max_load target),
                  cg_cur_load := size_sub (cg_cur_load G) (ct_cur_load target)\<rparr>)\<rparr>))
      else if ct_group target \<noteq> Some g then Ret (Some SE_NOENT, [], s)
      else Ret (Some SE_BUSY, [], s))"

section \<open>Acquiring and releasing\<close>

text \<open>
  The end of \<open>CommSchedTarget::acquire\<close>, after the wait: \<open>ret\<close> is the answer of the wait,
  \<open>None\<close> for 0.
\<close>

definition target_take :: "nat \<Rightarrow> sched_errno option \<Rightarrow> sched \<Rightarrow> (acquired \<times> sched) outcome" where
  "target_take t ret s =
     (let T = sc_targets s in
      if ct_cur_load (T t) < ct_max_load (T t) then
        let T1 = upd_target t (\<lambda>r. r\<lparr>ct_cur_load := size_add (ct_cur_load r) 1\<rparr>) T in
        (case ct_group (T t) of
           None \<Rightarrow> Ret (Acquired t, s\<lparr>sc_targets := T1\<rparr>)
         | Some g \<Rightarrow>
             let G = sc_groups s g in
             (case heapify (ct_index (T t)) T1 (cg_heap G) of
                UB \<Rightarrow> UB
              | Ret (T2, h) \<Rightarrow>
                  Ret (Acquired t, \<lparr>sc_targets = T2,
                    sc_groups = (sc_groups s)(g := G\<lparr>cg_cur_load := size_add (cg_cur_load G) 1, cg_heap := h\<rparr>)\<rparr>)))
      else Ret (NotAcquired ret, s))"

definition target_wait :: "int \<Rightarrow> nat \<Rightarrow> sched \<Rightarrow> sched" where
  "target_wait n t s =
     s\<lparr>sc_targets := upd_target t (\<lambda>r. r\<lparr>ct_wait_cnt := nat (int (ct_wait_cnt r) + n)\<rparr>) (sc_targets s)\<rparr>"

definition target_acquire :: "nat \<Rightarrow> int \<Rightarrow> sched \<Rightarrow> (acquired \<times> sched) outcome" where
  "target_acquire t wait_timeout s =
     (let r = sc_targets s t in
      if ct_max_load r \<le> ct_cur_load r then
        (if wait_timeout \<noteq> 0 then Ret (Waiting, target_wait 1 t s) else target_take t (Some SE_AGAIN) s)
      else target_take t None s)"

definition target_wake :: "nat \<Rightarrow> sched_errno option \<Rightarrow> sched \<Rightarrow> (acquired \<times> sched) outcome" where
  "target_wake t ret s =
     (let s1 = target_wait (-1) t s; r = sc_targets s1 t in
      if ct_max_load r \<le> ct_cur_load r \<and> ret = None then Ret (Waiting, target_wait 1 t s1)
      else target_take t ret s1)"

definition target_release :: "nat \<Rightarrow> int \<Rightarrow> sched \<Rightarrow> (signal list \<times> sched) outcome" where
  "target_release t keep_alive s =
     (let T = sc_targets s;
          T1 = upd_target t (\<lambda>r. r\<lparr>ct_cur_load := size_sub (ct_cur_load r) 1\<rparr>) T;
          sig = (if 0 < ct_wait_cnt (T t) then [SigTarget t] else [])
      in case ct_group (T t) of
           None \<Rightarrow> Ret (sig, s\<lparr>sc_targets := T1\<rparr>)
         | Some g \<Rightarrow>
             let G = sc_groups s g in
             (case heap_adjust (ct_index (T t)) keep_alive T1 (cg_heap G) of
                UB \<Rightarrow> UB
              | Ret (T2, h) \<Rightarrow>
                  Ret (sig @ (if ct_wait_cnt (T t) = 0 \<and> 0 < cg_wait_cnt G then [SigGroup g] else []),
                    \<lparr>sc_targets = T2,
                     sc_groups = (sc_groups s)(g := G\<lparr>cg_cur_load := size_sub (cg_cur_load G) 1, cg_heap := h\<rparr>)\<rparr>)))"

definition group_take :: "nat \<Rightarrow> sched_errno option \<Rightarrow> sched \<Rightarrow> (acquired \<times> sched) outcome" where
  "group_take g ret s =
     (let G = sc_groups s g; T = sc_targets s in
      if cg_cur_load G < cg_max_load G then
        (if cg_heap G = [] then UB
         else
           let t = cg_heap G ! 0;
               T1 = upd_target t (\<lambda>r. r\<lparr>ct_cur_load := size_add (ct_cur_load r) 1\<rparr>) T
           in (case heapify 0 T1 (cg_heap G) of
                 UB \<Rightarrow> UB
               | Ret (T2, h) \<Rightarrow>
                   Ret (Acquired t, \<lparr>sc_targets = T2,
                     sc_groups = (sc_groups s)(g := G\<lparr>cg_cur_load := size_add (cg_cur_load G) 1, cg_heap := h\<rparr>)\<rparr>)))
      else Ret (NotAcquired ret, s))"

definition group_wait :: "int \<Rightarrow> nat \<Rightarrow> sched \<Rightarrow> sched" where
  "group_wait n g s = upd_group g (\<lambda>G. G\<lparr>cg_wait_cnt := nat (int (cg_wait_cnt G) + n)\<rparr>) s"

definition group_acquire :: "nat \<Rightarrow> int \<Rightarrow> sched \<Rightarrow> (acquired \<times> sched) outcome" where
  "group_acquire g wait_timeout s =
     (let G = sc_groups s g in
      if cg_max_load G \<le> cg_cur_load G then
        (if wait_timeout \<noteq> 0 then Ret (Waiting, group_wait 1 g s) else group_take g (Some SE_AGAIN) s)
      else group_take g None s)"

definition group_wake :: "nat \<Rightarrow> sched_errno option \<Rightarrow> sched \<Rightarrow> (acquired \<times> sched) outcome" where
  "group_wake g ret s =
     (let s1 = group_wait (-1) g s; G = sc_groups s1 g in
      if cg_max_load G \<le> cg_cur_load G \<and> ret = None then Ret (Waiting, group_wait 1 g s1)
      else group_take g ret s1)"

text \<open>
  \<open>CommScheduler::request\<close> with an object that is acquired without waiting: \<open>comm_request\<close>
  is \<open>Communicator::request\<close> on the target. The result is its return value with the target.
\<close>

datatype sched_object = ObjTarget nat | ObjGroup nat

definition object_acquire :: "sched_object \<Rightarrow> int \<Rightarrow> sched \<Rightarrow> (acquired \<times> sched) outcome" where
  "object_acquire obj wait_timeout s =
     (case obj of ObjTarget t \<Rightarrow> target_acquire t wait_timeout s | ObjGroup g \<Rightarrow> group_acquire g wait_timeout s)"

definition sched_request ::
  "(nat \<Rightarrow> int) \<Rightarrow> acquired \<times> sched \<Rightarrow> (int \<times> nat option \<times> signal list \<times> sched) outcome" where
  "sched_request comm_request res =
     (case res of
        (Acquired t, s) \<Rightarrow>
          if comm_request t < 0 then
            (case target_release t 0 s of UB \<Rightarrow> UB | Ret (sig, s') \<Rightarrow> Ret (comm_request t, Some t, sig, s'))
          else Ret (comm_request t, Some t, [], s)
      | (_, s) \<Rightarrow> Ret (-1, None, [], s))"

end
