(* ===== verification/CommSchedInv.thy ===== *)
theory CommSchedInv
  imports CommSched
begin

text \<open>
  The heap of a group: the order of the targets by their ratio of load to limit, as an instance
  of the comparison contract, and the heap operations, which keep the order, the indices and
  the targets.
\<close>

section \<open>The order of the targets\<close>

definition target_ok :: "sched_target \<Rightarrow> bool" where
  "target_ok r \<longleftrightarrow> 0 < ct_max_load r \<and> ct_max_load r < 2 ^ 32 \<and> ct_cur_load r \<le> ct_max_load r"

lemma load_no_wrap: "target_ok a \<Longrightarrow> target_ok b \<Longrightarrow> ct_cur_load a * ct_max_load b < 2 ^ 64"
proof -
  assume "target_ok a" "target_ok b"
  then have "ct_cur_load a * ct_max_load b \<le> (2 ^ 32 - 1) * (2 ^ 32 - 1)"
    by (intro mult_mono) (auto simp: target_ok_def)
  also have "\<dots> < 2 ^ 64" by simp
  finally show ?thesis .
qed

lemma target_cmp_exact:
  assumes "target_ok a" "target_ok b"
  shows "target_cmp a b = (if ct_cur_load a * ct_max_load b < ct_cur_load b * ct_max_load a then -1
    else if ct_cur_load b * ct_max_load a < ct_cur_load a * ct_max_load b then 1 else 0)"
proof -
  have e: "int (ct_cur_load x) * int (ct_max_load y) mod 2 ^ 64 = int (ct_cur_load x * ct_max_load y)"
    if "target_ok x" "target_ok y" for x y
  proof -
    have "int (ct_cur_load x * ct_max_load y) < int (2 ^ 64)"
      using load_no_wrap [OF that] by (simp only: of_nat_less_iff)
    then show ?thesis by (simp add: mod_pos_pos_trivial)
  qed
  show ?thesis
    unfolding target_cmp_def Let_def e [OF assms] e [OF assms(2,1)] of_nat_less_iff by (rule refl)
qed

lemma target_cmp_le:
  "target_ok a \<Longrightarrow> target_ok b \<Longrightarrow> target_cmp a b \<le> 0 \<longleftrightarrow> ct_cur_load a * ct_max_load b \<le> ct_cur_load b * ct_max_load a"
  by (simp add: target_cmp_exact not_less)

lemma target_cmp_ge:
  "target_ok a \<Longrightarrow> target_ok b \<Longrightarrow> 0 \<le> target_cmp a b \<longleftrightarrow> ct_cur_load b * ct_max_load a \<le> ct_cur_load a * ct_max_load b"
  by (simp add: target_cmp_exact not_less)

lemma ratio_trans:
  fixes x y z :: nat
  assumes "x * b \<le> y * a" "y * c \<le> z * b" "0 < b"
  shows "x * c \<le> z * a"
proof -
  have "x * c * b = x * b * c" by simp
  also have "\<dots> \<le> y * a * c" using assms(1) by (rule mult_right_mono) simp
  also have "\<dots> = y * c * a" by simp
  also have "\<dots> \<le> z * b * a" using assms(2) by (rule mult_right_mono) simp
  finally have "x * c * b \<le> z * a * b" by (simp add: ac_simps)
  then show ?thesis using assms(3) by simp
qed

interpretation tc: comparison target_ok target_cmp
proof
  show "target_cmp a b \<le> 0 \<longleftrightarrow> 0 \<le> target_cmp b a" if "target_ok a" "target_ok b" for a b
    using that by (simp add: target_cmp_le target_cmp_ge)
  show "target_cmp a c \<le> 0"
    if "target_ok a" "target_ok b" "target_ok c" "target_cmp a b \<le> 0" "target_cmp b c \<le> 0" for a b c
    using that ratio_trans [of "ct_cur_load a" "ct_max_load b" "ct_cur_load b" "ct_max_load a" "ct_max_load c" "ct_cur_load c"]
    by (simp add: target_cmp_le) (simp add: target_ok_def)
qed

section \<open>The heap loops\<close>

text \<open>A key is a target without its index, which the loops change and the order ignores.\<close>

definition key_of :: "sched_target \<Rightarrow> sched_target" where
  "key_of r = r\<lparr>ct_index := 0\<rparr>"

definition keys :: "targets \<Rightarrow> nat list \<Rightarrow> sched_target list" where
  "keys T h = map (\<lambda>t. key_of (T t)) h"

definition same_keys :: "targets \<Rightarrow> targets \<Rightarrow> bool" where
  "same_keys T T' \<longleftrightarrow> (\<forall>x. key_of (T' x) = key_of (T x))"

lemma key_of_fields [simp]:
  "ct_max_load (key_of r) = ct_max_load r" "ct_cur_load (key_of r) = ct_cur_load r"
  "ct_group (key_of r) = ct_group r" "ct_wait_cnt (key_of r) = ct_wait_cnt r"
  by (simp_all add: key_of_def)

lemma target_cmp_key [simp]: "target_cmp (key_of a) (key_of b) = target_cmp a b"
  by (simp add: target_cmp_def)

lemma target_ok_key [simp]: "target_ok (key_of a) = target_ok a"
  by (simp add: target_ok_def)

lemma key_of_eqD:
  "key_of a = key_of b \<Longrightarrow> ct_max_load a = ct_max_load b \<and> ct_cur_load a = ct_cur_load b
     \<and> ct_group a = ct_group b \<and> ct_wait_cnt a = ct_wait_cnt b"
  by (metis key_of_fields)

lemma same_keys_refl [simp]: "same_keys T T"
  by (simp add: same_keys_def)

lemma same_keys_set_index [simp]: "same_keys T (set_index t i T)"
  by (simp add: same_keys_def set_index_def key_of_def)

lemma same_keys_trans: "same_keys T T' \<Longrightarrow> same_keys T' T'' \<Longrightarrow> same_keys T T''"
  by (simp add: same_keys_def)

lemma keys_same: "same_keys T T' \<Longrightarrow> keys T' h = keys T h"
  by (simp add: keys_def same_keys_def)

lemma same_keys_fields:
  "same_keys T T' \<Longrightarrow> ct_max_load (T' x) = ct_max_load (T x) \<and> ct_cur_load (T' x) = ct_cur_load (T x)
     \<and> ct_group (T' x) = ct_group (T x) \<and> ct_wait_cnt (T' x) = ct_wait_cnt (T x)"
  unfolding same_keys_def by (blast dest: key_of_eqD)

lemma same_keys_ok: "same_keys T T' \<Longrightarrow> target_ok (T' x) = target_ok (T x)"
  by (simp add: target_ok_def same_keys_fields [of T T' x])

lemma length_keys [simp]: "length (keys T h) = length h"
  by (simp add: keys_def)

lemma nth_keys [simp]: "i < length h \<Longrightarrow> keys T h ! i = key_of (T (h ! i))"
  by (simp add: keys_def)

lemma keys_update [simp]: "keys T (h[i := t]) = (keys T h)[i := key_of (T t)]"
  by (simp add: keys_def map_update)

definition index_except :: "targets \<Rightarrow> nat list \<Rightarrow> nat \<Rightarrow> bool" where
  "index_except T h i \<longleftrightarrow> (\<forall>j < length h. j \<noteq> i \<longrightarrow> ct_index (T (h ! j)) = j)"

definition indexed :: "targets \<Rightarrow> nat list \<Rightarrow> bool" where
  "indexed T h \<longleftrightarrow> distinct h \<and> (\<forall>j < length h. ct_index (T (h ! j)) = j)"

text \<open>
  What a loop leaves: the same targets in the heap, each at its index, only indices changed,
  and \<open>t\<close> in its final place.
\<close>

definition placed :: "nat \<Rightarrow> targets \<Rightarrow> nat list \<Rightarrow> targets \<Rightarrow> nat list \<Rightarrow> bool" where
  "placed t T h T' h' \<longleftrightarrow>
     mset h' = mset h \<and> indexed T' h' \<and> same_keys T T' \<and> (\<forall>x. x \<notin> set h \<longrightarrow> T' x = T x)
     \<and> ct_index (T' t) < length h' \<and> h' ! ct_index (T' t) = t"

lemma set_index_other: "x \<noteq> t \<Longrightarrow> set_index t i T x = T x"
  by (simp add: set_index_def)

lemma set_index_same [simp]: "ct_index (set_index t i T t) = i"
  by (simp add: set_index_def)

lemma place_hole:
  assumes "i < length h" "distinct (h[i := t])" "index_except T h i"
  shows "placed t T (h[i := t]) (set_index t i T) (h[i := t])"
proof -
  have "h ! j \<noteq> t" if "j < length h" "j \<noteq> i" for j
    using assms(1,2) that nth_eq_iff_index_eq [OF assms(2), of i j] by auto
  moreover have "t \<in> set (h[i := t])"
    using assms(1) by (rule set_update_memI)
  ultimately show ?thesis
    using assms by (auto simp: placed_def indexed_def index_except_def nth_list_update set_index_other)
      (auto simp: set_index_def)
qed

text \<open>The hole moves from \<open>i\<close> to \<open>k\<close>, whose target moves to \<open>i\<close>.\<close>

lemma move_hole:
  assumes "i < length h" "k < length h" "i \<noteq> k" "distinct (h[i := t])" "index_except T h i"
  shows "h[i := h ! k, k := t] = swap_at (h[i := t]) i k"
    "distinct (h[i := h ! k, k := t])"
    "mset (h[i := h ! k, k := t]) = mset (h[i := t])"
    "index_except (set_index (h ! k) i T) (h[i := h ! k]) k"
    "keys (set_index (h ! k) i T) (h[i := h ! k, k := t]) = swap_at (keys T (h[i := t])) i k"
proof -
  show s: "h[i := h ! k, k := t] = swap_at (h[i := t]) i k"
    using assms(1-3) by (simp add: swap_at_def)
  show m: "mset (h[i := h ! k, k := t]) = mset (h[i := t])"
    unfolding s using assms(1,2) by (intro mset_swap_at) simp_all
  show "distinct (h[i := h ! k, k := t])"
    using assms(4) m by (metis distinct_count_atmost_1 mset_eq_setD mset_eq_imp_distinct_iff)
  have "h ! j \<noteq> h ! k" if "j < length h" "j \<noteq> i" "j \<noteq> k" for j
    using assms(2-4) that nth_eq_iff_index_eq [OF assms(4), of j k] by auto
  then show "index_except (set_index (h ! k) i T) (h[i := h ! k]) k"
    using assms(1-3,5) by (auto simp: index_except_def nth_list_update set_index_other)
  show "keys (set_index (h ! k) i T) (h[i := h ! k, k := t]) = swap_at (keys T (h[i := t])) i k"
    unfolding s keys_same [OF same_keys_set_index] using assms(1,2)
    by (simp add: keys_def map_swap_at)
qed

lemma placed_trans:
  assumes "placed t (set_index u i T) h1 T' h'" "mset h1 = mset h" "u \<in> set h"
  shows "placed t T h T' h'"
proof -
  have "set h1 = set h" using assms(2) by (rule mset_eq_setD)
  then show ?thesis
    using assms same_keys_trans [OF same_keys_set_index [of T u i]]
    by (auto simp: placed_def) (metis set_index_other)
qed

lemma adjust_loop_correct:
  assumes "i < length h" "distinct (h[i := t])" "index_except T h i"
    "heap_except target_cmp False down (keys T (h[i := t])) i" "list_all target_ok (keys T (h[i := t]))"
    "sw \<le> 1" "adjust_loop sw t i T h = (T', h')" "0 \<le> sw"
  shows "placed t T (h[i := t]) T' h' \<and> heap_except target_cmp True down (keys T' h') (ct_index (T' t))"
  using assms
proof (induction sw t i T h arbitrary: down rule: adjust_loop.induct)
  case (1 sw t i T h)
  show ?case
  proof (cases "0 < i \<and> target_cmp (T t) (T (h ! parent_of i)) < sw")
    case True
    define k where "k = parent_of i"
    have k: "k < length h" "i \<noteq> k" "0 < i"
      using True "1.prems"(1) by (simp_all add: k_def)
    note mv = move_hole [OF "1.prems"(1) k(1,2) "1.prems"(2,3)]
    let ?T = "set_index (h ! k) i T"
    let ?h = "h[i := h ! k]"
    have c: "target_cmp (keys T (h[i := t]) ! i) (keys T (h[i := t]) ! parent_of i) \<le> 0"
      using True "1.prems"(1,6) k by (simp add: k_def nth_list_update)
    have he: "heap_except target_cmp False True (swap_at (keys T (h[i := t])) i k) k"
      using tc.sift_up_step [OF "1.prems"(4,5) k(3) _ c] "1.prems"(1) by (simp add: k_def)
    have ok: "list_all target_ok (swap_at (keys T (h[i := t])) i k)"
      using "1.prems"(1,5) k by simp
    have "adjust_loop sw t k ?T ?h = (T', h')"
      using "1.prems"(7) True by (simp add: k_def adjust_loop.simps [of sw t i T h])
    then have "placed t ?T (?h[k := t]) T' h' \<and> heap_except target_cmp True True (keys T' h') (ct_index (T' t))"
      using "1.IH" [OF True, of True] k mv(2,4) he ok mv(5) "1.prems"(6,8) by (simp add: k_def)
    moreover have "h ! k \<in> set (h[i := t])"
      using k "1.prems"(1) by (metis length_list_update nth_list_update_neq nth_mem)
    ultimately show ?thesis
      using placed_trans mv(3) heap_except_mono by metis
  next
    case False
    then have T': "T' = set_index t i T" "h' = h[i := t]"
      using "1.prems"(7) unfolding adjust_loop.simps [of sw t i T h] if_not_P [OF False] by simp_all
    have "\<not> target_cmp (keys T (h[i := t]) ! i) (keys T (h[i := t]) ! parent_of i) < 0" if "0 < i"
      using False that "1.prems"(1,8) by (simp add: nth_list_update)
    then have "heap_except target_cmp True down (keys T (h[i := t])) i"
      using tc.sift_up_stop [OF "1.prems"(4,5)] "1.prems"(1) by simp
    then show ?thesis
      using place_hole [OF "1.prems"(1-3)] unfolding T' keys_same [OF same_keys_set_index] by simp
  qed
qed

lemma heapify_loop_correct:
  assumes "i < length h" "distinct (h[i := t])" "index_except T h i"
    "heap_except target_cmp True False (keys T (h[i := t])) i" "list_all target_ok (keys T (h[i := t]))"
    "heapify_loop t i T h = (T', h')"
  shows "placed t T (h[i := t]) T' h' \<and> heap_ordered target_cmp (keys T' h')"
  using assms
proof (induction t i T h rule: heapify_loop.induct)
  case (1 t i T h)
  let ?xs = "keys T (h[i := t])"
  let ?c = "2 * i + 1"
  have xs: "?xs ! j = key_of (T (h ! j))" if "j < length h" "j \<noteq> i" for j
    using that by (simp add: nth_list_update)
  have xi: "?xs ! i = key_of (T t)"
    using "1.prems"(1) by simp
  have okT: "j < length h \<Longrightarrow> j \<noteq> i \<Longrightarrow> target_ok (T (h ! j))" "target_ok (T t)" for j
    using "1.prems"(1,5) xs xi by (metis length_keys length_list_update list_all_length target_ok_key)+
  have step: ?case
    if m: "heapify_loop t c (set_index (h ! c) i T) (h[i := h ! c]) = (T', h')"
      and IH: "c < length (h[i := h ! c]) \<Longrightarrow> distinct (h[i := h ! c, c := t]) \<Longrightarrow>
        index_except (set_index (h ! c) i T) (h[i := h ! c]) c \<Longrightarrow>
        heap_except target_cmp True False (keys (set_index (h ! c) i T) (h[i := h ! c, c := t])) c \<Longrightarrow>
        list_all target_ok (keys (set_index (h ! c) i T) (h[i := h ! c, c := t])) \<Longrightarrow>
        heapify_loop t c (set_index (h ! c) i T) (h[i := h ! c]) = (T', h') \<Longrightarrow>
        placed t (set_index (h ! c) i T) (h[i := h ! c, c := t]) T' h' \<and> heap_ordered target_cmp (keys T' h')"
      and c: "parent_of c = i" "0 < c" "c < length h"
      and le: "target_cmp (T (h ! c)) (T t) \<le> 0"
      and kids: "\<And>j. 0 < j \<Longrightarrow> j < length h \<Longrightarrow> parent_of j = i \<Longrightarrow> target_cmp (T (h ! c)) (T (h ! j)) \<le> 0"
    for c
  proof -
    have ci: "i \<noteq> c" "i < c" using c(1,2) by auto
    note mv = move_hole [OF "1.prems"(1) c(3) ci(1) "1.prems"(2,3)]
    have "heap_except target_cmp True False (swap_at ?xs i c) c"
    proof (rule tc.sift_down_step [OF "1.prems"(4,5) c(1,2)])
      show "c < length ?xs" using c by simp
      show "target_cmp (?xs ! c) (?xs ! i) \<le> 0" using le xs [of c] xi c ci by simp
      show "target_cmp (?xs ! c) (?xs ! j) \<le> 0" if "0 < j" "j < length ?xs" "parent_of j = i" for j
        using kids [of j] that xs [of c] xs [of j] c ci by auto
    qed
    moreover have "list_all target_ok (swap_at ?xs i c)"
      using "1.prems"(1,5) c by simp
    ultimately have "placed t (set_index (h ! c) i T) (h[i := h ! c, c := t]) T' h' \<and> heap_ordered target_cmp (keys T' h')"
      using IH mv(2,4,5) c m by simp
    moreover have "h ! c \<in> set (h[i := t])"
      using c ci by (metis length_list_update nth_list_update_neq nth_mem)
    ultimately show ?thesis
      using placed_trans mv(3) by metis
  qed
  have stop: ?case
    if m: "(T', h') = (set_index t i T, h[i := t])"
      and kids: "\<And>j. 0 < j \<Longrightarrow> j < length h \<Longrightarrow> parent_of j = i \<Longrightarrow> target_cmp (T t) (T (h ! j)) \<le> 0"
  proof -
    have "heap_ordered target_cmp ?xs"
    proof (rule tc.sift_down_stop [OF "1.prems"(4)])
      show "target_cmp (?xs ! i) (?xs ! j) \<le> 0" if "0 < j" "j < length ?xs" "parent_of j = i" for j
        using kids [of j] that xs [of j] xi by auto
    qed
    moreover have "keys (set_index t i T) (h[i := t]) = ?xs"
      by (rule keys_same [OF same_keys_set_index])
    ultimately show ?thesis
      using place_hole [OF "1.prems"(1-3)] m by (simp only: prod.inject)
  qed
  have nl: "\<not> target_cmp (T a) (T b) < 0 \<Longrightarrow> target_ok (T a) \<Longrightarrow> target_ok (T b) \<Longrightarrow> target_cmp (T b) (T a) \<le> 0" for a b
    using tc.not_less by blast
  show ?case
  proof (cases "int ?c < int (length h) - 1")
    case two: True
    have ok: "target_ok (T (h ! ?c))" "target_ok (T (h ! (?c + 1)))" "target_ok (T t)"
      using okT two by auto
    have kids: "j = ?c \<or> j = ?c + 1" if "0 < j" "parent_of j = i" for j
      using that parent_iff [of j i] by auto
    have m: "heapify_loop t i T h = (T', h')" by (rule "1.prems"(6))
    show ?thesis
    proof (cases "target_cmp (T (h ! ?c)) (T t) < 0")
      case l: True
      show ?thesis
      proof (cases "target_cmp (T (h ! (?c + 1))) (T (h ! ?c)) < 0")
        case r: True
        have "target_cmp (T (h ! (?c + 1))) (T t) \<le> 0"
          using tc.cmp_trans [OF ok(2,1,3)] l r by simp
        then show ?thesis
          using m l r two kids ok "1.IH"(1) [OF refl refl two l r] tc.cmp_total [OF ok(2,2)]
          by (intro step [of "?c + 1"]) (auto simp: heapify_loop.simps [of t i T h] Let_def parent_iff)
      next
        case r: False
        then show ?thesis
          using m l r two kids ok "1.IH"(2) [OF refl refl two l r] tc.cmp_total [OF ok(1,1)] nl [of "h ! (?c + 1)" "h ! ?c"]
          by (intro step [of ?c]) (auto simp: heapify_loop.simps [of t i T h] Let_def parent_iff)
      qed
    next
      case l: False
      show ?thesis
      proof (cases "target_cmp (T (h ! (?c + 1))) (T t) < 0")
        case r: True
        have "target_cmp (T (h ! (?c + 1))) (T (h ! ?c)) \<le> 0"
          using tc.cmp_trans [OF ok(2,3,1)] nl [of "h ! ?c" t] l r ok by simp
        then show ?thesis
          using m l r two kids ok "1.IH"(3) [OF refl refl two l r] tc.cmp_total [OF ok(2,2)]
          by (intro step [of "?c + 1"]) (auto simp: heapify_loop.simps [of t i T h] Let_def parent_iff)
      next
        case r: False
        have "(T', h') = (set_index t i T, h[i := t])"
          using m l r two by (simp add: heapify_loop.simps [of t i T h] Let_def)
        then show ?thesis
        proof (rule stop)
          show "target_cmp (T t) (T (h ! j)) \<le> 0" if "0 < j" "j < length h" "parent_of j = i" for j
            using kids [OF that(1,3)] l r ok nl [of "h ! ?c" t] nl [of "h ! (?c + 1)" t] by (elim disjE) simp_all
        qed
      qed
    qed
  next
    case one: False
    have m: "heapify_loop t i T h = (T', h')" by (rule "1.prems"(6))
    show ?thesis
    proof (cases "int ?c = int (length h) - 1 \<and> target_cmp (T (h ! ?c)) (T t) < 0")
      case True
      have c: "?c < length h" "i \<noteq> ?c" "parent_of ?c = i"
        using True parent_iff [of ?c i] by auto
      note mv = move_hole [OF "1.prems"(1) c(1,2) "1.prems"(2,3)]
      have r: "T' = set_index t ?c (set_index (h ! ?c) i T)" "h' = h[i := h ! ?c, ?c := t]"
        using m [unfolded heapify_loop.simps [of t i T h] Let_def if_not_P [OF one] if_P [OF True] prod.inject] by auto
      have ok: "target_ok (T (h ! ?c))" by (rule okT(1)) (use c in auto)
      have only: "j = ?c" if "0 < j" "j < length h" "parent_of j = i" for j
        using that True parent_iff [of j i] by auto
      have xc: "?xs ! ?c = key_of (T (h ! ?c))" using xs [of ?c] c by simp
      have he: "heap_except target_cmp True False (swap_at ?xs i ?c) ?c"
      proof (rule tc.sift_down_step [OF "1.prems"(4,5) c(3)])
        show "target_cmp (?xs ! ?c) (?xs ! i) \<le> 0" using True xc xi by simp
        show "target_cmp (?xs ! ?c) (?xs ! j) \<le> 0" if "0 < j" "j < length ?xs" "parent_of j = i" for j
          using only [of j] that xc tc.cmp_total [OF ok ok] by simp
      qed (use c in auto)
      have "heap_ordered target_cmp (swap_at ?xs i ?c)"
      proof (rule tc.sift_down_stop [OF he])
        show "target_cmp (swap_at ?xs i ?c ! ?c) (swap_at ?xs i ?c ! j) \<le> 0"
          if "0 < j" "j < length (swap_at ?xs i ?c)" "parent_of j = ?c" for j
          using that True parent_iff [of j ?c] by auto
      qed
      moreover have "keys T' h' = swap_at ?xs i ?c"
        unfolding r keys_same [OF same_keys_set_index [of _ t ?c]] by (rule mv(5))
      moreover have "placed t (set_index (h ! ?c) i T) (h[i := h ! ?c, ?c := t]) T' h'"
        unfolding r using place_hole [of ?c "h[i := h ! ?c]" t] c mv(2,4) by simp
      moreover have "h ! ?c \<in> set (h[i := t])"
        using c by (metis length_list_update nth_list_update_neq nth_mem)
      ultimately show ?thesis
        using placed_trans [OF _ mv(3)] by simp
    next
      case False
      have "(T', h') = (set_index t i T, h[i := t])"
        using m [unfolded heapify_loop.simps [of t i T h] Let_def if_not_P [OF one] if_not_P [OF False]] by simp
      then show ?thesis
      proof (rule stop)
        show "target_cmp (T t) (T (h ! j)) \<le> 0" if "0 < j" "j < length h" "parent_of j = i" for j
        proof -
          have "j = ?c" "int ?c = int (length h) - 1"
            using that one parent_iff [of j i] by auto
          then show ?thesis
            using False nl [of "h ! ?c" t] okT that by auto
        qed
      qed
    qed
  qed
qed

section \<open>The heap operations\<close>

definition heap_wf :: "targets \<Rightarrow> nat list \<Rightarrow> bool" where
  "heap_wf T h \<longleftrightarrow> indexed T h \<and> list_all target_ok (keys T h) \<and> heap_ordered target_cmp (keys T h)"

text \<open>The outcome of a heap operation on \<open>T\<close>: the targets \<open>M\<close> in order, only indices changed.\<close>

definition heap_result :: "targets \<Rightarrow> nat multiset \<Rightarrow> targets \<Rightarrow> nat list \<Rightarrow> bool" where
  "heap_result T M T' h' \<longleftrightarrow>
     heap_wf T' h' \<and> mset h' = M \<and> same_keys T T' \<and> (\<forall>x. x \<notin># M \<longrightarrow> T' x = T x)"

lemma heap_wf_nth:
  assumes "heap_wf T h" "t \<in> set h"
  shows "ct_index (T t) < length h" "h ! ct_index (T t) = t"
  using assms by (auto simp: heap_wf_def indexed_def in_set_conv_nth)

lemma heap_wf_ok: "heap_wf T h \<Longrightarrow> t \<in> set h \<Longrightarrow> target_ok (T t)"
  by (auto simp: heap_wf_def keys_def list_all_iff)

lemma indexed_except: "indexed T h \<Longrightarrow> index_except T h i"
  by (simp add: indexed_def index_except_def)

lemma keys_load_change:
  assumes "heap_wf T h" "t \<in> set h"
  shows "keys (T(t := r)) h = (keys T h)[ct_index (T t) := key_of r]"
proof -
  note n = heap_wf_nth [OF assms]
  have "h ! j \<noteq> t" if "j < length h" "j \<noteq> ct_index (T t)" for j
    using assms(1) that n nth_eq_iff_index_eq [of h j "ct_index (T t)"] by (auto simp: heap_wf_def indexed_def)
  then show ?thesis
    using n by (intro nth_equalityI) (auto simp: nth_list_update)
qed

lemma placed_result:
  assumes "placed t T h T' h'" "heap_ordered target_cmp (keys T' h')" "list_all target_ok (keys T h)"
  shows "heap_result T (mset h) T' h'"
proof -
  have "list_all target_ok (keys T' h')"
    using assms(1,3) mset_eq_setD [of h' h]
    by (auto simp: placed_def keys_def list_all_iff same_keys_ok)
  then show ?thesis
    using assms(1,2) by (auto simp: heap_result_def heap_wf_def placed_def)
qed

lemma load_changed:
  assumes "heap_wf T h" "t \<in> set h" "ct_index r = ct_index (T t)" "target_ok r"
  shows "indexed (T(t := r)) h" "list_all target_ok (keys (T(t := r)) h)" "h[ct_index (T t) := t] = h"
proof -
  note n = heap_wf_nth [OF assms(1,2)]
  show "indexed (T(t := r)) h"
    using assms(1,3) by (auto simp: heap_wf_def indexed_def)
  show "list_all target_ok (keys (T(t := r)) h)"
    using assms(1,4) by (auto simp: heap_wf_def keys_def list_all_iff)
  show "h[ct_index (T t) := t] = h"
    using n by (metis list_update_id)
qed

lemma heapify_correct:
  assumes "heap_wf T h" "t \<in> set h" "ct_index r = ct_index (T t)" "target_ok r" "target_cmp (T t) r \<le> 0"
  shows "\<exists>T' h'. heapify (ct_index (T t)) (T(t := r)) h = Ret (T', h') \<and> heap_result (T(t := r)) (mset h) T' h'"
proof -
  let ?i = "ct_index (T t)" and ?T = "T(t := r)"
  note n = heap_wf_nth [OF assms(1,2)]
  note l = load_changed [OF assms(1-4)]
  obtain T' h' where r: "heapify_loop t ?i ?T h = (T', h')"
    by (cases "heapify_loop t ?i ?T h")
  have "heap_except target_cmp True False (keys ?T h) ?i"
    unfolding keys_load_change [OF assms(1,2)]
    using assms n by (intro tc.heap_change(2)) (auto simp: heap_wf_def)
  then have "placed t ?T h T' h' \<and> heap_ordered target_cmp (keys T' h')"
    using heapify_loop_correct [OF n(1), of t ?T T' h'] l indexed_except [OF l(1)] r
    by (simp only: l(3)) (simp add: indexed_def)
  then show ?thesis
    using r n placed_result [OF _ _ l(2)] by (auto simp: heapify_def)
qed

lemma heap_adjust_correct:
  assumes "heap_wf T h" "t \<in> set h" "ct_index r = ct_index (T t)" "target_ok r" "target_cmp r (T t) \<le> 0"
  shows "\<exists>T' h'. heap_adjust (ct_index (T t)) sw (T(t := r)) h = Ret (T', h') \<and> heap_result (T(t := r)) (mset h) T' h'"
proof -
  let ?i = "ct_index (T t)" and ?T = "T(t := r)" and ?s = "if sw \<noteq> 0 then 1 else 0 :: int"
  note n = heap_wf_nth [OF assms(1,2)]
  note l = load_changed [OF assms(1-4)]
  obtain T' h' where r: "adjust_loop ?s t ?i ?T h = (T', h')"
    by (cases "adjust_loop ?s t ?i ?T h")
  have "heap_except target_cmp False True (keys ?T h) ?i"
    unfolding keys_load_change [OF assms(1,2)]
    using assms n by (intro tc.heap_change(3)) (auto simp: heap_wf_def)
  then have "placed t ?T h T' h' \<and> heap_except target_cmp True True (keys T' h') (ct_index (T' t))"
    using adjust_loop_correct [OF n(1), of t ?T True ?s T' h'] l indexed_except [OF l(1)] r
    by (simp only: l(3)) (simp add: indexed_def)
  then show ?thesis
    using r n placed_result [OF _ heap_except_all l(2)] by (auto simp: heap_adjust_def)
qed

lemma heap_insert_correct:
  assumes "heap_wf T h" "t \<notin> set h" "target_ok (T t)" "length h \<le> bufsz" "0 < bufsz" "bufsz < 2 ^ 30"
  shows "heap_insert al t bufsz T h = Ret None \<and> \<not> al
    \<or> (\<exists>sz T' h'. heap_insert al t bufsz T h = Ret (Some (sz, T', h'))
        \<and> heap_result T (add_mset t (mset h)) T' h' \<and> length h' \<le> sz \<and> sz \<le> 2 * bufsz \<and> bufsz \<le> sz)"
proof (cases "length h = bufsz \<and> \<not> al")
  case True
  then show ?thesis using assms(6) by (simp add: heap_insert_def)
next
  case False
  define sz where "sz = (if length h = bufsz then 2 * bufsz else bufsz)"
  have sz: "length h < sz" "sz \<le> 2 * bufsz" "bufsz \<le> sz"
    using assms(4,5) by (auto simp: sz_def)
  let ?T = "set_index t (length h) T" and ?h = "h @ [t]"
  obtain T' h' where r: "adjust_loop 0 t (length h) ?T ?h = (T', h')"
    by (cases "adjust_loop 0 t (length h) ?T ?h")
  have "h ! j \<noteq> t" if "j < length h" for j
    using that assms(2) nth_mem by metis
  then have d: "distinct ?h" "index_except ?T ?h (length h)"
    using assms(1,2) by (auto simp: heap_wf_def indexed_def index_except_def nth_append set_index_def)
  have k: "keys ?T ?h = keys T h @ [key_of (T t)]"
    unfolding keys_same [OF same_keys_set_index] by (simp add: keys_def)
  have ok: "list_all target_ok (keys ?T ?h)"
    using assms(1,3) unfolding k by (simp add: heap_wf_def)
  have "heap_except target_cmp False True (keys ?T ?h) (length h)"
    unfolding k using heap_append [of target_cmp "keys T h"] assms(1) by (simp add: heap_wf_def)
  then have "placed t ?T ?h T' h' \<and> heap_except target_cmp True True (keys T' h') (ct_index (T' t))"
    using adjust_loop_correct [of "length h" ?h t ?T True 0 T' h'] d ok r by simp
  then have p: "heap_result ?T (mset ?h) T' h'"
    using placed_result [OF _ heap_except_all ok] by blast
  have "x \<notin># mset ?h \<Longrightarrow> ?T x = T x" for x
    by (auto simp: set_index_def)
  then have "heap_result T (add_mset t (mset h)) T' h'"
    using p same_keys_trans [OF same_keys_set_index [of T t "length h"]] by (auto simp: heap_result_def)
  moreover have "length h' = Suc (length h)"
    using p by (metis (no_types, lifting) heap_result_def length_append_singleton size_mset)
  moreover have "heap_insert al t bufsz T h = Ret (Some (sz, T', h'))"
    using False sz assms(6) r unfolding heap_insert_def heap_adjust_def by (simp add: Let_def sz_def)
  ultimately show ?thesis
    using sz by auto
qed

lemma heap_wf_butlast:
  assumes "heap_wf T (h @ [t])"
  shows "heap_wf T h"
  using assms heap_butlast [of target_cmp "keys T h" "key_of (T t)"]
  by (auto simp: heap_wf_def indexed_def keys_def nth_append split: if_splits)

lemma heap_remove_correct:
  assumes "heap_wf T h" "t \<in> set h"
  shows "\<exists>T' h'. heap_remove (ct_index (T t)) T h = Ret (T', h') \<and> heap_result T (mset h - {#t#}) T' h'"
proof -
  let ?i = "ct_index (T t)"
  note n = heap_wf_nth [OF assms]
  obtain b u where h: "h = b @ [u]"
    using assms(2) by (cases h rule: rev_cases) auto
  note wb = heap_wf_butlast [OF assms(1) [unfolded h]]
  show ?thesis
  proof (cases "?i = length b")
    case True
    then have "u = t" using n h by simp
    then show ?thesis
      using wb True h by (simp add: heap_remove_def heap_result_def)
  next
    case False
    then have i: "?i < length b" using n h by simp
    let ?T = "set_index u ?i T" and ?b = "b[?i := u]"
    have bi: "b ! ?i = t" using n h i by (simp add: nth_append)
    have ub: "u \<notin> set b" using assms(1) h by (auto simp: heap_wf_def indexed_def)
    have d: "distinct ?b" using ub wb by (auto simp: heap_wf_def indexed_def intro: distinct_list_update)
    have ok: "list_all target_ok (keys T b)" "target_ok (T u)"
      using wb heap_wf_ok [OF assms(1), of u] h by (auto simp: heap_wf_def)
    have "b ! j \<noteq> u" if "j < length b" for j
      using that ub nth_mem by metis
    then have ix: "index_except ?T ?b ?i"
      using wb i by (auto simp: heap_wf_def indexed_def index_except_def set_index_def)
    have k: "keys ?T ?b = (keys T b)[?i := key_of (T u)]"
      unfolding keys_same [OF same_keys_set_index] by simp
    have okb: "list_all target_ok (keys ?T ?b)"
      unfolding k using ok set_update_subset_insert [of "keys T b" ?i "key_of (T u)"]
      by (auto simp: list_all_iff)
    have he: "heap_except target_cmp False False (keys ?T ?b) ?i"
      unfolding k using tc.heap_change(1) [of "keys T b" ?i "key_of (T u)"] wb i by (simp add: heap_wf_def)
    obtain T1 h1 where r1: "adjust_loop 0 u ?i ?T ?b = (T1, h1)"
      by (cases "adjust_loop 0 u ?i ?T ?b")
    have p1: "placed u ?T ?b T1 h1" and e1: "heap_except target_cmp True False (keys T1 h1) (ct_index (T1 u))"
      using adjust_loop_correct [of ?i ?b u ?T False 0 T1 h1] i d ix he okb r1 by simp_all
    let ?k = "ct_index (T1 u)"
    have kk: "?k < length h1" "h1[?k := u] = h1" "distinct h1" "index_except T1 h1 ?k"
      using p1 indexed_except [of T1 h1] by (auto simp: placed_def indexed_def) (metis list_update_id)
    have ok1: "list_all target_ok (keys T1 h1)"
      using okb p1 mset_eq_setD [of h1 ?b] by (auto simp: placed_def keys_def list_all_iff same_keys_ok)
    obtain T2 h2 where r2: "heapify_loop u ?k T1 h1 = (T2, h2)"
      by (cases "heapify_loop u ?k T1 h1")
    have p2: "placed u T1 h1 T2 h2" and e2: "heap_ordered target_cmp (keys T2 h2)"
      using heapify_loop_correct [OF kk(1), of u T1 T2 h2] kk e1 ok1 r2 by simp_all
    have "heap_result T1 (mset h1) T2 h2"
      by (rule placed_result [OF p2 e2 ok1])
    moreover have "mset h1 = mset h - {#t#}"
    proof -
      have "t \<in># mset b" using bi i by (metis nth_mem set_mset_mset)
      then have "add_mset u (mset b - {#t#}) = add_mset u (mset b) - {#t#}"
        by (metis add_mset_commute add_mset_remove_trivial insert_DiffM)
      then show ?thesis using p1 i bi h by (simp add: placed_def mset_update)
    qed
    moreover have "same_keys T T1"
      using p1 same_keys_trans [OF same_keys_set_index [of T u ?i]] by (simp add: placed_def)
    moreover have "T1 x = T x" if "x \<notin># mset h1" for x
    proof -
      have s: "set h1 = set ?b" using p1 by (auto simp: placed_def dest: mset_eq_setD)
      have "u \<in> set ?b" using i by (rule set_update_memI)
      then have "x \<noteq> u" using that s by auto
      then show ?thesis using p1 that s by (auto simp: placed_def set_index_def)
    qed
    ultimately have "heap_result T (mset h - {#t#}) T2 h2"
      by (auto simp: heap_result_def intro: same_keys_trans)
    moreover have "heap_remove ?i T h = Ret (T2, h2)"
      using False i h r1 r2 kk p1 unfolding heap_remove_def heap_adjust_def heapify_def
      by (simp add: Let_def placed_def)
    ultimately show ?thesis by blast
  qed
qed

end
