(* ===== verification/CommSchedSteps.thy ===== *)
theory CommSchedSteps
  imports CommSchedInv
begin

text \<open>
  The invariant of the scheduler, over its targets and groups, and its preservation by each
  region under the mutexes.
\<close>

section \<open>The invariant of the scheduler\<close>

text \<open>
  \<open>Ts\<close> and \<open>Gs\<close> are the initialised targets and groups. The loads of a group are the sums over
  its targets, its heap holds exactly the targets that belong to it.
\<close>

definition total_max :: "targets \<Rightarrow> nat list \<Rightarrow> nat" where
  "total_max T h = sum_list (map (\<lambda>t. ct_max_load (T t)) h)"

definition total_cur :: "targets \<Rightarrow> nat list \<Rightarrow> nat" where
  "total_cur T h = sum_list (map (\<lambda>t. ct_cur_load (T t)) h)"

definition group_inv :: "nat set \<Rightarrow> targets \<Rightarrow> nat \<Rightarrow> sched_group \<Rightarrow> bool" where
  "group_inv Ts T g G \<longleftrightarrow>
     heap_wf T (cg_heap G) \<and> set (cg_heap G) = {t \<in> Ts. ct_group (T t) = Some g}
     \<and> cg_max_load G = total_max T (cg_heap G) \<and> cg_cur_load G = total_cur T (cg_heap G)
     \<and> length (cg_heap G) \<le> cg_buf_size G \<and> 0 < cg_buf_size G \<and> cg_buf_size G < 2 ^ 31"

definition sched_inv :: "nat set \<Rightarrow> nat set \<Rightarrow> sched \<Rightarrow> bool" where
  "sched_inv Ts Gs s \<longleftrightarrow>
     (\<forall>t\<in>Ts. target_ok (sc_targets s t) \<and> (\<forall>g. ct_group (sc_targets s t) = Some g \<longrightarrow> g \<in> Gs))
     \<and> (\<forall>g\<in>Gs. group_inv Ts (sc_targets s) g (sc_groups s g))"

lemma sched_invD:
  assumes "sched_inv Ts Gs s"
  shows "t \<in> Ts \<Longrightarrow> target_ok (sc_targets s t)"
    "t \<in> Ts \<Longrightarrow> ct_group (sc_targets s t) = Some g \<Longrightarrow> g \<in> Gs"
    "g \<in> Gs \<Longrightarrow> group_inv Ts (sc_targets s) g (sc_groups s g)"
  using assms by (auto simp: sched_inv_def)

lemma group_invD:
  assumes "group_inv Ts T g G"
  shows "heap_wf T (cg_heap G)" "set (cg_heap G) = {t \<in> Ts. ct_group (T t) = Some g}"
    "cg_max_load G = total_max T (cg_heap G)" "cg_cur_load G = total_cur T (cg_heap G)"
    "length (cg_heap G) \<le> cg_buf_size G" "0 < cg_buf_size G" "cg_buf_size G < 2 ^ 31"
  using assms by (simp_all add: group_inv_def)

lemma sum_list_mset:
  fixes f :: "'a \<Rightarrow> nat"
  shows "mset h = mset h' \<Longrightarrow> sum_list (map f h) = sum_list (map f h')"
  by (metis mset_map sum_mset_sum_list)

lemma total_mset: "mset h = mset h' \<Longrightarrow> total_max T h = total_max T h' \<and> total_cur T h = total_cur T h'"
  unfolding total_max_def total_cur_def using sum_list_mset by blast

lemma total_same:
  assumes "\<And>t. t \<in> set h \<Longrightarrow> key_of (T' t) = key_of (T t)"
  shows "total_max T' h = total_max T h \<and> total_cur T' h = total_cur T h"
proof -
  have "map (\<lambda>t. ct_max_load (T' t)) h = map (\<lambda>t. ct_max_load (T t)) h"
    "map (\<lambda>t. ct_cur_load (T' t)) h = map (\<lambda>t. ct_cur_load (T t)) h"
    using key_of_eqD [OF assms] by (auto intro: map_cong)
  then show ?thesis by (simp only: total_max_def total_cur_def)
qed

lemma total_cur_le: "\<forall>t\<in>set h. target_ok (T t) \<Longrightarrow> total_cur T h \<le> total_max T h"
  by (induction h) (auto simp: total_cur_def total_max_def target_ok_def)

lemma total_max_bound: "\<forall>t\<in>set h. target_ok (T t) \<Longrightarrow> total_max T h \<le> length h * 2 ^ 32"
  by (induction h) (auto simp: total_max_def target_ok_def)

lemma total_change:
  assumes "t \<in> set h" "distinct h" "ct_max_load r = ct_max_load (T t)"
  shows "total_max (T(t := r)) h = total_max T h"
    "total_cur (T(t := r)) h + ct_cur_load (T t) = total_cur T h + ct_cur_load r"
proof -
  have "total_max (T(t := r)) h = total_max T h \<and>
    (t \<in> set h \<longrightarrow> total_cur (T(t := r)) h + ct_cur_load (T t) = total_cur T h + ct_cur_load r)
    \<and> (t \<notin> set h \<longrightarrow> total_cur (T(t := r)) h = total_cur T h)"
    using assms(2,3) by (induction h) (auto simp: total_max_def total_cur_def)
  then show "total_max (T(t := r)) h = total_max T h"
    "total_cur (T(t := r)) h + ct_cur_load (T t) = total_cur T h + ct_cur_load r"
    using assms(1) by auto
qed

lemma total_cur_member: "t \<in> set h \<Longrightarrow> ct_cur_load (T t) \<le> total_cur T h \<and> ct_max_load (T t) \<le> total_max T h"
  by (auto simp: total_cur_def total_max_def intro: member_le_sum_list)

lemma group_no_wrap:
  assumes "group_inv Ts T g G"
  shows "cg_max_load G < 2 ^ 63" "cg_cur_load G \<le> cg_max_load G"
proof -
  have ok: "\<forall>t\<in>set (cg_heap G). target_ok (T t)"
    using heap_wf_ok group_invD(1) [OF assms] by blast
  have "total_max T (cg_heap G) \<le> length (cg_heap G) * 2 ^ 32"
    by (rule total_max_bound [OF ok])
  also have "\<dots> < 2 ^ 31 * 2 ^ 32"
    using group_invD(5,7) [OF assms] by simp
  finally show "cg_max_load G < 2 ^ 63"
    using group_invD(3) [OF assms] by simp
  show "cg_cur_load G \<le> cg_max_load G"
    using total_cur_le [OF ok] group_invD(3,4) [OF assms] by simp
qed

text \<open>Targets outside a group may change without touching its invariant.\<close>

lemma group_inv_cong:
  assumes "group_inv Ts T g G" "\<And>x. ct_group (T' x) = Some g \<longleftrightarrow> ct_group (T x) = Some g"
    "\<And>x. x \<in> set (cg_heap G) \<Longrightarrow> T' x = T x"
  shows "group_inv Ts T' g G"
proof -
  have "keys T' (cg_heap G) = keys T (cg_heap G)"
    using assms(3) by (simp add: keys_def)
  moreover have "indexed T' (cg_heap G)"
    using group_invD(1) [OF assms(1)] assms(3) nth_mem by (auto simp: heap_wf_def indexed_def)
  ultimately show ?thesis
    using assms total_same [of "cg_heap G" T' T] by (simp add: group_inv_def heap_wf_def)
qed

text \<open>A heap operation over the targets of the group \<open>g\<close>.\<close>

lemma group_inv_result:
  assumes "heap_result T (mset h) T' h'" "set h = {t \<in> Ts. ct_group (T t) = Some g}"
    "cg_max_load G = total_max T h" "cg_cur_load G = total_cur T h"
    "length h \<le> cg_buf_size G" "0 < cg_buf_size G" "cg_buf_size G < 2 ^ 31" "cg_heap G = h'"
  shows "group_inv Ts T' g G"
proof -
  have m: "mset h' = mset h" and s: "same_keys T T'" and w: "heap_wf T' h'"
    using assms(1) by (auto simp: heap_result_def)
  have "set h' = set h" "length h' = length h"
    using m mset_eq_setD mset_eq_length by blast+
  moreover have "total_max T' h' = total_max T h \<and> total_cur T' h' = total_cur T h"
    using total_mset [OF m, of T'] total_same [of h T' T] s by (simp add: same_keys_def)
  ultimately show ?thesis
    using assms(2-8) w same_keys_fields [OF s] by (simp add: group_inv_def)
qed

lemma heap_result_other:
  assumes "heap_result T M T' h'" "g' \<noteq> g" "\<And>x. x \<in># M \<Longrightarrow> ct_group (T x) = Some g" "group_inv Ts T g' G"
  shows "group_inv Ts T' g' G"
proof (rule group_inv_cong [OF assms(4)])
  have s: "same_keys T T'" using assms(1) by (simp add: heap_result_def)
  show "ct_group (T' x) = Some g' \<longleftrightarrow> ct_group (T x) = Some g'" for x
    by (simp add: same_keys_fields [OF s])
  show "T' x = T x" if "x \<in> set (cg_heap G)" for x
  proof -
    have "x \<notin># M" using that assms(2,3) group_invD(2) [OF assms(4)] by auto
    then show ?thesis using assms(1) by (simp add: heap_result_def)
  qed
qed

section \<open>A change of load\<close>

lemma group_inv_changed:
  assumes "group_inv Ts T g G" "t \<in> Ts" "ct_group (T t) = Some g"
    and r: "ct_group r = ct_group (T t)" "ct_max_load r = ct_max_load (T t)"
    and res: "heap_result (T(t := r)) (mset (cg_heap G)) T' h'"
    and cur: "c + ct_cur_load (T t) = cg_cur_load G + ct_cur_load r"
  shows "group_inv Ts T' g (G\<lparr>cg_cur_load := c, cg_heap := h'\<rparr>)"
proof -
  note i = group_invD [OF assms(1)]
  have th: "t \<in> set (cg_heap G)" using i(2) assms(2,3) by blast
  have d: "distinct (cg_heap G)" using i(1) by (simp add: heap_wf_def indexed_def)
  note tot = total_change [of t "cg_heap G" r T, OF th d r(2)]
  show ?thesis
  proof (rule group_inv_result [OF res])
    show "set (cg_heap G) = {x \<in> Ts. ct_group ((T(t := r)) x) = Some g}"
      using i(2) assms(3) r(1) by auto
    show "cg_cur_load (G\<lparr>cg_cur_load := c, cg_heap := h'\<rparr>) = total_cur (T(t := r)) (cg_heap G)"
      using tot(2) cur i(4) by simp
  qed (use i tot(1) in simp_all)
qed

lemma sched_inv_changed:
  assumes "sched_inv Ts Gs s" "t \<in> Ts" "ct_group (sc_targets s t) = Some g"
    and r: "ct_group r = ct_group (sc_targets s t)" "ct_max_load r = ct_max_load (sc_targets s t)" "target_ok r"
    and res: "heap_result ((sc_targets s)(t := r)) (mset (cg_heap (sc_groups s g))) T' h'"
    and cur: "c + ct_cur_load (sc_targets s t) = cg_cur_load (sc_groups s g) + ct_cur_load r"
  shows "sched_inv Ts Gs \<lparr>sc_targets = T', sc_groups = (sc_groups s)(g := (sc_groups s g)\<lparr>cg_cur_load := c, cg_heap := h'\<rparr>)\<rparr>"
proof -
  let ?T = "(sc_targets s)(t := r)"
  have g: "g \<in> Gs" using sched_invD(2) [OF assms(1-3)] .
  note gi = sched_invD(3) [OF assms(1) g]
  have s: "same_keys ?T T'" using res by (simp add: heap_result_def)
  have mem: "ct_group (?T x) = Some g" if "x \<in># mset (cg_heap (sc_groups s g))" for x
    using that group_invD(2) [OF gi] r(1) by auto
  have other: "group_inv Ts T' g' (sc_groups s g')" if "g' \<in> Gs" "g' \<noteq> g" for g'
  proof (rule heap_result_other [OF res that(2) mem])
    note gi' = sched_invD(3) [OF assms(1) that(1)]
    have "t \<notin> set (cg_heap (sc_groups s g'))"
      using group_invD(2) [OF gi'] assms(3) that(2) by simp
    then show "group_inv Ts ?T g' (sc_groups s g')"
      using r(1) by (intro group_inv_cong [OF gi']) (simp_all, blast)
  qed
  have "target_ok (T' x) \<and> (\<forall>g. ct_group (T' x) = Some g \<longrightarrow> g \<in> Gs)" if "x \<in> Ts" for x
    using that assms(1) r(1,3) by (auto simp: same_keys_ok [OF s] same_keys_fields [OF s] sched_inv_def)
  then show ?thesis
    using other group_inv_changed [OF gi assms(2,3) r(1,2) res cur] by (simp add: sched_inv_def)
qed

lemma sched_inv_ungrouped:
  assumes "sched_inv Ts Gs s" "t \<in> Ts" "ct_group (sc_targets s t) = None" "ct_group r = None" "target_ok r"
  shows "sched_inv Ts Gs (s\<lparr>sc_targets := (sc_targets s)(t := r)\<rparr>)"
proof -
  have "group_inv Ts ((sc_targets s)(t := r)) g (sc_groups s g)" if "g \<in> Gs" for g
  proof -
    note gi = sched_invD(3) [OF assms(1) that]
    have "t \<notin> set (cg_heap (sc_groups s g))"
      using group_invD(2) [OF gi] assms(3) by simp
    then show ?thesis
      using assms(3,4) by (intro group_inv_cong [OF gi]) (simp_all, blast)
  qed
  then show ?thesis
    using assms by (auto simp: sched_inv_def)
qed

section \<open>The steps\<close>

lemma load_inc:
  assumes "target_ok r" "ct_cur_load r < ct_max_load r"
  shows "size_add (ct_cur_load r) 1 = ct_cur_load r + 1"
    "target_ok (r\<lparr>ct_cur_load := ct_cur_load r + 1\<rparr>)"
    "target_cmp r (r\<lparr>ct_cur_load := ct_cur_load r + 1\<rparr>) \<le> 0"
proof -
  show ok: "target_ok (r\<lparr>ct_cur_load := ct_cur_load r + 1\<rparr>)" and "size_add (ct_cur_load r) 1 = ct_cur_load r + 1"
    using assms by (auto simp: target_ok_def size_add_exact)
  show "target_cmp r (r\<lparr>ct_cur_load := ct_cur_load r + 1\<rparr>) \<le> 0"
    using target_cmp_le [OF assms(1) ok] by simp
qed

lemma load_dec:
  assumes "target_ok r" "0 < ct_cur_load r"
  shows "size_sub (ct_cur_load r) 1 = ct_cur_load r - 1"
    "target_ok (r\<lparr>ct_cur_load := ct_cur_load r - 1\<rparr>)"
    "target_cmp (r\<lparr>ct_cur_load := ct_cur_load r - 1\<rparr>) r \<le> 0"
proof -
  show ok: "target_ok (r\<lparr>ct_cur_load := ct_cur_load r - 1\<rparr>)"
    using assms by (auto simp: target_ok_def)
  have "ct_cur_load r < 2 ^ 64" using assms(1) by (simp add: target_ok_def)
  then show "size_sub (ct_cur_load r) 1 = ct_cur_load r - 1"
    using assms(2) by (intro size_sub_exact) simp_all
  show "target_cmp (r\<lparr>ct_cur_load := ct_cur_load r - 1\<rparr>) r \<le> 0"
    using target_cmp_le [OF ok assms(1)] by (simp add: diff_mult_distrib)
qed

text \<open>The loads of all targets, as numbers, and the loads of the groups after a step.\<close>

definition loads :: "sched \<Rightarrow> nat \<Rightarrow> nat" where
  "loads s t = ct_cur_load (sc_targets s t)"

text \<open>A step that only changes the load of \<open>t\<close>, from its old value to \<open>n\<close>.\<close>

definition load_step :: "nat \<Rightarrow> nat \<Rightarrow> sched \<Rightarrow> sched \<Rightarrow> bool" where
  "load_step t n s s' \<longleftrightarrow>
     loads s' = (loads s)(t := n)
     \<and> (\<forall>x. ct_max_load (sc_targets s' x) = ct_max_load (sc_targets s x)
          \<and> ct_group (sc_targets s' x) = ct_group (sc_targets s x)
          \<and> ct_wait_cnt (sc_targets s' x) = ct_wait_cnt (sc_targets s x))
     \<and> (\<forall>g. cg_max_load (sc_groups s' g) = cg_max_load (sc_groups s g)
          \<and> cg_wait_cnt (sc_groups s' g) = cg_wait_cnt (sc_groups s g))"

lemma load_step_result:
  assumes "heap_result ((sc_targets s)(t := r)) M T' h'" "r = (sc_targets s t)\<lparr>ct_cur_load := n\<rparr>"
  shows "load_step t n s \<lparr>sc_targets = T', sc_groups = (sc_groups s)(g := (sc_groups s g)\<lparr>cg_cur_load := c, cg_heap := h'\<rparr>)\<rparr>"
proof -
  have "same_keys ((sc_targets s)(t := r)) T'"
    using assms(1) by (simp add: heap_result_def)
  from same_keys_fields [OF this] show ?thesis
    using assms(2) by (auto simp: load_step_def loads_def fun_eq_iff)
qed

lemma target_take_inv:
  assumes "sched_inv Ts Gs s" "t \<in> Ts" "loads s t < ct_max_load (sc_targets s t)"
  shows "\<exists>s'. target_take t ret s = Ret (Acquired t, s') \<and> sched_inv Ts Gs s' \<and> load_step t (loads s t + 1) s s'"
proof -
  let ?r = "sc_targets s t"
  let ?r' = "?r\<lparr>ct_cur_load := ct_cur_load ?r + 1\<rparr>"
  have ok: "target_ok ?r" by (rule sched_invD(1) [OF assms(1,2)])
  have less: "ct_cur_load ?r < ct_max_load ?r" using assms(3) by (simp add: loads_def)
  note inc = load_inc [OF ok less]
  show ?thesis
  proof (cases "ct_group ?r")
    case None
    have "sched_inv Ts Gs (s\<lparr>sc_targets := (sc_targets s)(t := ?r')\<rparr>)"
      using sched_inv_ungrouped [OF assms(1,2) None _ inc(2)] None by simp
    then show ?thesis
      using None less inc(1) by (simp add: target_take_def upd_target_def Let_def load_step_def loads_def fun_eq_iff)
  next
    case (Some g)
    have g: "g \<in> Gs" by (rule sched_invD(2) [OF assms(1,2) Some])
    note gi = sched_invD(3) [OF assms(1) g]
    note gd = group_invD [OF gi]
    have th: "t \<in> set (cg_heap (sc_groups s g))" using gd(2) assms(2) Some by simp
    obtain T' h' where h: "heapify (ct_index ?r) ((sc_targets s)(t := ?r')) (cg_heap (sc_groups s g)) = Ret (T', h')"
      and res: "heap_result ((sc_targets s)(t := ?r')) (mset (cg_heap (sc_groups s g))) T' h'"
      using heapify_correct [OF gd(1) th, of ?r'] inc by auto
    let ?c = "cg_cur_load (sc_groups s g) + 1"
    have c: "size_add (cg_cur_load (sc_groups s g)) 1 = ?c"
      using group_no_wrap [OF gi] by (simp add: size_add_exact)
    have "sched_inv Ts Gs \<lparr>sc_targets = T', sc_groups = (sc_groups s)(g := (sc_groups s g)\<lparr>cg_cur_load := ?c, cg_heap := h'\<rparr>)\<rparr>"
      using sched_inv_changed [OF assms(1,2) Some _ _ inc(2) res, of ?c] by simp
    moreover have "target_take t ret s = Ret (Acquired t,
        \<lparr>sc_targets = T', sc_groups = (sc_groups s)(g := (sc_groups s g)\<lparr>cg_cur_load := ?c, cg_heap := h'\<rparr>)\<rparr>)"
      using Some less h inc(1) c by (simp add: target_take_def upd_target_def Let_def)
    ultimately show ?thesis
      using load_step_result [OF res refl, of g ?c] by (simp add: loads_def)
  qed
qed

lemma target_take_full:
  "ct_max_load (sc_targets s t) \<le> loads s t \<Longrightarrow> target_take t ret s = Ret (NotAcquired ret, s)"
  by (simp add: target_take_def loads_def)

lemma heap_wf_cong:
  assumes "\<And>x. ct_max_load (T' x) = ct_max_load (T x) \<and> ct_cur_load (T' x) = ct_cur_load (T x) \<and> ct_index (T' x) = ct_index (T x)"
  shows "heap_wf T' h = heap_wf T h" "total_max T' h = total_max T h" "total_cur T' h = total_cur T h"
    "target_ok (T' y) = target_ok (T y)"
proof -
  have okk: "target_ok (T' x) = target_ok (T x)" for x
    using assms [of x] by (simp add: target_ok_def)
  have cmp: "target_cmp (T' x) (T' y) = target_cmp (T x) (T y)" for x y
    using assms [of x] assms [of y] by (simp add: target_cmp_def)
  show "heap_wf T' h = heap_wf T h"
    using assms okk cmp by (simp add: heap_wf_def indexed_def list_all_length heap_ordered_def)
  show "total_max T' h = total_max T h" "total_cur T' h = total_cur T h"
    using assms by (simp_all add: total_max_def total_cur_def)
  show "target_ok (T' y) = target_ok (T y)" by (rule okk)
qed

lemma sched_inv_wait:
  "sched_inv Ts Gs s \<Longrightarrow> sched_inv Ts Gs (target_wait n t s)"
  "sched_inv Ts Gs s \<Longrightarrow> sched_inv Ts Gs (group_wait n g s)"
proof -
  assume inv: "sched_inv Ts Gs s"
  let ?s = "target_wait n t s"
  have k: "ct_max_load (sc_targets ?s x) = ct_max_load (sc_targets s x) \<and> ct_cur_load (sc_targets ?s x) = ct_cur_load (sc_targets s x)
      \<and> ct_group (sc_targets ?s x) = ct_group (sc_targets s x) \<and> ct_index (sc_targets ?s x) = ct_index (sc_targets s x)" for x
    by (simp add: target_wait_def upd_target_def)
  have c: "heap_wf (sc_targets ?s) h = heap_wf (sc_targets s) h" "total_max (sc_targets ?s) h = total_max (sc_targets s) h"
    "total_cur (sc_targets ?s) h = total_cur (sc_targets s) h" "target_ok (sc_targets ?s x) = target_ok (sc_targets s x)" for h x
    using heap_wf_cong [of "sc_targets ?s" "sc_targets s"] k by blast+
  moreover have "sc_groups ?s = sc_groups s" by (simp add: target_wait_def)
  ultimately show "sched_inv Ts Gs ?s"
    using inv k by (simp add: sched_inv_def group_inv_def)
next
  assume inv: "sched_inv Ts Gs s"
  then show "sched_inv Ts Gs (group_wait n g s)"
    by (simp add: sched_inv_def group_inv_def group_wait_def upd_group_def)
qed

text \<open>The root of the heap of a group that is not full.\<close>

lemma group_root:
  assumes "sched_inv Ts Gs s" "g \<in> Gs" "cg_cur_load (sc_groups s g) < cg_max_load (sc_groups s g)"
  shows "\<exists>t. cg_heap (sc_groups s g) \<noteq> [] \<and> cg_heap (sc_groups s g) ! 0 = t \<and> t \<in> Ts
    \<and> ct_group (sc_targets s t) = Some g \<and> ct_index (sc_targets s t) = 0
    \<and> loads s t < ct_max_load (sc_targets s t)
    \<and> (\<forall>x\<in>Ts. ct_group (sc_targets s x) = Some g \<longrightarrow>
         loads s t * ct_max_load (sc_targets s x) \<le> loads s x * ct_max_load (sc_targets s t))"
proof -
  let ?G = "sc_groups s g" and ?T = "sc_targets s"
  note gd = group_invD [OF sched_invD(3) [OF assms(1,2)]]
  have ne: "cg_heap ?G \<noteq> []"
    using assms(3) gd(3,4) by (auto simp: total_max_def total_cur_def)
  define t where "t = cg_heap ?G ! 0"
  have t: "t \<in> set (cg_heap ?G)" using ne by (simp add: t_def)
  have ok: "x \<in> set (cg_heap ?G) \<Longrightarrow> target_ok (?T x)" for x
    using heap_wf_ok [OF gd(1)] by blast
  have least: "loads s t * ct_max_load (?T x) \<le> loads s x * ct_max_load (?T t)" if x: "x \<in> set (cg_heap ?G)" for x
  proof -
    obtain j where j: "j < length (cg_heap ?G)" "cg_heap ?G ! j = x"
      using x by (auto simp: in_set_conv_nth)
    have "target_cmp (keys ?T (cg_heap ?G) ! 0) (keys ?T (cg_heap ?G) ! j) \<le> 0"
      using gd(1) j by (intro tc.heap_root_least) (auto simp: heap_wf_def)
    then have "target_cmp (?T t) (?T x) \<le> 0"
      using j ne by (simp add: t_def)
    then show ?thesis
      using target_cmp_le [OF ok [OF t] ok [OF x]] by (simp add: loads_def)
  qed
  have "\<exists>x\<in>set (cg_heap ?G). ct_cur_load (?T x) < ct_max_load (?T x)"
  proof (rule ccontr)
    assume "\<not> ?thesis"
    then have "total_max ?T (cg_heap ?G) \<le> total_cur ?T (cg_heap ?G)"
      unfolding total_max_def total_cur_def by (intro sum_list_mono) auto
    then show False using assms(3) gd(3,4) by simp
  qed
  then obtain x where x: "x \<in> set (cg_heap ?G)" "loads s x < ct_max_load (?T x)"
    by (auto simp: loads_def)
  have "loads s t < ct_max_load (?T t)"
  proof (rule ccontr)
    assume "\<not> ?thesis"
    then have "ct_max_load (?T t) * ct_max_load (?T x) \<le> loads s t * ct_max_load (?T x)" by simp
    also have "\<dots> \<le> loads s x * ct_max_load (?T t)" by (rule least [OF x(1)])
    finally have "ct_max_load (?T t) * ct_max_load (?T x) \<le> ct_max_load (?T t) * loads s x"
      by (simp only: mult.commute)
    then show False using x(2) ok [OF t] by (simp add: target_ok_def)
  qed
  moreover have "ct_index (?T t) = 0"
    using gd(1) ne by (simp add: t_def heap_wf_def indexed_def)
  ultimately show ?thesis
    using ne t least gd(2) by (intro exI [of _ t]) (auto simp: t_def)
qed

text \<open>With the root in hand a group takes a connection as the target itself would.\<close>

lemma group_take_target:
  assumes "sched_inv Ts Gs s" "g \<in> Gs" "cg_cur_load (sc_groups s g) < cg_max_load (sc_groups s g)"
  shows "group_take g ret s = target_take (cg_heap (sc_groups s g) ! 0) None s"
proof -
  obtain t where "cg_heap (sc_groups s g) \<noteq> []" "cg_heap (sc_groups s g) ! 0 = t"
    "ct_group (sc_targets s t) = Some g" "ct_index (sc_targets s t) = 0"
    "loads s t < ct_max_load (sc_targets s t)"
    using group_root [OF assms] by blast
  then show ?thesis
    using assms(3) by (simp add: group_take_def target_take_def Let_def loads_def)
qed

lemma group_take_inv:
  assumes "sched_inv Ts Gs s" "g \<in> Gs" "cg_cur_load (sc_groups s g) < cg_max_load (sc_groups s g)"
  shows "\<exists>t s'. group_take g ret s = Ret (Acquired t, s') \<and> sched_inv Ts Gs s' \<and> t \<in> Ts
    \<and> ct_group (sc_targets s t) = Some g \<and> loads s t < ct_max_load (sc_targets s t)
    \<and> (\<forall>x\<in>Ts. ct_group (sc_targets s x) = Some g \<longrightarrow>
         loads s t * ct_max_load (sc_targets s x) \<le> loads s x * ct_max_load (sc_targets s t))
    \<and> load_step t (loads s t + 1) s s'"
proof -
  obtain t where t: "cg_heap (sc_groups s g) ! 0 = t" "t \<in> Ts" "ct_group (sc_targets s t) = Some g"
    "loads s t < ct_max_load (sc_targets s t)" "\<forall>x\<in>Ts. ct_group (sc_targets s x) = Some g \<longrightarrow>
         loads s t * ct_max_load (sc_targets s x) \<le> loads s x * ct_max_load (sc_targets s t)"
    using group_root [OF assms] by blast
  obtain s' where "target_take t None s = Ret (Acquired t, s')" "sched_inv Ts Gs s'" "load_step t (loads s t + 1) s s'"
    using target_take_inv [OF assms(1) t(2,4)] by blast
  then show ?thesis
    using group_take_target [OF assms] t by auto
qed

lemma group_take_full:
  "cg_max_load (sc_groups s g) \<le> cg_cur_load (sc_groups s g) \<Longrightarrow> group_take g ret s = Ret (NotAcquired ret, s)"
  by (simp add: group_take_def)

lemma target_release_inv:
  assumes "sched_inv Ts Gs s" "t \<in> Ts" "0 < loads s t"
  shows "\<exists>s'. target_release t ka s = Ret
      ((if 0 < ct_wait_cnt (sc_targets s t) then [SigTarget t]
        else case ct_group (sc_targets s t) of None \<Rightarrow> []
             | Some g \<Rightarrow> if 0 < cg_wait_cnt (sc_groups s g) then [SigGroup g] else []), s')
    \<and> sched_inv Ts Gs s' \<and> load_step t (loads s t - 1) s s'"
proof -
  let ?r = "sc_targets s t"
  let ?r' = "?r\<lparr>ct_cur_load := ct_cur_load ?r - 1\<rparr>"
  have ok: "target_ok ?r" by (rule sched_invD(1) [OF assms(1,2)])
  have pos: "0 < ct_cur_load ?r" using assms(3) by (simp add: loads_def)
  note dec = load_dec [OF ok pos]
  show ?thesis
  proof (cases "ct_group ?r")
    case None
    have "sched_inv Ts Gs (s\<lparr>sc_targets := (sc_targets s)(t := ?r')\<rparr>)"
      using sched_inv_ungrouped [OF assms(1,2) None _ dec(2)] None by simp
    then show ?thesis
      using None dec(1) by (simp add: target_release_def upd_target_def Let_def load_step_def loads_def fun_eq_iff)
  next
    case (Some g)
    have g: "g \<in> Gs" by (rule sched_invD(2) [OF assms(1,2) Some])
    note gi = sched_invD(3) [OF assms(1) g]
    note gd = group_invD [OF gi]
    have th: "t \<in> set (cg_heap (sc_groups s g))" using gd(2) assms(2) Some by simp
    obtain T' h' where h: "heap_adjust (ct_index ?r) ka ((sc_targets s)(t := ?r')) (cg_heap (sc_groups s g)) = Ret (T', h')"
      and res: "heap_result ((sc_targets s)(t := ?r')) (mset (cg_heap (sc_groups s g))) T' h'"
      using heap_adjust_correct [OF gd(1) th, of ?r' ka] dec by auto
    let ?c = "cg_cur_load (sc_groups s g) - 1"
    have cpos: "0 < cg_cur_load (sc_groups s g)"
      using total_cur_member [OF th, of "sc_targets s"] pos gd(4) by simp
    then have c: "size_sub (cg_cur_load (sc_groups s g)) 1 = ?c"
      using group_no_wrap [OF gi] by (intro size_sub_exact) simp_all
    have "sched_inv Ts Gs \<lparr>sc_targets = T', sc_groups = (sc_groups s)(g := (sc_groups s g)\<lparr>cg_cur_load := ?c, cg_heap := h'\<rparr>)\<rparr>"
      using sched_inv_changed [OF assms(1,2) Some _ _ dec(2) res, of ?c] cpos pos by simp
    moreover have "load_step t (loads s t - 1) s
        \<lparr>sc_targets = T', sc_groups = (sc_groups s)(g := (sc_groups s g)\<lparr>cg_cur_load := ?c, cg_heap := h'\<rparr>)\<rparr>"
      using load_step_result [OF res refl, of g ?c] by (simp add: loads_def)
    ultimately show ?thesis
      using Some h dec(1) c by (simp add: target_release_def upd_target_def Let_def)
  qed
qed

section \<open>Joining and leaving a group\<close>

lemma set_group_cong:
  "heap_wf (T(t := (T t)\<lparr>ct_group := x\<rparr>)) h = heap_wf T h"
  "total_max (T(t := (T t)\<lparr>ct_group := x\<rparr>)) h = total_max T h"
  "total_cur (T(t := (T t)\<lparr>ct_group := x\<rparr>)) h = total_cur T h"
  "target_ok ((T(t := (T t)\<lparr>ct_group := x\<rparr>)) y) = target_ok (T y)"
  by (rule heap_wf_cong; simp)+

text \<open>The other groups after a heap operation on group \<open>g\<close> and a change of the group of \<open>t\<close>.\<close>

lemma group_inv_other:
  assumes "sched_inv Ts Gs s" "g' \<in> Gs" "g' \<noteq> g" "heap_result (sc_targets s) M T' h'"
    "\<And>x. x \<in># M \<Longrightarrow> x = t \<or> ct_group (sc_targets s x) = Some g"
    "ct_group (sc_targets s t) \<noteq> Some g'" "y \<noteq> Some g'"
  shows "group_inv Ts (T'(t := (T' t)\<lparr>ct_group := y\<rparr>)) g' (sc_groups s g')"
proof (rule group_inv_cong [OF sched_invD(3) [OF assms(1,2)]])
  have s: "same_keys (sc_targets s) T'" using assms(4) by (simp add: heap_result_def)
  show "ct_group ((T'(t := (T' t)\<lparr>ct_group := y\<rparr>)) x) = Some g' \<longleftrightarrow> ct_group (sc_targets s x) = Some g'" for x
    using assms(6,7) same_keys_fields [OF s, of x] by simp
  show "(T'(t := (T' t)\<lparr>ct_group := y\<rparr>)) x = sc_targets s x" if "x \<in> set (cg_heap (sc_groups s g'))" for x
  proof -
    have "ct_group (sc_targets s x) = Some g'"
      using group_invD(2) [OF sched_invD(3) [OF assms(1,2)]] that by simp
    then have "x \<noteq> t" "x \<notin># M" using assms(3,6) assms(5) [of x] by auto
    then show ?thesis using assms(4) by (simp add: heap_result_def)
  qed
qed

lemma sched_inv_upd_group:
  assumes "sched_inv Ts Gs s" "g \<in> Gs" "t \<in> Ts" "same_keys (sc_targets s) T'" "y = None \<or> y = Some g"
    "\<And>g'. g' \<in> Gs \<Longrightarrow> g' \<noteq> g \<Longrightarrow> group_inv Ts (T'(t := (T' t)\<lparr>ct_group := y\<rparr>)) g' (sc_groups s g')"
    "group_inv Ts (T'(t := (T' t)\<lparr>ct_group := y\<rparr>)) g G'"
  shows "sched_inv Ts Gs \<lparr>sc_targets = T'(t := (T' t)\<lparr>ct_group := y\<rparr>), sc_groups = (sc_groups s)(g := G')\<rparr>"
proof -
  have "target_ok ((T'(t := (T' t)\<lparr>ct_group := y\<rparr>)) x)" if "x \<in> Ts" for x
    unfolding set_group_cong(4) same_keys_ok [OF assms(4)] by (rule sched_invD(1) [OF assms(1) that])
  moreover have "g' \<in> Gs" if "x \<in> Ts" "ct_group ((T'(t := (T' t)\<lparr>ct_group := y\<rparr>)) x) = Some g'" for x g'
    using that assms(2,5) sched_invD(2) [OF assms(1)] same_keys_fields [OF assms(4), of x]
    by (auto split: if_splits)
  ultimately show ?thesis
    using assms(6,7) by (simp add: sched_inv_def)
qed

lemma group_add_inv:
  assumes "sched_inv Ts Gs s" "g \<in> Gs" "t \<in> Ts" "cg_buf_size (sc_groups s g) < 2 ^ 30"
  shows "\<exists>e sig s'. group_add al g t s = Ret (e, sig, s') \<and> sched_inv Ts Gs s' \<and> loads s' = loads s
    \<and> (case e of
         None \<Rightarrow> ct_group (sc_targets s t) = None \<and> ct_wait_cnt (sc_targets s t) = 0
           \<and> ct_group (sc_targets s' t) = Some g
           \<and> (sig \<noteq> [] \<longleftrightarrow> 0 < cg_wait_cnt (sc_groups s g) \<and> cg_cur_load (sc_groups s' g) < cg_max_load (sc_groups s' g))
       | Some err \<Rightarrow> s' = s \<and> sig = []
           \<and> err = (if ct_group (sc_targets s t) = Some g then SE_EXIST
                    else if ct_group (sc_targets s t) \<noteq> None then SE_INVAL
                    else if 0 < ct_wait_cnt (sc_targets s t) then SE_BUSY else SE_NOMEM))"
proof (cases "ct_group (sc_targets s t) = None \<and> ct_wait_cnt (sc_targets s t) = 0")
  case False
  then show ?thesis
    using assms(1) by (auto simp: group_add_def Let_def split: option.split)
next
  case True
  let ?T = "sc_targets s" and ?G = "sc_groups s g"
  note gi = sched_invD(3) [OF assms(1,2)]
  note gd = group_invD [OF gi]
  have nt: "t \<notin> set (cg_heap ?G)" using gd(2) True by simp
  have ok: "target_ok (?T t)" by (rule sched_invD(1) [OF assms(1,3)])
  consider "heap_insert al t (cg_buf_size ?G) ?T (cg_heap ?G) = Ret None"
    | sz T' h' where "heap_insert al t (cg_buf_size ?G) ?T (cg_heap ?G) = Ret (Some (sz, T', h'))"
      "heap_result ?T (add_mset t (mset (cg_heap ?G))) T' h'" "length h' \<le> sz" "sz \<le> 2 * cg_buf_size ?G" "cg_buf_size ?G \<le> sz"
    using heap_insert_correct [OF gd(1) nt ok gd(5,6) assms(4), of al] by blast
  then show ?thesis
  proof cases
    case 1
    then show ?thesis using True assms(1) by (simp add: group_add_def Let_def)
  next
    case ins: 2
    let ?T' = "T'(t := (T' t)\<lparr>ct_group := Some g\<rparr>)"
    define G' where "G' = ?G\<lparr>cg_heap := h', cg_buf_size := sz,
      cg_max_load := size_add (cg_max_load ?G) (ct_max_load (?T t)),
      cg_cur_load := size_add (cg_cur_load ?G) (ct_cur_load (?T t))\<rparr>"
    have s: "same_keys ?T T'" and w: "heap_wf T' h'" and m: "mset h' = add_mset t (mset (cg_heap ?G))"
      using ins(2) by (auto simp: heap_result_def)
    have tot: "total_max ?T' h' = cg_max_load ?G + ct_max_load (?T t)" "total_cur ?T' h' = cg_cur_load ?G + ct_cur_load (?T t)"
    proof -
      have "mset h' = mset (t # cg_heap ?G)" using m by simp
      from total_mset [OF this, of T'] total_same [of "t # cg_heap ?G" T' ?T] s
      have "total_max T' h' = total_max ?T (t # cg_heap ?G) \<and> total_cur T' h' = total_cur ?T (t # cg_heap ?G)"
        by (simp add: same_keys_def)
      then show "total_max ?T' h' = cg_max_load ?G + ct_max_load (?T t)" "total_cur ?T' h' = cg_cur_load ?G + ct_cur_load (?T t)"
        using gd(3,4) unfolding set_group_cong by (simp_all add: total_max_def total_cur_def)
    qed
    have bounds: "size_add (cg_max_load ?G) (ct_max_load (?T t)) = cg_max_load ?G + ct_max_load (?T t)"
      "size_add (cg_cur_load ?G) (ct_cur_load (?T t)) = cg_cur_load ?G + ct_cur_load (?T t)"
      using group_no_wrap [OF gi] ok by (simp_all add: size_add_exact target_ok_def)
    have "set h' = insert t (set (cg_heap ?G))" using m by (metis set_mset_add_mset_insert set_mset_mset)
    then have set: "set h' = {x \<in> Ts. ct_group (?T' x) = Some g}"
      using gd(2) assms(3) True same_keys_fields [OF s] by auto
    have "group_inv Ts ?T' g G'"
      using w set tot bounds ins(3-5) gd(6) assms(4) by (simp add: group_inv_def G'_def set_group_cong)
    moreover have "group_inv Ts ?T' g' (sc_groups s g')" if "g' \<in> Gs" "g' \<noteq> g" for g'
      using gd(2) True that by (intro group_inv_other [OF assms(1) that ins(2)]) auto
    ultimately have "sched_inv Ts Gs \<lparr>sc_targets = ?T', sc_groups = (sc_groups s)(g := G')\<rparr>"
      by (intro sched_inv_upd_group [OF assms(1-3) s]) auto
    moreover have "loads \<lparr>sc_targets = ?T', sc_groups = (sc_groups s)(g := G')\<rparr> = loads s"
      using same_keys_fields [OF s] by (auto simp: loads_def fun_eq_iff)
    ultimately show ?thesis
      using True ins(1) by (simp add: group_add_def Let_def upd_target_def G'_def)
  qed
qed



lemma total_remove:
  assumes "t \<in> set h" "mset h' = mset h - {#t#}"
  shows "total_max T h' + ct_max_load (T t) = total_max T h" "total_cur T h' + ct_cur_load (T t) = total_cur T h"
proof -
  have "mset h = mset (t # h')" using assms by simp
  from total_mset [OF this, of T]
  show "total_max T h' + ct_max_load (T t) = total_max T h" "total_cur T h' + ct_cur_load (T t) = total_cur T h"
    by (simp_all add: total_max_def total_cur_def)
qed

lemma group_remove_inv:
  assumes "sched_inv Ts Gs s" "g \<in> Gs" "t \<in> Ts"
  shows "\<exists>e s'. group_remove g t s = Ret (e, [], s') \<and> sched_inv Ts Gs s' \<and> loads s' = loads s
    \<and> (case e of
         None \<Rightarrow> ct_group (sc_targets s t) = Some g \<and> ct_wait_cnt (sc_targets s t) = 0 \<and> ct_group (sc_targets s' t) = None
       | Some err \<Rightarrow> s' = s \<and> err = (if ct_group (sc_targets s t) = Some g then SE_BUSY else SE_NOENT))"
proof (cases "ct_group (sc_targets s t) = Some g \<and> ct_wait_cnt (sc_targets s t) = 0")
  case False
  then show ?thesis
    using assms(1) by (auto simp: group_remove_def Let_def)
next
  case True
  let ?T = "sc_targets s" and ?G = "sc_groups s g"
  note gi = sched_invD(3) [OF assms(1,2)]
  note gd = group_invD [OF gi]
  have t: "t \<in> set (cg_heap ?G)" using gd(2) True assms(3) by simp
  obtain T' h' where rem: "heap_remove (ct_index (?T t)) ?T (cg_heap ?G) = Ret (T', h')"
    "heap_result ?T (mset (cg_heap ?G) - {#t#}) T' h'"
    using heap_remove_correct [OF gd(1) t] by blast
  let ?T' = "T'(t := (T' t)\<lparr>ct_group := None\<rparr>)"
  define G' where "G' = ?G\<lparr>cg_heap := h',
    cg_max_load := size_sub (cg_max_load ?G) (ct_max_load (?T t)),
    cg_cur_load := size_sub (cg_cur_load ?G) (ct_cur_load (?T t))\<rparr>"
  have s: "same_keys ?T T'" and w: "heap_wf T' h'" and m: "mset h' = mset (cg_heap ?G) - {#t#}"
    using rem(2) by (auto simp: heap_result_def)
  have d: "distinct (cg_heap ?G)" using gd(1) by (simp add: heap_wf_def indexed_def)
  have tot: "total_max ?T' h' + ct_max_load (?T t) = cg_max_load ?G" "total_cur ?T' h' + ct_cur_load (?T t) = cg_cur_load ?G"
    using total_remove [OF t m, of T'] total_same [of "cg_heap ?G" T' ?T] s gd(3,4) same_keys_fields [OF s, of t]
    unfolding set_group_cong by (simp_all add: same_keys_def)
  have bounds: "size_sub (cg_max_load ?G) (ct_max_load (?T t)) = total_max ?T' h'"
    "size_sub (cg_cur_load ?G) (ct_cur_load (?T t)) = total_cur ?T' h'"
    using group_no_wrap [OF gi] tot by (intro size_sub_exact tot; simp)+
  have "set h' = set (cg_heap ?G) - {t}"
    using m d by (metis mset_remove1 set_mset_mset set_remove1_eq)
  then have set: "set h' = {x \<in> Ts. ct_group (?T' x) = Some g}"
    using gd(2) same_keys_fields [OF s] by auto
  have len: "length h' \<le> length (cg_heap ?G)"
    using m by (metis diff_subset_eq_self size_mset size_mset_mono)
  have "group_inv Ts ?T' g G'"
    using w set bounds len gd(5-7) by (simp add: group_inv_def G'_def set_group_cong)
  moreover have "group_inv Ts ?T' g' (sc_groups s g')" if "g' \<in> Gs" "g' \<noteq> g" for g'
  proof (rule group_inv_other [OF assms(1) that rem(2)])
    show "x = t \<or> ct_group (?T x) = Some g" if "x \<in># mset (cg_heap ?G) - {#t#}" for x
      using in_diffD [OF that] gd(2) by simp
  qed (use True that(2) in simp_all)
  ultimately have "sched_inv Ts Gs \<lparr>sc_targets = ?T', sc_groups = (sc_groups s)(g := G')\<rparr>"
    by (intro sched_inv_upd_group [OF assms(1-3) s]) auto
  moreover have "loads \<lparr>sc_targets = ?T', sc_groups = (sc_groups s)(g := G')\<rparr> = loads s"
    using same_keys_fields [OF s] by (auto simp: loads_def fun_eq_iff)
  ultimately show ?thesis
    using True rem(1) by (simp add: group_remove_def Let_def upd_target_def G'_def)
qed

end
