(* ===== verification/CommSchedProps.thy ===== *)
theory CommSchedProps
  imports CommSchedSteps
begin

text \<open>
  The properties of the scheduler: the invariant over all interleavings of its steps, the choice
  of the least loaded target, the signals of a release, joining and leaving a group, and a
  failed request.
\<close>

section \<open>All interleavings\<close>

definition sched_start :: "nat set \<Rightarrow> nat set \<Rightarrow> sched \<Rightarrow> bool" where
  "sched_start Ts Gs s \<longleftrightarrow>
     (\<forall>t\<in>Ts. \<exists>old. \<exists>c < 2 ^ 32. target_init True c old = (None, sc_targets s t))
     \<and> (\<forall>g\<in>Gs. \<exists>old. group_init True old = (None, sc_groups s g))"

text \<open>
  One region under the mutexes, by any thread. A connection is only released while one is
  held, and only a thread that waits is woken.
\<close>

inductive sched_step :: "nat set \<Rightarrow> nat set \<Rightarrow> sched \<Rightarrow> sched \<Rightarrow> bool" for Ts Gs where
  step_add: "t \<in> Ts \<Longrightarrow> g \<in> Gs \<Longrightarrow> cg_buf_size (sc_groups s g) < 2 ^ 30 \<Longrightarrow>
    group_add al g t s = Ret (e, sig, s') \<Longrightarrow> sched_step Ts Gs s s'"
| step_remove: "t \<in> Ts \<Longrightarrow> g \<in> Gs \<Longrightarrow> group_remove g t s = Ret (e, sig, s') \<Longrightarrow> sched_step Ts Gs s s'"
| step_target_acquire: "t \<in> Ts \<Longrightarrow> target_acquire t timeout s = Ret (a, s') \<Longrightarrow> sched_step Ts Gs s s'"
| step_target_wake: "t \<in> Ts \<Longrightarrow> 0 < ct_wait_cnt (sc_targets s t) \<Longrightarrow> target_wake t ret s = Ret (a, s') \<Longrightarrow>
    sched_step Ts Gs s s'"
| step_group_acquire: "g \<in> Gs \<Longrightarrow> group_acquire g timeout s = Ret (a, s') \<Longrightarrow> sched_step Ts Gs s s'"
| step_group_wake: "g \<in> Gs \<Longrightarrow> 0 < cg_wait_cnt (sc_groups s g) \<Longrightarrow> group_wake g ret s = Ret (a, s') \<Longrightarrow>
    sched_step Ts Gs s s'"
| step_release: "t \<in> Ts \<Longrightarrow> 0 < loads s t \<Longrightarrow> target_release t ka s = Ret (sig, s') \<Longrightarrow> sched_step Ts Gs s s'"

inductive sched_reachable :: "nat set \<Rightarrow> nat set \<Rightarrow> sched \<Rightarrow> bool" for Ts Gs where
  reach_start: "sched_start Ts Gs s \<Longrightarrow> sched_reachable Ts Gs s"
| reach_step: "sched_reachable Ts Gs s \<Longrightarrow> sched_step Ts Gs s s' \<Longrightarrow> sched_reachable Ts Gs s'"



lemma start_inv:
  assumes "sched_start Ts Gs s"
  shows "sched_inv Ts Gs s"
proof -
  have t: "target_ok (sc_targets s t) \<and> ct_group (sc_targets s t) = None" if "t \<in> Ts" for t
  proof -
    have "\<exists>old. \<exists>c < 2 ^ 32. target_init True c old = (None, sc_targets s t)"
      using assms that by (simp only: sched_start_def)
    then obtain old c where "c < 2 ^ 32" "target_init True c old = (None, sc_targets s t)"
      by (elim exE conjE)
    then show ?thesis
      by (auto simp: target_init_def target_ok_def split: if_splits dest!: sym [of _ "sc_targets s t"])
  qed
  have "group_inv Ts (sc_targets s) g (sc_groups s g)" if "g \<in> Gs" for g
  proof -
    have "sc_groups s g = \<lparr>cg_max_load = 0, cg_cur_load = 0, cg_heap = [], cg_buf_size = 4, cg_wait_cnt = 0\<rparr>"
      using assms that by (auto simp: sched_start_def group_init_def)
    then show ?thesis
      using t by (auto simp: group_inv_def heap_wf_def indexed_def keys_def heap_ordered_def total_max_def total_cur_def)
  qed
  then show ?thesis
    using t by (simp add: sched_inv_def)
qed

text \<open>Acquiring, in each of its outcomes.\<close>

lemma target_take_cases:
  assumes "sched_inv Ts Gs s" "t \<in> Ts"
  shows "\<exists>a s'. target_take t ret s = Ret (a, s') \<and> sched_inv Ts Gs s'"
  using target_take_inv [OF assms, of ret] target_take_full [of s t ret] assms(1)
  by (cases "loads s t < ct_max_load (sc_targets s t)") auto

lemma group_take_cases:
  assumes "sched_inv Ts Gs s" "g \<in> Gs"
  shows "\<exists>a s'. group_take g ret s = Ret (a, s') \<and> sched_inv Ts Gs s'"
  using group_take_inv [OF assms, of ret] group_take_full [of s g ret] assms(1)
  by (cases "cg_cur_load (sc_groups s g) < cg_max_load (sc_groups s g)") auto

lemma acquire_cases:
  assumes "sched_inv Ts Gs s"
  shows "t \<in> Ts \<Longrightarrow> \<exists>a s'. target_acquire t timeout s = Ret (a, s') \<and> sched_inv Ts Gs s'"
    "t \<in> Ts \<Longrightarrow> \<exists>a s'. target_wake t ret s = Ret (a, s') \<and> sched_inv Ts Gs s'"
    "g \<in> Gs \<Longrightarrow> \<exists>a s'. group_acquire g timeout s = Ret (a, s') \<and> sched_inv Ts Gs s'"
    "g \<in> Gs \<Longrightarrow> \<exists>a s'. group_wake g ret s = Ret (a, s') \<and> sched_inv Ts Gs s'"
  using target_take_cases [OF assms] group_take_cases [OF assms] sched_inv_wait [OF assms]
    target_take_cases [OF sched_inv_wait(1) [OF assms]] group_take_cases [OF sched_inv_wait(2) [OF assms]]
    sched_inv_wait(1) [OF sched_inv_wait(1) [OF assms]] sched_inv_wait(2) [OF sched_inv_wait(2) [OF assms]]
  by (simp_all add: target_acquire_def target_wake_def group_acquire_def group_wake_def Let_def)

lemma step_inv:
  assumes "sched_inv Ts Gs s" "sched_step Ts Gs s s'"
  shows "sched_inv Ts Gs s'"
  using assms(2)
proof (cases rule: sched_step.cases)
  case (step_add t g al e sig)
  then show ?thesis using group_add_inv [OF assms(1) step_add(2,1,3), of al] by auto
next
  case (step_remove t g e sig)
  then show ?thesis using group_remove_inv [OF assms(1) step_remove(2,1)] by auto
next
  case (step_target_acquire t timeout a)
  then show ?thesis using acquire_cases(1) [OF assms(1), of t timeout] by auto
next
  case (step_target_wake t ret a)
  then show ?thesis using acquire_cases(2) [OF assms(1), of t ret] by auto
next
  case (step_group_acquire g timeout a)
  then show ?thesis using acquire_cases(3) [OF assms(1), of g timeout] by auto
next
  case (step_group_wake g ret a)
  then show ?thesis using acquire_cases(4) [OF assms(1), of g ret] by auto
next
  case (step_release t ka sig)
  then show ?thesis using target_release_inv [OF assms(1) step_release(1,2), of ka] by auto
qed

lemma reachable_inv: "sched_reachable Ts Gs s \<Longrightarrow> sched_inv Ts Gs s"
  by (induction rule: sched_reachable.induct) (auto intro: start_inv step_inv)

text \<open>
  C3. In every state that any interleaving of the operations reaches, no target carries more
  connections than its limit, and for every group the heap is ordered by load, holds exactly
  the targets of the group, each at its index, and the two loads of the group are the sums over
  them; and no operation on such a state runs into undefined behaviour.
\<close>

theorem sched_reachable_safe:
  assumes "sched_reachable Ts Gs s" "t \<in> Ts" "g \<in> Gs"
  shows "loads s t \<le> ct_max_load (sc_targets s t)
    \<and> set (cg_heap (sc_groups s g)) = {x \<in> Ts. ct_group (sc_targets s x) = Some g}
    \<and> indexed (sc_targets s) (cg_heap (sc_groups s g))
    \<and> heap_ordered target_cmp (keys (sc_targets s) (cg_heap (sc_groups s g)))
    \<and> cg_cur_load (sc_groups s g) = total_cur (sc_targets s) (cg_heap (sc_groups s g))
    \<and> cg_max_load (sc_groups s g) = total_max (sc_targets s) (cg_heap (sc_groups s g))
    \<and> target_acquire t timeout s \<noteq> UB \<and> group_acquire g timeout s \<noteq> UB
    \<and> target_wake t ret s \<noteq> UB \<and> group_wake g ret s \<noteq> UB \<and> group_remove g t s \<noteq> UB
    \<and> (0 < loads s t \<longrightarrow> target_release t ka s \<noteq> UB)
    \<and> (cg_buf_size (sc_groups s g) < 2 ^ 30 \<longrightarrow> group_add al g t s \<noteq> UB)"
proof -
  have inv: "sched_inv Ts Gs s" by (rule reachable_inv [OF assms(1)])
  note gd = group_invD [OF sched_invD(3) [OF inv assms(3)]]
  have "loads s t \<le> ct_max_load (sc_targets s t)"
    using sched_invD(1) [OF inv assms(2)] by (simp add: target_ok_def loads_def)
  moreover have "target_acquire t timeout s \<noteq> UB" "target_wake t ret s \<noteq> UB" "group_acquire g timeout s \<noteq> UB" "group_wake g ret s \<noteq> UB"
    using acquire_cases [OF inv] assms(2,3) by (metis outcome.distinct(1))+
  moreover have "group_remove g t s \<noteq> UB" "0 < loads s t \<longrightarrow> target_release t ka s \<noteq> UB"
    "cg_buf_size (sc_groups s g) < 2 ^ 30 \<longrightarrow> group_add al g t s \<noteq> UB"
    using group_remove_inv [OF inv assms(3,2)] target_release_inv [OF inv assms(2), of ka]
      group_add_inv [OF inv assms(3,2), of al] by auto
  ultimately show ?thesis
    using gd by (simp add: heap_wf_def)
qed

text \<open>A system of two targets and a group, and a run in it.\<close>

definition sched0 :: sched where
  "sched0 = \<lparr>sc_targets = (\<lambda>t. \<lparr>ct_max_load = t + 1, ct_cur_load = 0, ct_group = None, ct_index = 0, ct_wait_cnt = 0\<rparr>),
     sc_groups = (\<lambda>g. \<lparr>cg_max_load = 0, cg_cur_load = 0, cg_heap = [], cg_buf_size = 4, cg_wait_cnt = 0\<rparr>)\<rparr>"

lemma sched0_start: "sched_start {0, 1} {0} sched0"
proof -
  have "\<exists>old. \<exists>c < 2 ^ 32. target_init True c old = (None, sc_targets sched0 t)" if "t < 2" for t
    using that by (intro exI [of _ "sc_targets sched0 t"] exI [of _ "t + 1"]) (simp add: target_init_def sched0_def)
  moreover have "\<exists>old. group_init True old = (None, sc_groups sched0 0)"
    by (simp add: group_init_def sched0_def)
  ultimately show ?thesis by (simp add: sched_start_def)
qed

definition run_of :: "(sched \<Rightarrow> ('a \<times> sched) outcome) \<Rightarrow> sched \<Rightarrow> sched" where
  "run_of f s = (case f s of UB \<Rightarrow> s | Ret (_, s') \<Rightarrow> s')"

definition sched1 :: sched where
  "sched1 = (case group_add True 0 0 sched0 of UB \<Rightarrow> sched0 | Ret (_, _, s) \<Rightarrow>
     (case group_add True 0 1 s of UB \<Rightarrow> s | Ret (_, _, s') \<Rightarrow> run_of (group_acquire 0 0) s'))"

lemma sched1_reachable: "sched_reachable {0, 1} {0} sched1"
proof -
  have r0: "sched_reachable {0, 1} {0} sched0"
    by (rule reach_start [OF sched0_start])
  have b0: "cg_buf_size (sc_groups sched0 0) < 2 ^ 30" by (simp add: sched0_def)
  obtain e sig s where a: "group_add True 0 0 sched0 = Ret (e, sig, s)"
    using group_add_inv [OF start_inv [OF sched0_start], of 0 0 True] b0 by auto
  have r1: "sched_reachable {0, 1} {0} s"
    by (rule reach_step [OF r0 step_add [OF _ _ b0 a]]) simp_all
  have "case group_add True 0 0 sched0 of UB \<Rightarrow> False | Ret (_, _, s) \<Rightarrow> cg_buf_size (sc_groups s 0) = 4"
    by code_simp
  then have b1: "cg_buf_size (sc_groups s 0) < 2 ^ 30" using a by simp
  obtain e' sig' s' where a': "group_add True 0 1 s = Ret (e', sig', s')"
    using group_add_inv [OF reachable_inv [OF r1], of 0 1 True] b1 by auto
  have r2: "sched_reachable {0, 1} {0} s'"
    by (rule reach_step [OF r1 step_add [OF _ _ b1 a']]) simp_all
  obtain x s'' where x: "group_acquire 0 0 s' = Ret (x, s'')"
    using acquire_cases(3) [OF reachable_inv [OF r2], of 0 0] by auto
  have "sched_reachable {0, 1} {0} s''"
    by (rule reach_step [OF r2 step_group_acquire [OF _ x]]) simp
  then show ?thesis using a a' x by (simp add: sched1_def run_of_def)
qed

theorem sched_reachable_safe_witness:
  "loads sched1 0 \<le> 1 \<and> set (cg_heap (sc_groups sched1 0)) = {0, 1} \<and> cg_cur_load (sc_groups sched1 0) = 1
    \<and> heap_ordered target_cmp (keys (sc_targets sched1) (cg_heap (sc_groups sched1 0)))"
proof -
  have "ct_max_load (sc_targets sched1 0) = 1 \<and> cg_cur_load (sc_groups sched1 0) = 1
      \<and> cg_heap (sc_groups sched1 0) = [1, 0]"
    by code_simp
  moreover have "loads sched1 0 \<le> ct_max_load (sc_targets sched1 0)"
    "heap_ordered target_cmp (keys (sc_targets sched1) (cg_heap (sc_groups sched1 0)))"
    using sched_reachable_safe [OF sched1_reachable, of 0 0] by blast+
  ultimately show ?thesis by auto
qed

section \<open>Acquiring and releasing\<close>

text \<open>
  C27. \<open>CommSchedGroup::acquire\<close> on a group with a free connection returns a target of the
  group that is below its limit and whose ratio of load to limit is the least of the group; it
  adds one to the load of that target and changes no other load, limit, group or waiter count.
  On a full group it waits, or returns NULL with \<open>EAGAIN\<close> when the timeout is 0.
\<close>

theorem group_acquire_least:
  assumes "sched_inv Ts Gs s" "g \<in> Gs"
  shows "if cg_cur_load (sc_groups s g) < cg_max_load (sc_groups s g) then
      \<exists>t s'. group_acquire g timeout s = Ret (Acquired t, s') \<and> t \<in> Ts \<and> ct_group (sc_targets s t) = Some g
        \<and> loads s t < ct_max_load (sc_targets s t)
        \<and> (\<forall>x\<in>Ts. ct_group (sc_targets s x) = Some g \<longrightarrow>
             loads s t * ct_max_load (sc_targets s x) \<le> loads s x * ct_max_load (sc_targets s t))
        \<and> load_step t (loads s t + 1) s s' \<and> sched_inv Ts Gs s'
    else group_acquire g timeout s =
      (if timeout = 0 then Ret (NotAcquired (Some SE_AGAIN), s) else Ret (Waiting, group_wait 1 g s))"
proof (cases "cg_cur_load (sc_groups s g) < cg_max_load (sc_groups s g)")
  case True
  then show ?thesis
    using group_take_inv [OF assms True, of None] by (auto simp: group_acquire_def Let_def)
next
  case False
  then show ?thesis
    using group_take_full [of s g] by (simp add: group_acquire_def)
qed

theorem group_acquire_least_witness:
  "\<exists>s'. group_acquire 0 0 sched1 = Ret (Acquired 1, s') \<and> load_step 1 1 sched1 s' \<and> loads sched1 0 = 1"
proof -
  have e: "cg_cur_load (sc_groups sched1 0) < cg_max_load (sc_groups sched1 0) \<and> loads sched1 1 = 0 \<and> loads sched1 0 = 1"
    by code_simp
  have a: "case group_acquire 0 0 sched1 of UB \<Rightarrow> False | Ret (a, s') \<Rightarrow> a = Acquired 1"
    by code_simp
  obtain t s' where t: "group_acquire 0 0 sched1 = Ret (Acquired t, s')" "load_step t (loads sched1 t + 1) sched1 s'"
    using group_acquire_least [OF reachable_inv [OF sched1_reachable], of 0 0] e by auto
  then have "t = 1" using a by simp
  then show ?thesis using t e by auto
qed

text \<open>
  \<open>CommSchedTarget::release\<close> of a held connection takes one from the load of the target
  and of its group and keeps the invariant. Exactly one signal is sent when somebody waits:
  to the waiters of the target first, to those of its group when the target has none.
\<close>

theorem target_release_signals:
  assumes "sched_inv Ts Gs s" "t \<in> Ts" "0 < loads s t"
  shows "\<exists>sig s'. target_release t keep_alive s = Ret (sig, s') \<and> sched_inv Ts Gs s'
    \<and> load_step t (loads s t - 1) s s'
    \<and> sig = (if 0 < ct_wait_cnt (sc_targets s t) then [SigTarget t]
             else case ct_group (sc_targets s t) of None \<Rightarrow> []
                  | Some g \<Rightarrow> if 0 < cg_wait_cnt (sc_groups s g) then [SigGroup g] else [])"
  using target_release_inv [OF assms, of keep_alive] by blast

theorem target_release_witness:
  "\<exists>s'. target_release 0 1 (group_wait 1 0 sched1) = Ret ([SigGroup 0], s') \<and> loads s' 0 = 0"
proof -
  let ?s = "group_wait 1 0 sched1"
  have e: "loads ?s 0 = 1 \<and> ct_wait_cnt (sc_targets ?s 0) = 0 \<and> ct_group (sc_targets ?s 0) = Some 0
      \<and> cg_wait_cnt (sc_groups ?s 0) = 1"
    by code_simp
  have inv: "sched_inv {0, 1} {0} ?s"
    by (rule sched_inv_wait(2) [OF reachable_inv [OF sched1_reachable]])
  obtain s' where "target_release 0 1 ?s = Ret ([SigGroup 0], s')" "load_step 0 0 ?s s'"
    using target_release_signals [OF inv, of 0 1] e by auto
  then show ?thesis by (auto simp: load_step_def)
qed

text \<open>
  A request whose \<open>Communicator::request\<close> fails gives its connection back: after the
  acquiring and the failed request every load is what it was before, the result is the failure
  and the invariant holds.
\<close>

theorem failed_request_undone:
  assumes "sched_inv Ts Gs s" "g \<in> Gs" "cg_cur_load (sc_groups s g) < cg_max_load (sc_groups s g)"
    and "\<And>t. comm_request t = -1"
  shows "\<exists>res t sig s'. object_acquire (ObjGroup g) timeout s = Ret res
    \<and> sched_request comm_request res = Ret (-1, Some t, sig, s') \<and> sched_inv Ts Gs s' \<and> loads s' = loads s"
proof -
  obtain t s1 where a: "group_take g None s = Ret (Acquired t, s1)" "sched_inv Ts Gs s1" "t \<in> Ts"
    "load_step t (loads s t + 1) s s1"
    using group_take_inv [OF assms(1-3), of None] by blast
  have l: "loads s1 = (loads s)(t := loads s t + 1)"
    using a(4) by (simp add: load_step_def)
  then have pos: "0 < loads s1 t" by simp
  obtain sig s' where "target_release t 0 s1 = Ret (sig, s')" "sched_inv Ts Gs s'" "load_step t (loads s1 t - 1) s1 s'"
    using target_release_inv [OF a(2,3) pos, of 0] by blast
  moreover have "loads s' = loads s"
    using calculation(3) l by (simp add: load_step_def)
  moreover have "object_acquire (ObjGroup g) timeout s = Ret (Acquired t, s1)"
    using a(1) assms(3) by (simp add: object_acquire_def group_acquire_def)
  ultimately show ?thesis
    using assms(4) by (auto simp: sched_request_def)
qed

theorem failed_request_undone_witness:
  "\<exists>res t sig s'. object_acquire (ObjGroup 0) 0 sched1 = Ret res
    \<and> sched_request (\<lambda>_. -1) res = Ret (-1, Some t, sig, s') \<and> loads s' = loads sched1"
proof -
  have "cg_cur_load (sc_groups sched1 0) < cg_max_load (sc_groups sched1 0)"
    by code_simp
  from failed_request_undone [OF reachable_inv [OF sched1_reachable] _ this, of "\<lambda>_. -1" 0]
  show ?thesis by auto
qed

section \<open>Groups\<close>

text \<open>
  \<open>CommSchedGroup::add\<close> succeeds exactly for a target without group and waiters, up to a
  failed allocation, and otherwise reports \<open>EEXIST\<close>, \<open>EINVAL\<close>, \<open>EBUSY\<close> or \<open>ENOMEM\<close> and
  changes nothing; \<open>remove\<close> succeeds exactly for a member without waiters, and reports
  \<open>ENOENT\<close> or \<open>EBUSY\<close>. Loads never change, and a waiter of the group is signalled when the
  new target brings room.
\<close>

theorem group_membership:
  assumes "sched_inv Ts Gs s" "g \<in> Gs" "t \<in> Ts" "cg_buf_size (sc_groups s g) < 2 ^ 30"
  shows "(\<exists>e sig s'. group_add al g t s = Ret (e, sig, s') \<and> sched_inv Ts Gs s' \<and> loads s' = loads s
    \<and> (case e of
         None \<Rightarrow> ct_group (sc_targets s t) = None \<and> ct_wait_cnt (sc_targets s t) = 0
           \<and> ct_group (sc_targets s' t) = Some g
           \<and> (sig \<noteq> [] \<longleftrightarrow> 0 < cg_wait_cnt (sc_groups s g) \<and> cg_cur_load (sc_groups s' g) < cg_max_load (sc_groups s' g))
       | Some err \<Rightarrow> s' = s \<and> sig = []
           \<and> err = (if ct_group (sc_targets s t) = Some g then SE_EXIST
                    else if ct_group (sc_targets s t) \<noteq> None then SE_INVAL
                    else if 0 < ct_wait_cnt (sc_targets s t) then SE_BUSY else SE_NOMEM)))
    \<and> (\<exists>e s'. group_remove g t s = Ret (e, [], s') \<and> sched_inv Ts Gs s' \<and> loads s' = loads s
    \<and> (case e of
         None \<Rightarrow> ct_group (sc_targets s t) = Some g \<and> ct_wait_cnt (sc_targets s t) = 0 \<and> ct_group (sc_targets s' t) = None
       | Some err \<Rightarrow> s' = s \<and> err = (if ct_group (sc_targets s t) = Some g then SE_BUSY else SE_NOENT)))"
  using group_add_inv [OF assms, of al] group_remove_inv [OF assms(1-3)] by blast

theorem group_membership_witness:
  "\<exists>s'. group_add True 0 1 sched1 = Ret (Some SE_EXIST, [], s') \<and> s' = sched1"
proof -
  have b: "cg_buf_size (sc_groups sched1 0) = 4 \<and> ct_group (sc_targets sched1 1) = Some 0"
    by code_simp
  then have "cg_buf_size (sc_groups sched1 0) < 2 ^ 30" by simp
  from group_membership [OF reachable_inv [OF sched1_reachable] _ _ this, of 1 True] b
  show ?thesis by (auto split: option.splits)
qed

text \<open>
  The deadline of a timed wait is the given time plus the timeout, to the nanosecond, in
  normal form; a negative timeout gives no deadline.
\<close>

theorem get_abstime_exact:
  assumes "0 \<le> nsec" "nsec < 1000000000" "0 \<le> timeout"
  shows "\<exists>sec' nsec'. get_abstime timeout (sec, nsec) = Some (sec', nsec') \<and> 0 \<le> nsec' \<and> nsec' < 1000000000
    \<and> sec' * 1000000000 + nsec' = sec * 1000000000 + nsec + timeout * 1000000"
proof -
  define q r where "q = timeout div 1000" and "r = timeout mod 1000"
  have "timeout = q * 1000 + r" "0 \<le> r" "r < 1000"
    by (simp_all add: q_def r_def)
  then show ?thesis
    using assms unfolding get_abstime_def Let_def q_def [symmetric] r_def [symmetric] by simp
qed

theorem get_abstime_witness:
  "\<exists>sec' nsec'. get_abstime 1500 (7, 600000000) = Some (sec', nsec') \<and> sec' * 1000000000 + nsec' = 9100000000"
  using get_abstime_exact [of 600000000 1500 7] by auto

end
