(* ===== verification/RouteManager.thy ===== *)
theory RouteManager
  imports CommSched StringUtil Rbtree "HOL-Library.Word"
begin

text \<open>
  \<open>src/manager/RouteManager.cc\<close>: the cache of resolved hosts. An entry of the cache holds the
  target of the only address, or a group with one target for each address, and keeps targets
  that failed out of the group until they had time to recover.

  Entries, targets and groups are objects named by numbers that \<open>new\<close> hands out in order; a use
  or \<open>delete\<close> of a target or a group that is not allocated is \<open>UB\<close>. The scheduler's state is that of
  \<open>CommSched\<close>. \<open>ini\<close> says of which objects the initialisers succeed (memory, mutexes), \<open>grow\<close> for
  which targets the heap of a group can grow. A function that runs under the mutex of its entry
  is one step, and \<open>GET_CURRENT_SECOND\<close> is its argument \<open>now\<close>. SHA1 is a parameter.
\<close>

section \<open>Addresses\<close>

text \<open>An address of a list of \<open>addrinfo\<close>: the \<open>ai_addrlen\<close> bytes at \<open>ai_addr\<close>.\<close>

datatype sock_addr = SockAddr (ai_addr: string)

definition ai_addrlen :: "sock_addr \<Rightarrow> nat" where
  "ai_addrlen a = length (ai_addr a)"

fun memcmp :: "string \<Rightarrow> string \<Rightarrow> int" where
  "memcmp [] t = 0"
| "memcmp s [] = 0"
| "memcmp (c # cs) (d # ds) =
     (if code c < (code d :: nat) then -1 else if code d < (code c :: nat) then 1 else memcmp cs ds)"

definition addr_cmp :: "sock_addr \<Rightarrow> sock_addr \<Rightarrow> int" where
  "addr_cmp x y =
     (if ai_addrlen x = ai_addrlen y then memcmp (ai_addr x) (ai_addr y)
      else if ai_addrlen x < ai_addrlen y then -1 else 1)"

definition addr_less :: "sock_addr \<Rightarrow> sock_addr \<Rightarrow> bool" where
  "addr_less x y \<longleftrightarrow> addr_cmp x y < 0"

text \<open>The order of the addresses, which \<open>std::sort\<close> sorts by.\<close>

lemma memcmp_refl [simp]: "memcmp s s = 0"
  by (induction s) simp_all

lemma memcmp_flip: "memcmp t s = - memcmp s t"
proof (induction s t rule: memcmp.induct)
  case (1 t)
  then show ?case by (cases t) simp_all
qed auto

lemma memcmp_zero: "length s = length t \<Longrightarrow> memcmp s t = 0 \<Longrightarrow> s = t"
proof (induction s t rule: list_induct2)
  case (Cons c cs d ds)
  then have "\<not> code c < (code d :: nat)" "\<not> code d < (code c :: nat)" by (auto split: if_splits)
  then have "c = d" unfolding char_eq_code by linarith
  then show ?case using Cons by simp
qed simp

lemma memcmp_trans:
  "length s = length t \<Longrightarrow> length t = length u \<Longrightarrow> memcmp s t \<le> 0 \<Longrightarrow> memcmp t u \<le> 0 \<Longrightarrow> memcmp s u \<le> 0"
  by (induction s t u rule: list_induct3) (auto split: if_splits)

instantiation sock_addr :: linorder
begin

definition less_sock_addr :: "sock_addr \<Rightarrow> sock_addr \<Rightarrow> bool" where
  "less_sock_addr x y \<longleftrightarrow> addr_less x y"

definition less_eq_sock_addr :: "sock_addr \<Rightarrow> sock_addr \<Rightarrow> bool" where
  "less_eq_sock_addr x y \<longleftrightarrow> \<not> addr_less y x"

instance
proof
  fix x y z :: sock_addr
  have flip: "addr_cmp y x = - addr_cmp x y" for x y
    by (auto simp: addr_cmp_def memcmp_flip [of "ai_addr x"])
  show "x < y \<longleftrightarrow> x \<le> y \<and> \<not> y \<le> x" and "x \<le> x" and "x \<le> y \<or> y \<le> x"
    using flip [of x y] flip [of x x] by (auto simp: less_sock_addr_def less_eq_sock_addr_def addr_less_def)
  have le: "x \<le> y \<longleftrightarrow> addr_cmp x y \<le> 0" for x y
    using flip [of x y] by (simp add: less_eq_sock_addr_def addr_less_def not_less)
  show "x = y" if "x \<le> y" "y \<le> x"
    using that flip [of x y] unfolding le
    by (cases x; cases y) (auto simp: addr_cmp_def ai_addrlen_def intro: memcmp_zero split: if_splits)
  show "x \<le> z" if "x \<le> y" "y \<le> z"
    using that unfolding le
    by (auto simp: addr_cmp_def ai_addrlen_def split: if_splits dest: memcmp_trans [rotated 2])
qed

end

section \<open>The objects\<close>

text \<open>\<open>enum TransportType\<close> is its integer; \<open>TT_TCP\<close> is its only name.\<close>

definition TT_TCP :: nat where
  "TT_TCP = 0"

record endpoint_params =
  ep_max_connections :: nat
  ep_connect_timeout :: int
  ep_response_timeout :: int

record route_params =
  rp_transport_type :: nat
  rp_addrinfo :: "sock_addr list"
  rp_sha1_64 :: "64 word"
  rp_connect_timeout :: int
  rp_response_timeout :: int
  rp_max_connections :: nat
  rp_hostname :: string

record route_entry =
  re_request_object :: "sched_object option"
  re_group :: "nat option"
  re_targets :: "nat list"
  re_breaker_list :: "(nat \<times> int) list"
  re_sha1_64 :: "64 word"
  re_nleft :: int
  re_nbreak :: int

definition new_entry :: route_entry where
  "new_entry = \<lparr>re_request_object = None, re_group = None, re_targets = [], re_breaker_list = [],
     re_sha1_64 = 0, re_nleft = 0, re_nbreak = 0\<rparr>"

text \<open>What \<open>CommTarget::init\<close> keeps of its arguments.\<close>

record comm_target =
  tg_addr :: sock_addr
  tg_connect_timeout :: int
  tg_response_timeout :: int

text \<open>The allocated targets and groups, and the next name that \<open>new\<close> gives.\<close>

record route_env =
  rv_sched :: sched
  rv_peer :: "nat \<Rightarrow> comm_target"
  rv_targets :: "nat list"
  rv_groups :: "nat list"
  rv_next :: nat

record route_manager =
  rm_cache :: rb_tree
  rm_entry :: "nat \<Rightarrow> route_entry"
  rm_env :: route_env

definition upd_sched :: "sched \<Rightarrow> route_env \<Rightarrow> route_env" where
  "upd_sched s w = w\<lparr>rv_sched := s\<rparr>"

definition delete_target :: "nat \<Rightarrow> route_env \<Rightarrow> route_env outcome" where
  "delete_target t w = (if t \<in> set (rv_targets w) then Ret (w\<lparr>rv_targets := remove1 t (rv_targets w)\<rparr>) else UB)"

definition delete_group :: "nat \<Rightarrow> route_env \<Rightarrow> route_env outcome" where
  "delete_group g w = (if g \<in> set (rv_groups w) then Ret (w\<lparr>rv_groups := remove1 g (rv_groups w)\<rparr>) else UB)"

text \<open>The calls of the scheduler, on a group and a target that must be allocated.\<close>

definition join_group :: "bool \<Rightarrow> nat \<Rightarrow> nat \<Rightarrow> route_env \<Rightarrow> (sched_errno option \<times> route_env) outcome" where
  "join_group al g t w =
     (if t \<in> set (rv_targets w) \<and> g \<in> set (rv_groups w)
      then andthen (group_add al g t (rv_sched w)) (\<lambda>(err, sig, s). Ret (err, upd_sched s w))
      else UB)"

definition leave_group :: "nat \<Rightarrow> nat \<Rightarrow> route_env \<Rightarrow> (sched_errno option \<times> route_env) outcome" where
  "leave_group g t w =
     (if t \<in> set (rv_targets w) \<and> g \<in> set (rv_groups w)
      then andthen (group_remove g t (rv_sched w)) (\<lambda>(err, sig, s). Ret (err, upd_sched s w))
      else UB)"

section \<open>The entries of the cache\<close>

definition create_target ::
  "(nat \<Rightarrow> bool) \<Rightarrow> route_params \<Rightarrow> sock_addr \<Rightarrow> route_env \<Rightarrow> ((sched_errno + nat) \<times> route_env) outcome" where
  "create_target ini params addr w =
     (if rp_transport_type params = TT_TCP then
        let t = rv_next w;
            w1 = w\<lparr>rv_next := t + 1, rv_targets := t # rv_targets w\<rparr>;
            (err, r) = target_init (ini t) (rp_max_connections params) (sc_targets (rv_sched w) t)
        in case err of
             None \<Rightarrow>
               Ret (Inr t, w1\<lparr>rv_sched := (rv_sched w)\<lparr>sc_targets := (sc_targets (rv_sched w))(t := r)\<rparr>,
                 rv_peer := (rv_peer w)(t := \<lparr>tg_addr = addr, tg_connect_timeout = rp_connect_timeout params,
                   tg_response_timeout = rp_response_timeout params\<rparr>)\<rparr>)
           | Some e \<Rightarrow> andthen (delete_target t w1) (\<lambda>w2. Ret (Inl e, w2))
      else Ret (Inl SE_INVAL, w))"

text \<open>The loop of \<open>add_group_targets\<close> that takes back the targets added so far.\<close>

fun undo_targets :: "nat \<Rightarrow> nat list \<Rightarrow> route_env \<Rightarrow> route_env outcome" where
  "undo_targets g [] w = Ret w"
| "undo_targets g (t # ts) w =
     andthen (leave_group g t w) (\<lambda>(_, w1). andthen (delete_target t w1) (undo_targets g ts))"

fun add_group_targets ::
  "(nat \<Rightarrow> bool) \<Rightarrow> (nat \<Rightarrow> bool) \<Rightarrow> route_params \<Rightarrow> nat \<Rightarrow> sock_addr list \<Rightarrow> route_entry \<Rightarrow> route_env
     \<Rightarrow> (sched_errno option \<times> route_entry \<times> route_env) outcome" where
  "add_group_targets ini grow params g [] e w = Ret (None, e, w)"
| "add_group_targets ini grow params g (addr # rest) e w =
     andthen (create_target ini params addr w) (\<lambda>(res, w1).
       case res of
         Inl err \<Rightarrow> andthen (undo_targets g (re_targets e) w1) (\<lambda>w2. Ret (Some err, e, w2))
       | Inr t \<Rightarrow> andthen (join_group (grow t) g t w1) (\<lambda>(added, w2).
           case added of
             None \<Rightarrow> add_group_targets ini grow params g rest
                       (e\<lparr>re_targets := re_targets e @ [t], re_nleft := re_nleft e + 1\<rparr>) w2
           | Some err \<Rightarrow> andthen (delete_target t w2) (\<lambda>w3.
               andthen (undo_targets g (re_targets e) w3) (\<lambda>w4. Ret (Some err, e, w4)))))"

definition entry_init ::
  "(nat \<Rightarrow> bool) \<Rightarrow> (nat \<Rightarrow> bool) \<Rightarrow> route_params \<Rightarrow> route_entry \<Rightarrow> route_env
     \<Rightarrow> (sched_errno option \<times> route_entry \<times> route_env) outcome" where
  "entry_init ini grow params e w =
     (case rp_addrinfo params of
        [] \<Rightarrow> Ret (Some SE_INVAL, e, w)
      | [addr] \<Rightarrow> andthen (create_target ini params addr w) (\<lambda>(res, w1).
          case res of
            Inl err \<Rightarrow> Ret (Some err, e, w1)
          | Inr t \<Rightarrow> Ret (None, e\<lparr>re_targets := re_targets e @ [t], re_request_object := Some (ObjTarget t),
                            re_sha1_64 := rp_sha1_64 params\<rparr>, w1))
      | addrs \<Rightarrow>
          let g = rv_next w;
              w1 = w\<lparr>rv_next := g + 1, rv_groups := g # rv_groups w\<rparr>;
              e1 = e\<lparr>re_group := Some g\<rparr>;
              (err, G) = group_init (ini g) (sc_groups (rv_sched w) g)
          in case err of
               Some er \<Rightarrow> andthen (delete_group g w1) (\<lambda>w2. Ret (Some er, e1, w2))
             | None \<Rightarrow>
                 andthen (add_group_targets ini grow params g addrs e1
                     (upd_sched ((rv_sched w)\<lparr>sc_groups := (sc_groups (rv_sched w))(g := G)\<rparr>) w1)) (\<lambda>(added, e2, w2).
                   case added of
                     None \<Rightarrow> Ret (None, e2\<lparr>re_request_object := Some (ObjGroup g), re_sha1_64 := rp_sha1_64 params\<rparr>, w2)
                   | Some er \<Rightarrow> andthen (delete_group g w2) (\<lambda>w3. Ret (Some er, e2, w3))))"

fun deinit_targets :: "nat option \<Rightarrow> nat list \<Rightarrow> route_env \<Rightarrow> route_env outcome" where
  "deinit_targets grp [] w = Ret w"
| "deinit_targets grp (t # ts) w =
     andthen (case grp of None \<Rightarrow> Ret (None, w) | Some g \<Rightarrow> leave_group g t w) (\<lambda>(_, w1).
       andthen (delete_target t w1) (deinit_targets grp ts))"

definition entry_deinit :: "route_entry \<Rightarrow> route_env \<Rightarrow> (route_entry \<times> route_env) outcome" where
  "entry_deinit e w =
     andthen (deinit_targets (re_group e) (re_targets e) w) (\<lambda>w1.
       andthen (case re_group e of None \<Rightarrow> Ret w1 | Some g \<Rightarrow> delete_group g w1) (\<lambda>w2.
         Ret (e\<lparr>re_breaker_list := []\<rparr>, w2)))"

section \<open>Targets that fail and recover\<close>

definition MTTR_SECOND :: int where
  "MTTR_SECOND = 30"

definition entry_unavailable :: "int \<Rightarrow> nat \<Rightarrow> route_entry \<Rightarrow> route_env \<Rightarrow> (route_entry \<times> route_env) outcome" where
  "entry_unavailable now t e w =
     (if length (re_targets e) \<le> 1 then Ret (e, w)
      else if re_nleft e \<le> 1 then Ret (e, w)
      else case re_group e of
        None \<Rightarrow> UB
      | Some g \<Rightarrow> andthen (leave_group g t w) (\<lambda>(err, w1).
          if err \<noteq> None then Ret (e, w1)
          else Ret (e\<lparr>re_breaker_list := re_breaker_list e @ [(t, now + MTTR_SECOND)],
                     re_nbreak := re_nbreak e + 1, re_nleft := re_nleft e - 1\<rparr>, w1)))"

definition entry_available :: "bool \<Rightarrow> nat \<Rightarrow> route_entry \<Rightarrow> route_env \<Rightarrow> (route_entry \<times> route_env) outcome" where
  "entry_available al t e w =
     (if length (re_targets e) \<le> 1 \<or> re_nbreak e = 0 then Ret (e, w)
      else case re_group e of
        None \<Rightarrow> UB
      | Some g \<Rightarrow> andthen (join_group al g t w) (\<lambda>(err, w1).
          Ret (if err = None then e\<lparr>re_nleft := re_nleft e + 1\<rparr> else e, w1)))"

text \<open>
  The loop of \<open>check_breaker\<close>. It leaves the nodes that it keeps, how many targets it brought back
  and how many nodes it deleted.
\<close>

fun breaker_loop ::
  "(nat \<Rightarrow> bool) \<Rightarrow> nat \<Rightarrow> int \<Rightarrow> (nat \<times> int) list \<Rightarrow> route_entry \<Rightarrow> route_env
     \<Rightarrow> ((nat \<times> int) list \<times> route_entry \<times> route_env) outcome" where
  "breaker_loop grow g cur_time [] e w = Ret ([], e, w)"
| "breaker_loop grow g cur_time ((t, timeout) # nodes) e w =
     (if timeout \<le> cur_time then
        andthen (join_group (grow t) g t w) (\<lambda>(err, w1).
          breaker_loop grow g cur_time nodes
            (e\<lparr>re_nleft := (if err = None then re_nleft e + 1 else re_nleft e), re_nbreak := re_nbreak e - 1\<rparr>) w1)
      else
        andthen (breaker_loop grow g cur_time nodes e w) (\<lambda>(kept, e1, w1). Ret ((t, timeout) # kept, e1, w1)))"

definition check_breaker :: "(nat \<Rightarrow> bool) \<Rightarrow> int \<Rightarrow> route_entry \<Rightarrow> route_env \<Rightarrow> (route_entry \<times> route_env) outcome" where
  "check_breaker grow cur_time e w =
     (if length (re_targets e) \<le> 1 \<or> re_nbreak e = 0 then Ret (e, w)
      else case re_group e of
        None \<Rightarrow> UB
      | Some g \<Rightarrow> andthen (breaker_loop grow g cur_time (re_breaker_list e) e w) (\<lambda>(kept, e1, w1).
          Ret (e1\<lparr>re_breaker_list := kept\<rparr>, w1)))"

section \<open>The cache\<close>

text \<open>The bytes of an integer in memory, the least significant first, and the integer of such bytes.\<close>

definition le_bytes :: "nat \<Rightarrow> int \<Rightarrow> string" where
  "le_bytes n v = map (\<lambda>i. char_of (nat (v div 256 ^ i mod 256))) [0..<n]"

definition word_of_bytes :: "string \<Rightarrow> 64 word" where
  "word_of_bytes bs = word_of_int (foldr (\<lambda>c acc. of_char c + 256 * acc) bs 0)"

definition addr_bytes :: "sock_addr \<Rightarrow> string" where
  "addr_bytes a = le_bytes 4 (int (ai_addrlen a)) @ ai_addr a"

definition generate_key ::
  "(string \<Rightarrow> string) \<Rightarrow> nat \<Rightarrow> sock_addr list \<Rightarrow> string \<Rightarrow> endpoint_params \<Rightarrow> string \<Rightarrow> (64 word) outcome" where
  "generate_key sha1 type addrinfo other_info ep hostname =
     (case addrinfo of
        [] \<Rightarrow> UB
      | a # rest \<Rightarrow>
          let buf = le_bytes 4 (int type) @ (if other_info \<noteq> [] then other_info else [])
                @ le_bytes 8 (int (ep_max_connections ep)) @ le_bytes 4 (ep_connect_timeout ep)
                @ le_bytes 4 (ep_response_timeout ep)
                @ (if rest \<noteq> [] then concat (map addr_bytes (sort (a # rest))) else addr_bytes a)
          in Ret (word_of_bytes (take 8 (drop 8 (sha1 buf)))))"

text \<open>
  The descent of \<open>get\<close>: the empty place (its parent and side) and the lowest node found whose key is
  not below \<open>key\<close>.
\<close>

partial_function (option) cache_descend ::
  "(nat \<Rightarrow> 64 word) \<Rightarrow> 64 word \<Rightarrow> rb_tree \<Rightarrow> nat option \<Rightarrow> nat option \<times> bool \<Rightarrow> nat option
     \<Rightarrow> (nat option \<times> bool \<times> nat option) option" where
  "cache_descend kf key h p place bound =
     (case p of
        None \<Rightarrow> Some (fst place, snd place, bound)
      | Some n \<Rightarrow>
          if key \<le> kf n then cache_descend kf key h (rb_left h n) (Some n, True) (Some n)
          else cache_descend kf key h (rb_right h n) (Some n, False) bound)"

declare cache_descend.simps [code]

text \<open>The limit of connections that the name of the request may override.\<close>

definition max_connections_of :: "string \<Rightarrow> endpoint_params \<Rightarrow> nat" where
  "max_connections_of other_info ep =
     (if start_with other_info ''?maxconn='' \<and> 0 < atoi (drop 9 other_info)
      then nat (atoi (drop 9 other_info)) else ep_max_connections ep)"

text \<open>The branch of \<open>get\<close> that makes a new entry and links it at the empty place.\<close>

definition route_add ::
  "(nat \<Rightarrow> bool) \<Rightarrow> (nat \<Rightarrow> bool) \<Rightarrow> nat \<Rightarrow> sock_addr list \<Rightarrow> 64 word \<Rightarrow> string \<Rightarrow> endpoint_params \<Rightarrow> string
     \<Rightarrow> nat option \<Rightarrow> bool \<Rightarrow> route_manager \<Rightarrow> ((sched_errno + nat \<times> sched_object option) \<times> route_manager) outcome option" where
  "route_add ini grow type addrinfo key other_info ep hostname par lft m =
     (let params = \<lparr>rp_transport_type = type, rp_addrinfo = addrinfo, rp_sha1_64 = key,
            rp_connect_timeout = ep_connect_timeout ep, rp_response_timeout = ep_response_timeout ep,
            rp_max_connections = max_connections_of other_info ep, rp_hostname = hostname\<rparr>;
          n = rv_next (rm_env m)
      in obind (Some (entry_init ini grow params new_entry ((rm_env m)\<lparr>rv_next := n + 1\<rparr>))) (\<lambda>(err, e, w).
           case err of
             Some er \<Rightarrow> Some (Ret (Inl er, m\<lparr>rm_env := w\<rparr>))
           | None \<Rightarrow>
               obind (rb_insert_color n (rb_link_node n par lft (rm_cache m))) (\<lambda>h.
                 Some (Ret (Inr (n, re_request_object e),
                   m\<lparr>rm_cache := h, rm_entry := (rm_entry m)(n := e), rm_env := w\<rparr>)))))"

text \<open>
  \<open>RouteManager::get\<close>: an error, or the entry (the cookie) and its request object.
\<close>

definition route_get ::
  "(string \<Rightarrow> string) \<Rightarrow> (nat \<Rightarrow> bool) \<Rightarrow> (nat \<Rightarrow> bool) \<Rightarrow> int \<Rightarrow> nat \<Rightarrow> sock_addr list \<Rightarrow> string \<Rightarrow> endpoint_params \<Rightarrow> string
     \<Rightarrow> route_manager \<Rightarrow> ((sched_errno + nat \<times> sched_object option) \<times> route_manager) outcome option" where
  "route_get sha1 ini grow now type addrinfo other_info ep hostname m =
     obind (Some (generate_key sha1 type addrinfo other_info ep hostname)) (\<lambda>key.
       case cache_descend (\<lambda>n. re_sha1_64 (rm_entry m n)) key (rm_cache m) (rb_node (rm_cache m)) (None, True) None of
         None \<Rightarrow> None
       | Some (par, lft, bound) \<Rightarrow>
           (case bound of
              Some n \<Rightarrow> if re_sha1_64 (rm_entry m n) = key then
                  Some (andthen (check_breaker grow now (rm_entry m n) (rm_env m)) (\<lambda>(e, w).
                    Ret (Inr (n, re_request_object e), m\<lparr>rm_entry := (rm_entry m)(n := e), rm_env := w\<rparr>)))
                else route_add ini grow type addrinfo key other_info ep hostname par lft m
            | None \<Rightarrow> route_add ini grow type addrinfo key other_info ep hostname par lft m))"

text \<open>The destructor erases the root until the tree is empty.\<close>

partial_function (option) route_destroy :: "route_manager \<Rightarrow> route_manager outcome option" where
  "route_destroy m =
     (case rb_node (rm_cache m) of
        None \<Rightarrow> Some (Ret m)
      | Some n \<Rightarrow>
          (case rb_erase n (rm_cache m) of
             None \<Rightarrow> None
           | Some UB \<Rightarrow> Some UB
           | Some (Ret h) \<Rightarrow>
               (case entry_deinit (rm_entry m n) (rm_env m) of
                  UB \<Rightarrow> Some UB
                | Ret (e, w) \<Rightarrow> route_destroy (m\<lparr>rm_cache := h, rm_entry := (rm_entry m)(n := e), rm_env := w\<rparr>))))"

declare route_destroy.simps [code]

text \<open>
  The static functions: the entry is the cookie, if there is one, and the target may be null.
\<close>

definition notify_unavailable ::
  "int \<Rightarrow> nat option \<Rightarrow> nat option \<Rightarrow> route_manager \<Rightarrow> route_manager outcome" where
  "notify_unavailable now cookie target m =
     (case (cookie, target) of
        (Some n, Some t) \<Rightarrow> andthen (entry_unavailable now t (rm_entry m n) (rm_env m)) (\<lambda>(e, w).
          Ret (m\<lparr>rm_entry := (rm_entry m)(n := e), rm_env := w\<rparr>))
      | _ \<Rightarrow> Ret m)"

definition notify_available ::
  "bool \<Rightarrow> nat option \<Rightarrow> nat option \<Rightarrow> route_manager \<Rightarrow> route_manager outcome" where
  "notify_available al cookie target m =
     (case (cookie, target) of
        (Some n, Some t) \<Rightarrow> andthen (entry_available al t (rm_entry m n) (rm_env m)) (\<lambda>(e, w).
          Ret (m\<lparr>rm_entry := (rm_entry m)(n := e), rm_env := w\<rparr>))
      | _ \<Rightarrow> Ret m)"

end
