(* ===== verification/RouteInv.thy ===== *)
theory RouteInv
  imports RouteManager CommSchedProps
begin

text \<open>
  What the routes rely on in the scheduler: targets and groups that are made and deleted, what a
  target that joins or leaves a group changes, and the invariant of an entry.
\<close>

section \<open>New and deleted objects\<close>

lemma sched_inv_new_target:
  assumes "sched_inv Ts Gs s" "t \<notin> Ts" "target_init ok c old = (None, r)" "c < 2 ^ 32"
  shows "sched_inv (insert t Ts) Gs (s\<lparr>sc_targets := (sc_targets s)(t := r)\<rparr>)" "ct_group r = None" "ct_wait_cnt r = 0"
proof -
  have r: "ct_group r = None \<and> target_ok r \<and> ct_wait_cnt r = 0"
    using assms(3,4) by (auto simp: target_init_def target_ok_def split: if_splits)
  then show "ct_group r = None" "ct_wait_cnt r = 0" by simp_all
  have "group_inv (insert t Ts) ((sc_targets s)(t := r)) g (sc_groups s g)" if "g \<in> Gs" for g
  proof -
    note gi = sched_invD(3) [OF assms(1) that]
    let ?T = "(sc_targets s)(t := r)" and ?h = "cg_heap (sc_groups s g)"
    have nt: "t \<notin> set ?h" using group_invD(2) [OF gi] assms(2) by simp
    have "keys ?T ?h = keys (sc_targets s) ?h" using nt by (auto simp: keys_def)
    moreover have "indexed ?T ?h"
    proof -
      have "?T (?h ! j) = sc_targets s (?h ! j)" if "j < length ?h" for j
        using nt nth_mem [OF that] by auto
      then show ?thesis using group_invD(1) [OF gi] by (simp add: heap_wf_def indexed_def)
    qed
    moreover have "total_max ?T ?h = total_max (sc_targets s) ?h" "total_cur ?T ?h = total_cur (sc_targets s) ?h"
      using nt by (auto simp: total_max_def total_cur_def intro!: arg_cong [of _ _ sum_list])
    moreover have "{x \<in> insert t Ts. ct_group (?T x) = Some g} = {x \<in> Ts. ct_group (sc_targets s x) = Some g}"
      using r assms(2) by auto
    ultimately show ?thesis
      using gi by (simp add: group_inv_def heap_wf_def)
  qed
  then show "sched_inv (insert t Ts) Gs (s\<lparr>sc_targets := (sc_targets s)(t := r)\<rparr>)"
    using assms(1) r by (auto simp: sched_inv_def)
qed

lemma sched_inv_drop_target:
  assumes "sched_inv Ts Gs s" "ct_group (sc_targets s t) = None"
  shows "sched_inv (Ts - {t}) Gs s"
proof -
  have "{x \<in> Ts - {t}. ct_group (sc_targets s x) = Some g} = {x \<in> Ts. ct_group (sc_targets s x) = Some g}" for g
    using assms(2) by auto
  then show ?thesis using assms(1) by (simp only: sched_inv_def group_inv_def) blast
qed

lemma sched_inv_new_group:
  assumes "sched_inv Ts Gs s" "g \<notin> Gs" "group_init ok old = (None, G)"
  shows "sched_inv Ts (insert g Gs) (s\<lparr>sc_groups := (sc_groups s)(g := G)\<rparr>)" "cg_buf_size G = 4"
proof -
  have G: "G = \<lparr>cg_max_load = 0, cg_cur_load = 0, cg_heap = [], cg_buf_size = 4, cg_wait_cnt = 0\<rparr>"
    using assms(3) by (auto simp: group_init_def split: if_splits)
  then show "cg_buf_size G = 4" by simp
  have "{t \<in> Ts. ct_group (sc_targets s t) = Some g} = {}"
    using assms(1,2) by (auto simp: sched_inv_def)
  then have "group_inv Ts (sc_targets s) g G"
    unfolding G by (simp add: group_inv_def heap_wf_def indexed_def keys_def heap_ordered_def total_max_def total_cur_def)
  then show "sched_inv Ts (insert g Gs) (s\<lparr>sc_groups := (sc_groups s)(g := G)\<rparr>)"
    using assms(1,2) by (auto simp: sched_inv_def)
qed

lemma sched_inv_drop_group:
  "sched_inv Ts Gs s \<Longrightarrow> \<forall>t\<in>Ts. ct_group (sc_targets s t) \<noteq> Some g \<Longrightarrow> sched_inv Ts (Gs - {g}) s"
  by (auto simp: sched_inv_def)

section \<open>Joining and leaving\<close>

text \<open>Only the group of \<open>t\<close> changes, to \<open>y\<close>, and only the state of the group \<open>g\<close>.\<close>

definition regrouped :: "nat \<Rightarrow> nat option \<Rightarrow> nat \<Rightarrow> sched \<Rightarrow> sched \<Rightarrow> bool" where
  "regrouped t y g s s' \<longleftrightarrow>
     (\<forall>x. ct_group (sc_targets s' x) = (if x = t then y else ct_group (sc_targets s x))
        \<and> ct_wait_cnt (sc_targets s' x) = ct_wait_cnt (sc_targets s x))
     \<and> (\<forall>x. x \<noteq> g \<longrightarrow> sc_groups s' x = sc_groups s x)"

lemma group_add_joins:
  assumes "sched_inv Ts Gs s" "g \<in> Gs" "t \<in> Ts" "cg_buf_size (sc_groups s g) < 2 ^ 30"
    "ct_group (sc_targets s t) = None" "ct_wait_cnt (sc_targets s t) = 0"
    "al \<or> length (cg_heap (sc_groups s g)) < cg_buf_size (sc_groups s g)"
  shows "\<exists>sig s'. group_add al g t s = Ret (None, sig, s') \<and> sched_inv Ts Gs s' \<and> regrouped t (Some g) g s s'
    \<and> cg_buf_size (sc_groups s' g) = (if length (cg_heap (sc_groups s g)) = cg_buf_size (sc_groups s g)
         then 2 * cg_buf_size (sc_groups s g) else cg_buf_size (sc_groups s g))"
proof -
  let ?T = "sc_targets s" and ?G = "sc_groups s g"
  note gi = sched_invD(3) [OF assms(1,2)]
  note gd = group_invD [OF gi]
  have nt: "t \<notin> set (cg_heap ?G)" using gd(2) assms(5) by simp
  have ok: "target_ok (?T t)" by (rule sched_invD(1) [OF assms(1,3)])
  have some: "heap_insert al t (cg_buf_size ?G) ?T (cg_heap ?G) \<noteq> Ret None"
    using assms(7) by (auto simp: heap_insert_def Let_def split: outcome.split)
  then obtain sz T' h' where h: "heap_insert al t (cg_buf_size ?G) ?T (cg_heap ?G) = Ret (Some (sz, T', h'))"
    "heap_result ?T (add_mset t (mset (cg_heap ?G))) T' h'"
    using heap_insert_correct [OF gd(1) nt ok gd(5,6) assms(4), of al] by blast
  have sz: "sz = (if length (cg_heap ?G) = cg_buf_size ?G then 2 * cg_buf_size ?G else cg_buf_size ?G)"
    using h(1) by (auto simp: heap_insert_def Let_def split: if_splits outcome.splits)
  have sk: "same_keys ?T T'" using h(2) by (simp add: heap_result_def)
  obtain sig s' where r: "group_add al g t s = Ret (None, sig, s')"
    "sc_targets s' = T'(t := (T' t)\<lparr>ct_group := Some g\<rparr>)" "\<forall>x. x \<noteq> g \<longrightarrow> sc_groups s' x = sc_groups s x"
    "cg_buf_size (sc_groups s' g) = sz"
    using h(1) assms(5,6) by (simp add: group_add_def Let_def upd_target_def)
  have "sched_inv Ts Gs s'"
    using group_add_inv [OF assms(1-4), of al] r(1) by auto
  moreover have "regrouped t (Some g) g s s'"
    using r(2,3) same_keys_fields [OF sk] by (simp add: regrouped_def)
  ultimately show ?thesis using r(1,4) sz by auto
qed

lemma group_remove_leaves:
  assumes "sched_inv Ts Gs s" "g \<in> Gs" "t \<in> Ts" "ct_group (sc_targets s t) = Some g" "ct_wait_cnt (sc_targets s t) = 0"
  shows "\<exists>s'. group_remove g t s = Ret (None, [], s') \<and> sched_inv Ts Gs s' \<and> regrouped t None g s s'
    \<and> cg_buf_size (sc_groups s' g) = cg_buf_size (sc_groups s g)"
proof -
  let ?T = "sc_targets s" and ?G = "sc_groups s g"
  note gi = sched_invD(3) [OF assms(1,2)]
  note gd = group_invD [OF gi]
  have th: "t \<in> set (cg_heap ?G)" using gd(2) assms(3,4) by simp
  obtain T' h' where h: "heap_remove (ct_index (?T t)) ?T (cg_heap ?G) = Ret (T', h')"
    "heap_result ?T (mset (cg_heap ?G) - {#t#}) T' h'"
    using heap_remove_correct [OF gd(1) th] by blast
  have sk: "same_keys ?T T'" using h(2) by (simp add: heap_result_def)
  obtain s' where r: "group_remove g t s = Ret (None, [], s')"
    "sc_targets s' = T'(t := (T' t)\<lparr>ct_group := None\<rparr>)" "\<forall>x. x \<noteq> g \<longrightarrow> sc_groups s' x = sc_groups s x"
    "cg_buf_size (sc_groups s' g) = cg_buf_size ?G"
    using h(1) assms(4,5) by (simp add: group_remove_def Let_def upd_target_def)
  have "sched_inv Ts Gs s'"
    using group_remove_inv [OF assms(1-3)] r(1) by auto
  moreover have "regrouped t None g s s'"
    using r(2,3) same_keys_fields [OF sk] by (simp add: regrouped_def)
  ultimately show ?thesis using r(1,4) by auto
qed

lemma group_add_present:
  "ct_group (sc_targets s t) = Some g \<Longrightarrow> group_add al g t s = Ret (Some SE_EXIST, [], s)"
  by (simp add: group_add_def)

lemma group_remove_absent:
  "ct_group (sc_targets s t) = None \<Longrightarrow> group_remove g t s = Ret (Some SE_NOENT, [], s)"
  by (simp add: group_remove_def)

section \<open>The invariant\<close>

text \<open>
  \<open>env_ok\<close>: the allocated objects are distinct and older than the next one, and the scheduler's
  invariant holds for them.
\<close>

definition env_ok :: "route_env \<Rightarrow> bool" where
  "env_ok w \<longleftrightarrow> distinct (rv_targets w) \<and> distinct (rv_groups w)
     \<and> (\<forall>t\<in>set (rv_targets w). t < rv_next w) \<and> (\<forall>g\<in>set (rv_groups w). g < rv_next w)
     \<and> sched_inv (set (rv_targets w)) (set (rv_groups w)) (rv_sched w)"

definition grp :: "route_env \<Rightarrow> nat \<Rightarrow> nat option" where
  "grp w t = ct_group (sc_targets (rv_sched w) t)"

definition waits :: "route_env \<Rightarrow> nat \<Rightarrow> nat" where
  "waits w t = ct_wait_cnt (sc_targets (rv_sched w) t)"

definition bufsz :: "route_env \<Rightarrow> nat \<Rightarrow> nat" where
  "bufsz w g = cg_buf_size (sc_groups (rv_sched w) g)"

text \<open>The targets \<open>ts\<close> are those of the group \<open>g\<close>: nobody else is in it, and it has room for them.\<close>

definition members :: "route_env \<Rightarrow> nat \<Rightarrow> nat list \<Rightarrow> bool" where
  "members w g ts \<longleftrightarrow> g \<in> set (rv_groups w) \<and> distinct ts \<and> set ts \<subseteq> set (rv_targets w)
     \<and> (\<forall>x\<in>set (rv_targets w). grp w x = Some g \<longrightarrow> x \<in> set ts)
     \<and> (\<forall>t\<in>set ts. waits w t = 0 \<and> (grp w t = Some g \<or> grp w t = None))
     \<and> bufsz w g < 2 ^ 30 \<and> length ts \<le> bufsz w g"

definition in_group :: "route_env \<Rightarrow> nat \<Rightarrow> nat list \<Rightarrow> nat list" where
  "in_group w g ts = filter (\<lambda>t. grp w t = Some g) ts"

definition entry_ok :: "route_env \<Rightarrow> route_entry \<Rightarrow> bool" where
  "entry_ok w e \<longleftrightarrow>
     (case re_group e of
        None \<Rightarrow> \<exists>t. re_targets e = [t] \<and> re_request_object e = Some (ObjTarget t) \<and> t \<in> set (rv_targets w)
          \<and> grp w t = None \<and> re_breaker_list e = [] \<and> re_nleft e = 0 \<and> re_nbreak e = 0
      | Some g \<Rightarrow> re_request_object e = Some (ObjGroup g) \<and> members w g (re_targets e) \<and> 2 \<le> length (re_targets e)
          \<and> re_nleft e = int (length (in_group w g (re_targets e))) \<and> 1 \<le> re_nleft e
          \<and> re_nbreak e = int (length (re_breaker_list e))
          \<and> fst ` set (re_breaker_list e) \<subseteq> set (re_targets e)
          \<and> (\<forall>t\<in>set (re_targets e). grp w t = None \<longrightarrow> t \<in> fst ` set (re_breaker_list e)))"

lemma env_okD:
  assumes "env_ok w"
  shows "distinct (rv_targets w)" "distinct (rv_groups w)"
    "t \<in> set (rv_targets w) \<Longrightarrow> t < rv_next w" "g \<in> set (rv_groups w) \<Longrightarrow> g < rv_next w"
    "sched_inv (set (rv_targets w)) (set (rv_groups w)) (rv_sched w)"
  using assms by (simp_all add: env_ok_def)

lemma membersD:
  assumes "members w g ts"
  shows "g \<in> set (rv_groups w)" "distinct ts" "t \<in> set ts \<Longrightarrow> t \<in> set (rv_targets w)"
    "x \<in> set (rv_targets w) \<Longrightarrow> grp w x = Some g \<Longrightarrow> x \<in> set ts"
    "t \<in> set ts \<Longrightarrow> waits w t = 0" "t \<in> set ts \<Longrightarrow> grp w t = Some g \<or> grp w t = None"
    "bufsz w g < 2 ^ 30" "length ts \<le> bufsz w g"
  using assms by (auto simp: members_def)

text \<open>What joining and leaving do to the environment.\<close>

definition moved :: "nat \<Rightarrow> nat option \<Rightarrow> nat \<Rightarrow> route_env \<Rightarrow> route_env \<Rightarrow> bool" where
  "moved t y g w w' \<longleftrightarrow> env_ok w' \<and> w' = upd_sched (rv_sched w') w \<and> regrouped t y g (rv_sched w) (rv_sched w')"

lemma movedD:
  assumes "moved t y g w w'"
  shows "env_ok w'" "rv_targets w' = rv_targets w" "rv_groups w' = rv_groups w" "rv_next w' = rv_next w" "rv_peer w' = rv_peer w"
    "grp w' x = (if x = t then y else grp w x)" "waits w' x = waits w x" "g' \<noteq> g \<Longrightarrow> bufsz w' g' = bufsz w g'"
proof -
  have m: "env_ok w'" "regrouped t y g (rv_sched w) (rv_sched w')" and e: "w' = upd_sched (rv_sched w') w"
    using assms by (simp_all add: moved_def)
  show "env_ok w'" by (rule m(1))
  show "rv_targets w' = rv_targets w" "rv_groups w' = rv_groups w" "rv_next w' = rv_next w" "rv_peer w' = rv_peer w"
    by (subst e; simp add: upd_sched_def)+
  show "grp w' x = (if x = t then y else grp w x)" "waits w' x = waits w x" "g' \<noteq> g \<Longrightarrow> bufsz w' g' = bufsz w g'"
    using m(2) by (simp_all add: regrouped_def grp_def waits_def bufsz_def)
qed

lemma join_absent:
  assumes "env_ok w" "g \<in> set (rv_groups w)" "t \<in> set (rv_targets w)" "bufsz w g < 2 ^ 30" "grp w t = None" "waits w t = 0"
    "al \<or> length (cg_heap (sc_groups (rv_sched w) g)) < bufsz w g"
  shows "\<exists>w'. join_group al g t w = Ret (None, w') \<and> moved t (Some g) g w w'
    \<and> bufsz w' g = (if length (cg_heap (sc_groups (rv_sched w) g)) = bufsz w g then 2 * bufsz w g else bufsz w g)"
proof -
  obtain sig s' where "group_add al g t (rv_sched w) = Ret (None, sig, s')"
    "sched_inv (set (rv_targets w)) (set (rv_groups w)) s'" "regrouped t (Some g) g (rv_sched w) s'"
    "cg_buf_size (sc_groups s' g) = (if length (cg_heap (sc_groups (rv_sched w) g)) = bufsz w g then 2 * bufsz w g else bufsz w g)"
    using group_add_joins [OF env_okD(5) [OF assms(1)] assms(2,3), of al] assms(4-7) by (auto simp: grp_def waits_def bufsz_def)
  then show ?thesis
    using assms(1-3) by (simp add: join_group_def moved_def env_ok_def upd_sched_def bufsz_def)
qed

lemma leave_present:
  assumes "env_ok w" "g \<in> set (rv_groups w)" "t \<in> set (rv_targets w)" "grp w t = Some g" "waits w t = 0"
  shows "\<exists>w'. leave_group g t w = Ret (None, w') \<and> moved t None g w w' \<and> bufsz w' g = bufsz w g"
proof -
  obtain s' where "group_remove g t (rv_sched w) = Ret (None, [], s')"
    "sched_inv (set (rv_targets w)) (set (rv_groups w)) s'" "regrouped t None g (rv_sched w) s'"
    "cg_buf_size (sc_groups s' g) = bufsz w g"
    using group_remove_leaves [OF env_okD(5) [OF assms(1)] assms(2,3)] assms(4,5) by (auto simp: grp_def waits_def bufsz_def)
  then show ?thesis
    using assms(1-3) by (simp add: leave_group_def moved_def env_ok_def upd_sched_def bufsz_def)
qed

lemma join_present:
  "g \<in> set (rv_groups w) \<Longrightarrow> t \<in> set (rv_targets w) \<Longrightarrow> grp w t = Some g \<Longrightarrow> join_group al g t w = Ret (Some SE_EXIST, w)"
  by (simp add: join_group_def grp_def group_add_present upd_sched_def)

lemma leave_absent:
  "g \<in> set (rv_groups w) \<Longrightarrow> t \<in> set (rv_targets w) \<Longrightarrow> grp w t = None \<Longrightarrow> leave_group g t w = Ret (Some SE_NOENT, w)"
  by (simp add: leave_group_def grp_def group_remove_absent upd_sched_def)

text \<open>A member that is out of its group comes back without a new buffer.\<close>

lemma members_room:
  assumes "env_ok w" "members w g ts" "t \<in> set ts" "grp w t = None"
  shows "length (cg_heap (sc_groups (rv_sched w) g)) < bufsz w g"
proof -
  let ?h = "cg_heap (sc_groups (rv_sched w) g)"
  note gd = group_invD [OF sched_invD(3) [OF env_okD(5) [OF assms(1)] membersD(1) [OF assms(2)]]]
  have "distinct ?h" using gd(1) by (simp add: heap_wf_def indexed_def)
  moreover have "set ?h \<subset> set ts"
  proof
    show "set ?h \<subseteq> set ts" using gd(2) membersD(4) [OF assms(2)] by (auto simp: grp_def)
    have "t \<notin> set ?h" using gd(2) assms(4) by (simp add: grp_def)
    then show "set ?h \<noteq> set ts" using assms(3) by blast
  qed
  ultimately have "length ?h < length ts"
    using psubset_card_mono [of "set ts" "set ?h"] membersD(2) [OF assms(2)] by (simp add: distinct_card)
  then show ?thesis using membersD(8) [OF assms(2)] by simp
qed

lemma members_moved:
  assumes "members w g ts" "moved t y g w w'" "t \<in> set ts" "y = None \<or> y = Some g" "bufsz w' g = bufsz w g"
  shows "members w' g ts"
  using assms membersD [OF assms(1)] movedD [OF assms(2)] by (auto simp: members_def split: if_splits)

lemma member_joins:
  assumes "env_ok w" "members w g ts" "t \<in> set ts"
  shows "\<exists>err w'. join_group al g t w = Ret (err, w') \<and> env_ok w' \<and> members w' g ts
    \<and> (err = None \<longleftrightarrow> grp w t = None) \<and> (if err = None then moved t (Some g) g w w' else w' = w)"
proof (cases "grp w t = None")
  case True
  note room = members_room [OF assms True]
  obtain w' where w: "join_group al g t w = Ret (None, w')" "moved t (Some g) g w w'" "bufsz w' g = bufsz w g"
    using join_absent [OF assms(1) membersD(1) [OF assms(2)] membersD(3) [OF assms(2,3)] membersD(7) [OF assms(2)] True
        membersD(5) [OF assms(2,3)], of al] room by auto
  then show ?thesis
    using True members_moved [OF assms(2) w(2) assms(3)] movedD(1) [OF w(2)] by simp
next
  case False
  then have "grp w t = Some g" using membersD(6) [OF assms(2,3)] by (elim disjE) (assumption, erule notE)
  then show ?thesis
    using join_present [of g w t al] membersD(1,3) [OF assms(2)] assms by simp
qed

lemma member_leaves:
  assumes "env_ok w" "members w g ts" "t \<in> set ts"
  shows "\<exists>err w'. leave_group g t w = Ret (err, w') \<and> env_ok w' \<and> members w' g ts
    \<and> (err = None \<longleftrightarrow> grp w t = Some g) \<and> (if err = None then moved t None g w w' else w' = w)"
proof (cases "grp w t = None")
  case False
  then have g: "grp w t = Some g" using membersD(6) [OF assms(2,3)] by (elim disjE) (assumption, erule notE)
  obtain w' where w: "leave_group g t w = Ret (None, w')" "moved t None g w w'" "bufsz w' g = bufsz w g"
    using leave_present [OF assms(1) membersD(1) [OF assms(2)] membersD(3) [OF assms(2,3)] g membersD(5) [OF assms(2,3)]]
    by blast
  have "members w' g ts" using members_moved [OF assms(2) w(2) assms(3)] w(3) by simp
  then show ?thesis
    using g w(1,2) movedD(1) [OF w(2)] by (intro exI [of _ None] exI [of _ w']) simp
next
  case True
  then show ?thesis
    using leave_absent [of g w t] membersD(1,3) [OF assms(2)] assms by simp
qed

end
