(* ===== verification/RouteEntry.thy ===== *)
theory RouteEntry
  imports RouteInv
begin

text \<open>
  The operations on an entry of the route cache: notifications and the breaker keep the invariant
  of the entry and touch no other entry.
\<close>

section \<open>Counting the targets in the group\<close>

lemma in_group_moved:
  assumes "moved t y g w w'" "distinct ts" "t \<in> set ts"
  shows "grp w t = None \<Longrightarrow> y = Some g \<Longrightarrow> length (in_group w' g ts) = Suc (length (in_group w g ts))"
    "grp w t = Some g \<Longrightarrow> y = None \<Longrightarrow> Suc (length (in_group w' g ts)) = length (in_group w g ts)"
proof -
  have c: "length (in_group v g ts) = card {x \<in> set ts. grp v x = Some g}" for v
    using distinct_length_filter [OF assms(2)] by (simp add: in_group_def inf_commute Collect_conj_eq [symmetric] Int_def conj_commute)
  have fin: "finite {x \<in> set ts. grp v x = Some g}" for v by simp
  show "length (in_group w' g ts) = Suc (length (in_group w g ts))" if "grp w t = None" "y = Some g"
  proof -
    have "{x \<in> set ts. grp w' x = Some g} = insert t {x \<in> set ts. grp w x = Some g}"
      using movedD(6) [OF assms(1)] that assms(3) by auto
    then show ?thesis using c fin that(1) by simp
  qed
  show "Suc (length (in_group w' g ts)) = length (in_group w g ts)" if "grp w t = Some g" "y = None"
  proof -
    have "{x \<in> set ts. grp w x = Some g} = insert t {x \<in> set ts. grp w' x = Some g}"
      using movedD(6) [OF assms(1)] that assms(3) by auto
    moreover have "t \<notin> {x \<in> set ts. grp w' x = Some g}" using movedD(6) [OF assms(1), of t] that by simp
    ultimately show ?thesis using c fin by simp
  qed
qed

section \<open>Changes that stay within an entry\<close>

definition stays_in :: "nat option \<Rightarrow> nat list \<Rightarrow> route_env \<Rightarrow> route_env \<Rightarrow> bool" where
  "stays_in grp0 ts w w' \<longleftrightarrow> rv_targets w' = rv_targets w \<and> rv_groups w' = rv_groups w \<and> rv_next w' = rv_next w
     \<and> rv_peer w' = rv_peer w \<and> (\<forall>x. waits w' x = waits w x) \<and> (\<forall>x. x \<notin> set ts \<longrightarrow> grp w' x = grp w x)
     \<and> (\<forall>g. Some g \<noteq> grp0 \<longrightarrow> bufsz w' g = bufsz w g)"

lemma stays_refl [simp]: "stays_in grp0 ts w w"
  by (simp add: stays_in_def)

lemma stays_trans: "stays_in grp0 ts w w' \<Longrightarrow> stays_in grp0 ts w' w'' \<Longrightarrow> stays_in grp0 ts w w''"
  by (simp add: stays_in_def)

lemma stays_moved: "moved t y g w w' \<Longrightarrow> t \<in> set ts \<Longrightarrow> stays_in (Some g) ts w w'"
  by (auto simp: stays_in_def movedD)

text \<open>An entry does not see the changes of another one.\<close>

definition apart :: "route_entry \<Rightarrow> route_entry \<Rightarrow> bool" where
  "apart e1 e2 \<longleftrightarrow> set (re_targets e1) \<inter> set (re_targets e2) = {} \<and> (re_group e1 = None \<or> re_group e1 \<noteq> re_group e2)"

lemma entry_ok_stays:
  assumes "entry_ok w e1" "stays_in (re_group e2) (re_targets e2) w w'" "apart e1 e2"
    "\<forall>x\<in>set (re_targets e2). grp w' x = re_group e2 \<or> grp w' x = None"
  shows "entry_ok w' e1"
proof -
  have s: "rv_targets w' = rv_targets w" "rv_groups w' = rv_groups w" "\<And>x. waits w' x = waits w x"
      "\<And>x. x \<notin> set (re_targets e2) \<Longrightarrow> grp w' x = grp w x" "\<And>g. Some g \<noteq> re_group e2 \<Longrightarrow> bufsz w' g = bufsz w g"
    using assms(2) by (simp_all add: stays_in_def)
  have own: "grp w' x = grp w x" if "x \<in> set (re_targets e1)" for x
    using that assms(3) by (intro s(4)) (auto simp: apart_def)
  show ?thesis
  proof (cases "re_group e1")
    case None
    then obtain t where t: "re_targets e1 = [t]" "re_request_object e1 = Some (ObjTarget t)" "t \<in> set (rv_targets w)"
        "grp w t = None" "re_breaker_list e1 = []" "re_nleft e1 = 0" "re_nbreak e1 = 0"
      using assms(1) by (auto simp: entry_ok_def)
    then show ?thesis using None own [of t] s(1) by (simp add: entry_ok_def)
  next
    case (Some g)
    have e: "re_request_object e1 = Some (ObjGroup g)" "members w g (re_targets e1)" "2 \<le> length (re_targets e1)"
        "re_nleft e1 = int (length (in_group w g (re_targets e1)))" "1 \<le> re_nleft e1"
        "re_nbreak e1 = int (length (re_breaker_list e1))" "fst ` set (re_breaker_list e1) \<subseteq> set (re_targets e1)"
        "\<forall>t\<in>set (re_targets e1). grp w t = None \<longrightarrow> t \<in> fst ` set (re_breaker_list e1)"
      using assms(1) Some by (simp_all add: entry_ok_def)
    have g: "Some g \<noteq> re_group e2" using assms(3) Some by (auto simp: apart_def)
    have "members w' g (re_targets e1)"
      unfolding members_def s(1-3) s(5) [OF g]
    proof (intro conjI ballI impI)
      fix x assume x: "x \<in> set (rv_targets w)" "grp w' x = Some g"
      then have "x \<notin> set (re_targets e2)" using assms(4) g by auto
      then show "x \<in> set (re_targets e1)" using membersD(4) [OF e(2) x(1)] x(2) s(4) by simp
    qed (use membersD [OF e(2)] own in auto)
    moreover have "in_group w' g (re_targets e1) = in_group w g (re_targets e1)"
      unfolding in_group_def by (rule filter_cong) (simp_all add: own)
    ultimately show ?thesis using Some e own by (simp add: entry_ok_def)
  qed
qed

section \<open>Notifications\<close>

text \<open>What stays of an entry for its whole life.\<close>

definition same_entry :: "route_entry \<Rightarrow> route_entry \<Rightarrow> bool" where
  "same_entry e e' \<longleftrightarrow> re_group e' = re_group e \<and> re_targets e' = re_targets e
     \<and> re_request_object e' = re_request_object e \<and> re_sha1_64 e' = re_sha1_64 e"

lemma same_entry_refl [simp]: "same_entry e e"
  by (simp add: same_entry_def)

text \<open>An operation on an entry: it returns, keeps the invariant and stays in the entry.\<close>

definition entry_step :: "route_entry \<Rightarrow> route_env \<Rightarrow> (route_entry \<times> route_env) outcome \<Rightarrow> bool" where
  "entry_step e w r \<longleftrightarrow> (\<exists>e' w'. r = Ret (e', w') \<and> env_ok w' \<and> entry_ok w' e' \<and> same_entry e e'
     \<and> stays_in (re_group e) (re_targets e) w w')"

lemma entry_step_refl: "env_ok w \<Longrightarrow> entry_ok w e \<Longrightarrow> entry_step e w (Ret (e, w))"
  by (simp add: entry_step_def)

lemma entry_okD:
  assumes "entry_ok w e" "re_group e = Some g"
  shows "re_request_object e = Some (ObjGroup g)" "members w g (re_targets e)" "2 \<le> length (re_targets e)"
    "re_nleft e = int (length (in_group w g (re_targets e)))" "1 \<le> re_nleft e"
    "re_nbreak e = int (length (re_breaker_list e))" "fst ` set (re_breaker_list e) \<subseteq> set (re_targets e)"
    "t \<in> set (re_targets e) \<Longrightarrow> grp w t = None \<Longrightarrow> t \<in> fst ` set (re_breaker_list e)"
  using assms by (simp_all add: entry_ok_def)

lemma entry_ok_small:
  "entry_ok w e \<Longrightarrow> re_group e = None \<Longrightarrow> length (re_targets e) \<le> 1 \<and> re_nbreak e = 0 \<and> re_nleft e \<le> 1"
  by (auto simp: entry_ok_def)

lemma entry_unavailable_ok:
  assumes "env_ok w" "entry_ok w e" "t \<in> set (re_targets e)"
  shows "entry_step e w (entry_unavailable now t e w)"
proof (cases "re_group e")
  case None
  then show ?thesis
    using entry_ok_small [OF assms(2)] entry_step_refl [OF assms(1,2)] by (simp add: entry_unavailable_def)
next
  case (Some g)
  note e = entry_okD [OF assms(2) Some]
  show ?thesis
  proof (cases "re_nleft e \<le> 1")
    case True
    then show ?thesis using e(3) entry_step_refl [OF assms(1,2)] by (simp add: entry_unavailable_def)
  next
    case False
    obtain err w' where l: "leave_group g t w = Ret (err, w')" "env_ok w'" "members w' g (re_targets e)"
        "err = None \<longleftrightarrow> grp w t = Some g" "if err = None then moved t None g w w' else w' = w"
      using member_leaves [OF assms(1) e(2) assms(3)] by (elim exE conjE)
    show ?thesis
    proof (cases "err = None")
      case True
      let ?e = "e\<lparr>re_breaker_list := re_breaker_list e @ [(t, now + MTTR_SECOND)], re_nbreak := re_nbreak e + 1,
        re_nleft := re_nleft e - 1\<rparr>"
      have m: "moved t None g w w'" "grp w t = Some g" using True l(4,5) by simp_all
      have n: "re_nleft e - 1 = int (length (in_group w' g (re_targets e)))"
        using in_group_moved(2) [OF m(1) membersD(2) [OF e(2)] assms(3) m(2)] e(4) by simp
      have "entry_ok w' ?e"
        using Some e l(3) n False assms(3) movedD(6) [OF m(1)] by (auto simp: entry_ok_def)
      then show ?thesis
        using l(1,2) True Some e(3) False stays_moved [OF m(1) assms(3)]
        by (simp add: entry_unavailable_def entry_step_def same_entry_def)
    next
      case nerr: False
      then have "w' = w" using l(5) by simp
      then show ?thesis
        using l(1) nerr Some e(3) False entry_step_refl [OF assms(1,2)] by (simp add: entry_unavailable_def)
    qed
  qed
qed

lemma entry_available_ok:
  assumes "env_ok w" "entry_ok w e" "t \<in> set (re_targets e)"
  shows "entry_step e w (entry_available al t e w)"
proof (cases "re_group e")
  case None
  then show ?thesis
    using entry_ok_small [OF assms(2)] entry_step_refl [OF assms(1,2)] by (simp add: entry_available_def)
next
  case (Some g)
  note e = entry_okD [OF assms(2) Some]
  show ?thesis
  proof (cases "re_nbreak e = 0")
    case True
    then show ?thesis using entry_step_refl [OF assms(1,2)] by (simp add: entry_available_def)
  next
    case False
    obtain err w' where l: "join_group al g t w = Ret (err, w')" "env_ok w'" "members w' g (re_targets e)"
        "err = None \<longleftrightarrow> grp w t = None" "if err = None then moved t (Some g) g w w' else w' = w"
      using member_joins [OF assms(1) e(2) assms(3), of al] by (elim exE conjE)
    show ?thesis
    proof (cases "err = None")
      case True
      let ?e = "e\<lparr>re_nleft := re_nleft e + 1\<rparr>"
      have m: "moved t (Some g) g w w'" "grp w t = None" using True l(4,5) by simp_all
      have n: "re_nleft e + 1 = int (length (in_group w' g (re_targets e)))"
        using in_group_moved(1) [OF m(1) membersD(2) [OF e(2)] assms(3) m(2)] e(4) by simp
      have "entry_ok w' ?e"
        using Some e l(3) n movedD(6) [OF m(1)] by (auto simp: entry_ok_def)
      then show ?thesis
        using l(1,2) True Some e(3) False stays_moved [OF m(1) assms(3)]
        by (simp add: entry_available_def entry_step_def same_entry_def)
    next
      case nerr: False
      then obtain er where "err = Some er" "w' = w" using l(5) by auto
      then show ?thesis
        using l(1) Some e(3) False entry_step_refl [OF assms(1,2)] by (simp add: entry_available_def)
    qed
  qed
qed

section \<open>The breaker\<close>

lemma length_filter_imp_le: "(\<And>x. P x \<Longrightarrow> Q x) \<Longrightarrow> length (filter P xs) \<le> length (filter Q xs)"
  by (induction xs) auto

definition expired :: "int \<Rightarrow> (nat \<times> int) list \<Rightarrow> nat list" where
  "expired now nodes = map fst (filter (\<lambda>(t, timeout). timeout \<le> now) nodes)"

definition waiting :: "int \<Rightarrow> (nat \<times> int) list \<Rightarrow> (nat \<times> int) list" where
  "waiting now nodes = filter (\<lambda>(t, timeout). now < timeout) nodes"

lemma breaker_loop_ok:
  assumes "env_ok w" "members w g ts" "fst ` set nodes \<subseteq> set ts"
  shows "\<exists>w'. breaker_loop grow g now nodes e w = Ret (waiting now nodes,
      e\<lparr>re_nleft := re_nleft e + int (length (in_group w' g ts)) - int (length (in_group w g ts)),
        re_nbreak := re_nbreak e - int (length (expired now nodes))\<rparr>, w')
    \<and> env_ok w' \<and> members w' g ts \<and> stays_in (Some g) ts w w'
    \<and> (\<forall>x. grp w' x = (if x \<in> set (expired now nodes) then Some g else grp w x))"
  using assms
proof (induction nodes arbitrary: e w)
  case Nil
  then show ?case by (intro exI [of _ w]) (simp add: waiting_def expired_def)
next
  case (Cons n nodes)
  obtain t timeout where n: "n = (t, timeout)" by (cases n)
  have t: "t \<in> set ts" and sub: "fst ` set nodes \<subseteq> set ts" using Cons.prems(3) n by auto
  show ?case
  proof (cases "timeout \<le> now")
    case True
    obtain err w1 where j: "join_group (grow t) g t w = Ret (err, w1)" "env_ok w1" "members w1 g ts"
        "err = None \<longleftrightarrow> grp w t = None" "if err = None then moved t (Some g) g w w1 else w1 = w"
      using member_joins [OF Cons.prems(1,2) t, of "grow t"] by (elim exE conjE)
    have cnt: "(if err = None then re_nleft e + 1 else re_nleft e)
        = re_nleft e + int (length (in_group w1 g ts)) - int (length (in_group w g ts))"
      using j(4,5) in_group_moved(1) [OF _ membersD(2) [OF Cons.prems(2)] t] by (cases "err = None") auto
    have g1: "grp w1 x = (if x = t then Some g else grp w x)" for x
      using j(4,5) movedD(6) membersD(6) [OF Cons.prems(2) t] by (cases "err = None") auto
    have st: "stays_in (Some g) ts w w1" using j(5) stays_moved t by (cases "err = None") auto
    define e1 where "e1 = e\<lparr>re_nleft := (if err = None then re_nleft e + 1 else re_nleft e), re_nbreak := re_nbreak e - 1\<rparr>"
    obtain w' where w': "breaker_loop grow g now nodes e1 w1 = Ret (waiting now nodes,
      e1\<lparr>re_nleft := re_nleft e1 + int (length (in_group w' g ts)) - int (length (in_group w1 g ts)),
        re_nbreak := re_nbreak e1 - int (length (expired now nodes))\<rparr>, w')"
      "env_ok w'" "members w' g ts" "stays_in (Some g) ts w1 w'"
      "\<forall>x. grp w' x = (if x \<in> set (expired now nodes) then Some g else grp w1 x)"
      using Cons.IH [OF j(2,3) sub, of e1] by (elim exE conjE)
    have x: "waiting now (n # nodes) = waiting now nodes" "expired now (n # nodes) = t # expired now nodes"
      using True n by (simp_all add: waiting_def expired_def)
    have "re_nleft e1 = re_nleft e + int (length (in_group w1 g ts)) - int (length (in_group w g ts))" "re_nbreak e1 = re_nbreak e - 1"
      using cnt by (simp_all add: e1_def)
    then have "e1\<lparr>re_nleft := re_nleft e1 + int (length (in_group w' g ts)) - int (length (in_group w1 g ts)),
        re_nbreak := re_nbreak e1 - int (length (expired now nodes))\<rparr>
      = e\<lparr>re_nleft := re_nleft e + int (length (in_group w' g ts)) - int (length (in_group w g ts)),
        re_nbreak := re_nbreak e - int (length (expired now (n # nodes)))\<rparr>"
      unfolding x by (simp add: e1_def)
    moreover have "breaker_loop grow g now (n # nodes) e w = breaker_loop grow g now nodes e1 w1"
      using j(1) True n by (simp add: e1_def)
    moreover have "\<forall>y. grp w' y = (if y \<in> set (expired now (n # nodes)) then Some g else grp w y)"
      using w'(5) g1 unfolding x by simp
    ultimately show ?thesis
      using w'(1-3) stays_trans [OF st w'(4)] unfolding x(1) by (intro exI [of _ w']) metis
  next
    case False
    obtain w' where w': "breaker_loop grow g now nodes e w = Ret (waiting now nodes,
      e\<lparr>re_nleft := re_nleft e + int (length (in_group w' g ts)) - int (length (in_group w g ts)),
        re_nbreak := re_nbreak e - int (length (expired now nodes))\<rparr>, w')
    \<and> env_ok w' \<and> members w' g ts \<and> stays_in (Some g) ts w w'
    \<and> (\<forall>x. grp w' x = (if x \<in> set (expired now nodes) then Some g else grp w x))"
      using Cons.IH [OF Cons.prems(1,2) sub] by blast
    have "waiting now (n # nodes) = n # waiting now nodes" "expired now (n # nodes) = expired now nodes"
      using False n by (simp_all add: waiting_def expired_def)
    then show ?thesis
      using w' False n by (intro exI [of _ w']) simp
  qed
qed

lemma waiting_expired: "length (waiting now nodes) + length (expired now nodes) = length nodes"
  by (induction nodes) (auto simp: waiting_def expired_def)

lemma fst_split: "fst ` set nodes = set (expired now nodes) \<union> fst ` set (waiting now nodes)"
  by (force simp: expired_def waiting_def)

lemma check_breaker_ok:
  assumes "env_ok w" "entry_ok w e"
  shows "entry_step e w (check_breaker grow now e w)"
    "re_group e = Some g \<Longrightarrow> \<exists>e' w'. check_breaker grow now e w = Ret (e', w')
       \<and> re_breaker_list e' = waiting now (re_breaker_list e)
       \<and> (\<forall>t. grp w' t = (if t \<in> set (expired now (re_breaker_list e)) then Some g else grp w t))"
proof -
  have both: "entry_step e w (check_breaker grow now e w) \<and> (\<exists>e' w'. check_breaker grow now e w = Ret (e', w')
       \<and> re_breaker_list e' = waiting now (re_breaker_list e)
       \<and> (\<forall>t. grp w' t = (if t \<in> set (expired now (re_breaker_list e)) then Some g else grp w t)))" if Some: "re_group e = Some g" for g
  proof (cases "re_nbreak e = 0")
    case True
    then have "re_breaker_list e = []" using entry_okD(6) [OF assms(2) Some] by simp
    then show ?thesis
      using entry_step_refl [OF assms] True by (simp add: check_breaker_def waiting_def expired_def)
  next
    case False
    note e = entry_okD [OF assms(2) Some]
    let ?ts = "re_targets e" and ?nodes = "re_breaker_list e"
    obtain w' where w': "breaker_loop grow g now ?nodes e w = Ret (waiting now ?nodes,
        e\<lparr>re_nleft := re_nleft e + int (length (in_group w' g ?ts)) - int (length (in_group w g ?ts)),
          re_nbreak := re_nbreak e - int (length (expired now ?nodes))\<rparr>, w')"
      "env_ok w'" "members w' g ?ts" "stays_in (Some g) ?ts w w'"
      "\<forall>x. grp w' x = (if x \<in> set (expired now ?nodes) then Some g else grp w x)"
      using breaker_loop_ok [OF assms(1) e(2,7), of grow now e] by blast
    let ?e = "e\<lparr>re_breaker_list := waiting now ?nodes, re_nleft := int (length (in_group w' g ?ts)),
        re_nbreak := int (length (waiting now ?nodes))\<rparr>"
    have "in_group w' g ?ts = filter (\<lambda>t. t \<in> set (expired now ?nodes) \<or> grp w t = Some g) ?ts"
      unfolding in_group_def using w'(5) by (intro filter_cong) auto
    then have "length (in_group w g ?ts) \<le> length (in_group w' g ?ts)"
      unfolding in_group_def by (simp add: length_filter_imp_le)
    then have pos: "1 \<le> int (length (in_group w' g ?ts))" using e(4,5) by linarith
    have "fst ` set (waiting now ?nodes) \<subseteq> set ?ts" using e(7) fst_split [of ?nodes now] by blast
    moreover have "t \<in> fst ` set (waiting now ?nodes)" if "t \<in> set ?ts" "grp w' t = None" for t
      using that e(8) [of t] w'(5) fst_split [of ?nodes now] by (auto split: if_splits)
    ultimately have ok: "entry_ok w' ?e"
      using Some e(1,3) w'(3) pos by (simp add: entry_ok_def)
    have r: "check_breaker grow now e w = Ret (?e, w')"
      using w'(1) Some e(3,4,6) False waiting_expired [of now ?nodes] by (simp add: check_breaker_def)
    then have "entry_step e w (check_breaker grow now e w)"
      using ok w'(2,4) Some by (simp add: entry_step_def same_entry_def)
    then show ?thesis using r w'(5) by simp
  qed
  show "entry_step e w (check_breaker grow now e w)"
  proof (cases "re_group e")
    case None
    then show ?thesis
      using entry_ok_small [OF assms(2)] entry_step_refl [OF assms] by (simp add: check_breaker_def)
  qed (use both in blast)
  show "re_group e = Some g \<Longrightarrow> \<exists>e' w'. check_breaker grow now e w = Ret (e', w')
       \<and> re_breaker_list e' = waiting now (re_breaker_list e)
       \<and> (\<forall>t. grp w' t = (if t \<in> set (expired now (re_breaker_list e)) then Some g else grp w t))"
    using both by blast
qed

end
