(* ===== verification/RouteInit.thy ===== *)
theory RouteInit
  imports RouteEntry
begin

text \<open>
  Making and deleting an entry of the route cache: every object that is made is part of the entry
  or deleted again, and the other entries do not notice.
\<close>

section \<open>Targets\<close>

lemma delete_target_ok:
  assumes "env_ok w" "t \<in> set (rv_targets w)" "grp w t = None"
  shows "delete_target t w = Ret (w\<lparr>rv_targets := remove1 t (rv_targets w)\<rparr>)"
    "env_ok (w\<lparr>rv_targets := remove1 t (rv_targets w)\<rparr>)"
proof -
  show "delete_target t w = Ret (w\<lparr>rv_targets := remove1 t (rv_targets w)\<rparr>)"
    using assms(2) by (simp add: delete_target_def)
  note d = env_okD [OF assms(1)]
  have "sched_inv (set (rv_targets w) - {t}) (set (rv_groups w)) (rv_sched w)"
    using sched_inv_drop_target [OF d(5)] assms(3) by (simp add: grp_def)
  then show "env_ok (w\<lparr>rv_targets := remove1 t (rv_targets w)\<rparr>)"
    using d by (simp add: env_ok_def)
qed

text \<open>The connection parameters that a target of an entry gets.\<close>

definition peer_of :: "route_params \<Rightarrow> sock_addr \<Rightarrow> comm_target" where
  "peer_of params addr = \<lparr>tg_addr = addr, tg_connect_timeout = rp_connect_timeout params,
     tg_response_timeout = rp_response_timeout params\<rparr>"

text \<open>Only the object \<open>t\<close> is new, or nothing is.\<close>

definition target_made :: "route_params \<Rightarrow> sock_addr \<Rightarrow> route_env \<Rightarrow> route_env \<Rightarrow> bool" where
  "target_made params addr w w' \<longleftrightarrow> env_ok w' \<and> rv_targets w' = rv_next w # rv_targets w \<and> rv_groups w' = rv_groups w
     \<and> rv_next w' = rv_next w + 1 \<and> rv_peer w' = (rv_peer w)(rv_next w := peer_of params addr)
     \<and> (\<forall>x. grp w' x = (if x = rv_next w then None else grp w x) \<and> waits w' x = (if x = rv_next w then 0 else waits w x))
     \<and> sc_groups (rv_sched w') = sc_groups (rv_sched w)"

definition nothing_made :: "route_env \<Rightarrow> route_env \<Rightarrow> bool" where
  "nothing_made w w' \<longleftrightarrow> env_ok w' \<and> w' = w\<lparr>rv_next := rv_next w'\<rparr> \<and> rv_next w \<le> rv_next w'"

definition may_make :: "(nat \<Rightarrow> bool) \<Rightarrow> route_params \<Rightarrow> nat \<Rightarrow> bool" where
  "may_make ini params t \<longleftrightarrow> rp_transport_type params = TT_TCP \<and> 0 < rp_max_connections params \<and> ini t"

lemma create_target_ok:
  assumes "env_ok w" "rp_max_connections params < 2 ^ 32"
  shows "may_make ini params (rv_next w) \<Longrightarrow>
      \<exists>w'. create_target ini params addr w = Ret (Inr (rv_next w), w') \<and> target_made params addr w w'"
    "\<not> may_make ini params (rv_next w) \<Longrightarrow>
      \<exists>err w'. create_target ini params addr w = Ret (Inl err, w') \<and> nothing_made w w'"
proof -
  note d = env_okD [OF assms(1)]
  let ?t = "rv_next w" and ?c = "rp_max_connections params"
  obtain err r where i: "target_init (ini ?t) ?c (sc_targets (rv_sched w) ?t) = (err, r)"
    by (cases "target_init (ini ?t) ?c (sc_targets (rv_sched w) ?t)")
  have new: "?t \<notin> set (rv_targets w)" using d(3) by blast
  show "\<exists>w'. create_target ini params addr w = Ret (Inr ?t, w') \<and> target_made params addr w w'" if "may_make ini params ?t"
  proof -
    have n: "err = None" and tcp: "rp_transport_type params = TT_TCP"
      using i that by (auto simp: target_init_def may_make_def split: if_splits)
    define w' where "w' = w\<lparr>rv_next := ?t + 1, rv_targets := ?t # rv_targets w,
      rv_sched := (rv_sched w)\<lparr>sc_targets := (sc_targets (rv_sched w))(?t := r)\<rparr>, rv_peer := (rv_peer w)(?t := peer_of params addr)\<rparr>"
    note si = sched_inv_new_target [OF d(5) new i [unfolded n] assms(2)]
    have "env_ok w'"
      using d(1-4) new si(1) by (auto simp: env_ok_def w'_def less_Suc_eq)
    then have "target_made params addr w w'"
      using si(2,3) by (auto simp: target_made_def w'_def grp_def waits_def)
    moreover have "create_target ini params addr w = Ret (Inr ?t, w')"
      using tcp i n by (simp add: create_target_def Let_def w'_def peer_of_def)
    ultimately show ?thesis by blast
  qed
  show "\<exists>err w'. create_target ini params addr w = Ret (Inl err, w') \<and> nothing_made w w'" if nm: "\<not> may_make ini params ?t"
  proof (cases "rp_transport_type params = TT_TCP")
    case False
    then show ?thesis using assms(1) by (simp add: create_target_def nothing_made_def)
  next
    case True
    then obtain er where er: "err = Some er"
      using i nm by (auto simp: target_init_def may_make_def split: if_splits)
    have "env_ok (w\<lparr>rv_next := ?t + 1\<rparr>)"
      using assms(1) by (auto simp: env_ok_def less_Suc_eq)
    then show ?thesis
      using True i er by (simp add: create_target_def Let_def delete_target_def nothing_made_def)
  qed
qed

section \<open>Taking back\<close>

text \<open>The targets \<open>ts\<close> are gone, the others are as before.\<close>

definition gone :: "nat \<Rightarrow> nat list \<Rightarrow> route_env \<Rightarrow> route_env \<Rightarrow> bool" where
  "gone g ts w w' \<longleftrightarrow> env_ok w' \<and> mset (rv_targets w') = mset (rv_targets w) - mset ts \<and> rv_groups w' = rv_groups w
     \<and> rv_next w' = rv_next w \<and> rv_peer w' = rv_peer w
     \<and> (\<forall>x. waits w' x = waits w x) \<and> (\<forall>x. x \<notin> set ts \<longrightarrow> grp w' x = grp w x) \<and> (\<forall>g'. g' \<noteq> g \<longrightarrow> bufsz w' g' = bufsz w g')
     \<and> (\<forall>x\<in>set (rv_targets w'). grp w' x \<noteq> Some g)"

lemma undo_targets_ok:
  assumes "env_ok w" "members w g ts"
  shows "\<exists>w'. undo_targets g ts w = Ret w' \<and> gone g ts w w'"
  using assms
proof (induction ts arbitrary: w)
  case Nil
  then show ?case using membersD(4) [OF Nil(2)] by (auto simp: gone_def)
next
  case (Cons t ts)
  note m = membersD [OF Cons.prems(2)]
  have t: "t \<in> set (t # ts)" by simp
  obtain err w1 where l: "leave_group g t w = Ret (err, w1)" "env_ok w1" "members w1 g (t # ts)"
      "err = None \<longleftrightarrow> grp w t = Some g" "if err = None then moved t None g w w1 else w1 = w"
    using member_leaves [OF Cons.prems t] by (elim exE conjE)
  have st: "stays_in (Some g) [t] w w1"
    using l(5) stays_moved by (cases "err = None") auto
  have g1: "grp w1 t = None"
    using l(4,5) movedD(6) m(6) [OF t] by (cases "err = None") auto
  note m1 = membersD [OF l(3)]
  define w2 where "w2 = w1\<lparr>rv_targets := remove1 t (rv_targets w1)\<rparr>"
  have d: "delete_target t w1 = Ret w2" "env_ok w2"
    using delete_target_ok [OF l(2) m1(3) [OF t] g1] by (simp_all add: w2_def)
  have e2: "grp w2 x = grp w1 x" "waits w2 x = waits w1 x" "bufsz w2 g' = bufsz w1 g'" for x g'
    by (simp_all add: w2_def grp_def waits_def bufsz_def)
  have tg2: "set (rv_targets w2) = set (rv_targets w1) - {t}" "mset (rv_targets w2) = mset (rv_targets w1) - {#t#}"
    using env_okD(1) [OF l(2)] by (simp_all add: w2_def)
  have "members w2 g ts"
    unfolding members_def e2 tg2 using m1 g1 m(2) by (auto simp: w2_def)
  then obtain w' where w': "undo_targets g ts w2 = Ret w'" "gone g ts w2 w'"
    using Cons.IH [OF d(2)] by blast
  have "gone g (t # ts) w w'"
    using w'(2) st m(2) unfolding gone_def e2 tg2 by (simp add: stays_in_def w2_def)
  then show ?case using l(1) d(1) w'(1) by simp
qed

lemma deinit_targets_group: "deinit_targets (Some g) ts w = undo_targets g ts w"
proof (induction ts arbitrary: w)
  case (Cons t ts)
  then have "deinit_targets (Some g) ts = undo_targets g ts" by blast
  then show ?case by (simp add: case_prod_unfold)
qed simp

section \<open>A group for many addresses\<close>

text \<open>
  The state between two rounds of \<open>add_group_targets\<close>: all targets made so far are in the group,
  whose buffer has not grown more than needed.
\<close>

definition adding :: "route_env \<Rightarrow> nat \<Rightarrow> nat list \<Rightarrow> bool" where
  "adding w g ts \<longleftrightarrow> members w g ts \<and> (\<forall>t\<in>set ts. grp w t = Some g) \<and> bufsz w g \<le> max 4 (2 * length ts)"

lemma adding_heap:
  assumes "env_ok w" "adding w g ts"
  shows "length (cg_heap (sc_groups (rv_sched w) g)) = length ts"
proof -
  have m: "members w g ts" and a: "\<forall>t\<in>set ts. grp w t = Some g" using assms(2) by (simp_all add: adding_def)
  let ?h = "cg_heap (sc_groups (rv_sched w) g)"
  note gd = group_invD [OF sched_invD(3) [OF env_okD(5) [OF assms(1)] membersD(1) [OF m]]]
  have "set ?h = set ts" using gd(2) membersD(3,4) [OF m] a by (auto simp: grp_def)
  moreover have "distinct ?h" using gd(1) by (simp add: heap_wf_def indexed_def)
  ultimately show ?thesis using membersD(2) [OF m] by (metis distinct_card)
qed

lemma target_joins:
  assumes "target_made params addr w w1" "env_ok w" "adding w g ts" "length ts < 2 ^ 29" "t = rv_next w"
    "length ts < bufsz w g \<or> al"
  shows "\<exists>w2. join_group al g t w1 = Ret (None, w2) \<and> moved t (Some g) g w1 w2 \<and> adding w2 g (ts @ [t])"
proof -
  have m: "members w g ts" and a: "\<forall>t\<in>set ts. grp w t = Some g" and b: "bufsz w g \<le> max 4 (2 * length ts)"
    using assms(3) by (simp_all add: adding_def)
  note md = membersD [OF m]
  have new: "t \<notin> set (rv_targets w)" using env_okD(3) [OF assms(2)] assms(5) by blast
  have w1: "env_ok w1" "rv_targets w1 = t # rv_targets w" "rv_groups w1 = rv_groups w"
      "\<And>x. grp w1 x = (if x = t then None else grp w x)" "\<And>x. waits w1 x = (if x = t then 0 else waits w x)"
      "sc_groups (rv_sched w1) = sc_groups (rv_sched w)"
    using assms(1,5) by (simp_all add: target_made_def)
  have bz: "bufsz w1 g = bufsz w g" using w1(6) by (simp add: bufsz_def)
  let ?l = "length (cg_heap (sc_groups (rv_sched w1) g))"
  have l: "?l = length ts" using adding_heap [OF assms(2,3)] w1(6) by simp
  have bb: "bufsz w g < 2 ^ 30" "length ts \<le> bufsz w g" by (rule md(7), rule md(8))
  have pos: "0 < bufsz w g"
    using group_invD(6) [OF sched_invD(3) [OF env_okD(5) [OF assms(2)] md(1)]] by (simp add: bufsz_def)
  obtain w2 where w2: "join_group al g t w1 = Ret (None, w2)" "moved t (Some g) g w1 w2"
      "bufsz w2 g = (if ?l = bufsz w1 g then 2 * bufsz w1 g else bufsz w1 g)"
    using join_absent [OF w1(1), of g t al] md(1) w1(2-5) bz bb l assms(6) by auto
  have small: "max 4 (2 * length (ts @ [t])) \<le> 2 ^ 30" using assms(4) by simp
  have b2: "bufsz w2 g \<le> max 4 (2 * length (ts @ [t]))" "length (ts @ [t]) \<le> bufsz w2 g" "bufsz w2 g < 2 ^ 30"
    using w2(3) bz l b bb pos assms(4) by (auto simp: max_def split: if_splits)
  note mv = movedD [OF w2(2)]
  have "members w2 g (ts @ [t])"
    unfolding members_def mv(2,3,6,7) w1(2-5)
    using md(1-6) new b2 by auto
  then show ?thesis
    using w2(1,2) b2(1) a mv(6) w1(4) by (auto simp: adding_def)
qed

lemma join_full:
  assumes "env_ok w" "g \<in> set (rv_groups w)" "t \<in> set (rv_targets w)" "grp w t = None" "waits w t = 0"
    "length (cg_heap (sc_groups (rv_sched w) g)) = bufsz w g" "bufsz w g < 2 ^ 30" "\<not> al"
  shows "join_group al g t w = Ret (Some SE_NOMEM, w)"
  using assms by (simp add: join_group_def group_add_def heap_insert_def Let_def grp_def waits_def bufsz_def upd_sched_def)

text \<open>What all outcomes have in common: objects older than \<open>w\<close> that are not in \<open>ts\<close> are as before.\<close>

definition older_same :: "nat \<Rightarrow> nat list \<Rightarrow> route_env \<Rightarrow> route_env \<Rightarrow> bool" where
  "older_same g ts w w' \<longleftrightarrow> env_ok w' \<and> rv_groups w' = rv_groups w \<and> rv_next w \<le> rv_next w'
     \<and> (\<forall>x < rv_next w. x \<notin> set ts \<longrightarrow> grp w' x = grp w x)
     \<and> (\<forall>x < rv_next w. waits w' x = waits w x \<and> rv_peer w' x = rv_peer w x)
     \<and> (\<forall>g'. g' \<noteq> g \<longrightarrow> bufsz w' g' = bufsz w g')"

lemma older_trans:
  "older_same g ts w w1 \<Longrightarrow> older_same g ts1 w1 w2 \<Longrightarrow> set ts1 \<subseteq> set ts \<union> {x. rv_next w \<le> x} \<Longrightarrow> older_same g ts w w2"
  unfolding older_same_def subset_eq by (auto dest: spec)

lemma older_mono: "older_same g [] w w' \<Longrightarrow> older_same g ts w w'"
  by (simp add: older_same_def)

lemma gone_older: "gone g ts w w' \<Longrightarrow> older_same g ts w w'"
  by (simp add: gone_def older_same_def)

lemma made_older: "target_made params addr w w' \<Longrightarrow> older_same g ts w w'"
  by (simp add: target_made_def older_same_def bufsz_def)

lemma nothing_older: "nothing_made w w' \<Longrightarrow> older_same g ts w w'"
proof -
  assume n: "nothing_made w w'"
  obtain k where "w' = w\<lparr>rv_next := k\<rparr>" using n by (auto simp: nothing_made_def)
  then show ?thesis using n by (simp add: nothing_made_def older_same_def bufsz_def grp_def waits_def)
qed

lemma moved_older: "moved t y g w w' \<Longrightarrow> rv_next w0 \<le> t \<Longrightarrow> older_same g ts w0 w \<Longrightarrow> older_same g ts w0 w'"
  using movedD [of t y g w w'] by (auto simp: older_same_def)

lemma add_group_targets_ok:
  assumes "env_ok w" "adding w g (re_targets e)" "rp_max_connections params < 2 ^ 32"
    "length (re_targets e) + length addrs < 2 ^ 29"
  shows "\<exists>err e' w'. add_group_targets ini grow params g addrs e w = Ret (err, e', w')
    \<and> older_same g (re_targets e) w w'
    \<and> (err = None \<longrightarrow> (\<exists>ts. e' = e\<lparr>re_targets := re_targets e @ ts, re_nleft := re_nleft e + int (length ts)\<rparr>
         \<and> adding w' g (re_targets e @ ts) \<and> mset (rv_targets w') = mset (rv_targets w) + mset ts
         \<and> (\<forall>t\<in>set ts. rv_next w \<le> t) \<and> map (rv_peer w') ts = map (peer_of params) addrs))
    \<and> (err \<noteq> None \<longrightarrow> mset (rv_targets w') = mset (rv_targets w) - mset (re_targets e)
         \<and> (\<forall>x\<in>set (rv_targets w'). grp w' x \<noteq> Some g))
    \<and> ((\<forall>n. may_make ini params n \<and> grow n) \<longrightarrow> err = None)"
  using assms
proof (induction addrs arbitrary: e w)
  case Nil
  then show ?case
    by (intro exI [of _ None] exI [of _ e] exI [of _ w]) (simp add: older_same_def)
next
  case (Cons addr addrs)
  let ?ts = "re_targets e" and ?t = "rv_next w"
  have m: "members w g ?ts" using Cons.prems(2) by (simp add: adding_def)
  have undo: "\<exists>w'. undo_targets g ?ts v = Ret w' \<and> older_same g ?ts w w' \<and> mset (rv_targets w') = mset (rv_targets w) - mset ?ts
      \<and> (\<forall>x\<in>set (rv_targets w'). grp w' x \<noteq> Some g)"
    if v: "env_ok v" "members v g ?ts" "older_same g [] w v" "rv_targets v = rv_targets w" for v
  proof -
    obtain w' where w': "undo_targets g ?ts v = Ret w'" "gone g ?ts v w'"
      using undo_targets_ok [OF v(1,2)] by (elim exE conjE)
    have "older_same g ?ts w w'"
      using older_trans [OF older_mono [OF v(3)] gone_older [OF w'(2)]] by simp
    then show ?thesis using w' v(4) by (simp add: gone_def)
  qed
  show ?case
  proof (cases "may_make ini params ?t")
    case False
    obtain err w1 where c: "create_target ini params addr w = Ret (Inl err, w1)" "nothing_made w w1"
      using create_target_ok(2) [OF Cons.prems(1,3) False, of addr] by (elim exE conjE)
    obtain k where k: "w1 = w\<lparr>rv_next := k\<rparr>" "env_ok w1" using c(2) by (auto simp: nothing_made_def)
    have m1: "members w1 g ?ts" "rv_targets w1 = rv_targets w"
      using m unfolding k(1) by (simp_all add: members_def grp_def waits_def bufsz_def)
    obtain w' where "undo_targets g ?ts w1 = Ret w'" "older_same g ?ts w w'"
        "mset (rv_targets w') = mset (rv_targets w) - mset ?ts" "\<forall>x\<in>set (rv_targets w'). grp w' x \<noteq> Some g"
      using undo [OF k(2) m1(1) nothing_older [OF c(2)] m1(2)] by (elim exE conjE)
    then show ?thesis
      using c(1) False by (intro exI [of _ "Some err"] exI [of _ e] exI [of _ w']) auto
  next
    case True
    obtain w1 where c: "create_target ini params addr w = Ret (Inr ?t, w1)" "target_made params addr w w1"
      using create_target_ok(1) [OF Cons.prems(1,3) True, of addr] by (elim exE conjE)
    have w1: "env_ok w1" "rv_targets w1 = ?t # rv_targets w" "rv_groups w1 = rv_groups w" "rv_next w1 = ?t + 1"
        "\<And>x. grp w1 x = (if x = ?t then None else grp w x)" "\<And>x. waits w1 x = (if x = ?t then 0 else waits w x)"
        "sc_groups (rv_sched w1) = sc_groups (rv_sched w)" "rv_peer w1 = (rv_peer w)(?t := peer_of params addr)"
      using c(2) by (simp_all add: target_made_def)
    have new: "?t \<notin> set (rv_targets w)" using env_okD(3) [OF Cons.prems(1)] by blast
    note old1 = made_older [OF c(2)]
    show ?thesis
    proof (cases "length ?ts < bufsz w g \<or> grow ?t")
      case True
      have len: "length ?ts < 2 ^ 29" using Cons.prems(4) by simp
      obtain w2 where j: "join_group (grow ?t) g ?t w1 = Ret (None, w2)" "moved ?t (Some g) g w1 w2" "adding w2 g (?ts @ [?t])"
        using target_joins [OF c(2) Cons.prems(1,2) len refl True] by (elim exE conjE)
      have old2: "older_same g ts w w2" for ts using moved_older [OF j(2) _ old1] by simp
      note mv = movedD [OF j(2)]
      define e1 where "e1 = e\<lparr>re_targets := ?ts @ [?t], re_nleft := re_nleft e + 1\<rparr>"
      have e1: "re_targets e1 = ?ts @ [?t]" "re_nleft e1 = re_nleft e + 1" by (simp_all add: e1_def)
      have pre: "adding w2 g (re_targets e1)" "length (re_targets e1) + length addrs < 2 ^ 29"
        using j(3) Cons.prems(4) by (simp_all add: e1)
      obtain err e' w' where r: "add_group_targets ini grow params g addrs e1 w2 = Ret (err, e', w')"
        "older_same g (re_targets e1) w2 w'"
        "err = None \<longrightarrow> (\<exists>ts. e' = e1\<lparr>re_targets := re_targets e1 @ ts, re_nleft := re_nleft e1 + int (length ts)\<rparr>
         \<and> adding w' g (re_targets e1 @ ts) \<and> mset (rv_targets w') = mset (rv_targets w2) + mset ts
         \<and> (\<forall>t\<in>set ts. rv_next w2 \<le> t) \<and> map (rv_peer w') ts = map (peer_of params) addrs)"
        "err \<noteq> None \<longrightarrow> mset (rv_targets w') = mset (rv_targets w2) - mset (re_targets e1)
         \<and> (\<forall>x\<in>set (rv_targets w'). grp w' x \<noteq> Some g)"
        "(\<forall>n. may_make ini params n \<and> grow n) \<longrightarrow> err = None"
        using Cons.IH [OF mv(1) pre(1) Cons.prems(3) pre(2)] by (elim exE conjE)
      have "add_group_targets ini grow params g (addr # addrs) e w = Ret (err, e', w')"
        using c(1) j(1) r(1) by (simp add: e1_def)
      moreover have "older_same g ?ts w w'"
        using older_trans [OF old2 r(2)] e1(1) by simp
      moreover have "\<exists>ts. e' = e\<lparr>re_targets := ?ts @ ts, re_nleft := re_nleft e + int (length ts)\<rparr>
         \<and> adding w' g (?ts @ ts) \<and> mset (rv_targets w') = mset (rv_targets w) + mset ts
         \<and> (\<forall>t\<in>set ts. ?t \<le> t) \<and> map (rv_peer w') ts = map (peer_of params) (addr # addrs)" if n: "err = None"
      proof -
        obtain ts where ts: "e' = e1\<lparr>re_targets := re_targets e1 @ ts, re_nleft := re_nleft e1 + int (length ts)\<rparr>"
          "adding w' g (re_targets e1 @ ts)" "mset (rv_targets w') = mset (rv_targets w2) + mset ts"
          "\<forall>t\<in>set ts. rv_next w2 \<le> t" "map (rv_peer w') ts = map (peer_of params) addrs"
          using r(3) n by (elim impE exE conjE) auto
        have "rv_peer w' ?t = peer_of params addr"
          using r(2) mv(4,5) w1(4,8) by (simp add: older_same_def)
        then show ?thesis
          using ts mv(2,4) w1(2,4) e1 by (intro exI [of _ "?t # ts"]) (auto simp: e1_def algebra_simps)
      qed
      moreover have "mset (rv_targets w') = mset (rv_targets w) - mset ?ts \<and> (\<forall>x\<in>set (rv_targets w'). grp w' x \<noteq> Some g)" if "err \<noteq> None"
        using r(4) that mv(2) w1(2) e1(1) by simp
      ultimately show ?thesis using r(5) by blast
    next
      case no: False
      have b: "bufsz w g = length (cg_heap (sc_groups (rv_sched w) g))" "\<not> grow ?t"
        using no adding_heap [OF Cons.prems(1,2)] membersD(8) [OF m] by simp_all
      obtain err w2 where j: "join_group (grow ?t) g ?t w1 = Ret (Some err, w2)" "w2 = w1"
        using join_full [OF w1(1), of g ?t "grow ?t"] b w1(2,3,5-7) membersD(1,7) [OF m] by (auto simp: bufsz_def)
      define w3 where "w3 = w1\<lparr>rv_targets := remove1 ?t (rv_targets w1)\<rparr>"
      have d: "delete_target ?t w1 = Ret w3" "env_ok w3"
        using delete_target_ok [OF w1(1), of ?t] w1(2,5) by (simp_all add: w3_def)
      have e3: "rv_targets w3 = rv_targets w" "rv_groups w3 = rv_groups w" "grp w3 = grp w1" "waits w3 = waits w1"
          "bufsz w3 = bufsz w1" "rv_peer w3 = rv_peer w1" "rv_next w3 = rv_next w1" "bufsz w1 = bufsz w"
        using w1(2,3,7) new by (simp_all add: w3_def grp_def waits_def bufsz_def fun_eq_iff)
      have "?t \<notin> set ?ts" using new membersD(3) [OF m] by blast
      then have m3: "members w3 g ?ts"
        using m new unfolding members_def e3 w1(5,6) by auto
      have o3: "older_same g [] w w3"
        using made_older [OF c(2), of g "[]"] d(2) e3(1,2) w1(2) unfolding older_same_def e3(3-7) by simp
      obtain w' where "undo_targets g ?ts w3 = Ret w'" "older_same g ?ts w w'"
          "mset (rv_targets w') = mset (rv_targets w) - mset ?ts" "\<forall>x\<in>set (rv_targets w'). grp w' x \<noteq> Some g"
        using undo [OF d(2) m3 o3 e3(1)] by (elim exE conjE)
      then show ?thesis
        using c(1) j d(1) b(2) by (intro exI [of _ "Some err"] exI [of _ e] exI [of _ w']) auto
    qed
  qed
qed

section \<open>Making an entry\<close>

text \<open>The objects of \<open>w\<close> are as before, and nothing new is in one of its groups.\<close>

definition kept :: "route_env \<Rightarrow> route_env \<Rightarrow> bool" where
  "kept w w' \<longleftrightarrow> rv_next w \<le> rv_next w'
     \<and> (\<forall>x < rv_next w. grp w' x = grp w x \<and> waits w' x = waits w x \<and> rv_peer w' x = rv_peer w x)
     \<and> (\<forall>g < rv_next w. bufsz w' g = bufsz w g)
     \<and> (\<forall>x\<in>set (rv_targets w'). x \<in> set (rv_targets w) \<or> rv_next w \<le> x \<and> (\<forall>g < rv_next w. grp w' x \<noteq> Some g))"

definition group_list :: "route_entry \<Rightarrow> nat list" where
  "group_list e = (case re_group e of None \<Rightarrow> [] | Some g \<Rightarrow> [g])"

text \<open>The entry \<open>e\<close> was made from \<open>params\<close>, all its targets are new and in service.\<close>

definition entry_made :: "route_params \<Rightarrow> route_entry \<Rightarrow> route_env \<Rightarrow> route_env \<Rightarrow> bool" where
  "entry_made params e w w' \<longleftrightarrow> entry_ok w' e \<and> re_sha1_64 e = rp_sha1_64 params \<and> re_breaker_list e = []
     \<and> mset (rv_targets w') = mset (rv_targets w) + mset (re_targets e)
     \<and> mset (rv_groups w') = mset (rv_groups w) + mset (group_list e)
     \<and> (\<forall>t\<in>set (re_targets e). rv_next w \<le> t \<and> grp w' t = re_group e) \<and> (\<forall>g. re_group e = Some g \<longrightarrow> rv_next w \<le> g)
     \<and> map (rv_peer w') (re_targets e) = map (peer_of params) (rp_addrinfo params)"

lemma delete_group_ok:
  assumes "env_ok w" "g \<in> set (rv_groups w)" "\<forall>x\<in>set (rv_targets w). grp w x \<noteq> Some g"
  shows "delete_group g w = Ret (w\<lparr>rv_groups := remove1 g (rv_groups w)\<rparr>)"
    "env_ok (w\<lparr>rv_groups := remove1 g (rv_groups w)\<rparr>)"
proof -
  show "delete_group g w = Ret (w\<lparr>rv_groups := remove1 g (rv_groups w)\<rparr>)"
    using assms(2) by (simp add: delete_group_def)
  note d = env_okD [OF assms(1)]
  have "sched_inv (set (rv_targets w)) (set (rv_groups w) - {g}) (rv_sched w)"
    using sched_inv_drop_group [OF d(5)] assms(3) by (simp add: grp_def)
  then show "env_ok (w\<lparr>rv_groups := remove1 g (rv_groups w)\<rparr>)"
    using d by (simp add: env_ok_def)
qed

lemma entry_init_one:
  assumes "env_ok w" "rp_max_connections params < 2 ^ 32" "rp_addrinfo params = [addr]"
  shows "\<exists>err e w'. entry_init ini grow params new_entry w = Ret (err, e, w') \<and> env_ok w' \<and> kept w w'
    \<and> (err = None \<longrightarrow> entry_made params e w w')
    \<and> (err \<noteq> None \<longrightarrow> mset (rv_targets w') = mset (rv_targets w) \<and> mset (rv_groups w') = mset (rv_groups w))
    \<and> (may_make ini params (rv_next w) \<longrightarrow> err = None)"
proof (cases "may_make ini params (rv_next w)")
  case True
  obtain w' where c: "create_target ini params addr w = Ret (Inr (rv_next w), w')" "target_made params addr w w'"
    using create_target_ok(1) [OF assms(1,2) True, of addr] by (elim exE conjE)
  let ?e = "new_entry\<lparr>re_targets := [rv_next w], re_request_object := Some (ObjTarget (rv_next w)), re_sha1_64 := rp_sha1_64 params\<rparr>"
  have "entry_init ini grow params new_entry w = Ret (None, ?e, w')"
    using assms(3) c(1) by (simp add: entry_init_def) (simp add: new_entry_def)
  moreover have "kept w w'"
    using c(2) by (simp add: target_made_def kept_def bufsz_def)
  moreover have "entry_made params ?e w w'"
    using c(2) assms(3) by (simp add: target_made_def entry_made_def entry_ok_def new_entry_def group_list_def)
  ultimately show ?thesis using c(2) by (auto simp: target_made_def)
next
  case False
  obtain err w' where c: "create_target ini params addr w = Ret (Inl err, w')" "nothing_made w w'"
    using create_target_ok(2) [OF assms(1,2) False, of addr] by (elim exE conjE)
  obtain k where k: "w' = w\<lparr>rv_next := k\<rparr>" "env_ok w'" "rv_next w \<le> k" using c(2) by (auto simp: nothing_made_def)
  have "entry_init ini grow params new_entry w = Ret (Some err, new_entry, w')"
    using assms(3) c(1) by (simp add: entry_init_def)
  then show ?thesis
    using False k by (simp add: kept_def grp_def waits_def bufsz_def)
qed

lemma entry_init_many:
  assumes "env_ok w" "rp_max_connections params < 2 ^ 32" "rp_addrinfo params = a # b # addrs" "length (rp_addrinfo params) < 2 ^ 29"
  shows "\<exists>err e w'. entry_init ini grow params new_entry w = Ret (err, e, w') \<and> env_ok w' \<and> kept w w'
    \<and> (err = None \<longrightarrow> entry_made params e w w')
    \<and> (err \<noteq> None \<longrightarrow> mset (rv_targets w') = mset (rv_targets w) \<and> mset (rv_groups w') = mset (rv_groups w))
    \<and> ((\<forall>n. ini n \<and> may_make ini params n \<and> grow n) \<longrightarrow> err = None)"
proof -
  note d = env_okD [OF assms(1)]
  let ?g = "rv_next w"
  have new: "?g \<notin> set (rv_groups w)" using d(4) by blast
  obtain err G where i: "group_init (ini ?g) (sc_groups (rv_sched w) ?g) = (err, G)"
    by (cases "group_init (ini ?g) (sc_groups (rv_sched w) ?g)")
  define w1 where "w1 = w\<lparr>rv_next := ?g + 1, rv_groups := ?g # rv_groups w\<rparr>"
  show ?thesis
  proof (cases err)
    case (Some er)
    let ?w = "w\<lparr>rv_next := ?g + 1\<rparr>"
    have "env_ok ?w" using assms(1) by (auto simp: env_ok_def less_Suc_eq)
    moreover have "kept w ?w" by (simp add: kept_def grp_def waits_def bufsz_def)
    moreover have "entry_init ini grow params new_entry w = Ret (Some er, new_entry\<lparr>re_group := Some ?g\<rparr>, ?w)"
      using assms(3) i Some by (simp add: entry_init_def Let_def delete_group_def)
    moreover have "\<not> ini ?g" using i Some by (auto simp: group_init_def split: if_splits)
    ultimately show ?thesis by auto
  next
    case None
    note si = sched_inv_new_group [OF d(5) new i [unfolded None]]
    define w2 where "w2 = upd_sched ((rv_sched w)\<lparr>sc_groups := (sc_groups (rv_sched w))(?g := G)\<rparr>) w1"
    have w2: "rv_targets w2 = rv_targets w" "rv_groups w2 = ?g # rv_groups w" "rv_next w2 = ?g + 1" "rv_peer w2 = rv_peer w"
      "grp w2 = grp w" "waits w2 = waits w" "\<And>g. bufsz w2 g = (if g = ?g then 4 else bufsz w g)"
      using si(2) by (simp_all add: w2_def w1_def upd_sched_def grp_def waits_def bufsz_def fun_eq_iff)
    have e2: "env_ok w2"
      unfolding env_ok_def w2(1-3) using d(1-4) new si(1) by (auto simp: w2_def upd_sched_def less_Suc_eq)
    have notin: "grp w x \<noteq> Some ?g" if "x \<in> set (rv_targets w)" for x
      using sched_invD(2) [OF d(5) that] new by (auto simp: grp_def)
    define e1 where "e1 = new_entry\<lparr>re_group := Some ?g\<rparr>"
    have e1: "re_targets e1 = []" "re_nleft e1 = 0" "re_group e1 = Some ?g" "re_breaker_list e1 = []" "re_nbreak e1 = 0"
      by (simp_all add: e1_def new_entry_def)
    have ad: "adding w2 ?g (re_targets e1)"
      unfolding adding_def members_def w2 e1 using notin by simp
    have len: "length (re_targets e1) + length (rp_addrinfo params) < 2 ^ 29" using assms(4) e1(1) by simp
    obtain added e w3 where r: "add_group_targets ini grow params ?g (rp_addrinfo params) e1 w2 = Ret (added, e, w3)"
      "older_same ?g (re_targets e1) w2 w3"
      "added = None \<longrightarrow> (\<exists>ts. e = e1\<lparr>re_targets := re_targets e1 @ ts, re_nleft := re_nleft e1 + int (length ts)\<rparr>
         \<and> adding w3 ?g (re_targets e1 @ ts) \<and> mset (rv_targets w3) = mset (rv_targets w2) + mset ts
         \<and> (\<forall>t\<in>set ts. rv_next w2 \<le> t) \<and> map (rv_peer w3) ts = map (peer_of params) (rp_addrinfo params))"
      "added \<noteq> None \<longrightarrow> mset (rv_targets w3) = mset (rv_targets w2) - mset (re_targets e1)
         \<and> (\<forall>x\<in>set (rv_targets w3). grp w3 x \<noteq> Some ?g)"
      "(\<forall>n. may_make ini params n \<and> grow n) \<longrightarrow> added = None"
      using add_group_targets_ok [OF e2 ad assms(2) len, of ini grow] by (elim exE conjE)
    have old: "env_ok w3" "rv_groups w3 = ?g # rv_groups w" "?g + 1 \<le> rv_next w3" "\<And>x. x < ?g + 1 \<Longrightarrow> grp w3 x = grp w x"
        "\<And>x. x < ?g + 1 \<Longrightarrow> waits w3 x = waits w x \<and> rv_peer w3 x = rv_peer w x" "\<And>g'. g' \<noteq> ?g \<Longrightarrow> bufsz w3 g' = bufsz w g'"
      using r(2) e1(1) w2 by (simp_all add: older_same_def)
    have run: "entry_init ini grow params new_entry w = (case added of
          None \<Rightarrow> Ret (None, e\<lparr>re_request_object := Some (ObjGroup ?g), re_sha1_64 := rp_sha1_64 params\<rparr>, w3)
        | Some er \<Rightarrow> andthen (delete_group ?g w3) (\<lambda>w4. Ret (Some er, e, w4)))"
      using assms(3) i None r(1) unfolding e1_def w2_def w1_def by (simp add: entry_init_def Let_def)
    show ?thesis
    proof (cases added)
      case None
      obtain ts where ts: "e = e1\<lparr>re_targets := ts, re_nleft := int (length ts)\<rparr>" "adding w3 ?g ts"
          "mset (rv_targets w3) = mset (rv_targets w) + mset ts" "\<forall>t\<in>set ts. ?g + 1 \<le> t"
          "map (rv_peer w3) ts = map (peer_of params) (rp_addrinfo params)"
        using r(3) None unfolding e1(1,2) w2(1,3) by (elim impE exE conjE) auto
      let ?e = "e\<lparr>re_request_object := Some (ObjGroup ?g), re_sha1_64 := rp_sha1_64 params\<rparr>"
      have ad3: "members w3 ?g ts" "\<And>t. t \<in> set ts \<Longrightarrow> grp w3 t = Some ?g" using ts(2) by (auto simp: adding_def)
      have l2: "length ts = length (rp_addrinfo params)" using ts(5) by (metis length_map)
      have "in_group w3 ?g ts = ts" using ad3(2) by (simp add: in_group_def)
      then have ok: "entry_ok w3 ?e"
        using ad3 l2 assms(3) e1 ts(1) by (simp add: entry_ok_def)
      have "entry_made params ?e w w3"
        unfolding entry_made_def using ok ts ad3(2) old(2) e1 by (auto simp: group_list_def)
      moreover have "x \<in> set (rv_targets w) \<or> ?g \<le> x \<and> (\<forall>g < ?g. grp w3 x \<noteq> Some g)" if "x \<in> set (rv_targets w3)" for x
      proof -
        have "x \<in># mset (rv_targets w) + mset ts" using that ts(3) by (metis set_mset_mset)
        then show ?thesis using ts(4) ad3(2) by auto
      qed
      then have "kept w w3"
        using old(3-6) by (simp add: kept_def)
      ultimately show ?thesis using run None old(1) by auto
    next
      case (Some er)
      have gone: "mset (rv_targets w3) = mset (rv_targets w)" "\<forall>x\<in>set (rv_targets w3). grp w3 x \<noteq> Some ?g"
        using r(4) Some e1(1) w2(1) by simp_all
      have gin: "?g \<in> set (rv_groups w3)" using old(2) by simp
      let ?w = "w3\<lparr>rv_groups := remove1 ?g (rv_groups w3)\<rparr>"
      note dg = delete_group_ok [OF old(1) gin gone(2)]
      have "set (rv_targets w3) = set (rv_targets w)" using gone(1) by (rule mset_eq_setD)
      then have "kept w ?w"
        using old(3-6) by (simp add: kept_def grp_def waits_def bufsz_def)
      then show ?thesis
        using run Some dg old(2) gone(1) r(5) by auto
    qed
  qed
qed

section \<open>Deleting an entry\<close>

lemma deinit_one:
  assumes "env_ok w" "t \<in> set (rv_targets w)" "grp w t = None"
  shows "deinit_targets None [t] w = Ret (w\<lparr>rv_targets := remove1 t (rv_targets w)\<rparr>)"
  using delete_target_ok(1) [OF assms] by simp

text \<open>What deleting the entry \<open>e\<close> leaves.\<close>

definition entry_gone :: "route_entry \<Rightarrow> route_env \<Rightarrow> route_env \<Rightarrow> bool" where
  "entry_gone e w w' \<longleftrightarrow> env_ok w' \<and> mset (rv_targets w') = mset (rv_targets w) - mset (re_targets e)
     \<and> mset (rv_groups w') = mset (rv_groups w) - mset (group_list e) \<and> rv_next w' = rv_next w
     \<and> (\<forall>x. waits w' x = waits w x) \<and> (\<forall>x. x \<notin> set (re_targets e) \<longrightarrow> grp w' x = grp w x)
     \<and> (\<forall>g. re_group e \<noteq> Some g \<longrightarrow> bufsz w' g = bufsz w g)"

lemma entry_deinit_ok:
  assumes "env_ok w" "entry_ok w e"
  shows "\<exists>e' w'. entry_deinit e w = Ret (e', w') \<and> entry_gone e w w'"
proof (cases "re_group e")
  case None
  then obtain t where t: "re_targets e = [t]" "t \<in> set (rv_targets w)" "grp w t = None"
    using assms(2) by (auto simp: entry_ok_def)
  have "entry_gone e w (w\<lparr>rv_targets := remove1 t (rv_targets w)\<rparr>)"
    using delete_target_ok(2) [OF assms(1) t(2,3)] None t(1)
    by (simp add: entry_gone_def group_list_def grp_def waits_def bufsz_def)
  then show ?thesis
    using deinit_one [OF assms(1) t(2,3)] None t(1) by (simp add: entry_deinit_def)
next
  case (Some g)
  have m: "members w g (re_targets e)" by (rule entry_okD(2) [OF assms(2) Some])
  obtain w1 where w1: "undo_targets g (re_targets e) w = Ret w1" "gone g (re_targets e) w w1"
    using undo_targets_ok [OF assms(1) m] by (elim exE conjE)
  have u: "env_ok w1" "g \<in> set (rv_groups w1)" "\<forall>x\<in>set (rv_targets w1). grp w1 x \<noteq> Some g"
    using w1(2) membersD(1) [OF m] by (simp_all add: gone_def)
  let ?w = "w1\<lparr>rv_groups := remove1 g (rv_groups w1)\<rparr>"
  note dg = delete_group_ok [OF u]
  have "entry_gone e w ?w"
    using dg(2) w1(2) Some by (simp add: entry_gone_def gone_def group_list_def grp_def waits_def bufsz_def)
  then show ?thesis
    using w1(1) dg(1) Some by (simp add: entry_deinit_def deinit_targets_group)
qed

end
