(* ===== verification/RouteCache.thy ===== *)
theory RouteCache
  imports RouteInit RbtreeProps
begin

text \<open>
  The cache of routes as a search tree of entries: looking up, adding and deleting entries.
\<close>

section \<open>The invariant of the cache\<close>

definition key_at :: "route_manager \<Rightarrow> nat \<Rightarrow> 64 word" where
  "key_at m n = re_sha1_64 (rm_entry m n)"

text \<open>
  The entries \<open>ns\<close>, by increasing key, are well formed, and every allocated target and group is part
  of exactly one of them.
\<close>

definition cache_of :: "route_manager \<Rightarrow> nat list \<Rightarrow> bool" where
  "cache_of m ns \<longleftrightarrow> sorted_wrt (\<lambda>a b. key_at m a < key_at m b) ns
     \<and> (\<forall>n\<in>set ns. n < rv_next (rm_env m) \<and> entry_ok (rm_env m) (rm_entry m n))
     \<and> mset (rv_targets (rm_env m)) = mset (concat (map (\<lambda>n. re_targets (rm_entry m n)) ns))
     \<and> mset (rv_groups (rm_env m)) = mset (concat (map (\<lambda>n. group_list (rm_entry m n)) ns))"

definition route_inv :: "route_manager \<Rightarrow> nat list \<Rightarrow> bool" where
  "route_inv m ns \<longleftrightarrow> env_ok (rm_env m) \<and> cache_of m ns
     \<and> (\<exists>t. holds_tree (rm_cache m) t \<and> is_rbt t \<and> nodes t = ns)"

lemma cache_ofD:
  assumes "cache_of m ns"
  shows "sorted_wrt (\<lambda>a b. key_at m a < key_at m b) ns" "n \<in> set ns \<Longrightarrow> n < rv_next (rm_env m)"
    "n \<in> set ns \<Longrightarrow> entry_ok (rm_env m) (rm_entry m n)"
    "mset (rv_targets (rm_env m)) = mset (concat (map (\<lambda>n. re_targets (rm_entry m n)) ns))"
    "mset (rv_groups (rm_env m)) = mset (concat (map (\<lambda>n. group_list (rm_entry m n)) ns))"
  using assms by (simp_all add: cache_of_def)

lemma route_inv_distinct: "route_inv m ns \<Longrightarrow> distinct ns"
  by (auto simp: route_inv_def holds_tree_def at_def)

lemma distinct_concat_disjoint:
  "distinct (concat (map f ns)) \<Longrightarrow> a \<in> set ns \<Longrightarrow> b \<in> set ns \<Longrightarrow> a \<noteq> b \<Longrightarrow> set (f a) \<inter> set (f b) = {}"
  by (induction ns) auto

lemma entries_apart:
  assumes "env_ok (rm_env m)" "cache_of m ns" "a \<in> set ns" "b \<in> set ns" "a \<noteq> b"
  shows "apart (rm_entry m a) (rm_entry m b)"
proof -
  have "distinct (concat (map (\<lambda>n. re_targets (rm_entry m n)) ns))"
    using mset_eq_imp_distinct_iff [OF cache_ofD(4) [OF assms(2)]] env_okD(1) [OF assms(1)] by blast
  note t = distinct_concat_disjoint [OF this assms(3-5)]
  have "distinct (concat (map (\<lambda>n. group_list (rm_entry m n)) ns))"
    using mset_eq_imp_distinct_iff [OF cache_ofD(5) [OF assms(2)]] env_okD(2) [OF assms(1)] by blast
  note g = distinct_concat_disjoint [OF this assms(3-5)]
  show ?thesis
    using t g by (auto simp: apart_def group_list_def split: option.splits)
qed

lemma entry_group:
  assumes "entry_ok w e" "t \<in> set (re_targets e)"
  shows "grp w t = re_group e \<or> grp w t = None"
proof (cases "re_group e")
  case None
  then show ?thesis using assms by (auto simp: entry_ok_def)
next
  case (Some g)
  then show ?thesis using membersD(6) [OF entry_okD(2) [OF assms(1) Some] assms(2)] by simp
qed

text \<open>A step of one entry keeps the invariant.\<close>

lemma entry_step_inv:
  assumes "route_inv m ns" "n \<in> set ns" "entry_step (rm_entry m n) (rm_env m) (Ret (e, w))"
  shows "route_inv (m\<lparr>rm_entry := (rm_entry m)(n := e), rm_env := w\<rparr>) ns"
proof -
  have inv: "env_ok (rm_env m)" "cache_of m ns" "\<exists>t. holds_tree (rm_cache m) t \<and> is_rbt t \<and> nodes t = ns"
    using assms(1) by (simp_all add: route_inv_def)
  note cd = cache_ofD [OF inv(2)]
  have s: "env_ok w" "entry_ok w e" "same_entry (rm_entry m n) e"
      "stays_in (re_group (rm_entry m n)) (re_targets (rm_entry m n)) (rm_env m) w"
    using assms(3) by (simp_all add: entry_step_def)
  let ?m = "m\<lparr>rm_entry := (rm_entry m)(n := e), rm_env := w\<rparr>"
  have st: "rv_targets w = rv_targets (rm_env m)" "rv_groups w = rv_groups (rm_env m)" "rv_next w = rv_next (rm_env m)"
    using s(4) by (simp_all add: stays_in_def)
  have same: "re_targets (rm_entry ?m x) = re_targets (rm_entry m x)" "group_list (rm_entry ?m x) = group_list (rm_entry m x)"
      "key_at ?m x = key_at m x" for x
    using s(3) by (simp_all add: same_entry_def group_list_def key_at_def)
  have "entry_ok w (rm_entry ?m x)" if x: "x \<in> set ns" for x
  proof (cases "x = n")
    case True
    then show ?thesis using s(2) by simp
  next
    case False
    have "\<forall>y\<in>set (re_targets (rm_entry m n)). grp w y = re_group (rm_entry m n) \<or> grp w y = None"
      using entry_group [OF s(2)] s(3) by (simp add: same_entry_def)
    then show ?thesis
      using entry_ok_stays [OF cd(3) [OF x] s(4) entries_apart [OF inv(1,2) x assms(2) False]] False by simp
  qed
  then have "cache_of ?m ns"
    unfolding cache_of_def same using cd(1,2,4,5) st by simp
  then show ?thesis using inv(3) s(1) by (simp add: route_inv_def)
qed

section \<open>Looking up\<close>

definition head_of :: "'a list \<Rightarrow> 'a option" where
  "head_of xs = (case xs of [] \<Rightarrow> None | x # _ \<Rightarrow> Some x)"

lemma head_of_simps [simp]: "head_of [] = None" "head_of (x # xs) = Some x"
  by (simp_all add: head_of_def)

lemma cache_descend_ok:
  assumes "at h K t" "K \<noteq> [] \<Longrightarrow> lft = fst (hd K)"
    "\<forall>x\<in>set (before K). kf x < key" "\<forall>x\<in>set (after K). key \<le> kf x"
    "sorted_wrt (\<lambda>a b. kf a < kf b) (nodes t)"
  shows "\<exists>K' lft'. cache_descend kf key h (root_of t) (ctx_parent K, lft) (head_of (after K))
      = Some (ctx_parent K', lft', head_of (after K'))
    \<and> plug K' Lf = plug K t \<and> (K' \<noteq> [] \<longrightarrow> lft' = fst (hd K'))
    \<and> (\<forall>x\<in>set (before K'). kf x < key) \<and> (\<forall>x\<in>set (after K'). key \<le> kf x)"
  using assms
proof (induction t arbitrary: K lft)
  case Lf
  then show ?case
    by (intro exI [of _ K] exI [of _ lft]) (simp add: cache_descend.simps)
next
  case (Nd l n c r)
  have left: "rb_left h n = root_of l" "rb_right h n = root_of r"
    using Nd.prems(1) by (simp_all add: at_def)
  have srt: "sorted_wrt (\<lambda>a b. kf a < kf b) (nodes l)" "sorted_wrt (\<lambda>a b. kf a < kf b) (nodes r)"
      "\<forall>x\<in>set (nodes l). kf x < kf n" "\<forall>x\<in>set (nodes r). kf n < kf x"
    using Nd.prems(5) by (simp_all add: sorted_wrt_append)
  show ?case
  proof (cases "key \<le> kf n")
    case True
    let ?K = "(True, n, c, r) # K"
    have "at h ?K l" using Nd.prems(1) at_down [of h K True l n c r] by (simp add: nd_def)
    moreover have "\<forall>x\<in>set (before ?K). kf x < key" "\<forall>x\<in>set (after ?K). key \<le> kf x"
      using Nd.prems(3,4) True srt(4) by fastforce+
    ultimately obtain K' lft' where "cache_descend kf key h (root_of l) (ctx_parent ?K, True) (head_of (after ?K))
      = Some (ctx_parent K', lft', head_of (after K'))" "plug K' Lf = plug ?K l" "K' \<noteq> [] \<longrightarrow> lft' = fst (hd K')"
      "\<forall>x\<in>set (before K'). kf x < key" "\<forall>x\<in>set (after K'). key \<le> kf x"
      using Nd.IH(1) [of ?K True] srt(1) by auto
    then show ?thesis
      using True left(1) by (intro exI [of _ K'] exI [of _ lft']) (simp add: cache_descend.simps [of kf key h "Some n"] nd_def)
  next
    case False
    let ?K = "(False, n, c, l) # K"
    have "at h ?K r" using Nd.prems(1) at_down [of h K False r n c l] by (simp add: nd_def)
    moreover have "\<forall>x\<in>set (before ?K). kf x < key" "\<forall>x\<in>set (after ?K). key \<le> kf x"
      using Nd.prems(3,4) False srt(3) by fastforce+
    ultimately obtain K' lft' where "cache_descend kf key h (root_of r) (ctx_parent ?K, False) (head_of (after ?K))
      = Some (ctx_parent K', lft', head_of (after K'))" "plug K' Lf = plug ?K r" "K' \<noteq> [] \<longrightarrow> lft' = fst (hd K')"
      "\<forall>x\<in>set (before K'). kf x < key" "\<forall>x\<in>set (after K'). key \<le> kf x"
      using Nd.IH(2) [of ?K False] srt(2) by auto
    then show ?thesis
      using False left(2) by (intro exI [of _ K'] exI [of _ lft']) (simp add: cache_descend.simps [of kf key h "Some n"] nd_def)
  qed
qed

text \<open>The place that the descent finds in the tree of the entries \<open>ns\<close>.\<close>

lemma descend_found:
  assumes "holds_tree h t" "sorted_wrt (\<lambda>a b. kf a < kf b) (nodes t)"
  shows "\<exists>K lft. cache_descend kf key h (rb_node h) (None, True) None = Some (ctx_parent K, lft, head_of (after K))
    \<and> plug K Lf = t \<and> (K \<noteq> [] \<longrightarrow> lft = fst (hd K)) \<and> nodes t = before K @ after K
    \<and> (\<forall>x\<in>set (before K). kf x < key) \<and> (\<forall>x\<in>set (after K). key \<le> kf x)
    \<and> (\<forall>n\<in>set (nodes t). kf n = key \<longrightarrow> head_of (after K) = Some n)"
proof -
  have a: "at h [] t" using assms(1) by (simp add: holds_tree_def)
  obtain K lft where K: "cache_descend kf key h (root_of t) (None, True) None = Some (ctx_parent K, lft, head_of (after K))"
    "plug K Lf = t" "K \<noteq> [] \<longrightarrow> lft = fst (hd K)"
    "\<forall>x\<in>set (before K). kf x < key" "\<forall>x\<in>set (after K). key \<le> kf x"
    using cache_descend_ok [OF a, of True kf key] assms(2) by auto
  have r: "rb_node h = root_of t" using at_root [OF a] by simp
  have n: "nodes t = before K @ after K" using K(2) nodes_plug [of K Lf] by simp
  have "head_of (after K) = Some x" if x: "x \<in> set (nodes t)" "kf x = key" for x
  proof -
    have xa: "x \<in> set (after K)" using x n K(4) by auto
    then obtain y ys where y: "after K = y # ys" by (cases "after K") auto
    have "key \<le> kf y" using K(5) y by simp
    moreover have "kf y < kf x" if "x \<noteq> y"
      using xa y that assms(2) n by (simp add: sorted_wrt_append)
    ultimately show ?thesis using x(2) y by (metis head_of_simps(2) not_le)
  qed
  then show ?thesis using K r n by (intro exI [of _ K] exI [of _ lft]) simp
qed

end
