(* ===== verification/RouteGet.thy ===== *)
theory RouteGet
  imports RouteCache
begin

text \<open>
  \<open>RouteManager::get\<close> and the destructor on a well-formed cache.
\<close>

section \<open>Adding an entry\<close>

definition params_of ::
  "nat \<Rightarrow> sock_addr list \<Rightarrow> 64 word \<Rightarrow> string \<Rightarrow> endpoint_params \<Rightarrow> string \<Rightarrow> route_params" where
  "params_of type addrinfo key other_info ep hostname = \<lparr>rp_transport_type = type, rp_addrinfo = addrinfo, rp_sha1_64 = key,
     rp_connect_timeout = ep_connect_timeout ep, rp_response_timeout = ep_response_timeout ep,
     rp_max_connections = max_connections_of other_info ep, rp_hostname = hostname\<rparr>"

text \<open>An entry sees nothing of the making of another.\<close>

lemma entry_ok_kept:
  assumes "entry_ok w e" "env_ok w" "kept w w'" "set (rv_targets w) \<subseteq> set (rv_targets w')" "set (rv_groups w) \<subseteq> set (rv_groups w')"
  shows "entry_ok w' e"
proof -
  note d = env_okD [OF assms(2)]
  have k: "\<And>x. x < rv_next w \<Longrightarrow> grp w' x = grp w x" "\<And>x. x < rv_next w \<Longrightarrow> waits w' x = waits w x"
      "\<And>g. g < rv_next w \<Longrightarrow> bufsz w' g = bufsz w g"
      "\<And>x. x \<in> set (rv_targets w') \<Longrightarrow> x \<in> set (rv_targets w) \<or> (\<forall>g < rv_next w. grp w' x \<noteq> Some g)"
    using assms(3) by (auto simp: kept_def)
  show ?thesis
  proof (cases "re_group e")
    case None
    then obtain t where t: "re_targets e = [t]" "re_request_object e = Some (ObjTarget t)" "t \<in> set (rv_targets w)"
        "grp w t = None" "re_breaker_list e = []" "re_nleft e = 0" "re_nbreak e = 0"
      using assms(1) by (auto simp: entry_ok_def)
    then show ?thesis using None k(1) [OF d(3)] assms(4) by (auto simp: entry_ok_def)
  next
    case (Some g)
    note e = entry_okD [OF assms(1) Some]
    note m = membersD [OF e(2)]
    have g: "g < rv_next w" by (rule d(4) [OF m(1)])
    have own: "grp w' t = grp w t" "waits w' t = waits w t" if "t \<in> set (re_targets e)" for t
      using k(1,2) d(3) m(3) that by blast+
    have "members w' g (re_targets e)"
      unfolding members_def k(3) [OF g]
    proof (intro conjI ballI impI)
      fix x assume x: "x \<in> set (rv_targets w')" "grp w' x = Some g"
      then have xw: "x \<in> set (rv_targets w)" using k(4) g by blast
      then show "x \<in> set (re_targets e)" using m(4) x(2) k(1) d(3) by metis
    qed (use m own assms(4,5) in auto)
    moreover have "in_group w' g (re_targets e) = in_group w g (re_targets e)"
      unfolding in_group_def by (rule filter_cong) (simp_all add: own)
    ultimately show ?thesis using Some e own by (simp add: entry_ok_def)
  qed
qed

lemma entry_init_ok:
  assumes "env_ok w" "rp_max_connections params < 2 ^ 32" "rp_addrinfo params \<noteq> []" "length (rp_addrinfo params) < 2 ^ 29"
  shows "\<exists>err e w'. entry_init ini grow params new_entry w = Ret (err, e, w') \<and> env_ok w' \<and> kept w w'
    \<and> (err = None \<longrightarrow> entry_made params e w w')
    \<and> (err \<noteq> None \<longrightarrow> mset (rv_targets w') = mset (rv_targets w) \<and> mset (rv_groups w') = mset (rv_groups w))
    \<and> ((\<forall>n. ini n \<and> may_make ini params n \<and> grow n) \<longrightarrow> err = None)"
proof -
  consider addr where "rp_addrinfo params = [addr]" | a b addrs where "rp_addrinfo params = a # b # addrs"
    using assms(3) by (metis neq_Nil_conv)
  then show ?thesis
  proof cases
    case 1
    show ?thesis using entry_init_one [OF assms(1,2) 1, of ini grow] by blast
  next
    case 2
    show ?thesis by (rule entry_init_many [OF assms(1,2) 2 assms(4)])
  qed
qed

lemma route_add_ok:
  assumes "route_inv m ns" "addrinfo \<noteq> []" "length addrinfo < 2 ^ 29" "max_connections_of other_info ep < 2 ^ 32"
    "plug K Lf = t" "holds_tree (rm_cache m) t" "is_rbt t" "nodes t = ns" "K \<noteq> [] \<longrightarrow> lft = fst (hd K)"
    "\<forall>x\<in>set (before K). key_at m x < key" "\<forall>x\<in>set (after K). key < key_at m x"
  shows "\<exists>res m'. route_add ini grow type addrinfo key other_info ep hostname (ctx_parent K) lft m = Some (Ret (res, m'))
    \<and> (\<forall>er. res = Inl er \<longrightarrow> route_inv m' ns \<and> rm_cache m' = rm_cache m \<and> rm_entry m' = rm_entry m)
    \<and> (\<forall>n obj. res = Inr (n, obj) \<longrightarrow> n \<notin> set ns \<and> (\<exists>xs ys. ns = xs @ ys \<and> route_inv m' (xs @ n # ys)) \<and> key_at m' n = key
         \<and> (\<forall>x. x \<noteq> n \<longrightarrow> rm_entry m' x = rm_entry m x) \<and> obj = re_request_object (rm_entry m' n)
         \<and> map (rv_peer (rm_env m')) (re_targets (rm_entry m' n))
             = map (peer_of (params_of type addrinfo key other_info ep hostname)) addrinfo
         \<and> (\<forall>t\<in>set (re_targets (rm_entry m' n)). grp (rm_env m') t = re_group (rm_entry m' n)))
    \<and> ((\<forall>n. ini n \<and> grow n) \<and> type = TT_TCP \<and> 0 < max_connections_of other_info ep \<longrightarrow> (\<exists>n obj. res = Inr (n, obj)))"
proof -
  have inv: "env_ok (rm_env m)" "cache_of m ns" using assms(1) by (simp_all add: route_inv_def)
  note cd = cache_ofD [OF inv(2)]
  let ?params = "params_of type addrinfo key other_info ep hostname" and ?n = "rv_next (rm_env m)"
  define w0 where "w0 = (rm_env m)\<lparr>rv_next := ?n + 1\<rparr>"
  have w0: "rv_targets w0 = rv_targets (rm_env m)" "rv_groups w0 = rv_groups (rm_env m)" "rv_next w0 = ?n + 1"
      "grp w0 = grp (rm_env m)" "waits w0 = waits (rm_env m)" "bufsz w0 = bufsz (rm_env m)"
    by (simp_all add: w0_def grp_def waits_def bufsz_def fun_eq_iff)
  have e0: "env_ok w0" using inv(1) by (auto simp: env_ok_def w0_def less_Suc_eq)
  have ok0: "entry_ok w0 (rm_entry m x)" if "x \<in> set ns" for x
    using cd(3) [OF that] unfolding entry_ok_def members_def in_group_def w0 .
  have new: "?n \<notin> set ns" using cd(2) by blast
  obtain err e w' where i: "entry_init ini grow ?params new_entry w0 = Ret (err, e, w')" "env_ok w'" "kept w0 w'"
      "err = None \<longrightarrow> entry_made ?params e w0 w'"
      "err \<noteq> None \<longrightarrow> mset (rv_targets w') = mset (rv_targets w0) \<and> mset (rv_groups w') = mset (rv_groups w0)"
      "(\<forall>n. ini n \<and> may_make ini ?params n \<and> grow n) \<longrightarrow> err = None"
    using entry_init_ok [OF e0, of ?params ini grow] assms(2-4) by (auto simp: params_of_def)
  have nx: "?n + 1 \<le> rv_next w'" using i(3) w0(3) by (simp add: kept_def)
  have run: "route_add ini grow type addrinfo key other_info ep hostname (ctx_parent K) lft m = (case err of
      Some er \<Rightarrow> Some (Ret (Inl er, m\<lparr>rm_env := w'\<rparr>))
    | None \<Rightarrow> obind (rb_insert_color ?n (rb_link_node ?n (ctx_parent K) lft (rm_cache m))) (\<lambda>h.
        Some (Ret (Inr (?n, re_request_object e), m\<lparr>rm_cache := h, rm_entry := (rm_entry m)(?n := e), rm_env := w'\<rparr>))))"
    using i(1) unfolding w0_def params_of_def by (simp add: route_add_def Let_def)
  show ?thesis
  proof (cases err)
    case (Some er)
    have ms: "mset (rv_targets w') = mset (rv_targets w0)" "mset (rv_groups w') = mset (rv_groups w0)" using i(5) Some by simp_all
    have sub: "set (rv_targets w0) \<subseteq> set (rv_targets w')" "set (rv_groups w0) \<subseteq> set (rv_groups w')"
      using mset_eq_setD [OF ms(1)] mset_eq_setD [OF ms(2)] by simp_all
    have "cache_of (m\<lparr>rm_env := w'\<rparr>) ns"
      unfolding cache_of_def using cd(1,2,4,5) ms w0(1,2) nx entry_ok_kept [OF ok0 e0 i(3) sub]
      by (force simp: key_at_def)
    then have "route_inv (m\<lparr>rm_env := w'\<rparr>) ns"
      using i(2) assms(6-8) by (auto simp: route_inv_def)
    moreover have "\<not> ((\<forall>n. ini n \<and> grow n) \<and> type = TT_TCP \<and> 0 < max_connections_of other_info ep)"
      using i(6) Some by (auto simp: may_make_def params_of_def)
    ultimately show ?thesis using run Some by auto
  next
    case None
    have made: "entry_made ?params e w0 w'" using i(4) None by simp
    have nK: "?n \<notin> set (nodes (plug K Lf))" using new assms(5,8) by simp
    obtain h t' where h: "rb_insert_color ?n (rb_link_node ?n (ctx_parent K) lft (rm_cache m)) = Some (Ret h)"
      "holds_tree h t'" "is_rbt t'" "nodes t' = before K @ ?n # after K"
      using rb_insert_correct [of "rm_cache m" K ?n lft] assms(5-7,9) nK by auto
    let ?m = "m\<lparr>rm_cache := h, rm_entry := (rm_entry m)(?n := e), rm_env := w'\<rparr>"
    have nsK: "ns = before K @ after K" using assms(5,8) nodes_plug [of K Lf] by simp
    have k: "key_at ?m x = (if x = ?n then key else key_at m x)" for x
      using made by (simp add: key_at_def entry_made_def params_of_def)
    have ms: "mset (rv_targets w') = mset (rv_targets w0) + mset (re_targets e)" "mset (rv_groups w') = mset (rv_groups w0) + mset (group_list e)"
      using made by (simp_all add: entry_made_def)
    have sub: "set (rv_targets w0) \<subseteq> set (rv_targets w')" "set (rv_groups w0) \<subseteq> set (rv_groups w')"
      using arg_cong [OF ms(1), of set_mset] arg_cong [OF ms(2), of set_mset] by auto
    have ok: "entry_ok w' (rm_entry ?m x)" if "x \<in> set (before K @ ?n # after K)" for x
    proof (cases "x = ?n")
      case True
      then show ?thesis using made by (simp add: entry_made_def)
    next
      case False
      then show ?thesis using entry_ok_kept [OF ok0 e0 i(3) sub, of x] that nsK by auto
    qed
    have same: "map (\<lambda>n. f (rm_entry ?m n)) (before K) = map (\<lambda>n. f (rm_entry m n)) (before K)"
        "map (\<lambda>n. f (rm_entry ?m n)) (after K) = map (\<lambda>n. f (rm_entry m n)) (after K)" for f :: "route_entry \<Rightarrow> nat list"
      using new nsK by (auto intro!: map_cong)
    have "sorted_wrt (\<lambda>a b. key_at ?m a < key_at ?m b) (before K @ ?n # after K)"
    proof -
      have s: "sorted_wrt (\<lambda>a b. key_at m a < key_at m b) (before K @ after K)" using cd(1) nsK by simp
      have "sorted_wrt (\<lambda>a b. key_at ?m a < key_at ?m b) (before K @ after K)"
        by (rule sorted_wrt_mono_rel [OF _ s]) (use new nsK in \<open>auto simp: k\<close>)
      moreover have "\<forall>x\<in>set (before K). key_at ?m x < key_at ?m ?n" "\<forall>x\<in>set (after K). key_at ?m ?n < key_at ?m x"
        using assms(10,11) new nsK by (auto simp: k)
      ultimately show ?thesis by (auto simp: sorted_wrt_append)
    qed
    moreover have "\<forall>n\<in>set (before K @ ?n # after K). n < rv_next w' \<and> entry_ok w' (rm_entry ?m n)"
    proof
      fix n assume n: "n \<in> set (before K @ ?n # after K)"
      then have "n \<le> ?n" using cd(2) nsK by (auto intro: less_imp_le)
      then show "n < rv_next w' \<and> entry_ok w' (rm_entry ?m n)" using nx ok [OF n] by simp
    qed
    moreover have "mset (concat (map (\<lambda>n. f (rm_entry ?m n)) (before K @ ?n # after K)))
        = mset (concat (map (\<lambda>n. f (rm_entry m n)) ns)) + mset (f e)" for f :: "route_entry \<Rightarrow> nat list"
      unfolding map_append list.map concat_append concat.simps same nsK by simp
    ultimately have "cache_of ?m (before K @ ?n # after K)"
      unfolding cache_of_def using ms cd(4,5) w0(1,2) by simp
    then have "route_inv ?m (before K @ ?n # after K)"
      using i(2) h(2-4) by (auto simp: route_inv_def)
    then have "\<exists>xs ys. ns = xs @ ys \<and> route_inv ?m (xs @ ?n # ys)" using nsK by blast
    then show ?thesis
      using run None h(1) new k [of ?n] made
      by (intro exI [of _ "Inr (?n, re_request_object e)"] exI [of _ ?m]) (simp add: entry_made_def params_of_def)
  qed
qed

end
