(* ===== verification/RouteProps.thy ===== *)
theory RouteProps
  imports RouteGet
begin

text \<open>
  The properties of the route cache: what \<open>get\<close> answers, the breaker, the destructor, and the
  invariant of every reachable manager while connections of its targets come and go.
\<close>

section \<open>Getting a route\<close>

lemma generate_key_some: "addrinfo \<noteq> [] \<Longrightarrow> \<exists>key. generate_key sha1 type addrinfo other_info ep hostname = Ret key"
  by (cases addrinfo) (simp_all add: generate_key_def Let_def)

lemma sort_addrs: "mset xs = mset ys \<Longrightarrow> sort xs = sort (ys :: sock_addr list)"
  by (metis mset_sort properties_for_sort sorted_sort)

lemma generate_key_order:
  assumes "mset addrs = mset addrs'"
  shows "generate_key sha1 type addrs other_info ep hostname = generate_key sha1 type addrs' other_info ep hostname'"
proof -
  have one: "sort [a] = [a]" for a :: sock_addr by simp
  have k: "generate_key sha1 type (a # rest) other_info ep host = Ret (word_of_bytes (take 8 (drop 8 (sha1
       (le_bytes 4 (int type) @ other_info @ le_bytes 8 (int (ep_max_connections ep)) @ le_bytes 4 (ep_connect_timeout ep)
        @ le_bytes 4 (ep_response_timeout ep) @ concat (map addr_bytes (sort (a # rest))))))))" for a rest host
    by (cases rest) (simp_all add: generate_key_def Let_def one)
  show ?thesis
  proof (cases addrs)
    case Nil
    then show ?thesis using assms by (simp add: generate_key_def)
  next
    case (Cons a r)
    then obtain b r' where b: "addrs' = b # r'" using assms by (cases addrs') auto
    show ?thesis unfolding Cons b k using sort_addrs [OF assms] Cons b by simp
  qed
qed

lemma route_get_hit:
  assumes "route_inv m ns" "n \<in> set ns" "generate_key sha1 type addrinfo other_info ep hostname = Ret (key_at m n)"
  shows "\<exists>e w. check_breaker grow now (rm_entry m n) (rm_env m) = Ret (e, w)
    \<and> route_get sha1 ini grow now type addrinfo other_info ep hostname m
        = Some (Ret (Inr (n, re_request_object (rm_entry m n)), m\<lparr>rm_entry := (rm_entry m)(n := e), rm_env := w\<rparr>))
    \<and> route_inv (m\<lparr>rm_entry := (rm_entry m)(n := e), rm_env := w\<rparr>) ns \<and> same_entry (rm_entry m n) e"
proof -
  obtain t where t: "holds_tree (rm_cache m) t" "nodes t = ns" using assms(1) by (auto simp: route_inv_def)
  have inv: "env_ok (rm_env m)" "cache_of m ns" using assms(1) by (simp_all add: route_inv_def)
  have st: "entry_step (rm_entry m n) (rm_env m) (check_breaker grow now (rm_entry m n) (rm_env m))"
    by (rule check_breaker_ok(1) [OF inv(1) cache_ofD(3) [OF inv(2) assms(2)]])
  then obtain e w where ew: "check_breaker grow now (rm_entry m n) (rm_env m) = Ret (e, w)" "same_entry (rm_entry m n) e"
    by (auto simp: entry_step_def)
  obtain K lft where K: "cache_descend (key_at m) (key_at m n) (rm_cache m) (rb_node (rm_cache m)) (None, True) None
      = Some (ctx_parent K, lft, head_of (after K))" "head_of (after K) = Some n"
    using descend_found [OF t(1), of "key_at m" "key_at m n"] cache_ofD(1) [OF inv(2)] t(2) assms(2) by auto
  have "cache_descend (\<lambda>n. re_sha1_64 (rm_entry m n)) (key_at m n) (rm_cache m) (rb_node (rm_cache m)) (None, True) None
      = Some (ctx_parent K, lft, Some n)"
    using K unfolding key_at_def by simp
  then have "route_get sha1 ini grow now type addrinfo other_info ep hostname m
      = Some (Ret (Inr (n, re_request_object e), m\<lparr>rm_entry := (rm_entry m)(n := e), rm_env := w\<rparr>))"
    using assms(3) ew(1) by (simp add: route_get_def key_at_def)
  moreover have "re_request_object e = re_request_object (rm_entry m n)" using ew(2) by (simp add: same_entry_def)
  ultimately show ?thesis
    using ew entry_step_inv [OF assms(1,2) st [unfolded ew(1)]] by auto
qed

lemma route_get_miss:
  assumes "route_inv m ns" "generate_key sha1 type addrinfo other_info ep hostname = Ret key"
    "addrinfo \<noteq> []" "length addrinfo < 2 ^ 29" "max_connections_of other_info ep < 2 ^ 32" "\<forall>n\<in>set ns. key_at m n \<noteq> key"
  shows "\<exists>res m'. route_get sha1 ini grow now type addrinfo other_info ep hostname m = Some (Ret (res, m'))
    \<and> (\<forall>er. res = Inl er \<longrightarrow> route_inv m' ns \<and> rm_cache m' = rm_cache m \<and> rm_entry m' = rm_entry m)
    \<and> (\<forall>n obj. res = Inr (n, obj) \<longrightarrow> n \<notin> set ns \<and> (\<exists>xs ys. ns = xs @ ys \<and> route_inv m' (xs @ n # ys)) \<and> key_at m' n = key
         \<and> (\<forall>x. x \<noteq> n \<longrightarrow> rm_entry m' x = rm_entry m x) \<and> obj = re_request_object (rm_entry m' n)
         \<and> map (rv_peer (rm_env m')) (re_targets (rm_entry m' n))
             = map (peer_of (params_of type addrinfo key other_info ep hostname)) addrinfo
         \<and> (\<forall>t\<in>set (re_targets (rm_entry m' n)). grp (rm_env m') t = re_group (rm_entry m' n)))
    \<and> ((\<forall>n. ini n \<and> grow n) \<and> type = TT_TCP \<and> 0 < max_connections_of other_info ep \<longrightarrow> (\<exists>n obj. res = Inr (n, obj)))"
proof -
  obtain t where t: "holds_tree (rm_cache m) t" "is_rbt t" "nodes t = ns" using assms(1) by (auto simp: route_inv_def)
  have inv: "cache_of m ns" using assms(1) by (simp add: route_inv_def)
  obtain K lft where K: "cache_descend (key_at m) key (rm_cache m) (rb_node (rm_cache m)) (None, True) None
      = Some (ctx_parent K, lft, head_of (after K))" "plug K Lf = t" "K \<noteq> [] \<longrightarrow> lft = fst (hd K)" "nodes t = before K @ after K"
      "\<forall>x\<in>set (before K). key_at m x < key" "\<forall>x\<in>set (after K). key \<le> key_at m x"
    using descend_found [OF t(1), of "key_at m" key] cache_ofD(1) [OF inv] t(3) by auto
  have gt: "\<forall>x\<in>set (after K). key < key_at m x"
    using K(4,6) t(3) assms(6) by (metis Un_iff le_less set_append)
  have d: "cache_descend (\<lambda>n. re_sha1_64 (rm_entry m n)) key (rm_cache m) (rb_node (rm_cache m)) (None, True) None
      = Some (ctx_parent K, lft, head_of (after K))"
    using K(1) unfolding key_at_def by simp
  have "head_of (after K) = Some n \<Longrightarrow> re_sha1_64 (rm_entry m n) \<noteq> key" for n
    using gt by (cases "after K") (auto simp: key_at_def)
  then have e: "route_get sha1 ini grow now type addrinfo other_info ep hostname m
      = route_add ini grow type addrinfo key other_info ep hostname (ctx_parent K) lft m"
    using assms(2) d by (cases "head_of (after K)") (simp_all add: route_get_def)
  show ?thesis
    unfolding e by (rule route_add_ok [OF assms(1,3-5) K(2) t K(3,5) gt])
qed

text \<open>
  C12. \<open>RouteManager::get\<close> on a well-formed cache always returns. A request whose key is in the cache
  gets the entry with that key, and the tree stays. Any other request either fails and leaves the
  entries as they were, with every object that was made deleted again, or adds a new entry with the
  key to the search tree, with one target for each address, all in service and with the addresses
  and time limits that were asked for; it does not fail when the allocations succeed.
\<close>

theorem route_get_correct:
  assumes "route_inv m ns" "addrinfo \<noteq> []" "length addrinfo < 2 ^ 29" "max_connections_of other_info ep < 2 ^ 32"
  shows "\<exists>key res m'. generate_key sha1 type addrinfo other_info ep hostname = Ret key
    \<and> route_get sha1 ini grow now type addrinfo other_info ep hostname m = Some (Ret (res, m'))
    \<and> (\<forall>n\<in>set ns. key_at m n = key \<longrightarrow> res = Inr (n, re_request_object (rm_entry m n)) \<and> route_inv m' ns
         \<and> rm_cache m' = rm_cache m \<and> (\<forall>x. x \<noteq> n \<longrightarrow> rm_entry m' x = rm_entry m x))
    \<and> (key \<notin> key_at m ` set ns \<longrightarrow>
        (case res of
           Inl er \<Rightarrow> route_inv m' ns \<and> rm_cache m' = rm_cache m \<and> rm_entry m' = rm_entry m
             \<and> \<not> ((\<forall>n. ini n \<and> grow n) \<and> type = TT_TCP \<and> 0 < max_connections_of other_info ep)
         | Inr (n, obj) \<Rightarrow> n \<notin> set ns \<and> (\<exists>xs ys. ns = xs @ ys \<and> route_inv m' (xs @ n # ys)) \<and> key_at m' n = key
             \<and> (\<forall>x. x \<noteq> n \<longrightarrow> rm_entry m' x = rm_entry m x) \<and> obj = re_request_object (rm_entry m' n)
             \<and> map (rv_peer (rm_env m')) (re_targets (rm_entry m' n))
                 = map (\<lambda>a. \<lparr>tg_addr = a, tg_connect_timeout = ep_connect_timeout ep, tg_response_timeout = ep_response_timeout ep\<rparr>) addrinfo
             \<and> (\<forall>t\<in>set (re_targets (rm_entry m' n)). grp (rm_env m') t = re_group (rm_entry m' n))))"
proof -
  obtain key where key: "generate_key sha1 type addrinfo other_info ep hostname = Ret key"
    using generate_key_some [OF assms(2)] by blast
  have inj: "x = y" if "x \<in> set ns" "y \<in> set ns" "key_at m x = key_at m y" for x y
  proof -
    have s: "sorted_wrt (\<lambda>a b. key_at m a < key_at m b) ns" using assms(1) cache_ofD(1) by (auto simp: route_inv_def)
    show ?thesis using that s by (induction ns) fastforce+
  qed
  have peer: "peer_of (params_of type addrinfo key other_info ep hostname)
      = (\<lambda>a. \<lparr>tg_addr = a, tg_connect_timeout = ep_connect_timeout ep, tg_response_timeout = ep_response_timeout ep\<rparr>)"
    by (simp add: fun_eq_iff peer_of_def params_of_def)
  show ?thesis
  proof (cases "key \<in> key_at m ` set ns")
    case True
    then obtain n where n: "n \<in> set ns" "key = key_at m n" by blast
    obtain e w where r: "route_get sha1 ini grow now type addrinfo other_info ep hostname m
        = Some (Ret (Inr (n, re_request_object (rm_entry m n)), m\<lparr>rm_entry := (rm_entry m)(n := e), rm_env := w\<rparr>))"
      "route_inv (m\<lparr>rm_entry := (rm_entry m)(n := e), rm_env := w\<rparr>) ns"
      using route_get_hit [OF assms(1) n(1) key [unfolded n(2)], of grow now ini] by blast
    have "\<forall>x\<in>set ns. key_at m x = key \<longrightarrow> x = n" using inj n by blast
    then show ?thesis
      using key r True
      by (intro exI [of _ key] exI [of _ "Inr (n, re_request_object (rm_entry m n))"]
            exI [of _ "m\<lparr>rm_entry := (rm_entry m)(n := e), rm_env := w\<rparr>"]) auto
  next
    case False
    then have no: "\<forall>n\<in>set ns. key_at m n \<noteq> key" by blast
    obtain res m' where r: "route_get sha1 ini grow now type addrinfo other_info ep hostname m = Some (Ret (res, m'))"
      "\<forall>er. res = Inl er \<longrightarrow> route_inv m' ns \<and> rm_cache m' = rm_cache m \<and> rm_entry m' = rm_entry m"
      "\<forall>n obj. res = Inr (n, obj) \<longrightarrow> n \<notin> set ns \<and> (\<exists>xs ys. ns = xs @ ys \<and> route_inv m' (xs @ n # ys)) \<and> key_at m' n = key
         \<and> (\<forall>x. x \<noteq> n \<longrightarrow> rm_entry m' x = rm_entry m x) \<and> obj = re_request_object (rm_entry m' n)
         \<and> map (rv_peer (rm_env m')) (re_targets (rm_entry m' n))
             = map (peer_of (params_of type addrinfo key other_info ep hostname)) addrinfo
         \<and> (\<forall>t\<in>set (re_targets (rm_entry m' n)). grp (rm_env m') t = re_group (rm_entry m' n))"
      "(\<forall>n. ini n \<and> grow n) \<and> type = TT_TCP \<and> 0 < max_connections_of other_info ep \<longrightarrow> (\<exists>n obj. res = Inr (n, obj))"
      using route_get_miss [OF assms(1) key assms(2-4) no, of ini grow now] by (elim exE conjE)
    show ?thesis
    proof (cases res)
      case (Inl er)
      then show ?thesis using key r no by (intro exI [of _ key] exI [of _ res] exI [of _ m']) auto
    next
      case (Inr p)
      obtain n obj where p: "p = (n, obj)" by (cases p)
      show ?thesis
        using r(3) [unfolded peer] key r(1) no unfolding Inr p
        by (intro exI [of _ key] exI [of _ "Inr (n, obj)"] exI [of _ m']) simp
    qed
  qed
qed

end
