(* ===== verification/RouteReach.thy ===== *)
theory RouteReach
  imports RouteProps
begin

text \<open>
  The life of a route manager: requests for routes, notifications, and the connections that are
  taken from and given back to the targets of its entries, in any order; and the destructor.
\<close>

section \<open>Connections\<close>

text \<open>
  What users of a route do with its request object in the scheduler: take a connection, wake up
  from waiting for one, and give one back.
\<close>

inductive object_use :: "sched_object \<Rightarrow> sched \<Rightarrow> sched \<Rightarrow> bool" where
  use_acquire: "object_acquire obj timeout s = Ret (a, s') \<Longrightarrow> object_use obj s s'"
| use_wake_target: "0 < ct_wait_cnt (sc_targets s t) \<Longrightarrow> target_wake t ret s = Ret (a, s') \<Longrightarrow> object_use (ObjTarget t) s s'"
| use_wake_group: "0 < cg_wait_cnt (sc_groups s g) \<Longrightarrow> group_wake g ret s = Ret (a, s') \<Longrightarrow> object_use (ObjGroup g) s s'"

lemma bufsz_take:
  "target_take t ret s = Ret (a, s') \<Longrightarrow> cg_buf_size (sc_groups s' g) = cg_buf_size (sc_groups s g)"
  "group_take h ret s = Ret (a, s') \<Longrightarrow> cg_buf_size (sc_groups s' g) = cg_buf_size (sc_groups s g)"
  "target_release t ka s = Ret (sig, s') \<Longrightarrow> cg_buf_size (sc_groups s' g) = cg_buf_size (sc_groups s g)"
  by (auto simp: target_take_def group_take_def target_release_def Let_def
      split: if_splits option.splits outcome.splits prod.splits)

lemma bufsz_wait [simp]:
  "cg_buf_size (sc_groups (target_wait n t s) g) = cg_buf_size (sc_groups s g)"
  "cg_buf_size (sc_groups (group_wait n h s) g) = cg_buf_size (sc_groups s g)"
  by (simp_all add: target_wait_def group_wait_def upd_group_def)

definition use_kept :: "sched_object \<Rightarrow> sched \<Rightarrow> sched \<Rightarrow> bool" where
  "use_kept obj s s' \<longleftrightarrow> (\<forall>x. ct_group (sc_targets s' x) = ct_group (sc_targets s x)
       \<and> (obj \<noteq> ObjTarget x \<longrightarrow> ct_wait_cnt (sc_targets s' x) = ct_wait_cnt (sc_targets s x)))
     \<and> (\<forall>g. cg_buf_size (sc_groups s' g) = cg_buf_size (sc_groups s g))"

lemma frame_refl [simp]: "use_kept obj s s"
  by (simp add: use_kept_def)

lemma frame_trans: "use_kept obj s s1 \<Longrightarrow> use_kept obj s1 s2 \<Longrightarrow> use_kept obj s s2"
  by (simp add: use_kept_def)

lemma frame_wait [simp]: "use_kept (ObjTarget t) s (target_wait n t s)" "use_kept obj s (group_wait n g s)"
  by (simp_all add: use_kept_def) (simp_all add: target_wait_def upd_target_def group_wait_def upd_group_def)

lemma frame_load: "load_step t n s s' \<Longrightarrow> \<forall>g. cg_buf_size (sc_groups s' g) = cg_buf_size (sc_groups s g) \<Longrightarrow> use_kept obj s s'"
  by (simp add: use_kept_def load_step_def)

lemma take_frame:
  assumes "sched_inv Ts Gs s"
  shows "t \<in> Ts \<Longrightarrow> target_take t ret s = Ret (a, s') \<Longrightarrow> sched_inv Ts Gs s' \<and> use_kept obj s s'"
    "g \<in> Gs \<Longrightarrow> group_take g ret s = Ret (a, s') \<Longrightarrow> sched_inv Ts Gs s' \<and> use_kept obj s s'"
    "t \<in> Ts \<Longrightarrow> 0 < loads s t \<Longrightarrow> target_release t ka s = Ret (sig, s') \<Longrightarrow> sched_inv Ts Gs s' \<and> use_kept obj s s'"
proof -
  show "sched_inv Ts Gs s' \<and> use_kept obj s s'" if "t \<in> Ts" "target_take t ret s = Ret (a, s')"
  proof (cases "loads s t < ct_max_load (sc_targets s t)")
    case True
    then show ?thesis
      using target_take_inv [OF assms that(1) True, of ret] that(2) bufsz_take(1) [OF that(2)] frame_load by auto
  next
    case False
    then show ?thesis using target_take_full [of s t ret] that(2) assms by simp
  qed
  show "sched_inv Ts Gs s' \<and> use_kept obj s s'" if "g \<in> Gs" "group_take g ret s = Ret (a, s')"
  proof (cases "cg_cur_load (sc_groups s g) < cg_max_load (sc_groups s g)")
    case True
    then show ?thesis
      using group_take_inv [OF assms that(1) True, of ret] that(2) bufsz_take(2) [OF that(2)] frame_load by auto
  next
    case False
    then show ?thesis using group_take_full [of s g ret] that(2) assms by simp
  qed
  show "sched_inv Ts Gs s' \<and> use_kept obj s s'" if "t \<in> Ts" "0 < loads s t" "target_release t ka s = Ret (sig, s')"
    using target_release_inv [OF assms that(1,2), of ka] that(3) bufsz_take(3) [OF that(3)] frame_load by auto
qed

lemma acquire_frame:
  assumes "sched_inv Ts Gs s"
  shows "t \<in> Ts \<Longrightarrow> target_acquire t timeout s = Ret (a, s') \<Longrightarrow> sched_inv Ts Gs s' \<and> use_kept (ObjTarget t) s s'"
    "g \<in> Gs \<Longrightarrow> group_acquire g timeout s = Ret (a, s') \<Longrightarrow> sched_inv Ts Gs s' \<and> use_kept (ObjGroup g) s s'"
    "t \<in> Ts \<Longrightarrow> target_wake t ret s = Ret (a, s') \<Longrightarrow> sched_inv Ts Gs s' \<and> use_kept (ObjTarget t) s s'"
    "g \<in> Gs \<Longrightarrow> group_wake g ret s = Ret (a, s') \<Longrightarrow> sched_inv Ts Gs s' \<and> use_kept (ObjGroup g) s s'"
proof -
  note tk = take_frame [OF assms]
  have w: "sched_inv Ts Gs (target_wait n t s)" "sched_inv Ts Gs (group_wait n g s)" for n t g
    using sched_inv_wait assms by blast+
  show "sched_inv Ts Gs s' \<and> use_kept (ObjTarget t) s s'" if "t \<in> Ts" "target_acquire t timeout s = Ret (a, s')"
    using that(2) tk(1) [OF that(1)] w(1) by (auto simp: target_acquire_def Let_def split: if_splits)
  show "sched_inv Ts Gs s' \<and> use_kept (ObjGroup g) s s'" if "g \<in> Gs" "group_acquire g timeout s = Ret (a, s')"
    using that(2) tk(2) [OF that(1)] w(2) by (auto simp: group_acquire_def Let_def split: if_splits)
  show "sched_inv Ts Gs s' \<and> use_kept (ObjTarget t) s s'" if "t \<in> Ts" "target_wake t ret s = Ret (a, s')"
  proof -
    let ?s = "target_wait (-1) t s"
    have "s' = target_wait 1 t ?s \<or> target_take t ret ?s = Ret (a, s')"
      using that(2) by (auto simp: target_wake_def Let_def split: if_splits)
    then have "sched_inv Ts Gs s' \<and> use_kept (ObjTarget t) ?s s'"
      using take_frame(1) [OF w(1) that(1)] sched_inv_wait(1) [OF w(1)] by auto
    then show ?thesis using frame_trans frame_wait(1) by blast
  qed
  show "sched_inv Ts Gs s' \<and> use_kept (ObjGroup g) s s'" if "g \<in> Gs" "group_wake g ret s = Ret (a, s')"
  proof -
    let ?s = "group_wait (-1) g s"
    have "s' = group_wait 1 g ?s \<or> group_take g ret ?s = Ret (a, s')"
      using that(2) by (auto simp: group_wake_def Let_def split: if_splits)
    then have "sched_inv Ts Gs s' \<and> use_kept (ObjGroup g) ?s s'"
      using take_frame(2) [OF w(2) that(1)] sched_inv_wait(2) [OF w(2)] by auto
    then show ?thesis using frame_trans frame_wait(2) by blast
  qed
qed

text \<open>The objects of a manager.\<close>

definition owns :: "route_env \<Rightarrow> sched_object \<Rightarrow> bool" where
  "owns w obj \<longleftrightarrow> (case obj of ObjTarget t \<Rightarrow> t \<in> set (rv_targets w) \<and> grp w t = None | ObjGroup g \<Rightarrow> g \<in> set (rv_groups w))"

lemma use_frame:
  assumes "object_use obj (rv_sched w) s'" "env_ok w" "owns w obj"
  shows "sched_inv (set (rv_targets w)) (set (rv_groups w)) s' \<and> use_kept obj (rv_sched w) s'"
proof -
  note si = acquire_frame [OF env_okD(5) [OF assms(2)]]
  show ?thesis
    using assms(1,3)
  proof (cases rule: object_use.cases)
    case (use_acquire timeout a)
    then show ?thesis
      using si(1,2) assms(3) by (cases obj) (auto simp: object_acquire_def owns_def)
  qed (use si(3,4) in \<open>auto simp: owns_def\<close>)
qed

text \<open>A change of the scheduler that leaves groups and buffers alone keeps the invariant.\<close>

lemma frame_inv:
  assumes "route_inv m ns" "sched_inv (set (rv_targets (rm_env m))) (set (rv_groups (rm_env m))) s'"
    "use_kept obj (rv_sched (rm_env m)) s'" "owns (rm_env m) obj"
    "\<forall>t n g. obj = ObjTarget t \<longrightarrow> n \<in> set ns \<longrightarrow> re_group (rm_entry m n) = Some g \<longrightarrow> t \<notin> set (re_targets (rm_entry m n))"
  shows "route_inv (m\<lparr>rm_env := upd_sched s' (rm_env m)\<rparr>) ns"
proof -
  let ?w = "rm_env m" and ?w' = "upd_sched s' (rm_env m)"
  have f: "rv_targets ?w' = rv_targets ?w" "rv_groups ?w' = rv_groups ?w" "rv_next ?w' = rv_next ?w"
      "\<And>x. grp ?w' x = grp ?w x" "\<And>x. obj \<noteq> ObjTarget x \<Longrightarrow> waits ?w' x = waits ?w x" "\<And>g. bufsz ?w' g = bufsz ?w g"
    using assms(3) by (simp_all add: upd_sched_def grp_def waits_def bufsz_def use_kept_def)
  have e: "env_ok ?w" "cache_of m ns" "\<exists>t. holds_tree (rm_cache m) t \<and> is_rbt t \<and> nodes t = ns"
    using assms(1) by (simp_all add: route_inv_def)
  have "env_ok ?w'"
    using e(1) assms(2) by (simp add: env_ok_def upd_sched_def)
  moreover have "entry_ok ?w' (rm_entry m n)" if n: "n \<in> set ns" for n
  proof (cases "re_group (rm_entry m n)")
    case None
    then show ?thesis using cache_ofD(3) [OF e(2) n] f(1,4) by (simp add: entry_ok_def)
  next
    case (Some g)
    note eo = entry_okD [OF cache_ofD(3) [OF e(2) n] Some]
    note mb = membersD [OF eo(2)]
    have w: "waits ?w' t = 0" if "t \<in> set (re_targets (rm_entry m n))" for t
    proof -
      have "obj \<noteq> ObjTarget t" using assms(5) n Some that by blast
      then show ?thesis using f(5) mb(5) [OF that] by simp
    qed
    have "members ?w' g (re_targets (rm_entry m n))"
      unfolding members_def f(1,2,4,6) using mb w by auto
    moreover have "in_group ?w' g (re_targets (rm_entry m n)) = in_group ?w g (re_targets (rm_entry m n))"
      by (simp add: in_group_def f(4))
    ultimately show ?thesis using eo Some f(4) by (simp add: entry_ok_def)
  qed
  moreover have "key_at (m\<lparr>rm_env := ?w'\<rparr>) n = key_at m n" for n by (simp add: key_at_def)
  ultimately show ?thesis
    using e(2,3) f(1-3) by (simp add: route_inv_def cache_of_def)
qed

section \<open>All runs\<close>

text \<open>
  \<open>route_reach m C\<close>: a manager that was constructed and used, with \<open>C\<close> the cookies that \<open>get\<close> has
  handed out. A notification is about a target of the cookie's entry.
\<close>

definition route_start :: "route_manager \<Rightarrow> bool" where
  "route_start m \<longleftrightarrow> rb_node (rm_cache m) = None \<and> rv_targets (rm_env m) = [] \<and> rv_groups (rm_env m) = []"

definition cookie_of :: "sched_errno + nat \<times> sched_object option \<Rightarrow> nat set" where
  "cookie_of res = (case res of Inl er \<Rightarrow> {} | Inr (n, obj) \<Rightarrow> {n})"

inductive route_reach :: "(string \<Rightarrow> string) \<Rightarrow> route_manager \<Rightarrow> nat set \<Rightarrow> bool" for sha1 where
  reach_new: "route_start m \<Longrightarrow> route_reach sha1 m {}"
| reach_get: "route_reach sha1 m C \<Longrightarrow> addrinfo \<noteq> [] \<Longrightarrow> length addrinfo < 2 ^ 29 \<Longrightarrow> max_connections_of other_info ep < 2 ^ 32 \<Longrightarrow>
    route_get sha1 ini grow now type addrinfo other_info ep hostname m = Some (Ret (res, m')) \<Longrightarrow>
    route_reach sha1 m' (C \<union> cookie_of res)"
| reach_unavailable: "route_reach sha1 m C \<Longrightarrow> \<forall>n t. cookie = Some n \<longrightarrow> target = Some t \<longrightarrow> n \<in> C \<and> t \<in> set (re_targets (rm_entry m n)) \<Longrightarrow>
    notify_unavailable now cookie target m = Ret m' \<Longrightarrow> route_reach sha1 m' C"
| reach_available: "route_reach sha1 m C \<Longrightarrow> \<forall>n t. cookie = Some n \<longrightarrow> target = Some t \<longrightarrow> n \<in> C \<and> t \<in> set (re_targets (rm_entry m n)) \<Longrightarrow>
    notify_available al cookie target m = Ret m' \<Longrightarrow> route_reach sha1 m' C"
| reach_use: "route_reach sha1 m C \<Longrightarrow> n \<in> C \<Longrightarrow> re_request_object (rm_entry m n) = Some obj \<Longrightarrow>
    object_use obj (rv_sched (rm_env m)) s' \<Longrightarrow> route_reach sha1 (m\<lparr>rm_env := upd_sched s' (rm_env m)\<rparr>) C"
| reach_release: "route_reach sha1 m C \<Longrightarrow> n \<in> C \<Longrightarrow> t \<in> set (re_targets (rm_entry m n)) \<Longrightarrow> 0 < loads (rv_sched (rm_env m)) t \<Longrightarrow>
    target_release t ka (rv_sched (rm_env m)) = Ret (sig, s') \<Longrightarrow> route_reach sha1 (m\<lparr>rm_env := upd_sched s' (rm_env m)\<rparr>) C"

lemma start_route_inv: "route_start m \<Longrightarrow> route_inv m []"
proof -
  assume s: "route_start m"
  have "holds_tree (rm_cache m) Lf" using s by (simp add: holds_tree_def at_def route_start_def)
  moreover have "is_rbt Lf" by (simp add: is_rbt_def)
  moreover have "env_ok (rm_env m)" using s by (simp add: env_ok_def sched_inv_def route_start_def)
  ultimately show ?thesis
    using s by (auto simp: route_inv_def cache_of_def route_start_def)
qed

lemma notify_inv:
  assumes "route_inv m ns" "\<forall>n t. cookie = Some n \<longrightarrow> target = Some t \<longrightarrow> n \<in> set ns \<and> t \<in> set (re_targets (rm_entry m n))"
  shows "\<exists>m'. notify_unavailable now cookie target m = Ret m' \<and> route_inv m' ns"
    "\<exists>m'. notify_available al cookie target m = Ret m' \<and> route_inv m' ns"
proof -
  have inv: "env_ok (rm_env m)" "cache_of m ns" using assms(1) by (simp_all add: route_inv_def)
  have st: "\<exists>e w. r = Ret (e, w) \<and> route_inv (m\<lparr>rm_entry := (rm_entry m)(n := e), rm_env := w\<rparr>) ns"
    if r: "entry_step (rm_entry m n) (rm_env m) r" "n \<in> set ns" for r n
  proof -
    obtain e w where e: "r = Ret (e, w)" using r(1) by (auto simp: entry_step_def)
    show ?thesis using entry_step_inv [OF assms(1) r(2) r(1) [unfolded e]] e by blast
  qed
  show "\<exists>m'. notify_unavailable now cookie target m = Ret m' \<and> route_inv m' ns"
  proof (cases "\<exists>n t. cookie = Some n \<and> target = Some t")
    case True
    then obtain n t where c: "cookie = Some n" "target = Some t" by blast
    then have nt: "n \<in> set ns" "t \<in> set (re_targets (rm_entry m n))" using assms(2) by blast+
    show ?thesis
      using st [OF entry_unavailable_ok [OF inv(1) cache_ofD(3) [OF inv(2) nt(1)] nt(2)] nt(1), of now] c
      by (auto simp: notify_unavailable_def)
  next
    case False
    then show ?thesis using assms(1) by (cases cookie; cases target) (auto simp: notify_unavailable_def)
  qed
  show "\<exists>m'. notify_available al cookie target m = Ret m' \<and> route_inv m' ns"
  proof (cases "\<exists>n t. cookie = Some n \<and> target = Some t")
    case True
    then obtain n t where c: "cookie = Some n" "target = Some t" by blast
    then have nt: "n \<in> set ns" "t \<in> set (re_targets (rm_entry m n))" using assms(2) by blast+
    show ?thesis
      using st [OF entry_available_ok [OF inv(1) cache_ofD(3) [OF inv(2) nt(1)] nt(2)] nt(1), of al] c
      by (auto simp: notify_available_def)
  next
    case False
    then show ?thesis using assms(1) by (cases cookie; cases target) (auto simp: notify_available_def)
  qed
qed

lemma object_owned:
  assumes "route_inv m ns" "n \<in> set ns" "re_request_object (rm_entry m n) = Some obj"
  shows "owns (rm_env m) obj"
    "\<forall>t n g. obj = ObjTarget t \<longrightarrow> n \<in> set ns \<longrightarrow> re_group (rm_entry m n) = Some g \<longrightarrow> t \<notin> set (re_targets (rm_entry m n))"
proof -
  have inv: "env_ok (rm_env m)" "cache_of m ns" using assms(1) by (simp_all add: route_inv_def)
  note eo = cache_ofD(3) [OF inv(2) assms(2)]
  show "owns (rm_env m) obj"
  proof (cases "re_group (rm_entry m n)")
    case None
    then show ?thesis using eo assms(3) by (auto simp: entry_ok_def owns_def)
  next
    case (Some g)
    then show ?thesis using entry_okD(1,2) [OF eo Some] assms(3) by (simp add: owns_def members_def)
  qed
  show "\<forall>t n g. obj = ObjTarget t \<longrightarrow> n \<in> set ns \<longrightarrow> re_group (rm_entry m n) = Some g \<longrightarrow> t \<notin> set (re_targets (rm_entry m n))"
  proof (intro allI impI)
    fix t k g assume t: "obj = ObjTarget t" "k \<in> set ns" "re_group (rm_entry m k) = Some g"
    have "re_group (rm_entry m n) = None" "re_targets (rm_entry m n) = [t]"
      using eo t(1) assms(3) by (auto simp: entry_ok_def split: option.splits)
    moreover from this have "k \<noteq> n" using t(3) by auto
    ultimately show "t \<notin> set (re_targets (rm_entry m k))"
      using entries_apart [OF inv assms(2) t(2)] by (auto simp: apart_def)
  qed
qed

lemma route_get_inv:
  assumes "route_inv m ns" "addrinfo \<noteq> []" "length addrinfo < 2 ^ 29" "max_connections_of other_info ep < 2 ^ 32"
  shows "\<exists>res m' ns'. route_get sha1 ini grow now type addrinfo other_info ep hostname m = Some (Ret (res, m'))
    \<and> route_inv m' ns' \<and> set ns' = set ns \<union> cookie_of res"
proof -
  obtain key where key: "generate_key sha1 type addrinfo other_info ep hostname = Ret key"
    using generate_key_some [OF assms(2)] by blast
  show ?thesis
  proof (cases "\<exists>n\<in>set ns. key_at m n = key")
    case True
    then obtain n where n: "n \<in> set ns" "key = key_at m n" by blast
    show ?thesis
      using route_get_hit [OF assms(1) n(1) key [unfolded n(2)], of grow now ini] n(1) by (auto simp: cookie_of_def insert_absorb)
  next
    case False
    then have no: "\<forall>n\<in>set ns. key_at m n \<noteq> key" by blast
    obtain res m' where r: "route_get sha1 ini grow now type addrinfo other_info ep hostname m = Some (Ret (res, m'))"
      "\<forall>er. res = Inl er \<longrightarrow> route_inv m' ns \<and> rm_cache m' = rm_cache m \<and> rm_entry m' = rm_entry m"
      "\<forall>n obj. res = Inr (n, obj) \<longrightarrow> n \<notin> set ns \<and> (\<exists>xs ys. ns = xs @ ys \<and> route_inv m' (xs @ n # ys))
         \<and> key_at m' n = key \<and> (\<forall>x. x \<noteq> n \<longrightarrow> rm_entry m' x = rm_entry m x) \<and> obj = re_request_object (rm_entry m' n)
         \<and> map (rv_peer (rm_env m')) (re_targets (rm_entry m' n))
             = map (peer_of (params_of type addrinfo key other_info ep hostname)) addrinfo
         \<and> (\<forall>t\<in>set (re_targets (rm_entry m' n)). grp (rm_env m') t = re_group (rm_entry m' n))"
      using route_get_miss [OF assms(1) key assms(2-4) no, of ini grow now] by (elim exE conjE)
    show ?thesis
    proof (cases res)
      case (Inl er)
      then show ?thesis using r(1,2) by (auto simp: cookie_of_def)
    next
      case (Inr p)
      obtain n obj where p: "p = (n, obj)" by (cases p)
      then obtain xs ys where "ns = xs @ ys" "route_inv m' (xs @ n # ys)" using r(3) Inr by blast
      then show ?thesis using r(1) Inr p by (intro exI [of _ res] exI [of _ m'] exI [of _ "xs @ n # ys"]) (auto simp: cookie_of_def)
    qed
  qed
qed

lemma reach_inv: "route_reach sha1 m C \<Longrightarrow> \<exists>ns. route_inv m ns \<and> C = set ns"
proof (induction rule: route_reach.induct)
  case (reach_new m)
  then show ?case using start_route_inv by force
next
  case (reach_get m C addrinfo other_info ep ini grow now type hostname res m')
  then obtain ns where ns: "route_inv m ns" "C = set ns" by blast
  show ?case
    using route_get_inv [OF ns(1) reach_get.hyps(2-4), of sha1 ini grow now type hostname] reach_get.hyps(5) ns(2) by auto
next
  case (reach_unavailable m C cookie target now m')
  then obtain ns where ns: "route_inv m ns" "C = set ns" by blast
  show ?case
    using notify_inv(1) [OF ns(1), of cookie target now] reach_unavailable.hyps(2,3) ns by auto
next
  case (reach_available m C cookie target al m')
  then obtain ns where ns: "route_inv m ns" "C = set ns" by blast
  show ?case
    using notify_inv(2) [OF ns(1), of cookie target al] reach_available.hyps(2,3) ns by auto
next
  case (reach_use m C n obj s')
  then obtain ns where ns: "route_inv m ns" "C = set ns" by blast
  have n: "n \<in> set ns" using reach_use.hyps(2) ns(2) by simp
  have e: "env_ok (rm_env m)" using ns(1) by (simp add: route_inv_def)
  note ow = object_owned [OF ns(1) n reach_use.hyps(3)]
  have "route_inv (m\<lparr>rm_env := upd_sched s' (rm_env m)\<rparr>) ns"
    using use_frame [OF reach_use.hyps(4) e ow(1)] frame_inv [OF ns(1) _ _ ow] by blast
  then show ?case using ns(2) by blast
next
  case (reach_release m C n t ka sig s')
  then obtain ns where ns: "route_inv m ns" "C = set ns" by blast
  have e: "env_ok (rm_env m)" "cache_of m ns" using ns(1) by (simp_all add: route_inv_def)
  have n: "n \<in> set ns" using reach_release.hyps(2) ns(2) by simp
  have t: "t \<in> set (rv_targets (rm_env m))"
  proof (cases "re_group (rm_entry m n)")
    case None
    then show ?thesis using cache_ofD(3) [OF e(2) n] reach_release.hyps(3) by (auto simp: entry_ok_def)
  next
    case (Some g)
    show ?thesis using membersD(3) [OF entry_okD(2) [OF cache_ofD(3) [OF e(2) n] Some] reach_release.hyps(3)] .
  qed
  obtain obj where obj: "re_request_object (rm_entry m n) = Some obj"
    using cache_ofD(3) [OF e(2) n] by (auto simp: entry_ok_def split: option.splits)
  note ow = object_owned [OF ns(1) n obj]
  have "route_inv (m\<lparr>rm_env := upd_sched s' (rm_env m)\<rparr>) ns"
    using take_frame(3) [OF env_okD(5) [OF e(1)] t reach_release.hyps(4,5), of obj] frame_inv [OF ns(1) _ _ ow] by blast
  then show ?case using ns(2) by blast
qed

section \<open>Properties of all runs\<close>

lemma sorted_keys_inj:
  fixes k :: "nat \<Rightarrow> 64 word"
  shows "sorted_wrt (\<lambda>a b. k a < k b) xs \<Longrightarrow> inj_on k (set xs)"
proof (induction xs)
  case (Cons x xs)
  then have "k x \<notin> k ` set xs" by (metis imageE less_irrefl sorted_wrt.simps(2))
  then show ?case using Cons by (auto simp: inj_on_insert)
qed simp

text \<open>
  C11. In every state of a route manager, with any number of requests, notifications and connections
  in between: the entries are found under distinct keys, the object of an entry with one address is
  its target, and for an entry with a group at least one of its targets is in the group, as many as
  \<open>nleft\<close> says, nothing else is in the group, every target that is out of the group has a node in
  the breaker list, \<open>nbreak\<close> is the length of this list, and no notification runs into undefined
  behaviour or leaves the manager in a state without these properties.
\<close>

theorem route_reachable_inv:
  assumes "route_reach sha1 m C" "n \<in> C"
  shows "inj_on (key_at m) C
    \<and> (case re_group (rm_entry m n) of
         None \<Rightarrow> \<exists>t. re_targets (rm_entry m n) = [t] \<and> re_request_object (rm_entry m n) = Some (ObjTarget t)
       | Some g \<Rightarrow> re_request_object (rm_entry m n) = Some (ObjGroup g)
           \<and> {t \<in> set (rv_targets (rm_env m)). grp (rm_env m) t = Some g} \<subseteq> set (re_targets (rm_entry m n))
           \<and> re_nleft (rm_entry m n) = int (length (filter (\<lambda>t. grp (rm_env m) t = Some g) (re_targets (rm_entry m n))))
           \<and> 1 \<le> re_nleft (rm_entry m n)
           \<and> re_nbreak (rm_entry m n) = int (length (re_breaker_list (rm_entry m n)))
           \<and> (\<forall>t\<in>set (re_targets (rm_entry m n)). grp (rm_env m) t \<noteq> Some g \<longrightarrow> t \<in> fst ` set (re_breaker_list (rm_entry m n))))
    \<and> (\<forall>t\<in>set (re_targets (rm_entry m n)).
         (\<exists>m'. notify_unavailable now (Some n) (Some t) m = Ret m' \<and> route_reach sha1 m' C)
         \<and> (\<exists>m'. notify_available al (Some n) (Some t) m = Ret m' \<and> route_reach sha1 m' C))"
proof -
  obtain ns where ns: "route_inv m ns" "C = set ns" using reach_inv [OF assms(1)] by blast
  have e: "cache_of m ns" using ns(1) by (simp add: route_inv_def)
  have n: "n \<in> set ns" using assms(2) ns(2) by simp
  note eo = cache_ofD(3) [OF e n]
  have s: "sorted_wrt (\<lambda>a b. key_at m a < key_at m b) ns" by (rule cache_ofD(1) [OF e])
  then have "inj_on (key_at m) (set ns)" by (rule sorted_keys_inj)
  moreover have "case re_group (rm_entry m n) of
         None \<Rightarrow> \<exists>t. re_targets (rm_entry m n) = [t] \<and> re_request_object (rm_entry m n) = Some (ObjTarget t)
       | Some g \<Rightarrow> re_request_object (rm_entry m n) = Some (ObjGroup g)
           \<and> {t \<in> set (rv_targets (rm_env m)). grp (rm_env m) t = Some g} \<subseteq> set (re_targets (rm_entry m n))
           \<and> re_nleft (rm_entry m n) = int (length (filter (\<lambda>t. grp (rm_env m) t = Some g) (re_targets (rm_entry m n))))
           \<and> 1 \<le> re_nleft (rm_entry m n)
           \<and> re_nbreak (rm_entry m n) = int (length (re_breaker_list (rm_entry m n)))
           \<and> (\<forall>t\<in>set (re_targets (rm_entry m n)). grp (rm_env m) t \<noteq> Some g \<longrightarrow> t \<in> fst ` set (re_breaker_list (rm_entry m n)))"
  proof (cases "re_group (rm_entry m n)")
    case None
    then show ?thesis using eo by (auto simp: entry_ok_def)
  next
    case (Some g)
    note d = entry_okD [OF eo Some]
    have "\<forall>t\<in>set (re_targets (rm_entry m n)). grp (rm_env m) t \<noteq> Some g \<longrightarrow> t \<in> fst ` set (re_breaker_list (rm_entry m n))"
      using d(8) membersD(6) [OF d(2)] by blast
    then show ?thesis using Some d(1,4-6) membersD(4) [OF d(2)] by (auto simp: in_group_def)
  qed
  moreover have "(\<exists>m'. notify_unavailable now (Some n) (Some t) m = Ret m' \<and> route_reach sha1 m' C)
         \<and> (\<exists>m'. notify_available al (Some n) (Some t) m = Ret m' \<and> route_reach sha1 m' C)"
    if t: "t \<in> set (re_targets (rm_entry m n))" for t
  proof -
    have ok: "\<forall>k u. Some n = Some k \<longrightarrow> Some t = Some u \<longrightarrow> k \<in> C \<and> u \<in> set (re_targets (rm_entry m k))"
      using assms(2) t by simp
    obtain m1 where "notify_unavailable now (Some n) (Some t) m = Ret m1"
      using notify_inv(1) [OF ns(1), of "Some n" "Some t" now] ok ns(2) by blast
    moreover obtain m2 where "notify_available al (Some n) (Some t) m = Ret m2"
      using notify_inv(2) [OF ns(1), of "Some n" "Some t" al] ok ns(2) by blast
    ultimately show ?thesis
      using route_reach.reach_unavailable [OF assms(1) ok] route_reach.reach_available [OF assms(1) ok] by blast
  qed
  ultimately show ?thesis using ns(2) by simp
qed

text \<open>
  C13. A target that failed comes back: when the cache is asked for an entry after the time of all
  its breaker nodes, \<open>get\<close> answers with the entry, and then all its targets are in service again and no
  breaker node is left.
\<close>

theorem route_breaker_recovers:
  assumes "route_reach sha1 m C" "n \<in> C" "generate_key sha1 type addrinfo other_info ep hostname = Ret (key_at m n)"
    "\<forall>(t, timeout)\<in>set (re_breaker_list (rm_entry m n)). timeout \<le> now"
  shows "\<exists>m'. route_get sha1 ini grow now type addrinfo other_info ep hostname m
      = Some (Ret (Inr (n, re_request_object (rm_entry m n)), m'))
    \<and> re_breaker_list (rm_entry m' n) = [] \<and> re_targets (rm_entry m' n) = re_targets (rm_entry m n)
    \<and> (\<forall>t\<in>set (re_targets (rm_entry m' n)). grp (rm_env m') t = re_group (rm_entry m n))"
proof -
  obtain ns where ns: "route_inv m ns" "C = set ns" using reach_inv [OF assms(1)] by blast
  have inv: "env_ok (rm_env m)" "cache_of m ns" using ns(1) by (simp_all add: route_inv_def)
  have n: "n \<in> set ns" using assms(2) ns(2) by simp
  note eo = cache_ofD(3) [OF inv(2) n]
  obtain e w where r: "check_breaker grow now (rm_entry m n) (rm_env m) = Ret (e, w)"
      "route_get sha1 ini grow now type addrinfo other_info ep hostname m
        = Some (Ret (Inr (n, re_request_object (rm_entry m n)), m\<lparr>rm_entry := (rm_entry m)(n := e), rm_env := w\<rparr>))"
      "same_entry (rm_entry m n) e"
    using route_get_hit [OF ns(1) n assms(3), of grow now ini] by blast
  have "re_breaker_list e = [] \<and> (\<forall>t\<in>set (re_targets e). grp w t = re_group (rm_entry m n))"
  proof (cases "re_group (rm_entry m n)")
    case None
    then obtain t where "re_targets (rm_entry m n) = [t]" "grp (rm_env m) t = None" "re_breaker_list (rm_entry m n) = []"
      using eo by (auto simp: entry_ok_def)
    then show ?thesis using r(1) None by (auto simp: check_breaker_def)
  next
    case (Some g)
    note d = entry_okD [OF eo Some]
    have ex: "waiting now (re_breaker_list (rm_entry m n)) = []" "set (expired now (re_breaker_list (rm_entry m n))) = fst ` set (re_breaker_list (rm_entry m n))"
    proof -
      show "waiting now (re_breaker_list (rm_entry m n)) = []"
        using assms(4) by (auto simp: waiting_def filter_empty_conv not_less)
      then show "set (expired now (re_breaker_list (rm_entry m n))) = fst ` set (re_breaker_list (rm_entry m n))"
        using fst_split [of "re_breaker_list (rm_entry m n)" now] by simp
    qed
    have c: "re_breaker_list e = []" "\<forall>t. grp w t = (if t \<in> fst ` set (re_breaker_list (rm_entry m n)) then Some g else grp (rm_env m) t)"
      using check_breaker_ok(2) [OF inv(1) eo Some, of grow now] r(1) ex by auto
    have "grp w t = Some g" if "t \<in> set (re_targets (rm_entry m n))" for t
      using spec [OF c(2), of t] d(8) [OF that] membersD(6) [OF d(2) that] by (cases "t \<in> fst ` set (re_breaker_list (rm_entry m n))") (simp, elim disjE, simp_all)
    moreover have "re_targets e = re_targets (rm_entry m n)" using r(3) by (simp add: same_entry_def)
    ultimately show ?thesis using c(1) Some by simp
  qed
  then show ?thesis using r(2,3) by (auto simp: same_entry_def)
qed

end
