(* ===== verification/RouteEnd.thy ===== *)
theory RouteEnd
  imports RouteReach
begin

text \<open>
  Asking twice for the same host, the destructor, and a run of a route manager with one host of
  two addresses.
\<close>

section \<open>Asking again\<close>

text \<open>
  C15. A route is found again: after a successful \<open>get\<close>, any request for the same addresses in any
  order, with the same limits and the same further information, gets the same entry and the same
  object, whatever the name of the host.
\<close>

theorem route_get_again:
  assumes "route_reach sha1 m C" "addrinfo \<noteq> []" "length addrinfo < 2 ^ 29" "max_connections_of other_info ep < 2 ^ 32"
    "route_get sha1 ini grow now type addrinfo other_info ep hostname m = Some (Ret (Inr (n, obj), m'))"
    "mset addrinfo' = mset addrinfo"
  shows "\<exists>m''. route_get sha1 ini' grow' now' type addrinfo' other_info ep hostname' m' = Some (Ret (Inr (n, obj), m''))"
proof -
  obtain ns where ns: "route_inv m ns" using reach_inv [OF assms(1)] by blast
  obtain key where key: "generate_key sha1 type addrinfo other_info ep hostname = Ret key"
    using generate_key_some [OF assms(2)] by blast
  have key': "generate_key sha1 type addrinfo' other_info ep hostname' = Ret key"
    by (rule trans [OF generate_key_order [OF assms(6)] key])
  have "\<exists>ns'. route_inv m' ns' \<and> n \<in> set ns' \<and> key_at m' n = key \<and> obj = re_request_object (rm_entry m' n)"
  proof (cases "\<exists>x\<in>set ns. key_at m x = key")
    case True
    then obtain x where x: "x \<in> set ns" "key = key_at m x" by blast
    obtain e w where "route_get sha1 ini grow now type addrinfo other_info ep hostname m
        = Some (Ret (Inr (x, re_request_object (rm_entry m x)), m\<lparr>rm_entry := (rm_entry m)(x := e), rm_env := w\<rparr>))"
      "route_inv (m\<lparr>rm_entry := (rm_entry m)(x := e), rm_env := w\<rparr>) ns" "same_entry (rm_entry m x) e"
      using route_get_hit [OF ns x(1) key [unfolded x(2)], of grow now ini] by blast
    then show ?thesis using assms(5) x by (auto simp: key_at_def same_entry_def)
  next
    case False
    then have no: "\<forall>x\<in>set ns. key_at m x \<noteq> key" by blast
    obtain res m1 where r: "route_get sha1 ini grow now type addrinfo other_info ep hostname m = Some (Ret (res, m1))"
      "\<forall>n obj. res = Inr (n, obj) \<longrightarrow> n \<notin> set ns \<and> (\<exists>xs ys. ns = xs @ ys \<and> route_inv m1 (xs @ n # ys))
         \<and> key_at m1 n = key \<and> (\<forall>x. x \<noteq> n \<longrightarrow> rm_entry m1 x = rm_entry m x) \<and> obj = re_request_object (rm_entry m1 n)
         \<and> map (rv_peer (rm_env m1)) (re_targets (rm_entry m1 n))
             = map (peer_of (params_of type addrinfo key other_info ep hostname)) addrinfo
         \<and> (\<forall>t\<in>set (re_targets (rm_entry m1 n)). grp (rm_env m1) t = re_group (rm_entry m1 n))"
      using route_get_miss [OF ns key assms(2-4) no, of ini grow now] by (elim exE conjE)
    have "res = Inr (n, obj)" "m1 = m'" using r(1) assms(5) by simp_all
    then obtain xs ys where "route_inv m' (xs @ n # ys)" "key_at m' n = key" "obj = re_request_object (rm_entry m' n)"
      using r(2) by blast
    then show ?thesis by (intro exI [of _ "xs @ n # ys"]) simp
  qed
  then obtain ns' where n: "route_inv m' ns'" "n \<in> set ns'" "key_at m' n = key" "obj = re_request_object (rm_entry m' n)" by blast
  show ?thesis
    using route_get_hit [OF n(1,2), of sha1 type addrinfo' other_info ep hostname' grow' now' ini'] key' n(3,4) by auto
qed

section \<open>The destructor\<close>

lemma entry_ok_gone:
  assumes "entry_ok w e1" "entry_gone e2 w w'" "apart e1 e2" "env_ok w"
    "set (re_targets e1) \<subseteq> set (rv_targets w')" "\<And>g. re_group e1 = Some g \<Longrightarrow> g \<in> set (rv_groups w')"
  shows "entry_ok w' e1"
proof -
  have own: "grp w' t = grp w t" if "t \<in> set (re_targets e1)" for t
    using assms(2,3) that by (auto simp: entry_gone_def apart_def)
  have sub: "x \<in> set (rv_targets w)" "grp w' x = grp w x" if "x \<in> set (rv_targets w')" for x
  proof -
    have m: "mset (rv_targets w') = mset (rv_targets w) - mset (re_targets e2)" using assms(2) by (simp add: entry_gone_def)
    have x: "x \<in># mset (rv_targets w) - mset (re_targets e2)" using that m by (metis set_mset_mset)
    then show "x \<in> set (rv_targets w)" using in_diffD by fastforce
    have "count (mset (rv_targets w)) x \<le> 1" using env_okD(1) [OF assms(4)] by (simp add: distinct_count_atmost_1)
    moreover have "count (mset (re_targets e2)) x < count (mset (rv_targets w)) x" using x by (simp add: in_diff_count)
    ultimately have "count (mset (re_targets e2)) x = 0" by linarith
    then have "x \<notin> set (re_targets e2)" by (metis count_eq_zero_iff set_mset_mset)
    then show "grp w' x = grp w x" using assms(2) by (simp add: entry_gone_def)
  qed
  show ?thesis
  proof (cases "re_group e1")
    case None
    then obtain t where "re_targets e1 = [t]" "re_request_object e1 = Some (ObjTarget t)" "t \<in> set (rv_targets w)"
        "grp w t = None" "re_breaker_list e1 = []" "re_nleft e1 = 0" "re_nbreak e1 = 0"
      using assms(1) by (auto simp: entry_ok_def)
    then show ?thesis using None own [of t] assms(5) by (simp add: entry_ok_def)
  next
    case (Some g)
    note e = entry_okD [OF assms(1) Some]
    note m = membersD [OF e(2)]
    have b: "bufsz w' g = bufsz w g" "\<And>x. waits w' x = waits w x"
      using assms(2,3) Some by (auto simp: entry_gone_def apart_def)
    have "members w' g (re_targets e1)"
      unfolding members_def b using m own assms(5) assms(6) [OF Some] sub by auto
    moreover have "in_group w' g (re_targets e1) = in_group w g (re_targets e1)"
      unfolding in_group_def by (rule filter_cong) (simp_all add: own)
    ultimately show ?thesis using Some e own by (simp add: entry_ok_def)
  qed
qed

lemma destroy_step:
  assumes "route_inv m ns" "ns = xs @ n # ys"
  shows "\<exists>h e w. rb_erase n (rm_cache m) = Some (Ret h) \<and> entry_deinit (rm_entry m n) (rm_env m) = Ret (e, w)
    \<and> route_inv (m\<lparr>rm_cache := h, rm_entry := (rm_entry m)(n := e), rm_env := w\<rparr>) (xs @ ys)"
proof -
  obtain t where t: "holds_tree (rm_cache m) t" "is_rbt t" "nodes t = ns" using assms(1) by (auto simp: route_inv_def)
  have inv: "env_ok (rm_env m)" "cache_of m ns" using assms(1) by (simp_all add: route_inv_def)
  note cd = cache_ofD [OF inv(2)]
  have n: "n \<in> set ns" using assms(2) by simp
  have d: "distinct ns" by (rule route_inv_distinct [OF assms(1)])
  have rm: "remove1 n ns = xs @ ys" using d assms(2) by (simp add: remove1_append)
  obtain h t' where h: "rb_erase n (rm_cache m) = Some (Ret h)" "holds_tree h t'" "is_rbt t'" "nodes t' = xs @ ys"
    using rb_erase_correct [OF t(1,2), of n] t(3) n rm by (auto simp: erased_def)
  obtain e w where e: "entry_deinit (rm_entry m n) (rm_env m) = Ret (e, w)" "entry_gone (rm_entry m n) (rm_env m) w"
    using entry_deinit_ok [OF inv(1) cd(3) [OF n]] by blast
  have g: "env_ok w" "mset (rv_targets w) = mset (rv_targets (rm_env m)) - mset (re_targets (rm_entry m n))"
      "mset (rv_groups w) = mset (rv_groups (rm_env m)) - mset (group_list (rm_entry m n))" "rv_next w = rv_next (rm_env m)"
    using e(2) by (simp_all add: entry_gone_def)
  let ?m = "m\<lparr>rm_cache := h, rm_entry := (rm_entry m)(n := e), rm_env := w\<rparr>"
  have nn: "n \<notin> set (xs @ ys)" using d assms(2) by simp
  have same: "map (\<lambda>n. f (rm_entry ?m n)) (xs @ ys) = map (\<lambda>n. f (rm_entry m n)) (xs @ ys)" for f :: "route_entry \<Rightarrow> nat list"
    using nn by (auto intro!: map_cong)
  have ms: "mset (rv_targets w) = mset (concat (map (\<lambda>n. re_targets (rm_entry ?m n)) (xs @ ys)))"
      "mset (rv_groups w) = mset (concat (map (\<lambda>n. group_list (rm_entry ?m n)) (xs @ ys)))"
    unfolding same g(2,3) cd(4,5) assms(2) by simp_all
  have ok: "entry_ok w (rm_entry m x)" if x: "x \<in> set (xs @ ys)" for x
  proof (rule entry_ok_gone [OF cd(3) e(2) entries_apart [OF inv _ n] inv(1)])
    show xn: "x \<in> set ns" "x \<in> set ns" "x \<noteq> n" using x nn assms(2) by auto
    have "\<And>y. y \<in> set (re_targets (rm_entry m x)) \<Longrightarrow> y \<in># mset (rv_targets w)"
      unfolding ms(1) same using x by auto
    then show "set (re_targets (rm_entry m x)) \<subseteq> set (rv_targets w)" by auto
    fix g assume "re_group (rm_entry m x) = Some g"
    then have "g \<in># mset (rv_groups w)" unfolding ms(2) same using x by (force simp: group_list_def)
    then show "g \<in> set (rv_groups w)" by simp
  qed
  have k: "key_at ?m x = key_at m x" if "x \<in> set (xs @ ys)" for x using that nn by (auto simp: key_at_def)
  have "sorted_wrt (\<lambda>a b. key_at m a < key_at m b) (xs @ ys)"
    using cd(1) assms(2) by (simp add: sorted_wrt_append)
  then have "sorted_wrt (\<lambda>a b. key_at ?m a < key_at ?m b) (xs @ ys)"
    by (rule sorted_wrt_mono_rel [rotated]) (use k in simp)
  moreover have "\<forall>x\<in>set (xs @ ys). x < rv_next w \<and> entry_ok w (rm_entry ?m x)"
    using ok cd(2) g(4) nn assms(2) by auto
  ultimately have "cache_of ?m (xs @ ys)"
    unfolding cache_of_def using ms by simp
  then show ?thesis using h e(1) g(1) by (auto simp: route_inv_def)
qed

lemma route_destroy_ok:
  assumes "route_inv m ns"
  shows "\<exists>m'. route_destroy m = Some (Ret m') \<and> rb_node (rm_cache m') = None
    \<and> rv_targets (rm_env m') = [] \<and> rv_groups (rm_env m') = []"
  using assms
proof (induction "length ns" arbitrary: m ns)
  case 0
  then have "ns = []" by simp
  then obtain t where t: "holds_tree (rm_cache m) t" "nodes t = []" "cache_of m []"
    using "0.prems" by (auto simp: route_inv_def)
  have "t = Lf" using t(2) by (cases t) auto
  then have "rb_node (rm_cache m) = None" using t(1) by (simp add: holds_tree_def at_def)
  then show ?case using cache_ofD(4,5) [OF t(3)] by (simp add: route_destroy.simps)
next
  case (Suc k)
  obtain t where t: "holds_tree (rm_cache m) t" "nodes t = ns" using Suc.prems by (auto simp: route_inv_def)
  obtain l n c r where nd: "t = Nd l n c r" using t(2) Suc.hyps(2) by (cases t) auto
  have root: "rb_node (rm_cache m) = Some n" using t(1) nd by (simp add: holds_tree_def at_def)
  have ns: "ns = nodes l @ n # nodes r" using t(2) nd by simp
  obtain h e w where s: "rb_erase n (rm_cache m) = Some (Ret h)" "entry_deinit (rm_entry m n) (rm_env m) = Ret (e, w)"
    "route_inv (m\<lparr>rm_cache := h, rm_entry := (rm_entry m)(n := e), rm_env := w\<rparr>) (nodes l @ nodes r)"
    using destroy_step [OF Suc.prems ns] by blast
  have "k = length (nodes l @ nodes r)" using Suc.hyps(2) ns by simp
  from Suc.hyps(1) [OF this s(3)] show ?case
    using root s(1,2) by (simp add: route_destroy.simps [of m])
qed

text \<open>
  C14. The destructor of a manager in any reachable state returns, whatever is in use and whatever is
  broken, and leaves an empty tree; every target and every group that was ever allocated is
  deleted, and none of them twice.
\<close>

theorem route_destroy_frees:
  assumes "route_reach sha1 m C"
  shows "\<exists>m'. route_destroy m = Some (Ret m') \<and> rb_node (rm_cache m') = None
    \<and> rv_targets (rm_env m') = [] \<and> rv_groups (rm_env m') = []"
  using reach_inv [OF assms] route_destroy_ok by blast

section \<open>A run\<close>

text \<open>
  One host with two addresses. Its target 2 fails at time 100 and comes back when the route is
  asked for at 130.
\<close>

definition route0 :: route_manager where
  "route0 = \<lparr>rm_cache = \<lparr>rb_parent = (\<lambda>a. None), rb_right = (\<lambda>a. None), rb_left = (\<lambda>a. None), rb_color = (\<lambda>a. RB_RED), rb_node = None\<rparr>,
     rm_entry = (\<lambda>n. new_entry),
     rm_env = \<lparr>rv_sched = sched0, rv_peer = (\<lambda>t. \<lparr>tg_addr = SockAddr [], tg_connect_timeout = 0, tg_response_timeout = 0\<rparr>),
       rv_targets = [], rv_groups = [], rv_next = 0\<rparr>\<rparr>"

definition ep0 :: endpoint_params where
  "ep0 = \<lparr>ep_max_connections = 200, ep_connect_timeout = 10000, ep_response_timeout = -1\<rparr>"

definition hash0 :: "string \<Rightarrow> string" where
  "hash0 s = replicate 20 (CHR ''h'')"

definition two_addrs :: "sock_addr list" where
  "two_addrs = [SockAddr ''b'', SockAddr ''a'']"

definition get0 :: "int \<Rightarrow> route_manager \<Rightarrow> ((sched_errno + nat \<times> sched_object option) \<times> route_manager) outcome option" where
  "get0 now m = route_get hash0 (\<lambda>_. True) (\<lambda>_. True) now TT_TCP two_addrs ''?maxconn=7'' ep0 ''host'' m"

definition result_of :: "('a \<times> route_manager) outcome option \<Rightarrow> route_manager" where
  "result_of r = (case r of Some (Ret (_, m)) \<Rightarrow> m | _ \<Rightarrow> route0)"

definition route1 :: route_manager where
  "route1 = result_of (get0 0 route0)"

definition route2 :: route_manager where
  "route2 = (case notify_unavailable 100 (Some 0) (Some 2) route1 of Ret m \<Rightarrow> m | UB \<Rightarrow> route0)"

lemma get0_run: "\<exists>m. get0 0 route0 = Some (Ret (Inr (0, Some (ObjGroup 1)), m)) \<and> m = route1"
proof -
  have "(case get0 0 route0 of Some (Ret (r, m)) \<Rightarrow> r = Inr (0, Some (ObjGroup 1)) | _ \<Rightarrow> False)" by code_simp
  then show ?thesis by (auto simp: result_of_def route1_def split: option.splits outcome.splits)
qed

lemma route0_facts: "route_start route0" "two_addrs \<noteq> []" "length two_addrs < 2 ^ 29"
    "max_connections_of ''?maxconn=7'' ep0 < 2 ^ 32" "0 < max_connections_of ''?maxconn=7'' ep0"
    "mset [SockAddr ''a'', SockAddr ''b''] = mset two_addrs"
proof -
  have "max_connections_of ''?maxconn=7'' ep0 = 7" by code_simp
  then show "max_connections_of ''?maxconn=7'' ep0 < 2 ^ 32" "0 < max_connections_of ''?maxconn=7'' ep0" by simp_all
qed (simp_all add: route_start_def route0_def two_addrs_def)

lemma get0_is: "get0 0 route0 = Some (Ret (Inr (0, Some (ObjGroup 1)), route1))"
  using get0_run by blast

lemma route1_reach: "route_reach hash0 route1 {0}"
  using reach_get [OF reach_new [OF route0_facts(1)] route0_facts(2-4) get0_is [unfolded get0_def]]
  by (simp add: cookie_of_def)

lemma route1_facts: "re_targets (rm_entry route1 0) = [2, 3]" "re_breaker_list (rm_entry route1 0) = []"
  by code_simp+

lemma route2_is: "notify_unavailable 100 (Some 0) (Some 2) route1 = Ret route2"
proof -
  have "(case notify_unavailable 100 (Some 0) (Some 2) route1 of Ret m \<Rightarrow> True | UB \<Rightarrow> False)" by code_simp
  then show ?thesis by (auto simp: route2_def split: outcome.splits)
qed

lemma route2_reach: "route_reach hash0 route2 {0}"
  by (rule reach_unavailable [OF route1_reach _ route2_is]) (simp add: route1_facts)

lemma route2_facts: "re_breaker_list (rm_entry route2 0) = [(2, 130)]" "re_targets (rm_entry route2 0) = [2, 3]"
    "re_group (rm_entry route2 0) = Some 1" "grp (rm_env route2) 2 = None"
    "generate_key hash0 TT_TCP two_addrs ''?maxconn=7'' ep0 ''host'' = Ret (key_at route2 0)"
proof -
  show "re_breaker_list (rm_entry route2 0) = [(2, 130)]" "re_targets (rm_entry route2 0) = [2, 3]"
    "re_group (rm_entry route2 0) = Some 1" by code_simp+
  show "grp (rm_env route2) 2 = None" by code_simp
  have "(case generate_key hash0 TT_TCP two_addrs ''?maxconn=7'' ep0 ''host'' of UB \<Rightarrow> False | Ret k \<Rightarrow> k = key_at route2 0)"
    by code_simp
  then show "generate_key hash0 TT_TCP two_addrs ''?maxconn=7'' ep0 ''host'' = Ret (key_at route2 0)"
    by (simp split: outcome.splits)
qed

theorem route_get_correct_witness:
  "\<exists>key. generate_key hash0 TT_TCP two_addrs ''?maxconn=7'' ep0 ''host'' = Ret key \<and> route_inv route1 [0] \<and> key_at route1 0 = key
     \<and> map (rv_peer (rm_env route1)) (re_targets (rm_entry route1 0))
         = map (\<lambda>a. \<lparr>tg_addr = a, tg_connect_timeout = 10000, tg_response_timeout = -1\<rparr>) two_addrs"
  using route_get_correct [OF start_route_inv [OF route0_facts(1)] route0_facts(2-4), of hash0 TT_TCP "''host''" "\<lambda>_. True" "\<lambda>_. True" 0]
  by (simp add: get0_is [unfolded get0_def]) (simp add: ep0_def)

theorem route_reachable_inv_witness:
  "{t \<in> set (rv_targets (rm_env route2)). grp (rm_env route2) t = Some 1} \<subseteq> {2, 3}
    \<and> re_nleft (rm_entry route2 0) = int (length (filter (\<lambda>t. grp (rm_env route2) t = Some 1) [2, 3]))
    \<and> 1 \<le> re_nleft (rm_entry route2 0) \<and> re_nbreak (rm_entry route2 0) = 1"
  using route_reachable_inv [OF route2_reach, of 0] route2_facts(1-3) by simp

theorem route_breaker_recovers_witness:
  "grp (rm_env route2) 2 = None
    \<and> (\<exists>m'. route_get hash0 (\<lambda>_. True) (\<lambda>_. True) 130 TT_TCP two_addrs ''?maxconn=7'' ep0 ''host'' route2
        = Some (Ret (Inr (0, re_request_object (rm_entry route2 0)), m'))
      \<and> re_breaker_list (rm_entry m' 0) = [] \<and> grp (rm_env m') 2 = Some 1 \<and> grp (rm_env m') 3 = Some 1)"
  using route_breaker_recovers [OF route2_reach _ route2_facts(5), of 130 "\<lambda>_. True" "\<lambda>_. True"] route2_facts(1-4) by auto

theorem route_get_again_witness:
  "\<exists>m''. route_get hash0 (\<lambda>_. False) (\<lambda>_. False) 5 TT_TCP [SockAddr ''a'', SockAddr ''b''] ''?maxconn=7'' ep0 ''other'' route1
     = Some (Ret (Inr (0, Some (ObjGroup 1)), m''))"
  using route_get_again [OF reach_new [OF route0_facts(1)] route0_facts(2-4) get0_is [unfolded get0_def] route0_facts(6)] .

theorem route_destroy_frees_witness:
  "\<exists>m'. route_destroy route2 = Some (Ret m') \<and> rb_node (rm_cache m') = None
    \<and> rv_targets (rm_env m') = [] \<and> rv_groups (rm_env m') = []"
  by (rule route_destroy_frees [OF route2_reach])

end
