(* ===== verification/CommHandlers.thy ===== *)
theory CommHandlers
  imports Communicator
begin

text \<open>
  The operations of \<open>Communicator\<close>: references, the handlers of the poller's results, the callbacks
  that run in the poller's thread, requests, replies, services, and starting and stopping.
\<close>

section \<open>References\<close>

definition list_take :: "nat \<Rightarrow> nat list \<Rightarrow> nat list outcome" where
  "list_take n ns = (if n \<in> set ns then Ret (remove1 n ns) else UB)"

definition service_decref :: "nat \<Rightarrow> comm \<Rightarrow> comm" where
  "service_decref v m =
     (let r = sv_ref (cm_service m v) - 1;
          m1 = set_service v ((cm_service m v)\<lparr>sv_ref := r\<rparr>) m
      in if r = 0 then emit (EvUnbound v) m1 else m1)"

definition service_incref :: "nat \<Rightarrow> comm \<Rightarrow> comm" where
  "service_incref v m = set_service v ((cm_service m v)\<lparr>sv_ref := sv_ref (cm_service m v) + 1\<rparr>) m"

definition target_incref :: "nat \<Rightarrow> comm \<Rightarrow> comm outcome" where
  "target_incref t m = with_target t m (\<lambda>r. Ret (set_target t (r\<lparr>ta_ref := ta_ref r + 1\<rparr>) m))"

definition target_decref :: "nat \<Rightarrow> comm \<Rightarrow> comm outcome" where
  "target_decref t m = with_target t m (\<lambda>r.
     if ta_ref r - 1 = 0 then
       let m1 = service_decref (ta_service r) m
       in Ret (emit (EvDeleteTarget t) (m1\<lparr>cm_target := (cm_target m1)(t := None)\<rparr>))
     else Ret (set_target t (r\<lparr>ta_ref := ta_ref r - 1\<rparr>) m))"

text \<open>
  What will use an entry: the node of its socket, whose callbacks and result have the entry as their
  context, a result that a handler thread has not taken yet, and a thread after \<open>handle\<close>, which gives up
  its reference. Only of a result \<open>MODIFIED\<close> the handler does not touch the entry. To release an entry
  that something will use is \<open>UB\<close>: the use that follows is of freed memory.
\<close>

definition still_used :: "comm_conn \<Rightarrow> bool" where
  "still_used c \<longleftrightarrow> ce_node c \<noteq> None \<or> list_ex (\<lambda>r. cr_state r \<noteq> PR_ST_MODIFIED) (ce_results c) \<or> ce_after c \<noteq> []"

definition release_conn :: "nat \<Rightarrow> comm \<Rightarrow> comm outcome" where
  "release_conn n m = with_conn n m (\<lambda>c. if still_used c then UB else Ret (emit (EvClose n) (m\<lparr>cm_conn := (cm_conn m)(n := None)\<rparr>)))"

text \<open>The end of every handler: the entry goes with its last reference.\<close>

definition conn_decref :: "nat \<Rightarrow> comm \<Rightarrow> comm outcome" where
  "conn_decref n m = with_conn n m (\<lambda>c.
     if ce_ref c - 1 = 0 then
       andthen (release_conn n m) (\<lambda>m1.
         case ce_service c of None \<Rightarrow> Ret m1 | Some _ \<Rightarrow> target_decref (ce_target c) m1)
     else Ret (set_conn n (c\<lparr>ce_ref := ce_ref c - 1\<rparr>) m))"

text \<open>The user's \<open>handle\<close> is called, and what comes after it is left to do.\<close>

definition call_handle :: "after_handle \<Rightarrow> nat \<Rightarrow> nat \<Rightarrow> session_state \<Rightarrow> comm_errno option \<Rightarrow> comm \<Rightarrow> comm outcome" where
  "call_handle a n s state err m = with_conn n m (\<lambda>c.
     Ret (emit (EvHandle s state err) (set_conn n (c\<lparr>ce_after := ce_after c @ [a]\<rparr>) m)))"

definition drop_nth :: "nat \<Rightarrow> 'a list \<Rightarrow> 'a list" where
  "drop_nth i xs = take i xs @ drop (Suc i) xs"

definition after_step :: "nat \<Rightarrow> nat \<Rightarrow> comm \<Rightarrow> comm outcome" where
  "after_step n i m = with_conn n m (\<lambda>c.
     if i < length (ce_after c) then
       let m1 = set_conn n (c\<lparr>ce_after := drop_nth i (ce_after c)\<rparr>) m
       in case ce_after c ! i of AfterDecref \<Rightarrow> conn_decref n m1 | AfterRelease \<Rightarrow> release_conn n m1
     else Ret m)"

section \<open>Results of reading\<close>

definition final_state :: "conn_result \<Rightarrow> session_state \<times> comm_errno option" where
  "final_state r =
     (case cr_state r of
        PR_ST_FINISHED \<Rightarrow> (CS_STATE_ERROR, Some CE_CONNRESET)
      | PR_ST_ERROR \<Rightarrow> (CS_STATE_ERROR, cr_error r)
      | _ \<Rightarrow> (CS_STATE_STOPPED, cr_error r))"

definition handle_incoming_request :: "nat \<Rightarrow> conn_result \<Rightarrow> comm \<Rightarrow> comm outcome" where
  "handle_incoming_request n r m = with_conn n m (\<lambda>c. with_target (ce_target c) m (\<lambda>t.
     let (state, err) = final_state r in
     if cr_state r = PR_ST_SUCCESS then
       call_handle AfterDecref n (ce_session c) CS_STATE_TOREPLY (cr_error r)
         (if ce_state c = CONN_STATE_SUCCESS
          then set_target (ce_target c) (t\<lparr>ta_idle_list := n # ta_idle_list t\<rparr>)
                 (set_conn n (c\<lparr>ce_ref := ce_ref c + 1, ce_state := CONN_STATE_IDLE\<rparr>) m)
          else m)
     else
       (case ce_state c of
          CONN_STATE_KEEPALIVE \<Rightarrow>
            (case ce_service c of
               None \<Rightarrow> UB
             | Some v \<Rightarrow> andthen (list_take n (sv_alive_list (cm_service m v))) (\<lambda>ns.
                 conn_decref n (set_service v ((cm_service m v)\<lparr>sv_alive_list := ns\<rparr>) m)))
        | CONN_STATE_IDLE \<Rightarrow> andthen (list_take n (ta_idle_list t)) (\<lambda>ns.
            conn_decref n (set_target (ce_target c) (t\<lparr>ta_idle_list := ns\<rparr>) m))
        | CONN_STATE_ERROR \<Rightarrow> call_handle AfterDecref n (ce_session c) CS_STATE_ERROR (ce_error c) m
        | CONN_STATE_RECEIVING \<Rightarrow> call_handle AfterDecref n (ce_session c) state err m
        | CONN_STATE_SUCCESS \<Rightarrow> Ret (set_conn n (c\<lparr>ce_state := CONN_STATE_CLOSING\<rparr>) m)
        | _ \<Rightarrow> conn_decref n m)))"

text \<open>A session of a client ends: the connection goes back to the scheduler, then the user is told.\<close>

definition end_session :: "after_handle \<Rightarrow> bool \<Rightarrow> nat \<Rightarrow> session_state \<Rightarrow> comm_errno option \<Rightarrow> comm \<Rightarrow> comm outcome" where
  "end_session a keep n state err m = with_conn n m (\<lambda>c.
     call_handle a n (ce_session c) state err (emit (EvRelease (ce_target c) keep) m))"

definition handle_incoming_reply :: "nat \<Rightarrow> conn_result \<Rightarrow> comm \<Rightarrow> comm outcome" where
  "handle_incoming_reply n r m = with_conn n m (\<lambda>c. with_target (ce_target c) m (\<lambda>t.
     let (state, err) = final_state r in
     if cr_state r = PR_ST_SUCCESS then
       (if ce_state c = CONN_STATE_SUCCESS then
          (if se_timeout (cm_session m (ce_session c)) \<noteq> 0
           then end_session AfterDecref True n CS_STATE_SUCCESS (cr_error r)
                  (set_target (ce_target c) (t\<lparr>ta_idle_list := n # ta_idle_list t\<rparr>)
                    (set_conn n (c\<lparr>ce_ref := ce_ref c + 1, ce_state := CONN_STATE_IDLE\<rparr>) m))
           else end_session AfterDecref False n CS_STATE_SUCCESS (cr_error r)
                  (set_conn n (c\<lparr>ce_ref := ce_ref c + 1, ce_state := CONN_STATE_CLOSING\<rparr>) m))
        else end_session AfterDecref (ce_state c = CONN_STATE_IDLE) n CS_STATE_SUCCESS (cr_error r) m)
     else
       (case ce_state c of
          CONN_STATE_IDLE \<Rightarrow> andthen (list_take n (ta_idle_list t)) (\<lambda>ns.
            conn_decref n (set_target (ce_target c) (t\<lparr>ta_idle_list := ns\<rparr>) m))
        | CONN_STATE_ERROR \<Rightarrow> end_session AfterDecref False n CS_STATE_ERROR (ce_error c) m
        | CONN_STATE_RECEIVING \<Rightarrow> end_session AfterDecref False n state err m
        | CONN_STATE_SUCCESS \<Rightarrow> Ret (set_conn n (c\<lparr>ce_state := CONN_STATE_CLOSING\<rparr>) m)
        | _ \<Rightarrow> conn_decref n m)))"

definition handle_read_result :: "nat \<Rightarrow> conn_result \<Rightarrow> comm \<Rightarrow> comm outcome" where
  "handle_read_result n r m =
     (if cr_state r = PR_ST_MODIFIED then Ret m
      else with_conn n m (\<lambda>c.
        case ce_service c of Some _ \<Rightarrow> handle_incoming_request n r m | None \<Rightarrow> handle_incoming_reply n r m))"

section \<open>Results of writing and connecting\<close>

definition handle_reply_result :: "user_answers \<Rightarrow> sys_answers \<Rightarrow> nat \<Rightarrow> conn_result \<Rightarrow> comm \<Rightarrow> comm outcome" where
  "handle_reply_result u y n r m = with_conn n m (\<lambda>c.
     case cr_state r of
       PR_ST_FINISHED \<Rightarrow>
         let timeout = ua_keep_alive_timeout u;
             m1 = (if timeout = 0 then m
                   else case node_add (sa_add y) PD_OP_READ timeout (c\<lparr>ce_ref := ce_ref c + 1\<rparr>) of
                     (True, c1) \<Rightarrow>
                       (case ce_service c of
                          None \<Rightarrow> m
                        | Some v \<Rightarrow>
                            if \<not> cm_stop_flag m \<and> 0 \<le> sv_listen_fd (cm_service m v)
                            then set_service v ((cm_service m v)\<lparr>sv_alive_list := sv_alive_list (cm_service m v) @ [n]\<rparr>)
                                   (set_conn n (c1\<lparr>ce_state := CONN_STATE_KEEPALIVE\<rparr>) m)
                            else set_conn n ((node_del c1)\<lparr>ce_state := CONN_STATE_CLOSING\<rparr>) m)
                   | (False, _) \<Rightarrow> m)
         in call_handle AfterDecref n (ce_session c) CS_STATE_SUCCESS (cr_error r) m1
     | PR_ST_ERROR \<Rightarrow> call_handle AfterDecref n (ce_session c) CS_STATE_ERROR (cr_error r) m
     | PR_ST_DELETED \<Rightarrow> call_handle AfterDecref n (ce_session c) CS_STATE_STOPPED (cr_error r) m
     | PR_ST_STOPPED \<Rightarrow> call_handle AfterDecref n (ce_session c) CS_STATE_STOPPED (cr_error r) m
     | _ \<Rightarrow> Ret m)"

text \<open>The socket of the entry is given to the poller to read the reply.\<close>

definition add_reply :: "sys_answers \<Rightarrow> int \<Rightarrow> nat \<Rightarrow> comm_conn \<Rightarrow> comm \<Rightarrow> bool \<times> comm" where
  "add_reply y timeout n c m =
     (case node_add (sa_add y) PD_OP_READ timeout c of
        (True, c1) \<Rightarrow> (True, set_conn n (if cm_stop_flag m then node_del c1 else c1) m)
      | (False, c1) \<Rightarrow> (False, set_conn n c1 m))"

definition handle_request_result :: "user_answers \<Rightarrow> sys_answers \<Rightarrow> nat \<Rightarrow> conn_result \<Rightarrow> comm \<Rightarrow> comm outcome" where
  "handle_request_result u y n r m = with_conn n m (\<lambda>c. with_target (ce_target c) m (\<lambda>t.
     case cr_state r of
       PR_ST_FINISHED \<Rightarrow>
         let (timeout, s) = reply_timeout u (ta_response_timeout t) (sa_now y) (cm_session m (ce_session c))
         in (case add_reply y timeout n (c\<lparr>ce_state := CONN_STATE_RECEIVING\<rparr>) (set_session (ce_session c) s m) of
               (True, m1) \<Rightarrow> Ret m1
             | (False, m1) \<Rightarrow> end_session AfterDecref False n CS_STATE_ERROR (Some (sa_errno y)) m1)
     | PR_ST_ERROR \<Rightarrow> end_session AfterDecref False n CS_STATE_ERROR (cr_error r) m
     | PR_ST_DELETED \<Rightarrow> end_session AfterDecref False n CS_STATE_STOPPED (cr_error r) m
     | PR_ST_STOPPED \<Rightarrow> end_session AfterDecref False n CS_STATE_STOPPED (cr_error r) m
     | _ \<Rightarrow> Ret m))"

definition handle_write_result :: "user_answers \<Rightarrow> sys_answers \<Rightarrow> nat \<Rightarrow> conn_result \<Rightarrow> comm \<Rightarrow> comm outcome" where
  "handle_write_result u y n r m = with_conn n m (\<lambda>c.
     if ce_write_iov c = None then UB
     else
       let m1 = set_conn n (c\<lparr>ce_write_iov := None\<rparr>) m
       in case ce_service c of Some _ \<Rightarrow> handle_reply_result u y n r m1 | None \<Rightarrow> handle_request_result u y n r m1)"

definition handle_connect_result :: "user_answers \<Rightarrow> sys_answers \<Rightarrow> nat \<Rightarrow> conn_result \<Rightarrow> comm \<Rightarrow> comm outcome" where
  "handle_connect_result u y n r m = with_conn n m (\<lambda>c. with_target (ce_target c) m (\<lambda>t.
     let s0 = cm_session m (ce_session c); rt = ta_response_timeout t in
     case cr_state r of
       PR_ST_FINISHED \<Rightarrow>
         let m1 = set_session (ce_session c) (s0\<lparr>se_out := ua_message_out u\<rparr>) m in
         if \<not> ua_message_out u then end_session AfterRelease False n CS_STATE_ERROR (Some (sa_errno y)) m1
         else
           (case send_message u y rt n c m1 of
              (SentLater, m2) \<Rightarrow> Ret m2
            | (SendFailed err, m2) \<Rightarrow> end_session AfterRelease False n CS_STATE_ERROR (Some err) m2
            | (SentAll, m2) \<Rightarrow> with_conn n m2 (\<lambda>c2.
                let (timeout, s) = reply_timeout u rt (sa_now y) (cm_session m2 (ce_session c))
                in (case add_reply y timeout n c2 (set_session (ce_session c) s m2) of
                      (True, m3) \<Rightarrow> Ret m3
                    | (False, m3) \<Rightarrow> end_session AfterRelease False n CS_STATE_ERROR (Some (sa_errno y)) m3)))
     | PR_ST_ERROR \<Rightarrow> end_session AfterRelease False n CS_STATE_ERROR (cr_error r) m
     | PR_ST_DELETED \<Rightarrow> end_session AfterRelease False n CS_STATE_STOPPED (cr_error r) m
     | PR_ST_STOPPED \<Rightarrow> end_session AfterRelease False n CS_STATE_STOPPED (cr_error r) m
     | _ \<Rightarrow> Ret m))"

text \<open>\<open>handler_thread_routine\<close> for the result number \<open>i\<close> of an entry.\<close>

definition handle_result :: "user_answers \<Rightarrow> sys_answers \<Rightarrow> nat \<Rightarrow> nat \<Rightarrow> comm \<Rightarrow> comm outcome" where
  "handle_result u y n i m = with_conn n m (\<lambda>c.
     if i < length (ce_results c) then
       let r = ce_results c ! i;
           m1 = set_conn n (c\<lparr>ce_results := drop_nth i (ce_results c)\<rparr>) m
       in case cr_op r of
            PD_OP_READ \<Rightarrow> handle_read_result n r m1
          | PD_OP_WRITE \<Rightarrow> handle_write_result u y n r m1
          | PD_OP_CONNECT \<Rightarrow> handle_connect_result u y n r m1
          | _ \<Rightarrow> Ret m1
     else Ret m)"

section \<open>Callbacks of the poller's thread\<close>

text \<open>\<open>create_request\<close>: an error or the message in progress; \<open>new\<close> is the session of \<open>new_session\<close>.\<close>

definition create_request ::
  "user_answers \<Rightarrow> sys_answers \<Rightarrow> nat option \<Rightarrow> nat \<Rightarrow> comm \<Rightarrow> (comm_errno option \<times> comm) outcome" where
  "create_request u y new n m = with_conn n m (\<lambda>c. with_target (ce_target c) m (\<lambda>t.
     case ce_service c of
       None \<Rightarrow> UB
     | Some v \<Rightarrow>
         andthen (if ce_state c = CONN_STATE_KEEPALIVE
                  then andthen (list_take n (sv_alive_list (cm_service m v))) (\<lambda>ns.
                         Ret (True, set_service v ((cm_service m v)\<lparr>sv_alive_list := ns\<rparr>) m))
                  else Ret (ce_state c = CONN_STATE_CONNECTED, m)) (\<lambda>(ok, m1).
           if \<not> ok then Ret (Some CE_BADMSG, m1)
           else case new of
             None \<Rightarrow> Ret (Some (sa_errno y), m1)
           | Some s \<Rightarrow>
               let (timeout, se) = first_timeout_recv u (ta_response_timeout t) (sa_now y)
                     ((cm_session m1 s)\<lparr>se_passive := 1, se_target := ce_target c, se_conn := Some n, se_seq := ce_seq c,
                        se_out := False, se_in := None\<rparr>);
                   m2 = set_conn n ((node_set_timeout timeout c)\<lparr>ce_session := s, ce_seq := ce_seq c + 1,
                          ce_state := CONN_STATE_RECEIVING\<rparr>) m1
               in andthen (target_incref (ce_target c) m2) (\<lambda>m3.
                    if ua_message_in u then Ret (None, set_session s (se\<lparr>se_in := Some n\<rparr>) m3)
                    else Ret (Some (sa_errno y), set_session s se m3)))))"

definition create_reply :: "user_answers \<Rightarrow> sys_answers \<Rightarrow> nat \<Rightarrow> comm \<Rightarrow> (comm_errno option \<times> comm) outcome" where
  "create_reply u y n m = with_conn n m (\<lambda>c.
     if ce_state c \<noteq> CONN_STATE_RECEIVING then Ret (Some CE_BADMSG, m)
     else
       let se = cm_session m (ce_session c)
       in if ua_message_in u then Ret (None, set_session (ce_session c) (se\<lparr>se_in := Some n\<rparr>) m)
          else Ret (Some (sa_errno y), set_session (ce_session c) (se\<lparr>se_in := None\<rparr>) m))"

text \<open>\<open>append_request\<close> and \<open>append_reply\<close>: \<open>ret\<close> is the answer of the message's own \<open>append\<close>.\<close>

definition append_request :: "sys_answers \<Rightarrow> int \<Rightarrow> nat \<Rightarrow> comm \<Rightarrow> comm outcome" where
  "append_request y ret n m = with_conn n m (\<lambda>c. with_target (ce_target c) m (\<lambda>t.
     let s = cm_session m (ce_session c) in
     if 0 < ret then Ret (set_conn n ((node_set_timeout (-1) c)\<lparr>ce_state := CONN_STATE_SUCCESS\<rparr>) m)
     else if ret = 0 \<and> se_timeout s \<noteq> 0 then
       let (timeout, s1) = next_timeout (ta_response_timeout t) (sa_now y) s
       in Ret (set_session (ce_session c) s1 (set_conn n (node_set_timeout timeout c) m))
     else Ret m))"

definition append_reply :: "user_answers \<Rightarrow> sys_answers \<Rightarrow> int \<Rightarrow> nat \<Rightarrow> comm \<Rightarrow> comm outcome" where
  "append_reply u y ret n m = with_conn n m (\<lambda>c. with_target (ce_target c) m (\<lambda>t.
     let s = cm_session m (ce_session c); rt = ta_response_timeout t in
     if 0 < ret then
       let timeout = ua_keep_alive_timeout u;
           c1 = c\<lparr>ce_state := CONN_STATE_SUCCESS\<rparr>
       in Ret (set_session (ce_session c) (s\<lparr>se_timeout := timeout\<rparr>)
            (set_conn n (if timeout = 0 then node_del c1 else node_set_timeout timeout c1) m))
     else if ret = 0 \<and> se_timeout s \<noteq> 0 then
       let (timeout, s1) = (if tv_nsec (se_begin_time s) = -1 then first_timeout_recv u rt (sa_now y) s
                            else next_timeout rt (sa_now y) s)
       in Ret (set_session (ce_session c) s1 (set_conn n (node_set_timeout timeout c) m))
     else Ret m))"

definition partial_written :: "sys_answers \<Rightarrow> nat \<Rightarrow> comm \<Rightarrow> comm outcome" where
  "partial_written y n m = with_conn n m (\<lambda>c. with_target (ce_target c) m (\<lambda>t.
     let (timeout, s) = next_timeout (ta_response_timeout t) (sa_now y) (cm_session m (ce_session c))
     in Ret (set_session (ce_session c) s (set_conn n (node_set_timeout timeout c) m))))"

text \<open>
  The poller reads bytes of a socket: the message is created for the first ones, then appended to;
  a complete message is a result, a failure ends the node, unless it is removed already.
\<close>

definition node_fail :: "comm_errno option \<Rightarrow> comm_conn \<Rightarrow> comm_conn" where
  "node_fail err c =
     (case ce_node c of
        None \<Rightarrow> c
      | Some nd \<Rightarrow>
          if cn_removed nd then c\<lparr>ce_node := Some (nd\<lparr>cn_message := False\<rparr>)\<rparr>
          else c\<lparr>ce_node := None, ce_results := ce_results c @ [\<lparr>cr_op = cn_op nd, cr_state = PR_ST_ERROR, cr_error = err\<rparr>]\<rparr>)"

definition set_message :: "bool \<Rightarrow> comm_conn \<Rightarrow> comm_conn" where
  "set_message b c = c\<lparr>ce_node := map_option (\<lambda>nd. nd\<lparr>cn_message := b\<rparr>) (ce_node c)\<rparr>"

definition read_data ::
  "user_answers \<Rightarrow> sys_answers \<Rightarrow> nat option \<Rightarrow> int \<Rightarrow> nat \<Rightarrow> comm \<Rightarrow> comm outcome" where
  "read_data u y new ret n m = with_conn n m (\<lambda>c.
     case ce_node c of
       None \<Rightarrow> Ret m
     | Some nd \<Rightarrow>
         if cn_op nd \<noteq> PD_OP_READ then Ret m
         else
           andthen (if cn_message nd then Ret (None, m)
                    else case ce_service c of
                      Some _ \<Rightarrow> create_request u y new n m
                    | None \<Rightarrow> create_reply u y n m) (\<lambda>(err, m1).
             case err of
               Some e \<Rightarrow> with_conn n m1 (\<lambda>c1. Ret (set_conn n (node_fail (Some e) c1) m1))
             | None \<Rightarrow>
                 andthen (case ce_service c of
                            Some _ \<Rightarrow> append_request y ret n m1
                          | None \<Rightarrow> append_reply u y ret n m1) (\<lambda>m2. with_conn n m2 (\<lambda>c2.
                   Ret (set_conn n
                     (if ret < 0 then node_fail (Some (sa_errno y)) c2
                      else if ret = 0 then set_message True c2
                      else (set_message False c2)\<lparr>ce_results := ce_results c2 @
                             [\<lparr>cr_op = PD_OP_READ, cr_state = PR_ST_SUCCESS, cr_error = None\<rparr>]\<rparr>) m2)))))"

text \<open>
  The poller ends the node of a socket: it finished, failed or the poller stops; a removed node is
  answered with \<open>DELETED\<close>.
\<close>

definition node_end :: "poll_state \<Rightarrow> comm_errno option \<Rightarrow> nat \<Rightarrow> comm \<Rightarrow> comm outcome" where
  "node_end st err n m = with_conn n m (\<lambda>c.
     case ce_node c of
       None \<Rightarrow> Ret m
     | Some nd \<Rightarrow>
         Ret (set_conn n (c\<lparr>ce_node := None, ce_results := ce_results c @
           [\<lparr>cr_op = cn_op nd, cr_state = (if cn_removed nd then PR_ST_DELETED else st), cr_error = err\<rparr>]\<rparr>) m))"

section \<open>Requests\<close>

text \<open>What the system answers to a new connection, and the name of its entry.\<close>

record launch_answers =
  la_socket :: "int option"
  la_nonblock :: bool
  la_connect :: bool
  la_malloc :: bool
  la_mutex :: int
  la_connection :: bool
  la_entry :: nat

definition nonblock_connect :: "launch_answers \<Rightarrow> int option" where
  "nonblock_connect l =
     (case la_socket l of None \<Rightarrow> None | Some fd \<Rightarrow> if la_nonblock l \<and> la_connect l then Some fd else None)"

definition new_conn :: "int \<Rightarrow> conn_state \<Rightarrow> nat \<Rightarrow> nat \<Rightarrow> nat option \<Rightarrow> comm_conn" where
  "new_conn fd state s t v = \<lparr>ce_seq = 0, ce_sockfd = fd, ce_state = state, ce_error = None, ce_ref = 1, ce_write_iov = None,
     ce_session = s, ce_target = t, ce_service = v, ce_node = None, ce_results = [], ce_after = []\<rparr>"

definition launch_conn :: "launch_answers \<Rightarrow> nat \<Rightarrow> nat \<Rightarrow> comm_conn option" where
  "launch_conn l s t =
     (case nonblock_connect l of
        None \<Rightarrow> None
      | Some fd \<Rightarrow> if la_malloc l \<and> la_mutex l = 0 \<and> la_connection l
                  then Some (new_conn fd CONN_STATE_CONNECTING s t None) else None)"

definition fail_conn :: "comm_errno \<Rightarrow> nat \<Rightarrow> comm \<Rightarrow> comm outcome" where
  "fail_conn err n m = with_conn n m (\<lambda>c.
     Ret (set_conn n ((node_del (c\<lparr>ce_error := Some err\<rparr>))\<lparr>ce_state := CONN_STATE_ERROR\<rparr>) m))"

text \<open>
  One round of the loop of \<open>request_idle_conn\<close>, which is under the mutex of the target and then that of
  the entry: the idle list is empty; its first entry is one whose socket the poller does not have any
  more, which is left to its last result; or the entry takes the session and the request is sent.
  Other threads go on between two rounds.
\<close>

datatype idle_progress = IdleNone | IdleClosed | IdleTaken

definition idle_region ::
  "user_answers \<Rightarrow> sys_answers \<Rightarrow> nat \<Rightarrow> nat \<Rightarrow> comm \<Rightarrow> (idle_progress \<times> comm) outcome" where
  "idle_region u y s t m = with_target t m (\<lambda>r.
     case ta_idle_list r of
       [] \<Rightarrow> Ret (IdleNone, m)
     | n # ns \<Rightarrow> with_conn n m (\<lambda>c.
         let m1 = set_target t (r\<lparr>ta_idle_list := ns\<rparr>) m in
         if \<not> node_live c then Ret (IdleClosed, set_conn n (c\<lparr>ce_state := CONN_STATE_CLOSING\<rparr>) m1)
         else
           let c1 = (node_set_timeout (-1) c)\<lparr>ce_session := s, ce_seq := ce_seq c + 1\<rparr>;
               m2 = set_session s ((cm_session m1 s)\<lparr>se_conn := Some n, se_seq := ce_seq c, se_out := ua_message_out u\<rparr>)
                      (set_conn n c1 m1)
           in if \<not> ua_message_out u then andthen (fail_conn (sa_errno y) n m2) (\<lambda>m3. Ret (IdleTaken, m3))
              else
                (case send_message u y (ta_response_timeout r) n c1 m2 of
                   (SendFailed err, m3) \<Rightarrow> andthen (fail_conn err n m3) (\<lambda>m4. Ret (IdleTaken, m4))
                 | (_, m3) \<Rightarrow> Ret (IdleTaken, m3))))"

definition idle_length :: "nat \<Rightarrow> comm \<Rightarrow> nat" where
  "idle_length t m = (case cm_target m t of None \<Rightarrow> 0 | Some r \<Rightarrow> length (ta_idle_list r))"

lemma idle_region_closed: "idle_region u y s t m = Ret (IdleClosed, m') \<Longrightarrow> idle_length t m' < idle_length t m"
  by (auto simp: idle_region_def idle_length_def with_target_def with_conn_def andthen_def Let_def set_target_def set_conn_def
      split: option.splits list.splits if_splits outcome.splits send_result.splits prod.splits)

text \<open>The whole loop, when no other thread comes between.\<close>

function request_idle_conn ::
  "user_answers \<Rightarrow> sys_answers \<Rightarrow> nat \<Rightarrow> nat \<Rightarrow> comm \<Rightarrow> (bool \<times> comm) outcome" where
  "request_idle_conn u y s t m =
     (case idle_region u y s t m of
        UB \<Rightarrow> UB
      | Ret (p, m1) \<Rightarrow>
          if p = IdleClosed then request_idle_conn u y s t m1 else Ret (p = IdleTaken, m1))"
  by pat_completeness auto
termination
  by (relation "measure (\<lambda>(u, y, s, t, m). idle_length t m)") (auto dest: idle_region_closed)

declare request_idle_conn.simps [simp del]

definition request_new_conn ::
  "sys_answers \<Rightarrow> launch_answers \<Rightarrow> nat \<Rightarrow> nat \<Rightarrow> comm \<Rightarrow> (bool \<times> comm) outcome" where
  "request_new_conn y l s t m = with_target t m (\<lambda>r.
     case launch_conn l s t of
       None \<Rightarrow> Ret (False, m)
     | Some c \<Rightarrow>
         let n = la_entry l;
             m1 = set_session s ((cm_session m s)\<lparr>se_conn := Some n, se_seq := ce_seq c\<rparr>) m
         in (case node_add (sa_add y) PD_OP_CONNECT (ta_connect_timeout r) (c\<lparr>ce_seq := ce_seq c + 1\<rparr>) of
               (True, c1) \<Rightarrow> Ret (True, set_conn n c1 m1)
             | (False, c1) \<Rightarrow> andthen (release_conn n (set_conn n c1 m1)) (\<lambda>m2. Ret (False, m2))))"

definition request_begin :: "nat \<Rightarrow> nat \<Rightarrow> comm \<Rightarrow> comm" where
  "request_begin s t m = set_session s ((cm_session m s)\<lparr>se_target := t, se_out := False, se_in := None\<rparr>) m"

definition request_failed :: "nat \<Rightarrow> comm \<Rightarrow> comm" where
  "request_failed s m = set_session s ((cm_session m s)\<lparr>se_conn := None, se_seq := 0\<rparr>) m"

definition comm_request ::
  "user_answers \<Rightarrow> sys_answers \<Rightarrow> launch_answers \<Rightarrow> nat \<Rightarrow> nat \<Rightarrow> comm \<Rightarrow> (comm_errno option \<times> comm) outcome" where
  "comm_request u y l s t m =
     (if se_passive (cm_session m s) \<noteq> 0 then Ret (Some CE_INVAL, m)
      else andthen (request_idle_conn u y s t (request_begin s t m)) (\<lambda>(ok, m1).
        if ok then Ret (None, m1)
        else andthen (request_new_conn y l s t m1) (\<lambda>(ok2, m2).
          if ok2 then Ret (None, m2) else Ret (Some (sa_errno y), request_failed s m2))))"

section \<open>Replies\<close>

definition reply_idle_conn ::
  "user_answers \<Rightarrow> sys_answers \<Rightarrow> nat \<Rightarrow> nat \<Rightarrow> comm \<Rightarrow> (send_result \<times> comm) outcome" where
  "reply_idle_conn u y s t m = with_target t m (\<lambda>r.
     case ta_idle_list r of
       [] \<Rightarrow> Ret (SendFailed CE_NOENT, m)
     | n # ns \<Rightarrow> with_conn n m (\<lambda>c.
         let m1 = set_session s ((cm_session m s)\<lparr>se_out := ua_message_out u\<rparr>) (set_target t (r\<lparr>ta_idle_list := ns\<rparr>) m)
         in if \<not> ua_message_out u then andthen (fail_conn (sa_errno y) n m1) (\<lambda>m2. Ret (SentLater, m2))
            else
              (case send_message u y (ta_response_timeout r) n c m1 of
                 (SendFailed err, m2) \<Rightarrow> andthen (fail_conn err n m2) (\<lambda>m3. Ret (SentLater, m3))
               | (res, m2) \<Rightarrow> Ret (res, m2))))"

definition comm_reply :: "user_answers \<Rightarrow> sys_answers \<Rightarrow> nat \<Rightarrow> comm \<Rightarrow> (comm_errno option \<times> comm) outcome" where
  "comm_reply u y s m =
     (let se = cm_session m s in
      if se_passive se \<noteq> 1 then Ret (Some (if se_passive se \<noteq> 0 then CE_NOENT else CE_PERM), m)
      else andthen (reply_idle_conn u y s (se_target se) (set_session s (se\<lparr>se_passive := 2\<rparr>) m)) (\<lambda>(res, m1).
        case res of
          SendFailed err \<Rightarrow> Ret (Some err, m1)
        | SentLater \<Rightarrow> Ret (None, m1)
        | SentAll \<Rightarrow>
            (case se_in (cm_session m1 s) of
               None \<Rightarrow> UB
             | Some n \<Rightarrow> andthen (call_handle AfterDecref n s CS_STATE_SUCCESS None m1) (\<lambda>m2. Ret (None, m2)))))"

text \<open>\<open>CommSession::~CommSession\<close>.\<close>

definition session_delete :: "nat \<Rightarrow> comm \<Rightarrow> comm outcome" where
  "session_delete s m =
     (let se = cm_session m s; t = se_target se in
      if se_passive se = 0 then Ret m
      else
        andthen (if se_passive se = 1
                 then with_target t m (\<lambda>r.
                        case ta_idle_list r of
                          [] \<Rightarrow> Ret m
                        | n # _ \<Rightarrow> with_conn n m (\<lambda>c. Ret (set_conn n (node_del c) m)))
                 else Ret m) (target_decref t))"

section \<open>Services\<close>

text \<open>The loop of \<open>CommService::drain\<close>; \<open>-1\<close> takes all.\<close>

fun drain_loop :: "int \<Rightarrow> int \<Rightarrow> nat list \<Rightarrow> comm \<Rightarrow> (int \<times> nat list \<times> comm) outcome" where
  "drain_loop mx cnt [] m = Ret (cnt, [], m)"
| "drain_loop mx cnt (n # ns) m =
     (if cnt = mx then Ret (cnt, n # ns, m)
      else with_conn n m (\<lambda>c.
        drain_loop mx (cnt + 1) ns (set_conn n ((node_del c)\<lparr>ce_state := CONN_STATE_CLOSING\<rparr>) m)))"

definition drain :: "int \<Rightarrow> nat \<Rightarrow> comm \<Rightarrow> (int \<times> comm) outcome" where
  "drain mx v m =
     andthen (drain_loop mx 0 (sv_alive_list (cm_service m v)) m) (\<lambda>(cnt, ns, m1).
       Ret (cnt, set_service v ((cm_service m1 v)\<lparr>sv_alive_list := ns\<rparr>) m1))"

definition shutdown_service :: "nat \<Rightarrow> comm \<Rightarrow> comm outcome" where
  "shutdown_service v m =
     andthen (drain (-1) v (set_service v ((cm_service m v)\<lparr>sv_listen_fd := -1\<rparr>) m)) (\<lambda>(cnt, m1).
       Ret (service_decref v m1))"

text \<open>\<open>accept\<close>, in the poller's thread: \<open>t\<close> is the new target; without one the socket is closed.\<close>

definition comm_accept ::
  "bool \<Rightarrow> int \<Rightarrow> string \<Rightarrow> int \<Rightarrow> nat \<Rightarrow> nat \<Rightarrow> comm \<Rightarrow> comm outcome" where
  "comm_accept alloc mutex addr sockfd t v m =
     (let sv = cm_service m v;
          blank = \<lparr>ta_addr = [], ta_connect_timeout = 0, ta_response_timeout = 0, ta_idle_list = [], ta_sockfd = sockfd,
            ta_ref = 1, ta_service = v\<rparr>
      in case comm_target_init alloc mutex addr 0 (sv_response_timeout sv) blank of
           (Some err, _) \<Rightarrow> Ret m
         | (None, r) \<Rightarrow>
             let m1 = set_target t r (service_incref v m)
             in Ret (set_service v ((cm_service m1 v)\<lparr>sv_results := sv_results sv @
                  [\<lparr>lr_state = PR_ST_SUCCESS, lr_error = None, lr_target = Some t\<rparr>]\<rparr>) m1))"

definition accept_conn :: "launch_answers \<Rightarrow> nat \<Rightarrow> conn_target \<Rightarrow> nat \<Rightarrow> comm_conn option" where
  "accept_conn l t r v =
     (if la_nonblock l \<and> la_malloc l \<and> la_connection l
      then Some (new_conn (ta_sockfd r) CONN_STATE_CONNECTED 0 t (Some v)) else None)"

definition handle_listen_result :: "sys_answers \<Rightarrow> launch_answers \<Rightarrow> nat \<Rightarrow> nat \<Rightarrow> comm \<Rightarrow> comm outcome" where
  "handle_listen_result y l v i m =
     (let rs = sv_results (cm_service m v);
          m1 = set_service v ((cm_service m v)\<lparr>sv_results := drop_nth i rs\<rparr>) m
      in if length rs \<le> i then Ret m
         else case lr_state (rs ! i) of
           PR_ST_SUCCESS \<Rightarrow>
             (case lr_target (rs ! i) of
                None \<Rightarrow> UB
              | Some t \<Rightarrow> with_target t m1 (\<lambda>r.
                  case accept_conn l t r v of
                    None \<Rightarrow> target_decref t m1
                  | Some c \<Rightarrow>
                      let n = la_entry l
                      in (case node_add (sa_add y) PD_OP_READ (ta_response_timeout r) c of
                            (True, c1) \<Rightarrow> Ret (set_conn n (if cm_stop_flag m then node_del c1 else c1) m1)
                          | (False, c1) \<Rightarrow> andthen (release_conn n (set_conn n c1 m1)) (target_decref t))))
         | PR_ST_DELETED \<Rightarrow> shutdown_service v m1
         | PR_ST_ERROR \<Rightarrow> Ret (emit (EvStop v (lr_error (rs ! i))) m1)
         | PR_ST_STOPPED \<Rightarrow> Ret (emit (EvStop v (lr_error (rs ! i))) m1)
         | _ \<Rightarrow> Ret m1)"

text \<open>
  \<open>bind\<close>: \<open>fd\<close> is the listening socket that \<open>nonblock_listen\<close> made; the node of a listening socket is
  \<open>Some removed\<close>.
\<close>

definition comm_bind :: "sys_answers \<Rightarrow> int option \<Rightarrow> nat \<Rightarrow> comm \<Rightarrow> comm_errno option \<times> comm" where
  "comm_bind y fd v m =
     (case fd of
        None \<Rightarrow> (Some (sa_errno y), m)
      | Some sockfd \<Rightarrow>
          let sv = (cm_service m v)\<lparr>sv_listen_fd := sockfd, sv_ref := 1\<rparr>
          in if sa_add y \<and> sv_node sv = None then (None, set_service v (sv\<lparr>sv_node := Some False\<rparr>) m)
             else (Some (sa_errno y), set_service v sv m))"

definition comm_unbind :: "nat \<Rightarrow> comm \<Rightarrow> comm outcome" where
  "comm_unbind v m =
     (if sv_node (cm_service m v) = Some False
      then Ret (set_service v ((cm_service m v)\<lparr>sv_node := Some True\<rparr>) m)
      else shutdown_service v m)"

text \<open>The poller ends the node of a listening socket.\<close>

definition listen_end :: "poll_state \<Rightarrow> comm_errno option \<Rightarrow> nat \<Rightarrow> comm \<Rightarrow> comm" where
  "listen_end st err v m =
     (let sv = cm_service m v in
      case sv_node sv of
        None \<Rightarrow> m
      | Some removed \<Rightarrow> set_service v (sv\<lparr>sv_node := None, sv_results := sv_results sv @
          [\<lparr>lr_state = (if removed then PR_ST_DELETED else st), lr_error = err, lr_target = None\<rparr>]\<rparr>) m)"

end
