(* ===== verification/CommClient.thy ===== *)
theory CommClient
  imports CommHandlers
begin

text \<open>
  The connections of clients: the invariant of an entry, which counts its references, and the
  tally of sessions that are still owed an answer.
\<close>

section \<open>What an entry has out\<close>

definition is_final :: "conn_result \<Rightarrow> bool" where
  "is_final r \<longleftrightarrow> cr_state r \<noteq> PR_ST_SUCCESS \<and> cr_state r \<noteq> PR_ST_MODIFIED"

definition is_success :: "conn_result \<Rightarrow> bool" where
  "is_success r \<longleftrightarrow> cr_state r = PR_ST_SUCCESS"

text \<open>
  The token of an entry is with the poller, or in the last result on its way: at most one of the
  two. \<open>op\<close> is its operation; \<open>suc\<close> says that a complete message is on its way.
\<close>

definition tokens :: "comm_conn \<Rightarrow> poller_op list" where
  "tokens c = (case ce_node c of None \<Rightarrow> [] | Some nd \<Rightarrow> [cn_op nd]) @ map cr_op (filter is_final (ce_results c))"

definition token :: "comm_conn \<Rightarrow> poller_op option" where
  "token c = (case tokens c of [] \<Rightarrow> None | p # _ \<Rightarrow> Some p)"

definition success :: "comm_conn \<Rightarrow> bool" where
  "success c \<longleftrightarrow> filter is_success (ce_results c) \<noteq> []"

text \<open>The states of an entry with what may be out in each.\<close>

definition phase_ok :: "conn_state \<Rightarrow> poller_op option \<Rightarrow> bool \<Rightarrow> after_handle list \<Rightarrow> bool" where
  "phase_ok st op suc aft \<longleftrightarrow>
     (case st of
        CONN_STATE_CONNECTING \<Rightarrow> \<not> suc \<and> (op \<in> {Some PD_OP_CONNECT, Some PD_OP_WRITE} \<and> aft = [] \<or> op = None)
      | CONN_STATE_RECEIVING \<Rightarrow> \<not> suc \<and> op \<in> {Some PD_OP_READ, None}
      | CONN_STATE_SUCCESS \<Rightarrow> suc \<and> op = Some PD_OP_READ
      | CONN_STATE_IDLE \<Rightarrow> \<not> suc \<and> op \<in> {Some PD_OP_READ, Some PD_OP_WRITE, None}
      | CONN_STATE_CLOSING \<Rightarrow> op = None \<or> \<not> suc \<and> op = Some PD_OP_READ
      | CONN_STATE_ERROR \<Rightarrow> \<not> suc \<and> op \<in> {Some PD_OP_READ, None}
      | _ \<Rightarrow> False)
     \<and> (AfterRelease \<in> set aft \<longrightarrow> aft = [AfterRelease] \<and> op = None \<and> \<not> suc)"

text \<open>The references: the token, every thread after \<open>handle\<close>, and a complete message without a token.\<close>

definition refs_of :: "poller_op option \<Rightarrow> bool \<Rightarrow> after_handle list \<Rightarrow> int" where
  "refs_of op suc aft = (if op \<noteq> None \<or> suc then 1 else 0) + int (length aft)"

definition conn_ok :: "comm_conn \<Rightarrow> bool" where
  "conn_ok c \<longleftrightarrow> length (tokens c) \<le> 1 \<and> length (filter is_success (ce_results c)) \<le> 1
     \<and> (\<forall>r\<in>set (ce_results c). \<not> is_final r \<longrightarrow> cr_op r = PD_OP_READ)
     \<and> phase_ok (ce_state c) (token c) (success c) (ce_after c)
     \<and> ce_ref c = refs_of (token c) (success c) (ce_after c) \<and> 1 \<le> ce_ref c
     \<and> (token c = Some PD_OP_WRITE \<longrightarrow> ce_write_iov c \<noteq> None)
     \<and> (case ce_node c of None \<Rightarrow> True | Some nd \<Rightarrow> cn_message nd \<longrightarrow> ce_state c = CONN_STATE_RECEIVING)"

lemma conn_okD:
  assumes "conn_ok c"
  shows "length (tokens c) \<le> 1" "length (filter is_success (ce_results c)) \<le> 1"
    "r \<in> set (ce_results c) \<Longrightarrow> \<not> is_final r \<Longrightarrow> cr_op r = PD_OP_READ"
    "phase_ok (ce_state c) (token c) (success c) (ce_after c)"
    "ce_ref c = refs_of (token c) (success c) (ce_after c)" "1 \<le> ce_ref c"
    "token c = Some PD_OP_WRITE \<Longrightarrow> ce_write_iov c \<noteq> None"
    "ce_node c = Some nd \<Longrightarrow> cn_message nd \<Longrightarrow> ce_state c = CONN_STATE_RECEIVING"
  using assms by (auto simp: conn_ok_def)

text \<open>An entry waits for a request, or a session waits for its answer.\<close>

definition idle :: "comm_conn \<Rightarrow> bool" where
  "idle c \<longleftrightarrow> ce_state c = CONN_STATE_IDLE \<and> token c = Some PD_OP_READ"

definition busy :: "comm_conn \<Rightarrow> bool" where
  "busy c \<longleftrightarrow> success c
     \<or> token c \<noteq> None \<and> (ce_state c \<in> {CONN_STATE_CONNECTING, CONN_STATE_RECEIVING, CONN_STATE_ERROR}
                           \<or> ce_state c = CONN_STATE_IDLE \<and> token c = Some PD_OP_WRITE)"

section \<open>The fields of an entry and its token\<close>

text \<open>Changes of other fields do not touch the token.\<close>

lemma out_simps [simp]:
  "tokens (c\<lparr>ce_state := st\<rparr>) = tokens c" "tokens (c\<lparr>ce_ref := k\<rparr>) = tokens c" "tokens (c\<lparr>ce_error := e\<rparr>) = tokens c"
  "tokens (c\<lparr>ce_write_iov := v\<rparr>) = tokens c" "tokens (c\<lparr>ce_session := s\<rparr>) = tokens c" "tokens (c\<lparr>ce_seq := q\<rparr>) = tokens c"
  "tokens (c\<lparr>ce_after := a\<rparr>) = tokens c"
  "success (c\<lparr>ce_state := st\<rparr>) = success c" "success (c\<lparr>ce_ref := k\<rparr>) = success c" "success (c\<lparr>ce_error := e\<rparr>) = success c"
  "success (c\<lparr>ce_write_iov := v\<rparr>) = success c" "success (c\<lparr>ce_session := s\<rparr>) = success c" "success (c\<lparr>ce_seq := q\<rparr>) = success c"
  "success (c\<lparr>ce_after := a\<rparr>) = success c" "success (c\<lparr>ce_node := nd\<rparr>) = success c"
  by (simp_all add: tokens_def success_def)

lemma token_simps [simp]:
  "token (c\<lparr>ce_state := st\<rparr>) = token c" "token (c\<lparr>ce_ref := k\<rparr>) = token c" "token (c\<lparr>ce_error := e\<rparr>) = token c"
  "token (c\<lparr>ce_write_iov := v\<rparr>) = token c" "token (c\<lparr>ce_session := s\<rparr>) = token c" "token (c\<lparr>ce_seq := q\<rparr>) = token c"
  "token (c\<lparr>ce_after := a\<rparr>) = token c"
  by (simp_all add: token_def)

lemma token_node: "ce_node c = Some nd \<Longrightarrow> token c = Some (cn_op nd)"
  by (simp add: token_def tokens_def)

lemma tokens_none: "token c = None \<longleftrightarrow> tokens c = []"
  by (simp add: token_def split: list.splits)

lemma token_none_node: "token c = None \<Longrightarrow> ce_node c = None \<and> filter is_final (ce_results c) = []"
  by (simp add: tokens_none tokens_def split: option.splits)

lemma token_some: "length (tokens c) \<le> 1 \<Longrightarrow> token c = Some p \<Longrightarrow> tokens c = [p]"
  by (cases "tokens c") (simp_all add: token_def)

text \<open>Node operations: what they leave.\<close>

lemma node_set_timeout_token [simp]: "tokens (node_set_timeout k c) = tokens c" "success (node_set_timeout k c) = success c"
  by (simp_all add: node_set_timeout_def node_live_def tokens_def success_def split: option.split)

lemma node_set_timeout_token1 [simp]: "token (node_set_timeout k c) = token c"
  by (simp add: token_def)

lemma node_set_timeout_out [simp]:
  "ce_state (node_set_timeout k c) = ce_state c" "ce_ref (node_set_timeout k c) = ce_ref c" "ce_after (node_set_timeout k c) = ce_after c"
  "ce_results (node_set_timeout k c) = ce_results c" "ce_write_iov (node_set_timeout k c) = ce_write_iov c" "ce_session (node_set_timeout k c) = ce_session c"
  "ce_target (node_set_timeout k c) = ce_target c" "ce_service (node_set_timeout k c) = ce_service c" "ce_seq (node_set_timeout k c) = ce_seq c"
  by (simp add: node_set_timeout_def)+

lemma node_set_timeout_live [simp]: "node_live (node_set_timeout k c) = node_live c"
  by (simp add: node_set_timeout_def node_live_def split: option.split)

lemma node_del_token [simp]: "tokens (node_del c) = tokens c" "success (node_del c) = success c"
  by (simp_all add: node_del_def tokens_def success_def split: option.split)

lemma node_del_token1 [simp]: "token (node_del c) = token c"
  by (simp add: token_def)

lemma node_del_out [simp]:
  "ce_state (node_del c) = ce_state c" "ce_ref (node_del c) = ce_ref c" "ce_after (node_del c) = ce_after c"
  "ce_results (node_del c) = ce_results c" "ce_write_iov (node_del c) = ce_write_iov c" "ce_session (node_del c) = ce_session c"
  "ce_target (node_del c) = ce_target c" "ce_service (node_del c) = ce_service c" "ce_seq (node_del c) = ce_seq c"
  by (simp add: node_del_def split: option.split)+

text \<open>The message in progress.\<close>

definition in_message :: "comm_conn \<Rightarrow> bool" where
  "in_message c \<longleftrightarrow> (case ce_node c of None \<Rightarrow> False | Some nd \<Rightarrow> cn_message nd)"

lemma in_message_simps [simp]:
  "in_message (c\<lparr>ce_state := st\<rparr>) = in_message c" "in_message (c\<lparr>ce_ref := k\<rparr>) = in_message c" "in_message (c\<lparr>ce_error := e\<rparr>) = in_message c"
  "in_message (c\<lparr>ce_write_iov := v\<rparr>) = in_message c" "in_message (c\<lparr>ce_session := s\<rparr>) = in_message c"
  "in_message (c\<lparr>ce_seq := q\<rparr>) = in_message c" "in_message (c\<lparr>ce_after := a\<rparr>) = in_message c"
  "in_message (c\<lparr>ce_results := rs\<rparr>) = in_message c"
  "in_message (node_set_timeout k c) = in_message c" "in_message (node_del c) = in_message c"
  by (simp_all add: in_message_def node_set_timeout_def node_del_def split: option.split)

lemma conn_ok_iff:
  "conn_ok c \<longleftrightarrow> length (tokens c) \<le> 1 \<and> length (filter is_success (ce_results c)) \<le> 1
     \<and> (\<forall>r\<in>set (ce_results c). \<not> is_final r \<longrightarrow> cr_op r = PD_OP_READ)
     \<and> phase_ok (ce_state c) (token c) (success c) (ce_after c)
     \<and> ce_ref c = refs_of (token c) (success c) (ce_after c) \<and> 1 \<le> ce_ref c
     \<and> (token c = Some PD_OP_WRITE \<longrightarrow> ce_write_iov c \<noteq> None)
     \<and> (in_message c \<longrightarrow> ce_state c = CONN_STATE_RECEIVING)"
  by (simp add: conn_ok_def in_message_def split: option.splits)

lemma node_add_ok:
  assumes "node_add ok op k c = (True, c')"
  shows "token c = None \<Longrightarrow> tokens c' = [op]" "token c = None \<Longrightarrow> token c' = Some op" "success c' = success c" "in_message c' = False"
    "ce_state c' = ce_state c" "ce_ref c' = ce_ref c" "ce_after c' = ce_after c" "ce_results c' = ce_results c"
    "ce_write_iov c' = ce_write_iov c" "ce_session c' = ce_session c" "ce_target c' = ce_target c" "ce_service c' = ce_service c"
proof -
  have e: "c' = c\<lparr>ce_node := Some \<lparr>cn_op = op, cn_removed = False, cn_message = False, cn_timeout = k\<rparr>\<rparr>"
    using assms by (simp add: node_add_def split: if_splits)
  show "token c = None \<Longrightarrow> tokens c' = [op]"
    by (drule token_none_node) (simp add: e tokens_def)
  then show "token c = None \<Longrightarrow> token c' = Some op" by (simp add: token_def)
  show "success c' = success c" "in_message c' = False" by (simp_all add: e success_def in_message_def)
  show "ce_state c' = ce_state c" "ce_ref c' = ce_ref c" "ce_after c' = ce_after c" "ce_results c' = ce_results c"
    "ce_write_iov c' = ce_write_iov c" "ce_session c' = ce_session c" "ce_target c' = ce_target c" "ce_service c' = ce_service c"
    by (simp_all add: e)
qed

lemma node_add_fail: "node_add ok op k c = (False, c') \<Longrightarrow> c' = c"
  by (auto simp: node_add_def split: if_splits)

section \<open>Taking a result\<close>

lemma drop_nth_filter:
  assumes "i < length xs"
  shows "\<not> P (xs ! i) \<Longrightarrow> filter P (drop_nth i xs) = filter P xs"
    "P (xs ! i) \<Longrightarrow> length (filter P xs) \<le> 1 \<Longrightarrow> filter P (drop_nth i xs) = [] \<and> filter P xs = [xs ! i]"
proof -
  have e: "filter P xs = filter P (take i xs) @ filter P (xs ! i # drop (Suc i) xs)"
    using id_take_nth_drop [OF assms] filter_append by metis
  show "\<not> P (xs ! i) \<Longrightarrow> filter P (drop_nth i xs) = filter P xs"
    unfolding e by (simp add: drop_nth_def)
  assume p: "P (xs ! i)" "length (filter P xs) \<le> 1"
  then have "length (filter P (take i xs)) + length (filter P (drop (Suc i) xs)) = 0"
    unfolding e by simp
  then have z: "filter P (take i xs) = []" "filter P (drop (Suc i) xs) = []" by simp_all
  then show "filter P (drop_nth i xs) = [] \<and> filter P xs = [xs ! i]"
    unfolding e using p(1) by (simp add: drop_nth_def)
qed

lemma drop_nth_set: "set (drop_nth i xs) \<subseteq> set xs"
  using set_take_subset [of i xs] set_drop_subset [of "Suc i" xs] by (auto simp: drop_nth_def)

text \<open>The entry without its result number \<open>i\<close>.\<close>

lemma take_final:
  assumes "conn_ok c" "i < length (ce_results c)" "is_final (ce_results c ! i)" "c' = c\<lparr>ce_results := drop_nth i (ce_results c)\<rparr>"
  shows "token c = Some (cr_op (ce_results c ! i))" "token c' = None" "tokens c' = []" "ce_node c' = None" "success c' = success c"
    "length (filter is_success (ce_results c')) \<le> 1" "\<forall>r\<in>set (ce_results c'). \<not> is_final r \<longrightarrow> cr_op r = PD_OP_READ" "\<not> in_message c'"
proof -
  note d = conn_okD [OF assms(1)]
  let ?r = "ce_results c ! i"
  have l: "length (filter is_final (ce_results c)) \<le> 1" using d(1) by (simp add: tokens_def)
  note f = drop_nth_filter(2) [OF assms(2), of is_final, OF assms(3) l]
  have nd: "ce_node c = None"
    using d(1) f by (auto simp: tokens_def split: option.splits)
  show "token c = Some (cr_op ?r)" using nd f by (simp add: token_def tokens_def)
  show tk: "tokens c' = []" using nd f by (simp add: assms(4) tokens_def)
  then show "token c' = None" by (simp add: token_def)
  show "ce_node c' = None" using nd by (simp add: assms(4))
  then show "\<not> in_message c'" by (simp add: in_message_def)
  have ns: "\<not> is_success ?r" using assms(3) by (simp add: is_final_def is_success_def)
  note s = drop_nth_filter(1) [OF assms(2), of is_success, OF ns]
  then show "success c' = success c" "length (filter is_success (ce_results c')) \<le> 1"
    using d(2) by (simp_all add: assms(4) success_def)
  show "\<forall>r\<in>set (ce_results c'). \<not> is_final r \<longrightarrow> cr_op r = PD_OP_READ"
    using d(3) drop_nth_set [of i "ce_results c"] by (auto simp: assms(4))
qed

lemma take_success:
  assumes "conn_ok c" "i < length (ce_results c)" "is_success (ce_results c ! i)" "c' = c\<lparr>ce_results := drop_nth i (ce_results c)\<rparr>"
  shows "success c" "token c' = token c" "tokens c' = tokens c" "ce_node c' = ce_node c" "\<not> success c'"
    "\<forall>r\<in>set (ce_results c'). \<not> is_final r \<longrightarrow> cr_op r = PD_OP_READ" "in_message c' = in_message c"
    "length (filter is_success (ce_results c')) \<le> 1" "cr_op (ce_results c ! i) = PD_OP_READ"
proof -
  note d = conn_okD [OF assms(1)]
  let ?r = "ce_results c ! i"
  note f = drop_nth_filter(2) [OF assms(2), of is_success, OF assms(3) d(2)]
  show "success c" "\<not> success c'" "length (filter is_success (ce_results c')) \<le> 1"
    using f by (simp_all add: assms(4) success_def)
  have nf: "\<not> is_final ?r" using assms(3) by (simp add: is_final_def is_success_def)
  note s = drop_nth_filter(1) [OF assms(2), of is_final, OF nf]
  then show "tokens c' = tokens c" by (simp add: assms(4) tokens_def)
  then show "token c' = token c" by (simp add: token_def)
  show "ce_node c' = ce_node c" by (simp add: assms(4))
  show "in_message c' = in_message c" by (simp add: assms(4))
  show "\<forall>r\<in>set (ce_results c'). \<not> is_final r \<longrightarrow> cr_op r = PD_OP_READ"
    using d(3) drop_nth_set [of i "ce_results c"] by (auto simp: assms(4))
  show "cr_op ?r = PD_OP_READ" using d(3) nf nth_mem [OF assms(2)] by blast
qed

lemma take_modified:
  assumes "conn_ok c" "i < length (ce_results c)" "cr_state (ce_results c ! i) = PR_ST_MODIFIED"
  shows "conn_ok (c\<lparr>ce_results := drop_nth i (ce_results c)\<rparr>)" "cr_op (ce_results c ! i) = PD_OP_READ"
    "idle (c\<lparr>ce_results := drop_nth i (ce_results c)\<rparr>) = idle c" "busy (c\<lparr>ce_results := drop_nth i (ce_results c)\<rparr>) = busy c"
proof -
  note d = conn_okD [OF assms(1)]
  let ?r = "ce_results c ! i" and ?c = "c\<lparr>ce_results := drop_nth i (ce_results c)\<rparr>"
  have n: "\<not> is_final ?r" "\<not> is_success ?r" using assms(3) by (simp_all add: is_final_def is_success_def)
  show "cr_op ?r = PD_OP_READ" using d(3) n(1) nth_mem [OF assms(2)] by blast
  have t: "tokens ?c = tokens c" "success ?c = success c" "length (filter is_success (ce_results ?c)) \<le> 1"
    using drop_nth_filter(1) [OF assms(2), of is_final, OF n(1)] drop_nth_filter(1) [OF assms(2), of is_success, OF n(2)] d(2)
    by (simp_all add: tokens_def success_def)
  then have tk: "token ?c = token c" by (simp add: token_def)
  have "\<forall>r\<in>set (ce_results ?c). \<not> is_final r \<longrightarrow> cr_op r = PD_OP_READ"
    using d(3) drop_nth_set [of i "ce_results c"] by auto
  then show "conn_ok ?c"
    using assms(1) t tk unfolding conn_ok_iff by simp
  show "idle ?c = idle c" "busy ?c = busy c" using t(2) tk by (simp_all add: idle_def busy_def)
qed

section \<open>How much is left to do\<close>

text \<open>
  A bound on the steps that an entry still takes, if the poller only ends its node: connecting is
  followed by writing and reading.
\<close>

definition op_rank :: "poller_op \<Rightarrow> nat" where
  "op_rank p = (case p of PD_OP_CONNECT \<Rightarrow> 3 | PD_OP_WRITE \<Rightarrow> 2 | _ \<Rightarrow> 1)"

definition weight :: "comm_conn \<Rightarrow> nat" where
  "weight c = (case token c of None \<Rightarrow> 0 | Some p \<Rightarrow> 4 * op_rank p) + (if ce_node c = None then 0 else 1)
     + 2 * length (filter (\<lambda>r. \<not> is_final r) (ce_results c)) + length (ce_after c)"

lemma weight_simps [simp]:
  "weight (c\<lparr>ce_state := st\<rparr>) = weight c" "weight (c\<lparr>ce_ref := k\<rparr>) = weight c"
  "weight (c\<lparr>ce_write_iov := v\<rparr>) = weight c" "weight (c\<lparr>ce_after := ce_after c @ [a]\<rparr>) = Suc (weight c)"
  by (simp_all add: weight_def)

lemma node_none [simp]: "ce_node (node_set_timeout k c) = None \<longleftrightarrow> ce_node c = None" "ce_node (node_del c) = None \<longleftrightarrow> ce_node c = None"
  by (simp_all add: node_set_timeout_def node_del_def split: option.split)

lemma weight_node [simp]: "weight (node_set_timeout k c) = weight c" "weight (node_del c) = weight c"
  by (simp_all add: weight_def)

lemma drop_nth_count: "i < length xs \<Longrightarrow> length (filter Q xs) = length (filter Q (drop_nth i xs)) + of_bool (Q (xs ! i))"
proof -
  assume "i < length xs"
  then have "filter Q xs = filter Q (take i xs) @ filter Q (xs ! i # drop (Suc i) xs)"
    using id_take_nth_drop filter_append by metis
  then show ?thesis by (simp add: drop_nth_def)
qed

lemma take_final_weight:
  assumes "conn_ok c" "i < length (ce_results c)" "is_final (ce_results c ! i)" "c' = c\<lparr>ce_results := drop_nth i (ce_results c)\<rparr>"
  shows "weight c = weight c' + 4 * op_rank (cr_op (ce_results c ! i))"
proof -
  note k = take_final [OF assms]
  have f: "ce_node c = None" "ce_after c' = ce_after c" "ce_results c' = drop_nth i (ce_results c)" using k(4) by (simp_all add: assms(4))
  show ?thesis
    unfolding weight_def k(1,2,4) f using drop_nth_count [OF assms(2), of "\<lambda>r. \<not> is_final r"] assms(3) by simp
qed

lemma take_other_weight:
  assumes "conn_ok c" "i < length (ce_results c)" "\<not> is_final (ce_results c ! i)" "c' = c\<lparr>ce_results := drop_nth i (ce_results c)\<rparr>"
  shows "weight c = weight c' + 2"
proof -
  have "tokens c' = tokens c"
    using drop_nth_filter(1) [OF assms(2), of is_final, OF assms(3)] by (simp add: assms(4) tokens_def)
  then have t: "token c' = token c" by (simp add: token_def)
  have f: "ce_node c' = ce_node c" "ce_after c' = ce_after c" "ce_results c' = drop_nth i (ce_results c)" by (simp_all add: assms(4))
  show ?thesis unfolding weight_def t f using drop_nth_count [OF assms(2), of "\<lambda>r. \<not> is_final r"] assms(3) by simp
qed

lemma node_add_weight:
  assumes "node_add ok op k c = (True, c')" "token c = None"
  shows "weight c' = weight c + 4 * op_rank op + 1"
proof -
  note g = node_add_ok [OF assms(1)]
  have n: "ce_node c = None" "ce_node c' \<noteq> None" using assms(1) by (auto simp: node_add_def split: if_splits)
  show ?thesis unfolding weight_def g(2) [OF assms(2)] g(7,8) assms(2) using n by simp
qed

lemma op_rank_pos [simp]: "1 \<le> op_rank p" "0 < op_rank p"
  by (cases p; simp add: op_rank_def)+

end
