(* ===== verification/CommClientInv.thy ===== *)
theory CommClientInv
  imports CommClient
begin

text \<open>
  The invariant of a communicator with connections of clients only, what one change of an entry does
  to it, and the tally of the sessions that are still owed an answer.
\<close>

section \<open>The invariant\<close>

definition opt_holds :: "(comm_conn \<Rightarrow> bool) \<Rightarrow> comm_conn option \<Rightarrow> bool" where
  "opt_holds P co \<longleftrightarrow> (case co of None \<Rightarrow> False | Some c \<Rightarrow> P c)"

lemma opt_holds_simps [simp]: "\<not> opt_holds P None" "opt_holds P (Some c) = P c"
  by (simp_all add: opt_holds_def)

definition client_inv :: "comm \<Rightarrow> bool" where
  "client_inv m \<longleftrightarrow> finite (dom (cm_conn m))
     \<and> (\<forall>n c. cm_conn m n = Some c \<longrightarrow> conn_ok c \<and> ce_service c = None \<and> cm_target m (ce_target c) \<noteq> None)
     \<and> (\<forall>t r. cm_target m t = Some r \<longrightarrow> distinct (ta_idle_list r)
          \<and> (\<forall>n. n \<in> set (ta_idle_list r) \<longleftrightarrow> opt_holds (\<lambda>c. ce_target c = t \<and> idle c) (cm_conn m n)))"

lemma client_invD:
  assumes "client_inv m"
  shows "finite (dom (cm_conn m))" "cm_conn m n = Some c \<Longrightarrow> conn_ok c" "cm_conn m n = Some c \<Longrightarrow> ce_service c = None"
    "cm_conn m n = Some c \<Longrightarrow> cm_target m (ce_target c) \<noteq> None" "cm_target m t = Some r \<Longrightarrow> distinct (ta_idle_list r)"
    "cm_target m t = Some r \<Longrightarrow> n \<in> set (ta_idle_list r) \<longleftrightarrow> opt_holds (\<lambda>c. ce_target c = t \<and> idle c) (cm_conn m n)"
  using assms by (simp_all add: client_inv_def)

text \<open>One entry changes from \<open>co\<close> to \<open>co'\<close>, and the idle list of its target with it.\<close>

definition relist :: "nat \<Rightarrow> bool \<Rightarrow> bool \<Rightarrow> nat list \<Rightarrow> nat list" where
  "relist n b b' ns = (if b = b' then ns else if b' then n # ns else remove1 n ns)"

definition conn_upd :: "nat \<Rightarrow> nat \<Rightarrow> comm_conn option \<Rightarrow> comm_conn option \<Rightarrow> comm \<Rightarrow> comm \<Rightarrow> bool" where
  "conn_upd n t co co' m m' \<longleftrightarrow> cm_conn m n = co \<and> cm_conn m' = (cm_conn m)(n := co')
     \<and> (\<forall>c. co = Some c \<longrightarrow> ce_target c = t)
     \<and> (\<forall>c'. co' = Some c' \<longrightarrow> conn_ok c' \<and> ce_service c' = None \<and> ce_target c' = t)
     \<and> (\<exists>r. cm_target m t = Some r
            \<and> cm_target m' = (cm_target m)(t \<mapsto> r\<lparr>ta_idle_list := relist n (opt_holds idle co) (opt_holds idle co') (ta_idle_list r)\<rparr>))"

lemma conn_upd_inv:
  assumes "client_inv m" "conn_upd n t co co' m m'"
  shows "client_inv m'"
proof -
  note i = client_invD [OF assms(1)]
  have u: "cm_conn m n = co" "cm_conn m' = (cm_conn m)(n := co')" "\<And>c. co = Some c \<Longrightarrow> ce_target c = t"
    "\<And>c'. co' = Some c' \<Longrightarrow> conn_ok c' \<and> ce_service c' = None \<and> ce_target c' = t"
    using assms(2) by (simp_all add: conn_upd_def)
  obtain r where r: "cm_target m t = Some r"
    "cm_target m' = (cm_target m)(t \<mapsto> r\<lparr>ta_idle_list := relist n (opt_holds idle co) (opt_holds idle co') (ta_idle_list r)\<rparr>)"
    using assms(2) by (auto simp: conn_upd_def)
  have fin: "finite (dom (cm_conn m'))"
    using i(1) by (simp add: u(2) dom_fun_upd)
  have ent: "conn_ok c \<and> ce_service c = None \<and> cm_target m' (ce_target c) \<noteq> None" if e: "cm_conn m' k = Some c" for k c
  proof (cases "k = n")
    case True
    then have "co' = Some c" using e by (simp add: u(2))
    then show ?thesis using u(4) by (simp add: r(2))
  next
    case False
    then have "cm_conn m k = Some c" using e by (simp add: u(2))
    then show ?thesis using i(2-4) [of k c] by (simp add: r(2))
  qed
  have nin: "n \<in> set (ta_idle_list r) \<longleftrightarrow> opt_holds idle co"
    using i(6) [OF r(1), of n] u(1,3) by (cases co) auto
  have lst: "distinct (ta_idle_list q) \<and> (\<forall>k. k \<in> set (ta_idle_list q) \<longleftrightarrow> opt_holds (\<lambda>c. ce_target c = t' \<and> idle c) (cm_conn m' k))"
    if q: "cm_target m' t' = Some q" for t' q
  proof (cases "t' = t")
    case True
    then have e: "q = r\<lparr>ta_idle_list := relist n (opt_holds idle co) (opt_holds idle co') (ta_idle_list r)\<rparr>"
      using q by (simp add: r(2))
    have ds: "distinct (ta_idle_list r)" by (rule i(5) [OF r(1)])
    have n': "opt_holds (\<lambda>c. ce_target c = t' \<and> idle c) co' \<longleftrightarrow> opt_holds idle co'"
      using u(4) True by (cases co') auto
    have "k \<in> set (ta_idle_list q) \<longleftrightarrow> opt_holds (\<lambda>c. ce_target c = t' \<and> idle c) (cm_conn m' k)" for k
    proof (cases "k = n")
      case t: True
      then show ?thesis using nin n' ds unfolding e by (auto simp: u(2) relist_def)
    next
      case f: False
      then have "k \<in> set (ta_idle_list q) \<longleftrightarrow> k \<in> set (ta_idle_list r)"
        using ds unfolding e by (auto simp: relist_def)
      then show ?thesis using i(6) [OF r(1), of k] f True by (simp add: u(2))
    qed
    moreover have "distinct (ta_idle_list q)" using ds nin unfolding e by (auto simp: relist_def)
    ultimately show ?thesis by blast
  next
    case False
    then have q': "cm_target m t' = Some q" using q by (simp add: r(2))
    have "opt_holds (\<lambda>c. ce_target c = t' \<and> idle c) (cm_conn m' k) \<longleftrightarrow> opt_holds (\<lambda>c. ce_target c = t' \<and> idle c) (cm_conn m k)" for k
      using False u(1,3,4) by (cases "k = n"; cases co; cases co') (auto simp: u(2))
    then show ?thesis using i(5,6) [OF q'] by simp
  qed
  show ?thesis unfolding client_inv_def using fin ent lst by blast
qed

section \<open>Who is owed an answer\<close>

definition owing :: "(comm_conn \<Rightarrow> bool) \<Rightarrow> comm \<Rightarrow> nat set" where
  "owing P m = {n. opt_holds (\<lambda>c. busy c \<and> P c) (cm_conn m n)}"

definition owed :: "(comm_conn \<Rightarrow> bool) \<Rightarrow> comm \<Rightarrow> nat" where
  "owed P m = card (owing P m)"

lemma owing_finite: "client_inv m \<Longrightarrow> finite (owing P m)"
  by (rule finite_subset [of _ "dom (cm_conn m)"]) (auto simp: owing_def opt_holds_def client_invD split: option.splits)

lemma conn_upd_owed:
  assumes "client_inv m" "conn_upd n t co co' m m'"
  shows "owed P m' + of_bool (opt_holds (\<lambda>c. busy c \<and> P c) co) = owed P m + of_bool (opt_holds (\<lambda>c. busy c \<and> P c) co')"
proof -
  have u: "cm_conn m n = co" "cm_conn m' = (cm_conn m)(n := co')"
    using assms(2) by (simp_all add: conn_upd_def)
  define A where "A = owing P m - {n}"
  have a: "finite A" "n \<notin> A" using owing_finite [OF assms(1)] by (simp_all add: A_def)
  have "owing P m = (if opt_holds (\<lambda>c. busy c \<and> P c) co then insert n A else A)"
    using u(1) by (auto simp: owing_def A_def)
  moreover have "owing P m' = (if opt_holds (\<lambda>c. busy c \<and> P c) co' then insert n A else A)"
    using u by (auto simp: owing_def A_def)
  ultimately show ?thesis using a by (simp add: owed_def)
qed

text \<open>
  Events are counted by \<open>Q\<close> as entries are by \<open>P\<close>: an entry's session and target, and the events
  that end a session.
\<close>

definition counts :: "(comm_conn \<Rightarrow> bool) \<Rightarrow> (comm_event \<Rightarrow> bool) \<Rightarrow> bool" where
  "counts P Q \<longleftrightarrow> (\<forall>c k st err. length (filter Q [EvRelease (ce_target c) k, EvHandle (ce_session c) st err]) = of_bool (P c))
     \<and> (\<forall>n. \<not> Q (EvClose n))"

lemma counts_session: "counts (\<lambda>c. ce_session c = s) (\<lambda>e. \<exists>st err. e = EvHandle s st err)"
  by (auto simp: counts_def)

lemma counts_target: "counts (\<lambda>c. ce_target c = t) (\<lambda>e. \<exists>k. e = EvRelease t k)"
  by (auto simp: counts_def)

lemma counts_same:
  assumes "counts P Q" "ce_session c' = ce_session c" "ce_target c' = ce_target c"
  shows "P c' = P c"
proof -
  have e: "length (filter Q [EvRelease (ce_target c) True, EvHandle (ce_session c) CS_STATE_SUCCESS None]) = of_bool (P c)" for c
    using assms(1) unfolding counts_def by blast
  have "(of_bool (P c') :: nat) = of_bool (P c)"
    using e [of c] e [of c'] unfolding assms(2,3) by (rule trans [OF sym, rotated])
  then show ?thesis by (simp add: of_bool_eq_iff)
qed

text \<open>
  A session of \<open>c\<close> is answered: it was busy and is not any more, its target is released and its
  \<open>handle\<close> is called. Otherwise nobody is told, but the entry may be closed.
\<close>

definition settles :: "nat \<Rightarrow> comm_conn \<Rightarrow> comm_conn option \<Rightarrow> comm_event list \<Rightarrow> bool" where
  "settles n c co' es \<longleftrightarrow>
     busy c \<and> \<not> opt_holds busy co' \<and> (\<exists>k st err. es = [EvRelease (ce_target c) k, EvHandle (ce_session c) st err])
   \<or> (es = [] \<or> es = [EvClose n]) \<and> (busy c \<longleftrightarrow> opt_holds busy co') \<and> (busy c \<longrightarrow> opt_holds (\<lambda>c'. ce_session c' = ce_session c) co')"

definition conn_step :: "nat \<Rightarrow> comm \<Rightarrow> comm \<Rightarrow> bool" where
  "conn_step n m m' \<longleftrightarrow> (\<exists>c co' es. conn_upd n (ce_target c) (Some c) co' m m' \<and> cm_log m' = cm_log m @ es \<and> settles n c co' es)"

lemma conn_stepI:
  assumes "conn_upd n (ce_target c) (Some c) co' m m'" "cm_log m' = cm_log m @ es" "settles n c co' es"
  shows "conn_step n m m'"
  using assms unfolding conn_step_def by blast

lemma conn_step_inv: "client_inv m \<Longrightarrow> conn_step n m m' \<Longrightarrow> client_inv m'"
  unfolding conn_step_def by (blast intro: conn_upd_inv)

definition tally :: "(comm_conn \<Rightarrow> bool) \<Rightarrow> (comm_event \<Rightarrow> bool) \<Rightarrow> comm \<Rightarrow> nat" where
  "tally P Q m = length (filter Q (cm_log m)) + owed P m"

lemma conn_step_tally:
  assumes "client_inv m" "conn_step n m m'" "counts P Q"
  shows "tally P Q m' = tally P Q m"
proof -
  obtain c co' es where u: "conn_upd n (ce_target c) (Some c) co' m m'" and l: "cm_log m' = cm_log m @ es" and s: "settles n c co' es"
    using assms(2) by (auto simp: conn_step_def)
  note o = conn_upd_owed [OF assms(1) u, of P]
  have t: "ce_target c' = ce_target c" if "co' = Some c'" for c' using u that by (simp add: conn_upd_def)
  have q: "\<not> Q (EvClose n)" using assms(3) by (simp add: counts_def)
  have p: "opt_holds (\<lambda>c. busy c \<and> P c) co' \<longleftrightarrow> busy c \<and> P c"
    if b: "busy c = opt_holds busy co'" "busy c \<longrightarrow> opt_holds (\<lambda>c'. ce_session c' = ce_session c) co'"
  proof (cases co')
    case None
    then show ?thesis using b by simp
  next
    case (Some c')
    then show ?thesis using b counts_same [OF assms(3), of c' c] t [OF Some] by auto
  qed
  have "length (filter Q es) + of_bool (opt_holds (\<lambda>c. busy c \<and> P c) co') = of_bool (busy c \<and> P c)"
    using s unfolding settles_def
  proof (elim disjE conjE exE)
    fix k st err
    assume b: "busy c" "\<not> opt_holds busy co'" "es = [EvRelease (ce_target c) k, EvHandle (ce_session c) st err]"
    have "\<not> opt_holds (\<lambda>c. busy c \<and> P c) co'" using b(2) by (cases co') simp_all
    moreover have "length (filter Q es) = of_bool (P c)"
      using assms(3) unfolding counts_def b(3) by blast
    ultimately show ?thesis using b(1) by simp
  next
    assume b: "es = []" "busy c = opt_holds busy co'" "busy c \<longrightarrow> opt_holds (\<lambda>c'. ce_session c' = ce_session c) co'"
    show ?thesis unfolding p [OF b(2,3)] b(1) by simp
  next
    assume b: "es = [EvClose n]" "busy c = opt_holds busy co'" "busy c \<longrightarrow> opt_holds (\<lambda>c'. ce_session c' = ce_session c) co'"
    show ?thesis unfolding p [OF b(2,3)] b(1) using q by simp
  qed
  then show ?thesis using o by (simp add: tally_def l)
qed

end
