(* ===== verification/CommClientOps.thy ===== *)
theory CommClientOps
  imports CommClientInv
begin

text \<open>
  Every operation on a connection of a client is a step of its entry: the invariant stays, nothing
  that is gone is used, and a session is answered exactly when its entry stops being busy.
\<close>

section \<open>Steps\<close>

definition step_ret :: "nat \<Rightarrow> comm \<Rightarrow> comm outcome \<Rightarrow> bool" where
  "step_ret n m x \<longleftrightarrow> (\<exists>m'. x = Ret m' \<and> conn_step n m m')"

lemma step_retI: "x = Ret m' \<Longrightarrow> conn_step n m m' \<Longrightarrow> step_ret n m x"
  by (auto simp: step_ret_def)

text \<open>A step after which the entry has less left to do.\<close>

definition weight_at :: "nat \<Rightarrow> comm \<Rightarrow> nat" where
  "weight_at n m = (case cm_conn m n of None \<Rightarrow> 0 | Some c \<Rightarrow> Suc (weight c))"

definition step_dec :: "nat \<Rightarrow> comm \<Rightarrow> comm outcome \<Rightarrow> bool" where
  "step_dec n m x \<longleftrightarrow> (\<exists>m'. x = Ret m' \<and> conn_step n m m' \<and> weight_at n m' < weight_at n m)"

lemma step_decI: "x = Ret m' \<Longrightarrow> conn_step n m m' \<Longrightarrow> weight_at n m' < weight_at n m \<Longrightarrow> step_dec n m x"
  by (auto simp: step_dec_def)

lemma weight_at_simps [simp]: "cm_conn m n = Some c \<Longrightarrow> weight_at n m = Suc (weight c)" "cm_conn m n = None \<Longrightarrow> weight_at n m = 0"
  by (simp_all add: weight_at_def)

lemma set_conn_simps [simp]:
  "cm_conn (set_conn n c m) = (cm_conn m)(n \<mapsto> c)" "cm_target (set_conn n c m) = cm_target m" "cm_log (set_conn n c m) = cm_log m"
  "cm_session (set_conn n c m) = cm_session m" "cm_stop_flag (set_conn n c m) = cm_stop_flag m"
  "cm_conn (set_session s q m) = cm_conn m" "cm_target (set_session s q m) = cm_target m" "cm_log (set_session s q m) = cm_log m"
  "cm_session (set_session s q m) = (cm_session m)(s := q)" "cm_stop_flag (set_session s q m) = cm_stop_flag m"
  "cm_conn (set_target t r m) = cm_conn m" "cm_target (set_target t r m) = (cm_target m)(t \<mapsto> r)" "cm_log (set_target t r m) = cm_log m"
  "cm_session (set_target t r m) = cm_session m" "cm_stop_flag (set_target t r m) = cm_stop_flag m"
  "cm_conn (emit e m) = cm_conn m" "cm_target (emit e m) = cm_target m" "cm_log (emit e m) = cm_log m @ [e]"
  "cm_session (emit e m) = cm_session m" "cm_stop_flag (emit e m) = cm_stop_flag m"
  by (simp_all add: set_conn_def set_session_def set_target_def emit_def)

lemma with_conn_some [simp]: "cm_conn m n = Some c \<Longrightarrow> with_conn n m f = f c"
  by (simp add: with_conn_def)

lemma with_target_some [simp]: "cm_target m t = Some r \<Longrightarrow> with_target t m f = f r"
  by (simp add: with_target_def)

text \<open>The three shapes of a step: the entry changes but not its idleness; it is closed; it settles.\<close>

lemma step_keep:
  assumes "client_inv m" "cm_conn m n = Some c" "cm_conn m' = (cm_conn m)(n \<mapsto> c')" "cm_target m' = cm_target m" "cm_log m' = cm_log m"
    "conn_ok c'" "ce_service c' = ce_service c" "ce_target c' = ce_target c" "idle c' = idle c" "busy c' = busy c"
    "ce_session c' = ce_session c"
  shows "conn_step n m m'"
proof -
  obtain r where r: "cm_target m (ce_target c) = Some r" using client_invD(4) [OF assms(1,2)] by blast
  have sv: "ce_service c = None" by (rule client_invD(3) [OF assms(1,2)])
  have "conn_upd n (ce_target c) (Some c) (Some c') m m'"
    unfolding conn_upd_def using assms(2-4,6-9) r sv by (simp add: relist_def map_upd_triv)
  then show ?thesis using assms(5,10,11) by (intro conn_stepI [of n c "Some c'" m m' "[]"]) (auto simp: settles_def)
qed

lemma step_close:
  assumes "client_inv m" "cm_conn m n = Some c" "cm_conn m' = (cm_conn m)(n := None)" "cm_target m' = cm_target m"
    "cm_log m' = cm_log m @ [EvClose n]" "\<not> idle c" "\<not> busy c"
  shows "conn_step n m m'"
proof -
  obtain r where r: "cm_target m (ce_target c) = Some r" using client_invD(4) [OF assms(1,2)] by blast
  have "conn_upd n (ce_target c) (Some c) None m m'"
    unfolding conn_upd_def using assms(2-4,6) r by (simp add: relist_def map_upd_triv)
  then show ?thesis using assms(5,7) by (intro conn_stepI [of n c None m m' "[EvClose n]"]) (auto simp: settles_def)
qed

lemma step_settle:
  assumes "client_inv m" "cm_conn m n = Some c" "cm_target m (ce_target c) = Some r" "cm_conn m' = (cm_conn m)(n \<mapsto> c')"
    "cm_target m' = (cm_target m)(ce_target c \<mapsto> r\<lparr>ta_idle_list := relist n (idle c) (idle c') (ta_idle_list r)\<rparr>)"
    "cm_log m' = cm_log m @ [EvRelease (ce_target c) k, EvHandle (ce_session c) st err]"
    "conn_ok c'" "ce_service c' = ce_service c" "ce_target c' = ce_target c" "busy c" "\<not> busy c'"
  shows "conn_step n m m'"
proof -
  have sv: "ce_service c = None" by (rule client_invD(3) [OF assms(1,2)])
  have "conn_upd n (ce_target c) (Some c) (Some c') m m'"
    unfolding conn_upd_def using assms(2-5,7-9) sv by simp
  then show ?thesis using assms(6,10,11) unfolding conn_step_def settles_def by fastforce
qed

section \<open>References given up\<close>

lemma end_session_eq:
  assumes "cm_conn m n = Some c"
  shows "end_session a k n st err m = Ret (emit (EvHandle (ce_session c) st err)
     (set_conn n (c\<lparr>ce_after := ce_after c @ [a]\<rparr>) (emit (EvRelease (ce_target c) k) m)))"
  using assms by (simp add: end_session_def call_handle_def)

lemma not_still_used: "token c = None \<Longrightarrow> \<not> success c \<Longrightarrow> ce_after c = [] \<Longrightarrow> \<not> still_used c"
  using token_none_node [of c]
  by (auto simp: still_used_def success_def list_ex_iff filter_empty_conv is_final_def is_success_def)

lemma not_used_refs: "refs_of (token c) (success c) (ce_after c) = 0 \<Longrightarrow> \<not> still_used c"
  by (intro not_still_used) (auto simp: refs_of_def split: if_splits)

lemma conn_decref_eq:
  assumes "cm_conn m n = Some c" "ce_service c = None" "ce_ref c = refs_of (token c) (success c) (ce_after c) + 1"
  shows "conn_decref n m = Ret (if ce_ref c = 1 then emit (EvClose n) (m\<lparr>cm_conn := (cm_conn m)(n := None)\<rparr>)
     else set_conn n (c\<lparr>ce_ref := ce_ref c - 1\<rparr>) m)"
  using assms not_used_refs [of c] by (simp add: conn_decref_def release_conn_def)

lemma length_drop_nth: "i < length xs \<Longrightarrow> Suc (length (drop_nth i xs)) = length xs"
  by (simp add: drop_nth_def)

lemma phase_okD:
  assumes "phase_ok st op suc aft"
  shows "AfterRelease \<in> set aft \<Longrightarrow> aft = [AfterRelease] \<and> op = None \<and> \<not> suc"
    "st = CONN_STATE_CONNECTING \<Longrightarrow> \<not> suc \<and> (op = Some PD_OP_CONNECT \<and> aft = [] \<or> op = Some PD_OP_WRITE \<and> aft = [] \<or> op = None)"
    "st = CONN_STATE_RECEIVING \<Longrightarrow> \<not> suc \<and> (op = Some PD_OP_READ \<or> op = None)"
    "st = CONN_STATE_SUCCESS \<Longrightarrow> suc \<and> op = Some PD_OP_READ"
    "st = CONN_STATE_IDLE \<Longrightarrow> \<not> suc \<and> (op = Some PD_OP_READ \<or> op = Some PD_OP_WRITE \<or> op = None)"
    "st = CONN_STATE_CLOSING \<Longrightarrow> op = None \<or> \<not> suc \<and> op = Some PD_OP_READ"
    "st = CONN_STATE_ERROR \<Longrightarrow> \<not> suc \<and> (op = Some PD_OP_READ \<or> op = None)"
    "st \<noteq> CONN_STATE_CONNECTED" "st \<noteq> CONN_STATE_KEEPALIVE"
  using assms by (cases st; auto simp: phase_ok_def)+

text \<open>A thread less is after \<open>handle\<close>.\<close>

lemma phase_ok_after: "phase_ok st op suc aft \<Longrightarrow> i < length aft \<Longrightarrow> AfterRelease \<notin> set aft \<Longrightarrow> phase_ok st op suc (drop_nth i aft)"
  using drop_nth_set [of i aft] by (cases st) (auto simp: phase_ok_def)

lemma after_step_ok:
  assumes "client_inv m" "cm_conn m n = Some c" "i < length (ce_after c)"
  shows "step_dec n m (after_step n i m)"
proof -
  note ok = client_invD(2) [OF assms(1,2)] and sv = client_invD(3) [OF assms(1,2)]
  note d = conn_okD [OF ok] and p = phase_okD [OF conn_okD(4) [OF ok]]
  define c1 where "c1 = c\<lparr>ce_after := drop_nth i (ce_after c)\<rparr>"
  have m1: "cm_conn (set_conn n c1 m) n = Some c1" by simp
  have gone: "\<not> idle c \<and> \<not> busy c" if "token c = None" "\<not> success c"
    using that by (simp add: idle_def busy_def)
  have len: "Suc (length (drop_nth i (ce_after c))) = length (ce_after c)" by (rule length_drop_nth [OF assms(3)])
  show ?thesis
  proof (cases "ce_after c ! i")
    case AfterRelease
    then have "AfterRelease \<in> set (ce_after c)" using assms(3) nth_mem by metis
    then have g: "\<not> idle c \<and> \<not> busy c" using p(1) gone by blast
    have "ce_after c = [AfterRelease]" "token c = None" "\<not> success c" using \<open>AfterRelease \<in> set (ce_after c)\<close> p(1) by blast+
    then have "\<not> still_used c1" using len by (intro not_still_used) (simp_all add: c1_def token_def tokens_def success_def)
    then have e: "after_step n i m = Ret (emit (EvClose n) (m\<lparr>cm_conn := (cm_conn m)(n := None)\<rparr>))"
      using assms(2,3) AfterRelease by (simp add: after_step_def release_conn_def set_conn_def c1_def)
    show ?thesis by (rule step_decI [OF e]) (rule step_close [OF assms(1,2)], use g assms(2) in simp_all)
  next
    case AfterDecref
    have nr: "AfterRelease \<notin> set (ce_after c)"
    proof
      assume "AfterRelease \<in> set (ce_after c)"
      then have "ce_after c = [AfterRelease]" using p(1) by blast
      then show False using AfterDecref assms(3) by simp
    qed
    have "after_step n i m = conn_decref n (set_conn n c1 m)"
      using assms(2,3) AfterDecref by (simp add: after_step_def c1_def)
    also have "\<dots> = Ret (if ce_ref c = 1 then emit (EvClose n) (m\<lparr>cm_conn := (cm_conn m)(n := None)\<rparr>)
        else set_conn n (c1\<lparr>ce_ref := ce_ref c - 1\<rparr>) m)"
      using conn_decref_eq [OF m1] sv d(5) len by (simp add: c1_def set_conn_def refs_of_def token_def tokens_def success_def)
    finally have e: "after_step n i m = \<dots>" .
    have "weight c = Suc (weight c1)" using len by (simp add: c1_def weight_def token_def tokens_def)
    then have w: "weight_at n (if ce_ref c = 1 then emit (EvClose n) (m\<lparr>cm_conn := (cm_conn m)(n := None)\<rparr>)
          else set_conn n (c1\<lparr>ce_ref := ce_ref c - 1\<rparr>) m) < weight_at n m"
      using assms(2) by simp
    show ?thesis
    proof (rule step_decI [OF e _ w], cases "ce_ref c = 1")
      case True
      have "refs_of (token c) (success c) (ce_after c) = 1" using d(5) True by simp
      then have "token c = None \<and> \<not> success c"
        using len unfolding refs_of_def by (simp split: if_splits)
      then show "conn_step n m (if ce_ref c = 1 then emit (EvClose n) (m\<lparr>cm_conn := (cm_conn m)(n := None)\<rparr>)
          else set_conn n (c1\<lparr>ce_ref := ce_ref c - 1\<rparr>) m)"
        using gone True by (intro step_close [OF assms(1,2)]) simp_all
    next
      case False
      have "conn_ok (c1\<lparr>ce_ref := ce_ref c - 1\<rparr>)"
        using ok phase_ok_after [OF d(4) assms(3) nr] len False d(6) unfolding conn_ok_iff c1_def
        by (simp add: refs_of_def)
      then show "conn_step n m (if ce_ref c = 1 then emit (EvClose n) (m\<lparr>cm_conn := (cm_conn m)(n := None)\<rparr>)
          else set_conn n (c1\<lparr>ce_ref := ce_ref c - 1\<rparr>) m)"
        using False by (intro step_keep [OF assms(1,2), of _ "c1\<lparr>ce_ref := ce_ref c - 1\<rparr>"]) (simp_all add: c1_def idle_def busy_def)
    qed
  qed
qed

section \<open>Results of reading\<close>

text \<open>A session that is answered leaves its thread one reference.\<close>

lemma settled_ok:
  assumes "length (tokens c) \<le> 1" "length (filter is_success (ce_results c)) \<le> 1"
    "\<forall>r\<in>set (ce_results c). \<not> is_final r \<longrightarrow> cr_op r = PD_OP_READ" "\<not> in_message c"
    "phase_ok (ce_state c) (token c) (success c) (ce_after c @ [a])" "ce_ref c = refs_of (token c) (success c) (ce_after c) + 1"
    "token c = Some PD_OP_WRITE \<Longrightarrow> ce_write_iov c \<noteq> None"
  shows "conn_ok (c\<lparr>ce_after := ce_after c @ [a]\<rparr>)"
  using assms unfolding conn_ok_iff by (auto simp: refs_of_def)

lemma end_session_step:
  assumes "client_inv m" "cm_conn m n = Some c" "busy c" "cm_target m (ce_target c) = Some r"
    and M: "cm_conn M = (cm_conn m)(n \<mapsto> c2)" "cm_log M = cm_log m"
      "cm_target M = (cm_target m)(ce_target c \<mapsto> r\<lparr>ta_idle_list := relist n (idle c) (idle c2) (ta_idle_list r)\<rparr>)"
    and c2: "ce_session c2 = ce_session c" "ce_target c2 = ce_target c" "ce_service c2 = ce_service c" "\<not> busy c2"
    and ok: "length (tokens c2) \<le> 1" "length (filter is_success (ce_results c2)) \<le> 1"
      "\<forall>r\<in>set (ce_results c2). \<not> is_final r \<longrightarrow> cr_op r = PD_OP_READ" "\<not> in_message c2"
      "phase_ok (ce_state c2) (token c2) (success c2) (ce_after c2 @ [a])" "ce_ref c2 = refs_of (token c2) (success c2) (ce_after c2) + 1"
      "token c2 \<noteq> Some PD_OP_WRITE" "weight c2 + 2 \<le> weight c"
  shows "step_dec n m (end_session a k n st err M)"
proof -
  have m2: "cm_conn M n = Some c2" by (simp add: M)
  define c' where "c' = c2\<lparr>ce_after := ce_after c2 @ [a]\<rparr>"
  have "conn_ok c'" unfolding c'_def using ok by (intro settled_ok) simp_all
  moreover have "idle c' = idle c2" "busy c' = busy c2" by (simp_all add: c'_def idle_def busy_def)
  ultimately show ?thesis
    using assms(2,3) c2 ok(8) by (intro step_decI [OF end_session_eq [OF m2]] step_settle [OF assms(1,2,4), of _ c'])
      (simp_all add: M c'_def)
qed

lemma same_target: "cm_target m t = Some r \<Longrightarrow> cm_target m = (cm_target m)(t \<mapsto> r\<lparr>ta_idle_list := relist n b b (ta_idle_list r)\<rparr>)"
  by (simp add: relist_def map_upd_triv)

lemma conn_update_simps [simp]:
  "ce_state (c\<lparr>ce_results := rs\<rparr>) = ce_state c" "ce_after (c\<lparr>ce_results := rs\<rparr>) = ce_after c" "ce_ref (c\<lparr>ce_results := rs\<rparr>) = ce_ref c"
  "idle (c\<lparr>ce_after := a\<rparr>) = idle c" "busy (c\<lparr>ce_after := a\<rparr>) = busy c" "idle (c\<lparr>ce_ref := k\<rparr>) = idle c" "busy (c\<lparr>ce_ref := k\<rparr>) = busy c"
  by (simp_all add: idle_def busy_def)

text \<open>A complete reply.\<close>

lemma read_success_ok:
  assumes "client_inv m" "cm_conn m n = Some c" "i < length (ce_results c)" "cr_state (ce_results c ! i) = PR_ST_SUCCESS"
  shows "step_dec n m (handle_result u y n i m)"
proof -
  note ok = client_invD(2) [OF assms(1,2)] and sv = client_invD(3) [OF assms(1,2)]
  note d = conn_okD [OF ok] and p = phase_okD [OF conn_okD(4) [OF ok]]
  obtain r where r: "cm_target m (ce_target c) = Some r" using client_invD(4) [OF assms(1,2)] by blast
  define R where "R = ce_results c ! i"
  define c1 where "c1 = c\<lparr>ce_results := drop_nth i (ce_results c)\<rparr>"
  have suc: "is_success (ce_results c ! i)" using assms(4) by (simp add: is_success_def)
  note k = take_success [OF ok assms(3) suc c1_def]
  have "\<not> is_final (ce_results c ! i)" using assms(4) by (simp add: is_final_def)
  note w = take_other_weight [OF ok assms(3) this c1_def]
  have st: "ce_state c = CONN_STATE_SUCCESS \<and> token c = Some PD_OP_READ \<or> ce_state c = CONN_STATE_CLOSING \<and> token c = None"
    using p(2-9) k(1) by (cases "ce_state c") auto
  have bz: "busy c" "\<not> idle c" using k(1) st by (auto simp: busy_def idle_def)
  have g: "\<not> in_message c1" "AfterRelease \<notin> set (ce_after c)" "ce_ref c = 1 + int (length (ce_after c))" "length (tokens c1) \<le> 1"
    using ok st p(1) k(1) d(1,5) unfolding k(3,7) conn_ok_iff by (auto simp: refs_of_def)
  have f1: "ce_state c1 = ce_state c" "ce_after c1 = ce_after c" "ce_ref c1 = ce_ref c" "ce_session c1 = ce_session c"
    "ce_target c1 = ce_target c" "ce_service c1 = ce_service c" by (simp_all add: c1_def)
  define M where "M = set_conn n c1 m"
  have M: "cm_conn M n = Some c1" "cm_target M (ce_target c1) = Some r" "cm_session M = cm_session m" "cm_conn M = (cm_conn m)(n \<mapsto> c1)"
    "cm_target M = cm_target m" "cm_log M = cm_log m" using r by (simp_all add: M_def f1)
  have Rs: "cr_state R = PR_ST_SUCCESS" using assms(4) by (simp add: R_def)
  have h: "handle_result u y n i m = handle_incoming_reply n R M"
    using assms(2-4) k(9) sv by (simp add: handle_result_def handle_read_result_def M_def c1_def R_def)
  note j = end_session_step [OF assms(1,2) bz(1) r]
  show ?thesis
  proof (cases "ce_state c = CONN_STATE_CLOSING")
    case True
    have t: "token c = None" using st True by auto
    have e: "handle_result u y n i m = end_session AfterDecref False n CS_STATE_SUCCESS (cr_error R) M"
      unfolding h handle_incoming_reply_def using M True f1 Rs by (simp add: final_state_def)
    show ?thesis unfolding e
      using bz t k g True w by (intro j [of _ c1]) (simp_all add: M f1 r relist_def map_upd_triv idle_def busy_def phase_ok_def refs_of_def)
  next
    case False
    then have s: "ce_state c = CONN_STATE_SUCCESS" and t: "token c1 = Some PD_OP_READ" "\<not> success c1" using st k(2,5) by auto
    show ?thesis
    proof (cases "se_timeout (cm_session m (ce_session c)) = 0")
      case True
      let ?c2 = "c1\<lparr>ce_ref := ce_ref c1 + 1, ce_state := CONN_STATE_CLOSING\<rparr>"
      have e: "handle_result u y n i m = end_session AfterDecref False n CS_STATE_SUCCESS (cr_error R) (set_conn n ?c2 M)"
        unfolding h handle_incoming_reply_def using M True f1 s Rs by (simp add: final_state_def)
      show ?thesis unfolding e
        using bz t k(6,8) g w by (intro j [of _ ?c2]) (simp_all add: M f1 r relist_def map_upd_triv idle_def busy_def phase_ok_def refs_of_def)
    next
      case f: False
      let ?c2 = "c1\<lparr>ce_ref := ce_ref c1 + 1, ce_state := CONN_STATE_IDLE\<rparr>"
      have e: "handle_result u y n i m = end_session AfterDecref True n CS_STATE_SUCCESS (cr_error R)
          (set_target (ce_target c1) (r\<lparr>ta_idle_list := n # ta_idle_list r\<rparr>) (set_conn n ?c2 M))"
        unfolding h handle_incoming_reply_def using M f f1 s Rs by (simp add: final_state_def)
      have "idle ?c2" "\<not> busy ?c2" using t by (simp_all add: idle_def busy_def)
      then show ?thesis unfolding e
        using bz t k(6,8) g w by (intro j [of _ ?c2]) (simp_all add: M f1 r relist_def phase_ok_def refs_of_def)
    qed
  qed
qed

text \<open>The last result of a socket while it reads.\<close>

lemma final_of_read: "is_final r \<Longrightarrow> cr_state r \<noteq> PR_ST_SUCCESS \<and> cr_state r \<noteq> PR_ST_MODIFIED"
  by (simp add: is_final_def)

lemma conn_decref_step:
  assumes "client_inv m" "cm_conn m n = Some c" "cm_target m (ce_target c) = Some r"
    and M: "cm_conn M = (cm_conn m)(n \<mapsto> c2)" "cm_log M = cm_log m"
      "cm_target M = (cm_target m)(ce_target c \<mapsto> r\<lparr>ta_idle_list := relist n (idle c) False (ta_idle_list r)\<rparr>)"
    and c2: "ce_target c2 = ce_target c" "ce_service c2 = None" "\<not> busy c"
    and ok: "tokens c2 = []" "\<forall>r\<in>set (ce_results c2). \<not> is_final r \<longrightarrow> cr_op r = PD_OP_READ" "\<not> in_message c2"
      "phase_ok (ce_state c2) None False (ce_after c2)" "ce_ref c2 = int (length (ce_after c2)) + 1" "\<not> success c2" "weight c2 < weight c"
  shows "step_dec n m (conn_decref n M)"
proof -
  have m2: "cm_conn M n = Some c2" by (simp add: M)
  have t: "token c2 = None" using ok(1) by (simp add: tokens_none)
  have nb: "\<not> idle c2" "\<not> busy c2" using t ok(6) by (simp_all add: idle_def busy_def)
  have "ce_ref c2 = refs_of (token c2) (success c2) (ce_after c2) + 1" using ok(5,6) t by (simp add: refs_of_def)
  note e = conn_decref_eq [OF m2 c2(2) this]
  show ?thesis
  proof (cases "ce_ref c2 = 1")
    case True
    let ?M = "emit (EvClose n) (M\<lparr>cm_conn := (cm_conn M)(n := None)\<rparr>)"
    have "conn_upd n (ce_target c) (Some c) None m ?M"
      unfolding conn_upd_def using assms(2,3) M by simp
    then have "conn_step n m ?M"
      using c2(3) M(2) by (intro conn_stepI [of n c None m _ "[EvClose n]"]) (auto simp: settles_def)
    then show ?thesis using e True assms(2) by (intro step_decI [of _ ?M]) simp_all
  next
    case False
    let ?c = "c2\<lparr>ce_ref := ce_ref c2 - 1\<rparr>"
    have "length (filter is_success (ce_results c2)) \<le> 1" using ok(6) by (simp add: success_def)
    then have "conn_ok ?c"
      using ok t False unfolding conn_ok_iff by (simp add: refs_of_def Suc_le_eq)
    then have "conn_upd n (ce_target c) (Some c) (Some ?c) m (set_conn n ?c M)"
      unfolding conn_upd_def using assms(2,3) M c2 nb by simp
    then have "conn_step n m (set_conn n ?c M)"
      using c2(3) M(2) nb by (intro conn_stepI [of n c "Some ?c" m _ "[]"]) (auto simp: settles_def)
    then show ?thesis using e False assms(2) ok(7) by (intro step_decI [of _ "set_conn n ?c M"]) simp_all
  qed
qed

lemma read_final_ok:
  assumes "client_inv m" "cm_conn m n = Some c" "i < length (ce_results c)" "is_final (ce_results c ! i)" "cr_op (ce_results c ! i) = PD_OP_READ"
  shows "step_dec n m (handle_result u y n i m)"
proof -
  note ok = client_invD(2) [OF assms(1,2)] and sv = client_invD(3) [OF assms(1,2)]
  note d = conn_okD [OF ok] and p = phase_okD [OF conn_okD(4) [OF ok]]
  obtain r where r: "cm_target m (ce_target c) = Some r" using client_invD(4) [OF assms(1,2)] by blast
  define R where "R = ce_results c ! i"
  define c1 where "c1 = c\<lparr>ce_results := drop_nth i (ce_results c)\<rparr>"
  note k = take_final [OF ok assms(3,4) c1_def, unfolded assms(5)]
  have w: "weight c = weight c1 + 4" using take_final_weight [OF ok assms(3,4) c1_def] by (simp add: assms(5) op_rank_def)
  have nr: "AfterRelease \<notin> set (ce_after c)" using p(1) k(1) by auto
  have ref: "ce_ref c = 1 + int (length (ce_after c))" using d(5) k(1) by (simp add: refs_of_def)
  have f1: "ce_state c1 = ce_state c" "ce_after c1 = ce_after c" "ce_ref c1 = ce_ref c" "ce_session c1 = ce_session c"
    "ce_target c1 = ce_target c" "ce_service c1 = ce_service c" "ce_error c1 = ce_error c" by (simp_all add: c1_def)
  define M where "M = set_conn n c1 m"
  have M: "cm_conn M n = Some c1" "cm_target M (ce_target c) = Some r" "cm_conn M = (cm_conn m)(n \<mapsto> c1)"
    "cm_target M = cm_target m" "cm_log M = cm_log m" using r by (simp_all add: M_def f1)
  have Rs: "cr_state R \<noteq> PR_ST_SUCCESS" "cr_state R \<noteq> PR_ST_MODIFIED" using final_of_read [OF assms(4)] by (simp_all add: R_def)
  have h: "handle_result u y n i m = handle_incoming_reply n R M"
    using assms(2,3,5) Rs sv by (simp add: handle_result_def handle_read_result_def M_def c1_def R_def)
  obtain st err where fs: "final_state R = (st, err)" by fastforce
  note h2 = h [unfolded handle_incoming_reply_def with_conn_some [OF M(1)] f1 with_target_some [OF M(2)] fs]
  note j = end_session_step [OF assms(1,2) _ r] and q = conn_decref_step [OF assms(1,2) r]
  show ?thesis
  proof (cases "ce_state c")
    case CONN_STATE_IDLE
    have a: "idle c" "\<not> busy c" "\<not> success c" using CONN_STATE_IDLE k(1) p(5) by (auto simp: idle_def busy_def)
    have "n \<in> set (ta_idle_list r)" using client_invD(6) [OF assms(1) r, of n] a(1) assms(2) by simp
    then have e: "handle_result u y n i m = conn_decref n (set_target (ce_target c) (r\<lparr>ta_idle_list := remove1 n (ta_idle_list r)\<rparr>) M)"
      using h2 Rs CONN_STATE_IDLE by (simp add: list_take_def andthen_def)
    show ?thesis unfolding e
      using a w k nr sv CONN_STATE_IDLE ref by (intro q [of _ c1]) (simp_all add: M f1 relist_def phase_ok_def)
  next
    case CONN_STATE_ERROR
    have a: "busy c" "\<not> success c" using CONN_STATE_ERROR k(1) p(7) by (auto simp: busy_def)
    have e: "handle_result u y n i m = end_session AfterDecref False n CS_STATE_ERROR (ce_error c) M"
      using h2 Rs CONN_STATE_ERROR by simp
    show ?thesis unfolding e
      using a w k nr CONN_STATE_ERROR ref by (intro j [of _ c1]) (simp_all add: M f1 r relist_def map_upd_triv idle_def busy_def phase_ok_def refs_of_def)
  next
    case CONN_STATE_RECEIVING
    have a: "busy c" "\<not> success c" using CONN_STATE_RECEIVING k(1) p(3) by (auto simp: busy_def)
    have e: "handle_result u y n i m = end_session AfterDecref False n st err M"
      using h2 Rs CONN_STATE_RECEIVING by simp
    show ?thesis unfolding e
      using a w k nr CONN_STATE_RECEIVING ref by (intro j [of _ c1]) (simp_all add: M f1 r relist_def map_upd_triv idle_def busy_def phase_ok_def refs_of_def)
  next
    case CONN_STATE_SUCCESS
    have a: "success c" using CONN_STATE_SUCCESS p(4) by blast
    let ?c = "c1\<lparr>ce_state := CONN_STATE_CLOSING\<rparr>"
    have e: "handle_result u y n i m = Ret (set_conn n ?c M)"
      using h2 Rs CONN_STATE_SUCCESS by simp
    have "conn_ok ?c"
      using k nr ref a unfolding conn_ok_iff by (simp add: f1 phase_ok_def refs_of_def)
    then show ?thesis
      using a k w CONN_STATE_SUCCESS assms(2) by (intro step_decI [OF e] step_keep [OF assms(1,2), of _ ?c]) (simp_all add: M f1 idle_def busy_def)
  next
    case CONN_STATE_CLOSING
    have a: "\<not> idle c" "\<not> success c" "\<not> busy c" using CONN_STATE_CLOSING k(1) p(6) by (auto simp: idle_def busy_def)
    have e: "handle_result u y n i m = conn_decref n M"
      using h2 Rs CONN_STATE_CLOSING by simp
    show ?thesis unfolding e
      using a w k nr sv CONN_STATE_CLOSING ref r by (intro q [of _ c1]) (simp_all add: M f1 relist_def phase_ok_def map_upd_triv)
  qed (use p(2,8,9) k(1) in auto)
qed

section \<open>Results of writing and connecting\<close>

lemma conn_step_eq:
  assumes "conn_step n m M" "cm_conn M' = cm_conn M" "cm_target M' = cm_target M" "cm_log M' = cm_log M"
  shows "conn_step n m M'"
  using assms unfolding conn_step_def conn_upd_def by simp

text \<open>The poller takes the socket to read the reply.\<close>

lemma add_reply_step:
  assumes "client_inv m" "cm_conn m n = Some c" "busy c"
    and M: "cm_conn M = (cm_conn m)(n \<mapsto> c0)" "cm_log M = cm_log m" "cm_target M = cm_target m"
    and c2: "ce_session c2 = ce_session c" "ce_target c2 = ce_target c" "ce_service c2 = ce_service c" "ce_state c2 = CONN_STATE_RECEIVING"
    and ok: "tokens c2 = []" "length (filter is_success (ce_results c2)) \<le> 1"
      "\<forall>r\<in>set (ce_results c2). \<not> is_final r \<longrightarrow> cr_op r = PD_OP_READ" "\<not> success c2"
      "AfterRelease \<notin> set (ce_after c2)" "ce_ref c2 = int (length (ce_after c2)) + 1"
    and x: "add_reply y k n c2 M = (b, M')"
  shows "if b then conn_step n m M' \<and> weight_at n M' = weight c2 + 6 else cm_conn M' = (cm_conn m)(n \<mapsto> c2) \<and> cm_log M' = cm_log m \<and> cm_target M' = cm_target m"
proof -
  obtain b' c3 where a: "node_add (sa_add y) PD_OP_READ k c2 = (b', c3)" by fastforce
  have t: "token c2 = None" using ok(1) by (simp add: tokens_none)
  show ?thesis
  proof (cases b')
    case True
    have ad: "node_add (sa_add y) PD_OP_READ k c2 = (True, c3)" using a True by simp
    note g = node_add_ok [OF ad]
    let ?c = "if cm_stop_flag M then node_del c3 else c3"
    have e: "b \<and> M' = set_conn n ?c M" using x a True by (simp add: add_reply_def)
    have f: "token c3 = Some PD_OP_READ" "tokens c3 = [PD_OP_READ]" using g(1,2) t by simp_all
    have "conn_ok ?c"
      using f g(3-) ok c2(4) unfolding conn_ok_iff by (simp add: refs_of_def phase_ok_def)
    moreover have "\<not> idle ?c" "busy ?c" using f g c2(4) by (simp_all add: idle_def busy_def)
    moreover have "\<not> idle c" using assms(3) phase_okD(5) [OF conn_okD(4) [OF client_invD(2) [OF assms(1,2)]]] by (auto simp: idle_def busy_def)
    ultimately have "conn_step n m (set_conn n ?c M)"
      using g c2 M assms(3) by (intro step_keep [OF assms(1,2), of _ ?c]) auto
    moreover have "weight_at n (set_conn n ?c M) = weight c2 + 6"
      using node_add_weight [OF ad t] by (simp add: op_rank_def)
    ultimately show ?thesis using e by simp
  next
    case False
    then have "c3 = c2" "\<not> b \<and> M' = set_conn n c3 M" using node_add_fail a x by (auto simp: add_reply_def)
    then show ?thesis using M by simp
  qed
qed

lemma write_final_ok:
  assumes "client_inv m" "cm_conn m n = Some c" "i < length (ce_results c)" "is_final (ce_results c ! i)" "cr_op (ce_results c ! i) = PD_OP_WRITE"
  shows "step_dec n m (handle_result u y n i m)"
proof -
  note ok = client_invD(2) [OF assms(1,2)] and sv = client_invD(3) [OF assms(1,2)]
  note d = conn_okD [OF ok] and p = phase_okD [OF conn_okD(4) [OF ok]]
  obtain r where r: "cm_target m (ce_target c) = Some r" using client_invD(4) [OF assms(1,2)] by blast
  define R where "R = ce_results c ! i"
  define c0 where "c0 = c\<lparr>ce_results := drop_nth i (ce_results c)\<rparr>"
  note k = take_final [OF ok assms(3,4) c0_def, unfolded assms(5)]
  define c1 where "c1 = c0\<lparr>ce_write_iov := None\<rparr>"
  have w: "weight c = weight c1 + 8"
    using take_final_weight [OF ok assms(3,4) c0_def] by (simp add: assms(5) op_rank_def c1_def)
  have nr: "AfterRelease \<notin> set (ce_after c)" using p(1) k(1) by auto
  have st: "ce_state c = CONN_STATE_CONNECTING \<or> ce_state c = CONN_STATE_IDLE" "\<not> success c"
    using p k(1) by (cases "ce_state c"; auto)+
  have bz: "busy c" "\<not> idle c" using st(1) k(1) by (auto simp: busy_def idle_def)
  have ref: "ce_ref c = int (length (ce_after c)) + 1" using d(5) k(1) by (simp add: refs_of_def)
  have f1: "ce_state c1 = ce_state c" "ce_after c1 = ce_after c" "ce_ref c1 = ce_ref c" "ce_session c1 = ce_session c"
    "ce_target c1 = ce_target c" "ce_service c1 = ce_service c" "ce_results c1 = ce_results c0"
    "tokens c1 = []" "token c1 = None" "\<not> success c1" "\<not> in_message c1" "\<not> idle c1" "\<not> busy c1"
    using k st by (simp_all add: c1_def c0_def idle_def busy_def)
  define M where "M = set_conn n c1 m"
  have M: "cm_conn M n = Some c1" "cm_target M (ce_target c) = Some r" "cm_conn M = (cm_conn m)(n \<mapsto> c1)"
    "cm_target M = cm_target m" "cm_log M = cm_log m" using r by (simp_all add: M_def f1)
  obtain v where "ce_write_iov c0 = Some v" using d(7) k(1) by (auto simp: c0_def)
  moreover have "set_conn n (c0\<lparr>ce_write_iov := None\<rparr>) (set_conn n c0 m) = M" by (simp add: M_def c1_def set_conn_def)
  moreover have "ce_service c0 = None" using sv by (simp add: c0_def)
  ultimately have h: "handle_result u y n i m = handle_request_result u y n R M"
    using assms(2,3,5) by (simp add: handle_result_def handle_write_result_def R_def Let_def flip: c0_def)
  note h2 = h [unfolded handle_request_result_def with_conn_some [OF M(1)] f1 with_target_some [OF M(2)]]
  have j: "step_dec n m (end_session AfterDecref False n st err N)"
    if "cm_conn N = (cm_conn m)(n \<mapsto> c2)" "cm_log N = cm_log m" "cm_target N = cm_target m" "c2 = c1 \<or> c2 = c1\<lparr>ce_state := CONN_STATE_RECEIVING\<rparr>" for N c2 st err
  proof -
    have "idle c2 = False" "busy c2 = False" "phase_ok (ce_state c2) None False (ce_after c @ [AfterDecref])"
      using that(4) st(1) nr f1 by (auto simp: idle_def busy_def phase_ok_def)
    then show ?thesis
      using that(4) k(6,7) f1 by (intro end_session_step [OF assms(1,2) bz(1) r that(1,2)])
        (auto simp: that(3) bz(2) r relist_def map_upd_triv refs_of_def ref w)
  qed
  show ?thesis
  proof (cases "cr_state R")
    case PR_ST_FINISHED
    obtain to s where rt: "reply_timeout u (ta_response_timeout r) (sa_now y) (cm_session M (ce_session c)) = (to, s)" by fastforce
    define M1 where "M1 = set_session (ce_session c) s M"
    have M1: "cm_conn M1 = (cm_conn m)(n \<mapsto> c1)" "cm_log M1 = cm_log m" "cm_target M1 = cm_target m" by (simp_all add: M1_def M)
    let ?c2 = "c1\<lparr>ce_state := CONN_STATE_RECEIVING\<rparr>"
    obtain b M2 where ad: "add_reply y to n ?c2 M1 = (b, M2)" by fastforce
    have e: "handle_result u y n i m = (if b then Ret M2 else end_session AfterDecref False n CS_STATE_ERROR (Some (sa_errno y)) M2)"
      using h2 PR_ST_FINISHED by (simp add: rt ad flip: M1_def)
    have "if b then conn_step n m M2 \<and> weight_at n M2 = weight ?c2 + 6 else cm_conn M2 = (cm_conn m)(n \<mapsto> ?c2) \<and> cm_log M2 = cm_log m \<and> cm_target M2 = cm_target m"
      using f1 k(6,7) nr ref by (intro add_reply_step [OF assms(1,2) bz(1) M1 _ _ _ _ _ _ _ _ _ _ ad]) simp_all
    then show ?thesis using j [of M2 ?c2] w assms(2) unfolding e by (cases b) (auto intro: step_decI)
  qed (use h2 j [of M c1] M(3-5) final_of_read [OF assms(4)] in \<open>simp_all add: R_def\<close>)
qed

end
