(* ===== verification/CommClientSend.thy ===== *)
theory CommClientSend
  imports CommClientOps
begin

text \<open>
  Connecting, sending and reading: the results of \<open>connect\<close>, and the steps of the poller's thread.
\<close>

section \<open>What sending does to an entry\<close>

text \<open>An entry after \<open>send_message\<close>: unchanged when it fails.\<close>

definition sent_conn :: "send_result \<Rightarrow> comm_conn \<Rightarrow> comm_conn \<Rightarrow> bool" where
  "sent_conn res c c' \<longleftrightarrow>
     (case res of
        SendFailed _ \<Rightarrow> c' = c
      | SentAll \<Rightarrow> \<exists>c1. (c1 = c \<or> (\<exists>k. c1 = node_set_timeout k c)) \<and> c' = c1\<lparr>ce_state := CONN_STATE_RECEIVING\<rparr>
      | SentLater \<Rightarrow> \<exists>vs c1 ok k. if ce_state c = CONN_STATE_IDLE
          then node_mod ok PD_OP_WRITE k c = (None, c1) \<and> c' = c1\<lparr>ce_write_iov := Some vs\<rparr>
               \<or> c' = c\<lparr>ce_state := CONN_STATE_RECEIVING\<rparr>
          else node_add ok PD_OP_WRITE k c = (True, c1)
               \<and> (c' = c1\<lparr>ce_write_iov := Some vs\<rparr> \<or> c' = node_del (c1\<lparr>ce_write_iov := Some vs\<rparr>)))"

lemma node_mod_err: "node_mod ok op k c = (Some e, c1) \<Longrightarrow> c1 = c"
  by (simp add: node_mod_def split: option.splits if_splits)

lemma sent_by_client_conn:
  assumes "cm_conn m n = Some c"
  shows "\<exists>c'. sent_conn SentAll c c' \<and> cm_conn (sent_by_client u y rt n c m) = (cm_conn m)(n \<mapsto> c')
    \<and> cm_target (sent_by_client u y rt n c m) = cm_target m \<and> cm_log (sent_by_client u y rt n c m) = cm_log m"
proof (cases "ce_state c = CONN_STATE_IDLE")
  case True
  obtain k s where k: "reply_timeout u rt (sa_now y) (cm_session m (ce_session c)) = (k, s)" by fastforce
  show ?thesis
    by (rule exI [of _ "(node_set_timeout k c)\<lparr>ce_state := CONN_STATE_RECEIVING\<rparr>"]) (auto simp: sent_conn_def sent_by_client_def k True)
next
  case False
  show ?thesis
    by (rule exI [of _ "c\<lparr>ce_state := CONN_STATE_RECEIVING\<rparr>"]) (auto simp: sent_conn_def sent_by_client_def False)
qed

lemma send_async_conn:
  assumes "cm_conn m n = Some c" "send_async u y rt vs n c m = (err, M)"
  shows "\<exists>c'. sent_conn (case err of None \<Rightarrow> SentLater | Some e \<Rightarrow> SendFailed e) c c' \<and> cm_conn M = (cm_conn m)(n \<mapsto> c')
    \<and> cm_target M = cm_target m \<and> cm_log M = cm_log m"
proof (cases "sa_malloc y")
  case False
  then show ?thesis using assms by (auto simp: send_async_def sent_conn_def map_upd_triv)
next
  case ml: True
  obtain k s where k: "first_timeout_send u rt (sa_now y) (cm_session m (ce_session c)) = (k, s)" by fastforce
  define m1 where "m1 = set_session (ce_session c) s m"
  have m1: "cm_conn m1 = cm_conn m" "cm_target m1 = cm_target m" "cm_log m1 = cm_log m" by (simp_all add: m1_def)
  show ?thesis
  proof (cases "ce_state c = CONN_STATE_IDLE")
    case True
    obtain e c1 where md: "node_mod (sa_mod y) PD_OP_WRITE k c = (e, c1)" by fastforce
    show ?thesis
    proof (cases e)
      case None
      then have "err = None" "M = set_conn n (c1\<lparr>ce_write_iov := Some vs\<rparr>) m1"
        using assms(2) ml True md by (simp_all add: send_async_def k flip: m1_def)
      moreover have "sent_conn SentLater c (c1\<lparr>ce_write_iov := Some vs\<rparr>)"
        using md None True by (auto simp: sent_conn_def)
      ultimately show ?thesis using m1 by auto
    next
      case (Some e')
      then have c1: "c1 = c" using node_mod_err md by blast
      show ?thesis
      proof (cases "e' = CE_NOENT")
        case t: True
        then have "err = None" "M = set_conn n (c1\<lparr>ce_state := CONN_STATE_RECEIVING\<rparr>) m1"
          using assms(2) ml True md Some by (simp_all add: send_async_def k flip: m1_def)
        then show ?thesis using c1 True m1 by (auto simp: sent_conn_def)
      next
        case f: False
        then have "err = Some e'" "M = set_conn n c1 m1"
          using assms(2) ml True md Some by (simp_all add: send_async_def k flip: m1_def)
        then show ?thesis using c1 m1 by (auto simp: sent_conn_def)
      qed
    qed
  next
    case False
    obtain b c1 where ad: "node_add (sa_add y) PD_OP_WRITE k c = (b, c1)" by fastforce
    show ?thesis
    proof (cases b)
      case True
      define c' where "c' = (if cm_stop_flag m then node_del (c1\<lparr>ce_write_iov := Some vs\<rparr>) else c1\<lparr>ce_write_iov := Some vs\<rparr>)"
      have "err = None" "M = set_conn n c' m1"
        using assms(2) ml False ad True by (simp_all add: send_async_def k c'_def flip: m1_def)
      moreover have "sent_conn SentLater c c'"
        using ad True False by (auto simp: sent_conn_def c'_def)
      ultimately show ?thesis using m1 by auto
    next
      case f: False
      then have "c1 = c" "err = Some (sa_errno y)" "M = set_conn n c1 m1"
        using assms(2) ml False ad node_add_fail by (auto simp: send_async_def k simp flip: m1_def)
      then show ?thesis using m1 by (auto simp: sent_conn_def)
    qed
  qed
qed

lemma send_message_conn:
  assumes "cm_conn m n = Some c" "ce_service c = None" "send_message u y rt n c m = (res, M)"
  shows "\<exists>c'. sent_conn res c c' \<and> cm_conn M = (cm_conn m)(n \<mapsto> c') \<and> cm_target M = cm_target m \<and> cm_log M = cm_log m"
proof -
  have fail: ?thesis if "res = SendFailed e" "M = m" for e
    using that assms(1) by (auto simp: sent_conn_def map_upd_triv)
  show ?thesis
  proof (cases "ua_encode u")
    case None
    then show ?thesis using assms(3) by (intro fail [of "sa_errno y"]) (simp_all add: send_message_def)
  next
    case vs: (Some vs)
    show ?thesis
    proof (cases "8192 < length vs")
      case True
      then show ?thesis using assms(3) vs by (intro fail [of CE_OVERFLOW]) (simp_all add: send_message_def)
    next
      case False
      obtain rest err where w: "sync_writes (sa_writes y) vs = (rest, err)" by fastforce
      show ?thesis
      proof (cases err)
        case (Some e)
        then show ?thesis using assms(3) vs False w by (intro fail [of "sa_errno y"]) (simp_all add: send_message_def)
      next
        case None
        show ?thesis
        proof (cases "rest = []")
          case True
          then have "res = SentAll" "M = sent_by_client u y rt n c m"
            using assms(2,3) vs False w None by (simp_all add: send_message_def)
          then show ?thesis using sent_by_client_conn [OF assms(1)] by simp
        next
          case f: False
          obtain e2 M2 where a: "send_async u y rt rest n c m = (e2, M2)" by fastforce
          have "res = (case e2 of None \<Rightarrow> SentLater | Some e \<Rightarrow> SendFailed e)" "M = M2"
            using assms(2,3) vs False w None f a by (auto simp: send_message_def split: option.splits)
          then show ?thesis using send_async_conn [OF assms(1) a] by simp
        qed
      qed
    qed
  qed
qed

section \<open>The result of connecting\<close>

lemma connect_final_ok:
  assumes "client_inv m" "cm_conn m n = Some c" "i < length (ce_results c)" "is_final (ce_results c ! i)" "cr_op (ce_results c ! i) = PD_OP_CONNECT"
  shows "step_dec n m (handle_result u y n i m)"
proof -
  note ok = client_invD(2) [OF assms(1,2)] and sv = client_invD(3) [OF assms(1,2)]
  note d = conn_okD [OF ok] and p = phase_okD [OF conn_okD(4) [OF ok]]
  obtain r where r: "cm_target m (ce_target c) = Some r" using client_invD(4) [OF assms(1,2)] by blast
  define R where "R = ce_results c ! i"
  define c1 where "c1 = c\<lparr>ce_results := drop_nth i (ce_results c)\<rparr>"
  note k = take_final [OF ok assms(3,4) c1_def, unfolded assms(5)]
  have w: "weight c = weight c1 + 12"
    using take_final_weight [OF ok assms(3,4) c1_def] by (simp add: assms(5) op_rank_def)
  have st: "ce_state c = CONN_STATE_CONNECTING" using p k(1) by (cases "ce_state c") auto
  have aft: "ce_after c = []" "\<not> success c" using p(2) [OF st] k(1) by auto
  have bz: "busy c" "\<not> idle c" using st k(1) by (auto simp: busy_def idle_def)
  have ref: "ce_ref c = 1" using d(5) k(1) aft by (simp add: refs_of_def)
  have f1: "ce_state c1 = CONN_STATE_CONNECTING" "ce_after c1 = []" "ce_ref c1 = 1" "ce_session c1 = ce_session c"
    "ce_target c1 = ce_target c" "ce_service c1 = None" "\<not> success c1"
    using st aft ref sv k(5) by (simp_all add: c1_def)
  note f2 = k(2,3,6,7,8)
  define M where "M = set_conn n c1 m"
  have M: "cm_conn M n = Some c1" "cm_target M (ce_target c) = Some r" "cm_conn M = (cm_conn m)(n \<mapsto> c1)"
    "cm_target M = cm_target m" "cm_log M = cm_log m" using r by (simp_all add: M_def f1)
  have h: "handle_result u y n i m = handle_connect_result u y n R M"
    using assms(2,3,5) by (simp add: handle_result_def R_def M_def c1_def)
  note h2 = h [unfolded handle_connect_result_def with_conn_some [OF M(1)] f1 with_target_some [OF M(2)] Let_def]
  have j: "step_dec n m (end_session AfterRelease False n st err N)"
    if "cm_conn N = (cm_conn m)(n \<mapsto> c2)" "cm_log N = cm_log m" "cm_target N = cm_target m"
      "c2 = c1 \<or> c2 = c1\<lparr>ce_state := CONN_STATE_RECEIVING\<rparr> \<or> (\<exists>k. c2 = (node_set_timeout k c1)\<lparr>ce_state := CONN_STATE_RECEIVING\<rparr>)" for N c2 st err
  proof -
    have "idle c2 = False" "busy c2 = False" "phase_ok (ce_state c2) None False [AfterRelease]"
      using that(4) f1 f2 by (auto simp: idle_def busy_def phase_ok_def)
    then show ?thesis
      using that(4) f1 f2 by (intro end_session_step [OF assms(1,2) bz(1) r that(1,2)])
        (auto simp: that(3) bz(2) r relist_def map_upd_triv refs_of_def sv w)
  qed
  show ?thesis
  proof (cases "cr_state R")
    case PR_ST_FINISHED
    define m1 where "m1 = set_session (ce_session c) ((cm_session M (ce_session c))\<lparr>se_out := ua_message_out u\<rparr>) M"
    have m1: "cm_conn m1 n = Some c1" "cm_conn m1 = (cm_conn m)(n \<mapsto> c1)" "cm_target m1 = cm_target m" "cm_log m1 = cm_log m"
      by (simp_all add: m1_def M)
    obtain res M2 where sd: "send_message u y (ta_response_timeout r) n c1 m1 = (res, M2)" by fastforce
    obtain c' where c': "sent_conn res c1 c'" "cm_conn M2 = (cm_conn m1)(n \<mapsto> c')" "cm_target M2 = cm_target m" "cm_log M2 = cm_log m"
      using send_message_conn [OF m1(1) f1(6) sd] m1(3,4) by auto
    have c2: "cm_conn M2 = (cm_conn m)(n \<mapsto> c')" using c'(2) m1(2) by simp
    note h3 = h2 [unfolded PR_ST_FINISHED poll_state.case, folded m1_def]
    show ?thesis
    proof (cases "ua_message_out u")
      case False
      then show ?thesis using h3 j [OF m1(2,4,3)] by simp
    next
      case out: True
      show ?thesis
      proof (cases res)
        case (SendFailed err)
        then show ?thesis using h3 out sd c'(1) j [OF c2 c'(4,3)] by (simp add: sent_conn_def)
      next
        case SentLater
        then obtain vs a w q where a: "node_add w PD_OP_WRITE q c1 = (True, a)"
          "c' = a\<lparr>ce_write_iov := Some vs\<rparr> \<or> c' = node_del (a\<lparr>ce_write_iov := Some vs\<rparr>)"
          using c'(1) f1(1) by (auto simp: sent_conn_def)
        note g = node_add_ok [OF a(1)]
        have "conn_ok c'" using a(2) g(1,2) [OF f2(1)] g(3-) f1 f2
          unfolding conn_ok_iff by (auto simp: refs_of_def phase_ok_def)
        moreover have "\<not> idle c'" "busy c'" "ce_service c' = None" "ce_target c' = ce_target c" "ce_session c' = ce_session c"
          using a(2) g(1,2) [OF f2(1)] g(3-) f1 f2 by (auto simp: idle_def busy_def)
        ultimately have "conn_step n m M2"
          using c2 c'(3,4) bz sv by (intro step_keep [OF assms(1,2), of _ c']) simp_all
        moreover have "handle_result u y n i m = Ret M2" using h3 out sd SentLater by simp
        moreover have "weight c' = weight c1 + 9"
          using node_add_weight [OF a(1) f2(1)] a(2) by (auto simp: op_rank_def)
        moreover have "cm_conn M2 n = Some c'" by (simp add: c2)
        ultimately show ?thesis using w assms(2) by (intro step_decI [of _ M2]) simp_all
      next
        case SentAll
        then obtain c3 where c3: "c3 = c1 \<or> (\<exists>k. c3 = node_set_timeout k c1)" "c' = c3\<lparr>ce_state := CONN_STATE_RECEIVING\<rparr>"
          using c'(1) by (auto simp: sent_conn_def)
        have cc: "c' = c1 \<or> c' = c1\<lparr>ce_state := CONN_STATE_RECEIVING\<rparr> \<or> (\<exists>k. c' = (node_set_timeout k c1)\<lparr>ce_state := CONN_STATE_RECEIVING\<rparr>)"
          using c3 by auto
        obtain to s where rt: "reply_timeout u (ta_response_timeout r) (sa_now y) (cm_session M2 (ce_session c)) = (to, s)" by fastforce
        define M3 where "M3 = set_session (ce_session c) s M2"
        have M3: "cm_conn M3 = (cm_conn m)(n \<mapsto> c')" "cm_log M3 = cm_log m" "cm_target M3 = cm_target m" by (simp_all add: M3_def c2 c'(3,4))
        obtain b M4 where ad: "add_reply y to n c' M3 = (b, M4)" by fastforce
        have w2: "cm_conn M2 n = Some c'" by (simp add: c2)
        have e: "handle_result u y n i m = (if b then Ret M4 else end_session AfterRelease False n CS_STATE_ERROR (Some (sa_errno y)) M4)"
          using h3 out sd SentAll w2 by (simp add: rt ad flip: M3_def)
        have "if b then conn_step n m M4 \<and> weight_at n M4 = weight c' + 6 else cm_conn M4 = (cm_conn m)(n \<mapsto> c') \<and> cm_log M4 = cm_log m \<and> cm_target M4 = cm_target m"
          using c3 f1 f2 sv by (intro add_reply_step [OF assms(1,2) bz(1) M3 _ _ _ _ _ _ _ _ _ _ ad]) auto
        moreover have "weight c' = weight c1" using c3 by auto
        ultimately show ?thesis using j [of M4 c'] cc w assms(2) unfolding e by (cases b) (auto intro: step_decI)
      qed
    qed
  qed (use h2 j [of M c1] M(3-5) final_of_read [OF assms(4)] in \<open>simp_all add: R_def\<close>)
qed

section \<open>Steps of the poller's thread\<close>

text \<open>The node goes, and its result takes the token.\<close>

lemma node_result_out:
  assumes "conn_ok c" "ce_node c = Some nd" "is_final r" "cr_op r = cn_op nd"
    "c' = c\<lparr>ce_node := None, ce_results := ce_results c @ [r]\<rparr>"
  shows "tokens c' = tokens c" "success c' = success c" "token c' = token c" "\<not> in_message c'" "conn_ok c'"
proof -
  note d = conn_okD [OF assms(1)]
  have "filter is_final (ce_results c) = []" using d(1) assms(2) by (simp add: tokens_def)
  then show t: "tokens c' = tokens c" using assms(2-4) by (simp add: assms(5) tokens_def)
  then show tk: "token c' = token c" by (simp add: token_def)
  have ns: "\<not> is_success r" using assms(3) by (simp add: is_final_def is_success_def)
  then show s: "success c' = success c" by (simp add: assms(5) success_def)
  show im: "\<not> in_message c'" by (simp add: assms(5) in_message_def)
  have f: "ce_state c' = ce_state c" "ce_after c' = ce_after c" "ce_ref c' = ce_ref c" "ce_write_iov c' = ce_write_iov c"
    "ce_results c' = ce_results c @ [r]" by (simp_all add: assms(5))
  show "conn_ok c'" using assms(1,3) t tk s im ns unfolding conn_ok_iff f by auto
qed

lemma node_step:
  assumes "client_inv m" "cm_conn m n = Some c" "cm_conn m' = (cm_conn m)(n \<mapsto> c')" "cm_target m' = cm_target m" "cm_log m' = cm_log m"
    "conn_ok c'" "tokens c' = tokens c" "success c' = success c" "ce_state c' = ce_state c" "ce_service c' = ce_service c" "ce_target c' = ce_target c"
    "ce_session c' = ce_session c"
  shows "conn_step n m m'"
proof -
  have "token c' = token c" using assms(7) by (simp add: token_def)
  then show ?thesis using assms(8-) by (intro step_keep [OF assms(1-6)]) (simp_all add: idle_def busy_def)
qed

lemma node_end_ok:
  assumes "client_inv m" "cm_conn m n = Some c" "ce_node c \<noteq> None" "st \<noteq> PR_ST_SUCCESS" "st \<noteq> PR_ST_MODIFIED"
  shows "step_dec n m (node_end st err n m)"
proof -
  note ok = client_invD(2) [OF assms(1,2)]
  obtain nd where nd: "ce_node c = Some nd" using assms(3) by blast
  define r where "r = \<lparr>cr_op = cn_op nd, cr_state = (if cn_removed nd then PR_ST_DELETED else st), cr_error = err\<rparr>"
  have r: "is_final r" "cr_op r = cn_op nd" using assms(4,5) by (simp_all add: r_def is_final_def)
  define c' where "c' = c\<lparr>ce_node := None, ce_results := ce_results c @ [r]\<rparr>"
  note g = node_result_out [OF ok nd r c'_def]
  have e: "node_end st err n m = Ret (set_conn n c' m)"
    using assms(2) nd by (simp add: node_end_def c'_def r_def)
  have "weight c = Suc (weight c')" using nd r(1) unfolding weight_def g(3) by (simp add: c'_def)
  then show ?thesis
    using assms(2) g(1,2,5) by (intro step_decI [OF e] node_step [OF assms(1,2), of _ c']) (simp_all, simp_all add: c'_def)
qed

lemma node_fail_ok:
  assumes "client_inv m" "cm_conn m n = Some c" "ce_node c = Some nd" "cm_conn M = (cm_conn m)(n \<mapsto> node_fail e c)" "cm_target M = cm_target m" "cm_log M = cm_log m"
  shows "conn_step n m M"
proof (cases "cn_removed nd")
  case True
  note ok = client_invD(2) [OF assms(1,2)]
  let ?c = "c\<lparr>ce_node := Some (nd\<lparr>cn_message := False\<rparr>)\<rparr>"
  have e: "node_fail e c = ?c" using assms(3) True by (simp add: node_fail_def)
  have t: "tokens ?c = tokens c" using assms(3) by (simp add: tokens_def)
  then have "token ?c = token c" by (simp add: token_def)
  moreover have "\<not> in_message ?c" by (simp add: in_message_def)
  ultimately have "conn_ok ?c" using ok t unfolding conn_ok_iff by simp
  then show ?thesis using t assms(4-6) e by (intro node_step [OF assms(1,2), of _ ?c]) simp_all
next
  case False
  note ok = client_invD(2) [OF assms(1,2)]
  define r where "r = \<lparr>cr_op = cn_op nd, cr_state = PR_ST_ERROR, cr_error = e\<rparr>"
  have r: "is_final r" "cr_op r = cn_op nd" by (simp_all add: r_def is_final_def)
  define c' where "c' = c\<lparr>ce_node := None, ce_results := ce_results c @ [r]\<rparr>"
  note g = node_result_out [OF ok assms(3) r c'_def]
  have e: "node_fail e c = c'" using assms(3) False by (simp add: node_fail_def c'_def r_def)
  show ?thesis using assms(4-6) unfolding e by (intro node_step [OF assms(1,2), of _ c']) (simp_all add: g, simp_all add: c'_def)
qed

lemma set_timeout_ok: "conn_ok c \<Longrightarrow> conn_ok (node_set_timeout k c)"
  unfolding conn_ok_iff by simp

lemma partial_written_ok:
  assumes "client_inv m" "cm_conn m n = Some c"
  shows "step_ret n m (partial_written y n m)"
proof -
  obtain r where r: "cm_target m (ce_target c) = Some r" using client_invD(4) [OF assms] by blast
  obtain k s where k: "next_timeout (ta_response_timeout r) (sa_now y) (cm_session m (ce_session c)) = (k, s)" by fastforce
  have e: "partial_written y n m = Ret (set_session (ce_session c) s (set_conn n (node_set_timeout k c) m))"
    using assms(2) r by (simp add: partial_written_def k)
  show ?thesis
    by (intro step_retI [OF e] node_step [OF assms, of _ "node_set_timeout k c"])
      (simp_all add: set_timeout_ok [OF client_invD(2) [OF assms]])
qed

lemma set_message_token [simp]: "tokens (set_message b c) = tokens c" "success (set_message b c) = success c"
  by (simp_all add: set_message_def tokens_def success_def split: option.split)

lemma set_message_out [simp]:
  "token (set_message b c) = token c" "in_message (set_message b c) \<longleftrightarrow> b \<and> ce_node c \<noteq> None"
  "ce_state (set_message b c) = ce_state c" "ce_ref (set_message b c) = ce_ref c" "ce_after (set_message b c) = ce_after c"
  "ce_results (set_message b c) = ce_results c" "ce_write_iov (set_message b c) = ce_write_iov c"
  "ce_session (set_message b c) = ce_session c" "ce_target (set_message b c) = ce_target c" "ce_service (set_message b c) = ce_service c"
  by (simp_all add: set_message_def token_def tokens_def in_message_def split: option.split)

text \<open>Creating the reply, and appending to it.\<close>

lemma create_reply_eq:
  assumes "cm_conn m n = Some c"
  shows "\<exists>err m1. create_reply u y n m = Ret (err, m1) \<and> cm_conn m1 = cm_conn m \<and> cm_target m1 = cm_target m \<and> cm_log m1 = cm_log m
    \<and> (err = None \<longrightarrow> ce_state c = CONN_STATE_RECEIVING)"
  using assms by (cases "ce_state c = CONN_STATE_RECEIVING"; cases "ua_message_in u") (simp_all add: create_reply_def Let_def)

lemma append_reply_eq:
  assumes "cm_conn m n = Some c" "cm_target m (ce_target c) = Some r"
  shows "\<exists>m1 c1. append_reply u y ret n m = Ret m1 \<and> cm_conn m1 = (cm_conn m)(n \<mapsto> c1) \<and> cm_target m1 = cm_target m \<and> cm_log m1 = cm_log m
    \<and> (if 0 < ret then (\<exists>k. c1 = node_set_timeout k (c\<lparr>ce_state := CONN_STATE_SUCCESS\<rparr>)) \<or> c1 = node_del (c\<lparr>ce_state := CONN_STATE_SUCCESS\<rparr>)
       else if ret = 0 then c1 = c \<or> (\<exists>k. c1 = node_set_timeout k c) else c1 = c)"
proof -
  define se where "se = cm_session m (ce_session c)"
  note e = append_reply_def [of u y ret n m, unfolded with_conn_some [OF assms(1)] with_target_some [OF assms(2)] Let_def, folded se_def]
  show ?thesis
  proof (cases "0 < ret")
    case True
    define c1 where "c1 = (if ua_keep_alive_timeout u = 0 then node_del (c\<lparr>ce_state := CONN_STATE_SUCCESS\<rparr>)
      else node_set_timeout (ua_keep_alive_timeout u) (c\<lparr>ce_state := CONN_STATE_SUCCESS\<rparr>))"
    have "append_reply u y ret n m = Ret (set_session (ce_session c) (se\<lparr>se_timeout := ua_keep_alive_timeout u\<rparr>) (set_conn n c1 m))"
      unfolding e c1_def using True by simp
    then show ?thesis using True by (auto simp: c1_def)
  next
    case False
    show ?thesis
    proof (cases "ret = 0 \<and> se_timeout se \<noteq> 0")
      case True
      obtain k s1 where k: "(if tv_nsec (se_begin_time se) = -1 then first_timeout_recv u (ta_response_timeout r) (sa_now y) se
                            else next_timeout (ta_response_timeout r) (sa_now y) se) = (k, s1)" by fastforce
      have "append_reply u y ret n m = Ret (set_session (ce_session c) s1 (set_conn n (node_set_timeout k c) m))"
        unfolding e k using True by simp
      then show ?thesis using True by auto
    next
      case f: False
      have "append_reply u y ret n m = Ret m" unfolding e if_not_P [OF False] if_not_P [OF f] by (rule refl)
      then show ?thesis using False assms(1) by (intro exI [of _ m] exI [of _ c]) (simp add: map_upd_triv)
    qed
  qed
qed

lemma read_data_ok:
  assumes "client_inv m" "cm_conn m n = Some c" "ce_node c = Some nd" "cn_op nd = PD_OP_READ"
  shows "step_ret n m (read_data u y new ret n m)"
proof -
  note ok = client_invD(2) [OF assms(1,2)] and sv = client_invD(3) [OF assms(1,2)]
  note d = conn_okD [OF ok] and p = phase_okD [OF conn_okD(4) [OF ok]]
  obtain r where r: "cm_target m (ce_target c) = Some r" using client_invD(4) [OF assms(1,2)] by blast
  have tk: "token c = Some PD_OP_READ" using token_node [OF assms(3)] assms(4) by simp
  define first where "first = (if cn_message nd then Ret (None, m) else create_reply u y n m)"
  obtain err m1 where f: "first = Ret (err, m1)" "cm_conn m1 = cm_conn m" "cm_target m1 = cm_target m" "cm_log m1 = cm_log m"
    "err = None \<Longrightarrow> ce_state c = CONN_STATE_RECEIVING"
    using create_reply_eq [OF assms(2), of u y] d(8) [OF assms(3)] unfolding first_def by (cases "cn_message nd") auto
  have m1: "cm_conn m1 n = Some c" "cm_target m1 (ce_target c) = Some r" using f(2,3) assms(2) r by simp_all
  note e = read_data_def [of u y new ret n m, unfolded with_conn_some [OF assms(2)] assms(3) option.case sv, folded first_def, unfolded f(1)]
  show ?thesis
  proof (cases err)
    case (Some er)
    have "read_data u y new ret n m = Ret (set_conn n (node_fail (Some er) c) m1)"
      unfolding e using assms(4) Some m1 by (simp add: andthen_def)
    moreover have "conn_step n m (set_conn n (node_fail (Some er) c) m1)"
      using f(2-4) by (intro node_fail_ok [OF assms(1-3), of _ "Some er"]) simp_all
    ultimately show ?thesis by (rule step_retI)
  next
    case None
    note st = f(5) [OF None]
    have ns: "\<not> success c" using p(3) [OF st] by blast
    obtain m2 c2 where a: "append_reply u y ret n m1 = Ret m2" "cm_conn m2 = (cm_conn m1)(n \<mapsto> c2)" "cm_target m2 = cm_target m1" "cm_log m2 = cm_log m1"
      "if 0 < ret then (\<exists>k. c2 = node_set_timeout k (c\<lparr>ce_state := CONN_STATE_SUCCESS\<rparr>)) \<or> c2 = node_del (c\<lparr>ce_state := CONN_STATE_SUCCESS\<rparr>)
       else if ret = 0 then c2 = c \<or> (\<exists>k. c2 = node_set_timeout k c) else c2 = c"
      using append_reply_eq [OF m1, of u y ret] by blast
    have m2: "cm_conn m2 n = Some c2" by (simp add: a(2))
    define c' where "c' = (if ret < 0 then node_fail (Some (sa_errno y)) c2
                      else if ret = 0 then set_message True c2
                      else (set_message False c2)\<lparr>ce_results := ce_results c2 @
                             [\<lparr>cr_op = PD_OP_READ, cr_state = PR_ST_SUCCESS, cr_error = None\<rparr>]\<rparr>)"
    have "read_data u y new ret n m = Ret (set_conn n c' m2)"
      unfolding e c'_def using assms(4) None m1 m2 a(1) by (simp add: andthen_def)
    moreover have M: "cm_conn (set_conn n c' m2) = (cm_conn m)(n \<mapsto> c')" "cm_target (set_conn n c' m2) = cm_target m" "cm_log (set_conn n c' m2) = cm_log m"
      using a(2-4) f(2-4) by simp_all
    have "conn_step n m (set_conn n c' m2)"
    proof (cases "ret = 0")
      case True
      have g: "tokens c2 = tokens c" "success c2 = success c" "token c2 = token c" "ce_state c2 = ce_state c" "ce_ref c2 = ce_ref c" "ce_after c2 = ce_after c"
        "ce_results c2 = ce_results c" "ce_write_iov c2 = ce_write_iov c" "ce_session c2 = ce_session c" "ce_target c2 = ce_target c" "ce_service c2 = ce_service c"
        using a(5) True by auto
      have "conn_ok c'" using ok st g unfolding conn_ok_iff c'_def using True by simp
      then show ?thesis using True g by (intro node_step [OF assms(1,2) M]) (simp_all add: c'_def)
    next
      case False
      show ?thesis
      proof (cases "0 < ret")
        case f: False
        then have "c' = node_fail (Some (sa_errno y)) c" using a(5) False by (simp add: c'_def)
        then show ?thesis using M by (intro node_fail_ok [OF assms(1-3)]) simp_all
      next
        case True
        have g: "tokens c2 = tokens c" "success c2 = success c" "token c2 = token c" "ce_state c2 = CONN_STATE_SUCCESS" "ce_ref c2 = ce_ref c" "ce_after c2 = ce_after c"
          "ce_results c2 = ce_results c" "ce_session c2 = ce_session c" "ce_target c2 = ce_target c" "ce_service c2 = ce_service c"
          using a(5) True by auto
        have c': "c' = (set_message False c2)\<lparr>ce_results := ce_results c @ [\<lparr>cr_op = PD_OP_READ, cr_state = PR_ST_SUCCESS, cr_error = None\<rparr>]\<rparr>"
          using True g(7) by (simp add: c'_def)
        define c3 where "c3 = set_message False c2"
        define R where "R = \<lparr>cr_op = PD_OP_READ, cr_state = PR_ST_SUCCESS, cr_error = None :: comm_errno option\<rparr>"
        have R: "is_success R" "\<not> is_final R" "cr_op R = PD_OP_READ" by (simp_all add: R_def is_success_def is_final_def)
        have c3: "c' = c3\<lparr>ce_results := ce_results c3 @ [R]\<rparr>" using c' g(7) by (simp add: c3_def R_def)
        have h: "tokens c3 = tokens c" "token c3 = token c" "ce_state c3 = CONN_STATE_SUCCESS" "ce_ref c3 = ce_ref c" "ce_after c3 = ce_after c"
          "ce_results c3 = ce_results c" "ce_session c3 = ce_session c" "ce_target c3 = ce_target c" "ce_service c3 = ce_service c" "\<not> in_message c3"
          using g by (simp_all add: c3_def)
        have nf: "filter is_success (ce_results c) = []" using ns by (simp add: success_def)
        have o: "tokens c' = tokens c" "success c'" "length (filter is_success (ce_results c')) \<le> 1"
          using h(1,6) R nf unfolding c3 by (simp_all add: tokens_def success_def)
        then have t': "token c' = Some PD_OP_READ" using tk by (simp add: token_def)
        have f': "ce_state c' = CONN_STATE_SUCCESS" "ce_ref c' = ce_ref c" "ce_after c' = ce_after c" "ce_results c' = ce_results c @ [R]" "\<not> in_message c'"
          "ce_session c' = ce_session c" "ce_target c' = ce_target c" "ce_service c' = ce_service c"
          using h by (simp_all add: c3)
        have nr: "AfterRelease \<notin> set (ce_after c)" using p(1) tk by auto
        have "conn_ok c'"
          using o t' R nr d(1,3,5,6) tk ns unfolding conn_ok_iff f' by (auto simp: phase_ok_def refs_of_def f'(5))
        moreover have "idle c' = idle c" "busy c' = busy c" using st f' o(2) tk by (simp_all add: idle_def busy_def)
        ultimately show ?thesis using f' by (intro step_keep [OF assms(1,2) M]) simp_all
      qed
    qed
    ultimately show ?thesis by (rule step_retI)
  qed
qed

end
