(* ===== verification/CommClientReq.thy ===== *)
theory CommClientReq
  imports CommClientSend
begin

text \<open>
  Requests of clients: each round of the search of the idle list, sending on an idle connection, and a
  new connection. A request that is accepted is one more session to answer, one that fails is none.
\<close>

section \<open>The search of the idle list\<close>

lemma idle_step_close:
  assumes "client_inv M" "cm_conn M n = Some c" "idle c" "cm_target M (ce_target c) = Some r"
    "cm_conn M' = (cm_conn M)(n \<mapsto> c\<lparr>ce_state := CONN_STATE_CLOSING\<rparr>)" "cm_log M' = cm_log M"
    "cm_target M' = (cm_target M)(ce_target c \<mapsto> r\<lparr>ta_idle_list := remove1 n (ta_idle_list r)\<rparr>)"
  shows "conn_step n M M'"
proof -
  note ok = client_invD(2) [OF assms(1,2)] and sv = client_invD(3) [OF assms(1,2)]
  note p = phase_okD [OF conn_okD(4) [OF ok]]
  let ?c = "c\<lparr>ce_state := CONN_STATE_CLOSING\<rparr>"
  have a: "ce_state c = CONN_STATE_IDLE" "token c = Some PD_OP_READ" using assms(3) by (auto simp: idle_def)
  have s: "\<not> success c" "\<not> busy c" "\<not> busy ?c" "\<not> idle ?c" using p(5) [OF a(1)] a by (simp_all add: busy_def idle_def)
  have "\<not> in_message c" using ok a unfolding conn_ok_iff by auto
  then have "conn_ok ?c"
    using ok a s p(1) unfolding conn_ok_iff by (auto simp: phase_ok_def)
  then have "conn_upd n (ce_target c) (Some c) (Some ?c) M M'"
    unfolding conn_upd_def using assms s sv by (simp add: relist_def)
  then show ?thesis using assms(6) s by (intro conn_stepI [of n c "Some ?c" M M' "[]"]) (auto simp: settles_def)
qed

section \<open>A request on an idle connection\<close>

text \<open>The entry \<open>n\<close> of the state \<open>M\<close> takes a session.\<close>

definition starts :: "nat \<Rightarrow> nat \<Rightarrow> nat \<Rightarrow> comm_conn option \<Rightarrow> comm \<Rightarrow> comm \<Rightarrow> bool" where
  "starts s t n co M M' \<longleftrightarrow> (\<exists>c'. conn_upd n t co (Some c') M M' \<and> \<not> opt_holds busy co \<and> busy c' \<and> ce_session c' = s \<and> cm_log M' = cm_log M)"

lemma starts_tally:
  assumes "client_inv M" "starts s t n co M M'" "\<And>c. ce_session c = s \<Longrightarrow> ce_target c = t \<Longrightarrow> P c = b"
  shows "client_inv M' \<and> tally P Q M' = tally P Q M + of_bool b"
proof -
  obtain c' where c': "conn_upd n t co (Some c') M M'" "\<not> opt_holds busy co" "busy c'" "ce_session c' = s" "cm_log M' = cm_log M"
    using assms(2) by (auto simp: starts_def)
  have "ce_target c' = t" using c'(1) by (simp add: conn_upd_def)
  then have "P c' = b" using assms(3) c'(4) by blast
  moreover have "\<not> opt_holds (\<lambda>c. busy c \<and> P c) co" using c'(2) by (cases co) simp_all
  ultimately show ?thesis
    using conn_upd_owed [OF assms(1) c'(1), of P] conn_upd_inv [OF assms(1) c'(1)] c'(3,5) by (simp add: tally_def)
qed

text \<open>What an idle entry may become, that the session \<open>s\<close> was given to.\<close>

lemma idle_started:
  assumes "conn_ok c" "idle c" "node_live c" "c1 = c\<lparr>ce_session := s, ce_seq := q\<rparr>"
    "sent_conn SentAll c1 c' \<or> sent_conn SentLater c1 c' \<or> c' = (node_del (c1\<lparr>ce_error := e\<rparr>))\<lparr>ce_state := CONN_STATE_ERROR\<rparr>"
  shows "conn_ok c'" "busy c'" "\<not> idle c'" "ce_session c' = s" "ce_target c' = ce_target c" "ce_service c' = ce_service c"
proof -
  note d = conn_okD [OF assms(1)] and p = phase_okD [OF conn_okD(4) [OF assms(1)]]
  have a: "ce_state c = CONN_STATE_IDLE" "token c = Some PD_OP_READ" using assms(2) by (auto simp: idle_def)
  have s: "\<not> success c" using p(5) [OF a(1)] by simp
  have nr: "AfterRelease \<notin> set (ce_after c)" using p(1) a by auto
  obtain nd where nd: "ce_node c = Some nd" "\<not> cn_removed nd"
    using assms(3) by (auto simp: node_live_def split: option.splits)
  have op: "cn_op nd = PD_OP_READ" using token_node [OF nd(1)] a(2) by simp
  have im: "\<not> in_message c" using assms(1) a unfolding conn_ok_iff by auto
  have f1: "tokens c1 = tokens c" "token c1 = token c" "success c1 = success c" "ce_state c1 = CONN_STATE_IDLE" "ce_ref c1 = ce_ref c" "ce_after c1 = ce_after c"
    "ce_results c1 = ce_results c" "ce_session c1 = s" "ce_target c1 = ce_target c" "ce_service c1 = ce_service c" "\<not> in_message c1" "ce_node c1 = Some nd"
    using a im nd(1) by (simp_all add: assms(4))
  have rd: "conn_ok c' \<and> busy c' \<and> \<not> idle c' \<and> ce_session c' = s \<and> ce_target c' = ce_target c \<and> ce_service c' = ce_service c"
    if "tokens c' = tokens c" "success c' = success c" "ce_state c' \<in> {CONN_STATE_RECEIVING, CONN_STATE_ERROR}" "ce_ref c' = ce_ref c" "ce_after c' = ce_after c"
      "ce_results c' = ce_results c" "ce_session c' = s" "ce_target c' = ce_target c" "ce_service c' = ce_service c" "\<not> in_message c'"
  proof -
    have t: "token c' = Some PD_OP_READ" using that(1) a(2) by (simp add: token_def)
    have "phase_ok (ce_state c') (token c') (success c') (ce_after c')"
      using that s nr t by (auto simp: phase_ok_def)
    then have "conn_ok c'" using assms(1) that a t unfolding conn_ok_iff by simp
    then show ?thesis using that t by (auto simp: busy_def idle_def)
  qed
  have "conn_ok c' \<and> busy c' \<and> \<not> idle c' \<and> ce_session c' = s \<and> ce_target c' = ce_target c \<and> ce_service c' = ce_service c"
    using assms(5)
  proof (elim disjE)
    assume "sent_conn SentAll c1 c'"
    then obtain c2 where "c2 = c1 \<or> (\<exists>k. c2 = node_set_timeout k c1)" "c' = c2\<lparr>ce_state := CONN_STATE_RECEIVING\<rparr>"
      by (auto simp: sent_conn_def)
    then show ?thesis using f1 by (intro rd) auto
  next
    assume "c' = (node_del (c1\<lparr>ce_error := e\<rparr>))\<lparr>ce_state := CONN_STATE_ERROR\<rparr>"
    then show ?thesis using f1 by (intro rd) auto
  next
    assume "sent_conn SentLater c1 c'"
    then obtain vs c2 w k where "node_mod w PD_OP_WRITE k c1 = (None, c2) \<and> c' = c2\<lparr>ce_write_iov := Some vs\<rparr> \<or> c' = c1\<lparr>ce_state := CONN_STATE_RECEIVING\<rparr>"
      using f1(4) by (auto simp: sent_conn_def)
    then show ?thesis
    proof (elim disjE conjE)
      assume "c' = c1\<lparr>ce_state := CONN_STATE_RECEIVING\<rparr>"
      then show ?thesis using f1 by (intro rd) auto
    next
      assume m: "node_mod w PD_OP_WRITE k c1 = (None, c2)" "c' = c2\<lparr>ce_write_iov := Some vs\<rparr>"
      define R where "R = \<lparr>cr_op = PD_OP_READ, cr_state = PR_ST_MODIFIED, cr_error = None :: comm_errno option\<rparr>"
      have R: "\<not> is_success R" "\<not> is_final R" "cr_op R = PD_OP_READ" by (simp_all add: R_def is_success_def is_final_def)
      have c2: "c2 = c1\<lparr>ce_node := Some \<lparr>cn_op = PD_OP_WRITE, cn_removed = False, cn_message = False, cn_timeout = k\<rparr>,
          ce_results := ce_results c1 @ [R]\<rparr>"
        using m(1) nd f1(12) op by (simp add: node_mod_def R_def split: if_splits)
      have "filter is_final (ce_results c) = []" using d(1) nd by (simp add: tokens_def)
      then have t: "tokens c' = [PD_OP_WRITE]" "success c' = success c" "\<not> in_message c'"
        using R f1(3,7) by (simp_all add: m(2) c2 tokens_def success_def in_message_def)
      then have tk: "token c' = Some PD_OP_WRITE" by (simp add: token_def)
      have f: "ce_state c' = CONN_STATE_IDLE" "ce_ref c' = ce_ref c" "ce_after c' = ce_after c" "ce_results c' = ce_results c @ [R]"
        "ce_session c' = s" "ce_target c' = ce_target c" "ce_service c' = ce_service c" "ce_write_iov c' = Some vs"
        using f1 by (simp_all add: m(2) c2)
      have "conn_ok c'"
        using t tk R d(2,3,5,6) a s nr unfolding conn_ok_iff f by (auto simp: phase_ok_def refs_of_def)
      then show ?thesis using f tk by (simp add: busy_def idle_def)
    qed
  qed
  then show "conn_ok c'" "busy c'" "\<not> idle c'" "ce_session c' = s" "ce_target c' = ce_target c" "ce_service c' = ce_service c" by simp_all
qed

text \<open>A request adds one session to answer, if it is accepted.\<close>

definition request_ok :: "nat \<Rightarrow> nat \<Rightarrow> bool \<Rightarrow> comm \<Rightarrow> comm \<Rightarrow> bool" where
  "request_ok s t acc m m' \<longleftrightarrow> client_inv m' \<and> (\<forall>t. cm_target m' t = None \<longleftrightarrow> cm_target m t = None)
     \<and> (\<forall>P Q b. counts P Q \<and> (\<forall>c. ce_session c = s \<and> ce_target c = t \<longrightarrow> P c = b) \<longrightarrow> tally P Q m' = tally P Q m + of_bool (acc \<and> b))"

lemma client_inv_eq:
  assumes "client_inv m" "cm_conn m' = cm_conn m" "cm_target m' = cm_target m"
  shows "client_inv m'"
  using assms by (simp add: client_inv_def)

lemma request_ok_trans:
  assumes "request_ok s t False m m1" "request_ok s t b m1 m2"
  shows "request_ok s t b m m2"
  using assms unfolding request_ok_def by simp

lemma request_ok_same:
  assumes "client_inv m" "cm_conn m' = cm_conn m" "cm_target m' = cm_target m" "cm_log m' = cm_log m"
  shows "request_ok s t False m m'"
  using client_inv_eq [OF assms(1-3)] assms by (simp add: request_ok_def tally_def owed_def owing_def)

lemma request_ok_conn_step:
  assumes "client_inv m" "conn_step n m m'" "\<And>t. cm_target m' t = None \<longleftrightarrow> cm_target m t = None"
  shows "request_ok s t False m m'"
  using conn_step_inv [OF assms(1,2)] conn_step_tally [OF assms(1,2)] assms(3) by (simp add: request_ok_def)

lemma idle_region_ok:
  assumes "client_inv m" "cm_target m t = Some r"
  shows "\<exists>p m'. idle_region u y s t m = Ret (p, m') \<and> request_ok s t (p = IdleTaken) m m' \<and> (\<forall>n. cm_conn m' n = None \<longleftrightarrow> cm_conn m n = None)"
proof (cases "ta_idle_list r")
  case Nil
  then show ?thesis
    using assms request_ok_same [OF assms(1) refl refl refl, of s t] by (intro exI [of _ IdleNone] exI [of _ m]) (simp add: idle_region_def)
next
  case (Cons n ns)
  have "opt_holds (\<lambda>c. ce_target c = t \<and> idle c) (cm_conn m n)"
    using client_invD(6) [OF assms, of n] Cons by simp
  then obtain c where c: "cm_conn m n = Some c" "ce_target c = t" "idle c" by (cases "cm_conn m n") auto
  note e = idle_region_def [of u y s t m, unfolded with_target_some [OF assms(2)] Cons list.case with_conn_some [OF c(1)] Let_def]
  show ?thesis
  proof (cases "node_live c")
    case False
    let ?m = "set_conn n (c\<lparr>ce_state := CONN_STATE_CLOSING\<rparr>) (set_target t (r\<lparr>ta_idle_list := ns\<rparr>) m)"
    have t: "cm_target m (ce_target c) = Some r" using assms(2) c(2) by simp
    have l: "remove1 n (ta_idle_list r) = ns" unfolding Cons by simp
    have "conn_step n m ?m"
      by (rule idle_step_close [OF assms(1) c(1,3) t]) (simp_all add: l c(2))
    then have "request_ok s t False m ?m" using assms(2) by (intro request_ok_conn_step [OF assms(1)]) simp_all
    then show ?thesis using e False c(1) by (intro exI [of _ IdleClosed] exI [of _ ?m]) simp
  next
    case True
    define c0 where "c0 = node_set_timeout (-1) c"
    define M where "M = set_conn n c0 m"
    have st0: "conn_step n m M"
      unfolding M_def by (rule node_step [OF assms(1) c(1), of _ c0]) (simp_all add: c0_def set_timeout_ok [OF client_invD(2) [OF assms(1) c(1)]])
    have M: "client_inv M" "cm_target M t = Some r" "cm_conn M = (cm_conn m)(n \<mapsto> c0)" "cm_log M = cm_log m" "cm_target M = cm_target m" "cm_conn M n = Some c0"
      using conn_step_inv [OF assms(1) st0] assms(2) by (simp_all add: M_def)
    have c0: "ce_target c0 = t" "idle c0" "node_live c0" "ce_seq c0 = ce_seq c"
      using client_invD(6) [OF M(1,2), of n] Cons M(6) True by (auto simp: c0_def node_set_timeout_def node_live_def split: option.splits)
    note ok = client_invD(2) [OF M(1) M(6)] and sv = client_invD(3) [OF M(1) M(6)]
    define m1 where "m1 = set_target t (r\<lparr>ta_idle_list := ns\<rparr>) m"
    define c1 where "c1 = c0\<lparr>ce_session := s, ce_seq := ce_seq c0 + 1\<rparr>"
    define m3 where "m3 = set_session s ((cm_session m1 s)\<lparr>se_conn := Some n, se_seq := ce_seq c0, se_out := ua_message_out u\<rparr>) (set_conn n c1 m1)"
    have m3: "cm_conn m3 = (cm_conn m)(n \<mapsto> c1)" "cm_target m3 = (cm_target m)(t \<mapsto> r\<lparr>ta_idle_list := ns\<rparr>)" "cm_log m3 = cm_log m"
      "cm_conn m3 n = Some c1" by (simp_all add: m3_def m1_def)
    note st = idle_started [OF ok c0(2,3) c1_def]
    have fin: "request_ok s t True m M' \<and> (\<forall>n. cm_conn M' n = None \<longleftrightarrow> cm_conn m n = None)"
      if c': "sent_conn SentAll c1 c' \<or> sent_conn SentLater c1 c' \<or> c' = (node_del (c1\<lparr>ce_error := er\<rparr>))\<lparr>ce_state := CONN_STATE_ERROR\<rparr>"
        and M': "cm_conn M' = (cm_conn m3)(n \<mapsto> c')" "cm_target M' = cm_target m3" "cm_log M' = cm_log m3" for c' M' er
    proof -
      note g = st [OF c']
      have nb: "\<not> busy c0" using c0(2) phase_okD(5) [OF conn_okD(4) [OF ok]] by (auto simp: idle_def busy_def)
      have "conn_upd n t (Some c0) (Some c') M M'"
        unfolding conn_upd_def using g c0 sv M M'(1,2) m3 Cons by (simp add: relist_def)
      then have "starts s t n (Some c0) M M'"
        using g nb M'(3) m3(3) M(4) unfolding starts_def by (intro exI [of _ c']) simp
      note q = starts_tally [OF M(1) this]
      have "client_inv M'" using q [of "\<lambda>_. True" True] by simp
      moreover have "tally P Q M' = tally P Q m + of_bool b"
        if "counts P Q" "\<forall>c. ce_session c = s \<and> ce_target c = t \<longrightarrow> P c = b" for P Q b
        using q [of P b Q] that conn_step_tally [OF assms(1) st0 that(1)] by simp
      ultimately show ?thesis
        unfolding request_ok_def using M'(1,2) m3(1,2) c(1) assms(2) by (auto simp: fun_upd_def)
    qed
    have e2: "idle_region u y s t m =
       (if \<not> ua_message_out u then andthen (fail_conn (sa_errno y) n m3) (\<lambda>m4. Ret (IdleTaken, m4))
        else case send_message u y (ta_response_timeout r) n c1 m3 of
           (SendFailed err, m4) \<Rightarrow> andthen (fail_conn err n m4) (\<lambda>m5. Ret (IdleTaken, m5))
         | (_, m4) \<Rightarrow> Ret (IdleTaken, m4))"
      unfolding e m3_def c1_def c0(4) m1_def c0_def using True by simp
    have fl: "andthen (fail_conn er n N) (\<lambda>m5. Ret (IdleTaken, m5))
        = Ret (IdleTaken, set_conn n ((node_del (c1\<lparr>ce_error := Some er\<rparr>))\<lparr>ce_state := CONN_STATE_ERROR\<rparr>) N)" if "cm_conn N n = Some c1" for er N
      using that by (simp add: fail_conn_def andthen_def)
    show ?thesis
    proof (cases "ua_message_out u")
      case False
      let ?c = "(node_del (c1\<lparr>ce_error := Some (sa_errno y)\<rparr>))\<lparr>ce_state := CONN_STATE_ERROR\<rparr>"
      have "idle_region u y s t m = Ret (IdleTaken, set_conn n ?c m3)" unfolding e2 using False fl [OF m3(4)] by simp
      then show ?thesis using fin [of ?c "Some (sa_errno y)" "set_conn n ?c m3"] by auto
    next
      case True
      obtain res m4 where sd: "send_message u y (ta_response_timeout r) n c1 m3 = (res, m4)" by fastforce
      have "ce_service c1 = None" using sv by (simp add: c1_def)
      then obtain c' where c': "sent_conn res c1 c'" "cm_conn m4 = (cm_conn m3)(n \<mapsto> c')" "cm_target m4 = cm_target m3" "cm_log m4 = cm_log m3"
        using send_message_conn [OF m3(4) _ sd] by blast
      show ?thesis
      proof (cases res)
        case (SendFailed er)
        let ?c = "(node_del (c1\<lparr>ce_error := Some er\<rparr>))\<lparr>ce_state := CONN_STATE_ERROR\<rparr>"
        have cc: "c' = c1" using c'(1) SendFailed by (simp add: sent_conn_def)
        then have "cm_conn m4 n = Some c1" using c'(2) by simp
        then have "idle_region u y s t m = Ret (IdleTaken, set_conn n ?c m4)" unfolding e2 using True sd SendFailed fl by simp
        then show ?thesis using fin [of ?c "Some er" "set_conn n ?c m4"] c'(2-4) by auto
      next
        case SentAll
        have "idle_region u y s t m = Ret (IdleTaken, m4)" unfolding e2 using True sd SentAll by simp
        then show ?thesis using fin [of c' None m4] c' SentAll by auto
      next
        case SentLater
        have "idle_region u y s t m = Ret (IdleTaken, m4)" unfolding e2 using True sd SentLater by simp
        then show ?thesis using fin [of c' None m4] c' SentLater by auto
      qed
    qed
  qed
qed

section \<open>A request on a new connection\<close>

lemma new_conn_ok:
  assumes "node_add w PD_OP_CONNECT k ((new_conn fd CONN_STATE_CONNECTING s t None)\<lparr>ce_seq := q\<rparr>) = (True, c)"
  shows "conn_ok c" "busy c" "\<not> idle c" "ce_session c = s" "ce_target c = t" "ce_service c = None"
proof -
  let ?c = "(new_conn fd CONN_STATE_CONNECTING s t None)\<lparr>ce_seq := q\<rparr>"
  have t: "token ?c = None" "\<not> success ?c" by (simp_all add: token_def tokens_def success_def new_conn_def)
  note g = node_add_ok [OF assms]
  have f: "tokens c = [PD_OP_CONNECT]" "token c = Some PD_OP_CONNECT" "\<not> success c" "\<not> in_message c" "ce_state c = CONN_STATE_CONNECTING"
    "ce_ref c = 1" "ce_after c = []" "ce_results c = []" "ce_session c = s" "ce_target c = t" "ce_service c = None"
    using g(1,2) [OF t(1)] g(3-) t(2) by (simp_all add: new_conn_def)
  show "conn_ok c" unfolding conn_ok_iff by (simp add: f phase_ok_def refs_of_def)
  show "busy c" "\<not> idle c" "ce_session c = s" "ce_target c = t" "ce_service c = None" by (simp_all add: busy_def idle_def f)
qed

lemma request_new_ok:
  assumes "client_inv m" "cm_target m t = Some r" "cm_conn m (la_entry l) = None"
  shows "\<exists>b m'. request_new_conn y l s t m = Ret (b, m') \<and> request_ok s t b m m'"
proof (cases "launch_conn l s t")
  case None
  then show ?thesis using assms by (auto simp: request_new_conn_def request_ok_def)
next
  case (Some c)
  then obtain fd where c: "c = new_conn fd CONN_STATE_CONNECTING s t None"
    by (auto simp: launch_conn_def split: option.splits if_splits)
  let ?n = "la_entry l"
  define m1 where "m1 = set_session s ((cm_session m s)\<lparr>se_conn := Some ?n, se_seq := ce_seq c\<rparr>) m"
  have m1: "cm_conn m1 = cm_conn m" "cm_target m1 = cm_target m" "cm_log m1 = cm_log m" by (simp_all add: m1_def)
  obtain b c1 where a: "node_add (sa_add y) PD_OP_CONNECT (ta_connect_timeout r) (c\<lparr>ce_seq := ce_seq c + 1\<rparr>) = (b, c1)" by fastforce
  have e: "request_new_conn y l s t m = (if b then Ret (True, set_conn ?n c1 m1)
      else andthen (release_conn ?n (set_conn ?n c1 m1)) (\<lambda>m2. Ret (False, m2)))"
    using assms(2) Some a by (simp add: request_new_conn_def Let_def flip: m1_def)
  show ?thesis
  proof (cases b)
    case True
    have "node_add (sa_add y) PD_OP_CONNECT (ta_connect_timeout r)
        ((new_conn fd CONN_STATE_CONNECTING s t None)\<lparr>ce_seq := ce_seq c + 1\<rparr>) = (True, c1)" using a True c by simp
    note g = new_conn_ok [OF this]
    let ?M = "set_conn ?n c1 m1"
    have "conn_upd ?n t None (Some c1) m ?M"
      unfolding conn_upd_def using g assms m1 by (simp add: relist_def map_upd_triv)
    then have "starts s t ?n None m ?M" using g m1 unfolding starts_def by (intro exI [of _ c1]) simp
    note q = starts_tally [OF assms(1) this]
    have "request_ok s t True m ?M"
      unfolding request_ok_def using q m1 by (auto intro: q [THEN conjunct1, of "\<lambda>_. True" True])
    then show ?thesis using e True by (intro exI [of _ True] exI [of _ ?M]) simp
  next
    case False
    let ?M = "emit (EvClose ?n) (m1\<lparr>cm_conn := cm_conn m\<rparr>)"
    have u: "\<not> still_used c1" using a False by (auto simp: node_add_def c new_conn_def still_used_def split: if_splits)
    have rel: "release_conn ?n (set_conn ?n c1 m1) = Ret ?M"
      using assms(3) m1 u by (simp add: release_conn_def set_conn_def fun_upd_idem)
    have "client_inv ?M" using m1 by (intro client_inv_eq [OF assms(1)]) simp_all
    moreover have "tally P Q ?M = tally P Q m" if "counts P Q" for P Q
      using that m1 by (simp add: tally_def owed_def owing_def counts_def)
    ultimately have "request_ok s t False m ?M" using m1 by (simp add: request_ok_def)
    then show ?thesis using e False rel by (intro exI [of _ False] exI [of _ ?M]) (simp add: andthen_def)
  qed
qed

end
