(* ===== verification/CommClientReach.thy ===== *)
theory CommClientReach
  imports CommClientReq
begin

text \<open>
  Everything that may happen to the connections of clients, in any order, and what is true whatever
  happens: nothing that is gone is used, and every accepted request is answered once.
\<close>

section \<open>What may happen\<close>

text \<open>
  By itself a communicator goes on as long as a handler thread takes a result or returns from
  \<open>handle\<close>, or the poller ends a socket. Besides, the poller reads and writes, the communicator
  stops, and requests are made, of which each part that is under a mutex is a step of its own: what
  \<open>request\<close> sets first, a round of the search of the idle list, a new connection, and what is set when
  that failed too. The last component is the session and the target of a request that was accepted,
  and a new entry has a name that is not in use.
\<close>

inductive inner_step :: "comm \<Rightarrow> comm outcome \<Rightarrow> bool" where
  handle: "cm_conn m n = Some c \<Longrightarrow> i < length (ce_results c) \<Longrightarrow> inner_step m (handle_result u y n i m)"
| return: "cm_conn m n = Some c \<Longrightarrow> i < length (ce_after c) \<Longrightarrow> inner_step m (after_step n i m)"
| ended: "cm_conn m n = Some c \<Longrightarrow> ce_node c \<noteq> None \<Longrightarrow> st \<in> {PR_ST_FINISHED, PR_ST_ERROR, PR_ST_STOPPED}
    \<Longrightarrow> inner_step m (node_end st err n m)"

inductive client_step :: "comm \<Rightarrow> comm outcome \<Rightarrow> (nat \<times> nat) list \<Rightarrow> bool" where
  inner: "inner_step m x \<Longrightarrow> client_step m x []"
| read: "cm_conn m n = Some c \<Longrightarrow> ce_node c = Some nd \<Longrightarrow> cn_op nd = PD_OP_READ \<Longrightarrow> client_step m (read_data u y new ret n m) []"
| written: "cm_conn m n = Some c \<Longrightarrow> ce_node c = Some nd \<Longrightarrow> cn_op nd = PD_OP_WRITE \<Longrightarrow> client_step m (partial_written y n m) []"
| stop: "client_step m (Ret (m\<lparr>cm_stop_flag := True\<rparr>)) []"
| request: "cm_target m t \<noteq> None \<Longrightarrow> se_passive (cm_session m s) = 0 \<Longrightarrow> client_step m (Ret (request_begin s t m)) []"
| idle: "cm_target m t \<noteq> None \<Longrightarrow> idle_region u y s t m = Ret (p, m') \<Longrightarrow> client_step m (Ret m') (if p = IdleTaken then [(s, t)] else [])"
| idle_lost: "cm_target m t \<noteq> None \<Longrightarrow> idle_region u y s t m = UB \<Longrightarrow> client_step m UB []"
| connect: "cm_target m t \<noteq> None \<Longrightarrow> cm_conn m (la_entry l) = None \<Longrightarrow> request_new_conn y l s t m = Ret (b, m')
    \<Longrightarrow> client_step m (Ret m') (if b then [(s, t)] else [])"
| connect_lost: "cm_target m t \<noteq> None \<Longrightarrow> cm_conn m (la_entry l) = None \<Longrightarrow> request_new_conn y l s t m = UB
    \<Longrightarrow> client_step m UB []"
| failed: "client_step m (Ret (request_failed s m)) []"

definition client_start :: "comm \<Rightarrow> bool" where
  "client_start m \<longleftrightarrow> cm_conn m = (\<lambda>n. None) \<and> (\<forall>t r. cm_target m t = Some r \<longrightarrow> ta_idle_list r = []) \<and> cm_log m = []"

inductive client_reach :: "comm \<Rightarrow> (nat \<times> nat) list \<Rightarrow> bool" where
  start: "client_start m \<Longrightarrow> client_reach m []"
| step: "client_reach m reqs \<Longrightarrow> client_step m (Ret m') acc \<Longrightarrow> client_reach m' (reqs @ acc)"

text \<open>How often a session was answered and a target was released.\<close>

definition handled :: "nat \<Rightarrow> comm \<Rightarrow> nat" where
  "handled s m = length (filter (\<lambda>e. \<exists>st err. e = EvHandle s st err) (cm_log m))"

definition released :: "nat \<Rightarrow> comm \<Rightarrow> nat" where
  "released t m = length (filter (\<lambda>e. \<exists>k. e = EvRelease t k) (cm_log m))"

definition waiting_sessions :: "nat \<Rightarrow> comm \<Rightarrow> nat" where
  "waiting_sessions s m = card {n. \<exists>c. cm_conn m n = Some c \<and> busy c \<and> ce_session c = s}"

definition waiting_targets :: "nat \<Rightarrow> comm \<Rightarrow> nat" where
  "waiting_targets t m = card {n. \<exists>c. cm_conn m n = Some c \<and> busy c \<and> ce_target c = t}"

section \<open>Every step is safe\<close>

definition fits :: "(comm_conn \<Rightarrow> bool) \<Rightarrow> (nat \<times> nat \<Rightarrow> bool) \<Rightarrow> bool" where
  "fits P f \<longleftrightarrow> (\<forall>c. P c = f (ce_session c, ce_target c))"

definition acc_ok :: "(nat \<times> nat) list \<Rightarrow> comm \<Rightarrow> comm \<Rightarrow> bool" where
  "acc_ok acc m m' \<longleftrightarrow> client_inv m' \<and> (\<forall>P Q f. counts P Q \<and> fits P f
     \<longrightarrow> tally P Q m' = tally P Q m + length (filter f acc))"

lemma conn_step_acc: "client_inv m \<Longrightarrow> conn_step n m m' \<Longrightarrow> acc_ok [] m m'"
  unfolding acc_ok_def by (simp add: conn_step_inv conn_step_tally)

lemma step_ret_acc: "client_inv m \<Longrightarrow> step_ret n m x \<Longrightarrow> \<exists>m'. x = Ret m' \<and> acc_ok [] m m'"
  unfolding step_ret_def using conn_step_acc by blast

lemma handle_result_ok:
  assumes "client_inv m" "cm_conn m n = Some c" "i < length (ce_results c)"
  shows "step_dec n m (handle_result u y n i m)"
proof -
  note ok = client_invD(2) [OF assms(1,2)]
  let ?r = "ce_results c ! i"
  consider (suc) "cr_state ?r = PR_ST_SUCCESS" | (mod) "cr_state ?r = PR_ST_MODIFIED" | (fin) "is_final ?r"
    by (auto simp: is_final_def)
  then show ?thesis
  proof cases
    case suc
    then show ?thesis by (rule read_success_ok [OF assms])
  next
    case mod
    let ?c = "c\<lparr>ce_results := drop_nth i (ce_results c)\<rparr>"
    note g = take_modified [OF ok assms(3) mod]
    have e: "handle_result u y n i m = Ret (set_conn n ?c m)"
      using assms(2,3) g(2) mod by (simp add: handle_result_def handle_read_result_def Let_def)
    have "weight c = weight ?c + 2" using mod by (intro take_other_weight [OF ok assms(3) _ refl]) (simp add: is_final_def)
    then show ?thesis using g assms(2) by (intro step_decI [OF e] step_keep [OF assms(1,2), of _ ?c]) simp_all
  next
    case fin
    have "token c = Some (cr_op ?r)" by (rule take_final [OF ok assms(3) fin refl])
    then have "cr_op ?r \<in> {PD_OP_READ, PD_OP_WRITE, PD_OP_CONNECT}"
      using phase_okD(2-9) [OF conn_okD(4) [OF ok]] by (cases "ce_state c") auto
    then show ?thesis
      using read_final_ok [OF assms fin] write_final_ok [OF assms fin] connect_final_ok [OF assms fin] by blast
  qed
qed

lemma step_decE: "step_dec n m x \<Longrightarrow> \<exists>n m'. x = Ret m' \<and> conn_step n m m' \<and> weight_at n m' < weight_at n m"
  unfolding step_dec_def by blast

lemma inner_step_ok:
  assumes "client_inv m" "inner_step m x"
  shows "\<exists>n m'. x = Ret m' \<and> conn_step n m m' \<and> weight_at n m' < weight_at n m"
  using assms(2)
proof (cases rule: inner_step.cases)
  case (handle n c i u y)
  then show ?thesis using step_decE [OF handle_result_ok [OF assms(1), of n c i u y]] by blast
next
  case (return n c i)
  then show ?thesis using step_decE [OF after_step_ok [OF assms(1), of n c i]] by blast
next
  case (ended n c st err)
  then have "st \<noteq> PR_ST_SUCCESS" "st \<noteq> PR_ST_MODIFIED" by auto
  then show ?thesis using node_end_ok [OF assms(1) ended(2,3)] ended(1) unfolding step_dec_def by blast
qed

lemma request_acc:
  assumes "request_ok s t b m m'"
  shows "acc_ok (if b then [(s, t)] else []) m m'"
proof -
  have "tally P Q m' = tally P Q m + length (filter f (if b then [(s, t)] else []))" if c: "counts P Q" "fits P f" for P Q f
  proof -
    have "\<forall>c. ce_session c = s \<and> ce_target c = t \<longrightarrow> P c = f (s, t)" using c(2) by (auto simp: fits_def)
    then have "tally P Q m' = tally P Q m + of_bool (b \<and> f (s, t))"
      using assms c(1) unfolding request_ok_def by blast
    then show ?thesis by simp
  qed
  then show ?thesis using assms unfolding acc_ok_def request_ok_def by blast
qed

lemma client_step_ok:
  assumes "client_inv m" "client_step m x acc"
  shows "\<exists>m'. x = Ret m' \<and> acc_ok acc m m'"
  using assms(2)
proof (cases rule: client_step.cases)
  case inner
  then show ?thesis using inner_step_ok [OF assms(1)] conn_step_acc [OF assms(1)] by blast
next
  case (read n c nd u y new ret)
  then show ?thesis using step_ret_acc [OF assms(1) read_data_ok [OF assms(1)]] by blast
next
  case (written n c nd y)
  then show ?thesis using step_ret_acc [OF assms(1) partial_written_ok [OF assms(1)]] by blast
next
  case stop
  have "client_inv (m\<lparr>cm_stop_flag := True\<rparr>)" by (rule client_inv_eq [OF assms(1)]) simp_all
  then show ?thesis using stop by (simp add: acc_ok_def tally_def owed_def owing_def)
next
  case (request t s)
  have "request_ok s t False m (request_begin s t m)" by (rule request_ok_same [OF assms(1)]) (simp_all add: request_begin_def)
  then show ?thesis using request_acc [of s t False] request(1,2) by auto
next
  case (failed s)
  have "request_ok s t False m (request_failed s m)" for t by (rule request_ok_same [OF assms(1)]) (simp_all add: request_failed_def)
  then show ?thesis using request_acc [of s undefined False] failed by auto
next
  case (idle t u y s p m')
  then obtain r where "cm_target m t = Some r" by blast
  then have "request_ok s t (p = IdleTaken) m m'"
    using idle_region_ok [OF assms(1), of t r u y s] idle(4) by auto
  then show ?thesis using request_acc idle(1,2) by auto
next
  case (idle_lost t u y s)
  then obtain r where "cm_target m t = Some r" by blast
  then show ?thesis using idle_region_ok [OF assms(1), of t r u y s] idle_lost by auto
next
  case (connect t l y s b m')
  then obtain r where "cm_target m t = Some r" by blast
  then have "request_ok s t b m m'"
    using request_new_ok [OF assms(1), of t r l y s] connect(4,5) by auto
  then show ?thesis using request_acc connect(1,2) by auto
next
  case (connect_lost t l y s)
  then obtain r where "cm_target m t = Some r" by blast
  then show ?thesis using request_new_ok [OF assms(1), of t r l y s] connect_lost by auto
qed

lemma client_start_inv: "client_start m \<Longrightarrow> client_inv m \<and> (\<forall>P Q. tally P Q m = 0)"
  by (auto simp: client_start_def client_inv_def tally_def owed_def owing_def)

lemma client_reach_inv:
  assumes "client_reach m reqs"
  shows "client_inv m \<and> (\<forall>P Q f. counts P Q \<and> fits P f \<longrightarrow> tally P Q m = length (filter f reqs))"
  using assms
proof induction
  case (start m)
  then show ?case using client_start_inv by simp
next
  case (step m reqs m' acc)
  then have a: "acc_ok acc m m'" using client_step_ok by fastforce
  have "tally P Q m' = length (filter f (reqs @ acc))" if c: "counts P Q" "fits P f" for P Q f
  proof -
    have "tally P Q m' = tally P Q m + length (filter f acc)" using a c unfolding acc_ok_def by blast
    moreover have "tally P Q m = length (filter f reqs)" using step.IH c by blast
    ultimately show ?thesis by simp
  qed
  then show ?case using a unfolding acc_ok_def by blast
qed

text \<open>The whole of \<open>request\<close>, when no other thread comes between, is a run of these steps.\<close>

lemma request_idle_reach:
  assumes "client_reach m reqs" "cm_target m t \<noteq> None"
  shows "\<exists>b m'. request_idle_conn u y s t m = Ret (b, m') \<and> client_reach m' (reqs @ (if b then [(s, t)] else []))
    \<and> cm_target m' t \<noteq> None \<and> (\<forall>n. cm_conn m' n = None \<longleftrightarrow> cm_conn m n = None)"
  using assms
proof (induction u y s t m rule: request_idle_conn.induct)
  case (1 u y s t m)
  have inv: "client_inv m" by (rule client_reach_inv [OF "1.prems"(1), THEN conjunct1])
  obtain r where r: "cm_target m t = Some r" using "1.prems"(2) by blast
  obtain p m1 where p: "idle_region u y s t m = Ret (p, m1)" "request_ok s t (p = IdleTaken) m m1" "\<And>n. cm_conn m1 n = None \<longleftrightarrow> cm_conn m n = None"
    using idle_region_ok [OF inv r] by blast
  have t1: "cm_target m1 t \<noteq> None" using p(2) "1.prems"(2) by (simp add: request_ok_def)
  have st: "client_reach m1 (reqs @ (if p = IdleTaken then [(s, t)] else []))"
    by (rule client_reach.step [OF "1.prems"(1) client_step.idle [OF "1.prems"(2) p(1)]])
  show ?case
  proof (cases "p = IdleClosed")
    case True
    then have "request_idle_conn u y s t m = request_idle_conn u y s t m1" using p(1) by (subst request_idle_conn.simps) simp
    moreover have "client_reach m1 reqs" using st True by simp
    ultimately show ?thesis using "1.IH" [OF p(1) refl True _ t1] p(3) by simp
  next
    case False
    then have "request_idle_conn u y s t m = Ret (p = IdleTaken, m1)" using p(1) by (subst request_idle_conn.simps) simp
    then show ?thesis using st t1 p(3) by simp
  qed
qed

lemma comm_request_reach:
  assumes "client_reach m reqs" "cm_target m t \<noteq> None" "cm_conn m (la_entry l) = None"
  shows "\<exists>e m'. comm_request u y l s t m = Ret (e, m') \<and> client_reach m' (reqs @ (if e = None then [(s, t)] else []))"
proof (cases "se_passive (cm_session m s) = 0")
  case False
  then show ?thesis using assms(1) by (simp add: comm_request_def)
next
  case True
  let ?m0 = "request_begin s t m"
  have m0: "client_reach ?m0 reqs" "cm_target ?m0 t \<noteq> None" "cm_conn ?m0 = cm_conn m"
    using client_reach.step [OF assms(1) client_step.request [OF assms(2) True]] assms(2) by (simp_all add: request_begin_def)
  obtain b m1 where q: "request_idle_conn u y s t ?m0 = Ret (b, m1)" "client_reach m1 (reqs @ (if b then [(s, t)] else []))"
      "cm_target m1 t \<noteq> None" "\<And>n. cm_conn m1 n = None \<longleftrightarrow> cm_conn m n = None"
    using request_idle_reach [OF m0(1,2)] m0(3) by metis
  note e = comm_request_def [of u y l s t m, unfolded q(1) andthen_def outcome.case prod.case]
  show ?thesis
  proof (cases b)
    case t: True
    then show ?thesis using e True q(2) by simp
  next
    case False
    have m1: "client_reach m1 reqs" "cm_conn m1 (la_entry l) = None" using q(2,4) False assms(3) by simp_all
    have inv: "client_inv m1" by (rule client_reach_inv [OF m1(1), THEN conjunct1])
    obtain r where "cm_target m1 t = Some r" using q(3) by blast
    then obtain b2 m2 where n: "request_new_conn y l s t m1 = Ret (b2, m2)" using request_new_ok [OF inv _ m1(2)] by blast
    have m2: "client_reach m2 (reqs @ (if b2 then [(s, t)] else []))"
      by (rule client_reach.step [OF m1(1) client_step.connect [OF q(3) m1(2) n]])
    have "client_reach (request_failed s m2) reqs" if "\<not> b2"
      using client_reach.step [OF m2 client_step.failed [of _ s]] that by simp
    then show ?thesis using e True False n m2 by (cases b2) simp_all
  qed
qed

lemma owed_session: "owed (\<lambda>c. ce_session c = s) m = waiting_sessions s m"
  unfolding owed_def owing_def waiting_sessions_def opt_holds_def by (rule arg_cong [of _ _ card]) (auto split: option.splits)

lemma owed_target: "owed (\<lambda>c. ce_target c = t) m = waiting_targets t m"
  unfolding owed_def owing_def waiting_targets_def opt_holds_def by (rule arg_cong [of _ _ card]) (auto split: option.splits)

section \<open>The work ends\<close>

definition work :: "comm \<Rightarrow> nat" where
  "work m = (\<Sum>n\<in>dom (cm_conn m). weight_at n m)"

lemma conn_step_work:
  assumes "client_inv m" "conn_step n m m'" "weight_at n m' < weight_at n m"
  shows "work m' < work m"
proof -
  obtain c co' where u: "cm_conn m n = Some c" "cm_conn m' = (cm_conn m)(n := co')"
    using assms(2) by (auto simp: conn_step_def conn_upd_def)
  let ?A = "dom (cm_conn m) - {n}"
  have fin: "finite (dom (cm_conn m))" by (rule client_invD(1) [OF assms(1)])
  have same: "(\<Sum>k\<in>?A. weight_at k m') = (\<Sum>k\<in>?A. weight_at k m)"
    by (rule sum.cong) (simp_all add: weight_at_def u(2))
  have "work m = weight_at n m + (\<Sum>k\<in>?A. weight_at k m)"
    unfolding work_def using u(1) by (intro sum.remove [OF fin]) auto
  moreover have "work m' = weight_at n m' + (\<Sum>k\<in>?A. weight_at k m')"
  proof (cases co')
    case None
    then have "dom (cm_conn m') = ?A" "weight_at n m' = 0" using u(2) by (auto simp: weight_at_def)
    then show ?thesis by (simp add: work_def)
  next
    case (Some c')
    then have "dom (cm_conn m') = insert n ?A" using u(2) by (simp add: dom_fun_upd insert_Diff_single)
    then show ?thesis unfolding work_def using sum.insert [of ?A n "\<lambda>k. weight_at k m'"] fin by simp
  qed
  ultimately show ?thesis using same assms(3) by simp
qed

text \<open>As long as there is an entry, a step is left.\<close>

lemma inner_progress:
  assumes "client_inv m" "cm_conn m n = Some c"
  shows "\<exists>x. inner_step m x"
proof -
  note d = conn_okD [OF client_invD(2) [OF assms]]
  have "token c \<noteq> None \<or> success c \<or> ce_after c \<noteq> []"
    using d(5,6) by (auto simp: refs_of_def split: if_splits)
  moreover have "ce_node c \<noteq> None \<or> ce_results c \<noteq> []" if "token c \<noteq> None \<or> success c"
    using that by (auto simp: token_def tokens_def success_def split: option.splits)
  ultimately consider "ce_node c \<noteq> None" | "0 < length (ce_results c)" | "0 < length (ce_after c)" by auto
  then show ?thesis
  proof cases
    case 1
    then have "inner_step m (node_end PR_ST_STOPPED None n m)" by (intro inner_step.ended [OF assms(2)]) simp_all
    then show ?thesis by blast
  next
    case 2
    have "inner_step m (handle_result undefined undefined n 0 m)" by (rule inner_step.handle [OF assms(2) 2])
    then show ?thesis by blast
  next
    case 3
    have "inner_step m (after_step n 0 m)" by (rule inner_step.return [OF assms(2) 3])
    then show ?thesis by blast
  qed
qed

text \<open>Runs of the communicator by itself, with their length.\<close>

inductive inner_run :: "nat \<Rightarrow> comm \<Rightarrow> comm \<Rightarrow> bool" where
  refl: "inner_run 0 m m"
| step: "inner_step m (Ret m') \<Longrightarrow> inner_run k m' m'' \<Longrightarrow> inner_run (Suc k) m m''"

lemma inner_run_work:
  assumes "inner_run k m m'" "client_inv m"
  shows "k + work m' \<le> work m \<and> client_inv m'"
  using assms
proof induction
  case (step m m1 k m2)
  obtain n where n: "conn_step n m m1" "weight_at n m1 < weight_at n m"
    using inner_step_ok [OF step.prems step.hyps(1)] by auto
  have "client_inv m1" by (rule conn_step_inv [OF step.prems n(1)])
  then show ?case using step.IH conn_step_work [OF step.prems n] by simp
qed simp

lemma inner_run_reach: "inner_run k m m' \<Longrightarrow> client_reach m reqs \<Longrightarrow> client_reach m' reqs"
proof (induction rule: inner_run.induct)
  case (step m m1 k m2)
  have "client_reach m1 (reqs @ [])"
    by (rule client_reach.step [OF step.prems client_step.inner [OF step.hyps(1)]])
  then show ?case using step.IH by simp
qed

lemma inner_run_ends:
  assumes "client_inv m"
  shows "\<exists>k m'. inner_run k m m' \<and> cm_conn m' = (\<lambda>n. None)"
  using assms
proof (induction "work m" arbitrary: m rule: less_induct)
  case less
  show ?case
  proof (cases "cm_conn m = (\<lambda>n. None)")
    case True
    then show ?thesis using inner_run.refl by blast
  next
    case False
    then obtain n c where "cm_conn m n = Some c" by (metis option.exhaust ext)
    then obtain x where x: "inner_step m x" using inner_progress [OF less.prems] by blast
    then obtain n' m1 where m1: "x = Ret m1" "conn_step n' m m1" "weight_at n' m1 < weight_at n' m"
      using inner_step_ok [OF less.prems] by blast
    have "client_inv m1" by (rule conn_step_inv [OF less.prems m1(2)])
    then obtain k m2 where "inner_run k m1 m2" "cm_conn m2 = (\<lambda>n. None)"
      using less.hyps [OF conn_step_work [OF less.prems m1(2,3)]] by blast
    then show ?thesis using inner_run.step x m1(1) by blast
  qed
qed

section \<open>What a client may rely on\<close>

lemma client_tallies:
  assumes "client_reach m reqs"
  shows "handled s m + waiting_sessions s m = length (filter (\<lambda>(s', t'). s' = s) reqs)"
    "released t m + waiting_targets t m = length (filter (\<lambda>(s', t'). t' = t) reqs)"
proof -
  have f: "fits (\<lambda>c. ce_session c = s) (\<lambda>(s', t'). s' = s)" "fits (\<lambda>c. ce_target c = t) (\<lambda>(s', t'). t' = t)" by (simp_all add: fits_def)
  note r = client_reach_inv [OF assms, THEN conjunct2, rule_format]
  show "handled s m + waiting_sessions s m = length (filter (\<lambda>(s', t'). s' = s) reqs)"
    using r [OF conjI [OF counts_session [of s] f(1)]] unfolding tally_def owed_session handled_def .
  show "released t m + waiting_targets t m = length (filter (\<lambda>(s', t'). t' = t) reqs)"
    using r [OF conjI [OF counts_target [of t] f(2)]] unfolding tally_def owed_target released_def .
qed

end
