(* ===== verification/CommClientProps.thy ===== *)
theory CommClientProps
  imports CommClientReach
begin

text \<open>What is proved of the connections of clients, with a run of one request.\<close>

section \<open>A run of one request\<close>

definition demo_user :: user_answers where
  "demo_user = \<lparr>ua_message_out = True, ua_encode = Some [\<lparr>iov_base = 100, iov_len = 2\<rparr>], ua_message_in = True, ua_send_timeout = -1,
     ua_receive_timeout = 9, ua_keep_alive_timeout = 60, ua_first_timeout = 0\<rparr>"

definition demo_sys :: sys_answers where
  "demo_sys = \<lparr>sa_writes = [WROTE 2], sa_malloc = True, sa_add = True, sa_mod = True, sa_now = \<lparr>tv_sec = 0, tv_nsec = 0\<rparr>, sa_errno = CE_SYS 5\<rparr>"

definition demo_launch :: launch_answers where
  "demo_launch = \<lparr>la_socket = Some 4, la_nonblock = True, la_connect = True, la_malloc = True, la_mutex = 0, la_connection = True, la_entry = 3\<rparr>"

definition demo_comm :: comm where
  "demo_comm = \<lparr>cm_conn = \<lambda>n. None,
     cm_session = \<lambda>s. \<lparr>se_target = 0, se_conn = None, se_out = False, se_in = None, se_seq = 0, se_begin_time = \<lparr>tv_sec = 0, tv_nsec = 0\<rparr>,
       se_timeout = 0, se_passive = 0\<rparr>,
     cm_target = (\<lambda>t. None)(2 \<mapsto> \<lparr>ta_addr = [], ta_connect_timeout = 5, ta_response_timeout = 7, ta_idle_list = [], ta_sockfd = 0, ta_ref = 0, ta_service = 0\<rparr>),
     cm_service = \<lambda>v. \<lparr>sv_bind_addr = [], sv_listen_timeout = 0, sv_response_timeout = 0, sv_listen_fd = 0, sv_ref = 0, sv_alive_list = [], sv_node = None, sv_results = []\<rparr>,
     cm_stop_flag = False, cm_log = []\<rparr>"

text \<open>The request was accepted; then the poller has connected.\<close>

definition demo_comm1 :: comm where
  "demo_comm1 = (case comm_request demo_user demo_sys demo_launch 1 2 demo_comm of Ret (e, m) \<Rightarrow> m | UB \<Rightarrow> demo_comm)"

definition demo_comm2 :: comm where
  "demo_comm2 = (case node_end PR_ST_FINISHED None 3 demo_comm1 of Ret m \<Rightarrow> m | UB \<Rightarrow> demo_comm1)"

lemma demo_start: "client_reach demo_comm []"
  by (rule client_reach.start) (simp add: client_start_def demo_comm_def)

lemma demo_request: "client_reach demo_comm1 [(1, 2)]" "comm_request demo_user demo_sys demo_launch 1 2 demo_comm = Ret (None, demo_comm1)"
proof -
  have a: "case comm_request demo_user demo_sys demo_launch 1 2 demo_comm of Ret (e, m) \<Rightarrow> e = None | UB \<Rightarrow> False" by code_simp
  then show e: "comm_request demo_user demo_sys demo_launch 1 2 demo_comm = Ret (None, demo_comm1)"
    unfolding demo_comm1_def by (cases "comm_request demo_user demo_sys demo_launch 1 2 demo_comm") auto
  have "cm_target demo_comm 2 \<noteq> None" "cm_conn demo_comm (la_entry demo_launch) = None" by (simp_all add: demo_comm_def)
  from comm_request_reach [OF demo_start this, of demo_user demo_sys 1] show "client_reach demo_comm1 [(1, 2)]" using e by simp
qed

lemma demo_connected: "client_reach demo_comm2 [(1, 2)]" "inner_step demo_comm2 (handle_result demo_user demo_sys 3 0 demo_comm2)"
proof -
  have "case cm_conn demo_comm1 3 of Some c \<Rightarrow> ce_node c \<noteq> None | None \<Rightarrow> False" by code_simp
  then obtain c where c: "cm_conn demo_comm1 3 = Some c" "ce_node c \<noteq> None" by (cases "cm_conn demo_comm1 3") auto
  have s: "inner_step demo_comm1 (node_end PR_ST_FINISHED None 3 demo_comm1)" by (rule inner_step.ended [OF c]) simp
  have "node_end PR_ST_FINISHED None 3 demo_comm1 = Ret demo_comm2"
    unfolding demo_comm2_def using inner_step_ok [OF client_reach_inv [OF demo_request(1), THEN conjunct1] s] by auto
  then show "client_reach demo_comm2 [(1, 2)]"
    using client_reach.step [OF demo_request(1) client_step.inner] s by fastforce
  have "case cm_conn demo_comm2 3 of Some c \<Rightarrow> 0 < length (ce_results c) | None \<Rightarrow> False" by code_simp
  then show "inner_step demo_comm2 (handle_result demo_user demo_sys 3 0 demo_comm2)"
    by (cases "cm_conn demo_comm2 3") (auto intro: inner_step.handle)
qed

section \<open>Properties\<close>

text \<open>
  C5. Whatever clients request, whatever the system and the user's functions answer, and in whatever
  order the rounds of requests, the handler threads that take the results and the threads that return
  from \<open>handle\<close> go on, no operation of the communicator releases an entry that is still in use, which
  is while the poller has its socket, while a result that its handler reads the entry for was not
  taken, or while a thread after \<open>handle\<close> has not given up its reference; and none uses an entry that
  is not there any more, a target that is gone or a write buffer that was freed, or removes an entry
  from a list that it is not in.
\<close>

theorem comm_client_safe:
  assumes "client_reach m reqs" "client_step m x acc"
  shows "x \<noteq> UB"
  using client_step_ok [OF client_reach_inv [OF assms(1), THEN conjunct1] assms(2)] by blast

theorem comm_client_safe_witness: "handle_result demo_user demo_sys 3 0 demo_comm2 \<noteq> UB"
  using comm_client_safe [OF demo_connected(1) client_step.inner [OF demo_connected(2)]] .

text \<open>
  C19. Every entry of a connection that clients can reach is well-formed: its state says what is out
  for it, namely the node of its socket or the last result of it, at most one of them, and a complete
  message; it is in the idle list of its target, once, exactly when it is idle and its socket is read;
  a socket that is written has something to write; and its reference count is exactly the threads that
  are after \<open>handle\<close> and one for what is out, so it is released when nothing refers to it and not before.
\<close>

theorem comm_client_wf:
  assumes "client_reach m reqs" "cm_conn m n = Some c"
  shows "length (tokens c) \<le> 1 \<and> phase_ok (ce_state c) (token c) (success c) (ce_after c)
    \<and> ce_ref c = refs_of (token c) (success c) (ce_after c) \<and> 1 \<le> ce_ref c
    \<and> (token c = Some PD_OP_WRITE \<longrightarrow> ce_write_iov c \<noteq> None)
    \<and> (\<exists>r. cm_target m (ce_target c) = Some r \<and> distinct (ta_idle_list r)
         \<and> (n \<in> set (ta_idle_list r) \<longleftrightarrow> ce_state c = CONN_STATE_IDLE \<and> token c = Some PD_OP_READ))"
proof -
  have inv: "client_inv m" using client_reach_inv [OF assms(1)] by blast
  note d = conn_okD [OF client_invD(2) [OF inv assms(2)]]
  obtain r where r: "cm_target m (ce_target c) = Some r" using client_invD(4) [OF inv assms(2)] by blast
  have "distinct (ta_idle_list r)" "n \<in> set (ta_idle_list r) \<longleftrightarrow> idle c"
    using client_invD(5,6) [OF inv r] assms(2) by simp_all
  then show ?thesis using d(1,4-7) r unfolding idle_def by blast
qed

theorem comm_client_wf_witness:
  "\<exists>c. cm_conn demo_comm1 3 = Some c \<and> ce_state c = CONN_STATE_CONNECTING \<and> ce_ref c = refs_of (token c) (success c) (ce_after c)"
proof -
  have "case cm_conn demo_comm1 3 of Some c \<Rightarrow> ce_state c = CONN_STATE_CONNECTING | None \<Rightarrow> False" by code_simp
  then obtain c where c: "cm_conn demo_comm1 3 = Some c" "ce_state c = CONN_STATE_CONNECTING" by (cases "cm_conn demo_comm1 3") auto
  then show ?thesis using comm_client_wf [OF demo_request(1) c(1)] by blast
qed

text \<open>
  C4. Every request that a communicator accepts is answered exactly once: at any time the calls of
  \<open>handle\<close> for a session and the connections that still owe it one are together as many as the requests
  of the session that were accepted, and so are the calls of \<open>release\<close> of a target, which is what its
  scheduler counts. When no connection is left, every one was answered.
\<close>

theorem comm_client_answers:
  assumes "client_reach m reqs"
  shows "handled s m + waiting_sessions s m = length (filter (\<lambda>(s', t'). s' = s) reqs)
    \<and> released t m + waiting_targets t m = length (filter (\<lambda>(s', t'). t' = t) reqs)
    \<and> (cm_conn m = (\<lambda>n. None) \<longrightarrow> waiting_sessions s m = 0 \<and> waiting_targets t m = 0)"
  using client_tallies [OF assms] by (simp add: waiting_sessions_def waiting_targets_def)

theorem comm_client_answers_witness: "handled 1 demo_comm2 + waiting_sessions 1 demo_comm2 = 1"
  using comm_client_answers [OF demo_connected(1), of 1 2] by simp

text \<open>
  C7. When no more requests are made and the poller only ends its sockets, as it does when it stops,
  the communicator comes to rest: no run is longer than the work that is left, as long as a
  connection is left a step is possible, and some run ends with every connection released, every
  accepted request answered and every target released.
\<close>

theorem comm_client_drains:
  assumes "client_reach m reqs"
  shows "(\<forall>k m'. inner_run k m m' \<longrightarrow> k \<le> work m)
    \<and> (\<forall>k m' n. inner_run k m m' \<and> cm_conn m' n \<noteq> None \<longrightarrow> (\<exists>m''. inner_step m' (Ret m'')))
    \<and> (\<exists>k m'. inner_run k m m' \<and> cm_conn m' = (\<lambda>n. None)
        \<and> (\<forall>s. handled s m' = length (filter (\<lambda>(s', t'). s' = s) reqs)) \<and> (\<forall>t. released t m' = length (filter (\<lambda>(s', t'). t' = t) reqs)))"
proof -
  have inv: "client_inv m" using client_reach_inv [OF assms] by blast
  have "\<exists>m''. inner_step m' (Ret m'')" if g: "inner_run k m m'" "cm_conn m' n \<noteq> None" for k m' n
  proof -
    have i: "client_inv m'" using inner_run_work [OF g(1) inv] by blast
    then obtain x where x: "inner_step m' x" using inner_progress g(2) by blast
    then show ?thesis using inner_step_ok [OF i x] by blast
  qed
  moreover obtain k m' where e: "inner_run k m m'" "cm_conn m' = (\<lambda>n. None)" using inner_run_ends [OF inv] by blast
  have "waiting_sessions s m' = 0" "waiting_targets t m' = 0" for s t
    by (simp_all add: waiting_sessions_def waiting_targets_def e(2))
  then have "handled s m' = length (filter (\<lambda>(s', t'). s' = s) reqs)" "released t m' = length (filter (\<lambda>(s', t'). t' = t) reqs)" for s t
    using client_tallies [OF inner_run_reach [OF e(1) assms]] by (metis add.right_neutral)+
  moreover have "k \<le> work m" if "inner_run k m m'" for k m' using inner_run_work [OF that inv] by simp
  ultimately show ?thesis using e by blast
qed

theorem comm_client_drains_witness: "\<exists>k m'. inner_run k demo_comm2 m' \<and> handled 1 m' = 1"
  using comm_client_drains [OF demo_connected(1)] by fastforce

end
