(* ===== verification/CommInit.thy ===== *)
theory CommInit
  imports CommHandlers
begin

text \<open>
  Starting and stopping a \<open>Communicator\<close>, and the sockets that it makes. What it holds is the message
  queue of results, the pollers and the handler threads; to destroy what others still use is \<open>UB\<close>,
  and so is to wait for handler threads that wait in \<open>msgqueue_get\<close> of a blocking queue.
\<close>

section \<open>What a communicator holds\<close>

text \<open>The queue with whether it blocks no more, the pollers with whether they run, the threads' tasks.\<close>

record comm_runtime =
  rt_queue :: "bool option"
  rt_mpoller :: "bool option"
  rt_pool :: "nat option"
  rt_stop_flag :: bool

definition queue_nonblock :: "comm_runtime \<Rightarrow> comm_runtime outcome" where
  "queue_nonblock r = (if rt_queue r = None then UB else Ret (r\<lparr>rt_queue := Some True\<rparr>))"

definition queue_destroy :: "comm_runtime \<Rightarrow> comm_runtime outcome" where
  "queue_destroy r =
     (if rt_queue r = None \<or> rt_mpoller r = Some True \<or> rt_pool r \<noteq> None then UB else Ret (r\<lparr>rt_queue := None\<rparr>))"

definition pollers_stop :: "comm_runtime \<Rightarrow> comm_runtime outcome" where
  "pollers_stop r = (if rt_mpoller r = Some True then Ret (r\<lparr>rt_mpoller := Some False\<rparr>) else UB)"

definition pollers_destroy :: "comm_runtime \<Rightarrow> comm_runtime outcome" where
  "pollers_destroy r = (if rt_mpoller r = Some False then Ret (r\<lparr>rt_mpoller := None\<rparr>) else UB)"

definition threads_destroy :: "comm_runtime \<Rightarrow> comm_runtime outcome" where
  "threads_destroy r =
     (case rt_pool r of
        None \<Rightarrow> UB
      | Some k \<Rightarrow> if rt_queue r = Some True \<or> k = 0 then Ret (r\<lparr>rt_pool := None\<rparr>) else UB)"

section \<open>Starting\<close>

text \<open>The answers of the system and of the parts: which of them can be created and started.\<close>

record init_answers =
  ia_open_max :: int
  ia_queue :: bool
  ia_mpoller :: bool
  ia_start :: bool
  ia_pool :: bool
  ia_schedule :: "nat \<Rightarrow> bool"

text \<open>The loop that gives every handler thread its task, from number \<open>i\<close>.\<close>

function schedule_loop :: "(nat \<Rightarrow> bool) \<Rightarrow> nat \<Rightarrow> nat \<Rightarrow> nat" where
  "schedule_loop ok n i = (if i < n then if ok i then schedule_loop ok n (Suc i) else i else i)"
  by pat_completeness auto

termination by (relation "measure (\<lambda>(ok, n, i). n - i)") auto

declare schedule_loop.simps [simp del]

definition create_handler_threads :: "init_answers \<Rightarrow> nat \<Rightarrow> comm_runtime \<Rightarrow> (int \<times> comm_runtime) outcome" where
  "create_handler_threads a n r =
     (if ia_pool a then
        let i = schedule_loop (ia_schedule a) n 0; r1 = r\<lparr>rt_pool := Some i\<rparr>
        in if i = n then Ret (0, r1)
           else andthen (queue_nonblock r1) (\<lambda>r2. andthen (threads_destroy r2) (\<lambda>r3. Ret (-1, r3)))
      else Ret (-1, r))"

definition create_poller :: "init_answers \<Rightarrow> comm_runtime \<Rightarrow> (int \<times> comm_runtime) outcome" where
  "create_poller a r =
     (if ia_open_max a < 0 then Ret (-1, r)
      else if \<not> ia_queue a then Ret (-1, r)
      else
        let r1 = r\<lparr>rt_queue := Some False\<rparr>
        in if ia_mpoller a then
             let r2 = r1\<lparr>rt_mpoller := Some False\<rparr>
             in if ia_start a then Ret (0, r2\<lparr>rt_mpoller := Some True\<rparr>)
                else andthen (pollers_destroy r2) (\<lambda>r3. andthen (queue_destroy r3) (\<lambda>r4. Ret (-1, r4)))
           else andthen (queue_destroy r1) (\<lambda>r2. Ret (-1, r2)))"

definition comm_init :: "init_answers \<Rightarrow> nat \<Rightarrow> nat \<Rightarrow> comm_runtime \<Rightarrow> (int \<times> comm_runtime) outcome" where
  "comm_init a poller_threads handler_threads r =
     (if poller_threads = 0 then Ret (-1, r)
      else andthen (create_poller a r) (\<lambda>(ret, r1).
        if 0 \<le> ret then
          andthen (create_handler_threads a handler_threads r1) (\<lambda>(ret2, r2).
            if 0 \<le> ret2 then Ret (0, r2\<lparr>rt_stop_flag := False\<rparr>)
            else andthen (pollers_stop r2) (\<lambda>r3. andthen (pollers_destroy r3) (\<lambda>r4. andthen (queue_destroy r4) (\<lambda>r5. Ret (-1, r5)))))
        else Ret (-1, r1)))"

text \<open>\<open>increase_handler_thread\<close>: \<open>buf\<close> and \<open>inc\<close> are the success of \<open>malloc\<close> and \<open>thrdpool_increase\<close>.\<close>

definition increase_handler_thread :: "bool \<Rightarrow> bool \<Rightarrow> comm_runtime \<Rightarrow> int \<times> comm_runtime" where
  "increase_handler_thread buf inc r =
     (if buf \<and> inc then (0, r\<lparr>rt_pool := map_option Suc (rt_pool r)\<rparr>) else (-1, r))"

definition comm_deinit :: "comm_runtime \<Rightarrow> comm_runtime outcome" where
  "comm_deinit r =
     andthen (pollers_stop (r\<lparr>rt_stop_flag := True\<rparr>)) (\<lambda>r1. andthen (queue_nonblock r1) (\<lambda>r2.
       andthen (threads_destroy r2) (\<lambda>r3. andthen (pollers_destroy r3) queue_destroy)))"

section \<open>Listening sockets\<close>

definition set_fd_nonblock :: "int \<Rightarrow> int \<Rightarrow> int" where
  "set_fd_nonblock getfl setfl = (if 0 \<le> getfl then setfl else getfl)"

text \<open>The loop over the bytes of the socket's name from its end: where the last byte is that is not 0.\<close>

fun scan_name :: "nat list \<Rightarrow> nat \<Rightarrow> nat" where
  "scan_name bs 0 = 0"
| "scan_name bs (Suc len) = (if bs ! len \<noteq> 0 then len else scan_name bs len)"

text \<open>
  \<open>__bind_and_listen\<close>: \<open>nm\<close> are the bytes of \<open>getsockname\<close>, whose first two are the family; \<open>b\<close> and \<open>l\<close>
  the results of \<open>bind\<close> and \<open>listen\<close>. The second component says whether \<open>bind\<close> was called.
\<close>

definition bind_and_listen :: "nat list option \<Rightarrow> int \<Rightarrow> int \<Rightarrow> int \<times> bool" where
  "bind_and_listen nm b l =
     (case nm of
        None \<Rightarrow> (-1, False)
      | Some bs \<Rightarrow>
          if scan_name (bs[0 := 0, 1 := 0]) (length bs) = 0
          then (if b < 0 then -1 else l, True) else (l, False))"

text \<open>\<open>nonblock_listen\<close>: the socket, and the one that was closed.\<close>

definition nonblock_listen :: "int option \<Rightarrow> int \<Rightarrow> int \<Rightarrow> nat list option \<Rightarrow> int \<Rightarrow> int \<Rightarrow> int option \<times> int option" where
  "nonblock_listen sock getfl setfl nm b l =
     (case sock of
        None \<Rightarrow> (None, None)
      | Some fd \<Rightarrow> if 0 \<le> set_fd_nonblock getfl setfl \<and> 0 \<le> fst (bind_and_listen nm b l) then (Some fd, None) else (None, Some fd))"

section \<open>What is proved of them\<close>

lemma schedule_loop_all: "i \<le> n \<Longrightarrow> schedule_loop ok n i = n \<longleftrightarrow> (\<forall>j. i \<le> j \<and> j < n \<longrightarrow> ok j)"
proof (induction ok n i rule: schedule_loop.induct)
  case (1 ok n i)
  show ?case
  proof (cases "i < n \<and> ok i")
    case True
    have "schedule_loop ok n i = schedule_loop ok n (Suc i)" using True by (subst schedule_loop.simps) simp
    moreover have "(\<forall>j. i \<le> j \<and> j < n \<longrightarrow> ok j) \<longleftrightarrow> (\<forall>j. Suc i \<le> j \<and> j < n \<longrightarrow> ok j)"
      using True by (metis Suc_leI Suc_leD le_neq_implies_less)
    ultimately show ?thesis using "1.IH" True by simp
  next
    case False
    then have "schedule_loop ok n i = i" by (subst schedule_loop.simps) auto
    then show ?thesis using 1(2) False by auto
  qed
qed

text \<open>
  C20. \<open>Communicator::init\<close> is all or nothing: when every part can be had and every handler thread gets
  its task, it returns 0 and holds a blocking queue, running pollers and one task per handler thread;
  otherwise it returns -1 and holds nothing, and on no path it destroys a part that another one uses or
  waits for a thread that will not end. \<open>deinit\<close> then gives everything back, after any number of
  handler threads was added.
\<close>

theorem comm_init_all_or_nothing:
  assumes "rt_queue r = None" "rt_mpoller r = None" "rt_pool r = None"
  shows "(if 0 < p \<and> 0 \<le> ia_open_max a \<and> ia_queue a \<and> ia_mpoller a \<and> ia_start a \<and> ia_pool a \<and> (\<forall>i<n. ia_schedule a i)
      then \<exists>r'. comm_init a p n r = Ret (0, r') \<and> rt_queue r' = Some False \<and> rt_mpoller r' = Some True \<and> rt_pool r' = Some n \<and> \<not> rt_stop_flag r'
         \<and> (\<forall>k. comm_deinit (((\<lambda>q. snd (increase_handler_thread True True q)) ^^ k) r')
               = Ret \<lparr>rt_queue = None, rt_mpoller = None, rt_pool = None, rt_stop_flag = True\<rparr>)
      else comm_init a p n r = Ret (-1, r))"
proof (cases "0 < p \<and> 0 \<le> ia_open_max a \<and> ia_queue a \<and> ia_mpoller a \<and> ia_start a \<and> ia_pool a")
  case True
  have l: "schedule_loop (ia_schedule a) n 0 = n \<longleftrightarrow> (\<forall>i<n. ia_schedule a i)" using schedule_loop_all [of 0 n] by simp
  have k: "(\<lambda>q. snd (increase_handler_thread True True q)) ^^ k = (\<lambda>q. q\<lparr>rt_pool := map_option (\<lambda>i. i + k) (rt_pool q)\<rparr>)" for k
    by (induction k) (auto simp: increase_handler_thread_def option.map_comp comp_def fun_eq_iff option.map_ident)
  show ?thesis
  proof (cases "\<forall>i<n. ia_schedule a i")
    case t: True
    let ?r = "r\<lparr>rt_queue := Some False, rt_mpoller := Some True, rt_pool := Some n, rt_stop_flag := False\<rparr>"
    have "comm_init a p n r = Ret (0, ?r)"
      using True t l by (simp add: comm_init_def create_poller_def create_handler_threads_def andthen_def Let_def)
    moreover have "comm_deinit (((\<lambda>q. snd (increase_handler_thread True True q)) ^^ k) ?r)
               = Ret \<lparr>rt_queue = None, rt_mpoller = None, rt_pool = None, rt_stop_flag = True\<rparr>" for k
      unfolding k by (simp add: comm_deinit_def pollers_stop_def queue_nonblock_def threads_destroy_def pollers_destroy_def queue_destroy_def andthen_def)
    ultimately show ?thesis using True t by simp
  next
    case False
    have "r\<lparr>rt_pool := None, rt_mpoller := None, rt_queue := None\<rparr> = r" using assms by simp
    moreover have "schedule_loop (ia_schedule a) n 0 \<noteq> n" using l False by blast
    ultimately have "comm_init a p n r = Ret (-1, r)"
      using True
      by (simp add: comm_init_def create_poller_def create_handler_threads_def andthen_def Let_def queue_nonblock_def
          threads_destroy_def pollers_stop_def pollers_destroy_def queue_destroy_def)
    then show ?thesis using False by simp
  qed
next
  case False
  have "r\<lparr>rt_queue := None\<rparr> = r" "r\<lparr>rt_queue := None, rt_mpoller := None\<rparr> = r" "r\<lparr>rt_queue := None, rt_mpoller := None, rt_pool := None\<rparr> = r" using assms by simp_all
  then show ?thesis
    using False assms
    by (auto simp: comm_init_def create_poller_def create_handler_threads_def andthen_def Let_def
        pollers_stop_def pollers_destroy_def queue_destroy_def)
qed

theorem comm_init_all_or_nothing_witness:
  "comm_init \<lparr>ia_open_max = 1024, ia_queue = True, ia_mpoller = True, ia_start = True, ia_pool = True, ia_schedule = \<lambda>i. i < 2\<rparr> 4 3
     \<lparr>rt_queue = None, rt_mpoller = None, rt_pool = None, rt_stop_flag = False\<rparr> = Ret (-1, \<lparr>rt_queue = None, rt_mpoller = None, rt_pool = None, rt_stop_flag = False\<rparr>)"
proof -
  have n: "\<not> (\<forall>i<3. i < (2::nat))" by (auto intro: exI [of _ 2])
  show ?thesis
    using comm_init_all_or_nothing [of "\<lparr>rt_queue = None, rt_mpoller = None, rt_pool = None, rt_stop_flag = False\<rparr>" 4
      "\<lparr>ia_open_max = 1024, ia_queue = True, ia_mpoller = True, ia_start = True, ia_pool = True, ia_schedule = \<lambda>i. i < 2\<rparr>" 3] n by simp
qed

text \<open>A socket is bound only when the system has not given it an address yet.\<close>

lemma scan_name_zero: "scan_name bs len = 0 \<longleftrightarrow> (\<forall>i. 0 < i \<and> i < len \<longrightarrow> bs ! i = 0)"
proof (induction len)
  case (Suc len)
  then show ?case by (cases "len = 0") (auto simp: less_Suc_eq)
qed simp

lemma bind_only_unnamed:
  "snd (bind_and_listen (Some bs) b l) \<longleftrightarrow> (\<forall>i. 2 \<le> i \<and> i < length bs \<longrightarrow> bs ! i = 0)"
proof -
  have "(bs[0 := 0, 1 := 0]) ! i = (if i < 2 then 0 else bs ! i)" if "i < length bs" for i
    using that by (cases "i = 0"; cases "i = 1") auto
  then have "scan_name (bs[0 := 0, 1 := 0]) (length bs) = 0 \<longleftrightarrow> (\<forall>i. 2 \<le> i \<and> i < length bs \<longrightarrow> bs ! i = 0)"
    unfolding scan_name_zero by (metis Suc_1 Suc_leI Suc_lessD lessI not_less_eq_eq not_le one_less_numeral_iff zero_less_Suc zero_less_iff_neq_zero)
  then show ?thesis by (simp add: bind_and_listen_def)
qed

end
