(* ===== verification/CommProps.thy ===== *)
theory CommProps
  imports CommInit CommClientProps PollerIOProps
begin

text \<open>Time limits, sending, and services.\<close>

section \<open>Time limits\<close>










section \<open>Sending\<close>

lemma sync_loop_ok:
  assumes "answers_ok False (as @ [W_AGAIN]) vs"
  shows "\<exists>k vs' e. write_loop False (as @ [W_AGAIN]) count vs = Some (count + k, vs', e) \<and> k \<le> length (iov_bytes vs)
    \<and> iov_bytes vs' = drop k (iov_bytes vs) \<and> (vs' = [] \<longrightarrow> e = None \<and> k = length (iov_bytes vs))"
  using assms
proof (induction as arbitrary: count vs)
  case Nil
  then show ?case by (cases vs) (auto intro: exI [of _ 0])
next
  case (Cons a as)
  show ?case
  proof (cases vs)
    case Nil
    then show ?thesis by simp
  next
    case vs: (Cons v ws)
    show ?thesis
    proof (cases a)
      case (WROTE j)
      have a: "j \<le> length (offered False vs)" "answers_ok False (as @ [W_AGAIN]) (iov_advance j vs)"
        using Cons.prems vs WROTE by (simp_all del: iov_advance.simps)
      have le: "j \<le> length (iov_bytes vs)" using a(1) offered_prefix [of False vs] by linarith
      obtain k vs' e where k: "write_loop False (as @ [W_AGAIN]) (count + j) (iov_advance j vs) = Some (count + j + k, vs', e)"
        "k \<le> length (iov_bytes (iov_advance j vs))" "iov_bytes vs' = drop k (iov_bytes (iov_advance j vs))"
        "vs' = [] \<longrightarrow> e = None \<and> k = length (iov_bytes (iov_advance j vs))"
        using Cons.IH [OF a(2)] by blast
      have "write_loop False ((a # as) @ [W_AGAIN]) count vs = Some (count + (j + k), vs', e)"
        using k(1) vs WROTE by (simp add: add.assoc del: iov_advance.simps)
      moreover have "j + k \<le> length (iov_bytes vs)" "iov_bytes vs' = drop (j + k) (iov_bytes vs)"
        "vs' = [] \<longrightarrow> e = None \<and> j + k = length (iov_bytes vs)"
        using k(2-4) le unfolding iov_advance_bytes length_drop drop_drop by (auto simp: add.commute)
      ultimately show ?thesis by blast
    qed (use vs in \<open>auto intro: exI [of _ 0]\<close>)
  qed
qed

lemma sync_writes_ok:
  assumes "answers_ok False (as @ [W_AGAIN]) vs" "sync_writes as vs = (rest, e)"
  shows "\<exists>k. k \<le> length (iov_bytes vs) \<and> iov_bytes vs = take k (iov_bytes vs) @ iov_bytes rest \<and> (rest = [] \<longrightarrow> k = length (iov_bytes vs))"
proof -
  obtain k vs' e' where k: "write_loop False (as @ [W_AGAIN]) 0 vs = Some (0 + k, vs', e')" "k \<le> length (iov_bytes vs)"
    "iov_bytes vs' = drop k (iov_bytes vs)" "vs' = [] \<longrightarrow> e' = None \<and> k = length (iov_bytes vs)"
    using sync_loop_ok [OF assms(1)] by blast
  then have "rest = vs'" using assms(2) by (simp add: sync_writes_def)
  then show ?thesis using k(2-4) by (intro exI [of _ k]) (simp add: append_take_drop_id)
qed

lemma send_async_rest:
  assumes "cm_conn m n = Some c" "send_async u y rt vs n c m = (None, M)"
  shows "\<exists>c'. cm_conn M n = Some c' \<and> (ce_write_iov c' = Some vs \<and> token c' = Some PD_OP_WRITE \<or> ce_state c = CONN_STATE_IDLE \<and> \<not> node_live c \<and> ce_state c' = CONN_STATE_RECEIVING)"
proof -
  have ml: "sa_malloc y" using assms(2) by (simp add: send_async_def split: if_splits)
  obtain k s where k: "first_timeout_send u rt (sa_now y) (cm_session m (ce_session c)) = (k, s)" by fastforce
  show ?thesis
  proof (cases "ce_state c = CONN_STATE_IDLE")
    case True
    obtain e c1 where md: "node_mod (sa_mod y) PD_OP_WRITE k c = (e, c1)" by fastforce
    show ?thesis
    proof (cases e)
      case None
      obtain nd where nd: "ce_node c1 = Some nd" "cn_op nd = PD_OP_WRITE"
        using md None by (auto simp: node_mod_def split: option.splits if_splits)
      have M: "M = set_conn n (c1\<lparr>ce_write_iov := Some vs\<rparr>) (set_session (ce_session c) s m)"
        using assms(2) ml True md None by (simp add: send_async_def k)
      have "ce_node (c1\<lparr>ce_write_iov := Some vs\<rparr>) = Some nd" by (simp add: nd)
      from token_node [OF this] show ?thesis unfolding M by (simp add: nd(2))
    next
      case (Some e')
      have x: "e' = CE_NOENT" using assms(2) ml True md Some by (simp add: send_async_def k Let_def split: if_splits)
      have nl: "\<not> node_live c" using md Some x by (simp add: node_mod_def node_live_def split: option.splits if_splits)
      have "M = set_conn n (c1\<lparr>ce_state := CONN_STATE_RECEIVING\<rparr>) (set_session (ce_session c) s m)"
        using assms(2) ml True md Some x by (simp add: send_async_def k)
      then show ?thesis using nl True by simp
    qed
  next
    case False
    obtain b c1 where ad: "node_add (sa_add y) PD_OP_WRITE k c = (b, c1)" by fastforce
    have b: "b" using assms(2) ml False ad by (cases b) (simp_all add: send_async_def k Let_def split: if_splits)
    define c2 where "c2 = c1\<lparr>ce_write_iov := Some vs\<rparr>"
    obtain nd where nd: "ce_node c1 = Some nd" "cn_op nd = PD_OP_WRITE"
      using ad b by (auto simp: node_add_def split: if_splits)
    have "ce_node c2 = Some nd" by (simp add: c2_def nd)
    then have t: "token c2 = Some PD_OP_WRITE" using token_node nd(2) by metis
    have "M = set_conn n (if cm_stop_flag m then node_del c2 else c2) (set_session (ce_session c) s m)"
      using assms(2) ml False ad b by (auto simp: send_async_def k c2_def)
    moreover have "ce_write_iov c2 = Some vs" by (simp add: c2_def)
    ultimately show ?thesis using t by simp
  qed
qed

text \<open>
  C18. Sending loses no byte and sends none twice, when \<open>writev\<close> keeps its promise: what was written at
  once and what is left to the poller are together the bytes of the encoded message in their order;
  \<open>send_message\<close> says that all was sent only if all was written, and that the rest is sent later only
  if the entry holds just the rest and its socket is to be written, or the connection was lost
  meanwhile and a handler thread will see its end. A message of more than 8192 vectors is refused.
\<close>

theorem comm_send_conserves:
  assumes "cm_conn m n = Some c" "ua_encode u = Some vs" "answers_ok False (sa_writes y @ [W_AGAIN]) vs"
    "send_message u y rt n c m = (res, M)"
  shows "(res = SentAll \<longrightarrow> write_loop False (sa_writes y @ [W_AGAIN]) 0 vs = Some (length (iov_bytes vs), [], None) \<and> length vs \<le> 8192)
    \<and> (res = SentLater \<longrightarrow> (\<exists>k rest c'. k \<le> length (iov_bytes vs) \<and> iov_bytes vs = take k (iov_bytes vs) @ iov_bytes rest \<and> rest \<noteq> []
         \<and> write_loop False (sa_writes y @ [W_AGAIN]) 0 vs = Some (k, rest, None) \<and> cm_conn M n = Some c'
         \<and> (ce_write_iov c' = Some rest \<and> token c' = Some PD_OP_WRITE
            \<or> ce_state c = CONN_STATE_IDLE \<and> \<not> node_live c \<and> ce_state c' = CONN_STATE_RECEIVING)))
    \<and> (8192 < length vs \<longrightarrow> res = SendFailed CE_OVERFLOW \<and> M = m)"
proof -
  obtain k rest err where w: "write_loop False (sa_writes y @ [W_AGAIN]) 0 vs = Some (0 + k, rest, err)" "k \<le> length (iov_bytes vs)"
    "iov_bytes rest = drop k (iov_bytes vs)" "rest = [] \<longrightarrow> err = None \<and> k = length (iov_bytes vs)"
    using sync_loop_ok [OF assms(3)] by blast
  have sw: "sync_writes (sa_writes y) vs = (rest, err)" using w(1) by (simp add: sync_writes_def)
  note e = assms(4) [unfolded send_message_def assms(2) option.case]
  have big: "res = SendFailed CE_OVERFLOW \<and> M = m" if "8192 < length vs" using e that by simp
  note e2 = e [unfolded sw prod.case]
  have all: "rest = [] \<and> err = None \<and> length vs \<le> 8192" if "res = SentAll"
    using e2 that by (auto split: if_splits option.splits prod.splits)
  have later: "rest \<noteq> [] \<and> err = None \<and> send_async u y rt rest n c m = (None, M)" if "res = SentLater"
    using e2 that by (auto split: if_splits option.splits prod.splits)
  have bs: "iov_bytes vs = take k (iov_bytes vs) @ iov_bytes rest" using w(3) by (simp add: append_take_drop_id)
  show ?thesis
  proof (intro conjI impI)
    assume a: "res = SentAll"
    then show "write_loop False (sa_writes y @ [W_AGAIN]) 0 vs = Some (length (iov_bytes vs), [], None)" "length vs \<le> 8192"
      using all w(1,4) by auto
  next
    assume a: "res = SentLater"
    note l = later [OF a]
    show "\<exists>k rest c'. k \<le> length (iov_bytes vs) \<and> iov_bytes vs = take k (iov_bytes vs) @ iov_bytes rest \<and> rest \<noteq> []
         \<and> write_loop False (sa_writes y @ [W_AGAIN]) 0 vs = Some (k, rest, None) \<and> cm_conn M n = Some c'
         \<and> (ce_write_iov c' = Some rest \<and> token c' = Some PD_OP_WRITE
            \<or> ce_state c = CONN_STATE_IDLE \<and> \<not> node_live c \<and> ce_state c' = CONN_STATE_RECEIVING)"
      using send_async_rest [OF assms(1), of u y rt rest M] l w(1,2) bs by auto
  qed (use big in simp_all)
qed

theorem comm_send_conserves_witness:
  "\<exists>c M rest c'. cm_conn demo_comm2 3 = Some c \<and> send_message demo_user (demo_sys\<lparr>sa_writes := [WROTE 1]\<rparr>) 7 3 c demo_comm2 = (SentLater, M)
     \<and> [100, 101] = [100] @ iov_bytes rest \<and> cm_conn M 3 = Some c' \<and> ce_write_iov c' = Some rest"
proof -
  have "case cm_conn demo_comm2 3 of Some c \<Rightarrow> fst (send_message demo_user (demo_sys\<lparr>sa_writes := [WROTE 1]\<rparr>) 7 3 c demo_comm2) = SentLater
      \<and> ce_state c \<noteq> CONN_STATE_IDLE | None \<Rightarrow> False" by code_simp
  then obtain c where c: "cm_conn demo_comm2 3 = Some c" "fst (send_message demo_user (demo_sys\<lparr>sa_writes := [WROTE 1]\<rparr>) 7 3 c demo_comm2) = SentLater"
    "ce_state c \<noteq> CONN_STATE_IDLE" by (cases "cm_conn demo_comm2 3") auto
  obtain M where M: "send_message demo_user (demo_sys\<lparr>sa_writes := [WROTE 1]\<rparr>) 7 3 c demo_comm2 = (SentLater, M)"
    using c(2) by (metis prod.collapse)
  have u: "ua_encode demo_user = Some [\<lparr>iov_base = 100, iov_len = 2\<rparr>]" by (simp add: demo_user_def)
  have a: "answers_ok False (sa_writes (demo_sys\<lparr>sa_writes := [WROTE 1]\<rparr>) @ [W_AGAIN]) [\<lparr>iov_base = 100, iov_len = 2\<rparr>]"
    by (simp add: offered_def iov_bytes_def)
  have w: "write_loop False (sa_writes (demo_sys\<lparr>sa_writes := [WROTE 1]\<rparr>) @ [W_AGAIN]) 0 [\<lparr>iov_base = 100, iov_len = 2\<rparr>]
      = Some (1, [\<lparr>iov_base = 101, iov_len = 1\<rparr>], None)" by simp
  have b: "iov_bytes [\<lparr>iov_base = 101, iov_len = 1\<rparr>] = [101]" by (simp add: iov_bytes_def)
  from comm_send_conserves [OF c(1) u a M] obtain c' where
    "cm_conn M 3 = Some c'" "ce_write_iov c' = Some [\<lparr>iov_base = 101, iov_len = 1\<rparr>]"
    unfolding w using c(3) by auto
  then show ?thesis using c(1) M b
    by (intro exI [of _ c] exI [of _ M] exI [of _ "[\<lparr>iov_base = 101, iov_len = 1\<rparr>]"] exI [of _ c']) simp
qed

section \<open>Services\<close>

text \<open>The entries that \<open>drain\<close> closes.\<close>

lemma drain_loop_ok:
  assumes "distinct ns" "\<forall>n\<in>set ns. cm_conn m n \<noteq> None" "0 \<le> cnt" "mx < 0 \<or> cnt \<le> mx"
  defines "k \<equiv> (if mx < 0 then length ns else min (nat (mx - cnt)) (length ns))"
  shows "\<exists>m'. drain_loop mx cnt ns m = Ret (cnt + int k, drop k ns, m')
    \<and> cm_conn m' = (\<lambda>n. if n \<in> set (take k ns) then map_option (\<lambda>c. (node_del c)\<lparr>ce_state := CONN_STATE_CLOSING\<rparr>) (cm_conn m n) else cm_conn m n)
    \<and> cm_service m' = cm_service m \<and> cm_target m' = cm_target m \<and> cm_session m' = cm_session m \<and> cm_log m' = cm_log m"
  using assms(1-4) unfolding k_def
proof (induction ns arbitrary: m cnt)
  case Nil
  then show ?case by simp
next
  case (Cons n ns)
  obtain c where c: "cm_conn m n = Some c" using Cons.prems(2) by auto
  show ?case
  proof (cases "cnt = mx")
    case True
    then show ?thesis using Cons.prems by simp
  next
    case False
    let ?c = "(node_del c)\<lparr>ce_state := CONN_STATE_CLOSING\<rparr>"
    define m1 where "m1 = set_conn n ?c m"
    have m1: "cm_conn m1 = (cm_conn m)(n \<mapsto> ?c)" "cm_service m1 = cm_service m" "cm_target m1 = cm_target m" "cm_session m1 = cm_session m" "cm_log m1 = cm_log m"
      by (simp_all add: m1_def set_conn_def)
    have e: "drain_loop mx cnt (n # ns) m = drain_loop mx (cnt + 1) ns m1" using False c by (simp add: m1_def)
    have p: "distinct ns" "\<forall>k\<in>set ns. cm_conn m1 k \<noteq> None" "0 \<le> cnt + 1" "mx < 0 \<or> cnt + 1 \<le> mx"
      using Cons.prems False by (auto simp: m1)
    define j where "j = (if mx < 0 then length ns else min (nat (mx - (cnt + 1))) (length ns))"
    have j: "(if mx < 0 then length (n # ns) else min (nat (mx - cnt)) (length (n # ns))) = Suc j"
      using Cons.prems(3,4) False by (auto simp: j_def min_def)
    have nn: "n \<notin> set (take j ns)" using Cons.prems(1) by (auto dest: in_set_takeD)
    show ?thesis
      using Cons.IH [OF p, folded j_def] nn c unfolding j e m1(2-5) by (auto simp: m1(1) fun_eq_iff)
  qed
qed

lemma node_del_dead: "\<not> node_live (node_del c)"
  by (simp add: node_live_def node_del_def split: option.split)

text \<open>
  C35. \<open>CommService::drain(max)\<close> closes the connections that wait longest: when the alive list holds
  existing entries, each once, the answer is the number of entries closed, \<open>max\<close> of them or all if
  there are fewer or \<open>max\<close> is \<open>-1\<close>; they are the first ones of the list, in the state \<open>CLOSING\<close> and
  removed from the poller; the rest of the list and every other entry is as it was, and nobody is told.
\<close>

theorem comm_drain_exact:
  assumes "distinct (sv_alive_list (cm_service m v))" "\<forall>n\<in>set (sv_alive_list (cm_service m v)). cm_conn m n \<noteq> None" "-1 \<le> mx"
  defines "ns \<equiv> sv_alive_list (cm_service m v)"
  defines "k \<equiv> (if mx = -1 then length ns else min (nat mx) (length ns))"
  shows "\<exists>m'. drain mx v m = Ret (int k, m') \<and> sv_alive_list (cm_service m' v) = drop k ns
    \<and> (\<forall>n\<in>set (take k ns). \<exists>c'. cm_conn m' n = Some c' \<and> ce_state c' = CONN_STATE_CLOSING \<and> \<not> node_live c')
    \<and> (\<forall>n. n \<notin> set (take k ns) \<longrightarrow> cm_conn m' n = cm_conn m n) \<and> (\<forall>w. w \<noteq> v \<longrightarrow> cm_service m' w = cm_service m w) \<and> cm_log m' = cm_log m"
proof -
  have k: "(if mx < 0 then length ns else min (nat (mx - 0)) (length ns)) = k" using assms(3) by (auto simp: k_def)
  have p: "mx < 0 \<or> 0 \<le> mx" by linarith
  obtain m1 where d: "drain_loop mx 0 ns m = Ret (int k, drop k ns, m1)"
    "cm_conn m1 = (\<lambda>n. if n \<in> set (take k ns) then map_option (\<lambda>c. (node_del c)\<lparr>ce_state := CONN_STATE_CLOSING\<rparr>) (cm_conn m n) else cm_conn m n)"
    "cm_service m1 = cm_service m" "cm_log m1 = cm_log m"
    using drain_loop_ok [OF assms(1,2) [folded ns_def] order_refl p] unfolding k by auto
  define m' where "m' = set_service v ((cm_service m1 v)\<lparr>sv_alive_list := drop k ns\<rparr>) m1"
  have m': "cm_conn m' = cm_conn m1" "cm_service m' = (cm_service m1)(v := (cm_service m1 v)\<lparr>sv_alive_list := drop k ns\<rparr>)" "cm_log m' = cm_log m1"
    by (simp_all add: m'_def set_service_def)
  have "drain mx v m = Ret (int k, m')" using d(1) by (simp add: drain_def andthen_def m'_def ns_def)
  moreover have "\<exists>c'. cm_conn m' n = Some c' \<and> ce_state c' = CONN_STATE_CLOSING \<and> \<not> node_live c'" if n: "n \<in> set (take k ns)" for n
  proof -
    obtain c where "cm_conn m n = Some c" using assms(2) in_set_takeD [OF n] unfolding ns_def by blast
    moreover have "node_live ((node_del c)\<lparr>ce_state := CONN_STATE_CLOSING\<rparr>) = node_live (node_del c)" by (simp add: node_live_def)
    ultimately show ?thesis using n node_del_dead by (simp add: m'(1) d(2))
  qed
  ultimately show ?thesis using m' d(2-4) by (intro exI [of _ m']) simp
qed

definition demo_alive :: comm where
  "demo_alive = demo_comm1\<lparr>cm_service := \<lambda>v. (cm_service demo_comm1 v)\<lparr>sv_alive_list := (if v = 0 then [3] else [])\<rparr>\<rparr>"

theorem comm_drain_exact_witness: "\<exists>m' c'. drain (-1) 0 demo_alive = Ret (1, m') \<and> cm_conn m' 3 = Some c' \<and> ce_state c' = CONN_STATE_CLOSING"
proof -
  have "sv_alive_list (cm_service demo_alive 0) = [3]" "cm_conn demo_alive 3 \<noteq> None" by code_simp+
  then show ?thesis using comm_drain_exact [of demo_alive 0 "-1"] by auto
qed

section \<open>A request that has no session\<close>

text \<open>
  C34. A connection that was kept alive and gets a new request, when the service's \<open>new_session\<close> gives no
  session: \<open>create_request\<close> has taken the entry out of the alive list and leaves its state \<open>KEEPALIVE\<close>,
  the poller ends the socket with an error, and the handler of that result takes the entry out of the
  list again, which it is not in any more.
\<close>

theorem create_request_stale:
  assumes "cm_conn m n = Some c" "ce_state c = CONN_STATE_KEEPALIVE" "ce_service c = Some v" "cm_target m (ce_target c) = Some r"
    "distinct (sv_alive_list (cm_service m v))" "n \<in> set (sv_alive_list (cm_service m v))"
    "ce_node c = Some nd" "cn_op nd = PD_OP_READ" "\<not> cn_removed nd" "\<not> cn_message nd" "ce_results c = []"
  shows "\<exists>m1. read_data u y None ret n m = Ret m1 \<and> handle_result u' y' n 0 m1 = UB"
proof -
  let ?m1 = "set_service v ((cm_service m v)\<lparr>sv_alive_list := remove1 n (sv_alive_list (cm_service m v))\<rparr>) m"
  let ?c = "node_fail (Some (sa_errno y)) c"
  have cr: "create_request u y None n m = Ret (Some (sa_errno y), ?m1)"
    using assms(1-4,6) by (simp add: create_request_def list_take_def andthen_def)
  have m1: "cm_conn ?m1 n = Some c" using assms(1) by (simp add: set_service_def)
  have rd: "read_data u y None ret n m = Ret (set_conn n ?c ?m1)"
    using assms(1,3,7,8,10) cr m1 by (simp add: read_data_def andthen_def)
  define R where "R = \<lparr>cr_op = PD_OP_READ, cr_state = PR_ST_ERROR, cr_error = Some (sa_errno y)\<rparr>"
  have c': "?c = c\<lparr>ce_node := None, ce_results := [R]\<rparr>"
    using assms(7-9,11) by (simp add: node_fail_def R_def)
  define c2 where "c2 = c\<lparr>ce_node := None, ce_results := []\<rparr>"
  define m2 where "m2 = set_conn n c2 (set_conn n ?c ?m1)"
  have m2: "cm_conn m2 n = Some c2" "cm_target m2 (ce_target c2) = Some r" "n \<notin> set (sv_alive_list (cm_service m2 v))"
    using assms(4,5) by (simp_all add: m2_def c2_def set_service_def set_conn_def)
  have d: "drop_nth 0 [R] = []" by (simp add: drop_nth_def)
  have R: "cr_state R = PR_ST_ERROR" "cr_op R = PD_OP_READ" by (simp_all add: R_def)
  have c2: "ce_state c2 = CONN_STATE_KEEPALIVE" "ce_service c2 = Some v" using assms(2,3) by (simp_all add: c2_def)
  have "handle_result u' y' n 0 (set_conn n ?c ?m1) = handle_read_result n R m2"
    by (simp add: handle_result_def c' d R m2_def c2_def Let_def)
  also have "\<dots> = handle_incoming_request n R m2" using m2(1) c2 R by (simp add: handle_read_result_def)
  also have "\<dots> = UB" using m2 c2 R by (simp add: handle_incoming_request_def final_state_def list_take_def andthen_def)
  finally show ?thesis using rd by blast
qed

definition demo_stale :: comm where
  "demo_stale = demo_alive\<lparr>cm_conn := (\<lambda>n. None)(3 \<mapsto> (new_conn 4 CONN_STATE_KEEPALIVE 1 2 (Some 0))\<lparr>
     ce_node := Some \<lparr>cn_op = PD_OP_READ, cn_removed = False, cn_message = False, cn_timeout = 60\<rparr>\<rparr>)\<rparr>"

theorem create_request_stale_witness: "\<exists>m1. read_data demo_user demo_sys None 0 3 demo_stale = Ret m1 \<and> handle_result demo_user demo_sys 3 0 m1 = UB"
proof -
  let ?nd = "\<lparr>cn_op = PD_OP_READ, cn_removed = False, cn_message = False, cn_timeout = 60\<rparr>"
  let ?c = "(new_conn 4 CONN_STATE_KEEPALIVE 1 2 (Some 0))\<lparr>ce_node := Some ?nd\<rparr>"
  have c: "cm_conn demo_stale 3 = Some ?c" by (simp add: demo_stale_def)
  have "cm_target demo_stale 2 \<noteq> None" by code_simp
  then obtain r where r: "cm_target demo_stale 2 = Some r" by blast
  have a: "sv_alive_list (cm_service demo_stale 0) = [3]" by code_simp
  show ?thesis
    by (rule create_request_stale [OF c, of 0 r ?nd]) (use r a in \<open>simp_all add: new_conn_def\<close>)
qed

end
