(* ===== verification/CommReply.thy ===== *)
theory CommReply
  imports CommProps
begin

text \<open>
  Replies of servers: which operations change whether a session was replied to, and that a reply is the
  last one whatever the communicator does after it.
\<close>

section \<open>The answers of an operation\<close>

definition out_all :: "('a \<Rightarrow> bool) \<Rightarrow> 'a outcome \<Rightarrow> bool" where
  "out_all P x \<longleftrightarrow> (\<forall>a. x = Ret a \<longrightarrow> P a)"

lemma out_all_simps [simp]:
  "out_all P UB"
  "out_all P (Ret a) \<longleftrightarrow> P a"
  "out_all P (andthen x f) \<longleftrightarrow> out_all (\<lambda>a. out_all P (f a)) x"
  "out_all P (with_conn n m g) \<longleftrightarrow> (\<forall>c. cm_conn m n = Some c \<longrightarrow> out_all P (g c))"
  "out_all P (with_target t m h) \<longleftrightarrow> (\<forall>r. cm_target m t = Some r \<longrightarrow> out_all P (h r))"
  by (auto simp: out_all_def andthen_def with_conn_def with_target_def split: outcome.splits option.splits)

lemma out_all_mono: "out_all P x \<Longrightarrow> (\<And>a. P a \<Longrightarrow> Q a) \<Longrightarrow> out_all Q x"
  by (simp add: out_all_def)

lemma out_all_any: "out_all (\<lambda>a. True) x"
  by (simp add: out_all_def)

lemma out_all_list_take: "(\<And>ns. P ns) \<Longrightarrow> out_all P (list_take n ns')"
  by (simp add: list_take_def)

section \<open>What keeps the mark of a session\<close>

definition marked :: "nat \<Rightarrow> int \<Rightarrow> comm \<Rightarrow> bool" where
  "marked s k m \<longleftrightarrow> se_passive (cm_session m s) = k"

lemma marked_simps [simp]:
  "marked s k (set_conn n c m) \<longleftrightarrow> marked s k m"
  "marked s k (set_target t r m) \<longleftrightarrow> marked s k m"
  "marked s k (set_service v w m) \<longleftrightarrow> marked s k m"
  "marked s k (emit e m) \<longleftrightarrow> marked s k m"
  "marked s k (m\<lparr>cm_conn := a\<rparr>) \<longleftrightarrow> marked s k m"
  "marked s k (m\<lparr>cm_target := b\<rparr>) \<longleftrightarrow> marked s k m"
  "marked s k (m\<lparr>cm_stop_flag := f\<rparr>) \<longleftrightarrow> marked s k m"
  "marked s k (set_session i x m) \<longleftrightarrow> (if i = s then se_passive x = k else marked s k m)"
  by (simp_all add: marked_def set_conn_def set_target_def set_service_def emit_def set_session_def)

lemma marked_same: "se_passive x = se_passive (cm_session m i) \<Longrightarrow> marked s k m \<Longrightarrow> marked s k (set_session i x m)"
  by (auto simp: marked_def)

lemma first_timeout_passive: "first_timeout rt now s = (k, s') \<Longrightarrow> se_passive s' = se_passive s"
  by (auto simp: first_timeout_def split: if_splits)

lemma next_timeout_passive: "next_timeout rt now s = (k, s') \<Longrightarrow> se_passive s' = se_passive s"
  by (auto simp: next_timeout_def Let_def split: if_splits)

lemma first_timeout_recv_passive: "first_timeout_recv u rt now s = (k, s') \<Longrightarrow> se_passive s' = se_passive s"
  by (auto simp: first_timeout_recv_def dest: first_timeout_passive)

lemma first_timeout_send_passive: "first_timeout_send u rt now s = (k, s') \<Longrightarrow> se_passive s' = se_passive s"
  by (auto simp: first_timeout_send_def dest: first_timeout_passive)

lemma reply_timeout_passive: "reply_timeout u rt now s = (k, s') \<Longrightarrow> se_passive s' = se_passive s"
  by (auto simp: reply_timeout_def renew_def dest: first_timeout_recv_passive split: if_splits)

lemmas timeout_passive = next_timeout_passive first_timeout_recv_passive first_timeout_send_passive reply_timeout_passive

lemma service_decref_marked [simp]: "marked s k (service_decref v m) \<longleftrightarrow> marked s k m"
  by (simp add: service_decref_def Let_def)

lemma service_incref_marked [simp]: "marked s k (service_incref v m) \<longleftrightarrow> marked s k m"
  by (simp add: service_incref_def)

lemma target_incref_marked: "marked s k m \<Longrightarrow> out_all (marked s k) (target_incref t m)"
  by (simp add: target_incref_def)

lemma target_decref_marked: "marked s k m \<Longrightarrow> out_all (marked s k) (target_decref t m)"
  by (simp add: target_decref_def Let_def)

lemma release_conn_marked: "marked s k m \<Longrightarrow> out_all (marked s k) (release_conn n m)"
  by (simp add: release_conn_def)

lemma conn_decref_marked: "marked s k m \<Longrightarrow> out_all (marked s k) (conn_decref n m)"
  by (auto simp: conn_decref_def target_decref_marked split: option.splits intro: out_all_mono [OF release_conn_marked])

lemma call_handle_marked: "marked s k m \<Longrightarrow> out_all (marked s k) (call_handle a n i st err m)"
  by (simp add: call_handle_def)

lemma end_session_marked: "marked s k m \<Longrightarrow> out_all (marked s k) (end_session a keep n st err m)"
  by (simp add: end_session_def call_handle_marked)

lemma fail_conn_marked: "marked s k m \<Longrightarrow> out_all (marked s k) (fail_conn err n m)"
  by (simp add: fail_conn_def)

lemmas part_marked = target_incref_marked target_decref_marked release_conn_marked conn_decref_marked call_handle_marked
  end_session_marked fail_conn_marked

lemma after_step_marked: "marked s k m \<Longrightarrow> out_all (marked s k) (after_step n i m)"
  by (auto simp: after_step_def Let_def part_marked split: after_handle.splits)

lemma node_end_marked: "marked s k m \<Longrightarrow> out_all (marked s k) (node_end st err n m)"
  by (auto simp: node_end_def split: option.splits)

lemma partial_written_marked: "marked s k m \<Longrightarrow> out_all (marked s k) (partial_written y n m)"
  by (auto simp: partial_written_def Let_def marked_def dest: timeout_passive split: prod.splits)

section \<open>Handlers\<close>

lemma handle_read_marked: "marked s k m \<Longrightarrow> out_all (marked s k) (handle_read_result n r m)"
  by (auto simp: handle_read_result_def handle_incoming_request_def handle_incoming_reply_def part_marked out_all_list_take
      split: option.splits prod.splits conn_state.splits)

lemma add_reply_marked: "add_reply y timeout n c m = (b, m') \<Longrightarrow> marked s k m \<Longrightarrow> marked s k m'"
  by (auto simp: add_reply_def split: prod.splits bool.splits)

lemma send_message_marked:
  assumes "send_message u y rt n c m = (r, m')" "marked s k m"
  shows "marked s k m'"
proof -
  have service: "marked s k (sent_by_service u v n c m)" for v using assms(2) by (simp add: sent_by_service_def Let_def)
  have client: "marked s k (sent_by_client u y rt n c m)"
    using assms(2) by (auto simp: sent_by_client_def marked_def dest: timeout_passive split: prod.splits)
  have async: "marked s k M" if "send_async u y rt vs n c m = (e, M)" for vs e M
    using that assms(2)
    by (auto simp: send_async_def Let_def marked_def dest: timeout_passive split: if_splits prod.splits option.splits bool.splits)
  show ?thesis
    using assms service client async unfolding send_message_def by (auto split: option.splits if_splits prod.splits)
qed

lemma handle_reply_marked: "marked s k m \<Longrightarrow> out_all (marked s k) (handle_reply_result u y n r m)"
  by (auto simp: handle_reply_result_def Let_def part_marked split: poll_state.splits prod.splits bool.splits option.splits)

lemma handle_request_marked:
  assumes "marked s k m"
  shows "out_all (marked s k) (handle_request_result u y n r m)"
proof -
  have "out_all (marked s k) (case add_reply y i n c (set_session j x m) of (True, m1) \<Rightarrow> Ret m1
      | (False, m1) \<Rightarrow> end_session AfterDecref False n CS_STATE_ERROR e m1)"
    if "reply_timeout u rt now (cm_session m j) = (i, x)" for rt now i x c j e
  proof -
    have "marked s k (set_session j x m)" using assms that by (intro marked_same) (simp_all add: timeout_passive)
    then show ?thesis using add_reply_marked by (fastforce simp: part_marked split: prod.splits bool.splits)
  qed
  then show ?thesis using assms by (auto simp: handle_request_result_def part_marked split: poll_state.splits prod.splits)
qed

lemma handle_connect_marked:
  assumes "marked s k m"
  shows "out_all (marked s k) (handle_connect_result u y n r m)"
proof -
  have rest: "out_all (marked s k) (case add_reply y i n c (set_session j x M) of (True, m1) \<Rightarrow> Ret m1
      | (False, m1) \<Rightarrow> end_session AfterRelease False n CS_STATE_ERROR e m1)"
    if "reply_timeout u rt now (cm_session M j) = (i, x)" "marked s k M" for rt now i x c j e M
  proof -
    have "marked s k (set_session j x M)" using that by (intro marked_same) (simp_all add: timeout_passive)
    then show ?thesis using add_reply_marked by (fastforce simp: part_marked split: prod.splits bool.splits)
  qed
  have out: "marked s k (set_session j ((cm_session m j)\<lparr>se_out := b\<rparr>) m)" for j b
    using assms by (intro marked_same) simp_all
  show ?thesis
    using assms send_message_marked [OF _ out] rest
    unfolding handle_connect_result_def Let_def
    by (auto simp: part_marked out split: poll_state.splits prod.splits send_result.splits simp del: marked_simps(8))
qed

lemma handle_result_marked: "marked s k m \<Longrightarrow> out_all (marked s k) (handle_result u y n i m)"
  by (auto simp: handle_result_def handle_write_result_def Let_def handle_read_marked handle_reply_marked handle_request_marked
      handle_connect_marked split: poller_op.splits option.splits)

section \<open>Callbacks of the poller\<close>

lemma create_reply_marked: "marked s k m \<Longrightarrow> out_all (\<lambda>(e, m'). marked s k m') (create_reply u y n m)"
  by (auto simp: create_reply_def Let_def marked_def)

lemma create_request_marked:
  assumes "marked s k m" "new \<noteq> Some s"
  shows "out_all (\<lambda>(e, m'). marked s k m') (create_request u y new n m)"
  using assms unfolding create_request_def
  by (auto simp: Let_def list_take_def target_incref_marked split: option.splits prod.splits intro!: out_all_mono [OF target_incref_marked])

lemma append_marked:
  "marked s k m \<Longrightarrow> out_all (marked s k) (append_request y ret n m)"
  "marked s k m \<Longrightarrow> out_all (marked s k) (append_reply u y ret n m)"
  by (auto simp: append_request_def append_reply_def Let_def marked_def dest: timeout_passive split: prod.splits if_splits)

lemma read_data_marked:
  assumes "marked s k m" "new \<noteq> Some s"
  shows "out_all (marked s k) (read_data u y new ret n m)"
proof -
  have app: "out_all (\<lambda>m2. out_all (marked s k) (with_conn n m2 (\<lambda>c2. Ret (set_conn n (g c2) m2)))) x"
    if "out_all (marked s k) x" for g x using that by (rule out_all_mono) simp
  show ?thesis
    using assms app append_marked unfolding read_data_def
    by (auto split: option.splits intro!: out_all_mono [OF create_request_marked] out_all_mono [OF create_reply_marked] out_all_mono [OF append_marked(1)] out_all_mono [OF append_marked(2)])
qed

section \<open>Requests, replies and services\<close>

lemma idle_region_marked:
  assumes "marked s k m"
  shows "out_all (\<lambda>(p, m'). marked s k m') (idle_region u y i t m)"
proof -
  have se: "marked s k (set_session i ((cm_session (set_target t r m) i)\<lparr>se_conn := a, se_seq := q, se_out := b\<rparr>) (set_conn n c (set_target t r m)))"
    for r a q b n c using assms by (intro marked_same) (simp_all add: set_target_def set_conn_def)
  show ?thesis
    using assms se send_message_marked [OF _ se] unfolding idle_region_def Let_def
    by (auto simp del: marked_simps(8) split: list.splits prod.splits send_result.splits intro!: out_all_mono [OF fail_conn_marked])
qed

lemma request_new_marked:
  assumes "marked s k m"
  shows "out_all (\<lambda>(b, m'). marked s k m') (request_new_conn y l i t m)"
proof -
  have "marked s k (set_session i ((cm_session m i)\<lparr>se_conn := a, se_seq := q\<rparr>) m)" for a q
    using assms by (intro marked_same) simp_all
  then show ?thesis
    using assms unfolding request_new_conn_def Let_def
    by (auto simp del: marked_simps(8) split: option.splits prod.splits bool.splits intro!: out_all_mono [OF release_conn_marked])
qed

lemma reply_idle_marked:
  assumes "marked s k m"
  shows "out_all (\<lambda>(res, m'). marked s k m') (reply_idle_conn u y i t m)"
proof -
  have se: "marked s k (set_session i ((cm_session m i)\<lparr>se_out := b\<rparr>) (set_target t r m))" for b r
    using assms by (intro marked_same) (simp_all add: set_target_def)
  show ?thesis
    using assms se send_message_marked [OF _ se] unfolding reply_idle_conn_def Let_def
    by (auto simp del: marked_simps(8) split: list.splits prod.splits send_result.splits intro!: out_all_mono [OF fail_conn_marked])
qed

lemma comm_reply_marked:
  assumes "marked s k m" "i \<noteq> s \<or> k = 2"
  shows "out_all (\<lambda>(e, m'). marked s k m') (comm_reply u y i m)"
proof -
  have "marked s k (set_session i ((cm_session m i)\<lparr>se_passive := 2\<rparr>) m)" using assms by auto
  then show ?thesis
    using assms(1) unfolding comm_reply_def Let_def
    by (auto split: send_result.splits option.splits intro!: out_all_mono [OF reply_idle_marked] out_all_mono [OF call_handle_marked])
qed

lemma drain_loop_marked: "marked s k m \<Longrightarrow> out_all (\<lambda>(c, ns', m'). marked s k m') (drain_loop mx cnt ns m)"
  by (induction mx cnt ns m rule: drain_loop.induct) auto

lemma drain_marked: "marked s k m \<Longrightarrow> out_all (\<lambda>(c, m'). marked s k m') (drain mx v m)"
  by (auto simp: drain_def intro!: out_all_mono [OF drain_loop_marked])

lemma shutdown_marked: "marked s k m \<Longrightarrow> out_all (marked s k) (shutdown_service v m)"
  by (auto simp: shutdown_service_def intro!: out_all_mono [OF drain_marked])

lemma session_delete_marked: "marked s k m \<Longrightarrow> out_all (marked s k) (session_delete i m)"
  by (auto simp: session_delete_def Let_def target_decref_marked split: list.splits)

lemma comm_accept_marked: "marked s k m \<Longrightarrow> out_all (marked s k) (comm_accept a x ad fd t v m)"
  by (auto simp: comm_accept_def Let_def split: prod.splits option.splits)

lemma listen_result_marked: "marked s k m \<Longrightarrow> out_all (marked s k) (handle_listen_result y l v i m)"
  by (auto simp: handle_listen_result_def Let_def target_decref_marked shutdown_marked split: poll_state.splits option.splits prod.splits bool.splits
      intro!: out_all_mono [OF release_conn_marked])

section \<open>Whatever comes after a reply\<close>

text \<open>
  Everything that the communicator does, of clients and servers, for any connection, session, target
  and service, in any order. What is excluded for a session \<open>s\<close> is that its memory is used for another
  session, which is after its destructor has run.
\<close>

inductive comm_step :: "nat \<Rightarrow> comm \<Rightarrow> comm \<Rightarrow> bool" where
  handle: "handle_result u y n i m = Ret m' \<Longrightarrow> comm_step s m m'"
| return: "after_step n i m = Ret m' \<Longrightarrow> comm_step s m m'"
| ended: "node_end st err n m = Ret m' \<Longrightarrow> comm_step s m m'"
| read: "new \<noteq> Some s \<Longrightarrow> read_data u y new ret n m = Ret m' \<Longrightarrow> comm_step s m m'"
| written: "partial_written y n m = Ret m' \<Longrightarrow> comm_step s m m'"
| request: "comm_step s m (request_begin i t m)"
| idle: "idle_region u y i t m = Ret (p, m') \<Longrightarrow> comm_step s m m'"
| connect: "request_new_conn y l i t m = Ret (b, m') \<Longrightarrow> comm_step s m m'"
| failed: "comm_step s m (request_failed i m)"
| reply: "comm_reply u y i m = Ret (err, m') \<Longrightarrow> comm_step s m m'"
| delete: "session_delete i m = Ret m' \<Longrightarrow> comm_step s m m'"
| bind: "comm_bind y fd v m = (err, m') \<Longrightarrow> comm_step s m m'"
| unbind: "comm_unbind v m = Ret m' \<Longrightarrow> comm_step s m m'"
| drain: "drain mx v m = Ret (cnt, m') \<Longrightarrow> comm_step s m m'"
| shutdown: "shutdown_service v m = Ret m' \<Longrightarrow> comm_step s m m'"
| accept: "comm_accept a x ad fd t v m = Ret m' \<Longrightarrow> comm_step s m m'"
| listen_end: "comm_step s m (listen_end st err v m)"
| listen: "handle_listen_result y l v i m = Ret m' \<Longrightarrow> comm_step s m m'"
| stop: "comm_step s m (m\<lparr>cm_stop_flag := True\<rparr>)"

inductive comm_steps :: "nat \<Rightarrow> comm \<Rightarrow> comm \<Rightarrow> bool" for s where
  refl: "comm_steps s m m"
| step: "comm_steps s m m' \<Longrightarrow> comm_step s m' m'' \<Longrightarrow> comm_steps s m m''"

lemma comm_step_replied:
  assumes "comm_step s m m'" "marked s 2 m"
  shows "marked s 2 m'"
  using assms
proof (cases rule: comm_step.cases)
  case (handle u y n i)
  then show ?thesis using handle_result_marked [OF assms(2), of u y n i] by simp
next
  case (return n i)
  then show ?thesis using after_step_marked [OF assms(2), of n i] by simp
next
  case (ended st err n)
  then show ?thesis using node_end_marked [OF assms(2), of st err n] by simp
next
  case (read new u y ret n)
  then show ?thesis using read_data_marked [OF assms(2) read(1), of u y ret n] by simp
next
  case (written y n)
  then show ?thesis using partial_written_marked [OF assms(2), of y n] by simp
next
  case (request i t)
  then show ?thesis using assms(2) by (auto simp: request_begin_def marked_def)
next
  case (idle u y i t p)
  then show ?thesis using idle_region_marked [OF assms(2), of u y i t] by simp
next
  case (connect y l i t b)
  then show ?thesis using request_new_marked [OF assms(2), of y l i t] by simp
next
  case (failed i)
  then show ?thesis using assms(2) by (auto simp: request_failed_def marked_def)
next
  case (reply u y i err)
  then show ?thesis using comm_reply_marked [OF assms(2), of i u y] by simp
next
  case (delete i)
  then show ?thesis using session_delete_marked [OF assms(2), of i] by simp
next
  case (bind y fd v err)
  then show ?thesis using assms(2) by (auto simp: comm_bind_def Let_def split: option.splits if_splits)
next
  case (unbind v)
  then show ?thesis using shutdown_marked [OF assms(2), of v] assms(2) by (auto simp: comm_unbind_def split: if_splits)
next
  case (drain mx v cnt)
  then show ?thesis using drain_marked [OF assms(2), of mx v] by simp
next
  case (shutdown v)
  then show ?thesis using shutdown_marked [OF assms(2), of v] by simp
next
  case (accept a x ad fd t v)
  then show ?thesis using comm_accept_marked [OF assms(2), of a x ad fd t v] by simp
next
  case (listen_end st err v)
  then show ?thesis using assms(2) by (auto simp: listen_end_def Let_def split: option.splits)
next
  case (listen y l v i)
  then show ?thesis using listen_result_marked [OF assms(2), of y l v i] by simp
next
  case stop
  then show ?thesis using assms(2) by simp
qed

lemma comm_steps_replied: "comm_steps s m m' \<Longrightarrow> marked s 2 m \<Longrightarrow> marked s 2 m'"
  by (induction rule: comm_steps.induct) (auto dest: comm_step_replied)

text \<open>
  C33. A session of a server is replied to at most once: \<open>reply\<close> of a session that is not of a server
  fails with \<open>EPERM\<close> and of one that was replied to with \<open>ENOENT\<close>, and changes nothing; and after any
  other reply, whether it succeeds or not, whatever the communicator does then, for this and all the
  other sessions and connections, and however late, another reply of the session fails with
  \<open>ENOENT\<close> and changes nothing. (The code tests and sets the mark without a lock: calls of \<open>reply\<close> of
  one session that overlap in time are not covered.)
\<close>

theorem comm_reply_once:
  assumes "comm_reply u y s m = Ret (err, m')"
  shows "(se_passive (cm_session m s) = 0 \<longrightarrow> err = Some CE_PERM \<and> m' = m)
    \<and> (se_passive (cm_session m s) \<notin> {0, 1} \<longrightarrow> err = Some CE_NOENT \<and> m' = m)
    \<and> (se_passive (cm_session m s) = 1 \<longrightarrow> (\<forall>m'' u' y'. comm_steps s m' m'' \<longrightarrow> comm_reply u' y' s m'' = Ret (Some CE_NOENT, m'')))"
proof -
  let ?m = "set_session s ((cm_session m s)\<lparr>se_passive := 2\<rparr>) m"
  have "marked s 2 m'" if p: "se_passive (cm_session m s) = 1"
  proof -
    have "marked s 2 ?m" by simp
    then have "out_all (\<lambda>(e, m'). marked s 2 m') (comm_reply u y s m)"
      using p unfolding comm_reply_def Let_def
      by (auto split: send_result.splits option.splits intro!: out_all_mono [OF reply_idle_marked] out_all_mono [OF call_handle_marked])
    then show ?thesis using assms by simp
  qed
  then have "se_passive (cm_session m'' s) = 2" if "se_passive (cm_session m s) = 1" "comm_steps s m' m''" for m''
    using comm_steps_replied that unfolding marked_def by blast
  then show ?thesis using assms by (auto simp: comm_reply_def Let_def)
qed

text \<open>A session that was replied to when its connection was gone, then the communicator stops.\<close>

definition demo_session :: comm where
  "demo_session = demo_comm\<lparr>cm_session := (cm_session demo_comm)(1 := (cm_session demo_comm 1)\<lparr>se_passive := 1, se_target := 2\<rparr>)\<rparr>"

theorem comm_reply_once_witness:
  "\<exists>m'. comm_reply demo_user demo_sys 1 demo_session = Ret (Some CE_NOENT, m')
     \<and> comm_reply demo_user demo_sys 1 (m'\<lparr>cm_stop_flag := True\<rparr>) = Ret (Some CE_NOENT, m'\<lparr>cm_stop_flag := True\<rparr>)"
proof -
  have "case comm_reply demo_user demo_sys 1 demo_session of Ret (e, m) \<Rightarrow> e = Some CE_NOENT | UB \<Rightarrow> False" by code_simp
  then obtain m' where m': "comm_reply demo_user demo_sys 1 demo_session = Ret (Some CE_NOENT, m')"
    by (cases "comm_reply demo_user demo_sys 1 demo_session") auto
  have "se_passive (cm_session demo_session 1) = 1" by (simp add: demo_session_def)
  moreover have "comm_steps 1 m' (m'\<lparr>cm_stop_flag := True\<rparr>)" by (rule comm_steps.step [OF comm_steps.refl comm_step.stop])
  ultimately show ?thesis using comm_reply_once [OF m'] m' by blast
qed

end
