(* ===== verification/Fifo.thy ===== *)
theory Fifo
  imports Prelude
begin

text \<open>
  The interface of a first-in first-out queue, the contract that the message queue of the
  thread pool and the task queue of a series share: a state with its list of items, an
  operation that appends an item and one that takes the first. Clients reason about runs of
  operations by the lemma on histories.
\<close>

datatype 'a queue_op = Enq 'a | Deq

text \<open>A run of operations: the items taken and the last state.\<close>

fun queue_run :: "('a \<Rightarrow> 's \<Rightarrow> 's) \<Rightarrow> ('s \<Rightarrow> 'a option \<times> 's) \<Rightarrow> 'a queue_op list \<Rightarrow> 's \<Rightarrow> 'a list \<times> 's" where
  "queue_run enq deq [] s = ([], s)"
| "queue_run enq deq (Enq x # ops) s = queue_run enq deq ops (enq x s)"
| "queue_run enq deq (Deq # ops) s =
     (case deq s of (r, s1) \<Rightarrow>
        (case queue_run enq deq ops s1 of (xs, s2) \<Rightarrow> ((case r of None \<Rightarrow> xs | Some x \<Rightarrow> x # xs), s2)))"

fun enqueued :: "'a queue_op list \<Rightarrow> 'a list" where
  "enqueued [] = []"
| "enqueued (Enq x # ops) = x # enqueued ops"
| "enqueued (Deq # ops) = enqueued ops"

text \<open>The items that were appended may be restricted, by the state, to those that are new.\<close>

locale fifo_queue =
  fixes inv :: "'s \<Rightarrow> bool"
    and items :: "'s \<Rightarrow> 'a list"
    and fresh :: "'a \<Rightarrow> 's \<Rightarrow> bool"
    and enq :: "'a \<Rightarrow> 's \<Rightarrow> 's"
    and deq :: "'s \<Rightarrow> 'a option \<times> 's"
  assumes enq_items: "inv s \<Longrightarrow> fresh x s \<Longrightarrow> inv (enq x s) \<and> items (enq x s) = items s @ [x]"
    and deq_items: "inv s \<Longrightarrow> inv (snd (deq s)) \<and>
      (case items s of [] \<Rightarrow> fst (deq s) = None \<and> items (snd (deq s)) = []
       | x # xs \<Rightarrow> fst (deq s) = Some x \<and> items (snd (deq s)) = xs)"
    and fresh_enq: "inv s \<Longrightarrow> fresh x s \<Longrightarrow> fresh y s \<Longrightarrow> x \<noteq> y \<Longrightarrow> fresh y (enq x s)"
    and fresh_deq: "inv s \<Longrightarrow> fresh y s \<Longrightarrow> fresh y (snd (deq s))"
begin

text \<open>
  Nothing is lost, invented, repeated or reordered: what was taken and what is still there is
  what was there and what was appended, in that order.
\<close>

lemma history:
  assumes "inv s" "\<forall>x\<in>set (enqueued ops). fresh x s" "distinct (enqueued ops)"
  shows "inv (snd (queue_run enq deq ops s))
    \<and> fst (queue_run enq deq ops s) @ items (snd (queue_run enq deq ops s)) = items s @ enqueued ops"
  using assms
proof (induction ops arbitrary: s)
  case Nil
  then show ?case by simp
next
  case (Cons op ops)
  show ?case
  proof (cases op)
    case (Enq x)
    have x: "fresh x s" and ne: "x \<notin> set (enqueued ops)" "distinct (enqueued ops)"
      using Cons.prems Enq by auto
    have "\<forall>y\<in>set (enqueued ops). fresh y (enq x s)"
      using Cons.prems(1,2) Enq ne fresh_enq [OF Cons.prems(1) x] by auto
    then show ?thesis
      using Cons.IH [of "enq x s"] enq_items [OF Cons.prems(1) x] ne Enq by simp
  next
    case Deq
    obtain r s1 where d: "deq s = (r, s1)" by (cases "deq s")
    have s1: "inv s1" "case items s of [] \<Rightarrow> r = None \<and> items s1 = [] | x # xs \<Rightarrow> r = Some x \<and> items s1 = xs"
      using deq_items [OF Cons.prems(1)] d by (auto split: list.splits)
    have "\<forall>y\<in>set (enqueued ops). fresh y s1"
      using Cons.prems(1,2) Deq fresh_deq [OF Cons.prems(1)] d by fastforce
    then have IH: "inv (snd (queue_run enq deq ops s1))
      \<and> fst (queue_run enq deq ops s1) @ items (snd (queue_run enq deq ops s1)) = items s1 @ enqueued ops"
      using Cons.IH [OF s1(1)] Cons.prems(3) Deq by simp
    show ?thesis
      using IH s1(2) Deq d by (cases "items s") (auto split: prod.splits)
  qed
qed

lemma deq_empty_iff: "inv s \<Longrightarrow> fst (deq s) = None \<longleftrightarrow> items s = []"
  using deq_items [of s] by (cases "items s") auto

end

end
