(* ===== verification/MsgQueue.thy ===== *)
theory MsgQueue
  imports Fifo
begin

text \<open>
  \<open>src/common/msgqueue.c\<close>: the message queue with two lists, at the level of its link pointers.
  A slot is a place that holds a link: one of the two heads or the link field of a message,
  named by its address; memory maps slots to the address of the next link, \<open>None\<close> for NULL.

  A region under a mutex is a step. \<open>__msgqueue_swap\<close> is split at its wait: \<open>swap_begin\<close> is
  the code before the \<open>put_mutex\<close> is taken, \<open>swap_end\<close> the code after the wait; between the two
  other threads may put messages. Sizes are \<open>int\<close>, with the wrap of \<open>msg_max - 1\<close> written out.
\<close>

section \<open>The queue\<close>

datatype slot = Head1 | Head2 | Link int

record msgqueue =
  mq_msg_max :: int
  mq_msg_cnt :: int
  mq_linkoff :: int
  mq_nonblock :: bool
  mq_mem :: "slot \<Rightarrow> int option"
  mq_get_head :: slot
  mq_put_head :: slot
  mq_put_tail :: slot

datatype mq_signal = SignalGet | BroadcastPut

text \<open>\<open>msgqueue_create\<close> when all its initialisers succeed; the links of messages hold anything.\<close>

definition msgqueue_create :: "(slot \<Rightarrow> int option) \<Rightarrow> int \<Rightarrow> int \<Rightarrow> msgqueue" where
  "msgqueue_create mem maxlen linkoff =
     \<lparr>mq_msg_max = maxlen, mq_msg_cnt = 0, mq_linkoff = linkoff, mq_nonblock = False,
      mq_mem = mem(Head1 := None, Head2 := None),
      mq_get_head = Head1, mq_put_head = Head2, mq_put_tail = Head2\<rparr>"

definition msgqueue_set_nonblock :: "msgqueue \<Rightarrow> msgqueue \<times> mq_signal list" where
  "msgqueue_set_nonblock q = (q\<lparr>mq_nonblock := True\<rparr>, [SignalGet, BroadcastPut])"

definition msgqueue_set_block :: "msgqueue \<Rightarrow> msgqueue" where
  "msgqueue_set_block q = q\<lparr>mq_nonblock := False\<rparr>"

text \<open>The test \<open>msg_cnt > msg_max - 1\<close>.\<close>

definition mq_full :: "msgqueue \<Rightarrow> bool" where
  "mq_full q \<longleftrightarrow> mq_msg_cnt q > (mq_msg_max q - 1) mod 2 ^ 64"

definition put_blocked :: "msgqueue \<Rightarrow> bool" where
  "put_blocked q \<longleftrightarrow> mq_full q \<and> \<not> mq_nonblock q"

definition swap_blocked :: "msgqueue \<Rightarrow> bool" where
  "swap_blocked q \<longleftrightarrow> mq_msg_cnt q = 0 \<and> \<not> mq_nonblock q"

text \<open>\<open>msgqueue_put\<close> once it is past its wait.\<close>

definition msgqueue_put :: "int \<Rightarrow> msgqueue \<Rightarrow> msgqueue" where
  "msgqueue_put msg q =
     (let link = msg + mq_linkoff q;
          mem = (mq_mem q)(Link link := None)
      in q\<lparr>mq_mem := mem(mq_put_tail q := Some link), mq_put_tail := Link link,
           mq_msg_cnt := (mq_msg_cnt q + 1) mod 2 ^ 64\<rparr>)"

text \<open>\<open>__msgqueue_swap\<close>: the local copy of the old \<open>get_head\<close> is handed from begin to end.\<close>

definition swap_begin :: "msgqueue \<Rightarrow> slot \<times> msgqueue" where
  "swap_begin q = (mq_get_head q, q\<lparr>mq_get_head := mq_put_head q\<rparr>)"

definition swap_end :: "slot \<Rightarrow> msgqueue \<Rightarrow> int \<times> msgqueue \<times> mq_signal list" where
  "swap_end get_head q =
     (mq_msg_cnt q,
      q\<lparr>mq_put_head := get_head, mq_put_tail := get_head, mq_msg_cnt := 0\<rparr>,
      if mq_full q then [BroadcastPut] else [])"

text \<open>The two lines that take the first message off \<open>get_head\<close>; \<open>UB\<close> when there is none.\<close>

definition take_first :: "msgqueue \<Rightarrow> (int \<times> msgqueue) outcome" where
  "take_first q =
     (case mq_mem q (mq_get_head q) of
        None \<Rightarrow> UB
      | Some link \<Rightarrow>
          Ret (link - mq_linkoff q, q\<lparr>mq_mem := (mq_mem q)(mq_get_head q := mq_mem q (Link link))\<rparr>))"

text \<open>The end of \<open>msgqueue_get\<close> after a swap that returned \<open>cnt\<close>.\<close>

definition get_after_swap :: "int \<Rightarrow> msgqueue \<Rightarrow> (int option \<times> msgqueue) outcome" where
  "get_after_swap cnt q =
     (if 0 < cnt then (case take_first q of UB \<Rightarrow> UB | Ret (msg, q') \<Rightarrow> Ret (Some msg, q'))
      else Ret (None, q))"

text \<open>
  \<open>msgqueue_get\<close> when nothing happens between its steps: the message, or NULL with \<open>ENOENT\<close>.
  It must not block.
\<close>

definition msgqueue_get :: "msgqueue \<Rightarrow> (int option \<times> msgqueue) outcome" where
  "msgqueue_get q =
     (if mq_mem q (mq_get_head q) \<noteq> None then
        (case take_first q of UB \<Rightarrow> UB | Ret (msg, q') \<Rightarrow> Ret (Some msg, q'))
      else
        (case swap_begin q of
           (h, q1) \<Rightarrow> (case swap_end h q1 of (cnt, q2, sig) \<Rightarrow> get_after_swap cnt q2)))"

section \<open>The two lists\<close>

fun chain :: "(slot \<Rightarrow> int option) \<Rightarrow> slot \<Rightarrow> int list \<Rightarrow> bool" where
  "chain M s [] \<longleftrightarrow> M s = None"
| "chain M s (a # as) \<longleftrightarrow> M s = Some a \<and> chain M (Link a) as"

definition tail_slot :: "slot \<Rightarrow> int list \<Rightarrow> slot" where
  "tail_slot s xs = (if xs = [] then s else Link (last xs))"

text \<open>
  The links \<open>gs\<close> of the get list and \<open>ps\<close> of the put list, as addresses. While a consumer is in the middle
  of a swap it holds the old get head, which is empty, and \<open>get_head\<close> already is the head of
  the put list.
\<close>

definition mq_lists :: "slot option \<Rightarrow> msgqueue \<Rightarrow> int list \<Rightarrow> int list \<Rightarrow> bool" where
  "mq_lists swap q gs ps \<longleftrightarrow>
     distinct (gs @ ps) \<and> (\<forall>a\<in>set (gs @ ps). 0 < a \<and> a < 2 ^ 64) \<and> chain (mq_mem q) (mq_put_head q) ps
     \<and> mq_put_tail q = tail_slot (mq_put_head q) ps \<and> mq_msg_cnt q = int (length ps)
     \<and> mq_put_head q \<in> {Head1, Head2}
     \<and> (case swap of
          None \<Rightarrow> chain (mq_mem q) (mq_get_head q) gs \<and> mq_get_head q \<in> {Head1, Head2} \<and> mq_get_head q \<noteq> mq_put_head q
        | Some h \<Rightarrow> gs = [] \<and> mq_mem q h = None \<and> h \<in> {Head1, Head2} \<and> h \<noteq> mq_put_head q
            \<and> mq_get_head q = mq_put_head q)"

lemma chain_cong: "M' s = M s \<Longrightarrow> (\<And>a. a \<in> set xs \<Longrightarrow> M' (Link a) = M (Link a)) \<Longrightarrow> chain M' s xs = chain M s xs"
  by (induction xs arbitrary: s) auto

lemma chain_unique: "chain M s xs \<Longrightarrow> chain M s ys \<Longrightarrow> xs = ys"
proof (induction xs arbitrary: s ys)
  case Nil
  then show ?case by (cases ys) auto
next
  case (Cons a xs)
  then show ?case by (cases ys) auto
qed

lemma chain_snoc:
  assumes "chain M s xs" "distinct xs" "x \<notin> set xs" "s \<noteq> Link x" "\<forall>a\<in>set xs. s \<noteq> Link a"
  shows "chain (M(Link x := None, tail_slot s xs := Some x)) s (xs @ [x])"
  using assms
proof (induction xs arbitrary: s)
  case Nil
  then show ?case by (simp add: tail_slot_def)
next
  case (Cons a xs)
  have t: "tail_slot s (a # xs) = tail_slot (Link a) xs"
    by (simp add: tail_slot_def)
  define M1 where "M1 = M(Link x := None, tail_slot (Link a) xs := Some x)"
  have "chain M1 (Link a) (xs @ [x])"
    unfolding M1_def using Cons.prems by (intro Cons.IH) auto
  moreover have "tail_slot (Link a) xs \<noteq> s"
    using Cons.prems(5) by (auto simp: tail_slot_def)
  then have "M1 s = Some a"
    using Cons.prems(1,4) by (simp add: M1_def)
  ultimately show ?case
    unfolding t M1_def [symmetric] by simp
qed

lemma links_bound:
  assumes "distinct xs" "\<forall>a\<in>set xs. 0 < a \<and> a < (2 :: int) ^ 64"
  shows "int (length xs) < 2 ^ 64"
proof -
  have "length xs = card (set xs)"
    using assms(1) by (simp add: distinct_card)
  also have "\<dots> \<le> card {1 ..< (2 :: int) ^ 64}"
    using assms(2) by (intro card_mono) auto
  finally show ?thesis by simp
qed

lemma put_lists:
  assumes "mq_lists sw q gs ps" "msg + mq_linkoff q \<notin> set (gs @ ps)"
    "0 < msg + mq_linkoff q" "msg + mq_linkoff q < 2 ^ 64"
  shows "mq_lists sw (msgqueue_put msg q) gs (ps @ [msg + mq_linkoff q])"
proof -
  have len: "int (length ps) + 1 < 2 ^ 64"
    using links_bound [of "ps @ [msg + mq_linkoff q]"] assms by (auto simp: mq_lists_def)
  define x where "x = msg + mq_linkoff q"
  define M where "M = (mq_mem q)(Link x := None, tail_slot (mq_put_head q) ps := Some x)"
  have heads: "mq_put_head q \<noteq> Link a" for a
    using assms(1) by (auto simp: mq_lists_def)
  have "chain M (mq_put_head q) (ps @ [x])"
    unfolding M_def using assms(1,2) heads by (intro chain_snoc) (auto simp: mq_lists_def x_def)
  moreover have "chain M s gs" if "chain (mq_mem q) s gs" "s \<in> {Head1, Head2}" "s \<noteq> mq_put_head q" for s
  proof -
    have "Link a \<noteq> tail_slot (mq_put_head q) ps" if "a \<in> set gs" for a
      using that assms(1) heads by (auto simp: tail_slot_def mq_lists_def)
    moreover have "tail_slot (mq_put_head q) ps \<noteq> s"
      using that(2,3) by (auto simp: tail_slot_def)
    moreover have "Link a \<noteq> Link x" if "a \<in> set gs" for a
      using that assms(2) by (auto simp: x_def)
    ultimately have "chain M s gs = chain (mq_mem q) s gs"
      unfolding M_def using that(2) by (intro chain_cong) auto
    then show ?thesis using that(1) by simp
  qed
  moreover have "M h = None" if "mq_mem q h = None" "h \<in> {Head1, Head2}" "h \<noteq> mq_put_head q" for h
    using that by (auto simp: M_def tail_slot_def)
  moreover have "msgqueue_put msg q = q\<lparr>mq_mem := M, mq_put_tail := Link x, mq_msg_cnt := (mq_msg_cnt q + 1) mod 2 ^ 64\<rparr>"
    using assms(1) by (simp add: msgqueue_put_def Let_def x_def M_def mq_lists_def)
  ultimately show ?thesis
    using assms len by (auto simp: mq_lists_def x_def [symmetric] tail_slot_def split: option.splits)
qed

lemma swap_begin_lists:
  assumes "mq_lists None q [] ps"
  shows "mq_lists (Some (fst (swap_begin q))) (snd (swap_begin q)) [] ps"
  using assms by (simp add: mq_lists_def swap_begin_def)

lemma swap_end_lists:
  assumes "mq_lists (Some h) q [] ps"
  shows "fst (swap_end h q) = int (length ps)" "mq_lists None (fst (snd (swap_end h q))) ps []"
  using assms by (auto simp: mq_lists_def swap_end_def tail_slot_def)

lemma take_first_lists:
  assumes "mq_lists None q (a # gs) ps"
  shows "\<exists>q'. take_first q = Ret (a - mq_linkoff q, q') \<and> mq_lists None q' gs ps \<and> mq_linkoff q' = mq_linkoff q
    \<and> mq_msg_max q' = mq_msg_max q \<and> mq_nonblock q' = mq_nonblock q"
proof -
  let ?M = "(mq_mem q)(mq_get_head q := mq_mem q (Link a))"
  have c: "chain (mq_mem q) (Link a) gs" "mq_mem q (mq_get_head q) = Some a"
    using assms by (simp_all add: mq_lists_def)
  have h: "mq_get_head q \<noteq> Link b" "mq_get_head q \<noteq> mq_put_head q" for b
    using assms by (auto simp: mq_lists_def)
  have "chain ?M (mq_put_head q) ps"
    using assms h h(1) [symmetric] chain_cong [of ?M "mq_put_head q" "mq_mem q" ps] by (simp add: mq_lists_def)
  moreover have "chain ?M (mq_get_head q) gs"
  proof (cases gs)
    case Nil
    then show ?thesis using c by simp
  next
    case (Cons b bs)
    then show ?thesis
      using c h h(1) [symmetric] chain_cong [of ?M "Link b" "mq_mem q" bs] by simp
  qed
  ultimately show ?thesis
    using assms c by (simp add: take_first_def mq_lists_def)
qed

section \<open>All interleavings\<close>

text \<open>
  The queue among its producers and consumers: \<open>sy_swap\<close> is the old get head of the consumer
  that is in the middle of a swap; only one is, because it holds the \<open>get_mutex\<close>. The links
  that were put and taken so far are kept in order.
\<close>

record mq_sys =
  sy_queue :: msgqueue
  sy_swap :: "slot option"
  sy_put :: "int list"
  sy_got :: "int list"

definition pending :: "mq_sys \<Rightarrow> int list" where
  "pending s = drop (length (sy_got s)) (sy_put s)"

definition got_link :: "int option \<Rightarrow> msgqueue \<Rightarrow> int list" where
  "got_link r q = (case r of None \<Rightarrow> [] | Some msg \<Rightarrow> [msg + mq_linkoff q])"

text \<open>
  One step of any thread. A message is put while it is not in the queue, and its link lies at
  a valid address. \<open>nb\<close> tells whether the queue may be set to nonblocking.
\<close>

inductive mq_step :: "bool \<Rightarrow> mq_sys \<Rightarrow> mq_sys \<Rightarrow> bool" for nb where
  step_put: "\<not> put_blocked (sy_queue s) \<Longrightarrow> link = msg + mq_linkoff (sy_queue s) \<Longrightarrow> link \<notin> set (pending s) \<Longrightarrow>
    0 < link \<Longrightarrow> link < 2 ^ 64 \<Longrightarrow>
    mq_step nb s (s\<lparr>sy_queue := msgqueue_put msg (sy_queue s), sy_put := sy_put s @ [link]\<rparr>)"
| step_get: "sy_swap s = None \<Longrightarrow> mq_mem (sy_queue s) (mq_get_head (sy_queue s)) \<noteq> None \<Longrightarrow>
    take_first (sy_queue s) = Ret (msg, q) \<Longrightarrow>
    mq_step nb s (s\<lparr>sy_queue := q, sy_got := sy_got s @ got_link (Some msg) q\<rparr>)"
| step_swap_begin: "sy_swap s = None \<Longrightarrow> mq_mem (sy_queue s) (mq_get_head (sy_queue s)) = None \<Longrightarrow>
    swap_begin (sy_queue s) = (h, q) \<Longrightarrow> mq_step nb s (s\<lparr>sy_queue := q, sy_swap := Some h\<rparr>)"
| step_swap_end: "sy_swap s = Some h \<Longrightarrow> \<not> swap_blocked (sy_queue s) \<Longrightarrow>
    swap_end h (sy_queue s) = (cnt, q, sig) \<Longrightarrow> get_after_swap cnt q = Ret (r, q') \<Longrightarrow>
    mq_step nb s (s\<lparr>sy_queue := q', sy_swap := None, sy_got := sy_got s @ got_link r q'\<rparr>)"
| step_nonblock: "nb \<Longrightarrow> mq_step nb s (s\<lparr>sy_queue := fst (msgqueue_set_nonblock (sy_queue s))\<rparr>)"
| step_block: "mq_step nb s (s\<lparr>sy_queue := msgqueue_set_block (sy_queue s)\<rparr>)"

inductive mq_reachable :: "bool \<Rightarrow> int \<Rightarrow> mq_sys \<Rightarrow> bool" for nb maxlen where
  mq_start: "mq_reachable nb maxlen
    \<lparr>sy_queue = msgqueue_create mem maxlen linkoff, sy_swap = None, sy_put = [], sy_got = []\<rparr>"
| mq_next: "mq_reachable nb maxlen s \<Longrightarrow> mq_step nb s s' \<Longrightarrow> mq_reachable nb maxlen s'"

text \<open>
  What holds of the queue: the pending links are the two lists, and while it is in blocking
  mode with a positive limit neither list is longer than the limit.
\<close>

definition mq_inv :: "bool \<Rightarrow> int \<Rightarrow> mq_sys \<Rightarrow> bool" where
  "mq_inv nb maxlen s \<longleftrightarrow>
     (\<exists>gs ps. mq_lists (sy_swap s) (sy_queue s) gs ps \<and> sy_put s = sy_got s @ gs @ ps
        \<and> mq_msg_max (sy_queue s) = maxlen
        \<and> (\<not> nb \<longrightarrow> \<not> mq_nonblock (sy_queue s)
            \<and> (0 < maxlen \<and> maxlen \<le> 2 ^ 64 \<longrightarrow> int (length gs) \<le> maxlen \<and> int (length ps) \<le> maxlen)))"

lemma mq_start_inv: "mq_inv nb maxlen \<lparr>sy_queue = msgqueue_create mem maxlen linkoff, sy_swap = None, sy_put = [], sy_got = []\<rparr>"
  by (simp add: mq_inv_def mq_lists_def msgqueue_create_def tail_slot_def)

lemma pending_lists: "sy_put s = sy_got s @ xs \<Longrightarrow> pending s = xs"
  by (simp add: pending_def)

lemma get_head_lists:
  assumes "mq_lists None q gs ps"
  shows "mq_mem q (mq_get_head q) = None \<longleftrightarrow> gs = []"
  using assms by (cases gs) (auto simp: mq_lists_def)

lemma get_after_swap_lists:
  assumes "mq_lists None q xs []"
  shows "\<exists>r q'. get_after_swap (int (length xs)) q = Ret (r, q') \<and> mq_lists None q' (tl xs) [] \<and> got_link r q' = take 1 xs
    \<and> (r = None \<longleftrightarrow> xs = []) \<and> mq_msg_max q' = mq_msg_max q \<and> mq_nonblock q' = mq_nonblock q"
proof (cases xs)
  case Nil
  then show ?thesis using assms by (simp add: get_after_swap_def got_link_def)
next
  case (Cons a gs)
  obtain q' where "take_first q = Ret (a - mq_linkoff q, q')" "mq_lists None q' gs []" "mq_linkoff q' = mq_linkoff q"
    "mq_msg_max q' = mq_msg_max q" "mq_nonblock q' = mq_nonblock q"
    using take_first_lists [OF assms [unfolded Cons]] by blast
  then show ?thesis
    using Cons by (simp add: get_after_swap_def got_link_def)
qed

lemma mq_step_inv:
  assumes "mq_inv nb maxlen s" "mq_step nb s s'"
  shows "mq_inv nb maxlen s'"
proof -
  obtain gs ps where l: "mq_lists (sy_swap s) (sy_queue s) gs ps" "sy_put s = sy_got s @ gs @ ps"
    and m: "mq_msg_max (sy_queue s) = maxlen"
    and b: "\<not> nb \<Longrightarrow> \<not> mq_nonblock (sy_queue s)"
      "\<not> nb \<Longrightarrow> 0 < maxlen \<Longrightarrow> maxlen \<le> 2 ^ 64 \<Longrightarrow> int (length gs) \<le> maxlen \<and> int (length ps) \<le> maxlen"
    using assms(1) by (auto simp: mq_inv_def)
  show ?thesis
    using assms(2)
  proof (cases rule: mq_step.cases)
    case (step_put link msg)
    have "link \<notin> set (gs @ ps)"
      using step_put pending_lists [OF l(2)] by simp
    then have "mq_lists (sy_swap s) (msgqueue_put msg (sy_queue s)) gs (ps @ [link])"
      using put_lists [OF l(1), of msg] step_put by simp
    moreover have "int (length ps) < maxlen" if "\<not> nb" "0 < maxlen" "maxlen \<le> 2 ^ 64"
    proof -
      have "\<not> mq_full (sy_queue s)" using step_put b(1) that(1) by (simp add: put_blocked_def)
      moreover have "(maxlen - 1) mod 2 ^ 64 = maxlen - 1" using that by simp
      ultimately show ?thesis using l(1) m by (simp add: mq_full_def mq_lists_def)
    qed
    ultimately show ?thesis
      using step_put l(2) m b unfolding mq_inv_def
      by (intro exI [of _ gs] exI [of _ "ps @ [link]"]) (auto simp: msgqueue_put_def Let_def)
  next
    case (step_get msg q)
    then obtain a gs' where gs: "gs = a # gs'" and n: "sy_swap s = None"
      using l(1) get_head_lists [of "sy_queue s" gs ps] by (cases gs) auto
    have "take_first (sy_queue s) = Ret (a - mq_linkoff (sy_queue s), q) \<and> mq_lists None q gs' ps
        \<and> mq_linkoff q = mq_linkoff (sy_queue s) \<and> mq_msg_max q = maxlen \<and> mq_nonblock q = mq_nonblock (sy_queue s)"
      using take_first_lists [of "sy_queue s" a gs' ps] l(1) gs n step_get m by auto
    then show ?thesis
      using step_get l(2) b gs n unfolding mq_inv_def
      by (intro exI [of _ gs'] exI [of _ ps]) (auto simp: got_link_def)
  next
    case (step_swap_begin h q)
    then have gs: "gs = []"
      using l(1) get_head_lists [of "sy_queue s" gs ps] by auto
    then have "mq_lists (Some h) q [] ps"
      using swap_begin_lists [of "sy_queue s" ps] l(1) step_swap_begin by simp
    then show ?thesis
      using step_swap_begin l(2) m b gs unfolding mq_inv_def
      by (intro exI [of _ "[]"] exI [of _ ps]) (auto simp: swap_begin_def)
  next
    case (step_swap_end h cnt q sig r q')
    have gs: "gs = []" using l(1) step_swap_end by (simp add: mq_lists_def)
    have e: "cnt = int (length ps)" "mq_lists None q ps []"
      using swap_end_lists [of h "sy_queue s" ps] l(1) step_swap_end gs by auto
    have q: "mq_msg_max q = maxlen" "mq_nonblock q = mq_nonblock (sy_queue s)"
      using step_swap_end m by (auto simp: swap_end_def)
    have "mq_lists None q' (tl ps) [] \<and> got_link r q' = take 1 ps \<and> mq_msg_max q' = maxlen \<and> mq_nonblock q' = mq_nonblock (sy_queue s)"
      using get_after_swap_lists [OF e(2)] step_swap_end e(1) q by auto
    moreover have "ps = take 1 ps @ tl ps" by (cases ps) auto
    ultimately show ?thesis
      using step_swap_end l(2) m b gs unfolding mq_inv_def
      by (intro exI [of _ "tl ps"] exI [of _ "[]"]) auto
  next
    case step_nonblock
    then show ?thesis
      using l m b unfolding mq_inv_def
      by (intro exI [of _ gs] exI [of _ ps]) (simp add: msgqueue_set_nonblock_def mq_lists_def split: option.splits)
  next
    case step_block
    then show ?thesis
      using l m b unfolding mq_inv_def
      by (intro exI [of _ gs] exI [of _ ps]) (simp add: msgqueue_set_block_def mq_lists_def split: option.splits)
  qed
qed

lemma mq_reachable_inv: "mq_reachable nb maxlen s \<Longrightarrow> mq_inv nb maxlen s"
  by (induction rule: mq_reachable.induct) (auto intro: mq_start_inv mq_step_inv)

text \<open>
  C21. In every interleaving of producers and consumers the messages come out in the order in
  which they were put, each exactly once: what was put is what was taken followed by what is
  pending. In blocking mode with a positive limit, at most twice the limit is pending.
\<close>

theorem msgqueue_fifo:
  assumes "mq_reachable nb maxlen s"
  shows "sy_put s = sy_got s @ pending s
    \<and> (\<not> nb \<and> 0 < maxlen \<and> maxlen \<le> 2 ^ 64 \<longrightarrow> int (length (pending s)) \<le> 2 * maxlen)"
proof -
  obtain gs ps where "sy_put s = sy_got s @ gs @ ps"
    "\<not> nb \<and> 0 < maxlen \<and> maxlen \<le> 2 ^ 64 \<Longrightarrow> int (length gs) \<le> maxlen \<and> int (length ps) \<le> maxlen"
    using mq_reachable_inv [OF assms] by (auto simp: mq_inv_def)
  then show ?thesis
    using pending_lists [of s "gs @ ps"] by auto
qed

text \<open>Two messages put, one taken.\<close>

definition mq_sample :: mq_sys where
  "mq_sample =
     (let q0 = msgqueue_create (\<lambda>_. None) 2 8;
          q2 = msgqueue_put 200 (msgqueue_put 100 q0)
      in case msgqueue_get q2 of
           UB \<Rightarrow> \<lparr>sy_queue = q2, sy_swap = None, sy_put = [108, 208], sy_got = []\<rparr>
         | Ret (_, q) \<Rightarrow> \<lparr>sy_queue = q, sy_swap = None, sy_put = [108, 208], sy_got = [108]\<rparr>)"

lemma mq_sample_reachable: "mq_reachable False 2 mq_sample"
proof -
  let ?q0 = "msgqueue_create (\<lambda>_. None) 2 8"
  let ?s0 = "\<lparr>sy_queue = ?q0, sy_swap = None, sy_put = [], sy_got = []\<rparr>"
  let ?s1 = "?s0\<lparr>sy_queue := msgqueue_put 100 ?q0, sy_put := [] @ [108]\<rparr>"
  let ?s2 = "?s1\<lparr>sy_queue := msgqueue_put 200 (msgqueue_put 100 ?q0), sy_put := [108] @ [208]\<rparr>"
  have r0: "mq_reachable False 2 ?s0" by (rule mq_start)
  have "mq_step False ?s0 ?s1"
    using step_put [of ?s0 108 100 False]
    by (simp add: put_blocked_def mq_full_def msgqueue_create_def pending_def)
  then have r1: "mq_reachable False 2 ?s1" by (rule mq_next [OF r0])
  have "mq_step False ?s1 ?s2"
    using step_put [of ?s1 208 200 False]
    by (simp add: put_blocked_def mq_full_def msgqueue_create_def pending_def msgqueue_put_def)
  then have r2: "mq_reachable False 2 ?s2" by (rule mq_next [OF r1])
  obtain h q where b: "swap_begin (sy_queue ?s2) = (h, q)" by (cases "swap_begin (sy_queue ?s2)")
  let ?s3 = "?s2\<lparr>sy_queue := q, sy_swap := Some h\<rparr>"
  have e: "mq_mem (sy_queue ?s2) (mq_get_head (sy_queue ?s2)) = None"
    by (simp add: msgqueue_put_def msgqueue_create_def Let_def)
  have r3: "mq_reachable False 2 ?s3"
    by (rule mq_next [OF r2 step_swap_begin [OF _ e b]]) simp
  obtain cnt q2 sig where w: "swap_end h q = (cnt, q2, sig)" by (cases "swap_end h q")
  have nb: "\<not> swap_blocked (sy_queue ?s3)"
    using b by (auto simp: swap_blocked_def swap_begin_def msgqueue_put_def msgqueue_create_def)
  have c: "get_after_swap cnt q2 = msgqueue_get (sy_queue ?s2)"
    using e b w by (simp add: msgqueue_get_def)
  have g: "case msgqueue_get (sy_queue ?s2) of UB \<Rightarrow> False | Ret (r, q) \<Rightarrow> r = Some 100 \<and> mq_linkoff q = 8"
    by (simp add: msgqueue_get_def swap_begin_def swap_end_def get_after_swap_def take_first_def msgqueue_put_def
        msgqueue_create_def Let_def)
  then obtain q' where q': "msgqueue_get (sy_queue ?s2) = Ret (Some 100, q')" "mq_linkoff q' = 8"
    by (auto split: outcome.splits)
  have "mq_reachable False 2 (?s3\<lparr>sy_queue := q', sy_swap := None, sy_got := sy_got ?s3 @ got_link (Some 100) q'\<rparr>)"
    using w c q' by (intro mq_next [OF r3 step_swap_end [OF _ nb]]) simp_all
  then show ?thesis
    using q' by (simp add: mq_sample_def Let_def got_link_def)
qed

theorem msgqueue_fifo_witness:
  "sy_put mq_sample = sy_got mq_sample @ pending mq_sample \<and> sy_got mq_sample = [108] \<and> int (length (pending mq_sample)) \<le> 4"
proof -
  have "case msgqueue_get (msgqueue_put 200 (msgqueue_put 100 (msgqueue_create (\<lambda>_. None) 2 8))) of UB \<Rightarrow> False | Ret (r, q) \<Rightarrow> True"
    by (simp add: msgqueue_get_def swap_begin_def swap_end_def get_after_swap_def take_first_def msgqueue_put_def
        msgqueue_create_def Let_def)
  then have "sy_got mq_sample = [108]"
    by (auto simp: mq_sample_def Let_def split: outcome.splits)
  then show ?thesis
    using msgqueue_fifo [OF mq_sample_reachable] by simp
qed

text \<open>
  A consumer that comes out of its swap never follows a null link: it gets the oldest
  pending message, and NULL exactly when none is pending, which in blocking mode does not
  happen.
\<close>

theorem msgqueue_get_oldest:
  assumes "mq_reachable nb maxlen s" "sy_swap s = Some h" "\<not> swap_blocked (sy_queue s)"
    "swap_end h (sy_queue s) = (cnt, q, sig)"
  shows "\<exists>r q'. get_after_swap cnt q = Ret (r, q') \<and> got_link r q' = take 1 (pending s)
    \<and> (r = None \<longleftrightarrow> pending s = []) \<and> (r = None \<longrightarrow> mq_nonblock (sy_queue s))"
proof -
  obtain gs ps where l: "mq_lists (Some h) (sy_queue s) gs ps" "sy_put s = sy_got s @ gs @ ps"
    using mq_reachable_inv [OF assms(1)] assms(2) by (auto simp: mq_inv_def)
  have gs: "gs = []" using l(1) by (simp add: mq_lists_def)
  have e: "cnt = int (length ps)" "mq_lists None q ps []"
    using swap_end_lists [of h "sy_queue s" ps] l(1) assms(4) gs by auto
  have p: "pending s = ps" using pending_lists [of s ps] l(2) gs by simp
  have "ps = [] \<longrightarrow> mq_nonblock (sy_queue s)"
    using assms(3) l(1) by (auto simp: swap_blocked_def mq_lists_def)
  then show ?thesis
    using get_after_swap_lists [OF e(2)] e(1) p by auto
qed

theorem msgqueue_get_oldest_witness:
  "\<exists>s h cnt q sig r q'. mq_reachable True 1 s \<and> swap_end h (sy_queue s) = (cnt, q, sig)
    \<and> get_after_swap cnt q = Ret (r, q') \<and> r = None \<and> pending s = []"
proof -
  let ?s0 = "\<lparr>sy_queue = msgqueue_create (\<lambda>_. None) 1 0, sy_swap = None, sy_put = [], sy_got = []\<rparr>"
  let ?s1 = "?s0\<lparr>sy_queue := fst (msgqueue_set_nonblock (sy_queue ?s0))\<rparr>"
  have r1: "mq_reachable True 1 ?s1"
    by (rule mq_next [OF mq_start step_nonblock]) simp
  obtain h q where b: "swap_begin (sy_queue ?s1) = (h, q)" by (cases "swap_begin (sy_queue ?s1)")
  let ?s2 = "?s1\<lparr>sy_queue := q, sy_swap := Some h\<rparr>"
  have "mq_mem (sy_queue ?s1) (mq_get_head (sy_queue ?s1)) = None"
    by (simp add: msgqueue_create_def msgqueue_set_nonblock_def)
  then have r2: "mq_reachable True 1 ?s2"
    by (intro mq_next [OF r1 step_swap_begin [OF _ _ b]]) simp_all
  obtain cnt q2 sig where w: "swap_end h (sy_queue ?s2) = (cnt, q2, sig)"
    by (cases "swap_end h (sy_queue ?s2)")
  have nb: "\<not> swap_blocked (sy_queue ?s2)"
    using b by (auto simp: swap_blocked_def swap_begin_def msgqueue_create_def msgqueue_set_nonblock_def)
  have p: "pending ?s2 = []" by (simp add: pending_def)
  obtain r q' where "get_after_swap cnt q2 = Ret (r, q')" "r = None"
    using msgqueue_get_oldest [OF r2 _ nb w] p by auto
  then show ?thesis
    using r2 w p by blast
qed

text \<open>
  A limit of 0 is no limit: \<open>msg_max - 1\<close> wraps, and no producer is ever blocked, while
  \<open>msgqueue.h\<close> promises at most two times the limit in blocking mode.
\<close>

theorem msgqueue_zero_limit:
  assumes "mq_reachable nb 0 s"
  shows "\<not> put_blocked (sy_queue s)"
proof -
  obtain gs ps where l: "mq_lists (sy_swap s) (sy_queue s) gs ps" and m: "mq_msg_max (sy_queue s) = 0"
    using mq_reachable_inv [OF assms] by (auto simp: mq_inv_def)
  have "distinct ps" "\<forall>a\<in>set ps. 0 < a \<and> a < 2 ^ 64"
    using l by (auto simp: mq_lists_def)
  then show ?thesis
    using links_bound [of ps] l m by (simp add: put_blocked_def mq_full_def mq_lists_def)
qed

theorem msgqueue_zero_limit_witness:
  "\<not> put_blocked (msgqueue_create (\<lambda>_. None) 0 8)"
  using msgqueue_zero_limit [OF mq_start [of False 0 "\<lambda>_. None" 8]] by simp

section \<open>Without interleaving: the queue interface\<close>

text \<open>The messages in the queue, oldest first.\<close>

definition mq_items :: "msgqueue \<Rightarrow> int list" where
  "mq_items q = map (\<lambda>a. a - mq_linkoff q)
     ((THE gs. chain (mq_mem q) (mq_get_head q) gs) @ (THE ps. chain (mq_mem q) (mq_put_head q) ps))"

definition mq_idle :: "msgqueue \<Rightarrow> bool" where
  "mq_idle q \<longleftrightarrow> (\<exists>gs ps. mq_lists None q gs ps)"

definition mq_fresh :: "int \<Rightarrow> msgqueue \<Rightarrow> bool" where
  "mq_fresh msg q \<longleftrightarrow> msg \<notin> set (mq_items q) \<and> 0 < msg + mq_linkoff q \<and> msg + mq_linkoff q < 2 ^ 64"

text \<open>\<open>msgqueue_get\<close> on an idle queue.\<close>

definition mq_deq :: "msgqueue \<Rightarrow> int option \<times> msgqueue" where
  "mq_deq q = (case msgqueue_get q of UB \<Rightarrow> (None, q) | Ret r \<Rightarrow> r)"

lemma mq_items_lists: "mq_lists None q gs ps \<Longrightarrow> mq_items q = map (\<lambda>a. a - mq_linkoff q) (gs @ ps)"
proof -
  assume l: "mq_lists None q gs ps"
  then have "chain (mq_mem q) (mq_get_head q) gs" "chain (mq_mem q) (mq_put_head q) ps"
    by (simp_all add: mq_lists_def)
  then have "(THE gs. chain (mq_mem q) (mq_get_head q) gs) = gs" "(THE ps. chain (mq_mem q) (mq_put_head q) ps) = ps"
    by (auto intro: the_equality chain_unique)
  then show ?thesis by (simp add: mq_items_def)
qed

lemma mq_get_lists:
  assumes "mq_lists None q gs ps"
  shows "\<exists>r q' gs' ps'. msgqueue_get q = Ret (r, q') \<and> mq_lists None q' gs' ps' \<and> gs' @ ps' = tl (gs @ ps)
    \<and> mq_linkoff q' = mq_linkoff q \<and> (case gs @ ps of [] \<Rightarrow> r = None | a # _ \<Rightarrow> r = Some (a - mq_linkoff q))"
proof (cases gs)
  case (Cons a gs')
  then obtain q' where "take_first q = Ret (a - mq_linkoff q, q')" "mq_lists None q' gs' ps" "mq_linkoff q' = mq_linkoff q"
    using take_first_lists [of q a gs' ps] assms by auto
  moreover have "mq_mem q (mq_get_head q) \<noteq> None"
    using get_head_lists [OF assms] Cons by simp
  ultimately show ?thesis using Cons by (auto simp: msgqueue_get_def)
next
  case Nil
  obtain h q1 where b: "swap_begin q = (h, q1)" by (cases "swap_begin q")
  have l1: "mq_lists (Some h) q1 [] ps"
    using swap_begin_lists [of q ps] assms Nil b by simp
  obtain cnt q2 sig where w: "swap_end h q1 = (cnt, q2, sig)" by (cases "swap_end h q1")
  have e: "cnt = int (length ps)" "mq_lists None q2 ps []" and off: "mq_linkoff q2 = mq_linkoff q"
    using swap_end_lists [OF l1] w b by (auto simp: swap_end_def swap_begin_def)
  have n: "mq_mem q (mq_get_head q) = None"
    using get_head_lists [OF assms] Nil by simp
  show ?thesis
  proof (cases ps)
    case Nil
    then show ?thesis
      using e off n b w \<open>gs = []\<close> by (auto simp: msgqueue_get_def get_after_swap_def)
  next
    case (Cons a ps')
    obtain q' where "take_first q2 = Ret (a - mq_linkoff q2, q')" "mq_lists None q' ps' []" "mq_linkoff q' = mq_linkoff q2"
      using take_first_lists [OF e(2) [unfolded Cons]] by blast
    then show ?thesis
      using e off n b w Cons \<open>gs = []\<close> by (auto simp: msgqueue_get_def get_after_swap_def)
  qed
qed

lemma mq_put_items:
  assumes "mq_idle q" "mq_fresh msg q"
  shows "mq_idle (msgqueue_put msg q) \<and> mq_items (msgqueue_put msg q) = mq_items q @ [msg]"
proof -
  obtain gs ps where l: "mq_lists None q gs ps" using assms(1) by (auto simp: mq_idle_def)
  have "msg + mq_linkoff q \<notin> set (gs @ ps)"
    using assms(2) mq_items_lists [OF l] by (auto simp: mq_fresh_def image_iff)
  then have l': "mq_lists None (msgqueue_put msg q) gs (ps @ [msg + mq_linkoff q])"
    using put_lists [OF l] assms(2) by (simp add: mq_fresh_def)
  have "mq_linkoff (msgqueue_put msg q) = mq_linkoff q" by (simp add: msgqueue_put_def Let_def)
  then show ?thesis
    using l' mq_items_lists [OF l] mq_items_lists [OF l'] by (auto simp: mq_idle_def)
qed

lemma mq_deq_items:
  assumes "mq_idle q"
  shows "mq_idle (snd (mq_deq q)) \<and> mq_linkoff (snd (mq_deq q)) = mq_linkoff q \<and>
    (case mq_items q of [] \<Rightarrow> fst (mq_deq q) = None \<and> mq_items (snd (mq_deq q)) = []
     | x # xs \<Rightarrow> fst (mq_deq q) = Some x \<and> mq_items (snd (mq_deq q)) = xs)"
proof -
  obtain gs ps where l: "mq_lists None q gs ps" using assms by (auto simp: mq_idle_def)
  obtain r q' gs' ps' where g: "msgqueue_get q = Ret (r, q')" "mq_lists None q' gs' ps'" "gs' @ ps' = tl (gs @ ps)"
    "mq_linkoff q' = mq_linkoff q" "case gs @ ps of [] \<Rightarrow> r = None | a # _ \<Rightarrow> r = Some (a - mq_linkoff q)"
    using mq_get_lists [OF l] by blast
  have d: "mq_deq q = (r, q')" using g(1) by (simp add: mq_deq_def)
  have "mq_items q' = map (\<lambda>a. a - mq_linkoff q) (tl (gs @ ps))"
    using mq_items_lists [OF g(2)] g(3,4) by simp
  moreover have "mq_items q = map (\<lambda>a. a - mq_linkoff q) (gs @ ps)"
    by (rule mq_items_lists [OF l])
  ultimately show ?thesis
    using g(2,4,5) d by (cases "gs @ ps") (auto simp: mq_idle_def)
qed

interpretation mq: fifo_queue mq_idle mq_items mq_fresh msgqueue_put mq_deq
proof
  show "mq_idle (msgqueue_put x q) \<and> mq_items (msgqueue_put x q) = mq_items q @ [x]" if "mq_idle q" "mq_fresh x q" for q x
    by (rule mq_put_items [OF that])
  show "mq_idle (snd (mq_deq q)) \<and>
      (case mq_items q of [] \<Rightarrow> fst (mq_deq q) = None \<and> mq_items (snd (mq_deq q)) = []
       | x # xs \<Rightarrow> fst (mq_deq q) = Some x \<and> mq_items (snd (mq_deq q)) = xs)" if "mq_idle q" for q
    using mq_deq_items [OF that] by blast
  show "mq_fresh y (msgqueue_put x q)" if "mq_idle q" "mq_fresh x q" "mq_fresh y q" "x \<noteq> y" for q x y
    using mq_put_items [OF that(1,2)] that(3,4) by (simp add: mq_fresh_def msgqueue_put_def Let_def)
  show "mq_fresh y (snd (mq_deq q))" if "mq_idle q" "mq_fresh y q" for q y
    using mq_deq_items [OF that(1)] that(2) by (cases "mq_items q") (auto simp: mq_fresh_def)
qed

lemma mq_items_distinct: "mq_idle q \<Longrightarrow> distinct (mq_items q)"
proof -
  assume "mq_idle q"
  then obtain gs ps where l: "mq_lists None q gs ps" by (auto simp: mq_idle_def)
  then have "distinct (gs @ ps)" by (simp add: mq_lists_def)
  then show ?thesis
    unfolding mq_items_lists [OF l] distinct_map by (auto simp: inj_on_def)
qed

lemma mq_get_ret: "mq_idle q \<Longrightarrow> msgqueue_get q = Ret (mq_deq q)"
  using mq_get_lists by (fastforce simp: mq_idle_def mq_deq_def)

lemma mq_nonblock_keeps:
  "mq_nonblock (msgqueue_put x q) = mq_nonblock q"
  "mq_idle q \<Longrightarrow> mq_nonblock (snd (mq_deq q)) = mq_nonblock q"
proof -
  show "mq_nonblock (msgqueue_put x q) = mq_nonblock q"
    by (simp add: msgqueue_put_def Let_def)
  have "msgqueue_get q = Ret (r, q') \<Longrightarrow> mq_nonblock q' = mq_nonblock q" for r q'
    by (auto simp: msgqueue_get_def swap_begin_def swap_end_def get_after_swap_def take_first_def
        split: outcome.splits option.splits if_splits)
  then show "mq_nonblock (snd (mq_deq q)) = mq_nonblock q" if "mq_idle q"
    using mq_get_ret [OF that] by (metis prod.collapse)
qed

lemma mq_set_nonblock_items:
  "mq_items (fst (msgqueue_set_nonblock q)) = mq_items q"
  "mq_idle (fst (msgqueue_set_nonblock q)) = mq_idle q"
  "mq_nonblock (fst (msgqueue_set_nonblock q))"
  by (simp_all add: mq_items_def mq_idle_def mq_lists_def msgqueue_set_nonblock_def)

end
