(* ===== verification/ThrdPool.thy ===== *)
theory ThrdPool
  imports MsgQueue
begin

text \<open>
  \<open>src/common/thrdpool.c\<close>: the thread pool over the message queue. Threads and tasks are
  numbers; a task entry is an address with the task stored in it, its link at offset 0. The
  regions under the mutex of the pool and the calls into the message queue are steps; a call of
  \<open>msgqueue_get\<close> by a thread of the pool happens when it does not block.
\<close>

section \<open>The pool\<close>

record thrdpool =
  tp_queue :: msgqueue
  tp_nthreads :: int
  tp_stacksize :: int
  tp_tid :: "nat option"
  tp_terminate :: bool
  tp_entries :: "int \<Rightarrow> nat option"

text \<open>
  \<open>__thrdpool_schedule\<close> on a buffer, and \<open>thrdpool_schedule\<close> with the answer of \<open>malloc\<close>.
\<close>

definition schedule_buf :: "nat \<Rightarrow> int \<Rightarrow> thrdpool \<Rightarrow> thrdpool" where
  "schedule_buf task buf pool =
     pool\<lparr>tp_entries := (tp_entries pool)(buf := Some task), tp_queue := msgqueue_put buf (tp_queue pool)\<rparr>"

definition thrdpool_schedule :: "int option \<Rightarrow> nat \<Rightarrow> thrdpool \<Rightarrow> int \<times> thrdpool" where
  "thrdpool_schedule buf task pool =
     (case buf of None \<Rightarrow> (-1, pool) | Some b \<Rightarrow> (0, schedule_buf task b pool))"

text \<open>
  One round of the loop of \<open>__thrdpool_routine\<close> up to the call of the task: the task, with its
  entry freed, or \<open>None\<close> when the loop ends. Reading an entry that is not allocated is \<open>UB\<close>.
\<close>

definition get_entry :: "thrdpool \<Rightarrow> (nat option \<times> thrdpool) outcome" where
  "get_entry pool =
     (case msgqueue_get (tp_queue pool) of
        UB \<Rightarrow> UB
      | Ret (None, q) \<Rightarrow> Ret (None, pool\<lparr>tp_queue := q\<rparr>)
      | Ret (Some entry, q) \<Rightarrow>
          (case tp_entries pool entry of
             None \<Rightarrow> UB
           | Some task \<Rightarrow>
               Ret (Some task, pool\<lparr>tp_queue := q, tp_entries := (tp_entries pool)(entry := None)\<rparr>)))"

definition routine_round :: "thrdpool \<Rightarrow> (nat option \<times> thrdpool) outcome" where
  "routine_round pool = (if tp_terminate pool then Ret (None, pool) else get_entry pool)"

text \<open>The end of \<open>__thrdpool_routine\<close>: the signal to the terminator and the thread to join.\<close>

definition routine_exit :: "nat \<Rightarrow> thrdpool \<Rightarrow> thrdpool \<times> bool \<times> nat option" where
  "routine_exit self pool =
     (let n = (tp_nthreads pool - 1) mod 2 ^ 64 in
      (pool\<lparr>tp_tid := Some self, tp_nthreads := n\<rparr>, n = 0, tp_tid pool))"

text \<open>\<open>__thrdpool_terminate\<close> up to its wait, and after it with the thread to join.\<close>

definition terminate_begin :: "bool \<Rightarrow> thrdpool \<Rightarrow> thrdpool" where
  "terminate_begin in_pool pool =
     (let p = pool\<lparr>tp_queue := fst (msgqueue_set_nonblock (tp_queue pool)), tp_terminate := True\<rparr> in
      if in_pool then p\<lparr>tp_nthreads := (tp_nthreads p - 1) mod 2 ^ 64\<rparr> else p)"

definition terminate_blocked :: "thrdpool \<Rightarrow> bool" where
  "terminate_blocked pool \<longleftrightarrow> 0 < tp_nthreads pool"

definition terminate_join :: "thrdpool \<Rightarrow> nat option" where
  "terminate_join pool = tp_tid pool"

text \<open>
  The loop of \<open>__thrdpool_create_threads\<close>: \<open>answers\<close> are those of \<open>pthread_create\<close>, one for
  each call. The pool and whether all threads were created.
\<close>

fun create_loop :: "bool list \<Rightarrow> int \<Rightarrow> thrdpool \<Rightarrow> thrdpool \<times> bool" where
  "create_loop [] n pool = (pool, tp_nthreads pool = n)"
| "create_loop (a # as) n pool =
     (if tp_nthreads pool < n then
        (if a then create_loop as n (pool\<lparr>tp_nthreads := tp_nthreads pool + 1\<rparr>) else (pool, False))
      else (pool, tp_nthreads pool = n))"

definition thrdpool_create :: "(slot \<Rightarrow> int option) \<Rightarrow> (int \<Rightarrow> nat option) \<Rightarrow> bool list \<Rightarrow> int \<Rightarrow> int \<Rightarrow> thrdpool option" where
  "thrdpool_create mem entries answers nthreads stacksize =
     (let pool = \<lparr>tp_queue = msgqueue_create mem SIZE_MAX 0, tp_nthreads = 0, tp_stacksize = stacksize,
                  tp_tid = None, tp_terminate = False, tp_entries = entries\<rparr>
      in case create_loop answers nthreads pool of (p, ok) \<Rightarrow> if ok then Some p else None)"

definition thrdpool_increase :: "bool \<Rightarrow> thrdpool \<Rightarrow> int \<times> thrdpool" where
  "thrdpool_increase created pool =
     (if created then (0, pool\<lparr>tp_nthreads := (tp_nthreads pool + 1) mod 2 ^ 64\<rparr>) else (-1, pool))"

text \<open>
  The loop of \<open>thrdpool_destroy\<close> after the threads ended: the tasks handed to \<open>pending\<close>. Each
  round takes an entry, so \<open>fuel\<close> bounds the entries in the queue; \<open>Ret None\<close> is out of fuel.
\<close>

fun destroy_loop :: "nat \<Rightarrow> thrdpool \<Rightarrow> nat list \<Rightarrow> (nat list \<times> thrdpool) option outcome" where
  "destroy_loop 0 pool acc = Ret None"
| "destroy_loop (Suc fuel) pool acc =
     (case get_entry pool of
        UB \<Rightarrow> UB
      | Ret (None, p) \<Rightarrow> Ret (Some (acc, p))
      | Ret (Some task, p) \<Rightarrow> destroy_loop fuel p (acc @ [task]))"

section \<open>The pool at work\<close>

text \<open>
  The threads in their loop, those that left it in order, those that were joined in order, the
  thread that destroys the pool from inside, and the tasks scheduled and started in order.
\<close>

record pool_sys =
  ps_pool :: thrdpool
  ps_live :: "nat set"
  ps_exited :: "nat list"
  ps_joined :: "nat list"
  ps_all :: "nat set"
  ps_detached :: "nat set"
  ps_done :: bool
  ps_sched :: "nat list"
  ps_run :: "nat list"

definition join_list :: "nat option \<Rightarrow> nat list" where
  "join_list t = (case t of None \<Rightarrow> [] | Some x \<Rightarrow> [x])"

inductive pool_step :: "pool_sys \<Rightarrow> pool_sys \<Rightarrow> bool" where
  pool_schedule: "mq_fresh buf (tp_queue (ps_pool s)) \<Longrightarrow> \<not> ps_done s \<Longrightarrow>
    thrdpool_schedule (Some buf) task (ps_pool s) = (0, p) \<Longrightarrow>
    pool_step s (s\<lparr>ps_pool := p, ps_sched := ps_sched s @ [task]\<rparr>)"
| pool_run: "t \<in> ps_live s \<Longrightarrow> mq_items (tp_queue (ps_pool s)) \<noteq> [] \<or> mq_nonblock (tp_queue (ps_pool s)) \<Longrightarrow>
    routine_round (ps_pool s) = Ret (Some task, p) \<Longrightarrow>
    pool_step s (s\<lparr>ps_pool := p, ps_run := ps_run s @ [task]\<rparr>)"
| pool_exit: "t \<in> ps_live s \<Longrightarrow> mq_items (tp_queue (ps_pool s)) \<noteq> [] \<or> mq_nonblock (tp_queue (ps_pool s)) \<Longrightarrow>
    routine_round (ps_pool s) = Ret (None, p) \<Longrightarrow> routine_exit t p = (p', sig, j) \<Longrightarrow>
    pool_step s (s\<lparr>ps_pool := p', ps_live := ps_live s - {t}, ps_exited := ps_exited s @ [t],
      ps_joined := ps_joined s @ join_list j\<rparr>)"
| pool_increase: "t \<notin> ps_all s \<Longrightarrow> \<not> tp_terminate (ps_pool s) \<Longrightarrow> thrdpool_increase True (ps_pool s) = (0, p) \<Longrightarrow>
    pool_step s (s\<lparr>ps_pool := p, ps_live := insert t (ps_live s), ps_all := insert t (ps_all s)\<rparr>)"
| pool_destroy: "\<not> tp_terminate (ps_pool s) \<Longrightarrow>
    pool_step s (s\<lparr>ps_pool := terminate_begin False (ps_pool s)\<rparr>)"
| pool_destroy_inside: "\<not> tp_terminate (ps_pool s) \<Longrightarrow> t \<in> ps_live s \<Longrightarrow>
    pool_step s (s\<lparr>ps_pool := terminate_begin True (ps_pool s), ps_live := ps_live s - {t}, ps_detached := {t}\<rparr>)"
| pool_joined: "tp_terminate (ps_pool s) \<Longrightarrow> \<not> ps_done s \<Longrightarrow> \<not> terminate_blocked (ps_pool s) \<Longrightarrow>
    pool_step s (s\<lparr>ps_joined := ps_joined s @ join_list (terminate_join (ps_pool s)), ps_done := True\<rparr>)"

text \<open>A pool whose threads were just created; the entries in use before belong to others.\<close>

inductive pool_reachable :: "pool_sys \<Rightarrow> bool" where
  pool_start: "thrdpool_create mem entries answers n stack = Some p \<Longrightarrow> finite ts \<Longrightarrow> int (card ts) = n \<Longrightarrow> n < 2 ^ 64 \<Longrightarrow>
    pool_reachable \<lparr>ps_pool = p, ps_live = ts, ps_exited = [], ps_joined = [], ps_all = ts, ps_detached = {},
      ps_done = False, ps_sched = [], ps_run = []\<rparr>"
| pool_next: "pool_reachable s \<Longrightarrow> pool_step s s' \<Longrightarrow> finite (ps_all s') \<Longrightarrow> int (card (ps_all s')) < 2 ^ 64 \<Longrightarrow>
    pool_reachable s'"

definition tasks_of :: "thrdpool \<Rightarrow> nat list" where
  "tasks_of pool = map (\<lambda>e. the (tp_entries pool e)) (mq_items (tp_queue pool))"

text \<open>
  The entries in the queue are allocated, the counter counts the live threads, the last thread
  that left is the one to join.
\<close>

definition pool_inv :: "pool_sys \<Rightarrow> bool" where
  "pool_inv s \<longleftrightarrow>
     mq_idle (tp_queue (ps_pool s)) \<and> distinct (mq_items (tp_queue (ps_pool s)))
     \<and> (\<forall>e\<in>set (mq_items (tp_queue (ps_pool s))). tp_entries (ps_pool s) e \<noteq> None)
     \<and> ps_sched s = ps_run s @ tasks_of (ps_pool s)
     \<and> finite (ps_live s) \<and> tp_nthreads (ps_pool s) = int (card (ps_live s)) \<and> int (card (ps_live s)) < 2 ^ 64
     \<and> mq_nonblock (tp_queue (ps_pool s)) = tp_terminate (ps_pool s)
     \<and> distinct (ps_exited s)
     \<and> ps_all s = ps_live s \<union> set (ps_exited s) \<union> ps_detached s
     \<and> ps_live s \<inter> set (ps_exited s) = {} \<and> ps_detached s \<inter> (ps_live s \<union> set (ps_exited s)) = {}
     \<and> (\<not> tp_terminate (ps_pool s) \<longrightarrow> ps_exited s = [] \<and> ps_detached s = {} \<and> \<not> ps_done s)
     \<and> tp_tid (ps_pool s) = (if ps_exited s = [] then None else Some (last (ps_exited s)))
     \<and> ps_joined s = (if ps_done s then ps_exited s else butlast (ps_exited s))
     \<and> (ps_done s \<longrightarrow> ps_live s = {})"

section \<open>The steps\<close>

lemma get_entry_inv:
  assumes "mq_idle (tp_queue p)" "\<forall>e\<in>set (mq_items (tp_queue p)). tp_entries p e \<noteq> None"
  shows "\<exists>r p'. get_entry p = Ret (r, p') \<and> mq_idle (tp_queue p') \<and> distinct (mq_items (tp_queue p'))
    \<and> (\<forall>e\<in>set (mq_items (tp_queue p')). tp_entries p' e \<noteq> None)
    \<and> (case tasks_of p of [] \<Rightarrow> r = None \<and> tasks_of p' = [] | t # ts \<Rightarrow> r = Some t \<and> tasks_of p' = ts)
    \<and> tp_nthreads p' = tp_nthreads p \<and> tp_terminate p' = tp_terminate p \<and> tp_tid p' = tp_tid p
    \<and> mq_nonblock (tp_queue p') = mq_nonblock (tp_queue p)"
proof -
  obtain r q where d: "mq_deq (tp_queue p) = (r, q)" by (cases "mq_deq (tp_queue p)")
  have g: "msgqueue_get (tp_queue p) = Ret (r, q)"
    using mq_get_ret [OF assms(1)] d by simp
  have q: "mq_idle q" "case mq_items (tp_queue p) of [] \<Rightarrow> r = None \<and> mq_items q = []
      | x # xs \<Rightarrow> r = Some x \<and> mq_items q = xs" "mq_nonblock q = mq_nonblock (tp_queue p)"
    using mq.deq_items [OF assms(1)] mq_nonblock_keeps(2) [OF assms(1)] d by (auto split: list.splits)
  show ?thesis
  proof (cases "mq_items (tp_queue p)")
    case Nil
    then show ?thesis
      using g q by (simp add: get_entry_def tasks_of_def)
  next
    case (Cons x xs)
    have x: "x \<notin> set xs" "distinct xs"
      using mq_items_distinct [OF assms(1)] Cons by auto
    then have "map (\<lambda>e. the (((tp_entries p)(x := None)) e)) xs = map (\<lambda>e. the (tp_entries p e)) xs"
      by (intro map_cong) auto
    moreover obtain task where "tp_entries p x = Some task"
      using assms(2) Cons by auto
    ultimately show ?thesis
      using g q Cons x assms(2) by (auto simp: get_entry_def tasks_of_def)
  qed
qed

lemma schedule_inv:
  assumes "mq_idle (tp_queue p)" "\<forall>e\<in>set (mq_items (tp_queue p)). tp_entries p e \<noteq> None" "mq_fresh buf (tp_queue p)"
  shows "mq_idle (tp_queue (schedule_buf task buf p)) \<and> distinct (mq_items (tp_queue (schedule_buf task buf p)))
    \<and> (\<forall>e\<in>set (mq_items (tp_queue (schedule_buf task buf p))). tp_entries (schedule_buf task buf p) e \<noteq> None)
    \<and> tasks_of (schedule_buf task buf p) = tasks_of p @ [task]"
proof -
  have e: "mq_idle (msgqueue_put buf (tp_queue p))" "mq_items (msgqueue_put buf (tp_queue p)) = mq_items (tp_queue p) @ [buf]"
    using mq.enq_items [OF assms(1,3)] by auto
  have "buf \<notin> set (mq_items (tp_queue p))"
    using assms(3) by (simp add: mq_fresh_def)
  then have "map (\<lambda>e. the (((tp_entries p)(buf := Some task)) e)) (mq_items (tp_queue p)) = map (\<lambda>e. the (tp_entries p e)) (mq_items (tp_queue p))"
    by (intro map_cong) auto
  then show ?thesis
    using e assms(2) mq_items_distinct [OF e(1)] by (simp add: schedule_buf_def tasks_of_def)
qed

lemma create_loop_threads:
  "create_loop as n p = (p', ok) \<Longrightarrow> \<exists>k. p' = p\<lparr>tp_nthreads := k\<rparr> \<and> (ok \<longrightarrow> k = n)"
proof (induction as n p rule: create_loop.induct)
  case (1 n p)
  then show ?case by (intro exI [of _ "tp_nthreads p"]) auto
next
  case (2 a as n p)
  then show ?case
    by (cases "tp_nthreads p < n"; cases a; intro exI [of _ "tp_nthreads p'"]) auto
qed

lemma pool_start_inv:
  assumes "thrdpool_create mem entries answers n stack = Some p" "finite ts" "int (card ts) = n" "n < 2 ^ 64"
  shows "pool_inv \<lparr>ps_pool = p, ps_live = ts, ps_exited = [], ps_joined = [], ps_all = ts, ps_detached = {},
      ps_done = False, ps_sched = [], ps_run = []\<rparr>"
proof -
  let ?q = "msgqueue_create mem SIZE_MAX 0"
  obtain p0 where p0: "p = p0\<lparr>tp_nthreads := n\<rparr>" "tp_queue p0 = ?q" "tp_tid p0 = None" "\<not> tp_terminate p0"
    using assms(1) create_loop_threads [of answers n _ p True]
    by (fastforce simp: thrdpool_create_def Let_def split: prod.splits if_splits)
  have "mq_lists None ?q [] []"
    by (simp add: mq_lists_def msgqueue_create_def tail_slot_def)
  then have "mq_idle ?q" "mq_items ?q = []"
    using mq_items_lists by (auto simp: mq_idle_def)
  moreover have "\<not> mq_nonblock ?q" by (simp add: msgqueue_create_def)
  ultimately show ?thesis
    using assms p0 by (simp add: pool_inv_def tasks_of_def)
qed

lemma round_inv:
  assumes "pool_inv s"
  shows "\<exists>r p'. routine_round (ps_pool s) = Ret (r, p')
    \<and> pool_inv (s\<lparr>ps_pool := p', ps_run := ps_run s @ join_list r\<rparr>)
    \<and> tp_nthreads p' = tp_nthreads (ps_pool s) \<and> tp_tid p' = tp_tid (ps_pool s)
    \<and> tp_terminate p' = tp_terminate (ps_pool s)
    \<and> (r = None \<longrightarrow> tp_terminate (ps_pool s) \<or> tasks_of (ps_pool s) = [])"
proof (cases "tp_terminate (ps_pool s)")
  case True
  then show ?thesis
    using assms by (simp add: routine_round_def join_list_def)
next
  case False
  have "mq_idle (tp_queue (ps_pool s))" "\<forall>e\<in>set (mq_items (tp_queue (ps_pool s))). tp_entries (ps_pool s) e \<noteq> None"
    using assms by (simp_all add: pool_inv_def)
  then obtain r p' where g: "get_entry (ps_pool s) = Ret (r, p')" "mq_idle (tp_queue p')" "distinct (mq_items (tp_queue p'))"
    "\<forall>e\<in>set (mq_items (tp_queue p')). tp_entries p' e \<noteq> None"
    "case tasks_of (ps_pool s) of [] \<Rightarrow> r = None \<and> tasks_of p' = [] | t # ts \<Rightarrow> r = Some t \<and> tasks_of p' = ts"
    "tp_nthreads p' = tp_nthreads (ps_pool s) \<and> tp_terminate p' = tp_terminate (ps_pool s) \<and> tp_tid p' = tp_tid (ps_pool s)"
    "mq_nonblock (tp_queue p') = mq_nonblock (tp_queue (ps_pool s))"
    using get_entry_inv by blast
  have r: "tasks_of (ps_pool s) = join_list r @ tasks_of p'" "r = None \<longrightarrow> tasks_of (ps_pool s) = []"
    using g(5) by (auto simp: join_list_def split: list.splits)
  have "routine_round (ps_pool s) = Ret (r, p')"
    using False g(1) by (simp add: routine_round_def)
  moreover have "pool_inv (s\<lparr>ps_pool := p', ps_run := ps_run s @ join_list r\<rparr>)"
    using assms g(2-4,6,7) r(1) by (simp add: pool_inv_def)
  ultimately show ?thesis
    using g(6) r(2) by blast
qed

lemma exit_inv:
  assumes "pool_inv s" "t \<in> ps_live s" "tp_terminate (ps_pool s)" "routine_exit t (ps_pool s) = (p, sig, j)"
  shows "pool_inv (s\<lparr>ps_pool := p, ps_live := ps_live s - {t}, ps_exited := ps_exited s @ [t],
      ps_joined := ps_joined s @ join_list j\<rparr>) \<and> sig = (ps_live s = {t})"
proof -
  have c: "card (ps_live s - {t}) = card (ps_live s) - 1" "0 < card (ps_live s)"
    using assms(1,2) by (auto simp: pool_inv_def card_gt_0_iff)
  have n: "(tp_nthreads (ps_pool s) - 1) mod 2 ^ 64 = int (card (ps_live s - {t}))"
    using assms(1) c by (simp add: pool_inv_def of_nat_diff)
  have "\<not> ps_done s" using assms(1,2) by (auto simp: pool_inv_def)
  moreover have "card (ps_live s - {t}) = 0 \<longleftrightarrow> ps_live s = {t}"
  proof -
    have "finite (ps_live s)" using assms(1) by (simp add: pool_inv_def)
    then have "card (ps_live s - {t}) = 0 \<longleftrightarrow> ps_live s - {t} = {}" by simp
    then show ?thesis using assms(2) by blast
  qed
  moreover have "ps_exited s = [] \<or> butlast (ps_exited s) @ [last (ps_exited s)] = ps_exited s"
    by (cases "ps_exited s" rule: rev_cases) simp_all
  ultimately show ?thesis
    using assms n c by (auto simp: routine_exit_def Let_def pool_inv_def join_list_def tasks_of_def)
qed

lemma pool_step_inv:
  assumes "pool_inv s" "pool_step s s'" "finite (ps_all s')" "int (card (ps_all s')) < 2 ^ 64"
  shows "pool_inv s'"
  using assms(2)
proof (cases rule: pool_step.cases)
  case (pool_schedule buf task p)
  have "p = schedule_buf task buf (ps_pool s)"
    using pool_schedule by (simp add: thrdpool_schedule_def)
  moreover have "mq_idle (tp_queue (ps_pool s))" "\<forall>e\<in>set (mq_items (tp_queue (ps_pool s))). tp_entries (ps_pool s) e \<noteq> None"
    using assms(1) by (simp_all add: pool_inv_def)
  ultimately show ?thesis
    using schedule_inv [of "ps_pool s" buf task] assms(1) pool_schedule
    by (auto simp: pool_inv_def schedule_buf_def mq_nonblock_keeps)
next
  case (pool_run t task p)
  then show ?thesis
    using round_inv [OF assms(1)] by (auto simp: join_list_def)
next
  case (pool_exit t p p' sig j)
  let ?s = "s\<lparr>ps_pool := p\<rparr>"
  have i: "pool_inv ?s"
    using round_inv [OF assms(1)] pool_exit by (auto simp: join_list_def)
  have "tp_terminate (ps_pool s)"
    using round_inv [OF assms(1)] pool_exit assms(1) by (auto simp: pool_inv_def tasks_of_def)
  then have "tp_terminate (ps_pool ?s)"
    using round_inv [OF assms(1)] pool_exit by auto
  then show ?thesis
    using exit_inv [OF i, of t p' sig j] pool_exit by simp
next
  case (pool_increase t p)
  have "card (insert t (ps_live s)) = Suc (card (ps_live s))"
    using assms(1) pool_increase by (simp add: pool_inv_def)
  moreover have "card (insert t (ps_live s)) \<le> card (ps_all s')"
    using assms(1,3) pool_increase by (intro card_mono) (auto simp: pool_inv_def)
  ultimately show ?thesis
    using assms(1,4) pool_increase by (auto simp: pool_inv_def thrdpool_increase_def tasks_of_def)
next
  case pool_destroy
  then show ?thesis
    using assms(1) by (simp add: pool_inv_def terminate_begin_def Let_def mq_set_nonblock_items tasks_of_def)
next
  case (pool_destroy_inside t)
  have c: "card (ps_live s - {t}) = card (ps_live s) - 1" "0 < card (ps_live s)"
    using assms(1) pool_destroy_inside by (auto simp: pool_inv_def card_gt_0_iff)
  have n: "(tp_nthreads (ps_pool s) - 1) mod 2 ^ 64 = int (card (ps_live s - {t}))"
    using assms(1) c by (simp add: pool_inv_def of_nat_diff)
  show ?thesis
    using assms(1) pool_destroy_inside n c
    by (auto simp: pool_inv_def terminate_begin_def Let_def mq_set_nonblock_items tasks_of_def)
next
  case pool_joined
  have "ps_live s = {}"
    using assms(1) pool_joined by (simp add: pool_inv_def terminate_blocked_def)
  moreover have "ps_exited s = [] \<or> butlast (ps_exited s) @ [last (ps_exited s)] = ps_exited s"
    by (cases "ps_exited s" rule: rev_cases) simp_all
  ultimately show ?thesis
    using assms(1) pool_joined by (auto simp: pool_inv_def terminate_join_def join_list_def)
qed

lemma pool_reachable_inv: "pool_reachable s \<Longrightarrow> pool_inv s"
  by (induction rule: pool_reachable.induct) (blast intro: pool_start_inv pool_step_inv)+

section \<open>Properties\<close>

lemma destroy_loop_tasks:
  assumes "mq_idle (tp_queue p)" "\<forall>e\<in>set (mq_items (tp_queue p)). tp_entries p e \<noteq> None"
    "length (tasks_of p) < fuel"
  shows "\<exists>p'. destroy_loop fuel p acc = Ret (Some (acc @ tasks_of p, p')) \<and> tasks_of p' = []"
  using assms
proof (induction fuel p acc rule: destroy_loop.induct)
  case (1 p acc)
  then show ?case by simp
next
  case (2 fuel p acc)
  obtain r q where g: "get_entry p = Ret (r, q)" "mq_idle (tp_queue q)"
    "\<forall>e\<in>set (mq_items (tp_queue q)). tp_entries q e \<noteq> None"
    "case tasks_of p of [] \<Rightarrow> r = None \<and> tasks_of q = [] | t # ts \<Rightarrow> r = Some t \<and> tasks_of q = ts"
    using get_entry_inv [OF 2(2,3)] by blast
  show ?case
  proof (cases "tasks_of p")
    case Nil
    then show ?thesis using g by simp
  next
    case (Cons t ts)
    have r: "r = Some t" "tasks_of q = ts" using g(4) Cons by simp_all
    have "\<exists>p'. destroy_loop fuel q (acc @ [t]) = Ret (Some ((acc @ [t]) @ tasks_of q, p')) \<and> tasks_of p' = []"
      using 2(4) Cons r g(1-3) by (intro 2(1)) simp_all
    then show ?thesis using g(1) Cons r by simp
  qed
qed

text \<open>
  The tasks of a pool are started in the order in which they were scheduled, each once:
  what was scheduled is what was started followed by what is queued; and the loop of
  \<open>thrdpool_destroy\<close> hands exactly the queued tasks, in order, to \<open>pending\<close> and ends.
\<close>

theorem thrdpool_tasks_fifo:
  assumes "pool_reachable s" "length (tasks_of (ps_pool s)) < fuel"
  shows "ps_sched s = ps_run s @ tasks_of (ps_pool s)
    \<and> (\<exists>p. destroy_loop fuel (ps_pool s) [] = Ret (Some (tasks_of (ps_pool s), p)) \<and> tasks_of p = [])"
proof -
  have i: "pool_inv s" by (rule pool_reachable_inv [OF assms(1)])
  then have "mq_idle (tp_queue (ps_pool s))" "\<forall>e\<in>set (mq_items (tp_queue (ps_pool s))). tp_entries (ps_pool s) e \<noteq> None"
    by (simp_all add: pool_inv_def)
  from destroy_loop_tasks [OF this assms(2), of "[]"] show ?thesis
    using i by (simp add: pool_inv_def)
qed

text \<open>A pool of one thread, with nothing scheduled.\<close>

definition pool0 :: thrdpool where
  "pool0 = \<lparr>tp_queue = msgqueue_create (\<lambda>_. None) SIZE_MAX 0, tp_nthreads = 1, tp_stacksize = 0, tp_tid = None,
     tp_terminate = False, tp_entries = (\<lambda>_. None)\<rparr>"

definition pool_sys0 :: pool_sys where
  "pool_sys0 = \<lparr>ps_pool = pool0, ps_live = {7}, ps_exited = [], ps_joined = [], ps_all = {7}, ps_detached = {},
     ps_done = False, ps_sched = [], ps_run = []\<rparr>"

lemma pool_sys0_reachable: "pool_reachable pool_sys0"
  unfolding pool_sys0_def
  by (rule pool_start [of "\<lambda>_. None" "\<lambda>_. None" "[True]" 1 0]) (simp_all add: thrdpool_create_def pool0_def)

lemma pool0_items: "mq_idle (tp_queue pool0)" "mq_items (tp_queue pool0) = []"
proof -
  have "mq_lists None (tp_queue pool0) [] []"
    by (simp add: pool0_def mq_lists_def msgqueue_create_def tail_slot_def)
  then show "mq_idle (tp_queue pool0)" "mq_items (tp_queue pool0) = []"
    using mq_items_lists by (auto simp: mq_idle_def)
qed

definition pool_sys1 :: pool_sys where
  "pool_sys1 = pool_sys0\<lparr>ps_pool := schedule_buf 42 4096 pool0, ps_sched := [42]\<rparr>"

lemma pool_sys1_reachable: "pool_reachable pool_sys1"
proof -
  have f: "mq_fresh 4096 (tp_queue (ps_pool pool_sys0))"
    using pool0_items by (simp add: mq_fresh_def pool_sys0_def) (simp add: pool0_def msgqueue_create_def)
  have "pool_step pool_sys0 pool_sys1"
    using pool_schedule [OF f, of 42] by (simp add: pool_sys0_def pool_sys1_def thrdpool_schedule_def)
  then show ?thesis
    by (rule pool_next [OF pool_sys0_reachable]) (simp_all add: pool_sys1_def pool_sys0_def)
qed

theorem thrdpool_tasks_fifo_witness:
  "ps_sched pool_sys1 = [42] \<and> ps_run pool_sys1 = []
    \<and> (\<exists>p. destroy_loop 2 (ps_pool pool_sys1) [] = Ret (Some ([42], p)))"
proof -
  have e: "ps_sched pool_sys1 = [42]" "ps_run pool_sys1 = []"
    by (simp_all add: pool_sys1_def pool_sys0_def)
  then have t: "tasks_of (ps_pool pool_sys1) = [42]"
    using pool_reachable_inv [OF pool_sys1_reachable] by (simp add: pool_inv_def)
  then have "\<exists>p. destroy_loop 2 (ps_pool pool_sys1) [] = Ret (Some (tasks_of (ps_pool pool_sys1), p))"
    using thrdpool_tasks_fifo [OF pool_sys1_reachable, of 2] by auto
  then show ?thesis using e t by simp
qed

text \<open>
  C36. One thread joins another: when \<open>thrdpool_destroy\<close> is past its wait and its join, every
  thread of the pool has left its loop and was joined exactly once, but for the thread that
  destroys the pool from inside, which is detached.
\<close>

theorem thrdpool_joins:
  assumes "pool_reachable s" "ps_done s"
  shows "distinct (ps_joined s) \<and> set (ps_joined s) = ps_all s - ps_detached s \<and> ps_live s = {}
    \<and> tp_nthreads (ps_pool s) = 0"
  using pool_reachable_inv [OF assms(1)] assms(2) by (auto simp: pool_inv_def)

text \<open>The one thread of the pool sees the end, leaves and is joined by the destroying thread.\<close>

definition pool_end :: "pool_sys \<Rightarrow> pool_sys" where
  "pool_end s =
     (let p1 = terminate_begin False (ps_pool s) in
      case routine_exit 7 p1 of (p2, sig, j) \<Rightarrow>
        s\<lparr>ps_pool := p2, ps_live := {}, ps_exited := [7], ps_joined := join_list j @ join_list (terminate_join p2), ps_done := True\<rparr>)"

lemma pool_end_reachable: "pool_reachable (pool_end pool_sys0)"
proof -
  let ?p1 = "terminate_begin False pool0"
  let ?s1 = "pool_sys0\<lparr>ps_pool := ?p1\<rparr>"
  have "\<not> tp_terminate (ps_pool pool_sys0)" by (simp add: pool_sys0_def pool0_def)
  from pool_destroy [OF this] have r1: "pool_reachable ?s1"
    by (intro pool_next [OF pool_sys0_reachable]) (simp_all add: pool_sys0_def)
  obtain p2 sig j where e: "routine_exit 7 ?p1 = (p2, sig, j)" by (cases "routine_exit 7 ?p1")
  let ?s2 = "?s1\<lparr>ps_pool := p2, ps_live := ps_live ?s1 - {7}, ps_exited := ps_exited ?s1 @ [7],
      ps_joined := ps_joined ?s1 @ join_list j\<rparr>"
  have t1: "tp_terminate ?p1" "mq_nonblock (tp_queue ?p1)"
    by (simp_all add: terminate_begin_def Let_def msgqueue_set_nonblock_def)
  have "pool_step ?s1 ?s2"
    using t1 e by (intro pool_exit [of _ _ "?p1"]) (simp_all add: routine_round_def pool_sys0_def)
  then have r2: "pool_reachable ?s2"
    by (rule pool_next [OF r1]) (simp_all add: pool_sys0_def)
  have p2: "tp_terminate p2" "tp_nthreads p2 = 0"
    using e t1 by (auto simp: routine_exit_def Let_def terminate_begin_def pool0_def)
  have "pool_step ?s2 (?s2\<lparr>ps_joined := ps_joined ?s2 @ join_list (terminate_join (ps_pool ?s2)), ps_done := True\<rparr>)"
    using p2 by (intro pool_joined) (simp_all add: terminate_blocked_def pool_sys0_def)
  then have "pool_reachable (?s2\<lparr>ps_joined := ps_joined ?s2 @ join_list (terminate_join (ps_pool ?s2)), ps_done := True\<rparr>)"
    by (rule pool_next [OF r2]) (simp_all add: pool_sys0_def)
  then show ?thesis
    using e by (simp add: pool_end_def Let_def pool_sys0_def)
qed

theorem thrdpool_joins_witness:
  "set (ps_joined (pool_end pool_sys0)) = {7} \<and> tp_nthreads (ps_pool (pool_end pool_sys0)) = 0"
proof -
  have "ps_done (pool_end pool_sys0)" "ps_all (pool_end pool_sys0) = {7}" "ps_detached (pool_end pool_sys0) = {}"
    by (simp_all add: pool_end_def Let_def pool_sys0_def split: prod.split)
  then show ?thesis
    using thrdpool_joins [OF pool_end_reachable] by simp
qed

end
