(* ===== verification/Workflow.thy ===== *)
theory Workflow
  imports Fifo
begin

text \<open>
  \<open>src/factory/Workflow.cc\<close>, \<open>Workflow.h\<close> and \<open>src/task/SubTask.cc\<close>: series of tasks with
  their ring queue, parallel works and the completion of tasks.

  Tasks and series are objects of a store, named by numbers; a task that is a parallel work
  has an entry in \<open>wd_par\<close>. What is visible outside is collected in a log: the tasks that are
  dispatched, the callbacks that are called, the objects that are deleted. A failed assertion,
  a read of an array slot that was never written and an access outside an array are \<open>UB\<close>. An
  operation that walks through series and tasks takes fuel, one unit for every call; its result
  is \<open>Ret None\<close> when the fuel does not suffice.
\<close>

section \<open>Objects\<close>

record series_work =
  sw_callback :: bool
  sw_queue :: "nat option list"
  sw_front :: nat
  sw_back :: nat
  sw_first :: nat
  sw_last :: "nat option"
  sw_in_parallel :: bool
  sw_canceled :: bool
  sw_finished :: bool

record parallel_work =
  pw_callback :: bool
  pw_subtasks :: "nat option list"
  pw_all_series :: "nat option list"
  pw_nr :: nat
  pw_nleft :: nat

datatype wf_event =
  Dispatched nat | TaskDeleted nat | SeriesCallback nat | SeriesDeleted nat | ParallelCallback nat

record world =
  wd_series :: "nat \<Rightarrow> series_work"
  wd_pointer :: "nat \<Rightarrow> nat option"
  wd_parent :: "nat \<Rightarrow> nat option"
  wd_par :: "nat \<Rightarrow> parallel_work option"
  wd_log :: "wf_event list"

definition log_event :: "wf_event \<Rightarrow> world \<Rightarrow> world" where
  "log_event e w = w\<lparr>wd_log := wd_log w @ [e]\<rparr>"

definition upd_series :: "nat \<Rightarrow> (series_work \<Rightarrow> series_work) \<Rightarrow> world \<Rightarrow> world" where
  "upd_series s f w = w\<lparr>wd_series := (wd_series w)(s := f (wd_series w s))\<rparr>"

definition set_pointer :: "nat \<Rightarrow> nat \<Rightarrow> world \<Rightarrow> world" where
  "set_pointer t s w = w\<lparr>wd_pointer := (wd_pointer w)(t := Some s)\<rparr>"

section \<open>The ring queue of a series\<close>

text \<open>
  The copy loop of \<open>expand_queue\<close>: \<open>i\<close> and \<open>j\<close> are the indices into the new and the old array.
\<close>

function expand_loop :: "nat option list \<Rightarrow> nat \<Rightarrow> nat \<Rightarrow> nat \<Rightarrow> nat option list \<Rightarrow> (nat \<times> nat option list) outcome" where
  "expand_loop old back i j new =
     (if i < length new \<and> j < length old then
        let new' = new[i := old ! j]; j' = (if j + 1 = length old then 0 else j + 1) in
        if j' = back then Ret (i + 1, new') else expand_loop old back (i + 1) j' new'
      else UB)"
  by pat_completeness auto
termination
  by (relation "measure (\<lambda>(old, back, i, j, new). length new - i)") auto

declare expand_loop.simps [simp del]

text \<open>The size is an \<open>int\<close>; doubling one of \<open>2 ^ 30\<close> or more overflows.\<close>

definition expand_queue :: "series_work \<Rightarrow> series_work outcome" where
  "expand_queue s =
     (if 2 ^ 31 \<le> 2 * length (sw_queue s) then UB
      else case expand_loop (sw_queue s) (sw_back s) 0 (sw_front s) (replicate (2 * length (sw_queue s)) None) of
        UB \<Rightarrow> UB
      | Ret (i, q) \<Rightarrow> Ret (s\<lparr>sw_queue := q, sw_front := 0, sw_back := i\<rparr>))"

definition ring_push_front :: "nat \<Rightarrow> series_work \<Rightarrow> series_work outcome" where
  "ring_push_front task s =
     (let front = (if sw_front s = 0 then length (sw_queue s) - 1 else sw_front s - 1) in
      if front < length (sw_queue s) then
        let s' = s\<lparr>sw_front := front, sw_queue := (sw_queue s)[front := Some task]\<rparr> in
        if sw_front s' = sw_back s' then expand_queue s' else Ret s'
      else UB)"

definition ring_push_back :: "nat \<Rightarrow> series_work \<Rightarrow> series_work outcome" where
  "ring_push_back task s =
     (if sw_back s < length (sw_queue s) then
        let back = (if sw_back s + 1 = length (sw_queue s) then 0 else sw_back s + 1);
            s' = s\<lparr>sw_queue := (sw_queue s)[sw_back s := Some task], sw_back := back\<rparr>
        in if sw_front s' = sw_back s' then expand_queue s' else Ret s'
      else UB)"

text \<open>The region of \<open>pop_task\<close> under the mutex: a task of the ring, else the last task.\<close>

definition ring_pop :: "series_work \<Rightarrow> (nat option \<times> series_work) outcome" where
  "ring_pop s =
     (if sw_front s \<noteq> sw_back s then
        (if sw_front s < length (sw_queue s) then
           (case sw_queue s ! sw_front s of
              None \<Rightarrow> UB
            | Some task \<Rightarrow>
                Ret (Some task,
                  s\<lparr>sw_front := (if sw_front s + 1 = length (sw_queue s) then 0 else sw_front s + 1)\<rparr>))
         else UB)
      else Ret (sw_last s, s\<lparr>sw_last := None\<rparr>))"

section \<open>Series\<close>

text \<open>The constructor, for a first task that belongs to no series.\<close>

definition series_init :: "nat \<Rightarrow> nat \<Rightarrow> bool \<Rightarrow> world \<Rightarrow> world outcome" where
  "series_init s first cb w =
     (if wd_pointer w first \<noteq> None then UB
      else Ret (set_pointer first s
        (upd_series s (\<lambda>_. \<lparr>sw_callback = cb, sw_queue = replicate 4 None, sw_front = 0, sw_back = 0,
          sw_first = first, sw_last = None, sw_in_parallel = False, sw_canceled = False, sw_finished = False\<rparr>) w)))"

definition series_push_front :: "nat \<Rightarrow> nat \<Rightarrow> world \<Rightarrow> world outcome" where
  "series_push_front s task w =
     (case ring_push_front task (wd_series w s) of
        UB \<Rightarrow> UB | Ret sw \<Rightarrow> Ret (upd_series s (\<lambda>_. sw) (set_pointer task s w)))"

definition series_push_back :: "nat \<Rightarrow> nat \<Rightarrow> world \<Rightarrow> world outcome" where
  "series_push_back s task w =
     (case ring_push_back task (wd_series w s) of
        UB \<Rightarrow> UB | Ret sw \<Rightarrow> Ret (upd_series s (\<lambda>_. sw) (set_pointer task s w)))"

definition set_last_task :: "nat \<Rightarrow> nat \<Rightarrow> world \<Rightarrow> world" where
  "set_last_task s task w = upd_series s (\<lambda>sw. sw\<lparr>sw_last := Some task\<rparr>) (set_pointer task s w)"

definition unset_last_task :: "nat \<Rightarrow> world \<Rightarrow> world" where
  "unset_last_task s w = upd_series s (\<lambda>sw. sw\<lparr>sw_last := None\<rparr>) w"

definition series_cancel :: "nat \<Rightarrow> world \<Rightarrow> world" where
  "series_cancel s w = upd_series s (\<lambda>sw. sw\<lparr>sw_canceled := True\<rparr>) w"

text \<open>
  \<open>pop_task\<close>. Without a task the series is finished: its callback is called, and it deletes
  itself unless it belongs to a parallel work.
\<close>

definition pop_task :: "nat \<Rightarrow> world \<Rightarrow> (nat option \<times> world) outcome" where
  "pop_task s w =
     (case ring_pop (wd_series w s) of
        UB \<Rightarrow> UB
      | Ret (Some task, sw) \<Rightarrow> Ret (Some task, upd_series s (\<lambda>_. sw) w)
      | Ret (None, sw) \<Rightarrow>
          let w1 = upd_series s (\<lambda>_. sw\<lparr>sw_finished := True\<rparr>) w;
              w2 = (if sw_callback sw then log_event (SeriesCallback s) w1 else w1);
              w3 = (if sw_in_parallel sw then w2 else log_event (SeriesDeleted s) w2)
          in Ret (None, w3))"

text \<open>
  The destructors. \<open>delete task\<close> of a parallel work dismisses its series, \<open>dismiss_recursive\<close>
  deletes the tasks of a series, the first included.
\<close>

fun delete_task :: "nat \<Rightarrow> nat \<Rightarrow> world \<Rightarrow> world option outcome"
and delete_series :: "nat \<Rightarrow> nat option list \<Rightarrow> world \<Rightarrow> world option outcome"
and dismiss_recursive :: "nat \<Rightarrow> nat \<Rightarrow> world \<Rightarrow> world option outcome"
and dismiss_loop :: "nat \<Rightarrow> nat \<Rightarrow> nat \<Rightarrow> world \<Rightarrow> world option outcome" where
  "delete_task 0 t w = Ret None"
| "delete_task (Suc f) t w =
     (case wd_par w t of
        None \<Rightarrow> Ret (Some (log_event (TaskDeleted t) w))
      | Some p \<Rightarrow>
          (case delete_series f (take (pw_nr p) (pw_all_series p)) w of
             UB \<Rightarrow> UB
           | Ret None \<Rightarrow> Ret None
           | Ret (Some w1) \<Rightarrow> Ret (Some (log_event (TaskDeleted t) w1))))"
| "delete_series 0 ss w = Ret None"
| "delete_series (Suc f) [] w = Ret (Some w)"
| "delete_series (Suc f) (None # ss) w = UB"
| "delete_series (Suc f) (Some s # ss) w =
     (case dismiss_recursive f s (upd_series s (\<lambda>sw. sw\<lparr>sw_in_parallel := False\<rparr>) w) of
        UB \<Rightarrow> UB | Ret None \<Rightarrow> Ret None | Ret (Some w1) \<Rightarrow> delete_series f ss w1)"
| "dismiss_recursive 0 s w = Ret None"
| "dismiss_recursive (Suc f) s w =
     dismiss_loop f (sw_first (wd_series w s)) s (upd_series s (\<lambda>sw. sw\<lparr>sw_callback := False\<rparr>) w)"
| "dismiss_loop 0 t s w = Ret None"
| "dismiss_loop (Suc f) t s w =
     (case delete_task f t w of
        UB \<Rightarrow> UB
      | Ret None \<Rightarrow> Ret None
      | Ret (Some w1) \<Rightarrow>
          (case pop_task s w1 of
             UB \<Rightarrow> UB
           | Ret (None, w2) \<Rightarrow> Ret (Some w2)
           | Ret (Some t', w2) \<Rightarrow> dismiss_loop f t' s w2))"

text \<open>The loop of \<open>pop\<close> on a canceled series.\<close>

fun cancel_loop :: "nat \<Rightarrow> nat option \<Rightarrow> nat \<Rightarrow> world \<Rightarrow> world option outcome" where
  "cancel_loop f None s w = Ret (Some w)"
| "cancel_loop 0 (Some t) s w = Ret None"
| "cancel_loop (Suc f) (Some t) s w =
     (case delete_task f t w of
        UB \<Rightarrow> UB
      | Ret None \<Rightarrow> Ret None
      | Ret (Some w1) \<Rightarrow> (case pop_task s w1 of UB \<Rightarrow> UB | Ret (t', w2) \<Rightarrow> cancel_loop f t' s w2))"

definition series_pop :: "nat \<Rightarrow> nat \<Rightarrow> world \<Rightarrow> (nat option \<times> world) option outcome" where
  "series_pop f s w =
     (let canceled = sw_canceled (wd_series w s) in
      case pop_task s w of
        UB \<Rightarrow> UB
      | Ret (task, w1) \<Rightarrow>
          if \<not> canceled then Ret (Some (task, w1))
          else
            (case cancel_loop f task s w1 of
               UB \<Rightarrow> UB | Ret None \<Rightarrow> Ret None | Ret (Some w2) \<Rightarrow> Ret (Some (None, w2))))"

definition series_dismiss :: "nat \<Rightarrow> nat \<Rightarrow> world \<Rightarrow> world option outcome" where
  "series_dismiss f s w = (if sw_in_parallel (wd_series w s) then UB else dismiss_recursive f s w)"

section \<open>Parallel works\<close>

definition parallel_init :: "nat \<Rightarrow> bool \<Rightarrow> world \<Rightarrow> world" where
  "parallel_init p cb w =
     w\<lparr>wd_par := (wd_par w)(p := Some \<lparr>pw_callback = cb, pw_subtasks = replicate 4 None,
       pw_all_series = replicate 4 None, pw_nr = 0, pw_nleft = 0\<rparr>)\<rparr>"

definition expand_buf :: "parallel_work \<Rightarrow> parallel_work" where
  "expand_buf p =
     (let n = 2 * length (pw_subtasks p) in
      p\<lparr>pw_subtasks := take (pw_nr p) (pw_subtasks p) @ replicate (n - pw_nr p) None,
        pw_all_series := take (pw_nr p) (pw_all_series p) @ replicate (n - pw_nr p) None\<rparr>)"

text \<open>\<open>add_series\<close>, for a series that belongs to no parallel work.\<close>

definition add_series :: "nat \<Rightarrow> nat \<Rightarrow> world \<Rightarrow> world outcome" where
  "add_series p s w =
     (case wd_par w p of
        None \<Rightarrow> UB
      | Some pw \<Rightarrow>
          let q = (if pw_nr pw = length (pw_subtasks pw) then expand_buf pw else pw) in
          if sw_in_parallel (wd_series w s) then UB
          else
            Ret ((upd_series s (\<lambda>sw. sw\<lparr>sw_in_parallel := True\<rparr>) w)
              \<lparr>wd_par := (wd_par w)(p := Some (q\<lparr>pw_all_series := (pw_all_series q)[pw_nr q := Some s],
                pw_subtasks := (pw_subtasks q)[pw_nr q := Some (sw_first (wd_series w s))],
                pw_nr := pw_nr q + 1\<rparr>))\<rparr>))"

text \<open>The constructor with an array of series.\<close>

fun init_series :: "nat list \<Rightarrow> nat \<Rightarrow> world \<Rightarrow> world outcome" where
  "init_series [] p w = Ret w"
| "init_series (s # ss) p w = (case add_series p s w of UB \<Rightarrow> UB | Ret w1 \<Rightarrow> init_series ss p w1)"

definition parallel_init_series :: "nat \<Rightarrow> nat list \<Rightarrow> bool \<Rightarrow> world \<Rightarrow> world outcome" where
  "parallel_init_series p ss cb w =
     (let n = max (length ss) 4 in
      init_series ss p
        (w\<lparr>wd_par := (wd_par w)(p := Some \<lparr>pw_callback = cb, pw_subtasks = replicate n None,
          pw_all_series = replicate n None, pw_nr = 0, pw_nleft = 0\<rparr>)\<rparr>))"

definition series_at :: "parallel_work \<Rightarrow> nat \<Rightarrow> nat option" where
  "series_at p index = (if index < pw_nr p then pw_all_series p ! index else None)"

text \<open>
  \<open>ParallelWork::done\<close>: the callback, the deletion of the series, \<open>delete this\<close>, the next task. The
  destructor dismisses the series that \<open>subtasks_nr\<close> still counts, as in \<open>delete_task\<close>.
\<close>

definition parallel_done :: "nat \<Rightarrow> nat \<Rightarrow> parallel_work \<Rightarrow> world \<Rightarrow> (nat option \<times> world) option outcome" where
  "parallel_done f p pw w =
     (case wd_pointer w p of
        None \<Rightarrow> UB
      | Some series \<Rightarrow>
          let w1 = (if pw_callback pw then log_event (ParallelCallback p) w else w);
              w2 = foldl (\<lambda>w s. log_event (SeriesDeleted (the s)) w) w1 (take (pw_nr pw) (pw_all_series pw));
              pw' = pw\<lparr>pw_nr := 0\<rparr>;
              w3 = w2\<lparr>wd_par := (wd_par w2)(p := Some pw')\<rparr>
          in case delete_series (Suc f) (take (pw_nr pw') (pw_all_series pw')) w3 of
               UB \<Rightarrow> UB
             | Ret None \<Rightarrow> Ret None
             | Ret (Some w4) \<Rightarrow> series_pop f series (log_event (TaskDeleted p) w4))"

section \<open>Completion\<close>

text \<open>
  \<open>done\<close> of a task: a parallel work, or a task like \<open>WFClientTask\<close>, whose callback is the
  user's, which deletes itself and asks its series for the next task.
\<close>

definition task_done :: "nat \<Rightarrow> nat \<Rightarrow> world \<Rightarrow> (nat option \<times> world) option outcome" where
  "task_done f t w =
     (case wd_par w t of
        Some pw \<Rightarrow> parallel_done f t pw w
      | None \<Rightarrow>
          (case wd_pointer w t of
             None \<Rightarrow> UB | Some series \<Rightarrow> series_pop f series (log_event (TaskDeleted t) w)))"

definition set_parent :: "nat \<Rightarrow> nat option \<Rightarrow> world \<Rightarrow> world" where
  "set_parent t p w = w\<lparr>wd_parent := (wd_parent w)(t := p)\<rparr>"

text \<open>
  \<open>SubTask::subtask_done\<close> and \<open>dispatch\<close>. The dispatch of a task that is no parallel work starts
  it; it is done when \<open>subtask_done\<close> is called for it.
\<close>

fun subtask_done :: "nat \<Rightarrow> nat \<Rightarrow> world \<Rightarrow> world option outcome"
and dispatch :: "nat \<Rightarrow> nat \<Rightarrow> world \<Rightarrow> world option outcome"
and dispatch_all :: "nat \<Rightarrow> nat \<Rightarrow> nat option list \<Rightarrow> world \<Rightarrow> world option outcome" where
  "subtask_done 0 cur w = Ret None"
| "subtask_done (Suc f) cur w =
     (case task_done f cur w of
        UB \<Rightarrow> UB
      | Ret None \<Rightarrow> Ret None
      | Ret (Some (Some next, w1)) \<Rightarrow> dispatch f next (set_parent next (wd_parent w cur) w1)
      | Ret (Some (None, w1)) \<Rightarrow>
          (case wd_parent w cur of
             None \<Rightarrow> Ret (Some w1)
           | Some p \<Rightarrow>
               (case wd_par w1 p of
                  None \<Rightarrow> UB
                | Some pw \<Rightarrow>
                    let n = nat ((int (pw_nleft pw) - 1) mod 2 ^ 64);
                        w2 = w1\<lparr>wd_par := (wd_par w1)(p := Some (pw\<lparr>pw_nleft := n\<rparr>))\<rparr>
                    in if n = 0 then subtask_done f p w2 else Ret (Some w2))))"
| "dispatch 0 t w = Ret None"
| "dispatch (Suc f) t w =
     (case wd_par w t of
        None \<Rightarrow> Ret (Some (log_event (Dispatched t) w))
      | Some pw \<Rightarrow>
          let w1 = w\<lparr>wd_par := (wd_par w)(t := Some (pw\<lparr>pw_nleft := pw_nr pw\<rparr>))\<rparr> in
          if pw_nr pw \<noteq> 0 then dispatch_all f t (take (pw_nr pw) (pw_subtasks pw)) w1
          else subtask_done f t w1)"
| "dispatch_all 0 p ts w = Ret None"
| "dispatch_all (Suc f) p [] w = Ret (Some w)"
| "dispatch_all (Suc f) p (None # ts) w = UB"
| "dispatch_all (Suc f) p (Some t # ts) w =
     (case dispatch f t (set_parent t (Some p) w) of
        UB \<Rightarrow> UB | Ret None \<Rightarrow> Ret None | Ret (Some w1) \<Rightarrow> dispatch_all f p ts w1)"

definition start_series :: "nat \<Rightarrow> nat \<Rightarrow> world \<Rightarrow> world option outcome" where
  "start_series f s w =
     (if sw_in_parallel (wd_series w s) then UB else dispatch f (sw_first (wd_series w s)) w)"

end
