(* ===== verification/WorkflowQueue.thy ===== *)
theory WorkflowQueue
  imports Workflow
begin

text \<open>
  The task queue of a series: the ring array refines a list of tasks, in every operation and
  across the growth of the array, and is an instance of the queue interface.
\<close>

section \<open>The ring as a list\<close>

definition ring_list :: "nat option list \<Rightarrow> nat \<Rightarrow> nat \<Rightarrow> nat option list" where
  "ring_list q f c = map (\<lambda>k. q ! ((f + k) mod length q)) [0..<c]"

definition ring_holds :: "series_work \<Rightarrow> nat list \<Rightarrow> bool" where
  "ring_holds s xs \<longleftrightarrow>
     sw_front s < length (sw_queue s) \<and> length xs < length (sw_queue s)
     \<and> sw_back s = (sw_front s + length xs) mod length (sw_queue s)
     \<and> ring_list (sw_queue s) (sw_front s) (length xs) = map Some xs"

text \<open>Only the ring of a series changes.\<close>

definition ring_only :: "series_work \<Rightarrow> series_work \<Rightarrow> bool" where
  "ring_only s s' \<longleftrightarrow> sw_callback s' = sw_callback s \<and> sw_first s' = sw_first s \<and> sw_last s' = sw_last s
     \<and> sw_in_parallel s' = sw_in_parallel s \<and> sw_canceled s' = sw_canceled s \<and> sw_finished s' = sw_finished s"

lemma length_ring_list [simp]: "length (ring_list q f c) = c"
  by (simp add: ring_list_def)

lemma wrap_index: "f < n \<Longrightarrow> k \<le> n \<Longrightarrow> (f + k) mod n = (if f + k < n then f + k else f + k - (n :: nat))"
  by (auto simp: le_mod_geq)

lemma wrap_lt: "f < n \<Longrightarrow> (f + k) mod n < (n :: nat)"
  by (rule mod_less_divisor) linarith

lemma wrap_shift: "((f + 1) mod n + k) mod n = (f + (k + 1)) mod (n :: nat)"
  by (metis add.assoc add.commute mod_add_left_eq)

lemma wrap_neq: "f < n \<Longrightarrow> 0 < k \<Longrightarrow> k < n \<Longrightarrow> (f + k) mod n \<noteq> (f :: nat)"
  by (auto simp: wrap_index)

lemma wrap_inj: "f < n \<Longrightarrow> k < c \<Longrightarrow> c < n \<Longrightarrow> (f + k) mod n \<noteq> (f + c) mod (n :: nat)"
  by (auto simp: wrap_index)

lemma next_index: "j < n \<Longrightarrow> (j + 1) mod n = (if j + 1 = n then 0 else j + (1 :: nat))"
  by auto

lemma ring_list_snoc:
  assumes "f < length q" "c < length q"
  shows "ring_list (q[(f + c) mod length q := x]) f (c + 1) = ring_list q f c @ [x]"
proof -
  have "(f + c) mod length q \<noteq> (f + k) mod length q" if "k < c" for k
    by (rule wrap_inj [OF assms(1) that assms(2), symmetric])
  moreover have "(f + c) mod length q < length q"
    by (rule wrap_lt [OF assms(1)])
  ultimately show ?thesis
    by (simp add: ring_list_def)
qed

lemma ring_list_head:
  assumes "f < length q" "c < length q"
  shows "ring_list q f (c + 1) = q ! f # ring_list q ((f + 1) mod length q) c"
  using assms(1) by (simp add: ring_list_def wrap_shift [unfolded Suc_eq_plus1 [symmetric]] map_upt_Suc del: upt_Suc)

lemma ring_list_push_front:
  assumes "f' < length q" "c < length q" "f = (f' + 1) mod length q"
  shows "ring_list (q[f' := x]) f' (c + 1) = x # ring_list q f c"
proof -
  have "f' \<noteq> (f + k) mod length q" if "k < c" for k
  proof -
    have "(f + k) mod length q = (f' + (k + 1)) mod length q"
      unfolding assms(3) by (rule wrap_shift)
    then show ?thesis using wrap_neq [OF assms(1), of "k + 1"] assms(2) that by auto
  qed
  then have "ring_list (q[f' := x]) f c = ring_list q f c"
    by (simp add: ring_list_def)
  then show ?thesis
    using ring_list_head [of f' "q[f' := x]" c] assms by simp
qed

lemma expand_loop_ring:
  assumes "f < length q" "i < length q" "new = ring_list q f i @ replicate (2 * length q - i) None"
  shows "expand_loop q f i ((f + i) mod length q) new = Ret (length q, ring_list q f (length q) @ replicate (length q) None)"
  using assms(2,3)
proof (induction "length q - i" arbitrary: i new rule: less_induct)
  case less
  let ?n = "length q"
  let ?j = "(f + i) mod ?n"
  have j: "?j < ?n" by (rule wrap_lt [OF assms(1)])
  have l: "i < length new" using less.prems by simp
  have r: "replicate (2 * ?n - i) None = None # replicate (2 * ?n - (i + 1)) (None :: nat option)"
    using less.prems(1) by (metis Suc_diff_Suc Suc_eq_plus1 replicate_Suc less_le_trans mult_2 le_add1)
  have new: "new[i := q ! ?j] = ring_list q f (i + 1) @ replicate (2 * ?n - (i + 1)) None"
    unfolding less.prems(2) r by (simp add: ring_list_def list_update_append)
  have j': "(if ?j + 1 = ?n then 0 else ?j + 1) = (f + (i + 1)) mod ?n"
    using next_index [OF j] by (simp add: mod_simps)
  show ?case
  proof (cases "i + 1 = ?n")
    case True
    have "(f + (i + 1)) mod ?n = f" using True assms(1) by simp
    then show ?thesis
      using l j new j' True by (subst expand_loop.simps) (simp add: Let_def)
  next
    case False
    then have i1: "i + 1 < ?n" using less.prems(1) by simp
    have "(f + (i + 1)) mod ?n \<noteq> f" by (rule wrap_neq [OF assms(1) _ i1]) simp
    then show ?thesis
      using l j new j' less.hyps [of "i + 1", OF _ i1 refl] less.prems(1)
      by (subst expand_loop.simps) (simp add: Let_def)
  qed
qed

section \<open>The operations on the ring\<close>

lemma expand_holds:
  assumes "sw_front s < length (sw_queue s)" "sw_back s = sw_front s" "length xs = length (sw_queue s)"
    "ring_list (sw_queue s) (sw_front s) (length xs) = map Some xs" "length (sw_queue s) < 2 ^ 30"
  shows "\<exists>s'. expand_queue s = Ret s' \<and> ring_holds s' xs \<and> ring_only s s'"
proof -
  let ?n = "length (sw_queue s)"
  have n: "0 < ?n" using assms(1) by linarith
  have "expand_loop (sw_queue s) (sw_front s) 0 (sw_front s) (replicate (2 * ?n) None)
      = Ret (?n, map Some xs @ replicate ?n None)"
    using expand_loop_ring [OF assms(1) n, of "replicate (2 * ?n) None"] assms(1,3,4) by (simp add: ring_list_def)
  moreover have "ring_list (map Some xs @ replicate ?n None) 0 (length xs) = map Some xs"
    using assms(3) n by (intro nth_equalityI) (auto simp: ring_list_def nth_append)
  ultimately show ?thesis
    using assms(2,3,5) n by (simp add: expand_queue_def ring_holds_def ring_only_def)
qed

text \<open>One more task does not fit and the array is too large to be doubled.\<close>

definition ring_full :: "series_work \<Rightarrow> nat list \<Rightarrow> bool" where
  "ring_full s xs \<longleftrightarrow> length xs + 1 = length (sw_queue s) \<and> 2 ^ 30 \<le> length (sw_queue s)"

lemma ring_push_back_cases:
  assumes "ring_holds s xs"
  shows "if ring_full s xs then ring_push_back t s = UB
    else \<exists>s'. ring_push_back t s = Ret s' \<and> ring_holds s' (xs @ [t]) \<and> ring_only s s'"
proof -
  let ?n = "length (sw_queue s)" and ?f = "sw_front s" and ?b = "sw_back s"
  have h: "?f < ?n" "length xs < ?n" "?b = (?f + length xs) mod ?n" "ring_list (sw_queue s) ?f (length xs) = map Some xs"
    using assms by (simp_all add: ring_holds_def)
  have b: "?b < ?n" unfolding h(3) by (rule wrap_lt [OF h(1)])
  let ?s = "s\<lparr>sw_queue := (sw_queue s)[?b := Some t], sw_back := (if ?b + 1 = ?n then 0 else ?b + 1)\<rparr>"
  have b': "(if ?b + 1 = ?n then 0 else ?b + 1) = (?f + (length xs + 1)) mod ?n"
    using next_index [OF b] h(3) by (simp add: mod_simps)
  have r: "ring_list ((sw_queue s)[?b := Some t]) ?f (length (xs @ [t])) = map Some (xs @ [t])"
    using ring_list_snoc [OF h(1,2), of "Some t"] h(3,4) by simp
  have e: "ring_push_back t s = (if sw_front ?s = sw_back ?s then expand_queue ?s else Ret ?s)"
    using b by (simp add: ring_push_back_def Let_def)
  show ?thesis
  proof (cases "length xs + 1 = ?n")
    case True
    then have bf: "sw_back ?s = ?f" using b' h(1) by simp
    show ?thesis
    proof (cases "?n < 2 ^ 30")
      case n: True
      then show ?thesis
        using expand_holds [of ?s "xs @ [t]"] h(1) True bf r e by (auto simp: ring_only_def ring_full_def)
    next
      case n: False
      have "ring_push_back t s = UB" unfolding e using bf n by (simp add: expand_queue_def)
      then show ?thesis using True n by (simp add: ring_full_def)
    qed
  next
    case False
    then have "sw_back ?s \<noteq> ?f" using b' wrap_neq [OF h(1), of "length xs + 1"] h(2) by simp
    then show ?thesis
      using e r h False b' by (simp add: ring_holds_def ring_only_def ring_full_def)
  qed
qed

lemma ring_push_front_cases:
  assumes "ring_holds s xs"
  shows "if ring_full s xs then ring_push_front t s = UB
    else \<exists>s'. ring_push_front t s = Ret s' \<and> ring_holds s' (t # xs) \<and> ring_only s s'"
proof -
  let ?n = "length (sw_queue s)" and ?f = "sw_front s" and ?b = "sw_back s"
  define f' where "f' = (if ?f = 0 then ?n - 1 else ?f - 1)"
  have h: "?f < ?n" "length xs < ?n" "?b = (?f + length xs) mod ?n" "ring_list (sw_queue s) ?f (length xs) = map Some xs"
    using assms by (simp_all add: ring_holds_def)
  have f': "f' < ?n" "?f = (f' + 1) mod ?n"
    using h(1) by (auto simp: f'_def)
  let ?s = "s\<lparr>sw_front := f', sw_queue := (sw_queue s)[f' := Some t]\<rparr>"
  have b: "?b = (f' + (length xs + 1)) mod ?n"
    unfolding h(3) using f'(2) by (metis (no_types, lifting) add.assoc add.commute mod_add_left_eq)
  have r: "ring_list ((sw_queue s)[f' := Some t]) f' (length (t # xs)) = map Some (t # xs)"
    using ring_list_push_front [OF f'(1) h(2) f'(2), of "Some t"] h(4) by simp
  have e: "ring_push_front t s = (if sw_front ?s = sw_back ?s then expand_queue ?s else Ret ?s)"
    using f'(1) by (simp add: ring_push_front_def Let_def f'_def)
  show ?thesis
  proof (cases "length xs + 1 = ?n")
    case True
    then have bf: "?b = f'" using b f'(1) by simp
    show ?thesis
    proof (cases "?n < 2 ^ 30")
      case n: True
      then show ?thesis
        using expand_holds [of ?s "t # xs"] f'(1) True bf r e by (auto simp: ring_only_def ring_full_def)
    next
      case n: False
      have "ring_push_front t s = UB" unfolding e using bf n by (simp add: expand_queue_def)
      then show ?thesis using True n by (simp add: ring_full_def)
    qed
  next
    case False
    then have "f' \<noteq> ?b" using b wrap_neq [OF f'(1), of "length xs + 1"] h(2) by simp
    then show ?thesis
      using e r h f' b False by (simp add: ring_holds_def ring_only_def ring_full_def)
  qed
qed

lemma ring_push_back_holds:
  assumes "ring_holds s xs" "length xs + 1 < 2 ^ 30"
  shows "\<exists>s'. ring_push_back t s = Ret s' \<and> ring_holds s' (xs @ [t]) \<and> ring_only s s'"
  using ring_push_back_cases [OF assms(1), of t] assms(2) by (auto simp: ring_full_def split: if_splits)

lemma ring_pop_holds:
  assumes "ring_holds s (t # xs)"
  shows "\<exists>s'. ring_pop s = Ret (Some t, s') \<and> ring_holds s' xs \<and> ring_only s s'"
proof -
  let ?n = "length (sw_queue s)" and ?f = "sw_front s"
  have h: "?f < ?n" "Suc (length xs) < ?n" "sw_back s = (?f + Suc (length xs)) mod ?n"
    "ring_list (sw_queue s) ?f (length xs + 1) = map Some (t # xs)"
    using assms by (simp_all add: ring_holds_def)
  have l: "length xs < ?n" using h(2) by simp
  have r: "sw_queue s ! ?f = Some t" "ring_list (sw_queue s) ((?f + 1) mod ?n) (length xs) = map Some xs"
    using ring_list_head [OF h(1) l] h(4) by simp_all
  have ne: "?f \<noteq> sw_back s" using wrap_neq [OF h(1), of "Suc (length xs)"] h(2,3) by simp
  have "(?f + 1) mod ?n < ?n" by (rule wrap_lt [OF h(1)])
  moreover have "sw_back s = ((?f + 1) mod ?n + length xs) mod ?n"
    unfolding h(3) wrap_shift by simp
  ultimately show ?thesis
    using ne h(1) l r next_index [OF h(1)] by (simp add: ring_pop_def ring_holds_def ring_only_def)
qed

lemma ring_pop_empty:
  assumes "ring_holds s []"
  shows "ring_pop s = Ret (sw_last s, s\<lparr>sw_last := None\<rparr>)"
  using assms by (simp add: ring_holds_def ring_pop_def)

lemma ring_holds_cong:
  "sw_queue s' = sw_queue s \<Longrightarrow> sw_front s' = sw_front s \<Longrightarrow> sw_back s' = sw_back s \<Longrightarrow> ring_holds s' xs = ring_holds s xs"
  by (simp add: ring_holds_def)

end
