(* ===== verification/WorkflowParallel.thy ===== *)
theory WorkflowParallel
  imports WorkflowQueue
begin

text \<open>
  Runs through several series: what \<open>pop_task\<close> leaves of a series, the loop that empties a
  canceled series, the dispatch of a parallel work and the completion of its tasks.
\<close>

section \<open>\<open>pop_task\<close> in its three cases\<close>

lemmas world_steps = upd_series_def log_event_def set_parent_def set_pointer_def

lemma pop_task_ring:
  assumes "ring_holds (wd_series w s) (x # ys)"
  shows "\<exists>sw. pop_task s w = Ret (Some x, upd_series s (\<lambda>_. sw) w) \<and> ring_holds sw ys \<and> ring_only (wd_series w s) sw"
  using ring_pop_holds [OF assms] by (auto simp: pop_task_def)

lemma pop_task_last:
  assumes "ring_holds (wd_series w s) []" "sw_last (wd_series w s) = Some t"
  shows "pop_task s w = Ret (Some t, upd_series s (\<lambda>sw. sw\<lparr>sw_last := None\<rparr>) w)"
  using assms(2) ring_pop_empty [OF assms(1)] by (simp add: pop_task_def upd_series_def)

definition end_events :: "nat \<Rightarrow> series_work \<Rightarrow> wf_event list" where
  "end_events s sw = (if sw_callback sw then [SeriesCallback s] else [])
     @ (if sw_in_parallel sw then [] else [SeriesDeleted s])"

lemma pop_task_end:
  assumes "ring_holds (wd_series w s) []" "sw_last (wd_series w s) = None"
  shows "\<exists>w'. pop_task s w = Ret (None, w') \<and> wd_log w' = wd_log w @ end_events s (wd_series w s)
    \<and> (\<forall>s'. s' \<noteq> s \<longrightarrow> wd_series w' s' = wd_series w s')
    \<and> wd_par w' = wd_par w \<and> wd_parent w' = wd_parent w \<and> wd_pointer w' = wd_pointer w"
  using assms(2) ring_pop_empty [OF assms(1)] by (simp add: pop_task_def world_steps Let_def end_events_def)

section \<open>The cancelation loop\<close>

text \<open>The tasks a series still has: those of the ring, then the last one.\<close>

definition left_tasks :: "nat list \<Rightarrow> series_work \<Rightarrow> nat list" where
  "left_tasks xs sw = xs @ (case sw_last sw of None \<Rightarrow> [] | Some t \<Rightarrow> [t])"

lemma cancel_loop_step:
  assumes "wd_par w t = None" "2 \<le> f"
  shows "cancel_loop f (Some t) s w
    = (case pop_task s (log_event (TaskDeleted t) w) of UB \<Rightarrow> UB | Ret (t', w2) \<Rightarrow> cancel_loop (f - 1) t' s w2)"
proof -
  define g where "g = f - 2"
  have f: "f = Suc (Suc g)" using assms(2) by (simp add: g_def)
  show ?thesis using assms(1) unfolding f diff_Suc_1 by simp
qed

lemma cancel_pops_end:
  assumes "ring_holds (wd_series w s) []" "sw_last (wd_series w s) = None"
  shows "\<exists>w'. pop_task s w = Ret (None, w') \<and> cancel_loop f None s w' = Ret (Some w')
    \<and> wd_log w' = wd_log w @ end_events s (wd_series w s)"
  using pop_task_end [OF assms] by auto

lemma cancel_pops:
  assumes "ring_holds (wd_series w s) xs" "\<forall>t\<in>set (left_tasks xs (wd_series w s)). wd_par w t = None"
    "length xs + 2 \<le> f"
  shows "\<exists>r w1 w2. pop_task s w = Ret (r, w1) \<and> cancel_loop f r s w1 = Ret (Some w2)
    \<and> wd_log w2 = wd_log w @ map TaskDeleted (left_tasks xs (wd_series w s)) @ end_events s (wd_series w s)"
  using assms
proof (induction xs arbitrary: w f)
  case Nil
  show ?case
  proof (cases "sw_last (wd_series w s)")
    case None
    then show ?thesis
      using cancel_pops_end [OF Nil.prems(1) None, of f] by (auto simp: left_tasks_def)
  next
    case (Some t)
    let ?w1 = "upd_series s (\<lambda>sw. sw\<lparr>sw_last := None\<rparr>) w"
    let ?v = "log_event (TaskDeleted t) ?w1"
    have par: "wd_par ?w1 t = None"
      using Nil.prems(2) Some by (simp add: left_tasks_def upd_series_def)
    have v: "ring_holds (wd_series ?v s) []" "sw_last (wd_series ?v s) = None"
        "wd_log ?v = wd_log w @ [TaskDeleted t]" "end_events s (wd_series ?v s) = end_events s (wd_series w s)"
      using Nil.prems(1) by (simp_all add: world_steps ring_holds_def end_events_def)
    have "2 \<le> f" using Nil.prems(3) by simp
    then show ?thesis
      using cancel_pops_end [OF v(1,2), of "f - 1"] cancel_loop_step [OF par, of f s]
        pop_task_last [OF Nil.prems(1) Some] v(3,4) Some
      by (auto simp: left_tasks_def)
  qed
next
  case (Cons x ys)
  obtain sw where p: "pop_task s w = Ret (Some x, upd_series s (\<lambda>_. sw) w)" "ring_holds sw ys"
      "ring_only (wd_series w s) sw"
    using pop_task_ring [OF Cons.prems(1)] by blast
  let ?w1 = "upd_series s (\<lambda>_. sw) w"
  let ?v = "log_event (TaskDeleted x) ?w1"
  have lt: "left_tasks ys sw = left_tasks ys (wd_series w s)" "end_events s sw = end_events s (wd_series w s)"
    using p(3) by (simp_all add: left_tasks_def ring_only_def end_events_def)
  have v: "wd_series ?v s = sw" "wd_par ?v = wd_par w" "wd_log ?v = wd_log w @ [TaskDeleted x]" "wd_par ?w1 = wd_par w"
    by (simp_all add: world_steps)
  have "\<exists>r w1 w2. pop_task s ?v = Ret (r, w1) \<and> cancel_loop (f - 1) r s w1 = Ret (Some w2)
      \<and> wd_log w2 = wd_log ?v @ map TaskDeleted (left_tasks ys (wd_series ?v s)) @ end_events s (wd_series ?v s)"
    using Cons.prems(2,3) p(2) lt v by (intro Cons.IH) (auto simp: left_tasks_def)
  moreover have "cancel_loop f (Some x) s ?w1
      = (case pop_task s ?v of UB \<Rightarrow> UB | Ret (t', w2) \<Rightarrow> cancel_loop (f - 1) t' s w2)"
    using Cons.prems(2,3) v by (intro cancel_loop_step) (auto simp: left_tasks_def)
  ultimately show ?case
    using p(1) v lt by (auto simp: left_tasks_def)
qed

section \<open>The dispatch of a parallel work\<close>

lemma dispatch_all_plain:
  assumes "\<forall>t\<in>set ts. wd_par w t = None" "length ts < f"
  shows "\<exists>w'. dispatch_all f p (map Some ts) w = Ret (Some w') \<and> wd_log w' = wd_log w @ map Dispatched ts
    \<and> (\<forall>t. wd_parent w' t = (if t \<in> set ts then Some p else wd_parent w t))
    \<and> wd_par w' = wd_par w \<and> wd_series w' = wd_series w \<and> wd_pointer w' = wd_pointer w"
  using assms
proof (induction ts arbitrary: f w)
  case Nil
  then show ?case by (cases f) auto
next
  case (Cons t ts)
  obtain g where f: "f = Suc (Suc g)"
    using Cons.prems(2) by (cases f; cases "f - 1") auto
  let ?w1 = "log_event (Dispatched t) (set_parent t (Some p) w)"
  have d: "dispatch_all f p (map Some (t # ts)) w = dispatch_all (Suc g) p (map Some ts) ?w1"
    using Cons.prems(1) unfolding f by (simp add: set_parent_def)
  have "\<exists>w'. dispatch_all (Suc g) p (map Some ts) ?w1 = Ret (Some w') \<and> wd_log w' = wd_log ?w1 @ map Dispatched ts
    \<and> (\<forall>t'. wd_parent w' t' = (if t' \<in> set ts then Some p else wd_parent ?w1 t'))
    \<and> wd_par w' = wd_par ?w1 \<and> wd_series w' = wd_series ?w1 \<and> wd_pointer w' = wd_pointer ?w1"
    using Cons.prems f by (intro Cons.IH) (auto simp: world_steps)
  then show ?case
    unfolding d by (auto simp: world_steps)
qed

section \<open>The completion of the tasks of a parallel work\<close>

text \<open>The tasks complete one after the other.\<close>

fun complete_all :: "nat \<Rightarrow> nat list \<Rightarrow> world \<Rightarrow> world option outcome" where
  "complete_all f [] w = Ret (Some w)"
| "complete_all f (t # ts) w =
     (case subtask_done f t w of UB \<Rightarrow> UB | Ret None \<Rightarrow> Ret None | Ret (Some w1) \<Rightarrow> complete_all f ts w1)"

text \<open>A started task of a series of \<open>p\<close> in which no other task is left.\<close>

definition subtask_ready :: "world \<Rightarrow> nat \<Rightarrow> nat \<Rightarrow> bool" where
  "subtask_ready w p t \<longleftrightarrow> wd_par w t = None \<and> wd_parent w t = Some p
     \<and> (case wd_pointer w t of None \<Rightarrow> False | Some s \<Rightarrow>
          ring_holds (wd_series w s) [] \<and> sw_last (wd_series w s) = None
          \<and> \<not> sw_canceled (wd_series w s) \<and> sw_in_parallel (wd_series w s))"

definition sub_events :: "world \<Rightarrow> nat \<Rightarrow> wf_event list" where
  "sub_events w t = TaskDeleted t # end_events (the (wd_pointer w t)) (wd_series w (the (wd_pointer w t)))"

text \<open>What the completion of other tasks keeps.\<close>

definition same_but :: "nat option set \<Rightarrow> world \<Rightarrow> world \<Rightarrow> bool" where
  "same_but ss w w' \<longleftrightarrow> (\<forall>s. Some s \<notin> ss \<longrightarrow> wd_series w' s = wd_series w s)
     \<and> wd_pointer w' = wd_pointer w \<and> wd_parent w' = wd_parent w"

lemma sub_complete:
  assumes "subtask_ready w p t" "wd_par w p = Some pw" "0 < pw_nleft pw" "pw_nleft pw < 2 ^ 64"
  shows "\<exists>w2. subtask_done (Suc f) t w = (if pw_nleft pw = 1 then subtask_done f p w2 else Ret (Some w2))
    \<and> wd_log w2 = wd_log w @ sub_events w t \<and> same_but {wd_pointer w t} w w2
    \<and> wd_par w2 = (wd_par w)(p := Some (pw\<lparr>pw_nleft := pw_nleft pw - 1\<rparr>))"
proof -
  obtain s where s: "wd_pointer w t = Some s" "ring_holds (wd_series w s) []" "sw_last (wd_series w s) = None"
      "\<not> sw_canceled (wd_series w s)" and t: "wd_par w t = None" "wd_parent w t = Some p"
    using assms(1) by (auto simp: subtask_ready_def split: option.splits)
  let ?v = "log_event (TaskDeleted t) w"
  have v: "wd_series ?v = wd_series w" "wd_par ?v = wd_par w" "wd_parent ?v = wd_parent w"
      "wd_pointer ?v = wd_pointer w" "wd_log ?v = wd_log w @ [TaskDeleted t]"
    by (simp_all add: log_event_def)
  obtain w1 where w1: "pop_task s ?v = Ret (None, w1)" "wd_log w1 = wd_log ?v @ end_events s (wd_series w s)"
      "\<forall>s'. s' \<noteq> s \<longrightarrow> wd_series w1 s' = wd_series w s'"
      "wd_par w1 = wd_par w" "wd_parent w1 = wd_parent w" "wd_pointer w1 = wd_pointer w"
    using pop_task_end [of ?v s] s v by auto
  have "task_done f t w = Ret (Some (None, w1))"
    using t s w1(1) v by (simp add: task_done_def series_pop_def)
  moreover have "nat ((int (pw_nleft pw) - 1) mod 2 ^ 64) = pw_nleft pw - 1"
  proof -
    have "(int (pw_nleft pw) - 1) mod 2 ^ 64 = int (pw_nleft pw) - 1"
      using assms(3,4) by (intro mod_pos_pos_trivial) auto
    then show ?thesis using assms(3) by simp
  qed
  moreover have "pw_nleft pw - 1 = 0 \<longleftrightarrow> pw_nleft pw = 1" using assms(3) by auto
  ultimately show ?thesis
    using t assms(2) w1 s(1) v(5)
    by (intro exI [of _ "w1\<lparr>wd_par := (wd_par w)(p := Some (pw\<lparr>pw_nleft := pw_nleft pw - 1\<rparr>))\<rparr>"])
      (simp add: Let_def sub_events_def same_but_def)
qed

lemma subtask_ready_other:
  assumes "subtask_ready w p t'" "same_but {wd_pointer w t} w w2" "wd_pointer w t' \<noteq> wd_pointer w t"
    "wd_par w2 t' = wd_par w t'"
  shows "subtask_ready w2 p t' \<and> sub_events w2 t' = sub_events w t'"
  using assms by (auto simp: subtask_ready_def same_but_def sub_events_def split: option.splits)

text \<open>While a task is left, the completion of the others ends their series and nothing else.\<close>

lemma complete_some:
  assumes "\<forall>t\<in>set ts. subtask_ready w p t" "distinct (map (wd_pointer w) ts)"
    "wd_par w p = Some pw" "length ts < pw_nleft pw" "pw_nleft pw < 2 ^ 64"
  shows "\<exists>w'. complete_all (Suc f) ts w = Ret (Some w') \<and> wd_log w' = wd_log w @ concat (map (sub_events w) ts)
    \<and> same_but (set (map (wd_pointer w) ts)) w w'
    \<and> wd_par w' = (wd_par w)(p := Some (pw\<lparr>pw_nleft := pw_nleft pw - length ts\<rparr>))"
  using assms
proof (induction ts arbitrary: w pw)
  case Nil
  then show ?case by (auto simp: same_but_def)
next
  case (Cons t ts)
  have nl: "0 < pw_nleft pw" "pw_nleft pw \<noteq> 1" using Cons.prems(4) by auto
  have tp: "subtask_ready w p t" using Cons.prems(1) by simp
  obtain w2 where w2: "subtask_done (Suc f) t w = Ret (Some w2)" "wd_log w2 = wd_log w @ sub_events w t"
      "same_but {wd_pointer w t} w w2" "wd_par w2 = (wd_par w)(p := Some (pw\<lparr>pw_nleft := pw_nleft pw - 1\<rparr>))"
    using sub_complete [OF tp Cons.prems(3) nl(1) Cons.prems(5), of f] nl(2) by auto
  have ne: "\<forall>t'\<in>set ts. t' \<noteq> p"
    using Cons.prems(1,3) by (auto simp: subtask_ready_def)
  have ptr: "wd_pointer w2 = wd_pointer w" using w2(3) by (simp add: same_but_def)
  have r: "\<forall>t'\<in>set ts. subtask_ready w2 p t' \<and> sub_events w2 t' = sub_events w t'"
  proof
    fix t' assume t': "t' \<in> set ts"
    then have "wd_pointer w t' \<noteq> wd_pointer w t"
      using Cons.prems(2) by (metis distinct.simps(2) imageI list.set_map list.simps(9))
    then show "subtask_ready w2 p t' \<and> sub_events w2 t' = sub_events w t'"
      using Cons.prems(1) ne w2(3,4) t' by (intro subtask_ready_other) auto
  qed
  let ?pw = "pw\<lparr>pw_nleft := pw_nleft pw - 1\<rparr>"
  obtain w' where w': "complete_all (Suc f) ts w2 = Ret (Some w')"
      "wd_log w' = wd_log w2 @ concat (map (sub_events w2) ts)"
      "same_but (set (map (wd_pointer w2) ts)) w2 w'"
      "wd_par w' = (wd_par w2)(p := Some (?pw\<lparr>pw_nleft := pw_nleft ?pw - length ts\<rparr>))"
  proof -
    have "\<exists>w'. complete_all (Suc f) ts w2 = Ret (Some w')
      \<and> wd_log w' = wd_log w2 @ concat (map (sub_events w2) ts)
      \<and> same_but (set (map (wd_pointer w2) ts)) w2 w'
      \<and> wd_par w' = (wd_par w2)(p := Some (?pw\<lparr>pw_nleft := pw_nleft ?pw - length ts\<rparr>))"
      using Cons.prems r w2(4) ptr by (intro Cons.IH) auto
    then show ?thesis using that by blast
  qed
  have "complete_all (Suc f) (t # ts) w = Ret (Some w')"
    using w2(1) w'(1) by (simp del: subtask_done.simps)
  moreover have "wd_log w' = wd_log w @ concat (map (sub_events w) (t # ts))"
    using w'(2) w2(2) r by (simp cong: map_cong)
  moreover have "same_but (set (map (wd_pointer w) (t # ts))) w w'"
    using w'(3) w2(3) ptr by (auto simp: same_but_def)
  moreover have "wd_par w' = (wd_par w)(p := Some (pw\<lparr>pw_nleft := pw_nleft pw - length (t # ts)\<rparr>))"
    using w'(4) w2(4) by simp
  ultimately show ?case by blast
qed

section \<open>The end of a parallel work\<close>

lemma log_deleted:
  "foldl (\<lambda>w s. log_event (SeriesDeleted (the s)) w) w ss = w\<lparr>wd_log := wd_log w @ map (\<lambda>s. SeriesDeleted (the s)) ss\<rparr>"
  by (induction ss arbitrary: w) (simp_all add: log_event_def)

text \<open>The last task: \<open>done\<close> of the parallel work, and the next task of its own series.\<close>

lemma last_complete:
  assumes "subtask_ready w p t" "wd_par w p = Some pw" "pw_nleft pw = 1"
    "wd_pointer w p = Some outer" "wd_pointer w t \<noteq> Some outer" "\<not> sw_canceled (wd_series w outer)"
    "ring_holds (wd_series w outer) (x # ys)" "wd_par w x = None"
  shows "\<exists>w'. subtask_done (Suc (Suc (Suc f))) t w = Ret (Some w')
    \<and> wd_log w' = wd_log w @ sub_events w t @ (if pw_callback pw then [ParallelCallback p] else [])
        @ map (\<lambda>s. SeriesDeleted (the s)) (take (pw_nr pw) (pw_all_series pw)) @ [TaskDeleted p, Dispatched x]
    \<and> wd_parent w' x = wd_parent w p \<and> ring_holds (wd_series w' outer) ys"
proof -
  let ?g = "Suc (Suc f)"
  obtain w2 where w2: "subtask_done (Suc ?g) t w = subtask_done ?g p w2"
      "wd_log w2 = wd_log w @ sub_events w t" "same_but {wd_pointer w t} w w2"
      "wd_par w2 = (wd_par w)(p := Some (pw\<lparr>pw_nleft := 0\<rparr>))"
    using sub_complete [OF assms(1,2), of ?g] assms(3) by auto
  let ?pw = "pw\<lparr>pw_nleft := 0\<rparr>"
  have o: "wd_pointer w2 p = Some outer" "wd_series w2 outer = wd_series w outer" "wd_parent w2 = wd_parent w"
    using w2(3) assms(4,5) by (auto simp: same_but_def)
  have x: "x \<noteq> p" using assms(2,8) by auto
  define w3 where "w3 = w2\<lparr>wd_par := (wd_par w2)(p := Some (?pw\<lparr>pw_nr := 0\<rparr>)),
    wd_log := wd_log w2 @ (if pw_callback pw then [ParallelCallback p] else [])
      @ map (\<lambda>s. SeriesDeleted (the s)) (take (pw_nr pw) (pw_all_series pw)) @ [TaskDeleted p]\<rparr>"
  have pd: "parallel_done (Suc f) p ?pw w2 = series_pop (Suc f) outer w3"
    unfolding parallel_done_def Let_def log_deleted using o(1) by (simp add: log_event_def w3_def)
  have "ring_holds (wd_series w3 outer) (x # ys)"
    using o(2) assms(7) by (simp add: w3_def)
  then obtain sw where sw: "pop_task outer w3 = Ret (Some x, upd_series outer (\<lambda>_. sw) w3)" "ring_holds sw ys"
    using pop_task_ring by blast
  let ?w4 = "set_parent x (wd_parent w p) (upd_series outer (\<lambda>_. sw) w3)"
  have "task_done (Suc f) p w2 = Ret (Some (Some x, upd_series outer (\<lambda>_. sw) w3))"
    using w2(4) pd sw(1) o(2) assms(6) by (simp add: task_done_def series_pop_def w3_def)
  then have "subtask_done ?g p w2 = dispatch (Suc f) x ?w4"
    using o(3) by simp
  moreover have "dispatch (Suc f) x ?w4 = Ret (Some (log_event (Dispatched x) ?w4))"
    using x assms(8) w2(4) by (simp add: world_steps w3_def)
  ultimately show ?thesis
    using w2(1,2) sw(2) by (simp add: world_steps w3_def)
qed

end
