(* ===== verification/WorkflowProps.thy ===== *)
theory WorkflowProps
  imports WorkflowParallel
begin

text \<open>
  The properties of series and parallel works: the queue of a series as a list of tasks, the
  cancelation of a series, and a parallel work as a barrier for its series.
\<close>

section \<open>The queue of a series\<close>

definition ring_items :: "series_work \<Rightarrow> nat list" where
  "ring_items s = map the (ring_list (sw_queue s) (sw_front s)
     ((sw_back s + length (sw_queue s) - sw_front s) mod length (sw_queue s)))"

lemma ring_items_holds: "ring_holds s xs \<Longrightarrow> ring_items s = xs"
proof -
  assume h: "ring_holds s xs"
  let ?n = "length (sw_queue s)"
  have f: "sw_front s < ?n" "length xs < ?n" "sw_back s = (sw_front s + length xs) mod ?n"
    using h by (simp_all add: ring_holds_def)
  have "(sw_back s + ?n - sw_front s) mod ?n = length xs"
    unfolding f(3) using f(1,2) by (auto simp: wrap_index)
  then show ?thesis
    using h by (simp add: ring_items_def ring_holds_def comp_def)
qed

text \<open>
  C28. The ring array of a series behaves as a list of tasks: \<open>push_back\<close> appends, \<open>push_front\<close>
  prepends, the array growing when it is full, and both make the task a member of the series, except
  when the array is full and has \<open>2 ^ 30\<close> slots or more, where doubling its size overflows an \<open>int\<close>;
  \<open>pop_task\<close> takes the first task, then the last task, and then finishes the series with its callback,
  deleting it unless it belongs to a parallel work.
\<close>

theorem series_queue_refines:
  assumes "ring_holds (wd_series w s) xs"
  shows "(if ring_full (wd_series w s) xs then series_push_back s t w = UB
      else \<exists>w'. series_push_back s t w = Ret w' \<and> ring_holds (wd_series w' s) (xs @ [t])
      \<and> wd_pointer w' = (wd_pointer w)(t := Some s) \<and> ring_only (wd_series w s) (wd_series w' s) \<and> wd_log w' = wd_log w)
    \<and> (if ring_full (wd_series w s) xs then series_push_front s t w = UB
      else \<exists>w'. series_push_front s t w = Ret w' \<and> ring_holds (wd_series w' s) (t # xs)
      \<and> wd_pointer w' = (wd_pointer w)(t := Some s) \<and> ring_only (wd_series w s) (wd_series w' s) \<and> wd_log w' = wd_log w)
    \<and> (\<exists>w'. pop_task s w = Ret
          ((case xs of x # _ \<Rightarrow> Some x | [] \<Rightarrow> sw_last (wd_series w s)), w')
      \<and> ring_holds (wd_series w' s) (tl xs)
      \<and> wd_log w' = wd_log w @
          (if xs = [] \<and> sw_last (wd_series w s) = None then
             (if sw_callback (wd_series w s) then [SeriesCallback s] else [])
             @ (if sw_in_parallel (wd_series w s) then [] else [SeriesDeleted s])
           else []))"
proof -
  note b = ring_push_back_cases [OF assms, of t] and f = ring_push_front_cases [OF assms, of t]
  have "\<exists>w'. pop_task s w = Ret ((case xs of x # _ \<Rightarrow> Some x | [] \<Rightarrow> sw_last (wd_series w s)), w')
      \<and> ring_holds (wd_series w' s) (tl xs)
      \<and> wd_log w' = wd_log w @
          (if xs = [] \<and> sw_last (wd_series w s) = None then
             (if sw_callback (wd_series w s) then [SeriesCallback s] else [])
             @ (if sw_in_parallel (wd_series w s) then [] else [SeriesDeleted s])
           else [])"
  proof (cases xs)
    case Nil
    then show ?thesis
      using assms ring_pop_empty [of "wd_series w s"]
      by (cases "sw_last (wd_series w s)")
        (simp_all add: pop_task_def Let_def upd_series_def log_event_def ring_holds_def)
  next
    case (Cons x ys)
    obtain sp where "ring_pop (wd_series w s) = Ret (Some x, sp)" "ring_holds sp ys"
      using ring_pop_holds [of "wd_series w s" x ys] assms Cons by blast
    then show ?thesis
      using Cons by (simp add: pop_task_def upd_series_def)
  qed
  then show ?thesis
    using b f by (auto simp: series_push_back_def series_push_front_def upd_series_def set_pointer_def split: if_splits)
qed

definition world0 :: world where
  "world0 = \<lparr>wd_series = (\<lambda>_. \<lparr>sw_callback = True, sw_queue = replicate 4 None, sw_front = 3, sw_back = 3,
       sw_first = 0, sw_last = None, sw_in_parallel = False, sw_canceled = False, sw_finished = False\<rparr>),
     wd_pointer = (\<lambda>_. None), wd_parent = (\<lambda>_. None), wd_par = (\<lambda>_. None), wd_log = []\<rparr>"

lemma world0_holds: "ring_holds (wd_series world0 s) []"
  by (simp add: world0_def ring_holds_def ring_list_def)

theorem series_queue_refines_witness:
  "\<exists>w' w''. series_push_front 5 9 world0 = Ret w' \<and> ring_holds (wd_series w' 5) [9]
    \<and> pop_task 5 world0 = Ret (None, w'') \<and> wd_log w'' = [SeriesCallback 5, SeriesDeleted 5]"
  using series_queue_refines [OF world0_holds [of 5], of 9] by (fastforce simp: world0_def ring_full_def)

section \<open>The ring as an instance of the queue interface\<close>

text \<open>
  The tasks of a queue are different objects, whose numbers are below \<open>2 ^ 29\<close>, so that the array never
  needs \<open>2 ^ 30\<close> slots.
\<close>

definition ring_ok :: "series_work \<Rightarrow> bool" where
  "ring_ok s \<longleftrightarrow> (\<exists>xs. ring_holds s xs \<and> distinct xs \<and> set xs \<subseteq> {..<2 ^ 29}) \<and> sw_last s = None"

definition ring_new :: "nat \<Rightarrow> series_work \<Rightarrow> bool" where
  "ring_new x s \<longleftrightarrow> x < 2 ^ 29 \<and> x \<notin> set (ring_items s)"

lemma ring_okE:
  assumes "ring_ok s"
  obtains xs where "ring_holds s xs" "sw_last s = None" "ring_items s = xs" "distinct xs" "set xs \<subseteq> {..<2 ^ 29}" "length xs + 1 < 2 ^ 30"
proof -
  obtain xs where xs: "ring_holds s xs" "distinct xs" "set xs \<subseteq> {..<2 ^ 29}" "sw_last s = None" using assms by (auto simp: ring_ok_def)
  have "card (set xs) \<le> card {..<2 ^ 29 :: nat}" by (rule card_mono [OF finite_lessThan xs(3)])
  then have "length xs \<le> 2 ^ 29" using distinct_card [OF xs(2)] by simp
  then show ?thesis using that xs ring_items_holds [OF xs(1)] by simp
qed

definition ring_enq :: "nat \<Rightarrow> series_work \<Rightarrow> series_work" where
  "ring_enq t s = (case ring_push_back t s of UB \<Rightarrow> s | Ret s' \<Rightarrow> s')"

definition ring_deq :: "series_work \<Rightarrow> nat option \<times> series_work" where
  "ring_deq s = (case ring_pop s of UB \<Rightarrow> (None, s) | Ret r \<Rightarrow> r)"

lemma ring_enq_step:
  assumes "ring_ok s" "ring_new x s"
  shows "ring_ok (ring_enq x s) \<and> ring_items (ring_enq x s) = ring_items s @ [x]"
proof -
  obtain xs where h: "ring_holds s xs" "sw_last s = None" "ring_items s = xs" "distinct xs" "set xs \<subseteq> {..<2 ^ 29}" "length xs + 1 < 2 ^ 30"
    using assms(1) by (rule ring_okE)
  obtain s' where "ring_push_back x s = Ret s'" "ring_holds s' (xs @ [x])" "ring_only s s'"
    using ring_push_back_holds [OF h(1,6)] by blast
  then show ?thesis
    using h assms(2) by (auto simp: ring_enq_def ring_ok_def ring_new_def ring_items_holds ring_only_def intro!: exI [of _ "xs @ [x]"])
qed

lemma ring_deq_step:
  assumes "ring_ok s"
  shows "ring_ok (snd (ring_deq s)) \<and> (case ring_items s of [] \<Rightarrow> fst (ring_deq s) = None \<and> ring_items (snd (ring_deq s)) = []
      | x # xs \<Rightarrow> fst (ring_deq s) = Some x \<and> ring_items (snd (ring_deq s)) = xs)"
proof -
  obtain xs where h: "ring_holds s xs" "sw_last s = None" "ring_items s = xs" "distinct xs" "set xs \<subseteq> {..<2 ^ 29}"
    using assms(1) by (rule ring_okE)
  show ?thesis
  proof (cases xs)
    case Nil
    have "ring_pop s = Ret (None, s)"
      using ring_pop_empty [of s] h Nil by simp
    then show ?thesis
      using h assms Nil by (simp add: ring_deq_def)
  next
    case (Cons x ys)
    obtain s' where "ring_pop s = Ret (Some x, s')" "ring_holds s' ys" "ring_only s s'"
      using ring_pop_holds [of s x ys] h(1) Cons by auto
    then show ?thesis
      using h Cons by (auto simp: ring_deq_def ring_ok_def ring_items_holds ring_only_def intro!: exI [of _ ys])
  qed
qed

interpretation ring: fifo_queue ring_ok ring_items ring_new ring_enq ring_deq
proof
  show "ring_ok (ring_enq x s) \<and> ring_items (ring_enq x s) = ring_items s @ [x]" if "ring_ok s" "ring_new x s" for s x
    using that by (rule ring_enq_step)
  show "ring_ok (snd (ring_deq s)) \<and> (case ring_items s of [] \<Rightarrow> fst (ring_deq s) = None \<and> ring_items (snd (ring_deq s)) = []
      | x # xs \<Rightarrow> fst (ring_deq s) = Some x \<and> ring_items (snd (ring_deq s)) = xs)" if "ring_ok s" for s
    using that by (rule ring_deq_step)
  show "ring_new y (ring_enq x s)" if "ring_ok s" "ring_new x s" "ring_new y s" "x \<noteq> y" for s x y
    using ring_enq_step [OF that(1,2)] that(3,4) by (auto simp: ring_new_def)
  show "ring_new y (snd (ring_deq s))" if "ring_ok s" "ring_new y s" for s y
    using ring_deq_step [OF that(1)] that(2) by (auto simp: ring_new_def split: list.splits)
qed

text \<open>
  In any run of pushes at the back and pops, the tasks that come out of the ring and those
  still in it are, in order, those that were in it and those that were pushed, however often
  the array grows and wraps.
\<close>

theorem series_run_order:
  assumes "ring_holds s xs" "sw_last s = None" "distinct (xs @ enqueued ops)" "set (xs @ enqueued ops) \<subseteq> {..<2 ^ 29}"
  shows "fst (queue_run ring_enq ring_deq ops s) @ ring_items (snd (queue_run ring_enq ring_deq ops s)) = xs @ enqueued ops"
  using ring.history [of s ops] assms ring_items_holds [OF assms(1)] by (auto simp: ring_ok_def ring_new_def)

theorem series_run_order_witness:
  "fst (queue_run ring_enq ring_deq (map Enq [1, 2, 3, 4, 5] @ [Deq, Deq, Enq 6, Deq]) (wd_series world0 0))
    @ ring_items (snd (queue_run ring_enq ring_deq (map Enq [1, 2, 3, 4, 5] @ [Deq, Deq, Enq 6, Deq]) (wd_series world0 0)))
   = [1, 2, 3, 4, 5, 6]"
  using series_run_order [OF world0_holds [of 0], of "map Enq [1, 2, 3, 4, 5] @ [Deq, Deq, Enq 6, Deq]"]
  by (simp add: world0_def)

section \<open>The cancelation of a series\<close>

text \<open>
  \<open>pop\<close> on a canceled series gives no task, and before it returns every task that was still
  queued is deleted, in the order in which it would have run, the last task after the others;
  then the callback of the series is called, exactly once, and the series deletes itself unless
  a parallel work owns it.
\<close>

theorem canceled_series_pop:
  assumes "ring_holds (wd_series w s) xs" "sw_canceled (wd_series w s)"
    "\<forall>t\<in>set (left_tasks xs (wd_series w s)). wd_par w t = None" "length xs + 2 \<le> f"
  shows "\<exists>w'. series_pop f s w = Ret (Some (None, w'))
    \<and> wd_log w' = wd_log w @ map TaskDeleted (left_tasks xs (wd_series w s))
        @ (if sw_callback (wd_series w s) then [SeriesCallback s] else [])
        @ (if sw_in_parallel (wd_series w s) then [] else [SeriesDeleted s])"
  using cancel_pops [OF assms(1,3,4)] assms(2) by (auto simp: series_pop_def end_events_def)

definition canceled_world :: world where
  "canceled_world = series_cancel 7 (set_last_task 7 20
     (case series_push_back 7 11 world0 of UB \<Rightarrow> world0 | Ret w \<Rightarrow> (case series_push_front 7 10 w of UB \<Rightarrow> w | Ret w' \<Rightarrow> w')))"

theorem canceled_series_pop_witness:
  "\<exists>w'. series_pop 4 7 canceled_world = Ret (Some (None, w'))
    \<and> wd_log w' = [TaskDeleted 10, TaskDeleted 11, TaskDeleted 20, SeriesCallback 7, SeriesDeleted 7]"
proof -
  have "ring_holds (wd_series canceled_world 7) [10, 11]" "sw_canceled (wd_series canceled_world 7)"
      "left_tasks [10, 11] (wd_series canceled_world 7) = [10, 11, 20]" "sw_callback (wd_series canceled_world 7)"
      "\<not> sw_in_parallel (wd_series canceled_world 7)" "wd_log canceled_world = []"
      "\<forall>t\<in>set [10, 11, 20]. wd_par canceled_world t = None"
    by code_simp+
  then show ?thesis
    using canceled_series_pop [of canceled_world 7 "[10, 11]" 4] by simp
qed

section \<open>A parallel work is a barrier\<close>

text \<open>
  The dispatch of a parallel work of started tasks makes it their parent, dispatches them all
  in the order of their series and counts them in \<open>nleft\<close>.
\<close>

theorem parallel_dispatch:
  assumes "wd_par w p = Some pw" "take (pw_nr pw) (pw_subtasks pw) = map Some ts" "length ts = pw_nr pw" "ts \<noteq> []"
    "\<forall>t\<in>set ts. t \<noteq> p \<and> wd_par w t = None" "length ts + 1 < f"
  shows "\<exists>w'. dispatch f p w = Ret (Some w') \<and> wd_log w' = wd_log w @ map Dispatched ts
    \<and> (\<forall>t. wd_parent w' t = (if t \<in> set ts then Some p else wd_parent w t))
    \<and> wd_par w' = (wd_par w)(p := Some (pw\<lparr>pw_nleft := length ts\<rparr>))"
proof -
  obtain g where f: "f = Suc g" "length ts < g" using assms(6) by (cases f) auto
  let ?w = "w\<lparr>wd_par := (wd_par w)(p := Some (pw\<lparr>pw_nleft := pw_nr pw\<rparr>))\<rparr>"
  have "dispatch f p w = dispatch_all g p (map Some ts) ?w"
    using assms(1-4) unfolding f by (cases ts) (simp_all add: Let_def)
  then show ?thesis
    using dispatch_all_plain [of ts ?w g p] f(2) assms(3,5) by auto
qed

text \<open>
  C10. A parallel work is a barrier. Its started tasks complete in any order, each the only task
  left of its series. While one of them has not completed, only the tasks that have and their
  series end; with the last one, whichever it is, the callback of the parallel work is called,
  exactly once and after all the others, its series and itself are deleted, and the next task of
  the series that the work belongs to is dispatched, with the parent that the work had.
\<close>

theorem parallel_barrier:
  assumes "wd_par w p = Some pw" "pw_nleft pw = Suc (length ts)" "pw_nleft pw < 2 ^ 64"
    "\<forall>t'\<in>set (ts @ [t]). subtask_ready w p t'" "distinct (map (wd_pointer w) (p # ts @ [t]))"
    "wd_pointer w p = Some outer" "\<not> sw_canceled (wd_series w outer)"
    "ring_holds (wd_series w outer) (x # ys)" "wd_par w x = None"
  shows "\<exists>w1 w2. complete_all 3 ts w = Ret (Some w1) \<and> wd_log w1 = wd_log w @ concat (map (sub_events w) ts)
    \<and> subtask_done 3 t w1 = Ret (Some w2)
    \<and> wd_log w2 = wd_log w1 @ sub_events w t @ (if pw_callback pw then [ParallelCallback p] else [])
        @ map (\<lambda>s. SeriesDeleted (the s)) (take (pw_nr pw) (pw_all_series pw)) @ [TaskDeleted p, Dispatched x]
    \<and> wd_parent w2 x = wd_parent w p \<and> ring_holds (wd_series w2 outer) ys"
proof -
  obtain w1 where w1: "complete_all 3 ts w = Ret (Some w1)" "wd_log w1 = wd_log w @ concat (map (sub_events w) ts)"
      "same_but (set (map (wd_pointer w) ts)) w w1"
      "wd_par w1 = (wd_par w)(p := Some (pw\<lparr>pw_nleft := 1\<rparr>))"
  proof -
    have three: "3 = Suc 2" by simp
    show ?thesis
      using that complete_some [of ts w p pw 2] assms(1-5) unfolding three by auto
  qed
  have d: "Some outer \<notin> wd_pointer w ` set ts" "wd_pointer w t \<notin> wd_pointer w ` set ts" "wd_pointer w t \<noteq> Some outer"
    using assms(5,6) by auto
  have p: "x \<noteq> p" "t \<noteq> p" using assms(1,4,9) by (auto simp: subtask_ready_def)
  have "subtask_ready w1 p t \<and> sub_events w1 t = sub_events w t"
    using assms(4) w1(3,4) d p by (auto simp: subtask_ready_def same_but_def sub_events_def split: option.splits)
  moreover have "wd_series w1 outer = wd_series w outer" "wd_pointer w1 = wd_pointer w" "wd_parent w1 = wd_parent w"
    using w1(3) d by (auto simp: same_but_def)
  ultimately have "\<exists>w2. subtask_done (Suc (Suc (Suc 0))) t w1 = Ret (Some w2)
    \<and> wd_log w2 = wd_log w1 @ sub_events w t @ (if pw_callback pw then [ParallelCallback p] else [])
        @ map (\<lambda>s. SeriesDeleted (the s)) (take (pw_nr pw) (pw_all_series pw)) @ [TaskDeleted p, Dispatched x]
    \<and> wd_parent w2 x = wd_parent w p \<and> ring_holds (wd_series w2 outer) ys"
    using last_complete [of w1 p t "pw\<lparr>pw_nleft := 1\<rparr>" outer x ys 0] w1(4) assms(6-9) p d(3) by simp
  then show ?thesis
    using w1(1,2) unfolding numeral_3_eq_3 by (auto simp del: subtask_done.simps complete_all.simps)
qed

text \<open>A parallel work 9 of two series, in the outer series 0 with the tasks 9 and 50.\<close>

definition try_do :: "'a \<Rightarrow> 'a outcome \<Rightarrow> 'a" where
  "try_do d r = (case r of UB \<Rightarrow> d | Ret w \<Rightarrow> w)"

definition barrier_world :: world where
  "barrier_world =
     (let w1 = try_do world0 (series_init 1 31 True world0);
          w2 = try_do w1 (series_init 2 32 False w1);
          w3 = try_do w2 (parallel_init_series 9 [1, 2] True w2);
          w4 = try_do w3 (series_init 0 9 True w3)
      in try_do w4 (series_push_back 0 50 w4))"

definition started_world :: world where
  "started_world = (case start_series 9 0 barrier_world of Ret (Some w) \<Rightarrow> w | _ \<Rightarrow> barrier_world)"

definition barrier_work :: parallel_work where
  "barrier_work = \<lparr>pw_callback = True, pw_subtasks = [Some 31, Some 32, None, None],
     pw_all_series = [Some 1, Some 2, None, None], pw_nr = 2, pw_nleft = 0\<rparr>"

theorem parallel_dispatch_witness:
  "\<exists>w'. dispatch 9 9 barrier_world = Ret (Some w') \<and> wd_log w' = [Dispatched 31, Dispatched 32]"
proof -
  have "wd_par barrier_world 9 = Some barrier_work" "wd_log barrier_world = []"
      "\<forall>t\<in>set [31, 32]. t \<noteq> 9 \<and> wd_par barrier_world t = None"
    by code_simp+
  then show ?thesis
    using parallel_dispatch [of barrier_world 9 barrier_work "[31, 32]" 9] by (auto simp: barrier_work_def)
qed

theorem parallel_barrier_witness:
  "\<exists>w1 w2. complete_all 3 [32] started_world = Ret (Some w1)
    \<and> wd_log w1 = [Dispatched 31, Dispatched 32, TaskDeleted 32]
    \<and> subtask_done 3 31 w1 = Ret (Some w2)
    \<and> wd_log w2 = wd_log w1 @ [TaskDeleted 31, SeriesCallback 1, ParallelCallback 9, SeriesDeleted 1, SeriesDeleted 2,
        TaskDeleted 9, Dispatched 50]"
proof -
  have "wd_par started_world 9 = Some (barrier_work\<lparr>pw_nleft := 2\<rparr>)"
      "\<forall>t\<in>set ([32] @ [31]). subtask_ready started_world 9 t"
      "distinct (map (wd_pointer started_world) (9 # [32] @ [31]))" "wd_pointer started_world 9 = Some 0"
      "\<not> sw_canceled (wd_series started_world 0)" "ring_holds (wd_series started_world 0) [50]"
      "wd_par started_world 50 = None" "wd_log started_world = [Dispatched 31, Dispatched 32]"
      "sub_events started_world 31 = [TaskDeleted 31, SeriesCallback 1]" "sub_events started_world 32 = [TaskDeleted 32]"
    by code_simp+
  then show ?thesis
    using parallel_barrier [of started_world 9 "barrier_work\<lparr>pw_nleft := 2\<rparr>" "[32]" 31 0 50 "[]"]
    by (auto simp: barrier_work_def simp del: complete_all.simps subtask_done.simps)
qed

end
