(* ===== verification/Spec2Isabelle.thy ===== *)
theory Spec2Isabelle
  imports Rbtree RbtreeHeap RbtreeInsert RbtreeErase RbtreeRemove RbtreeProps LinkList Poller PollerTree PollerInv PollerOps PollerSteps PollerThread PollerExpiry PollerStop PollerProps PollerReach PollerIO PollerIOProps HttpPrefix PollerRead PollerHttp PollerLoop Mpoller StringUtil URIParser URIQuery HttpParser HttpSafety HttpStream HttpRoundTrip HttpMessage HttpUtil HttpTask HttpTaskProps ArrayHeap CommSched CommSchedInv CommSchedSteps CommSchedProps RouteManager RouteInv RouteEntry RouteInit RouteCache RouteGet RouteProps RouteReach RouteEnd Communicator CommHandlers CommClient CommClientInv CommClientOps CommClientSend CommClientReq CommClientReach CommClientProps CommInit CommProps CommReply Fifo MsgQueue ThrdPool Workflow WorkflowQueue WorkflowParallel WorkflowProps
begin

text \<open>
  A verification development for \<open>tinywf\<close>, a small C++ library of asynchronous network tasks:
  HTTP messages are parsed and printed, requests are scheduled over targets with limited
  connections, sockets are watched by an event loop, and tasks are composed to series and parallel
  works that run on a thread pool.

  \<^bold>\<open>The program and its parts.\<close> An HTTP client task (\<open>HttpTaskImpl\<close> on \<open>WFTaskFactory\<close>) gets its host
  from a URI (\<open>URIParser\<close>) and a target from the routes (\<open>RouteManager\<close>), waits for a connection of
  the target or of a group of targets (\<open>CommScheduler\<close>), and sends its request on a new or kept
  connection (\<open>Communicator\<close>), whose sockets are read, written and timed by an event loop (\<open>poller\<close>,
  \<open>mpoller\<close>, with \<open>rbtree\<close> and \<open>list\<close> for the deadlines). Messages are \<open>HttpMessage\<close> over
  \<open>http_parser\<close>, with \<open>HttpUtil\<close> for what the user reads of them. When a task is done it is retried or
  redirected, or its series gives the next task (\<open>Workflow\<close>, \<open>SubTask\<close>). The handlers run on the
  threads of a pool (\<open>thrdpool\<close>) that take the results of the event loop from a queue (\<open>msgqueue\<close>).

  \<^bold>\<open>Theories and what they model.\<close>
  \<^item> \<open>Prelude\<close>: bytes and their codes, the type \<open>outcome\<close> whose \<open>UB\<close> stands for an access outside
    an object or to one that is gone, a failed assertion or another undefined behaviour, and generic
    lemmas. \<open>CString\<close>: the functions of the C library on characters and strings.
  \<^item> \<open>StringUtil\<close>: \<open>src/util/StringUtil.cc\<close>. The in-place decoder works on a buffer and indices as
    the code does; a lemma relates it to the function on strings.
  \<^item> \<open>URIParser\<close>, \<open>URIQuery\<close>: \<open>src/common/URIParser.cc\<close>. The character tables are functions, the
    parser is one loop for each phase over the string with its end, \<open>start_idx\<close> and \<open>end_idx\<close> are
    lists of indexes, the length of a bracketed host is taken modulo \<open>2 ^ 64\<close>, and a copy that leaves
    the string and its terminating NUL is \<open>UB\<close>. The queries are split by the two functions of the code.
  \<^item> \<open>HttpParser\<close>: \<open>src/protocol/http_parser.c\<close>. The record \<open>http_parser\<close> has the fields of the
    C structure, the intrusive lists of headers are lists, \<open>malloc\<close> and \<open>realloc\<close> are parameters that
    say whether an allocation succeeds. The functions that have the names of the code write into
    buffers of their size (\<open>msgbuf\<close>, \<open>namebuf\<close>, and \<open>start_line\<close>, \<open>header_value\<close>, \<open>chunk_line\<close> on the
    stack), where a write outside is \<open>UB\<close>; those whose names end in \<open>_ref\<close> are the same on
    unbounded strings, and the lemmas \<open>_ref_eq\<close> say that they agree, so that \<open>HttpSafety\<close>, \<open>HttpStream\<close>,
    \<open>HttpRoundTrip\<close> and \<open>HttpPrefix\<close>, which hold the properties, reason about the simpler ones.
  \<^item> \<open>HttpMessage\<close>: \<open>src/protocol/HttpMessage.cc\<close> and the header; \<open>HttpUtil\<close>: \<open>src/util/HttpUtil.cc\<close>.
  \<^item> \<open>HttpTask\<close>, \<open>HttpTaskProps\<close>: \<open>src/factory/HttpTaskImpl.cc\<close> with the client task of
    \<open>src/factory/WFTaskFactory.h\<close>, \<open>src/net/CommRequest.cc\<close> and the ports of schemes of
    \<open>src/manager/WFGlobal.cc\<close>. One round of a task is its dispatch, the answer of the router or of the
    network, which are arguments, and what \<open>done\<close> makes of it.
  \<^item> \<open>Rbtree\<close> and the theories \<open>RbtreeHeap\<close> to \<open>RbtreeProps\<close>: \<open>src/struct/rbtree.c\<close> on a heap of
    nodes with their three pointers and colour; a null pointer that is followed is \<open>UB\<close>, a loop that does
    not end is \<open>None\<close>. \<open>LinkList\<close>: \<open>src/struct/list.h\<close>, the rings and the lists with a tail pointer.
  \<^item> \<open>Poller\<close>: \<open>src/poller/poller.c\<close>, the interface and the thread's regions under the mutex: the
    nodes with their lists and tree of deadlines, the table of descriptors, what is registered with the
    kernel, the pipe and the nodes delivered. \<open>PollerTree\<close> to \<open>PollerReach\<close> hold its invariant and
    properties. \<open>PollerIO\<close>: the handlers of reading, writing, connecting, accepting and notifying, with
    the system calls and OpenSSL as arguments. \<open>PollerRead\<close> and \<open>PollerHttp\<close>: reading in pieces.
    \<open>PollerLoop\<close>: one round of the thread. \<open>Mpoller\<close>: \<open>src/poller/mpoller.c\<close>.
  \<^item> \<open>ArrayHeap\<close>, \<open>CommSched\<close>, \<open>CommSchedInv\<close>, \<open>CommSchedSteps\<close>, \<open>CommSchedProps\<close>:
    \<open>src/net/CommScheduler.cc\<close>. Targets and groups live in a store; a group holds its targets in
    an array heap in which every target knows its index. The regions under the mutexes are
    functions, and an inductive step relation interleaves them.
  \<^item> \<open>RouteManager\<close> and the theories \<open>RouteInv\<close> to \<open>RouteEnd\<close>: \<open>src/manager/RouteManager.cc\<close> over
    \<open>CommSched\<close>. Objects are numbers in the order of their allocation, \<open>SHA1\<close> is an argument, the keys
    are those of a little-endian machine, and what is done under the mutex of an entry is one step.
  \<^item> \<open>Communicator\<close>, \<open>CommHandlers\<close>, \<open>CommInit\<close>: \<open>src/net/Communicator.cc\<close>. The event loop is seen
    through every entry of a connection: the node of its socket and the results that no handler has
    taken. What a handler does after the user's \<open>handle\<close> is a step of its own, since other threads go on
    while \<open>handle\<close> runs; a request is one step for what it sets first, for each round of its search of the
    idle list, for a new connection and for its failure. An entry that the node, a result or a thread
    after \<open>handle\<close> will still use must not be released: that is \<open>UB\<close>. \<open>CommClient\<close> to \<open>CommClientProps\<close>
    hold the interleavings and properties of the connections of clients, \<open>CommProps\<close> time limits,
    sending and services, \<open>CommReply\<close> the steps of clients and servers together and replies.
  \<^item> \<open>Fifo\<close>, \<open>MsgQueue\<close>, \<open>ThrdPool\<close>: \<open>src/common/msgqueue.c\<close> at the level of its link pointers, and
    \<open>src/common/thrdpool.c\<close>, as step relations over threads.
  \<^item> \<open>Workflow\<close>, \<open>WorkflowQueue\<close>, \<open>WorkflowParallel\<close>, \<open>WorkflowProps\<close>: \<open>src/factory/Workflow.cc\<close>,
    its header and \<open>src/task/SubTask.cc\<close>. Tasks, series and parallel works live in a store; what is
    visible outside (dispatched tasks, callbacks, deletions) is a log.

  \<^bold>\<open>Interfaces.\<close> \<open>comparison\<close> (in \<open>ArrayHeap\<close>) is the contract of a comparison that orders an array
    heap; it is interpreted in \<open>CommSchedInv\<close> by the comparison of the load ratios of two targets,
    whose cross products stand for fractions. \<open>fifo_queue\<close> (in \<open>Fifo\<close>) is the contract of a queue;
    it is interpreted in \<open>MsgQueue\<close> by the two linked lists of the message queue and in
    \<open>WorkflowProps\<close> by the growing ring array of a series, and both get the lemma on histories:
    nothing is lost, repeated or reordered. \<open>message_stream\<close> (in \<open>PollerRead\<close>) is what the read handler
    needs of a message that is appended to; it is interpreted in \<open>PollerHttp\<close> by the HTTP parser.

  \<^bold>\<open>What the lemmas show.\<close>
  \<^item> Strings and URIs: the decoder undoes the encoder, stays in its buffer and refines the function on
    strings; splitting is the inverse of joining; a printed URI is parsed to its parts; every index that
    the parser finds is inside the string and it copies only bytes of it, unless a host is a single
    opening bracket (concrete failures are lemmas).
  \<^item> The HTTP parser: the invariant of its buffers is kept by every append, in every state and with
    every allocation failure, and no write leaves a buffer; cutting a message into pieces does not
    change the result; printed requests, with a length or with chunks, are parsed back, and pipelined
    bytes are left over.
  \<^item> Messages: the encoder writes the message in at most the given number of vectors; what it writes is
    parsed back by the other side; \<open>100-continue\<close> is sent at most once.
  \<^item> HTTP tasks: a client task ends with one call of its callback after a bounded number of retries and
    redirects; what a server's reply carries and how long its connection is kept.
  \<^item> Trees and lists: insertion and removal at the level of pointers return, keep the tree balanced and
    its order, and the walks visit the nodes in order; the operations of \<open>list.h\<close> are those on lists.
  \<^item> The event loop: in every interleaving a node is registered, in the pipe or delivered, exactly once;
    every operation returns; expired nodes and only those get \<open>ETIMEDOUT\<close>; stopping delivers the rest;
    writing writes a prefix of the bytes; reading does not depend on how the bytes were cut.
  \<^item> The scheduler: in all reachable states the loads are within their limits, the heaps are ordered
    and indexed and the groups count their loads; a group gives its least loaded target; a
    release wakes exactly one waiter; a failed request leaves no load behind.
  \<^item> Routes: in every reachable state a cached entry is well formed and keeps a target in service; a
    missing one is added completely or not at all; targets that failed come back after their time;
    destroying the manager frees every object once.
  \<^item> Connections of clients: in every interleaving each entry is well formed with its exact number of
    references, nothing that is gone or still needed is misused, every accepted request is answered and
    its target released exactly once, and a communicator without new requests comes to rest. Time
    limits, sending, draining, starting and stopping; a session is replied to at most once.
  \<^item> The queue and the pool: in all interleavings messages leave in order, each once, within the bound;
    every thread is joined once.
  \<^item> Series and parallel works: the ring array is a list; a canceled series deletes what is left in
    order; a parallel work ends exactly when its last series does and then continues its series.

  \<^bold>\<open>Bounds and fuel.\<close> \<open>size_t\<close> values are integers with the wrap written out as \<open>mod 2 ^ 64\<close>, \<open>int\<close>
  fields are integers, and where a computation of the code may overflow an \<open>int\<close> the model says so: doubling the
  array of a series or of a group is \<open>UB\<close> beyond \<open>int\<close>, the time limits are taken modulo \<open>2 ^ 32\<close>. Strings given
  to the URI parser are shorter than \<open>2 ^ 31\<close>, a table of descriptors has at most \<open>2 ^ 63\<close> places, the
  addresses of a route are less than \<open>2 ^ 29\<close> and its connections less than \<open>2 ^ 32\<close>; the counter \<open>nbreak\<close> of
  a route is unbounded. Loops end by a measure; those over pointers are partial functions whose
  value \<open>None\<close>, not returning, is proved not to occur. The operations of \<open>Workflow\<close> that call each other through
  tasks (\<open>dispatch\<close>, \<open>subtask_done\<close>, the destructors) take fuel, one unit for a call; the theorems name
  an amount that is enough. Addresses of new objects are fresh numbers.

  \<^bold>\<open>Not modelled.\<close> \<open>malloc\<close> is modelled by its failures only; freeing is modelled where an object may be
  used after it (entries of connections, nodes of the event loop, routes, series). Regions under a
  mutex are atomic steps; so is the test and set of \<open>passive\<close> in \<open>Communicator::reply\<close>, which the code
  does without a lock. The pipe of the event loop is unbounded: a write that blocks or fails on a full pipe does
  not occur. Of \<open>Communicator\<close> the feedback of sessions and \<open>deinit\<close> of targets and services, and the
  interleavings of servers beyond \<open>CommReply\<close>, are left out. \<open>WFServer\<close> binds and starts a service, the
  rest of \<open>WFGlobal\<close> constructs singletons, the remaining factories are wrappers, and the examples use the
  library; they are not modelled.
\<close>

end
